(* ===== verification/Duallity_Prelude.thy ===== *)
theory Duallity_Prelude
  imports Complex_Main "HOL-Library.Word"
begin

text \<open>
  The shared vocabulary of the development: Rust's fixed-width integers with their checked
  and saturating operations, \<open>f64\<close> weights, the WFST records that every adapter emits
  (\<open>WeightedTransition\<close>, \<open>StateExpansion\<close>, \<open>ExpansionError\<close>) and the dictionary
  interface (\<open>Dictionary\<close>/\<open>DictionaryNode\<close>) that the adapters are parameterised over.

  \<open>u32\<close> and \<open>u64\<close> values are words. \<open>usize\<close> values are naturals: the crate uses them for
  lengths and indices, and every operation that can leave the 64-bit range is written with
  its saturating or checked meaning (a 64-bit target is fixed, \<open>usize::MAX = 2 ^ 64 - 1\<close>).
  A Rust \<open>char\<close> is the natural number of its code point.
\<close>

named_theorems width_simps "checked and saturating machine arithmetic, read as naturals"
named_theorems reg_simps "registries: how each operation changes lookups and entries"

section \<open>Fixed-width integers\<close>

type_synonym u32 = "32 word"
type_synonym u64 = "64 word"
type_synonym usize = nat
type_synonym uchar = nat
type_synonym state_id = u32

definition checked_add :: "'a::len word \<Rightarrow> 'a word \<Rightarrow> 'a word option" where
  "checked_add a b = (if unat a + unat b < 2 ^ LENGTH('a) then Some (a + b) else None)"

definition checked_mul :: "'a::len word \<Rightarrow> 'a word \<Rightarrow> 'a word option" where
  "checked_mul a b = (if unat a * unat b < 2 ^ LENGTH('a) then Some (a * b) else None)"

definition saturating_add :: "'a::len word \<Rightarrow> 'a word \<Rightarrow> 'a word" where
  "saturating_add a b = (if unat a + unat b < 2 ^ LENGTH('a) then a + b else - 1)"

definition saturating_mul :: "'a::len word \<Rightarrow> 'a word \<Rightarrow> 'a word" where
  "saturating_mul a b = (if unat a * unat b < 2 ^ LENGTH('a) then a * b else - 1)"

lemma unat_less_exp: "unat (w :: 'a::len word) < 2 ^ LENGTH('a)"
  by (rule unsigned_less)

lemma unat_minus_one_word_eq: "unat (- 1 :: 'a::len word) = 2 ^ LENGTH('a) - 1"
  by (simp add: unsigned_minus_1_eq_mask mask_eq_exp_minus_1)

lemma checked_add_eq_Some [width_simps]:
  fixes a b c :: "'a::len word"
  shows "checked_add a b = Some c \<longleftrightarrow> unat c = unat a + unat b"
proof
  assume "checked_add a b = Some c"
  then show "unat c = unat a + unat b"
    by (auto simp: checked_add_def unat_word_ariths split: if_splits)
next
  assume *: "unat c = unat a + unat b"
  then have lt: "unat a + unat b < 2 ^ LENGTH('a)"
    using unat_less_exp [of c] by simp
  then have "unat (a + b) = unat c" using * by (simp add: unat_word_ariths)
  then show "checked_add a b = Some c" using lt by (simp add: checked_add_def word_unat_eq_iff)
qed

lemma checked_mul_eq_Some [width_simps]:
  fixes a b c :: "'a::len word"
  shows "checked_mul a b = Some c \<longleftrightarrow> unat c = unat a * unat b"
proof
  assume "checked_mul a b = Some c"
  then show "unat c = unat a * unat b"
    by (auto simp: checked_mul_def unat_word_ariths split: if_splits)
next
  assume *: "unat c = unat a * unat b"
  then have lt: "unat a * unat b < 2 ^ LENGTH('a)"
    using unat_less_exp [of c] by simp
  then have "unat (a * b) = unat c" using * by (simp add: unat_word_ariths)
  then show "checked_mul a b = Some c" using lt by (simp add: checked_mul_def word_unat_eq_iff)
qed

lemma checked_add_eq_None [width_simps]:
  fixes a b :: "'a::len word"
  shows "checked_add a b = None \<longleftrightarrow> 2 ^ LENGTH('a) \<le> unat a + unat b"
  by (auto simp: checked_add_def)

lemma checked_mul_eq_None [width_simps]:
  fixes a b :: "'a::len word"
  shows "checked_mul a b = None \<longleftrightarrow> 2 ^ LENGTH('a) \<le> unat a * unat b"
  by (auto simp: checked_mul_def)

lemma unat_saturating_add [width_simps]:
  fixes a b :: "'a::len word"
  shows "unat (saturating_add a b) = min (unat a + unat b) (2 ^ LENGTH('a) - 1)"
  by (auto simp: saturating_add_def unat_word_ariths unat_minus_one_word_eq min_def)

lemma unat_saturating_mul [width_simps]:
  fixes a b :: "'a::len word"
  shows "unat (saturating_mul a b) = min (unat a * unat b) (2 ^ LENGTH('a) - 1)"
proof (cases "unat a * unat b < 2 ^ LENGTH('a)")
  case True
  then have "unat a * unat b \<le> 2 ^ LENGTH('a) - 1" by linarith
  with True show ?thesis by (simp add: saturating_mul_def unat_word_ariths)
next
  case False
  then have "2 ^ LENGTH('a) - 1 \<le> unat a * unat b" by linarith
  with False show ?thesis by (simp add: saturating_mul_def unat_minus_one_word_eq)
qed

subsection \<open>\<open>usize\<close>\<close>

definition usize_max :: usize where
  "usize_max = 2 ^ 64 - 1"

definition u32_max :: u32 where
  "u32_max = - 1"

lemma unat_u32_max [simp]: "unat u32_max = 2 ^ 32 - 1"
  by (simp add: u32_max_def unat_minus_one_word_eq)

definition usize_sat_add :: "usize \<Rightarrow> usize \<Rightarrow> usize" where
  "usize_sat_add a b = min (a + b) usize_max"

definition usize_sat_mul :: "usize \<Rightarrow> usize \<Rightarrow> usize" where
  "usize_sat_mul a b = min (a * b) usize_max"

definition usize_sat_sub :: "usize \<Rightarrow> usize \<Rightarrow> usize" where
  "usize_sat_sub a b = a - b"

definition usize_checked_add :: "usize \<Rightarrow> usize \<Rightarrow> usize option" where
  "usize_checked_add a b = (if a + b \<le> usize_max then Some (a + b) else None)"

definition usize_checked_sub :: "usize \<Rightarrow> usize \<Rightarrow> usize option" where
  "usize_checked_sub a b = (if b \<le> a then Some (a - b) else None)"

text \<open>\<open>u32::try_from\<close> of a \<open>usize\<close>, and \<open>usize::try_from\<close> of a \<open>u32\<close>.\<close>

definition u32_try_from :: "usize \<Rightarrow> u32 option" where
  "u32_try_from n = (if n < 2 ^ 32 then Some (of_nat n) else None)"

definition usize_try_from_u32 :: "u32 \<Rightarrow> usize option" where
  "usize_try_from_u32 v = (if unat v \<le> usize_max then Some (unat v) else None)"

lemma u32_try_from_eq_Some [width_simps]: "u32_try_from n = Some v \<longleftrightarrow> unat v = n"
proof
  show "u32_try_from n = Some v \<Longrightarrow> unat v = n"
    by (auto simp: u32_try_from_def unat_of_nat split: if_splits)
  show "unat v = n \<Longrightarrow> u32_try_from n = Some v"
    using unat_less_exp [of v] by (auto simp: u32_try_from_def)
qed

lemma u32_try_from_eq_None [width_simps]: "u32_try_from n = None \<longleftrightarrow> 2 ^ 32 \<le> n"
  by (auto simp: u32_try_from_def)

lemma unat_u32_le: "unat (v :: u32) \<le> 2 ^ 32 - 1"
  using unat_less_exp [of v] by simp

lemma usize_try_from_u32 [simp]: "usize_try_from_u32 v = Some (unat v)"
  using unat_u32_le [of v] by (simp add: usize_try_from_u32_def usize_max_def)

section \<open>\<open>f64\<close> values and weights\<close>

text \<open>
  The crate stores weights, compares them and converts small counts exactly; sums and products of weights are
  formed only where the phonetic product scales a distance. A
  finite \<open>f64\<close> is its rational value and these operations are exact: rounding is not modelled, and the
  sign of zero is not represented.
\<close>

datatype f64 = F64_NaN | F64_NegInf | F64_PosInf | F64 rat

definition f64_is_finite :: "f64 \<Rightarrow> bool" where
  "f64_is_finite x = (case x of F64 _ \<Rightarrow> True | _ \<Rightarrow> False)"

text \<open>The IEEE comparisons \<open><\<close> and \<open>>=\<close>: false when a side is not a number.\<close>

fun f64_lt :: "f64 \<Rightarrow> f64 \<Rightarrow> bool" where
  "f64_lt F64_NaN _ = False"
| "f64_lt _ F64_NaN = False"
| "f64_lt F64_NegInf y = (y \<noteq> F64_NegInf)"
| "f64_lt F64_PosInf _ = False"
| "f64_lt (F64 a) F64_NegInf = False"
| "f64_lt (F64 a) F64_PosInf = True"
| "f64_lt (F64 a) (F64 b) = (a < b)"

definition f64_ge :: "f64 \<Rightarrow> f64 \<Rightarrow> bool" where
  "f64_ge x y = (x \<noteq> F64_NaN \<and> y \<noteq> F64_NaN \<and> \<not> f64_lt x y)"

type_synonym weight = f64

text \<open>The tropical semiring names: \<open>zero\<close> is plus infinity, \<open>one\<close> is 0.\<close>

definition tropical_zero :: weight where
  "tropical_zero = F64_PosInf"

definition tropical_one :: weight where
  "tropical_one = F64 0"

definition f64_of_nat :: "nat \<Rightarrow> f64" where
  "f64_of_nat n = F64 (of_nat n)"

lemma f64_of_nat_inject [simp]: "f64_of_nat m = f64_of_nat n \<longleftrightarrow> m = n"
  by (simp add: f64_of_nat_def)

section \<open>Lists built from lists\<close>

lemma in_map_filter: "y \<in> set (List.map_filter f xs) \<longleftrightarrow> (\<exists>x \<in> set xs. f x = Some y)"
  by (force simp: List.map_filter_def)

lemma in_map_if: "y \<in> set (if P then map f xs else []) \<longleftrightarrow> P \<and> (\<exists>x \<in> set xs. f x = y)"
  by auto

section \<open>WFST data\<close>

text \<open>\<open>WeightedTransition<char, W>\<close>: an empty label is epsilon.\<close>

record transition =
  t_from :: state_id
  t_input :: "uchar option"
  t_output :: "uchar option"
  t_to :: state_id
  t_weight :: weight

abbreviation mk_transition ::
    "state_id \<Rightarrow> uchar option \<Rightarrow> uchar option \<Rightarrow> state_id \<Rightarrow> weight \<Rightarrow> transition" where
  "mk_transition fr i o' to w \<equiv>
     \<lparr>t_from = fr, t_input = i, t_output = o', t_to = to, t_weight = w\<rparr>"

text \<open>The word a label spells.\<close>

fun label_word :: "uchar option \<Rightarrow> uchar list" where
  "label_word None = []"
| "label_word (Some c) = [c]"

datatype expansion_failure =
    InvalidState state_id
  | ResourceExhausted string
  | SourceFailure string

datatype cancellation_reason = Cancelled_by_request | Cancelled_by_deadline

datatype expansion =
    Expanded bool weight "transition list"
  | Failed expansion_failure
  | Cancelled cancellation_reason

datatype expansion_error =
    Failure expansion_failure
  | CancelledError cancellation_reason

datatype expansion_status = ExpandedEmpty | ExpandedNonempty

text \<open>\<open>StateExpansion::final_state\<close> and \<open>StateExpansion::non_final\<close>.\<close>

definition final_state :: "weight \<Rightarrow> transition list \<Rightarrow> expansion" where
  "final_state w ts = Expanded True w ts"

definition non_final :: "transition list \<Rightarrow> expansion" where
  "non_final ts = Expanded False tropical_zero ts"

section \<open>The dictionary interface\<close>

text \<open>
  The dictionary is a parameter (\<open>libdictenstein\<close>): a root, an optional number of terms, and
  for every node its labelled edges, finality, optional edge count and edge test. Edge units
  become characters by \<open>Into<char>\<close> and characters become units by \<open>TryFrom<char>\<close>.
\<close>

record ('n, 'u) dictionary =
  dict_root :: 'n
  dict_len :: "usize option"
  node_edges :: "'n \<Rightarrow> ('u \<times> 'n) list"
  node_is_final :: "'n \<Rightarrow> bool"
  node_edge_count :: "'n \<Rightarrow> usize option"
  node_has_edge :: "'n \<Rightarrow> 'u \<Rightarrow> bool"
  unit_char :: "'u \<Rightarrow> uchar"
  char_unit :: "uchar \<Rightarrow> 'u option"

text \<open>The characters of Rust: code points up to 0x10FFFF (surrogates are never produced).\<close>

definition char_max :: uchar where
  "char_max = 0x10FFFF"

definition node_labels :: "('n, 'u) dictionary \<Rightarrow> 'n \<Rightarrow> uchar list" where
  "node_labels D n = map (\<lambda>(u, m). unit_char D u) (node_edges D n)"

text \<open>
  What the adapters rely on: the edges of a node carry distinct characters, an edge count
  counts them, and \<open>has_edge\<close> and the unit conversions agree with the edge list.
\<close>

definition dictionary_ok :: "('n, 'u) dictionary \<Rightarrow> bool" where
  "dictionary_ok D \<longleftrightarrow>
     (\<forall>n. distinct (node_labels D n)) \<and>
     (\<forall>n. \<forall>c \<in> set (node_labels D n). c \<le> char_max) \<and>
     (\<forall>n k. node_edge_count D n = Some k \<longrightarrow> k = length (node_edges D n)) \<and>
     (\<forall>n u. node_has_edge D n u \<longleftrightarrow> u \<in> set (map fst (node_edges D n))) \<and>
     (\<forall>c u. char_unit D c = Some u \<longrightarrow> unit_char D u = c) \<and>
     (\<forall>u. char_unit D (unit_char D u) = Some u)"

lemma dictionary_okD:
  assumes "dictionary_ok D"
  shows "distinct (node_labels D n)"
    and "node_edge_count D n = Some k \<Longrightarrow> k = length (node_edges D n)"
    and "node_has_edge D n u \<longleftrightarrow> (\<exists>m. (u, m) \<in> set (node_edges D n))"
    and "char_unit D c = Some u \<Longrightarrow> unit_char D u = c"
    and "char_unit D (unit_char D u) = Some u"
proof -
  have "node_has_edge D n u \<longleftrightarrow> u \<in> set (map fst (node_edges D n))"
    using assms unfolding dictionary_ok_def by blast
  then show "node_has_edge D n u \<longleftrightarrow> (\<exists>m. (u, m) \<in> set (node_edges D n))" by force
qed (use assms in \<open>unfold dictionary_ok_def, blast+\<close>)

text \<open>The child by a character, and the node at the end of a word.\<close>

definition child_by :: "('n, 'u) dictionary \<Rightarrow> 'n \<Rightarrow> uchar \<Rightarrow> 'n option" where
  "child_by D n c = map_of (map (\<lambda>(u, m). (unit_char D u, m)) (node_edges D n)) c"

fun walk :: "('n, 'u) dictionary \<Rightarrow> 'n \<Rightarrow> uchar list \<Rightarrow> 'n option" where
  "walk D n [] = Some n"
| "walk D n (c # cs) = (case child_by D n c of None \<Rightarrow> None | Some m \<Rightarrow> walk D m cs)"

definition dict_accepts :: "('n, 'u) dictionary \<Rightarrow> uchar list \<Rightarrow> bool" where
  "dict_accepts D w = (case walk D (dict_root D) w of None \<Rightarrow> False | Some n \<Rightarrow> node_is_final D n)"

lemma walk_append:
  "walk D n (xs @ ys) = (case walk D n xs of None \<Rightarrow> None | Some m \<Rightarrow> walk D m ys)"
  by (induction xs arbitrary: n) (auto split: option.splits)

lemma walk_snoc:
  "walk D n (xs @ [c]) = (case walk D n xs of None \<Rightarrow> None | Some m \<Rightarrow> child_by D m c)"
  by (simp add: walk_append split: option.splits)

lemma child_by_edge:
  assumes "dictionary_ok D" and "(u, m) \<in> set (node_edges D n)"
  shows "child_by D n (unit_char D u) = Some m"
proof -
  have "distinct (map fst (map (\<lambda>(u, m). (unit_char D u, m)) (node_edges D n)))"
    using assms(1) by (simp add: dictionary_ok_def node_labels_def comp_def case_prod_unfold)
  moreover have "(unit_char D u, m) \<in> set (map (\<lambda>(u, m). (unit_char D u, m)) (node_edges D n))"
    using assms(2) by force
  ultimately show ?thesis by (simp add: child_by_def)
qed

lemma child_by_SomeD:
  assumes "child_by D n c = Some m"
  obtains u where "(u, m) \<in> set (node_edges D n)" and "unit_char D u = c"
  using assms by (auto simp: child_by_def dest!: map_of_SomeD)

lemma child_by_label:
  assumes "dictionary_ok D" and "child_by D n c = Some m"
  shows "c \<le> char_max"
proof -
  obtain u where "(u, m) \<in> set (node_edges D n)" and "unit_char D u = c"
    using assms(2) by (rule child_by_SomeD)
  then have "c \<in> set (node_labels D n)" by (force simp: node_labels_def)
  with assms(1) show ?thesis by (auto simp: dictionary_ok_def)
qed

subsection \<open>A concrete dictionary\<close>

text \<open>The dictionary of the single term \<open>ab\<close>, on which the witnesses run the adapters.\<close>

definition ab_edges :: "nat \<Rightarrow> (nat \<times> nat) list" where
  "ab_edges n = (if n = 0 then [(97, 1)] else if n = 1 then [(98, 2)] else [])"

definition ab_dictionary :: "(nat, nat) dictionary" where
  "ab_dictionary =
     \<lparr>dict_root = 0, dict_len = Some 1, node_edges = ab_edges, node_is_final = (\<lambda>n. n = 2),
      node_edge_count = (\<lambda>n. Some (length (ab_edges n))),
      node_has_edge = (\<lambda>n u. u \<in> set (map fst (ab_edges n))), unit_char = (\<lambda>u. u), char_unit = Some\<rparr>"

lemma ab_dictionary_ok: "dictionary_ok ab_dictionary"
  by (auto simp: dictionary_ok_def ab_dictionary_def node_labels_def ab_edges_def char_max_def)

lemma ab_dictionary_accepts: "dict_accepts ab_dictionary w \<longleftrightarrow> w = [97, 98]"
proof
  have child: "child_by ab_dictionary n c = Some m \<longleftrightarrow> (n = 0 \<and> c = 97 \<and> m = 1) \<or> (n = 1 \<and> c = 98 \<and> m = 2)" for n c m
    by (auto simp: child_by_def ab_dictionary_def ab_edges_def)
  have final: "node_is_final ab_dictionary n \<longleftrightarrow> n = 2" and root: "dict_root ab_dictionary = 0" for n
    by (simp_all add: ab_dictionary_def)
  show "w = [97, 98] \<Longrightarrow> dict_accepts ab_dictionary w"
    by (simp add: dict_accepts_def ab_dictionary_def child_by_def ab_edges_def)
  assume "dict_accepts ab_dictionary w"
  then obtain n where n: "walk ab_dictionary 0 w = Some n" "n = 2"
    by (auto simp: dict_accepts_def final root split: option.splits)
  then obtain c cs where w: "w = c # cs" by (cases w) auto
  then have c: "c = 97" "walk ab_dictionary 1 cs = Some 2" using n by (auto simp: child split: option.splits)
  then obtain d ds where cs: "cs = d # ds" by (cases cs) auto
  then have d: "d = 98" "walk ab_dictionary 2 ds = Some 2" using c(2) by (auto simp: child split: option.splits)
  have "ds = []" using d(2) by (cases ds) (auto simp: child split: option.splits)
  then show "w = [97, 98]" using w c(1) cs d(1) by simp
qed

end
