(* ===== verification/Interning.thy ===== *)
theory Interning
  imports Duallity_Prelude
begin

text \<open>
  The contract every registry of the crate keeps: a table that hands out dense \<open>u32\<close>
  identifiers for keys, in the order the keys are first seen, keeps a payload per identifier
  and refuses a new key once the identifier space is used up. The locale \<open>interner\<close> states
  the contract once; the registries (dictionary nodes, vocabulary words, universal states,
  automaton states, product states) are its interpretations, and what the adapters need from a registry
  (identifiers never change, equal identifiers mean equal keys, a failed insertion changes
  nothing) is proved here, for all of them.
\<close>

section \<open>Sequences of insertions\<close>

fun intern_seq :: "('k \<Rightarrow> 'v \<Rightarrow> 's \<Rightarrow> u32 option \<times> 's) \<Rightarrow> ('k \<times> 'v) list \<Rightarrow> 's
    \<Rightarrow> u32 option list \<times> 's" where
  "intern_seq f [] s = ([], s)"
| "intern_seq f ((k, v) # kvs) s =
     (let (r, s') = f k v s; (rs, s'') = intern_seq f kvs s' in (r # rs, s''))"

lemma length_intern_seq [simp]: "length (fst (intern_seq f kvs s)) = length kvs"
  by (induction f kvs s rule: intern_seq.induct) (auto simp: Let_def split: prod.splits)

section \<open>Dense identifier maps\<close>

definition dense_map :: "('k \<rightharpoonup> u32) \<Rightarrow> nat \<Rightarrow> bool" where
  "dense_map m n \<longleftrightarrow>
     (\<forall>k i. m k = Some i \<longrightarrow> unat i < n) \<and>
     (\<forall>k k' i. m k = Some i \<longrightarrow> m k' = Some i \<longrightarrow> k = k') \<and>
     (\<forall>i. unat i < n \<longrightarrow> (\<exists>k. m k = Some i))"

lemma unat_of_nat_u32: "n < 2 ^ 32 \<Longrightarrow> unat (of_nat n :: u32) = n"
  by (simp add: unat_of_nat)

lemma of_nat_eq_u32: "n < 2 ^ 32 \<Longrightarrow> (of_nat n :: u32) = i \<longleftrightarrow> n = unat i"
  by (auto simp: word_unat_eq_iff unat_of_nat)

lemma dense_map_empty [simp]: "dense_map Map.empty 0"
  by (simp add: dense_map_def)

lemma dense_map_less: "dense_map m n \<Longrightarrow> m k = Some i \<Longrightarrow> unat i < n"
  by (simp add: dense_map_def)

lemma dense_map_inj: "dense_map m n \<Longrightarrow> m k = Some i \<Longrightarrow> m k' = Some i \<Longrightarrow> k = k'"
  unfolding dense_map_def by blast

lemma dense_map_surj: "dense_map m n \<Longrightarrow> unat i < n \<Longrightarrow> \<exists>k. m k = Some i"
  by (simp add: dense_map_def)

lemma dense_map_insert:
  assumes "dense_map m n" and "m k = None" and "n < 2 ^ 32"
  shows "dense_map (m(k \<mapsto> of_nat n)) (Suc n)"
proof -
  let ?m = "m(k \<mapsto> of_nat n)"
  have n: "unat (of_nat n :: u32) = n" by (rule unat_of_nat_u32 [OF assms(3)])
  have old: "unat i < n" if "m k' = Some i" for k' i using dense_map_less assms(1) that .
  have less: "unat i < Suc n" if "?m k' = Some i" for k' i
    using that old n by (cases "k' = k") (auto simp: less_Suc_eq)
  have inj: "k1 = k2" if k1: "?m k1 = Some i" and k2: "?m k2 = Some i" for k1 k2 i
  proof -
    have "k1 = k \<longleftrightarrow> unat i = n" and "k2 = k \<longleftrightarrow> unat i = n"
      using k1 k2 old n by (auto split: if_splits)
    then show ?thesis
      using k1 k2 dense_map_inj [OF assms(1), of k1 i k2] by (auto split: if_splits)
  qed
  have surj: "\<exists>k'. ?m k' = Some i" if "unat i < Suc n" for i
  proof (cases "unat i = n")
    case True
    then have "?m k = Some i" using assms(3) by (simp add: of_nat_eq_u32)
    then show ?thesis by blast
  next
    case False
    then have "unat i < n" using that by simp
    then obtain k' where "m k' = Some i" using dense_map_surj [OF assms(1)] by blast
    then have "?m k' = Some i" using assms(2) by (cases "k' = k") auto
    then show ?thesis by blast
  qed
  show ?thesis unfolding dense_map_def using less inj surj by blast
qed

text \<open>Indexing a vector, as \<open>Vec::get\<close> does.\<close>

definition nth_opt :: "'a list \<Rightarrow> nat \<Rightarrow> 'a option" where
  "nth_opt xs i = (if i < length xs then Some (xs ! i) else None)"

lemma nth_opt_eq_None [simp]: "nth_opt xs i = None \<longleftrightarrow> length xs \<le> i"
  by (auto simp: nth_opt_def)

lemma nth_opt_eq_Some: "nth_opt xs i = Some x \<longleftrightarrow> i < length xs \<and> xs ! i = x"
  by (auto simp: nth_opt_def)

lemma nth_opt_append_left: "nth_opt xs i = Some x \<Longrightarrow> nth_opt (xs @ ys) i = Some x"
  by (auto simp: nth_opt_eq_Some nth_append)

lemma nth_opt_snoc:
  "length xs < 2 ^ 32 \<Longrightarrow>
     (\<lambda>i :: u32. nth_opt (xs @ [x]) (unat i)) = (\<lambda>i. nth_opt xs (unat i))(of_nat (length xs) \<mapsto> x)"
  by (auto simp: fun_eq_iff nth_opt_def nth_append word_unat_eq_iff unat_of_nat_u32)

section \<open>The interface\<close>

locale interner =
  fixes find :: "'s \<Rightarrow> 'k \<Rightarrow> u32 option"
    and entry :: "'s \<Rightarrow> u32 \<Rightarrow> 'p option"
    and count :: "'s \<Rightarrow> nat"
    and intern :: "'k \<Rightarrow> 'v \<Rightarrow> 's \<Rightarrow> u32 option \<times> 's"
    and payload :: "'k \<Rightarrow> 'v \<Rightarrow> 'p"
    and wf :: "'s \<Rightarrow> bool"
    and cap :: nat
  assumes cap_le: "cap \<le> 2 ^ 32"
    and wf_intern: "wf s \<Longrightarrow> wf (snd (intern k v s))"
    and count_le: "wf s \<Longrightarrow> count s \<le> cap"
    and find_less: "wf s \<Longrightarrow> find s k = Some i \<Longrightarrow> unat i < count s"
    and find_inj: "wf s \<Longrightarrow> find s k = Some i \<Longrightarrow> find s k' = Some i \<Longrightarrow> k = k'"
    and find_surj: "wf s \<Longrightarrow> unat i < count s \<Longrightarrow> \<exists>k. find s k = Some i"
    and entry_iff: "wf s \<Longrightarrow> (entry s i = None) = (count s \<le> unat i)"
    and intern_known: "wf s \<Longrightarrow> find s k = Some i \<Longrightarrow> intern k v s = (Some i, s)"
    and intern_full: "wf s \<Longrightarrow> find s k = None \<Longrightarrow> count s = cap \<Longrightarrow> intern k v s = (None, s)"
    and intern_fresh: "wf s \<Longrightarrow> find s k = None \<Longrightarrow> count s < cap \<Longrightarrow>
          fst (intern k v s) = Some (of_nat (count s))"
    and count_fresh: "wf s \<Longrightarrow> find s k = None \<Longrightarrow> count s < cap \<Longrightarrow>
          count (snd (intern k v s)) = Suc (count s)"
    and find_fresh: "wf s \<Longrightarrow> find s k = None \<Longrightarrow> count s < cap \<Longrightarrow>
          find (snd (intern k v s)) = (find s)(k \<mapsto> of_nat (count s))"
    and entry_fresh: "wf s \<Longrightarrow> find s k = None \<Longrightarrow> count s < cap \<Longrightarrow>
          entry (snd (intern k v s)) = (entry s)(of_nat (count s) \<mapsto> payload k v)"
begin

lemma intern_cases:
  assumes "wf s"
  obtains (known) i where "find s k = Some i" and "intern k v s = (Some i, s)"
    | (full) "find s k = None" and "count s = cap" and "intern k v s = (None, s)"
    | (fresh) s' where "find s k = None" and "count s < cap"
        and "intern k v s = (Some (of_nat (count s)), s')" and "count s' = Suc (count s)"
        and "find s' = (find s)(k \<mapsto> of_nat (count s))"
        and "entry s' = (entry s)(of_nat (count s) \<mapsto> payload k v)"
proof (cases "find s k")
  case None
  show ?thesis
  proof (cases "count s = cap")
    case True
    then show ?thesis using full None intern_full assms by blast
  next
    case False
    then have lt: "count s < cap" using count_le [OF assms] by simp
    show ?thesis
      using fresh [OF None lt, of "snd (intern k v s)"] None lt assms
        intern_fresh count_fresh find_fresh entry_fresh
      by (metis prod.collapse)
  qed
next
  case (Some i)
  then show ?thesis using known intern_known assms by blast
qed

lemma fresh_id: "wf s \<Longrightarrow> count s < cap \<Longrightarrow> unat (of_nat (count s) :: u32) = count s"
  using cap_le by (simp add: unat_of_nat)

text \<open>A lookup that succeeds keeps its answer, whatever is interned afterwards.\<close>

lemma find_stable:
  assumes "wf s" and "find s k' = Some i"
  shows "find (snd (intern k v s)) k' = Some i"
  by (rule intern_cases [OF assms(1), of k v]) (use assms(2) in auto)

lemma entry_stable:
  assumes "wf s" and "entry s i = Some x"
  shows "entry (snd (intern k v s)) i = Some x"
proof (rule intern_cases [OF assms(1), of k v])
  fix s' assume fresh: "count s < cap" "intern k v s = (Some (of_nat (count s)), s')"
    "entry s' = (entry s)(of_nat (count s) \<mapsto> payload k v)"
  have "unat i < count s" using entry_iff [OF assms(1), of i] assms(2) by (simp add: not_le)
  then have "i \<noteq> of_nat (count s)" using fresh_id [OF assms(1) fresh(1)] by auto
  with fresh assms(2) show ?thesis by simp
qed (use assms(2) in auto)

lemma count_mono: "wf s \<Longrightarrow> count s \<le> count (snd (intern k v s))"
  by (rule intern_cases [of s k v]) auto

lemma intern_result:
  assumes "wf s"
  shows "fst (intern k v s) = find (snd (intern k v s)) k"
  by (rule intern_cases [OF assms, of k v]) auto

lemma intern_None_iff:
  assumes "wf s"
  shows "fst (intern k v s) = None \<longleftrightarrow> find s k = None \<and> count s = cap"
  by (rule intern_cases [OF assms, of k v]) auto

lemma intern_None_unchanged:
  assumes "wf s" and "fst (intern k v s) = None"
  shows "snd (intern k v s) = s"
  by (rule intern_cases [OF assms(1), of k v]) (use assms(2) in auto)

text \<open>The same facts for a whole sequence of insertions.\<close>

lemma wf_seq: "wf s \<Longrightarrow> wf (snd (intern_seq intern kvs s))"
proof (induction kvs arbitrary: s)
  case (Cons kv kvs)
  obtain k v where "kv = (k, v)" by force
  then show ?case using Cons.IH [OF wf_intern [OF Cons.prems, of k v]]
    by (auto simp: Let_def split: prod.splits)
qed simp

lemma seq_Cons:
  "intern_seq intern ((k, v) # kvs) s =
     (fst (intern k v s) # fst (intern_seq intern kvs (snd (intern k v s))),
      snd (intern_seq intern kvs (snd (intern k v s))))"
  by (simp add: Let_def case_prod_unfold)

lemma find_stable_seq:
  "wf s \<Longrightarrow> find s k = Some i \<Longrightarrow> find (snd (intern_seq intern kvs s)) k = Some i"
proof (induction kvs arbitrary: s)
  case (Cons kv kvs)
  obtain k' v where "kv = (k', v)" by force
  with Cons show ?case by (simp add: seq_Cons wf_intern find_stable del: intern_seq.simps)
qed simp

lemma entry_stable_seq:
  "wf s \<Longrightarrow> entry s i = Some x \<Longrightarrow> entry (snd (intern_seq intern kvs s)) i = Some x"
proof (induction kvs arbitrary: s)
  case (Cons kv kvs)
  obtain k' v where "kv = (k', v)" by force
  with Cons show ?case by (simp add: seq_Cons wf_intern entry_stable del: intern_seq.simps)
qed simp

lemma seq_result_final:
  assumes "wf s" and "j < length kvs" and "fst (intern_seq intern kvs s) ! j = Some i"
  shows "find (snd (intern_seq intern kvs s)) (fst (kvs ! j)) = Some i"
  using assms
proof (induction kvs arbitrary: s j)
  case (Cons kv kvs)
  obtain k v where kv: "kv = (k, v)" by force
  show ?case
  proof (cases j)
    case 0
    then show ?thesis
      using Cons.prems find_stable_seq [OF wf_intern [OF Cons.prems(1)]] intern_result
      by (simp add: kv seq_Cons del: intern_seq.simps)
  next
    case (Suc j')
    then show ?thesis
      using Cons.prems Cons.IH [OF wf_intern [OF Cons.prems(1)], of j']
      by (simp add: kv seq_Cons del: intern_seq.simps)
  qed
qed simp

text \<open>
  The identifiers a run of insertions returns are equal exactly where the keys are: two
  keys never share an identifier and a key never changes its own.
\<close>

lemma seq_ids_iff_keys:
  assumes "wf s" and "i < length kvs" and "j < length kvs"
    and "fst (intern_seq intern kvs s) ! i = Some a"
    and "fst (intern_seq intern kvs s) ! j = Some b"
  shows "a = b \<longleftrightarrow> fst (kvs ! i) = fst (kvs ! j)"
  using seq_result_final [OF assms(1,2,4)] seq_result_final [OF assms(1,3,5)]
    find_inj [OF wf_seq [OF assms(1)]] by fastforce

text \<open>A key that a registry did not know gets, later, an identifier that was not in use then.\<close>

lemma unseen_later:
  assumes "wf s" and "wf s'" and "\<forall>k i. find s k = Some i \<longrightarrow> find s' k = Some i"
    and "find s k = None" and "find s' k = Some j"
  shows "count s \<le> unat j"
proof (rule ccontr)
  assume "\<not> count s \<le> unat j"
  then have "unat j < count s" by simp
  then obtain k' where k': "find s k' = Some j" using find_surj [OF assms(1)] by blast
  then have "find s' k' = Some j" using assms(3) by blast
  then have "k' = k" using assms(5) by (rule find_inj [OF assms(2)])
  with k' assms(4) show False by simp
qed

lemma dense_ids:
  assumes "wf s"
  shows "(\<exists>k. find s k = Some i) \<longleftrightarrow> unat i < count s"
  using assms find_less find_surj by blast

text \<open>A key that is known, or refused because the table is full, is not interned again.\<close>

definition settled :: "'s \<Rightarrow> 'k \<Rightarrow> bool" where
  "settled s k \<longleftrightarrow> find s k \<noteq> None \<or> count s = cap"

lemma settled_intern: "wf s \<Longrightarrow> settled s k \<Longrightarrow> intern k v s = (find s k, s)"
  using intern_known intern_full by (cases "find s k") (auto simp: settled_def)

lemma intern_settled: "wf s \<Longrightarrow> settled (snd (intern k v s)) k"
  by (rule intern_cases [of s k v]) (auto simp: settled_def)

lemma settled_mono: "wf s \<Longrightarrow> settled s k \<Longrightarrow> settled (snd (intern k' v s)) k"
  using find_stable by (rule_tac k = k' and v = v in intern_cases [of s]) (auto simp: settled_def)

lemma settled_mono_seq: "wf s \<Longrightarrow> settled s k \<Longrightarrow> settled (snd (intern_seq intern kvs s)) k"
proof (induction kvs arbitrary: s)
  case (Cons kv kvs)
  obtain k' v where "kv = (k', v)" by force
  then show ?case using Cons wf_intern settled_mono by (simp add: seq_Cons del: intern_seq.simps)
qed simp

lemma seq_append: "snd (intern_seq intern (xs @ ys) s) = snd (intern_seq intern ys (snd (intern_seq intern xs s)))"
  by (induction xs arbitrary: s) (auto simp: Let_def case_prod_unfold)

lemma seq_settled:
  assumes "wf s" and "k \<in> fst ` set kvs"
  shows "settled (snd (intern_seq intern kvs s)) k"
proof -
  obtain v where "(k, v) \<in> set kvs" using assms(2) by force
  then obtain xs ys where kvs: "kvs = xs @ (k, v) # ys" by (auto dest: split_list)
  show ?thesis
    unfolding kvs seq_append using assms(1)
    by (simp add: seq_Cons settled_mono_seq wf_intern wf_seq intern_settled del: intern_seq.simps)
qed

lemma full_seq: "wf s \<Longrightarrow> count s = cap \<Longrightarrow> snd (intern_seq intern kvs s) = s"
proof (induction kvs)
  case (Cons kv kvs)
  obtain k v where "kv = (k, v)" by force
  then show ?case using Cons settled_intern [of s k v] by (simp add: seq_Cons settled_def del: intern_seq.simps)
qed simp

lemma seq_results: "wf s \<Longrightarrow> fst (intern_seq intern kvs s) = map (\<lambda>kv. find (snd (intern_seq intern kvs s)) (fst kv)) kvs"
proof (induction kvs arbitrary: s)
  case (Cons kv kvs)
  obtain k v where kv: "kv = (k, v)" by force
  let ?s = "snd (intern k v s)"
  have wf: "wf ?s" using wf_intern [OF Cons.prems] .
  have "fst (intern k v s) = find (snd (intern_seq intern kvs ?s)) k"
  proof (cases "find ?s k")
    case None
    then have "count ?s = cap" using intern_settled [OF Cons.prems, of k v] by (simp add: settled_def)
    then show ?thesis using None full_seq [OF wf] intern_result [OF Cons.prems] by simp
  next
    case (Some i)
    then show ?thesis using find_stable_seq [OF wf Some] intern_result [OF Cons.prems] by simp
  qed
  then show ?case using Cons.IH [OF wf] by (simp add: kv seq_Cons del: intern_seq.simps)
qed simp

lemma seq_all_settled: "wf s \<Longrightarrow> (\<And>k. k \<in> fst ` set kvs \<Longrightarrow> settled s k) \<Longrightarrow> snd (intern_seq intern kvs s) = s"
proof (induction kvs)
  case (Cons kv kvs)
  obtain k v where kv: "kv = (k, v)" by force
  have "snd (intern k v s) = s" using settled_intern [OF Cons.prems(1), of k v] Cons.prems(2) [of k] kv by simp
  then show ?case using Cons kv by (simp add: seq_Cons del: intern_seq.simps)
qed simp

text \<open>Keys known at the start, and repetitions, may be left out of a sequence.\<close>

lemma seq_skip_known:
  "wf s \<Longrightarrow> (\<forall>k. P k \<longrightarrow> find s k \<noteq> None) \<Longrightarrow>
     snd (intern_seq intern (filter (\<lambda>kv. \<not> P (fst kv)) kvs) s) = snd (intern_seq intern kvs s)"
proof (induction kvs arbitrary: s)
  case (Cons kv kvs)
  obtain k v where kv: "kv = (k, v)" by force
  have ext: "\<forall>k'. P k' \<longrightarrow> find (snd (intern k v s)) k' \<noteq> None" using Cons.prems find_stable by fastforce
  show ?case
  proof (cases "P k")
    case True
    then have "snd (intern k v s) = s" using settled_intern [OF Cons.prems(1), of k v] Cons.prems(2) by (simp add: settled_def)
    then show ?thesis using Cons True by (simp add: kv seq_Cons del: intern_seq.simps)
  next
    case False
    then show ?thesis using Cons.IH [OF wf_intern [OF Cons.prems(1)] ext] by (simp add: kv seq_Cons del: intern_seq.simps)
  qed
qed simp

lemma seq_skip_repeated:
  assumes "wf s" and "k \<in> fst ` set xs"
  shows "snd (intern_seq intern (xs @ (k, v) # ys) s) = snd (intern_seq intern (xs @ ys) s)"
  using settled_intern [OF wf_seq [OF assms(1)] seq_settled [OF assms]] by (simp add: seq_append seq_Cons del: intern_seq.simps)

text \<open>Entries that know their key, and entries with a property.\<close>

definition keyed :: "('p \<Rightarrow> 'k) \<Rightarrow> 's \<Rightarrow> bool" where
  "keyed key s \<longleftrightarrow> (\<forall>i x. entry s i = Some x \<longrightarrow> find s (key x) = Some i)"

lemma keyed_intern:
  assumes "wf s" and "keyed key s" and "key (payload k v) = k"
  shows "keyed key (snd (intern k v s))"
proof (rule intern_cases [OF assms(1), of k v])
  fix s' assume fresh: "find s k = None" "intern k v s = (Some (of_nat (count s)), s')"
    "find s' = (find s)(k \<mapsto> of_nat (count s))" "entry s' = (entry s)(of_nat (count s) \<mapsto> payload k v)"
  have "find s' (key x) = Some i" if x: "entry s' i = Some x" for i x
  proof (cases "i = of_nat (count s)")
    case True
    then have "key x = k" using x fresh(4) assms(3) by auto
    then show ?thesis using True fresh(3) by simp
  next
    case False
    then have "find s (key x) = Some i" using x fresh(4) assms(2) by (simp add: keyed_def)
    then show ?thesis using fresh(1,3) by auto
  qed
  then show ?thesis using fresh(2) by (simp add: keyed_def)
qed (use assms in simp_all)

lemma keyed_find:
  assumes "wf s" and "keyed key s" and "find s k = Some i"
  shows "\<exists>x. entry s i = Some x \<and> key x = k"
proof -
  have "unat i < count s" using find_less [OF assms(1,3)] .
  then obtain x where x: "entry s i = Some x" using entry_iff [OF assms(1), of i] by (cases "entry s i") auto
  then have "find s (key x) = Some i" using assms(2) by (simp add: keyed_def)
  then show ?thesis using x find_inj [OF assms(1) _ assms(3)] by blast
qed

definition all_entries :: "('p \<Rightarrow> bool) \<Rightarrow> 's \<Rightarrow> bool" where
  "all_entries R s \<longleftrightarrow> (\<forall>i x. entry s i = Some x \<longrightarrow> R x)"

lemma all_entries_intern: "wf s \<Longrightarrow> all_entries R s \<Longrightarrow> R (payload k v) \<Longrightarrow> all_entries R (snd (intern k v s))"
  by (rule intern_cases [of s k v]) (auto simp: all_entries_def)

text \<open>A key interned later had, or would have had, no larger an identifier before.\<close>

lemma later_intern:
  assumes "wf s" and "wf s'" and "\<forall>k i. find s k = Some i \<longrightarrow> find s' k = Some i" and "count s \<le> count s'"
    and "fst (intern k v s') = Some i'"
  shows "\<exists>i. fst (intern k v s) = Some i \<and> unat i \<le> unat i'"
proof (cases "find s k")
  case (Some i)
  then show ?thesis using assms(3,5) intern_known [OF assms(1) Some, of v] intern_known [OF assms(2), of k i v] by auto
next
  case None
  have "count s \<le> unat i' \<and> unat i' < cap"
  proof (rule intern_cases [OF assms(2), of k v])
    fix i assume "find s' k = Some i" "intern k v s' = (Some i, s')"
    then show ?thesis using assms(5) unseen_later [OF assms(1-3) None] find_less [OF assms(2)] count_le [OF assms(2)] by fastforce
  next
    assume "intern k v s' = (None, s')"
    then show ?thesis using assms(5) by simp
  next
    fix s'' assume "count s' < cap" "intern k v s' = (Some (of_nat (count s')), s'')"
    then show ?thesis using assms(4,5) fresh_id [OF assms(2)] by auto
  qed
  then show ?thesis using intern_fresh [OF assms(1) None, of v] fresh_id [OF assms(1)] by simp
qed

text \<open>Registries of tree nodes: every key but the first's names a registered parent and the step to the child.\<close>

definition tracks :: "'k \<Rightarrow> (u32 \<Rightarrow> uchar \<Rightarrow> 'k) \<Rightarrow> ('p \<Rightarrow> uchar \<Rightarrow> 'p option) \<Rightarrow> 's \<Rightarrow> bool" where
  "tracks k0 kf child s \<longleftrightarrow>
     (\<forall>k i. find s k = Some i \<longrightarrow> k = k0 \<or>
        (\<exists>p c x y. k = kf p c \<and> entry s p = Some x \<and> child x c = Some y \<and> entry s i = Some y))"

lemma tracks_known:
  assumes "tracks k0 kf child s" and "entry s i = Some x" and "child x c = Some y" and "find s (kf i c) = Some j"
    and "\<And>p c x y. child x c = Some y \<Longrightarrow> kf p c \<noteq> k0"
    and "\<And>p c x y p' c' x' y'. child x c = Some y \<Longrightarrow> child x' c' = Some y' \<Longrightarrow> kf p c = kf p' c' \<Longrightarrow> p = p' \<and> c = c'"
  shows "entry s j = Some y"
proof -
  obtain p c' x' y' where k: "kf i c = kf p c'" "entry s p = Some x'" "child x' c' = Some y'" "entry s j = Some y'"
    using assms(1,4) assms(5) [OF assms(3), of i] unfolding tracks_def by blast
  have "i = p \<and> c = c'" using assms(6) [OF assms(3) k(3,1)] .
  then show ?thesis using k assms(2,3) by simp
qed

lemma tracks_intern:
  assumes "wf s" and "tracks k0 kf child s" and "entry s i = Some x" and "child x c = Some y" and "payload (kf i c) v = y"
  shows "tracks k0 kf child (snd (intern (kf i c) v s))"
proof (rule intern_cases [OF assms(1), of "kf i c" v])
  fix s' assume fresh: "find s (kf i c) = None" "count s < cap" "intern (kf i c) v s = (Some (of_nat (count s)), s')"
    "find s' = (find s)(kf i c \<mapsto> of_nat (count s))" "entry s' = (entry s)(of_nat (count s) \<mapsto> payload (kf i c) v)"
  have keep: "entry s j = Some z \<Longrightarrow> entry s' j = Some z" for j z
    using entry_stable [OF assms(1), of j z "kf i c" v] fresh(3) by simp
  have "k = k0 \<or> (\<exists>p c x y. k = kf p c \<and> entry s' p = Some x \<and> child x c = Some y \<and> entry s' j = Some y)"
    if "find s' k = Some j" for k j
  proof (cases "k = kf i c")
    case True
    then have "entry s' j = Some y" using that fresh(4,5) assms(5) by simp
    then show ?thesis using True keep [OF assms(3)] assms(4) by blast
  next
    case False
    then have "find s k = Some j" using that fresh(4) by simp
    then show ?thesis using assms(2) keep unfolding tracks_def by blast
  qed
  then show ?thesis using fresh(3) by (simp add: tracks_def)
qed (use assms(2) in simp_all)

end

end
