(* ===== verification/State_Encoding.thy ===== *)
theory State_Encoding
  imports Duallity_Prelude
begin

text \<open>
  \<open>src/lib.rs\<close>: the packing of a (dictionary node, automaton state) pair into one \<open>u32\<close>
  state identifier, the capacity and state-count hints with their saturating arithmetic,
  and the validation of weights.
\<close>

section \<open>\<open>state_encoding\<close>\<close>

definition try_encode :: "u32 \<Rightarrow> u32 \<Rightarrow> u32 \<Rightarrow> state_id option" where
  "try_encode dict_node automaton_state max_automaton_states =
     (if max_automaton_states = 0 \<or> automaton_state \<ge> max_automaton_states then None
      else case checked_mul dict_node max_automaton_states of
             None \<Rightarrow> None
           | Some base \<Rightarrow> checked_add base automaton_state)"

definition decode :: "state_id \<Rightarrow> u32 \<Rightarrow> (u32 \<times> u32) option" where
  "decode state_id max_automaton_states =
     (if max_automaton_states = 0 then None
      else Some (state_id div max_automaton_states, state_id mod max_automaton_states))"

definition saturating_nonzero_u32 :: "usize \<Rightarrow> u32" where
  "saturating_nonzero_u32 value =
     (case u32_try_from (max value 1) of Some v \<Rightarrow> v | None \<Rightarrow> u32_max)"

definition estimate_automaton_states :: "usize \<Rightarrow> usize \<Rightarrow> u32" where
  "estimate_automaton_states query_len max_distance =
     (let positions = usize_sat_add query_len 1;
          distances = usize_sat_add (usize_sat_mul max_distance 2) 1
      in saturating_nonzero_u32 (usize_sat_mul positions distances))"

definition bounded_levenshtein_states :: "usize \<Rightarrow> usize \<Rightarrow> u32" where
  "bounded_levenshtein_states query_len max_distance =
     (let positions = usize_sat_add query_len 1;
          costs = usize_sat_add max_distance 1
      in saturating_nonzero_u32 (usize_sat_mul positions costs))"

lemma try_encode_eq_Some [width_simps]:
  "try_encode d a m = Some s \<longleftrightarrow> unat a < unat m \<and> unat s = unat d * unat m + unat a"
proof
  assume "try_encode d a m = Some s"
  then obtain base where "checked_mul d m = Some base" "checked_add base a = Some s" "a < m"
    by (auto simp: try_encode_def split: if_splits option.splits)
  then show "unat a < unat m \<and> unat s = unat d * unat m + unat a"
    by (simp add: width_simps word_less_nat_alt)
next
  assume *: "unat a < unat m \<and> unat s = unat d * unat m + unat a"
  have "unat d * unat m < 2 ^ 32" using * unat_less_exp [of s] by simp
  then have base: "checked_mul d m = Some (d * m)" "unat (d * m) = unat d * unat m"
    by (simp_all add: checked_mul_def unat_word_ariths)
  have "checked_add (d * m) a = Some s" using * base(2) by (simp add: width_simps)
  moreover have "m \<noteq> 0" and "\<not> m \<le> a"
    using * by (auto simp: word_less_nat_alt word_le_nat_alt)
  ultimately show "try_encode d a m = Some s"
    using base by (simp add: try_encode_def)
qed

lemma try_encode_eq_None:
  "try_encode d a m = None \<longleftrightarrow> unat m \<le> unat a \<or> 2 ^ 32 \<le> unat d * unat m + unat a"
proof (cases "try_encode d a m")
  case (Some s)
  then show ?thesis using unat_less_exp [of s] by (auto simp: width_simps)
next
  case None
  show ?thesis
  proof (rule ccontr)
    assume "\<not> ?thesis"
    then have lt: "unat a < unat m" "unat d * unat m + unat a < 2 ^ 32"
      using None by auto
    define s :: u32 where "s = of_nat (unat d * unat m + unat a)"
    have "unat s = unat d * unat m + unat a"
      unfolding s_def unat_of_nat using lt(2) by simp
    with lt have "try_encode d a m = Some s" by (simp add: width_simps)
    with None show False by simp
  qed
qed

lemma decode_eq_Some [width_simps]:
  "decode s m = Some (d, a) \<longleftrightarrow> unat m \<noteq> 0 \<and> unat d = unat s div unat m \<and> unat a = unat s mod unat m"
  by (auto simp: decode_def unat_div_distrib unat_mod_distrib word_unat_eq_iff)

lemma encode_decode:
  assumes "try_encode d a m = Some s"
  shows "decode s m = Some (d, a)"
  using assms by (auto simp: width_simps)

lemma decode_encode:
  assumes "m \<noteq> 0" and "decode s m = Some (d, a)"
  shows "try_encode d a m = Some s"
proof -
  have m: "unat m \<noteq> 0" using assms(1) by (simp add: unat_eq_0)
  have "d = s div m" "a = s mod m" using assms by (auto simp: decode_def)
  then show ?thesis using m by (simp add: width_simps unat_div_distrib unat_mod_distrib)
qed

text \<open>
  C38: \<open>state_encoding\<close> is a bijection between the pairs it accepts and the identifiers it decodes:
  \<open>try_encode\<close> gives a pair an identifier exactly when \<open>decode\<close> returns that pair for it, so
  nothing is lost and no two pairs share an identifier, and \<open>decode\<close> fails only for a stride of 0.
\<close>

theorem state_encoding_bijective:
  "(try_encode d a m = Some s \<longleftrightarrow> decode s m = Some (d, a)) \<and> (decode s m = None \<longleftrightarrow> m = 0)"
proof (cases "m = 0")
  case True
  then have "try_encode d a m = None" "decode s m = None" by (simp_all add: try_encode_def decode_def)
  with True show ?thesis by simp
next
  case False
  then have "decode s m \<noteq> None" by (simp add: decode_def)
  with False show ?thesis using encode_decode decode_encode by blast
qed

lemma unat_saturating_nonzero_u32:
  "unat (saturating_nonzero_u32 v) = min (max v 1) (2 ^ 32 - 1)"
  by (simp add: saturating_nonzero_u32_def u32_try_from_def unat_of_nat min_def)

lemma unat_bounded_levenshtein_states:
  assumes "q < usize_max" and "k < usize_max"
  shows "unat (bounded_levenshtein_states q k) = min ((q + 1) * (k + 1)) (2 ^ 32 - 1)"
proof -
  have "2 ^ 32 - 1 \<le> usize_max" by (simp add: usize_max_def)
  moreover have "1 \<le> (q + 1) * (k + 1)" by simp
  ultimately show ?thesis using assms
    by (simp add: bounded_levenshtein_states_def unat_saturating_nonzero_u32 usize_sat_add_def
        usize_sat_mul_def Let_def min_def max_def)
qed

section \<open>Hints\<close>

definition max_num_states_hint :: usize where
  "max_num_states_hint = 1000000"

definition max_speculative_preallocation :: usize where
  "max_speculative_preallocation = 16384"

definition capped_size_hint_capacity :: "usize \<Rightarrow> usize" where
  "capped_size_hint_capacity size_hint = min size_hint max_speculative_preallocation"

definition dictionary_product_states_hint :: "usize option \<Rightarrow> usize \<Rightarrow> usize option" where
  "dictionary_product_states_hint dictionary_len per_node =
     map_option (\<lambda>dict_size. min (usize_sat_mul dict_size per_node) max_num_states_hint)
       dictionary_len"

definition registered_product_state_id_span :: "usize \<Rightarrow> usize \<Rightarrow> usize \<Rightarrow> usize" where
  "registered_product_state_id_span registered per_node last_node =
     (if registered = 0 \<or> last_node = 0 then 0
      else usize_sat_add (usize_sat_mul (usize_sat_sub registered 1) per_node) last_node)"

definition registered_dictionary_product_states_hint ::
    "usize option \<Rightarrow> usize \<Rightarrow> usize \<Rightarrow> usize option" where
  "registered_dictionary_product_states_hint dictionary_len registered per_node =
     (let live = registered_product_state_id_span registered per_node per_node
      in map_option (\<lambda>estimated. max estimated live)
           (dictionary_product_states_hint
              (map_option (\<lambda>dict_size. max dict_size registered) dictionary_len) per_node))"

definition dictionary_edge_capacity ::
    "('n, 'u) dictionary \<Rightarrow> 'n \<Rightarrow> usize \<Rightarrow> usize \<Rightarrow> usize option" where
  "dictionary_edge_capacity D n per_edge extra =
     map_option (\<lambda>edge_count. usize_sat_add (usize_sat_mul edge_count per_edge) extra)
       (node_edge_count D n)"

lemma registered_product_state_id_span_eq:
  assumes "registered * per_node \<le> usize_max" and "registered \<noteq> 0"
  shows "registered_product_state_id_span registered per_node per_node = registered * per_node"
proof (cases "per_node = 0")
  case False
  obtain r where r: "registered = Suc r" using assms(2) by (cases registered) auto
  with assms False show ?thesis
    by (simp add: registered_product_state_id_span_def usize_sat_add_def usize_sat_mul_def
        usize_sat_sub_def min_def)
qed (simp add: registered_product_state_id_span_def)

text \<open>
  Every product state that can be live is inside the state-count hint: when the
  dictionary knows its length, the hint is above each identifier that encodes a registered
  node, although the estimate itself is capped at a million.
\<close>

theorem num_states_hint_covers_live_ids:
  assumes "registered_dictionary_product_states_hint len registered (unat m) = Some h"
    and "unat d < registered"
    and "registered * unat m \<le> usize_max"
    and "try_encode d a m = Some s"
  shows "unat s < h"
proof -
  have "unat s = unat d * unat m + unat a" and "unat a < unat m"
    using assms(4) by (simp_all add: width_simps)
  moreover have "Suc (unat d) * unat m \<le> registered * unat m"
    using assms(2) by (intro mult_le_mono1) simp
  ultimately have "unat s < registered * unat m" by simp
  also have "\<dots> = registered_product_state_id_span registered (unat m) (unat m)"
    using assms(2,3) by (subst registered_product_state_id_span_eq) auto
  also have "\<dots> \<le> h"
    using assms(1) by (auto simp: registered_dictionary_product_states_hint_def Let_def)
  finally show ?thesis .
qed

theorem num_states_hint_covers_live_ids_witness: "unat (29 :: u32) < (1000000 :: nat)"
  by (rule num_states_hint_covers_live_ids [of "Some 500000" 3 10 1000000 2 9])
    (simp_all add: registered_dictionary_product_states_hint_def dictionary_product_states_hint_def
      registered_product_state_id_span_def usize_sat_add_def usize_sat_mul_def usize_sat_sub_def
      usize_max_def max_num_states_hint_def Let_def width_simps)

section \<open>Weights\<close>

text \<open>The error carries the parameter's name and the offending value.\<close>

datatype invalid_weight_error = InvalidWeightError string f64

definition validate_finite_nonnegative_weight ::
    "string \<Rightarrow> f64 \<Rightarrow> invalid_weight_error + f64" where
  "validate_finite_nonnegative_weight name w =
     (if f64_is_finite w \<and> f64_ge w (F64 0) then Inr w else Inl (InvalidWeightError name w))"

definition max_exact_f64_usize :: usize where
  "max_exact_f64_usize = min (2 ^ 53) usize_max"

definition exact_usize_to_f64 :: "usize \<Rightarrow> f64 option" where
  "exact_usize_to_f64 value = (if value \<le> max_exact_f64_usize then Some (f64_of_nat value) else None)"

lemma validate_weight_eq_Inr [simp]:
  "validate_finite_nonnegative_weight name w = Inr v \<longleftrightarrow> v = w \<and> (\<exists>r \<ge> 0. w = F64 r)"
  by (cases w) (auto simp: validate_finite_nonnegative_weight_def f64_is_finite_def f64_ge_def)

lemma exact_usize_to_f64_eq_Some [simp]:
  "exact_usize_to_f64 n = Some w \<longleftrightarrow> n \<le> 2 ^ 53 \<and> w = f64_of_nat n"
  by (auto simp: exact_usize_to_f64_def max_exact_f64_usize_def usize_max_def)

end
