(* ===== verification/Node_Registry.thy ===== *)
theory Node_Registry
  imports Interning
begin

text \<open>
  \<open>src/node_key.rs\<close> and \<open>src/node_registry.rs\<close>: the packed key of a dictionary node (the path
  step that reaches it) and the registry that gives the nodes of a lazily explored
  dictionary dense identifiers, with and without the depth of each node.
\<close>

unbundle bit_operations_syntax

section \<open>Node keys\<close>

type_synonym node_key = u64

definition node_key_root :: node_key where
  "node_key_root = - 1"

definition node_key_child :: "u32 \<Rightarrow> uchar \<Rightarrow> node_key" where
  "node_key_child parent_id edge_label = push_bit 21 (ucast parent_id) OR of_nat edge_label"

lemma unat_node_key_child:
  assumes "c \<le> char_max"
  shows "unat (node_key_child p c) = unat p * 2 ^ 21 + c"
proof -
  have c: "c < 2 ^ 21" using assms by (simp add: char_max_def)
  have p: "unat p < 2 ^ 32" using unat_less_exp [of p] by simp
  have "push_bit 21 (ucast p :: u64) AND of_nat c = 0"
  proof (rule bit_eqI)
    fix n
    have "\<not> bit c n" if "21 \<le> n"
    proof -
      have "c < 2 ^ n" using c that by (meson less_le_trans one_le_numeral power_increasing)
      then show ?thesis by (simp add: bit_iff_odd)
    qed
    then show "bit (push_bit 21 (ucast p :: u64) AND of_nat c) n = bit 0 n"
      by (auto simp: bit_and_iff bit_push_bit_iff bit_of_nat_iff)
  qed
  then have "node_key_child p c = push_bit 21 (ucast p) + of_nat c"
    by (simp add: node_key_child_def disjunctive_add_eq_or)
  also have "\<dots> = of_nat (unat p * 2 ^ 21 + c)"
    by (simp add: push_bit_eq_mult unsigned_ucast_eq)
  finally have "unat (node_key_child p c) = (unat p * 2 ^ 21 + c) mod 2 ^ 64"
    by (simp add: unat_of_nat del: of_nat_add of_nat_mult)
  moreover have "unat p * 2 ^ 21 + c < 2 ^ 64" using c p by simp
  ultimately show ?thesis by simp
qed

lemma node_key_child_inject:
  assumes "c \<le> char_max" and "c' \<le> char_max"
  shows "node_key_child p c = node_key_child p' c' \<longleftrightarrow> p = p' \<and> c = c'"
proof
  assume "node_key_child p c = node_key_child p' c'"
  then have eq: "unat p * 2 ^ 21 + c = unat p' * 2 ^ 21 + c'"
    using unat_node_key_child assms by metis
  have lt: "c < 2 ^ 21" "c' < 2 ^ 21" using assms by (simp_all add: char_max_def)
  have "c = c'" using arg_cong [OF eq, of "\<lambda>x. x mod 2 ^ 21"] lt by simp
  with eq show "p = p' \<and> c = c'" by (simp add: word_unat_eq_iff)
qed simp

lemma node_key_child_not_root:
  assumes "c \<le> char_max"
  shows "node_key_child p c \<noteq> node_key_root"
proof
  assume "node_key_child p c = node_key_root"
  then have "unat p * 2 ^ 21 + c = 2 ^ 64 - 1"
    using unat_node_key_child [OF assms, of p] by (simp add: node_key_root_def unat_minus_one_word_eq)
  moreover have "unat p \<le> 2 ^ 32 - 1" by (rule unat_u32_le)
  ultimately show False using assms by (simp add: char_max_def)
qed

section \<open>The registry\<close>

record 'n node_registry =
  node_to_id :: "node_key \<rightharpoonup> u32"
  id_to_node :: "'n list"

definition next_registry_id :: "usize \<Rightarrow> u32 option" where
  "next_registry_id len = u32_try_from len"

definition reg_get_id :: "'n node_registry \<Rightarrow> node_key \<Rightarrow> u32 option" where
  "reg_get_id r key = node_to_id r key"

definition reg_len :: "'n node_registry \<Rightarrow> usize" where
  "reg_len r = length (id_to_node r)"

definition reg_get_node :: "'n node_registry \<Rightarrow> u32 \<Rightarrow> 'n option" where
  "reg_get_node r i = nth_opt (id_to_node r) (unat i)"

definition reg_register_node ::
    "'n \<Rightarrow> node_key \<Rightarrow> 'n node_registry \<Rightarrow> u32 option \<times> 'n node_registry" where
  "reg_register_node node key r =
     (case reg_get_id r key of
        Some i \<Rightarrow> (Some i, r)
      | None \<Rightarrow>
          (case next_registry_id (length (id_to_node r)) of
             None \<Rightarrow> (None, r)
           | Some i \<Rightarrow>
               (Some i, r\<lparr>node_to_id := (node_to_id r)(key \<mapsto> i),
                          id_to_node := id_to_node r @ [node]\<rparr>)))"

definition reg_candidate_id :: "'n node_registry \<Rightarrow> node_key \<Rightarrow> u32 option" where
  "reg_candidate_id r key =
     (case reg_get_id r key of
        Some i \<Rightarrow> Some i
      | None \<Rightarrow> next_registry_id (length (id_to_node r)))"

definition reg_new :: "'n \<Rightarrow> 'n node_registry" where
  "reg_new root_node = snd (reg_register_node root_node node_key_root \<lparr>node_to_id = Map.empty, id_to_node = []\<rparr>)"

text \<open>
  \<open>commit_prepared\<close> unwraps the identifier: the model's \<open>None\<close> is the panic of \<open>expect\<close>.
\<close>

fun reg_commit_prepared ::
    "(node_key \<times> 'n) list \<Rightarrow> 'n node_registry \<Rightarrow> 'n node_registry option" where
  "reg_commit_prepared [] r = Some r"
| "reg_commit_prepared ((key, node) # nodes) r =
     (case next_registry_id (reg_len r) of
        None \<Rightarrow> None
      | Some i \<Rightarrow> reg_commit_prepared nodes
                    (r\<lparr>node_to_id := (node_to_id r)(key \<mapsto> i), id_to_node := id_to_node r @ [node]\<rparr>))"

definition reg_wf :: "'n node_registry \<Rightarrow> bool" where
  "reg_wf r \<longleftrightarrow> length (id_to_node r) \<le> 2 ^ 32 \<and> dense_map (node_to_id r) (length (id_to_node r))"

lemmas reg_defs = reg_get_id_def reg_len_def reg_get_node_def reg_register_node_def
  reg_candidate_id_def next_registry_id_def

interpretation node_reg: interner reg_get_id reg_get_node reg_len
  "\<lambda>k v. reg_register_node v k" "\<lambda>k v. v" reg_wf "2 ^ 32"
proof unfold_locales
  fix s :: "'n node_registry" and k k' :: node_key and v :: 'n and i :: u32
  assume wf: "reg_wf s"
  then have dense: "dense_map (node_to_id s) (length (id_to_node s))" by (simp add: reg_wf_def)
  show "reg_wf (snd (reg_register_node v k s))"
    using wf by (auto simp: reg_wf_def reg_defs u32_try_from_def dense_map_insert split: option.split)
  show "reg_len s \<le> 2 ^ 32" using wf by (simp add: reg_wf_def reg_len_def)
  show "reg_get_id s k = Some i \<Longrightarrow> unat i < reg_len s"
    using dense_map_less [OF dense] by (simp add: reg_defs)
  show "reg_get_id s k = Some i \<Longrightarrow> reg_get_id s k' = Some i \<Longrightarrow> k = k'"
    using dense_map_inj [OF dense] by (simp add: reg_defs)
  show "unat i < reg_len s \<Longrightarrow> \<exists>k. reg_get_id s k = Some i"
    using dense_map_surj [OF dense] by (simp add: reg_defs)
  show "(reg_get_node s i = None) = (reg_len s \<le> unat i)" by (simp add: reg_defs)
  show "reg_get_id s k = Some i \<Longrightarrow> reg_register_node v k s = (Some i, s)"
    by (simp add: reg_register_node_def)
  show "reg_get_id s k = None \<Longrightarrow> reg_len s = 2 ^ 32 \<Longrightarrow> reg_register_node v k s = (None, s)"
    by (simp add: reg_defs u32_try_from_def)
  assume new: "reg_get_id s k = None" and lt: "reg_len s < 2 ^ 32"
  then have step: "reg_register_node v k s = (Some (of_nat (reg_len s)),
      s\<lparr>node_to_id := (node_to_id s)(k \<mapsto> of_nat (reg_len s)), id_to_node := id_to_node s @ [v]\<rparr>)"
    by (simp add: reg_defs u32_try_from_def)
  show "fst (reg_register_node v k s) = Some (of_nat (reg_len s))"
    and "reg_len (snd (reg_register_node v k s)) = Suc (reg_len s)"
    and "reg_get_id (snd (reg_register_node v k s)) = (reg_get_id s)(k \<mapsto> of_nat (reg_len s))"
    by (simp_all add: step reg_len_def reg_get_id_def fun_eq_iff)
  show "reg_get_node (snd (reg_register_node v k s)) = (reg_get_node s)(of_nat (reg_len s) \<mapsto> v)"
    using lt nth_opt_snoc [of "id_to_node s" v] by (simp add: step reg_len_def reg_get_node_def fun_eq_iff)
qed simp

text \<open>
  C39: \<open>DictionaryNodeKey\<close> is an exact key: two path steps share a key only when parent and
  character agree, and no path step has the root's key.
\<close>

theorem node_key_exact:
  assumes "c \<le> char_max" and "c' \<le> char_max"
  shows "(node_key_child p c = node_key_child p' c' \<longleftrightarrow> p = p' \<and> c = c') \<and>
         node_key_child p c \<noteq> node_key_root"
  using node_key_child_inject [OF assms] node_key_child_not_root [OF assms(1)] by blast

theorem node_key_exact_witness:
  "(node_key_child 1 97 = node_key_child 1 98 \<longleftrightarrow> (1 :: u32) = 1 \<and> (97 :: nat) = 98) \<and>
   node_key_child 1 97 \<noteq> node_key_root"
  by (rule node_key_exact) (simp_all add: char_max_def)

lemma reg_new_eq: "reg_new r = \<lparr>node_to_id = [node_key_root \<mapsto> 0], id_to_node = [r]\<rparr>"
  by (simp add: reg_new_def reg_defs u32_try_from_def)

lemma reg_wf_new: "reg_wf (reg_new r)"
  using dense_map_insert [of Map.empty 0 node_key_root] by (simp add: reg_new_eq reg_wf_def)

lemma reg_candidate_register:
  assumes "reg_wf r"
  shows "reg_candidate_id r key = fst (reg_register_node node key r)"
  by (auto simp: reg_defs split: option.split)

lemma reg_commit_prepared_step:
  assumes "reg_wf r" and "reg_get_id r key = None"
  shows "reg_commit_prepared ((key, node) # nodes) r =
    (case reg_register_node node key r of (None, _) \<Rightarrow> None | (Some _, r') \<Rightarrow> reg_commit_prepared nodes r')"
  using assms by (auto simp: reg_defs split: option.split)

lemma reg_commit_prepared_register:
  assumes "reg_wf r" and "distinct (map fst nodes)"
    and "\<forall>key \<in> set (map fst nodes). reg_get_id r key = None"
    and "reg_len r + length nodes \<le> 2 ^ 32"
  shows "reg_commit_prepared nodes r =
           Some (snd (intern_seq (\<lambda>k v. reg_register_node v k) nodes r))"
  using assms
proof (induction nodes arbitrary: r)
  case (Cons kv nodes)
  obtain key node where kv: "kv = (key, node)" by force
  let ?r = "snd (reg_register_node node key r)"
  have new: "reg_get_id r key = None" and lt: "reg_len r < 2 ^ 32"
    using Cons.prems by (auto simp: kv)
  note fresh = node_reg.intern_fresh [OF Cons.prems(1) new lt, of node]
    node_reg.count_fresh [OF Cons.prems(1) new lt, of node]
    node_reg.find_fresh [OF Cons.prems(1) new lt, of node]
  have "reg_commit_prepared (kv # nodes) r = reg_commit_prepared nodes ?r"
    using reg_commit_prepared_step [OF Cons.prems(1) new] fresh(1)
    by (auto simp: kv split: prod.splits)
  also have "\<dots> = Some (snd (intern_seq (\<lambda>k v. reg_register_node v k) nodes ?r))"
    using Cons.prems fresh(2,3) by (intro Cons.IH node_reg.wf_intern) (auto simp: kv)
  finally show ?case by (simp only: kv node_reg.seq_Cons snd_conv)
qed simp

text \<open>
  C35: committing prepared nodes is registering them one by one: for fresh, distinct keys and
  room for all of them \<open>commit_prepared\<close> never panics and reaches the registry that the
  insertions reach.
\<close>

theorem commit_prepared_refines_register:
  assumes "reg_wf r" and "distinct (map fst nodes)"
    and "\<forall>key \<in> set (map fst nodes). reg_get_id r key = None"
    and "reg_len r + length nodes \<le> 2 ^ 32"
  shows "reg_commit_prepared nodes r =
           Some (snd (intern_seq (\<lambda>k v. reg_register_node v k) nodes r))"
  using assms by (rule reg_commit_prepared_register)

theorem commit_prepared_refines_register_witness:
  "reg_commit_prepared [(node_key_child 0 97, ''x'')] (reg_new ''r'') =
     Some (snd (intern_seq (\<lambda>k v. reg_register_node v k) [(node_key_child 0 97, ''x'')] (reg_new ''r'')))"
  by (rule commit_prepared_refines_register [OF reg_wf_new])
    (simp_all add: reg_new_eq reg_get_id_def reg_len_def node_key_child_not_root char_max_def)

text \<open>
  C36: a registry numbers the nodes densely and for good. After any run of registrations from the root on, the
  identifiers in use are exactly those below the number of nodes; a new key gets the next one, as long as one is
  left; whatever is registered later, an identifier keeps its key and its node; and two identifiers that
  were returned agree exactly when their keys do.
\<close>

theorem registry_ids_stable:
  assumes "intern_seq (\<lambda>k v. reg_register_node v k) kvs (reg_new first) = (ids, r)"
    and "intern_seq (\<lambda>k v. reg_register_node v k) later r = (ids', r')"
  shows "(\<forall>i. (\<exists>k. reg_get_id r k = Some i) \<longleftrightarrow> unat i < reg_len r) \<and>
    (\<forall>k node. reg_get_id r k = None \<longrightarrow> reg_len r < 2 ^ 32 \<longrightarrow>
       fst (reg_register_node node k r) = Some (of_nat (reg_len r)) \<and>
       reg_len (snd (reg_register_node node k r)) = reg_len r + 1) \<and>
    (\<forall>k i. reg_get_id r k = Some i \<longrightarrow> reg_get_id r' k = Some i) \<and>
    (\<forall>i node. reg_get_node r i = Some node \<longrightarrow> reg_get_node r' i = Some node) \<and>
    (\<forall>i j a b. i < length kvs \<longrightarrow> j < length kvs \<longrightarrow> ids ! i = Some a \<longrightarrow> ids ! j = Some b \<longrightarrow>
       (a = b \<longleftrightarrow> fst (kvs ! i) = fst (kvs ! j)))"
proof -
  have r: "r = snd (intern_seq (\<lambda>k v. reg_register_node v k) kvs (reg_new first))"
    and ids: "ids = fst (intern_seq (\<lambda>k v. reg_register_node v k) kvs (reg_new first))"
    and r': "r' = snd (intern_seq (\<lambda>k v. reg_register_node v k) later r)" by (simp_all add: assms)
  have wf: "reg_wf r" unfolding r by (rule node_reg.wf_seq [OF reg_wf_new])
  have ids_keys: "a = b \<longleftrightarrow> fst (kvs ! i) = fst (kvs ! j)"
    if "i < length kvs" "j < length kvs" "ids ! i = Some a" "ids ! j = Some b" for i j a b
    by (rule node_reg.seq_ids_iff_keys [OF reg_wf_new that(1,2) that(3,4) [unfolded ids]])
  show ?thesis
    using node_reg.dense_ids [OF wf] node_reg.intern_fresh [OF wf] node_reg.count_fresh [OF wf]
      node_reg.find_stable_seq [OF wf, where kvs = later, folded r'] node_reg.entry_stable_seq [OF wf, where kvs = later, folded r']
      ids_keys by auto
qed

text \<open>The first child of the root gets the identifier 1, and the root keeps 0 when two children are registered.\<close>

theorem registry_ids_stable_witness:
  "fst (reg_register_node ''x'' (node_key_child 0 97) (reg_new ''r'')) = Some 1 \<and>
   reg_get_id (snd (intern_seq (\<lambda>k v. reg_register_node v k)
      [(node_key_child 0 97, ''x''), (node_key_child 0 98, ''y'')] (reg_new ''r''))) node_key_root = Some 0"
proof -
  let ?later = "[(node_key_child 0 97, ''x''), (node_key_child 0 98, ''y'')]"
  obtain ids' r' where r': "intern_seq (\<lambda>k v. reg_register_node v k) ?later (reg_new ''r'') = (ids', r')" by (rule prod.exhaust)
  have start: "intern_seq (\<lambda>k v. reg_register_node v k) [] (reg_new ''r'') = ([], reg_new ''r'')" by simp
  have new: "reg_get_id (reg_new ''r'') (node_key_child 0 97) = None"
    by (simp add: reg_new_eq reg_get_id_def node_key_child_not_root char_max_def)
  have old: "reg_get_id (reg_new ''r'') node_key_root = Some 0" "reg_len (reg_new ''r'') = 1"
    by (simp_all add: reg_new_eq reg_get_id_def reg_len_def)
  note all = registry_ids_stable [OF start r']
  have "reg_get_id r' node_key_root = Some 0" using all old(1) by blast
  moreover have "fst (reg_register_node ''x'' (node_key_child 0 97) (reg_new ''r'')) = Some (of_nat (reg_len (reg_new ''r'')))"
    using all new unfolding old(2) by (elim conjE) (drule spec [of _ "node_key_child 0 97"], simp)
  ultimately show ?thesis unfolding r' by (simp only: old(2) snd_conv) simp
qed

text \<open>A registry extends another when it keeps all its identifiers and nodes.\<close>

definition reg_ext :: "'n node_registry \<Rightarrow> 'n node_registry \<Rightarrow> bool" where
  "reg_ext r r' \<longleftrightarrow>
     (\<forall>k i. reg_get_id r k = Some i \<longrightarrow> reg_get_id r' k = Some i) \<and>
     (\<forall>i n. reg_get_node r i = Some n \<longrightarrow> reg_get_node r' i = Some n) \<and>
     reg_len r \<le> reg_len r'"

lemma reg_ext_refl: "reg_ext r r"
  by (simp add: reg_ext_def)

lemma reg_ext_trans: "reg_ext r1 r2 \<Longrightarrow> reg_ext r2 r3 \<Longrightarrow> reg_ext r1 r3"
  by (auto simp: reg_ext_def)

lemma reg_ext_register: "reg_wf r \<Longrightarrow> reg_ext r (snd (reg_register_node n k r))"
  using node_reg.find_stable [of r, where k = k and v = n] node_reg.entry_stable [of r, where k = k and v = n]
    node_reg.count_mono [of r, where k = k and v = n]
  by (simp add: reg_ext_def)

section \<open>Registries that follow a dictionary\<close>

text \<open>Every registered node is the root or the child its key describes.\<close>

definition reg_tracks :: "('n, 'u) dictionary \<Rightarrow> 'n node_registry \<Rightarrow> bool" where
  "reg_tracks D r \<longleftrightarrow>
     reg_get_node r 0 = Some (dict_root D) \<and>
     (\<forall>k i. reg_get_id r k = Some i \<longrightarrow> k = node_key_root \<or>
        (\<exists>p ch n m. k = node_key_child p ch \<and> reg_get_node r p = Some n \<and> child_by D n ch = Some m \<and>
           reg_get_node r i = Some m))"

lemma reg_tracks_new: "reg_tracks D (reg_new (dict_root D))"
  by (auto simp: reg_tracks_def reg_new_eq reg_get_node_def reg_get_id_def nth_opt_def split: if_splits)

lemma reg_tracks_known:
  assumes "dictionary_ok D" and "reg_tracks D r" and "reg_get_node r i = Some n"
    and "child_by D n ch = Some m" and "reg_get_id r (node_key_child i ch) = Some j"
  shows "reg_get_node r j = Some m"
proof -
  have ch: "ch \<le> char_max" using child_by_label [OF assms(1,4)] .
  have "node_key_child i ch \<noteq> node_key_root" by (rule node_key_child_not_root [OF ch])
  then obtain p ch' n' m' where k: "node_key_child i ch = node_key_child p ch'" "reg_get_node r p = Some n'"
    "child_by D n' ch' = Some m'" "reg_get_node r j = Some m'"
    using assms(2,5) unfolding reg_tracks_def by blast
  have "ch' \<le> char_max" using child_by_label [OF assms(1) k(3)] .
  then have "i = p" "ch = ch'" using k(1) node_key_child_inject [OF ch] by auto
  then show ?thesis using k assms(3,4) by simp
qed

lemma reg_tracks_register:
  assumes "dictionary_ok D" and "reg_wf r" and "reg_tracks D r" and "reg_get_node r i = Some n"
    and "child_by D n ch = Some m" and "reg_register_node m (node_key_child i ch) r = (res, r')"
  shows "reg_tracks D r' \<and> (\<forall>j. res = Some j \<longrightarrow> reg_get_node r' j = Some m)"
proof -
  let ?k = "node_key_child i ch"
  have ext: "reg_ext r r'" using reg_ext_register [OF assms(2), of m ?k] assms(6) by simp
  have res: "res = reg_get_id r' ?k" using node_reg.intern_result [OF assms(2), of m ?k] assms(6) by simp
  have keep: "reg_get_node r j = Some x \<Longrightarrow> reg_get_node r' j = Some x" for j x
    using ext by (simp add: reg_ext_def)
  show ?thesis
  proof (cases "reg_get_id r ?k")
    case (Some j)
    then have "r' = r" using assms(6) by (simp add: reg_register_node_def)
    moreover have "reg_get_node r j = Some m" by (rule reg_tracks_known [OF assms(1,3,4,5) Some])
    ultimately show ?thesis using res Some assms(3) by simp
  next
    case None
    show ?thesis
    proof (cases "reg_len r < 2 ^ 32")
      case True
      note fresh = node_reg.find_fresh [OF assms(2) None True, of m] node_reg.entry_fresh [OF assms(2) None True, of m]
      have new: "reg_get_node r' (of_nat (reg_len r)) = Some m" using fresh(2) assms(6) by simp
      have "k = node_key_root \<or> (\<exists>p ch n m. k = node_key_child p ch \<and> reg_get_node r' p = Some n \<and>
          child_by D n ch = Some m \<and> reg_get_node r' j = Some m)" if "reg_get_id r' k = Some j" for k j
      proof (cases "k = ?k")
        case True
        then have "j = of_nat (reg_len r)" using that fresh(1) assms(6) by simp
        then show ?thesis using True new keep [OF assms(4)] assms(5) by blast
      next
        case False
        then have "reg_get_id r k = Some j" using that fresh(1) assms(6) by simp
        then show ?thesis using assms(3) keep unfolding reg_tracks_def by blast
      qed
      then have "reg_tracks D r'" using assms(3) keep unfolding reg_tracks_def by blast
      moreover have "reg_get_id r' ?k = Some (of_nat (reg_len r))" using fresh(1) assms(6) by simp
      ultimately show ?thesis using res new by simp
    next
      case False
      then have "reg_len r = 2 ^ 32" using node_reg.count_le [OF assms(2)] by simp
      then have "res = None" "r' = r" using node_reg.intern_full [OF assms(2) None, of m] assms(6) by simp_all
      then show ?thesis using assms(3) by simp
    qed
  qed
qed

section \<open>The registry with depths\<close>

record 'n depth_registry =
  nodes :: "'n node_registry"
  id_to_depth :: "usize list"

definition dreg_new :: "'n \<Rightarrow> 'n depth_registry" where
  "dreg_new root_node = \<lparr>nodes = reg_new root_node, id_to_depth = [0]\<rparr>"

definition dreg_register_node ::
    "'n \<Rightarrow> node_key \<Rightarrow> usize \<Rightarrow> 'n depth_registry \<Rightarrow> u32 option \<times> 'n depth_registry" where
  "dreg_register_node node key depth r =
     (case reg_get_id (nodes r) key of
        Some i \<Rightarrow> (Some i, r)
      | None \<Rightarrow>
          (case reg_register_node node key (nodes r) of
             (None, ns) \<Rightarrow> (None, r\<lparr>nodes := ns\<rparr>)
           | (Some i, ns) \<Rightarrow> (Some i, \<lparr>nodes = ns, id_to_depth = id_to_depth r @ [depth]\<rparr>)))"

definition dreg_candidate_id :: "'n depth_registry \<Rightarrow> node_key \<Rightarrow> u32 option" where
  "dreg_candidate_id r key = reg_candidate_id (nodes r) key"

definition dreg_get_node :: "'n depth_registry \<Rightarrow> u32 \<Rightarrow> 'n option" where
  "dreg_get_node r i = reg_get_node (nodes r) i"

definition dreg_get_depth :: "'n depth_registry \<Rightarrow> u32 \<Rightarrow> usize option" where
  "dreg_get_depth r i = nth_opt (id_to_depth r) (unat i)"

definition dreg_len :: "'n depth_registry \<Rightarrow> usize" where
  "dreg_len r = reg_len (nodes r)"

definition dreg_wf :: "'n depth_registry \<Rightarrow> bool" where
  "dreg_wf r \<longleftrightarrow> reg_wf (nodes r) \<and> length (id_to_depth r) = reg_len (nodes r)"

definition dreg_find :: "'n depth_registry \<Rightarrow> node_key \<Rightarrow> u32 option" where
  "dreg_find r key = reg_get_id (nodes r) key"

definition dreg_entry :: "'n depth_registry \<Rightarrow> u32 \<Rightarrow> ('n \<times> usize) option" where
  "dreg_entry r i = (case (dreg_get_node r i, dreg_get_depth r i) of
     (Some n, Some d) \<Rightarrow> Some (n, d) | _ \<Rightarrow> None)"

lemma dreg_new_eq: "dreg_wf (dreg_new r)"
  by (simp add: dreg_wf_def dreg_new_def reg_wf_new) (simp add: reg_new_eq reg_len_def)

lemma dreg_entry_eq:
  assumes "dreg_wf r"
  shows "dreg_entry r i =
    (if unat i < dreg_len r then Some (id_to_node (nodes r) ! unat i, id_to_depth r ! unat i) else None)"
  using assms
  by (simp add: dreg_entry_def dreg_get_node_def dreg_get_depth_def dreg_wf_def dreg_len_def
      reg_get_node_def reg_len_def nth_opt_def)

lemma dreg_register_fresh:
  assumes "dreg_wf r" and "dreg_find r k = None" and "dreg_len r < 2 ^ 32"
  shows "dreg_register_node n k d r =
    (Some (of_nat (dreg_len r)),
     \<lparr>nodes = snd (reg_register_node n k (nodes r)), id_to_depth = id_to_depth r @ [d]\<rparr>)"
  using assms node_reg.intern_fresh [of "nodes r" k n]
  by (auto simp: dreg_register_node_def dreg_find_def dreg_wf_def dreg_len_def split: prod.splits option.splits)

lemma dreg_register_fresh_len:
  assumes "dreg_wf r" and "dreg_find r k = None" and "dreg_len r < 2 ^ 32"
  shows "id_to_node (nodes (snd (dreg_register_node n k d r))) = id_to_node (nodes r) @ [n]"
  using assms dreg_register_fresh [OF assms, of n d]
  by (simp add: reg_defs u32_try_from_def dreg_find_def dreg_len_def)

interpretation depth_reg: interner dreg_find dreg_entry dreg_len
  "\<lambda>k (n, d). dreg_register_node n k d" "\<lambda>k v. v" dreg_wf "2 ^ 32"
proof unfold_locales
  fix s :: "'n depth_registry" and k k' :: node_key and v :: "'n \<times> usize" and i :: u32
  obtain n d where v: "v = (n, d)" by force
  assume wf: "dreg_wf s"
  then have wf': "reg_wf (nodes s)" by (simp add: dreg_wf_def)
  note count = node_reg.count_fresh [OF wf', of k n]
  have keep: "dreg_register_node n k d s = (None, s)" if "dreg_find s k = None" "dreg_len s = 2 ^ 32"
    using node_reg.intern_full [OF wf', of k n] that
    by (simp add: dreg_find_def dreg_len_def dreg_register_node_def)
  have known: "dreg_register_node n k d s = (Some i, s)" if "dreg_find s k = Some i" for i
    using that by (simp add: dreg_find_def dreg_register_node_def)
  have le: "dreg_len s \<le> 2 ^ 32" using node_reg.count_le [OF wf'] by (simp add: dreg_len_def)
  have wf_fresh: "dreg_wf (snd (dreg_register_node n k d s))"
    if "dreg_find s k = None" "dreg_len s < 2 ^ 32"
    using dreg_register_fresh [OF wf that, of n d] node_reg.wf_intern [OF wf', of n k] count wf that
    by (simp add: dreg_wf_def dreg_find_def dreg_len_def)
  show wf_next: "dreg_wf (snd ((case v of (n, d) \<Rightarrow> dreg_register_node n k d) s))"
    using keep known wf_fresh wf le by (cases "dreg_find s k") (auto simp: v le_less)
  show "dreg_len s \<le> 2 ^ 32" by (fact le)
  show "dreg_find s k = Some i \<Longrightarrow> unat i < dreg_len s"
    using node_reg.find_less [OF wf'] by (simp add: dreg_find_def dreg_len_def)
  show "dreg_find s k = Some i \<Longrightarrow> dreg_find s k' = Some i \<Longrightarrow> k = k'"
    using node_reg.find_inj [OF wf'] by (simp add: dreg_find_def)
  show "unat i < dreg_len s \<Longrightarrow> \<exists>k. dreg_find s k = Some i"
    using node_reg.find_surj [OF wf'] by (simp add: dreg_find_def dreg_len_def)
  show "(dreg_entry s i = None) = (dreg_len s \<le> unat i)" by (simp add: dreg_entry_eq [OF wf])
  show "dreg_find s k = Some i \<Longrightarrow> (case v of (n, d) \<Rightarrow> dreg_register_node n k d) s = (Some i, s)"
    by (simp add: v known)
  show "dreg_find s k = None \<Longrightarrow> dreg_len s = 2 ^ 32 \<Longrightarrow>
      (case v of (n, d) \<Rightarrow> dreg_register_node n k d) s = (None, s)"
    by (simp add: v keep)
  assume new: "dreg_find s k = None" and lt: "dreg_len s < 2 ^ 32"
  note step = dreg_register_fresh [OF wf new lt, of n d]
  show "fst ((case v of (n, d) \<Rightarrow> dreg_register_node n k d) s) = Some (of_nat (dreg_len s))"
    by (simp add: v step)
  show cnt: "dreg_len (snd ((case v of (n, d) \<Rightarrow> dreg_register_node n k d) s)) = Suc (dreg_len s)"
    using count new lt by (simp add: v step dreg_len_def dreg_find_def)
  show "dreg_find (snd ((case v of (n, d) \<Rightarrow> dreg_register_node n k d) s)) =
      (dreg_find s)(k \<mapsto> of_nat (dreg_len s))"
    using node_reg.find_fresh [OF wf', of k n] new lt
    by (simp add: v step dreg_len_def dreg_find_def fun_eq_iff)
  have len: "dreg_len s = length (id_to_node (nodes s))" "dreg_len s = length (id_to_depth s)"
    using wf by (simp_all add: dreg_len_def reg_len_def dreg_wf_def)
  have "dreg_entry (snd (dreg_register_node n k d s)) j =
      ((dreg_entry s)(of_nat (dreg_len s) \<mapsto> (n, d))) j" for j
    unfolding dreg_entry_eq [OF wf_fresh [OF new lt]]
    using cnt dreg_register_fresh_len [OF wf new lt, of n d] lt len
    by (auto simp: v step dreg_entry_eq [OF wf] nth_append word_unat_eq_iff unat_of_nat_u32)
  then show "dreg_entry (snd ((case v of (n, d) \<Rightarrow> dreg_register_node n k d) s)) =
      (dreg_entry s)(of_nat (dreg_len s) \<mapsto> v)"
    by (simp add: v fun_eq_iff)
qed simp

end
