(* ===== verification/Vocab_Backend.thy ===== *)
theory Vocab_Backend
  imports Interning State_Encoding
begin

text \<open>
  \<open>src/backend.rs\<close>: \<open>DictionaryBackend\<close>, which exposes a dictionary as a lattice vocabulary.
  Words are interned lazily; the largest \<open>VocabId\<close> is a sentinel that no word receives. The
  wrapped dictionary is a value of its own type and its \<open>contains\<close> is a parameter.
\<close>

type_synonym vocab_id = u32

definition vocab_id_exhausted :: vocab_id where
  "vocab_id_exhausted = - 1"

definition next_vocab_id :: "usize \<Rightarrow> vocab_id option" where
  "next_vocab_id len =
     (case u32_try_from len of
        None \<Rightarrow> None
      | Some i \<Rightarrow> if i < vocab_id_exhausted then Some i else None)"

definition vocab_capacity_limit :: usize where
  "vocab_capacity_limit = unat vocab_id_exhausted"

record 'd dictionary_backend =
  dictionary :: 'd
  word_to_id :: "string \<rightharpoonup> vocab_id"
  id_to_word :: "string list"

definition backend_new :: "'d \<Rightarrow> 'd dictionary_backend" where
  "backend_new d = \<lparr>dictionary = d, word_to_id = Map.empty, id_to_word = []\<rparr>"

definition try_intern :: "string \<Rightarrow> 'd dictionary_backend \<Rightarrow> vocab_id option \<times> 'd dictionary_backend" where
  "try_intern word b =
     (case word_to_id b word of
        Some i \<Rightarrow> (Some i, b)
      | None \<Rightarrow>
          (case next_vocab_id (length (id_to_word b)) of
             None \<Rightarrow> (None, b)
           | Some i \<Rightarrow>
               (Some i, b\<lparr>word_to_id := (word_to_id b)(word \<mapsto> i), id_to_word := id_to_word b @ [word]\<rparr>)))"

definition has_vocab_capacity :: "'d dictionary_backend \<Rightarrow> bool" where
  "has_vocab_capacity b = (next_vocab_id (length (id_to_word b)) \<noteq> None)"

text \<open>\<open>with_vocabulary\<close> stops at the first word that finds no identifier; \<open>try_with_vocabulary\<close> fails.\<close>

fun intern_until_full :: "string list \<Rightarrow> 'd dictionary_backend \<Rightarrow> 'd dictionary_backend" where
  "intern_until_full [] b = b"
| "intern_until_full (w # ws) b =
     (case try_intern w b of (None, b') \<Rightarrow> b' | (Some _, b') \<Rightarrow> intern_until_full ws b')"

definition with_vocabulary :: "'d \<Rightarrow> string list \<Rightarrow> 'd dictionary_backend" where
  "with_vocabulary d terms = intern_until_full terms (backend_new d)"

fun intern_all_or_fail :: "string list \<Rightarrow> 'd dictionary_backend \<Rightarrow> 'd dictionary_backend option" where
  "intern_all_or_fail [] b = Some b"
| "intern_all_or_fail (w # ws) b =
     (case try_intern w b of (None, _) \<Rightarrow> None | (Some _, b') \<Rightarrow> intern_all_or_fail ws b')"

definition try_with_vocabulary :: "'d \<Rightarrow> string list \<Rightarrow> 'd dictionary_backend option" where
  "try_with_vocabulary d terms = intern_all_or_fail terms (backend_new d)"

section \<open>The \<open>LatticeBackend\<close> implementation\<close>

definition backend_intern :: "string \<Rightarrow> 'd dictionary_backend \<Rightarrow> vocab_id \<times> 'd dictionary_backend" where
  "backend_intern word b =
     (case try_intern word b of (r, b') \<Rightarrow> (case r of Some i \<Rightarrow> i | None \<Rightarrow> vocab_id_exhausted, b'))"

definition backend_lookup :: "'d dictionary_backend \<Rightarrow> vocab_id \<Rightarrow> string option" where
  "backend_lookup b i = nth_opt (id_to_word b) (unat i)"

definition vocab_size :: "'d dictionary_backend \<Rightarrow> usize" where
  "vocab_size b = length (id_to_word b)"

definition backend_contains :: "('d \<Rightarrow> string \<Rightarrow> bool) \<Rightarrow> 'd dictionary_backend \<Rightarrow> string \<Rightarrow> bool" where
  "backend_contains dict_contains b word \<longleftrightarrow>
     word_to_id b word \<noteq> None \<or> dict_contains (dictionary b) word"

definition backend_get_id :: "'d dictionary_backend \<Rightarrow> string \<Rightarrow> vocab_id option" where
  "backend_get_id b word = word_to_id b word"

definition backend_iter :: "'d dictionary_backend \<Rightarrow> (vocab_id \<times> string) list" where
  "backend_iter b =
     List.map_filter (\<lambda>(i, s). map_option (\<lambda>v. (v, s)) (next_vocab_id i)) (enumerate 0 (id_to_word b))"

section \<open>Invariant and interpretation\<close>

text \<open>Besides the dense numbering, the two directions of the mapping are inverse.\<close>

definition backend_wf :: "'d dictionary_backend \<Rightarrow> bool" where
  "backend_wf b \<longleftrightarrow>
     length (id_to_word b) \<le> 2 ^ 32 - 1 \<and>
     dense_map (word_to_id b) (length (id_to_word b)) \<and>
     (\<forall>w i. word_to_id b w = Some i \<longrightarrow> id_to_word b ! unat i = w)"

lemma next_vocab_id_eq_Some [width_simps]: "next_vocab_id n = Some i \<longleftrightarrow> unat i = n \<and> n < 2 ^ 32 - 1"
proof -
  have "unat vocab_id_exhausted = 2 ^ 32 - 1" by (simp add: vocab_id_exhausted_def unat_minus_one_word_eq)
  then show ?thesis
    by (auto simp: next_vocab_id_def word_less_nat_alt word_unat_eq_iff width_simps
        split: option.split if_splits)
qed

lemma next_vocab_id_eq: "next_vocab_id n = (if n < 2 ^ 32 - 1 then Some (of_nat n) else None)"
proof (cases "n < 2 ^ 32 - 1")
  case True
  then have "unat (of_nat n :: u32) = n" by (intro unat_of_nat_u32) simp
  with True show ?thesis by (simp add: width_simps)
next
  case False
  then show ?thesis by (cases "next_vocab_id n") (simp_all add: width_simps)
qed

lemma try_intern_fresh:
  assumes "word_to_id b w = None" and "length (id_to_word b) < 2 ^ 32 - 1"
  shows "try_intern w b = (Some (of_nat (length (id_to_word b))),
    b\<lparr>word_to_id := (word_to_id b)(w \<mapsto> of_nat (length (id_to_word b))), id_to_word := id_to_word b @ [w]\<rparr>)"
  using assms by (simp add: try_intern_def next_vocab_id_eq)

lemma backend_wf_try_intern:
  assumes "backend_wf b"
  shows "backend_wf (snd (try_intern w b))"
proof (cases "word_to_id b w = None \<and> length (id_to_word b) < 2 ^ 32 - 1")
  case True
  then have small: "length (id_to_word b) < 2 ^ 32" by simp
  have "id_to_word b ! unat i = w'" "unat i < length (id_to_word b)" if "word_to_id b w' = Some i" for w' i
    using assms that dense_map_less by (auto simp: backend_wf_def)
  then show ?thesis
    using True assms small unat_of_nat_u32 [OF small]
    by (auto simp: try_intern_fresh backend_wf_def dense_map_insert nth_append)
next
  case False
  then show ?thesis using assms by (auto simp: try_intern_def next_vocab_id_eq split: option.split)
qed

interpretation vocab: interner backend_get_id backend_lookup vocab_size
  "\<lambda>k (v :: unit). try_intern k" "\<lambda>k v. k" backend_wf "2 ^ 32 - 1"
proof unfold_locales
  fix s :: "'d dictionary_backend" and k k' :: string and v :: unit and i :: u32
  assume wf: "backend_wf s"
  then have dense: "dense_map (word_to_id s) (length (id_to_word s))" by (simp add: backend_wf_def)
  show "backend_wf (snd (try_intern k s))" using wf by (rule backend_wf_try_intern)
  show "vocab_size s \<le> 2 ^ 32 - 1" using wf by (simp add: backend_wf_def vocab_size_def)
  show "backend_get_id s k = Some i \<Longrightarrow> unat i < vocab_size s"
    using dense_map_less [OF dense] by (simp add: backend_get_id_def vocab_size_def)
  show "backend_get_id s k = Some i \<Longrightarrow> backend_get_id s k' = Some i \<Longrightarrow> k = k'"
    using dense_map_inj [OF dense] by (simp add: backend_get_id_def)
  show "unat i < vocab_size s \<Longrightarrow> \<exists>k. backend_get_id s k = Some i"
    using dense_map_surj [OF dense] by (simp add: backend_get_id_def vocab_size_def)
  show "(backend_lookup s i = None) = (vocab_size s \<le> unat i)"
    by (simp add: backend_lookup_def vocab_size_def)
  show "backend_get_id s k = Some i \<Longrightarrow> try_intern k s = (Some i, s)"
    by (simp add: backend_get_id_def try_intern_def)
  show "backend_get_id s k = None \<Longrightarrow> vocab_size s = 2 ^ 32 - 1 \<Longrightarrow> try_intern k s = (None, s)"
    by (simp add: backend_get_id_def try_intern_def vocab_size_def next_vocab_id_eq)
  assume new: "backend_get_id s k = None" and lt: "vocab_size s < 2 ^ 32 - 1"
  then have step: "try_intern k s = (Some (of_nat (vocab_size s)),
    s\<lparr>word_to_id := (word_to_id s)(k \<mapsto> of_nat (vocab_size s)), id_to_word := id_to_word s @ [k]\<rparr>)"
    using try_intern_fresh [of s k] by (simp add: backend_get_id_def vocab_size_def)
  show "fst (try_intern k s) = Some (of_nat (vocab_size s))"
    and "vocab_size (snd (try_intern k s)) = Suc (vocab_size s)"
    and "backend_get_id (snd (try_intern k s)) = (backend_get_id s)(k \<mapsto> of_nat (vocab_size s))"
    by (simp_all add: step vocab_size_def backend_get_id_def fun_eq_iff)
  show "backend_lookup (snd (try_intern k s)) = (backend_lookup s)(of_nat (vocab_size s) \<mapsto> k)"
    using lt nth_opt_snoc [of "id_to_word s" k]
    by (simp add: step vocab_size_def backend_lookup_def fun_eq_iff)
qed simp

lemma backend_wf_new: "backend_wf (backend_new d)"
  by (simp add: backend_wf_def backend_new_def)

lemma lookup_get_id:
  assumes "backend_wf b"
  shows "backend_get_id b w = Some i \<longleftrightarrow> backend_lookup b i = Some w"
proof
  assume "backend_get_id b w = Some i"
  then show "backend_lookup b i = Some w"
    using assms vocab.find_less [OF assms]
    by (auto simp: backend_wf_def backend_lookup_def backend_get_id_def nth_opt_eq_Some vocab_size_def)
next
  assume l: "backend_lookup b i = Some w"
  then have "unat i < vocab_size b" by (simp add: backend_lookup_def nth_opt_eq_Some vocab_size_def)
  then obtain w' where "backend_get_id b w' = Some i" using vocab.find_surj [OF assms] by blast
  moreover from this have "w' = w"
    using assms l by (auto simp: backend_wf_def backend_lookup_def backend_get_id_def nth_opt_eq_Some)
  ultimately show "backend_get_id b w = Some i" by simp
qed

lemma try_intern_lookup:
  assumes "backend_wf b" and "try_intern w b = (Some i, b')"
  shows "backend_lookup b' i = Some w \<and> i \<noteq> vocab_id_exhausted"
proof -
  have wf: "backend_wf b'" using vocab.wf_intern [OF assms(1), of w] assms(2) by simp
  have get: "backend_get_id b' w = Some i"
    using vocab.intern_result [OF assms(1), of w] assms(2) by simp
  have "unat i < 2 ^ 32 - 1"
    using vocab.find_less [OF wf get] vocab.count_le [OF wf] by simp
  then have "i \<noteq> vocab_id_exhausted" by (auto simp: vocab_id_exhausted_def unat_minus_one_word_eq)
  with get show ?thesis using lookup_get_id [OF wf] by simp
qed

text \<open>
  C37: \<open>DictionaryBackend\<close> keeps a bijection between the interned words and the identifiers below
  \<open>vocab_size\<close>, and \<open>intern\<close> is sound: the identifier it returns looks the word up again, unless
  it is the sentinel, which it returns only when the vocabulary is full, without changing it, and
  which no word ever has.
\<close>

theorem backend_intern_correct:
  assumes "backend_wf b" and "backend_intern w b = (i, b')"
  shows "backend_wf b' \<and>
    (\<forall>w j. backend_get_id b' w = Some j \<longleftrightarrow> backend_lookup b' j = Some w) \<and>
    (if i = vocab_id_exhausted
     then backend_get_id b w = None \<and> vocab_size b = 2 ^ 32 - 1 \<and> b' = b
     else backend_lookup b' i = Some w) \<and>
    backend_lookup b' vocab_id_exhausted = None"
proof -
  obtain r where r: "try_intern w b = (r, b')" and i: "i = (case r of Some i \<Rightarrow> i | None \<Rightarrow> vocab_id_exhausted)"
    using assms(2) by (auto simp: backend_intern_def split: prod.splits)
  have wf: "backend_wf b'" using vocab.wf_intern [OF assms(1), of w] r by simp
  have "vocab_size b' \<le> unat vocab_id_exhausted"
    using vocab.count_le [OF wf] by (simp add: vocab_id_exhausted_def unat_minus_one_word_eq)
  then have none: "backend_lookup b' vocab_id_exhausted = None"
    using vocab.entry_iff [OF wf] by blast
  have "if i = vocab_id_exhausted
     then backend_get_id b w = None \<and> vocab_size b = 2 ^ 32 - 1 \<and> b' = b
     else backend_lookup b' i = Some w"
  proof (cases r)
    case None
    then show ?thesis
      using vocab.intern_None_iff [OF assms(1), of w] vocab.intern_None_unchanged [OF assms(1), of w] r i by simp
  next
    case (Some j)
    then show ?thesis using try_intern_lookup [OF assms(1)] r i by simp
  qed
  with wf none show ?thesis using lookup_get_id [OF wf] by blast
qed

theorem backend_intern_correct_witness:
  "backend_lookup (snd (backend_intern ''hello'' (backend_new ()))) 0 = Some ''hello''"
proof -
  have e: "backend_intern ''hello'' (backend_new ()) =
      (0, \<lparr>dictionary = (), word_to_id = [''hello'' \<mapsto> 0], id_to_word = [''hello'']\<rparr>)"
    by (simp add: backend_intern_def try_intern_def backend_new_def next_vocab_id_eq)
  have "(0 :: u32) \<noteq> vocab_id_exhausted" by (simp add: vocab_id_exhausted_def)
  then show ?thesis using backend_intern_correct [OF backend_wf_new e] e by simp
qed

section \<open>Populating and iterating\<close>

lemma intern_until_full_wf: "backend_wf b \<Longrightarrow> backend_wf (intern_until_full ws b)"
proof (induction ws arbitrary: b)
  case (Cons w ws)
  have "backend_wf (snd (try_intern w b))" by (rule backend_wf_try_intern [OF Cons.prems])
  then show ?case using Cons.IH by (auto split: prod.splits option.splits)
qed simp

lemma intern_all_or_fail_eq_seq:
  "intern_all_or_fail ws b = (case intern_seq (\<lambda>k (v :: unit). try_intern k) (map (\<lambda>w. (w, ())) ws) b of
     (rs, b') \<Rightarrow> if None \<in> set rs then None else Some b')"
  by (induction ws arbitrary: b) (auto simp: Let_def split: prod.splits option.splits)

lemma intern_until_full_eq:
  "intern_all_or_fail ws b = Some b' \<Longrightarrow> intern_until_full ws b = b'"
  by (induction ws arbitrary: b) (auto split: prod.splits option.splits)

lemma intern_all_or_fail_wf:
  "intern_all_or_fail ws b = Some b' \<Longrightarrow> backend_wf b \<Longrightarrow> backend_wf b'"
  using intern_until_full_eq intern_until_full_wf by metis

lemma intern_all_or_fail_known:
  assumes "intern_all_or_fail ws b = Some b'" and "backend_wf b"
  shows "(\<forall>w \<in> set ws. \<exists>i. backend_get_id b' w = Some i) \<and>
         (\<forall>w i. backend_get_id b w = Some i \<longrightarrow> backend_get_id b' w = Some i)"
  using assms
proof (induction ws arbitrary: b)
  case (Cons w ws)
  then obtain i b1 where s: "try_intern w b = (Some i, b1)" and rest: "intern_all_or_fail ws b1 = Some b'"
    by (auto split: prod.splits option.splits)
  have wf1: "backend_wf b1" using backend_wf_try_intern [OF Cons.prems(2), of w] s by simp
  have "backend_get_id b1 w = Some i" using vocab.intern_result [OF Cons.prems(2), of w] s by simp
  moreover have "backend_get_id b1 w' = Some j" if "backend_get_id b w' = Some j" for w' j
    using vocab.find_stable [OF Cons.prems(2) that, of w] s by simp
  ultimately show ?case using Cons.IH [OF rest wf1] by auto
qed simp

lemma intern_all_or_fail_dom:
  assumes "intern_all_or_fail ws b = Some b'" and "backend_get_id b' w = Some i"
  shows "w \<in> set ws \<or> backend_get_id b w = Some i"
  using assms
proof (induction ws arbitrary: b)
  case (Cons v ws)
  then obtain j b1 where s: "try_intern v b = (Some j, b1)" and rest: "intern_all_or_fail ws b1 = Some b'"
    by (auto split: prod.splits option.splits)
  have "backend_get_id b1 w = backend_get_id b w" if "w \<noteq> v"
    using s that by (auto simp: try_intern_def backend_get_id_def split: option.splits)
  then show ?case using Cons.IH [OF rest Cons.prems(2)] by auto
qed simp

text \<open>
  \<open>try_with_vocabulary\<close> gives exactly the words of the term list identifiers, and where it
  succeeds \<open>with_vocabulary\<close> builds the same backend.
\<close>

theorem try_with_vocabulary_correct:
  assumes "try_with_vocabulary d terms = Some b"
  shows "backend_wf b \<and> with_vocabulary d terms = b \<and>
         (\<forall>w. backend_get_id b w \<noteq> None \<longleftrightarrow> w \<in> set terms)"
proof -
  have s: "intern_all_or_fail terms (backend_new d) = Some b"
    using assms by (simp add: try_with_vocabulary_def)
  have "backend_get_id (backend_new d) w = None" for w
    by (simp add: backend_get_id_def backend_new_def)
  then have "backend_get_id b w \<noteq> None \<longleftrightarrow> w \<in> set terms" for w
    using intern_all_or_fail_known [OF s backend_wf_new] intern_all_or_fail_dom [OF s, of w] by fastforce
  then show ?thesis
    using intern_all_or_fail_wf [OF s backend_wf_new] intern_until_full_eq [OF s]
    by (simp add: with_vocabulary_def)
qed

theorem try_with_vocabulary_correct_witness:
  "with_vocabulary () [''a'', ''b'', ''a''] =
     \<lparr>dictionary = (), word_to_id = [''a'' \<mapsto> 0, ''b'' \<mapsto> 1], id_to_word = [''a'', ''b'']\<rparr>"
proof -
  have "try_with_vocabulary () [''a'', ''b'', ''a''] =
      Some \<lparr>dictionary = (), word_to_id = [''a'' \<mapsto> 0, ''b'' \<mapsto> 1], id_to_word = [''a'', ''b'']\<rparr>"
    by (simp add: try_with_vocabulary_def backend_new_def try_intern_def next_vocab_id_eq)
  from try_with_vocabulary_correct [OF this] show ?thesis by blast
qed

lemma backend_iter_aux:
  "n + length ws \<le> 2 ^ 32 - 1 \<Longrightarrow>
     List.map_filter (\<lambda>(i, s). map_option (\<lambda>v. (v, s)) (next_vocab_id i)) (enumerate n ws) =
     map (\<lambda>(i, s). (of_nat i, s)) (enumerate n ws)"
  by (induction ws arbitrary: n) (auto simp: next_vocab_id_eq List.map_filter_simps)

lemma backend_iter_eq:
  assumes "backend_wf b"
  shows "backend_iter b = map (\<lambda>(i, s). (of_nat i, s)) (enumerate 0 (id_to_word b))"
  using assms by (simp add: backend_iter_def backend_iter_aux backend_wf_def)

lemma backend_iter_complete:
  assumes "backend_wf b"
  shows "length (backend_iter b) = vocab_size b \<and>
         (\<forall>i < vocab_size b. backend_iter b ! i = (of_nat i, id_to_word b ! i))"
  by (simp add: backend_iter_eq [OF assms] vocab_size_def nth_enumerate_eq)

end
