(* ===== verification/Lazy_Cache.thy ===== *)
theory Lazy_Cache
  imports Duallity_Prelude "HOL-Library.AList" "HOL-Library.Multiset" "HOL-Library.Product_Lexorder"
begin

text \<open>
  \<open>src/lazy_cache.rs\<close>: the state cache behind every lazy WFST. The hash map is an association
  list with distinct keys (its iteration order never matters to the results), the binary heap
  of \<open>Reverse<(tick, state)>\<close> is a list from which the least pair is popped, and the clock is a
  64-bit word that renumbers the entries when it is exhausted. The specification keeps the
  cached states in a list ordered from the least to the most recently used.
\<close>

section \<open>The cache\<close>

datatype cache_policy = NoCache | CacheAll | Lru usize

record 'a cache_entry =
  cached :: 'a
  last_access :: u64

type_synonym 'a entries = "(state_id \<times> 'a cache_entry) list"

record 'a lazy_cache =
  entries :: "'a entries"
  lru_heap :: "(u64 \<times> state_id) list"
  scratch :: "(state_id \<times> 'a) option"
  clock :: u64
  policy :: cache_policy
  max_lru_states :: usize

definition cache_new :: "usize \<Rightarrow> 'a lazy_cache" where
  "cache_new max_states =
     \<lparr>entries = [], lru_heap = [], scratch = None, clock = 0, policy = CacheAll,
      max_lru_states = max max_states 1\<rparr>"

definition cache_get :: "'a lazy_cache \<Rightarrow> state_id \<Rightarrow> 'a option" where
  "cache_get c s =
     (case map_of (entries c) s of
        Some e \<Rightarrow> Some (cached e)
      | None \<Rightarrow> (case scratch c of None \<Rightarrow> None | Some (s', x) \<Rightarrow> if s' = s then Some x else None))"

definition cache_len :: "'a lazy_cache \<Rightarrow> usize" where
  "cache_len c = length (entries c)"

definition cache_clear :: "'a lazy_cache \<Rightarrow> 'a lazy_cache" where
  "cache_clear c = c\<lparr>entries := [], lru_heap := [], scratch := None, clock := 0\<rparr>"

definition cache_set_policy :: "cache_policy \<Rightarrow> 'a lazy_cache \<Rightarrow> 'a lazy_cache" where
  "cache_set_policy p c = cache_clear (c\<lparr>policy := p\<rparr>)"

definition cache_is_expanded :: "'a lazy_cache \<Rightarrow> state_id \<Rightarrow> bool" where
  "cache_is_expanded c s \<longleftrightarrow> policy c \<noteq> NoCache \<and> map_of (entries c) s \<noteq> None"

definition lru_limit :: "'a lazy_cache \<Rightarrow> usize \<Rightarrow> usize" where
  "lru_limit c max_states = max (if max_states > 0 then max_states else max_lru_states c) 1"

subsection \<open>The heap\<close>

definition live_ticks :: "'a entries \<Rightarrow> (u64 \<times> state_id) list" where
  "live_ticks es = map (\<lambda>(s, e). (last_access e, s)) (filter (\<lambda>(s, e). last_access e > 0) es)"

definition rebuild_lru_heap :: "'a lazy_cache \<Rightarrow> 'a lazy_cache" where
  "rebuild_lru_heap c = c\<lparr>lru_heap := live_ticks (entries c)\<rparr>"

definition compact_lru_heap_if_needed :: "'a lazy_cache \<Rightarrow> 'a lazy_cache" where
  "compact_lru_heap_if_needed c =
     (let max_heap_len = max (usize_sat_mul (length (entries c)) 4) 64
      in if length (lru_heap c) > max_heap_len then rebuild_lru_heap c else c)"

function pop_lru_victim :: "'a entries \<Rightarrow> (u64 \<times> state_id) list \<Rightarrow> state_id option \<times> (u64 \<times> state_id) list" where
  "pop_lru_victim es h =
     (if h = [] then (None, [])
      else let top = Min (set h); h' = remove1 top h
           in case map_of es (snd top) of
                Some e \<Rightarrow> if last_access e = fst top then (Some (snd top), h') else pop_lru_victim es h'
              | None \<Rightarrow> pop_lru_victim es h')"
  by pat_completeness auto
termination
  by (relation "measure (\<lambda>(es, h). length h)") (simp_all add: length_remove1)

declare pop_lru_victim.simps [simp del]

definition evict_one_lru :: "'a lazy_cache \<Rightarrow> bool \<times> 'a lazy_cache" where
  "evict_one_lru c =
     (case pop_lru_victim (entries c) (lru_heap c) of
        (Some victim, h) \<Rightarrow> (True, c\<lparr>lru_heap := h, entries := AList.delete victim (entries c)\<rparr>)
      | (None, _) \<Rightarrow>
          (case pop_lru_victim (entries c) (live_ticks (entries c)) of
             (Some victim, h) \<Rightarrow> (True, c\<lparr>lru_heap := h, entries := AList.delete victim (entries c)\<rparr>)
           | (None, h) \<Rightarrow> (False, c\<lparr>lru_heap := h\<rparr>)))"

lemma pop_lru_victim_in: "pop_lru_victim es h = (Some s, h') \<Longrightarrow> s \<in> fst ` set es"
proof (induction es h rule: pop_lru_victim.induct)
  case (1 es h)
  from "1.prems" show ?case
    apply (subst (asm) pop_lru_victim.simps)
    using "1.IH" by (auto simp: Let_def dom_map_of_conv_image_fst [symmetric] split: if_splits option.splits)
qed

lemma length_delete_less:
  assumes "s \<in> fst ` set es"
  shows "length (AList.delete s es) < length es"
proof -
  obtain e where "(s, e) \<in> set es" using assms by force
  then show ?thesis unfolding AList.delete_eq by (rule length_filter_less) simp
qed

lemma evict_one_lru_length:
  "evict_one_lru c = (True, c') \<Longrightarrow> length (entries c') < length (entries c)"
  by (auto simp: evict_one_lru_def dest: pop_lru_victim_in intro!: length_delete_less
      split: prod.splits option.splits)

text \<open>\<open>while self.entries.len() > limit\<close>; \<open>evict_lru_before_insert\<close> tests \<open>>= limit\<close>.\<close>

function evict_lru_until_at_most :: "usize \<Rightarrow> 'a lazy_cache \<Rightarrow> 'a lazy_cache" where
  "evict_lru_until_at_most limit c =
     (if length (entries c) > limit
      then (case evict_one_lru c of (b, c') \<Rightarrow> if b then evict_lru_until_at_most limit c' else c')
      else c)"
  by pat_completeness auto
termination
  by (relation "measure (\<lambda>(limit, c). length (entries c))") (auto dest: evict_one_lru_length [OF sym])

function evict_lru_before_insert :: "usize \<Rightarrow> 'a lazy_cache \<Rightarrow> 'a lazy_cache" where
  "evict_lru_before_insert limit c =
     (if length (entries c) \<ge> limit
      then (case evict_one_lru c of (b, c') \<Rightarrow> if b then evict_lru_before_insert limit c' else c')
      else c)"
  by pat_completeness auto
termination
  by (relation "measure (\<lambda>(limit, c). length (entries c))") (auto dest: evict_one_lru_length [OF sym])

declare evict_lru_until_at_most.simps [simp del] evict_lru_before_insert.simps [simp del]

subsection \<open>The clock\<close>

fun renumber_loop :: "(u64 \<times> state_id) list \<Rightarrow> u64 \<Rightarrow> 'a entries \<Rightarrow> u64 \<times> 'a entries" where
  "renumber_loop [] k es = (k, es)"
| "renumber_loop ((_, s) # rest) k es =
     (let k' = saturating_add k 1
      in renumber_loop rest k'
           (case map_of es s of
              Some e \<Rightarrow> AList.update s (e\<lparr>last_access := k'\<rparr>) es
            | None \<Rightarrow> es))"

definition renumber_lru_ticks :: "'a lazy_cache \<Rightarrow> 'a lazy_cache" where
  "renumber_lru_ticks c =
     (let entries_by_age = sort (live_ticks (entries c));
          (k, es) = renumber_loop entries_by_age 0 (entries c)
      in rebuild_lru_heap (c\<lparr>clock := k, entries := es\<rparr>))"

definition next_tick :: "'a lazy_cache \<Rightarrow> u64 \<times> 'a lazy_cache" where
  "next_tick c =
     (let c1 = (if clock c = - 1 then renumber_lru_ticks c else c);
          k = max (saturating_add (clock c1) 1) 1
      in (k, c1\<lparr>clock := k\<rparr>))"

subsection \<open>Touching and inserting\<close>

definition touch :: "state_id \<Rightarrow> 'a lazy_cache \<Rightarrow> 'a lazy_cache" where
  "touch s c =
     (case policy c of
        Lru _ \<Rightarrow>
          (case next_tick c of (tick, c1) \<Rightarrow>
             (case map_of (entries c1) s of
                None \<Rightarrow> c1
              | Some e \<Rightarrow>
                  compact_lru_heap_if_needed
                    (c1\<lparr>entries := AList.update s (e\<lparr>last_access := tick\<rparr>) (entries c1),
                        lru_heap := (tick, s) # lru_heap c1\<rparr>)))
      | _ \<Rightarrow> c)"

definition touch_if_cached :: "state_id \<Rightarrow> 'a lazy_cache \<Rightarrow> bool \<times> 'a lazy_cache" where
  "touch_if_cached s c =
     (if map_of (entries c) s \<noteq> None then (True, touch s c)
      else (case scratch c of None \<Rightarrow> False | Some (s', _) \<Rightarrow> s' = s, c))"

definition cache_insert :: "state_id \<Rightarrow> 'a \<Rightarrow> 'a lazy_cache \<Rightarrow> 'a lazy_cache" where
  "cache_insert s x c =
     (case policy c of
        NoCache \<Rightarrow> c\<lparr>scratch := Some (s, x)\<rparr>
      | CacheAll \<Rightarrow>
          c\<lparr>entries := AList.update s \<lparr>cached = x, last_access = 0\<rparr> (entries c), scratch := None\<rparr>
      | Lru max_states \<Rightarrow>
          (let limit = lru_limit c max_states;
               c1 = (if map_of (entries c) s = None then evict_lru_before_insert limit c else c);
               (tick, c2) = next_tick c1;
               c3 = c2\<lparr>entries := AList.update s \<lparr>cached = x, last_access = tick\<rparr> (entries c2),
                       lru_heap := (tick, s) # lru_heap c2\<rparr>
           in (compact_lru_heap_if_needed c3)\<lparr>scratch := None\<rparr>))"

definition set_max_lru_states :: "usize \<Rightarrow> 'a lazy_cache \<Rightarrow> 'a lazy_cache" where
  "set_max_lru_states n c =
     (let c1 = c\<lparr>max_lru_states := max n 1\<rparr>
      in if policy c1 = Lru 0 then evict_lru_until_at_most (max_lru_states c1) c1 else c1)"

section \<open>Specification\<close>

text \<open>The abstract cache: what is held, in the order of use, the oldest first.\<close>

record 'a cache_spec =
  items :: "(state_id \<times> 'a) list"
  sp_scratch :: "(state_id \<times> 'a) option"
  sp_policy :: cache_policy
  sp_max :: usize

definition sp_limit :: "'a cache_spec \<Rightarrow> usize \<Rightarrow> usize" where
  "sp_limit a n = max (if n > 0 then n else sp_max a) 1"

definition without :: "'k \<Rightarrow> ('k \<times> 'v) list \<Rightarrow> ('k \<times> 'v) list" where
  "without k xs = filter (\<lambda>x. fst x \<noteq> k) xs"

definition newest :: "nat \<Rightarrow> 'b list \<Rightarrow> 'b list" where
  "newest n xs = drop (length xs - n) xs"

definition sp_get :: "'a cache_spec \<Rightarrow> state_id \<Rightarrow> 'a option" where
  "sp_get a s = (case map_of (items a) s of
     Some x \<Rightarrow> Some x
   | None \<Rightarrow> (case sp_scratch a of None \<Rightarrow> None | Some (s', x) \<Rightarrow> if s' = s then Some x else None))"

definition sp_touch :: "state_id \<Rightarrow> 'a cache_spec \<Rightarrow> bool \<times> 'a cache_spec" where
  "sp_touch s a =
     (case map_of (items a) s of
        Some x \<Rightarrow> (True, case sp_policy a of
                            Lru _ \<Rightarrow> a\<lparr>items := without s (items a) @ [(s, x)]\<rparr> | _ \<Rightarrow> a)
      | None \<Rightarrow> (case sp_scratch a of None \<Rightarrow> False | Some (s', _) \<Rightarrow> s' = s, a))"

definition sp_insert :: "state_id \<Rightarrow> 'a \<Rightarrow> 'a cache_spec \<Rightarrow> 'a cache_spec" where
  "sp_insert s x a =
     (case sp_policy a of
        NoCache \<Rightarrow> a\<lparr>sp_scratch := Some (s, x)\<rparr>
      | CacheAll \<Rightarrow> a\<lparr>items := AList.update s x (items a), sp_scratch := None\<rparr>
      | Lru n \<Rightarrow>
          a\<lparr>items := (if map_of (items a) s = None then newest (sp_limit a n - 1) (items a)
                      else without s (items a)) @ [(s, x)],
            sp_scratch := None\<rparr>)"

definition sp_clear :: "'a cache_spec \<Rightarrow> 'a cache_spec" where
  "sp_clear a = a\<lparr>items := [], sp_scratch := None\<rparr>"

definition sp_set_policy :: "cache_policy \<Rightarrow> 'a cache_spec \<Rightarrow> 'a cache_spec" where
  "sp_set_policy p a = sp_clear (a\<lparr>sp_policy := p\<rparr>)"

definition sp_set_max :: "usize \<Rightarrow> 'a cache_spec \<Rightarrow> 'a cache_spec" where
  "sp_set_max n a =
     (let a1 = a\<lparr>sp_max := max n 1\<rparr>
      in if sp_policy a1 = Lru 0 then a1\<lparr>items := newest (max n 1) (items a1)\<rparr> else a1)"

section \<open>Refinement\<close>

abbreviation access :: "state_id \<times> 'a cache_entry \<Rightarrow> u64" where
  "access x \<equiv> last_access (snd x)"

definition strip :: "state_id \<times> 'a cache_entry \<Rightarrow> state_id \<times> 'a" where
  "strip x = (fst x, cached (snd x))"

definition by_age :: "'a entries \<Rightarrow> 'a entries" where
  "by_age es = sort_key access es"

definition cache_abs :: "'a lazy_cache \<Rightarrow> 'a cache_spec" where
  "cache_abs c =
     \<lparr>items = map strip (case policy c of Lru _ \<Rightarrow> by_age (entries c) | _ \<Rightarrow> entries c),
      sp_scratch = scratch c, sp_policy = policy c, sp_max = max_lru_states c\<rparr>"

definition aged :: "'a entries \<Rightarrow> bool" where
  "aged es \<longleftrightarrow> distinct (map fst es) \<and> distinct (map access es) \<and> (\<forall>x \<in> set es. 0 < access x)"

definition covers :: "(u64 \<times> state_id) list \<Rightarrow> 'a entries \<Rightarrow> bool" where
  "covers h es \<longleftrightarrow> (\<forall>x \<in> set es. (access x, fst x) \<in> set h)"

definition lru_inv :: "'a lazy_cache \<Rightarrow> bool" where
  "lru_inv c \<longleftrightarrow> aged (entries c) \<and> covers (lru_heap c) (entries c) \<and>
     (\<forall>x \<in> set (entries c). access x \<le> clock c)"

definition cache_wf :: "'a lazy_cache \<Rightarrow> bool" where
  "cache_wf c \<longleftrightarrow> distinct (map fst (entries c)) \<and> 1 \<le> max_lru_states c \<and>
     (case policy c of
        NoCache \<Rightarrow> entries c = []
      | CacheAll \<Rightarrow> scratch c = None
      | Lru n \<Rightarrow> scratch c = None \<and> lru_inv c \<and> length (entries c) \<le> lru_limit c n)"

lemma set_by_age [simp]: "set (by_age es) = set es"
  and length_by_age [simp]: "length (by_age es) = length es"
  and mset_by_age [simp]: "mset (by_age es) = mset es"
  and sorted_by_age [simp]: "sorted (map access (by_age es))"
  by (simp_all add: by_age_def)

lemma by_age_eqI:
  assumes "mset es = mset ys" and "distinct (map access es)" and "sorted (map access ys)"
  shows "by_age es = ys"
  unfolding by_age_def using assms by (intro sort_key_inj_key_eq) (simp_all add: distinct_map)

lemma distinct_map_mset_cong:
  "mset xs = mset ys \<Longrightarrow> distinct (map f xs) = distinct (map f ys)"
  by (metis mset_eq_imp_distinct_iff mset_map)

lemma aged_mset_cong: "mset xs = mset ys \<Longrightarrow> aged xs = aged ys"
  using distinct_map_mset_cong [of xs ys fst] distinct_map_mset_cong [of xs ys access]
  by (auto simp: aged_def dest: mset_eq_setD)

lemma aged_by_age [simp]: "aged (by_age es) = aged es"
  by (rule aged_mset_cong) simp

lemma mset_without: "mset (without s es) = {#x \<in># mset es. fst x \<noteq> s#}"
  by (simp add: without_def)

lemma mset_update:
  assumes "distinct (map fst es)"
  shows "mset (AList.update s e es) = add_mset (s, e) (mset (without s es))"
  using assms
proof (induction es)
  case (Cons x es)
  have "without s es = es" if "s \<notin> fst ` set es"
    using that by (induction es) (auto simp: without_def)
  with Cons show ?case by (cases x) (auto simp: without_def simp del: mset_filter)
qed (simp add: without_def)

lemma map_of_strip: "map_of (map strip es) s = map_option cached (map_of es s)"
  by (induction es) (auto simp: strip_def)

lemma map_of_by_age: "distinct (map fst es) \<Longrightarrow> map_of (by_age es) = map_of es"
  by (rule map_of_eqI) (auto simp: distinct_map_mset_cong [OF mset_by_age])

subsection \<open>Access and eviction\<close>

lemma without_append [simp]: "without s (xs @ ys) = without s xs @ without s ys"
  by (simp add: without_def)

lemma sorted_access_snoc:
  "sorted (map access xs) \<Longrightarrow> \<forall>x \<in> set xs. access x \<le> access y \<Longrightarrow> sorted (map access (xs @ [y]))"
  by (auto simp: sorted_append)

lemma sorted_without: "sorted (map access xs) \<Longrightarrow> sorted (map access (without s xs))"
  unfolding without_def by (rule sorted_filter)

lemma aged_update:
  assumes "aged es" and "\<forall>x \<in> set es. access x < last_access e" and "0 < last_access e"
  shows "aged (AList.update s e es)"
proof -
  have "distinct (map fst (AList.update s e es))" using assms(1) by (simp add: aged_def distinct_update)
  moreover have "mset (map access (AList.update s e es)) =
      add_mset (last_access e) (mset (map access (without s es)))"
    using mset_update [of es s e] assms(1) by (simp add: aged_def)
  moreover have "distinct (last_access e # map access (without s es))"
    using assms(1,2) by (auto simp: aged_def without_def distinct_map_filter)
  ultimately have "distinct (map access (AList.update s e es))"
    using mset_eq_imp_distinct_iff by (metis mset.simps(2))
  moreover have "set (AList.update s e es) = insert (s, e) (set (without s es))"
    using mset_eq_setD [OF mset_update [of es s e, folded mset.simps(2)]] assms(1) by (simp add: aged_def)
  ultimately show ?thesis
    using assms distinct_update [of es s e] by (auto simp: aged_def without_def)
qed

lemma by_age_update:
  assumes "aged es" and "\<forall>x \<in> set es. access x < last_access e" and "0 < last_access e"
  shows "by_age (AList.update s e es) = without s (by_age es) @ [(s, e)]"
proof (rule by_age_eqI)
  show "mset (AList.update s e es) = mset (without s (by_age es) @ [(s, e)])"
    using mset_update [of es s e] assms(1) by (simp add: aged_def mset_without)
  show "distinct (map access (AList.update s e es))"
    using aged_update [OF assms] by (simp add: aged_def)
  show "sorted (map access (without s (by_age es) @ [(s, e)]))"
    using assms(2) by (intro sorted_access_snoc sorted_without) (auto simp: without_def less_imp_le)
qed

lemma set_update_subset: "x \<in> set (AList.update s e es) \<Longrightarrow> x = (s, e) \<or> x \<in> set es"
  by (induction es) (auto split: if_splits)

lemma covers_update: "covers h es \<Longrightarrow> covers ((last_access e, s) # h) (AList.update s e es)"
  using set_update_subset by (fastforce simp: covers_def)

lemma covers_live_ticks: "aged es \<Longrightarrow> covers (live_ticks es) es"
  by (force simp: covers_def live_ticks_def aged_def)

lemma pop_lru_victim_oldest:
  assumes "aged es" and "covers h es" and "by_age es = x # xs"
  shows "\<exists>h'. pop_lru_victim es h = (Some (fst x), h') \<and> covers h' xs"
  using assms
proof (induction es h rule: pop_lru_victim.induct)
  case (1 es h)
  let ?top = "Min (set h)" let ?h' = "remove1 ?top h"
  have in_es: "y \<in> set es \<longleftrightarrow> y = x \<or> y \<in> set xs" for y
    using arg_cong [OF "1.prems"(3), of set] by auto
  have h: "h \<noteq> []" using "1.prems"(2) in_es [of x] by (auto simp: covers_def)
  have top_in: "?top \<in> set h" using h by simp
  have aged': "aged (x # xs)" using "1.prems"(1,3) aged_by_age by metis
  have older: "\<forall>y \<in> set xs. access x < access y"
    using aged' sorted_by_age [of es] by (fastforce simp: "1.prems"(3) aged_def le_less)
  have le_x: "?top \<le> (access x, fst x)"
    using "1.prems"(2) in_es [of x] by (auto simp: covers_def intro!: Min_le)
  have dist: "distinct (map fst es)" using "1.prems"(1) by (simp add: aged_def)
  show ?case
  proof (cases "\<exists>e. map_of es (snd ?top) = Some e \<and> last_access e = fst ?top")
    case True
    then obtain e where e: "map_of es (snd ?top) = Some e" "last_access e = fst ?top" by blast
    then have "(snd ?top, e) \<in> set es" by (simp add: map_of_SomeD)
    then have eq: "(snd ?top, e) = x"
      using in_es [of "(snd ?top, e)"] older le_x e(2) by (auto simp: less_eq_prod_def)
    have "covers ?h' xs"
      unfolding covers_def
    proof
      fix y assume y: "y \<in> set xs"
      then have "(access y, fst y) \<noteq> ?top" using older eq e(2) by (metis fst_conv less_irrefl snd_conv)
      then show "(access y, fst y) \<in> set ?h'"
        using "1.prems"(2) y in_es [of y] by (simp add: covers_def in_set_remove1)
    qed
    moreover have "pop_lru_victim es h = (Some (fst x), ?h')"
      using h e eq by (subst pop_lru_victim.simps) (auto simp: Let_def)
    ultimately show ?thesis by blast
  next
    case False
    have "covers ?h' es"
      unfolding covers_def
    proof
      fix y assume y: "y \<in> set es"
      then have "map_of es (fst y) = Some (snd y)" using dist by simp
      then have "(access y, fst y) \<noteq> ?top" using False by (metis fst_conv snd_conv)
      then show "(access y, fst y) \<in> set ?h'"
        using "1.prems"(2) y by (simp add: covers_def in_set_remove1)
    qed
    then have "\<exists>h''. pop_lru_victim es ?h' = (Some (fst x), h'') \<and> covers h'' xs"
      using "1.IH" h "1.prems"(1,3) False by (cases "map_of es (snd ?top)") auto
    moreover have "pop_lru_victim es h = pop_lru_victim es ?h'"
      using h False by (subst pop_lru_victim.simps) (auto simp: Let_def split: option.split)
    ultimately show ?thesis by simp
  qed
qed

lemma by_age_delete:
  assumes "aged es" and "by_age es = x # xs"
  shows "by_age (AList.delete (fst x) es) = xs" and "aged (AList.delete (fst x) es)"
    and "set (AList.delete (fst x) es) = set xs"
proof -
  have aged': "aged (x # xs)" using assms aged_by_age by metis
  have del: "AList.delete (fst x) es = without (fst x) es"
    by (auto simp: AList.delete_eq without_def case_prod_unfold intro: filter_cong)
  have "fst x \<notin> fst ` set xs" using aged' by (simp add: aged_def)
  then have "\<forall>y \<in> set xs. fst y \<noteq> fst x" by (metis imageI)
  then have "without (fst x) xs = xs" by (simp add: without_def)
  then have "mset (without (fst x) es) = mset xs"
    using arg_cong [OF assms(2), of mset] by (simp add: mset_without) (simp add: without_def flip: mset_filter)
  then have m: "mset (AList.delete (fst x) es) = mset xs" by (simp add: del)
  show ag: "aged (AList.delete (fst x) es)"
    using aged_mset_cong [OF m] aged' by (simp add: aged_def)
  show "by_age (AList.delete (fst x) es) = xs"
    using m ag sorted_by_age [of es] assms(2) by (intro by_age_eqI) (auto simp: aged_def)
  show "set (AList.delete (fst x) es) = set xs" using m by (rule mset_eq_setD)
qed

lemma evict_one_lru_oldest:
  assumes "aged (entries c)" and "covers (lru_heap c) (entries c)" and "by_age (entries c) = x # xs"
  obtains h where "evict_one_lru c = (True, c\<lparr>lru_heap := h, entries := AList.delete (fst x) (entries c)\<rparr>)"
    and "covers h (AList.delete (fst x) (entries c))"
proof -
  obtain h where "pop_lru_victim (entries c) (lru_heap c) = (Some (fst x), h)" and "covers h xs"
    using pop_lru_victim_oldest [OF assms] by blast
  then show ?thesis
    using that by_age_delete(3) [OF assms(1,3)] by (simp add: evict_one_lru_def covers_def)
qed

lemma newest_Cons: "n \<le> length xs \<Longrightarrow> newest n (x # xs) = newest n xs"
  by (simp add: newest_def Suc_diff_le)

lemma newest_all: "length xs \<le> n \<Longrightarrow> newest n xs = xs"
  by (simp add: newest_def)

lemma length_newest [simp]: "length (newest n xs) = min n (length xs)"
  by (simp add: newest_def)

lemma map_newest: "map f (newest n xs) = newest n (map f xs)"
  by (simp add: newest_def drop_map)

definition evicted :: "nat \<Rightarrow> 'a lazy_cache \<Rightarrow> 'a lazy_cache \<Rightarrow> bool" where
  "evicted n c c' \<longleftrightarrow> lru_inv c' \<and> by_age (entries c') = newest n (by_age (entries c)) \<and>
     policy c' = policy c \<and> max_lru_states c' = max_lru_states c \<and> scratch c' = scratch c"

lemma evict_before_insert:
  assumes "lru_inv c"
  shows "evicted n c (evict_lru_before_insert (Suc n) c)"
  using assms
proof (induction "Suc n" c rule: evict_lru_before_insert.induct)
  case (1 c)
  show ?case
  proof (cases "Suc n \<le> length (entries c)")
    case False
    then show ?thesis
      using "1.prems" by (subst evict_lru_before_insert.simps) (simp add: evicted_def newest_all)
  next
    case True
    obtain x xs where bx: "by_age (entries c) = x # xs"
      using True by (metis Suc_le_length_iff length_by_age)
    have ag: "aged (entries c)" and cov: "covers (lru_heap c) (entries c)"
      using "1.prems" by (simp_all add: lru_inv_def)
    obtain h where ev: "evict_one_lru c = (True, c\<lparr>lru_heap := h, entries := AList.delete (fst x) (entries c)\<rparr>)"
      and h: "covers h (AList.delete (fst x) (entries c))"
      using evict_one_lru_oldest [OF ag cov bx] by blast
    let ?c = "c\<lparr>lru_heap := h, entries := AList.delete (fst x) (entries c)\<rparr>"
    have "set xs \<subseteq> set (entries c)" using arg_cong [OF bx, of set] by auto
    then have inv: "lru_inv ?c"
      using "1.prems" h by_age_delete [OF ag bx] by (auto simp: lru_inv_def)
    have "evicted n ?c (evict_lru_before_insert (Suc n) ?c)"
      using "1.hyps" [OF True ev [symmetric] TrueI inv] by simp
    moreover have "n \<le> length xs" using True arg_cong [OF bx, of length] by simp
    moreover have "evict_lru_before_insert (Suc n) c = evict_lru_before_insert (Suc n) ?c"
      using True ev by (subst evict_lru_before_insert.simps) simp
    ultimately show ?thesis
      using by_age_delete(1) [OF ag bx] by (simp add: evicted_def bx newest_Cons)
  qed
qed

lemma evict_until_eq: "evict_lru_until_at_most n c = evict_lru_before_insert (Suc n) c"
proof (induction n c rule: evict_lru_until_at_most.induct)
  case (1 n c)
  show ?case
    apply (subst evict_lru_until_at_most.simps)
    apply (subst evict_lru_before_insert.simps)
    using "1.IH" by (auto split: prod.split)
qed

subsection \<open>Renumbering\<close>

fun renum :: "u64 \<Rightarrow> 'a entries \<Rightarrow> 'a entries" where
  "renum k [] = []"
| "renum k (x # xs) = (fst x, (snd x)\<lparr>last_access := saturating_add k 1\<rparr>) # renum (saturating_add k 1) xs"

lemma unat_tick: "unat k + n < 2 ^ 64 \<Longrightarrow> 1 \<le> n \<Longrightarrow> unat (saturating_add k 1 :: u64) = unat k + 1"
  by (simp add: width_simps)

lemma renum_strip [simp]: "map strip (renum k xs) = map strip xs"
  by (induction k xs rule: renum.induct) (auto simp: strip_def)

lemma renum_keys [simp]: "map fst (renum k xs) = map fst xs"
  by (induction k xs rule: renum.induct) auto

lemma renum_access:
  "unat k + length xs < 2 ^ 64 \<Longrightarrow>
     map (unat \<circ> access) (renum k xs) = [unat k + 1 ..< unat k + 1 + length xs]"
proof (induction k xs rule: renum.induct)
  case (2 k x xs)
  then have "unat (saturating_add k 1 :: u64) = unat k + 1"
    using unat_tick [of k "length (x # xs)"] by simp
  with 2 show ?case by (simp add: upt_rec)
qed simp

lemma renumber_loop_mset:
  assumes "mset es = mset (ys @ xs)" and "distinct (map fst es)"
  shows "mset (snd (renumber_loop (map (\<lambda>x. (access x, fst x)) xs) k es)) = mset (ys @ renum k xs)"
  using assms
proof (induction xs arbitrary: ys k es)
  case (Cons x xs)
  obtain s e where x: "x = (s, e)" by force
  let ?k = "saturating_add k 1" let ?y = "(s, e\<lparr>last_access := ?k\<rparr>)"
  have "(s, e) \<in> set es" using mset_eq_setD [OF Cons.prems(1)] by (simp add: x)
  then have e: "map_of es s = Some e" by (rule map_of_is_SomeI [OF Cons.prems(2)])
  have "distinct (map fst (ys @ x # xs))"
    using Cons.prems distinct_map_mset_cong by blast
  then have "s \<notin> fst ` set (ys @ xs)" by (auto simp: x)
  then have "\<forall>y \<in> set (ys @ xs). fst y \<noteq> s" by (metis imageI)
  then have "without s (ys @ x # xs) = ys @ xs" by (simp add: without_def x filter_id_conv)
  then have "mset (without s es) = mset (ys @ xs)"
    using Cons.prems(1) mset_without by metis
  then have "mset (AList.update s (snd ?y) es) = mset ((ys @ [?y]) @ xs)"
    using mset_update [OF Cons.prems(2), of s "snd ?y"] by simp
  then show ?case
    using Cons.IH [of "AList.update s (snd ?y) es" "ys @ [?y]" ?k] Cons.prems(2) e
    by (simp add: x Let_def distinct_update)
qed simp

lemma entries_bound: "aged es \<Longrightarrow> length es \<le> 2 ^ 32"
proof -
  assume "aged es"
  then have "card (set (map fst es)) = length (map fst es)" unfolding aged_def by (blast intro: distinct_card)
  then have "length es = card (set (map fst es))" by simp
  also have "\<dots> \<le> CARD(32 word)" by (intro card_mono) simp_all
  finally show ?thesis by (simp add: card_word)
qed

lemma fst_renumber_loop:
  "unat k + length xs < 2 ^ 64 \<Longrightarrow>
     unat (fst (renumber_loop xs k es)) = unat k + length xs"
proof (induction xs k es rule: renumber_loop.induct)
  case (2 t s rest k es)
  then have "unat (saturating_add k 1 :: u64) = unat k + 1"
    using unat_tick [of k "length ((t, s) # rest)"] by simp
  with 2 show ?case by (simp add: Let_def)
qed simp

lemma sort_live_ticks:
  assumes "aged es"
  shows "sort (live_ticks es) = map (\<lambda>x. (access x, fst x)) (by_age es)"
proof (rule properties_for_sort)
  have "filter (\<lambda>(s, e). 0 < last_access e) es = es"
    using assms by (auto simp: aged_def filter_id_conv)
  then show "mset (map (\<lambda>x. (access x, fst x)) (by_age es)) = mset (live_ticks es)"
    by (simp add: live_ticks_def case_prod_unfold)
  have "sorted_wrt (\<lambda>x y. access x < access y) (by_age es)"
    using sorted_by_age [of es] assms aged_by_age [of es]
    by (auto simp: aged_def sorted_wrt_map sorted_wrt_iff_nth_less distinct_conv_nth le_less)
  then show "sorted (map (\<lambda>x. (access x, fst x)) (by_age es))"
    unfolding sorted_wrt_map by (rule sorted_wrt_mono_rel [rotated]) (simp add: less_eq_prod_def)
qed

lemma aged_from_strictly_sorted:
  assumes "distinct (map fst es)" and "map (unat \<circ> access) es = [Suc k ..< n]"
  shows "aged es \<and> sorted (map access es) \<and> (\<forall>x \<in> set es. unat (access x) < n)"
proof -
  have "set (map (unat \<circ> access) es) = {Suc k ..< n}" unfolding assms(2) by simp
  then have range: "\<forall>x \<in> set es. Suc k \<le> unat (access x) \<and> unat (access x) < n" by force
  have "distinct (map unat (map access es))" using assms(2) by (simp add: comp_def)
  then have "distinct (map access es)" by (simp only: distinct_map)
  moreover have "sorted (map unat (map access es))" using assms(2) by (simp add: comp_def)
  then have "sorted (map access es)" by (simp add: sorted_wrt_map word_le_nat_alt)
  moreover have "\<forall>x \<in> set es. 0 < access x" using range by (auto simp: word_less_nat_alt)
  ultimately show ?thesis using assms(1) range by (simp add: aged_def)
qed

lemma renumber_lru_ticks:
  assumes "lru_inv c"
  shows "lru_inv (renumber_lru_ticks c) \<and> unat (clock (renumber_lru_ticks c)) = length (entries c) \<and>
     map strip (by_age (entries (renumber_lru_ticks c))) = map strip (by_age (entries c)) \<and>
     policy (renumber_lru_ticks c) = policy c \<and> max_lru_states (renumber_lru_ticks c) = max_lru_states c \<and>
     scratch (renumber_lru_ticks c) = scratch c"
proof -
  let ?es = "entries c" let ?ticks = "map (\<lambda>x. (access x, fst x)) (by_age ?es)"
  let ?new = "snd (renumber_loop ?ticks 0 ?es)"
  have ag: "aged ?es" using assms by (simp add: lru_inv_def)
  have len: "length ?es < 2 ^ 64" using entries_bound [OF ag] by simp
  have "mset ?new = mset ([] @ renum 0 (by_age ?es))"
    using ag by (intro renumber_loop_mset) (simp_all add: aged_def)
  then have m: "mset ?new = mset (renum 0 (by_age ?es))" by simp
  have dist: "distinct (map fst (renum 0 (by_age ?es)))"
    using ag aged_by_age [of ?es] by (simp add: aged_def)
  have acc: "map (unat \<circ> access) (renum 0 (by_age ?es)) = [Suc 0 ..< Suc (length ?es)]"
    using renum_access [of 0 "by_age ?es"] len by simp
  note st = aged_from_strictly_sorted [OF dist acc]
  have ag': "aged ?new" using aged_mset_cong [OF m] st by simp
  have age: "by_age ?new = renum 0 (by_age ?es)"
    using m ag' st by (intro by_age_eqI) (simp_all add: aged_def)
  have k: "unat (fst (renumber_loop ?ticks 0 ?es)) = length ?es"
    using fst_renumber_loop [of 0 ?ticks ?es] len by simp
  have "\<forall>x \<in> set ?new. access x \<le> fst (renumber_loop ?ticks 0 ?es)"
    using st mset_eq_setD [OF m] k by (auto simp: word_le_nat_alt less_Suc_eq_le)
  then show ?thesis
    using ag' covers_live_ticks [OF ag'] k age
    by (simp add: renumber_lru_ticks_def sort_live_ticks [OF ag] case_prod_unfold Let_def
        rebuild_lru_heap_def lru_inv_def)
qed

lemma next_tick:
  assumes "lru_inv c" and "next_tick c = (t, c')"
  shows "lru_inv c' \<and> map strip (by_age (entries c')) = map strip (by_age (entries c)) \<and>
     clock c' = t \<and> 0 < t \<and> (\<forall>x \<in> set (entries c'). access x < t) \<and>
     policy c' = policy c \<and> max_lru_states c' = max_lru_states c \<and> scratch c' = scratch c"
proof -
  let ?c1 = "if clock c = - 1 then renumber_lru_ticks c else c"
  have inv1: "lru_inv ?c1" using renumber_lru_ticks [OF assms(1)] assms(1) by simp
  have bound: "length (entries c) \<le> 2 ^ 32" using assms(1) entries_bound [of "entries c"] by (simp add: lru_inv_def)
  have small: "unat (clock ?c1) + 1 < 2 ^ 64"
  proof (cases "clock c = - 1")
    case True
    then show ?thesis using renumber_lru_ticks [OF assms(1)] bound by simp
  next
    case False
    then have "unat (clock c) \<noteq> 2 ^ 64 - 1"
      using word_unat_eq_iff [of "clock c" "- 1"] by (simp add: unat_minus_one_word_eq)
    then show ?thesis using False unat_less_exp [of "clock c"] by simp
  qed
  let ?t = "max (saturating_add (clock ?c1) 1) 1 :: u64"
  have ut: "unat (saturating_add (clock ?c1) 1 :: u64) = unat (clock ?c1) + 1"
    using small unat_tick [of "clock ?c1" 1] by simp
  then have "(1 :: u64) \<le> saturating_add (clock ?c1) 1" by (simp add: word_le_nat_alt)
  then have t: "?t = saturating_add (clock ?c1) 1" by (simp add: max_def)
  have "(t, c') = (?t, ?c1\<lparr>clock := ?t\<rparr>)"
    using assms(2) by (simp only: next_tick_def Let_def)
  then have eqs: "t = ?t" "c' = ?c1\<lparr>clock := ?t\<rparr>" by (simp_all only: prod.inject)
  have lt: "clock ?c1 < t" using ut t eqs by (simp add: word_less_nat_alt)
  have "\<forall>x \<in> set (entries ?c1). access x < t"
    using inv1 lt by (meson le_less_trans lru_inv_def)
  then have "lru_inv c'" and "\<forall>x \<in> set (entries c'). access x < t"
    using inv1 eqs by (auto simp: lru_inv_def less_imp_le)
  moreover have "0 < t" using lt by (metis word_not_simps(1) word_neq_0_conv)
  ultimately show ?thesis
    using eqs renumber_lru_ticks [OF assms(1)] by simp
qed

subsection \<open>The operations refine the specification\<close>

lemma compact_keeps:
  assumes "lru_inv c"
  shows "lru_inv (compact_lru_heap_if_needed c) \<and>
     entries (compact_lru_heap_if_needed c) = entries c \<and>
     policy (compact_lru_heap_if_needed c) = policy c \<and>
     max_lru_states (compact_lru_heap_if_needed c) = max_lru_states c \<and>
     scratch (compact_lru_heap_if_needed c) = scratch c"
  using assms
  by (auto simp: compact_lru_heap_if_needed_def rebuild_lru_heap_def lru_inv_def covers_live_ticks Let_def)

text \<open>Storing an entry under the next tick appends it at the recent end.\<close>

definition store_tick :: "state_id \<Rightarrow> 'a cache_entry \<Rightarrow> u64 \<Rightarrow> 'a lazy_cache \<Rightarrow> 'a lazy_cache" where
  "store_tick s e t c =
     compact_lru_heap_if_needed
       (c\<lparr>entries := AList.update s (e\<lparr>last_access := t\<rparr>) (entries c), lru_heap := (t, s) # lru_heap c\<rparr>)"

lemma store_tick:
  assumes "lru_inv c" and "clock c = t" and "0 < t" and "\<forall>x \<in> set (entries c). access x < t"
  shows "lru_inv (store_tick s e t c) \<and>
     map strip (by_age (entries (store_tick s e t c))) =
       without s (map strip (by_age (entries c))) @ [(s, cached e)] \<and>
     policy (store_tick s e t c) = policy c \<and> max_lru_states (store_tick s e t c) = max_lru_states c \<and>
     scratch (store_tick s e t c) = scratch c"
proof -
  let ?e = "e\<lparr>last_access := t\<rparr>"
  let ?c = "c\<lparr>entries := AList.update s ?e (entries c), lru_heap := (t, s) # lru_heap c\<rparr>"
  have ag: "aged (entries c)" using assms(1) by (simp add: lru_inv_def)
  have lt: "\<forall>x \<in> set (entries c). access x < last_access ?e" "0 < last_access ?e"
    using assms(3,4) by simp_all
  have "\<forall>x \<in> set (AList.update s ?e (entries c)). access x \<le> t"
    using assms(4) by (auto dest!: set_update_subset simp: less_imp_le)
  then have "lru_inv ?c"
    using aged_update [OF ag lt, of s] covers_update [of "lru_heap c" "entries c" ?e s] assms(1,2)
    by (simp add: lru_inv_def)
  moreover have "map strip (by_age (entries ?c)) = without s (map strip (by_age (entries c))) @ [(s, cached e)]"
    using by_age_update [OF ag lt, of s]
    by (simp add: strip_def without_def filter_map comp_def)
  ultimately show ?thesis using compact_keeps [of ?c] by (simp add: store_tick_def)
qed

lemma map_of_entries_abs:
  assumes "cache_wf c"
  shows "map_of (items (cache_abs c)) s = map_option cached (map_of (entries c) s)"
  using assms
  by (auto simp: cache_abs_def map_of_strip map_of_by_age cache_wf_def split: cache_policy.split)

lemma map_of_items_inv:
  assumes "lru_inv c"
  shows "map_of (map strip (by_age (entries c))) s = map_option cached (map_of (entries c) s)"
  using assms by (simp add: map_of_strip map_of_by_age lru_inv_def aged_def)

lemma length_without_in:
  assumes "distinct (map fst xs)" and "(s, x) \<in> set xs"
  shows "Suc (length (without s xs)) = length xs"
  using assms
proof (induction xs)
  case (Cons y ys)
  have "without s ys = ys" if "s \<notin> fst ` set ys"
    using that by (auto simp: without_def filter_id_conv)
  with Cons show ?case by (cases y) (force simp: without_def)
qed simp

lemma touch_lru:
  assumes "cache_wf c" and "policy c = Lru n" and "map_of (entries c) s = Some e"
  shows "cache_wf (touch s c) \<and>
    cache_abs (touch s c) = (cache_abs c)\<lparr>items := without s (items (cache_abs c)) @ [(s, cached e)]\<rparr>"
proof -
  have inv: "lru_inv c" using assms(1,2) by (simp add: cache_wf_def)
  obtain t c1 where nt: "next_tick c = (t, c1)" by force
  note tick = next_tick [OF inv nt]
  have "map_option cached (map_of (entries c1) s) = Some (cached e)"
    using map_of_items_inv [of c1 s] map_of_items_inv [OF inv, of s] tick assms(3) by simp
  then obtain e1 where e1: "map_of (entries c1) s = Some e1" "cached e1 = cached e" by auto
  have eq: "touch s c = store_tick s e1 t c1"
    using assms(2) nt e1 by (simp add: touch_def store_tick_def)
  have st: "lru_inv (store_tick s e1 t c1) \<and>
     map strip (by_age (entries (store_tick s e1 t c1))) =
       without s (map strip (by_age (entries c1))) @ [(s, cached e1)] \<and>
     policy (store_tick s e1 t c1) = policy c1 \<and> max_lru_states (store_tick s e1 t c1) = max_lru_states c1 \<and>
     scratch (store_tick s e1 t c1) = scratch c1"
    using tick by (intro store_tick) auto
  have len: "length (entries (touch s c)) = length (entries c)"
  proof -
    have "(s, e) \<in> set (entries c)" using assms(3) by (rule map_of_SomeD)
    then have "(s, cached e) \<in> set (map strip (by_age (entries c)))" by (force simp: strip_def)
    moreover have "distinct (map fst (map strip (by_age (entries c))))"
      using inv aged_by_age [of "entries c"] by (simp add: lru_inv_def aged_def strip_def comp_def)
    ultimately have "length (without s (map strip (by_age (entries c))) @ [(s, cached e)]) =
        length (map strip (by_age (entries c)))"
      using length_without_in [of "map strip (by_age (entries c))" s "cached e"] by simp
    then show ?thesis using st tick eq e1 by (metis length_by_age length_map)
  qed
  show ?thesis
    using st tick eq e1 assms(1,2) len
    by (auto simp: cache_wf_def cache_abs_def lru_limit_def lru_inv_def aged_def)
qed

lemma lru_limit_pos: "1 \<le> lru_limit c n"
  by (simp add: lru_limit_def)

lemma insert_lru:
  assumes "cache_wf c" and "policy c = Lru n"
  shows "cache_wf (cache_insert s x c) \<and> cache_abs (cache_insert s x c) = sp_insert s x (cache_abs c)"
proof -
  define c1 where "c1 = (if map_of (entries c) s = None then evict_lru_before_insert (lru_limit c n) c else c)"
  obtain m where m: "lru_limit c n = Suc m" using lru_limit_pos [of c n] by (cases "lru_limit c n") auto
  have inv: "lru_inv c" and scr: "scratch c = None" and len: "length (entries c) \<le> Suc m"
    using assms m by (simp_all add: cache_wf_def)
  have c1: "lru_inv c1 \<and> policy c1 = Lru n \<and> max_lru_states c1 = max_lru_states c \<and> scratch c1 = None \<and>
      by_age (entries c1) = (if map_of (entries c) s = None then newest m (by_age (entries c)) else by_age (entries c))"
    using evict_before_insert [OF inv, of m] inv assms(2) scr by (auto simp: c1_def m evicted_def)
  obtain t c2 where nt: "next_tick c1 = (t, c2)" by force
  note tick = next_tick [OF conjunct1 [OF c1] nt]
  let ?e = "\<lparr>cached = x, last_access = 0\<rparr>"
  let ?d = "store_tick s ?e t c2"
  have st: "lru_inv ?d \<and>
     map strip (by_age (entries ?d)) = without s (map strip (by_age (entries c2))) @ [(s, cached ?e)] \<and>
     policy ?d = policy c2 \<and> max_lru_states ?d = max_lru_states c2 \<and> scratch ?d = scratch c2"
    using tick by (intro store_tick) auto
  then have "?d\<lparr>scratch := None\<rparr> = ?d" using tick c1 by simp
  then have eq: "cache_insert s x c = ?d"
    using assms(2) nt by (simp add: cache_insert_def Let_def c1_def [symmetric] store_tick_def)
  define old where "old = map strip (by_age (entries c))"
  have old: "items (cache_abs c) = old" using assms(2) by (simp add: cache_abs_def old_def)
  have known: "map_of old s = map_option cached (map_of (entries c) s)"
    using map_of_items_inv [OF inv] by (simp add: old_def)
  have dist: "distinct (map fst old)"
    using inv aged_by_age [of "entries c"] by (simp add: old_def lru_inv_def aged_def strip_def comp_def)
  have olen: "length old = length (entries c)" by (simp add: old_def)
  let ?new = "(if map_of old s = None then newest m old else without s old) @ [(s, x)]"
  have "without s (newest m old) = newest m old" if "map_of old s = None"
    using that by (auto simp: without_def filter_id_conv newest_def map_of_eq_None_iff dest!: in_set_dropD)
  then have items: "map strip (by_age (entries ?d)) = ?new"
    using st tick c1 known by (auto simp: old_def map_newest)
  have "length ?new \<le> Suc m"
  proof (cases "map_of old s")
    case (Some y)
    then have "Suc (length (without s old)) = length old"
      using length_without_in [OF dist] map_of_SomeD by fastforce
    then show ?thesis using Some olen len by simp
  qed simp
  then have "length (entries ?d) \<le> Suc m" using items by (metis length_by_age length_map)
  moreover have "max_lru_states ?d = max_lru_states c" using st tick c1 by simp
  then have "lru_limit ?d n = Suc m" using m by (simp only: lru_limit_def)
  ultimately have wf: "cache_wf ?d"
    using st tick c1 assms(1) by (simp add: cache_wf_def lru_inv_def aged_def)
  have "sp_limit (cache_abs c) n = lru_limit c n" by (simp add: sp_limit_def lru_limit_def cache_abs_def)
  then have "sp_limit (cache_abs c) n - 1 = m" using m by simp
  then have "sp_insert s x (cache_abs c) = (cache_abs c)\<lparr>items := ?new, sp_scratch := None\<rparr>"
    using assms(2) old by (simp add: sp_insert_def) (simp add: cache_abs_def)
  moreover have "cache_abs ?d = (cache_abs c)\<lparr>items := ?new, sp_scratch := None\<rparr>"
    using items st tick c1 assms(2) by (simp add: cache_abs_def)
  ultimately show ?thesis using wf eq by simp
qed

lemma strip_update: "map strip (AList.update s e es) = AList.update s (cached e) (map strip es)"
  by (induction es) (auto simp: strip_def)

lemma cache_insert_refines:
  assumes "cache_wf c"
  shows "cache_wf (cache_insert s x c) \<and> cache_abs (cache_insert s x c) = sp_insert s x (cache_abs c)"
proof (cases "policy c")
  case NoCache
  then show ?thesis using assms by (simp add: cache_insert_def sp_insert_def cache_abs_def cache_wf_def)
next
  case CacheAll
  let ?e = "\<lparr>cached = x, last_access = 0\<rparr>"
  let ?c = "c\<lparr>entries := AList.update s ?e (entries c), scratch := None\<rparr>"
  have eq: "cache_insert s x c = ?c" using CacheAll by (simp add: cache_insert_def)
  have "distinct (map fst (AList.update s ?e (entries c)))"
    using assms by (intro distinct_update) (simp add: cache_wf_def)
  then have wf: "cache_wf ?c" using assms CacheAll by (simp add: cache_wf_def)
  have "items (cache_abs ?c) = AList.update s x (items (cache_abs c))"
    using CacheAll strip_update [of s ?e "entries c"] by (simp add: cache_abs_def)
  moreover have "sp_insert s x (cache_abs c) = (cache_abs c)\<lparr>items := AList.update s x (items (cache_abs c)), sp_scratch := None\<rparr>"
    using CacheAll by (simp add: sp_insert_def) (simp add: cache_abs_def)
  ultimately have "cache_abs ?c = sp_insert s x (cache_abs c)"
    by (simp add: cache_spec.equality cache_abs_def)
  then show ?thesis unfolding eq using wf by (rule conjI [rotated])
next
  case (Lru n)
  show ?thesis by (rule insert_lru [OF assms Lru])
qed

lemma cache_touch_refines:
  assumes "cache_wf c"
  shows "cache_wf (snd (touch_if_cached s c)) \<and>
    (fst (touch_if_cached s c), cache_abs (snd (touch_if_cached s c))) = sp_touch s (cache_abs c)"
proof (cases "map_of (entries c) s")
  case None
  then have "map_of (items (cache_abs c)) s = None" using map_of_entries_abs [OF assms, of s] by simp
  moreover have "sp_scratch (cache_abs c) = scratch c" by (simp add: cache_abs_def)
  ultimately show ?thesis using None assms by (simp add: touch_if_cached_def sp_touch_def)
next
  case (Some e)
  then have found: "map_of (items (cache_abs c)) s = Some (cached e)"
    using map_of_entries_abs [OF assms, of s] by simp
  have pol: "sp_policy (cache_abs c) = policy c" by (simp add: cache_abs_def)
  have eq: "touch_if_cached s c = (True, touch s c)" using Some by (simp add: touch_if_cached_def)
  show ?thesis
  proof (cases "policy c")
    case (Lru n)
    then show ?thesis
      using touch_lru [OF assms Lru Some] found pol eq by (simp add: sp_touch_def)
  next
    case NoCache
    then show ?thesis using found pol eq assms by (simp add: sp_touch_def touch_def)
  next
    case CacheAll
    then show ?thesis using found pol eq assms by (simp add: sp_touch_def touch_def)
  qed
qed

lemma cache_clear_refines:
  assumes "cache_wf c"
  shows "cache_wf (cache_clear c) \<and> cache_abs (cache_clear c) = sp_clear (cache_abs c)"
  using assms
  by (auto simp: cache_clear_def sp_clear_def cache_abs_def cache_wf_def lru_inv_def aged_def covers_def
      by_age_def split: cache_policy.split)

lemma cache_set_policy_refines:
  assumes "cache_wf c"
  shows "cache_wf (cache_set_policy p c) \<and> cache_abs (cache_set_policy p c) = sp_set_policy p (cache_abs c)"
  using assms
  by (auto simp: cache_set_policy_def sp_set_policy_def cache_clear_def sp_clear_def cache_abs_def cache_wf_def
      lru_inv_def aged_def covers_def by_age_def split: cache_policy.split)

lemma cache_set_max_refines:
  assumes "cache_wf c"
  shows "cache_wf (set_max_lru_states n c) \<and> cache_abs (set_max_lru_states n c) = sp_set_max n (cache_abs c)"
proof (cases "policy c = Lru 0")
  case True
  let ?c = "c\<lparr>max_lru_states := max n 1\<rparr>"
  have "lru_inv ?c" using assms True by (simp add: cache_wf_def lru_inv_def)
  then have ev: "evicted (max n 1) ?c (evict_lru_until_at_most (max n 1) ?c)"
    unfolding evict_until_eq by (rule evict_before_insert)
  let ?d = "evict_lru_until_at_most (max n 1) ?c"
  have "length (by_age (entries ?d)) \<le> max n 1"
    using ev by (simp add: evicted_def del: length_by_age)
  then have "length (entries ?d) \<le> max n 1" by simp
  then have "cache_wf ?d"
    using ev assms True by (simp add: evicted_def cache_wf_def lru_inv_def aged_def lru_limit_def)
  moreover have "cache_abs ?d = sp_set_max n (cache_abs c)"
    using ev True by (simp add: evicted_def cache_abs_def sp_set_max_def Let_def map_newest)
  ultimately show ?thesis using True by (simp add: set_max_lru_states_def Let_def)
next
  case False
  have "lru_inv c \<Longrightarrow> lru_inv (c\<lparr>max_lru_states := max n 1\<rparr>)" by (simp add: lru_inv_def)
  then show ?thesis
    using assms False by (auto simp: set_max_lru_states_def sp_set_max_def cache_abs_def cache_wf_def
        lru_limit_def Let_def split: cache_policy.split)
qed

lemma cache_get_refines:
  assumes "cache_wf c"
  shows "cache_get c s = sp_get (cache_abs c) s"
  using map_of_entries_abs [OF assms, of s]
  by (auto simp: cache_get_def sp_get_def split: option.split) (simp_all add: cache_abs_def)

lemma cache_new_refines: "cache_wf (cache_new n :: 'a lazy_cache) \<and>
  cache_abs (cache_new n :: 'a lazy_cache) = \<lparr>items = [], sp_scratch = None, sp_policy = CacheAll, sp_max = max n 1\<rparr>"
  by (simp add: cache_new_def cache_wf_def cache_abs_def)

section \<open>Runs\<close>

datatype 'a cache_op = Insert state_id 'a | Touch state_id | SetPolicy cache_policy | SetMax usize | Clear

fun cache_step :: "'a cache_op \<Rightarrow> 'a lazy_cache \<Rightarrow> bool \<times> 'a lazy_cache" where
  "cache_step (Insert s x) c = (True, cache_insert s x c)"
| "cache_step (Touch s) c = touch_if_cached s c"
| "cache_step (SetPolicy p) c = (True, cache_set_policy p c)"
| "cache_step (SetMax n) c = (True, set_max_lru_states n c)"
| "cache_step Clear c = (True, cache_clear c)"

fun sp_step :: "'a cache_op \<Rightarrow> 'a cache_spec \<Rightarrow> bool \<times> 'a cache_spec" where
  "sp_step (Insert s x) a = (True, sp_insert s x a)"
| "sp_step (Touch s) a = sp_touch s a"
| "sp_step (SetPolicy p) a = (True, sp_set_policy p a)"
| "sp_step (SetMax n) a = (True, sp_set_max n a)"
| "sp_step Clear a = (True, sp_clear a)"

fun run :: "('o \<Rightarrow> 's \<Rightarrow> bool \<times> 's) \<Rightarrow> 'o list \<Rightarrow> 's \<Rightarrow> bool list \<times> 's" where
  "run step [] s = ([], s)"
| "run step (x # xs) s = (let (r, s') = step x s; (rs, s'') = run step xs s' in (r # rs, s''))"

lemma cache_step_refines:
  assumes "cache_wf c"
  shows "cache_wf (snd (cache_step x c)) \<and>
    (fst (cache_step x c), cache_abs (snd (cache_step x c))) = sp_step x (cache_abs c)"
  using cache_insert_refines [OF assms] cache_touch_refines [OF assms] cache_set_policy_refines [OF assms]
    cache_set_max_refines [OF assms] cache_clear_refines [OF assms]
  by (cases x) simp_all

lemma cache_run_refines:
  "cache_wf c \<Longrightarrow> cache_wf (snd (run cache_step xs c)) \<and>
     (fst (run cache_step xs c), cache_abs (snd (run cache_step xs c))) = run sp_step xs (cache_abs c)"
proof (induction xs arbitrary: c)
  case (Cons x xs)
  note st = cache_step_refines [OF Cons.prems, of x]
  show ?case
    using Cons.IH [of "snd (cache_step x c)"] st
    by (auto simp: Let_def split: prod.splits)
qed simp

lemma cache_wf_len:
  assumes "cache_wf c"
  shows "cache_len c = length (items (cache_abs c))"
  by (auto simp: cache_len_def cache_abs_def split: cache_policy.split)

text \<open>
  C30: \<open>LazyStateCache\<close> is an LRU cache. Whatever sequence of insertions, touches, policy changes,
  limit changes and clears runs from a fresh cache, clock renumbering and heap compaction
  included, every answer, every lookup and the number of held states are those of the
  specification that keeps the states in a list ordered by use.
\<close>

theorem lru_cache_refines_spec:
  "let (answers, c) = run cache_step ops (cache_new n);
       (sp_answers, a) = run sp_step ops \<lparr>items = [], sp_scratch = None, sp_policy = CacheAll, sp_max = max n 1\<rparr>
   in answers = sp_answers \<and> cache_get c = sp_get a \<and> cache_len c = length (items a)"
proof -
  obtain answers c where r: "run cache_step ops (cache_new n) = (answers, c)" by force
  have ref: "cache_wf c \<and> (answers, cache_abs c) =
      run sp_step ops \<lparr>items = [], sp_scratch = None, sp_policy = CacheAll, sp_max = max n 1\<rparr>"
    using cache_run_refines [OF conjunct1 [OF cache_new_refines], of ops n] r
    by (simp add: conjunct2 [OF cache_new_refines])
  then show ?thesis
    using cache_get_refines [of c] cache_wf_len [of c] r by (auto simp: fun_eq_iff split: prod.splits)
qed

lemma run_wf: "cache_wf (snd (run cache_step ops (cache_new n)))"
  using cache_run_refines cache_new_refines by blast

lemma compact_bound:
  assumes "length (entries (compact_lru_heap_if_needed c)) \<le> 2 ^ 32"
  shows "length (lru_heap (compact_lru_heap_if_needed c)) \<le> max (4 * length (entries (compact_lru_heap_if_needed c))) 64"
proof -
  have same: "entries (compact_lru_heap_if_needed c) = entries c"
    by (simp add: compact_lru_heap_if_needed_def rebuild_lru_heap_def Let_def)
  have "length (live_ticks (entries c)) \<le> length (entries c)" by (simp add: live_ticks_def)
  then show ?thesis
    using assms unfolding same by (auto simp: compact_lru_heap_if_needed_def rebuild_lru_heap_def Let_def usize_sat_mul_def
        usize_max_def)
qed

lemma lru_entries_bound: "cache_wf c \<Longrightarrow> policy c = Lru n \<Longrightarrow> length (entries c) \<le> 2 ^ 32"
  using entries_bound [of "entries c"] by (simp add: cache_wf_def lru_inv_def)

definition heap_small :: "'a lazy_cache \<Rightarrow> bool" where
  "heap_small c \<longleftrightarrow> length (lru_heap c) \<le> max (4 * cache_len c) 64"

lemma insert_heap:
  assumes "cache_wf c" and "policy c = Lru n"
  shows "heap_small (cache_insert s x c) \<and> policy (cache_insert s x c) = Lru n"
proof -
  let ?d = "cache_insert s x c"
  have wfd: "cache_wf ?d" and abs: "cache_abs ?d = sp_insert s x (cache_abs c)"
    using insert_lru [OF assms] by simp_all
  have "sp_policy (cache_abs ?d) = policy c" using abs assms(2) by (simp add: sp_insert_def cache_abs_def)
  then have pol: "policy ?d = Lru n" using assms(2) by (simp add: cache_abs_def)
  obtain e where e: "?d = compact_lru_heap_if_needed e\<lparr>scratch := None\<rparr>"
    using assms(2) by (auto simp: cache_insert_def Let_def case_prod_unfold)
  then show ?thesis
    using compact_bound [of e] lru_entries_bound [OF wfd pol] pol by (simp add: heap_small_def cache_len_def)
qed

lemma touch_heap:
  assumes "cache_wf c" and "policy c = Lru n" and "map_of (entries c) s \<noteq> None"
  shows "heap_small (touch s c) \<and> policy (touch s c) = Lru n"
proof -
  obtain e where e: "map_of (entries c) s = Some e" using assms(3) by auto
  have inv: "lru_inv c" using assms(1,2) by (simp add: cache_wf_def)
  obtain t c1 where nt: "next_tick c = (t, c1)" by force
  note tick = next_tick [OF inv nt]
  have "map_option cached (map_of (entries c1) s) = Some (cached e)"
    using map_of_items_inv [of c1 s] map_of_items_inv [OF inv, of s] tick e by simp
  then obtain e1 where "map_of (entries c1) s = Some e1" by auto
  then obtain b where b: "touch s c = compact_lru_heap_if_needed b" using assms(2) nt by (auto simp: touch_def)
  have wf: "cache_wf (touch s c)" and abs: "sp_policy (cache_abs (touch s c)) = policy c"
    using touch_lru [OF assms(1,2) e] by (simp_all add: cache_abs_def)
  then have pol: "policy (touch s c) = Lru n" using assms(2) by (simp add: cache_abs_def)
  show ?thesis
    using compact_bound [of b] lru_entries_bound [OF wf pol] pol by (simp add: heap_small_def cache_len_def b)
qed

text \<open>A cache with an own limit keeps its heap small at all times.\<close>

definition heap_bounded :: "'a lazy_cache \<Rightarrow> bool" where
  "heap_bounded c \<longleftrightarrow> (\<forall>n. policy c = Lru n \<longrightarrow> 0 < n \<longrightarrow> length (lru_heap c) \<le> max (4 * n) 64)"

lemma heap_small_bounded:
  assumes "cache_wf c" and "policy c = Lru n" and "heap_small c"
  shows "heap_bounded c"
  using assms by (auto simp: heap_bounded_def heap_small_def cache_wf_def cache_len_def lru_limit_def)

lemma heap_bounded_step:
  assumes "cache_wf c" and "heap_bounded c"
  shows "heap_bounded (snd (cache_step x c))"
proof -
  have wf: "cache_wf (snd (cache_step x c))" using cache_step_refines [OF assms(1)] by blast
  show ?thesis
  proof (cases x)
    case (Insert s v)
    show ?thesis
    proof (cases "policy c")
      case (Lru n)
      then show ?thesis using insert_heap [OF assms(1) Lru, of s v] heap_small_bounded [OF wf] Insert by simp
    qed (simp_all add: Insert cache_insert_def heap_bounded_def)
  next
    case (Touch s)
    show ?thesis
    proof (cases "map_of (entries c) s = None")
      case True
      then show ?thesis using assms(2) Touch by (simp add: touch_if_cached_def)
    next
      case False
      then show ?thesis
      proof (cases "policy c")
        case (Lru n)
        then show ?thesis
          using touch_heap [OF assms(1) Lru False] heap_small_bounded [OF wf] Touch False by (simp add: touch_if_cached_def)
      qed (use Touch assms(2) in \<open>simp_all add: touch_if_cached_def touch_def heap_bounded_def\<close>)
    qed
  next
    case (SetMax m)
    have "sp_policy (cache_abs (snd (cache_step x c))) = sp_policy (cache_abs c)"
      using cache_step_refines [OF assms(1), of x] SetMax by (auto simp: sp_set_max_def Let_def prod_eq_iff)
    then have pol: "policy (snd (cache_step x c)) = policy c" by (simp add: cache_abs_def)
    have "lru_heap (snd (cache_step x c)) = lru_heap c" if "policy c \<noteq> Lru 0"
      using that SetMax by (simp add: set_max_lru_states_def)
    then show ?thesis using assms(2) unfolding heap_bounded_def pol by auto
  qed (simp_all add: cache_set_policy_def cache_clear_def heap_bounded_def)
qed

lemma heap_bounded_run: "cache_wf c \<Longrightarrow> heap_bounded c \<Longrightarrow> heap_bounded (snd (run cache_step xs c))"
proof (induction xs arbitrary: c)
  case (Cons x xs)
  have "cache_wf (snd (cache_step x c))" using cache_step_refines [OF Cons.prems(1)] by blast
  from Cons.IH [OF this heap_bounded_step [OF Cons.prems]] show ?case by (simp add: Let_def case_prod_unfold)
qed simp

text \<open>
  C34: the cache is bounded. After any sequence of operations, a cache under an LRU policy holds no more states
  than the limit in force; under a limit of its own its heap has no more entries than four times that limit, or
  64 where that is more; and whatever was touched before, each insertion and each touch of a held state leaves
  no more heap entries than four for every held state, or 64.
\<close>

theorem lru_cache_bounded:
  assumes "snd (run cache_step ops (cache_new m)) = c" and "policy c = Lru n"
  shows "cache_len c \<le> lru_limit c n \<and>
    (0 < n \<longrightarrow> length (lru_heap c) \<le> max (4 * n) 64) \<and>
    length (lru_heap (cache_insert s x c)) \<le> max (4 * cache_len (cache_insert s x c)) 64 \<and>
    (cache_is_expanded c s \<longrightarrow>
       length (lru_heap (snd (touch_if_cached s c))) \<le> max (4 * cache_len (snd (touch_if_cached s c))) 64)"
proof -
  have wf: "cache_wf c" using run_wf assms(1) by blast
  have "heap_bounded (cache_new m)" by (simp add: heap_bounded_def cache_new_def)
  then have all: "heap_bounded c" using heap_bounded_run cache_new_refines assms(1) by blast
  have held: "map_of (entries c) s \<noteq> None" if "cache_is_expanded c s" using that by (simp add: cache_is_expanded_def)
  show ?thesis
    using wf all insert_heap [OF wf assms(2), of s x] touch_heap [OF wf assms(2)] held assms(2)
    by (auto simp: cache_wf_def cache_len_def heap_bounded_def heap_small_def touch_if_cached_def)
qed

text \<open>Two states held under a limit of two, one of them touched a thousand times.\<close>

theorem lru_cache_bounded_witness:
  "\<exists>c. snd (run cache_step (SetPolicy (Lru 2) # Insert 1 () # Insert 2 () # Insert 3 () # replicate 1000 (Touch 3)) (cache_new 8)) = c \<and>
     cache_len c \<le> 2 \<and> length (lru_heap c) \<le> 64"
proof -
  have all: "\<exists>c. snd (run cache_step (SetPolicy (Lru 2) # Insert 1 () # Insert 2 () # Insert 3 () # replicate k (Touch 3)) (cache_new 8)) = c \<and>
     cache_len c \<le> 2 \<and> length (lru_heap c) \<le> 64" for k
  proof -
    let ?ops = "SetPolicy (Lru 2) # Insert 1 () # Insert 2 () # Insert 3 () # replicate k (Touch 3)"
    let ?c = "snd (run cache_step ?ops (cache_new 8))"
    have touches: "sp_policy (snd (run sp_step (replicate k (Touch i)) a)) = sp_policy a" for k i and a :: "unit cache_spec"
    proof (induction k arbitrary: a)
      case (Suc k)
      have "sp_policy (snd (sp_touch i a)) = sp_policy a" by (auto simp: sp_touch_def split: option.split cache_policy.split)
      then show ?case using Suc by (simp add: Let_def case_prod_unfold)
    qed simp
    have "cache_abs ?c = snd (run sp_step ?ops (cache_abs (cache_new 8)))"
      using cache_run_refines [of "cache_new 8" ?ops] cache_new_refines [of 8] by (metis snd_conv)
    then have "sp_policy (cache_abs ?c) = Lru 2"
      by (simp add: cache_new_def cache_abs_def sp_insert_def sp_set_policy_def sp_clear_def Let_def case_prod_unfold touches)
    then have pol: "policy ?c = Lru 2" by (simp add: cache_abs_def)
    have "cache_len ?c \<le> lru_limit ?c 2" "length (lru_heap ?c) \<le> max (4 * 2) 64"
      using lru_cache_bounded [OF refl pol, of 0 "()"] by simp_all
    then show ?thesis by (simp add: lru_limit_def)
  qed
  show ?thesis by (rule all)
qed

end
