(* ===== verification/Lazy_Wrapper.thy ===== *)
theory Lazy_Wrapper
  imports Lazy_Cache
begin

text \<open>
  The part of \<open>src/lazy_cache.rs\<close>, \<open>src/lazy_lifecycle.rs\<close> and \<open>src/wrapper.rs\<close> that joins a
  state source with the cache: expanding a state through the cache, the answers a wrapper gives
  with and without a cached state, and the cancellation contract. A source computes a state from
  its own (interior mutable) state, so an expansion returns the source it leaves behind. The
  locale \<open>lazy_source\<close> is the contract the sources of the crate keep; with it a wrapper answers
  what the source computes, whatever the cache policy.
\<close>

section \<open>Cached states\<close>

record cached_char_state =
  cs_final :: bool
  cs_weight :: weight
  cs_transitions :: "transition list"

definition from_state_expansion :: "expansion \<Rightarrow> expansion_error + cached_char_state" where
  "from_state_expansion e =
     (case e of
        Expanded f w ts \<Rightarrow> Inr \<lparr>cs_final = f, cs_weight = w, cs_transitions = ts\<rparr>
      | Failed failure \<Rightarrow> Inl (Failure failure)
      | Cancelled reason \<Rightarrow> Inl (CancelledError reason))"

definition cached_status :: "cached_char_state \<Rightarrow> expansion_status" where
  "cached_status x = (if cs_transitions x = [] then ExpandedEmpty else ExpandedNonempty)"

definition invalid_state_error :: "state_id \<Rightarrow> expansion_error" where
  "invalid_state_error s = Failure (InvalidState s)"

definition total_cached_transitions :: "cached_char_state lazy_cache \<Rightarrow> usize" where
  "total_cached_transitions c =
     usize_sat_add (sum_list (map (\<lambda>(s, e). length (cs_transitions (cached e))) (entries c)))
       (case scratch c of None \<Rightarrow> 0 | Some (_, x) \<Rightarrow> length (cs_transitions x))"

definition cached_char_state_status ::
    "cached_char_state lazy_cache \<Rightarrow> state_id \<Rightarrow> expansion_error + expansion_status" where
  "cached_char_state_status c s =
     (case cache_get c s of Some x \<Rightarrow> Inr (cached_status x) | None \<Rightarrow> Inl (invalid_state_error s))"

definition cache_char_state_expansion ::
    "cached_char_state lazy_cache \<Rightarrow> state_id \<Rightarrow> expansion
     \<Rightarrow> (expansion_error + expansion_status) \<times> cached_char_state lazy_cache" where
  "cache_char_state_expansion c s e =
     (case from_state_expansion e of
        Inl err \<Rightarrow> (Inl err, c)
      | Inr x \<Rightarrow> (Inr (cached_status x), cache_insert s x c))"

definition ensure_cached_char_state ::
    "('s \<Rightarrow> state_id \<Rightarrow> expansion \<times> 's) \<Rightarrow> ('s \<Rightarrow> state_id \<Rightarrow> bool) \<Rightarrow> state_id
     \<Rightarrow> cached_char_state lazy_cache \<times> 's
     \<Rightarrow> (expansion_error + expansion_status) \<times> cached_char_state lazy_cache \<times> 's" where
  "ensure_cached_char_state expand is_valid state = (\<lambda>(cache, src).
     (case touch_if_cached state cache of
        (True, cache') \<Rightarrow> (cached_char_state_status cache' state, cache', src)
      | (False, cache') \<Rightarrow>
          if \<not> is_valid src state then (Inl (invalid_state_error state), cache', src)
          else (case expand src state of (e, src') \<Rightarrow>
                  (case cache_char_state_expansion cache' state e of (r, cache'') \<Rightarrow> (r, cache'', src')))))"

text \<open>\<open>fulfill_expansion_request\<close>: a cancelled request is answered without computing the state.\<close>

definition fulfill_expansion_request ::
    "('s \<Rightarrow> state_id \<Rightarrow> expansion \<times> 's) \<Rightarrow> 's \<Rightarrow> cancellation_reason option \<Rightarrow> state_id \<Rightarrow> expansion \<times> 's" where
  "fulfill_expansion_request expand src cancellation state =
     (case cancellation of Some reason \<Rightarrow> (Cancelled reason, src) | None \<Rightarrow> expand src state)"

section \<open>The wrapper's answers\<close>

definition wrapper_is_final ::
    "('s \<Rightarrow> state_id \<Rightarrow> weight option) \<Rightarrow> cached_char_state lazy_cache \<times> 's \<Rightarrow> state_id \<Rightarrow> bool" where
  "wrapper_is_final final_weight_for = (\<lambda>(c, src) s.
     (case cache_get c s of Some x \<Rightarrow> cs_final x | None \<Rightarrow> final_weight_for src s \<noteq> None))"

definition wrapper_final_weight ::
    "('s \<Rightarrow> state_id \<Rightarrow> weight option) \<Rightarrow> cached_char_state lazy_cache \<times> 's \<Rightarrow> state_id \<Rightarrow> weight" where
  "wrapper_final_weight final_weight_for = (\<lambda>(c, src) s.
     (case cache_get c s of
        Some x \<Rightarrow> cs_weight x
      | None \<Rightarrow> (case final_weight_for src s of Some w \<Rightarrow> w | None \<Rightarrow> tropical_zero)))"

definition wrapper_transitions :: "cached_char_state lazy_cache \<times> 's \<Rightarrow> state_id \<Rightarrow> transition list" where
  "wrapper_transitions = (\<lambda>(c, src) s.
     (case cache_get c s of Some x \<Rightarrow> cs_transitions x | None \<Rightarrow> []))"

definition wrapper_transitions_lazy ::
    "('s \<Rightarrow> state_id \<Rightarrow> expansion \<times> 's) \<Rightarrow> ('s \<Rightarrow> state_id \<Rightarrow> bool) \<Rightarrow> state_id
     \<Rightarrow> cached_char_state lazy_cache \<times> 's \<Rightarrow> transition list \<times> cached_char_state lazy_cache \<times> 's" where
  "wrapper_transitions_lazy expand is_valid s w =
     (case ensure_cached_char_state expand is_valid s w of (_, w') \<Rightarrow> (wrapper_transitions w' s, w'))"

text \<open>\<open>LevenshteinWfst::num_states\<close>: the hint, but never below the span of registered identifiers.\<close>

definition wrapper_num_states :: "usize option \<Rightarrow> usize \<Rightarrow> usize" where
  "wrapper_num_states hint id_span = max (case hint of Some h \<Rightarrow> h | None \<Rightarrow> 0) id_span"

text \<open>The operations of a wrapper that change its cache or its source.\<close>

datatype wrapper_op = Expand state_id | SetCachePolicy cache_policy | SetMaxCacheSize usize | ClearCache

fun wrapper_step ::
    "('s \<Rightarrow> state_id \<Rightarrow> expansion \<times> 's) \<Rightarrow> ('s \<Rightarrow> state_id \<Rightarrow> bool) \<Rightarrow> wrapper_op
     \<Rightarrow> cached_char_state lazy_cache \<times> 's \<Rightarrow> cached_char_state lazy_cache \<times> 's" where
  "wrapper_step expand is_valid (Expand q) w = snd (ensure_cached_char_state expand is_valid q w)"
| "wrapper_step expand is_valid (SetCachePolicy p) (c, s) = (cache_set_policy p c, s)"
| "wrapper_step expand is_valid (SetMaxCacheSize n) (c, s) = (set_max_lru_states n c, s)"
| "wrapper_step expand is_valid ClearCache (c, s) = (cache_clear c, s)"

definition wrapper_run ::
    "('s \<Rightarrow> state_id \<Rightarrow> expansion \<times> 's) \<Rightarrow> ('s \<Rightarrow> state_id \<Rightarrow> bool) \<Rightarrow> wrapper_op list
     \<Rightarrow> cached_char_state lazy_cache \<times> 's \<Rightarrow> cached_char_state lazy_cache \<times> 's" where
  "wrapper_run expand is_valid ops w = fold (wrapper_step expand is_valid) ops w"

section \<open>Facts about the cache\<close>

lemma sp_get_insert_same: "sp_policy a = Lru n \<Longrightarrow> sp_get (sp_insert s x a) s = Some x"
proof -
  assume p: "sp_policy a = Lru n"
  have "map_of (without s (items a)) s = None" by (auto simp: map_of_eq_None_iff without_def)
  moreover have "map_of (newest m (items a)) s = None" if "map_of (items a) s = None" for m
    using that by (auto simp: map_of_eq_None_iff newest_def dest: in_set_dropD)
  ultimately show ?thesis using p by (simp add: sp_insert_def sp_get_def map_add_def)
qed

lemma cache_get_insert_same:
  assumes "cache_wf c"
  shows "cache_get (cache_insert s x c) s = Some x"
proof (cases "policy c")
  case (Lru n)
  have wf: "cache_wf (cache_insert s x c)" using cache_insert_refines [OF assms] by blast
  have "sp_policy (cache_abs c) = Lru n" using Lru by (simp add: cache_abs_def)
  then show ?thesis
    using cache_get_refines [OF wf] cache_insert_refines [OF assms, of s x] sp_get_insert_same by metis
next
  case NoCache
  then show ?thesis using assms by (simp add: cache_get_def cache_insert_def cache_wf_def)
next
  case CacheAll
  then show ?thesis by (simp add: cache_get_def cache_insert_def update_conv)
qed

lemma map_of_newest:
  assumes "distinct (map fst xs)" and "map_of (newest m xs) k = Some v"
  shows "map_of xs k = Some v"
proof -
  have "(k, v) \<in> set xs" using map_of_SomeD [OF assms(2)] by (auto simp: newest_def dest: in_set_dropD)
  then show ?thesis using assms(1) by simp
qed

lemma map_of_without: "map_of (without s xs) k = (if k = s then None else map_of xs k)"
  by (induction xs) (auto simp: without_def)

lemma sp_get_insert_other:
  assumes "distinct (map fst (items a))" and "sp_get (sp_insert s x a) t = Some y" and "t \<noteq> s"
  shows "sp_get a t = Some y"
proof (cases "sp_policy a")
  case NoCache
  then show ?thesis using assms(2,3) by (auto simp: sp_get_def sp_insert_def split: option.splits if_splits)
next
  case CacheAll
  then show ?thesis using assms(2,3) by (auto simp: sp_get_def sp_insert_def update_conv split: option.splits)
next
  case (Lru n)
  let ?m = "sp_limit a n - 1"
  let ?X = "if map_of (items a) s = None then newest ?m (items a) else without s (items a)"
  have X: "map_of ?X t = Some y"
    using assms(2,3) Lru by (auto simp: sp_get_def sp_insert_def map_add_def split: option.splits if_splits)
  have "map_of (items a) t = Some y"
  proof (cases "map_of (items a) s = None")
    case True
    with X have "map_of (newest ?m (items a)) t = Some y" by simp
    then show ?thesis by (rule map_of_newest [OF assms(1)])
  next
    case False
    with X have "map_of (without s (items a)) t = Some y" by simp
    then show ?thesis using assms(3) by (simp add: map_of_without)
  qed
  then show ?thesis by (simp add: sp_get_def)
qed

lemma cache_abs_distinct: "cache_wf c \<Longrightarrow> distinct (map fst (items (cache_abs c)))"
proof -
  assume wf: "cache_wf c"
  have "mset (map fst (items (cache_abs c))) = mset (map fst (entries c))"
    by (auto simp: cache_abs_def strip_def comp_def split: cache_policy.split)
  then show ?thesis using wf mset_eq_imp_distinct_iff by (fastforce simp: cache_wf_def)
qed

lemma cache_get_insert_other:
  assumes "cache_wf c" and "cache_get (cache_insert s x c) t = Some y" and "t \<noteq> s"
  shows "cache_get c t = Some y"
proof -
  have ref: "cache_wf (cache_insert s x c)" "cache_abs (cache_insert s x c) = sp_insert s x (cache_abs c)"
    using cache_insert_refines [OF assms(1)] by blast+
  have "sp_get (sp_insert s x (cache_abs c)) t = Some y"
    using assms(2) cache_get_refines [OF ref(1)] ref(2) by simp
  then show ?thesis
    using sp_get_insert_other [OF cache_abs_distinct [OF assms(1)]] assms(3) cache_get_refines [OF assms(1)] by simp
qed

lemma cache_touch_facts:
  assumes "cache_wf c"
  shows "cache_wf (snd (touch_if_cached s c))"
    and "cache_get (snd (touch_if_cached s c)) = cache_get c"
    and "fst (touch_if_cached s c) \<longleftrightarrow> cache_get c s \<noteq> None"
proof -
  let ?c = "snd (touch_if_cached s c)"
  show wf: "cache_wf ?c" using cache_touch_refines [OF assms] by blast
  have abs: "(fst (touch_if_cached s c), cache_abs ?c) = sp_touch s (cache_abs c)"
    using cache_touch_refines [OF assms] by blast
  have dist: "distinct (map fst (items (cache_abs c)))" by (rule cache_abs_distinct [OF assms])
  have "sp_get (snd (sp_touch s a)) t = sp_get a t" for a t
    by (auto simp: sp_touch_def sp_get_def map_add_def map_of_without split: option.splits cache_policy.splits)
  then have "cache_get ?c t = cache_get c t" for t
    using abs cache_get_refines [OF wf] cache_get_refines [OF assms] by (metis snd_conv)
  then show "cache_get ?c = cache_get c" by (rule ext)
  have "fst (sp_touch s a) \<longleftrightarrow> sp_get a s \<noteq> None" for a
    by (auto simp: sp_touch_def sp_get_def split: option.splits)
  then show "fst (touch_if_cached s c) \<longleftrightarrow> cache_get c s \<noteq> None"
    using abs cache_get_refines [OF assms] by (metis fst_conv)
qed

lemma cache_get_cleared: "cache_get (cache_clear c) q = None" "cache_get (cache_set_policy p c) q = None"
  by (simp_all add: cache_get_def cache_clear_def cache_set_policy_def)

lemma cache_get_set_max:
  assumes "cache_wf c" and "cache_get (set_max_lru_states n c) q = Some x"
  shows "cache_get c q = Some x"
proof -
  note ref = cache_set_max_refines [OF assms(1), of n]
  have "sp_get (sp_set_max n (cache_abs c)) q = Some x"
    using assms(2) cache_get_refines [of "set_max_lru_states n c" q] ref by simp
  then have "sp_get (cache_abs c) q = Some x"
    using assms(1) map_of_newest [OF cache_abs_distinct [OF assms(1)]]
    by (auto simp: sp_get_def sp_set_max_def Let_def cache_wf_def cache_abs_def
        split: option.splits if_splits)
  then show ?thesis using cache_get_refines [OF assms(1)] by simp
qed

section \<open>The contract of a state source\<close>

text \<open>
  \<open>expand\<close> computes a state and may extend the source (it registers the nodes it discovers),
  \<open>valid\<close> says which identifiers name states, \<open>fw\<close> is the final weight without expansion. What
  the wrappers rely on: sources only grow, and a state that was expanded once expands to the
  same transitions ever after.
\<close>

locale lazy_source =
  fixes expand :: "'s \<Rightarrow> state_id \<Rightarrow> expansion \<times> 's"
    and valid :: "'s \<Rightarrow> state_id \<Rightarrow> bool"
    and fw :: "'s \<Rightarrow> state_id \<Rightarrow> weight option"
    and swf :: "'s \<Rightarrow> bool"
    and ext :: "'s \<Rightarrow> 's \<Rightarrow> bool"
  assumes ext_refl: "ext s s"
    and ext_trans: "ext s1 s2 \<Longrightarrow> ext s2 s3 \<Longrightarrow> ext s1 s3"
    and swf_expand: "swf s \<Longrightarrow> swf (snd (expand s q))"
    and ext_expand: "swf s \<Longrightarrow> ext s (snd (expand s q))"
    and valid_ext: "valid s q \<Longrightarrow> ext s s' \<Longrightarrow> valid s' q"
    and expand_stable: "swf s \<Longrightarrow> valid s q \<Longrightarrow> expand s q = (Expanded f w ts, s1) \<Longrightarrow>
          swf s2 \<Longrightarrow> ext s1 s2 \<Longrightarrow> expand s2 q = (Expanded f w ts, s2)"
    and expand_final: "swf s \<Longrightarrow> valid s q \<Longrightarrow> fst (expand s q) = Expanded f w ts \<Longrightarrow>
          f = (fw s q \<noteq> None) \<and> w = (case fw s q of Some w \<Rightarrow> w | None \<Rightarrow> tropical_zero)"
begin

text \<open>A cache is coherent with its source when it holds what the source computes.\<close>

definition coherent :: "cached_char_state lazy_cache \<times> 's \<Rightarrow> bool" where
  "coherent = (\<lambda>(c, s). cache_wf c \<and> swf s \<and>
     (\<forall>q x. cache_get c q = Some x \<longrightarrow> valid s q \<and>
        expand s q = (Expanded (cs_final x) (cs_weight x) (cs_transitions x), s)))"

lemma coherent_ext:
  assumes "coherent (c, s)" and "swf s'" and "ext s s'"
  shows "coherent (c, s')"
  using assms valid_ext expand_stable unfolding coherent_def by fast

lemma coherent_cacheD:
  assumes "coherent (c, s)" and "cache_get c q = Some x"
  shows "valid s q" and "expand s q = (Expanded (cs_final x) (cs_weight x) (cs_transitions x), s)"
  using assms by (simp_all add: coherent_def)

lemma coherent_new: "swf s \<Longrightarrow> coherent (cache_new n, s)"
  using cache_new_refines by (auto simp: coherent_def cache_get_def cache_new_def)

text \<open>
  One run through the cache: the status tells what the source computes, the answer is held
  afterwards, and every cached state stays right.
\<close>

lemma ensure_cached:
  assumes "coherent (c, s)" and "ensure_cached_char_state expand valid q (c, s) = (r, c', s')"
  shows "coherent (c', s') \<and> ext s s' \<and>
    (if \<not> valid s q then r = Inl (invalid_state_error q)
     else case fst (expand s q) of
            Expanded f w ts \<Rightarrow> r = Inr (if ts = [] then ExpandedEmpty else ExpandedNonempty) \<and>
              cache_get c' q = Some \<lparr>cs_final = f, cs_weight = w, cs_transitions = ts\<rparr> \<and>
              s' = snd (expand s q)
          | Failed failure \<Rightarrow> r = Inl (Failure failure)
          | Cancelled reason \<Rightarrow> r = Inl (CancelledError reason))"
proof -
  obtain hit c1 where t: "touch_if_cached q c = (hit, c1)" by force
  have wf: "cache_wf c" and swf: "swf s" using assms(1) by (simp_all add: coherent_def)
  have c1: "cache_wf c1" "cache_get c1 = cache_get c" "hit \<longleftrightarrow> cache_get c q \<noteq> None"
    using cache_touch_facts [OF wf, of q] t by simp_all
  have coh1: "coherent (c1, s)" using assms(1) c1 by (simp add: coherent_def)
  show ?thesis
  proof (cases "cache_get c q")
    case (Some x)
    then have "r = Inr (cached_status x)" "c' = c1" "s' = s"
      using assms(2) t c1 by (simp_all add: ensure_cached_char_state_def cached_char_state_status_def)
    then show ?thesis
      using coh1 coherent_cacheD [OF assms(1) Some] Some c1 ext_refl by (simp add: cached_status_def)
  next
    case None
    then have miss: "hit = False" using c1 by simp
    show ?thesis
    proof (cases "valid s q")
      case False
      then show ?thesis
        using assms(2) t miss coh1 ext_refl by (auto simp: ensure_cached_char_state_def)
    next
      case True
      obtain e s1 where e: "expand s q = (e, s1)" by force
      have s1: "swf s1" "ext s s1" using swf_expand [OF swf, of q] ext_expand [OF swf, of q] e by simp_all
      have res: "cache_char_state_expansion c1 q e = (r, c')" "s' = s1"
        using assms(2) t miss True e by (auto simp: ensure_cached_char_state_def split: prod.splits)
      show ?thesis
      proof (cases e)
        case (Expanded f w ts)
        let ?x = "\<lparr>cs_final = f, cs_weight = w, cs_transitions = ts\<rparr>"
        have c': "c' = cache_insert q ?x c1" "r = Inr (cached_status ?x)"
          using res Expanded by (simp_all add: cache_char_state_expansion_def from_state_expansion_def)
        have ins: "expand s1 q = (Expanded f w ts, s1)"
          using expand_stable [OF swf True] e Expanded s1 ext_refl by blast
        have coh2: "coherent (c1, s1)" by (rule coherent_ext [OF coh1 s1])
        have "coherent (c', s1)"
          unfolding coherent_def
        proof (clarify, intro conjI allI impI)
          show "cache_wf c'" using c'(1) cache_insert_refines [OF c1(1)] by blast
          show "swf s1" by (fact s1)
          fix q' x assume g: "cache_get c' q' = Some x"
          show "valid s1 q'"
            using g cache_get_insert_other [OF c1(1)] c' coherent_cacheD(1) [OF coh2] valid_ext [OF True s1(2)]
            by (cases "q' = q") blast+
          show "expand s1 q' = (Expanded (cs_final x) (cs_weight x) (cs_transitions x), s1)"
            using g cache_get_insert_other [OF c1(1)] cache_get_insert_same [OF c1(1), of q ?x] c' ins
              coherent_cacheD(2) [OF coh2]
            by (cases "q' = q") auto
        qed
        then show ?thesis
          using True e Expanded res s1 c' cache_get_insert_same [OF c1(1)] by (simp add: cached_status_def)
      next
        case (Failed failure)
        then show ?thesis
          using res True e s1 coherent_ext [OF coh1 s1]
          by (simp add: cache_char_state_expansion_def from_state_expansion_def)
      next
        case (Cancelled reason)
        then show ?thesis
          using res True e s1 coherent_ext [OF coh1 s1]
          by (simp add: cache_char_state_expansion_def from_state_expansion_def)
      qed
    qed
  qed
qed

text \<open>The transitions a wrapper shows are the source's, whatever was cached or evicted before.\<close>

lemma transitions_lazy:
  assumes "coherent (c, s)"
  shows "fst (wrapper_transitions_lazy expand valid q (c, s)) =
    (if valid s q then case fst (expand s q) of Expanded f w ts \<Rightarrow> ts | _ \<Rightarrow>
       wrapper_transitions (snd (ensure_cached_char_state expand valid q (c, s))) q else [])"
proof -
  obtain r c' s' where e: "ensure_cached_char_state expand valid q (c, s) = (r, c', s')"
    by (metis prod_cases3)
  note en = ensure_cached [OF assms e]
  have "cache_get c' q = None" if "\<not> valid s q"
  proof -
    have "cache_get c q = None" using coherent_cacheD(1) [OF assms] that by (cases "cache_get c q") auto
    then have "fst (touch_if_cached q c) = False" "cache_get (snd (touch_if_cached q c)) q = None"
      using cache_touch_facts [of c q] assms by (simp_all add: coherent_def)
    then show ?thesis
      using e that by (auto simp: ensure_cached_char_state_def split: prod.splits bool.splits)
  qed
  then show ?thesis
    using e en by (auto simp: wrapper_transitions_lazy_def wrapper_transitions_def split: expansion.splits)
qed

lemma wrapper_finality:
  assumes "coherent (c, s)"
  shows "wrapper_is_final fw (c, s) q = (fw s q \<noteq> None)"
    and "wrapper_final_weight fw (c, s) q = (case fw s q of Some w \<Rightarrow> w | None \<Rightarrow> tropical_zero)"
proof -
  have swf: "swf s" using assms by (simp add: coherent_def)
  show "wrapper_is_final fw (c, s) q = (fw s q \<noteq> None)"
    using coherent_cacheD [OF assms, of q] expand_final [OF swf, of q]
    by (auto simp: wrapper_is_final_def split: option.split)
  show "wrapper_final_weight fw (c, s) q = (case fw s q of Some w \<Rightarrow> w | None \<Rightarrow> tropical_zero)"
    using coherent_cacheD [OF assms, of q] expand_final [OF swf, of q]
    by (auto simp: wrapper_final_weight_def split: option.split)
qed

lemma coherent_step:
  assumes "coherent w"
  shows "coherent (wrapper_step expand valid x w)"
proof -
  obtain c s where w: "w = (c, s)" by force
  have wf: "cache_wf c" using assms by (simp add: w coherent_def)
  show ?thesis
  proof (cases x)
    case (Expand q)
    then show ?thesis
      using ensure_cached [of c s q] assms w by (metis prod_cases3 snd_conv wrapper_step.simps(1))
  next
    case (SetCachePolicy p)
    then show ?thesis
      using assms cache_set_policy_refines [OF wf] by (simp add: w coherent_def cache_get_cleared)
  next
    case (SetMaxCacheSize n)
    then show ?thesis
      using assms cache_set_max_refines [OF wf] cache_get_set_max [OF wf] by (simp add: w coherent_def)
  next
    case ClearCache
    then show ?thesis
      using assms cache_clear_refines [OF wf] by (simp add: w coherent_def cache_get_cleared)
  qed
qed

lemma coherent_run: "coherent w \<Longrightarrow> coherent (wrapper_run expand valid ops w)"
  unfolding wrapper_run_def by (induction ops arbitrary: w) (simp_all add: coherent_step)

end

end
