(* ===== verification/Lev_Codec.thy ===== *)
theory Lev_Codec
  imports State_Encoding Node_Registry
begin

text \<open>
  \<open>src/state_source_support.rs\<close>: the codec of the Levenshtein adapter, which packs the automaton
  states (a query position, an edit cost, and the second halves of a transposition, merge or
  split) into identifiers, and the small index helpers. The algorithm of \<open>liblevenshtein\<close> is
  represented by its two answers, \<open>supports_transposition\<close> and \<open>supports_merge_split\<close>.
\<close>

record lev_algorithm =
  supports_transposition :: bool
  supports_merge_split :: bool

datatype automaton_state =
    Normal u32 u32
  | TransposeSecond u32 u32
  | MergeSecond u32 u32
  | SplitSecond u32 u32

record lev_codec =
  query_len :: usize
  max_distance :: usize
  algorithm :: lev_algorithm
  normal_automaton_states :: u32
  max_automaton_states :: u32

definition continuation_state_kinds :: "lev_algorithm \<Rightarrow> u32" where
  "continuation_state_kinds a =
     (if supports_transposition a then 1 else 0) + (if supports_merge_split a then 2 else 0)"

definition transpose_second_slot :: "lev_algorithm \<Rightarrow> u32 option" where
  "transpose_second_slot a = (if supports_transposition a then Some 1 else None)"

definition merge_second_slot :: "lev_algorithm \<Rightarrow> u32 option" where
  "merge_second_slot a =
     (if supports_merge_split a then Some (1 + (if supports_transposition a then 1 else 0)) else None)"

definition split_second_slot :: "lev_algorithm \<Rightarrow> u32 option" where
  "split_second_slot a = map_option (\<lambda>slot. slot + 1) (merge_second_slot a)"

definition saturating_u32 :: "usize \<Rightarrow> u32" where
  "saturating_u32 value = (case u32_try_from value of Some v \<Rightarrow> v | None \<Rightarrow> u32_max)"

definition codec_new :: "usize \<Rightarrow> usize \<Rightarrow> lev_algorithm \<Rightarrow> lev_codec" where
  "codec_new qlen k a =
     (let normal = bounded_levenshtein_states qlen k
      in \<lparr>query_len = qlen, max_distance = k, algorithm = a, normal_automaton_states = normal,
          max_automaton_states = saturating_mul normal (1 + continuation_state_kinds a)\<rparr>)"

definition max_distance_u32 :: "lev_codec \<Rightarrow> u32" where
  "max_distance_u32 c = saturating_u32 (max_distance c)"

definition automaton_stride :: "lev_codec \<Rightarrow> u32" where
  "automaton_stride c = max (saturating_add (max_distance_u32 c) 1) 1"

definition decode_product_state :: "lev_codec \<Rightarrow> state_id \<Rightarrow> (u32 \<times> u32) option" where
  "decode_product_state c s = decode s (max_automaton_states c)"

definition encode_product_state :: "lev_codec \<Rightarrow> u32 \<Rightarrow> u32 \<Rightarrow> state_id option" where
  "encode_product_state c n a = try_encode n a (max_automaton_states c)"

definition encode_transition_target :: "lev_codec \<Rightarrow> u32 \<Rightarrow> u32 option \<Rightarrow> state_id option" where
  "encode_transition_target c n a = Option.bind a (encode_product_state c n)"

definition encode_automaton_state :: "lev_codec \<Rightarrow> u32 \<Rightarrow> u32 \<Rightarrow> u32 option" where
  "encode_automaton_state c p e =
     Option.bind (checked_mul p (automaton_stride c)) (\<lambda>base.
       Option.bind (checked_add base e) (\<lambda>state.
         if state < normal_automaton_states c then Some state else None))"

definition encode_transpose_second_state :: "lev_codec \<Rightarrow> u32 \<Rightarrow> u32 \<Rightarrow> u32 option" where
  "encode_transpose_second_state c p e =
     Option.bind (encode_automaton_state c p e) (\<lambda>a.
       Option.bind (checked_add (normal_automaton_states c) a) (\<lambda>state.
         if state < max_automaton_states c then Some state else None))"

definition continuation_state :: "lev_codec \<Rightarrow> u32 \<Rightarrow> u32 \<Rightarrow> u32 \<Rightarrow> u32 option" where
  "continuation_state c slot p e =
     Option.bind (checked_mul (normal_automaton_states c) slot) (\<lambda>base.
       Option.bind (encode_automaton_state c p e) (\<lambda>a.
         Option.bind (checked_add base a) (\<lambda>state.
           if state < max_automaton_states c then Some state else None)))"

definition encode_merge_second_state :: "lev_codec \<Rightarrow> u32 \<Rightarrow> u32 \<Rightarrow> u32 option" where
  "encode_merge_second_state c p e =
     Option.bind (merge_second_slot (algorithm c)) (\<lambda>slot. continuation_state c slot p e)"

definition encode_split_second_state :: "lev_codec \<Rightarrow> u32 \<Rightarrow> u32 \<Rightarrow> u32 option" where
  "encode_split_second_state c p e =
     Option.bind (split_second_slot (algorithm c)) (\<lambda>slot. continuation_state c slot p e)"

definition decode_automaton_state :: "lev_codec \<Rightarrow> u32 \<Rightarrow> automaton_state option" where
  "decode_automaton_state c a =
     (if a \<ge> max_automaton_states c then None
      else let normal = a mod normal_automaton_states c;
               stride = automaton_stride c;
               p = normal div stride;
               e = normal mod stride
           in if unat p > query_len c \<or> unat e > max_distance c then None
              else let slot = a div normal_automaton_states c
                   in if slot = 0 then Some (Normal p e)
                      else if transpose_second_slot (algorithm c) = Some slot then Some (TransposeSecond p e)
                      else if merge_second_slot (algorithm c) = Some slot then Some (MergeSecond p e)
                      else if split_second_slot (algorithm c) = Some slot then Some (SplitSecond p e)
                      else None)"

text \<open>The encoder of each kind of state, as the transition code selects it.\<close>

fun encode_state :: "lev_codec \<Rightarrow> automaton_state \<Rightarrow> u32 option" where
  "encode_state c (Normal p e) = encode_automaton_state c p e"
| "encode_state c (TransposeSecond p e) =
     (if supports_transposition (algorithm c) then encode_transpose_second_state c p e else None)"
| "encode_state c (MergeSecond p e) = encode_merge_second_state c p e"
| "encode_state c (SplitSecond p e) = encode_split_second_state c p e"

section \<open>Index helpers\<close>

definition next_index :: "usize \<Rightarrow> usize \<Rightarrow> usize option" where
  "next_index i len = Option.bind (usize_checked_add i 1) (\<lambda>n. if n < len then Some n else None)"

definition within_max_distance :: "u32 \<Rightarrow> usize \<Rightarrow> usize \<Rightarrow> bool" where
  "within_max_distance e remaining k =
     (case usize_checked_add (unat e) remaining of Some cost \<Rightarrow> cost \<le> k | None \<Rightarrow> False)"

definition remaining_query_chars :: "usize \<Rightarrow> u32 \<Rightarrow> usize option" where
  "remaining_query_chars len p = usize_checked_sub len (unat p)"

definition bounded_count_to_f64 :: "usize \<Rightarrow> f64 option" where
  "bounded_count_to_f64 v = exact_usize_to_f64 v"

definition node_has_any_edge :: "('n, 'u) dictionary \<Rightarrow> 'n \<Rightarrow> bool" where
  "node_has_any_edge D n =
     (case node_edge_count D n of None \<Rightarrow> node_edges D n \<noteq> [] | Some count \<Rightarrow> count > 0)"

definition node_has_char_edge :: "('n, 'u) dictionary \<Rightarrow> 'n \<Rightarrow> uchar \<Rightarrow> bool" where
  "node_has_char_edge D n label =
     (case char_unit D label of Some u \<Rightarrow> node_has_edge D n u | None \<Rightarrow> False)"

section \<open>The identifiers\<close>

text \<open>The codec that \<open>new\<close> builds, read as naturals.\<close>

definition codec_wf :: "lev_codec \<Rightarrow> bool" where
  "codec_wf c \<longleftrightarrow> c = codec_new (query_len c) (max_distance c) (algorithm c)"

definition normal_states :: "lev_codec \<Rightarrow> nat" where
  "normal_states c = unat (normal_automaton_states c)"

definition stride :: "lev_codec \<Rightarrow> nat" where
  "stride c = unat (automaton_stride c)"

lemma codec_wf_new [simp]: "codec_wf (codec_new q k a)"
  by (simp add: codec_wf_def codec_new_def Let_def)

lemma stride_eq: "stride c = min (max_distance c + 1) (2 ^ 32 - 1)"
  by (simp add: stride_def automaton_stride_def max_distance_u32_def saturating_u32_def
      u32_try_from_def unat_of_nat min_def max_def word_le_nat_alt width_simps)

lemma stride_pos: "0 < stride c"
  by (simp add: stride_eq)

lemma normal_states_new:
  "unat (bounded_levenshtein_states q k) \<le> (q + 1) * (k + 1)"
  "1 \<le> unat (bounded_levenshtein_states q k)"
  "unat (bounded_levenshtein_states q k) \<le> 2 ^ 32 - 1"
proof -
  have "usize_sat_mul (usize_sat_add q 1) (usize_sat_add k 1) \<le> (q + 1) * (k + 1)"
    unfolding usize_sat_mul_def usize_sat_add_def
    by (intro min.coboundedI1 mult_le_mono) simp_all
  moreover have "1 \<le> (q + 1) * (k + 1)" by simp
  ultimately show "unat (bounded_levenshtein_states q k) \<le> (q + 1) * (k + 1)"
    by (simp add: bounded_levenshtein_states_def unat_saturating_nonzero_u32 Let_def)
qed (simp_all add: bounded_levenshtein_states_def unat_saturating_nonzero_u32 Let_def)

lemma normal_states_bounds:
  assumes "codec_wf c"
  shows "1 \<le> normal_states c" "normal_states c \<le> 2 ^ 32 - 1"
    "normal_states c \<le> (query_len c + 1) * (max_distance c + 1)"
proof -
  have "normal_automaton_states c = bounded_levenshtein_states (query_len c) (max_distance c)"
    using assms by (metis codec_new_def codec_wf_def lev_codec.select_convs(4))
  then show "1 \<le> normal_states c" "normal_states c \<le> 2 ^ 32 - 1"
    "normal_states c \<le> (query_len c + 1) * (max_distance c + 1)"
    using normal_states_new by (simp_all add: normal_states_def)
qed

lemma max_automaton_states_eq:
  assumes "codec_wf c"
  shows "unat (max_automaton_states c) =
    min (normal_states c * (1 + unat (continuation_state_kinds (algorithm c)))) (2 ^ 32 - 1)"
proof -
  have "max_automaton_states c =
      saturating_mul (normal_automaton_states c) (1 + continuation_state_kinds (algorithm c))"
    using assms by (metis codec_new_def codec_wf_def lev_codec.select_convs(3,4,5))
  moreover have "unat (1 + continuation_state_kinds (algorithm c)) =
      1 + unat (continuation_state_kinds (algorithm c))"
    by (simp add: continuation_state_kinds_def)
  ultimately show ?thesis by (simp add: normal_states_def width_simps)
qed

lemma max_automaton_states_pos: "codec_wf c \<Longrightarrow> max_automaton_states c \<noteq> 0"
  using max_automaton_states_eq [of c] normal_states_bounds [of c] by (auto simp: unat_eq_0 [symmetric])

lemma encode_automaton_state_eq_Some [width_simps]:
  "encode_automaton_state c p e = Some a \<longleftrightarrow>
     unat a = unat p * stride c + unat e \<and> unat a < normal_states c"
proof
  assume "encode_automaton_state c p e = Some a"
  then show "unat a = unat p * stride c + unat e \<and> unat a < normal_states c"
    by (auto simp: encode_automaton_state_def bind_eq_Some_conv width_simps stride_def normal_states_def
        word_less_nat_alt split: if_splits)
next
  assume *: "unat a = unat p * stride c + unat e \<and> unat a < normal_states c"
  have "unat p * unat (automaton_stride c) < 2 ^ 32"
    using * unat_less_exp [of a] by (simp add: stride_def)
  then have "checked_mul p (automaton_stride c) = Some (p * automaton_stride c)"
    "unat (p * automaton_stride c) = unat p * stride c"
    by (simp_all add: checked_mul_def unat_word_ariths stride_def)
  moreover from this(2) have "checked_add (p * automaton_stride c) e = Some a"
    using * by (simp add: width_simps)
  ultimately show "encode_automaton_state c p e = Some a"
    using * by (simp add: encode_automaton_state_def word_less_nat_alt normal_states_def)
qed

lemma continuation_state_eq_Some [width_simps]:
  "continuation_state c slot p e = Some a \<longleftrightarrow>
     (\<exists>n. encode_automaton_state c p e = Some n \<and> unat a = normal_states c * unat slot + unat n \<and>
        unat a < unat (max_automaton_states c))"
proof
  assume "continuation_state c slot p e = Some a"
  then show "\<exists>n. encode_automaton_state c p e = Some n \<and> unat a = normal_states c * unat slot + unat n \<and>
        unat a < unat (max_automaton_states c)"
    by (auto simp: continuation_state_def bind_eq_Some_conv normal_states_def word_less_nat_alt
        checked_add_eq_Some checked_mul_eq_Some split: if_splits)
next
  assume "\<exists>n. encode_automaton_state c p e = Some n \<and> unat a = normal_states c * unat slot + unat n \<and>
        unat a < unat (max_automaton_states c)"
  then obtain n where n: "encode_automaton_state c p e = Some n"
    "unat a = normal_states c * unat slot + unat n" "unat a < unat (max_automaton_states c)" by blast
  have "normal_states c * unat slot < 2 ^ 32" using n(2) unat_less_exp [of a] by simp
  then have "checked_mul (normal_automaton_states c) slot = Some (normal_automaton_states c * slot)"
    "unat (normal_automaton_states c * slot) = normal_states c * unat slot"
    by (simp_all add: checked_mul_def unat_word_ariths normal_states_def)
  moreover from this(2) have "checked_add (normal_automaton_states c * slot) n = Some a"
    using n by (simp add: width_simps)
  ultimately show "continuation_state c slot p e = Some a"
    using n by (simp add: continuation_state_def word_less_nat_alt)
qed

lemma transpose_is_continuation:
  "encode_transpose_second_state c p e = continuation_state c 1 p e"
proof -
  have "encode_transpose_second_state c p e = Some a \<longleftrightarrow> continuation_state c 1 p e = Some a" for a
    by (auto simp: encode_transpose_second_state_def continuation_state_eq_Some bind_eq_Some_conv
        normal_states_def word_less_nat_alt checked_add_eq_Some split: if_splits)
  then show ?thesis by (metis option.exhaust)
qed

text \<open>The slot of a state, and its position and cost.\<close>

fun state_slot :: "lev_codec \<Rightarrow> automaton_state \<Rightarrow> u32 option" where
  "state_slot c (Normal p e) = Some 0"
| "state_slot c (TransposeSecond p e) = transpose_second_slot (algorithm c)"
| "state_slot c (MergeSecond p e) = merge_second_slot (algorithm c)"
| "state_slot c (SplitSecond p e) = split_second_slot (algorithm c)"

fun state_pos :: "automaton_state \<Rightarrow> u32" where
  "state_pos (Normal p e) = p" | "state_pos (TransposeSecond p e) = p"
| "state_pos (MergeSecond p e) = p" | "state_pos (SplitSecond p e) = p"

fun state_cost :: "automaton_state \<Rightarrow> u32" where
  "state_cost (Normal p e) = e" | "state_cost (TransposeSecond p e) = e"
| "state_cost (MergeSecond p e) = e" | "state_cost (SplitSecond p e) = e"

definition state_ok :: "lev_codec \<Rightarrow> automaton_state \<Rightarrow> bool" where
  "state_ok c st \<longleftrightarrow> unat (state_pos st) \<le> query_len c \<and> unat (state_cost st) \<le> max_distance c"

lemma encode_state_eq_Some:
  assumes "codec_wf c"
  shows "encode_state c st = Some a \<longleftrightarrow>
    (\<exists>slot n. state_slot c st = Some slot \<and> encode_automaton_state c (state_pos st) (state_cost st) = Some n \<and>
       unat a = normal_states c * unat slot + unat n \<and> unat a < unat (max_automaton_states c))"
proof -
  have "unat n < unat (max_automaton_states c)" if "unat n < normal_states c" for n :: u32
    using that max_automaton_states_eq [OF assms] normal_states_bounds [OF assms] by (auto simp: min_def)
  then have normal: "encode_automaton_state c p e = Some a \<longleftrightarrow>
      (\<exists>n. encode_automaton_state c p e = Some n \<and> unat a = unat n \<and> unat a < unat (max_automaton_states c))" for p e
    by (metis encode_automaton_state_eq_Some)
  show ?thesis
  proof (cases st)
    case (Normal p e)
    then show ?thesis using normal by simp
  next
    case (TransposeSecond p e)
    then show ?thesis
      by (simp add: transpose_is_continuation continuation_state_eq_Some transpose_second_slot_def)
  next
    case (MergeSecond p e)
    then show ?thesis
      by (auto simp: encode_merge_second_state_def continuation_state_eq_Some bind_eq_Some_conv)
  next
    case (SplitSecond p e)
    then show ?thesis
      by (auto simp: encode_split_second_state_def continuation_state_eq_Some bind_eq_Some_conv)
  qed
qed

lemma split_second_slot_eq:
  "split_second_slot a =
     (if supports_merge_split a then Some (if supports_transposition a then 3 else 2) else None)"
  by (simp add: split_second_slot_def merge_second_slot_def)

lemma slot_numbers:
  "transpose_second_slot a = Some s \<longleftrightarrow> supports_transposition a \<and> unat s = 1"
  "merge_second_slot a = Some s \<longleftrightarrow> supports_merge_split a \<and> unat s = (if supports_transposition a then 2 else 1)"
  "split_second_slot a = Some s \<longleftrightarrow> supports_merge_split a \<and> unat s = (if supports_transposition a then 3 else 2)"
  by (auto simp: transpose_second_slot_def merge_second_slot_def split_second_slot_eq word_unat_eq_iff)

lemma stride_fits:
  assumes "codec_wf c" and "encode_automaton_state c p e = Some n" and "unat e \<le> max_distance c"
  shows "unat e < stride c"
proof (cases "max_distance c + 1 \<le> 2 ^ 32 - 1")
  case True
  then show ?thesis using assms(3) by (simp add: stride_eq)
next
  case False
  then have "stride c = 2 ^ 32 - 1" by (simp add: stride_eq)
  moreover have "unat e \<le> unat n" and "unat n < normal_states c" using assms(2) by (simp_all add: width_simps)
  ultimately show ?thesis using normal_states_bounds(2) [OF assms(1)] by simp
qed

lemma decode_automaton_state_eq:
  assumes "a < max_automaton_states c"
  shows "decode_automaton_state c a = Some st \<longleftrightarrow>
    state_ok c st \<and> state_slot c st = Some (a div normal_automaton_states c) \<and>
    state_pos st = (a mod normal_automaton_states c) div automaton_stride c \<and>
    state_cost st = (a mod normal_automaton_states c) mod automaton_stride c"
proof -
  let ?slot = "a div normal_automaton_states c"
  let ?p = "(a mod normal_automaton_states c) div automaton_stride c"
  let ?e = "(a mod normal_automaton_states c) mod automaton_stride c"
  have decode: "decode_automaton_state c a =
      (if unat ?p > query_len c \<or> unat ?e > max_distance c then None
       else if ?slot = 0 then Some (Normal ?p ?e)
       else if transpose_second_slot (algorithm c) = Some ?slot then Some (TransposeSecond ?p ?e)
       else if merge_second_slot (algorithm c) = Some ?slot then Some (MergeSecond ?p ?e)
       else if split_second_slot (algorithm c) = Some ?slot then Some (SplitSecond ?p ?e)
       else None)"
    using assms [folded not_le] by (simp add: decode_automaton_state_def Let_def)
  have "?slot = 0 \<longleftrightarrow> unat ?slot = 0" by (simp add: unat_eq_0)
  then show ?thesis
    unfolding decode state_ok_def
    by (cases st) (auto simp: slot_numbers not_less split: if_splits)
qed

lemma codec_exact:
  fixes c :: lev_codec
  assumes "codec_wf c"
  shows "(encode_state c st = Some a \<and> state_ok c st) \<longleftrightarrow> decode_automaton_state c a = Some st"
proof -
  let ?N = "normal_automaton_states c"
  have N: "0 < normal_states c" "unat ?N = normal_states c"
    using normal_states_bounds(1) [OF assms] by (simp_all add: normal_states_def)
  have S: "0 < stride c" "unat (automaton_stride c) = stride c" using stride_pos by (simp_all add: stride_def)
  have pos: "state_pos st = (a mod ?N) div automaton_stride c \<longleftrightarrow> unat (state_pos st) = unat a mod normal_states c div stride c"
    and cost: "state_cost st = (a mod ?N) mod automaton_stride c \<longleftrightarrow> unat (state_cost st) = unat a mod normal_states c mod stride c"
    by (simp_all add: word_unat_eq_iff unat_div_distrib unat_mod_distrib N S)
  have slot: "state_slot c st = Some (a div ?N) \<longleftrightarrow> (\<exists>s. state_slot c st = Some s \<and> unat s = unat a div normal_states c)"
    by (auto simp: word_unat_eq_iff unat_div_distrib N)
  show ?thesis
  proof
    assume "encode_state c st = Some a \<and> state_ok c st"
    then obtain s n where s: "state_slot c st = Some s"
      "encode_automaton_state c (state_pos st) (state_cost st) = Some n"
      "unat a = normal_states c * unat s + unat n" "unat a < unat (max_automaton_states c)"
      and ok: "state_ok c st"
      using encode_state_eq_Some [OF assms] by blast
    have "unat (state_cost st) < stride c"
      using stride_fits [OF assms s(2)] ok by (simp add: state_ok_def)
    moreover have n: "unat n = unat (state_pos st) * stride c + unat (state_cost st)" "unat n < normal_states c"
      using s(2) by (simp_all add: width_simps)
    moreover have "unat a div normal_states c = unat s" "unat a mod normal_states c = unat n"
      using s(3) n(2) by simp_all
    ultimately show "decode_automaton_state c a = Some st"
      using decode_automaton_state_eq [of a c st] ok s pos cost slot by (simp add: word_less_nat_alt)
  next
    assume d: "decode_automaton_state c a = Some st"
    then have lt: "a < max_automaton_states c" by (auto simp: decode_automaton_state_def split: if_splits)
    have ok: "state_ok c st" and sl: "\<exists>s. state_slot c st = Some s \<and> unat s = unat a div normal_states c"
      and p: "unat (state_pos st) = unat a mod normal_states c div stride c"
      and e: "unat (state_cost st) = unat a mod normal_states c mod stride c"
      using decode_automaton_state_eq [OF lt, of st] d pos cost slot by blast+
    obtain s where s: "state_slot c st = Some s" "unat s = unat a div normal_states c" using sl by blast
    have "encode_automaton_state c (state_pos st) (state_cost st) = Some (a mod ?N)"
      using p e N by (simp add: width_simps unat_mod_distrib)
    moreover have "unat a = normal_states c * unat s + unat (a mod ?N)"
      using s(2) by (simp add: unat_mod_distrib N)
    ultimately show "encode_state c st = Some a \<and> state_ok c st"
      using encode_state_eq_Some [OF assms, of st a] s(1) lt ok by (auto simp: word_less_nat_alt)
  qed
qed

text \<open>
  C33: the codec of the Levenshtein adapter is exact in both directions, for every query length,
  bound and algorithm (saturated state counts included): an automaton state inside the query and
  the bound that gets an identifier is decoded from it, and an identifier that decodes to a state
  is the identifier that state gets.
\<close>

theorem automaton_state_codec_exact:
  "(encode_state (codec_new q k a) st = Some x \<and> state_ok (codec_new q k a) st) \<longleftrightarrow>
    decode_automaton_state (codec_new q k a) x = Some st"
  by (rule codec_exact [OF codec_wf_new])

text \<open>
  When all the states fit in 32 bits, every state the algorithm has inside the query and the
  bound has an identifier.
\<close>

definition codec_fits :: "lev_codec \<Rightarrow> bool" where
  "codec_fits c \<longleftrightarrow>
     (query_len c + 1) * (max_distance c + 1) * (1 + unat (continuation_state_kinds (algorithm c))) < 2 ^ 32"

lemma normal_states_fit:
  assumes "codec_wf c" and "codec_fits c"
  shows "normal_states c = (query_len c + 1) * (max_distance c + 1)" and "stride c = max_distance c + 1"
    and "unat (max_automaton_states c) =
      normal_states c * (1 + unat (continuation_state_kinds (algorithm c)))"
proof -
  let ?n = "(query_len c + 1) * (max_distance c + 1)" and ?k = "1 + unat (continuation_state_kinds (algorithm c))"
  have lt: "?n * ?k < 2 ^ 32" using assms(2) by (simp add: codec_fits_def)
  have "?n * 1 \<le> ?n * ?k" by (intro mult_le_mono) simp_all
  then have n: "?n < 2 ^ 32" using lt by simp
  have "query_len c + 1 \<le> ?n" "max_distance c + 1 \<le> ?n" by simp_all
  then have q: "query_len c < usize_max" "max_distance c < usize_max" and k: "max_distance c + 1 \<le> 2 ^ 32 - 1"
    using n by (simp_all add: usize_max_def)
  have "normal_automaton_states c = bounded_levenshtein_states (query_len c) (max_distance c)"
    using assms(1) by (metis codec_new_def codec_wf_def lev_codec.select_convs(4))
  then show ns: "normal_states c = ?n"
    using unat_bounded_levenshtein_states [OF q] n by (simp add: normal_states_def)
  show "stride c = max_distance c + 1" using k by (simp add: stride_eq)
  show "unat (max_automaton_states c) = normal_states c * ?k"
    using max_automaton_states_eq [OF assms(1)] ns lt by simp
qed

lemma encode_state_fits:
  assumes "codec_wf c" and "codec_fits c" and "state_ok c st" and "state_slot c st = Some s"
  shows "\<exists>a. encode_state c st = Some a"
proof -
  note fit = normal_states_fit [OF assms(1,2)]
  let ?p = "unat (state_pos st)" and ?e = "unat (state_cost st)" and ?K = "unat (continuation_state_kinds (algorithm c))"
  have ok: "?p \<le> query_len c" "?e \<le> max_distance c" using assms(3) by (simp_all add: state_ok_def)
  have "?p * stride c + ?e < (query_len c + 1) * (max_distance c + 1)"
  proof -
    have "?p * stride c \<le> query_len c * (max_distance c + 1)" unfolding fit(2) using ok(1) by (rule mult_le_mono1)
    then show ?thesis using ok(2) by simp
  qed
  then have inner: "?p * stride c + ?e < normal_states c" using fit(1) by simp
  have slot: "unat s \<le> ?K"
    using assms(4) by (cases st) (auto simp: slot_numbers continuation_state_kinds_def split: if_splits)
  let ?a = "normal_states c * unat s + (?p * stride c + ?e)"
  have "?a < normal_states c * (1 + unat s)" using inner by simp
  also have "\<dots> \<le> normal_states c * (1 + ?K)" using slot by simp
  finally have a: "?a < unat (max_automaton_states c)" using fit(3) by simp
  then have "?a < 2 ^ 32" using unat_less_exp [of "max_automaton_states c"] by simp
  then have ua: "unat (of_nat ?a :: u32) = ?a" by (rule unat_of_nat_u32)
  have "?p * stride c + ?e < 2 ^ 32" using inner normal_states_bounds(2) [OF assms(1)] by simp
  then have "unat (of_nat (?p * stride c + ?e) :: u32) = ?p * stride c + ?e" by (rule unat_of_nat_u32)
  then have "encode_automaton_state c (state_pos st) (state_cost st) = Some (of_nat (?p * stride c + ?e))"
    using inner by (simp add: width_simps)
  then show ?thesis
    using encode_state_eq_Some [OF assms(1), of st "of_nat ?a"] assms(4) ua a
      \<open>unat (of_nat (?p * stride c + ?e) :: u32) = ?p * stride c + ?e\<close> by auto
qed

end
