(* ===== verification/Lev_Source.thy ===== *)
theory Lev_Source
  imports Lev_Codec Lazy_Wrapper
begin

text \<open>
  \<open>src/state_source.rs\<close>: \<open>LevenshteinStateSource\<close>, the lazily computed product of a dictionary and
  a Levenshtein automaton over a query. A state identifier packs a registered dictionary node
  and an automaton state; expanding it walks the node's edges, registers the children some
  transition reaches and emits the transitions whose targets have an identifier.
\<close>

record ('n, 'u) lev_source =
  ls_dictionary :: "('n, 'u) dictionary"
  ls_query :: "uchar list"
  ls_codec :: lev_codec
  ls_registry :: "'n node_registry"

definition lev_with_algorithm ::
    "('n, 'u) dictionary \<Rightarrow> uchar list \<Rightarrow> usize \<Rightarrow> lev_algorithm \<Rightarrow> ('n, 'u) lev_source" where
  "lev_with_algorithm D query k a =
     \<lparr>ls_dictionary = D, ls_query = query, ls_codec = codec_new (length query) k a,
      ls_registry = reg_new (dict_root D)\<rparr>"

definition standard :: lev_algorithm where
  "standard = \<lparr>supports_transposition = False, supports_merge_split = False\<rparr>"

definition lev_new :: "('n, 'u) dictionary \<Rightarrow> uchar list \<Rightarrow> usize \<Rightarrow> ('n, 'u) lev_source" where
  "lev_new D query k = lev_with_algorithm D query k standard"

definition lev_start :: "('n, 'u) lev_source \<Rightarrow> state_id" where
  "lev_start s = 0"

definition is_valid_product_state :: "('n, 'u) lev_source \<Rightarrow> state_id \<Rightarrow> bool" where
  "is_valid_product_state s state =
     (case decode_product_state (ls_codec s) state of
        None \<Rightarrow> False
      | Some (n, a) \<Rightarrow>
          decode_automaton_state (ls_codec s) a \<noteq> None \<and> reg_get_node (ls_registry s) n \<noteq> None)"

definition normal_final_weight :: "('n, 'u) lev_source \<Rightarrow> 'n \<Rightarrow> u32 \<Rightarrow> u32 \<Rightarrow> weight option" where
  "normal_final_weight s node p e =
     (if \<not> node_is_final (ls_dictionary s) node then None
      else case remaining_query_chars (length (ls_query s)) p of
             None \<Rightarrow> None
           | Some remaining \<Rightarrow>
               if within_max_distance e remaining (max_distance (ls_codec s))
               then bounded_count_to_f64 remaining else None)"

definition final_weight_for_state :: "('n, 'u) lev_source \<Rightarrow> state_id \<Rightarrow> weight option" where
  "final_weight_for_state s state =
     (case decode_product_state (ls_codec s) state of
        None \<Rightarrow> None
      | Some (n, a) \<Rightarrow>
          (case decode_automaton_state (ls_codec s) a of
             Some (Normal p e) \<Rightarrow>
               (case reg_get_node (ls_registry s) n of
                  None \<Rightarrow> None
                | Some node \<Rightarrow> normal_final_weight s node p e)
           | _ \<Rightarrow> None))"

definition registered_state_id_span :: "('n, 'u) lev_source \<Rightarrow> usize" where
  "registered_state_id_span s =
     (let automaton_states = unat (max_automaton_states (ls_codec s))
      in registered_product_state_id_span (reg_len (ls_registry s)) automaton_states automaton_states)"

definition lev_num_states_hint :: "('n, 'u) lev_source \<Rightarrow> usize option" where
  "lev_num_states_hint s =
     registered_dictionary_product_states_hint (dict_len (ls_dictionary s)) (reg_len (ls_registry s))
       (unat (max_automaton_states (ls_codec s)))"

section \<open>Registering and emitting\<close>

text \<open>A child is registered only if some target state of it fits in the identifier space.\<close>

definition register_for_targets ::
    "lev_codec \<Rightarrow> 'n node_registry \<Rightarrow> u32 \<Rightarrow> uchar \<Rightarrow> 'n \<Rightarrow> u32 list \<Rightarrow> u32 option \<times> 'n node_registry" where
  "register_for_targets c reg parent_id edge_label node targets =
     (let key = node_key_child parent_id edge_label
      in case reg_candidate_id reg key of
           None \<Rightarrow> (None, reg)
         | Some candidate \<Rightarrow>
             if \<exists>a \<in> set targets. encode_product_state c candidate a \<noteq> None
             then reg_register_node node key reg
             else (None, reg))"

text \<open>
  What an edge (or the current node) can do: an input label, an output label, the target
  automaton state and the cost of the step.
\<close>

type_synonym arc = "uchar option \<times> uchar option \<times> u32 \<times> nat"

definition emit_arc :: "lev_codec \<Rightarrow> state_id \<Rightarrow> u32 \<Rightarrow> arc \<Rightarrow> transition option" where
  "emit_arc c from_state node_id = (\<lambda>(i, o', a, w).
     map_option (\<lambda>target. mk_transition from_state i o' target (f64_of_nat w))
       (encode_transition_target c node_id (Some a)))"

fun expand_edges ::
    "lev_codec \<Rightarrow> state_id \<Rightarrow> u32 \<Rightarrow> ('u \<Rightarrow> uchar) \<Rightarrow> ('u \<times> 'n \<Rightarrow> arc list) \<Rightarrow> ('u \<times> 'n) list
     \<Rightarrow> 'n node_registry \<Rightarrow> transition list \<times> 'n node_registry" where
  "expand_edges c from_state node_id to_char arcs [] reg = ([], reg)"
| "expand_edges c from_state node_id to_char arcs ((u, child) # edges) reg =
     (if arcs (u, child) = [] then expand_edges c from_state node_id to_char arcs edges reg
      else (case register_for_targets c reg node_id (to_char u) child (map (\<lambda>(i, o', a, w). a) (arcs (u, child))) of
              (None, reg') \<Rightarrow> expand_edges c from_state node_id to_char arcs edges reg'
            | (Some child_id, reg') \<Rightarrow>
                (case expand_edges c from_state node_id to_char arcs edges reg' of
                   (ts, reg'') \<Rightarrow> (List.map_filter (emit_arc c from_state child_id) (arcs (u, child)) @ ts, reg''))))"

section \<open>Normal states\<close>

definition can_edit :: "lev_codec \<Rightarrow> u32 \<Rightarrow> bool" where
  "can_edit c e \<longleftrightarrow> e < max_distance_u32 c"

definition read_char :: "uchar list \<Rightarrow> u32 \<Rightarrow> uchar option" where
  "read_char q p = (if unat p < length q then Some (q ! unat p) else None)"

definition insert_context :: "lev_codec \<Rightarrow> u32 \<Rightarrow> u32 \<Rightarrow> u32 option" where
  "insert_context c p e = (if can_edit c e then encode_automaton_state c p (saturating_add e 1) else None)"

definition transpose_context :: "lev_codec \<Rightarrow> uchar list \<Rightarrow> u32 \<Rightarrow> u32 \<Rightarrow> (uchar \<times> uchar \<times> u32) option" where
  "transpose_context c q p e =
     (if supports_transposition (algorithm c) \<and> can_edit c e then
        (case next_index (unat p) (length q) of
           None \<Rightarrow> None
         | Some next_pos \<Rightarrow>
             map_option (\<lambda>state. (q ! unat p, q ! next_pos, state))
               (encode_transpose_second_state c p (saturating_add e 1)))
      else None)"

definition merge_context :: "lev_codec \<Rightarrow> uchar list \<Rightarrow> u32 \<Rightarrow> u32 \<Rightarrow> (uchar \<times> u32) option" where
  "merge_context c q p e =
     (if supports_merge_split (algorithm c) \<and> can_edit c e then
        (case next_index (unat p) (length q) of
           None \<Rightarrow> None
         | Some _ \<Rightarrow>
             (case (read_char q p, encode_merge_second_state c p (saturating_add e 1)) of
                (Some ch, Some state) \<Rightarrow> Some (ch, state) | _ \<Rightarrow> None))
      else None)"

definition split_context :: "lev_codec \<Rightarrow> uchar list \<Rightarrow> u32 \<Rightarrow> u32 \<Rightarrow> (uchar \<times> u32) option" where
  "split_context c q p e =
     (if supports_merge_split (algorithm c) \<and> can_edit c e then
        (case (read_char q p, encode_split_second_state c p (saturating_add e 1)) of
           (Some ch, Some state) \<Rightarrow> Some (ch, state) | _ \<Rightarrow> None)
      else None)"

definition match_or_substitute ::
    "lev_codec \<Rightarrow> uchar list \<Rightarrow> u32 \<Rightarrow> u32 \<Rightarrow> uchar \<Rightarrow> (uchar \<times> u32 \<times> u32) option" where
  "match_or_substitute c q p e dict_char =
     (case read_char q p of
        None \<Rightarrow> None
      | Some query_char \<Rightarrow>
          (let operation_cost = (if query_char = dict_char then 0 else 1);
               next_cost = saturating_add e operation_cost
           in if next_cost \<le> max_distance_u32 c
              then Option.bind (checked_add p 1) (\<lambda>next_query_pos.
                     map_option (\<lambda>target. (query_char, operation_cost, target))
                       (encode_automaton_state c next_query_pos next_cost))
              else None))"

definition normal_arcs ::
    "('n, 'u) dictionary \<Rightarrow> lev_codec \<Rightarrow> uchar list \<Rightarrow> u32 \<Rightarrow> u32 \<Rightarrow> 'u \<times> 'n \<Rightarrow> arc list" where
  "normal_arcs D c q p e = (\<lambda>(u, child).
     (let dict_char = unit_char D u;
          ms = match_or_substitute c q p e dict_char;
          ins = insert_context c p e;
          tr = (case transpose_context c q p e of
                  Some (first, second, state) \<Rightarrow>
                    if dict_char = second \<and> first \<noteq> second \<and> node_has_char_edge D child first
                    then Some (first, state) else None
                | None \<Rightarrow> None);
          mg = merge_context c q p e;
          sp = (if split_context c q p e \<noteq> None \<and> node_has_any_edge D child
                then split_context c q p e else None)
      in (case ms of Some (ch, cost, a) \<Rightarrow> [(Some ch, Some dict_char, a, unat cost)] | None \<Rightarrow> []) @
         (case ins of Some a \<Rightarrow> [(None, Some dict_char, a, 1)] | None \<Rightarrow> []) @
         (case tr of Some (ch, a) \<Rightarrow> [(Some ch, Some dict_char, a, 1)] | None \<Rightarrow> []) @
         (case mg of Some (ch, a) \<Rightarrow> [(Some ch, Some dict_char, a, 1)] | None \<Rightarrow> []) @
         (case sp of Some (ch, a) \<Rightarrow> [(Some ch, Some dict_char, a, 1)] | None \<Rightarrow> [])))"

definition transitions_per_edge :: "lev_codec \<Rightarrow> uchar list \<Rightarrow> u32 \<Rightarrow> u32 \<Rightarrow> usize" where
  "transitions_per_edge c q p e =
     (let can_read = of_bool (unat p < length q);
          has_next = of_bool (next_index (unat p) (length q) \<noteq> None)
      in if can_edit c e then
           can_read + 1
           + (if supports_transposition (algorithm c) then has_next else 0)
           + (if supports_merge_split (algorithm c) then has_next + can_read else 0)
         else can_read)"

definition delete_transitions :: "lev_codec \<Rightarrow> uchar list \<Rightarrow> state_id \<Rightarrow> u32 \<Rightarrow> u32 \<Rightarrow> u32 \<Rightarrow> transition list" where
  "delete_transitions c q from_state node_id p e =
     (if unat p < length q \<and> can_edit c e then
        (case encode_transition_target c node_id
                (Option.bind (checked_add p 1) (\<lambda>np. encode_automaton_state c np (saturating_add e 1))) of
           Some target \<Rightarrow> [mk_transition from_state (Some (q ! unat p)) None target (F64 1)]
         | None \<Rightarrow> [])
      else [])"

definition compute_normal_transitions ::
    "('n, 'u) lev_source \<Rightarrow> u32 \<Rightarrow> state_id \<Rightarrow> u32 \<Rightarrow> u32 \<Rightarrow> 'n
     \<Rightarrow> (bool \<times> weight \<times> transition list) \<times> 'n node_registry" where
  "compute_normal_transitions s node_id from_state p e node =
     (let c = ls_codec s; q = ls_query s; D = ls_dictionary s;
          (ts, reg) =
            (if transitions_per_edge c q p e > 0
             then expand_edges c from_state node_id (unit_char D) (normal_arcs D c q p e)
                    (node_edges D node) (ls_registry s)
             else ([], ls_registry s));
          accepted = normal_final_weight s node p e
      in ((accepted \<noteq> None, case accepted of Some w \<Rightarrow> w | None \<Rightarrow> tropical_zero,
           ts @ delete_transitions c q from_state node_id p e), reg))"

section \<open>Continuation states\<close>

definition transpose_second_arcs ::
    "('n, 'u) dictionary \<Rightarrow> uchar \<Rightarrow> uchar \<Rightarrow> u32 \<Rightarrow> 'u \<times> 'n \<Rightarrow> arc list" where
  "transpose_second_arcs D second_input required_output target = (\<lambda>(u, child).
     (if unit_char D u \<noteq> required_output then []
      else [(Some second_input, Some (unit_char D u), target, 0)]))"

definition compute_transpose_second_transitions ::
    "('n, 'u) lev_source \<Rightarrow> u32 \<Rightarrow> state_id \<Rightarrow> u32 \<Rightarrow> u32 \<Rightarrow> 'n
     \<Rightarrow> (bool \<times> weight \<times> transition list) \<times> 'n node_registry" where
  "compute_transpose_second_transitions s node_id from_state p e node =
     (let c = ls_codec s; q = ls_query s; D = ls_dictionary s
      in case next_index (unat p) (length q) of
           None \<Rightarrow> ((False, tropical_zero, []), ls_registry s)
         | Some next_pos \<Rightarrow>
             (case Option.bind (checked_add p 2) (\<lambda>np. encode_automaton_state c np e) of
                None \<Rightarrow> ((False, tropical_zero, []), ls_registry s)
              | Some target \<Rightarrow>
                  (case expand_edges c from_state node_id (unit_char D)
                          (transpose_second_arcs D (q ! next_pos) (q ! unat p) target)
                          (node_edges D node) (ls_registry s) of
                     (ts, reg) \<Rightarrow> ((False, tropical_zero, ts), reg))))"

definition compute_merge_second_transitions ::
    "('n, 'u) lev_source \<Rightarrow> u32 \<Rightarrow> state_id \<Rightarrow> u32 \<Rightarrow> u32 \<Rightarrow> bool \<times> weight \<times> transition list" where
  "compute_merge_second_transitions s node_id from_state p e =
     (let c = ls_codec s; q = ls_query s
      in case next_index (unat p) (length q) of
           None \<Rightarrow> (False, tropical_zero, [])
         | Some next_pos \<Rightarrow>
             (case encode_transition_target c node_id
                     (Option.bind (checked_add p 2) (\<lambda>np. encode_automaton_state c np e)) of
                None \<Rightarrow> (False, tropical_zero, [])
              | Some target \<Rightarrow>
                  (False, tropical_zero, [mk_transition from_state (Some (q ! next_pos)) None target (F64 0)])))"

definition split_second_arcs :: "('n, 'u) dictionary \<Rightarrow> u32 \<Rightarrow> 'u \<times> 'n \<Rightarrow> arc list" where
  "split_second_arcs D target = (\<lambda>(u, child). [(None, Some (unit_char D u), target, 0)])"

definition compute_split_second_transitions ::
    "('n, 'u) lev_source \<Rightarrow> u32 \<Rightarrow> state_id \<Rightarrow> u32 \<Rightarrow> u32 \<Rightarrow> 'n
     \<Rightarrow> (bool \<times> weight \<times> transition list) \<times> 'n node_registry" where
  "compute_split_second_transitions s node_id from_state p e node =
     (let c = ls_codec s; D = ls_dictionary s
      in if unat p \<ge> length (ls_query s) then ((False, tropical_zero, []), ls_registry s)
         else (case Option.bind (checked_add p 1) (\<lambda>np. encode_automaton_state c np e) of
                 None \<Rightarrow> ((False, tropical_zero, []), ls_registry s)
               | Some target \<Rightarrow>
                   (case expand_edges c from_state node_id (unit_char D) (split_second_arcs D target)
                           (node_edges D node) (ls_registry s) of
                      (ts, reg) \<Rightarrow> ((False, tropical_zero, ts), reg))))"

section \<open>Expansion\<close>

definition compute_transitions ::
    "('n, 'u) lev_source \<Rightarrow> u32 \<Rightarrow> u32 \<Rightarrow> (bool \<times> weight \<times> transition list) \<times> 'n node_registry" where
  "compute_transitions s node_id a =
     (case decode_automaton_state (ls_codec s) a of
        None \<Rightarrow> ((False, tropical_zero, []), ls_registry s)
      | Some st \<Rightarrow>
          (case reg_get_node (ls_registry s) node_id of
             None \<Rightarrow> ((False, tropical_zero, []), ls_registry s)
           | Some node \<Rightarrow>
               (case encode_product_state (ls_codec s) node_id a of
                  None \<Rightarrow> ((False, tropical_zero, []), ls_registry s)
                | Some from_state \<Rightarrow>
                    (case st of
                       Normal p e \<Rightarrow> compute_normal_transitions s node_id from_state p e node
                     | TransposeSecond p e \<Rightarrow> compute_transpose_second_transitions s node_id from_state p e node
                     | MergeSecond p e \<Rightarrow>
                         (compute_merge_second_transitions s node_id from_state p e, ls_registry s)
                     | SplitSecond p e \<Rightarrow> compute_split_second_transitions s node_id from_state p e node))))"

definition lev_expand_state :: "('n, 'u) lev_source \<Rightarrow> state_id \<Rightarrow> expansion \<times> ('n, 'u) lev_source" where
  "lev_expand_state s state =
     (case decode_product_state (ls_codec s) state of
        None \<Rightarrow> (Failed (InvalidState state), s)
      | Some (node_id, a) \<Rightarrow>
          (case compute_transitions s node_id a of
             ((is_final, w, ts), reg) \<Rightarrow>
               (if is_final then final_state w ts else non_final ts, s\<lparr>ls_registry := reg\<rparr>)))"

definition lev_compute_state ::
    "('n, 'u) lev_source \<Rightarrow> cancellation_reason option \<Rightarrow> state_id \<Rightarrow> expansion \<times> ('n, 'u) lev_source" where
  "lev_compute_state s cancellation state = fulfill_expansion_request lev_expand_state s cancellation state"

section \<open>Sources only grow, and expansions are stable\<close>

definition lev_ext :: "('n, 'u) lev_source \<Rightarrow> ('n, 'u) lev_source \<Rightarrow> bool" where
  "lev_ext s s' \<longleftrightarrow> ls_dictionary s' = ls_dictionary s \<and> ls_query s' = ls_query s \<and>
     ls_codec s' = ls_codec s \<and> reg_ext (ls_registry s) (ls_registry s')"

definition lev_wf :: "('n, 'u) lev_source \<Rightarrow> bool" where
  "lev_wf s \<longleftrightarrow> dictionary_ok (ls_dictionary s) \<and> codec_wf (ls_codec s) \<and>
     query_len (ls_codec s) = length (ls_query s) \<and> reg_wf (ls_registry s) \<and>
     reg_tracks (ls_dictionary s) (ls_registry s)"

lemma try_encode_mono:
  "try_encode d a m = None \<Longrightarrow> unat d \<le> unat d' \<Longrightarrow> try_encode d' a m = None"
  by (auto simp: try_encode_eq_None) (meson add_le_mono1 dual_order.trans mult_le_mono1)

lemma register_for_targets_wf:
  assumes "reg_wf r"
  shows "reg_wf (snd (register_for_targets c r p ch n as))" "reg_ext r (snd (register_for_targets c r p ch n as))"
  using assms node_reg.wf_intern [OF assms] reg_ext_register [OF assms] reg_ext_refl
  by (auto simp: register_for_targets_def Let_def split: option.split)

lemma register_for_targets_stable:
  assumes "reg_wf r" and "register_for_targets c r p ch n as = (res, r1)" and "reg_wf r2" and "reg_ext r1 r2"
  shows "register_for_targets c r2 p ch n as = (res, r2)"
proof -
  let ?k = "node_key_child p ch"
  have ext: "reg_ext r r2"
    using register_for_targets_wf(2) [OF assms(1), of c p ch n as] assms(2,4) reg_ext_trans by simp blast
  have late: "reg_len r \<le> unat j" if "reg_get_id r ?k = None" "reg_get_id r2 ?k = Some j" for j
    using node_reg.unseen_later [OF assms(1,3) _ that] ext by (simp add: reg_ext_def)
  show ?thesis
  proof (cases "reg_get_id r ?k")
    case (Some i)
    then have "reg_candidate_id r ?k = Some i" "reg_candidate_id r2 ?k = Some i"
      using ext by (simp_all add: reg_candidate_id_def reg_ext_def)
    moreover have "reg_register_node n ?k r = (Some i, r)" "reg_register_node n ?k r2 = (Some i, r2)"
      using Some ext by (simp_all add: reg_register_node_def reg_ext_def)
    ultimately show ?thesis using assms(2) by (auto simp: register_for_targets_def Let_def split: if_splits)
  next
    case None
    show ?thesis
    proof (cases "\<exists>j. reg_candidate_id r ?k = Some j \<and> (\<exists>a \<in> set as. encode_product_state c j a \<noteq> None)")
      case True
      then obtain j where j: "reg_candidate_id r ?k = Some j" "\<exists>a \<in> set as. encode_product_state c j a \<noteq> None"
        by blast
      then have reg: "reg_register_node n ?k r = (res, r1)"
        using assms(2) by (simp add: register_for_targets_def)
      have "res = Some j" using reg_candidate_register [OF assms(1), of ?k n] reg j by simp
      then have "reg_get_id r1 ?k = Some j" using node_reg.intern_result [OF assms(1), of n ?k] reg by simp
      then have "reg_get_id r2 ?k = Some j" using assms(4) by (simp add: reg_ext_def)
      then show ?thesis
        using j(2) \<open>res = Some j\<close> by (simp add: register_for_targets_def reg_candidate_id_def reg_register_node_def)
    next
      case False
      then have res: "res = None" "r1 = r"
        using assms(2) by (auto simp: register_for_targets_def Let_def split: option.splits if_splits)
      have "encode_product_state c j a = None" if j: "reg_candidate_id r2 ?k = Some j" and a: "a \<in> set as" for j a
      proof -
        have ge: "reg_len r \<le> unat j"
        proof (cases "reg_get_id r2 ?k")
          case (Some i)
          then show ?thesis using late [OF None] j by (simp add: reg_candidate_id_def)
        next
          case None
          then show ?thesis using j ext
            by (simp add: reg_candidate_id_def next_registry_id_def u32_try_from_eq_Some reg_ext_def reg_len_def)
        qed
        then have lt: "reg_len r < 2 ^ 32" using unat_less_exp [of j] by simp
        then have "reg_candidate_id r ?k = Some (of_nat (reg_len r))"
          using None by (simp add: reg_candidate_id_def next_registry_id_def u32_try_from_def reg_len_def)
        then have "encode_product_state c (of_nat (reg_len r)) a = None" using False a by blast
        then show ?thesis
          using ge unat_of_nat_u32 [OF lt] try_encode_mono by (simp add: encode_product_state_def)
      qed
      then show ?thesis using res by (auto simp: register_for_targets_def Let_def split: option.split)
    qed
  qed
qed

lemma expand_edges_wf:
  assumes "reg_wf r"
  shows "reg_wf (snd (expand_edges c from_state i tc arcs es r)) \<and> reg_ext r (snd (expand_edges c from_state i tc arcs es r))"
  using assms
proof (induction c from_state i tc arcs es r rule: expand_edges.induct)
  case (2 c from_state i tc arcs u child edges reg)
  note w = register_for_targets_wf [OF "2.prems", of c i "tc u" child "map (\<lambda>(i, o', a, w). a) (arcs (u, child))"]
  show ?case
    using "2.IH" "2.prems" w reg_ext_trans [OF w(2)] by (auto split: option.split prod.split)
qed (simp add: reg_ext_refl)

lemma expand_edges_stable:
  assumes "reg_wf r" and "expand_edges c from_state i tc arcs es r = (ts, r1)" and "reg_wf r2" and "reg_ext r1 r2"
  shows "expand_edges c from_state i tc arcs es r2 = (ts, r2)"
  using assms(1,2)
proof (induction c from_state i tc arcs es r arbitrary: ts rule: expand_edges.induct)
  case (2 c from_state i tc arcs u child edges reg)
  show ?case
  proof (cases "arcs (u, child) = []")
    case True
    then show ?thesis using "2.IH"(1) "2.prems" by simp
  next
    case False
    let ?as = "map (\<lambda>(i, o', a, w). a) (arcs (u, child))"
    obtain res reg' where r: "register_for_targets c reg i (tc u) child ?as = (res, reg')" by force
    have wf': "reg_wf reg'" using register_for_targets_wf(1) [OF "2.prems"(1)] r by (metis snd_conv)
    obtain ts' where rest: "expand_edges c from_state i tc arcs edges reg' = (ts', r1)"
      using "2.prems"(2) False r by (auto split: option.splits prod.splits)
    have "reg_ext reg' r2"
      using expand_edges_wf [OF wf', of c from_state i tc arcs edges] rest assms(4) reg_ext_trans by fastforce
    then have r2: "register_for_targets c r2 i (tc u) child ?as = (res, r2)"
      by (rule register_for_targets_stable [OF "2.prems"(1) r assms(3)])
    have "expand_edges c from_state i tc arcs edges r2 = (ts', r2)"
      using "2.IH"(2,3) [OF False r [symmetric]] wf' rest by (cases res) auto
    then show ?thesis using "2.prems"(2) False r r2 rest by (auto split: option.splits)
  qed
qed simp

section \<open>What an expansion registers and emits\<close>

lemma register_for_targets_tracks:
  assumes "dictionary_ok D" and "reg_wf r" and "reg_tracks D r" and "reg_get_node r i = Some n"
    and "child_by D n ch = Some m" and "register_for_targets c r i ch m as = (res, r')"
  shows "reg_tracks D r' \<and> (\<forall>j. res = Some j \<longrightarrow> reg_get_node r' j = Some m)"
  using assms reg_tracks_register [OF assms(1-5)]
  by (auto simp: register_for_targets_def Let_def split: option.splits if_splits)

lemma expand_edges_sound:
  assumes "dictionary_ok D" and "reg_wf r" and "reg_tracks D r" and "reg_get_node r i = Some n"
    and "set es \<subseteq> set (node_edges D n)"
    and "expand_edges c from_state i (unit_char D) arcs es r = (ts, r')"
  shows "reg_tracks D r' \<and>
    (\<forall>t \<in> set ts. \<exists>u m j inp out a w. (u, m) \<in> set es \<and> (inp, out, a, w) \<in> set (arcs (u, m)) \<and>
       reg_get_node r' j = Some m \<and> encode_product_state c j a = Some (t_to t) \<and>
       t = mk_transition from_state inp out (t_to t) (f64_of_nat w))"
  using assms(2-)
proof (induction es arbitrary: r ts)
  case (Cons e es)
  obtain u m where e: "e = (u, m)" by force
  show ?case
  proof (cases "arcs (u, m) = []")
    case True
    then show ?thesis using Cons.IH [OF Cons.prems(1-3)] Cons.prems(4,5) by (fastforce simp: e)
  next
    case False
    let ?as = "map (\<lambda>(i, o', a, w). a) (arcs (u, m))"
    obtain res r1 where reg: "register_for_targets c r i (unit_char D u) m ?as = (res, r1)" by force
    have child: "child_by D n (unit_char D u) = Some m"
      using child_by_edge [OF assms(1)] Cons.prems(4) by (simp add: e)
    note tr = register_for_targets_tracks [OF assms(1) Cons.prems(1-3) child reg]
    have w1: "reg_wf r1" "reg_ext r r1"
      using register_for_targets_wf [OF Cons.prems(1), of c i "unit_char D u" m ?as] reg by simp_all
    have n1: "reg_get_node r1 i = Some n" using w1(2) Cons.prems(3) by (simp add: reg_ext_def)
    obtain ts1 where rest: "expand_edges c from_state i (unit_char D) arcs es r1 = (ts1, r')"
      and ts: "ts = (case res of None \<Rightarrow> ts1 | Some j \<Rightarrow> List.map_filter (emit_arc c from_state j) (arcs (u, m)) @ ts1)"
      using Cons.prems(5) False reg by (auto simp: e split: option.splits prod.splits)
    have IH: "reg_tracks D r' \<and>
      (\<forall>t \<in> set ts1. \<exists>u m j inp out a w. (u, m) \<in> set es \<and> (inp, out, a, w) \<in> set (arcs (u, m)) \<and>
         reg_get_node r' j = Some m \<and> encode_product_state c j a = Some (t_to t) \<and>
         t = mk_transition from_state inp out (t_to t) (f64_of_nat w))"
      using Cons.IH [OF w1(1) _ n1 _ rest] tr Cons.prems(4) by simp
    have ext: "reg_ext r1 r'" using expand_edges_wf [OF w1(1)] rest by (metis snd_conv)
    have new: "\<exists>inp out a w. (inp, out, a, w) \<in> set (arcs (u, m)) \<and>
         reg_get_node r' j = Some m \<and> encode_product_state c j a = Some (t_to t) \<and>
         t = mk_transition from_state inp out (t_to t) (f64_of_nat w)"
      if "res = Some j" "t \<in> set (List.map_filter (emit_arc c from_state j) (arcs (u, m)))" for j t
      using that tr ext
      by (force simp: List.map_filter_def emit_arc_def encode_transition_target_def reg_ext_def)
    show ?thesis using IH new ts by (cases res) (fastforce simp: e)+
  qed
qed simp

text \<open>With room for the node's children nothing is dropped.\<close>

lemma register_for_targets_room:
  assumes "reg_wf r" and "reg_len r * unat (max_automaton_states c) + unat (max_automaton_states c) \<le> 2 ^ 32"
    and "as \<noteq> []" and "\<forall>a \<in> set as. a < max_automaton_states c"
    and "register_for_targets c r p ch n as = (res, r')"
  shows "\<exists>j. res = Some j \<and> unat j \<le> reg_len r \<and> reg_len r' \<le> Suc (reg_len r)"
proof -
  let ?k = "node_key_child p ch" let ?M = "unat (max_automaton_states c)"
  obtain a where a: "a \<in> set as" "a < max_automaton_states c" using assms(3,4) by (cases as) auto
  then have "1 \<le> ?M" by (auto simp: word_less_nat_alt)
  then have "reg_len r * 1 \<le> reg_len r * ?M" by (intro mult_le_mono) simp_all
  then have "reg_len r + 1 \<le> 2 ^ 32" using assms(2) \<open>1 \<le> ?M\<close> by linarith
  then have lt: "reg_len r < 2 ^ 32" by simp
  have cand: "\<exists>j. reg_candidate_id r ?k = Some j \<and> unat j \<le> reg_len r"
  proof (cases "reg_get_id r ?k")
    case None
    then show ?thesis
      using lt unat_of_nat_u32 [OF lt] by (simp add: reg_candidate_id_def next_registry_id_def u32_try_from_def reg_len_def)
  next
    case (Some j)
    then show ?thesis using node_reg.find_less [OF assms(1) Some] by (simp add: reg_candidate_id_def)
  qed
  then obtain j where j: "reg_candidate_id r ?k = Some j" "unat j \<le> reg_len r" by blast
  have "unat j * ?M + unat a < 2 ^ 32"
  proof -
    have "unat j * ?M \<le> reg_len r * ?M" using j(2) by (rule mult_le_mono1)
    then show ?thesis using assms(2) a(2) [unfolded word_less_nat_alt] by linarith
  qed
  then have "encode_product_state c j a \<noteq> None"
    using a(2) by (simp add: encode_product_state_def try_encode_eq_None word_less_nat_alt)
  then have reg: "reg_register_node n ?k r = (res, r')"
    using assms(5) j(1) a(1) by (auto simp: register_for_targets_def Let_def split: if_splits)
  then have "res = Some j" using reg_candidate_register [OF assms(1), of ?k n] j by simp
  moreover have "reg_len r' \<le> Suc (reg_len r)"
    using reg by (auto simp: reg_defs split: option.splits)
  ultimately show ?thesis using j by blast
qed

lemma encode_product_room:
  assumes "unat j < N" and "N * unat (max_automaton_states c) \<le> 2 ^ 32" and "a < max_automaton_states c"
  shows "\<exists>s. encode_product_state c j a = Some s"
proof -
  have "(unat j + 1) * unat (max_automaton_states c) \<le> N * unat (max_automaton_states c)"
    using assms(1) by (intro mult_le_mono1) simp
  then have "unat j * unat (max_automaton_states c) + unat a < 2 ^ 32"
    using assms(2,3) by (simp add: word_less_nat_alt)
  then have "encode_product_state c j a \<noteq> None"
    using assms(3) by (simp add: encode_product_state_def try_encode_eq_None word_less_nat_alt)
  then show ?thesis by auto
qed

lemma expand_edges_complete:
  assumes "reg_wf r" and "(reg_len r + length es) * unat (max_automaton_states c) \<le> 2 ^ 32"
    and "\<forall>x \<in> set es. \<forall>(inp, out, a, w) \<in> set (arcs x). a < max_automaton_states c"
    and "expand_edges c from_state i tc arcs es r = (ts, r')"
  shows "reg_len r' \<le> reg_len r + length es \<and>
    (\<forall>(u, m) \<in> set es. \<forall>(inp, out, a, w) \<in> set (arcs (u, m)). \<exists>j target.
       reg_get_id r' (node_key_child i (tc u)) = Some j \<and> encode_product_state c j a = Some target \<and>
       mk_transition from_state inp out target (f64_of_nat w) \<in> set ts)"
  using assms
proof (induction es arbitrary: r ts)
  case (Cons e es)
  obtain u m where e: "e = (u, m)" by force
  let ?M = "unat (max_automaton_states c)"
  show ?case
  proof (cases "arcs (u, m) = []")
    case True
    have "(reg_len r + length es) * ?M \<le> (reg_len r + length (e # es)) * ?M" by simp
    then have "(reg_len r + length es) * ?M \<le> 2 ^ 32" using Cons.prems(2) by linarith
    then show ?thesis using Cons.IH [OF Cons.prems(1)] Cons.prems(3,4) True by (auto simp: e)
  next
    case False
    let ?as = "map (\<lambda>(i, o', a, w). a) (arcs (u, m))"
    obtain res r1 where reg: "register_for_targets c r i (tc u) m ?as = (res, r1)" by force
    have small: "\<forall>a \<in> set ?as. a < max_automaton_states c" using Cons.prems(3) by (auto simp: e)
    have "reg_len r * ?M + ?M \<le> (reg_len r + length (e # es)) * ?M" by simp
    then have room: "reg_len r * ?M + ?M \<le> 2 ^ 32" using Cons.prems(2) by linarith
    obtain j where j: "res = Some j" "unat j \<le> reg_len r" "reg_len r1 \<le> Suc (reg_len r)"
      using register_for_targets_room [OF Cons.prems(1) room _ small reg] False by auto
    have w1: "reg_wf r1"
      using register_for_targets_wf(1) [OF Cons.prems(1), of c i "tc u" m ?as] reg by simp
    have id1: "reg_get_id r1 (node_key_child i (tc u)) = Some j"
      using reg j(1) node_reg.intern_result [OF Cons.prems(1), of m "node_key_child i (tc u)"]
      by (auto simp: register_for_targets_def Let_def split: option.splits if_splits)
    obtain ts1 where rest: "expand_edges c from_state i tc arcs es r1 = (ts1, r')"
      and ts: "ts = List.map_filter (emit_arc c from_state j) (arcs (u, m)) @ ts1"
      using Cons.prems(4) False reg j(1) by (auto simp: e split: prod.splits)
    have "(reg_len r1 + length es) * ?M \<le> (reg_len r + length (e # es)) * ?M"
      using j(3) by (intro mult_le_mono1) simp
    then have room1: "(reg_len r1 + length es) * ?M \<le> 2 ^ 32" using Cons.prems(2) by linarith
    have IH: "reg_len r' \<le> reg_len r1 + length es \<and>
      (\<forall>(u, m) \<in> set es. \<forall>(inp, out, a, w) \<in> set (arcs (u, m)). \<exists>j target.
         reg_get_id r' (node_key_child i (tc u)) = Some j \<and> encode_product_state c j a = Some target \<and>
         mk_transition from_state inp out target (f64_of_nat w) \<in> set ts1)"
      using Cons.prems(3) by (intro Cons.IH [OF w1 room1 _ rest]) simp
    have "reg_ext r1 r'" using expand_edges_wf [OF w1] rest by (metis snd_conv)
    then have id': "reg_get_id r' (node_key_child i (tc u)) = Some j" using id1 by (simp add: reg_ext_def)
    have here: "\<exists>target. encode_product_state c j a = Some target \<and>
        mk_transition from_state inp out target (f64_of_nat w) \<in> set ts"
      if arc: "(inp, out, a, w) \<in> set (arcs (u, m))" for inp out a w
    proof -
      have "unat j < reg_len r + 1" using j(2) by simp
      moreover have "(reg_len r + 1) * ?M \<le> 2 ^ 32" using room by simp
      moreover have "a < max_automaton_states c" using arc Cons.prems(3) by (auto simp: e)
      ultimately obtain target where "encode_product_state c j a = Some target"
        using encode_product_room by blast
      then show ?thesis
        using arc ts by (force simp: List.map_filter_def emit_arc_def encode_transition_target_def)
    qed
    show ?thesis using IH here id' j(3) ts by (fastforce simp: e)
  qed
qed simp

section \<open>The source keeps its contract\<close>

lemma dictionary_node_char_edge:
  assumes "dictionary_ok D"
  shows "node_has_char_edge D n ch \<longleftrightarrow> child_by D n ch \<noteq> None"
proof
  assume "node_has_char_edge D n ch"
  then obtain u where u: "char_unit D ch = Some u" "node_has_edge D n u"
    by (auto simp: node_has_char_edge_def split: option.splits)
  then obtain m where "(u, m) \<in> set (node_edges D n)" using dictionary_okD(3) [OF assms] by blast
  moreover have "unit_char D u = ch" using dictionary_okD(4) [OF assms] u(1) by blast
  ultimately show "child_by D n ch \<noteq> None" using child_by_edge [OF assms] by fastforce
next
  assume "child_by D n ch \<noteq> None"
  then obtain m where "child_by D n ch = Some m" by auto
  then obtain u where u: "(u, m) \<in> set (node_edges D n)" "unit_char D u = ch" by (rule child_by_SomeD)
  then have "char_unit D ch = Some u" using dictionary_okD(5) [OF assms] by blast
  moreover have "node_has_edge D n u" using u(1) dictionary_okD(3) [OF assms] by blast
  ultimately show "node_has_char_edge D n ch" by (simp add: node_has_char_edge_def)
qed

lemma dictionary_node_any_edge:
  assumes "dictionary_ok D"
  shows "node_has_any_edge D n \<longleftrightarrow> node_edges D n \<noteq> []"
  using dictionary_okD(2) [OF assms, of n] by (auto simp: node_has_any_edge_def split: option.split)

lemma expand_edges_no_arcs:
  "(\<And>x. arcs x = []) \<Longrightarrow> expand_edges c from_state i tc arcs es r = ([], r)"
  by (induction c from_state i tc arcs es r rule: expand_edges.induct) simp_all

lemma next_index_eq_Some: "next_index i n = Some j \<longleftrightarrow> j = i + 1 \<and> i + 1 < n \<and> i + 1 \<le> usize_max"
  by (auto simp: next_index_def usize_checked_add_def)

lemma no_transitions_per_edge:
  assumes "transitions_per_edge c q p e = 0"
  shows "normal_arcs D c q p e x = []"
proof -
  have "\<not> unat p < length q" and "\<not> can_edit c e"
    using assms by (auto simp: transitions_per_edge_def Let_def split: if_splits)
  then show ?thesis
    by (cases x) (simp add: normal_arcs_def match_or_substitute_def read_char_def insert_context_def
        transpose_context_def merge_context_def split_context_def Let_def)
qed

lemma compute_normal_eq:
  "compute_normal_transitions s i from_state p e node =
    (case expand_edges (ls_codec s) from_state i (unit_char (ls_dictionary s))
            (normal_arcs (ls_dictionary s) (ls_codec s) (ls_query s) p e)
            (node_edges (ls_dictionary s) node) (ls_registry s) of
       (ts, reg) \<Rightarrow> ((normal_final_weight s node p e \<noteq> None,
          case normal_final_weight s node p e of Some w \<Rightarrow> w | None \<Rightarrow> tropical_zero,
          ts @ delete_transitions (ls_codec s) (ls_query s) from_state i p e), reg))"
proof (cases "transitions_per_edge (ls_codec s) (ls_query s) p e = 0")
  case True
  have "expand_edges (ls_codec s) from_state i (unit_char (ls_dictionary s))
      (normal_arcs (ls_dictionary s) (ls_codec s) (ls_query s) p e)
      (node_edges (ls_dictionary s) node) (ls_registry s) = ([], ls_registry s)"
    by (rule expand_edges_no_arcs [OF no_transitions_per_edge [OF True]])
  then show ?thesis using True by (simp add: compute_normal_transitions_def Let_def)
qed (simp add: compute_normal_transitions_def Let_def split: prod.split)

text \<open>Every expansion of a valid state is a run over the edges of its node.\<close>

definition state_arcs ::
    "('n, 'u) dictionary \<Rightarrow> lev_codec \<Rightarrow> uchar list \<Rightarrow> automaton_state \<Rightarrow> 'u \<times> 'n \<Rightarrow> arc list" where
  "state_arcs D c q st = (case st of
     Normal p e \<Rightarrow> normal_arcs D c q p e
   | TransposeSecond p e \<Rightarrow>
       (case (next_index (unat p) (length q), Option.bind (checked_add p 2) (\<lambda>np. encode_automaton_state c np e)) of
          (Some next_pos, Some target) \<Rightarrow> transpose_second_arcs D (q ! next_pos) (q ! unat p) target
        | _ \<Rightarrow> (\<lambda>_. []))
   | MergeSecond p e \<Rightarrow> (\<lambda>_. [])
   | SplitSecond p e \<Rightarrow>
       (if length q \<le> unat p then (\<lambda>_. [])
        else case Option.bind (checked_add p 1) (\<lambda>np. encode_automaton_state c np e) of
               Some target \<Rightarrow> split_second_arcs D target
             | None \<Rightarrow> (\<lambda>_. [])))"

definition state_own ::
    "lev_codec \<Rightarrow> uchar list \<Rightarrow> state_id \<Rightarrow> u32 \<Rightarrow> automaton_state \<Rightarrow> transition list" where
  "state_own c q from_state i st = (case st of
     Normal p e \<Rightarrow> delete_transitions c q from_state i p e
   | MergeSecond p e \<Rightarrow>
       (case next_index (unat p) (length q) of
          None \<Rightarrow> []
        | Some next_pos \<Rightarrow>
            (case encode_transition_target c i (Option.bind (checked_add p 2) (\<lambda>np. encode_automaton_state c np e)) of
               None \<Rightarrow> []
             | Some target \<Rightarrow> [mk_transition from_state (Some (q ! next_pos)) None target (F64 0)]))
   | _ \<Rightarrow> [])"

definition state_final :: "('n, 'u) lev_source \<Rightarrow> 'n \<Rightarrow> automaton_state \<Rightarrow> weight option" where
  "state_final s node st = (case st of Normal p e \<Rightarrow> normal_final_weight s node p e | _ \<Rightarrow> None)"

lemma lev_expand_valid:
  assumes "lev_wf s" and "decode_product_state (ls_codec s) state = Some (i, a)"
    and "decode_automaton_state (ls_codec s) a = Some st" and "reg_get_node (ls_registry s) i = Some node"
  shows "lev_expand_state s state =
    (case expand_edges (ls_codec s) state i (unit_char (ls_dictionary s))
            (state_arcs (ls_dictionary s) (ls_codec s) (ls_query s) st)
            (node_edges (ls_dictionary s) node) (ls_registry s) of
       (ts, reg) \<Rightarrow>
         (Expanded (state_final s node st \<noteq> None)
            (case state_final s node st of Some w \<Rightarrow> w | None \<Rightarrow> tropical_zero)
            (ts @ state_own (ls_codec s) (ls_query s) state i st),
          s\<lparr>ls_registry := reg\<rparr>))"
proof -
  have "max_automaton_states (ls_codec s) \<noteq> 0"
    using assms(1) by (simp add: lev_wf_def max_automaton_states_pos)
  then have enc: "encode_product_state (ls_codec s) i a = Some state"
    using decode_encode [of "max_automaton_states (ls_codec s)" state i a] assms(2)
    by (auto simp: decode_product_state_def encode_product_state_def)
  have na: "expand_edges c f j tc (\<lambda>_. []) es r = ([], r)" for c f j tc r and es :: "('b \<times> 'a) list"
    by (rule expand_edges_no_arcs) simp
  show ?thesis
  proof (cases st)
    case (Normal p e)
    then show ?thesis
      by (simp add: lev_expand_state_def assms(2-4) compute_transitions_def enc compute_normal_eq state_arcs_def
          state_own_def state_final_def final_state_def non_final_def split: prod.split option.split)
  next
    case (TransposeSecond p e)
    then show ?thesis
      by (simp add: lev_expand_state_def assms(2-4) compute_transitions_def enc state_arcs_def
          compute_transpose_second_transitions_def state_own_def state_final_def non_final_def na Let_def
          split: prod.split option.split)
  next
    case (MergeSecond p e)
    then show ?thesis
      by (simp add: lev_expand_state_def assms(2-4) compute_transitions_def enc state_arcs_def
          compute_merge_second_transitions_def state_own_def state_final_def non_final_def na Let_def
          split: prod.split option.split)
  next
    case (SplitSecond p e)
    then show ?thesis
      by (simp add: lev_expand_state_def assms(2-4) compute_transitions_def enc state_arcs_def
          compute_split_second_transitions_def state_own_def state_final_def non_final_def na Let_def
          split: prod.split option.split)
  qed
qed

lemma valid_product_state_iff:
  "is_valid_product_state s state \<longleftrightarrow>
     (\<exists>i a st node. decode_product_state (ls_codec s) state = Some (i, a) \<and>
        decode_automaton_state (ls_codec s) a = Some st \<and> reg_get_node (ls_registry s) i = Some node)"
  by (auto simp: is_valid_product_state_def split: option.split)

lemma lev_wf_new:
  assumes "dictionary_ok D"
  shows "lev_wf (lev_with_algorithm D q k a)"
proof -
  have "reg_tracks D (reg_new (dict_root D))" by (rule reg_tracks_new)
  moreover have "query_len (codec_new (length q) k a) = length q" by (simp add: codec_new_def Let_def)
  ultimately show ?thesis using assms by (simp add: lev_wf_def lev_with_algorithm_def reg_wf_new)
qed

text \<open>An expansion either is a run over the edges of a node or leaves the source alone.\<close>

lemma lev_expand_cases:
  assumes "lev_wf s"
  obtains (valid) i a st node where "decode_product_state (ls_codec s) state = Some (i, a)"
      and "decode_automaton_state (ls_codec s) a = Some st" and "reg_get_node (ls_registry s) i = Some node"
    | (invalid) "\<not> is_valid_product_state s state" and "snd (lev_expand_state s state) = s"
proof (cases "is_valid_product_state s state")
  case True
  then show ?thesis using valid unfolding valid_product_state_iff by blast
next
  case False
  have "snd (lev_expand_state s state) = s"
    using False by (auto simp: is_valid_product_state_def lev_expand_state_def compute_transitions_def
        split: option.splits)
  then show ?thesis using invalid False by blast
qed

lemma lev_expand_keeps:
  assumes "lev_wf s"
  shows "lev_wf (snd (lev_expand_state s state)) \<and> lev_ext s (snd (lev_expand_state s state))"
proof (rule lev_expand_cases [OF assms, of state])
  fix i a st node
  assume v: "decode_product_state (ls_codec s) state = Some (i, a)"
    "decode_automaton_state (ls_codec s) a = Some st" "reg_get_node (ls_registry s) i = Some node"
  let ?D = "ls_dictionary s"
  obtain ts reg where e: "expand_edges (ls_codec s) state i (unit_char ?D)
      (state_arcs ?D (ls_codec s) (ls_query s) st) (node_edges ?D node) (ls_registry s) = (ts, reg)" by force
  have wf: "dictionary_ok ?D" "reg_wf (ls_registry s)" "reg_tracks ?D (ls_registry s)"
    using assms by (simp_all add: lev_wf_def)
  have "reg_tracks ?D reg" using expand_edges_sound [OF wf v(3) subset_refl e] by blast
  moreover have "reg_wf reg" "reg_ext (ls_registry s) reg" using expand_edges_wf [OF wf(2)] e by (metis snd_conv)+
  ultimately show ?thesis
    using assms e lev_expand_valid [OF assms v] by (simp add: lev_wf_def lev_ext_def)
qed (use assms reg_ext_refl in \<open>simp add: lev_ext_def\<close>)

interpretation lev: lazy_source lev_expand_state is_valid_product_state final_weight_for_state lev_wf lev_ext
proof unfold_locales
  fix s s1 s2 s3 s' :: "('n, 'u) lev_source" and q :: state_id and f w ts
  show "lev_ext s s" by (simp add: lev_ext_def reg_ext_refl)
  show "lev_ext s1 s2 \<Longrightarrow> lev_ext s2 s3 \<Longrightarrow> lev_ext s1 s3"
    by (auto simp: lev_ext_def intro: reg_ext_trans)
  show "lev_wf s \<Longrightarrow> lev_wf (snd (lev_expand_state s q))" using lev_expand_keeps by blast
  show "lev_wf s \<Longrightarrow> lev_ext s (snd (lev_expand_state s q))" using lev_expand_keeps by blast
  show "is_valid_product_state s q \<Longrightarrow> lev_ext s s' \<Longrightarrow> is_valid_product_state s' q"
    by (fastforce simp: valid_product_state_iff lev_ext_def reg_ext_def)
  assume wf: "lev_wf s" and val: "is_valid_product_state s q"
  obtain i a st node where v: "decode_product_state (ls_codec s) q = Some (i, a)"
    "decode_automaton_state (ls_codec s) a = Some st" "reg_get_node (ls_registry s) i = Some node"
    using val unfolding valid_product_state_iff by blast
  note ex = lev_expand_valid [OF wf v]
  show "f = (final_weight_for_state s q \<noteq> None) \<and>
      w = (case final_weight_for_state s q of Some w \<Rightarrow> w | None \<Rightarrow> tropical_zero)"
    if "fst (lev_expand_state s q) = Expanded f w ts"
    using that v by (auto simp: ex final_weight_for_state_def state_final_def split: prod.splits automaton_state.splits)
  assume e: "lev_expand_state s q = (Expanded f w ts, s1)" and wf2: "lev_wf s2" and ext: "lev_ext s1 s2"
  obtain ts0 reg where run: "expand_edges (ls_codec s) q i (unit_char (ls_dictionary s))
      (state_arcs (ls_dictionary s) (ls_codec s) (ls_query s) st)
      (node_edges (ls_dictionary s) node) (ls_registry s) = (ts0, reg)" by force
  have s1: "s1 = s\<lparr>ls_registry := reg\<rparr>" using e run by (simp add: ex)
  have same: "ls_dictionary s2 = ls_dictionary s" "ls_codec s2 = ls_codec s" "ls_query s2 = ls_query s"
    and reg2: "reg_ext reg (ls_registry s2)"
    using ext s1 by (simp_all add: lev_ext_def)
  have regs: "reg_wf (ls_registry s)" "reg_wf (ls_registry s2)" using wf wf2 by (simp_all add: lev_wf_def)
  have "reg_ext (ls_registry s) reg" using expand_edges_wf [OF regs(1)] run by (metis snd_conv)
  then have node2: "reg_get_node (ls_registry s2) i = Some node" using v(3) reg2 by (simp add: reg_ext_def)
  have "expand_edges (ls_codec s) q i (unit_char (ls_dictionary s))
      (state_arcs (ls_dictionary s) (ls_codec s) (ls_query s) st)
      (node_edges (ls_dictionary s) node) (ls_registry s2) = (ts0, ls_registry s2)"
    by (rule expand_edges_stable [OF regs(1) run regs(2) reg2])
  moreover have "state_final s2 node st = state_final s node st"
    by (simp only: state_final_def normal_final_weight_def same)
  ultimately show "lev_expand_state s2 q = (Expanded f w ts, s2)"
    using lev_expand_valid [OF wf2, of q i a st node] v(1,2) node2 same e run by (simp add: ex)
qed

text \<open>
  C32: caching never changes what a \<open>LevenshteinWfst\<close> answers. After any sequence of expansions,
  policy changes, limit changes and clears on a fresh wrapper, the transitions it shows for a
  state are those the source computes (none for an invalid state), and finality and final
  weight are those of the source, cached or not.
\<close>

theorem lev_wrapper_answers:
  assumes "dictionary_ok D"
  shows "let (c, s) = wrapper_run lev_expand_state is_valid_product_state ops
               (cache_new 100000, lev_with_algorithm D q k a)
         in fst (wrapper_transitions_lazy lev_expand_state is_valid_product_state x (c, s)) =
              (if is_valid_product_state s x
               then case fst (lev_expand_state s x) of Expanded f w ts \<Rightarrow> ts | _ \<Rightarrow> []
               else []) \<and>
            wrapper_is_final final_weight_for_state (c, s) x = (final_weight_for_state s x \<noteq> None) \<and>
            wrapper_final_weight final_weight_for_state (c, s) x =
              (case final_weight_for_state s x of Some w \<Rightarrow> w | None \<Rightarrow> tropical_zero)"
proof -
  obtain c s where r: "wrapper_run lev_expand_state is_valid_product_state ops
      (cache_new 100000, lev_with_algorithm D q k a) = (c, s)" by force
  have coh: "lev.coherent (c, s)"
    using lev.coherent_run [OF lev.coherent_new [OF lev_wf_new [OF assms]], of ops 100000 q k a] r by simp
  then have wf: "lev_wf s" by (simp add: lev.coherent_def)
  have "\<exists>f w ts. fst (lev_expand_state s x) = Expanded f w ts" if val: "is_valid_product_state s x"
  proof -
    obtain i a st node where v: "decode_product_state (ls_codec s) x = Some (i, a)"
      "decode_automaton_state (ls_codec s) a = Some st" "reg_get_node (ls_registry s) i = Some node"
      using val unfolding valid_product_state_iff by blast
    show ?thesis unfolding lev_expand_valid [OF wf v] by (simp split: prod.split)
  qed
  then have "(case fst (lev_expand_state s x) of Expanded f w ts \<Rightarrow> ts | _ \<Rightarrow>
        wrapper_transitions (snd (ensure_cached_char_state lev_expand_state is_valid_product_state x (c, s))) x) =
      (case fst (lev_expand_state s x) of Expanded f w ts \<Rightarrow> ts | _ \<Rightarrow> [])" if "is_valid_product_state s x"
    using that by fastforce
  then show ?thesis
    using lev.transitions_lazy [OF coh, of x] lev.wrapper_finality [OF coh, of x] r by simp
qed

theorem lev_wrapper_answers_witness:
  "let (c, s) = wrapper_run lev_expand_state is_valid_product_state [Expand 0, SetCachePolicy NoCache, Expand 1]
               (cache_new 100000, lev_with_algorithm ab_dictionary [97, 98] 1 standard)
   in wrapper_is_final final_weight_for_state (c, s) 0 = (final_weight_for_state s 0 \<noteq> None)"
  using lev_wrapper_answers [OF ab_dictionary_ok, of "[Expand 0, SetCachePolicy NoCache, Expand 1]" "[97, 98]" 1 standard 0]
  by (simp only: Let_def case_prod_unfold)

end
