(* ===== verification/Lev_Paths.thy ===== *)
theory Lev_Paths
  imports Lev_Source
begin

text \<open>
  What the lazily expanded WFST of \<open>src/state_source.rs\<close> means. Its states are (dictionary node,
  automaton configuration) pairs and its transitions are the edit steps of an abstract machine
  over them; its accepting paths are the alignments of the query with the dictionary's terms,
  so the least weight of a term is its edit distance to the query.
\<close>

section \<open>The abstract machine\<close>

datatype lev_mode = MNormal | MTranspose | MMerge | MSplit

type_synonym lev_config = "lev_mode \<times> nat \<times> nat"

fun config_of :: "automaton_state \<Rightarrow> lev_config" where
  "config_of (Normal p e) = (MNormal, unat p, unat e)"
| "config_of (TransposeSecond p e) = (MTranspose, unat p, unat e)"
| "config_of (MergeSecond p e) = (MMerge, unat p, unat e)"
| "config_of (SplitSecond p e) = (MSplit, unat p, unat e)"

text \<open>The steps that follow an edge labelled \<open>ch\<close> to the node \<open>m\<close>: input label, target, cost.\<close>

inductive edge_step ::
    "('n, 'u) dictionary \<Rightarrow> lev_algorithm \<Rightarrow> uchar list \<Rightarrow> nat \<Rightarrow> lev_config \<Rightarrow> uchar \<Rightarrow> 'n
     \<Rightarrow> uchar option \<Rightarrow> lev_config \<Rightarrow> nat \<Rightarrow> bool"
  for D a q k where
  match_step: "p < length q \<Longrightarrow> q ! p = ch \<Longrightarrow> e \<le> k \<Longrightarrow>
    edge_step D a q k (MNormal, p, e) ch m (Some (q ! p)) (MNormal, p + 1, e) 0"
| substitute_step: "p < length q \<Longrightarrow> q ! p \<noteq> ch \<Longrightarrow> e < k \<Longrightarrow>
    edge_step D a q k (MNormal, p, e) ch m (Some (q ! p)) (MNormal, p + 1, e + 1) 1"
| insert_step: "p \<le> length q \<Longrightarrow> e < k \<Longrightarrow>
    edge_step D a q k (MNormal, p, e) ch m None (MNormal, p, e + 1) 1"
| transpose_step: "supports_transposition a \<Longrightarrow> p + 1 < length q \<Longrightarrow> e < k \<Longrightarrow> q ! (p + 1) = ch \<Longrightarrow>
    q ! p \<noteq> ch \<Longrightarrow> child_by D m (q ! p) \<noteq> None \<Longrightarrow>
    edge_step D a q k (MNormal, p, e) ch m (Some (q ! p)) (MTranspose, p, e + 1) 1"
| merge_step: "supports_merge_split a \<Longrightarrow> p + 1 < length q \<Longrightarrow> e < k \<Longrightarrow>
    edge_step D a q k (MNormal, p, e) ch m (Some (q ! p)) (MMerge, p, e + 1) 1"
| split_step: "supports_merge_split a \<Longrightarrow> p < length q \<Longrightarrow> e < k \<Longrightarrow> node_edges D m \<noteq> [] \<Longrightarrow>
    edge_step D a q k (MNormal, p, e) ch m (Some (q ! p)) (MSplit, p, e + 1) 1"
| transpose_second_step: "p + 1 < length q \<Longrightarrow> q ! p = ch \<Longrightarrow> e \<le> k \<Longrightarrow>
    edge_step D a q k (MTranspose, p, e) ch m (Some (q ! (p + 1))) (MNormal, p + 2, e) 0"
| split_second_step: "p < length q \<Longrightarrow> e \<le> k \<Longrightarrow>
    edge_step D a q k (MSplit, p, e) ch m None (MNormal, p + 1, e) 0"

inductive_cases edge_step_NormalE: "edge_step D a q k (MNormal, p, e) ch m i cfg w"
inductive_cases edge_step_TransposeE: "edge_step D a q k (MTranspose, p, e) ch m i cfg w"
inductive_cases edge_step_SplitE: "edge_step D a q k (MSplit, p, e) ch m i cfg w"
inductive_cases edge_step_MergeE: "edge_step D a q k (MMerge, p, e) ch m i cfg w"

text \<open>All steps: along an edge, or consuming a query character at the node.\<close>

inductive lev_step ::
    "('n, 'u) dictionary \<Rightarrow> lev_algorithm \<Rightarrow> uchar list \<Rightarrow> nat \<Rightarrow> 'n \<times> lev_config
     \<Rightarrow> uchar option \<Rightarrow> uchar option \<Rightarrow> nat \<Rightarrow> 'n \<times> lev_config \<Rightarrow> bool"
  for D a q k where
  along_edge: "child_by D n ch = Some m \<Longrightarrow> edge_step D a q k cfg ch m i cfg' w \<Longrightarrow>
    lev_step D a q k (n, cfg) i (Some ch) w (m, cfg')"
| delete_step: "p < length q \<Longrightarrow> e < k \<Longrightarrow>
    lev_step D a q k (n, (MNormal, p, e)) (Some (q ! p)) None 1 (n, (MNormal, p + 1, e + 1))"
| merge_second_step: "p + 1 < length q \<Longrightarrow> e \<le> k \<Longrightarrow>
    lev_step D a q k (n, (MMerge, p, e)) (Some (q ! (p + 1))) None 0 (n, (MNormal, p + 2, e))"

section \<open>The arcs of a state are the steps of its configuration\<close>

lemma unat_max_distance_u32: "unat (max_distance_u32 c) = min (max_distance c) (2 ^ 32 - 1)"
  by (simp add: max_distance_u32_def saturating_u32_def u32_try_from_def unat_of_nat min_def)

lemma can_edit_iff: "can_edit c e \<longleftrightarrow> unat e < max_distance c \<and> unat e < 2 ^ 32 - 1"
  by (simp add: can_edit_def word_less_nat_alt unat_max_distance_u32)

lemma can_edit_next: "can_edit c e \<Longrightarrow> unat (saturating_add e 1) = unat e + 1"
  by (simp add: can_edit_iff width_simps)

lemma decode_encoded:
  assumes "codec_wf c" and "encode_state c st = Some a" and "unat (state_pos st) \<le> query_len c"
    and "unat (state_cost st) \<le> max_distance c"
  shows "decode_automaton_state c a = Some st"
  using codec_exact [OF assms(1), of st a] assms(2-4) by (simp add: state_ok_def)

lemmas decode_normal = decode_encoded [where st = "Normal p e" for p e, simplified]
lemmas decode_transpose = decode_encoded [where st = "TransposeSecond p e" for p e, simplified]
lemmas decode_merge = decode_encoded [where st = "MergeSecond p e" for p e, simplified]
lemmas decode_split = decode_encoded [where st = "SplitSecond p e" for p e, simplified]

lemma in_case_option:
  "z \<in> set (case x of None \<Rightarrow> [] | Some y \<Rightarrow> g y) \<longleftrightarrow> (\<exists>y. x = Some y \<and> z \<in> set (g y))"
  by (cases x) auto

lemma normal_arcs_iff:
  "(i, out, a, w) \<in> set (normal_arcs D c q p e (u, m)) \<longleftrightarrow> out = Some (unit_char D u) \<and>
    ((\<exists>x cost. match_or_substitute c q p e (unit_char D u) = Some (x, cost, a) \<and> i = Some x \<and> w = unat cost) \<or>
     (insert_context c p e = Some a \<and> i = None \<and> w = 1) \<or>
     (\<exists>x. transpose_context c q p e = Some (x, unit_char D u, a) \<and> x \<noteq> unit_char D u \<and>
        node_has_char_edge D m x \<and> i = Some x \<and> w = 1) \<or>
     (\<exists>x. merge_context c q p e = Some (x, a) \<and> i = Some x \<and> w = 1) \<or>
     (\<exists>x. split_context c q p e = Some (x, a) \<and> node_has_any_edge D m \<and> i = Some x \<and> w = 1))"
proof -
  let ?ch = "unit_char D u"
  have tr: "(case transpose_context c q p e of
        None \<Rightarrow> None
      | Some (first, second, state) \<Rightarrow>
          if ?ch = second \<and> first \<noteq> second \<and> node_has_char_edge D m first then Some (first, state) else None)
      = Some (x, b) \<longleftrightarrow> transpose_context c q p e = Some (x, ?ch, b) \<and> x \<noteq> ?ch \<and> node_has_char_edge D m x" for x b
    by (auto split: option.split if_splits)
  have sp: "(if split_context c q p e \<noteq> None \<and> node_has_any_edge D m then split_context c q p e else None)
      = Some y \<longleftrightarrow> split_context c q p e = Some y \<and> node_has_any_edge D m" for y
    by (cases "split_context c q p e") auto
  show ?thesis
    unfolding normal_arcs_def Let_def split_conv set_append Un_iff in_case_option
    by (auto simp: tr sp simp del: not_None_eq)
qed

lemma normal_arcs_sound:
  assumes "codec_wf c" and "query_len c = length q" and "dictionary_ok D"
    and "unat p \<le> length q" and "unat e \<le> max_distance c"
    and "(i, out, a, w) \<in> set (normal_arcs D c q p e (u, m))"
  shows "out = Some (unit_char D u) \<and> (\<exists>st'. decode_automaton_state c a = Some st' \<and>
    edge_step D (algorithm c) q (max_distance c) (MNormal, unat p, unat e) (unit_char D u) m i (config_of st') w)"
proof -
  let ?ch = "unit_char D u"
  consider (ms) x cost where "match_or_substitute c q p e ?ch = Some (x, cost, a)" "i = Some x" "w = unat cost"
    | (ins) "insert_context c p e = Some a" "i = None" "w = 1"
    | (tr) x where "transpose_context c q p e = Some (x, ?ch, a)" "x \<noteq> ?ch" "node_has_char_edge D m x"
        "i = Some x" "w = 1"
    | (mg) x where "merge_context c q p e = Some (x, a)" "i = Some x" "w = 1"
    | (sp) x where "split_context c q p e = Some (x, a)" "node_has_any_edge D m" "i = Some x" "w = 1"
    using assms(6) unfolding normal_arcs_iff by blast
  moreover have "out = Some ?ch" using assms(6) unfolding normal_arcs_iff by blast
  moreover have "\<exists>st'. decode_automaton_state c a = Some st' \<and>
    edge_step D (algorithm c) q (max_distance c) (MNormal, unat p, unat e) ?ch m i (config_of st') w"
    using calculation(1)
  proof cases
    case ms
    then obtain np where p: "unat p < length q" "x = q ! unat p" "unat np = unat p + 1"
      and cost: "cost = (if x = ?ch then 0 else 1)"
      and enc: "encode_automaton_state c np (saturating_add e cost) = Some a"
      and le: "saturating_add e cost \<le> max_distance_u32 c"
      by (auto simp: match_or_substitute_def read_char_def Let_def bind_eq_Some_conv checked_add_eq_Some
          split: option.splits if_splits)
    have "unat (saturating_add e cost) < 2 ^ 32 - 1"
      using enc normal_states_bounds(2) [OF assms(1)] by (simp add: encode_automaton_state_eq_Some)
    then have sat: "unat (saturating_add e cost) = unat e + unat cost" by (simp add: width_simps min_def split: if_splits)
    then have le': "unat e + unat cost \<le> max_distance c"
      using le by (simp add: word_le_nat_alt unat_max_distance_u32)
    have dec: "decode_automaton_state c a = Some (Normal np (saturating_add e cost))"
      using decode_normal [OF assms(1) enc] p assms(2) sat le' by simp
    show ?thesis
    proof (cases "x = ?ch")
      case True
      then show ?thesis
        using dec cost p sat ms match_step [of "unat p" q ?ch "unat e"] assms(5) by simp
    next
      case False
      then show ?thesis
        using dec cost p sat ms le' substitute_step [of "unat p" q ?ch "unat e"] by (simp add: Suc_le_eq)
    qed
  next
    case ins
    then have ed: "can_edit c e" and enc: "encode_automaton_state c p (saturating_add e 1) = Some a"
      by (auto simp: insert_context_def split: if_splits)
    note nx = can_edit_next [OF ed] and lt = ed [unfolded can_edit_iff]
    have "decode_automaton_state c a = Some (Normal p (saturating_add e 1))"
      using decode_normal [OF assms(1) enc] assms(2,4) nx lt by simp
    then show ?thesis using ins nx lt insert_step [of "unat p" q "unat e"] assms(4) by auto
  next
    case tr
    then have ed: "can_edit c e" and x: "x = q ! unat p" "unat p + 1 < length q" "q ! (unat p + 1) = ?ch"
      and sup: "supports_transposition (algorithm c)"
      and enc: "encode_transpose_second_state c p (saturating_add e 1) = Some a"
      by (auto simp: transpose_context_def next_index_eq_Some split: if_splits option.splits)
    note nx = can_edit_next [OF ed] and lt = ed [unfolded can_edit_iff]
    have "decode_automaton_state c a = Some (TransposeSecond p (saturating_add e 1))"
      using decode_transpose [OF assms(1), of p "saturating_add e 1" a] sup enc assms(2) x nx lt by simp
    then show ?thesis
      using tr x sup nx lt transpose_step [of "algorithm c" "unat p" q "unat e" _ ?ch D m]
        dictionary_node_char_edge [OF assms(3)] by auto
  next
    case mg
    then have ed: "can_edit c e" and x: "x = q ! unat p" "unat p + 1 < length q"
      and sup: "supports_merge_split (algorithm c)"
      and enc: "encode_merge_second_state c p (saturating_add e 1) = Some a"
      by (auto simp: merge_context_def next_index_eq_Some read_char_def split: if_splits option.splits)
    note nx = can_edit_next [OF ed] and lt = ed [unfolded can_edit_iff]
    have "decode_automaton_state c a = Some (MergeSecond p (saturating_add e 1))"
      using decode_merge [OF assms(1) enc] assms(2) x nx lt by simp
    then show ?thesis using mg x sup nx lt merge_step [of "algorithm c" "unat p" q "unat e"] by auto
  next
    case sp
    then have ed: "can_edit c e" and x: "x = q ! unat p" "unat p < length q"
      and sup: "supports_merge_split (algorithm c)"
      and enc: "encode_split_second_state c p (saturating_add e 1) = Some a"
      by (auto simp: split_context_def read_char_def split: if_splits option.splits)
    note nx = can_edit_next [OF ed] and lt = ed [unfolded can_edit_iff]
    have "decode_automaton_state c a = Some (SplitSecond p (saturating_add e 1))"
      using decode_split [OF assms(1) enc] assms(2) x nx lt by simp
    then show ?thesis
      using sp x sup nx lt split_step [of "algorithm c" "unat p" q "unat e"] dictionary_node_any_edge [OF assms(3)]
      by auto
  qed
  ultimately show ?thesis by blast
qed

lemma state_arcs_sound:
  assumes "codec_wf c" and "query_len c = length q" and "dictionary_ok D" and "state_ok c st"
    and "(i, out, a, w) \<in> set (state_arcs D c q st (u, m))"
  shows "out = Some (unit_char D u) \<and> (\<exists>st'. decode_automaton_state c a = Some st' \<and>
    edge_step D (algorithm c) q (max_distance c) (config_of st) (unit_char D u) m i (config_of st') w)"
proof (cases st)
  case (Normal p e)
  then show ?thesis
    using normal_arcs_sound [OF assms(1-3), of p e i out a w u m] assms(2,4,5) by (simp add: state_arcs_def state_ok_def)
next
  case (TransposeSecond p e)
  then obtain np where n: "unat np = unat p + 2" "encode_automaton_state c np e = Some a"
    and lt: "unat p + 1 < length q"
    and arc: "(i, out, a, w) \<in> set (transpose_second_arcs D (q ! (unat p + 1)) (q ! unat p) a (u, m))"
    using assms(5) by (fastforce simp: state_arcs_def bind_eq_Some_conv checked_add_eq_Some next_index_eq_Some
        transpose_second_arcs_def split: option.splits if_splits)
  have "decode_automaton_state c a = Some (Normal np e)"
    using decode_normal [OF assms(1) n(2)] n(1) lt assms(2,4) TransposeSecond by (simp add: state_ok_def)
  then show ?thesis
    using arc TransposeSecond lt n(1) assms(4) transpose_second_step [of "unat p" q "unit_char D u" "unat e"]
    by (auto simp: transpose_second_arcs_def state_ok_def split: if_splits)
next
  case (MergeSecond p e)
  then show ?thesis using assms(5) by (simp add: state_arcs_def)
next
  case (SplitSecond p e)
  then obtain np where n: "unat np = unat p + 1" "encode_automaton_state c np e = Some a"
    and lt: "unat p < length q" and arc: "(i, out, a, w) \<in> set (split_second_arcs D a (u, m))"
    using assms(5) by (fastforce simp: state_arcs_def bind_eq_Some_conv checked_add_eq_Some
        split_second_arcs_def split: option.splits if_splits)
  have "decode_automaton_state c a = Some (Normal np e)"
    using decode_normal [OF assms(1) n(2)] n(1) lt assms(2,4) SplitSecond by (simp add: state_ok_def)
  then show ?thesis
    using arc SplitSecond lt n(1) assms(4)
      split_second_step [of "unat p" q "unat e" "max_distance c" D "algorithm c" "unit_char D u" m]
    by (auto simp: split_second_arcs_def state_ok_def)
qed

text \<open>When the codec fits in 32 bits, every step of a configuration is an arc of its state.\<close>

lemma fits_bounds:
  assumes "codec_fits c"
  shows "query_len c < 2 ^ 32 - 1" and "max_distance c < 2 ^ 32 - 1"
proof -
  let ?k = "1 + unat (continuation_state_kinds (algorithm c))"
  have lt: "(query_len c + 1) * (max_distance c + 1) * ?k < 2 ^ 32" using assms by (simp add: codec_fits_def)
  have "(query_len c + 1) * 1 * 1 \<le> (query_len c + 1) * (max_distance c + 1) * ?k"
    by (intro mult_le_mono) simp_all
  moreover have "1 * (max_distance c + 1) * 1 \<le> (query_len c + 1) * (max_distance c + 1) * ?k"
    by (intro mult_le_mono) simp_all
  ultimately have "query_len c + 1 < 2 ^ 32" and "max_distance c + 1 < 2 ^ 32"
    using lt by (simp_all only: mult_1_left mult_1_right)
  then show "query_len c < 2 ^ 32 - 1" "max_distance c < 2 ^ 32 - 1" by simp_all
qed

lemma advance:
  fixes p :: u32
  assumes "unat p + n < 2 ^ 32"
  obtains np where "checked_add p (of_nat n) = Some np" and "unat np = unat p + n"
proof -
  have "n < 2 ^ 32" using assms by simp
  then have n: "unat (of_nat n :: u32) = n" by (rule unat_of_nat_u32)
  have "unat (of_nat (unat p + n) :: u32) = unat p + n" by (rule unat_of_nat_u32 [OF assms])
  then have "checked_add p (of_nat n) = Some (of_nat (unat p + n))"
    unfolding checked_add_eq_Some n .
  then show ?thesis using \<open>unat (of_nat (unat p + n) :: u32) = unat p + n\<close> by (rule that)
qed

lemma encode_fits:
  assumes "codec_wf c" and "codec_fits c" and "state_slot c st = Some s"
    and "unat (state_pos st) \<le> query_len c" and "unat (state_cost st) \<le> max_distance c"
  obtains a where "encode_state c st = Some a" and "decode_automaton_state c a = Some st"
  using encode_state_fits [OF assms(1,2) _ assms(3)] decode_encoded [OF assms(1) _ assms(4,5)] assms(4,5)
  by (auto simp: state_ok_def)

lemma normal_arcs_complete:
  assumes "codec_wf c" and "codec_fits c" and "query_len c = length q" and "dictionary_ok D"
    and "edge_step D (algorithm c) q (max_distance c) (MNormal, unat p, unat e) (unit_char D u) m i cfg w"
  shows "\<exists>a st'. config_of st' = cfg \<and> decode_automaton_state c a = Some st' \<and>
    (i, Some (unit_char D u), a, w) \<in> set (normal_arcs D c q p e (u, m))"
proof -
  let ?ch = "unit_char D u"
  note b = fits_bounds [OF assms(2)]
  have next_pos: "\<exists>np. checked_add p 1 = Some np \<and> unat np = unat p + 1" if "unat p < length q"
    using advance [of p 1] that b(1) assms(3) by auto
  have ed: "can_edit c e" "unat (saturating_add e 1) = unat e + 1" if "unat e < max_distance c"
    using that b(2) can_edit_next by (simp_all add: can_edit_iff)
  have index: "next_index (unat p) (length q) = Some (unat p + 1)" if "unat p + 1 < length q"
    using that b(1) assms(3) by (simp add: next_index_eq_Some usize_max_def)
  show ?thesis
  proof (rule edge_step_NormalE [OF assms(5)], goal_cases)
    case 1
    obtain np where np: "checked_add p 1 = Some np" "unat np = unat p + 1" using next_pos 1 by blast
    have e0: "saturating_add e 0 = e" using unat_less_exp [of e] by (simp add: word_unat_eq_iff width_simps)
    obtain a where a: "encode_automaton_state c np e = Some a" "decode_automaton_state c a = Some (Normal np e)"
      using encode_fits [OF assms(1,2), of "Normal np e" 0] np 1 assms(3) by auto
    have "match_or_substitute c q p e ?ch = Some (q ! unat p, 0, a)"
      using 1 np a e0 b(2) by (simp add: match_or_substitute_def read_char_def word_le_nat_alt unat_max_distance_u32)
    then show ?thesis using 1 a np by (intro exI [of _ a] exI [of _ "Normal np e"]) (simp add: normal_arcs_iff)
  next
    case 2
    obtain np where np: "checked_add p 1 = Some np" "unat np = unat p + 1" using next_pos 2 by blast
    note ed' = ed [OF \<open>unat e < max_distance c\<close>]
    obtain a where a: "encode_automaton_state c np (saturating_add e 1) = Some a"
      "decode_automaton_state c a = Some (Normal np (saturating_add e 1))"
      using encode_fits [OF assms(1,2), of "Normal np (saturating_add e 1)" 0] np 2 assms(3) ed' by auto
    have "match_or_substitute c q p e ?ch = Some (q ! unat p, 1, a)"
      using 2 np a ed' b(2) by (simp add: match_or_substitute_def read_char_def word_le_nat_alt unat_max_distance_u32)
    then show ?thesis
      using 2 a np ed' by (intro exI [of _ a] exI [of _ "Normal np (saturating_add e 1)"]) (simp add: normal_arcs_iff)
  next
    case 3
    note ed' = ed [OF \<open>unat e < max_distance c\<close>]
    obtain a where a: "encode_automaton_state c p (saturating_add e 1) = Some a"
      "decode_automaton_state c a = Some (Normal p (saturating_add e 1))"
      using encode_fits [OF assms(1,2), of "Normal p (saturating_add e 1)" 0] 3 assms(3) ed' by auto
    then have "insert_context c p e = Some a" using ed' by (simp add: insert_context_def)
    then show ?thesis
      using 3 a ed' by (intro exI [of _ a] exI [of _ "Normal p (saturating_add e 1)"]) (simp add: normal_arcs_iff)
  next
    case 4
    note ed' = ed [OF \<open>unat e < max_distance c\<close>]
    obtain a where a: "encode_transpose_second_state c p (saturating_add e 1) = Some a"
      "decode_automaton_state c a = Some (TransposeSecond p (saturating_add e 1))"
      using encode_fits [OF assms(1,2), of "TransposeSecond p (saturating_add e 1)" 1] 4 assms(3) ed'
      by (auto simp: transpose_second_slot_def)
    have "transpose_context c q p e = Some (q ! unat p, ?ch, a)"
      using 4 a ed' index by (simp add: transpose_context_def)
    then show ?thesis
      using 4 a ed' dictionary_node_char_edge [OF assms(4)]
      by (intro exI [of _ a] exI [of _ "TransposeSecond p (saturating_add e 1)"]) (simp add: normal_arcs_iff)
  next
    case 5
    note ed' = ed [OF \<open>unat e < max_distance c\<close>]
    obtain slot where "state_slot c (MergeSecond p (saturating_add e 1)) = Some slot"
      using 5 by (auto simp: merge_second_slot_def)
    then obtain a where a: "encode_merge_second_state c p (saturating_add e 1) = Some a"
      "decode_automaton_state c a = Some (MergeSecond p (saturating_add e 1))"
      using encode_fits [OF assms(1,2), of "MergeSecond p (saturating_add e 1)"] 5 assms(3) ed' by auto
    have "merge_context c q p e = Some (q ! unat p, a)"
      using 5 a ed' index by (simp add: merge_context_def read_char_def)
    then show ?thesis
      using 5 a ed' by (intro exI [of _ a] exI [of _ "MergeSecond p (saturating_add e 1)"]) (simp add: normal_arcs_iff)
  next
    case 6
    note ed' = ed [OF \<open>unat e < max_distance c\<close>]
    obtain slot where "state_slot c (SplitSecond p (saturating_add e 1)) = Some slot"
      using 6 by (auto simp: split_second_slot_eq)
    then obtain a where a: "encode_split_second_state c p (saturating_add e 1) = Some a"
      "decode_automaton_state c a = Some (SplitSecond p (saturating_add e 1))"
      using encode_fits [OF assms(1,2), of "SplitSecond p (saturating_add e 1)"] 6 assms(3) ed' by auto
    have "split_context c q p e = Some (q ! unat p, a)"
      using 6 a ed' by (simp add: split_context_def read_char_def)
    then show ?thesis
      using 6 a ed' dictionary_node_any_edge [OF assms(4)]
      by (intro exI [of _ a] exI [of _ "SplitSecond p (saturating_add e 1)"]) (simp add: normal_arcs_iff)
  qed
qed

lemma state_arcs_complete:
  assumes "codec_wf c" and "codec_fits c" and "query_len c = length q" and "dictionary_ok D"
    and "edge_step D (algorithm c) q (max_distance c) (config_of st) (unit_char D u) m i cfg w"
  shows "\<exists>a st'. config_of st' = cfg \<and> decode_automaton_state c a = Some st' \<and>
    (i, Some (unit_char D u), a, w) \<in> set (state_arcs D c q st (u, m))"
proof (cases st)
  case (Normal p e)
  then show ?thesis
    using normal_arcs_complete [OF assms(1-4), of p e u m i cfg w] assms(5) by (simp add: state_arcs_def)
next
  case (TransposeSecond p e)
  have "edge_step D (algorithm c) q (max_distance c) (MTranspose, unat p, unat e) (unit_char D u) m i cfg w"
    using assms(5) TransposeSecond by simp
  then show ?thesis
  proof (rule edge_step_TransposeE, goal_cases)
    case 1
    have "unat p + 2 < 2 ^ 32" using 1 fits_bounds(1) [OF assms(2)] assms(3) by simp
    then obtain np where np: "checked_add p 2 = Some np" "unat np = unat p + 2" using advance [of p 2] by auto
    obtain a where a: "encode_automaton_state c np e = Some a" "decode_automaton_state c a = Some (Normal np e)"
      using encode_fits [OF assms(1,2), of "Normal np e" 0] np 1 assms(3) by auto
    have "next_index (unat p) (length q) = Some (unat p + 1)"
      using 1 fits_bounds(1) [OF assms(2)] assms(3) by (simp add: next_index_eq_Some usize_max_def)
    then have "state_arcs D c q st = transpose_second_arcs D (q ! (unat p + 1)) (q ! unat p) a"
      using TransposeSecond np a by (simp add: state_arcs_def)
    then show ?thesis
      using 1 a np by (intro exI [of _ a] exI [of _ "Normal np e"]) (simp add: transpose_second_arcs_def)
  qed
next
  case (MergeSecond p e)
  have "edge_step D (algorithm c) q (max_distance c) (MMerge, unat p, unat e) (unit_char D u) m i cfg w"
    using assms(5) MergeSecond by simp
  then show ?thesis by (rule edge_step_MergeE)
next
  case (SplitSecond p e)
  have "edge_step D (algorithm c) q (max_distance c) (MSplit, unat p, unat e) (unit_char D u) m i cfg w"
    using assms(5) SplitSecond by simp
  then show ?thesis
  proof (rule edge_step_SplitE, goal_cases)
    case 1
    have "unat p + 1 < 2 ^ 32" using 1 fits_bounds(1) [OF assms(2)] assms(3) by simp
    then obtain np where np: "checked_add p 1 = Some np" "unat np = unat p + 1" using advance [of p 1] by auto
    obtain a where a: "encode_automaton_state c np e = Some a" "decode_automaton_state c a = Some (Normal np e)"
      using encode_fits [OF assms(1,2), of "Normal np e" 0] np 1 assms(3) by auto
    then have "state_arcs D c q st = split_second_arcs D a"
      using SplitSecond np 1 by (simp add: state_arcs_def)
    then show ?thesis
      using 1 a np by (intro exI [of _ a] exI [of _ "Normal np e"]) (simp add: split_second_arcs_def)
  qed
qed

section \<open>One expansion is one round of steps\<close>

text \<open>A state identifier stands for a node and a configuration.\<close>

definition lev_at :: "('n, 'u) lev_source \<Rightarrow> state_id \<Rightarrow> 'n \<times> lev_config \<Rightarrow> bool" where
  "lev_at s x y \<longleftrightarrow>
     (\<exists>i a st. decode_product_state (ls_codec s) x = Some (i, a) \<and>
        decode_automaton_state (ls_codec s) a = Some st \<and>
        reg_get_node (ls_registry s) i = Some (fst y) \<and> config_of st = snd y)"

definition source_step ::
    "('n, 'u) lev_source \<Rightarrow> 'n \<times> lev_config \<Rightarrow> uchar option \<Rightarrow> uchar option \<Rightarrow> nat \<Rightarrow> 'n \<times> lev_config \<Rightarrow> bool" where
  "source_step s = lev_step (ls_dictionary s) (algorithm (ls_codec s)) (ls_query s) (max_distance (ls_codec s))"

lemma lev_wfD:
  assumes "lev_wf s"
  shows "dictionary_ok (ls_dictionary s)" "codec_wf (ls_codec s)" "query_len (ls_codec s) = length (ls_query s)"
    "reg_wf (ls_registry s)" "reg_tracks (ls_dictionary s) (ls_registry s)"
  using assms by (simp_all add: lev_wf_def)

lemma decode_product_of_encode:
  "encode_product_state c i a = Some x \<Longrightarrow> decode_product_state c x = Some (i, a)"
  unfolding encode_product_state_def decode_product_state_def by (auto simp: width_simps)

lemma state_ok_decoded: "codec_wf c \<Longrightarrow> decode_automaton_state c a = Some st \<Longrightarrow> state_ok c st"
  using codec_exact by blast

lemma state_own_sound:
  assumes "codec_wf c" and "query_len c = length q" and "state_ok c st" and "t \<in> set (state_own c q x i st)"
  shows "\<exists>a st'. t = mk_transition x (t_input t) None (t_to t) (t_weight t) \<and>
    decode_product_state c (t_to t) = Some (i, a) \<and> decode_automaton_state c a = Some st' \<and>
    (\<exists>w. t_weight t = f64_of_nat w \<and>
       lev_step D (algorithm c) q (max_distance c) (n, config_of st) (t_input t) None w (n, config_of st'))"
proof (cases st)
  case (Normal p e)
  have "state_own c q x i st = []" if "\<not> (unat p < length q \<and> can_edit c e)"
    using that unfolding Normal state_own_def delete_transitions_def by auto
  then have lt: "unat p < length q" and ed: "can_edit c e" using assms(4) by fastforce+
  obtain target where tt: "encode_transition_target c i
        (Option.bind (checked_add p 1) (\<lambda>np. encode_automaton_state c np (saturating_add e 1))) = Some target"
    and t: "t = mk_transition x (Some (q ! unat p)) None target (F64 1)"
    using assms(4) lt ed by (simp add: Normal state_own_def delete_transitions_def) (metis)
  obtain np a where np: "unat np = unat p + 1" and a: "encode_automaton_state c np (saturating_add e 1) = Some a"
    and target: "encode_product_state c i a = Some target"
    using tt by (auto simp: encode_transition_target_def bind_eq_Some_conv checked_add_eq_Some)
  note nx = can_edit_next [OF ed] and lt' = ed [unfolded can_edit_iff]
  have dec: "decode_automaton_state c a = Some (Normal np (saturating_add e 1))"
    using decode_normal [OF assms(1) a] np lt assms(2) nx lt' by simp
  have "lev_step D (algorithm c) q (max_distance c) (n, config_of st) (t_input t) None 1
      (n, config_of (Normal np (saturating_add e 1)))"
    using delete_step [OF lt, of "unat e" "max_distance c" D "algorithm c" n] lt' nx np t Normal by simp
  then show ?thesis
    using dec decode_product_of_encode [OF target] t
    by (intro exI [of _ a] exI [of _ "Normal np (saturating_add e 1)"]) (auto simp: f64_of_nat_def intro!: exI [of _ 1])
next
  case (MergeSecond p e)
  obtain np' target where "next_index (unat p) (length q) = Some np'"
    and tt: "encode_transition_target c i
        (Option.bind (checked_add p 2) (\<lambda>np. encode_automaton_state c np e)) = Some target"
    and t': "t = mk_transition x (Some (q ! np')) None target (F64 0)"
    using assms(4) unfolding MergeSecond state_own_def automaton_state.case in_case_option by auto
  then have lt: "unat p + 1 < length q" and t: "t = mk_transition x (Some (q ! (unat p + 1))) None target (F64 0)"
    by (simp_all add: next_index_eq_Some)
  obtain np a where np: "unat np = unat p + 2" and a: "encode_automaton_state c np e = Some a"
    and target: "encode_product_state c i a = Some target"
    using tt by (auto simp: encode_transition_target_def bind_eq_Some_conv checked_add_eq_Some)
  have dec: "decode_automaton_state c a = Some (Normal np e)"
    using decode_normal [OF assms(1) a] np lt assms(2,3) MergeSecond by (simp add: state_ok_def)
  have "lev_step D (algorithm c) q (max_distance c) (n, config_of st) (t_input t) None 0
      (n, config_of (Normal np e))"
    using merge_second_step [OF lt, of "unat e" "max_distance c" D "algorithm c" n] np t MergeSecond assms(3)
    by (simp add: state_ok_def)
  then show ?thesis
    using dec decode_product_of_encode [OF target] t
    by (intro exI [of _ a] exI [of _ "Normal np e"]) (auto simp: f64_of_nat_def intro!: exI [of _ 0])
qed (use assms(4) in \<open>simp_all add: state_own_def\<close>)

lemma expansion_sound:
  assumes "lev_wf s" and "lev_at s x y" and "lev_expand_state s x = (Expanded f w ts, s')" and "t \<in> set ts"
  shows "\<exists>z r. lev_at s' (t_to t) z \<and> t_from t = x \<and> t_weight t = f64_of_nat r \<and>
    source_step s y (t_input t) (t_output t) r z"
proof -
  obtain i a st where v: "decode_product_state (ls_codec s) x = Some (i, a)"
    "decode_automaton_state (ls_codec s) a = Some st" "reg_get_node (ls_registry s) i = Some (fst y)"
    "config_of st = snd y"
    using assms(2) by (auto simp: lev_at_def)
  note wf = lev_wfD [OF assms(1)] and ok = state_ok_decoded [OF lev_wfD(2) [OF assms(1)] v(2)]
  obtain ts0 reg where run: "expand_edges (ls_codec s) x i (unit_char (ls_dictionary s))
      (state_arcs (ls_dictionary s) (ls_codec s) (ls_query s) st)
      (node_edges (ls_dictionary s) (fst y)) (ls_registry s) = (ts0, reg)" by force
  have ts: "ts = ts0 @ state_own (ls_codec s) (ls_query s) x i st" and s': "s' = s\<lparr>ls_registry := reg\<rparr>"
    using assms(3) lev_expand_valid [OF assms(1) v(1-3)] run by simp_all
  have ext: "reg_ext (ls_registry s) reg" using expand_edges_wf [OF wf(4)] run by (metis snd_conv)
  consider (edge) "t \<in> set ts0" | (own) "t \<in> set (state_own (ls_codec s) (ls_query s) x i st)"
    using assms(4) ts by auto
  then show ?thesis
  proof cases
    case edge
    obtain u m j inp out b r where e: "(u, m) \<in> set (node_edges (ls_dictionary s) (fst y))"
      "(inp, out, b, r) \<in> set (state_arcs (ls_dictionary s) (ls_codec s) (ls_query s) st (u, m))"
      "reg_get_node reg j = Some m" "encode_product_state (ls_codec s) j b = Some (t_to t)"
      "t = mk_transition x inp out (t_to t) (f64_of_nat r)"
      using expand_edges_sound [OF wf(1,4,5) v(3) subset_refl run] edge by blast
    obtain st' where st': "out = Some (unit_char (ls_dictionary s) u)"
      "decode_automaton_state (ls_codec s) b = Some st'"
      "edge_step (ls_dictionary s) (algorithm (ls_codec s)) (ls_query s) (max_distance (ls_codec s))
         (config_of st) (unit_char (ls_dictionary s) u) m inp (config_of st') r"
      using state_arcs_sound [OF wf(2,3,1) ok e(2)] by blast
    have "child_by (ls_dictionary s) (fst y) (unit_char (ls_dictionary s) u) = Some m"
      by (rule child_by_edge [OF wf(1) e(1)])
    then have "source_step s (fst y, snd y) inp out r (m, config_of st')"
      unfolding source_step_def v(4) [symmetric] st'(1) using st'(3) by (rule along_edge)
    moreover have "lev_at s' (t_to t) (m, config_of st')"
      using decode_product_of_encode [OF e(4)] st'(2) e(3) s' by (simp add: lev_at_def)
    moreover have "t_input t = inp" "t_output t = out" "t_from t = x" "t_weight t = f64_of_nat r"
      using e(5) by (metis transition.select_convs)+
    ultimately show ?thesis by (intro exI [of _ "(m, config_of st')"] exI [of _ r]) simp
  next
    case own
    obtain b st' r where o: "t = mk_transition x (t_input t) None (t_to t) (t_weight t)"
      "decode_product_state (ls_codec s) (t_to t) = Some (i, b)"
      "decode_automaton_state (ls_codec s) b = Some st'" "t_weight t = f64_of_nat r"
      "lev_step (ls_dictionary s) (algorithm (ls_codec s)) (ls_query s) (max_distance (ls_codec s))
         (fst y, config_of st) (t_input t) None r (fst y, config_of st')"
      using state_own_sound [OF wf(2,3) ok own, of "ls_dictionary s" "fst y"] by metis
    have "t_output t = None" "t_from t = x" using o(1) by (metis transition.select_convs)+
    moreover have "source_step s (fst y, snd y) (t_input t) None r (fst y, config_of st')"
      unfolding source_step_def v(4) [symmetric] by (rule o(5))
    moreover have "lev_at s' (t_to t) (fst y, config_of st')"
      using o(2,3) v(3) ext s' by (simp add: lev_at_def reg_ext_def)
    ultimately show ?thesis using o(4) by (intro exI [of _ "(fst y, config_of st')"] exI [of _ r]) simp
  qed
qed

lemma decode_automaton_less: "decode_automaton_state c a = Some st \<Longrightarrow> a < max_automaton_states c"
  by (auto simp: decode_automaton_state_def split: if_splits)

lemma state_own_complete:
  assumes "codec_wf c" and "codec_fits c" and "query_len c = length q"
    and "lev_step D (algorithm c) q (max_distance c) (n, config_of st) inp None w (m, cfg)"
    and "unat i < N" and "N * unat (max_automaton_states c) \<le> 2 ^ 32"
  shows "m = n \<and> (\<exists>a st' target. config_of st' = cfg \<and> decode_automaton_state c a = Some st' \<and>
    encode_product_state c i a = Some target \<and>
    mk_transition x inp None target (f64_of_nat w) \<in> set (state_own c q x i st))"
  using assms(4)
proof (cases rule: lev_step.cases)
  case (delete_step p e)
  then obtain p' e' where st: "st = Normal p' e'" "unat p' = p" "unat e' = e" by (cases st) auto
  have ed: "can_edit c e'" "unat (saturating_add e' 1) = e + 1"
    using delete_step st fits_bounds(2) [OF assms(2)] can_edit_next by (simp_all add: can_edit_iff)
  have "unat p' + 1 < 2 ^ 32" using delete_step st fits_bounds(1) [OF assms(2)] assms(3) by simp
  then obtain np where np: "checked_add p' 1 = Some np" "unat np = unat p' + 1" using advance [of p' 1] by auto
  obtain a where a: "encode_automaton_state c np (saturating_add e' 1) = Some a"
    "decode_automaton_state c a = Some (Normal np (saturating_add e' 1))"
    using encode_fits [OF assms(1,2), of "Normal np (saturating_add e' 1)" 0] np st delete_step assms(3) ed by auto
  obtain target where t: "encode_product_state c i a = Some target"
    using encode_product_room [OF assms(5,6) decode_automaton_less [OF a(2)]] by blast
  have "mk_transition x inp None target (f64_of_nat w) \<in> set (state_own c q x i st)"
    using st np a(1) t ed delete_step
    by (simp add: state_own_def delete_transitions_def encode_transition_target_def f64_of_nat_def)
  then show ?thesis
    using st np ed a t delete_step
    by (intro conjI exI [of _ a] exI [of _ "Normal np (saturating_add e' 1)"] exI [of _ target]) simp_all
next
  case (merge_second_step p e)
  then obtain p' e' where st: "st = MergeSecond p' e'" "unat p' = p" "unat e' = e" by (cases st) auto
  have "unat p' + 2 < 2 ^ 32" using merge_second_step st fits_bounds(1) [OF assms(2)] assms(3) by simp
  then obtain np where np: "checked_add p' 2 = Some np" "unat np = unat p' + 2" using advance [of p' 2] by auto
  obtain a where a: "encode_automaton_state c np e' = Some a" "decode_automaton_state c a = Some (Normal np e')"
    using encode_fits [OF assms(1,2), of "Normal np e'" 0] np st merge_second_step assms(3) by auto
  obtain target where t: "encode_product_state c i a = Some target"
    using encode_product_room [OF assms(5,6) decode_automaton_less [OF a(2)]] by blast
  have "next_index (unat p') (length q) = Some (unat p' + 1)"
    using st merge_second_step fits_bounds(1) [OF assms(2)] assms(3) by (simp add: next_index_eq_Some usize_max_def)
  then have "mk_transition x inp None target (f64_of_nat w) \<in> set (state_own c q x i st)"
    using st np a(1) t merge_second_step
    by (simp add: state_own_def encode_transition_target_def f64_of_nat_def)
  then show ?thesis
    using st np a t merge_second_step
    by (intro conjI exI [of _ a] exI [of _ "Normal np e'"] exI [of _ target]) simp_all
qed

lemma expansion_complete:
  assumes "lev_wf s" and "codec_fits (ls_codec s)" and "lev_at s x y"
    and "(reg_len (ls_registry s) + length (node_edges (ls_dictionary s) (fst y))) *
           unat (max_automaton_states (ls_codec s)) \<le> 2 ^ 32"
    and "source_step s y inp out r z"
  obtains f w ts s' t where "lev_expand_state s x = (Expanded f w ts, s')" and "t \<in> set ts"
    and "t_input t = inp" and "t_output t = out" and "t_weight t = f64_of_nat r" and "lev_at s' (t_to t) z"
    and "reg_len (ls_registry s') \<le> reg_len (ls_registry s) + length (node_edges (ls_dictionary s) (fst y))"
proof -
  let ?D = "ls_dictionary s" and ?c = "ls_codec s" and ?q = "ls_query s"
  obtain i a st where v: "decode_product_state ?c x = Some (i, a)"
    "decode_automaton_state ?c a = Some st" "reg_get_node (ls_registry s) i = Some (fst y)"
    "config_of st = snd y"
    using assms(3) by (auto simp: lev_at_def)
  note wf = lev_wfD [OF assms(1)] and ok = state_ok_decoded [OF lev_wfD(2) [OF assms(1)] v(2)]
  let ?es = "node_edges ?D (fst y)" and ?arcs = "state_arcs ?D ?c ?q st"
  obtain ts0 reg where run: "expand_edges ?c x i (unit_char ?D) ?arcs ?es (ls_registry s) = (ts0, reg)" by force
  let ?ts = "ts0 @ state_own ?c ?q x i st" and ?s = "s\<lparr>ls_registry := reg\<rparr>"
  obtain f w where ex: "lev_expand_state s x = (Expanded f w ?ts, ?s)"
    using lev_expand_valid [OF assms(1) v(1-3)] run by auto
  have small: "\<forall>e \<in> set ?es. \<forall>(inp, out, a, w) \<in> set (?arcs e). a < max_automaton_states ?c"
  proof clarify
    fix u m inp' out' b w'
    assume "(inp', out', b, w') \<in> set (?arcs (u, m))"
    then show "b < max_automaton_states ?c"
      using state_arcs_sound [OF wf(2,3,1) ok] decode_automaton_less by blast
  qed
  note comp = expand_edges_complete [OF wf(4) assms(4) small run]
  have len: "reg_len (ls_registry ?s) \<le> reg_len (ls_registry s) + length ?es" using comp by simp
  have ext: "reg_ext (ls_registry s) reg" using expand_edges_wf [OF wf(4)] run by (metis snd_conv)
  have node: "reg_get_node reg i = Some (fst y)" using ext v(3) by (simp add: reg_ext_def)
  have "\<exists>t \<in> set ?ts. t_input t = inp \<and> t_output t = out \<and> t_weight t = f64_of_nat r \<and> lev_at ?s (t_to t) z"
  proof (cases out)
    case (Some ch)
    have "lev_step ?D (algorithm ?c) ?q (max_distance ?c) (fst y, snd y) inp (Some ch) r (fst z, snd z)"
      using assms(5) Some by (simp add: source_step_def)
    then have child: "child_by ?D (fst y) ch = Some (fst z)"
      and step: "edge_step ?D (algorithm ?c) ?q (max_distance ?c) (snd y) ch (fst z) inp (snd z) r"
      by (auto elim: lev_step.cases)
    obtain u where u: "(u, fst z) \<in> set ?es" "unit_char ?D u = ch" using child by (rule child_by_SomeD)
    obtain b st' where b: "config_of st' = snd z" "decode_automaton_state ?c b = Some st'"
      "(inp, Some ch, b, r) \<in> set (?arcs (u, fst z))"
      using state_arcs_complete [OF wf(2) assms(2) wf(3,1), of st u "fst z" inp "snd z" r] step u(2) v(4) by auto
    obtain j target where j: "reg_get_id reg (node_key_child i ch) = Some j"
      "encode_product_state ?c j b = Some target"
      "mk_transition x inp (Some ch) target (f64_of_nat r) \<in> set ts0"
      using comp u b(3) by fastforce
    have "reg_tracks ?D reg" using expand_edges_sound [OF wf(1,4,5) v(3) subset_refl run] by blast
    then have "reg_get_node reg j = Some (fst z)"
      using reg_tracks_known [OF wf(1) _ node child j(1)] by blast
    then have "lev_at ?s target z"
      using decode_product_of_encode [OF j(2)] b by (simp add: lev_at_def)
    then show ?thesis using j(3) Some by (intro bexI [of _ "mk_transition x inp (Some ch) target (f64_of_nat r)"]) simp_all
  next
    case None
    have step: "lev_step ?D (algorithm ?c) ?q (max_distance ?c) (fst y, config_of st) inp None r (fst z, snd z)"
      using assms(5) None v(4) by (simp add: source_step_def)
    have "unat i < reg_len (ls_registry s)"
      using v(3) node_reg.entry_iff [OF wf(4), of i] by (simp add: not_le [symmetric])
    moreover have "reg_len (ls_registry s) * unat (max_automaton_states ?c) \<le> 2 ^ 32"
      using assms(4) by (simp add: add_mult_distrib)
    ultimately obtain b st' target where o: "fst z = fst y" "config_of st' = snd z"
      "decode_automaton_state ?c b = Some st'" "encode_product_state ?c i b = Some target"
      "mk_transition x inp None target (f64_of_nat r) \<in> set (state_own ?c ?q x i st)"
      using state_own_complete [OF wf(2) assms(2) wf(3) step] by blast
    have "lev_at ?s target z"
      using decode_product_of_encode [OF o(4)] o(1-3) node by (simp add: lev_at_def)
    then show ?thesis using o(5) None by (intro bexI [of _ "mk_transition x inp None target (f64_of_nat r)"]) simp_all
  qed
  then show ?thesis using that [OF ex] len by blast
qed

end
