(* ===== verification/Lev_Distance.thy ===== *)
theory Lev_Distance
  imports Lev_Paths
begin

text \<open>
  The language of the Levenshtein WFST. A run of the lazy WFST expands states one after the other,
  each in the source the last expansion left; its input and output labels spell words and its
  weights add up. Runs are the runs of the abstract machine, these are alignments of the query
  with a dictionary term, and the cheapest alignment costs the recursively defined distance.
\<close>

section \<open>Runs\<close>

inductive lev_run ::
    "('n, 'u) lev_source \<Rightarrow> state_id \<Rightarrow> nat \<Rightarrow> uchar list \<Rightarrow> uchar list \<Rightarrow> nat
     \<Rightarrow> ('n, 'u) lev_source \<Rightarrow> state_id \<Rightarrow> bool" where
  run_start: "lev_run s x 0 [] [] 0 s x"
| run_step: "lev_expand_state s x = (Expanded f w ts, s1) \<Longrightarrow> t \<in> set ts \<Longrightarrow>
    t_weight t = f64_of_nat r \<Longrightarrow> lev_run s1 (t_to t) l ins outs c s2 y \<Longrightarrow>
    lev_run s x (Suc l) (label_word (t_input t) @ ins) (label_word (t_output t) @ outs) (r + c) s2 y"

inductive machine_run ::
    "('n, 'u) dictionary \<Rightarrow> lev_algorithm \<Rightarrow> uchar list \<Rightarrow> nat \<Rightarrow> 'n \<times> lev_config
     \<Rightarrow> nat \<Rightarrow> uchar list \<Rightarrow> uchar list \<Rightarrow> nat \<Rightarrow> 'n \<times> lev_config \<Rightarrow> bool"
  for D a q k where
  machine_start: "machine_run D a q k y 0 [] [] 0 y"
| machine_step: "lev_step D a q k y i out r y' \<Longrightarrow> machine_run D a q k y' l ins outs c z \<Longrightarrow>
    machine_run D a q k y (Suc l) (label_word i @ ins) (label_word out @ outs) (r + c) z"

lemma lev_extD:
  assumes "lev_ext s s'"
  shows "ls_dictionary s' = ls_dictionary s" "ls_codec s' = ls_codec s" "ls_query s' = ls_query s"
  using assms by (simp_all add: lev_ext_def)

definition source_run ::
    "('n, 'u) lev_source \<Rightarrow> 'n \<times> lev_config \<Rightarrow> nat \<Rightarrow> uchar list \<Rightarrow> uchar list \<Rightarrow> nat \<Rightarrow> 'n \<times> lev_config \<Rightarrow> bool" where
  "source_run s = machine_run (ls_dictionary s) (algorithm (ls_codec s)) (ls_query s) (max_distance (ls_codec s))"

lemma source_run_ext: "lev_ext s s' \<Longrightarrow> source_run s' = source_run s"
  by (simp add: source_run_def lev_ext_def)

lemma run_sound:
  "lev_run s x l ins outs c s' x' \<Longrightarrow> lev_wf s \<Longrightarrow> lev_at s x y \<Longrightarrow>
     \<exists>z. source_run s y l ins outs c z \<and> lev_at s' x' z \<and> lev_wf s' \<and> lev_ext s s'"
proof (induction arbitrary: y rule: lev_run.induct)
  case (run_start s x)
  have "source_run s y 0 [] [] 0 y" unfolding source_run_def by (rule machine_start)
  then show ?case using run_start lev.ext_refl by blast
next
  case (run_step s x f w ts s1 t r l ins outs c s2 x2)
  obtain z1 r' where z1: "lev_at s1 (t_to t) z1" "t_weight t = f64_of_nat r'"
    "source_step s y (t_input t) (t_output t) r' z1"
    using expansion_sound [OF run_step.prems(1,2) run_step.hyps(1,2)] by blast
  have s1: "lev_wf s1" "lev_ext s s1" using lev_expand_keeps [OF run_step.prems(1), of x] run_step.hyps(1) by simp_all
  obtain z where z: "source_run s1 z1 l ins outs c z" "lev_at s2 x2 z" "lev_wf s2" "lev_ext s1 s2"
    using run_step.IH [OF s1(1) z1(1)] by blast
  have "r' = r" using z1(2) run_step.hyps(3) by simp
  then have "source_run s y (Suc l) (label_word (t_input t) @ ins) (label_word (t_output t) @ outs) (r + c) z"
    using z(1) z1(3) unfolding source_run_ext [OF s1(2)] unfolding source_run_def source_step_def
    by (blast intro: machine_step)
  then show ?case using z lev.ext_trans [OF s1(2) z(4)] by blast
qed

lemma run_complete:
  assumes "machine_run D a q k y l ins outs c z"
  shows "lev_wf s \<Longrightarrow> lev_at s x y \<Longrightarrow> codec_fits (ls_codec s) \<Longrightarrow> ls_dictionary s = D \<Longrightarrow>
    algorithm (ls_codec s) = a \<Longrightarrow> ls_query s = q \<Longrightarrow> max_distance (ls_codec s) = k \<Longrightarrow>
    (\<forall>n. length (node_edges D n) \<le> B) \<Longrightarrow>
    (reg_len (ls_registry s) + l * B) * unat (max_automaton_states (ls_codec s)) \<le> 2 ^ 32 \<Longrightarrow>
    \<exists>s' x'. lev_run s x l ins outs c s' x' \<and> lev_at s' x' z \<and> lev_wf s' \<and> lev_ext s s'"
  using assms
proof (induction arbitrary: s x rule: machine_run.induct)
  case (machine_start y)
  then show ?case using run_start lev.ext_refl by blast
next
  case (machine_step y i out r y' l ins outs c z)
  let ?M = "unat (max_automaton_states (ls_codec s))"
  have "(reg_len (ls_registry s) + length (node_edges (ls_dictionary s) (fst y))) * ?M
      \<le> (reg_len (ls_registry s) + Suc l * B) * ?M"
    using machine_step.prems(4,8) by (intro mult_le_mono1) (simp add: trans_le_add1)
  then have room: "(reg_len (ls_registry s) + length (node_edges (ls_dictionary s) (fst y))) * ?M \<le> 2 ^ 32"
    using machine_step.prems(9) by linarith
  have step: "source_step s y i out r y'"
    using machine_step.hyps(1) machine_step.prems(4-7) by (simp add: source_step_def)
  obtain f w ts s1 t where ex: "lev_expand_state s x = (Expanded f w ts, s1)" "t \<in> set ts"
    "t_input t = i" "t_output t = out" "t_weight t = f64_of_nat r" "lev_at s1 (t_to t) y'"
    "reg_len (ls_registry s1) \<le> reg_len (ls_registry s) + length (node_edges (ls_dictionary s) (fst y))"
    using expansion_complete [OF machine_step.prems(1,3,2) room step] by blast
  have s1: "lev_wf s1" "lev_ext s s1" using lev_expand_keeps [OF machine_step.prems(1), of x] ex(1) by simp_all
  note same = lev_extD [OF s1(2)]
  have "reg_len (ls_registry s1) \<le> reg_len (ls_registry s) + B"
    using ex(7) machine_step.prems(4,8) by (meson add_le_cancel_left le_trans)
  then have "(reg_len (ls_registry s1) + l * B) * ?M \<le> (reg_len (ls_registry s) + Suc l * B) * ?M"
    by (intro mult_le_mono1) simp
  then have "(reg_len (ls_registry s1) + l * B) * unat (max_automaton_states (ls_codec s1)) \<le> 2 ^ 32"
    unfolding same(2) using machine_step.prems(9) by linarith
  then obtain s' x' where s': "lev_run s1 (t_to t) l ins outs c s' x'" "lev_at s' x' z" "lev_wf s'" "lev_ext s1 s'"
    using machine_step.IH [OF s1(1) ex(6)] machine_step.prems same by auto
  have "lev_run s x (Suc l) (label_word i @ ins) (label_word out @ outs) (r + c) s' x'"
    using run_step [OF ex(1,2,5) s'(1)] ex(3,4) by simp
  then show ?case using s' lev.ext_trans [OF s1(2) s'(4)] by blast
qed

section \<open>Finality\<close>

lemma final_weight_at:
  assumes "lev_wf s" and "lev_at s x (n, m, p, e)"
  shows "final_weight_for_state s x = Some w \<longleftrightarrow>
    m = MNormal \<and> node_is_final (ls_dictionary s) n \<and> p \<le> length (ls_query s) \<and>
    e + (length (ls_query s) - p) \<le> min (max_distance (ls_codec s)) usize_max \<and>
    length (ls_query s) - p \<le> 2 ^ 53 \<and> w = f64_of_nat (length (ls_query s) - p)"
proof -
  obtain i a st where v: "decode_product_state (ls_codec s) x = Some (i, a)"
    "decode_automaton_state (ls_codec s) a = Some st" "reg_get_node (ls_registry s) i = Some n"
    "config_of st = (m, p, e)"
    using assms(2) by (auto simp: lev_at_def)
  show ?thesis
  proof (cases st)
    case (Normal p' e')
    then have "m = MNormal" "p = unat p'" "e = unat e'" using v(4) by simp_all
    then show ?thesis
      using v Normal
      by (auto simp: final_weight_for_state_def normal_final_weight_def remaining_query_chars_def
          usize_checked_sub_def within_max_distance_def usize_checked_add_def bounded_count_to_f64_def)
  qed (use v in \<open>auto simp: final_weight_for_state_def\<close>)
qed

section \<open>Alignments\<close>

text \<open>
  An alignment of a query with a term and its cost: matches are free, the other operations cost 1.
  A transposition swaps two different adjacent characters, a merge reads two characters for one,
  a split reads one for two.
\<close>

inductive align :: "lev_algorithm \<Rightarrow> uchar list \<Rightarrow> uchar list \<Rightarrow> nat \<Rightarrow> bool" for a where
  align_nil: "align a [] [] 0"
| align_match: "align a q t c \<Longrightarrow> align a (x # q) (x # t) c"
| align_substitute: "x \<noteq> y \<Longrightarrow> align a q t c \<Longrightarrow> align a (x # q) (y # t) (c + 1)"
| align_insert: "align a q t c \<Longrightarrow> align a q (y # t) (c + 1)"
| align_delete: "align a q t c \<Longrightarrow> align a (x # q) t (c + 1)"
| align_transpose: "supports_transposition a \<Longrightarrow> x \<noteq> y \<Longrightarrow> align a q t c \<Longrightarrow>
    align a (x # y # q) (y # x # t) (c + 1)"
| align_merge: "supports_merge_split a \<Longrightarrow> align a q t c \<Longrightarrow> align a (x # y # q) (z # t) (c + 1)"
| align_split: "supports_merge_split a \<Longrightarrow> align a q t c \<Longrightarrow> align a (x # q) (y # z # t) (c + 1)"

lemma align_deletes: "align a q [] (length q)"
  by (induction q) (auto intro: align.intros align_delete [where c = "length _", simplified])

text \<open>What a run from a configuration to a normal state says about the rest of the query.\<close>

fun pending :: "lev_algorithm \<Rightarrow> uchar list \<Rightarrow> lev_config \<Rightarrow> uchar list \<Rightarrow> uchar list \<Rightarrow> nat \<Rightarrow> bool" where
  "pending a q (MNormal, p, e) ins outs c = align a (drop p q) outs c"
| "pending a q (MTranspose, p, e) ins outs c =
     (p + 1 < length q \<and> (\<exists>outs'. outs = q ! p # outs' \<and> align a (drop (p + 2) q) outs' c))"
| "pending a q (MMerge, p, e) ins outs c = (p + 1 < length q \<and> align a (drop (p + 2) q) outs c)"
| "pending a q (MSplit, p, e) ins outs c =
     (p < length q \<and> (\<exists>z outs'. outs = z # outs' \<and> align a (drop (p + 1) q) outs' c))"

fun read_from :: "uchar list \<Rightarrow> lev_config \<Rightarrow> uchar list" where
  "read_from q (MNormal, p, e) = drop p q"
| "read_from q (MTranspose, p, e) = drop (p + 1) q"
| "read_from q (MMerge, p, e) = drop (p + 1) q"
| "read_from q (MSplit, p, e) = drop (p + 1) q"

fun cost_of :: "lev_config \<Rightarrow> nat" where
  "cost_of (m, p, e) = e"

lemma drop_nth: "p < length q \<Longrightarrow> drop p q = q ! p # drop (p + 1) q"
  by (simp add: Cons_nth_drop_Suc)

lemma drop_nth2: "p + 1 < length q \<Longrightarrow> drop p q = q ! p # q ! (p + 1) # drop (p + 2) q"
  using drop_nth [of p q] drop_nth [of "p + 1" q] by simp

lemma machine_run_align:
  assumes "machine_run D a q k y l ins outs c z" and "fst (snd z) = MNormal" and "fst (snd (snd z)) \<le> length q"
  shows "pending a q (snd y) ins outs (c + (length q - fst (snd (snd z)))) \<and>
    read_from q (snd y) = ins @ drop (fst (snd (snd z))) q \<and>
    walk D (fst y) outs = Some (fst z) \<and> cost_of (snd z) = cost_of (snd y) + c"
  using assms
proof (induction rule: machine_run.induct)
  case (machine_start y)
  obtain n p e where y: "y = (n, MNormal, p, e)" using machine_start by (cases y) auto
  have "align a (drop p q) [] (length (drop p q))" by (rule align_deletes)
  then show ?case using machine_start by (simp add: y)
next
  case (machine_step y i out r y' l ins outs c z)
  let ?p = "fst (snd (snd z))" let ?c = "c + (length q - ?p)"
  have IH: "pending a q (snd y') ins outs ?c" "read_from q (snd y') = ins @ drop ?p q"
    "walk D (fst y') outs = Some (fst z)" "cost_of (snd z) = cost_of (snd y') + c"
    using machine_step.IH machine_step.prems by simp_all
  from machine_step.hyps(1) show ?case
  proof (cases rule: lev_step.cases)
    case (along_edge n ch m cfg cfg')
    have walk: "walk D (fst y) (label_word out @ outs) = Some (fst z)" using along_edge IH(3) by simp
    from along_edge(5) show ?thesis
    proof (cases rule: edge_step.cases)
      case (match_step p e)
      then show ?thesis using along_edge IH walk drop_nth [of p q] by (auto intro: align_match)
    next
      case (substitute_step p e)
      then show ?thesis
        using along_edge IH walk drop_nth [of p q] align_substitute [of "q ! p" ch a "drop (p + 1) q" outs ?c] by auto
    next
      case (insert_step p e)
      then show ?thesis using along_edge IH walk align_insert [of a "drop p q" outs ?c ch] by auto
    next
      case (transpose_step p e)
      obtain outs' where o: "outs = q ! p # outs'" "align a (drop (p + 2) q) outs' ?c"
        using IH(1) transpose_step along_edge by auto
      have "align a (q ! p # q ! (p + 1) # drop (p + 2) q) (q ! (p + 1) # q ! p # outs') (?c + 1)"
        using transpose_step o(2) by (intro align_transpose) auto
      then show ?thesis
        using transpose_step along_edge IH walk drop_nth2 [of p q] drop_nth [of "p + 1" q] o(1) by auto
    next
      case (merge_step p e)
      have "align a (q ! p # q ! (p + 1) # drop (p + 2) q) (ch # outs) (?c + 1)"
        using merge_step IH(1) along_edge by (intro align_merge) auto
      then show ?thesis
        using merge_step along_edge IH walk drop_nth2 [of p q] drop_nth [of "p + 1" q] by auto
    next
      case (split_step p e)
      obtain z' outs' where o: "outs = z' # outs'" "align a (drop (p + 1) q) outs' ?c"
        using IH(1) split_step along_edge by auto
      have "align a (q ! p # drop (p + 1) q) (ch # z' # outs') (?c + 1)"
        using split_step o(2) by (intro align_split) auto
      then show ?thesis using split_step along_edge IH walk drop_nth [of p q] o(1) by auto
    next
      case (transpose_second_step p e)
      then show ?thesis using along_edge IH walk drop_nth [of "p + 1" q] by auto
    next
      case (split_second_step p e)
      then show ?thesis using along_edge IH walk by auto
    qed
  next
    case (delete_step p e n)
    then show ?thesis
      using IH drop_nth [of p q] align_delete [of a "drop (p + 1) q" outs ?c "q ! p"] by auto
  next
    case (merge_second_step p e n)
    then show ?thesis using IH drop_nth [of "p + 1" q] by auto
  qed
qed

lemma machine_run_of_align:
  assumes "align a qs ts c"
  shows "p \<le> length q \<Longrightarrow> drop p q = qs \<Longrightarrow> walk D n ts = Some n' \<Longrightarrow> e + c \<le> k \<Longrightarrow>
    \<exists>l. l \<le> 2 * (length qs + length ts) \<and>
      machine_run D a q k (n, MNormal, p, e) l qs ts c (n', MNormal, length q, e + c)"
  using assms
proof (induction arbitrary: p n e rule: align.induct)
  case align_nil
  then have "p = length q" "n = n'" by simp_all
  then show ?case using machine_start by (metis add.right_neutral le0)
next
  case (align_match qs ts c x)
  then have p: "p < length q" by (metis drop_all le_neq_implies_less list.distinct(1))
  then have x: "q ! p = x" "drop (p + 1) q = qs" using align_match.prems(2) drop_nth [of p q] by simp_all
  obtain m where m: "child_by D n x = Some m" "walk D m ts = Some n'"
    using align_match.prems(3) by (auto split: option.splits)
  obtain l where l: "l \<le> 2 * (length qs + length ts)"
    "machine_run D a q k (m, MNormal, p + 1, e) l qs ts c (n', MNormal, length q, e + c)"
    using align_match.IH [of "p + 1" m e] p x m align_match.prems(4) by auto
  have "lev_step D a q k (n, MNormal, p, e) (Some x) (Some x) 0 (m, MNormal, p + 1, e)"
    using along_edge [OF m(1), of a q k _ "Some x"] match_step [OF p x(1), of e k D a m] x(1) align_match.prems(4) by simp
  from machine_step [OF this l(2)] show ?case using l(1) by (intro exI [of _ "Suc l"]) simp
next
  case (align_substitute x y qs ts c)
  then have p: "p < length q" by (metis drop_all le_neq_implies_less list.distinct(1))
  then have x: "q ! p = x" "drop (p + 1) q = qs" using align_substitute.prems(2) drop_nth [of p q] by simp_all
  obtain m where m: "child_by D n y = Some m" "walk D m ts = Some n'"
    using align_substitute.prems(3) by (auto split: option.splits)
  obtain l where l: "l \<le> 2 * (length qs + length ts)"
    "machine_run D a q k (m, MNormal, p + 1, e + 1) l qs ts c (n', MNormal, length q, e + 1 + c)"
    using align_substitute.IH [of "p + 1" m "e + 1"] p x m align_substitute.prems(4) by auto
  have "lev_step D a q k (n, MNormal, p, e) (Some x) (Some y) 1 (m, MNormal, p + 1, e + 1)"
    using along_edge [OF m(1), of a q k _ "Some x"] substitute_step [OF p, of y e k D a m] x(1)
      align_substitute.prems(4) align_substitute.hyps(1) by simp
  from machine_step [OF this l(2)] show ?case using l(1) by (intro exI [of _ "Suc l"]) simp
next
  case (align_insert qs ts c y)
  obtain m where m: "child_by D n y = Some m" "walk D m ts = Some n'"
    using align_insert.prems(3) by (auto split: option.splits)
  obtain l where l: "l \<le> 2 * (length qs + length ts)"
    "machine_run D a q k (m, MNormal, p, e + 1) l qs ts c (n', MNormal, length q, e + 1 + c)"
    using align_insert.IH [of p m "e + 1"] m align_insert.prems by auto
  have "lev_step D a q k (n, MNormal, p, e) None (Some y) 1 (m, MNormal, p, e + 1)"
    using along_edge [OF m(1) insert_step [of p q e k D a y m]] align_insert.prems(1,4) by simp
  from machine_step [OF this l(2)] show ?case using l(1) by (intro exI [of _ "Suc l"]) simp
next
  case (align_delete qs ts c x)
  then have p: "p < length q" by (metis drop_all le_neq_implies_less list.distinct(1))
  then have x: "q ! p = x" "drop (p + 1) q = qs" using align_delete.prems(2) drop_nth [of p q] by simp_all
  obtain l where l: "l \<le> 2 * (length qs + length ts)"
    "machine_run D a q k (n, MNormal, p + 1, e + 1) l qs ts c (n', MNormal, length q, e + 1 + c)"
    using align_delete.IH [of "p + 1" n "e + 1"] p x align_delete.prems(3,4) by auto
  have "lev_step D a q k (n, MNormal, p, e) (Some x) None 1 (n, MNormal, p + 1, e + 1)"
    using delete_step [OF p, of e k D a n] x(1) align_delete.prems(4) by simp
  from machine_step [OF this l(2)] show ?case using l(1) by (intro exI [of _ "Suc l"]) simp
next
  case (align_transpose x y qs ts c)
  have p: "p + 1 < length q"
  proof -
    have "length (drop p q) = Suc (Suc (length qs))" using align_transpose.prems(2) by simp
    then show ?thesis by simp
  qed
  have x: "q ! p = x" "q ! (p + 1) = y" "drop (p + 2) q = qs"
    using align_transpose.prems(2) drop_nth2 [OF p] by simp_all
  obtain m m2 where m: "child_by D n y = Some m" "child_by D m x = Some m2" "walk D m2 ts = Some n'"
    using align_transpose.prems(3) by (auto split: option.splits)
  obtain l where l: "l \<le> 2 * (length qs + length ts)"
    "machine_run D a q k (m2, MNormal, p + 2, e + 1) l qs ts c (n', MNormal, length q, e + 1 + c)"
    using align_transpose.IH [of "p + 2" m2 "e + 1"] p x m align_transpose.prems(4) by auto
  have "lev_step D a q k (n, MNormal, p, e) (Some x) (Some y) 1 (m, MTranspose, p, e + 1)"
    using along_edge [OF m(1), of a q k _ "Some x"] transpose_step [of a p q e k y D m] x p m(2)
      align_transpose.prems(4) align_transpose.hyps(1,2) by simp
  moreover have "lev_step D a q k (m, MTranspose, p, e + 1) (Some y) (Some x) 0 (m2, MNormal, p + 2, e + 1)"
    using along_edge [OF m(2), of a q k _ "Some y"] transpose_second_step [OF p x(1), of "e + 1" k D a m2] x(2)
      align_transpose.prems(4) by simp
  ultimately show ?case
    using machine_step [OF _ machine_step [OF _ l(2)]] l(1) by (fastforce intro!: exI [of _ "Suc (Suc l)"])
next
  case (align_merge qs ts c x y z)
  have p: "p + 1 < length q"
  proof -
    have "length (drop p q) = Suc (Suc (length qs))" using align_merge.prems(2) by simp
    then show ?thesis by simp
  qed
  have x: "q ! p = x" "q ! (p + 1) = y" "drop (p + 2) q = qs"
    using align_merge.prems(2) drop_nth2 [OF p] by simp_all
  obtain m where m: "child_by D n z = Some m" "walk D m ts = Some n'"
    using align_merge.prems(3) by (auto split: option.splits)
  obtain l where l: "l \<le> 2 * (length qs + length ts)"
    "machine_run D a q k (m, MNormal, p + 2, e + 1) l qs ts c (n', MNormal, length q, e + 1 + c)"
    using align_merge.IH [of "p + 2" m "e + 1"] p x m align_merge.prems(4) by auto
  have "lev_step D a q k (n, MNormal, p, e) (Some x) (Some z) 1 (m, MMerge, p, e + 1)"
    using along_edge [OF m(1), of a q k _ "Some x"] merge_step [of a p q e k D z m] x p
      align_merge.prems(4) align_merge.hyps(1) by simp
  moreover have "lev_step D a q k (m, MMerge, p, e + 1) (Some y) None 0 (m, MNormal, p + 2, e + 1)"
    using merge_second_step [OF p, of "e + 1" k D a m] x(2) align_merge.prems(4) by simp
  ultimately show ?case
    using machine_step [OF _ machine_step [OF _ l(2)]] l(1) by (fastforce intro!: exI [of _ "Suc (Suc l)"])
next
  case (align_split qs ts c x y z)
  then have p: "p < length q" by (metis drop_all le_neq_implies_less list.distinct(1))
  then have x: "q ! p = x" "drop (p + 1) q = qs" using align_split.prems(2) drop_nth [of p q] by simp_all
  obtain m m2 where m: "child_by D n y = Some m" "child_by D m z = Some m2" "walk D m2 ts = Some n'"
    using align_split.prems(3) by (auto split: option.splits)
  have edges: "node_edges D m \<noteq> []" using m(2) by (auto simp: child_by_def)
  obtain l where l: "l \<le> 2 * (length qs + length ts)"
    "machine_run D a q k (m2, MNormal, p + 1, e + 1) l qs ts c (n', MNormal, length q, e + 1 + c)"
    using align_split.IH [of "p + 1" m2 "e + 1"] p x m align_split.prems(4) by auto
  have "lev_step D a q k (n, MNormal, p, e) (Some x) (Some y) 1 (m, MSplit, p, e + 1)"
    using along_edge [OF m(1), of a q k _ "Some x"] split_step [of a p q e k D m y] x p edges
      align_split.prems(4) align_split.hyps(1) by simp
  moreover have "lev_step D a q k (m, MSplit, p, e + 1) None (Some z) 0 (m2, MNormal, p + 1, e + 1)"
    using along_edge [OF m(2) split_second_step [OF p, of "e + 1" k D a z m2]] align_split.prems(4) by simp
  ultimately show ?case
    using machine_step [OF _ machine_step [OF _ l(2)]] l(1) by (fastforce intro!: exI [of _ "Suc (Suc l)"])
qed

section \<open>The distance\<close>

text \<open>
  The cheapest operation at the front of both words, over everything the algorithm allows.
\<close>

function edit_dist :: "lev_algorithm \<Rightarrow> uchar list \<Rightarrow> uchar list \<Rightarrow> nat" where
  "edit_dist a [] t = length t"
| "edit_dist a (x # q) [] = length (x # q)"
| "edit_dist a (x # q) (y # t) =
     min_list ([edit_dist a q t + (if x = y then 0 else 1), edit_dist a (x # q) t + 1, edit_dist a q (y # t) + 1] @
       (case (q, t) of
          (x2 # q2, y2 # t2) \<Rightarrow>
            if supports_transposition a \<and> x \<noteq> y \<and> x2 = y \<and> y2 = x then [edit_dist a q2 t2 + 1] else []
        | _ \<Rightarrow> []) @
       (case q of x2 # q2 \<Rightarrow> if supports_merge_split a then [edit_dist a q2 t + 1] else [] | [] \<Rightarrow> []) @
       (case t of y2 # t2 \<Rightarrow> if supports_merge_split a then [edit_dist a q t2 + 1] else [] | [] \<Rightarrow> []))"
  by pat_completeness auto
termination by (relation "measure (\<lambda>(a, q, t). length q + length t)") auto

text \<open>Without the extensions this is the textbook recursion of the Levenshtein distance.\<close>

fun levenshtein :: "uchar list \<Rightarrow> uchar list \<Rightarrow> nat" where
  "levenshtein [] t = length t"
| "levenshtein (x # q) [] = length (x # q)"
| "levenshtein (x # q) (y # t) =
     min (levenshtein q t + (if x = y then 0 else 1))
       (min (levenshtein (x # q) t + 1) (levenshtein q (y # t) + 1))"

declare edit_dist.simps(3) [simp del]

text \<open>The value is one of the applicable candidates and at most each of them.\<close>

lemma min_list_le: "n \<in> set xs \<Longrightarrow> min_list xs \<le> (n :: nat)"
  by (subst min_list_Min) auto

lemma min_list_in: "xs \<noteq> [] \<Longrightarrow> min_list xs \<in> set (xs :: nat list)"
  by (simp add: min_list_Min)

definition candidates :: "lev_algorithm \<Rightarrow> uchar \<Rightarrow> uchar list \<Rightarrow> uchar \<Rightarrow> uchar list \<Rightarrow> nat list" where
  "candidates a x q y t =
    [edit_dist a q t + (if x = y then 0 else 1), edit_dist a (x # q) t + 1, edit_dist a q (y # t) + 1] @
    (case (q, t) of
       (x2 # q2, y2 # t2) \<Rightarrow>
         if supports_transposition a \<and> x \<noteq> y \<and> x2 = y \<and> y2 = x then [edit_dist a q2 t2 + 1] else []
     | _ \<Rightarrow> []) @
    (case q of x2 # q2 \<Rightarrow> if supports_merge_split a then [edit_dist a q2 t + 1] else [] | [] \<Rightarrow> []) @
    (case t of y2 # t2 \<Rightarrow> if supports_merge_split a then [edit_dist a q t2 + 1] else [] | [] \<Rightarrow> [])"

lemma edit_dist_eq: "edit_dist a (x # q) (y # t) = min_list (candidates a x q y t)"
  unfolding edit_dist.simps(3) candidates_def ..

lemma in_if: "n \<in> set (if c then xs else ys) \<longleftrightarrow> (if c then n \<in> set xs else n \<in> set ys)"
  by (rule if_distrib)

lemma in_candidates:
  "n \<in> set (candidates a x q y t) \<longleftrightarrow>
     n = edit_dist a q t + (if x = y then 0 else 1) \<or> n = edit_dist a (x # q) t + 1 \<or> n = edit_dist a q (y # t) + 1 \<or>
     (\<exists>q2 t2. supports_transposition a \<and> x \<noteq> y \<and> q = y # q2 \<and> t = x # t2 \<and> n = edit_dist a q2 t2 + 1) \<or>
     (\<exists>x2 q2. supports_merge_split a \<and> q = x2 # q2 \<and> n = edit_dist a q2 t + 1) \<or>
     (\<exists>y2 t2. supports_merge_split a \<and> t = y2 # t2 \<and> n = edit_dist a q t2 + 1)"
  unfolding candidates_def set_append Un_iff
  by (cases q; cases t)
    (simp_all only: list.case prod.case in_if list.set insert_iff empty_iff list.inject list.distinct, auto)

lemma candidates_ne: "candidates a x q y t \<noteq> []"
  by (simp add: candidates_def)

lemma edit_dist_candidates:
  "edit_dist a (x # q) (y # t) \<le> edit_dist a q t + (if x = y then 0 else 1) \<and>
   edit_dist a (x # q) (y # t) \<le> edit_dist a (x # q) t + 1 \<and>
   edit_dist a (x # q) (y # t) \<le> edit_dist a q (y # t) + 1 \<and>
   (\<forall>q2 t2. supports_transposition a \<longrightarrow> x \<noteq> y \<longrightarrow> q = y # q2 \<longrightarrow> t = x # t2 \<longrightarrow>
      edit_dist a (x # q) (y # t) \<le> edit_dist a q2 t2 + 1) \<and>
   (\<forall>x2 q2. supports_merge_split a \<longrightarrow> q = x2 # q2 \<longrightarrow> edit_dist a (x # q) (y # t) \<le> edit_dist a q2 t + 1) \<and>
   (\<forall>y2 t2. supports_merge_split a \<longrightarrow> t = y2 # t2 \<longrightarrow> edit_dist a (x # q) (y # t) \<le> edit_dist a q t2 + 1)"
  unfolding edit_dist_eq [of a x q y t]
  by (intro conjI allI impI min_list_le) (simp_all only: in_candidates, blast+)

lemma edit_dist_attained:
  "edit_dist a (x # q) (y # t) = edit_dist a q t + (if x = y then 0 else 1) \<or>
   edit_dist a (x # q) (y # t) = edit_dist a (x # q) t + 1 \<or>
   edit_dist a (x # q) (y # t) = edit_dist a q (y # t) + 1 \<or>
   (\<exists>q2 t2. supports_transposition a \<and> x \<noteq> y \<and> q = y # q2 \<and> t = x # t2 \<and>
      edit_dist a (x # q) (y # t) = edit_dist a q2 t2 + 1) \<or>
   (\<exists>x2 q2. supports_merge_split a \<and> q = x2 # q2 \<and> edit_dist a (x # q) (y # t) = edit_dist a q2 t + 1) \<or>
   (\<exists>y2 t2. supports_merge_split a \<and> t = y2 # t2 \<and> edit_dist a (x # q) (y # t) = edit_dist a q t2 + 1)"
  using min_list_in [OF candidates_ne [of a x q y t]] unfolding edit_dist_eq [of a x q y t] in_candidates .

lemma edit_dist_standard: "edit_dist standard q t = levenshtein q t"
proof (induction q t rule: levenshtein.induct)
  case (3 x q y t)
  have flags: "supports_transposition standard = False" "supports_merge_split standard = False"
    by (simp_all add: standard_def)
  have "edit_dist standard (x # q) (y # t) =
      min (edit_dist standard q t + (if x = y then 0 else 1))
        (min (edit_dist standard (x # q) t + 1) (edit_dist standard q (y # t) + 1))"
    unfolding edit_dist.simps(3)
    by (cases q; cases t) (simp_all only: flags list.case prod.case simp_thms if_False append_Nil append_Nil2 min_list.simps)
  then show ?case using 3 by simp
qed simp_all

lemma align_inserts: "align a [] t (length t)"
  by (induction t) (auto intro: align.intros align_insert [where c = "length _", simplified])

lemma edit_dist_step_match: "edit_dist a (x # q) (x # t) \<le> edit_dist a q t"
  using edit_dist_candidates [of a x q x t] by simp

lemma edit_dist_step_substitute: "edit_dist a (x # q) (y # t) \<le> edit_dist a q t + 1"
  using edit_dist_candidates [of a x q y t] by (simp split: if_splits)

lemma edit_dist_step_insert: "edit_dist a q (y # t) \<le> edit_dist a q t + 1"
  using edit_dist_candidates [of a _ _ y t] by (cases q) simp_all

lemma edit_dist_step_delete: "edit_dist a (x # q) t \<le> edit_dist a q t + 1"
proof (cases t)
  case Nil
  then show ?thesis by (cases q) simp_all
next
  case (Cons y t')
  then show ?thesis using edit_dist_candidates [of a x q y t'] by simp
qed

lemma edit_dist_step_transpose:
  "supports_transposition a \<Longrightarrow> x \<noteq> y \<Longrightarrow> edit_dist a (x # y # q) (y # x # t) \<le> edit_dist a q t + 1"
  using edit_dist_candidates [of a x "y # q" y "x # t"] by blast

lemma edit_dist_step_merge: "supports_merge_split a \<Longrightarrow> edit_dist a (x # y # q) (z # t) \<le> edit_dist a q t + 1"
  using edit_dist_candidates [of a x "y # q" z t] by blast

lemma edit_dist_step_split: "supports_merge_split a \<Longrightarrow> edit_dist a (x # q) (y # z # t) \<le> edit_dist a q t + 1"
  using edit_dist_candidates [of a x q y "z # t"] by blast

lemmas edit_dist_steps = edit_dist_step_match edit_dist_step_substitute edit_dist_step_insert
  edit_dist_step_delete edit_dist_step_transpose edit_dist_step_merge edit_dist_step_split

lemma edit_dist_le_align: "align a q t c \<Longrightarrow> edit_dist a q t \<le> c"
proof (induction rule: align.induct)
  case align_nil
  show ?case by simp
next
  case (align_match q t c x)
  then show ?case using edit_dist_step_match order_trans by blast
qed (meson edit_dist_steps order_trans add_le_mono1)+

lemma align_edit_dist: "align a q t (edit_dist a q t)"
proof (induction "length q + length t" arbitrary: q t rule: less_induct)
  case less
  show ?case
  proof (cases q)
    case Nil
    then show ?thesis using align_inserts by simp
  next
    case q: (Cons x q')
    show ?thesis
    proof (cases t)
      case Nil
      then show ?thesis using align_deletes [of a q] q by simp
    next
      case t: (Cons y t')
      have IH: "align a q2 t2 (edit_dist a q2 t2)" if "length q2 + length t2 < length q + length t" for q2 t2
        using less that by blast
      show ?thesis
        using edit_dist_attained [of a x q' y t'] IH align_match align_substitute align_insert align_delete
          align_transpose align_merge align_split
        unfolding q t by (elim disjE exE conjE) (auto split: if_splits)
    qed
  qed
qed

section \<open>Acceptance\<close>

definition lev_accepts :: "('n, 'u) lev_source \<Rightarrow> uchar list \<Rightarrow> nat \<Rightarrow> bool" where
  "lev_accepts s t cost \<longleftrightarrow>
     (\<exists>l ins c s' x r. lev_run s (lev_start s) l ins t c s' x \<and>
        final_weight_for_state s' x = Some (f64_of_nat r) \<and> cost = c + r)"

lemma lev_at_start:
  assumes "dictionary_ok D"
  shows "lev_at (lev_with_algorithm D q k a) 0 (dict_root D, MNormal, 0, 0)"
proof -
  let ?c = "codec_new (length q) k a"
  have wf: "codec_wf ?c" by simp
  have "max_automaton_states ?c \<noteq> 0" by (rule max_automaton_states_pos [OF wf])
  then have p: "decode_product_state ?c 0 = Some (0, 0)" by (simp add: decode_product_state_def decode_def)
  have "encode_state ?c (Normal 0 0) = Some 0"
    using normal_states_bounds(1) [OF wf] by (simp add: width_simps)
  then have "decode_automaton_state ?c 0 = Some (Normal 0 0)"
    using codec_exact [OF wf, of "Normal 0 0" 0] by (simp add: state_ok_def)
  then show ?thesis
    using p by (simp add: lev_at_def lev_with_algorithm_def reg_new_eq reg_get_node_def nth_opt_def)
qed

lemma codec_new_fields:
  "query_len (codec_new n k a) = n" "max_distance (codec_new n k a) = k" "algorithm (codec_new n k a) = a"
  by (simp_all add: codec_new_def Let_def)

lemma lev_sound:
  assumes "dictionary_ok D"
    and "lev_run (lev_with_algorithm D q k a) 0 l ins t c s x"
    and "final_weight_for_state s x = Some (f64_of_nat r)"
  shows "dict_accepts D t \<and> (\<exists>rest. q = ins @ rest \<and> length rest = r) \<and> align a q t (c + r) \<and>
    edit_dist a q t \<le> c + r \<and> c + r \<le> k"
proof -
  let ?s = "lev_with_algorithm D q k a"
  have wf: "lev_wf ?s" by (rule lev_wf_new [OF assms(1)])
  have fields: "ls_dictionary ?s = D" "ls_query ?s = q" "algorithm (ls_codec ?s) = a" "max_distance (ls_codec ?s) = k"
    by (simp_all add: lev_with_algorithm_def codec_new_fields)
  obtain z where z: "source_run ?s (dict_root D, MNormal, 0, 0) l ins t c z" "lev_at s x z" "lev_wf s" "lev_ext ?s s"
    using run_sound [OF assms(2) wf lev_at_start [OF assms(1)]] by blast
  obtain n m p e where zz: "z = (n, m, p, e)" by (cases z) auto
  have fin: "m = MNormal" "node_is_final D n" "p \<le> length q" "e + (length q - p) \<le> k" "r = length q - p"
    using final_weight_at [OF z(3), of x n m p e "f64_of_nat r"] z(2) assms(3) lev_extD [OF z(4)] fields zz by auto
  have run: "machine_run D a q k (dict_root D, MNormal, 0, 0) l ins t c (n, MNormal, p, e)"
    using z(1) fields zz fin(1) by (simp add: source_run_def)
  have "align a q t (c + r)" "q = ins @ drop p q" "walk D (dict_root D) t = Some n" "e = c"
    using machine_run_align [OF run] fin(3,5) by simp_all
  then show ?thesis
    using fin edit_dist_le_align by (auto simp: dict_accepts_def intro!: exI [of _ "drop p q"])
qed

text \<open>
  Nothing is missed: if the identifier space holds the nodes a path can meet (at most \<open>B\<close> children
  each), every alignment of the query with a term within the bound is an accepting path.
\<close>

lemma lev_complete:
  assumes "dictionary_ok D" and "dict_accepts D t" and "align a q t cost" and "cost \<le> k"
    and "codec_fits (codec_new (length q) k a)" and "\<forall>n. length (node_edges D n) \<le> B"
    and "(1 + 2 * (length q + length t) * B) * unat (max_automaton_states (codec_new (length q) k a)) \<le> 2 ^ 32"
  shows "lev_accepts (lev_with_algorithm D q k a) t cost"
proof -
  let ?s = "lev_with_algorithm D q k a" and ?c = "codec_new (length q) k a"
  have wf: "lev_wf ?s" by (rule lev_wf_new [OF assms(1)])
  have fields: "ls_dictionary ?s = D" "ls_query ?s = q" "ls_codec ?s = ?c"
    by (simp_all add: lev_with_algorithm_def)
  obtain n where n: "walk D (dict_root D) t = Some n" "node_is_final D n"
    using assms(2) by (auto simp: dict_accepts_def split: option.splits)
  obtain l where l: "l \<le> 2 * (length q + length t)"
    "machine_run D a q k (dict_root D, MNormal, 0, 0) l q t cost (n, MNormal, length q, cost)"
    using machine_run_of_align [OF assms(3), of 0 q D "dict_root D" n 0 k] n(1) assms(4) by auto
  have one: "reg_len (ls_registry ?s) = 1" by (simp add: lev_with_algorithm_def reg_new_eq reg_len_def)
  have "(1 + l * B) * unat (max_automaton_states ?c) \<le> (1 + 2 * (length q + length t) * B) * unat (max_automaton_states ?c)"
    using l(1) by (intro mult_le_mono1 add_le_mono) simp_all
  then have room: "(reg_len (ls_registry ?s) + l * B) * unat (max_automaton_states (ls_codec ?s)) \<le> 2 ^ 32"
    unfolding one fields(3) using assms(7) by linarith
  obtain s' x where r: "lev_run ?s 0 l q t cost s' x" "lev_at s' x (n, MNormal, length q, cost)" "lev_wf s'" "lev_ext ?s s'"
    using run_complete [OF l(2) wf lev_at_start [OF assms(1)] _ _ _ _ _ assms(6) room] assms(5) fields
    by (auto simp: codec_new_fields)
  have "cost \<le> usize_max"
    using fits_bounds(2) [OF assms(5)] assms(4) by (simp add: codec_new_fields usize_max_def)
  then have "final_weight_for_state s' x = Some (f64_of_nat 0)"
    using final_weight_at [OF r(3,2), of "f64_of_nat 0"] lev_extD [OF r(4)] fields n(2) assms(4)
    by (simp add: codec_new_fields)
  moreover have "cost = cost + 0" by simp
  ultimately show ?thesis using r(1) unfolding lev_accepts_def lev_start_def by blast
qed

text \<open>
  C1: the least weight with which the WFST accepts a term is its edit distance to the query: with
  enough identifiers, exactly the dictionary's terms within distance \<open>k\<close> are accepted, and the
  cheapest path of each costs the distance (for the standard algorithm, the Levenshtein distance).
\<close>

theorem lev_weight_is_distance:
  assumes "dictionary_ok D" and "codec_fits (codec_new (length q) k a)" and "\<forall>n. length (node_edges D n) \<le> B"
    and "(1 + 2 * (length q + length t) * B) * unat (max_automaton_states (codec_new (length q) k a)) \<le> 2 ^ 32"
  shows "((\<exists>cost. lev_accepts (lev_with_algorithm D q k a) t cost) \<longleftrightarrow> dict_accepts D t \<and> edit_dist a q t \<le> k) \<and>
    (\<forall>cost. lev_accepts (lev_with_algorithm D q k a) t cost \<longrightarrow>
       lev_accepts (lev_with_algorithm D q k a) t (edit_dist a q t) \<and> edit_dist a q t \<le> cost) \<and>
    (a = standard \<longrightarrow> edit_dist a q t = levenshtein q t)"
proof -
  have sound: "dict_accepts D t \<and> edit_dist a q t \<le> cost \<and> edit_dist a q t \<le> k"
    if acc: "lev_accepts (lev_with_algorithm D q k a) t cost" for cost
  proof -
    obtain l ins c s x r where "lev_run (lev_with_algorithm D q k a) 0 l ins t c s x"
      "final_weight_for_state s x = Some (f64_of_nat r)" "cost = c + r"
      using acc unfolding lev_accepts_def lev_start_def by blast
    then show ?thesis using lev_sound [OF assms(1)] by fastforce
  qed
  have complete: "lev_accepts (lev_with_algorithm D q k a) t (edit_dist a q t)"
    if "dict_accepts D t" "edit_dist a q t \<le> k"
    using lev_complete [OF assms(1) that(1) align_edit_dist that(2) assms(2-4)] .
  show ?thesis using sound complete edit_dist_standard by blast
qed

theorem lev_weight_is_distance_witness:
  "lev_accepts (lev_new ab_dictionary [97, 99] 2) [97, 98] 1 \<and>
   \<not> (\<exists>cost. lev_accepts (lev_new ab_dictionary [97, 99] 2) [97] cost)"
proof -
  let ?c = "codec_new (length [97 :: nat, 99]) 2 standard"
  have fits: "codec_fits ?c"
    by (simp add: codec_fits_def codec_new_fields continuation_state_kinds_def standard_def)
  have "unat (max_automaton_states ?c) = 9"
    using normal_states_fit [OF codec_wf_new fits]
    by (simp add: codec_new_fields continuation_state_kinds_def standard_def)
  then have room: "(1 + 2 * (length [97, 99 :: nat] + length t) * 1) * unat (max_automaton_states ?c) \<le> 2 ^ 32"
    if "length t \<le> 2" for t :: "nat list" using that by simp
  have edges: "\<forall>n. length (node_edges ab_dictionary n) \<le> 1"
    by (simp add: ab_dictionary_def ab_edges_def)
  have dist: "edit_dist standard [97, 99] [97, 98] = 1" by (simp add: edit_dist_standard)
  note main = lev_weight_is_distance [OF ab_dictionary_ok fits edges room]
  have "\<exists>cost. lev_accepts (lev_with_algorithm ab_dictionary [97, 99] 2 standard) [97, 98] cost"
    using main [of "[97, 98]"] dist ab_dictionary_accepts by auto
  then have "lev_accepts (lev_with_algorithm ab_dictionary [97, 99] 2 standard) [97, 98] 1"
    using main [of "[97, 98]"] dist by auto
  moreover have "\<not> (\<exists>cost. lev_accepts (lev_with_algorithm ab_dictionary [97, 99] 2 standard) [97] cost)"
    using main [of "[97]"] ab_dictionary_accepts by auto
  ultimately show ?thesis by (simp add: lev_new_def)
qed

text \<open>
  C3: what the lazy Levenshtein WFST accepts is right, for every algorithm and whatever fits in the
  identifier space: an accepting path with output word \<open>t\<close> exists only for a term \<open>t\<close> of the
  dictionary, its input labels are a prefix of the query, and path weight plus final weight are the
  cost of an alignment of the query with \<open>t\<close>, within the bound.
\<close>

theorem lev_accepts_sound:
  assumes "dictionary_ok D"
    and "lev_run (lev_with_algorithm D q k a) 0 l ins t c s x"
    and "final_weight_for_state s x = Some (f64_of_nat r)"
  shows "dict_accepts D t \<and> (\<exists>rest. q = ins @ rest \<and> length rest = r) \<and> align a q t (c + r) \<and>
    edit_dist a q t \<le> c + r \<and> c + r \<le> k"
  using assms by (rule lev_sound)

theorem lev_accepts_sound_witness:
  "\<exists>l ins c s x r. lev_run (lev_with_algorithm ab_dictionary [97, 98] 1 standard) 0 l ins [97, 98] c s x \<and>
     final_weight_for_state s x = Some (f64_of_nat r) \<and> c + r = 0 \<and> align standard [97, 98] [97, 98] (c + r)"
proof -
  let ?c = "codec_new (length [97 :: nat, 98]) 1 standard"
  have fits: "codec_fits ?c"
    by (simp add: codec_fits_def codec_new_fields continuation_state_kinds_def standard_def)
  have "unat (max_automaton_states ?c) = 6"
    using normal_states_fit [OF codec_wf_new fits]
    by (simp add: codec_new_fields continuation_state_kinds_def standard_def)
  then have room: "(1 + 2 * (length [97, 98 :: nat] + length [97, 98 :: nat]) * 1) * unat (max_automaton_states ?c) \<le> 2 ^ 32"
    by simp
  have "lev_accepts (lev_with_algorithm ab_dictionary [97, 98] 1 standard) [97, 98] 0"
    using lev_complete [OF ab_dictionary_ok _ _ _ fits _ room, of 0] ab_dictionary_accepts
      align_match [OF align_match [OF align_nil]]
    by (simp add: ab_dictionary_def ab_edges_def)
  then obtain l ins c s x r where "lev_run (lev_with_algorithm ab_dictionary [97, 98] 1 standard) 0 l ins [97, 98] c s x"
    "final_weight_for_state s x = Some (f64_of_nat r)" "0 = c + r"
    unfolding lev_accepts_def lev_start_def by blast
  with lev_accepts_sound [OF ab_dictionary_ok this(1,2)] show ?thesis by metis
qed

end
