(* ===== verification/Fzf_Core.thy ===== *)
theory Fzf_Core
  imports Duallity_Prelude "HOL-Library.Sublist"
begin

text \<open>
  \<open>src/fzf_support.rs\<close>: the incremental state of fzf's \<open>FuzzyMatchV2\<close> recurrence. A column holds
  a cell per query character; \<open>advance\<close> reads one candidate character. Scores are \<open>i32\<close> and
  saturate. The Unicode tables of the standard library are a parameter beyond ASCII
  (\<open>char_tables\<close>); every theorem holds for all of them.
\<close>

section \<open>Saturating \<open>i32\<close> arithmetic\<close>

type_synonym i32 = int

definition i32_max :: i32 where
  "i32_max = 2 ^ 31 - 1"

definition i32_min :: i32 where
  "i32_min = - (2 ^ 31)"

definition i32_sat :: "int \<Rightarrow> i32" where
  "i32_sat x = max i32_min (min i32_max x)"

definition i32_sat_add :: "i32 \<Rightarrow> i32 \<Rightarrow> i32" where
  "i32_sat_add a b = i32_sat (a + b)"

definition i32_sat_mul :: "i32 \<Rightarrow> i32 \<Rightarrow> i32" where
  "i32_sat_mul a b = i32_sat (a * b)"

definition i32_checked_sub :: "i32 \<Rightarrow> i32 \<Rightarrow> i32 option" where
  "i32_checked_sub a b = (if i32_min \<le> a - b \<and> a - b \<le> i32_max then Some (a - b) else None)"

text \<open>\<open>i32::try_from(n).unwrap_or(i32::MAX)\<close>.\<close>

definition i32_of_usize :: "usize \<Rightarrow> i32" where
  "i32_of_usize n = (if int n \<le> i32_max then int n else i32_max)"

lemmas i32_defs = i32_sat_add_def i32_sat_mul_def i32_sat_def i32_max_def i32_min_def i32_of_usize_def

section \<open>Configuration\<close>

definition score_match :: i32 where "score_match = 16"
definition score_gap_start :: i32 where "score_gap_start = - 3"
definition score_gap_extension :: i32 where "score_gap_extension = - 1"
definition bonus_boundary :: i32 where "bonus_boundary = score_match div 2"
definition bonus_non_word :: i32 where "bonus_non_word = score_match div 2"
definition bonus_camel_123 :: i32 where "bonus_camel_123 = bonus_boundary + score_gap_extension"
definition bonus_consecutive :: i32 where "bonus_consecutive = - (score_gap_start + score_gap_extension)"
definition bonus_first_char_multiplier :: i32 where "bonus_first_char_multiplier = 2"

lemmas score_consts = score_match_def score_gap_start_def score_gap_extension_def bonus_boundary_def
  bonus_non_word_def bonus_camel_123_def bonus_consecutive_def bonus_first_char_multiplier_def

datatype fzf_scheme = SchemeDefault | SchemePath | SchemeHistory

record fzf_config =
  case_sensitive :: bool
  scheme :: fzf_scheme
  top_k :: usize
  max_query_chars :: usize
  max_candidate_chars :: usize

definition fzf_config_default :: fzf_config where
  "fzf_config_default =
     \<lparr>case_sensitive = False, scheme = SchemeDefault, top_k = 0, max_query_chars = 1000,
      max_candidate_chars = 1000000\<rparr>"

datatype fzf_error = QueryTooLong usize usize | CandidateTooLong usize usize

datatype char_class = White | NonWord | Delimiter | Lower | Upper | Letter | Number

text \<open>The tables of the standard library above ASCII, and the path separator of the platform.\<close>

record char_tables =
  uni_lowercase :: "uchar \<Rightarrow> bool"
  uni_uppercase :: "uchar \<Rightarrow> bool"
  uni_numeric :: "uchar \<Rightarrow> bool"
  uni_alphabetic :: "uchar \<Rightarrow> bool"
  uni_whitespace :: "uchar \<Rightarrow> bool"
  uni_to_lowercase :: "uchar \<Rightarrow> uchar list"
  main_separator :: uchar

definition is_ascii :: "uchar \<Rightarrow> bool" where
  "is_ascii c \<longleftrightarrow> c < 128"

definition char_is_lowercase :: "char_tables \<Rightarrow> uchar \<Rightarrow> bool" where
  "char_is_lowercase U c = (if is_ascii c then 97 \<le> c \<and> c \<le> 122 else uni_lowercase U c)"

definition char_is_uppercase :: "char_tables \<Rightarrow> uchar \<Rightarrow> bool" where
  "char_is_uppercase U c = (if is_ascii c then 65 \<le> c \<and> c \<le> 90 else uni_uppercase U c)"

definition char_is_numeric :: "char_tables \<Rightarrow> uchar \<Rightarrow> bool" where
  "char_is_numeric U c = (if is_ascii c then 48 \<le> c \<and> c \<le> 57 else uni_numeric U c)"

definition char_is_alphabetic :: "char_tables \<Rightarrow> uchar \<Rightarrow> bool" where
  "char_is_alphabetic U c =
     (if is_ascii c then 97 \<le> c \<and> c \<le> 122 \<or> 65 \<le> c \<and> c \<le> 90 else uni_alphabetic U c)"

definition char_is_whitespace :: "char_tables \<Rightarrow> uchar \<Rightarrow> bool" where
  "char_is_whitespace U c = (if is_ascii c then c = 32 \<or> 9 \<le> c \<and> c \<le> 13 else uni_whitespace U c)"

definition to_ascii_lowercase :: "uchar \<Rightarrow> uchar" where
  "to_ascii_lowercase c = (if 65 \<le> c \<and> c \<le> 90 then c + 32 else c)"

definition comparable_char :: "char_tables \<Rightarrow> uchar \<Rightarrow> bool \<Rightarrow> uchar" where
  "comparable_char U c sensitive =
     (if sensitive then c
      else if is_ascii c then to_ascii_lowercase c
      else case uni_to_lowercase U c of [] \<Rightarrow> c | l # _ \<Rightarrow> l)"

section \<open>Cells, columns and the core\<close>

record cell =
  score :: i32
  consecutive :: usize
  first_bonus :: i32
  in_gap :: bool
  reachable :: bool

definition cell_default :: cell where
  "cell_default = \<lparr>score = 0, consecutive = 0, first_bonus = 0, in_gap = False, reachable = False\<rparr>"

record fzf_column =
  cells :: "cell list"
  previous_class :: char_class
  depth :: usize
  best_full_score :: "i32 option"

record fzf_core =
  fz_query :: "uchar list"
  fz_config :: fzf_config
  max_bonus :: i32

definition core_new :: "char_tables \<Rightarrow> uchar list \<Rightarrow> fzf_config \<Rightarrow> fzf_error + fzf_core" where
  "core_new U query config =
     (let q = map (\<lambda>c. comparable_char U c (case_sensitive config)) query
      in if length q > max_query_chars config
         then Inl (QueryTooLong (length q) (max_query_chars config))
         else Inr \<lparr>fz_query = q, fz_config = config,
                   max_bonus = (case scheme config of
                       SchemeDefault \<Rightarrow> bonus_boundary + 2
                     | SchemePath \<Rightarrow> bonus_boundary + 1
                     | SchemeHistory \<Rightarrow> bonus_boundary)\<rparr>)"

definition initial_class :: "fzf_core \<Rightarrow> char_class" where
  "initial_class core = (case scheme (fz_config core) of SchemePath \<Rightarrow> Delimiter | _ \<Rightarrow> White)"

definition is_delimiter :: "char_tables \<Rightarrow> fzf_core \<Rightarrow> uchar \<Rightarrow> bool" where
  "is_delimiter U core c =
     (case scheme (fz_config core) of
        SchemePath \<Rightarrow> c = 47 \<or> c = main_separator U
      | _ \<Rightarrow> c \<in> set [47, 44, 58, 59, 124])"

definition classify :: "char_tables \<Rightarrow> fzf_core \<Rightarrow> uchar \<Rightarrow> char_class" where
  "classify U core c =
     (if char_is_lowercase U c then Lower
      else if char_is_uppercase U c then Upper
      else if char_is_numeric U c then Number
      else if char_is_alphabetic U c then Letter
      else if char_is_whitespace U c \<or> c = 0x85 \<or> c = 0xA0 then White
      else if is_delimiter U core c then Delimiter
      else NonWord)"

text \<open>The early returns of \<open>bonus_for\<close> (a boundary on the left) come first.\<close>

definition boundary_bonus :: "fzf_core \<Rightarrow> char_class \<Rightarrow> i32 option" where
  "boundary_bonus core previous =
     (case previous of
        White \<Rightarrow> Some (case scheme (fz_config core) of SchemeDefault \<Rightarrow> bonus_boundary + 2 | _ \<Rightarrow> bonus_boundary)
      | Delimiter \<Rightarrow> Some (case scheme (fz_config core) of SchemeHistory \<Rightarrow> bonus_boundary | _ \<Rightarrow> bonus_boundary + 1)
      | NonWord \<Rightarrow> Some bonus_boundary
      | _ \<Rightarrow> None)"

definition bonus_for :: "fzf_core \<Rightarrow> char_class \<Rightarrow> char_class \<Rightarrow> i32" where
  "bonus_for core previous current =
     (case if current \<noteq> White then boundary_bonus core previous else None of
        Some bonus \<Rightarrow> bonus
      | None \<Rightarrow>
          if previous = Lower \<and> current = Upper \<or> previous \<noteq> Number \<and> current = Number
          then bonus_camel_123
          else case current of
                 NonWord \<Rightarrow> bonus_non_word
               | Delimiter \<Rightarrow> bonus_non_word
               | White \<Rightarrow> (case scheme (fz_config core) of SchemeDefault \<Rightarrow> bonus_boundary + 2 | _ \<Rightarrow> bonus_boundary)
               | _ \<Rightarrow> 0)"

definition initial_column :: "fzf_core \<Rightarrow> fzf_column" where
  "initial_column core =
     \<lparr>cells = replicate (length (fz_query core)) cell_default, previous_class = initial_class core,
      depth = 0, best_full_score = (if fz_query core = [] then Some 0 else None)\<rparr>"

definition gap_penalty :: "cell \<Rightarrow> i32" where
  "gap_penalty c = (if in_gap c then score_gap_extension else score_gap_start)"

text \<open>The cell of the first query character; \<open>hit\<close> says that the candidate character equals it.\<close>

definition first_cell :: "bool \<Rightarrow> i32 \<Rightarrow> cell \<Rightarrow> cell" where
  "first_cell hit position_bonus previous =
     (if hit then
        \<lparr>score = i32_sat_add score_match (i32_sat_mul position_bonus bonus_first_char_multiplier),
         consecutive = 1, first_bonus = position_bonus, in_gap = False, reachable = True\<rparr>
      else if reachable previous then
        \<lparr>score = max (i32_sat_add (score previous) (gap_penalty previous)) 0, consecutive = 0,
         first_bonus = 0, in_gap = True, reachable = True\<rparr>
      else cell_default)"

text \<open>The match half of a later cell: its run length, the bonus of its run and its score.\<close>

definition match_cell :: "i32 \<Rightarrow> cell \<Rightarrow> usize \<times> i32 \<times> i32" where
  "match_cell position_bonus diagonal =
     (let run = usize_sat_add (consecutive diagonal) 1;
          first = (if consecutive diagonal = 0 then position_bonus else first_bonus diagonal);
          restart = (position_bonus \<ge> bonus_boundary \<and> position_bonus > first_bonus diagonal);
          applied = (if run > 1 \<and> \<not> restart
                     then max (max position_bonus bonus_consecutive) (first_bonus diagonal)
                     else position_bonus)
      in (if run > 1 \<and> restart then 1 else run,
          if run > 1 \<and> restart then position_bonus else first,
          i32_sat_add (i32_sat_add (score diagonal) score_match) applied))"

definition next_cell :: "bool \<Rightarrow> i32 \<Rightarrow> cell \<Rightarrow> cell \<Rightarrow> cell" where
  "next_cell hit position_bonus left diagonal =
     (let gap_score = (if reachable left then Some (i32_sat_add (score left) (gap_penalty left)) else None);
          matched = (hit \<and> reachable diagonal);
          (run, first, value) = match_cell position_bonus diagonal;
          match_score = (if matched then Some value else None)
      in if gap_score = None \<and> match_score = None then cell_default
         else let match_value = (case match_score of Some v \<Rightarrow> v | None \<Rightarrow> - (2 ^ 29));
                  gap_value = (case gap_score of Some v \<Rightarrow> v | None \<Rightarrow> - (2 ^ 29));
                  match_wins = match_value \<ge> gap_value
              in \<lparr>score = max (max match_value gap_value) 0,
                  consecutive = (if match_wins \<and> matched then run else 0),
                  first_bonus = (if match_wins \<and> matched then first else 0),
                  in_gap = match_value < gap_value, reachable = True\<rparr>)"

definition advance_cells :: "uchar list \<Rightarrow> uchar \<Rightarrow> i32 \<Rightarrow> cell list \<Rightarrow> cell list" where
  "advance_cells query candidate position_bonus previous =
     (case query of
        [] \<Rightarrow> []
      | q # _ \<Rightarrow> first_cell (candidate = q) position_bonus (previous ! 0) #
                map (\<lambda>i. next_cell (candidate = query ! i) position_bonus (previous ! i) (previous ! (i - 1)))
                  [1..<length query])"

definition full_score :: "cell list \<Rightarrow> i32 option" where
  "full_score cs = (if cs \<noteq> [] \<and> reachable (last cs) then Some (score (last cs)) else None)"

definition best_score :: "i32 option \<Rightarrow> i32 option \<Rightarrow> i32 option" where
  "best_score previous current =
     (case (previous, current) of
        (Some p, Some c) \<Rightarrow> Some (max p c)
      | (Some p, None) \<Rightarrow> Some p
      | (None, current) \<Rightarrow> current)"

definition advance :: "char_tables \<Rightarrow> fzf_core \<Rightarrow> fzf_column \<Rightarrow> uchar \<Rightarrow> fzf_column" where
  "advance U core previous candidate =
     (let current = classify U core candidate;
          position_bonus = bonus_for core (previous_class previous) current;
          unit = comparable_char U candidate (case_sensitive (fz_config core));
          cs = advance_cells (fz_query core) unit position_bonus (cells previous)
      in \<lparr>cells = cs, previous_class = current, depth = usize_sat_add (depth previous) 1,
          best_full_score = best_score (best_full_score previous) (full_score cs)\<rparr>)"

fun score_from :: "char_tables \<Rightarrow> fzf_core \<Rightarrow> fzf_column \<Rightarrow> uchar list \<Rightarrow> fzf_error + i32 option" where
  "score_from U core column [] = Inr (best_full_score column)"
| "score_from U core column (c # cs) =
     (if depth column \<ge> max_candidate_chars (fz_config core)
      then Inl (CandidateTooLong (usize_sat_add (depth column) 1) (max_candidate_chars (fz_config core)))
      else score_from U core (advance U core column c) cs)"

definition score_chars :: "char_tables \<Rightarrow> fzf_core \<Rightarrow> uchar list \<Rightarrow> fzf_error + i32 option" where
  "score_chars U core candidate = score_from U core (initial_column core) candidate"

definition maximum_score :: "fzf_core \<Rightarrow> i32" where
  "maximum_score core =
     (case usize_checked_sub (length (fz_query core)) 1 of
        None \<Rightarrow> 0
      | Some remaining \<Rightarrow>
          i32_sat_add (i32_sat_add score_match (i32_sat_mul (max_bonus core) bonus_first_char_multiplier))
            (i32_sat_mul (i32_of_usize remaining) (i32_sat_add score_match (max_bonus core))))"

text \<open>\<open>bound.map_or(value, |current| current.max(value))\<close>.\<close>

definition raise_bound :: "i32 option \<Rightarrow> i32 \<Rightarrow> i32 option" where
  "raise_bound bound value = Some (case bound of None \<Rightarrow> value | Some current \<Rightarrow> max current value)"

definition bound_cells :: "fzf_core \<Rightarrow> usize \<Rightarrow> i32 option \<Rightarrow> cell list \<Rightarrow> i32 option" where
  "bound_cells core available start cs =
     foldl (\<lambda>bound (index, c).
         let remaining = usize_sat_sub (length (fz_query core)) (usize_sat_add index 1)
         in if remaining \<le> available
            then raise_bound bound (i32_sat_add (score c)
                   (i32_sat_mul (i32_of_usize remaining) (i32_sat_add score_match (max_bonus core))))
            else bound)
       start (filter (\<lambda>(_, c). reachable c) (zip [0..<length cs] cs))"

definition upper_bound :: "fzf_core \<Rightarrow> fzf_column \<Rightarrow> i32 option" where
  "upper_bound core column =
     (let available = usize_sat_sub (max_candidate_chars (fz_config core)) (depth column);
          bound = bound_cells core available (best_full_score column) (cells column)
      in if length (fz_query core) \<le> available then raise_bound bound (maximum_score core) else bound)"

definition matches_query_unit :: "char_tables \<Rightarrow> fzf_core \<Rightarrow> uchar \<Rightarrow> uchar \<Rightarrow> bool" where
  "matches_query_unit U core candidate query \<longleftrightarrow>
     comparable_char U candidate (case_sensitive (fz_config core)) =
     comparable_char U query (case_sensitive (fz_config core))"

end
