(* ===== verification/Fzf_Bounds.thy ===== *)
theory Fzf_Bounds
  imports Fzf_Core
begin

text \<open>
  What the recurrence of \<open>Fzf_Core\<close> computes: which cells are reachable (a prefix of the query is a
  subsequence of the candidate), the range of the scores, and the soundness of the bounds that
  branch-and-bound relies on, saturation included.
\<close>

section \<open>Ranges\<close>

definition config_ok :: "fzf_config \<Rightarrow> bool" where
  "config_ok config \<longleftrightarrow> top_k config \<le> usize_max \<and> max_query_chars config \<le> usize_max \<and>
     max_candidate_chars config \<le> usize_max"

definition core_ok :: "fzf_core \<Rightarrow> bool" where
  "core_ok core \<longleftrightarrow> config_ok (fz_config core) \<and> length (fz_query core) \<le> usize_max \<and>
     max_bonus core = (case scheme (fz_config core) of SchemeDefault \<Rightarrow> 10 | SchemePath \<Rightarrow> 9 | SchemeHistory \<Rightarrow> 8)"

lemma core_new_ok:
  assumes "core_new U q config = Inr core" and "config_ok config"
  shows "core_ok core" and "fz_config core = config"
    and "fz_query core = map (\<lambda>c. comparable_char U c (case_sensitive config)) q"
  using assms
  by (auto simp: core_new_def core_ok_def config_ok_def score_consts Let_def split: if_splits fzf_scheme.split)

lemma max_bonus_range: "core_ok core \<Longrightarrow> 8 \<le> max_bonus core \<and> max_bonus core \<le> 10"
  by (auto simp: core_ok_def split: fzf_scheme.splits)

lemma bonus_for_range:
  assumes "core_ok core"
  shows "0 \<le> bonus_for core a b" and "bonus_for core a b \<le> max_bonus core"
  using assms
  by (cases "scheme (fz_config core)"; cases a; cases b;
      simp add: core_ok_def bonus_for_def boundary_bonus_def score_consts)+

definition cell_ok :: "i32 \<Rightarrow> cell \<Rightarrow> bool" where
  "cell_ok b c \<longleftrightarrow> 0 \<le> score c \<and> score c \<le> i32_max \<and> 0 \<le> first_bonus c \<and> first_bonus c \<le> b"

definition column_ok :: "fzf_core \<Rightarrow> fzf_column \<Rightarrow> bool" where
  "column_ok core col \<longleftrightarrow> length (cells col) = length (fz_query core) \<and>
     (\<forall>c \<in> set (cells col). cell_ok (max_bonus core) c) \<and>
     (\<forall>b. best_full_score col = Some b \<longrightarrow> 0 \<le> b \<and> b \<le> i32_max)"

lemma gap_penalty_range: "- 3 \<le> gap_penalty c" "gap_penalty c < 0"
  by (simp_all add: gap_penalty_def score_consts)

lemma first_cell:
  assumes "0 \<le> pb" and "pb \<le> b" and "b \<le> 10" and "cell_ok b prev"
  shows "cell_ok b (first_cell hit pb prev)"
    and "reachable (first_cell hit pb prev) \<longleftrightarrow> hit \<or> reachable prev"
    and "reachable (first_cell hit pb prev) \<Longrightarrow>
      score (first_cell hit pb prev) \<le> 16 + 2 * b \<and> hit \<or>
      reachable prev \<and> score (first_cell hit pb prev) \<le> score prev"
  using assms gap_penalty_range [of prev]
  by (auto simp: first_cell_def cell_ok_def cell_default_def i32_defs score_consts split: if_splits)

lemma match_cell:
  assumes "0 \<le> pb" and "pb \<le> b" and "8 \<le> b" and "b \<le> 10" and "cell_ok b diag"
    and "match_cell pb diag = (run, first, v)"
  shows "0 \<le> first" and "first \<le> b" and "0 \<le> v" and "v \<le> min i32_max (score diag + (16 + b))"
proof -
  show "0 \<le> first" "first \<le> b"
    using assms by (auto simp: match_cell_def Let_def cell_ok_def split: if_splits)
  obtain applied where a: "v = i32_sat_add (i32_sat_add (score diag) 16) applied" "0 \<le> applied" "applied \<le> b"
    using assms by (auto simp: match_cell_def Let_def cell_ok_def score_consts split: if_splits)
  show "0 \<le> v" "v \<le> min i32_max (score diag + (16 + b))"
    using a assms(5) by (auto simp: cell_ok_def i32_defs)
qed

lemma next_cell:
  assumes "0 \<le> pb" and "pb \<le> b" and "8 \<le> b" and "b \<le> 10" and "cell_ok b left" and "cell_ok b diag"
  shows "cell_ok b (next_cell hit pb left diag)"
    and "reachable (next_cell hit pb left diag) \<longleftrightarrow> reachable left \<or> hit \<and> reachable diag"
    and "reachable (next_cell hit pb left diag) \<Longrightarrow>
      reachable left \<and> score (next_cell hit pb left diag) \<le> score left \<or>
      hit \<and> reachable diag \<and> score (next_cell hit pb left diag) \<le> min i32_max (score diag + (16 + b))"
proof -
  obtain run first v where m: "match_cell pb diag = (run, first, v)" by (metis prod_cases3)
  note mc = match_cell [OF assms(1-4,6) m]
  have gap: "i32_sat_add (score left) (gap_penalty left) < score left \<or> score left = 0 \<and> i32_sat_add (score left) (gap_penalty left) < 0"
    "- (2 ^ 29) < i32_sat_add (score left) (gap_penalty left)"
    using gap_penalty_range [of left] assms(5) by (auto simp: cell_ok_def i32_defs)
  show "cell_ok b (next_cell hit pb left diag)"
    using mc gap assms(1-6) by (auto simp: next_cell_def m Let_def cell_ok_def cell_default_def split: if_splits)
  show "reachable (next_cell hit pb left diag) \<longleftrightarrow> reachable left \<or> hit \<and> reachable diag"
    by (auto simp: next_cell_def m Let_def cell_default_def)
  show "reachable (next_cell hit pb left diag) \<Longrightarrow>
      reachable left \<and> score (next_cell hit pb left diag) \<le> score left \<or>
      hit \<and> reachable diag \<and> score (next_cell hit pb left diag) \<le> min i32_max (score diag + (16 + b))"
    using mc gap assms(5,6) by (auto simp: next_cell_def m Let_def cell_default_def cell_ok_def max_def split: if_splits)
qed

section \<open>Columns\<close>

lemma length_advance_cells [simp]: "length (advance_cells q c pb prev) = length q"
  by (auto simp: advance_cells_def simp del: upt_Suc split: list.split)

lemma nth_advance_cells:
  "i < length q \<Longrightarrow> advance_cells q c pb prev ! i =
     (if i = 0 then first_cell (c = q ! 0) pb (prev ! 0) else next_cell (c = q ! i) pb (prev ! i) (prev ! (i - 1)))"
  by (cases q; cases i) (auto simp: advance_cells_def simp del: upt_Suc)

lemma column_nth: "column_ok core col \<Longrightarrow> i < length (fz_query core) \<Longrightarrow> cell_ok (max_bonus core) (cells col ! i)"
  by (simp add: column_ok_def)

lemma advance_cell:
  fixes U :: char_tables and c :: uchar
  assumes "core_ok core" and "column_ok core col" and "i < length (fz_query core)"
  defines "x \<equiv> cells (advance U core col c) ! i"
    and "hit \<equiv> comparable_char U c (case_sensitive (fz_config core)) = fz_query core ! i"
  shows "cell_ok (max_bonus core) x"
    and "reachable x \<longleftrightarrow> reachable (cells col ! i) \<or> hit \<and> (i = 0 \<or> reachable (cells col ! (i - 1)))"
    and "reachable x \<Longrightarrow> reachable (cells col ! i) \<and> score x \<le> score (cells col ! i) \<or>
      hit \<and> i = 0 \<and> score x \<le> 16 + 2 * max_bonus core \<or>
      hit \<and> 0 < i \<and> reachable (cells col ! (i - 1)) \<and>
        score x \<le> min i32_max (score (cells col ! (i - 1)) + (16 + max_bonus core))"
proof -
  let ?pb = "bonus_for core (previous_class col) (classify U core c)" and ?b = "max_bonus core"
  have x: "x = (if i = 0 then first_cell hit ?pb (cells col ! 0)
      else next_cell hit ?pb (cells col ! i) (cells col ! (i - 1)))"
    using assms(3) by (simp add: x_def hit_def advance_def Let_def nth_advance_cells)
  have b: "0 \<le> ?pb" "?pb \<le> ?b" "8 \<le> ?b" "?b \<le> 10"
    using bonus_for_range [OF assms(1)] max_bonus_range [OF assms(1)] by simp_all
  have left: "cell_ok ?b (cells col ! i)" and diag: "cell_ok ?b (cells col ! (i - 1))"
    using assms(2,3) by (simp_all add: column_nth)
  note f = first_cell [OF b(1,2,4) left, of hit] and n = next_cell [OF b left diag, of hit]
  show "cell_ok ?b x" using f n x by (cases "i = 0") simp_all
  show "reachable x \<longleftrightarrow> reachable (cells col ! i) \<or> hit \<and> (i = 0 \<or> reachable (cells col ! (i - 1)))"
    using f(2) n(2) x by (cases "i = 0") auto
  show "reachable x \<Longrightarrow> reachable (cells col ! i) \<and> score x \<le> score (cells col ! i) \<or>
      hit \<and> i = 0 \<and> score x \<le> 16 + 2 * ?b \<or>
      hit \<and> 0 < i \<and> reachable (cells col ! (i - 1)) \<and>
        score x \<le> min i32_max (score (cells col ! (i - 1)) + (16 + ?b))"
    using f(3) n(3) x by (cases "i = 0") auto
qed

lemma length_advance: "length (cells (advance U core col c)) = length (fz_query core)"
  by (simp add: advance_def Let_def)

lemma full_score_Some:
  "full_score cs = Some v \<longleftrightarrow> cs \<noteq> [] \<and> reachable (cs ! (length cs - 1)) \<and> v = score (cs ! (length cs - 1))"
  by (auto simp: full_score_def last_conv_nth)

lemma best_advance:
  "best_full_score (advance U core col c) =
     best_score (best_full_score col) (full_score (cells (advance U core col c)))"
  by (simp add: advance_def Let_def)

lemma best_score_Some:
  "best_score p c = Some v \<longleftrightarrow>
     (p = Some v \<and> (\<forall>w. c = Some w \<longrightarrow> w \<le> v)) \<or> (c = Some v \<and> (\<forall>w. p = Some w \<longrightarrow> w \<le> v))"
  by (auto simp: best_score_def max_def split: option.splits)

lemma column_ok_advance:
  assumes "core_ok core" and "column_ok core col"
  shows "column_ok core (advance U core col c)"
proof -
  let ?cs = "cells (advance U core col c)"
  have cells: "\<forall>x \<in> set ?cs. cell_ok (max_bonus core) x"
    using advance_cell(1) [OF assms] by (auto simp: in_set_conv_nth length_advance)
  moreover have "0 \<le> v \<and> v \<le> i32_max" if "full_score ?cs = Some v" for v
    using cells that by (auto simp: full_score_def cell_ok_def split: if_splits)
  ultimately show ?thesis
    using assms(2) by (auto simp: column_ok_def length_advance best_advance best_score_Some)
qed

lemma column_ok_initial: "column_ok core (initial_column core)"
  if "core_ok core"
  using max_bonus_range [OF that]
  by (auto simp: column_ok_def initial_column_def cell_ok_def cell_default_def i32_max_def)

definition column_of :: "char_tables \<Rightarrow> fzf_core \<Rightarrow> uchar list \<Rightarrow> fzf_column" where
  "column_of U core p = foldl (advance U core) (initial_column core) p"

lemma column_of_simps [simp]:
  "column_of U core [] = initial_column core"
  "column_of U core (p @ [c]) = advance U core (column_of U core p) c"
  by (simp_all add: column_of_def)

lemma column_of_ok: "core_ok core \<Longrightarrow> column_ok core (column_of U core p)"
  by (induction p rule: rev_induct) (simp_all add: column_ok_initial column_ok_advance)

lemma depth_column_of: "depth (column_of U core p) = min (length p) usize_max"
  by (induction p rule: rev_induct)
    (simp_all add: initial_column_def advance_def Let_def usize_sat_add_def usize_max_def)

text \<open>The score of a candidate, the resource limit aside.\<close>

definition path_score_of :: "char_tables \<Rightarrow> fzf_core \<Rightarrow> uchar list \<Rightarrow> i32 option" where
  "path_score_of U core w = best_full_score (column_of U core w)"

lemma score_from_column:
  assumes "max_candidate_chars (fz_config core) \<le> usize_max"
  shows "score_from U core (column_of U core p) s =
    (if s = [] \<or> length p + length s \<le> max_candidate_chars (fz_config core)
     then Inr (path_score_of U core (p @ s))
     else Inl (CandidateTooLong (usize_sat_add (max (min (length p) usize_max) (max_candidate_chars (fz_config core))) 1)
                 (max_candidate_chars (fz_config core))))"
proof (induction s arbitrary: p)
  case Nil
  then show ?case by (simp add: path_score_of_def)
next
  case (Cons c s)
  show ?case
  proof (cases "max_candidate_chars (fz_config core) \<le> depth (column_of U core p)")
    case True
    then have "\<not> length p + length (c # s) \<le> max_candidate_chars (fz_config core)"
      by (simp add: depth_column_of)
    with True assms show ?thesis by (auto simp: depth_column_of max_def min_def)
  next
    case False
    then have lt: "length p < max_candidate_chars (fz_config core)"
      using assms by (simp add: depth_column_of)
    with False Cons [of "p @ [c]"] assms show ?thesis
      by (auto simp: depth_column_of max_def min_def)
  qed
qed

lemma score_chars_eq:
  assumes "core_ok core"
  shows "score_chars U core w =
    (if length w \<le> max_candidate_chars (fz_config core) then Inr (path_score_of U core w)
     else Inl (CandidateTooLong (usize_sat_add (max_candidate_chars (fz_config core)) 1)
                 (max_candidate_chars (fz_config core))))"
  using score_from_column [of core U "[]" w] assms
  by (auto simp: score_chars_def core_ok_def config_ok_def)

section \<open>Which candidates match\<close>

lemma subseq_snoc: "subseq (xs @ [x]) (ys @ [y]) \<longleftrightarrow> subseq (xs @ [x]) ys \<or> x = y \<and> subseq xs ys"
proof
  assume "subseq (xs @ [x]) (ys @ [y])"
  then obtain us vs where uv: "xs @ [x] = us @ vs" "subseq us ys" "subseq vs [y]" by (rule subseq_appendE)
  have "vs = [] \<or> vs = [y]" using uv(3) by (cases vs) (auto split: if_splits)
  then show "subseq (xs @ [x]) ys \<or> x = y \<and> subseq xs ys" using uv by auto
next
  assume "subseq (xs @ [x]) ys \<or> x = y \<and> subseq xs ys"
  then show "subseq (xs @ [x]) (ys @ [y])" using subseq_rev_drop_many by fastforce
qed

definition folded :: "char_tables \<Rightarrow> fzf_core \<Rightarrow> uchar list \<Rightarrow> uchar list" where
  "folded U core w = map (\<lambda>c. comparable_char U c (case_sensitive (fz_config core))) w"

lemma reachable_iff:
  assumes "core_ok core" and "i < length (fz_query core)"
  shows "reachable (cells (column_of U core p) ! i) \<longleftrightarrow> subseq (take (Suc i) (fz_query core)) (folded U core p)"
  using assms(2)
proof (induction p arbitrary: i rule: rev_induct)
  case Nil
  then show ?case
    by (simp add: initial_column_def cell_default_def folded_def take_Suc_conv_app_nth)
next
  case (snoc c p)
  let ?q = "fz_query core"
  have t: "take (Suc i) ?q = take i ?q @ [?q ! i]" using snoc.prems by (simp add: take_Suc_conv_app_nth)
  have diag: "(i = 0 \<or> reachable (cells (column_of U core p) ! (i - 1))) \<longleftrightarrow> subseq (take i ?q) (folded U core p)"
    using snoc.IH [of "i - 1"] snoc.prems by (cases i) auto
  have "reachable (cells (column_of U core (p @ [c])) ! i) \<longleftrightarrow>
      subseq (take (Suc i) ?q) (folded U core p) \<or>
      comparable_char U c (case_sensitive (fz_config core)) = ?q ! i \<and> subseq (take i ?q) (folded U core p)"
    using advance_cell(2) [OF assms(1) column_of_ok [OF assms(1)] snoc.prems] snoc.IH [OF snoc.prems] diag by simp
  then show ?case
    unfolding t using subseq_snoc [of "take i ?q" "?q ! i"] by (auto simp: folded_def)
qed

lemma path_score_Some_iff:
  assumes "core_ok core"
  shows "(path_score_of U core p \<noteq> None) \<longleftrightarrow> subseq (fz_query core) (folded U core p)"
proof (induction p rule: rev_induct)
  case Nil
  then show ?case by (simp add: path_score_of_def initial_column_def folded_def)
next
  case (snoc c p)
  let ?n = "length (fz_query core)"
  show ?case
  proof (cases "?n = 0")
    case True
    then show ?thesis using snoc by (auto simp: path_score_of_def best_advance best_score_def split: option.splits)
  next
    case False
    then have last: "full_score (cells (column_of U core (p @ [c]))) \<noteq> None \<longleftrightarrow>
        subseq (fz_query core) (folded U core (p @ [c]))"
      using reachable_iff [OF assms, of "?n - 1" U "p @ [c]"] column_of_ok [OF assms, of U "p @ [c]"]
      by (cases "cells (column_of U core (p @ [c])) = []")
        (auto simp: full_score_def last_conv_nth column_ok_def)
    have "path_score_of U core (p @ [c]) \<noteq> None \<longleftrightarrow>
        path_score_of U core p \<noteq> None \<or> full_score (cells (column_of U core (p @ [c]))) \<noteq> None"
      by (auto simp: path_score_of_def best_advance best_score_def split: option.splits)
    moreover have "subseq (fz_query core) (folded U core p) \<Longrightarrow> subseq (fz_query core) (folded U core (p @ [c]))"
      by (simp add: folded_def subseq_rev_drop_many)
    ultimately show ?thesis using snoc last by blast
  qed
qed

text \<open>The best score never falls along a path.\<close>

lemma path_score_mono:
  "path_score_of U core p = Some v \<Longrightarrow> \<exists>w. path_score_of U core (p @ s) = Some w \<and> v \<le> w"
proof (induction s rule: rev_induct)
  case (snoc c s)
  then obtain w where w: "path_score_of U core (p @ s) = Some w" "v \<le> w" by blast
  have "\<exists>w'. path_score_of U core (p @ s @ [c]) = Some w' \<and> w \<le> w'"
    using w(1) by (cases "full_score (cells (column_of U core (p @ s @ [c])))")
      (auto simp: path_score_of_def best_advance best_score_def simp flip: append_assoc)
  with w(2) show ?case by fastforce
qed simp

section \<open>Bounds\<close>

text \<open>
  The ways a column can still lead to the score \<open>v\<close> with \<open>available\<close> more characters: a completed
  match, a live cell that gains at most a full match per missing query character, or a match that
  has not started.
\<close>

definition cell_bound :: "fzf_core \<Rightarrow> fzf_column \<Rightarrow> nat \<Rightarrow> i32" where
  "cell_bound core col i =
     min i32_max (score (cells col ! i) + int (length (fz_query core) - Suc i) * (16 + max_bonus core))"

definition reach_bound :: "fzf_core \<Rightarrow> fzf_column \<Rightarrow> nat \<Rightarrow> i32 \<Rightarrow> bool" where
  "reach_bound core col available v \<longleftrightarrow>
     (\<exists>b. best_full_score col = Some b \<and> v \<le> b) \<or>
     (\<exists>i < length (fz_query core). reachable (cells col ! i) \<and>
        length (fz_query core) - Suc i \<le> available \<and> v \<le> cell_bound core col i) \<or>
     length (fz_query core) \<le> available \<and> v \<le> maximum_score core"

lemma sat_mul_count:
  assumes "1 \<le> m" and "m \<le> i32_max"
  shows "i32_sat_mul (i32_of_usize n) m = min i32_max (int n * m)"
proof (cases "int n \<le> i32_max")
  case True
  have "0 \<le> int n * m" using assms(1) by simp
  moreover have "i32_min \<le> 0" by (simp add: i32_min_def)
  ultimately have "i32_min \<le> int n * m" by linarith
  moreover have "i32_min \<le> i32_max" by (simp add: i32_min_def i32_max_def)
  ultimately show ?thesis using True by (auto simp: i32_sat_mul_def i32_sat_def i32_of_usize_def max_def min_def)
next
  case False
  have "int n * 1 \<le> int n * m" and "i32_max * 1 \<le> i32_max * m"
    using assms(1) by (intro mult_left_mono; simp add: i32_max_def)+
  moreover have "i32_min \<le> i32_max" by (simp add: i32_min_def i32_max_def)
  ultimately show ?thesis using False by (simp add: i32_sat_mul_def i32_sat_def i32_of_usize_def)
qed

lemma sat_add_nonneg: "0 \<le> a \<Longrightarrow> 0 \<le> b \<Longrightarrow> i32_sat_add a b = min i32_max (a + b)"
  by (simp add: i32_sat_add_def i32_sat_def i32_min_def i32_max_def)

lemma sat_add_count:
  assumes "0 \<le> a" and "1 \<le> m" and "m \<le> i32_max"
  shows "i32_sat_add a (i32_sat_mul (i32_of_usize n) m) = min i32_max (a + int n * m)"
proof -
  have "0 \<le> int n * m" using assms(2) by simp
  then show ?thesis using assms(1) by (simp add: sat_mul_count [OF assms(2,3)] sat_add_nonneg i32_max_def)
qed

lemma per_match:
  assumes "core_ok core"
  shows "i32_sat_add score_match (max_bonus core) = 16 + max_bonus core"
    and "1 \<le> 16 + max_bonus core" and "16 + max_bonus core \<le> i32_max"
  using max_bonus_range [OF assms] by (simp_all add: i32_defs score_consts)

lemma maximum_score_eq:
  assumes "core_ok core"
  shows "maximum_score core = (if fz_query core = [] then 0
    else min i32_max (16 + 2 * max_bonus core + int (length (fz_query core) - 1) * (16 + max_bonus core)))"
proof (cases "fz_query core")
  case (Cons q qs)
  have "i32_sat_add 16 (i32_sat_mul (max_bonus core) 2) = 16 + 2 * max_bonus core"
    using max_bonus_range [OF assms] by (simp add: i32_defs)
  then show ?thesis
    using max_bonus_range [OF assms] per_match [OF assms] sat_add_count [of "16 + 2 * max_bonus core" "16 + max_bonus core" "length qs"]
    by (simp add: maximum_score_def Cons usize_checked_sub_def score_consts)
qed (simp add: maximum_score_def usize_checked_sub_def)

lemma reach_bound_advance:
  assumes "core_ok core" and "column_ok core col" and "reach_bound core (advance U core col c) a v"
  shows "reach_bound core col (Suc a) v"
proof -
  let ?new = "advance U core col c" and ?n = "length (fz_query core)" and ?m = "16 + max_bonus core"
  have b: "0 \<le> max_bonus core" using max_bonus_range [OF assms(1)] by simp
  have cell: "reach_bound core col (Suc a) v"
    if i: "i < ?n" "reachable (cells ?new ! i)" "?n - Suc i \<le> a" "v \<le> cell_bound core ?new i" for i
    using advance_cell(3) [OF assms(1,2) i(1,2)]
  proof (elim disjE conjE)
    assume "reachable (cells col ! i)" "score (cells ?new ! i) \<le> score (cells col ! i)"
    then show ?thesis using i unfolding reach_bound_def cell_bound_def
      by (intro disjI2 disjI1 exI [of _ i]) auto
  next
    assume z: "i = 0" "score (cells ?new ! i) \<le> 16 + 2 * max_bonus core"
    have "maximum_score core = min i32_max (16 + 2 * max_bonus core + int (?n - 1) * ?m)"
      using i(1) by (subst maximum_score_eq [OF assms(1)]) auto
    then have "v \<le> maximum_score core" using i(4) z by (auto simp: cell_bound_def)
    then show ?thesis using i(1,3) z(1) by (auto simp: reach_bound_def)
  next
    assume d: "0 < i" "reachable (cells col ! (i - 1))"
      "score (cells ?new ! i) \<le> min i32_max (score (cells col ! (i - 1)) + ?m)"
    have "?n - Suc (i - 1) = Suc (?n - Suc i)" using d(1) i(1) by simp
    then have "cell_bound core col (i - 1) =
        min i32_max (score (cells col ! (i - 1)) + ?m + int (?n - Suc i) * ?m)"
      by (simp add: cell_bound_def algebra_simps)
    moreover have "0 \<le> int (?n - Suc i) * ?m" using b by simp
    ultimately have "v \<le> cell_bound core col (i - 1)" using i(4) d(3) by (auto simp: cell_bound_def)
    then show ?thesis using d(1,2) i(1,3) unfolding reach_bound_def
      by (intro disjI2 disjI1 exI [of _ "i - 1"]) auto
  qed
  consider (best) b where "best_full_score ?new = Some b" "v \<le> b"
    | (cell) i where "i < ?n" "reachable (cells ?new ! i)" "?n - Suc i \<le> a" "v \<le> cell_bound core ?new i"
    | (fresh) "?n \<le> a" "v \<le> maximum_score core"
    using assms(3) unfolding reach_bound_def by blast
  then show ?thesis
  proof cases
    case best
    show ?thesis
    proof (cases "best_full_score col = Some b")
      case False
      then have f: "full_score (cells ?new) = Some b" using best(1) by (auto simp: best_advance best_score_Some)
      then have n: "0 < ?n" "length (cells ?new) = ?n"
        using length_advance [of U core col c] by (auto simp: full_score_Some)
      have "score (cells ?new ! (?n - 1)) = b" "reachable (cells ?new ! (?n - 1))"
        using f n by (simp_all add: full_score_Some)
      moreover have "b \<le> i32_max" using column_ok_advance [OF assms(1,2), of U c] best(1) by (simp add: column_ok_def)
      ultimately have "v \<le> cell_bound core ?new (?n - 1)" using best(2) n(1) by (simp add: cell_bound_def)
      then show ?thesis using n(1) \<open>reachable (cells ?new ! (?n - 1))\<close> by (intro cell [of "?n - 1"]) simp_all
    qed (use best(2) in \<open>simp add: reach_bound_def\<close>)
  qed (use cell in \<open>auto simp: reach_bound_def\<close>)
qed

lemma reach_bound_path:
  assumes "core_ok core" and "path_score_of U core (p @ s) = Some v"
  shows "reach_bound core (column_of U core p) (length s) v"
  using assms(2)
proof (induction s arbitrary: p)
  case Nil
  then show ?case by (simp add: reach_bound_def path_score_of_def)
next
  case (Cons c s)
  have "reach_bound core (column_of U core (p @ [c])) (length s) v" using Cons.IH [of "p @ [c]"] Cons.prems by simp
  then show ?case using reach_bound_advance [OF assms(1) column_of_ok [OF assms(1)]] by simp
qed

lemma score_range:
  assumes "core_ok core" and "path_score_of U core w = Some v"
  shows "0 \<le> v" and "v \<le> maximum_score core"
proof -
  show "0 \<le> v" using column_of_ok [OF assms(1), of U w] assms(2) by (simp add: column_ok_def path_score_of_def)
  have "\<not> reachable (cells (initial_column core) ! i)" if "i < length (fz_query core)" for i
    using that by (simp add: initial_column_def cell_default_def)
  then show "v \<le> maximum_score core"
    using reach_bound_path [OF assms(1), of U "[]" w v] assms(2)
    by (auto simp: reach_bound_def initial_column_def maximum_score_def usize_checked_sub_def split: if_splits)
qed

lemma raise_foldl:
  assumes "foldl (\<lambda>b x. if P x then raise_bound b (f x) else b) start xs = r"
  shows "(start = Some v \<Longrightarrow> \<exists>u. r = Some u \<and> v \<le> u)"
    and "x \<in> set xs \<Longrightarrow> P x \<Longrightarrow> \<exists>u. r = Some u \<and> f x \<le> u"
  using assms
proof (induction xs arbitrary: start v)
  case (Cons y ys)
  {
    case 1
    then show ?case using Cons.IH(1) by (fastforce simp: raise_bound_def split: if_splits)
  next
    case 2
    show ?case
    proof (cases "x = y")
      case True
      then obtain w where "raise_bound start (f y) = Some w" "f y \<le> w"
        by (auto simp: raise_bound_def split: option.split)
      then show ?thesis using Cons.IH(1) [of "raise_bound start (f y)" w] 2 True by fastforce
    next
      case False
      then show ?thesis using Cons.IH(2) 2 by simp
    qed
  }
qed auto

lemma upper_bound_reach:
  assumes "core_ok core" and "column_ok core col" and "depth col \<le> max_candidate_chars (fz_config core)"
    and "reach_bound core col (max_candidate_chars (fz_config core) - depth col) v"
  shows "\<exists>u. upper_bound core col = Some u \<and> v \<le> u"
proof -
  let ?n = "length (fz_query core)" and ?a = "max_candidate_chars (fz_config core) - depth col"
  let ?P = "\<lambda>(i, c). usize_sat_sub ?n (usize_sat_add i 1) \<le> ?a"
  let ?f = "\<lambda>(i, c). i32_sat_add (score c) (i32_sat_mul (i32_of_usize (usize_sat_sub ?n (usize_sat_add i 1))) (i32_sat_add score_match (max_bonus core)))"
  let ?xs = "filter (\<lambda>(_, c). reachable c) (zip [0..<length (cells col)] (cells col))"
  let ?r = "bound_cells core ?a (best_full_score col) (cells col)"
  have r: "foldl (\<lambda>b x. if ?P x then raise_bound b (?f x) else b) (best_full_score col) ?xs = ?r"
    unfolding bound_cells_def Let_def by (rule foldl_cong) (auto split: prod.split)
  have len: "length (cells col) = ?n" "?n \<le> usize_max" using assms(1,2) by (simp_all add: column_ok_def core_ok_def)
  have idx: "usize_sat_sub ?n (usize_sat_add i 1) = ?n - Suc i" if "i < ?n" for i
    using that len(2) by (simp add: usize_sat_sub_def usize_sat_add_def)
  have f: "cell_bound core col i \<le> ?f (i, cells col ! i)" if i: "i < ?n" for i
    using column_nth [OF assms(2) i] per_match [OF assms(1)]
    by (simp add: idx [OF i, unfolded One_nat_def] cell_bound_def cell_ok_def sat_add_count)
  have best: "\<exists>u. ?r = Some u \<and> w \<le> u" if "best_full_score col = Some w" for w
    using raise_foldl(1) [OF r that] .
  have cell: "\<exists>u. ?r = Some u \<and> cell_bound core col i \<le> u" if "i < ?n" "reachable (cells col ! i)" "?n - Suc i \<le> ?a" for i
  proof -
    have "(i, cells col ! i) \<in> set ?xs"
      using that(1,2) len(1) by (force simp: in_set_zip)
    then show ?thesis using raise_foldl(2) [OF r, of "(i, cells col ! i)"] f [OF that(1)] idx [OF that(1)] that(3) by force
  qed
  have ub: "upper_bound core col = (if ?n \<le> ?a then raise_bound ?r (maximum_score core) else ?r)"
    by (simp add: upper_bound_def Let_def usize_sat_sub_def)
  have raise: "\<exists>u. upper_bound core col = Some u \<and> w \<le> u" if "\<exists>u. ?r = Some u \<and> w \<le> u" for w
    using that unfolding ub raise_bound_def by auto
  from assms(4) [unfolded reach_bound_def] consider (a) b where "best_full_score col = Some b" "v \<le> b"
    | (b) i where "i < ?n" "reachable (cells col ! i)" "?n - Suc i \<le> ?a" "v \<le> cell_bound core col i"
    | (c) "?n \<le> ?a" "v \<le> maximum_score core" by blast
  then show ?thesis
  proof cases
    case a
    then show ?thesis using raise best order_trans by meson
  next
    case b
    then show ?thesis using raise cell order_trans by meson
  next
    case c
    then show ?thesis by (auto simp: ub raise_bound_def split: option.split)
  qed
qed

section \<open>The properties\<close>

text \<open>The tables of an ASCII-only platform, for the witnesses.\<close>

definition ascii_tables :: char_tables where
  "ascii_tables =
     \<lparr>uni_lowercase = (\<lambda>_. False), uni_uppercase = (\<lambda>_. False), uni_numeric = (\<lambda>_. False),
      uni_alphabetic = (\<lambda>_. False), uni_whitespace = (\<lambda>_. False), uni_to_lowercase = (\<lambda>_. []),
      main_separator = 47\<rparr>"

definition ab_core :: fzf_core where
  "ab_core = \<lparr>fz_query = [97, 98], fz_config = fzf_config_default, max_bonus = 10\<rparr>"

lemma config_default_ok: "config_ok fzf_config_default"
  by (simp add: config_ok_def fzf_config_default_def usize_max_def)

lemma ab_core_new: "core_new ascii_tables [65, 98] fzf_config_default = Inr ab_core"
  by (simp add: core_new_def fzf_config_default_def ab_core_def comparable_char_def is_ascii_def
      to_ascii_lowercase_def score_consts)

text \<open>
  C6: fzf matching is subsequence matching. A candidate within the length limit gets a score
  exactly when the case-folded query is a subsequence of the case-folded candidate, the score
  then lies between 0 and \<open>maximum_score\<close>; a longer candidate is an error that names its length
  limit, never a wrong score.
\<close>

theorem fzf_score_chars_correct:
  assumes "core_new U q config = Inr core" and "config_ok config"
  shows "score_chars U core w =
      (if length w \<le> max_candidate_chars config then Inr (path_score_of U core w)
       else Inl (CandidateTooLong (usize_sat_add (max_candidate_chars config) 1) (max_candidate_chars config))) \<and>
    (path_score_of U core w \<noteq> None \<longleftrightarrow>
       subseq (map (\<lambda>c. comparable_char U c (case_sensitive config)) q)
         (map (\<lambda>c. comparable_char U c (case_sensitive config)) w)) \<and>
    (\<forall>v \<in> set_option (path_score_of U core w). 0 \<le> v \<and> v \<le> maximum_score core)"
  using score_chars_eq [of core U w] path_score_Some_iff [of core U w] score_range [of core U w]
    core_new_ok [OF assms]
  by (auto simp: folded_def)

theorem fzf_score_chars_correct_witness:
  "score_chars ascii_tables ab_core [120, 65, 66] = Inr (path_score_of ascii_tables ab_core [120, 65, 66]) \<and>
   path_score_of ascii_tables ab_core [120, 65, 66] \<noteq> None"
proof -
  have "subseq (map (\<lambda>c. comparable_char ascii_tables c False) [65, 98])
      (map (\<lambda>c. comparable_char ascii_tables c False) [120, 65, 66])"
    by (simp add: comparable_char_def is_ascii_def to_ascii_lowercase_def)
  moreover have "case_sensitive fzf_config_default = False" "3 \<le> max_candidate_chars fzf_config_default"
    by (simp_all add: fzf_config_default_def)
  ultimately show ?thesis
    using fzf_score_chars_correct [OF ab_core_new config_default_ok, of "[120, 65, 66]"] by simp
qed

lemma upper_bound_scored:
  assumes "core_new U q config = Inr core" and "config_ok config"
    and "score_chars U core (p @ s) = Inr (Some v)"
  shows "\<exists>u. upper_bound core (column_of U core p) = Some u \<and> v \<le> u"
proof -
  note ok = core_new_ok [OF assms(1,2)]
  have lim: "length (p @ s) \<le> max_candidate_chars config" and v: "path_score_of U core (p @ s) = Some v"
    using assms(3) score_chars_eq [OF ok(1), of U "p @ s"] ok(2) by (simp_all split: if_splits)
  have "max_candidate_chars config \<le> usize_max" using assms(2) by (simp add: config_ok_def)
  then have d: "depth (column_of U core p) = length p" using lim by (simp add: depth_column_of)
  have "reach_bound core (column_of U core p) (length s) v" by (rule reach_bound_path [OF ok(1) v])
  then have "reach_bound core (column_of U core p) (max_candidate_chars config - length p) v"
    using lim by (auto simp: reach_bound_def)
  then show ?thesis
    using upper_bound_reach [OF ok(1) column_of_ok [OF ok(1)], of U p v] lim d ok(2) by simp
qed

text \<open>
  C5: the upper bound of a prefix is sound, saturation included: if any extension of the prefix,
  within the length limit, has a score, the prefix has a bound and the bound is at least that
  score. A prefix without a bound has no scored extension.
\<close>

theorem fzf_upper_bound_sound:
  assumes "core_new U q config = Inr core" and "config_ok config"
    and "score_chars U core (p @ s) = Inr (Some v)"
  shows "\<exists>u. upper_bound core (column_of U core p) = Some u \<and> v \<le> u"
  using assms by (rule upper_bound_scored)

theorem fzf_upper_bound_sound_witness:
  "\<exists>u. upper_bound ab_core (column_of ascii_tables ab_core [97]) = Some u \<and> 0 \<le> u"
proof -
  have "path_score_of ascii_tables ab_core ([97] @ [98]) \<noteq> None"
    using path_score_Some_iff [OF core_new_ok(1) [OF ab_core_new config_default_ok], of ascii_tables "[97, 98]"]
    by (simp add: ab_core_def folded_def comparable_char_def fzf_config_default_def is_ascii_def to_ascii_lowercase_def)
  then obtain v where v: "path_score_of ascii_tables ab_core ([97] @ [98]) = Some v" by blast
  then have "score_chars ascii_tables ab_core ([97] @ [98]) = Inr (Some v)"
    using score_chars_eq [OF core_new_ok(1) [OF ab_core_new config_default_ok], of ascii_tables "[97, 98]"]
    by (simp add: ab_core_def fzf_config_default_def)
  from fzf_upper_bound_sound [OF ab_core_new config_default_ok this]
    score_range(1) [OF core_new_ok(1) [OF ab_core_new config_default_ok] v]
  show ?thesis by fastforce
qed

end
