(* ===== verification/Fzf_Scorer.thy ===== *)
theory Fzf_Scorer
  imports Fzf_Bounds
begin

text \<open>
  \<open>src/fzf_scorer.rs\<close>: the scorer that follows a depth-first traversal. It keeps a column per entered
  character, the best \<open>top_k\<close> scores seen, and counters. The vector of columns is a list whose last
  element is the top; the heap of \<open>Reverse\<close> scores is a list in ascending order (push keeps it sorted,
  peek and pop take its head). An \<open>expect\<close> that would fail is the result None.
\<close>

record fzf_stats =
  columns_computed :: usize
  candidates_scored :: usize
  prefixes_pruned :: usize
  score_bound_prefixes_pruned :: usize
  length_prefixes_pruned :: usize
  upper_bounds_computed :: usize

definition stats_default :: fzf_stats where
  "stats_default =
     \<lparr>columns_computed = 0, candidates_scored = 0, prefixes_pruned = 0, score_bound_prefixes_pruned = 0,
      length_prefixes_pruned = 0, upper_bounds_computed = 0\<rparr>"

record fzf_scorer =
  sc_core :: fzf_core
  columns :: "fzf_column list"
  top_scores :: "i32 list"
  sc_stats :: fzf_stats

definition scorer_with_config :: "char_tables \<Rightarrow> uchar list \<Rightarrow> fzf_config \<Rightarrow> fzf_error + fzf_scorer" where
  "scorer_with_config U query config =
     (case core_new U query config of
        Inl e \<Rightarrow> Inl e
      | Inr core \<Rightarrow> Inr \<lparr>sc_core = core, columns = [initial_column core], top_scores = [], sc_stats = stats_default\<rparr>)"

definition scorer_score :: "char_tables \<Rightarrow> fzf_scorer \<Rightarrow> uchar list \<Rightarrow> fzf_error + i32 option" where
  "scorer_score U s candidate = score_chars U (sc_core s) candidate"

definition current_column :: "fzf_scorer \<Rightarrow> fzf_column option" where
  "current_column s = (if columns s = [] then None else Some (last (columns s)))"

definition cutoff :: "fzf_scorer \<Rightarrow> i32 option" where
  "cutoff s =
     (let k = top_k (fz_config (sc_core s))
      in if k > 0 \<and> length (top_scores s) = k then Some (hd (top_scores s)) else None)"

definition current_upper_bound :: "fzf_scorer \<Rightarrow> i32 option option" where
  "current_upper_bound s = map_option (upper_bound (sc_core s)) (current_column s)"

definition reset_observations :: "fzf_scorer \<Rightarrow> fzf_scorer" where
  "reset_observations s = s\<lparr>top_scores := [], sc_stats := stats_default\<rparr>"

text \<open>\<open>observe_score\<close> on the heap of scores.\<close>

definition observe :: "usize \<Rightarrow> i32 \<Rightarrow> i32 list \<Rightarrow> i32 list" where
  "observe k v scores =
     (if k = 0 then scores
      else if length scores < k then insort v scores
      else if v > hd scores then insort v (tl scores)
      else scores)"

definition observe_score :: "i32 \<Rightarrow> fzf_scorer \<Rightarrow> fzf_scorer" where
  "observe_score v s = s\<lparr>top_scores := observe (top_k (fz_config (sc_core s))) v (top_scores s)\<rparr>"

definition bump :: "usize \<Rightarrow> usize" where
  "bump n = usize_sat_add n 1"

definition count_column :: "fzf_stats \<Rightarrow> fzf_stats" where
  "count_column st = st\<lparr>columns_computed := bump (columns_computed st)\<rparr>"

definition count_length_prune :: "fzf_stats \<Rightarrow> fzf_stats" where
  "count_length_prune st =
     st\<lparr>length_prefixes_pruned := bump (length_prefixes_pruned st), prefixes_pruned := bump (prefixes_pruned st)\<rparr>"

definition count_bound :: "fzf_stats \<Rightarrow> fzf_stats" where
  "count_bound st = st\<lparr>upper_bounds_computed := bump (upper_bounds_computed st)\<rparr>"

definition count_score_prune :: "fzf_stats \<Rightarrow> fzf_stats" where
  "count_score_prune st =
     st\<lparr>score_bound_prefixes_pruned := bump (score_bound_prefixes_pruned st), prefixes_pruned := bump (prefixes_pruned st)\<rparr>"

definition score_can_survive :: "i32 option \<Rightarrow> i32 option \<Rightarrow> bool" where
  "score_can_survive bound threshold =
     (case (bound, threshold) of
        (None, _) \<Rightarrow> False
      | (Some _, None) \<Rightarrow> True
      | (Some u, Some t) \<Rightarrow> u \<ge> t)"

definition enter :: "char_tables \<Rightarrow> fzf_scorer \<Rightarrow> uchar \<Rightarrow> usize \<Rightarrow> (bool \<times> fzf_scorer) option" where
  "enter U s unit level =
     (case current_column s of
        None \<Rightarrow> None
      | Some col \<Rightarrow>
          (let s1 = s\<lparr>columns := columns s @ [advance U (sc_core s) col unit], sc_stats := count_column (sc_stats s)\<rparr>
           in if level > max_candidate_chars (fz_config (sc_core s))
              then Some (False, s1\<lparr>sc_stats := count_length_prune (sc_stats s1)\<rparr>)
              else
                (let s2 = s1\<lparr>sc_stats := count_bound (sc_stats s1)\<rparr>
                 in case current_upper_bound s2 of
                      None \<Rightarrow> None
                    | Some bound \<Rightarrow>
                        if score_can_survive bound (cutoff s2) then Some (True, s2)
                        else Some (False, s2\<lparr>sc_stats := count_score_prune (sc_stats s2)\<rparr>))))"

definition leave :: "fzf_scorer \<Rightarrow> fzf_scorer" where
  "leave s = s\<lparr>columns := butlast (columns s)\<rparr>"

definition permits_accept :: "fzf_scorer \<Rightarrow> bool option" where
  "permits_accept s = map_option (\<lambda>col. best_full_score col \<noteq> None) (current_column s)"

text \<open>\<open>f64::from(i32)\<close> and \<open>f64 as i32\<close>.\<close>

definition f64_from_i32 :: "i32 \<Rightarrow> f64" where
  "f64_from_i32 v = F64 (of_int v)"

definition f64_as_i32 :: "f64 \<Rightarrow> i32" where
  "f64_as_i32 x = (case x of F64_NaN \<Rightarrow> 0 | F64_NegInf \<Rightarrow> i32_min | F64_PosInf \<Rightarrow> i32_max
     | F64 r \<Rightarrow> i32_sat (if r \<ge> 0 then \<lfloor>r\<rfloor> else \<lceil>r\<rceil>))"

lemma f64_as_i32_from: "i32_min \<le> v \<Longrightarrow> v \<le> i32_max \<Longrightarrow> f64_as_i32 (f64_from_i32 v) = v"
  by (simp add: f64_as_i32_def f64_from_i32_def i32_sat_def)

definition count_scored :: "fzf_stats \<Rightarrow> fzf_stats" where
  "count_scored st = st\<lparr>candidates_scored := bump (candidates_scored st)\<rparr>"

definition accept :: "fzf_scorer \<Rightarrow> (f64 option \<times> fzf_scorer) option" where
  "accept s =
     (case current_column s of
        None \<Rightarrow> None
      | Some col \<Rightarrow>
          (case best_full_score col of
             None \<Rightarrow> Some (None, s)
           | Some v \<Rightarrow>
               Some (Some (f64_from_i32 v),
                 observe_score v (s\<lparr>sc_stats := count_scored (sc_stats s)\<rparr>))))"

section \<open>The retained scores\<close>

text \<open>The heap holds the \<open>k\<close> largest scores that were observed.\<close>

definition largest :: "nat \<Rightarrow> i32 list \<Rightarrow> i32 list" where
  "largest k xs = drop (length xs - k) (sort xs)"

lemma sort_snoc: "sort (xs @ [x]) = insort x (sort xs)"
  by (induction xs) (simp_all add: insort_left_comm)

lemma insort_split:
  assumes "sorted ys"
  shows "insort (x :: 'a :: linorder) ys = takeWhile (\<lambda>y. y < x) ys @ x # dropWhile (\<lambda>y. y < x) ys"
  using assms by (induction ys) auto

lemma drop_insort:
  assumes "sorted ys" and "n < length ys"
  shows "drop (Suc n) (insort (x :: 'a :: linorder) ys) = (if x > ys ! n then insort x (drop (Suc n) ys) else drop n ys)"
  using assms
proof (induction ys arbitrary: n)
  case (Cons y ys)
  show ?case
  proof (cases n)
    case 0
    then show ?thesis using Cons.prems by (cases ys) auto
  next
    case (Suc m)
    then have m: "m < length ys" "sorted ys" using Cons.prems by simp_all
    have "y \<le> ys ! m" using Cons.prems m(1) by simp
    then show ?thesis using Cons.IH [OF m(2,1)] Suc by (auto simp: drop_Cons')
  qed
qed simp

lemma observe_largest:
  assumes "k > 0"
  shows "observe k x (largest k xs) = largest k (xs @ [x])"
proof (cases "length xs < k")
  case True
  then show ?thesis using assms by (simp add: observe_def largest_def sort_snoc)
next
  case False
  define n where "n = length xs - k"
  have n: "n < length (sort xs)" "length (xs @ [x]) - k = Suc n" using False assms by (simp_all add: n_def)
  have "largest k xs = drop n (sort xs)" by (simp add: largest_def n_def)
  moreover have "length (drop n (sort xs)) = k" using False by (simp add: n_def)
  moreover have "hd (drop n (sort xs)) = sort xs ! n" using n(1) by (simp add: hd_drop_conv_nth)
  ultimately show ?thesis
    using assms drop_insort [OF sorted_sort n(1), of x] n
    by (simp add: observe_def largest_def [of k "xs @ [x]"] sort_snoc tl_drop drop_Suc del: length_append)
qed

section \<open>Following a traversal\<close>

text \<open>
  The visitor's contract: \<open>enter\<close> reads one more character of the current path, at depth one more
  than its length, and \<open>leave\<close> takes the last one back. The scorer tracks the path: its columns are
  those of the prefixes of the path, shortest first.
\<close>

definition tracks :: "char_tables \<Rightarrow> fzf_scorer \<Rightarrow> uchar list \<Rightarrow> bool" where
  "tracks U s p \<longleftrightarrow>
     columns s = map (\<lambda>n. column_of U (sc_core s) (take n p)) [0..<Suc (length p)]"

lemma tracks_current: "tracks U s p \<Longrightarrow> current_column s = Some (column_of U (sc_core s) p)"
  by (simp add: tracks_def current_column_def)

lemma tracks_new:
  "scorer_with_config U q config = Inr s \<Longrightarrow>
     core_new U q config = Inr (sc_core s) \<and> tracks U s [] \<and> top_scores s = []"
  by (auto simp: scorer_with_config_def tracks_def split: sum.splits)

lemma prefix_columns:
  "map (\<lambda>n. column_of U core (take n (p @ [c]))) [0..<Suc (length (p @ [c]))] =
   map (\<lambda>n. column_of U core (take n p)) [0..<Suc (length p)] @ [advance U core (column_of U core p) c]"
proof -
  have "map (\<lambda>n. column_of U core (take n (p @ [c]))) [0..<Suc (length p)] =
      map (\<lambda>n. column_of U core (take n p)) [0..<Suc (length p)]"
    by (rule map_cong) auto
  then show ?thesis by simp
qed

lemma tracks_push:
  assumes "tracks U s p" and "sc_core s' = sc_core s"
    and "columns s' = columns s @ [advance U (sc_core s) (column_of U (sc_core s) p) c]"
  shows "tracks U s' (p @ [c])"
  using assms unfolding tracks_def prefix_columns by simp

lemma tracks_pop:
  assumes "tracks U s (p @ [c])"
  shows "tracks U (leave s) p"
  using assms unfolding tracks_def prefix_columns by (simp add: leave_def del: upt_Suc)

text \<open>Everything \<open>enter\<close> does but count.\<close>

lemma enter_tracks:
  assumes "tracks U s p"
  obtains b s' where "enter U s c l = Some (b, s')" and "tracks U s' (p @ [c])"
    and "sc_core s' = sc_core s" and "top_scores s' = top_scores s"
    and "b \<longleftrightarrow> l \<le> max_candidate_chars (fz_config (sc_core s)) \<and>
           score_can_survive (upper_bound (sc_core s) (column_of U (sc_core s) (p @ [c]))) (cutoff s)"
proof -
  let ?next = "advance U (sc_core s) (column_of U (sc_core s) p) c"
  let ?s1 = "s\<lparr>columns := columns s @ [?next], sc_stats := count_column (sc_stats s)\<rparr>"
  let ?s2 = "?s1\<lparr>sc_stats := count_bound (sc_stats ?s1)\<rparr>"
  have cur: "current_upper_bound ?s2 = Some (upper_bound (sc_core s) (column_of U (sc_core s) (p @ [c])))"
    by (simp add: current_upper_bound_def current_column_def)
  have cut: "cutoff ?s2 = cutoff s" by (simp add: cutoff_def Let_def)
  show ?thesis
  proof (cases "l > max_candidate_chars (fz_config (sc_core s))")
    case True
    let ?r = "?s1\<lparr>sc_stats := count_length_prune (sc_stats ?s1)\<rparr>"
    have "enter U s c l = Some (False, ?r)" using True tracks_current [OF assms] by (simp add: enter_def Let_def)
    moreover have "tracks U ?r (p @ [c])" by (rule tracks_push [OF assms]) simp_all
    ultimately show ?thesis using True that [of False ?r] by simp
  next
    case False
    let ?ok = "score_can_survive (upper_bound (sc_core s) (column_of U (sc_core s) (p @ [c]))) (cutoff s)"
    let ?r = "if ?ok then ?s2 else ?s2\<lparr>sc_stats := count_score_prune (sc_stats ?s2)\<rparr>"
    have "enter U s c l = Some (?ok, ?r)"
      using False tracks_current [OF assms] cur cut by (simp add: enter_def Let_def)
    moreover have "tracks U ?r (p @ [c])" by (rule tracks_push [OF assms]) simp_all
    ultimately show ?thesis using False that [of ?ok ?r] by simp
  qed
qed

lemma accept_tracks:
  assumes "tracks U s p"
  shows "permits_accept s = Some (path_score_of U (sc_core s) p \<noteq> None)"
    and "\<exists>s'. accept s = Some (map_option f64_from_i32 (path_score_of U (sc_core s) p), s') \<and>
      tracks U s' p \<and> sc_core s' = sc_core s \<and>
      top_scores s' = (case path_score_of U (sc_core s) p of None \<Rightarrow> top_scores s
        | Some v \<Rightarrow> observe (top_k (fz_config (sc_core s))) v (top_scores s))"
  using tracks_current [OF assms] assms
  by (auto simp: permits_accept_def accept_def path_score_of_def tracks_def observe_score_def split: option.splits)

text \<open>A pruned subtree holds no score that the heap would keep.\<close>

lemma pruned_scores:
  assumes "core_new U q config = Inr core" and "config_ok config"
    and "\<not> score_can_survive (upper_bound core (column_of U core p)) threshold"
    and "length (p @ r) \<le> max_candidate_chars config" and "path_score_of U core (p @ r) = Some v"
  shows "\<exists>t. threshold = Some t \<and> v < t"
proof -
  note ok = core_new_ok [OF assms(1,2)]
  have "score_chars U core (p @ r) = Inr (Some v)"
    using score_chars_eq [OF ok(1), of U "p @ r"] ok(2) assms(4,5) by simp
  then have "\<exists>u. upper_bound core (column_of U core p) = Some u \<and> v \<le> u"
    using upper_bound_scored [OF assms(1,2)] by blast
  then show ?thesis using assms(3) by (auto simp: score_can_survive_def split: option.splits)
qed

end
