(* ===== verification/Fzf_Ranking.thy ===== *)
theory Fzf_Ranking
  imports Fzf_Scorer "HOL-Library.List_Lexorder" "HOL-Library.Multiset"
begin

text \<open>
  \<open>src/ffi/fzf.rs\<close>, \<open>ranked\<close>: the bounded depth-first branch-and-bound search that ranks the terms of a
  dictionary, with an explicit stack of events, a work limit and a heap of the best hits. The
  heap of \<open>Reverse\<close> hits is a list in ascending order, as in \<open>Fzf_Scorer\<close>; the stack's top is the
  head of its list.
\<close>

section \<open>Hits\<close>

datatype ranked_hit = RankedHit (hit_term: "uchar list") (hit_score: i32)

text \<open>\<open>Ord for RankedHit\<close>: by score, then by the term, the smaller term being the greater hit.\<close>

definition hit_before :: "ranked_hit \<Rightarrow> ranked_hit \<Rightarrow> bool" where
  "hit_before a b \<longleftrightarrow> hit_score a < hit_score b \<or> hit_score a = hit_score b \<and> hit_term b < hit_term a"

instantiation ranked_hit :: linorder
begin

definition less_ranked_hit :: "ranked_hit \<Rightarrow> ranked_hit \<Rightarrow> bool" where
  "less_ranked_hit = hit_before"

definition less_eq_ranked_hit :: "ranked_hit \<Rightarrow> ranked_hit \<Rightarrow> bool" where
  "less_eq_ranked_hit a b \<longleftrightarrow> a = b \<or> a < b"

instance
  by standard
    (auto simp: less_ranked_hit_def hit_before_def less_eq_ranked_hit_def ranked_hit.expand intro: ranked_hit.expand)

end

section \<open>The search\<close>

datatype 'n walk_event = EnterNode uchar 'n usize | LeaveNode uchar usize

datatype rank_error = RankInvalidArgument | RankLimitExceeded | RankPanic

record 'n walk_state =
  w_stack :: "'n walk_event list"
  w_prefix :: "uchar list"
  w_work :: usize
  w_scorer :: fzf_scorer
  w_heap :: "ranked_hit list"

definition push_children :: "('n, 'u) dictionary \<Rightarrow> usize \<Rightarrow> 'n \<Rightarrow> usize \<Rightarrow> 'n walk_state \<Rightarrow> rank_error + 'n walk_state" where
  "push_children D limit node level w =
     (let remaining = usize_sat_sub limit (w_work w);
          children = take (usize_sat_add remaining 1) (node_edges D node)
      in if length children > remaining then Inl RankLimitExceeded
         else Inr (w\<lparr>w_work := w_work w + length children,
                     w_stack := map (\<lambda>(u, m). EnterNode (unit_char D u) m (level + 1)) children @ w_stack w\<rparr>))"

text \<open>A hit enters a heap that is not full, or replaces the worst hit when it beats it.\<close>

definition offer :: "usize \<Rightarrow> ranked_hit \<Rightarrow> ranked_hit list \<Rightarrow> ranked_hit list" where
  "offer k hit heap =
     (if length heap < k then insort hit heap
      else if heap \<noteq> [] \<and> hit > hd heap then insort hit (tl heap)
      else heap)"

text \<open>The scoring of a final node: nothing, or the scorer and heap after \<open>accept\<close>.\<close>

definition accept_node :: "usize \<Rightarrow> 'n walk_state \<Rightarrow> rank_error + 'n walk_state" where
  "accept_node k w =
     (case permits_accept (w_scorer w) of
        None \<Rightarrow> Inl RankPanic
      | Some False \<Rightarrow> Inr w
      | Some True \<Rightarrow>
          (case accept (w_scorer w) of
             None \<Rightarrow> Inl RankPanic
           | Some (None, s) \<Rightarrow> Inr (w\<lparr>w_scorer := s\<rparr>)
           | Some (Some v, s) \<Rightarrow>
               Inr (w\<lparr>w_scorer := s, w_heap := offer k (RankedHit (w_prefix w) (f64_as_i32 v)) (w_heap w)\<rparr>)))"

definition walk_step :: "char_tables \<Rightarrow> ('n, 'u) dictionary \<Rightarrow> usize \<Rightarrow> usize \<Rightarrow> 'n walk_event \<Rightarrow> 'n walk_state
    \<Rightarrow> rank_error + 'n walk_state" where
  "walk_step U D k limit event w =
     (case event of
        LeaveNode unit level \<Rightarrow> Inr (w\<lparr>w_scorer := leave (w_scorer w), w_prefix := butlast (w_prefix w)\<rparr>)
      | EnterNode unit node level \<Rightarrow>
          (case enter U (w_scorer w) unit level of
             None \<Rightarrow> Inl RankPanic
           | Some (False, s) \<Rightarrow> Inr (w\<lparr>w_scorer := leave s\<rparr>)
           | Some (True, s) \<Rightarrow>
               (let w1 = w\<lparr>w_scorer := s, w_prefix := w_prefix w @ [unit]\<rparr>
                in case if node_is_final D node then accept_node k w1 else Inr w1 of
                     Inl e \<Rightarrow> Inl e
                   | Inr w2 \<Rightarrow> push_children D limit node level (w2\<lparr>w_stack := LeaveNode unit level # w_stack w2\<rparr>))))"

text \<open>Every step consumes an event or work, so the loop ends.\<close>

definition event_weight :: "'n walk_event \<Rightarrow> nat" where
  "event_weight ev = (case ev of EnterNode _ _ _ \<Rightarrow> 2 | LeaveNode _ _ \<Rightarrow> 1)"

definition walk_measure :: "usize \<Rightarrow> 'n walk_state \<Rightarrow> nat" where
  "walk_measure limit w = 2 * (limit - w_work w) + sum_list (map event_weight (w_stack w))"

lemma push_children_measure:
  "push_children D limit node level w = Inr w' \<Longrightarrow> walk_measure limit w' = walk_measure limit w"
proof -
  assume w': "push_children D limit node level w = Inr w'"
  define children where "children = take (usize_sat_add (limit - w_work w) 1) (node_edges D node)"
  have c: "length children \<le> limit - w_work w" "w_work w' = w_work w + length children"
    "w_stack w' = map (\<lambda>(u, m). EnterNode (unit_char D u) m (level + 1)) children @ w_stack w"
    using w' unfolding push_children_def Let_def usize_sat_sub_def children_def [symmetric]
    by (auto split: if_splits)
  have "sum_list (map event_weight (map (\<lambda>(u, m). EnterNode (unit_char D u) m (level + 1)) children)) = 2 * length children"
    by (induction children) (auto simp: event_weight_def)
  then show ?thesis using c by (simp add: walk_measure_def)
qed

lemma accept_node_keeps:
  "accept_node k w = Inr w' \<Longrightarrow> w_stack w' = w_stack w \<and> w_work w' = w_work w \<and> w_prefix w' = w_prefix w"
  by (auto simp: accept_node_def split: option.splits bool.splits)

lemma walk_step_measure:
  assumes "w_stack w = event # st" and "walk_step U D k limit event (w\<lparr>w_stack := st\<rparr>) = Inr w'"
  shows "walk_measure limit w' < walk_measure limit w"
proof (cases event)
  case (EnterNode unit node level)
  show ?thesis
  proof (cases "enter U (w_scorer w) unit level")
    case (Some r)
    obtain b s where r: "r = (b, s)" by force
    show ?thesis
    proof (cases b)
      case True
      let ?w1 = "w\<lparr>w_stack := st, w_scorer := s, w_prefix := w_prefix w @ [unit]\<rparr>"
      obtain w2 where w2: "(if node_is_final D node then accept_node k ?w1 else Inr ?w1) = Inr w2"
        "push_children D limit node level (w2\<lparr>w_stack := LeaveNode unit level # w_stack w2\<rparr>) = Inr w'"
        using assms(2) EnterNode Some r True by (auto simp: walk_step_def Let_def split: sum.splits)
      have "w_stack w2 = st \<and> w_work w2 = w_work w"
        using w2(1) accept_node_keeps [of k ?w1 w2] by (auto split: if_splits)
      then show ?thesis
        using push_children_measure [OF w2(2)] assms(1) EnterNode by (simp add: walk_measure_def event_weight_def)
    qed (use assms EnterNode Some r in \<open>auto simp: walk_step_def walk_measure_def event_weight_def\<close>)
  qed (use assms EnterNode in \<open>simp add: walk_step_def\<close>)
qed (use assms in \<open>auto simp: walk_step_def walk_measure_def event_weight_def\<close>)

function walk_loop :: "char_tables \<Rightarrow> ('n, 'u) dictionary \<Rightarrow> usize \<Rightarrow> usize \<Rightarrow> 'n walk_state \<Rightarrow> rank_error + 'n walk_state" where
  "walk_loop U D k limit w =
     (case w_stack w of
        [] \<Rightarrow> Inr w
      | event # st \<Rightarrow>
          (case walk_step U D k limit event (w\<lparr>w_stack := st\<rparr>) of
             Inl e \<Rightarrow> Inl e
           | Inr w' \<Rightarrow> walk_loop U D k limit w'))"
  by auto
termination
  by (relation "measure (\<lambda>(U, D, k, limit, w). walk_measure limit w)")
    (auto intro: walk_step_measure)

declare walk_loop.simps [simp del]

record fzf_ranking =
  rk_hits :: "ranked_hit list"
  rk_stats :: fzf_stats
  rk_result_count :: usize
  rk_work_units :: usize

text \<open>\<open>ranked\<close> after \<open>parse\<close>: \<open>limit\<close> is \<open>work_units\<close>. The root is scored before the loop.\<close>

definition ranked :: "char_tables \<Rightarrow> ('n, 'u) dictionary \<Rightarrow> uchar list \<Rightarrow> fzf_config \<Rightarrow> usize \<Rightarrow> rank_error + fzf_ranking" where
  "ranked U D query config limit =
     (if top_k config = 0 then Inl RankInvalidArgument
      else case scorer_with_config U query config of
             Inl _ \<Rightarrow> Inl RankLimitExceeded
           | Inr s \<Rightarrow>
               (let w = \<lparr>w_stack = [], w_prefix = [], w_work = 0, w_scorer = s, w_heap = []\<rparr>
                in case if node_is_final D (dict_root D) then accept_node (top_k config) w else Inr w of
                     Inl e \<Rightarrow> Inl e
                   | Inr w1 \<Rightarrow>
                       (case push_children D limit (dict_root D) 0 w1 of
                          Inl e \<Rightarrow> Inl e
                        | Inr w2 \<Rightarrow>
                            (case walk_loop U D (top_k config) limit w2 of
                               Inl e \<Rightarrow> Inl e
                             | Inr w3 \<Rightarrow>
                                 (let hits = rev (sort (w_heap w3))
                                  in Inr \<lparr>rk_hits = hits, rk_stats = sc_stats (w_scorer w3),
                                          rk_result_count = length hits, rk_work_units = w_work w3\<rparr>)))))"

section \<open>The heap and the scores\<close>

lemma hd_sorted_le: "sorted xs \<Longrightarrow> x \<in> set xs \<Longrightarrow> hd xs \<le> x"
  by (cases xs) auto

lemma less_hit: "RankedHit s v < RankedHit t u \<longleftrightarrow> v < u \<or> v = u \<and> t < s"
  by (simp add: less_ranked_hit_def hit_before_def)

lemma sorted_hit_scores: "sorted hs \<Longrightarrow> sorted (map hit_score hs)"
proof (induction hs)
  case (Cons h hs)
  then show ?case by (auto simp: less_eq_ranked_hit_def less_ranked_hit_def hit_before_def)
qed simp

lemma scores_insort:
  assumes "sorted hs"
  shows "map hit_score (insort h hs) = insort (hit_score h) (map hit_score hs)"
proof -
  have "mset (map hit_score (insort h hs)) = mset (insort (hit_score h) (map hit_score hs))" by simp
  moreover have "sorted (map hit_score (insort h hs))" "sorted (insort (hit_score h) (map hit_score hs))"
    using assms by (simp_all add: sorted_hit_scores sorted_insort)
  ultimately show ?thesis by (metis properties_for_sort)
qed

text \<open>The scorer's heap of scores is the heap of hits without the terms: the two stay in step.\<close>

lemma offer_scores:
  assumes "sorted hs" and "k > 0" and "length hs \<le> k"
  shows "map hit_score (offer k h hs) = observe k (hit_score h) (map hit_score hs)"
proof (cases "length hs < k")
  case True
  then show ?thesis using assms by (simp add: offer_def observe_def scores_insort)
next
  case False
  then obtain g gs where hs: "hs = g # gs" "length hs = k" using assms by (cases hs) auto
  have gs: "sorted gs" "\<forall>x \<in> set gs. hit_score g \<le> hit_score x"
    using assms(1) sorted_hit_scores [OF assms(1)] hs by simp_all
  show ?thesis
  proof (cases "hit_score h > hit_score g")
    case True
    then have "g < h" by (simp add: less_ranked_hit_def hit_before_def)
    then show ?thesis using hs False True assms(2) gs(1) by (simp add: offer_def observe_def scores_insort)
  next
    case no: False
    show ?thesis
    proof (cases "g < h")
      case True
      then have eq: "hit_score h = hit_score g" using no by (auto simp: less_ranked_hit_def hit_before_def)
      have "insort (hit_score g) (map hit_score gs) = hit_score g # map hit_score gs"
        using gs(2) by (cases gs) auto
      then show ?thesis using hs False no True eq assms(2) gs(1) by (simp add: offer_def observe_def scores_insort)
    qed (use hs False no assms(2) in \<open>simp add: offer_def observe_def\<close>)
  qed
qed

text \<open>What the heap promises of the hits seen so far (\<open>H\<close>): it holds the \<open>k\<close> greatest.\<close>

definition holds_best :: "usize \<Rightarrow> ranked_hit set \<Rightarrow> ranked_hit list \<Rightarrow> bool" where
  "holds_best k H heap \<longleftrightarrow> sorted heap \<and> distinct heap \<and> length heap \<le> k \<and> set heap \<subseteq> H \<and>
     (\<forall>h \<in> H - set heap. length heap = k \<and> (\<forall>g \<in> set heap. h < g))"

lemma holds_best_offer:
  assumes "holds_best k H heap" and "h \<notin> H" and "k > 0"
  shows "holds_best k (insert h H) (offer k h heap)"
proof (cases "length heap < k")
  case True
  then have "H = set heap" using assms(1) unfolding holds_best_def by blast
  then show ?thesis
    using True assms by (auto simp: offer_def holds_best_def sorted_insort set_insort_key distinct_insort)
next
  case False
  then obtain g gs where heap: "heap = g # gs" "length heap = k"
    using assms(1,3) by (cases heap) (auto simp: holds_best_def)
  have best: "sorted gs" "\<forall>x \<in> set gs. g < x" "distinct gs" "g \<notin> set gs" "set heap \<subseteq> H"
    using assms(1) heap by (auto simp: holds_best_def less_le)
  have rest: "x < y" if "x \<in> H - set heap" "y \<in> set heap" for x y
    using assms(1) that unfolding holds_best_def by blast
  show ?thesis
  proof (cases "g < h")
    case True
    have "x < y" if "x \<in> insert h H" "x \<notin> set (insort h gs)" "y \<in> set (insort h gs)" for x y
    proof -
      have x: "x = g \<or> x \<in> H - set heap" and y: "y = h \<or> y \<in> set gs" using that heap by (auto simp: set_insort_key)
      then show ?thesis using True best(2) rest [of x g] rest [of x y] heap by (auto intro: less_trans)
    qed
    then show ?thesis
      using True heap False best assms(2)
      by (auto simp: offer_def holds_best_def sorted_insort set_insort_key distinct_insort)
  next
    case no: False
    have "h \<noteq> g" using assms(2) best(5) heap by auto
    then have "h < y" if "y \<in> set heap" for y using no best(2) heap that by (auto intro: less_trans)
    then show ?thesis using no heap False assms(1) by (auto simp: offer_def holds_best_def)
  qed
qed

lemma holds_best_drop:
  assumes "holds_best k H heap" and "\<forall>h \<in> X. length heap = k \<and> (\<forall>g \<in> set heap. h < g)"
  shows "holds_best k (H \<union> X) heap"
  using assms unfolding holds_best_def by blast

section \<open>The hits below a node\<close>

definition hits_below :: "char_tables \<Rightarrow> ('n, 'u) dictionary \<Rightarrow> fzf_core \<Rightarrow> uchar list \<Rightarrow> 'n \<Rightarrow> ranked_hit set" where
  "hits_below U D core p n =
     {RankedHit (p @ r) v | r v. (\<exists>m. walk D n r = Some m \<and> node_is_final D m) \<and>
        length (p @ r) \<le> max_candidate_chars (fz_config core) \<and> path_score_of U core (p @ r) = Some v}"

definition own_hit :: "char_tables \<Rightarrow> ('n, 'u) dictionary \<Rightarrow> fzf_core \<Rightarrow> uchar list \<Rightarrow> 'n \<Rightarrow> ranked_hit set" where
  "own_hit U D core p n =
     (if node_is_final D n then RankedHit p ` set_option (path_score_of U core p) else {})"

lemma hits_below_term: "h \<in> hits_below U D core p n \<Longrightarrow> \<exists>r. hit_term h = p @ r"
  by (auto simp: hits_below_def)

lemma hits_below_unfold:
  assumes "dictionary_ok D" and "length p \<le> max_candidate_chars (fz_config core)"
  shows "hits_below U D core p n =
    own_hit U D core p n \<union> (\<Union>(u, m) \<in> set (node_edges D n). hits_below U D core (p @ [unit_char D u]) m)"
proof (intro set_eqI iffI)
  fix h assume "h \<in> hits_below U D core p n"
  then obtain r v m where h: "h = RankedHit (p @ r) v" "walk D n r = Some m" "node_is_final D m"
    "length (p @ r) \<le> max_candidate_chars (fz_config core)" "path_score_of U core (p @ r) = Some v"
    by (auto simp: hits_below_def)
  show "h \<in> own_hit U D core p n \<union> (\<Union>(u, m) \<in> set (node_edges D n). hits_below U D core (p @ [unit_char D u]) m)"
  proof (cases r)
    case Nil
    then show ?thesis using h by (auto simp: own_hit_def)
  next
    case (Cons c cs)
    then obtain m' where m': "child_by D n c = Some m'" "walk D m' cs = Some m"
      using h(2) by (auto split: option.splits)
    obtain u where "(u, m') \<in> set (node_edges D n)" "unit_char D u = c" using child_by_SomeD [OF m'(1)] .
    then show ?thesis using h m'(2) Cons by (force simp: hits_below_def)
  qed
next
  fix h assume "h \<in> own_hit U D core p n \<union> (\<Union>(u, m) \<in> set (node_edges D n). hits_below U D core (p @ [unit_char D u]) m)"
  then consider "h \<in> own_hit U D core p n"
    | u m where "(u, m) \<in> set (node_edges D n)" "h \<in> hits_below U D core (p @ [unit_char D u]) m" by auto
  then show "h \<in> hits_below U D core p n"
  proof cases
    case 1
    then show ?thesis using assms(2) unfolding hits_below_def own_hit_def
      by (auto split: if_splits intro!: exI [of _ "[]"])
  next
    case 2
    then obtain r v m' where h: "h = RankedHit (p @ unit_char D u # r) v" "walk D m r = Some m'" "node_is_final D m'"
      "length (p @ unit_char D u # r) \<le> max_candidate_chars (fz_config core)"
      "path_score_of U core (p @ unit_char D u # r) = Some v" by (auto simp: hits_below_def)
    moreover have "walk D n (unit_char D u # r) = Some m'" using child_by_edge [OF assms(1) 2(1)] h(2) by simp
    ultimately show ?thesis unfolding hits_below_def by blast
  qed
qed

text \<open>The hits that the events on the stack still stand for, and the shape of the stack.\<close>

fun pending :: "char_tables \<Rightarrow> ('n, 'u) dictionary \<Rightarrow> fzf_core \<Rightarrow> 'n walk_event list \<Rightarrow> uchar list \<Rightarrow> ranked_hit set" where
  "pending U D core [] p = {}"
| "pending U D core (EnterNode u n l # st) p = hits_below U D core (p @ [u]) n \<union> pending U D core st p"
| "pending U D core (LeaveNode u l # st) p = pending U D core st (butlast p)"

fun stack_ok :: "char_tables \<Rightarrow> ('n, 'u) dictionary \<Rightarrow> fzf_core \<Rightarrow> 'n walk_event list \<Rightarrow> uchar list \<Rightarrow> bool" where
  "stack_ok U D core [] p \<longleftrightarrow> p = []"
| "stack_ok U D core (EnterNode u n l # st) p \<longleftrightarrow>
     l = length p + 1 \<and> hits_below U D core (p @ [u]) n \<inter> pending U D core st p = {} \<and> stack_ok U D core st p"
| "stack_ok U D core (LeaveNode u l # st) p \<longleftrightarrow> p \<noteq> [] \<and> stack_ok U D core st (butlast p)"

abbreviation child_events :: "('n, 'u) dictionary \<Rightarrow> usize \<Rightarrow> ('u \<times> 'n) list \<Rightarrow> 'n walk_event list" where
  "child_events D level es \<equiv> map (\<lambda>(u, m). EnterNode (unit_char D u) m (level + 1)) es"

lemma pending_children:
  "pending U D core (child_events D level es @ st) p =
     (\<Union>(u, m) \<in> set es. hits_below U D core (p @ [unit_char D u]) m) \<union> pending U D core st p"
  by (induction es) auto

lemma hits_below_disjoint:
  "c \<noteq> d \<Longrightarrow> hits_below U D core (p @ [c]) m \<inter> hits_below U D core (p @ [d]) m' = {}"
  by (auto dest!: hits_below_term)

lemma stack_ok_children:
  assumes "distinct (map (\<lambda>(u, m). unit_char D u) es)"
    and "(\<Union>(u, m) \<in> set es. hits_below U D core (p @ [unit_char D u]) m) \<inter> pending U D core st p = {}"
    and "stack_ok U D core st p"
  shows "stack_ok U D core (child_events D (length p) es @ st) p"
  using assms(1,2)
proof (induction es)
  case (Cons e es)
  obtain u m where e: "e = (u, m)" by force
  have "hits_below U D core (p @ [unit_char D u]) m \<inter> hits_below U D core (p @ [unit_char D u']) m' = {}"
    if "(u', m') \<in> set es" for u' m'
    using Cons.prems(1) that e by (intro hits_below_disjoint) force
  then have "hits_below U D core (p @ [unit_char D u]) m \<inter> pending U D core (child_events D (length p) es @ st) p = {}"
    using Cons.prems(2) e unfolding pending_children by auto
  then show ?case using Cons e by auto
qed (use assms(3) in simp)

section \<open>The invariant of the search\<close>

definition walk_inv :: "char_tables \<Rightarrow> ('n, 'u) dictionary \<Rightarrow> fzf_core \<Rightarrow> 'n walk_state \<Rightarrow> bool" where
  "walk_inv U D core w \<longleftrightarrow>
     sc_core (w_scorer w) = core \<and> tracks U (w_scorer w) (w_prefix w) \<and>
     top_scores (w_scorer w) = map hit_score (w_heap w) \<and>
     stack_ok U D core (w_stack w) (w_prefix w) \<and>
     pending U D core (w_stack w) (w_prefix w) \<subseteq> hits_below U D core [] (dict_root D) \<and>
     holds_best (top_k (fz_config core))
       (hits_below U D core [] (dict_root D) - pending U D core (w_stack w) (w_prefix w)) (w_heap w)"

lemma path_score_i32:
  assumes "core_ok core" and "path_score_of U core p = Some v"
  shows "f64_as_i32 (f64_from_i32 v) = v"
proof (rule f64_as_i32_from)
  show "i32_min \<le> v" using score_range(1) [OF assms] by (simp add: i32_min_def)
  show "v \<le> i32_max" using column_of_ok [OF assms(1), of U p] assms(2) by (simp add: column_ok_def path_score_of_def)
qed

text \<open>What scoring a node does to the scorer and the heap.\<close>

lemma accept_node_own:
  assumes "core_ok core" and "sc_core (w_scorer w) = core" and "tracks U (w_scorer w) (w_prefix w)"
    and "top_scores (w_scorer w) = map hit_score (w_heap w)" and "top_k (fz_config core) > 0"
    and "holds_best (top_k (fz_config core)) H (w_heap w)"
    and "own_hit U D core (w_prefix w) n \<inter> H = {}"
  obtains s heap where
    "(if node_is_final D n then accept_node (top_k (fz_config core)) w else Inr w) =
       Inr (w\<lparr>w_scorer := s, w_heap := heap\<rparr>)"
    and "sc_core s = core" and "tracks U s (w_prefix w)" and "top_scores s = map hit_score heap"
    and "holds_best (top_k (fz_config core)) (H \<union> own_hit U D core (w_prefix w) n) heap"
proof (cases "node_is_final D n \<and> path_score_of U core (w_prefix w) \<noteq> None")
  case False
  then have own: "own_hit U D core (w_prefix w) n = {}" by (auto simp: own_hit_def)
  have "(if node_is_final D n then accept_node (top_k (fz_config core)) w else Inr w) = Inr w"
    using False accept_tracks [OF assms(3)] assms(2) by (auto simp: accept_node_def)
  then show ?thesis using that [of "w_heap w" "w_scorer w"] assms own by simp
next
  case True
  then obtain v where v: "path_score_of U core (w_prefix w) = Some v" and final: "node_is_final D n" by blast
  let ?k = "top_k (fz_config core)" and ?h = "RankedHit (w_prefix w) v"
  have own: "own_hit U D core (w_prefix w) n = {?h}" using v final by (simp add: own_hit_def)
  obtain s where s: "accept (w_scorer w) = Some (Some (f64_from_i32 v), s)" "tracks U s (w_prefix w)" "sc_core s = core"
    "top_scores s = observe ?k v (map hit_score (w_heap w))"
    using accept_tracks(2) [OF assms(3)] v assms(2,4) by auto
  have heap: "sorted (w_heap w)" "length (w_heap w) \<le> ?k" using assms(6) by (simp_all add: holds_best_def)
  have "accept_node ?k w = Inr (w\<lparr>w_scorer := s, w_heap := offer ?k ?h (w_heap w)\<rparr>)"
    using accept_tracks(1) [OF assms(3)] s(1) v assms(2) path_score_i32 [OF assms(1) v] by (simp add: accept_node_def)
  moreover have "holds_best ?k (insert ?h H) (offer ?k ?h (w_heap w))"
    using assms(5-7) own by (intro holds_best_offer) simp_all
  ultimately show ?thesis
    using that [of "offer ?k ?h (w_heap w)" s] final s own offer_scores [OF heap(1) assms(5) heap(2), of ?h] by simp
qed

lemma push_children_all:
  assumes "limit < usize_max"
  shows "push_children D limit node level w =
    (if length (node_edges D node) \<le> limit - w_work w
     then Inr (w\<lparr>w_work := w_work w + length (node_edges D node),
                 w_stack := child_events D level (node_edges D node) @ w_stack w\<rparr>)
     else Inl RankLimitExceeded)"
proof -
  have "usize_sat_add (limit - w_work w) 1 = Suc (limit - w_work w)" using assms by (simp add: usize_sat_add_def)
  then show ?thesis by (auto simp: push_children_def Let_def usize_sat_sub_def)
qed

lemma edge_labels_distinct: "dictionary_ok D \<Longrightarrow> distinct (map (\<lambda>(u, m). unit_char D u) (node_edges D n))"
  using dictionary_okD(1) [of D n] by (simp add: node_labels_def)

text \<open>
  Visiting a node: score it, then push its children over the stack \<open>st\<close>. It fails only for want of
  work, and keeps the invariant.
\<close>

lemma visit_node:
  fixes n :: 'n
  assumes "dictionary_ok D" and "core_ok core" and "top_k (fz_config core) > 0" and "limit < usize_max"
    and "sc_core (w_scorer w) = core" and "tracks U (w_scorer w) (w_prefix w)"
    and "top_scores (w_scorer w) = map hit_score (w_heap w)"
    and "length (w_prefix w) \<le> max_candidate_chars (fz_config core)"
    and "stack_ok U D core st (w_prefix w)"
  defines "B \<equiv> hits_below U D core (w_prefix w) n" and "P \<equiv> pending U D core st (w_prefix w)"
    and "A \<equiv> hits_below U D core [] (dict_root D)"
  assumes "B \<inter> P = {}" and "B \<union> P \<subseteq> A" and "holds_best (top_k (fz_config core)) (A - (B \<union> P)) (w_heap w)"
  obtains w2 where
    "(if node_is_final D n then accept_node (top_k (fz_config core)) w else Inr w) = Inr w2"
    and "w_stack w2 = w_stack w"
    and "push_children D limit n (length (w_prefix w)) (w2\<lparr>w_stack := st\<rparr>) =
      (if length (node_edges D n) \<le> limit - w_work w
       then Inr (w2\<lparr>w_work := w_work w + length (node_edges D n),
                   w_stack := child_events D (length (w_prefix w)) (node_edges D n) @ st\<rparr>)
       else Inl RankLimitExceeded)"
    and "walk_inv U D core (w2\<lparr>w_work := w_work w + length (node_edges D n),
                   w_stack := child_events D (length (w_prefix w)) (node_edges D n) @ st\<rparr>)"
proof -
  let ?p = "w_prefix w" and ?k = "top_k (fz_config core)"
  define Own where "Own = own_hit U D core ?p n"
  define C where "C = (\<Union>(u, m) \<in> set (node_edges D n). hits_below U D core (?p @ [unit_char D u]) m)"
  have B: "B = Own \<union> C" unfolding B_def Own_def C_def by (rule hits_below_unfold [OF assms(1,8)])
  have own_C: "Own \<inter> C = {}" by (auto simp: Own_def C_def own_hit_def dest!: hits_below_term split: if_splits)
  obtain s heap where s: "(if node_is_final D n then accept_node ?k w else Inr w) = Inr (w\<lparr>w_scorer := s, w_heap := heap\<rparr>)"
    "sc_core s = core" "tracks U s ?p" "top_scores s = map hit_score heap" "holds_best ?k (A - (B \<union> P) \<union> Own) heap"
    using accept_node_own [OF assms(2,5-7,3,15), where n = n and D = D] B unfolding Own_def by blast
  let ?w2 = "w\<lparr>w_scorer := s, w_heap := heap\<rparr>"
  let ?st = "child_events D (length ?p) (node_edges D n) @ st"
  have pend: "pending U D core ?st ?p = C \<union> P" unfolding pending_children C_def P_def ..
  have "A - (B \<union> P) \<union> Own = A - (C \<union> P)" using B own_C assms(13,14) by blast
  moreover have "stack_ok U D core ?st ?p"
    using assms(9,13) B by (intro stack_ok_children edge_labels_distinct [OF assms(1)]) (auto simp: C_def P_def)
  moreover have "C \<union> P \<subseteq> A" using B assms(14) by blast
  ultimately have "walk_inv U D core (?w2\<lparr>w_work := w_work w + length (node_edges D n), w_stack := ?st\<rparr>)"
    using s(2-5) pend by (simp add: walk_inv_def A_def)
  then show ?thesis
    using that [of ?w2] s(1) push_children_all [OF assms(4), of D n "length ?p" "?w2\<lparr>w_stack := st\<rparr>"] by simp
qed

text \<open>One event keeps the invariant; it can only fail for want of work, and it pays for the children it pushes.\<close>

fun edges_below :: "('n, 'u) dictionary \<Rightarrow> nat \<Rightarrow> 'n \<Rightarrow> nat" where
  "edges_below D 0 n = 0"
| "edges_below D (Suc d) n = sum_list (map (\<lambda>(u, m). 1 + edges_below D d m) (node_edges D n))"

definition event_cost :: "('n, 'u) dictionary \<Rightarrow> usize \<Rightarrow> 'n walk_event \<Rightarrow> nat" where
  "event_cost D limit ev = (case ev of EnterNode u n l \<Rightarrow> edges_below D (Suc limit - l) n | LeaveNode u l \<Rightarrow> 0)"

definition walk_cost :: "('n, 'u) dictionary \<Rightarrow> fzf_core \<Rightarrow> 'n walk_state \<Rightarrow> nat" where
  "walk_cost D core w = w_work w + sum_list (map (event_cost D (max_candidate_chars (fz_config core))) (w_stack w))"

lemma children_cost:
  assumes "l \<le> k"
  shows "length es + sum_list (map (event_cost D k) (child_events D l es)) =
    sum_list (map (\<lambda>(u, m). 1 + edges_below D (k - l) m) es)"
  using assms by (induction es) (auto simp: event_cost_def)

lemma walk_step_inv:
  assumes "dictionary_ok D" and "core_new U q config = Inr core" and "config_ok config" and "top_k config > 0"
    and "limit < usize_max" and "walk_inv U D core w" and "w_stack w = event # st"
  shows "(\<exists>w'. walk_step U D (top_k config) limit event (w\<lparr>w_stack := st\<rparr>) = Inr w' \<and> walk_inv U D core w' \<and>
            walk_cost D core w' \<le> walk_cost D core w) \<or>
         walk_step U D (top_k config) limit event (w\<lparr>w_stack := st\<rparr>) = Inl RankLimitExceeded \<and>
            limit < walk_cost D core w"
proof -
  note ok = core_new_ok [OF assms(2,3)]
  note inv = assms(6) [unfolded walk_inv_def assms(7)]
  let ?s = "w_scorer w" and ?p = "w_prefix w" and ?A = "hits_below U D core [] (dict_root D)"
  show ?thesis
  proof (cases event)
    case (LeaveNode u l)
    have stok: "?p \<noteq> []" "stack_ok U D core st (butlast ?p)" using inv LeaveNode by simp_all
    have "tracks U (leave ?s) (butlast ?p)"
      using tracks_pop [of U ?s "butlast ?p" "last ?p"] inv stok(1) by simp
    moreover have "sc_core (leave ?s) = core" "top_scores (leave ?s) = top_scores ?s"
      using inv by (simp_all add: leave_def)
    ultimately have "walk_inv U D core (w\<lparr>w_stack := st, w_scorer := leave ?s, w_prefix := butlast ?p\<rparr>)"
      using inv stok(2) LeaveNode by (simp add: walk_inv_def)
    then show ?thesis
      using LeaveNode assms(7) by (simp add: walk_step_def walk_cost_def event_cost_def)
  next
    case (EnterNode u n l)
    let ?B = "hits_below U D core (?p @ [u]) n" and ?P = "pending U D core st ?p"
    have stok: "l = length ?p + 1" "?B \<inter> ?P = {}" "stack_ok U D core st ?p" using inv EnterNode by simp_all
    have hb: "holds_best (top_k config) (?A - (?B \<union> ?P)) (w_heap w)" "?B \<union> ?P \<subseteq> ?A"
      using inv EnterNode ok(2) by simp_all
    obtain b s where e: "enter U ?s u l = Some (b, s)" "tracks U s (?p @ [u])" "sc_core s = core"
      "top_scores s = map hit_score (w_heap w)"
      "b \<longleftrightarrow> l \<le> max_candidate_chars config \<and> score_can_survive (upper_bound core (column_of U core (?p @ [u]))) (cutoff ?s)"
      using enter_tracks [of U ?s ?p u l] inv ok(2) by metis
    show ?thesis
    proof (cases b)
      case False
      have cut: "\<exists>t. cutoff ?s = Some t \<and> hit_score h < t" if hB: "h \<in> ?B" for h
      proof -
        obtain r v where h: "h = RankedHit ((?p @ [u]) @ r) v" "length ((?p @ [u]) @ r) \<le> max_candidate_chars config"
          "path_score_of U core ((?p @ [u]) @ r) = Some v" using hB unfolding hits_below_def ok(2) by blast
        then have "\<not> score_can_survive (upper_bound core (column_of U core (?p @ [u]))) (cutoff ?s)"
          using False e(5) stok(1) by simp
        then show ?thesis using pruned_scores [OF assms(2,3) _ h(2,3)] h(1) by simp
      qed
      have "\<forall>h \<in> ?B. length (w_heap w) = top_k config \<and> (\<forall>g \<in> set (w_heap w). h < g)"
      proof
        fix h assume "h \<in> ?B"
        then obtain t where t: "cutoff ?s = Some t" "hit_score h < t" using cut by blast
        have full: "length (w_heap w) = top_k config" "w_heap w \<noteq> []" "t = hd (map hit_score (w_heap w))"
          using t(1) inv ok(2) by (auto simp: cutoff_def Let_def split: if_splits)
        have "hd (w_heap w) \<le> g" if "g \<in> set (w_heap w)" for g
          using hb(1) that by (auto simp: holds_best_def intro: hd_sorted_le)
        moreover have "h < hd (w_heap w)" using t(2) full(2,3) by (simp add: less_ranked_hit_def hit_before_def hd_map)
        ultimately show "length (w_heap w) = top_k config \<and> (\<forall>g \<in> set (w_heap w). h < g)"
          using full(1) by (auto intro: less_le_trans)
      qed
      then have "holds_best (top_k config) (?A - (?B \<union> ?P) \<union> ?B) (w_heap w)" by (rule holds_best_drop [OF hb(1)])
      moreover have "?A - (?B \<union> ?P) \<union> ?B = ?A - ?P" using stok(2) hb(2) by blast
      moreover have "tracks U (leave s) ?p" by (rule tracks_pop [OF e(2)])
      moreover have "sc_core (leave s) = core" "top_scores (leave s) = map hit_score (w_heap w)"
        using e(3,4) by (simp_all add: leave_def)
      ultimately have "walk_inv U D core (w\<lparr>w_stack := st, w_scorer := leave s\<rparr>)"
        using stok(3) hb(2) ok(2) by (simp add: walk_inv_def)
      moreover have "walk_step U D (top_k config) limit event (w\<lparr>w_stack := st\<rparr>) = Inr (w\<lparr>w_stack := st, w_scorer := leave s\<rparr>)"
        using e(1) False EnterNode by (simp add: walk_step_def)
      ultimately show ?thesis using assms(7) by (simp add: walk_cost_def)
    next
      case True
      let ?w1 = "w\<lparr>w_stack := st, w_scorer := s, w_prefix := ?p @ [u]\<rparr>"
      let ?st = "LeaveNode u l # st"
      have l: "l \<le> max_candidate_chars (fz_config core)" "length (?p @ [u]) = l" using True e(5) stok(1) ok(2) by simp_all
      have pend: "pending U D core ?st (w_prefix ?w1) = ?P" and so: "stack_ok U D core ?st (w_prefix ?w1)"
        using stok(3) by simp_all
      obtain w2 where w2: "(if node_is_final D n then accept_node (top_k (fz_config core)) ?w1 else Inr ?w1) = Inr w2"
        "w_stack w2 = st"
        "push_children D limit n l (w2\<lparr>w_stack := ?st\<rparr>) =
          (if length (node_edges D n) \<le> limit - w_work w
           then Inr (w2\<lparr>w_work := w_work w + length (node_edges D n), w_stack := child_events D l (node_edges D n) @ ?st\<rparr>)
           else Inl RankLimitExceeded)"
        "walk_inv U D core (w2\<lparr>w_work := w_work w + length (node_edges D n), w_stack := child_events D l (node_edges D n) @ ?st\<rparr>)"
        by (rule visit_node [OF assms(1) ok(1) _ assms(5), of ?w1 U ?st n])
          (use assms(4) ok(2) e(2-4) l so pend stok(2) hb in simp_all)
      let ?r = "w2\<lparr>w_work := w_work w + length (node_edges D n), w_stack := child_events D l (node_edges D n) @ ?st\<rparr>"
      have ev: "walk_step U D (top_k config) limit event (w\<lparr>w_stack := st\<rparr>) =
          (if length (node_edges D n) \<le> limit - w_work w then Inr ?r else Inl RankLimitExceeded)"
      proof -
        have "walk_step U D (top_k config) limit event (w\<lparr>w_stack := st\<rparr>) =
            (case if node_is_final D n then accept_node (top_k config) ?w1 else Inr ?w1 of Inl x \<Rightarrow> Inl x
             | Inr w2 \<Rightarrow> push_children D limit n l (w2\<lparr>w_stack := LeaveNode u l # w_stack w2\<rparr>))"
          using e(1) True EnterNode by (simp add: walk_step_def Let_def)
        then show ?thesis unfolding w2(1) [unfolded ok(2)] sum.case w2(2) w2(3) .
      qed
      have "edges_below D (Suc (max_candidate_chars (fz_config core)) - l) n =
          length (node_edges D n) +
          sum_list (map (event_cost D (max_candidate_chars (fz_config core))) (child_events D l (node_edges D n)))"
        using children_cost [OF l(1), of "node_edges D n" D] l(1) by (simp add: Suc_diff_le)
      then have "walk_cost D core w = walk_cost D core ?r" and "w_work w + length (node_edges D n) \<le> walk_cost D core w"
        using assms(7) EnterNode by (simp_all add: walk_cost_def event_cost_def)
      then show ?thesis using ev w2(4) by auto
    qed
  qed
qed

lemma walk_loop_inv:
  assumes "dictionary_ok D" and "core_new U q config = Inr core" and "config_ok config" and "top_k config > 0"
    and "limit < usize_max" and "walk_inv U D core w"
  shows "(\<exists>w'. walk_loop U D (top_k config) limit w = Inr w' \<and> walk_inv U D core w' \<and> w_stack w' = []) \<or>
         walk_loop U D (top_k config) limit w = Inl RankLimitExceeded \<and> limit < walk_cost D core w"
  using assms(6)
proof (induction "walk_measure limit w" arbitrary: w rule: less_induct)
  case less
  show ?case
  proof (cases "w_stack w")
    case Nil
    then show ?thesis using less.prems by (simp add: walk_loop.simps)
  next
    case (Cons event st)
    note step = walk_step_inv [OF assms(1-5) less.prems Cons]
    show ?thesis
    proof (cases "walk_step U D (top_k config) limit event (w\<lparr>w_stack := st\<rparr>)")
      case (Inl e)
      then show ?thesis using step Cons by (simp add: walk_loop.simps [of U D "top_k config" limit w])
    next
      case (Inr w')
      then have "walk_inv U D core w'" "walk_cost D core w' \<le> walk_cost D core w" using step by auto
      moreover have "walk_measure limit w' < walk_measure limit w" by (rule walk_step_measure [OF Cons Inr])
      ultimately show ?thesis
        using less.hyps [of w'] Inr Cons by (auto simp: walk_loop.simps [of U D "top_k config" limit w])
    qed
  qed
qed

text \<open>The hits a ranking chooses from.\<close>

definition all_hits :: "char_tables \<Rightarrow> ('n, 'u) dictionary \<Rightarrow> fzf_core \<Rightarrow> ranked_hit set" where
  "all_hits U D core =
     {RankedHit t v | t v. dict_accepts D t \<and> score_chars U core t = Inr (Some v)}"

lemma all_hits_below:
  assumes "core_ok core"
  shows "all_hits U D core = hits_below U D core [] (dict_root D)"
  unfolding all_hits_def hits_below_def dict_accepts_def score_chars_eq [OF assms]
  by (auto split: option.splits if_splits)

lemma ranked_cases:
  assumes "dictionary_ok D" and "core_new U q config = Inr core" and "config_ok config" and "top_k config > 0"
    and "limit < usize_max"
  shows "(\<exists>r heap. ranked U D q config limit = Inr r \<and> rk_hits r = rev heap \<and>
            rk_result_count r = length heap \<and> holds_best (top_k config) (all_hits U D core) heap) \<or>
         ranked U D q config limit = Inl RankLimitExceeded \<and>
           limit < edges_below D (Suc (max_candidate_chars config)) (dict_root D)"
proof -
  note ok = core_new_ok [OF assms(2,3)]
  obtain s where s: "scorer_with_config U q config = Inr s" using assms(2) by (simp add: scorer_with_config_def)
  then have s2: "sc_core s = core" "tracks U s []" "top_scores s = []" using tracks_new [OF s] assms(2) by simp_all
  let ?w = "\<lparr>w_stack = [] :: 'a walk_event list, w_prefix = [], w_work = 0, w_scorer = s, w_heap = []\<rparr>"
  have best: "holds_best k {} []" for k by (simp add: holds_best_def)
  let ?es = "node_edges D (dict_root D)"
  let ?push = "\<lambda>w2. w2\<lparr>w_work := w_work ?w + length ?es, w_stack := child_events D (length (w_prefix ?w)) ?es @ []\<rparr>"
  obtain w2 where w2': "(if node_is_final D (dict_root D) then accept_node (top_k (fz_config core)) ?w else Inr ?w) = Inr w2"
    "w_stack w2 = w_stack ?w"
    "push_children D limit (dict_root D) (length (w_prefix ?w)) (w2\<lparr>w_stack := []\<rparr>) =
      (if length ?es \<le> limit - w_work ?w then Inr (?push w2) else Inl RankLimitExceeded)"
    "walk_inv U D core (?push w2)"
  proof (rule visit_node [OF assms(1) ok(1) _ assms(5), of ?w U "[]" "dict_root D"])
    fix w2
    assume "(if node_is_final D (dict_root D) then accept_node (top_k (fz_config core)) ?w else Inr ?w) = Inr w2"
      "w_stack w2 = w_stack ?w"
      "push_children D limit (dict_root D) (length (w_prefix ?w)) (w2\<lparr>w_stack := []\<rparr>) =
        (if length ?es \<le> limit - w_work ?w then Inr (?push w2) else Inl RankLimitExceeded)"
      "walk_inv U D core (?push w2)"
    then show ?thesis by (rule that)
  qed (use assms(4) ok(2) s2 best in simp_all)
  have w2: "(if node_is_final D (dict_root D) then accept_node (top_k config) ?w else Inr ?w) = Inr w2"
    "w_stack w2 = []"
    "push_children D limit (dict_root D) 0 (w2\<lparr>w_stack := []\<rparr>) =
      (if length ?es \<le> limit then Inr (w2\<lparr>w_work := length ?es, w_stack := child_events D 0 ?es\<rparr>)
       else Inl RankLimitExceeded)"
    "walk_inv U D core (w2\<lparr>w_work := length ?es, w_stack := child_events D 0 ?es\<rparr>)"
    using w2' unfolding ok(2) by simp_all
  let ?w3 = "w2\<lparr>w_work := length (node_edges D (dict_root D)), w_stack := child_events D 0 (node_edges D (dict_root D))\<rparr>"
  have cost: "walk_cost D core ?w3 = edges_below D (Suc (max_candidate_chars config)) (dict_root D)"
    using children_cost [of 0 "max_candidate_chars config" "node_edges D (dict_root D)" D] ok(2)
    by (simp add: walk_cost_def)
  have small: "length (node_edges D (dict_root D)) \<le> walk_cost D core ?w3" by (simp add: walk_cost_def)
  have w2s: "w2\<lparr>w_stack := []\<rparr> = w2" using w2(2) by simp
  have run: "ranked U D q config limit =
      (case (if length (node_edges D (dict_root D)) \<le> limit then Inr ?w3 else Inl RankLimitExceeded) of
         Inl e \<Rightarrow> Inl e
       | Inr w2 \<Rightarrow>
           (case walk_loop U D (top_k config) limit w2 of
              Inl e \<Rightarrow> Inl e
            | Inr w3 \<Rightarrow>
                Inr \<lparr>rk_hits = rev (sort (w_heap w3)), rk_stats = sc_stats (w_scorer w3),
                     rk_result_count = length (rev (sort (w_heap w3))), rk_work_units = w_work w3\<rparr>))"
    unfolding ranked_def s sum.case Let_def w2(1) w2(3) [unfolded w2s] using assms(4) by simp
  show ?thesis
  proof (cases "length (node_edges D (dict_root D)) \<le> limit")
    case False
    then show ?thesis using run cost small by simp
  next
    case True
    from walk_loop_inv [OF assms w2(4)] show ?thesis
    proof
      assume "\<exists>w'. walk_loop U D (top_k config) limit ?w3 = Inr w' \<and> walk_inv U D core w' \<and> w_stack w' = []"
      then obtain w' where w': "walk_loop U D (top_k config) limit ?w3 = Inr w'" "walk_inv U D core w'" "w_stack w' = []"
        by blast
      have hb: "holds_best (top_k config) (all_hits U D core) (w_heap w')"
        using w'(2,3) ok(2) by (simp add: walk_inv_def all_hits_below [OF ok(1), of U D])
      then have "sort (w_heap w') = w_heap w'" by (simp add: holds_best_def sorted_sort_id)
      then show ?thesis using run w'(1) True hb by simp
    next
      assume "walk_loop U D (top_k config) limit ?w3 = Inl RankLimitExceeded \<and> limit < walk_cost D core ?w3"
      then show ?thesis using run True cost by simp
    qed
  qed
qed

text \<open>
  C2: the branch-and-bound ranking is exact. For a positive \<open>top_k\<close> and a query within its limit,
  \<open>ranked\<close> either returns the \<open>top_k\<close> best scored terms of the dictionary (the candidates within the
  length limit), best first, ties by the smaller term, or it runs out of work, which it only does
  when the dictionary has more edges than the limit within that depth. It never panics, and
  pruning drops no term that belongs in the ranking.
\<close>

theorem fzf_ranked_exact:
  assumes "dictionary_ok D" and "core_new U q config = Inr core" and "config_ok config" and "top_k config > 0"
    and "limit < usize_max"
  shows "(\<exists>r. ranked U D q config limit = Inr r \<and> sorted (rev (rk_hits r)) \<and> distinct (rk_hits r) \<and>
            set (rk_hits r) \<subseteq> all_hits U D core \<and> rk_result_count r = length (rk_hits r) \<and>
            length (rk_hits r) \<le> top_k config \<and>
            (\<forall>h \<in> all_hits U D core - set (rk_hits r).
               length (rk_hits r) = top_k config \<and> (\<forall>g \<in> set (rk_hits r). h < g))) \<or>
         ranked U D q config limit = Inl RankLimitExceeded \<and>
           limit < edges_below D (Suc (max_candidate_chars config)) (dict_root D)"
proof (rule disjE [OF ranked_cases [OF assms]])
  assume "\<exists>r heap. ranked U D q config limit = Inr r \<and> rk_hits r = rev heap \<and>
            rk_result_count r = length heap \<and> holds_best (top_k config) (all_hits U D core) heap"
  then obtain r heap where r: "ranked U D q config limit = Inr r" "rk_hits r = rev heap"
    "rk_result_count r = length heap" and hb: "holds_best (top_k config) (all_hits U D core) heap" by blast
  show ?thesis
    using hb r unfolding holds_best_def by (intro disjI1 exI [of _ r]) simp
qed simp

text \<open>\<open>ranked\<close> of the dictionary of \<open>ab\<close> for the query \<open>Ab\<close>, two edges of work allowed.\<close>

definition ab_config :: fzf_config where
  "ab_config = fzf_config_default\<lparr>top_k := 1, max_candidate_chars := 5\<rparr>"

theorem fzf_ranked_exact_witness:
  "\<exists>r. ranked ascii_tables ab_dictionary [65, 98] ab_config 2 = Inr r \<and>
     set (rk_hits r) \<subseteq> all_hits ascii_tables ab_dictionary (ab_core\<lparr>fz_config := ab_config\<rparr>)"
proof -
  have core: "core_new ascii_tables [65, 98] ab_config = Inr (ab_core\<lparr>fz_config := ab_config\<rparr>)"
    using ab_core_new by (simp add: core_new_def ab_config_def fzf_config_default_def ab_core_def Let_def split: if_splits)
  have cfg: "config_ok ab_config" "top_k ab_config > 0" "2 < usize_max"
    by (simp_all add: config_ok_def ab_config_def fzf_config_default_def usize_max_def)
  have edges: "edges_below ab_dictionary (Suc (max_candidate_chars ab_config)) (dict_root ab_dictionary) = 2"
    by (simp add: ab_config_def ab_dictionary_def ab_edges_def numeral_eq_Suc)
  show ?thesis using fzf_ranked_exact [OF ab_dictionary_ok core cfg] edges by auto
qed

end
