(* ===== verification/Fzf_Source.thy ===== *)
theory Fzf_Source
  imports Fzf_Bounds Interning
begin

text \<open>
  \<open>src/fzf_state_support.rs\<close>, \<open>src/fzf_state_source.rs\<close>: the lazy WFST over dictionary prefixes
  weighted by fzf scores. States are paths, registered by their parent and label; a transition
  carries the change of the best score, so that the weights along a path telescope. The arctic
  (max-plus) weights are \<open>f64\<close> values: \<open>zero\<close> is minus infinity, \<open>one\<close> is 0. The \<open>expect\<close> on the
  score difference is the result None.
\<close>

definition arctic_zero :: weight where
  "arctic_zero = F64_NegInf"

definition arctic_one :: weight where
  "arctic_one = F64 0"

definition arctic_of_i32 :: "i32 \<Rightarrow> weight" where
  "arctic_of_i32 v = F64 (of_int v)"

lemma arctic_of_i32_inject [simp]: "arctic_of_i32 v = arctic_of_i32 w \<longleftrightarrow> v = w"
  by (simp add: arctic_of_i32_def)

section \<open>The registry of path states\<close>

record 'n fzf_state =
  fs_node :: 'n
  fs_column :: fzf_column
  fs_path_score :: i32

record 'n fzf_registry =
  child_to_id :: "state_id \<times> uchar \<Rightarrow> state_id option"
  fz_states :: "'n fzf_state list"

definition score_or_zero :: "fzf_column \<Rightarrow> i32" where
  "score_or_zero col = (case best_full_score col of Some v \<Rightarrow> v | None \<Rightarrow> 0)"

definition path_state :: "'n \<Rightarrow> fzf_column \<Rightarrow> 'n fzf_state" where
  "path_state node col = \<lparr>fs_node = node, fs_column = col, fs_path_score = score_or_zero col\<rparr>"

definition freg_new :: "'n \<Rightarrow> fzf_column \<Rightarrow> 'n fzf_registry" where
  "freg_new node col = \<lparr>child_to_id = Map.empty, fz_states = [path_state node col]\<rparr>"

definition freg_get :: "'n fzf_registry \<Rightarrow> state_id \<Rightarrow> 'n fzf_state option" where
  "freg_get r state =
     (case usize_try_from_u32 state of Some i \<Rightarrow> nth_opt (fz_states r) i | None \<Rightarrow> nth_opt (fz_states r) usize_max)"

definition freg_len :: "'n fzf_registry \<Rightarrow> usize" where
  "freg_len r = length (fz_states r)"

definition freg_register_child ::
    "state_id \<Rightarrow> uchar \<Rightarrow> 'n \<Rightarrow> fzf_column \<Rightarrow> 'n fzf_registry \<Rightarrow> state_id option \<times> 'n fzf_registry" where
  "freg_register_child parent label node col r =
     (case child_to_id r (parent, label) of
        Some state \<Rightarrow> (Some state, r)
      | None \<Rightarrow>
          (case u32_try_from (length (fz_states r)) of
             None \<Rightarrow> (None, r)
           | Some state \<Rightarrow>
               (Some state, r\<lparr>child_to_id := (child_to_id r)((parent, label) \<mapsto> state),
                              fz_states := fz_states r @ [path_state node col]\<rparr>)))"

text \<open>The root is the state without a parent: with that key the registry is an interner.\<close>

definition freg_find :: "'n fzf_registry \<Rightarrow> (state_id \<times> uchar) option \<Rightarrow> state_id option" where
  "freg_find r k = (case k of None \<Rightarrow> Some 0 | Some pl \<Rightarrow> child_to_id r pl)"

definition freg_intern ::
    "(state_id \<times> uchar) option \<Rightarrow> 'n \<times> fzf_column \<Rightarrow> 'n fzf_registry \<Rightarrow> state_id option \<times> 'n fzf_registry" where
  "freg_intern k v r =
     (case k of None \<Rightarrow> (Some 0, r) | Some (p, l) \<Rightarrow> freg_register_child p l (fst v) (snd v) r)"

definition freg_wf :: "'n fzf_registry \<Rightarrow> bool" where
  "freg_wf r \<longleftrightarrow> length (fz_states r) \<le> 2 ^ 32 \<and> dense_map (freg_find r) (length (fz_states r))"

lemma freg_get_eq: "freg_get r i = nth_opt (fz_states r) (unat i)"
  by (simp add: freg_get_def)

lemma freg_find_update:
  "freg_find (r\<lparr>child_to_id := (child_to_id r)(pl \<mapsto> i), fz_states := ss\<rparr>) = (freg_find r)(Some pl \<mapsto> i)"
  by (auto simp: freg_find_def fun_eq_iff split: option.split)

interpretation fzf_reg: interner freg_find freg_get freg_len freg_intern "\<lambda>k v. path_state (fst v) (snd v)" freg_wf "2 ^ 32"
proof unfold_locales
  fix s :: "'n fzf_registry" and k k' :: "(state_id \<times> uchar) option" and v :: "'n \<times> fzf_column" and i :: u32
  assume wf: "freg_wf s"
  then have dense: "dense_map (freg_find s) (length (fz_states s))" by (simp add: freg_wf_def)
  show "freg_len s \<le> 2 ^ 32" using wf by (simp add: freg_wf_def freg_len_def)
  show "freg_find s k = Some i \<Longrightarrow> unat i < freg_len s"
    using dense_map_less [OF dense] by (simp add: freg_len_def)
  show "freg_find s k = Some i \<Longrightarrow> freg_find s k' = Some i \<Longrightarrow> k = k'"
    using dense_map_inj [OF dense] by blast
  show "unat i < freg_len s \<Longrightarrow> \<exists>k. freg_find s k = Some i"
    using dense_map_surj [OF dense] by (simp add: freg_len_def)
  show "(freg_get s i = None) = (freg_len s \<le> unat i)" by (simp add: freg_get_eq freg_len_def)
  show "freg_find s k = Some i \<Longrightarrow> freg_intern k v s = (Some i, s)"
    by (auto simp: freg_find_def freg_intern_def freg_register_child_def split: option.splits)
  show full: "freg_find s k = None \<Longrightarrow> freg_len s = 2 ^ 32 \<Longrightarrow> freg_intern k v s = (None, s)"
    by (auto simp: freg_find_def freg_intern_def freg_register_child_def freg_len_def u32_try_from_def split: option.splits)
  have step: "\<exists>p l. k = Some (p, l) \<and> freg_intern k v s = (Some (of_nat (freg_len s)),
      s\<lparr>child_to_id := (child_to_id s)((p, l) \<mapsto> of_nat (freg_len s)),
        fz_states := fz_states s @ [path_state (fst v) (snd v)]\<rparr>)"
    if "freg_find s k = None" "freg_len s < 2 ^ 32"
    using that by (auto simp: freg_find_def freg_intern_def freg_register_child_def freg_len_def u32_try_from_def
        split: option.splits)
  show "freg_wf (snd (freg_intern k v s))"
  proof (cases "freg_find s k")
    case None
    show ?thesis
    proof (cases "freg_len s < 2 ^ 32")
      case True
      then show ?thesis
        using step [OF None True] None dense dense_map_insert [OF dense None]
        by (auto simp: freg_wf_def freg_len_def freg_find_update)
    next
      case False
      then have "freg_len s = 2 ^ 32" using wf by (simp add: freg_wf_def freg_len_def)
      then show ?thesis using full [OF None] wf by simp
    qed
  next
    case (Some j)
    then have "freg_intern k v s = (Some j, s)"
      by (auto simp: freg_find_def freg_intern_def freg_register_child_def split: option.splits)
    then show ?thesis using wf by simp
  qed
  assume new: "freg_find s k = None" and lt: "freg_len s < 2 ^ 32"
  from step [OF new lt] obtain p l where pl: "k = Some (p, l)"
    "freg_intern k v s = (Some (of_nat (freg_len s)),
      s\<lparr>child_to_id := (child_to_id s)((p, l) \<mapsto> of_nat (freg_len s)),
        fz_states := fz_states s @ [path_state (fst v) (snd v)]\<rparr>)" by blast
  show "fst (freg_intern k v s) = Some (of_nat (freg_len s))"
    and "freg_len (snd (freg_intern k v s)) = Suc (freg_len s)"
    by (simp_all add: pl(2), simp add: freg_len_def)
  show "freg_find (snd (freg_intern k v s)) = (freg_find s)(k \<mapsto> of_nat (freg_len s))"
    unfolding pl(2) snd_conv freg_find_update by (simp only: pl(1))
  show "freg_get (snd (freg_intern k v s)) = (freg_get s)(of_nat (freg_len s) \<mapsto> path_state (fst v) (snd v))"
    using lt nth_opt_snoc [of "fz_states s" "path_state (fst v) (snd v)"]
    by (simp add: pl(2) freg_len_def freg_get_eq fun_eq_iff)
qed simp

section \<open>The state source\<close>

record ('n, 'u) fzf_source =
  fz_dictionary :: "('n, 'u) dictionary"
  fz_core :: fzf_core
  fz_registry :: "'n fzf_registry"

definition fzf_with_config ::
    "char_tables \<Rightarrow> ('n, 'u) dictionary \<Rightarrow> uchar list \<Rightarrow> fzf_config \<Rightarrow> fzf_error + ('n, 'u) fzf_source" where
  "fzf_with_config U D query config =
     (case core_new U query config of
        Inl e \<Rightarrow> Inl e
      | Inr core \<Rightarrow>
          Inr \<lparr>fz_dictionary = D, fz_core = core, fz_registry = freg_new (dict_root D) (initial_column core)\<rparr>)"

definition fzf_start :: "('n, 'u) fzf_source \<Rightarrow> state_id" where
  "fzf_start s = 0"

definition fzf_is_valid_state :: "('n, 'u) fzf_source \<Rightarrow> state_id \<Rightarrow> bool" where
  "fzf_is_valid_state s state \<longleftrightarrow> freg_get (fz_registry s) state \<noteq> None"

definition fzf_registered_states :: "('n, 'u) fzf_source \<Rightarrow> usize" where
  "fzf_registered_states s = freg_len (fz_registry s)"

definition fzf_num_states_hint :: "('n, 'u) fzf_source \<Rightarrow> usize option" where
  "fzf_num_states_hint s = dict_len (fz_dictionary s)"

text \<open>The loop over the pending children: label, node and column of each.\<close>

fun register_pending ::
    "state_id \<Rightarrow> i32 \<Rightarrow> (uchar \<times> 'n \<times> fzf_column) list \<Rightarrow> 'n fzf_registry \<Rightarrow> (transition list \<times> 'n fzf_registry) option" where
  "register_pending state path_score [] r = Some ([], r)"
| "register_pending state path_score ((label, child, col) # rest) r =
     (case i32_checked_sub (score_or_zero col) path_score of
        None \<Rightarrow> None
      | Some delta \<Rightarrow>
          (case freg_register_child state label child col r of
             (None, r') \<Rightarrow> register_pending state path_score rest r'
           | (Some child_state, r') \<Rightarrow>
               map_option (\<lambda>(ts, r''). (mk_transition state (Some label) (Some label) child_state (arctic_of_i32 delta) # ts, r''))
                 (register_pending state path_score rest r')))"

definition fzf_pending :: "char_tables \<Rightarrow> ('n, 'u) fzf_source \<Rightarrow> 'n fzf_state \<Rightarrow> (uchar \<times> 'n \<times> fzf_column) list" where
  "fzf_pending U s st =
     map (\<lambda>(u, m). let label = unit_char (fz_dictionary s) u
                   in (label, m, advance U (fz_core s) (fs_column st) label))
       (node_edges (fz_dictionary s) (fs_node st))"

text \<open>The outer option is a failed \<open>expect\<close>, the inner one an unknown state.\<close>

definition compute_registered_state ::
    "char_tables \<Rightarrow> ('n, 'u) fzf_source \<Rightarrow> state_id \<Rightarrow> ((bool \<times> weight \<times> transition list) option \<times> ('n, 'u) fzf_source) option" where
  "compute_registered_state U s state =
     (case freg_get (fz_registry s) state of
        None \<Rightarrow> Some (None, s)
      | Some st \<Rightarrow>
          (case register_pending state (fs_path_score st) (fzf_pending U s st) (fz_registry s) of
             None \<Rightarrow> None
           | Some (ts, r) \<Rightarrow>
               (let final = (node_is_final (fz_dictionary s) (fs_node st) \<and> best_full_score (fs_column st) \<noteq> None)
                in Some (Some (final, if final then arctic_one else arctic_zero, ts), s\<lparr>fz_registry := r\<rparr>))))"

definition fzf_expand_state ::
    "char_tables \<Rightarrow> ('n, 'u) fzf_source \<Rightarrow> state_id \<Rightarrow> (expansion \<times> ('n, 'u) fzf_source) option" where
  "fzf_expand_state U s state =
     (case compute_registered_state U s state of
        None \<Rightarrow> None
      | Some (None, s') \<Rightarrow> Some (Failed (InvalidState state), s')
      | Some (Some (final, w, ts), s') \<Rightarrow>
          Some (if final then Expanded True w ts else Expanded False arctic_zero ts, s'))"

text \<open>\<open>FzfWfst\<close> delegates to the lazy wrapper of the WFST crate, whose count of states is a parameter.\<close>

definition fzf_wfst_num_states :: "usize \<Rightarrow> ('n, 'u) fzf_source \<Rightarrow> usize" where
  "fzf_wfst_num_states inner s = max inner (fzf_registered_states s)"

section \<open>What the registry stands for\<close>

definition freg_tracks :: "char_tables \<Rightarrow> ('n, 'u) dictionary \<Rightarrow> fzf_core \<Rightarrow> 'n fzf_registry \<Rightarrow> bool" where
  "freg_tracks U D core r \<longleftrightarrow>
     freg_get r 0 = Some (path_state (dict_root D) (initial_column core)) \<and>
     (\<forall>i st. freg_get r i = Some st \<longrightarrow> column_ok core (fs_column st) \<and> fs_path_score st = score_or_zero (fs_column st)) \<and>
     (\<forall>p l i. child_to_id r (p, l) = Some i \<longrightarrow>
        (\<exists>ps m. freg_get r p = Some ps \<and> child_by D (fs_node ps) l = Some m \<and>
           freg_get r i = Some (path_state m (advance U core (fs_column ps) l))))"

definition fzf_wf :: "char_tables \<Rightarrow> ('n, 'u) fzf_source \<Rightarrow> bool" where
  "fzf_wf U s \<longleftrightarrow> dictionary_ok (fz_dictionary s) \<and> core_ok (fz_core s) \<and> freg_wf (fz_registry s) \<and>
     freg_tracks U (fz_dictionary s) (fz_core s) (fz_registry s)"

definition freg_ext :: "'n fzf_registry \<Rightarrow> 'n fzf_registry \<Rightarrow> bool" where
  "freg_ext r r' \<longleftrightarrow> freg_len r \<le> freg_len r' \<and> (\<forall>i st. freg_get r i = Some st \<longrightarrow> freg_get r' i = Some st) \<and>
     (\<forall>k i. child_to_id r k = Some i \<longrightarrow> child_to_id r' k = Some i)"

lemma freg_ext_refl [simp]: "freg_ext r r" by (simp add: freg_ext_def)

lemma freg_ext_trans: "freg_ext r r' \<Longrightarrow> freg_ext r' r'' \<Longrightarrow> freg_ext r r''"
  by (auto simp: freg_ext_def)

lemma freg_register_intern:
  "freg_register_child p l m col r = freg_intern (Some (p, l)) (m, col) r"
  by (simp add: freg_intern_def)

lemma freg_ext_register:
  assumes "freg_wf r"
  shows "freg_ext r (snd (freg_register_child p l m col r))"
proof -
  let ?r' = "snd (freg_intern (Some (p, l)) (m, col) r)"
  have "freg_find ?r' (Some k) = Some i" if "child_to_id r k = Some i" for k i
    using fzf_reg.find_stable [OF assms, of "Some k" i] that by (simp add: freg_find_def)
  then show ?thesis
    using fzf_reg.entry_stable [OF assms] fzf_reg.count_mono [OF assms]
    by (simp add: freg_ext_def freg_register_intern freg_find_def)
qed

text \<open>Registering the children of a state keeps the registry right and gives each its transition.\<close>

lemma register_child_tracks:
  assumes "freg_wf r" and "freg_tracks U D core r" and "core_ok core" and "freg_get r x = Some st"
    and "child_by D (fs_node st) l = Some m"
    and "freg_register_child x l m (advance U core (fs_column st) l) r = (res, r')"
  shows "freg_wf r' \<and> freg_ext r r' \<and> freg_tracks U D core r' \<and> freg_len r' \<le> Suc (freg_len r) \<and>
    (case res of None \<Rightarrow> freg_len r = 2 ^ 32 \<and> r' = r | Some i \<Rightarrow> child_to_id r' (x, l) = Some i)"
proof -
  let ?col = "advance U core (fs_column st) l" and ?k = "Some (x, l)"
  have res: "freg_intern ?k (m, ?col) r = (res, r')" using assms(6) by (simp add: freg_register_intern)
  have wf': "freg_wf r'" using fzf_reg.wf_intern [OF assms(1), of ?k "(m, ?col)"] res by simp
  have ext: "freg_ext r r'" using freg_ext_register [OF assms(1), of x l m ?col] assms(6) by simp
  show ?thesis
  proof (rule fzf_reg.intern_cases [OF assms(1), of ?k "(m, ?col)"])
    fix i assume "freg_find r ?k = Some i" "freg_intern ?k (m, ?col) r = (Some i, r)"
    then show ?thesis using res assms(1,2) by (simp add: freg_find_def)
  next
    assume "freg_intern ?k (m, ?col) r = (None, r)" "freg_len r = 2 ^ 32"
    then show ?thesis using res assms(1,2) by simp
  next
    fix r'' assume new: "freg_find r ?k = None" "freg_len r < 2 ^ 32"
      "freg_intern ?k (m, ?col) r = (Some (of_nat (freg_len r)), r'')" "freg_len r'' = Suc (freg_len r)"
      "freg_find r'' = (freg_find r)(?k \<mapsto> of_nat (freg_len r))"
      "freg_get r'' = (freg_get r)(of_nat (freg_len r) \<mapsto> path_state (fst (m, ?col)) (snd (m, ?col)))"
    have r'': "r'' = r'" "res = Some (of_nat (freg_len r))" using new(3) res by simp_all
    have get: "freg_get r' = (freg_get r)(of_nat (freg_len r) \<mapsto> path_state m ?col)" using new(6) r''(1) by simp
    have child: "child_to_id r' (x, l) = Some (of_nat (freg_len r))"
      "(p, c) \<noteq> (x, l) \<Longrightarrow> child_to_id r' (p, c) = child_to_id r (p, c)" for p c
      using fun_cong [OF new(5), of ?k] fun_cong [OF new(5), of "Some (p, c)"] r''(1) by (auto simp: freg_find_def)
    have stable: "freg_get r' i = Some s" if "freg_get r i = Some s" for i s using ext that by (simp add: freg_ext_def)
    have okcol: "column_ok core ?col" using assms(2-4) by (intro column_ok_advance) (auto simp: freg_tracks_def)
    have "freg_tracks U D core r'"
      unfolding freg_tracks_def
    proof (intro conjI allI impI)
      show "freg_get r' 0 = Some (path_state (dict_root D) (initial_column core))"
        using stable assms(2) by (simp add: freg_tracks_def)
      fix i s assume "freg_get r' i = Some s"
      then show "column_ok core (fs_column s)" "fs_path_score s = score_or_zero (fs_column s)"
        using assms(2) okcol by (auto simp: get freg_tracks_def path_state_def split: if_splits)
    next
      fix p c i assume i: "child_to_id r' (p, c) = Some i"
      show "\<exists>ps m. freg_get r' p = Some ps \<and> child_by D (fs_node ps) c = Some m \<and>
          freg_get r' i = Some (path_state m (advance U core (fs_column ps) c))"
      proof (cases "(p, c) = (x, l)")
        case True
        then show ?thesis using i child(1) stable assms(4,5) get by auto
      next
        case False
        then have "child_to_id r (p, c) = Some i" using i child(2) by simp
        then show ?thesis using assms(2) stable unfolding freg_tracks_def by blast
      qed
    qed
    then show ?thesis using wf' ext r'' new(4) child(1) by simp
  qed
qed

lemma score_diff:
  assumes "column_ok core c" and "column_ok core d"
  shows "i32_checked_sub (score_or_zero c) (score_or_zero d) = Some (score_or_zero c - score_or_zero d)"
proof -
  have "0 \<le> score_or_zero x \<and> score_or_zero x \<le> i32_max" if "column_ok core x" for x
    using that by (auto simp: score_or_zero_def column_ok_def i32_max_def split: option.split)
  from this [OF assms(1)] this [OF assms(2)] show ?thesis by (simp add: i32_checked_sub_def i32_min_def i32_max_def)
qed

lemma register_pending_tracks:
  assumes "freg_wf r" and "freg_tracks U D core r" and "core_ok core" and "dictionary_ok D"
    and "freg_get r x = Some st" and "set es \<subseteq> set (node_edges D (fs_node st))"
  defines "pend \<equiv> map (\<lambda>(u, m). (unit_char D u, m, advance U core (fs_column st) (unit_char D u))) es"
  shows "\<exists>ts r'. register_pending x (fs_path_score st) pend r = Some (ts, r') \<and> freg_wf r' \<and> freg_ext r r' \<and>
    freg_tracks U D core r' \<and> freg_len r' \<le> freg_len r + length es \<and>
    (\<forall>t \<in> set ts. \<exists>l i. t = mk_transition x (Some l) (Some l) i
         (arctic_of_i32 (score_or_zero (advance U core (fs_column st) l) - fs_path_score st)) \<and>
       child_to_id r' (x, l) = Some i) \<and>
    (freg_len r + length es \<le> 2 ^ 32 \<longrightarrow>
       (\<forall>(u, m) \<in> set es. \<exists>t \<in> set ts. t_input t = Some (unit_char D u)))"
  using assms(1,2,5,6) unfolding pend_def
proof (induction es arbitrary: r)
  case Nil
  then show ?case by simp
next
  case (Cons e es)
  obtain u m where e: "e = (u, m)" by force
  let ?l = "unit_char D u" and ?col = "advance U core (fs_column st) (unit_char D u)"
  have st: "column_ok core (fs_column st)" "fs_path_score st = score_or_zero (fs_column st)"
    using Cons.prems(2,3) by (auto simp: freg_tracks_def)
  have child: "child_by D (fs_node st) ?l = Some m"
    using Cons.prems(4) e by (intro child_by_edge [OF assms(4)]) simp
  have delta: "i32_checked_sub (score_or_zero ?col) (fs_path_score st) = Some (score_or_zero ?col - fs_path_score st)"
    unfolding st(2) by (rule score_diff [OF column_ok_advance [OF assms(3) st(1)] st(1)])
  obtain res r1 where r1: "freg_register_child x ?l m ?col r = (res, r1)" by force
  note step = register_child_tracks [OF Cons.prems(1,2) assms(3) Cons.prems(3) child r1]
  then have st1: "freg_get r1 x = Some st" using Cons.prems(3) by (simp add: freg_ext_def)
  obtain ts r' where rec: "register_pending x (fs_path_score st)
        (map (\<lambda>(u, m). (unit_char D u, m, advance U core (fs_column st) (unit_char D u))) es) r1 = Some (ts, r')"
    "freg_wf r'" "freg_ext r1 r'" "freg_tracks U D core r'" "freg_len r' \<le> freg_len r1 + length es"
    "\<forall>t \<in> set ts. \<exists>l i. t = mk_transition x (Some l) (Some l) i
         (arctic_of_i32 (score_or_zero (advance U core (fs_column st) l) - fs_path_score st)) \<and>
       child_to_id r' (x, l) = Some i"
    "freg_len r1 + length es \<le> 2 ^ 32 \<longrightarrow> (\<forall>(u, m) \<in> set es. \<exists>t \<in> set ts. t_input t = Some (unit_char D u))"
    using Cons.IH [of r1] step st1 Cons.prems(4) by auto
  have ext: "freg_ext r r'" using step rec(3) freg_ext_trans by blast
  have len: "freg_len r' \<le> freg_len r + length (e # es)" using step rec(5) by simp
  show ?case
  proof (cases res)
    case None
    then show ?thesis using e r1 delta rec ext len step by (auto simp: Let_def)
  next
    case (Some i)
    let ?t = "mk_transition x (Some ?l) (Some ?l) i (arctic_of_i32 (score_or_zero ?col - fs_path_score st))"
    have i: "child_to_id r' (x, ?l) = Some i" using step Some rec(3) by (simp add: freg_ext_def)
    have run: "register_pending x (fs_path_score st)
        (map (\<lambda>(u, m). (unit_char D u, m, advance U core (fs_column st) (unit_char D u))) (e # es)) r = Some (?t # ts, r')"
      using e r1 delta rec(1) Some by simp
    have sound: "\<forall>t \<in> set (?t # ts). \<exists>l i. t = mk_transition x (Some l) (Some l) i
         (arctic_of_i32 (score_or_zero (advance U core (fs_column st) l) - fs_path_score st)) \<and>
       child_to_id r' (x, l) = Some i"
      using rec(6) i by auto
    have "\<forall>(u, m) \<in> set (e # es). \<exists>t \<in> set (?t # ts). t_input t = Some (unit_char D u)"
      if "freg_len r + length (e # es) \<le> 2 ^ 32"
      using rec(7) that step e by auto
    then show ?thesis using run rec(2,4) ext len sound by blast
  qed
qed

section \<open>Paths through the WFST\<close>

text \<open>What a state looks like at the end of the path \<open>w\<close>.\<close>

definition fzf_at :: "char_tables \<Rightarrow> ('n, 'u) fzf_source \<Rightarrow> state_id \<Rightarrow> uchar list \<Rightarrow> bool" where
  "fzf_at U s x w \<longleftrightarrow>
     (\<exists>n. walk (fz_dictionary s) (dict_root (fz_dictionary s)) w = Some n \<and>
        freg_get (fz_registry s) x = Some (path_state n (column_of U (fz_core s) w)))"

lemma fzf_at_start: "fzf_wf U s \<Longrightarrow> fzf_at U s 0 []"
  by (simp add: fzf_at_def fzf_wf_def freg_tracks_def)

definition fzf_same :: "('n, 'u) fzf_source \<Rightarrow> ('n, 'u) fzf_source \<Rightarrow> bool" where
  "fzf_same s s' \<longleftrightarrow> fz_dictionary s' = fz_dictionary s \<and> fz_core s' = fz_core s"

lemma fzf_expand_facts:
  assumes "fzf_wf U s" and "fzf_at U s x w"
  obtains ts s' where "fzf_expand_state U s x = Some
      (Expanded (dict_accepts (fz_dictionary s) w \<and> path_score_of U (fz_core s) w \<noteq> None)
         (if dict_accepts (fz_dictionary s) w \<and> path_score_of U (fz_core s) w \<noteq> None then arctic_one else arctic_zero) ts, s')"
    and "fzf_wf U s'" and "fzf_same s s'"
    and "freg_len (fz_registry s') \<le> freg_len (fz_registry s) + length (node_edges (fz_dictionary s) (fs_node (the (freg_get (fz_registry s) x))))"
    and "\<forall>t \<in> set ts. \<exists>c. t = mk_transition x (Some c) (Some c) (t_to t)
           (arctic_of_i32 (score_or_zero (column_of U (fz_core s) (w @ [c])) - score_or_zero (column_of U (fz_core s) w))) \<and>
         fzf_at U s' (t_to t) (w @ [c])"
    and "freg_len (fz_registry s) + length (node_edges (fz_dictionary s) (fs_node (the (freg_get (fz_registry s) x)))) \<le> 2 ^ 32 \<longrightarrow>
      (\<forall>c. walk (fz_dictionary s) (dict_root (fz_dictionary s)) (w @ [c]) \<noteq> None \<longrightarrow> (\<exists>t \<in> set ts. t_input t = Some c))"
proof -
  let ?D = "fz_dictionary s" and ?core = "fz_core s" and ?r = "fz_registry s"
  obtain n where n: "walk ?D (dict_root ?D) w = Some n" "freg_get ?r x = Some (path_state n (column_of U ?core w))"
    using assms(2) by (auto simp: fzf_at_def)
  let ?st = "path_state n (column_of U ?core w)"
  have st [simp]: "fs_node ?st = n" "fs_column ?st = column_of U ?core w" "fs_path_score ?st = score_or_zero (column_of U ?core w)"
    by (simp_all add: path_state_def)
  note wf = assms(1) [unfolded fzf_wf_def]
  have pend: "fzf_pending U s ?st = map (\<lambda>(u, m). (unit_char ?D u, m, advance U ?core (fs_column ?st) (unit_char ?D u))) (node_edges ?D n)"
    by (simp add: fzf_pending_def Let_def)
  obtain ts r' where run: "register_pending x (fs_path_score ?st) (fzf_pending U s ?st) ?r = Some (ts, r')"
    "freg_wf r'" "freg_ext ?r r'" "freg_tracks U ?D ?core r'" "freg_len r' \<le> freg_len ?r + length (node_edges ?D n)"
    "\<forall>t \<in> set ts. \<exists>l i. t = mk_transition x (Some l) (Some l) i
         (arctic_of_i32 (score_or_zero (advance U ?core (fs_column ?st) l) - fs_path_score ?st)) \<and>
       child_to_id r' (x, l) = Some i"
    "freg_len ?r + length (node_edges ?D n) \<le> 2 ^ 32 \<longrightarrow>
       (\<forall>(u, m) \<in> set (node_edges ?D n). \<exists>t \<in> set ts. t_input t = Some (unit_char ?D u))"
    using register_pending_tracks [of ?r U ?D ?core x ?st "node_edges ?D n"] wf n(2) unfolding pend by auto
  let ?s' = "s\<lparr>fz_registry := r'\<rparr>"
  let ?final = "dict_accepts ?D w \<and> path_score_of U ?core w \<noteq> None"
  have final: "(node_is_final ?D (fs_node ?st) \<and> best_full_score (fs_column ?st) \<noteq> None) = ?final"
    using n(1) by (simp add: dict_accepts_def path_score_of_def)
  have ex: "fzf_expand_state U s x = Some (Expanded ?final (if ?final then arctic_one else arctic_zero) ts, ?s')"
    using n(2) run(1) final by (auto simp: fzf_expand_state_def compute_registered_state_def Let_def)
  have "\<forall>t \<in> set ts. \<exists>c. t = mk_transition x (Some c) (Some c) (t_to t)
           (arctic_of_i32 (score_or_zero (column_of U ?core (w @ [c])) - score_or_zero (column_of U ?core w))) \<and>
         fzf_at U ?s' (t_to t) (w @ [c])"
  proof
    fix t assume "t \<in> set ts"
    then obtain l i where t: "t = mk_transition x (Some l) (Some l) i
         (arctic_of_i32 (score_or_zero (column_of U ?core (w @ [l])) - score_or_zero (column_of U ?core w)))"
      "child_to_id r' (x, l) = Some i" using run(6) by auto
    have x: "freg_get r' x = Some ?st" using run(3) n(2) by (simp add: freg_ext_def)
    obtain m where "child_by ?D n l = Some m" "freg_get r' i = Some (path_state m (advance U ?core (column_of U ?core w) l))"
      using run(4) t(2) x unfolding freg_tracks_def by fastforce
    then have "fzf_at U ?s' i (w @ [l])" using n(1) by (simp add: fzf_at_def walk_snoc)
    then show "\<exists>c. t = mk_transition x (Some c) (Some c) (t_to t)
           (arctic_of_i32 (score_or_zero (column_of U ?core (w @ [c])) - score_or_zero (column_of U ?core w))) \<and>
         fzf_at U ?s' (t_to t) (w @ [c])"
      using t(1) by auto
  qed
  moreover have "\<exists>t \<in> set ts. t_input t = Some c"
    if room: "freg_len ?r + length (node_edges ?D n) \<le> 2 ^ 32" and c: "walk ?D (dict_root ?D) (w @ [c]) \<noteq> None" for c
  proof -
    obtain m where "child_by ?D n c = Some m" using c n(1) by (auto simp: walk_snoc)
    then obtain u where "(u, m) \<in> set (node_edges ?D n)" "unit_char ?D u = c" by (rule child_by_SomeD)
    then show ?thesis using run(7) room by fastforce
  qed
  moreover have "fzf_wf U ?s'" "fzf_same s ?s'" using wf run(2,4) by (simp_all add: fzf_wf_def fzf_same_def)
  ultimately show ?thesis using that [OF ex] run(5) n(2) by simp
qed

text \<open>A run from a state: the labels it reads, its weight, and the source and state it ends in.\<close>

inductive fzf_run :: "char_tables \<Rightarrow> ('n, 'u) fzf_source \<Rightarrow> state_id \<Rightarrow> uchar list \<Rightarrow> int \<Rightarrow> ('n, 'u) fzf_source \<Rightarrow> state_id \<Rightarrow> bool"
  for U where
  fzf_run_start: "fzf_run U s x [] 0 s x"
| fzf_run_step: "fzf_expand_state U s x = Some (Expanded f w ts, s1) \<Longrightarrow> t \<in> set ts \<Longrightarrow>
    t_input t = Some c \<Longrightarrow> t_output t = Some c \<Longrightarrow> t_weight t = arctic_of_i32 v \<Longrightarrow>
    fzf_run U s1 (t_to t) cs tot s2 y \<Longrightarrow> fzf_run U s x (c # cs) (v + tot) s2 y"

definition fzf_accepts :: "char_tables \<Rightarrow> ('n, 'u) fzf_source \<Rightarrow> uchar list \<Rightarrow> int \<Rightarrow> bool" where
  "fzf_accepts U s w tot \<longleftrightarrow>
     (\<exists>s' x ts s''. fzf_run U s (fzf_start s) w tot s' x \<and>
        fzf_expand_state U s' x = Some (Expanded True arctic_one ts, s''))"

lemma fzf_run_sound:
  "fzf_run U s x cs tot s' y \<Longrightarrow> fzf_wf U s \<Longrightarrow> fzf_at U s x w \<Longrightarrow>
     fzf_wf U s' \<and> fzf_same s s' \<and> fzf_at U s' y (w @ cs) \<and>
     tot = score_or_zero (column_of U (fz_core s) (w @ cs)) - score_or_zero (column_of U (fz_core s) w)"
proof (induction arbitrary: w rule: fzf_run.induct)
  case (fzf_run_start s x)
  then show ?case by (simp add: fzf_same_def)
next
  case (fzf_run_step s x f wt ts s1 t c v cs tot s2 y)
  obtain ts' s' where ex: "fzf_expand_state U s x = Some (Expanded (dict_accepts (fz_dictionary s) w \<and> path_score_of U (fz_core s) w \<noteq> None)
         (if dict_accepts (fz_dictionary s) w \<and> path_score_of U (fz_core s) w \<noteq> None then arctic_one else arctic_zero) ts', s')"
    "fzf_wf U s'" "fzf_same s s'"
    "\<forall>t \<in> set ts'. \<exists>c. t = mk_transition x (Some c) (Some c) (t_to t)
           (arctic_of_i32 (score_or_zero (column_of U (fz_core s) (w @ [c])) - score_or_zero (column_of U (fz_core s) w))) \<and>
         fzf_at U s' (t_to t) (w @ [c])"
    by (rule fzf_expand_facts [OF fzf_run_step.prems])
  have same: "s' = s1" "ts' = ts" using ex(1) fzf_run_step.hyps(1) by simp_all
  obtain d where d: "t = mk_transition x (Some d) (Some d) (t_to t)
           (arctic_of_i32 (score_or_zero (column_of U (fz_core s) (w @ [d])) - score_or_zero (column_of U (fz_core s) w)))"
    "fzf_at U s1 (t_to t) (w @ [d])"
    using ex(4) fzf_run_step.hyps(2) same by blast
  have "t_input t = Some d" by (subst d(1)) simp
  then have c: "d = c" using fzf_run_step.hyps(3) by simp
  have "t_weight t = arctic_of_i32 (score_or_zero (column_of U (fz_core s) (w @ [c])) - score_or_zero (column_of U (fz_core s) w))"
    by (subst d(1)) (simp add: c)
  then have v: "v = score_or_zero (column_of U (fz_core s) (w @ [c])) - score_or_zero (column_of U (fz_core s) w)"
    using fzf_run_step.hyps(5) by simp
  show ?case
    using fzf_run_step.IH [OF ex(2) [unfolded same] d(2) [unfolded c]] ex(3) same v by (simp add: fzf_same_def)
qed

lemma fzf_run_complete:
  assumes "fzf_wf U s" and "fzf_at U s x w" and "\<forall>n. length (node_edges (fz_dictionary s) n) \<le> B"
    and "freg_len (fz_registry s) + length cs * B \<le> 2 ^ 32"
    and "walk (fz_dictionary s) (dict_root (fz_dictionary s)) (w @ cs) \<noteq> None"
  shows "\<exists>tot s' y. fzf_run U s x cs tot s' y"
  using assms
proof (induction cs arbitrary: s x w)
  case Nil
  then show ?case using fzf_run_start by blast
next
  case (Cons c cs)
  obtain ts' s' where ex: "fzf_expand_state U s x = Some (Expanded (dict_accepts (fz_dictionary s) w \<and> path_score_of U (fz_core s) w \<noteq> None)
         (if dict_accepts (fz_dictionary s) w \<and> path_score_of U (fz_core s) w \<noteq> None then arctic_one else arctic_zero) ts', s')"
    "fzf_wf U s'" "fzf_same s s'"
    "freg_len (fz_registry s') \<le> freg_len (fz_registry s) + length (node_edges (fz_dictionary s) (fs_node (the (freg_get (fz_registry s) x))))"
    "\<forall>t \<in> set ts'. \<exists>c. t = mk_transition x (Some c) (Some c) (t_to t)
           (arctic_of_i32 (score_or_zero (column_of U (fz_core s) (w @ [c])) - score_or_zero (column_of U (fz_core s) w))) \<and>
         fzf_at U s' (t_to t) (w @ [c])"
    "freg_len (fz_registry s) + length (node_edges (fz_dictionary s) (fs_node (the (freg_get (fz_registry s) x)))) \<le> 2 ^ 32 \<longrightarrow>
      (\<forall>c. walk (fz_dictionary s) (dict_root (fz_dictionary s)) (w @ [c]) \<noteq> None \<longrightarrow> (\<exists>t \<in> set ts'. t_input t = Some c))"
    by (rule fzf_expand_facts [OF Cons.prems(1,2)])
  have B: "length (node_edges (fz_dictionary s) (fs_node (the (freg_get (fz_registry s) x)))) \<le> B" using Cons.prems(3) by blast
  have room: "freg_len (fz_registry s) + length (node_edges (fz_dictionary s) (fs_node (the (freg_get (fz_registry s) x)))) \<le> 2 ^ 32"
    using Cons.prems(4) B by simp
  have "walk (fz_dictionary s) (dict_root (fz_dictionary s)) ((w @ [c]) @ cs) \<noteq> None" using Cons.prems(5) by simp
  then have "walk (fz_dictionary s) (dict_root (fz_dictionary s)) (w @ [c]) \<noteq> None"
    by (subst (asm) walk_append) (auto split: option.splits)
  then obtain t where t: "t \<in> set ts'" "t_input t = Some c" using ex(6) room by blast
  obtain d where d: "t = mk_transition x (Some d) (Some d) (t_to t)
           (arctic_of_i32 (score_or_zero (column_of U (fz_core s) (w @ [d])) - score_or_zero (column_of U (fz_core s) w)))"
    "fzf_at U s' (t_to t) (w @ [d])" using ex(5) t(1) by blast
  have "t_input t = Some d" "t_output t = Some d" by (subst d(1), simp)+
  then have c: "d = c" and out: "t_output t = Some c" using t(2) by simp_all
  have wt: "t_weight t = arctic_of_i32 (score_or_zero (column_of U (fz_core s) (w @ [d])) - score_or_zero (column_of U (fz_core s) w))"
    by (subst d(1)) simp
  have "freg_len (fz_registry s') + length cs * B \<le> 2 ^ 32" using ex(4) Cons.prems(4) B by simp
  then obtain tot s2 y where "fzf_run U s' (t_to t) cs tot s2 y"
    using Cons.IH [OF ex(2) d(2) [unfolded c]] Cons.prems(3,5) ex(3) by (auto simp: fzf_same_def)
  from fzf_run_step [OF ex(1) t out wt this] show ?case by blast
qed

lemma fzf_with_config_new:
  assumes "fzf_with_config U D q config = Inr s" and "config_ok config" and "dictionary_ok D"
  obtains core where "core_new U q config = Inr core" and "fz_core s = core" and "fz_dictionary s = D"
    and "freg_len (fz_registry s) = 1" and "fzf_wf U s"
proof -
  obtain core where core: "core_new U q config = Inr core"
    "s = \<lparr>fz_dictionary = D, fz_core = core, fz_registry = freg_new (dict_root D) (initial_column core)\<rparr>"
    using assms(1) by (auto simp: fzf_with_config_def split: sum.splits)
  note ok = core_new_ok [OF core(1) assms(2)]
  have dense: "dense_map (freg_find (freg_new (dict_root D) (initial_column core))) (Suc 0)"
    by (auto simp: dense_map_def freg_find_def freg_new_def unat_eq_0 split: option.splits intro: exI [of _ None])
  have get: "freg_get (freg_new (dict_root D) (initial_column core)) i = Some st \<longleftrightarrow>
      i = 0 \<and> st = path_state (dict_root D) (initial_column core)" for i st
    by (auto simp: freg_get_eq freg_new_def nth_opt_eq_Some unat_eq_0)
  have "freg_tracks U D core (freg_new (dict_root D) (initial_column core))"
    using column_ok_initial [OF ok(1)] unfolding freg_tracks_def get
    by (auto simp: path_state_def freg_new_def)
  then have "fzf_wf U s" using ok(1) assms(3) dense by (simp add: fzf_wf_def core(2) freg_wf_def freg_new_def)
  then show ?thesis using that [of core] core by (simp add: freg_len_def freg_new_def)
qed

text \<open>
  C4: the fzf WFST computes fzf scores. From a fresh source, a path that reads the word \<open>w\<close> ends in a
  final state exactly when \<open>w\<close> is a term of the dictionary that the query matches, the path's
  weights then sum to the exact score of \<open>w\<close>, no expansion on the way panics, and every such term
  has its path as long as the state identifiers do not run out.
\<close>

theorem fzf_wfst_scores:
  assumes "dictionary_ok D" and "fzf_with_config U D q config = Inr s" and "config_ok config"
    and "core_new U q config = Inr core"
    and "\<forall>n. length (node_edges D n) \<le> B" and "1 + length w * B \<le> 2 ^ 32"
  shows "(fzf_accepts U s w v \<longleftrightarrow> dict_accepts D w \<and> path_score_of U core w = Some v) \<and>
    (\<forall>s' x. fzf_run U s 0 w v s' x \<longrightarrow> fzf_expand_state U s' x \<noteq> None)"
proof -
  from fzf_with_config_new [OF assms(2,3,1)] have new: "fz_core s = core" "fz_dictionary s = D"
    "freg_len (fz_registry s) = 1" "fzf_wf U s" using assms(4) by auto
  have score0: "score_or_zero (column_of U core []) = 0"
    by (simp add: score_or_zero_def initial_column_def)
  have sound: "fzf_wf U s' \<and> fzf_same s s' \<and> fzf_at U s' x w \<and> v' = score_or_zero (column_of U core w)"
    if "fzf_run U s 0 w v' s' x" for v' s' x
    using fzf_run_sound [OF that new(4) fzf_at_start [OF new(4)]] new(1) score0 by simp
  have expand: "\<exists>ts s''. fzf_expand_state U s' x = Some (Expanded (dict_accepts D w \<and> path_score_of U core w \<noteq> None)
      (if dict_accepts D w \<and> path_score_of U core w \<noteq> None then arctic_one else arctic_zero) ts, s'')"
    if "fzf_run U s 0 w v' s' x" for v' s' x
    by (rule fzf_expand_facts [of U s' x w]) (use sound [OF that] new in \<open>auto simp: fzf_same_def\<close>)
  have "fzf_accepts U s w v \<longleftrightarrow> dict_accepts D w \<and> path_score_of U core w = Some v"
  proof
    assume "fzf_accepts U s w v"
    then obtain s' x ts s'' where r: "fzf_run U s 0 w v s' x" "fzf_expand_state U s' x = Some (Expanded True arctic_one ts, s'')"
      by (auto simp: fzf_accepts_def fzf_start_def)
    then have "dict_accepts D w \<and> path_score_of U core w \<noteq> None" using expand [OF r(1)] by auto
    then show "dict_accepts D w \<and> path_score_of U core w = Some v"
      using sound [OF r(1)] by (auto simp: score_or_zero_def path_score_of_def)
  next
    assume acc: "dict_accepts D w \<and> path_score_of U core w = Some v"
    then have "walk D (dict_root D) ([] @ w) \<noteq> None" by (auto simp: dict_accepts_def split: option.splits)
    then obtain v' s' x where r: "fzf_run U s 0 w v' s' x"
      using fzf_run_complete [OF new(4) fzf_at_start [OF new(4)], of B w] assms(5,6) new by auto
    then have "v' = v" using sound [OF r] acc by (simp add: score_or_zero_def path_score_of_def)
    then show "fzf_accepts U s w v"
      using r expand [OF r] acc unfolding fzf_accepts_def fzf_start_def by auto
  qed
  then show ?thesis using expand by fastforce
qed

theorem fzf_wfst_scores_witness:
  "\<exists>s v. fzf_with_config ascii_tables ab_dictionary [65, 98] fzf_config_default = Inr s \<and>
     fzf_accepts ascii_tables s [97, 98] v"
proof -
  obtain s where s: "fzf_with_config ascii_tables ab_dictionary [65, 98] fzf_config_default = Inr s"
    using ab_core_new by (simp add: fzf_with_config_def)
  have edges: "\<forall>n. length (node_edges ab_dictionary n) \<le> 1"
    by (simp add: ab_dictionary_def ab_edges_def)
  have "path_score_of ascii_tables ab_core [97, 98] \<noteq> None"
    using path_score_Some_iff [OF core_new_ok(1) [OF ab_core_new config_default_ok], of ascii_tables "[97, 98]"]
    by (simp add: ab_core_def folded_def comparable_char_def fzf_config_default_def is_ascii_def to_ascii_lowercase_def)
  then obtain v where v: "path_score_of ascii_tables ab_core [97, 98] = Some v" by blast
  have "fzf_accepts ascii_tables s [97, 98] v"
    using fzf_wfst_scores [OF ab_dictionary_ok s config_default_ok ab_core_new edges, of "[97, 98]" v] v
      ab_dictionary_accepts by simp
  then show ?thesis using s by blast
qed

end
