(* ===== verification/Rewrite.thy ===== *)
theory Rewrite
  imports State_Encoding Lazy_Wrapper Interning
begin

text \<open>
  \<open>src/phonetic_rewrite_support.rs\<close>, \<open>src/phonetic_rewrite_wfst.rs\<close>: the rule-based rewrite WFST. State
  0 is home; a rule of \<open>n\<close> steps (the longer of its two sides) leaves home and returns through
  \<open>n - 1\<close> continuation states of its own, which the metadata numbers. Strings are lists of
  code points.
\<close>

definition chars :: "string \<Rightarrow> uchar list" where
  "chars s = map of_char s"

section \<open>Rules\<close>

record rewrite_rule =
  rr_input :: "uchar list"
  rr_output :: "uchar list"
  rr_cost :: f64
  rr_priority :: int

definition rule_from_validated_cost :: "uchar list \<Rightarrow> uchar list \<Rightarrow> f64 \<Rightarrow> rewrite_rule" where
  "rule_from_validated_cost input output cost =
     \<lparr>rr_input = input, rr_output = output, rr_cost = cost, rr_priority = 0\<rparr>"

definition rule_new :: "uchar list \<Rightarrow> uchar list \<Rightarrow> rewrite_rule" where
  "rule_new input output = \<lparr>rr_input = input, rr_output = output, rr_cost = F64 0, rr_priority = 0\<rparr>"

definition rule_with_cost :: "uchar list \<Rightarrow> uchar list \<Rightarrow> f64 \<Rightarrow> invalid_weight_error + rewrite_rule" where
  "rule_with_cost input output cost =
     (case validate_finite_nonnegative_weight ''rewrite rule cost'' cost of
        Inl e \<Rightarrow> Inl e
      | Inr c \<Rightarrow> Inr (rule_from_validated_cost input output c))"

definition rule_with_priority :: "rewrite_rule \<Rightarrow> int \<Rightarrow> rewrite_rule" where
  "rule_with_priority rule priority = rule\<lparr>rr_priority := priority\<rparr>"

definition validate_rewrite_rule :: "rewrite_rule \<Rightarrow> invalid_weight_error + unit" where
  "validate_rewrite_rule rule =
     (case validate_finite_nonnegative_weight ''rewrite rule cost'' (rr_cost rule) of
        Inl e \<Rightarrow> Inl e
      | Inr _ \<Rightarrow> Inr ())"

fun validate_rewrite_rules :: "rewrite_rule list \<Rightarrow> invalid_weight_error + unit" where
  "validate_rewrite_rules [] = Inr ()"
| "validate_rewrite_rules (rule # rules) =
     (case validate_rewrite_rule rule of Inl e \<Rightarrow> Inl e | Inr _ \<Rightarrow> validate_rewrite_rules rules)"

section \<open>Prepared rules and their metadata\<close>

record prepared_rule =
  pr_input :: "uchar list"
  pr_output :: "uchar list"
  pr_cost_weight :: weight
  pr_steps :: usize

definition prepare_rule :: "rewrite_rule \<Rightarrow> prepared_rule" where
  "prepare_rule rule =
     \<lparr>pr_input = rr_input rule, pr_output = rr_output rule, pr_cost_weight = rr_cost rule,
      pr_steps = max (length (rr_input rule)) (length (rr_output rule))\<rparr>"

definition continuation_steps :: "prepared_rule \<Rightarrow> usize" where
  "continuation_steps p = usize_sat_sub (pr_steps p) 1"

record continuation =
  rule_index :: usize
  rule_step :: usize

record rule_metadata =
  prepared_rules :: "prepared_rule list"
  priority_order :: "usize list"
  continuation_end_offsets :: "usize list"
  continuation_lookup :: "continuation list"
  continuation_states :: usize

definition rule_continuations :: "usize \<Rightarrow> prepared_rule \<Rightarrow> continuation list" where
  "rule_continuations i p = map (\<lambda>step. \<lparr>rule_index = i, rule_step = step\<rparr>) [1..<pr_steps p]"

text \<open>The loop that fills the lookup table and its cumulative offsets.\<close>

fun fill_lookup :: "usize \<Rightarrow> prepared_rule list \<Rightarrow> continuation list \<Rightarrow> usize list \<Rightarrow> continuation list \<times> usize list" where
  "fill_lookup i [] lookup ends = (lookup, ends)"
| "fill_lookup i (p # ps) lookup ends =
     (let lookup' = lookup @ rule_continuations i p
      in fill_lookup (Suc i) ps lookup' (ends @ [length lookup']))"

text \<open>\<open>sort_by\<close>: priority from high to low, then the index.\<close>

definition priority_key :: "rewrite_rule list \<Rightarrow> usize \<Rightarrow> int \<times> usize" where
  "priority_key rules i = (- rr_priority (rules ! i), i)"

definition from_rules :: "rewrite_rule list \<Rightarrow> rule_metadata" where
  "from_rules rules =
     (let prepared = map prepare_rule rules;
          (lookup, ends) = fill_lookup 0 prepared [] []
      in \<lparr>prepared_rules = prepared,
          priority_order = sort_key (priority_key rules) [0..<length rules],
          continuation_end_offsets = ends,
          continuation_lookup = lookup,
          continuation_states = foldl (\<lambda>n p. usize_sat_add n (continuation_steps p)) 0 prepared\<rparr>)"

section \<open>Pruning parallel transitions\<close>

definition hash_prune_threshold :: usize where
  "hash_prune_threshold = 16"

type_synonym rewrite_key = "state_id \<times> uchar option \<times> uchar option \<times> state_id"

definition transition_key :: "transition \<Rightarrow> rewrite_key" where
  "transition_key t = (t_from t, t_input t, t_output t, t_to t)"

text \<open>The hash variant: an index into the result per key.\<close>

fun prune_hash :: "transition list \<Rightarrow> transition list \<Rightarrow> (rewrite_key \<rightharpoonup> usize) \<Rightarrow> transition list" where
  "prune_hash [] pruned index = pruned"
| "prune_hash (t # ts) pruned index =
     (case index (transition_key t) of
        None \<Rightarrow> prune_hash ts (pruned @ [t]) (index(transition_key t \<mapsto> length pruned))
      | Some i \<Rightarrow>
          prune_hash ts (if f64_lt (t_weight t) (t_weight (pruned ! i)) then pruned[i := t] else pruned) index)"

text \<open>The linear variant: replace in place the first transition with the key, if it is dearer.\<close>

fun keep_cheaper :: "transition \<Rightarrow> transition list \<Rightarrow> transition list" where
  "keep_cheaper t [] = [t]"
| "keep_cheaper t (e # es) =
     (if transition_key e = transition_key t
      then (if f64_lt (t_weight t) (t_weight e) then t else e) # es
      else e # keep_cheaper t es)"

definition prune_linear :: "transition list \<Rightarrow> transition list" where
  "prune_linear ts = foldl (\<lambda>pruned t. keep_cheaper t pruned) [] ts"

definition prune_dominated_transitions :: "transition list \<Rightarrow> transition list" where
  "prune_dominated_transitions ts =
     (if length ts < 2 then ts
      else if length ts < hash_prune_threshold then prune_linear ts
      else prune_hash ts [] Map.empty)"

definition rewrite_state_count :: "usize \<Rightarrow> usize" where
  "rewrite_state_count n =
     (let addressable = (case usize_try_from_u32 u32_max of
            Some m \<Rightarrow> (case usize_checked_add m 1 of Some k \<Rightarrow> k | None \<Rightarrow> usize_max)
          | None \<Rightarrow> usize_max)
      in min (usize_sat_add n 1) addressable)"

section \<open>The WFST\<close>

text \<open>The automaton; the cache is paired with it, as for every wrapper.\<close>

record rewrite_wfst =
  rw_rules :: "rewrite_rule list"
  rw_meta :: rule_metadata
  allow_identity :: bool

definition rewrite_max_cache_size :: usize where
  "rewrite_max_cache_size = 10000"

definition rewrite_new :: rewrite_wfst where
  "rewrite_new =
     \<lparr>rw_rules = [],
      rw_meta = \<lparr>prepared_rules = [], priority_order = [], continuation_end_offsets = [], continuation_lookup = [],
                 continuation_states = 0\<rparr>,
      allow_identity = True\<rparr>"

definition from_validated_rules :: "rewrite_rule list \<Rightarrow> rewrite_wfst" where
  "from_validated_rules rules = \<lparr>rw_rules = rules, rw_meta = from_rules rules, allow_identity = True\<rparr>"

definition with_rules :: "rewrite_rule list \<Rightarrow> invalid_weight_error + rewrite_wfst" where
  "with_rules rules =
     (case validate_rewrite_rules rules of Inl e \<Rightarrow> Inl e | Inr _ \<Rightarrow> Inr (from_validated_rules rules))"

definition num_rules :: "rewrite_wfst \<Rightarrow> usize" where
  "num_rules w = length (rw_rules w)"

text \<open>\<open>partition_point\<close>: the number of leading elements that satisfy the predicate.\<close>

definition partition_point :: "('a \<Rightarrow> bool) \<Rightarrow> 'a list \<Rightarrow> usize" where
  "partition_point P xs = length (takeWhile P xs)"

definition insert_at :: "usize \<Rightarrow> 'a \<Rightarrow> 'a list \<Rightarrow> 'a list" where
  "insert_at i x xs = take i xs @ x # drop i xs"

definition append_validated_rule :: "rewrite_rule \<Rightarrow> rewrite_wfst \<Rightarrow> rewrite_wfst" where
  "append_validated_rule rule w =
     (let i = length (rw_rules w);
          m = rw_meta w;
          p = prepare_rule rule;
          lookup = continuation_lookup m @ rule_continuations i p;
          insertion = partition_point (\<lambda>j. rr_priority (rw_rules w ! j) > rr_priority rule \<or>
                         rr_priority (rw_rules w ! j) = rr_priority rule \<and> j < i) (priority_order m)
      in w\<lparr>rw_rules := rw_rules w @ [rule],
           rw_meta := \<lparr>prepared_rules = prepared_rules m @ [p],
                       priority_order = insert_at insertion i (priority_order m),
                       continuation_end_offsets = continuation_end_offsets m @ [length lookup],
                       continuation_lookup = lookup,
                       continuation_states = length lookup\<rparr>\<rparr>)"

text \<open>The mutators of the public interface act on the cache and the automaton together.\<close>

type_synonym cached_rewrite = "cached_char_state lazy_cache \<times> rewrite_wfst"

definition add_rewrite_rule :: "rewrite_rule \<Rightarrow> cached_rewrite \<Rightarrow> invalid_weight_error + cached_rewrite" where
  "add_rewrite_rule rule cw =
     (case validate_rewrite_rule rule of
        Inl e \<Rightarrow> Inl e
      | Inr _ \<Rightarrow> Inr (cache_clear (fst cw), append_validated_rule rule (snd cw)))"

definition add_rule :: "uchar list \<Rightarrow> uchar list \<Rightarrow> f64 \<Rightarrow> cached_rewrite \<Rightarrow> invalid_weight_error + cached_rewrite" where
  "add_rule input output cost cw =
     (case rule_with_cost input output cost of
        Inl e \<Rightarrow> Inl e
      | Inr rule \<Rightarrow> Inr (cache_clear (fst cw), append_validated_rule rule (snd cw)))"

definition set_allow_identity :: "bool \<Rightarrow> cached_rewrite \<Rightarrow> cached_rewrite" where
  "set_allow_identity allow cw = (cache_clear (fst cw), (snd cw)\<lparr>allow_identity := allow\<rparr>)"

definition rewrite_num_states :: "rewrite_wfst \<Rightarrow> usize" where
  "rewrite_num_states w = rewrite_state_count (continuation_states (rw_meta w))"

definition is_known_state :: "rewrite_wfst \<Rightarrow> state_id \<Rightarrow> bool" where
  "is_known_state w state \<longleftrightarrow> unat state < rewrite_num_states w"

definition continuation_start :: "rewrite_wfst \<Rightarrow> usize \<Rightarrow> usize" where
  "continuation_start w i =
     (case Option.bind (usize_checked_sub i 1) (nth_opt (continuation_end_offsets (rw_meta w))) of
        Some n \<Rightarrow> n
      | None \<Rightarrow> 0)"

definition rw_continuation_state :: "rewrite_wfst \<Rightarrow> usize \<Rightarrow> usize \<Rightarrow> state_id option" where
  "rw_continuation_state w i step = u32_try_from (usize_sat_add (continuation_start w i) step)"

definition decode_continuation_state :: "rewrite_wfst \<Rightarrow> state_id \<Rightarrow> (usize \<times> usize) option" where
  "decode_continuation_state w state =
     (if state = 0 then None
      else case nth_opt (continuation_lookup (rw_meta w)) (unat (state - 1)) of
             None \<Rightarrow> None
           | Some c \<Rightarrow>
               (case nth_opt (prepared_rules (rw_meta w)) (rule_index c) of
                  None \<Rightarrow> None
                | Some p \<Rightarrow> if rule_step c < pr_steps p then Some (rule_index c, rule_step c) else None))"

definition rule_step_transition :: "rewrite_wfst \<Rightarrow> usize \<Rightarrow> usize \<Rightarrow> transition option" where
  "rule_step_transition w i step =
     (case nth_opt (prepared_rules (rw_meta w)) i of
        None \<Rightarrow> None
      | Some p \<Rightarrow>
          if pr_steps p = 0 \<or> step \<ge> pr_steps p then None
          else case if step = 0 then Some 0 else rw_continuation_state w i step of
                 None \<Rightarrow> None
               | Some from \<Rightarrow>
                   (case if step + 1 = pr_steps p then Some 0 else rw_continuation_state w i (step + 1) of
                      None \<Rightarrow> None
                    | Some to \<Rightarrow>
                        Some (mk_transition from (nth_opt (pr_input p) step) (nth_opt (pr_output p) step) to
                               (if step = 0 then pr_cost_weight p else tropical_one))))"

definition push_rule_step_transition :: "rewrite_wfst \<Rightarrow> transition list \<Rightarrow> usize \<Rightarrow> usize \<Rightarrow> transition list" where
  "push_rule_step_transition w ts i step =
     (case rule_step_transition w i step of None \<Rightarrow> ts | Some t \<Rightarrow> ts @ [t])"

text \<open>The identity transitions: printable ASCII, from the space to the tilde.\<close>

definition identity_transitions :: "transition list" where
  "identity_transitions = map (\<lambda>c. mk_transition 0 (Some c) (Some c) 0 tropical_one) [32..<127]"

definition rw_compute_transitions :: "rewrite_wfst \<Rightarrow> state_id \<Rightarrow> bool \<times> weight \<times> transition list" where
  "rw_compute_transitions w state =
     (if \<not> is_known_state w state then (False, tropical_zero, [])
      else
        let final = (state = 0);
            own = (if state = 0
                   then foldl (\<lambda>ts i. push_rule_step_transition w ts i 0) [] (priority_order (rw_meta w))
                   else case decode_continuation_state w state of
                          Some (i, step) \<Rightarrow> push_rule_step_transition w [] i step
                        | None \<Rightarrow> []);
            ident = (if allow_identity w \<and> state = 0 then identity_transitions else [])
        in (final, if final then tropical_one else tropical_zero, prune_dominated_transitions (own @ ident)))"

definition rewrite_expand_state :: "rewrite_wfst \<Rightarrow> state_id \<Rightarrow> expansion \<times> rewrite_wfst" where
  "rewrite_expand_state w state =
     (if \<not> is_known_state w state then (Failed (InvalidState state), w)
      else case rw_compute_transitions w state of
             (final, fw, ts) \<Rightarrow> (if final then final_state fw ts else non_final ts, w))"

text \<open>The final weight the wrapper reports for a state it has not cached.\<close>

definition rewrite_uncached_weight :: "rewrite_wfst \<Rightarrow> state_id \<Rightarrow> weight option" where
  "rewrite_uncached_weight w state = (if state = 0 then Some tropical_one else None)"

definition rewrite_ensure_state ::
    "state_id \<Rightarrow> cached_rewrite \<Rightarrow> (expansion_error + expansion_status) \<times> cached_rewrite" where
  "rewrite_ensure_state state cw = ensure_cached_char_state rewrite_expand_state is_known_state state cw"

definition rewrite_is_final :: "cached_rewrite \<Rightarrow> state_id \<Rightarrow> bool" where
  "rewrite_is_final cw state = wrapper_is_final rewrite_uncached_weight cw state"

definition rewrite_final_weight :: "cached_rewrite \<Rightarrow> state_id \<Rightarrow> weight" where
  "rewrite_final_weight cw state = wrapper_final_weight rewrite_uncached_weight cw state"

definition rewrite_transitions :: "cached_rewrite \<Rightarrow> state_id \<Rightarrow> transition list" where
  "rewrite_transitions cw state = wrapper_transitions cw state"

definition rewrite_transitions_lazy :: "state_id \<Rightarrow> cached_rewrite \<Rightarrow> transition list \<times> cached_rewrite" where
  "rewrite_transitions_lazy state cw =
     (case rewrite_ensure_state state cw of (_, cw') \<Rightarrow> (rewrite_transitions cw' state, cw'))"

definition rewrite_num_states_hint :: "rewrite_wfst \<Rightarrow> usize option" where
  "rewrite_num_states_hint w = Some (rewrite_num_states w)"

section \<open>The common rules\<close>

text \<open>The \<open>f64\<close> literals 0.1 and 0.2 are these rationals.\<close>

definition f64_0_1 :: f64 where "f64_0_1 = F64 (3602879701896397 / 36028797018963968)"
definition f64_0_2 :: f64 where "f64_0_2 = F64 (3602879701896397 / 18014398509481984)"

definition common_english :: "rewrite_rule list" where
  "common_english =
     [rule_from_validated_cost (chars ''ph'') (chars ''f'') f64_0_1,
      rule_from_validated_cost (chars ''gh'') (chars ''f'') f64_0_2,
      rule_from_validated_cost (chars ''ck'') (chars ''k'') f64_0_1,
      rule_from_validated_cost (chars ''qu'') (chars ''kw'') f64_0_1,
      rule_from_validated_cost (chars ''x'') (chars ''ks'') f64_0_1,
      rule_from_validated_cost (chars ''c'') (chars ''k'') f64_0_2,
      rule_from_validated_cost (chars ''c'') (chars ''s'') f64_0_2]"

definition common_german :: "rewrite_rule list" where
  "common_german =
     [rule_from_validated_cost (chars ''sch'') (chars ''sh'') f64_0_1,
      rule_from_validated_cost (chars ''ch'') (chars ''x'') f64_0_1,
      rule_from_validated_cost [0xDF] (chars ''ss'') f64_0_1,
      rule_from_validated_cost [0xE4] (chars ''ae'') f64_0_1,
      rule_from_validated_cost [0xF6] (chars ''oe'') f64_0_1,
      rule_from_validated_cost [0xFC] (chars ''ue'') f64_0_1]"

definition common_french :: "rewrite_rule list" where
  "common_french =
     [rule_from_validated_cost (chars ''eau'') (chars ''o'') f64_0_1,
      rule_from_validated_cost (chars ''aux'') (chars ''o'') f64_0_1,
      rule_from_validated_cost (chars ''ai'') (chars ''e'') f64_0_1,
      rule_from_validated_cost (chars ''ph'') (chars ''f'') f64_0_1,
      rule_from_validated_cost (chars ''qu'') (chars ''k'') f64_0_1]"

end
