(* ===== verification/Rewrite_Meta.thy ===== *)
theory Rewrite_Meta
  imports Rewrite
begin

text \<open>
  The metadata of the rewrite WFST: pruning is the same by hash and by scan, rules added one by one
  give the metadata of the whole list, and the numbering of the continuation states is exact.
\<close>

section \<open>Pruning\<close>

lemma keep_cheaper_new: "transition_key t \<notin> transition_key ` set es \<Longrightarrow> keep_cheaper t es = es @ [t]"
  by (induction es) auto

lemma keep_cheaper_at:
  assumes "i < length es" and "distinct (map transition_key es)" and "transition_key (es ! i) = transition_key t"
  shows "keep_cheaper t es = (if f64_lt (t_weight t) (t_weight (es ! i)) then es[i := t] else es)"
  using assms
proof (induction es arbitrary: i)
  case (Cons e es)
  show ?case
  proof (cases i)
    case (Suc j)
    then have "transition_key (es ! j) \<in> transition_key ` set es" using Cons.prems(1) by simp
    then have "transition_key e \<noteq> transition_key t" using Cons.prems(2,3) Suc by auto
    then show ?thesis using Cons.IH [of j] Cons.prems Suc by simp
  qed (use Cons.prems in simp)
qed simp

text \<open>The index of the hash variant points at the transition that holds a key.\<close>

definition indexes :: "(rewrite_key \<rightharpoonup> usize) \<Rightarrow> transition list \<Rightarrow> bool" where
  "indexes ix ts \<longleftrightarrow> distinct (map transition_key ts) \<and>
     (\<forall>k i. ix k = Some i \<longleftrightarrow> i < length ts \<and> transition_key (ts ! i) = k)"

lemma indexesD:
  assumes "indexes ix ts"
  shows "distinct (map transition_key ts)"
    and "ix k = Some i \<Longrightarrow> i < length ts" and "ix k = Some i \<Longrightarrow> transition_key (ts ! i) = k"
    and "i < length ts \<Longrightarrow> ix (transition_key (ts ! i)) = Some i"
  using assms unfolding indexes_def by blast+

lemma map_key_update: "i < length ts \<Longrightarrow> transition_key (ts ! i) = transition_key t \<Longrightarrow>
    map transition_key (ts[i := t]) = map transition_key ts"
  by (metis list_update_id map_update nth_map)

lemma indexes_update:
  assumes "indexes ix ts" and "ix (transition_key t) = Some i"
  shows "indexes ix (ts[i := t])"
proof -
  have i: "i < length ts" "transition_key (ts ! i) = transition_key t" using indexesD(2,3) [OF assms] by blast+
  have key: "transition_key (ts[i := t] ! j) = transition_key (ts ! j)" if "j < length ts" for j
    using i that by (cases "j = i") simp_all
  show ?thesis
    unfolding indexes_def map_key_update [OF i] length_list_update
    using assms(1) key unfolding indexes_def by metis
qed

lemma indexes_snoc:
  assumes "indexes ix ts" and "ix (transition_key t) = None"
  shows "indexes (ix(transition_key t \<mapsto> length ts)) (ts @ [t])"
proof -
  have fresh: "transition_key (ts ! i) \<noteq> transition_key t" if "i < length ts" for i
    using indexesD(4) [OF assms(1) that] assms(2) by force
  then have "transition_key t \<notin> set (map transition_key ts)" by (metis in_set_conv_nth length_map nth_map)
  moreover have "(ix(transition_key t \<mapsto> length ts)) k = Some i \<longleftrightarrow>
      i < length (ts @ [t]) \<and> transition_key ((ts @ [t]) ! i) = k" for k i
  proof (cases "k = transition_key t")
    case True
    then show ?thesis using fresh by (auto simp: nth_append less_Suc_eq)
  next
    case False
    have "ix k = Some i \<longleftrightarrow> i < length ts \<and> transition_key (ts ! i) = k" for i
      using assms(1) unfolding indexes_def by blast
    then show ?thesis using False by (metis fun_upd_other length_append_singleton less_Suc_eq nth_append nth_append_length)
  qed
  ultimately show ?thesis using indexesD(1) [OF assms(1)] unfolding indexes_def by simp
qed

lemma prune_hash_eq:
  "indexes ix pruned \<Longrightarrow> prune_hash ts pruned ix = foldl (\<lambda>pruned t. keep_cheaper t pruned) pruned ts"
proof (induction ts arbitrary: pruned ix)
  case (Cons t ts)
  show ?case
  proof (cases "ix (transition_key t)")
    case None
    then have "transition_key t \<notin> transition_key ` set pruned"
      using indexesD(4) [OF Cons.prems] by (auto simp: in_set_conv_nth)
    then show ?thesis
      using Cons.IH [OF indexes_snoc [OF Cons.prems None]] None by (simp add: keep_cheaper_new del: fun_upd_apply)
  next
    case (Some i)
    then have i: "i < length pruned" "distinct (map transition_key pruned)" "transition_key (pruned ! i) = transition_key t"
      using indexesD [OF Cons.prems] Some by blast+
    show ?thesis
      using Cons.IH [OF Cons.prems] Cons.IH [OF indexes_update [OF Cons.prems Some]] Some
      by (simp add: keep_cheaper_at [OF i])
  qed
qed simp

lemma prune_is_linear: "prune_dominated_transitions ts = prune_linear ts"
proof -
  have "prune_hash ts [] Map.empty = prune_linear ts"
    unfolding prune_linear_def by (rule prune_hash_eq) (simp add: indexes_def)
  moreover have "prune_linear ts = ts" if "length ts < 2"
    using that by (cases ts) (auto simp: prune_linear_def)
  ultimately show ?thesis by (auto simp: prune_dominated_transitions_def)
qed

lemma set_keep_cheaper: "set (keep_cheaper t es) \<subseteq> insert t (set es)"
  by (induction es) auto

lemma keys_keep_cheaper: "transition_key ` set (keep_cheaper t es) = insert (transition_key t) (transition_key ` set es)"
  by (induction es) auto

lemma distinct_keep_cheaper: "distinct (map transition_key es) \<Longrightarrow> distinct (map transition_key (keep_cheaper t es))"
proof (induction es)
  case (Cons e es)
  then show ?case using keys_keep_cheaper [of t es] by auto
qed simp

text \<open>No transition is lost without one as cheap that has its ends and labels.\<close>

definition covered :: "transition list \<Rightarrow> transition \<Rightarrow> bool" where
  "covered es t \<longleftrightarrow> (\<exists>t' \<in> set es. transition_key t' = transition_key t \<and> (\<forall>r. t_weight t = F64 r \<longrightarrow>
     (\<exists>r' \<le> r. t_weight t' = F64 r')))"

definition finite_weight :: "transition \<Rightarrow> bool" where
  "finite_weight t \<longleftrightarrow> (\<exists>r. t_weight t = F64 r)"

lemma covered_keep_cheaper:
  assumes "finite_weight t" and "\<forall>e \<in> set es. finite_weight e"
  shows "covered (keep_cheaper t es) t" and "covered es u \<Longrightarrow> covered (keep_cheaper t es) u"
proof -
  show "covered (keep_cheaper t es) t"
    using assms
  proof (induction es)
    case (Cons e es)
    show ?case
    proof (cases "transition_key e = transition_key t")
      case True
      obtain a b where "t_weight t = F64 a" "t_weight e = F64 b" using Cons.prems by (auto simp: finite_weight_def)
      then show ?thesis using True by (auto simp: covered_def)
    qed (use Cons in \<open>auto simp: covered_def\<close>)
  qed (auto simp: covered_def)
  show "covered es u \<Longrightarrow> covered (keep_cheaper t es) u"
    using assms
  proof (induction es)
    case (Cons e es)
    show ?case
    proof (cases "transition_key e = transition_key t")
      case True
      obtain a b where ab: "t_weight t = F64 a" "t_weight e = F64 b" using Cons.prems by (auto simp: finite_weight_def)
      show ?thesis
        using Cons.prems(1) True ab by (auto simp: covered_def intro: order_trans less_imp_le)
    qed (use Cons in \<open>auto simp: covered_def\<close>)
  qed (simp add: covered_def)
qed

lemma prune_linear_snoc: "prune_linear (ts @ [t]) = keep_cheaper t (prune_linear ts)"
  by (simp add: prune_linear_def)

lemma prune_linear_set: "set (prune_linear ts) \<subseteq> set ts"
proof (induction ts rule: rev_induct)
  case (snoc t ts)
  then show ?case using set_keep_cheaper [of t "prune_linear ts"] by (auto simp: prune_linear_snoc)
qed (simp add: prune_linear_def)

lemma prune_linear_covers:
  assumes "\<forall>t \<in> set ts. finite_weight t" and "t \<in> set ts"
  shows "covered (prune_linear ts) t"
  using assms
proof (induction ts arbitrary: t rule: rev_induct)
  case (snoc u ts)
  have fin: "finite_weight u" "\<forall>e \<in> set (prune_linear ts). finite_weight e"
    using snoc.prems(1) prune_linear_set by auto
  show ?case
    using covered_keep_cheaper [OF fin] snoc by (auto simp: prune_linear_snoc)
qed simp

lemma prune_linear_distinct: "distinct (map transition_key (prune_linear ts))"
  by (induction ts rule: rev_induct) (simp_all add: prune_linear_snoc distinct_keep_cheaper prune_linear_def [of "[]"])

text \<open>
  Pruning parallel transitions is exact. Whichever variant runs (none below two transitions, the
  scan below the threshold, the hash table from there on), the result is that of the scan: no two
  transitions share their ends and labels, every one comes from the input, and each input
  transition of finite weight has one with its ends and labels that costs no more.
\<close>

theorem prune_dominated_correct:
  assumes "\<forall>t \<in> set ts. \<exists>r. t_weight t = F64 r"
  shows "prune_dominated_transitions ts = prune_linear ts \<and>
    (2 \<le> length ts \<longrightarrow> prune_hash ts [] Map.empty = prune_linear ts) \<and>
    distinct (map transition_key (prune_dominated_transitions ts)) \<and>
    set (prune_dominated_transitions ts) \<subseteq> set ts \<and>
    (\<forall>t \<in> set ts. \<exists>t' \<in> set (prune_dominated_transitions ts). transition_key t' = transition_key t \<and>
       (\<forall>r. t_weight t = F64 r \<longrightarrow> (\<exists>r' \<le> r. t_weight t' = F64 r')))"
proof -
  have "prune_hash ts [] Map.empty = prune_linear ts"
    unfolding prune_linear_def by (rule prune_hash_eq) (simp add: indexes_def)
  then show ?thesis
    using prune_linear_distinct [of ts] prune_linear_set [of ts] prune_linear_covers [of ts] assms
    by (auto simp: prune_is_linear covered_def finite_weight_def)
qed

theorem prune_dominated_correct_witness:
  "prune_dominated_transitions [mk_transition 0 (Some 97) (Some 98) 0 (F64 2), mk_transition 0 (Some 97) (Some 98) 0 (F64 1)] =
     [mk_transition 0 (Some 97) (Some 98) 0 (F64 1)]"
proof -
  let ?ts = "[mk_transition 0 (Some 97) (Some 98) 0 (F64 2), mk_transition 0 (Some 97) (Some 98) 0 (F64 1)]"
  have "\<forall>t \<in> set ?ts. \<exists>r. t_weight t = F64 r" by simp
  from prune_dominated_correct [OF this] show ?thesis by (simp add: prune_linear_def transition_key_def)
qed

section \<open>The lookup table\<close>

lemma fill_lookup_append:
  "fill_lookup i (ps @ qs) l e = (case fill_lookup i ps l e of (l', e') \<Rightarrow> fill_lookup (i + length ps) qs l' e')"
  by (induction i ps l e rule: fill_lookup.induct) (simp_all add: Let_def)

abbreviation lookup_of :: "prepared_rule list \<Rightarrow> continuation list" where
  "lookup_of ps \<equiv> fst (fill_lookup 0 ps [] [])"

abbreviation ends_of :: "prepared_rule list \<Rightarrow> usize list" where
  "ends_of ps \<equiv> snd (fill_lookup 0 ps [] [])"

lemma fill_lookup_snoc:
  "lookup_of (ps @ [p]) = lookup_of ps @ rule_continuations (length ps) p"
  "ends_of (ps @ [p]) = ends_of ps @ [length (lookup_of (ps @ [p]))]"
  by (simp_all add: fill_lookup_append Let_def case_prod_unfold)

lemma length_rule_continuations [simp]: "length (rule_continuations i p) = pr_steps p - 1"
  by (simp add: rule_continuations_def)

lemma length_ends_of [simp]: "length (ends_of ps) = length ps"
  by (induction ps rule: rev_induct) (simp_all add: fill_lookup_snoc)

lemma ends_of_nth: "i < length ps \<Longrightarrow> ends_of ps ! i = length (lookup_of (take (Suc i) ps))"
proof (induction ps rule: rev_induct)
  case (snoc p ps)
  then show ?case by (cases "i = length ps") (simp_all add: fill_lookup_snoc nth_append)
qed simp

lemma lookup_of_take: "\<exists>rest. lookup_of ps = lookup_of (take i ps) @ rest"
proof (induction ps rule: rev_induct)
  case (snoc p ps)
  then show ?case by (cases "i \<le> length ps") (auto simp: fill_lookup_snoc)
qed simp

text \<open>Rule \<open>i\<close>'s step \<open>s\<close> is entry \<open>start + s - 1\<close>, and every entry is some rule's step.\<close>

definition start_of :: "prepared_rule list \<Rightarrow> usize \<Rightarrow> usize" where
  "start_of ps i = length (lookup_of (take i ps))"

lemma lookup_of_nth:
  assumes "i < length ps" and "0 < s" and "s < pr_steps (ps ! i)"
  shows "start_of ps i + s - 1 < length (lookup_of ps)"
    and "lookup_of ps ! (start_of ps i + s - 1) = \<lparr>rule_index = i, rule_step = s\<rparr>"
proof -
  obtain rest where "lookup_of ps = lookup_of (take (Suc i) ps) @ rest" using lookup_of_take by blast
  moreover have "lookup_of (take (Suc i) ps) = lookup_of (take i ps) @ rule_continuations i (ps ! i)"
    using assms(1) by (simp add: take_Suc_conv_app_nth fill_lookup_snoc)
  ultimately have l: "lookup_of ps = lookup_of (take i ps) @ rule_continuations i (ps ! i) @ rest" by simp
  have p: "start_of ps i + s - 1 = length (lookup_of (take i ps)) + (s - 1)" using assms(2) by (simp add: start_of_def)
  have "s - 1 < length (rule_continuations i (ps ! i))" using assms(2,3) by simp
  then show "start_of ps i + s - 1 < length (lookup_of ps)"
    and "lookup_of ps ! (start_of ps i + s - 1) = \<lparr>rule_index = i, rule_step = s\<rparr>"
    unfolding p l using assms(2,3) by (simp_all add: nth_append rule_continuations_def)
qed

lemma lookup_of_surj:
  "k < length (lookup_of ps) \<Longrightarrow>
     \<exists>i s. i < length ps \<and> 0 < s \<and> s < pr_steps (ps ! i) \<and> k = start_of ps i + s - 1 \<and>
       lookup_of ps ! k = \<lparr>rule_index = i, rule_step = s\<rparr>"
proof (induction ps rule: rev_induct)
  case (snoc p ps)
  have start: "start_of (ps @ [p]) i = start_of ps i" if "i \<le> length ps" for i using that by (simp add: start_of_def)
  show ?case
  proof (cases "k < length (lookup_of ps)")
    case True
    then obtain i s where is1: "i < length ps" "0 < s" "s < pr_steps (ps ! i)" "k = start_of ps i + s - 1"
      "lookup_of ps ! k = \<lparr>rule_index = i, rule_step = s\<rparr>" using snoc.IH by blast
    then show ?thesis
      using True by (intro exI [of _ i] exI [of _ s]) (simp add: start fill_lookup_snoc nth_append)
  next
    case False
    define s where "s = Suc (k - length (lookup_of ps))"
    have k: "k = start_of (ps @ [p]) (length ps) + s - 1" using False by (simp add: start start_of_def s_def)
    have s: "0 < s" "s < pr_steps p" using snoc.prems False by (auto simp: s_def fill_lookup_snoc)
    have "lookup_of (ps @ [p]) ! k = \<lparr>rule_index = length ps, rule_step = s\<rparr>"
      using lookup_of_nth(2) [of "length ps" "ps @ [p]" s] s k by simp
    then show ?thesis using s k by (intro exI [of _ "length ps"] exI [of _ s]) simp
  qed
qed simp

section \<open>The identifiers of the continuation states\<close>

text \<open>The metadata of a rule list that fits into memory, as every vector of the program does.\<close>

definition rules_fit :: "rewrite_rule list \<Rightarrow> bool" where
  "rules_fit rules \<longleftrightarrow> length (lookup_of (map prepare_rule rules)) \<le> usize_max"

definition rewrite_ok :: "rewrite_wfst \<Rightarrow> bool" where
  "rewrite_ok w \<longleftrightarrow> rw_meta w = from_rules (rw_rules w) \<and> rules_fit (rw_rules w)"

lemma foldl_continuation_steps:
  "foldl (\<lambda>n p. usize_sat_add n (continuation_steps p)) 0 ps = min (length (lookup_of ps)) usize_max"
  by (induction ps rule: rev_induct)
    (auto simp: fill_lookup_snoc usize_sat_add_def continuation_steps_def usize_sat_sub_def)

lemma from_rules_fields:
  "prepared_rules (from_rules rules) = map prepare_rule rules"
  "priority_order (from_rules rules) = sort_key (priority_key rules) [0..<length rules]"
  "continuation_end_offsets (from_rules rules) = ends_of (map prepare_rule rules)"
  "continuation_lookup (from_rules rules) = lookup_of (map prepare_rule rules)"
  "continuation_states (from_rules rules) = min (length (lookup_of (map prepare_rule rules))) usize_max"
  by (simp_all add: from_rules_def Let_def case_prod_unfold foldl_continuation_steps)

lemma continuation_start_eq:
  assumes "rewrite_ok w" and "i \<le> length (rw_rules w)"
  shows "continuation_start w i = start_of (map prepare_rule (rw_rules w)) i"
  using assms
  by (cases i)
    (simp_all add: continuation_start_def usize_checked_sub_def rewrite_ok_def from_rules_fields nth_opt_def
      ends_of_nth start_of_def)

lemma decode_continuation_eq:
  assumes "rewrite_ok w"
  defines "ps \<equiv> map prepare_rule (rw_rules w)"
  shows "decode_continuation_state w x = Some (i, s) \<longleftrightarrow>
    i < length ps \<and> 0 < s \<and> s < pr_steps (ps ! i) \<and> unat x = start_of ps i + s"
proof (cases "x = 0")
  case True
  then show ?thesis by (auto simp: decode_continuation_state_def)
next
  case False
  define k where "k = unat (x - 1)"
  have x: "unat x = Suc k" using False by (simp add: k_def unat_minus_one unat_gt_0)
  have fields: "continuation_lookup (rw_meta w) = lookup_of ps" "prepared_rules (rw_meta w) = ps"
    using assms(1) by (simp_all add: rewrite_ok_def from_rules_fields ps_def)
  have dec: "decode_continuation_state w x = (if k < length (lookup_of ps) then
      (let c = lookup_of ps ! k in if rule_index c < length ps then
         (if rule_step c < pr_steps (ps ! rule_index c) then Some (rule_index c, rule_step c) else None) else None)
      else None)"
    using False by (simp add: decode_continuation_state_def fields k_def nth_opt_def Let_def)
  show ?thesis
  proof
    assume d: "decode_continuation_state w x = Some (i, s)"
    then have "k < length (lookup_of ps)" by (simp add: dec split: if_splits)
    from lookup_of_surj [OF this] obtain j r where j: "j < length ps" "0 < r" "r < pr_steps (ps ! j)"
      "k = start_of ps j + r - 1" "lookup_of ps ! k = \<lparr>rule_index = j, rule_step = r\<rparr>" by blast
    then have "j = i" "r = s" using d by (simp_all add: dec Let_def split: if_splits)
    then show "i < length ps \<and> 0 < s \<and> s < pr_steps (ps ! i) \<and> unat x = start_of ps i + s" using j x by simp
  next
    assume a: "i < length ps \<and> 0 < s \<and> s < pr_steps (ps ! i) \<and> unat x = start_of ps i + s"
    then have "k = start_of ps i + s - 1" using x by linarith
    then show "decode_continuation_state w x = Some (i, s)"
      using a lookup_of_nth [of i ps s] by (simp add: dec Let_def)
  qed
qed

lemma continuation_state_bounded:
  assumes "rewrite_ok w" and "i \<le> length (rw_rules w)" and "start_of (map prepare_rule (rw_rules w)) i + s \<le> usize_max"
  shows "rw_continuation_state w i s = Some x \<longleftrightarrow> unat x = start_of (map prepare_rule (rw_rules w)) i + s"
proof -
  have "usize_sat_add (start_of (map prepare_rule (rw_rules w)) i) s = start_of (map prepare_rule (rw_rules w)) i + s"
    unfolding usize_sat_add_def using assms(3) by (rule min_absorb1)
  then show ?thesis
    unfolding rw_continuation_state_def continuation_start_eq [OF assms(1,2)] by (simp only: u32_try_from_eq_Some)
qed

lemma continuation_state_eq:
  assumes "rewrite_ok w" and "i < length (rw_rules w)" and "s < pr_steps (prepare_rule (rw_rules w ! i))"
  shows "rw_continuation_state w i s = Some x \<longleftrightarrow> unat x = start_of (map prepare_rule (rw_rules w)) i + s"
proof (cases "s = 0")
  case True
  let ?ps = "map prepare_rule (rw_rules w)"
  obtain rest where "lookup_of ?ps = lookup_of (take i ?ps) @ rest" using lookup_of_take by blast
  then have "start_of ?ps i \<le> usize_max"
    using assms(1) unfolding rewrite_ok_def rules_fit_def start_of_def by simp
  then show ?thesis using True assms(1,2) by (intro continuation_state_bounded) simp_all
next
  case False
  let ?ps = "map prepare_rule (rw_rules w)"
  have "start_of ?ps i + s - 1 < length (lookup_of ?ps)"
    using lookup_of_nth(1) [of i ?ps s] False assms(2,3) by simp
  then have "start_of ?ps i + s \<le> usize_max"
    using assms(1) False unfolding rewrite_ok_def rules_fit_def by linarith
  then show ?thesis using assms(1,2) by (intro continuation_state_bounded) simp_all
qed

lemma rewrite_num_states_eq:
  assumes "rewrite_ok w"
  shows "rewrite_num_states w = min (length (lookup_of (map prepare_rule (rw_rules w))) + 1) (2 ^ 32)"
proof -
  have "usize_checked_add (2 ^ 32 - 1) 1 = Some (2 ^ 32 :: nat)"
    by (simp add: usize_checked_add_def usize_max_def)
  moreover have "(2 ^ 32 :: nat) \<le> usize_max" by (simp add: usize_max_def)
  ultimately show ?thesis
    using assms by (auto simp: rewrite_num_states_def rewrite_state_count_def Let_def rewrite_ok_def rules_fit_def
        from_rules_fields usize_sat_add_def min_def)
qed

lemma known_continuation:
  assumes "rewrite_ok w" and "decode_continuation_state w x = Some (i, s)"
  shows "is_known_state w x"
proof -
  let ?ps = "map prepare_rule (rw_rules w)"
  have d: "i < length ?ps" "0 < s" "s < pr_steps (?ps ! i)" "unat x = start_of ?ps i + s"
    using assms(2) unfolding decode_continuation_eq [OF assms(1), of x i s] by blast+
  then have "unat x < length (lookup_of ?ps) + 1" using lookup_of_nth(1) [OF d(1-3)] by simp
  moreover have "unat x < 2 ^ 32" using unat_less_exp [of x] by simp
  ultimately show ?thesis by (simp add: is_known_state_def rewrite_num_states_eq [OF assms(1)])
qed

section \<open>Adding rules one by one\<close>

lemma insort_key_takeWhile:
  "insort_key f x ys = takeWhile (\<lambda>y. f y < f x) ys @ x # dropWhile (\<lambda>y. f y < f x) ys"
  by (induction ys) (auto simp: not_le)

lemma insert_at_partition:
  "insert_at (partition_point P ys) x ys = takeWhile P ys @ x # dropWhile P ys"
  by (simp add: insert_at_def partition_point_def takeWhile_eq_take [symmetric] dropWhile_eq_drop [symmetric])

lemma sort_key_snoc_inj:
  assumes "inj_on f (insert x (set xs))"
  shows "sort_key f (xs @ [x]) = insort_key f x (sort_key f xs)"
  using assms
proof (induction xs)
  case (Cons y ys)
  have "sort_key f (ys @ [x]) = insort_key f x (sort_key f ys)"
    using Cons.IH Cons.prems by (meson inj_on_subset insert_mono set_subset_Cons)
  moreover have "insort_key f y (insort_key f x zs) = insort_key f x (insort_key f y zs)" for zs
  proof (cases "y = x")
    case False
    then have "f x \<noteq> f y" using inj_onD [OF Cons.prems, of y x] by auto
    then show ?thesis by (rule insort_key_left_comm)
  qed simp
  ultimately show ?case by simp
qed simp

lemma insort_key_same: "f x = g x \<Longrightarrow> \<forall>y \<in> set ys. f y = g y \<Longrightarrow> insort_key f x ys = insort_key g x ys"
proof (induction ys)
  case (Cons y ys)
  have "f y = g y" using Cons.prems(2) by simp
  then have "f x \<le> f y \<longleftrightarrow> g x \<le> g y" using Cons.prems(1) by simp
  moreover have "insort_key f x ys = insort_key g x ys" using Cons by (meson list.set_intros(2))
  ultimately show ?case by (simp only: insort_key.simps)
qed simp

lemma sort_key_same: "\<forall>x \<in> set xs. f x = g x \<Longrightarrow> sort_key f xs = sort_key g xs"
proof (induction xs)
  case (Cons x xs)
  have "sort_key f xs = sort_key g xs" using Cons by (meson list.set_intros(2))
  moreover have "insort_key f x (sort_key g xs) = insort_key g x (sort_key g xs)"
    by (rule insort_key_same) (use Cons.prems in \<open>simp_all only: set_sort list.set ball_simps insert_iff simp_thms Ball_def, blast+\<close>)
  ultimately show ?case by (simp only: sort_key_simps)
qed simp

lemma priority_key_inj: "inj_on (priority_key rules) A"
  by (rule inj_onI) (simp add: priority_key_def)

lemma priority_order_append:
  "sort_key (priority_key (rules @ [r])) [0..<Suc (length rules)] =
     insert_at (partition_point (\<lambda>j. rr_priority (rules ! j) > rr_priority r \<or>
           rr_priority (rules ! j) = rr_priority r \<and> j < length rules)
         (sort_key (priority_key rules) [0..<length rules]))
       (length rules) (sort_key (priority_key rules) [0..<length rules])"
proof -
  let ?k = "priority_key (rules @ [r])" and ?n = "length rules"
  have same: "sort_key ?k [0..<?n] = sort_key (priority_key rules) [0..<?n]"
    by (rule sort_key_same) (simp add: priority_key_def nth_append)
  have less: "(?k j < ?k ?n) = (rr_priority (rules ! j) > rr_priority r \<or> rr_priority (rules ! j) = rr_priority r \<and> j < ?n)"
    if "j < ?n" for j using that by (auto simp: priority_key_def nth_append less_prod_def)
  let ?xs = "sort_key (priority_key rules) [0..<?n]"
  have tw: "takeWhile (\<lambda>j. ?k j < ?k ?n) ?xs = takeWhile (\<lambda>j. rr_priority (rules ! j) > rr_priority r \<or>
        rr_priority (rules ! j) = rr_priority r \<and> j < ?n) ?xs"
    and dw: "dropWhile (\<lambda>j. ?k j < ?k ?n) ?xs = dropWhile (\<lambda>j. rr_priority (rules ! j) > rr_priority r \<or>
        rr_priority (rules ! j) = rr_priority r \<and> j < ?n) ?xs"
    by (auto intro!: takeWhile_cong dropWhile_cong simp: less)
  have "sort_key ?k ([0..<?n] @ [?n]) = insort_key ?k ?n (sort_key ?k [0..<?n])"
    by (rule sort_key_snoc_inj) (rule priority_key_inj)
  then show ?thesis unfolding insert_at_partition tw [symmetric] dw [symmetric] same insort_key_takeWhile by simp
qed

lemma append_from_rules:
  assumes "rewrite_ok w" and "rules_fit (rw_rules w @ [r])"
  shows "append_validated_rule r w = w\<lparr>rw_rules := rw_rules w @ [r], rw_meta := from_rules (rw_rules w @ [r])\<rparr>"
proof -
  let ?ps = "map prepare_rule (rw_rules w)"
  have m: "rw_meta w = from_rules (rw_rules w)" using assms(1) by (simp add: rewrite_ok_def)
  have "from_rules (rw_rules w @ [r]) =
      \<lparr>prepared_rules = ?ps @ [prepare_rule r],
       priority_order = sort_key (priority_key (rw_rules w @ [r])) [0..<Suc (length (rw_rules w))],
       continuation_end_offsets = ends_of ?ps @ [length (lookup_of ?ps @ rule_continuations (length ?ps) (prepare_rule r))],
       continuation_lookup = lookup_of ?ps @ rule_continuations (length ?ps) (prepare_rule r),
       continuation_states = length (lookup_of ?ps @ rule_continuations (length ?ps) (prepare_rule r))\<rparr>"
    using assms(2) fill_lookup_snoc [of ?ps "prepare_rule r"]
    by (intro rule_metadata.equality) (simp_all add: from_rules_fields rules_fit_def)
  then show ?thesis
    unfolding append_validated_rule_def Let_def m from_rules_fields priority_order_append by simp
qed

end
