(* ===== verification/Rewrite_Paths.thy ===== *)
theory Rewrite_Paths
  imports Rewrite_Meta
begin

text \<open>
  What the rewrite WFST computes: continuation states are numbered exactly, rules may be added one
  by one, its runs from home to home are the derivations of the rules (\<open>derives\<close>), and the cache
  never shows the transitions of rules that have changed since.
\<close>

section \<open>The numbering of the continuation states\<close>

lemma with_rules_ok:
  assumes "with_rules rules = Inr w"
  shows "rw_rules w = rules" "rw_meta w = from_rules rules" "allow_identity w" "validate_rewrite_rules rules = Inr ()"
  using assms by (auto simp: with_rules_def from_validated_rules_def split: sum.splits)

lemma with_rules_rewrite_ok: "with_rules rules = Inr w \<Longrightarrow> rules_fit rules \<Longrightarrow> rewrite_ok w"
  by (simp add: rewrite_ok_def with_rules_ok)

lemma decode_defined:
  assumes "rewrite_ok w" and "is_known_state w x" and "x \<noteq> 0"
  shows "\<exists>i s. decode_continuation_state w x = Some (i, s)"
proof -
  let ?ps = "map prepare_rule (rw_rules w)"
  have "0 < unat x" using assms(3) by (simp add: unat_gt_0)
  then have "unat x - 1 < length (lookup_of ?ps)"
    using assms(2) by (simp add: is_known_state_def rewrite_num_states_eq [OF assms(1)])
  from lookup_of_surj [OF this] obtain i s where
    "i < length ?ps" "0 < s" "s < pr_steps (?ps ! i)" "unat x - 1 = start_of ?ps i + s - 1" by blast
  then have "i < length ?ps \<and> 0 < s \<and> s < pr_steps (?ps ! i) \<and> unat x = start_of ?ps i + s"
    using \<open>0 < unat x\<close> by linarith
  then show ?thesis using decode_continuation_eq [OF assms(1)] by blast
qed

lemma decode_iff_state:
  assumes "rewrite_ok w"
  shows "decode_continuation_state w x = Some (i, s) \<longleftrightarrow> i < length (rw_rules w) \<and> 0 < s \<and>
    s < pr_steps (prepare_rule (rw_rules w ! i)) \<and> rw_continuation_state w i s = Some x"
  using decode_continuation_eq [OF assms, of x i s] continuation_state_eq [OF assms, of i s x] by auto

lemma decode_None_iff:
  assumes "rewrite_ok w"
  shows "decode_continuation_state w x = None \<longleftrightarrow> x = 0 \<or> \<not> is_known_state w x"
proof
  show "decode_continuation_state w x = None \<Longrightarrow> x = 0 \<or> \<not> is_known_state w x"
    using decode_defined [OF assms] by (metis option.distinct(1))
  assume "x = 0 \<or> \<not> is_known_state w x"
  then show "decode_continuation_state w x = None"
    using known_continuation [OF assms] by (cases "decode_continuation_state w x") (auto simp: decode_continuation_state_def)
qed

text \<open>
  The continuation states of a rewrite WFST are numbered exactly. A state decodes to a step of a
  rule precisely if that is a proper inner step and the state is the identifier the automaton
  gives it, so encoding and decoding are inverse to each other; the states that do not decode are
  the home state and those that do not exist.
\<close>

theorem rewrite_continuations_exact:
  assumes "with_rules rules = Inr w" and "rules_fit rules"
  shows "(decode_continuation_state w x = Some (i, s) \<longleftrightarrow> i < length rules \<and> 0 < s \<and>
      s < max (length (rr_input (rules ! i))) (length (rr_output (rules ! i))) \<and>
      rw_continuation_state w i s = Some x) \<and>
    (decode_continuation_state w x = None \<longleftrightarrow> x = 0 \<or> \<not> is_known_state w x)"
  using decode_iff_state [OF with_rules_rewrite_ok [OF assms], of x i s]
    decode_None_iff [OF with_rules_rewrite_ok [OF assms], of x] assms(1)
  by (simp add: with_rules_ok prepare_rule_def)

definition sch_rules :: "rewrite_rule list" where
  "sch_rules = [rule_new (chars ''c'') (chars ''k''), rule_new (chars ''sch'') (chars ''sh'')]"

lemma sch_rules_fit: "rules_fit sch_rules"
  by (simp add: rules_fit_def sch_rules_def rule_new_def chars_def prepare_rule_def rule_continuations_def usize_max_def)

lemma sch_rules_with: "with_rules sch_rules = Inr (from_validated_rules sch_rules)"
  by (simp add: with_rules_def sch_rules_def rule_new_def validate_rewrite_rule_def
      validate_finite_nonnegative_weight_def f64_is_finite_def f64_ge_def)

theorem rewrite_continuations_exact_witness:
  "decode_continuation_state (from_validated_rules sch_rules) 2 = Some (1, 2) \<longleftrightarrow>
     rw_continuation_state (from_validated_rules sch_rules) 1 2 = Some 2"
  using rewrite_continuations_exact [OF sch_rules_with sch_rules_fit, of 2 1 2]
  by (simp add: sch_rules_def rule_new_def chars_def)

section \<open>Rules one by one\<close>

fun add_rules :: "rewrite_rule list \<Rightarrow> cached_rewrite \<Rightarrow> invalid_weight_error + cached_rewrite" where
  "add_rules [] cw = Inr cw"
| "add_rules (r # rs) cw = (case add_rewrite_rule r cw of Inl e \<Rightarrow> Inl e | Inr cw' \<Rightarrow> add_rules rs cw')"

lemma rules_fit_prefix:
  assumes "rules_fit (rs @ rs')"
  shows "rules_fit rs"
proof -
  obtain rest where "lookup_of (map prepare_rule (rs @ rs')) = lookup_of (map prepare_rule rs) @ rest"
    using lookup_of_take [of "map prepare_rule (rs @ rs')" "length rs"] by auto
  then show ?thesis using assms by (simp add: rules_fit_def)
qed

lemma add_rules_eq:
  assumes "rewrite_ok w" and "rules_fit (rw_rules w @ rs)"
  shows "map_sum id snd (add_rules rs (c, w)) =
    (case validate_rewrite_rules rs of Inl e \<Rightarrow> Inl e
     | Inr _ \<Rightarrow> Inr (w\<lparr>rw_rules := rw_rules w @ rs, rw_meta := from_rules (rw_rules w @ rs)\<rparr>))"
  using assms
proof (induction rs arbitrary: c w)
  case Nil
  then show ?case by (simp add: rewrite_ok_def)
next
  case (Cons r rs)
  show ?case
  proof (cases "validate_rewrite_rule r")
    case (Inr u)
    have fit: "rules_fit (rw_rules w @ [r])" using Cons.prems(2) rules_fit_prefix [of "rw_rules w @ [r]" rs] by simp
    let ?w = "append_validated_rule r w"
    have w: "?w = w\<lparr>rw_rules := rw_rules w @ [r], rw_meta := from_rules (rw_rules w @ [r])\<rparr>"
      by (rule append_from_rules [OF Cons.prems(1) fit])
    then have "rewrite_ok ?w" "rules_fit (rw_rules ?w @ rs)" using fit Cons.prems(2) by (simp_all add: rewrite_ok_def)
    from Cons.IH [OF this, of "cache_clear c"] show ?thesis using Inr w by (simp add: add_rewrite_rule_def split: sum.split)
  qed (simp add: add_rewrite_rule_def)
qed

lemma rewrite_new_ok: "rewrite_ok rewrite_new"
  by (simp add: rewrite_ok_def rewrite_new_def from_rules_def rules_fit_def)

text \<open>
  Adding rules one at a time is building the WFST from the whole list. Starting from the empty
  WFST, the rules in order give exactly the automaton of \<open>with_rules\<close> (the incremental priority
  order, lookup table and offsets included), or the error of the first rule whose cost is not a
  finite non-negative number.
\<close>

theorem rules_one_by_one:
  assumes "rules_fit rules"
  shows "map_sum id snd (add_rules rules (cache_new rewrite_max_cache_size, rewrite_new)) = with_rules rules"
  using add_rules_eq [OF rewrite_new_ok, of rules "cache_new rewrite_max_cache_size"] assms
  by (simp add: with_rules_def from_validated_rules_def rewrite_new_def split: sum.split)

theorem rules_one_by_one_witness:
  "map_sum id snd (add_rules sch_rules (cache_new rewrite_max_cache_size, rewrite_new)) = Inr (from_validated_rules sch_rules)"
  using rules_one_by_one [OF sch_rules_fit] sch_rules_with by simp

section \<open>Runs and derivations\<close>

inductive rw_run :: "rewrite_wfst \<Rightarrow> state_id \<Rightarrow> uchar list \<Rightarrow> uchar list \<Rightarrow> rat \<Rightarrow> state_id \<Rightarrow> bool" for w where
  rw_stay: "rw_run w x [] [] 0 x"
| rw_move: "rewrite_expand_state w x = (Expanded f fw ts, w') \<Longrightarrow> t \<in> set ts \<Longrightarrow> t_weight t = F64 r \<Longrightarrow>
    rw_run w (t_to t) ins outs c y \<Longrightarrow>
    rw_run w x (label_word (t_input t) @ ins) (label_word (t_output t) @ outs) (r + c) y"

text \<open>
  A derivation reads its input piece by piece: each piece is a rule's left side, written as its
  right side at the rule's cost, or, if the identity is allowed, a printable ASCII character copied for free.
  Rules with two empty sides do nothing and are left out.
\<close>

inductive derives :: "rewrite_rule list \<Rightarrow> bool \<Rightarrow> uchar list \<Rightarrow> uchar list \<Rightarrow> rat \<Rightarrow> bool" for rules identity where
  derives_done: "derives rules identity [] [] 0"
| derives_rule: "r \<in> set rules \<Longrightarrow> rr_input r \<noteq> [] \<or> rr_output r \<noteq> [] \<Longrightarrow> rr_cost r = F64 k \<Longrightarrow>
    derives rules identity ins outs c \<Longrightarrow>
    derives rules identity (rr_input r @ ins) (rr_output r @ outs) (k + c)"
| derives_copy: "identity \<Longrightarrow> 32 \<le> a \<Longrightarrow> a < 127 \<Longrightarrow> derives rules identity ins outs c \<Longrightarrow>
    derives rules identity (a # ins) (a # outs) c"

lemma drop_label_word: "drop s xs = label_word (nth_opt xs s) @ drop (Suc s) xs"
  by (cases "s < length xs") (simp_all add: nth_opt_def Cons_nth_drop_Suc)

lemma validate_rules_cost:
  "validate_rewrite_rules rules = Inr () \<Longrightarrow> r \<in> set rules \<Longrightarrow> \<exists>k \<ge> 0. rr_cost r = F64 k"
  by (induction rules) (auto simp: validate_rewrite_rule_def split: sum.splits)

text \<open>The steps of a rule: from where, to where.\<close>

definition step_state :: "rewrite_wfst \<Rightarrow> usize \<Rightarrow> usize \<Rightarrow> state_id \<Rightarrow> bool" where
  "step_state w i s x \<longleftrightarrow> (if s = 0 then x = 0 else decode_continuation_state w x = Some (i, s))"

lemma rule_step_transition_eq:
  assumes "rewrite_ok w"
  shows "rule_step_transition w i s = Some t \<longleftrightarrow> i < length (rw_rules w) \<and>
    (let p = prepare_rule (rw_rules w ! i) in
       s < pr_steps p \<and> step_state w i s (t_from t) \<and>
       (if Suc s = pr_steps p then t_to t = 0 else step_state w i (Suc s) (t_to t)) \<and>
       t_input t = nth_opt (pr_input p) s \<and> t_output t = nth_opt (pr_output p) s \<and>
       t_weight t = (if s = 0 then pr_cost_weight p else tropical_one))"
proof (cases "i < length (rw_rules w)")
  case False
  then show ?thesis using assms by (simp add: rule_step_transition_def rewrite_ok_def from_rules_fields nth_opt_def)
next
  case True
  let ?p = "prepare_rule (rw_rules w ! i)"
  have p: "nth_opt (prepared_rules (rw_meta w)) i = Some ?p"
    using True assms by (simp add: rewrite_ok_def from_rules_fields nth_opt_def)
  have st: "step_state w i s' x \<longleftrightarrow> (if s' = 0 then Some 0 else rw_continuation_state w i s') = Some x"
    if "s' < pr_steps ?p" for s' x
    using decode_iff_state [OF assms, of x i s'] True that by (auto simp: step_state_def)
  show ?thesis
  proof (cases "s < pr_steps ?p")
    case False
    then show ?thesis using p by (simp add: rule_step_transition_def)
  next
    case lt: True
    have to: "(if Suc s = pr_steps ?p then t_to t = 0 else step_state w i (Suc s) (t_to t)) \<longleftrightarrow>
        (if s + 1 = pr_steps ?p then Some 0 else rw_continuation_state w i (s + 1)) = Some (t_to t)"
      using st [of "Suc s" "t_to t"] lt by auto
    have rs: "rule_step_transition w i s =
        (case if s = 0 then Some 0 else rw_continuation_state w i s of None \<Rightarrow> None
         | Some fr \<Rightarrow> (case if s + 1 = pr_steps ?p then Some 0 else rw_continuation_state w i (s + 1) of None \<Rightarrow> None
           | Some to \<Rightarrow> Some (mk_transition fr (nth_opt (pr_input ?p) s) (nth_opt (pr_output ?p) s) to
               (if s = 0 then pr_cost_weight ?p else tropical_one))))"
      using p lt by (simp add: rule_step_transition_def)
    show ?thesis
      unfolding rs Let_def to st [OF lt] using True lt by (cases t) (auto split: option.splits)
  qed
qed

text \<open>The transitions an expansion computes, before and after pruning.\<close>

definition own_transitions :: "rewrite_wfst \<Rightarrow> state_id \<Rightarrow> transition list" where
  "own_transitions w x =
     (if x = 0 then foldl (\<lambda>ts i. push_rule_step_transition w ts i 0) [] (priority_order (rw_meta w))
      else case decode_continuation_state w x of Some (i, s) \<Rightarrow> push_rule_step_transition w [] i s | None \<Rightarrow> [])"

definition all_transitions :: "rewrite_wfst \<Rightarrow> state_id \<Rightarrow> transition list" where
  "all_transitions w x = own_transitions w x @ (if allow_identity w \<and> x = 0 then identity_transitions else [])"

lemma rewrite_expand_eq:
  "rewrite_expand_state w x =
     (if \<not> is_known_state w x then Failed (InvalidState x)
      else if x = 0 then final_state tropical_one (prune_dominated_transitions (all_transitions w x))
      else non_final (prune_dominated_transitions (all_transitions w x)), w)"
  by (simp add: rewrite_expand_state_def rw_compute_transitions_def all_transitions_def own_transitions_def Let_def)

lemma set_push_all:
  "set (foldl (\<lambda>ts i. push_rule_step_transition w ts i 0) acc is) =
     set acc \<union> {t. \<exists>i \<in> set is. rule_step_transition w i 0 = Some t}"
  by (induction "is" arbitrary: acc) (auto simp: push_rule_step_transition_def split: option.splits)

lemma own_transitions_set:
  assumes "rewrite_ok w"
  shows "t \<in> set (own_transitions w x) \<longleftrightarrow> (\<exists>i s. step_state w i s x \<and> rule_step_transition w i s = Some t)"
proof (cases "x = 0")
  case True
  have "decode_continuation_state w 0 = None" by (simp add: decode_continuation_state_def)
  then have "step_state w i s 0 \<longleftrightarrow> s = 0" for i s by (simp add: step_state_def)
  moreover have "i < length (rw_rules w)" if "rule_step_transition w i 0 = Some t" for i
    using that rule_step_transition_eq [OF assms] by blast
  moreover have "set (priority_order (rw_meta w)) = {0..<length (rw_rules w)}"
    using assms by (simp add: rewrite_ok_def from_rules_fields)
  ultimately show ?thesis unfolding own_transitions_def True by (auto simp: set_push_all)
next
  case False
  have "step_state w i s x \<longleftrightarrow> decode_continuation_state w x = Some (i, s)" for i s
    using False by (auto simp: step_state_def decode_iff_state [OF assms])
  then show ?thesis
    using False
    by (cases "decode_continuation_state w x")
      (auto simp: own_transitions_def push_rule_step_transition_def split: option.splits)
qed

lemma identity_transitions_set:
  "t \<in> set identity_transitions \<longleftrightarrow> (\<exists>a. 32 \<le> a \<and> a < 127 \<and> t = mk_transition 0 (Some a) (Some a) 0 (F64 0))"
  unfolding identity_transitions_def tropical_one_def set_map set_upt image_iff atLeastLessThan_iff Bex_def by blast

lemma expanded_transition:
  assumes "rewrite_ok w" and "rewrite_expand_state w x = (Expanded f fw ts, w')" and "t \<in> set ts"
  shows "(\<exists>i s. step_state w i s x \<and> rule_step_transition w i s = Some t) \<or>
    (allow_identity w \<and> x = 0 \<and> (\<exists>a. 32 \<le> a \<and> a < 127 \<and> t = mk_transition 0 (Some a) (Some a) 0 (F64 0)))"
proof -
  have "ts = prune_dominated_transitions (all_transitions w x)"
    using assms(2) by (auto simp: rewrite_expand_eq final_state_def non_final_def split: if_splits)
  then have "t \<in> set (all_transitions w x)"
    using assms(3) prune_linear_set [of "all_transitions w x"] by (auto simp: prune_is_linear)
  then show ?thesis
    by (auto simp: all_transitions_def own_transitions_set [OF assms(1)] identity_transitions_set split: if_splits)
qed

section \<open>Soundness\<close>

definition completes :: "rewrite_wfst \<Rightarrow> state_id \<Rightarrow> uchar list \<Rightarrow> uchar list \<Rightarrow> rat \<Rightarrow> bool" where
  "completes w x ins outs c \<longleftrightarrow>
     (if x = 0 then derives (rw_rules w) (allow_identity w) ins outs c
      else \<exists>i s ins' outs'. decode_continuation_state w x = Some (i, s) \<and>
        ins = drop s (rr_input (rw_rules w ! i)) @ ins' \<and> outs = drop s (rr_output (rw_rules w ! i)) @ outs' \<and>
        derives (rw_rules w) (allow_identity w) ins' outs' c)"

lemma decode_nonzero: "decode_continuation_state w x = Some p \<Longrightarrow> x \<noteq> 0"
  by (auto simp: decode_continuation_state_def)

lemma completes_rule_step:
  assumes ok: "rewrite_ok w" and src: "step_state w i s x" and t: "rule_step_transition w i s = Some t"
    and r: "t_weight t = F64 r" and rest: "completes w (t_to t) ins outs c"
  shows "completes w x (label_word (t_input t) @ ins) (label_word (t_output t) @ outs) (r + c)"
proof -
  let ?r = "rw_rules w ! i" and ?p = "prepare_rule (rw_rules w ! i)"
  note t = t [unfolded rule_step_transition_eq [OF ok] Let_def]
  have i: "i < length (rw_rules w)" and s: "s < pr_steps ?p" using t by blast+
  have labels: "t_input t = nth_opt (rr_input ?r) s" "t_output t = nth_opt (rr_output ?r) s"
    using t by (simp_all add: prepare_rule_def)
  have n: "length (rr_input ?r) \<le> pr_steps ?p" "length (rr_output ?r) \<le> pr_steps ?p" by (simp_all add: prepare_rule_def)
  obtain ins' outs' where tail: "ins = drop (Suc s) (rr_input ?r) @ ins'" "outs = drop (Suc s) (rr_output ?r) @ outs'"
    "derives (rw_rules w) (allow_identity w) ins' outs' c"
  proof (cases "Suc s = pr_steps ?p")
    case True
    then have "derives (rw_rules w) (allow_identity w) ins outs c" using t rest by (simp add: completes_def)
    then show ?thesis using that [of ins outs] n True by simp
  next
    case False
    then have d: "decode_continuation_state w (t_to t) = Some (i, Suc s)" using t by (simp add: step_state_def)
    then show ?thesis using rest that decode_nonzero [OF d] by (auto simp: completes_def)
  qed
  have whole: "label_word (t_input t) @ ins = drop s (rr_input ?r) @ ins'"
    "label_word (t_output t) @ outs = drop s (rr_output ?r) @ outs'"
    using tail(1,2) drop_label_word [of s "rr_input ?r"] drop_label_word [of s "rr_output ?r"] by (simp_all add: labels)
  show ?thesis
  proof (cases "s = 0")
    case True
    have "rr_input ?r \<noteq> [] \<or> rr_output ?r \<noteq> []" using s by (auto simp: prepare_rule_def)
    moreover have "rr_cost ?r = F64 r" using t r True by (simp add: prepare_rule_def)
    ultimately have "derives (rw_rules w) (allow_identity w) (rr_input ?r @ ins') (rr_output ?r @ outs') (r + c)"
      using derives_rule i tail(3) by (metis nth_mem)
    then show ?thesis using whole True src by (simp add: completes_def step_state_def)
  next
    case False
    have "r = 0" using t r False by (simp add: tropical_one_def)
    then show ?thesis
      using whole False src tail(3) decode_nonzero [of w x] by (fastforce simp: completes_def step_state_def)
  qed
qed

lemma rw_run_sound:
  "rw_run w x ins outs c y \<Longrightarrow> rewrite_ok w \<Longrightarrow> y = 0 \<Longrightarrow> completes w x ins outs c"
proof (induction rule: rw_run.induct)
  case (rw_stay x)
  then show ?case by (simp add: completes_def derives_done)
next
  case (rw_move x f fw ts w' t r ins outs c y)
  have rest: "completes w (t_to t) ins outs c" using rw_move by blast
  from expanded_transition [OF rw_move.prems(1) rw_move.hyps(1,2)] show ?case
  proof
    assume "\<exists>i s. step_state w i s x \<and> rule_step_transition w i s = Some t"
    then show ?thesis using completes_rule_step [OF rw_move.prems(1) _ _ rw_move.hyps(3) rest] by blast
  next
    assume "allow_identity w \<and> x = 0 \<and> (\<exists>a. 32 \<le> a \<and> a < 127 \<and> t = mk_transition 0 (Some a) (Some a) 0 (F64 0))"
    then show ?thesis using rest rw_move.hyps(3) derives_copy by (fastforce simp: completes_def)
  qed
qed

section \<open>Completeness\<close>

text \<open>The continuation states a rule list needs, and the condition that each has an identifier.\<close>

definition continuations_needed :: "rewrite_rule list \<Rightarrow> nat" where
  "continuations_needed rules = (\<Sum>r\<leftarrow>rules. max (length (rr_input r)) (length (rr_output r)) - 1)"

lemma length_lookup_of: "length (lookup_of (map prepare_rule rules)) = continuations_needed rules"
  by (induction rules rule: rev_induct) (simp_all add: fill_lookup_snoc continuations_needed_def prepare_rule_def)

lemma rules_fit_iff: "rules_fit rules \<longleftrightarrow> continuations_needed rules \<le> usize_max"
  by (simp add: rules_fit_def length_lookup_of)

lemma addressable_fit: "continuations_needed rules < 2 ^ 32 \<Longrightarrow> rules_fit rules"
  by (simp add: rules_fit_iff usize_max_def)

lemma step_state_exists:
  assumes "rewrite_ok w" and "continuations_needed (rw_rules w) < 2 ^ 32" and "i < length (rw_rules w)"
    and "s < pr_steps (prepare_rule (rw_rules w ! i))"
  shows "\<exists>x. step_state w i s x"
proof (cases "s = 0")
  case False
  let ?ps = "map prepare_rule (rw_rules w)"
  have "start_of ?ps i + s - 1 < length (lookup_of ?ps)"
    using lookup_of_nth(1) [of i ?ps s] False assms(3,4) by simp
  then have "start_of ?ps i + s < 2 ^ 32" using assms(2) False by (simp add: length_lookup_of)
  then have "unat (of_nat (start_of ?ps i + s) :: u32) = start_of ?ps i + s" by (simp add: unat_of_nat del: of_nat_add)
  then have "decode_continuation_state w (of_nat (start_of ?ps i + s)) = Some (i, s)"
    using decode_continuation_eq [OF assms(1)] assms(3,4) False by simp
  then show ?thesis using False by (auto simp: step_state_def)
qed (simp add: step_state_def)

lemma rule_step_exists:
  assumes "rewrite_ok w" and "continuations_needed (rw_rules w) < 2 ^ 32" and "i < length (rw_rules w)"
    and "s < pr_steps (prepare_rule (rw_rules w ! i))" and "step_state w i s x"
  shows "\<exists>t. rule_step_transition w i s = Some t"
proof -
  let ?p = "prepare_rule (rw_rules w ! i)"
  obtain y where y: "if Suc s = pr_steps ?p then y = 0 else step_state w i (Suc s) y"
    using step_state_exists [OF assms(1,2,3), of "Suc s"] assms(4) by (cases "Suc s = pr_steps ?p") auto
  let ?t = "mk_transition x (nth_opt (pr_input ?p) s) (nth_opt (pr_output ?p) s) y
    (if s = 0 then pr_cost_weight ?p else tropical_one)"
  have "rule_step_transition w i s = Some ?t"
    using assms(3,4,5) y by (simp add: rule_step_transition_eq [OF assms(1)] Let_def split: if_splits)
  then show ?thesis by blast
qed

lemma transitions_finite:
  assumes "rewrite_ok w" and "validate_rewrite_rules (rw_rules w) = Inr ()"
  shows "\<forall>t \<in> set (all_transitions w x). finite_weight t"
proof
  fix t assume "t \<in> set (all_transitions w x)"
  then consider i s where "rule_step_transition w i s = Some t" | "t \<in> set identity_transitions"
    by (auto simp: all_transitions_def own_transitions_set [OF assms(1)] split: if_splits)
  then show "finite_weight t"
  proof cases
    case 1
    note t = 1 [unfolded rule_step_transition_eq [OF assms(1)] Let_def]
    obtain k where "rr_cost (rw_rules w ! i) = F64 k"
      using validate_rules_cost [OF assms(2)] t by (meson nth_mem)
    then show ?thesis using t by (simp add: finite_weight_def prepare_rule_def tropical_one_def)
  qed (auto simp: identity_transitions_set finite_weight_def)
qed

lemma move_along:
  assumes ok: "rewrite_ok w" and val: "validate_rewrite_rules (rw_rules w) = Inr ()"
    and known: "is_known_state w x" and t: "t \<in> set (all_transitions w x)" and r: "t_weight t = F64 r"
    and rest: "rw_run w (t_to t) ins outs c y"
  shows "\<exists>c' \<le> r + c. rw_run w x (label_word (t_input t) @ ins) (label_word (t_output t) @ outs) c' y"
proof -
  let ?ts = "prune_dominated_transitions (all_transitions w x)"
  obtain t' r' where t': "t' \<in> set ?ts" "transition_key t' = transition_key t" "t_weight t' = F64 r'" "r' \<le> r"
    using prune_linear_covers [OF transitions_finite [OF ok val] t] r by (auto simp: prune_is_linear covered_def)
  have same: "t_to t' = t_to t" "t_input t' = t_input t" "t_output t' = t_output t"
    using t'(2) by (simp_all add: transition_key_def)
  obtain f fw where e: "rewrite_expand_state w x = (Expanded f fw ?ts, w)"
    using known by (cases "x = 0") (simp_all add: rewrite_expand_eq final_state_def non_final_def)
  have "rw_run w x (label_word (t_input t) @ ins) (label_word (t_output t) @ outs) (r' + c) y"
    using rw_move [OF e t'(1,3)] rest same by simp
  then show ?thesis using t'(4) by (intro exI [of _ "r' + c"]) simp
qed

lemma home_known: "is_known_state w 0"
  by (simp add: is_known_state_def rewrite_num_states_def rewrite_state_count_def Let_def usize_sat_add_def usize_max_def
      usize_checked_add_def)

lemma rule_suffix_run:
  assumes ok: "rewrite_ok w" and val: "validate_rewrite_rules (rw_rules w) = Inr ()"
    and room: "continuations_needed (rw_rules w) < 2 ^ 32" and i: "i < length (rw_rules w)"
    and rest: "rw_run w 0 ins outs c 0"
  shows "s < pr_steps (prepare_rule (rw_rules w ! i)) \<Longrightarrow> step_state w i s x \<Longrightarrow> rr_cost (rw_rules w ! i) = F64 k \<Longrightarrow>
    \<exists>c' \<le> (if s = 0 then k else 0) + c.
      rw_run w x (drop s (rr_input (rw_rules w ! i)) @ ins) (drop s (rr_output (rw_rules w ! i)) @ outs) c' 0"
proof (induction "pr_steps (prepare_rule (rw_rules w ! i)) - s" arbitrary: s x)
  case (Suc m)
  let ?r = "rw_rules w ! i" and ?p = "prepare_rule (rw_rules w ! i)"
  obtain t where t: "rule_step_transition w i s = Some t" using rule_step_exists [OF ok room i] Suc.prems by blast
  note te = t [unfolded rule_step_transition_eq [OF ok] Let_def]
  have n: "length (rr_input ?r) \<le> pr_steps ?p" "length (rr_output ?r) \<le> pr_steps ?p" by (simp_all add: prepare_rule_def)
  have known: "is_known_state w x"
    using Suc.prems(2) home_known known_continuation [OF ok] by (auto simp: step_state_def split: if_splits)
  have mem: "t \<in> set (all_transitions w x)"
    using t Suc.prems(2) own_transitions_set [OF ok] unfolding all_transitions_def by auto
  have w: "t_weight t = F64 (if s = 0 then k else 0)" using te Suc.prems(3) by (simp add: prepare_rule_def tropical_one_def)
  have labels: "t_input t = nth_opt (rr_input ?r) s" "t_output t = nth_opt (rr_output ?r) s"
    using te by (simp_all add: prepare_rule_def)
  obtain c1 where c1: "c1 \<le> c" "rw_run w (t_to t) (drop (Suc s) (rr_input ?r) @ ins) (drop (Suc s) (rr_output ?r) @ outs) c1 0"
  proof (cases "Suc s = pr_steps ?p")
    case True
    then show ?thesis using that [of c] rest te n by simp
  next
    case False
    then have "Suc s < pr_steps ?p" "step_state w i (Suc s) (t_to t)" "m = pr_steps ?p - Suc s"
      using te Suc.hyps(2) Suc.prems(1) by simp_all
    then show ?thesis using Suc.hyps(1) [of "Suc s" "t_to t"] Suc.prems(3) that by auto
  qed
  from move_along [OF ok val known mem w c1(2)] obtain c' where
    c': "c' \<le> (if s = 0 then k else 0) + c1"
    "rw_run w x (label_word (t_input t) @ drop (Suc s) (rr_input ?r) @ ins)
      (label_word (t_output t) @ drop (Suc s) (rr_output ?r) @ outs) c' 0" by blast
  have "c' \<le> (if s = 0 then k else 0) + c" using c'(1) c1(1) by linarith
  moreover have "rw_run w x (drop s (rr_input ?r) @ ins) (drop s (rr_output ?r) @ outs) c' 0"
    using c'(2) drop_label_word [of s "rr_input ?r"] drop_label_word [of s "rr_output ?r"] by (simp add: labels)
  ultimately show ?case by blast
qed simp

lemma rw_run_complete:
  assumes ok: "rewrite_ok w" and val: "validate_rewrite_rules (rw_rules w) = Inr ()"
    and room: "continuations_needed (rw_rules w) < 2 ^ 32"
  shows "derives (rw_rules w) (allow_identity w) ins outs c \<Longrightarrow> \<exists>c' \<le> c. rw_run w 0 ins outs c' 0"
proof (induction rule: derives.induct)
  case derives_done
  then show ?case using rw_stay by blast
next
  case (derives_rule r k ins outs c)
  obtain i where i: "i < length (rw_rules w)" "rw_rules w ! i = r" using derives_rule.hyps(1) by (auto simp: in_set_conv_nth)
  obtain c1 where c1: "c1 \<le> c" "rw_run w 0 ins outs c1 0" using derives_rule.IH by blast
  have "0 < pr_steps (prepare_rule r)" using derives_rule.hyps(2) by (auto simp: prepare_rule_def less_max_iff_disj)
  then have "\<exists>c' \<le> k + c1. rw_run w 0 (rr_input r @ ins) (rr_output r @ outs) c' 0"
    using rule_suffix_run [OF ok val room i(1) c1(2), of 0 0 k] i(2) derives_rule.hyps(3) by (simp add: step_state_def)
  then show ?case using c1(1) by (meson add_left_mono order_trans)
next
  case (derives_copy a ins outs c)
  obtain c1 where c1: "c1 \<le> c" "rw_run w 0 ins outs c1 0" using derives_copy.IH by blast
  let ?t = "mk_transition 0 (Some a) (Some a) 0 (F64 0)"
  have "?t \<in> set (all_transitions w 0)"
    using derives_copy.hyps(1-3) identity_transitions_set [of ?t] unfolding all_transitions_def by auto
  from move_along [OF ok val home_known this, of 0 ins outs c1 0] c1 show ?case by (auto intro: order_trans)
qed

text \<open>
  C7: a rewrite WFST computes the relation of its rules. Every run from home back to home spells a
  derivation at its exact cost (adjacent pieces, each rewritten by a rule or copied), and for every
  derivation there is a run with its input and output that costs no more, provided there are
  identifiers for all continuation states.
\<close>

theorem rewrite_wfst_relation:
  assumes "with_rules rules = Inr w0" and "w = w0\<lparr>allow_identity := b\<rparr>" and "continuations_needed rules < 2 ^ 32"
  shows "(rw_run w 0 ins outs c 0 \<longrightarrow> derives rules b ins outs c) \<and>
    (derives rules b ins outs c \<longrightarrow> (\<exists>c' \<le> c. rw_run w 0 ins outs c' 0))"
proof -
  have w: "rw_rules w = rules" "allow_identity w = b" "validate_rewrite_rules (rw_rules w) = Inr ()" "rewrite_ok w"
    using assms(1,2) addressable_fit [OF assms(3)] with_rules_ok [OF assms(1)] by (simp_all add: rewrite_ok_def)
  show ?thesis
    using rw_run_sound [OF _ w(4), of 0 ins outs c 0] rw_run_complete [OF w(4,3), of ins outs c] assms(3)
    by (auto simp: completes_def w(1,2))
qed

theorem rewrite_wfst_relation_witness:
  "\<exists>c \<le> 0. rw_run (from_validated_rules sch_rules) 0 (chars ''schc'') (chars ''shk'') c 0"
proof -
  let ?w = "from_validated_rules sch_rules"
  have room: "continuations_needed sch_rules < 2 ^ 32"
    by (simp add: continuations_needed_def sch_rules_def rule_new_def chars_def)
  have w: "?w = ?w\<lparr>allow_identity := True\<rparr>" by (simp add: from_validated_rules_def)
  have k: "derives sch_rules True (chars ''c'' @ []) (chars ''k'' @ []) (0 + 0)"
    using derives_rule [of "rule_new (chars ''c'') (chars ''k'')" sch_rules 0 True "[]" "[]" 0] derives_done
    by (simp add: sch_rules_def rule_new_def chars_def)
  then have "derives sch_rules True (chars ''sch'' @ chars ''c'' @ []) (chars ''sh'' @ chars ''k'' @ []) (0 + (0 + 0))"
    using derives_rule [of "rule_new (chars ''sch'') (chars ''sh'')" sch_rules 0 True "chars ''c'' @ []" "chars ''k'' @ []" "0 + 0"]
    by (simp add: sch_rules_def rule_new_def chars_def)
  then have "derives sch_rules True (chars ''schc'') (chars ''shk'') 0" by (simp add: chars_def)
  then show ?thesis using rewrite_wfst_relation [OF sch_rules_with w room] by blast
qed

section \<open>The cache and the mutators\<close>

text \<open>
  The automaton is its own state source: expanding changes nothing, so a source extends only
  itself. The mutators replace it, and clear the cache.
\<close>

interpretation rw: lazy_source rewrite_expand_state is_known_state rewrite_uncached_weight "\<lambda>_. True" "(=)"
proof unfold_locales
  fix s s1 s2 :: rewrite_wfst and q :: state_id and f w ts
  have same: "snd (rewrite_expand_state s q) = s" for s q by (simp add: rewrite_expand_eq)
  then show "s = snd (rewrite_expand_state s q)" by simp
  show "rewrite_expand_state s q = (Expanded f w ts, s1) \<Longrightarrow> s1 = s2 \<Longrightarrow> rewrite_expand_state s2 q = (Expanded f w ts, s2)"
    using same [of s q] by simp
  show "is_known_state s q \<Longrightarrow> fst (rewrite_expand_state s q) = Expanded f w ts \<Longrightarrow>
      f = (rewrite_uncached_weight s q \<noteq> None) \<and>
      w = (case rewrite_uncached_weight s q of Some w \<Rightarrow> w | None \<Rightarrow> tropical_zero)"
    by (auto simp: rewrite_expand_eq rewrite_uncached_weight_def final_state_def non_final_def split: if_splits)
qed auto

datatype rewrite_op =
    CacheOp wrapper_op
  | AddRule "uchar list" "uchar list" f64
  | AddRewriteRule rewrite_rule
  | SetAllowIdentity bool

fun rewrite_step :: "rewrite_op \<Rightarrow> cached_rewrite \<Rightarrow> cached_rewrite" where
  "rewrite_step (CacheOp x) cw = wrapper_step rewrite_expand_state is_known_state x cw"
| "rewrite_step (AddRule ins outs cost) cw = (case add_rule ins outs cost cw of Inl _ \<Rightarrow> cw | Inr cw' \<Rightarrow> cw')"
| "rewrite_step (AddRewriteRule r) cw = (case add_rewrite_rule r cw of Inl _ \<Rightarrow> cw | Inr cw' \<Rightarrow> cw')"
| "rewrite_step (SetAllowIdentity b) cw = set_allow_identity b cw"

lemma coherent_cleared: "rw.coherent (c, w) \<Longrightarrow> rw.coherent (cache_clear c, w')"
  using cache_clear_refines [of c] by (simp add: rw.coherent_def cache_get_cleared)

lemma rewrite_step_coherent:
  assumes "rw.coherent cw"
  shows "rw.coherent (rewrite_step x cw)"
proof -
  obtain c w where cw: "cw = (c, w)" by force
  show ?thesis
    using assms rw.coherent_step [OF assms] coherent_cleared [of c w]
    by (cases x) (auto simp: cw add_rule_def add_rewrite_rule_def set_allow_identity_def split: sum.splits)
qed

lemma rewrite_steps_coherent: "rw.coherent cw \<Longrightarrow> rw.coherent (fold rewrite_step ops cw)"
  by (induction ops arbitrary: cw) (simp_all add: rewrite_step_coherent)

text \<open>
  C29: the cache of a rewrite WFST is never stale. After any mix of expansions, cache
  reconfigurations, added rules (accepted or refused) and changes of the identity flag, on any
  automaton, the transitions shown for a state are those the current rules give it, and only the
  home state is final.
\<close>

theorem rewrite_never_stale:
  "let (c, w) = fold rewrite_step ops (cache_new rewrite_max_cache_size, w0)
   in fst (rewrite_transitions_lazy x (c, w)) =
        snd (snd (rw_compute_transitions w x)) \<and>
      rewrite_is_final (c, w) x = (x = 0) \<and>
      rewrite_final_weight (c, w) x = (if x = 0 then tropical_one else tropical_zero)"
proof -
  obtain c w where r: "fold rewrite_step ops (cache_new rewrite_max_cache_size, w0) = (c, w)" by force
  have coh: "rw.coherent (c, w)"
    using rewrite_steps_coherent [OF rw.coherent_new [of rewrite_max_cache_size w0], of ops] r by simp
  have "fst (rewrite_expand_state w x) = Expanded (x = 0) (if x = 0 then tropical_one else tropical_zero)
      (snd (snd (rw_compute_transitions w x)))" if "is_known_state w x"
    using that by (simp add: rewrite_expand_eq rw_compute_transitions_def final_state_def non_final_def
        all_transitions_def own_transitions_def Let_def)
  moreover have "snd (snd (rw_compute_transitions w x)) = []" if "\<not> is_known_state w x"
    using that by (simp add: rw_compute_transitions_def)
  ultimately show ?thesis
    using r rw.transitions_lazy [OF coh, of x] rw.wrapper_finality [OF coh, of x]
    by (auto simp: rewrite_uncached_weight_def rewrite_transitions_lazy_def rewrite_transitions_def rewrite_ensure_state_def
        wrapper_transitions_lazy_def rewrite_is_final_def rewrite_final_weight_def split: prod.splits)
qed

end
