(* ===== verification/Wallbreaker.thy ===== *)
theory Wallbreaker
  imports Lev_Source Interning
begin

text \<open>
  \<open>src/wallbreaker_results.rs\<close>, \<open>src/wallbreaker_wfst.rs\<close>, \<open>src/wallbreaker_builder.rs\<close>: the WFST over
  the results of a WallBreaker query. The query itself belongs to \<open>liblevenshtein\<close>; its results, terms
  with distances, are a parameter of the model. They are normalised, their characters stored one
  after the other in an arena, and every character of a term becomes a state behind a common start.
\<close>

section \<open>Results\<close>

record wb_result =
  wr_term :: "uchar list"
  wr_distance :: usize

definition super_start_result_index :: u32 where
  "super_start_result_index = u32_max"

record wb_state_key =
  wk_result :: u32
  wk_position :: u32

record result_char_span =
  rs_start :: usize
  rs_len :: usize

record result_char_arena =
  ra_chars :: "uchar list"
  ra_spans :: "result_char_span list"
  ra_state_count :: usize
  ra_non_empty :: usize

definition next_wallbreaker_state_id :: "usize \<Rightarrow> state_id option" where
  "next_wallbreaker_state_id n = u32_try_from n"

definition next_wallbreaker_result_index :: "usize \<Rightarrow> u32 option" where
  "next_wallbreaker_result_index i =
     (case u32_try_from i of
        None \<Rightarrow> None
      | Some j \<Rightarrow> if j < super_start_result_index then Some j else None)"

definition next_wallbreaker_char_position :: "usize \<Rightarrow> u32 option" where
  "next_wallbreaker_char_position p = u32_try_from p"

definition usize_from_u32 :: "u32 \<Rightarrow> usize" where
  "usize_from_u32 v = (case usize_try_from_u32 v of Some n \<Rightarrow> n | None \<Rightarrow> usize_max)"

definition usize_from_state_id :: "state_id \<Rightarrow> usize" where
  "usize_from_state_id v = (case usize_try_from_u32 v of Some n \<Rightarrow> n | None \<Rightarrow> usize_max)"

definition distance_to_f64 :: "usize \<Rightarrow> f64 option" where
  "distance_to_f64 d = exact_usize_to_f64 d"

text \<open>One pass of the loop of \<open>from_results\<close>.\<close>

definition push_result :: "result_char_arena \<Rightarrow> wb_result \<Rightarrow> result_char_arena" where
  "push_result a r =
     (let start = length (ra_chars a);
          chars = ra_chars a @ wr_term r;
          len = length chars - start
      in \<lparr>ra_chars = chars,
          ra_spans = ra_spans a @ [\<lparr>rs_start = start, rs_len = len\<rparr>],
          ra_state_count = usize_sat_add (ra_state_count a) len,
          ra_non_empty = usize_sat_add (ra_non_empty a) (if len > 0 then 1 else 0)\<rparr>)"

definition from_results :: "wb_result list \<Rightarrow> result_char_arena" where
  "from_results results =
     foldl push_result \<lparr>ra_chars = [], ra_spans = [], ra_state_count = 1, ra_non_empty = 0\<rparr> results"

definition arena_len :: "result_char_arena \<Rightarrow> usize" where
  "arena_len a = length (ra_spans a)"

definition term_len :: "result_char_arena \<Rightarrow> usize \<Rightarrow> usize option" where
  "term_len a i = map_option rs_len (nth_opt (ra_spans a) i)"

definition char_at :: "result_char_arena \<Rightarrow> usize \<Rightarrow> usize \<Rightarrow> uchar option" where
  "char_at a i pos =
     (case nth_opt (ra_spans a) i of
        None \<Rightarrow> None
      | Some sp \<Rightarrow> if pos \<ge> rs_len sp then None else nth_opt (ra_chars a) (rs_start sp + pos))"

definition first_char :: "result_char_arena \<Rightarrow> usize \<Rightarrow> uchar option" where
  "first_char a i = char_at a i 0"

definition state_id_for_position :: "result_char_arena \<Rightarrow> usize \<Rightarrow> usize \<Rightarrow> state_id option" where
  "state_id_for_position a i pos =
     (case next_wallbreaker_result_index i of
        None \<Rightarrow> None
      | Some _ \<Rightarrow>
          if pos = 0 then None
          else case nth_opt (ra_spans a) i of
                 None \<Rightarrow> None
               | Some sp \<Rightarrow>
                   if pos > rs_len sp then None
                   else Option.bind (usize_checked_add (rs_start sp) pos) next_wallbreaker_state_id)"

text \<open>\<open>normalize_wallbreaker_results\<close>: bounded, exactly representable, one result per term.\<close>

fun normalize_loop ::
    "usize \<Rightarrow> wb_result list \<Rightarrow> wb_result list \<Rightarrow> (uchar list \<rightharpoonup> usize) \<Rightarrow> wb_result list" where
  "normalize_loop maxd [] normalized index = normalized"
| "normalize_loop maxd (r # rs) normalized index =
     (if wr_distance r > maxd \<or> distance_to_f64 (wr_distance r) = None then normalize_loop maxd rs normalized index
      else case index (wr_term r) of
             Some i \<Rightarrow>
               normalize_loop maxd rs
                 (if wr_distance r < wr_distance (normalized ! i)
                  then normalized[i := (normalized ! i)\<lparr>wr_distance := wr_distance r\<rparr>] else normalized) index
           | None \<Rightarrow> normalize_loop maxd rs (normalized @ [r]) (index(wr_term r \<mapsto> length normalized)))"

definition normalize_wallbreaker_results :: "wb_result list \<Rightarrow> usize \<Rightarrow> wb_result list" where
  "normalize_wallbreaker_results results maxd = normalize_loop maxd results [] Map.empty"

definition wallbreaker_result_final_weights :: "wb_result list \<Rightarrow> weight option list" where
  "wallbreaker_result_final_weights results = map (\<lambda>r. distance_to_f64 (wr_distance r)) results"

text \<open>\<open>f64::min\<close>, which ignores a side that is not a number.\<close>

definition f64_min :: "f64 \<Rightarrow> f64 \<Rightarrow> f64" where
  "f64_min a b = (if a = F64_NaN then b else if b = F64_NaN then a else if f64_lt b a then b else a)"

definition empty_wallbreaker_result_final_weight :: "wb_result list \<Rightarrow> usize \<Rightarrow> weight option" where
  "empty_wallbreaker_result_final_weight results maxd =
     foldl (\<lambda>best r.
         case distance_to_f64 (wr_distance r) of
           None \<Rightarrow> best
         | Some w \<Rightarrow> Some (case best of None \<Rightarrow> w | Some b \<Rightarrow> f64_min b w))
       None (List.filter (\<lambda>r. wr_term r = [] \<and> wr_distance r \<le> maxd) results)"

section \<open>The index of the states\<close>

text \<open>The inner loop over the positions of a term; \<open>True\<close> when it returns from the function.\<close>

fun index_positions :: "u32 \<Rightarrow> usize list \<Rightarrow> wb_state_key list \<Rightarrow> bool \<times> wb_state_key list" where
  "index_positions i [] keys = (False, keys)"
| "index_positions i (pos # ps) keys =
     (if next_wallbreaker_state_id (length keys) = None then (True, keys)
      else case next_wallbreaker_char_position pos of
             None \<Rightarrow> (True, keys)
           | Some p \<Rightarrow> index_positions i ps (keys @ [\<lparr>wk_result = i, wk_position = p\<rparr>]))"

fun index_results :: "result_char_arena \<Rightarrow> usize list \<Rightarrow> wb_state_key list \<Rightarrow> wb_state_key list" where
  "index_results a [] keys = keys"
| "index_results a (n # ns) keys =
     (case next_wallbreaker_result_index n of
        None \<Rightarrow> keys
      | Some i \<Rightarrow>
          (case term_len a n of
             None \<Rightarrow> keys
           | Some len \<Rightarrow>
               (case index_positions i [1..<Suc len] keys of
                  (True, keys') \<Rightarrow> keys'
                | (False, keys') \<Rightarrow> index_results a ns keys')))"

definition build_wallbreaker_state_index :: "result_char_arena \<Rightarrow> wb_state_key list" where
  "build_wallbreaker_state_index a =
     index_results a [0..<arena_len a] [\<lparr>wk_result = super_start_result_index, wk_position = 0\<rparr>]"

section \<open>The WFST\<close>

text \<open>The automaton; the cache is paired with it, as for every wrapper.\<close>

record wallbreaker_wfst =
  wb_query :: "uchar list"
  wb_max_distance :: usize
  wb_algorithm :: lev_algorithm
  wb_result_count :: usize
  wb_result_chars :: result_char_arena
  wb_final_weights :: "weight option list"
  wb_empty_final_weight :: "weight option"
  wb_id_to_state :: "wb_state_key list"

definition wb_max_cache_size :: usize where
  "wb_max_cache_size = 100000"

definition from_owned_results :: "uchar list \<Rightarrow> usize \<Rightarrow> lev_algorithm \<Rightarrow> wb_result list \<Rightarrow> wallbreaker_wfst" where
  "from_owned_results query maxd alg raw =
     (let results = normalize_wallbreaker_results raw maxd;
          chars = from_results results
      in \<lparr>wb_query = query, wb_max_distance = maxd, wb_algorithm = alg, wb_result_count = length results,
          wb_result_chars = chars,
          wb_final_weights = wallbreaker_result_final_weights results,
          wb_empty_final_weight = empty_wallbreaker_result_final_weight results maxd,
          wb_id_to_state = build_wallbreaker_state_index chars\<rparr>)"

text \<open>The WallBreaker query, a parameter: dictionary, bound, algorithm and query to results.\<close>

type_synonym 'd wallbreaker_query = "'d \<Rightarrow> usize \<Rightarrow> lev_algorithm \<Rightarrow> uchar list \<Rightarrow> wb_result list"

definition wb_with_algorithm ::
    "'d wallbreaker_query \<Rightarrow> 'd \<Rightarrow> uchar list \<Rightarrow> usize \<Rightarrow> lev_algorithm \<Rightarrow> wallbreaker_wfst" where
  "wb_with_algorithm search dictionary query maxd alg =
     from_owned_results query maxd alg (search dictionary maxd alg query)"

definition wb_new :: "'d wallbreaker_query \<Rightarrow> 'd \<Rightarrow> uchar list \<Rightarrow> usize \<Rightarrow> wallbreaker_wfst" where
  "wb_new search dictionary query maxd = wb_with_algorithm search dictionary query maxd standard"

definition lookup_state :: "wallbreaker_wfst \<Rightarrow> wb_state_key \<Rightarrow> state_id option" where
  "lookup_state w key =
     (case (if wk_result key = super_start_result_index
            then (if wk_position key = 0 then Some 0 else None)
            else state_id_for_position (wb_result_chars w)
                   (usize_from_u32 (wk_result key)) (usize_from_u32 (wk_position key))) of
        None \<Rightarrow> None
      | Some i \<Rightarrow> if nth_opt (wb_id_to_state w) (usize_from_state_id i) = Some key then Some i else None)"

definition wb_final_weight_for_state :: "wallbreaker_wfst \<Rightarrow> state_id \<Rightarrow> weight option" where
  "wb_final_weight_for_state w state =
     (case nth_opt (wb_id_to_state w) (usize_from_state_id state) of
        None \<Rightarrow> None
      | Some key \<Rightarrow>
          if wk_result key = super_start_result_index then wb_empty_final_weight w
          else case term_len (wb_result_chars w) (usize_from_u32 (wk_result key)) of
                 None \<Rightarrow> None
               | Some len \<Rightarrow>
                   if usize_from_u32 (wk_position key) < len then None
                   else Option.bind (nth_opt (wb_final_weights w) (usize_from_u32 (wk_result key))) (\<lambda>x. x))"

definition super_start_arc :: "wallbreaker_wfst \<Rightarrow> usize \<Rightarrow> transition option" where
  "super_start_arc w n =
     (case first_char (wb_result_chars w) n of
        None \<Rightarrow> None
      | Some c \<Rightarrow>
          (case next_wallbreaker_result_index n of
             None \<Rightarrow> None
           | Some i \<Rightarrow>
               (case lookup_state w \<lparr>wk_result = i, wk_position = 1\<rparr> of
                  None \<Rightarrow> None
                | Some to \<Rightarrow> Some (mk_transition 0 (Some c) (Some c) to (F64 0)))))"

definition compute_super_start_transitions :: "wallbreaker_wfst \<Rightarrow> bool \<times> weight \<times> transition list" where
  "compute_super_start_transitions w =
     (let ts = List.map_filter (super_start_arc w) [0..<arena_len (wb_result_chars w)]
      in case wb_empty_final_weight w of
           Some fw \<Rightarrow> (True, fw, ts)
         | None \<Rightarrow> (False, F64_PosInf, ts))"

definition compute_result_state ::
    "wallbreaker_wfst \<Rightarrow> state_id \<Rightarrow> wb_state_key \<Rightarrow> bool \<times> weight \<times> transition list" where
  "compute_result_state w state key =
     (case term_len (wb_result_chars w) (usize_from_u32 (wk_result key)) of
        None \<Rightarrow> (False, F64_PosInf, [])
      | Some len \<Rightarrow>
          (case Option.bind (nth_opt (wb_final_weights w) (usize_from_u32 (wk_result key))) (\<lambda>x. x) of
             None \<Rightarrow> (False, F64_PosInf, [])
           | Some result_weight \<Rightarrow>
               (let pos = usize_from_u32 (wk_position key);
                    final = (pos \<ge> len);
                    fw = (if final then result_weight else F64_PosInf)
                in case char_at (wb_result_chars w) (usize_from_u32 (wk_result key)) pos of
                     None \<Rightarrow> (final, fw, [])
                   | Some c \<Rightarrow>
                       (case next_wallbreaker_char_position (usize_sat_add pos 1) of
                          None \<Rightarrow> (final, fw, [])
                        | Some p \<Rightarrow>
                            (case lookup_state w (key\<lparr>wk_position := p\<rparr>) of
                               None \<Rightarrow> (final, fw, [])
                             | Some to \<Rightarrow> (final, fw, [mk_transition state (Some c) (Some c) to (F64 0)]))))))"

definition wb_compute :: "wallbreaker_wfst \<Rightarrow> state_id \<Rightarrow> wb_state_key \<Rightarrow> expansion" where
  "wb_compute w state key =
     (case (if wk_result key = super_start_result_index then compute_super_start_transitions w
            else compute_result_state w state key) of
        (final, fw, ts) \<Rightarrow> if final then final_state fw ts else non_final ts)"

definition wb_expand_state :: "wallbreaker_wfst \<Rightarrow> state_id \<Rightarrow> expansion \<times> wallbreaker_wfst" where
  "wb_expand_state w state =
     (case nth_opt (wb_id_to_state w) (usize_from_state_id state) of
        None \<Rightarrow> (Failed (InvalidState state), w)
      | Some key \<Rightarrow> (wb_compute w state key, w))"

type_synonym cached_wallbreaker = "cached_char_state lazy_cache \<times> wallbreaker_wfst"

text \<open>\<open>ensure_state\<close>, which has its own copy of the protocol of \<open>ensure_cached_char_state\<close>.\<close>

definition wb_ensure_state ::
    "state_id \<Rightarrow> cached_wallbreaker \<Rightarrow> (expansion_error + expansion_status) \<times> cached_wallbreaker" where
  "wb_ensure_state state = (\<lambda>(cache, w).
     (case touch_if_cached state cache of
        (True, cache') \<Rightarrow> (cached_char_state_status cache' state, cache', w)
      | (False, cache') \<Rightarrow>
          (case nth_opt (wb_id_to_state w) (usize_from_state_id state) of
             None \<Rightarrow> (Inl (invalid_state_error state), cache', w)
           | Some key \<Rightarrow>
               (case cache_char_state_expansion cache' state (wb_compute w state key) of
                  (r, cache'') \<Rightarrow> (r, cache'', w)))))"

definition wb_is_valid_state :: "wallbreaker_wfst \<Rightarrow> state_id \<Rightarrow> bool" where
  "wb_is_valid_state w state \<longleftrightarrow> nth_opt (wb_id_to_state w) (usize_from_state_id state) \<noteq> None"

definition wb_num_states :: "wallbreaker_wfst \<Rightarrow> usize" where
  "wb_num_states w = length (wb_id_to_state w)"

definition wb_num_states_hint :: "wallbreaker_wfst \<Rightarrow> usize option" where
  "wb_num_states_hint w = Some (length (wb_id_to_state w))"

definition wb_is_final :: "cached_wallbreaker \<Rightarrow> state_id \<Rightarrow> bool" where
  "wb_is_final cw state = wrapper_is_final wb_final_weight_for_state cw state"

definition wb_final_weight :: "cached_wallbreaker \<Rightarrow> state_id \<Rightarrow> weight" where
  "wb_final_weight cw state = wrapper_final_weight wb_final_weight_for_state cw state"

definition wb_transitions :: "cached_wallbreaker \<Rightarrow> state_id \<Rightarrow> transition list" where
  "wb_transitions cw state = wrapper_transitions cw state"

definition wb_transitions_lazy :: "state_id \<Rightarrow> cached_wallbreaker \<Rightarrow> transition list \<times> cached_wallbreaker" where
  "wb_transitions_lazy state cw = (case wb_ensure_state state cw of (_, cw') \<Rightarrow> (wb_transitions cw' state, cw'))"

section \<open>The builder\<close>

record 'd wallbreaker_builder =
  bld_dictionary :: 'd
  bld_query :: "uchar list option"
  bld_max_distance :: usize
  bld_algorithm :: lev_algorithm

definition wb_builder_new :: "'d \<Rightarrow> 'd wallbreaker_builder" where
  "wb_builder_new dictionary =
     \<lparr>bld_dictionary = dictionary, bld_query = None, bld_max_distance = 2, bld_algorithm = standard\<rparr>"

definition wb_builder_query :: "uchar list \<Rightarrow> 'd wallbreaker_builder \<Rightarrow> 'd wallbreaker_builder" where
  "wb_builder_query query b = b\<lparr>bld_query := Some query\<rparr>"

definition wb_builder_max_distance :: "usize \<Rightarrow> 'd wallbreaker_builder \<Rightarrow> 'd wallbreaker_builder" where
  "wb_builder_max_distance distance b = b\<lparr>bld_max_distance := distance\<rparr>"

definition wb_builder_algorithm :: "lev_algorithm \<Rightarrow> 'd wallbreaker_builder \<Rightarrow> 'd wallbreaker_builder" where
  "wb_builder_algorithm alg b = b\<lparr>bld_algorithm := alg\<rparr>"

definition wb_builder_build ::
    "'d wallbreaker_query \<Rightarrow> 'd wallbreaker_builder \<Rightarrow> string + wallbreaker_wfst" where
  "wb_builder_build search b =
     (case bld_query b of
        None \<Rightarrow> Inl ''Query not set''
      | Some query \<Rightarrow> Inr (wb_with_algorithm search (bld_dictionary b) query (bld_max_distance b) (bld_algorithm b)))"

end
