(* ===== verification/Wallbreaker_Paths.thy ===== *)
theory Wallbreaker_Paths
  imports Wallbreaker "HOL-Library.Multiset"
begin

text \<open>
  What the WallBreaker WFST accepts: the terms of the results within the bound, each at its least
  distance. The normalisation keeps one result per term, the arena and the state index lay the
  terms out one after the other, and a run walks through one term.
\<close>

section \<open>Normalisation\<close>

definition usable :: "usize \<Rightarrow> usize \<Rightarrow> bool" where
  "usable maxd d \<longleftrightarrow> d \<le> maxd \<and> d \<le> 2 ^ 53"

lemma not_usable: "d > maxd \<or> distance_to_f64 d = None \<longleftrightarrow> \<not> usable maxd d"
  by (auto simp: usable_def distance_to_f64_def exact_usize_to_f64_def max_exact_f64_usize_def usize_max_def)

lemma usable_weight: "usable maxd d \<Longrightarrow> distance_to_f64 d = Some (f64_of_nat d)"
  by (simp add: usable_def distance_to_f64_def)

text \<open>\<open>d\<close> is the least usable distance of the term \<open>w\<close>.\<close>

definition best_distance :: "wb_result list \<Rightarrow> usize \<Rightarrow> uchar list \<Rightarrow> usize \<Rightarrow> bool" where
  "best_distance rs maxd w d \<longleftrightarrow> (\<exists>r \<in> set rs. wr_term r = w \<and> wr_distance r = d) \<and> usable maxd d \<and>
     (\<forall>r \<in> set rs. wr_term r = w \<longrightarrow> usable maxd (wr_distance r) \<longrightarrow> d \<le> wr_distance r)"

definition normal :: "usize \<Rightarrow> wb_result list \<Rightarrow> wb_result list \<Rightarrow> (uchar list \<rightharpoonup> usize) \<Rightarrow> bool" where
  "normal maxd done ns ix \<longleftrightarrow>
     (\<forall>w i. ix w = Some i \<longleftrightarrow> i < length ns \<and> wr_term (ns ! i) = w) \<and>
     (\<forall>i < length ns. best_distance done maxd (wr_term (ns ! i)) (wr_distance (ns ! i))) \<and>
     (\<forall>r \<in> set done. usable maxd (wr_distance r) \<longrightarrow> ix (wr_term r) \<noteq> None)"

lemma normalD:
  assumes "normal maxd done ns ix"
  shows "ix w = Some i \<Longrightarrow> i < length ns \<and> wr_term (ns ! i) = w"
    and "i < length ns \<Longrightarrow> ix (wr_term (ns ! i)) = Some i"
    and "i < length ns \<Longrightarrow> best_distance done maxd (wr_term (ns ! i)) (wr_distance (ns ! i))"
    and "r \<in> set done \<Longrightarrow> usable maxd (wr_distance r) \<Longrightarrow> ix (wr_term r) \<noteq> None"
  using assms unfolding normal_def by blast+

lemma best_distance_skip:
  "\<not> usable maxd (wr_distance r) \<or> wr_term r \<noteq> w \<Longrightarrow>
     best_distance (rs @ [r]) maxd w d = best_distance rs maxd w d"
  by (auto simp: best_distance_def)

lemma best_distance_better:
  assumes "best_distance rs maxd w d" and "wr_term r = w" and "usable maxd (wr_distance r)"
  shows "best_distance (rs @ [r]) maxd w (min d (wr_distance r))"
  using assms unfolding best_distance_def by (cases "d \<le> wr_distance r") (auto simp: min_def)

lemma normal_skip: "normal maxd done ns ix \<Longrightarrow> \<not> usable maxd (wr_distance r) \<Longrightarrow> normal maxd (done @ [r]) ns ix"
  by (auto simp: normal_def best_distance_skip)

lemma normal_known:
  assumes n: "normal maxd done ns ix" and ix: "ix (wr_term r) = Some i" and u: "usable maxd (wr_distance r)"
  shows "normal maxd (done @ [r])
    (if wr_distance r < wr_distance (ns ! i) then ns[i := (ns ! i)\<lparr>wr_distance := wr_distance r\<rparr>] else ns) ix"
proof -
  let ?ns = "if wr_distance r < wr_distance (ns ! i) then ns[i := (ns ! i)\<lparr>wr_distance := wr_distance r\<rparr>] else ns"
  have i: "i < length ns" "wr_term (ns ! i) = wr_term r" using normalD(1) [OF n ix] by blast+
  have len: "length ?ns = length ns" by simp
  have terms: "wr_term (?ns ! j) = wr_term (ns ! j)" if "j < length ns" for j
    using that by (cases "j = i") simp_all
  have dist: "wr_distance (?ns ! j) = (if j = i then min (wr_distance (ns ! i)) (wr_distance r) else wr_distance (ns ! j))"
    if "j < length ns" for j using that by (cases "j = i") simp_all
  have other: "wr_term r \<noteq> wr_term (ns ! j)" if "j < length ns" "j \<noteq> i" for j
    using normalD(2) [OF n that(1)] ix that(2) by force
  have "best_distance (done @ [r]) maxd (wr_term (ns ! j)) (wr_distance (?ns ! j))" if j: "j < length ns" for j
  proof (cases "j = i")
    case True
    then show ?thesis
      using best_distance_better [OF normalD(3) [OF n i(1)] _ u] i dist [OF j] by simp
  next
    case False
    then show ?thesis using best_distance_skip [of maxd r] other [OF j] normalD(3) [OF n j] dist [OF j] by simp
  qed
  moreover have "ix w = Some j \<longleftrightarrow> j < length ns \<and> wr_term (?ns ! j) = w" for w j
    using n terms [of j] unfolding normal_def by metis
  moreover have "ix (wr_term x) \<noteq> None" if "x \<in> set (done @ [r])" "usable maxd (wr_distance x)" for x
    using that normalD(4) [OF n] ix by auto
  ultimately show ?thesis unfolding normal_def len using terms by simp
qed

lemma normal_fresh:
  assumes n: "normal maxd done ns ix" and ix: "ix (wr_term r) = None" and u: "usable maxd (wr_distance r)"
  shows "normal maxd (done @ [r]) (ns @ [r]) (ix(wr_term r \<mapsto> length ns))"
proof -
  have other: "wr_term (ns ! j) \<noteq> wr_term r" if "j < length ns" for j
    using normalD(2) [OF n that] ix by force
  have none: "wr_term x \<noteq> wr_term r" if "x \<in> set done" "usable maxd (wr_distance x)" for x
    using normalD(4) [OF n that] ix by metis
  have "best_distance (done @ [r]) maxd (wr_term r) (wr_distance r)"
    using u none unfolding best_distance_def by force
  moreover have "best_distance (done @ [r]) maxd (wr_term (ns ! j)) (wr_distance (ns ! j))" if "j < length ns" for j
    using best_distance_skip [of maxd r "wr_term (ns ! j)"] other [OF that] normalD(3) [OF n that] by metis
  ultimately have "best_distance (done @ [r]) maxd (wr_term ((ns @ [r]) ! j)) (wr_distance ((ns @ [r]) ! j))"
    if "j < length (ns @ [r])" for j using that by (cases "j = length ns") (simp_all add: nth_append less_Suc_eq)
  moreover have "(ix(wr_term r \<mapsto> length ns)) w = Some j \<longleftrightarrow> j < length (ns @ [r]) \<and> wr_term ((ns @ [r]) ! j) = w" for w j
  proof (cases "w = wr_term r")
    case True
    then show ?thesis using other by (auto simp: nth_append less_Suc_eq)
  next
    case False
    have "ix w = Some j \<longleftrightarrow> j < length ns \<and> wr_term (ns ! j) = w" using n unfolding normal_def by blast
    then show ?thesis
      using False by (metis fun_upd_other length_append_singleton less_Suc_eq nth_append nth_append_length)
  qed
  moreover have "(ix(wr_term r \<mapsto> length ns)) (wr_term x) \<noteq> None" if "x \<in> set (done @ [r])" "usable maxd (wr_distance x)" for x
    using that normalD(4) [OF n] by (auto simp: fun_upd_apply)
  ultimately show ?thesis unfolding normal_def by blast
qed

lemma normalize_loop_normal:
  "normal maxd done ns ix \<Longrightarrow> \<exists>ix'. normal maxd (done @ rs) (normalize_loop maxd rs ns ix) ix'"
proof (induction rs arbitrary: "done" ns ix)
  case (Cons r rs)
  show ?case
  proof (cases "usable maxd (wr_distance r)")
    case False
    then show ?thesis
      using Cons.IH [OF normal_skip [OF Cons.prems False]] not_usable [of maxd "wr_distance r"] by simp
  next
    case True
    then have step: "\<not> (wr_distance r > maxd \<or> distance_to_f64 (wr_distance r) = None)" by (simp add: not_usable)
    show ?thesis
    proof (cases "ix (wr_term r)")
      case None
      then show ?thesis
        using Cons.IH [OF normal_fresh [OF Cons.prems None True]] step by (simp del: fun_upd_apply not_None_eq)
    next
      case (Some i)
      then show ?thesis
        using Cons.IH [OF normal_known [OF Cons.prems Some True]] step by (simp del: not_None_eq)
    qed
  qed
qed auto

lemma normalized:
  obtains ix where "normal maxd raw (normalize_wallbreaker_results raw maxd) ix"
proof -
  have "normal maxd [] [] Map.empty" by (simp add: normal_def)
  from normalize_loop_normal [OF this, of raw] show ?thesis
    using that by (auto simp: normalize_wallbreaker_results_def)
qed

lemma normalize_best:
  "distinct (map wr_term (normalize_wallbreaker_results raw maxd)) \<and>
   ((\<exists>r \<in> set (normalize_wallbreaker_results raw maxd). wr_term r = w \<and> wr_distance r = d) \<longleftrightarrow>
     best_distance raw maxd w d)"
proof -
  let ?ns = "normalize_wallbreaker_results raw maxd"
  obtain ix where n: "normal maxd raw ?ns ix" by (rule normalized)
  have "distinct (map wr_term ?ns)"
    unfolding distinct_conv_nth using normalD(2) [OF n] by (metis length_map nth_map option.inject)
  moreover have "best_distance raw maxd w d" if r: "r \<in> set ?ns" "wr_term r = w" "wr_distance r = d" for r
    using normalD(3) [OF n] r by (metis in_set_conv_nth)
  moreover have "\<exists>r \<in> set ?ns. wr_term r = w \<and> wr_distance r = d" if b: "best_distance raw maxd w d"
  proof -
    obtain r where "r \<in> set raw" "wr_term r = w" "wr_distance r = d" "usable maxd d"
      using b unfolding best_distance_def by blast
    then obtain i where "ix w = Some i" using normalD(4) [OF n] by fastforce
    then have i: "i < length ?ns" "wr_term (?ns ! i) = w" using normalD(1) [OF n] by blast+
    then have "best_distance raw maxd w (wr_distance (?ns ! i))" using normalD(3) [OF n] by metis
    then have "wr_distance (?ns ! i) = d" using b unfolding best_distance_def by (metis le_antisym)
    then show ?thesis using i nth_mem by blast
  qed
  ultimately show ?thesis by blast
qed

text \<open>
  The normalised results are the best results. They hold each term once, with a usable distance
  (within the bound and exactly representable as an \<open>f64\<close>), and a term is there with distance
  \<open>d\<close> exactly if \<open>d\<close> is the least usable distance among the results for it.
\<close>

theorem normalized_results_best:
  "distinct (map wr_term (normalize_wallbreaker_results raw maxd)) \<and>
   ((\<exists>r \<in> set (normalize_wallbreaker_results raw maxd). wr_term r = w \<and> wr_distance r = d) \<longleftrightarrow>
     best_distance raw maxd w d)"
  by (rule normalize_best)

section \<open>The arena and the index\<close>

definition offset :: "wb_result list \<Rightarrow> nat \<Rightarrow> nat" where
  "offset rs i = length (concat (map wr_term (take i rs)))"

lemma offset_Suc: "i < length rs \<Longrightarrow> offset rs (Suc i) = offset rs i + length (wr_term (rs ! i))"
  by (simp add: offset_def take_Suc_conv_app_nth)

lemma from_results_arena:
  "ra_chars (from_results rs) = concat (map wr_term rs) \<and>
   ra_spans (from_results rs) = map (\<lambda>i. \<lparr>rs_start = offset rs i, rs_len = length (wr_term (rs ! i))\<rparr>) [0..<length rs]"
proof (induction rs rule: rev_induct)
  case Nil
  then show ?case by (simp add: from_results_def)
next
  case (snoc r rs)
  have "map (\<lambda>i. \<lparr>rs_start = offset (rs @ [r]) i, rs_len = length (wr_term ((rs @ [r]) ! i))\<rparr>) [0..<length rs] =
      map (\<lambda>i. \<lparr>rs_start = offset rs i, rs_len = length (wr_term (rs ! i))\<rparr>) [0..<length rs]"
    by (rule map_cong) (simp_all add: offset_def nth_append)
  then show ?case using snoc by (simp add: from_results_def push_result_def Let_def offset_def)
qed

lemmas arena_chars = from_results_arena [THEN conjunct1]
lemmas arena_spans = from_results_arena [THEN conjunct2]

lemma arena_len: "arena_len (from_results rs) = length rs"
  by (simp add: arena_len_def arena_spans)

lemma arena_span:
  "nth_opt (ra_spans (from_results rs)) i =
     (if i < length rs then Some \<lparr>rs_start = offset rs i, rs_len = length (wr_term (rs ! i))\<rparr> else None)"
  by (simp add: nth_opt_def arena_spans)

lemma arena_term_len: "term_len (from_results rs) i = (if i < length rs then Some (length (wr_term (rs ! i))) else None)"
  by (simp add: term_len_def arena_span)

lemma concat_at:
  assumes "i < length rs" and "p < length (wr_term (rs ! i))"
  shows "nth_opt (concat (map wr_term rs)) (offset rs i + p) = Some (wr_term (rs ! i) ! p)"
proof -
  have "rs = take i rs @ rs ! i # drop (Suc i) rs" using assms(1) by (rule id_take_nth_drop)
  then have "concat (map wr_term rs) = concat (map wr_term (take i rs)) @ wr_term (rs ! i) @ concat (map wr_term (drop (Suc i) rs))"
    by (metis concat.simps(2) concat_append list.simps(9) map_append)
  then show ?thesis using assms(2) by (simp add: nth_opt_def offset_def nth_append)
qed

lemma arena_char_at:
  "char_at (from_results rs) i p =
     (if i < length rs \<and> p < length (wr_term (rs ! i)) then Some (wr_term (rs ! i) ! p) else None)"
  using concat_at [of i rs p] by (simp add: char_at_def arena_span arena_chars)

lemma next_result_index_eq: "next_wallbreaker_result_index i = (if i < 2 ^ 32 - 1 then Some (of_nat i) else None)"
proof (cases "i < 2 ^ 32")
  case True
  then have "(of_nat i :: u32) < u32_max \<longleftrightarrow> i < 2 ^ 32 - 1"
    by (simp add: word_less_nat_alt unat_of_nat)
  then show ?thesis
    using True by (simp add: next_wallbreaker_result_index_def u32_try_from_def super_start_result_index_def)
next
  case False
  then show ?thesis by (simp add: next_wallbreaker_result_index_def u32_try_from_def)
qed

text \<open>Room for an identifier per character, and for an index per result.\<close>

definition roomy :: "wb_result list \<Rightarrow> bool" where
  "roomy rs \<longleftrightarrow> length rs < 2 ^ 32 - 1 \<and> offset rs (length rs) < 2 ^ 32 - 1"

definition term_keys :: "wb_result list \<Rightarrow> nat \<Rightarrow> wb_state_key list" where
  "term_keys rs i = map (\<lambda>p. \<lparr>wk_result = of_nat i, wk_position = of_nat p\<rparr>) [1..<Suc (length (wr_term (rs ! i)))]"

lemma length_term_keys [simp]: "length (term_keys rs i) = length (wr_term (rs ! i))"
  by (simp add: term_keys_def del: upt_Suc)

lemma term_keys_nth: "p < length (wr_term (rs ! i)) \<Longrightarrow>
    term_keys rs i ! p = \<lparr>wk_result = of_nat i, wk_position = of_nat (Suc p)\<rparr>"
  by (simp add: term_keys_def del: upt_Suc)

lemma index_positions_room:
  "length keys + length ps \<le> 2 ^ 32 \<Longrightarrow> \<forall>p \<in> set ps. p < 2 ^ 32 \<Longrightarrow>
     index_positions i ps keys = (False, keys @ map (\<lambda>p. \<lparr>wk_result = i, wk_position = of_nat p\<rparr>) ps)"
  by (induction ps arbitrary: keys)
    (simp_all add: next_wallbreaker_state_id_def next_wallbreaker_char_position_def u32_try_from_def)

lemma offset_mono: "i \<le> j \<Longrightarrow> offset rs i \<le> offset rs j"
proof -
  assume "i \<le> j"
  then have "take j rs = take i rs @ take (j - i) (drop i rs)" by (metis le_add_diff_inverse take_add)
  then show ?thesis by (simp add: offset_def)
qed

lemma offset_term_le: "i < length rs \<Longrightarrow> offset rs i + length (wr_term (rs ! i)) \<le> offset rs (length rs)"
  using offset_mono [of "Suc i" "length rs" rs] by (simp add: offset_Suc)

lemma index_results_room:
  assumes "roomy rs"
  shows "n \<le> length rs \<Longrightarrow> length keys = 1 + offset rs n \<Longrightarrow>
    index_results (from_results rs) [n..<length rs] keys = keys @ concat (map (term_keys rs) [n..<length rs])"
proof (induction "length rs - n" arbitrary: n keys)
  case (Suc m)
  then have n: "n < length rs" by simp
  let ?l = "length (wr_term (rs ! n))"
  have le: "offset rs n + ?l < 2 ^ 32 - 1" using offset_term_le [OF n] assms by (simp add: roomy_def)
  have idx: "next_wallbreaker_result_index n = Some (of_nat n)"
    using n assms by (simp add: next_result_index_eq roomy_def)
  have "index_positions (of_nat n) [1..<Suc ?l] keys =
      (False, keys @ map (\<lambda>p. \<lparr>wk_result = of_nat n, wk_position = of_nat p\<rparr>) [1..<Suc ?l])"
    using Suc.prems(2) le by (intro index_positions_room) (auto simp del: upt_Suc)
  then have pos: "index_positions (of_nat n) [1..<Suc ?l] keys = (False, keys @ term_keys rs n)"
    by (simp add: term_keys_def del: upt_Suc)
  have "length (keys @ term_keys rs n) = 1 + offset rs (Suc n)"
    using Suc.prems(2) n by (simp add: offset_Suc)
  then have "index_results (from_results rs) [Suc n..<length rs] (keys @ term_keys rs n) =
      (keys @ term_keys rs n) @ concat (map (term_keys rs) [Suc n..<length rs])"
    using Suc.hyps n by simp
  then show ?case
    using n idx pos by (simp add: upt_conv_Cons arena_term_len del: upt_Suc)
qed simp

lemma state_index:
  assumes "roomy rs"
  shows "build_wallbreaker_state_index (from_results rs) =
    \<lparr>wk_result = super_start_result_index, wk_position = 0\<rparr> # concat (map (term_keys rs) [0..<length rs])"
  unfolding build_wallbreaker_state_index_def arena_len
  using index_results_room [OF assms, of 0] by (simp add: offset_def)

lemma length_keys_before:
  "n \<le> length rs \<Longrightarrow> length (concat (map (term_keys rs) [0..<n])) = offset rs n"
  by (induction n) (simp_all add: offset_def [of rs 0] offset_Suc)

lemma state_at:
  assumes "roomy rs" and "i < length rs" and "p < length (wr_term (rs ! i))"
  shows "nth_opt (build_wallbreaker_state_index (from_results rs)) (offset rs i + Suc p) =
    Some \<lparr>wk_result = of_nat i, wk_position = of_nat (Suc p)\<rparr>"
proof -
  have "[0..<length rs] = [0..<i] @ i # [Suc i..<length rs]"
    using assms(2) upt_add_eq_append [of 0 i "length rs - i"] by (simp add: upt_conv_Cons)
  then have "concat (map (term_keys rs) [0..<length rs]) =
      concat (map (term_keys rs) [0..<i]) @ term_keys rs i @ concat (map (term_keys rs) [Suc i..<length rs])" by simp
  then have "nth_opt (concat (map (term_keys rs) [0..<length rs])) (offset rs i + p) = Some (term_keys rs i ! p)"
    using length_keys_before [of i rs] assms(2,3) by (simp add: nth_opt_def nth_append)
  then show ?thesis
    using assms(3) by (simp add: state_index [OF assms(1)] nth_opt_def term_keys_nth split: if_splits)
qed

section \<open>The states of the automaton\<close>

text \<open>State \<open>x\<close> stands after \<open>p\<close> characters of result \<open>i\<close>.\<close>

definition stands_at :: "wb_result list \<Rightarrow> state_id \<Rightarrow> nat \<Rightarrow> nat \<Rightarrow> bool" where
  "stands_at rs x i p \<longleftrightarrow> i < length rs \<and> 0 < p \<and> p \<le> length (wr_term (rs ! i)) \<and> unat x = offset rs i + p"

abbreviation wb_key :: "nat \<Rightarrow> nat \<Rightarrow> wb_state_key" where
  "wb_key i p \<equiv> \<lparr>wk_result = of_nat i, wk_position = of_nat p\<rparr>"

text \<open>An automaton over normalised results that fit.\<close>

definition wb_over :: "wb_result list \<Rightarrow> wallbreaker_wfst \<Rightarrow> bool" where
  "wb_over rs w \<longleftrightarrow> roomy rs \<and> wb_result_chars w = from_results rs \<and>
     wb_id_to_state w = build_wallbreaker_state_index (from_results rs) \<and>
     wb_final_weights w = wallbreaker_result_final_weights rs \<and> (\<forall>r \<in> set rs. wr_distance r \<le> 2 ^ 53)"

lemma wb_overD:
  assumes "wb_over rs w"
  shows "roomy rs" "wb_result_chars w = from_results rs"
    "wb_id_to_state w = build_wallbreaker_state_index (from_results rs)"
    "i < length rs \<Longrightarrow> nth_opt (wb_final_weights w) i = Some (Some (f64_of_nat (wr_distance (rs ! i))))"
  using assms
  by (auto simp: wb_over_def wallbreaker_result_final_weights_def nth_opt_def distance_to_f64_def)

lemma usize_from_u32_eq [simp]: "usize_from_u32 v = unat v" "usize_from_state_id v = unat v"
  by (simp_all add: usize_from_u32_def usize_from_state_id_def)

lemma fits:
  assumes "roomy rs" and "i < length rs" and "p \<le> length (wr_term (rs ! i))"
  shows "unat (of_nat i :: u32) = i" "unat (of_nat p :: u32) = p" "(of_nat i :: u32) \<noteq> super_start_result_index"
    "p < 2 ^ 32" "offset rs i + p < 2 ^ 32"
proof -
  have l: "offset rs i + length (wr_term (rs ! i)) < 2 ^ 32 - 1" "i < 2 ^ 32 - 1"
    using offset_term_le [OF assms(2)] assms(1,2) by (simp_all add: roomy_def)
  then show "unat (of_nat i :: u32) = i" "unat (of_nat p :: u32) = p" "p < 2 ^ 32" "offset rs i + p < 2 ^ 32"
    using assms(3) by (simp_all add: unat_of_nat)
  then show "(of_nat i :: u32) \<noteq> super_start_result_index"
    using l(2) by (auto simp: super_start_result_index_def word_unat_eq_iff)
qed

text \<open>The identifier of the state after \<open>p\<close> characters of result \<open>i\<close>.\<close>

definition position_id :: "wb_result list \<Rightarrow> nat \<Rightarrow> nat \<Rightarrow> state_id" where
  "position_id rs i p = of_nat (offset rs i + p)"

lemma stands_at_key:
  assumes "wb_over rs w" and "stands_at rs x i p"
  shows "nth_opt (wb_id_to_state w) (unat x) = Some (wb_key i p)"
  using state_at [OF wb_overD(1) [OF assms(1)], of i "p - 1"] assms(2) wb_overD(3) [OF assms(1)]
  by (cases p) (simp_all add: stands_at_def)

lemma start_key:
  assumes "wb_over rs w"
  shows "nth_opt (wb_id_to_state w) (unat (0 :: u32)) = Some \<lparr>wk_result = super_start_result_index, wk_position = 0\<rparr>"
  by (simp add: wb_overD(3) [OF assms] state_index [OF wb_overD(1) [OF assms]] nth_opt_def)

lemma lookup_state_at:
  assumes w: "wb_over rs w" and i: "i < length rs" and p: "0 < p" "p \<le> length (wr_term (rs ! i))"
  shows "lookup_state w (wb_key i p) = Some (position_id rs i p)"
    and "stands_at rs (position_id rs i p) i p"
proof -
  note f = fits [OF wb_overD(1) [OF w] i p(2)]
  have u: "unat (position_id rs i p) = offset rs i + p" using f(5) by (simp add: position_id_def unat_of_nat del: of_nat_add)
  then show at: "stands_at rs (position_id rs i p) i p" using i p by (simp add: stands_at_def)
  have "i < 2 ^ 32 - 1" using i wb_overD(1) [OF w] by (simp add: roomy_def)
  then have "state_id_for_position (from_results rs) i p = Some (position_id rs i p)"
    using i p f(5)
    by (simp add: state_id_for_position_def next_result_index_eq arena_span usize_checked_add_def usize_max_def
        next_wallbreaker_state_id_def u32_try_from_def position_id_def)
  moreover have "nth_opt (wb_id_to_state w) (unat (position_id rs i p)) = Some (wb_key i p)"
    by (rule stands_at_key [OF w at])
  ultimately show "lookup_state w (wb_key i p) = Some (position_id rs i p)"
    using f(1-3) wb_overD(2) [OF w] by (simp add: lookup_state_def)
qed

lemma expand_at:
  assumes w: "wb_over rs w" and at: "stands_at rs x i p"
  defines "t \<equiv> wr_term (rs ! i)"
  shows "wb_expand_state w x =
    (if p = length t then Expanded True (f64_of_nat (wr_distance (rs ! i))) []
     else Expanded False F64_PosInf [mk_transition x (Some (t ! p)) (Some (t ! p)) (position_id rs i (Suc p)) (F64 0)], w)"
proof -
  have i: "i < length rs" and p: "0 < p" "p \<le> length t" using at by (simp_all add: stands_at_def t_def)
  note f = fits [OF wb_overD(1) [OF w] i p(2) [unfolded t_def]]
  have key: "nth_opt (wb_id_to_state w) (unat x) = Some (wb_key i p)" by (rule stands_at_key [OF w at])
  have weight: "nth_opt (wb_final_weights w) i = Some (Some (f64_of_nat (wr_distance (rs ! i))))"
    using wb_overD(4) [OF w i] .
  have result: "compute_result_state w x (wb_key i p) =
      (if p = length t then (True, f64_of_nat (wr_distance (rs ! i)), [])
       else (False, F64_PosInf,
         [mk_transition x (Some (t ! p)) (Some (t ! p)) (position_id rs i (Suc p)) (F64 0)]))"
  proof (cases "p = length t")
    case True
    then show ?thesis
      using i f weight by (simp add: compute_result_state_def wb_overD(2) [OF w] arena_term_len arena_char_at t_def)
  next
    case False
    then have lt: "p < length t" using p(2) by simp
    have "usize_sat_add p 1 = Suc p" using f(4) by (simp add: usize_sat_add_def usize_max_def)
    moreover have "Suc p < 2 ^ 32" using fits(4) [OF wb_overD(1) [OF w] i, of "Suc p"] lt by (simp add: t_def)
    ultimately have "next_wallbreaker_char_position (usize_sat_add p 1) = Some (of_nat (Suc p))"
      by (simp add: next_wallbreaker_char_position_def u32_try_from_def)
    moreover have "lookup_state w (wb_key i (Suc p)) = Some (position_id rs i (Suc p))"
      using lookup_state_at(1) [OF w i, of "Suc p"] lt by (simp add: t_def)
    ultimately show ?thesis
      using i f weight lt False
      by (simp add: compute_result_state_def wb_overD(2) [OF w] arena_term_len arena_char_at t_def del: of_nat_Suc)
  qed
  show ?thesis
    unfolding wb_expand_state_def usize_from_u32_eq key using f(3)
    by (simp add: wb_compute_def result final_state_def non_final_def tropical_zero_def)
qed

lemma expand_start:
  assumes w: "wb_over rs w"
  shows "\<exists>f fw ts. wb_expand_state w 0 = (Expanded f fw ts, w) \<and>
    (t \<in> set ts \<longleftrightarrow> (\<exists>i < length rs. wr_term (rs ! i) \<noteq> [] \<and>
       t = mk_transition 0 (Some (hd (wr_term (rs ! i)))) (Some (hd (wr_term (rs ! i)))) (position_id rs i 1) (F64 0)))"
proof -
  have arc: "super_start_arc w i = (if wr_term (rs ! i) = [] then None else
      Some (mk_transition 0 (Some (hd (wr_term (rs ! i)))) (Some (hd (wr_term (rs ! i)))) (position_id rs i 1) (F64 0)))"
    if i: "i < length rs" for i
  proof (cases "wr_term (rs ! i) = []")
    case False
    have "next_wallbreaker_result_index i = Some (of_nat i)"
      using i wb_overD(1) [OF w] by (simp add: next_result_index_eq roomy_def)
    moreover have "lookup_state w (wb_key i 1) = Some (position_id rs i 1)"
      using False i by (intro lookup_state_at [OF w]) (simp_all add: Suc_le_eq)
    ultimately show ?thesis
      using False i
      by (simp add: super_start_arc_def first_char_def wb_overD(2) [OF w] arena_char_at hd_conv_nth)
  qed (simp add: super_start_arc_def first_char_def wb_overD(2) [OF w] arena_char_at)
  let ?ts = "List.map_filter (super_start_arc w) [0..<length rs]"
  have "t \<in> set ?ts \<longleftrightarrow> (\<exists>i < length rs. super_start_arc w i = Some t)"
    by (force simp: List.map_filter_def image_iff)
  then have mem: "t \<in> set ?ts \<longleftrightarrow> (\<exists>i < length rs. wr_term (rs ! i) \<noteq> [] \<and>
       t = mk_transition 0 (Some (hd (wr_term (rs ! i)))) (Some (hd (wr_term (rs ! i)))) (position_id rs i 1) (F64 0))"
    using arc by (metis option.distinct(1) option.inject)
  have "\<exists>f fw. wb_expand_state w 0 = (Expanded f fw ?ts, w)"
    unfolding wb_expand_state_def usize_from_u32_eq start_key [OF w]
    by (cases "wb_empty_final_weight w")
      (auto simp: wb_compute_def compute_super_start_transitions_def wb_overD(2) [OF w] arena_len final_state_def non_final_def)
  then show ?thesis using mem by blast
qed

section \<open>Runs\<close>

inductive wb_run :: "wallbreaker_wfst \<Rightarrow> state_id \<Rightarrow> uchar list \<Rightarrow> uchar list \<Rightarrow> rat \<Rightarrow> state_id \<Rightarrow> bool" for w where
  wb_stay: "wb_run w x [] [] 0 x"
| wb_move: "wb_expand_state w x = (Expanded f fw ts, w') \<Longrightarrow> t \<in> set ts \<Longrightarrow> t_weight t = F64 r \<Longrightarrow>
    wb_run w (t_to t) ins outs c y \<Longrightarrow>
    wb_run w x (label_word (t_input t) @ ins) (label_word (t_output t) @ outs) (r + c) y"

lemma wb_run_within:
  "wb_run w x ins outs c y \<Longrightarrow> wb_over rs w \<Longrightarrow> stands_at rs x i p \<Longrightarrow>
     outs = ins \<and> c = 0 \<and> (\<exists>q \<ge> p. stands_at rs y i q \<and> take q (wr_term (rs ! i)) = take p (wr_term (rs ! i)) @ ins)"
proof (induction arbitrary: p rule: wb_run.induct)
  case (wb_move x f fw ts w' t r ins outs c y)
  let ?t = "wr_term (rs ! i)"
  have i: "i < length rs" and p: "0 < p" "p \<le> length ?t" using wb_move.prems(2) by (simp_all add: stands_at_def)
  have neq: "p \<noteq> length ?t"
    using expand_at [OF wb_move.prems] wb_move.hyps(1,2) by auto
  then have lt: "p < length ?t" using p(2) by simp
  have t: "t = mk_transition x (Some (?t ! p)) (Some (?t ! p)) (position_id rs i (Suc p)) (F64 0)"
    using expand_at [OF wb_move.prems] wb_move.hyps(1,2) neq by auto
  then have "stands_at rs (t_to t) i (Suc p)"
    using lookup_state_at(2) [OF wb_move.prems(1) i, of "Suc p"] lt by simp
  from wb_move.IH [OF wb_move.prems(1) this] obtain q where q: "outs = ins" "c = 0" "q \<ge> Suc p" "stands_at rs y i q"
    "take q ?t = take (Suc p) ?t @ ins" by blast
  then show ?case
    using t lt wb_move.hyps(3) by (intro conjI exI [of _ q]) (simp_all add: take_Suc_conv_app_nth)
qed auto

lemma wb_run_rest:
  assumes w: "wb_over rs w"
  shows "stands_at rs x i p \<Longrightarrow>
    \<exists>y. wb_run w x (drop p (wr_term (rs ! i))) (drop p (wr_term (rs ! i))) 0 y \<and> stands_at rs y i (length (wr_term (rs ! i)))"
proof (induction "length (wr_term (rs ! i)) - p" arbitrary: x p)
  case 0
  then show ?case using wb_stay [of w x] by (auto simp: stands_at_def)
next
  case (Suc m)
  let ?t = "wr_term (rs ! i)" and ?y = "position_id rs i (Suc p)"
  have lt: "p < length ?t" and i: "i < length rs" using Suc.hyps(2) Suc.prems by (simp_all add: stands_at_def)
  have next_state: "stands_at rs ?y i (Suc p)" using lookup_state_at(2) [OF w i, of "Suc p"] lt by simp
  obtain y where y: "wb_run w ?y (drop (Suc p) ?t) (drop (Suc p) ?t) 0 y" "stands_at rs y i (length ?t)"
    using Suc.hyps(1) [OF _ next_state] Suc.hyps(2) by (metis Suc_diff_Suc diff_Suc_1 lt)
  have e: "wb_expand_state w x = (Expanded False F64_PosInf [mk_transition x (Some (?t ! p)) (Some (?t ! p)) ?y (F64 0)], w)"
    using expand_at [OF w Suc.prems] lt by simp
  have "wb_run w x (label_word (Some (?t ! p)) @ drop (Suc p) ?t) (label_word (Some (?t ! p)) @ drop (Suc p) ?t) (0 + 0) y"
    using wb_move [OF e, of "mk_transition x (Some (?t ! p)) (Some (?t ! p)) ?y (F64 0)" 0] y(1) by simp
  then show ?case using y(2) lt by (auto simp: Cons_nth_drop_Suc)
qed

lemma wb_run_from_start:
  assumes w: "wb_over rs w" and run: "wb_run w 0 ins outs c y"
  shows "outs = ins \<and> c = 0 \<and> (ins = [] \<and> y = 0 \<or> (\<exists>i q. stands_at rs y i q \<and> take q (wr_term (rs ! i)) = ins))"
  using run
proof cases
  case wb_stay
  then show ?thesis by simp
next
  case (wb_move f fw ts w' t r ins' outs' c')
  obtain i where i: "i < length rs" "wr_term (rs ! i) \<noteq> []"
    and t: "t = mk_transition 0 (Some (hd (wr_term (rs ! i)))) (Some (hd (wr_term (rs ! i)))) (position_id rs i 1) (F64 0)"
    using expand_start [OF w, of t] wb_move(4,5) by auto
  have "stands_at rs (t_to t) i 1" using lookup_state_at(2) [OF w i(1), of 1] i(2) t by (simp add: Suc_le_eq)
  from wb_run_within [OF wb_move(7) w this] obtain q where
    "outs' = ins'" "c' = 0" "stands_at rs y i q" "take q (wr_term (rs ! i)) = take 1 (wr_term (rs ! i)) @ ins'" by blast
  moreover have "take 1 (wr_term (rs ! i)) = [hd (wr_term (rs ! i))]" using i(2) by (cases "wr_term (rs ! i)") simp_all
  ultimately show ?thesis using wb_move(1-3,6) t by auto
qed

lemma wb_run_term:
  assumes w: "wb_over rs w" and i: "i < length rs" "wr_term (rs ! i) \<noteq> []"
  shows "\<exists>y. wb_run w 0 (wr_term (rs ! i)) (wr_term (rs ! i)) 0 y \<and> stands_at rs y i (length (wr_term (rs ! i)))"
proof -
  let ?t = "wr_term (rs ! i)"
  let ?arc = "mk_transition 0 (Some (hd ?t)) (Some (hd ?t)) (position_id rs i 1) (F64 0)"
  have "stands_at rs (position_id rs i 1) i 1"
    using lookup_state_at(2) [OF w i(1), of 1] i(2) by (simp add: Suc_le_eq)
  from wb_run_rest [OF w this] obtain y where
    y: "wb_run w (position_id rs i 1) (drop 1 ?t) (drop 1 ?t) 0 y" "stands_at rs y i (length ?t)" by blast
  obtain f fw ts where "wb_expand_state w 0 = (Expanded f fw ts, w)" "?arc \<in> set ts"
    using expand_start [OF w, of ?arc] i by blast
  from wb_move [OF this, of 0 "drop 1 ?t" "drop 1 ?t" 0 y] y(1)
  have "wb_run w 0 (hd ?t # drop 1 ?t) (hd ?t # drop 1 ?t) 0 y" by simp
  moreover have "hd ?t # drop 1 ?t = ?t" using i(2) by (cases ?t) simp_all
  ultimately show ?thesis using y(2) by auto
qed

text \<open>Final weights: at the end of a term its distance, at the start the empty term's.\<close>

lemma final_weight_stands:
  assumes w: "wb_over rs w" and at: "stands_at rs x i p"
  shows "wb_final_weight_for_state w x =
    (if p = length (wr_term (rs ! i)) then Some (f64_of_nat (wr_distance (rs ! i))) else None)"
proof -
  have i: "i < length rs" and p: "0 < p" "p \<le> length (wr_term (rs ! i))" using at by (simp_all add: stands_at_def)
  note f = fits [OF wb_overD(1) [OF w] i p(2)]
  show ?thesis
    unfolding wb_final_weight_for_state_def usize_from_u32_eq stands_at_key [OF w at]
    using f p i wb_overD(4) [OF w i] by (auto simp: wb_overD(2) [OF w] arena_term_len)
qed

lemma empty_weight_of:
  assumes "distinct (map wr_term rs)" and "\<forall>r \<in> set rs. usable maxd (wr_distance r)"
  shows "empty_wallbreaker_result_final_weight rs maxd = Some fw \<longleftrightarrow>
    (\<exists>r \<in> set rs. wr_term r = [] \<and> fw = f64_of_nat (wr_distance r))"
proof -
  let ?es = "List.filter (\<lambda>r. wr_term r = [] \<and> wr_distance r \<le> maxd) rs"
  have es: "?es = List.filter (\<lambda>r. wr_term r = []) rs"
    using assms(2) by (intro filter_cong) (auto simp: usable_def)
  have "distinct (map wr_term ?es)" using assms(1) distinct_map_filter by blast
  then have small: "?es = [] \<or> (\<exists>r. ?es = [r])"
  proof -
    have "\<forall>r \<in> set ?es. wr_term r = []" by simp
    then show ?thesis using \<open>distinct (map wr_term ?es)\<close> by (cases ?es rule: remdups_adj.cases) auto
  qed
  have mem: "r \<in> set ?es \<longleftrightarrow> r \<in> set rs \<and> wr_term r = []" for r unfolding es by simp
  from small show ?thesis
  proof
    assume e: "?es = []"
    then have "\<not> (\<exists>r \<in> set rs. wr_term r = [])" using mem by (metis empty_iff list.set(1))
    then show ?thesis unfolding empty_wallbreaker_result_final_weight_def e by simp
  next
    assume "\<exists>r. ?es = [r]"
    then obtain r where e: "?es = [r]" by blast
    then have r: "r' \<in> set rs \<and> wr_term r' = [] \<longleftrightarrow> r' = r" for r' using mem [of r'] by simp
    then have "distance_to_f64 (wr_distance r) = Some (f64_of_nat (wr_distance r))"
      using assms(2) usable_weight by blast
    then have "empty_wallbreaker_result_final_weight rs maxd = Some (f64_of_nat (wr_distance r))"
      unfolding empty_wallbreaker_result_final_weight_def e by simp
    then show ?thesis using r by (metis option.inject)
  qed
qed

section \<open>The accepted words\<close>

lemma normalized_terms:
  "mset (map wr_term (normalize_loop maxd rs ns ix)) \<subseteq># mset (map wr_term ns) + mset (map wr_term rs)"
proof (induction rs arbitrary: ns ix)
  case (Cons r rs)
  have same: "map wr_term (ns[i := (ns ! i)\<lparr>wr_distance := d\<rparr>]) = map wr_term ns" for i d
  proof (cases "i < length ns")
    case True
    then have "(map wr_term ns)[i := wr_term (ns ! i)] = map wr_term ns" by (metis list_update_id nth_map)
    then show ?thesis by (simp add: map_update)
  qed (simp add: list_update_beyond)
  have weaken: "A \<subseteq># B + mset (map wr_term rs) \<Longrightarrow> A \<subseteq># B + mset (map wr_term (r # rs))" for A B
    unfolding subseteq_mset_def by (simp add: le_SucI)
  show ?case
  proof (cases "wr_distance r > maxd \<or> distance_to_f64 (wr_distance r) = None")
    case True
    then have "normalize_loop maxd (r # rs) ns ix = normalize_loop maxd rs ns ix" by simp
    then show ?thesis using weaken [OF Cons.IH [of ns ix]] by (simp only:)
  next
    case use: False
    show ?thesis
    proof (cases "ix (wr_term r)")
      case None
      then have "normalize_loop maxd (r # rs) ns ix = normalize_loop maxd rs (ns @ [r]) (ix(wr_term r \<mapsto> length ns))"
        using use by (simp del: not_None_eq fun_upd_apply)
      then show ?thesis using Cons.IH [of "ns @ [r]" "ix(wr_term r \<mapsto> length ns)"] by (simp del: fun_upd_apply)
    next
      case (Some i)
      let ?ns = "if wr_distance r < wr_distance (ns ! i) then ns[i := (ns ! i)\<lparr>wr_distance := wr_distance r\<rparr>] else ns"
      have "normalize_loop maxd (r # rs) ns ix = normalize_loop maxd rs ?ns ix"
        using use Some by (simp del: not_None_eq)
      moreover have "map wr_term ?ns = map wr_term ns" using same by simp
      ultimately show ?thesis using weaken [OF Cons.IH [of ?ns ix]] by (simp only:)
    qed
  qed
qed simp

lemma offset_sum: "offset rs (length rs) = (\<Sum>t \<in># mset (map wr_term rs). length t)"
  by (simp add: offset_def length_concat comp_def multiset.map_comp flip: sum_mset_sum_list)

lemma roomy_normalized:
  assumes "roomy raw"
  shows "roomy (normalize_wallbreaker_results raw maxd)"
proof -
  let ?ns = "normalize_wallbreaker_results raw maxd"
  have sub: "mset (map wr_term ?ns) \<subseteq># mset (map wr_term raw)"
    using normalized_terms [of maxd raw "[]" Map.empty] by (simp add: normalize_wallbreaker_results_def)
  then have "length ?ns \<le> length raw" using size_mset_mono [OF sub] by simp
  moreover have "offset ?ns (length ?ns) \<le> offset raw (length raw)"
    unfolding offset_sum using sub by (metis image_mset_union le_add1 mset_subset_eq_exists_conv sum_mset.union)
  ultimately show ?thesis using assms by (simp add: roomy_def)
qed

lemma from_owned_results_over:
  assumes "roomy raw"
  shows "wb_over (normalize_wallbreaker_results raw maxd) (from_owned_results query maxd alg raw)"
proof -
  have "wr_distance r \<le> 2 ^ 53" if "r \<in> set (normalize_wallbreaker_results raw maxd)" for r
    using normalize_best [of raw maxd] that by (fastforce simp: best_distance_def usable_def)
  then show ?thesis
    using roomy_normalized [OF assms] by (simp add: wb_over_def from_owned_results_def Let_def)
qed

text \<open>
  C8: a WallBreaker WFST accepts exactly the result terms, each at its least distance. With room for
  an identifier per character, a run from the start reads \<open>ins\<close>, writes \<open>outs\<close> at cost \<open>c\<close> and
  ends with final weight \<open>fw\<close> exactly if \<open>outs = ins\<close>, the cost is 0 and \<open>fw\<close> is the least usable
  distance of \<open>ins\<close> among the results, duplicates, the empty term and results beyond the bound included.
\<close>

theorem wallbreaker_accepts_best:
  assumes "roomy raw" and "w = from_owned_results query maxd alg raw"
  shows "(\<exists>y. wb_run w 0 ins outs c y \<and> wb_final_weight_for_state w y = Some fw) \<longleftrightarrow>
    outs = ins \<and> c = 0 \<and> (\<exists>d. best_distance raw maxd ins d \<and> fw = f64_of_nat d)"
proof -
  let ?ns = "normalize_wallbreaker_results raw maxd"
  note w = from_owned_results_over [OF assms(1), of maxd query alg, folded assms(2)]
  note best = normalize_best [of raw maxd]
  have empty: "wb_final_weight_for_state w 0 = Some fw \<longleftrightarrow> (\<exists>r \<in> set ?ns. wr_term r = [] \<and> fw = f64_of_nat (wr_distance r))"
  proof -
    have "\<forall>r \<in> set ?ns. usable maxd (wr_distance r)" using best by (fastforce simp: best_distance_def)
    from empty_weight_of [OF best [THEN conjunct1] this, of fw] show ?thesis
      using start_key [OF w]
      by (simp add: wb_final_weight_for_state_def assms(2) from_owned_results_def Let_def)
  qed
  have "(\<exists>y. wb_run w 0 ins outs c y \<and> wb_final_weight_for_state w y = Some fw) \<longleftrightarrow>
      outs = ins \<and> c = 0 \<and> (\<exists>r \<in> set ?ns. wr_term r = ins \<and> fw = f64_of_nat (wr_distance r))"
  proof
    assume "\<exists>y. wb_run w 0 ins outs c y \<and> wb_final_weight_for_state w y = Some fw"
    then obtain y where y: "wb_run w 0 ins outs c y" "wb_final_weight_for_state w y = Some fw" by blast
    from wb_run_from_start [OF w y(1)] have same: "outs = ins" "c = 0" and
      end_state: "ins = [] \<and> y = 0 \<or> (\<exists>i q. stands_at ?ns y i q \<and> take q (wr_term (?ns ! i)) = ins)" by blast+
    from end_state have "\<exists>r \<in> set ?ns. wr_term r = ins \<and> fw = f64_of_nat (wr_distance r)"
    proof
      assume "ins = [] \<and> y = 0"
      then show ?thesis using y(2) empty by simp
    next
      assume "\<exists>i q. stands_at ?ns y i q \<and> take q (wr_term (?ns ! i)) = ins"
      then obtain i q where at: "stands_at ?ns y i q" "take q (wr_term (?ns ! i)) = ins" by blast
      then have "q = length (wr_term (?ns ! i))" "fw = f64_of_nat (wr_distance (?ns ! i))" "i < length ?ns"
        using final_weight_stands [OF w at(1)] y(2) by (auto simp: stands_at_def split: if_splits)
      then show ?thesis using at(2) by auto
    qed
    then show "outs = ins \<and> c = 0 \<and> (\<exists>r \<in> set ?ns. wr_term r = ins \<and> fw = f64_of_nat (wr_distance r))"
      using same by blast
  next
    assume "outs = ins \<and> c = 0 \<and> (\<exists>r \<in> set ?ns. wr_term r = ins \<and> fw = f64_of_nat (wr_distance r))"
    then obtain i where same: "outs = ins" "c = 0" and i: "i < length ?ns" "wr_term (?ns ! i) = ins"
      "fw = f64_of_nat (wr_distance (?ns ! i))" by (metis in_set_conv_nth)
    show "\<exists>y. wb_run w 0 ins outs c y \<and> wb_final_weight_for_state w y = Some fw"
    proof (cases "ins = []")
      case True
      then show ?thesis using wb_stay [of w 0] empty same i nth_mem by metis
    next
      case False
      then show ?thesis
        using wb_run_term [OF w i(1)] final_weight_stands [OF w, of _ i "length (wr_term (?ns ! i))"] i same by auto
    qed
  qed
  moreover have "(\<exists>r \<in> set ?ns. wr_term r = ins \<and> fw = f64_of_nat (wr_distance r)) \<longleftrightarrow>
      (\<exists>d. (\<exists>r \<in> set ?ns. wr_term r = ins \<and> wr_distance r = d) \<and> fw = f64_of_nat d)" by blast
  ultimately show ?thesis by (simp only: best [THEN conjunct2])
qed

theorem wallbreaker_accepts_best_witness:
  "\<exists>y. wb_run (from_owned_results [97] 2 standard [\<lparr>wr_term = [97, 98], wr_distance = 2\<rparr>, \<lparr>wr_term = [97, 98], wr_distance = 1\<rparr>])
         0 [97, 98] [97, 98] 0 y \<and>
       wb_final_weight_for_state
         (from_owned_results [97] 2 standard [\<lparr>wr_term = [97, 98], wr_distance = 2\<rparr>, \<lparr>wr_term = [97, 98], wr_distance = 1\<rparr>]) y =
         Some (f64_of_nat 1)"
proof -
  let ?raw = "[\<lparr>wr_term = [97, 98], wr_distance = 2\<rparr>, \<lparr>wr_term = [97, 98], wr_distance = 1\<rparr>] :: wb_result list"
  have room: "roomy ?raw" by (simp add: roomy_def offset_def)
  have best: "best_distance ?raw 2 [97, 98] 1" by (simp add: best_distance_def usable_def)
  show ?thesis
    using wallbreaker_accepts_best [OF room refl, of "[97]" 2 standard "[97, 98]" "[97, 98]" 0 "f64_of_nat 1"] best by blast
qed

section \<open>The cache\<close>

interpretation wb: lazy_source wb_expand_state wb_is_valid_state wb_final_weight_for_state "\<lambda>_. True" "(=)"
proof unfold_locales
  fix s s1 s2 :: wallbreaker_wfst and q :: state_id and f w ts
  have same: "snd (wb_expand_state s q) = s" for s q by (simp add: wb_expand_state_def split: option.split)
  then show "s = snd (wb_expand_state s q)" by simp
  show "wb_expand_state s q = (Expanded f w ts, s1) \<Longrightarrow> s1 = s2 \<Longrightarrow> wb_expand_state s2 q = (Expanded f w ts, s2)"
    using same [of s q] by simp
  assume "wb_is_valid_state s q" and e: "fst (wb_expand_state s q) = Expanded f w ts"
  then obtain key where key: "nth_opt (wb_id_to_state s) (unat q) = Some key" by (auto simp: wb_is_valid_state_def nth_opt_eq_Some)
  then have e: "wb_compute s q key = Expanded f w ts" using e by (simp add: wb_expand_state_def)
  show "f = (wb_final_weight_for_state s q \<noteq> None) \<and>
      w = (case wb_final_weight_for_state s q of Some w \<Rightarrow> w | None \<Rightarrow> tropical_zero)"
  proof (cases "wk_result key = super_start_result_index")
    case True
    then show ?thesis
      using e key
      by (cases "wb_empty_final_weight s")
        (auto simp: wb_compute_def wb_final_weight_for_state_def compute_super_start_transitions_def
          final_state_def non_final_def)
  next
    case False
    then show ?thesis
      using e key
      by (auto simp: wb_compute_def wb_final_weight_for_state_def compute_result_state_def Let_def final_state_def
          non_final_def tropical_zero_def not_less split: option.splits if_splits)
  qed
qed auto

lemma wb_ensure_state_eq: "wb_ensure_state x cw = ensure_cached_char_state wb_expand_state wb_is_valid_state x cw"
  by (cases cw; cases "nth_opt (wb_id_to_state (snd cw)) (unat x)")
    (simp_all add: wb_ensure_state_def ensure_cached_char_state_def wb_is_valid_state_def wb_expand_state_def
      del: nth_opt_eq_None split: prod.splits bool.splits)

text \<open>
  Caching never changes what a WallBreaker WFST answers. After any sequence of expansions and
  cache reconfigurations its own expansion protocol is the shared one, the transitions shown for a
  state are those the automaton computes (none for a state that does not exist), and finality and
  final weight do not depend on what is cached.
\<close>

theorem wallbreaker_wrapper_answers:
  "let (c, w) = wrapper_run wb_expand_state wb_is_valid_state ops (cache_new wb_max_cache_size, w0)
   in wb_ensure_state x (c, w) = ensure_cached_char_state wb_expand_state wb_is_valid_state x (c, w) \<and>
      fst (wb_transitions_lazy x (c, w)) = (case fst (wb_expand_state w x) of Expanded f fw ts \<Rightarrow> ts | _ \<Rightarrow> []) \<and>
      wb_is_final (c, w) x = (wb_final_weight_for_state w x \<noteq> None) \<and>
      wb_final_weight (c, w) x = (case wb_final_weight_for_state w x of Some fw \<Rightarrow> fw | None \<Rightarrow> tropical_zero)"
proof -
  obtain c w where r: "wrapper_run wb_expand_state wb_is_valid_state ops (cache_new wb_max_cache_size, w0) = (c, w)" by force
  have coh: "wb.coherent (c, w)"
    using wb.coherent_run [OF wb.coherent_new [of wb_max_cache_size w0], of ops] r by simp
  have "(case fst (wb_expand_state w x) of Expanded f fw ts \<Rightarrow> ts | _ \<Rightarrow> []) =
      (if wb_is_valid_state w x then case fst (wb_expand_state w x) of Expanded f w ts \<Rightarrow> ts | _ \<Rightarrow>
         wrapper_transitions (snd (ensure_cached_char_state wb_expand_state wb_is_valid_state x (c, w))) x else [])"
    by (auto simp: wb_expand_state_def wb_is_valid_state_def wb_compute_def final_state_def non_final_def
        nth_opt_eq_Some nth_opt_def split: option.splits prod.splits)
  then show ?thesis
    using r wb.transitions_lazy [OF coh, of x] wb.wrapper_finality [OF coh, of x] wb_ensure_state_eq [of x "(c, w)"]
    by (auto simp: wb_transitions_lazy_def wb_transitions_def wrapper_transitions_lazy_def wb_is_final_def
        wb_final_weight_def split: prod.splits)
qed

end
