(* ===== verification/Generalized_Ops.thy ===== *)
theory Generalized_Ops
  imports State_Encoding Interning
begin

text \<open>
  \<open>src/generalized_limits.rs\<close> and \<open>src/generalized_ops.rs\<close>: the resource limits and errors of the
  generalized WFST, UTF-8 text as far as the crate reads it, and the preparation of operations:
  filtering by the budget, deduplication, and compact slots for operation widths. Operation sets and
  exact cost scales belong to \<open>liblevenshtein\<close>: an operation is what its accessors return, a scale
  is a parameter, and the errors of both are their messages.
\<close>

section \<open>Limits and errors\<close>

datatype gen_resource =
    QueryBytes | QueryScalars | OperationSourceScalars | OperationQueryScalars
  | RetainedDictionaryNodes | RetainedWfstStates | PathsPerExpansion | WorkUnitsPerExpansion

fun resource_name :: "gen_resource \<Rightarrow> string" where
  "resource_name QueryBytes = ''query bytes''"
| "resource_name QueryScalars = ''query scalars''"
| "resource_name OperationSourceScalars = ''operation source scalars''"
| "resource_name OperationQueryScalars = ''operation query scalars''"
| "resource_name RetainedDictionaryNodes = ''retained dictionary nodes''"
| "resource_name RetainedWfstStates = ''retained WFST states''"
| "resource_name PathsPerExpansion = ''paths per expansion''"
| "resource_name WorkUnitsPerExpansion = ''work units per expansion''"

record gen_limits =
  max_query_bytes :: usize
  max_query_scalars :: usize
  max_operation_source_scalars :: usize
  max_operation_query_scalars :: usize
  max_retained_dictionary_nodes :: usize
  max_retained_wfst_states :: usize
  max_paths_per_expansion :: usize
  max_work_units_per_expansion :: usize

definition gen_limits_default :: gen_limits where
  "gen_limits_default =
     \<lparr>max_query_bytes = 1048576, max_query_scalars = 262144,
      max_operation_source_scalars = 4096, max_operation_query_scalars = 4096,
      max_retained_dictionary_nodes = 1000000, max_retained_wfst_states = 1000000,
      max_paths_per_expansion = 262144, max_work_units_per_expansion = 4000000\<rparr>"

datatype gen_error =
    MissingQuery
  | InvalidOperations string
  | CostScaleError string
  | LimitExceeded gen_resource usize usize
  | ArithmeticOverflow string
  | AllocationFailed string

definition gen_limit :: "gen_resource \<Rightarrow> usize \<Rightarrow> usize \<Rightarrow> gen_error" where
  "gen_limit resource limit required = LimitExceeded resource limit required"

text \<open>Numbers as the formatter writes them.\<close>

fun show_nat :: "nat \<Rightarrow> string" where
  "show_nat n = (if n < 10 then [char_of (48 + n)] else show_nat (n div 10) @ [char_of (48 + n mod 10)])"

declare show_nat.simps [simp del]

fun gen_error_message :: "gen_error \<Rightarrow> string" where
  "gen_error_message MissingQuery = ''Query not set''"
| "gen_error_message (InvalidOperations e) = ''invalid operation set: '' @ e"
| "gen_error_message (CostScaleError e) = ''invalid exact cost scale: '' @ e"
| "gen_error_message (LimitExceeded resource limit required) =
     resource_name resource @ '' limit exceeded: requires '' @ show_nat required @
     '', configured limit is '' @ show_nat limit"
| "gen_error_message (ArithmeticOverflow context) = ''generalized WFST arithmetic overflow while '' @ context"
| "gen_error_message (AllocationFailed context) = ''generalized WFST allocation failed while '' @ context"

definition require_at_most :: "gen_resource \<Rightarrow> usize \<Rightarrow> usize \<Rightarrow> gen_error + unit" where
  "require_at_most resource required limit =
     (if required \<le> limit then Inr () else Inl (LimitExceeded resource limit required))"

section \<open>UTF-8 text\<close>

text \<open>A string is the list of its characters; byte positions count their encodings.\<close>

definition utf8_len :: "uchar \<Rightarrow> usize" where
  "utf8_len c = (if c < 0x80 then 1 else if c < 0x800 then 2 else if c < 0x10000 then 3 else 4)"

definition utf8_encode :: "uchar \<Rightarrow> nat list" where
  "utf8_encode c =
     (if c < 0x80 then [c]
      else if c < 0x800 then [0xC0 + c div 64, 0x80 + c mod 64]
      else if c < 0x10000 then [0xE0 + c div 4096, 0x80 + c div 64 mod 64, 0x80 + c mod 64]
      else [0xF0 + c div 262144, 0x80 + c div 4096 mod 64, 0x80 + c div 64 mod 64, 0x80 + c mod 64])"

definition utf8_bytes :: "uchar list \<Rightarrow> nat list" where
  "utf8_bytes cs = concat (map utf8_encode cs)"

definition byte_len :: "uchar list \<Rightarrow> usize" where
  "byte_len cs = length (utf8_bytes cs)"

text \<open>The rest of a string from a byte position, if that is a character boundary.\<close>

fun drop_bytes :: "usize \<Rightarrow> uchar list \<Rightarrow> uchar list option" where
  "drop_bytes n [] = (if n = 0 then Some [] else None)"
| "drop_bytes n (c # cs) =
     (if n = 0 then Some (c # cs) else if utf8_len c \<le> n then drop_bytes (n - utf8_len c) cs else None)"

definition is_char_boundary :: "uchar list \<Rightarrow> usize \<Rightarrow> bool" where
  "is_char_boundary str n \<longleftrightarrow> drop_bytes n str \<noteq> None"

text \<open>The loop over \<open>char_indices\<close>: the end of the first \<open>k\<close> characters.\<close>

fun segment_end :: "usize \<Rightarrow> usize \<Rightarrow> uchar list \<Rightarrow> nat \<Rightarrow> usize \<Rightarrow> usize option" where
  "segment_end start off cs 0 e = Some e"
| "segment_end start off [] (Suc k) e = None"
| "segment_end start off (c # cs) (Suc k) e =
     (case Option.bind (usize_checked_add off (utf8_len c)) (usize_checked_add start) of
        None \<Rightarrow> None
      | Some e' \<Rightarrow> segment_end start (off + utf8_len c) cs k e')"

definition str_segment_by_char_width :: "uchar list \<Rightarrow> usize \<Rightarrow> usize \<Rightarrow> (uchar list \<times> usize) option" where
  "str_segment_by_char_width input start char_len =
     (if start > byte_len input \<or> \<not> is_char_boundary input start then None
      else case drop_bytes start input of
             None \<Rightarrow> None
           | Some rest \<Rightarrow>
               (case segment_end start 0 rest char_len start of
                  None \<Rightarrow> None
                | Some e \<Rightarrow> Some (take char_len rest, e)))"

section \<open>Operations\<close>

datatype applicability =
    AnyPair
  | EqualPair
  | AdjacentTranspose
  | ListedPairs "(nat list \<times> nat list) set"

record operation =
  consume_x :: usize
  consume_y :: usize
  op_weight :: f64
  op_applicability :: applicability

record prepared_operation =
  po_index :: usize
  po_consume_x :: usize
  po_consume_y :: usize
  po_source_slot :: usize
  po_query_slot :: usize
  po_scaled_weight :: usize
  po_weight :: f64

text \<open>What the crate uses of \<open>CostScale\<close>.\<close>

record cost_scale =
  to_scaled :: "f64 \<Rightarrow> string + usize"
  scale_budget :: "nat \<Rightarrow> string + usize"

definition f64_eq :: "f64 \<Rightarrow> f64 \<Rightarrow> bool" where
  "f64_eq a b \<longleftrightarrow> a \<noteq> F64_NaN \<and> a = b"

definition operations_have_same_wfst_semantics :: "operation \<Rightarrow> operation \<Rightarrow> bool" where
  "operations_have_same_wfst_semantics l r \<longleftrightarrow>
     consume_x l = consume_x r \<and> consume_y l = consume_y r \<and> f64_eq (op_weight l) (op_weight r) \<and>
     op_applicability l = op_applicability r"

definition contains_operation_with_same_wfst_semantics :: "operation list \<Rightarrow> operation \<Rightarrow> bool" where
  "contains_operation_with_same_wfst_semantics ops candidate \<longleftrightarrow>
     list_ex (\<lambda>op. operations_have_same_wfst_semantics op candidate) ops"

fun scale_all :: "cost_scale \<Rightarrow> operation list \<Rightarrow> string + usize list" where
  "scale_all scale [] = Inr []"
| "scale_all scale (op # ops) =
     (case to_scaled scale (op_weight op) of
        Inl e \<Rightarrow> Inl e
      | Inr n \<Rightarrow> (case scale_all scale ops of Inl e \<Rightarrow> Inl e | Inr ns \<Rightarrow> Inr (n # ns)))"

definition keep_bounded :: "usize \<Rightarrow> operation list \<Rightarrow> operation \<times> usize \<Rightarrow> operation list" where
  "keep_bounded max_cost bounded = (\<lambda>(op, scaled).
     if scaled \<le> max_cost \<and> \<not> contains_operation_with_same_wfst_semantics bounded op
     then bounded @ [op] else bounded)"

definition bounded_operation_set :: "cost_scale \<Rightarrow> usize \<Rightarrow> operation list \<Rightarrow> string + operation list" where
  "bounded_operation_set scale max_cost ops =
     (case scale_all scale ops of
        Inl e \<Rightarrow> Inl e
      | Inr ns \<Rightarrow> Inr (foldl (keep_bounded max_cost) [] (zip ops ns)))"

text \<open>
  \<open>prepare_operations\<close>: a table per side maps a width to its slot (\<open>usize::MAX\<close> for none yet);
  slots are handed out in the order of first use.
\<close>

definition max_width :: "(operation \<Rightarrow> usize) \<Rightarrow> operation list \<Rightarrow> usize" where
  "max_width width ops = foldl max 0 (map width ops)"

definition assign_slot :: "usize \<Rightarrow> usize list \<times> usize \<Rightarrow> usize \<times> usize list \<times> usize" where
  "assign_slot width = (\<lambda>(slots, count).
     if slots ! width = usize_max then (count, slots[width := count], count + 1)
     else (slots ! width, slots, count))"

fun prepare_loop ::
    "cost_scale \<Rightarrow> usize \<Rightarrow> operation list \<Rightarrow> usize list \<times> usize \<Rightarrow> usize list \<times> usize \<Rightarrow> prepared_operation list
     \<Rightarrow> string + prepared_operation list" where
  "prepare_loop scale i [] source query prepared = Inr prepared"
| "prepare_loop scale i (op # ops) source query prepared =
     (case assign_slot (consume_x op) source of
        (xslot, source') \<Rightarrow>
          (case assign_slot (consume_y op) query of
             (yslot, query') \<Rightarrow>
               (case to_scaled scale (op_weight op) of
                  Inl e \<Rightarrow> Inl e
                | Inr n \<Rightarrow>
                    prepare_loop scale (Suc i) ops source' query'
                      (prepared @ [\<lparr>po_index = i, po_consume_x = consume_x op, po_consume_y = consume_y op,
                         po_source_slot = xslot, po_query_slot = yslot, po_scaled_weight = n,
                         po_weight = op_weight op\<rparr>]))))"

definition prepare_operations :: "operation list \<Rightarrow> cost_scale \<Rightarrow> string + prepared_operation list" where
  "prepare_operations ops scale =
     prepare_loop scale 0 ops
       (replicate (max_width consume_x ops + 1) usize_max, 0) (replicate (max_width consume_y ops + 1) usize_max, 0) []"

definition operation_applies :: "operation \<Rightarrow> uchar list \<Rightarrow> nat list \<Rightarrow> uchar list \<Rightarrow> nat list \<Rightarrow> bool" where
  "operation_applies op dict_chars dict_bytes query_chars query_bytes =
     (case op_applicability op of
        AdjacentTranspose \<Rightarrow>
          length dict_chars = 2 \<and> length query_chars = 2 \<and>
          dict_chars ! 0 = query_chars ! 1 \<and> dict_chars ! 1 = query_chars ! 0
      | AnyPair \<Rightarrow> True
      | EqualPair \<Rightarrow> dict_chars = query_chars
      | ListedPairs pairs \<Rightarrow> (dict_bytes, query_bytes) \<in> pairs)"

section \<open>Text segments\<close>

lemma length_utf8_encode [simp]: "length (utf8_encode c) = utf8_len c"
  by (simp add: utf8_encode_def utf8_len_def)

lemma utf8_len_pos [simp]: "0 < utf8_len c"
  by (simp add: utf8_len_def)

lemma byte_len_simps [simp]: "byte_len [] = 0" "byte_len (c # cs) = utf8_len c + byte_len cs"
  "byte_len (xs @ ys) = byte_len xs + byte_len ys"
  by (simp_all add: byte_len_def utf8_bytes_def)

lemma drop_bytes_byte_len [simp]: "drop_bytes (byte_len xs) (xs @ ys) = Some ys"
proof (induction xs)
  case Nil
  then show ?case by (cases ys) simp_all
qed simp

lemma drop_bytes_eq_Some: "drop_bytes n str = Some rest \<longleftrightarrow> (\<exists>pre. str = pre @ rest \<and> n = byte_len pre)"
proof
  show "drop_bytes n str = Some rest \<Longrightarrow> \<exists>pre. str = pre @ rest \<and> n = byte_len pre"
  proof (induction n str rule: drop_bytes.induct)
    case (2 n c cs)
    show ?case
    proof (cases "n = 0")
      case True
      then have "c # cs = [] @ rest \<and> n = byte_len []" using 2 by simp
      then show ?thesis by blast
    next
      case False
      then have "utf8_len c \<le> n" "drop_bytes (n - utf8_len c) cs = Some rest" using 2 by (simp_all split: if_splits)
      then obtain pre where "cs = pre @ rest" "n - utf8_len c = byte_len pre" using 2 False by blast
      then have "c # cs = (c # pre) @ rest \<and> n = byte_len (c # pre)" using \<open>utf8_len c \<le> n\<close> by simp
      then show ?thesis by blast
    qed
  qed (simp split: if_splits)
qed auto

lemma segment_end_eq:
  "start + off + byte_len cs \<le> usize_max \<Longrightarrow>
     segment_end start off cs k e =
       (if k \<le> length cs then Some (if k = 0 then e else start + off + byte_len (take k cs)) else None)"
proof (induction start off cs k e rule: segment_end.induct)
  case (3 start off c cs k e)
  have "Option.bind (usize_checked_add off (utf8_len c)) (usize_checked_add start) = Some (start + (off + utf8_len c))"
    using 3(2) by (simp add: usize_checked_add_def)
  then show ?case using 3 by simp
qed simp_all

text \<open>Every Rust string is shorter than the address space.\<close>

definition text_fits :: "uchar list \<Rightarrow> bool" where
  "text_fits str \<longleftrightarrow> byte_len str \<le> usize_max"

lemma str_segment_eq_Some:
  assumes "text_fits str"
  shows "str_segment_by_char_width str start k = Some (seg, e) \<longleftrightarrow>
    (\<exists>pre rest. str = pre @ seg @ rest \<and> start = byte_len pre \<and> length seg = k \<and> e = start + byte_len seg)"
proof (cases "drop_bytes start str")
  case None
  then have "\<nexists>pre rest. str = pre @ rest \<and> start = byte_len pre" by (metis drop_bytes_byte_len option.distinct(1))
  then show ?thesis using None by (auto simp: str_segment_by_char_width_def is_char_boundary_def)
next
  case (Some rest)
  then obtain pre where pre: "str = pre @ rest" "start = byte_len pre" unfolding drop_bytes_eq_Some by blast
  have unique: "pre' = pre \<and> rest' = rest" if "str = pre' @ rest'" "start = byte_len pre'" for pre' rest'
  proof -
    have "drop_bytes start str = Some rest'" using that by simp
    then show ?thesis using Some pre that by simp
  qed
  have "segment_end start 0 rest k start = (if k \<le> length rest then Some (start + byte_len (take k rest)) else None)"
    using assms pre segment_end_eq [of start 0 rest k start] by (cases k) (simp_all add: text_fits_def)
  then have eq: "str_segment_by_char_width str start k =
      (if k \<le> length rest then Some (take k rest, start + byte_len (take k rest)) else None)"
    using Some pre by (simp add: str_segment_by_char_width_def is_char_boundary_def)
  show ?thesis
  proof
    assume "str_segment_by_char_width str start k = Some (seg, e)"
    then have "k \<le> length rest" "seg = take k rest" "e = start + byte_len seg" by (auto simp: eq split: if_splits)
    moreover have "str = pre @ take k rest @ drop k rest" using pre by simp
    ultimately show "\<exists>pre rest. str = pre @ seg @ rest \<and> start = byte_len pre \<and> length seg = k \<and> e = start + byte_len seg"
      using pre(2) by (metis length_take min.absorb2)
  next
    assume "\<exists>pre rest. str = pre @ seg @ rest \<and> start = byte_len pre \<and> length seg = k \<and> e = start + byte_len seg"
    then obtain pre' rest' where "str = pre' @ (seg @ rest')" "start = byte_len pre'" "length seg = k" "e = start + byte_len seg"
      by blast
    moreover from this have "rest = seg @ rest'" using unique by blast
    ultimately show "str_segment_by_char_width str start k = Some (seg, e)" unfolding eq by simp
  qed
qed

section \<open>Slots\<close>

text \<open>The table after the widths \<open>ws\<close>: the widths seen have distinct slots, numbered from 0.\<close>

definition slots_ok :: "usize list \<Rightarrow> usize list \<Rightarrow> usize \<Rightarrow> bool" where
  "slots_ok ws slots count \<longleftrightarrow> count = card (set ws) \<and>
     (\<forall>w < length slots. (slots ! w = usize_max) = (w \<notin> set ws)) \<and>
     bij_betw (\<lambda>w. slots ! w) (set ws) {0..<card (set ws)}"

lemma slots_ok_start: "slots_ok [] (replicate n usize_max) 0"
  by (simp add: slots_ok_def bij_betw_def)

lemma assign_slot_ok:
  assumes "slots_ok ws slots count" and "w < length slots" and "\<forall>v \<in> set ws. v < length slots"
    and "length ws < usize_max" and "assign_slot w (slots, count) = (i, slots', count')"
  shows "slots_ok (ws @ [w]) slots' count'" and "slots' ! w = i" and "length slots' = length slots"
    and "\<forall>v \<in> set ws. slots' ! v = slots ! v"
proof -
  have bij: "bij_betw (\<lambda>w. slots ! w) (set ws) {0..<count}" and c: "count = card (set ws)"
    using assms(1) by (simp_all add: slots_ok_def)
  have small: "count < usize_max" using c card_length [of ws] assms(4) by linarith
  have "slots_ok (ws @ [w]) slots' count' \<and> slots' ! w = i \<and> length slots' = length slots \<and> (\<forall>v \<in> set ws. slots' ! v = slots ! v)"
  proof (cases "w \<in> set ws")
    case True
    then have "slots' = slots" "count' = count" "slots ! w = i"
      using assms(1,2,5) by (auto simp: assign_slot_def slots_ok_def)
    moreover have "set (ws @ [w]) = set ws" using True by auto
    ultimately show ?thesis using assms(1) unfolding slots_ok_def by simp
  next
    case False
    then have n: "slots' = slots[w := count]" "count' = count + 1" "i = count"
      using assms(1,2,5) by (auto simp: assign_slot_def slots_ok_def)
    have same: "slots' ! v = slots ! v" if "v \<in> set ws" for v
      using that False n(1) by (metis nth_list_update_neq)
    have "bij_betw (\<lambda>v. slots' ! v) (set ws) {0..<count}" using bij same by (simp cong: bij_betw_cong)
    moreover have "slots' ! w = count" using n(1) assms(2) by simp
    ultimately have "bij_betw (\<lambda>v. slots' ! v) (set ws \<union> {w}) ({0..<count} \<union> {slots' ! w})"
      using False by (intro notIn_Un_bij_betw) simp_all
    then have "bij_betw (\<lambda>v. slots' ! v) (insert w (set ws)) (insert count {0..<count})"
      using \<open>slots' ! w = count\<close> by simp
    moreover have "insert count {0..<count} = {0..<count'}" using n(2) by auto
    moreover have "(slots' ! v = usize_max) = (v \<notin> set (ws @ [w]))" if "v < length slots'" for v
      using that n(1) small assms(1) by (cases "v = w") (auto simp: slots_ok_def)
    ultimately show ?thesis using n c False assms(2) same by (simp add: slots_ok_def)
  qed
  then show "slots_ok (ws @ [w]) slots' count'" and "slots' ! w = i" and "length slots' = length slots"
    and "\<forall>v \<in> set ws. slots' ! v = slots ! v" by blast+
qed

text \<open>The prepared operation of an operation, given the two final tables.\<close>

definition prepared_from :: "cost_scale \<Rightarrow> usize list \<Rightarrow> usize list \<Rightarrow> nat \<Rightarrow> operation \<Rightarrow> prepared_operation \<Rightarrow> bool" where
  "prepared_from scale xs ys i op p \<longleftrightarrow>
     po_index p = i \<and> po_consume_x p = consume_x op \<and> po_consume_y p = consume_y op \<and>
     po_source_slot p = xs ! consume_x op \<and> po_query_slot p = ys ! consume_y op \<and>
     to_scaled scale (op_weight op) = Inr (po_scaled_weight p) \<and> po_weight p = op_weight op"

lemma prepared_from_cong:
  "prepared_from scale xs ys i op p \<Longrightarrow> xs' ! consume_x op = xs ! consume_x op \<Longrightarrow>
     ys' ! consume_y op = ys ! consume_y op \<Longrightarrow> prepared_from scale xs' ys' i op p"
  by (simp add: prepared_from_def)

lemma prepare_loop_ok:
  assumes "slots_ok (map consume_x before) xs nx" and "slots_ok (map consume_y before) ys ny"
    and "\<forall>op \<in> set (before @ ops). consume_x op < length xs \<and> consume_y op < length ys"
    and "length (before @ ops) < usize_max"
    and "length ps = length before" and "\<forall>i < length before. prepared_from scale xs ys i (before ! i) (ps ! i)"
    and "prepare_loop scale (length before) ops (xs, nx) (ys, ny) ps = Inr qs"
  shows "\<exists>xs' nx' ys' ny'. slots_ok (map consume_x (before @ ops)) xs' nx' \<and> slots_ok (map consume_y (before @ ops)) ys' ny' \<and>
    length qs = length (before @ ops) \<and>
    (\<forall>i < length (before @ ops). prepared_from scale xs' ys' i ((before @ ops) ! i) (qs ! i))"
  using assms
proof (induction ops arbitrary: before xs nx ys ny ps)
  case Nil
  then show ?case by auto
next
  case (Cons op ops)
  obtain xslot xs1 nx1 where x: "assign_slot (consume_x op) (xs, nx) = (xslot, xs1, nx1)" by (metis prod_cases3)
  obtain yslot ys1 ny1 where y: "assign_slot (consume_y op) (ys, ny) = (yslot, ys1, ny1)" by (metis prod_cases3)
  obtain n where n: "to_scaled scale (op_weight op) = Inr n"
    and rest: "prepare_loop scale (length (before @ [op])) ops (xs1, nx1) (ys1, ny1)
      (ps @ [\<lparr>po_index = length before, po_consume_x = consume_x op, po_consume_y = consume_y op,
         po_source_slot = xslot, po_query_slot = yslot, po_scaled_weight = n, po_weight = op_weight op\<rparr>]) = Inr qs"
    using Cons.prems(7) x y by (auto split: sum.splits)
  let ?p = "\<lparr>po_index = length before, po_consume_x = consume_x op, po_consume_y = consume_y op,
         po_source_slot = xslot, po_query_slot = yslot, po_scaled_weight = n, po_weight = op_weight op\<rparr>"
  note ax = assign_slot_ok [OF Cons.prems(1) _ _ _ x] and ay = assign_slot_ok [OF Cons.prems(2) _ _ _ y]
  have bx: "consume_x op < length xs" "\<forall>v \<in> set (map consume_x before). v < length xs" "length (map consume_x before) < usize_max"
    and by_: "consume_y op < length ys" "\<forall>v \<in> set (map consume_y before). v < length ys" "length (map consume_y before) < usize_max"
    using Cons.prems(3,4) by auto
  have old: "prepared_from scale xs1 ys1 i ((before @ [op]) ! i) ((ps @ [?p]) ! i)" if "i < length (before @ [op])" for i
  proof (cases "i = length before")
    case True
    then show ?thesis using ax(2) [OF bx] ay(2) [OF by_] n Cons.prems(5) by (simp add: prepared_from_def nth_append)
  next
    case False
    then have i: "i < length before" using that by simp
    then have "prepared_from scale xs ys i (before ! i) (ps ! i)" using Cons.prems(6) by blast
    then have "prepared_from scale xs1 ys1 i (before ! i) (ps ! i)"
      by (rule prepared_from_cong) (use ax(4) [OF bx] ay(4) [OF by_] i in simp_all)
    then show ?thesis using i Cons.prems(5) by (simp add: nth_append)
  qed
  have "\<exists>xs' nx' ys' ny'. slots_ok (map consume_x ((before @ [op]) @ ops)) xs' nx' \<and>
      slots_ok (map consume_y ((before @ [op]) @ ops)) ys' ny' \<and> length qs = length ((before @ [op]) @ ops) \<and>
      (\<forall>i < length ((before @ [op]) @ ops). prepared_from scale xs' ys' i (((before @ [op]) @ ops) ! i) (qs ! i))"
  proof (rule Cons.IH)
    show "slots_ok (map consume_x (before @ [op])) xs1 nx1" using ax(1) [OF bx] by simp
    show "slots_ok (map consume_y (before @ [op])) ys1 ny1" using ay(1) [OF by_] by simp
    show "\<forall>opn \<in> set ((before @ [op]) @ ops). consume_x opn < length xs1 \<and> consume_y opn < length ys1"
      using Cons.prems(3) ax(3) [OF bx] ay(3) [OF by_] by simp
    show "length ((before @ [op]) @ ops) < usize_max" using Cons.prems(4) by simp
    show "length (ps @ [?p]) = length (before @ [op])" using Cons.prems(5) by simp
    show "\<forall>i < length (before @ [op]). prepared_from scale xs1 ys1 i ((before @ [op]) ! i) ((ps @ [?p]) ! i)"
      using old by blast
    show "prepare_loop scale (length (before @ [op])) ops (xs1, nx1) (ys1, ny1) (ps @ [?p]) = Inr qs" by (rule rest)
  qed
  then show ?case by simp
qed

lemma max_width_ge: "op \<in> set ops \<Longrightarrow> width op \<le> max_width width ops"
proof -
  have "foldl max a xs \<ge> a \<and> (\<forall>x \<in> set xs. x \<le> foldl max a xs)" for a :: nat and xs
    by (induction xs arbitrary: a) (auto, (metis max.boundedE)+)
  then show "op \<in> set ops \<Longrightarrow> width op \<le> max_width width ops" by (force simp: max_width_def)
qed

lemma prepare_operations_ok:
  assumes "prepare_operations ops scale = Inr ps" and "length ops < usize_max"
  obtains xs nx ys ny where "slots_ok (map consume_x ops) xs nx" and "slots_ok (map consume_y ops) ys ny"
    and "length ps = length ops" and "\<forall>i < length ops. prepared_from scale xs ys i (ops ! i) (ps ! i)"
proof -
  let ?xs = "replicate (max_width consume_x ops + 1) usize_max" and ?ys = "replicate (max_width consume_y ops + 1) usize_max"
  have "\<forall>op \<in> set ([] @ ops). consume_x op < length ?xs \<and> consume_y op < length ?ys"
    using max_width_ge [of _ ops consume_x] max_width_ge [of _ ops consume_y] by (auto simp: less_Suc_eq_le)
  note ok = prepare_loop_ok [of "[]" ?xs 0 ?ys 0 ops "[]" scale ps, OF _ _ this]
  have "\<exists>xs' nx' ys' ny'. slots_ok (map consume_x ([] @ ops)) xs' nx' \<and> slots_ok (map consume_y ([] @ ops)) ys' ny' \<and>
      length ps = length ([] @ ops) \<and> (\<forall>i < length ([] @ ops). prepared_from scale xs' ys' i (([] @ ops) ! i) (ps ! i))"
    by (rule ok) (use slots_ok_start assms in \<open>simp_all add: prepare_operations_def del: replicate_Suc\<close>)
  then show ?thesis using that by auto
qed

text \<open>
  C40: Preparing operations numbers their widths compactly. Every operation keeps its place, widths and
  weight and gets its exact cost; on either side two operations share a slot exactly if they have the
  same width, and the slots are 0 up to the number of distinct widths.
\<close>

theorem prepare_operations_slots:
  assumes "prepare_operations ops scale = Inr ps" and "length ops < usize_max"
  shows "length ps = length ops \<and>
    (\<forall>i < length ops. po_index (ps ! i) = i \<and> po_consume_x (ps ! i) = consume_x (ops ! i) \<and>
       po_consume_y (ps ! i) = consume_y (ops ! i) \<and> po_weight (ps ! i) = op_weight (ops ! i) \<and>
       to_scaled scale (op_weight (ops ! i)) = Inr (po_scaled_weight (ps ! i))) \<and>
    (\<forall>i < length ops. \<forall>j < length ops.
       (po_source_slot (ps ! i) = po_source_slot (ps ! j)) = (consume_x (ops ! i) = consume_x (ops ! j)) \<and>
       (po_query_slot (ps ! i) = po_query_slot (ps ! j)) = (consume_y (ops ! i) = consume_y (ops ! j))) \<and>
    po_source_slot ` set ps = {0..<card (consume_x ` set ops)} \<and>
    po_query_slot ` set ps = {0..<card (consume_y ` set ops)}"
proof -
  obtain xs nx ys ny where sx: "slots_ok (map consume_x ops) xs nx" and sy: "slots_ok (map consume_y ops) ys ny"
    and len: "length ps = length ops" and p: "\<forall>i < length ops. prepared_from scale xs ys i (ops ! i) (ps ! i)"
    by (rule prepare_operations_ok [OF assms])
  have bij: "bij_betw (\<lambda>w. xs ! w) (consume_x ` set ops) {0..<card (consume_x ` set ops)}"
    "bij_betw (\<lambda>w. ys ! w) (consume_y ` set ops) {0..<card (consume_y ` set ops)}"
    using sx sy by (simp_all add: slots_ok_def)
  have slot: "po_source_slot (ps ! i) = xs ! consume_x (ops ! i)" "po_query_slot (ps ! i) = ys ! consume_y (ops ! i)"
    if "i < length ops" for i using p that by (simp_all add: prepared_from_def)
  have inj: "inj_on (\<lambda>w. xs ! w) (consume_x ` set ops)" "inj_on (\<lambda>w. ys ! w) (consume_y ` set ops)"
    using bij by (simp_all add: bij_betw_def)
  have "set ps = (\<lambda>i. ps ! i) ` {0..<length ops}" "set ops = (\<lambda>i. ops ! i) ` {0..<length ops}"
    by (metis len nth_image take_all_iff order_refl, metis nth_image take_all_iff order_refl)
  then have "po_source_slot ` set ps = (\<lambda>w. xs ! w) ` consume_x ` set ops" "po_query_slot ` set ps = (\<lambda>w. ys ! w) ` consume_y ` set ops"
    using slot by (simp_all add: image_image)
  then have images: "po_source_slot ` set ps = {0..<card (consume_x ` set ops)}" "po_query_slot ` set ps = {0..<card (consume_y ` set ops)}"
    using bij by (simp_all add: bij_betw_def)
  have same: "(po_source_slot (ps ! i) = po_source_slot (ps ! j)) = (consume_x (ops ! i) = consume_x (ops ! j))"
    "(po_query_slot (ps ! i) = po_query_slot (ps ! j)) = (consume_y (ops ! i) = consume_y (ops ! j))"
    if "i < length ops" "j < length ops" for i j
    using that slot inj_onD [OF inj(1), of "consume_x (ops ! i)" "consume_x (ops ! j)"]
      inj_onD [OF inj(2), of "consume_y (ops ! i)" "consume_y (ops ! j)"] by auto
  have "po_index (ps ! i) = i \<and> po_consume_x (ps ! i) = consume_x (ops ! i) \<and>
       po_consume_y (ps ! i) = consume_y (ops ! i) \<and> po_weight (ps ! i) = op_weight (ops ! i) \<and>
       to_scaled scale (op_weight (ops ! i)) = Inr (po_scaled_weight (ps ! i))" if "i < length ops" for i
    using p that by (simp add: prepared_from_def)
  then show ?thesis using len same images by blast
qed

definition unit_scale :: cost_scale where
  "unit_scale = \<lparr>to_scaled = (\<lambda>w. case w of F64 r \<Rightarrow> if r \<in> {0, 1} then Inr (if r = 0 then 0 else 1) else Inl ''inexact'' | _ \<Rightarrow> Inl ''not finite''),
                scale_budget = (\<lambda>n. Inr n)\<rparr>"

definition standard_operations :: "operation list" where
  "standard_operations =
     [\<lparr>consume_x = 1, consume_y = 1, op_weight = F64 0, op_applicability = EqualPair\<rparr>,
      \<lparr>consume_x = 1, consume_y = 1, op_weight = F64 1, op_applicability = AnyPair\<rparr>,
      \<lparr>consume_x = 1, consume_y = 0, op_weight = F64 1, op_applicability = AnyPair\<rparr>,
      \<lparr>consume_x = 0, consume_y = 1, op_weight = F64 1, op_applicability = AnyPair\<rparr>]"

lemma standard_prepared:
  "prepare_operations standard_operations unit_scale =
     Inr [\<lparr>po_index = 0, po_consume_x = 1, po_consume_y = 1, po_source_slot = 0, po_query_slot = 0, po_scaled_weight = 0, po_weight = F64 0\<rparr>,
          \<lparr>po_index = 1, po_consume_x = 1, po_consume_y = 1, po_source_slot = 0, po_query_slot = 0, po_scaled_weight = 1, po_weight = F64 1\<rparr>,
          \<lparr>po_index = 2, po_consume_x = 1, po_consume_y = 0, po_source_slot = 0, po_query_slot = 1, po_scaled_weight = 1, po_weight = F64 1\<rparr>,
          \<lparr>po_index = 3, po_consume_x = 0, po_consume_y = 1, po_source_slot = 1, po_query_slot = 0, po_scaled_weight = 1, po_weight = F64 1\<rparr>]"
  by (simp add: prepare_operations_def standard_operations_def max_width_def assign_slot_def unit_scale_def usize_max_def)

theorem prepare_operations_slots_witness:
  "\<exists>ps. prepare_operations standard_operations unit_scale = Inr ps \<and>
     po_source_slot ` set ps = {0..<card (consume_x ` set standard_operations)}"
proof -
  have "length standard_operations < usize_max" by (simp add: standard_operations_def usize_max_def)
  from prepare_operations_slots [OF standard_prepared this] show ?thesis using standard_prepared by blast
qed

section \<open>The bounded operation set\<close>

lemma scale_all_Inr:
  "scale_all scale ops = Inr ns \<longleftrightarrow>
     length ns = length ops \<and> (\<forall>i < length ops. to_scaled scale (op_weight (ops ! i)) = Inr (ns ! i))"
proof (induction ops arbitrary: ns)
  case (Cons op ops)
  have "scale_all scale (op # ops) = Inr ns \<longleftrightarrow>
      (\<exists>m ms. ns = m # ms \<and> to_scaled scale (op_weight op) = Inr m \<and> scale_all scale ops = Inr ms)"
    by (auto split: sum.splits)
  also have "\<dots> \<longleftrightarrow> length ns = length (op # ops) \<and>
      (\<forall>i < length (op # ops). to_scaled scale (op_weight ((op # ops) ! i)) = Inr (ns ! i))"
    by (cases ns) (auto simp: Cons.IH All_less_Suc2)
  finally show ?case .
qed auto

lemma scale_all_Inl:
  "scale_all scale ops = Inl e \<longleftrightarrow>
     (\<exists>i < length ops. to_scaled scale (op_weight (ops ! i)) = Inl e \<and>
       (\<forall>j < i. \<exists>n. to_scaled scale (op_weight (ops ! j)) = Inr n))"
proof (induction ops)
  case (Cons op ops)
  have "(\<exists>i < length (op # ops). to_scaled scale (op_weight ((op # ops) ! i)) = Inl e \<and>
       (\<forall>j < i. \<exists>n. to_scaled scale (op_weight ((op # ops) ! j)) = Inr n)) \<longleftrightarrow>
      to_scaled scale (op_weight op) = Inl e \<or> (\<exists>n. to_scaled scale (op_weight op) = Inr n) \<and>
      (\<exists>i < length ops. to_scaled scale (op_weight (ops ! i)) = Inl e \<and>
       (\<forall>j < i. \<exists>n. to_scaled scale (op_weight (ops ! j)) = Inr n))"
    by (auto simp: Ex_less_Suc2 All_less_Suc2)
  then show ?case using Cons by (auto split: sum.splits)
qed simp

lemma same_semantics_sym:
  "operations_have_same_wfst_semantics l r \<Longrightarrow> operations_have_same_wfst_semantics r l"
  by (auto simp: operations_have_same_wfst_semantics_def f64_eq_def)

lemma same_semantics_refl: "op_weight l \<noteq> F64_NaN \<Longrightarrow> operations_have_same_wfst_semantics l l"
  by (simp add: operations_have_same_wfst_semantics_def f64_eq_def)

text \<open>The operations kept: a subset, without equivalent pairs, that covers what fits the budget.\<close>

definition bounded_ok :: "usize \<Rightarrow> (operation \<times> usize) list \<Rightarrow> operation list \<Rightarrow> bool" where
  "bounded_ok max_cost done bs \<longleftrightarrow>
     set bs \<subseteq> fst ` {x \<in> set done. snd x \<le> max_cost} \<and>
     (\<forall>i < length bs. \<forall>j < i. \<not> operations_have_same_wfst_semantics (bs ! j) (bs ! i)) \<and>
     (\<forall>x \<in> set done. snd x \<le> max_cost \<longrightarrow> op_weight (fst x) \<noteq> F64_NaN \<longrightarrow>
       (\<exists>b \<in> set bs. operations_have_same_wfst_semantics b (fst x)))"

lemma bounded_ok_step:
  assumes "bounded_ok max_cost done bs"
  shows "bounded_ok max_cost (done @ [x]) (keep_bounded max_cost bs x)"
proof -
  obtain op n where x: "x = (op, n)" by force
  let ?new = "n \<le> max_cost \<and> \<not> contains_operation_with_same_wfst_semantics bs op"
  have ex: "contains_operation_with_same_wfst_semantics bs op \<longleftrightarrow> (\<exists>b \<in> set bs. operations_have_same_wfst_semantics b op)"
    by (simp add: contains_operation_with_same_wfst_semantics_def list_ex_iff)
  show ?thesis
  proof (cases ?new)
    case True
    note B = assms [unfolded bounded_ok_def]
    have keep: "keep_bounded max_cost bs x = bs @ [op]" using True by (simp add: x keep_bounded_def)
    have new: "op \<in> fst ` {y \<in> set (done @ [x]). snd y \<le> max_cost}"
      by (rule image_eqI [of _ _ x]) (use True x in simp_all)
    have "set bs \<subseteq> fst ` {y \<in> set (done @ [x]). snd y \<le> max_cost}" using B by auto
    then have sub: "set (bs @ [op]) \<subseteq> fst ` {y \<in> set (done @ [x]). snd y \<le> max_cost}" using new by simp
    have apart: "\<not> operations_have_same_wfst_semantics ((bs @ [op]) ! j) ((bs @ [op]) ! i)"
      if "i < length (bs @ [op])" "j < i" for i j
      using that B True ex by (cases "i = length bs") (simp_all add: nth_append less_Suc_eq)
    have "\<exists>b \<in> set (bs @ [op]). operations_have_same_wfst_semantics b (fst y)"
      if "y \<in> set (done @ [x])" "snd y \<le> max_cost" "op_weight (fst y) \<noteq> F64_NaN" for y
      using that B same_semantics_refl [of op] by (cases "y = x") (simp_all add: x)
    then show ?thesis unfolding bounded_ok_def keep using sub apart by blast
  next
    case False
    then show ?thesis using assms ex by (auto simp: x bounded_ok_def keep_bounded_def)
  qed
qed

lemma bounded_ok_foldl: "bounded_ok max_cost done bs \<Longrightarrow> bounded_ok max_cost (done @ xs) (foldl (keep_bounded max_cost) bs xs)"
proof (induction xs arbitrary: "done" bs)
  case (Cons x xs)
  then show ?case using Cons.IH [OF bounded_ok_step [OF Cons.prems, of x]] by simp
qed simp

lemma bounded_operation_set_spec:
  "(case bounded_operation_set scale max_cost ops of
      Inl e \<Rightarrow> \<exists>i < length ops. to_scaled scale (op_weight (ops ! i)) = Inl e \<and>
        (\<forall>j < i. \<exists>n. to_scaled scale (op_weight (ops ! j)) = Inr n)
    | Inr bs \<Rightarrow>
        (\<forall>op \<in> set ops. \<exists>n. to_scaled scale (op_weight op) = Inr n) \<and>
        (\<forall>b \<in> set bs. b \<in> set ops \<and> (\<exists>n \<le> max_cost. to_scaled scale (op_weight b) = Inr n)) \<and>
        (\<forall>i < length bs. \<forall>j < i. \<not> operations_have_same_wfst_semantics (bs ! j) (bs ! i)) \<and>
        (\<forall>op \<in> set ops. \<forall>n \<le> max_cost. to_scaled scale (op_weight op) = Inr n \<longrightarrow> op_weight op \<noteq> F64_NaN \<longrightarrow>
          (\<exists>b \<in> set bs. operations_have_same_wfst_semantics b op)))"
proof (cases "scale_all scale ops")
  case (Inl e)
  then have "bounded_operation_set scale max_cost ops = Inl e" by (simp add: bounded_operation_set_def)
  then show ?thesis using Inl by (simp add: scale_all_Inl)
next
  case (Inr ns)
  let ?bs = "foldl (keep_bounded max_cost) [] (zip ops ns)"
  have len: "length ns = length ops" and s: "\<forall>i < length ops. to_scaled scale (op_weight (ops ! i)) = Inr (ns ! i)"
    using Inr by (simp_all add: scale_all_Inr)
  have zip: "(op, n) \<in> set (zip ops ns) \<Longrightarrow> op \<in> set ops \<and> to_scaled scale (op_weight op) = Inr n" for op n
    using s len by (fastforce simp: in_set_zip)
  have zipped: "\<exists>n. (op, n) \<in> set (zip ops ns)" if "op \<in> set ops" for op
    using that len by (metis in_set_impl_in_set_zip1)
  have ok: "bounded_ok max_cost (zip ops ns) ?bs"
    using bounded_ok_foldl [of max_cost "[]" "[]" "zip ops ns"] by (simp add: bounded_ok_def)
  have all: "\<forall>op \<in> set ops. \<exists>n. to_scaled scale (op_weight op) = Inr n" using zipped zip by blast
  have sub: "\<forall>b \<in> set ?bs. b \<in> set ops \<and> (\<exists>n \<le> max_cost. to_scaled scale (op_weight b) = Inr n)"
    using ok zip unfolding bounded_ok_def by fastforce
  have cover: "\<exists>b \<in> set ?bs. operations_have_same_wfst_semantics b op"
    if op: "op \<in> set ops" "n \<le> max_cost" "to_scaled scale (op_weight op) = Inr n" "op_weight op \<noteq> F64_NaN" for op n
  proof -
    obtain m where m: "(op, m) \<in> set (zip ops ns)" using zipped op(1) by blast
    then have "m = n" using zip op(3) by fastforce
    then show ?thesis using ok m op(2,4) unfolding bounded_ok_def by fastforce
  qed
  have "bounded_operation_set scale max_cost ops = Inr ?bs" using Inr by (simp add: bounded_operation_set_def)
  then show ?thesis using all sub cover ok unfolding bounded_ok_def by simp
qed

lemma bounded_operation_set_ok:
  assumes "bounded_operation_set scale max_cost ops = Inr bs"
  shows "(\<forall>op \<in> set ops. \<exists>n. to_scaled scale (op_weight op) = Inr n) \<and> set bs \<subseteq> set ops \<and>
    (\<forall>op n. op \<in> set ops \<longrightarrow> n \<le> max_cost \<longrightarrow> to_scaled scale (op_weight op) = Inr n \<longrightarrow> op_weight op \<noteq> F64_NaN \<longrightarrow>
       (\<exists>b \<in> set bs. operations_have_same_wfst_semantics b op))"
  using bounded_operation_set_spec [where scale = scale and max_cost = max_cost and ops = ops] unfolding assms sum.case by blast

text \<open>
  Bounding an operation set drops exactly what cannot matter. The result is the error of the
  first weight without an exact scaled form, checked before any operation is dropped; otherwise it
  is a list of the given operations with cost within the budget, no two of them equivalent, such that
  every given operation within the budget has an equivalent one in it.
\<close>

theorem bounded_operations_complete:
  "(case bounded_operation_set scale max_cost ops of
      Inl e \<Rightarrow> \<exists>i < length ops. to_scaled scale (op_weight (ops ! i)) = Inl e \<and>
        (\<forall>j < i. \<exists>n. to_scaled scale (op_weight (ops ! j)) = Inr n)
    | Inr bs \<Rightarrow>
        (\<forall>op \<in> set ops. \<exists>n. to_scaled scale (op_weight op) = Inr n) \<and>
        (\<forall>b \<in> set bs. b \<in> set ops \<and> (\<exists>n \<le> max_cost. to_scaled scale (op_weight b) = Inr n)) \<and>
        (\<forall>i < length bs. \<forall>j < i. \<not> operations_have_same_wfst_semantics (bs ! j) (bs ! i)) \<and>
        (\<forall>op \<in> set ops. \<forall>n \<le> max_cost. to_scaled scale (op_weight op) = Inr n \<longrightarrow> op_weight op \<noteq> F64_NaN \<longrightarrow>
          (\<exists>b \<in> set bs. operations_have_same_wfst_semantics b op)))"
  by (rule bounded_operation_set_spec)

text \<open>On the standard operations with budget 0 only the exact match is left.\<close>

theorem bounded_operations_complete_witness:
  "\<exists>bs. bounded_operation_set unit_scale 0 standard_operations = Inr bs \<and>
     (\<exists>b \<in> set bs. operations_have_same_wfst_semantics b (hd standard_operations)) \<and> length bs = 1"
proof -
  have eq: "bounded_operation_set unit_scale 0 standard_operations = Inr [hd standard_operations]"
    by (simp add: bounded_operation_set_def standard_operations_def unit_scale_def keep_bounded_def
        contains_operation_with_same_wfst_semantics_def)
  have mem: "hd standard_operations \<in> set standard_operations" and w: "to_scaled unit_scale (op_weight (hd standard_operations)) = Inr 0"
    "op_weight (hd standard_operations) \<noteq> F64_NaN" by (simp_all add: standard_operations_def unit_scale_def)
  have "\<exists>b \<in> set [hd standard_operations]. operations_have_same_wfst_semantics b (hd standard_operations)"
    using bounded_operations_complete [where scale = unit_scale and max_cost = 0 and ops = standard_operations] mem w unfolding eq sum.case by blast
  then show ?thesis using eq by auto
qed

end
