(* ===== verification/Generalized_State.thy ===== *)
theory Generalized_State
  imports Generalized_Ops Node_Registry
begin

text \<open>
  \<open>src/generalized_state_support.rs\<close> and \<open>src/generalized_expansion.rs\<close>: the states of the
  generalized WFST and their registry, the work and path budget of one expansion, and the
  transaction-local staging that an expansion commits at its end. What the cancellation token and
  the source check answer is up to the environment: a budget carries, for every call yet to come,
  the answer it will get. Allocation never fails in the model.
\<close>

section \<open>States and their registry\<close>

record product_state =
  ps_node :: u32
  ps_query_pos :: usize
  ps_cost :: usize

record emission_chain =
  ec_input :: "uchar list"
  ec_output :: "uchar list"
  ec_target :: state_id

record emit_state =
  es_chain :: emission_chain
  es_position :: usize
  es_next :: state_id

datatype registered_state = Product product_state | Emit emit_state

record state_registry =
  sr_products :: "product_state \<rightharpoonup> state_id"
  sr_chains :: "emission_chain \<rightharpoonup> state_id"
  sr_states :: "registered_state list"

text \<open>\<open>NO_STATE\<close> is the largest identifier.\<close>

definition no_state :: state_id where
  "no_state = u32_max"

definition next_state_id :: "usize \<Rightarrow> state_id option" where
  "next_state_id n = (case u32_try_from n of None \<Rightarrow> None | Some i \<Rightarrow> if i \<noteq> no_state then Some i else None)"

definition start_product :: product_state where
  "start_product = \<lparr>ps_node = 0, ps_query_pos = 0, ps_cost = 0\<rparr>"

definition sr_new :: state_registry where
  "sr_new = \<lparr>sr_products = [start_product \<mapsto> 0], sr_chains = Map.empty, sr_states = [Product start_product]\<rparr>"

definition sr_get :: "state_registry \<Rightarrow> state_id \<Rightarrow> registered_state option" where
  "sr_get r state = nth_opt (sr_states r) (case usize_try_from_u32 state of Some n \<Rightarrow> n | None \<Rightarrow> usize_max)"

definition sr_len :: "state_registry \<Rightarrow> usize" where
  "sr_len r = length (sr_states r)"

definition sr_product_id :: "state_registry \<Rightarrow> product_state \<Rightarrow> state_id option" where
  "sr_product_id r p = sr_products r p"

definition sr_chain_id :: "state_registry \<Rightarrow> emission_chain \<Rightarrow> state_id option" where
  "sr_chain_id r c = sr_chains r c"

text \<open>\<open>commit_prepared\<close>; \<open>None\<close> is the panic of its \<open>expect\<close>.\<close>

fun sr_commit_prepared :: "registered_state list \<Rightarrow> state_registry \<Rightarrow> state_registry option" where
  "sr_commit_prepared [] r = Some r"
| "sr_commit_prepared (s # ss) r =
     (case next_state_id (sr_len r) of
        None \<Rightarrow> None
      | Some i \<Rightarrow>
          sr_commit_prepared ss
            ((case s of
                Product p \<Rightarrow> r\<lparr>sr_products := (sr_products r)(p \<mapsto> i)\<rparr>
              | Emit e \<Rightarrow> if es_position e = 1 then r\<lparr>sr_chains := (sr_chains r)(es_chain e \<mapsto> i)\<rparr> else r)
             \<lparr>sr_states := sr_states r @ [s]\<rparr>))"

datatype pending_node = Registered u32 | Staged usize

record dict_path =
  dp_target :: pending_node
  dp_output :: "uchar list"
  dp_bytes :: "nat list"

record query_segment =
  qs_chars :: "uchar list"
  qs_bytes :: "nat list"
  qs_end :: usize

definition query_segment_new :: "uchar list \<Rightarrow> usize \<Rightarrow> query_segment" where
  "query_segment_new segment end_pos =
     \<lparr>qs_chars = segment, qs_bytes = utf8_bytes segment, qs_end = end_pos\<rparr>"

datatype 'a width_cache_entry = Uncomputed | Missing | Ready 'a

section \<open>The budget of an expansion\<close>

definition expansion_failure :: "gen_error \<Rightarrow> expansion_error" where
  "expansion_failure e = Failure (ResourceExhausted (gen_error_message e))"

text \<open>How a computation stops early: with an error, or by a panic.\<close>

datatype stop = Stopped expansion_error | Panicked

definition stopped :: "gen_error \<Rightarrow> stop" where
  "stopped e = Stopped (expansion_failure e)"

record expansion_budget =
  eb_paths :: usize
  eb_work :: usize
  eb_limits :: gen_limits
  eb_cancel_calls :: nat
  eb_source_calls :: nat
  eb_cancellation :: "nat \<Rightarrow> cancellation_reason option"
  eb_source :: "nat \<Rightarrow> expansion_error option"

definition budget_new ::
    "gen_limits \<Rightarrow> (nat \<Rightarrow> cancellation_reason option) \<Rightarrow> (nat \<Rightarrow> expansion_error option) \<Rightarrow> expansion_budget" where
  "budget_new limits cancellation source =
     \<lparr>eb_paths = 0, eb_work = 0, eb_limits = limits, eb_cancel_calls = 0, eb_source_calls = 0,
      eb_cancellation = cancellation, eb_source = source\<rparr>"

text \<open>Computations that charge a budget, and stop at the first error.\<close>

type_synonym 'a charged = "expansion_budget \<Rightarrow> stop + 'a \<times> expansion_budget"

definition creturn :: "'a \<Rightarrow> 'a charged" where
  "creturn x b = Inr (x, b)"

definition cfail :: "expansion_error \<Rightarrow> 'a charged" where
  "cfail e b = Inl (Stopped e)"

definition cpanic :: "'a charged" where
  "cpanic b = Inl Panicked"

text \<open>The \<open>?\<close> on a result that does not touch the budget.\<close>

definition clift :: "stop + 'a \<Rightarrow> 'a charged" where
  "clift r b = (case r of Inl e \<Rightarrow> Inl e | Inr x \<Rightarrow> Inr (x, b))"

definition cbind :: "'a charged \<Rightarrow> ('a \<Rightarrow> 'b charged) \<Rightarrow> 'b charged" where
  "cbind m f b = (case m b of Inl e \<Rightarrow> Inl e | Inr (x, b') \<Rightarrow> f x b')"

definition check_cancelled :: "unit charged" where
  "check_cancelled b =
     (case eb_cancellation b (eb_cancel_calls b) of
        Some reason \<Rightarrow> Inl (Stopped (CancelledError reason))
      | None \<Rightarrow> Inr ((), b\<lparr>eb_cancel_calls := eb_cancel_calls b + 1\<rparr>))"

text \<open>The source check handed down to the expansion.\<close>

definition check_source :: "unit charged" where
  "check_source b =
     (case eb_source b (eb_source_calls b) of
        Some e \<Rightarrow> Inl (Stopped e)
      | None \<Rightarrow> Inr ((), b\<lparr>eb_source_calls := eb_source_calls b + 1\<rparr>))"

definition require_charged :: "gen_resource \<Rightarrow> usize \<Rightarrow> usize \<Rightarrow> unit charged" where
  "require_charged resource required limit b =
     (case require_at_most resource required limit of
        Inl e \<Rightarrow> Inl (stopped e)
      | Inr _ \<Rightarrow> Inr ((), b))"

definition charge_work :: "usize \<Rightarrow> unit charged" where
  "charge_work units = cbind check_cancelled (\<lambda>_ b.
     (case usize_checked_add (eb_work b) units of
        None \<Rightarrow> Inl (stopped (ArithmeticOverflow ''counting expansion work''))
      | Some work \<Rightarrow>
          require_charged WorkUnitsPerExpansion work (max_work_units_per_expansion (eb_limits b)) (b\<lparr>eb_work := work\<rparr>)))"

definition charge_path :: "unit charged" where
  "charge_path = cbind check_cancelled (\<lambda>_ b.
     (case usize_checked_add (eb_paths b) 1 of
        None \<Rightarrow> Inl (stopped (ArithmeticOverflow ''counting dictionary paths''))
      | Some paths \<Rightarrow>
          require_charged PathsPerExpansion paths (max_paths_per_expansion (eb_limits b)) (b\<lparr>eb_paths := paths\<rparr>)))"

section \<open>Staged dictionary nodes\<close>

record pending_arc =
  pa_target :: pending_node
  pa_query_pos :: usize
  pa_cost :: usize
  pa_input :: "uchar list"
  pa_output :: "uchar list"
  pa_weight :: f64

text \<open>\<open>sn_shared\<close>: whether the owner of the node is already the canonical one (\<open>Arc::ptr_eq\<close>).\<close>

record 'n staged_node =
  sn_parent :: pending_node
  sn_label :: uchar
  sn_node :: 'n
  sn_shared :: bool

record 'n staging =
  st_nodes :: "'n staged_node list"
  st_by_step :: "pending_node \<times> uchar \<rightharpoonup> pending_node"

definition staging_new :: "'n staging" where
  "staging_new = \<lparr>st_nodes = [], st_by_step = Map.empty\<rparr>"

definition stage_child ::
    "u32 option \<Rightarrow> pending_node \<Rightarrow> uchar \<Rightarrow> 'n \<Rightarrow> 'n staging \<Rightarrow> pending_node \<times> 'n staging" where
  "stage_child registered parent label node s =
     (case registered of
        Some i \<Rightarrow> (Registered i, s)
      | None \<Rightarrow>
          (case st_by_step s (parent, label) of
             Some reference \<Rightarrow> (reference, s)
           | None \<Rightarrow>
               (let reference = Staged (length (st_nodes s))
                in (reference,
                    \<lparr>st_nodes = st_nodes s @ [\<lparr>sn_parent = parent, sn_label = label, sn_node = node, sn_shared = False\<rparr>],
                     st_by_step = (st_by_step s)((parent, label) \<mapsto> reference)\<rparr>))))"

text \<open>\<open>resolved_node\<close>: staged offsets index the identifiers resolved so far.\<close>

definition resolved_node :: "pending_node \<Rightarrow> u32 list \<Rightarrow> u32" where
  "resolved_node reference ids = (case reference of Registered i \<Rightarrow> i | Staged k \<Rightarrow> ids ! k)"

section \<open>Batches of states\<close>

definition checked_state_count :: "usize \<Rightarrow> usize \<Rightarrow> stop + state_id" where
  "checked_state_count required limit =
     (case require_at_most RetainedWfstStates required limit of
        Inl e \<Rightarrow> Inl (stopped e)
      | Inr _ \<Rightarrow>
          (case Option.bind (usize_checked_sub required 1) next_state_id of
             None \<Rightarrow> Inl (stopped (ArithmeticOverflow ''encoding a WFST state ID without using NO_STATE''))
           | Some i \<Rightarrow> Inr i))"

record state_batch =
  sb_states :: "registered_state list"
  sb_products :: "product_state \<rightharpoonup> state_id"
  sb_chains :: "emission_chain \<rightharpoonup> state_id"

definition batch_new :: state_batch where
  "batch_new = \<lparr>sb_states = [], sb_products = Map.empty, sb_chains = Map.empty\<rparr>"

definition batch_next_id :: "state_registry \<Rightarrow> usize \<Rightarrow> state_batch \<Rightarrow> stop + state_id" where
  "batch_next_id r limit s =
     (case usize_checked_add (sr_len r) (length (sb_states s)) of
        None \<Rightarrow> Inl (stopped (ArithmeticOverflow ''assigning a WFST state ID''))
      | Some index \<Rightarrow>
          (case usize_checked_add index 1 of
             None \<Rightarrow> Inl (stopped (ArithmeticOverflow ''counting retained WFST states''))
           | Some required \<Rightarrow> checked_state_count required limit))"

definition batch_product ::
    "state_registry \<Rightarrow> product_state \<Rightarrow> usize \<Rightarrow> state_batch \<Rightarrow> stop + state_id \<times> state_batch" where
  "batch_product r p limit s =
     (case (case sr_product_id r p of Some i \<Rightarrow> Some i | None \<Rightarrow> sb_products s p) of
        Some i \<Rightarrow> Inr (i, s)
      | None \<Rightarrow>
          (case batch_next_id r limit s of
             Inl e \<Rightarrow> Inl e
           | Inr i \<Rightarrow>
               Inr (i, s\<lparr>sb_products := (sb_products s)(p \<mapsto> i), sb_states := sb_states s @ [Product p]\<rparr>)))"

definition chain_width :: "emission_chain \<Rightarrow> usize" where
  "chain_width c = max (length (ec_input c)) (length (ec_output c))"

text \<open>The states of a chain whose first identifier is \<open>first\<close>.\<close>

definition chain_states :: "emission_chain \<Rightarrow> state_id \<Rightarrow> registered_state list" where
  "chain_states c first =
     map (\<lambda>position. Emit \<lparr>es_chain = c, es_position = position,
            es_next = (if position + 1 = chain_width c then ec_target c else first + of_nat position)\<rparr>)
       [1..<chain_width c]"

definition batch_chain ::
    "state_registry \<Rightarrow> emission_chain \<Rightarrow> usize \<Rightarrow> state_batch \<Rightarrow> stop + state_id \<times> state_batch" where
  "batch_chain r c limit s =
     (if chain_width c \<le> 1 then Inr (ec_target c, s)
      else case (case sr_chain_id r c of Some i \<Rightarrow> Some i | None \<Rightarrow> sb_chains s c) of
             Some i \<Rightarrow> Inr (i, s)
           | None \<Rightarrow>
               (case batch_next_id r limit s of
                  Inl e \<Rightarrow> Inl e
                | Inr first \<Rightarrow>
                    (case Option.bind (usize_checked_add (sr_len r) (length (sb_states s)))
                            (\<lambda>base. usize_checked_add base (chain_width c - 1)) of
                       None \<Rightarrow> Inl (stopped (ArithmeticOverflow ''counting a complete emission chain''))
                     | Some required \<Rightarrow>
                         (case checked_state_count required limit of
                            Inl e \<Rightarrow> Inl e
                          | Inr _ \<Rightarrow>
                              Inr (first, s\<lparr>sb_chains := (sb_chains s)(c \<mapsto> first),
                                            sb_states := sb_states s @ chain_states c first\<rparr>)))))"

end
