(* ===== verification/Generalized_Wfst.thy ===== *)
theory Generalized_Wfst
  imports Generalized_State Lazy_Wrapper
begin

text \<open>
  \<open>src/generalized_wfst.rs\<close>, \<open>src/generalized_computation.rs\<close> and \<open>src/generalized_builder.rs\<close>:
  construction of the generalized WFST and the bounded, atomic expansion of its states. Expansions
  run one after the other: clones that share the registries concurrently are not modelled.
\<close>

section \<open>Construction\<close>

text \<open>What the crate uses of operation sets and cost scales.\<close>

record operation_library =
  ol_validate :: "operation list \<Rightarrow> string + unit"
  ol_scale :: "operation list \<Rightarrow> string + cost_scale"

record 'n gen_wfst =
  gw_dictionary :: "('n, uchar) dictionary"
  gw_query :: "uchar list"
  gw_max_distance :: nat
  gw_operations :: "operation list"
  gw_prepared :: "prepared_operation list"
  gw_source_slots :: usize
  gw_query_slots :: usize
  gw_scale :: cost_scale
  gw_max_cost :: usize
  gw_limits :: gen_limits
  gw_nodes :: "'n node_registry"
  gw_states :: state_registry

fun validate_operation_widths :: "gen_limits \<Rightarrow> operation list \<Rightarrow> gen_error + unit" where
  "validate_operation_widths limits [] = Inr ()"
| "validate_operation_widths limits (op # ops) =
     (case require_at_most OperationSourceScalars (consume_x op) (max_operation_source_scalars limits) of
        Inl e \<Rightarrow> Inl e
      | Inr _ \<Rightarrow>
          (case require_at_most OperationQueryScalars (consume_y op) (max_operation_query_scalars limits) of
             Inl e \<Rightarrow> Inl e
           | Inr _ \<Rightarrow> validate_operation_widths limits ops))"

definition validate_construction_limits :: "uchar list \<Rightarrow> operation list \<Rightarrow> gen_limits \<Rightarrow> gen_error + unit" where
  "validate_construction_limits query ops limits =
     (case require_at_most QueryBytes (byte_len query) (max_query_bytes limits) of
        Inl e \<Rightarrow> Inl e
      | Inr _ \<Rightarrow>
     (case require_at_most QueryScalars (length query) (max_query_scalars limits) of
        Inl e \<Rightarrow> Inl e
      | Inr _ \<Rightarrow>
     (case require_at_most RetainedDictionaryNodes 1 (max_retained_dictionary_nodes limits) of
        Inl e \<Rightarrow> Inl e
      | Inr _ \<Rightarrow>
     (case require_at_most RetainedWfstStates 1 (max_retained_wfst_states limits) of
        Inl e \<Rightarrow> Inl e
      | Inr _ \<Rightarrow> validate_operation_widths limits ops))))"

definition slot_count :: "(prepared_operation \<Rightarrow> usize) \<Rightarrow> prepared_operation list \<Rightarrow> usize" where
  "slot_count slot ps = foldl max 0 (map (\<lambda>p. slot p + 1) ps)"

definition try_new_with_limits ::
    "operation_library \<Rightarrow> ('n, uchar) dictionary \<Rightarrow> uchar list \<Rightarrow> nat \<Rightarrow> operation list \<Rightarrow> gen_limits
     \<Rightarrow> gen_error + 'n gen_wfst" where
  "try_new_with_limits lib dictionary query max_distance ops limits =
     (case ol_validate lib ops of
        Inl e \<Rightarrow> Inl (InvalidOperations e)
      | Inr _ \<Rightarrow>
     (case validate_construction_limits query ops limits of
        Inl e \<Rightarrow> Inl e
      | Inr _ \<Rightarrow>
     (case ol_scale lib ops of
        Inl e \<Rightarrow> Inl (CostScaleError e)
      | Inr scale \<Rightarrow>
     (case scale_budget scale max_distance of
        Inl e \<Rightarrow> Inl (CostScaleError e)
      | Inr max_cost \<Rightarrow>
     (case bounded_operation_set scale max_cost ops of
        Inl e \<Rightarrow> Inl (CostScaleError e)
      | Inr bounded \<Rightarrow>
     (case prepare_operations bounded scale of
        Inl e \<Rightarrow> Inl (CostScaleError e)
      | Inr prepared \<Rightarrow>
          Inr \<lparr>gw_dictionary = dictionary, gw_query = query, gw_max_distance = max_distance,
               gw_operations = bounded, gw_prepared = prepared,
               gw_source_slots = slot_count po_source_slot prepared,
               gw_query_slots = slot_count po_query_slot prepared,
               gw_scale = scale, gw_max_cost = max_cost, gw_limits = limits,
               gw_nodes = reg_new (dict_root dictionary), gw_states = sr_new\<rparr>))))))"

definition gen_try_new ::
    "operation_library \<Rightarrow> ('n, uchar) dictionary \<Rightarrow> uchar list \<Rightarrow> nat \<Rightarrow> operation list \<Rightarrow> gen_error + 'n gen_wfst" where
  "gen_try_new lib dictionary query max_distance ops =
     try_new_with_limits lib dictionary query max_distance ops gen_limits_default"

section \<open>Reading the state\<close>

definition gen_registered_state :: "'n gen_wfst \<Rightarrow> state_id \<Rightarrow> registered_state option" where
  "gen_registered_state g state = sr_get (gw_states g) state"

definition gen_dictionary_node :: "'n gen_wfst \<Rightarrow> u32 \<Rightarrow> 'n option" where
  "gen_dictionary_node g i = reg_get_node (gw_nodes g) i"

definition cost_within_bound :: "'n gen_wfst \<Rightarrow> usize \<Rightarrow> bool" where
  "cost_within_bound g cost \<longleftrightarrow> cost \<le> gw_max_cost g"

definition product_final_weight :: "'n gen_wfst \<Rightarrow> product_state \<Rightarrow> 'n \<Rightarrow> weight option" where
  "product_final_weight g p node =
     (if ps_query_pos p \<noteq> byte_len (gw_query g) \<or> \<not> cost_within_bound g (ps_cost p) \<or>
         \<not> node_is_final (gw_dictionary g) node
      then None else Some (F64 0))"

definition gen_query_segment :: "'n gen_wfst \<Rightarrow> usize \<Rightarrow> usize \<Rightarrow> (uchar list \<times> usize) option" where
  "gen_query_segment g start char_len = str_segment_by_char_width (gw_query g) start char_len"

definition gen_final_weight_for_state :: "'n gen_wfst \<Rightarrow> state_id \<Rightarrow> weight option" where
  "gen_final_weight_for_state g state =
     (case gen_registered_state g state of
        Some (Product p) \<Rightarrow>
          (case gen_dictionary_node g (ps_node p) of
             None \<Rightarrow> None
           | Some node \<Rightarrow> product_final_weight g p node)
      | _ \<Rightarrow> None)"

section \<open>Dictionary paths\<close>

text \<open>Charged computations only ever add to the work done, and never beyond the limit.\<close>

definition charges :: "expansion_budget \<Rightarrow> expansion_budget \<Rightarrow> bool" where
  "charges b b' \<longleftrightarrow> eb_limits b' = eb_limits b \<and> eb_work b \<le> eb_work b' \<and>
     (eb_work b \<le> max_work_units_per_expansion (eb_limits b) \<longrightarrow>
      eb_work b' \<le> max_work_units_per_expansion (eb_limits b))"

lemma charges_refl [simp]: "charges b b"
  by (simp add: charges_def)

lemma charges_trans: "charges a b \<Longrightarrow> charges b c \<Longrightarrow> charges a c"
  by (auto simp: charges_def)

lemma cbind_cong [fundef_cong]:
  "b = b' \<Longrightarrow> m b' = m' b' \<Longrightarrow> (\<And>x b1. m' b' = Inr (x, b1) \<Longrightarrow> f x b1 = f' x b1) \<Longrightarrow> cbind m f b = cbind m' f' b'"
  by (auto simp: cbind_def split: sum.split prod.split)

lemma cbind_eq_Inr: "cbind m f b = Inr y \<longleftrightarrow> (\<exists>x b1. m b = Inr (x, b1) \<and> f x b1 = Inr y)"
  by (auto simp: cbind_def split: sum.splits)

lemma charge_work_eq_Inr:
  "charge_work u b = Inr (x, b') \<longleftrightarrow>
     eb_cancellation b (eb_cancel_calls b) = None \<and> eb_work b + u \<le> usize_max \<and>
     eb_work b + u \<le> max_work_units_per_expansion (eb_limits b) \<and>
     b' = b\<lparr>eb_cancel_calls := eb_cancel_calls b + 1, eb_work := eb_work b + u\<rparr>"
  by (auto simp: charge_work_def cbind_def check_cancelled_def require_charged_def require_at_most_def
      usize_checked_add_def split: option.splits if_splits)

lemma check_source_eq_Inr:
  "check_source b = Inr (x, b') \<longleftrightarrow>
     eb_source b (eb_source_calls b) = None \<and> b' = b\<lparr>eb_source_calls := eb_source_calls b + 1\<rparr>"
  by (auto simp: check_source_def split: option.splits)

lemma check_cancelled_eq_Inr:
  "check_cancelled b = Inr (x, b') \<longleftrightarrow>
     eb_cancellation b (eb_cancel_calls b) = None \<and> b' = b\<lparr>eb_cancel_calls := eb_cancel_calls b + 1\<rparr>"
  by (auto simp: check_cancelled_def split: option.splits)

lemma charge_path_eq_Inr:
  "charge_path b = Inr (x, b') \<longleftrightarrow>
     eb_cancellation b (eb_cancel_calls b) = None \<and> eb_paths b + 1 \<le> usize_max \<and>
     eb_paths b + 1 \<le> max_paths_per_expansion (eb_limits b) \<and>
     b' = b\<lparr>eb_cancel_calls := eb_cancel_calls b + 1, eb_paths := eb_paths b + 1\<rparr>"
  by (auto simp: charge_path_def cbind_def check_cancelled_def require_charged_def require_at_most_def
      usize_checked_add_def split: option.splits if_splits)

lemmas charged_Inr = charge_work_eq_Inr check_source_eq_Inr check_cancelled_eq_Inr charge_path_eq_Inr cbind_eq_Inr

lemma charges_simps:
  "charge_work u b = Inr (x, b') \<Longrightarrow> charges b b'" "check_source b = Inr (x, b') \<Longrightarrow> charges b b'"
  "check_cancelled b = Inr (x, b') \<Longrightarrow> charges b b'" "charge_path b = Inr (x, b') \<Longrightarrow> charges b b'"
  by (auto simp: charged_Inr charges_def)

text \<open>\<open>bounded_edges\<close>: the edges of a node, each charged.\<close>

fun collect_edges :: "(uchar \<times> 'n) list \<Rightarrow> (uchar \<times> 'n) list \<Rightarrow> (uchar \<times> 'n) list charged" where
  "collect_edges [] owned = cbind (charge_work 1) (\<lambda>_. creturn owned)"
| "collect_edges (e # es) owned =
     cbind (charge_work 1) (\<lambda>_. cbind check_source (\<lambda>_. collect_edges es (owned @ [e])))"

definition bounded_edges :: "('n, uchar) dictionary \<Rightarrow> 'n \<Rightarrow> (uchar \<times> 'n) list charged" where
  "bounded_edges D node =
     cbind (charge_work 1) (\<lambda>_. cbind (collect_edges (node_edges D node) []) (\<lambda>owned.
     cbind check_source (\<lambda>_. creturn owned)))"

lemma collect_edges_eq:
  "collect_edges es owned b = Inr (r, b') \<Longrightarrow> r = owned @ es \<and> charges b b'"
proof (induction es owned arbitrary: b rule: collect_edges.induct)
  case (1 owned)
  then show ?case by (auto simp: cbind_eq_Inr creturn_def dest: charges_simps)
next
  case (2 e es owned)
  then obtain u1 b1 u2 b2 where c: "charge_work 1 b = Inr (u1, b1)" "check_source b1 = Inr (u2, b2)"
    "collect_edges es (owned @ [e]) b2 = Inr (r, b')" by (auto simp: cbind_eq_Inr)
  then have "charges b b2" using charges_simps(1,2) charges_trans by blast
  then show ?case using "2.IH" [OF c(3)] charges_trans by auto
qed

lemma bounded_edges_eq:
  assumes "bounded_edges D node b = Inr (r, b')"
  shows "r = node_edges D node \<and> charges b b'"
proof -
  from assms obtain u1 b1 owned b2 u2 b3 where c: "charge_work 1 b = Inr (u1, b1)"
    "collect_edges (node_edges D node) [] b1 = Inr (owned, b2)" "check_source b2 = Inr (u2, b3)" "r = owned" "b' = b3"
    by (auto simp: bounded_edges_def cbind_eq_Inr creturn_def)
  then show ?thesis
    using charges_simps(1,2) collect_edges_eq [OF c(2)] charges_trans by (metis append_Nil)
qed

text \<open>
  \<open>dictionary_paths_exact_chars\<close>: the loop over the stack of frames, its top first. Every pass is
  charged one unit of work, so the work limit bounds the loop.
\<close>

type_synonym 'n path_frame = "pending_node \<times> (uchar \<times> 'n) list \<times> usize \<times> usize"

function (sequential) paths_loop ::
    "('n, uchar) dictionary \<Rightarrow> 'n node_registry \<Rightarrow> usize \<Rightarrow> 'n path_frame list \<Rightarrow> uchar list \<Rightarrow> nat list
     \<Rightarrow> dict_path list \<Rightarrow> 'n staging \<Rightarrow> (dict_path list \<times> 'n staging) charged" where
  "paths_loop D reg width [] output bytes paths staging b = Inr ((paths, staging), b)"
| "paths_loop D reg width ((parent, edges, ol, bl) # stack) output bytes paths staging b =
     cbind (charge_work 1) (\<lambda>_ b1.
       (case edges of
          [] \<Rightarrow> paths_loop D reg width stack (take ol output) (take bl bytes) paths staging b1
        | (label, node) # edges' \<Rightarrow>
            (let registered = (case parent of
                   Registered i \<Rightarrow> reg_get_id reg (node_key_child i label)
                 | Staged _ \<Rightarrow> None);
                 (child, staging') = stage_child registered parent label node staging;
                 output' = take ol output @ [label];
                 bytes' = take bl bytes @ utf8_encode label;
                 frame = (parent, edges', ol, bl)
             in if length output' = width
                then cbind charge_path (\<lambda>_. cbind (charge_work (1 + length output' + length bytes')) (\<lambda>_ b2.
                       paths_loop D reg width (frame # stack) output' bytes'
                         (paths @ [\<lparr>dp_target = child, dp_output = output', dp_bytes = bytes'\<rparr>]) staging' b2)) b1
                else cbind (bounded_edges D node) (\<lambda>edges'' b2.
                       paths_loop D reg width ((child, edges'', length output', length bytes') # frame # stack)
                         output' bytes' paths staging' b2) b1))) b"
  by pat_completeness auto

termination
proof (relation "measure (\<lambda>(D, reg, width, stack, output, bytes, paths, staging, b).
    max_work_units_per_expansion (eb_limits b) + 1 - eb_work b)", goal_cases)
  case 1
  then show ?case by simp
qed (auto simp: charge_work_eq_Inr charge_path_eq_Inr charges_def dest!: bounded_edges_eq)

definition dictionary_paths_exact_chars ::
    "'n gen_wfst \<Rightarrow> u32 \<Rightarrow> usize \<Rightarrow> 'n staging \<Rightarrow> (dict_path list \<times> 'n staging) charged" where
  "dictionary_paths_exact_chars g start width staging =
     (case gen_dictionary_node g start of
        None \<Rightarrow> cfail (invalid_state_error start)
      | Some node \<Rightarrow>
          if width = 0
          then cbind charge_path (\<lambda>_. cbind (charge_work 1) (\<lambda>_.
                 creturn ([\<lparr>dp_target = Registered start, dp_output = [], dp_bytes = []\<rparr>], staging)))
          else cbind (bounded_edges (gw_dictionary g) node) (\<lambda>edges.
                 paths_loop (gw_dictionary g) (gw_nodes g) width [(Registered start, edges, 0, 0)] [] [] [] staging))"

section \<open>The operations of a product state\<close>

definition width_cache :: "usize \<Rightarrow> 'a width_cache_entry list charged" where
  "width_cache n = cbind (charge_work n) (\<lambda>_. creturn (replicate n Uncomputed))"

fun emit_paths ::
    "operation \<Rightarrow> prepared_operation \<Rightarrow> usize \<Rightarrow> query_segment \<Rightarrow> dict_path list \<Rightarrow> pending_arc list
     \<Rightarrow> pending_arc list charged" where
  "emit_paths op p cost q [] arcs = creturn arcs"
| "emit_paths op p cost q (path # paths) arcs =
     cbind (charge_work (1 + length (dp_bytes path) + length (qs_bytes q))) (\<lambda>_.
       if \<not> operation_applies op (dp_output path) (dp_bytes path) (qs_chars q) (qs_bytes q)
       then emit_paths op p cost q paths arcs
       else cbind (charge_work (1 + length (dp_output path) + length (qs_chars q))) (\<lambda>_.
              emit_paths op p cost q paths
                (arcs @ [\<lparr>pa_target = dp_target path, pa_query_pos = qs_end q, pa_cost = cost,
                          pa_input = qs_chars q, pa_output = dp_output path, pa_weight = po_weight p\<rparr>])))"

text \<open>What the loop over the operations carries: staging, arcs, and the two width caches.\<close>

record 'n product_work =
  pw_staging :: "'n staging"
  pw_arcs :: "pending_arc list"
  pw_paths :: "dict_path list width_cache_entry list"
  pw_queries :: "query_segment width_cache_entry list"

definition load_query :: "'n gen_wfst \<Rightarrow> product_state \<Rightarrow> prepared_operation \<Rightarrow> 'n product_work \<Rightarrow> 'n product_work charged" where
  "load_query g product p pw =
     (case pw_queries pw ! po_query_slot p of
        Uncomputed \<Rightarrow>
          cbind (charge_work (po_consume_y p * 2)) (\<lambda>_.
            creturn (pw\<lparr>pw_queries := (pw_queries pw)[po_query_slot p :=
              (case gen_query_segment g (ps_query_pos product) (po_consume_y p) of
                 Some (segment, end_pos) \<Rightarrow> Ready (query_segment_new segment end_pos)
               | None \<Rightarrow> Missing)]\<rparr>))
      | _ \<Rightarrow> creturn pw)"

definition load_paths :: "'n gen_wfst \<Rightarrow> product_state \<Rightarrow> prepared_operation \<Rightarrow> 'n product_work \<Rightarrow> 'n product_work charged" where
  "load_paths g product p pw =
     (case pw_paths pw ! po_source_slot p of
        Uncomputed \<Rightarrow>
          cbind (dictionary_paths_exact_chars g (ps_node product) (po_consume_x p) (pw_staging pw)) (\<lambda>(paths, staging).
            creturn (pw\<lparr>pw_staging := staging, pw_paths := (pw_paths pw)[po_source_slot p := Ready paths]\<rparr>))
      | _ \<Rightarrow> creturn pw)"

definition operation_step :: "'n gen_wfst \<Rightarrow> product_state \<Rightarrow> prepared_operation \<Rightarrow> 'n product_work \<Rightarrow> 'n product_work charged" where
  "operation_step g product p pw =
     cbind (charge_work 1) (\<lambda>_.
       if po_scaled_weight p > gw_max_cost g - ps_cost product then creturn pw
       else cbind (load_query g product p pw) (\<lambda>pw.
         case pw_queries pw ! po_query_slot p of
           Ready q \<Rightarrow>
             cbind (load_paths g product p pw) (\<lambda>pw.
               case pw_paths pw ! po_source_slot p of
                 Ready paths \<Rightarrow>
                   cbind (emit_paths (gw_operations g ! po_index p) p (ps_cost product + po_scaled_weight p) q paths (pw_arcs pw))
                     (\<lambda>arcs. creturn (pw\<lparr>pw_arcs := arcs\<rparr>))
               | _ \<Rightarrow> cpanic)
         | _ \<Rightarrow> creturn pw))"

fun operations_loop :: "'n gen_wfst \<Rightarrow> product_state \<Rightarrow> prepared_operation list \<Rightarrow> 'n product_work \<Rightarrow> 'n product_work charged" where
  "operations_loop g product [] pw = creturn pw"
| "operations_loop g product (p # ps) pw = cbind (operation_step g product p pw) (operations_loop g product ps)"

section \<open>Committing an expansion\<close>

text \<open>
  The pass over the staged nodes, in which a node that turns out to be known gives up its owner for
  the canonical one; \<open>True\<close> in the result when some owner was retired, so that the pass is repeated.
\<close>

record 'n resolution =
  rn_resolved :: "u32 list"
  rn_additions :: "(node_key \<times> 'n) list"
  rn_new_ids :: "node_key \<rightharpoonup> u32"
  rn_staged :: "'n staged_node list"
  rn_retired :: bool

definition resolution_start :: "'n resolution" where
  "resolution_start = \<lparr>rn_resolved = [], rn_additions = [], rn_new_ids = Map.empty, rn_staged = [], rn_retired = False\<rparr>"

definition fresh_node_id :: "'n node_registry \<Rightarrow> gen_limits \<Rightarrow> usize \<Rightarrow> stop + u32" where
  "fresh_node_id reg limits added =
     (case usize_checked_add (reg_len reg) added of
        None \<Rightarrow> Inl (stopped (ArithmeticOverflow ''counting dictionary nodes''))
      | Some n \<Rightarrow>
     (case usize_checked_add n 1 of
        None \<Rightarrow> Inl (stopped (ArithmeticOverflow ''counting dictionary nodes''))
      | Some required \<Rightarrow>
     (case require_at_most RetainedDictionaryNodes required (max_retained_dictionary_nodes limits) of
        Inl e \<Rightarrow> Inl (stopped e)
      | Inr _ \<Rightarrow>
     (case next_registry_id n of
        None \<Rightarrow> Inl (stopped (ArithmeticOverflow ''encoding a dictionary node ID''))
      | Some i \<Rightarrow> Inr i))))"

definition resolve_node ::
    "'n node_registry \<Rightarrow> gen_limits \<Rightarrow> 'n staged_node \<Rightarrow> 'n resolution \<Rightarrow> 'n resolution charged" where
  "resolve_node reg limits staged rn =
     cbind (charge_work 1) (\<lambda>_.
       (let key = node_key_child (resolved_node (sn_parent staged) (rn_resolved rn)) (sn_label staged)
        in case (case reg_get_id reg key of Some i \<Rightarrow> Some i | None \<Rightarrow> rn_new_ids rn key) of
             Some i \<Rightarrow>
               creturn (rn\<lparr>rn_resolved := rn_resolved rn @ [i],
                           rn_staged := rn_staged rn @ [staged\<lparr>sn_shared := True\<rparr>],
                           rn_retired := (rn_retired rn \<or> \<not> sn_shared staged)\<rparr>)
           | None \<Rightarrow>
               cbind (clift (fresh_node_id reg limits (length (rn_additions rn)))) (\<lambda>i.
                 creturn (rn\<lparr>rn_resolved := rn_resolved rn @ [i],
                             rn_additions := rn_additions rn @ [(key, sn_node staged)],
                             rn_new_ids := (rn_new_ids rn)(key \<mapsto> i),
                             rn_staged := rn_staged rn @ [staged]\<rparr>))))"

fun resolve_pass ::
    "'n node_registry \<Rightarrow> gen_limits \<Rightarrow> 'n staged_node list \<Rightarrow> 'n resolution \<Rightarrow> 'n resolution charged" where
  "resolve_pass reg limits [] rn = creturn rn"
| "resolve_pass reg limits (staged # ss) rn =
     cbind (resolve_node reg limits staged rn) (resolve_pass reg limits ss)"

lemma resolve_node_marks:
  assumes "resolve_node reg limits staged rn b = Inr (rn', b')"
  shows "\<exists>s'. rn_staged rn' = rn_staged rn @ [s'] \<and> (sn_shared staged \<longrightarrow> sn_shared s') \<and>
    (rn_retired rn' \<longrightarrow> rn_retired rn \<or> \<not> sn_shared staged \<and> sn_shared s')"
  using assms
  by (auto simp: resolve_node_def Let_def cbind_eq_Inr creturn_def clift_def split: option.splits sum.splits)

definition unshared :: "'n staged_node list \<Rightarrow> nat" where
  "unshared ss = length (List.filter (\<lambda>s. \<not> sn_shared s) ss)"

lemma resolve_pass_marks:
  "resolve_pass reg limits ss rn b = Inr (rn', b') \<Longrightarrow>
     \<exists>ss'. rn_staged rn' = rn_staged rn @ ss' \<and> length ss' = length ss \<and> unshared ss' \<le> unshared ss \<and>
       (rn_retired rn' \<longrightarrow> rn_retired rn \<or> unshared ss' < unshared ss)"
proof (induction ss arbitrary: rn b)
  case Nil
  then show ?case by (simp add: creturn_def unshared_def)
next
  case (Cons s ss)
  then obtain rn1 b1 where step: "resolve_node reg limits s rn b = Inr (rn1, b1)"
    and rest: "resolve_pass reg limits ss rn1 b1 = Inr (rn', b')" by (auto simp: cbind_eq_Inr)
  obtain s' where s': "rn_staged rn1 = rn_staged rn @ [s']" "sn_shared s \<longrightarrow> sn_shared s'"
    "rn_retired rn1 \<longrightarrow> rn_retired rn \<or> \<not> sn_shared s \<and> sn_shared s'" using resolve_node_marks [OF step] by blast
  obtain ss' where "rn_staged rn' = rn_staged rn1 @ ss'" "length ss' = length ss" "unshared ss' \<le> unshared ss"
    "rn_retired rn' \<longrightarrow> rn_retired rn1 \<or> unshared ss' < unshared ss" using Cons.IH [OF rest] by blast
  then show ?case using s' by (intro exI [of _ "s' # ss'"]) (auto simp: unshared_def)
qed

text \<open>The outer loop: every retry leaves fewer nodes with an owner of their own.\<close>

function resolve_loop ::
    "'n node_registry \<Rightarrow> gen_limits \<Rightarrow> 'n staged_node list \<Rightarrow> expansion_budget \<Rightarrow> stop + 'n resolution \<times> expansion_budget" where
  "resolve_loop reg limits ss b =
     cbind (resolve_pass reg limits ss resolution_start) (\<lambda>rn b1.
       if rn_retired rn
       then cbind check_cancelled (\<lambda>_. cbind check_source (\<lambda>_ b2. resolve_loop reg limits (rn_staged rn) b2)) b1
       else Inr (rn, b1)) b"
  by pat_completeness auto

termination
proof (relation "measure (\<lambda>(reg, limits, ss, b). unshared ss)", goal_cases)
  case 1
  then show ?case by simp
next
  case (2 reg limits ss b rn b1 u b2 v b3)
  then show ?case using resolve_pass_marks [OF 2(1)] by (auto simp: resolution_start_def)
qed

declare resolve_loop.simps [simp del]

text \<open>The batch of states and transitions of the arcs.\<close>

fun commit_arcs ::
    "state_registry \<Rightarrow> gen_limits \<Rightarrow> u32 list \<Rightarrow> state_id \<Rightarrow> pending_arc list \<Rightarrow> state_batch \<times> transition list
     \<Rightarrow> (state_batch \<times> transition list) charged" where
  "commit_arcs states limits resolved state [] bt = creturn bt"
| "commit_arcs states limits resolved state (arc # arcs) (batch, ts) =
     cbind (charge_work (1 + 8 * (length (pa_input arc) + length (pa_output arc)))) (\<lambda>_.
     cbind (clift (batch_product states
         \<lparr>ps_node = resolved_node (pa_target arc) resolved, ps_query_pos = pa_query_pos arc, ps_cost = pa_cost arc\<rparr>
         (max_retained_wfst_states limits) batch)) (\<lambda>(target, batch).
     cbind (clift (if max (length (pa_input arc)) (length (pa_output arc)) \<le> 1 then Inr (target, batch)
         else batch_chain states \<lparr>ec_input = pa_input arc, ec_output = pa_output arc, ec_target = target\<rparr>
                (max_retained_wfst_states limits) batch)) (\<lambda>(to, batch).
       commit_arcs states limits resolved state arcs
         (batch, ts @ [mk_transition state (nth_opt (pa_input arc) 0) (nth_opt (pa_output arc) 0) to (pa_weight arc)]))))"

section \<open>Expanding a state\<close>

text \<open>
  The registries are shared and updated in place. A computation on them takes the WFST as it finds it and
  returns it as it leaves it, whatever its result: an error does not undo what was published before it.
\<close>

type_synonym ('n, 'a) shared = "'n gen_wfst \<Rightarrow> expansion_budget \<Rightarrow> (stop + 'a \<times> expansion_budget) \<times> 'n gen_wfst"

definition sreturn :: "'a \<Rightarrow> ('n, 'a) shared" where
  "sreturn x g b = (Inr (x, b), g)"

definition sfail :: "expansion_error \<Rightarrow> ('n, 'a) shared" where
  "sfail e g b = (Inl (Stopped e), g)"

definition sbind :: "('n, 'a) shared \<Rightarrow> ('a \<Rightarrow> ('n, 'b) shared) \<Rightarrow> ('n, 'b) shared" where
  "sbind m f g b = (case m g b of (Inl e, g') \<Rightarrow> (Inl e, g') | (Inr (x, b'), g') \<Rightarrow> f x g' b')"

text \<open>A computation that looks at the WFST, and a part that only reads it.\<close>

definition swith :: "('n gen_wfst \<Rightarrow> ('n, 'a) shared) \<Rightarrow> ('n, 'a) shared" where
  "swith f g = f g g"

definition reads :: "('n gen_wfst \<Rightarrow> 'a charged) \<Rightarrow> ('n, 'a) shared" where
  "reads f g b = (f g b, g)"

definition publish_nodes :: "(node_key \<times> 'n) list \<Rightarrow> ('n, unit) shared" where
  "publish_nodes additions g b =
     (case reg_commit_prepared additions (gw_nodes g) of
        None \<Rightarrow> (Inl Panicked, g)
      | Some reg \<Rightarrow> (Inr ((), b), g\<lparr>gw_nodes := reg\<rparr>))"

definition publish_states :: "registered_state list \<Rightarrow> ('n, unit) shared" where
  "publish_states additions g b =
     (case sr_commit_prepared additions (gw_states g) of
        None \<Rightarrow> (Inl Panicked, g)
      | Some states \<Rightarrow> (Inr ((), b), g\<lparr>gw_states := states\<rparr>))"

definition commit_expansion :: "state_id \<Rightarrow> 'n staging \<Rightarrow> pending_arc list \<Rightarrow> ('n, transition list) shared" where
  "commit_expansion state staging arcs =
     sbind (reads (\<lambda>g. check_cancelled)) (\<lambda>_.
     sbind (reads (\<lambda>g. resolve_loop (gw_nodes g) (gw_limits g) (st_nodes staging))) (\<lambda>rn.
     sbind (reads (\<lambda>g. commit_arcs (gw_states g) (gw_limits g) (rn_resolved rn) state arcs (batch_new, []))) (\<lambda>(batch, ts).
     sbind (reads (\<lambda>g. check_cancelled)) (\<lambda>_.
     sbind (reads (\<lambda>g. check_source)) (\<lambda>_.
     sbind (publish_nodes (rn_additions rn)) (\<lambda>_.
     sbind (publish_states (sb_states batch)) (\<lambda>_.
     sreturn ts)))))))"

definition compute_product_state :: "state_id \<Rightarrow> product_state \<Rightarrow> ('n, cached_char_state) shared" where
  "compute_product_state state product = swith (\<lambda>g.
     (case gen_dictionary_node g (ps_node product) of
        None \<Rightarrow> sfail (invalid_state_error state)
      | Some node \<Rightarrow>
          if \<not> is_char_boundary (gw_query g) (ps_query_pos product) \<or> \<not> cost_within_bound g (ps_cost product)
          then sfail (invalid_state_error state)
          else
            sbind (reads (\<lambda>g. charge_work 1)) (\<lambda>_.
            (let fw = product_final_weight g product node in
            sbind (reads (\<lambda>g. check_source)) (\<lambda>_.
            sbind (reads (\<lambda>g. width_cache (gw_source_slots g))) (\<lambda>paths.
            sbind (reads (\<lambda>g. width_cache (gw_query_slots g))) (\<lambda>queries.
            sbind (reads (\<lambda>g. operations_loop g product (gw_prepared g)
                \<lparr>pw_staging = staging_new, pw_arcs = [], pw_paths = paths, pw_queries = queries\<rparr>)) (\<lambda>pw.
            sbind (reads (\<lambda>g. check_source)) (\<lambda>_.
            sbind (commit_expansion state (pw_staging pw) (pw_arcs pw)) (\<lambda>ts.
              sreturn \<lparr>cs_final = (fw \<noteq> None), cs_weight = (case fw of Some w \<Rightarrow> w | None \<Rightarrow> tropical_zero),
                       cs_transitions = ts\<rparr>))))))))))"

definition compute_emit_state :: "state_id \<Rightarrow> emit_state \<Rightarrow> ('n, cached_char_state) shared" where
  "compute_emit_state state e =
     sbind (reads (\<lambda>g. charge_work 1)) (\<lambda>_. sbind (reads (\<lambda>g. check_cancelled)) (\<lambda>_. sbind (reads (\<lambda>g. check_source)) (\<lambda>_.
       sreturn \<lparr>cs_final = False, cs_weight = tropical_zero,
         cs_transitions = [mk_transition state (nth_opt (ec_input (es_chain e)) (es_position e))
           (nth_opt (ec_output (es_chain e)) (es_position e)) (es_next e) (F64 0)]\<rparr>)))"

definition try_compute_registered_state :: "state_id \<Rightarrow> ('n, cached_char_state) shared" where
  "try_compute_registered_state state =
     sbind (reads (\<lambda>g. check_cancelled)) (\<lambda>_. sbind (reads (\<lambda>g. check_source)) (\<lambda>_. swith (\<lambda>g.
       case gen_registered_state g state of
         None \<Rightarrow> sfail (invalid_state_error state)
       | Some (Product product) \<Rightarrow> compute_product_state state product
       | Some (Emit e) \<Rightarrow> compute_emit_state state e)))"

text \<open>
  The answers of the environment: what the cancellation token and the source check say at each
  call, and whether the scope of the computation can be entered at all. The source check is that of the
  scope followed by the caller's. The result is \<open>None\<close> for a panic.
\<close>

record gen_env =
  env_cancellation :: "nat \<Rightarrow> cancellation_reason option"
  env_source :: "nat \<Rightarrow> expansion_error option"
  env_scope :: "expansion_error option"

definition quiet :: gen_env where
  "quiet = \<lparr>env_cancellation = (\<lambda>_. None), env_source = (\<lambda>_. None), env_scope = None\<rparr>"

fun error_answer :: "expansion_error \<Rightarrow> expansion" where
  "error_answer (Failure failure) = Failed failure"
| "error_answer (CancelledError reason) = Cancelled reason"

definition compute_registered_state_with_check ::
    "gen_env \<Rightarrow> 'n gen_wfst \<Rightarrow> state_id \<Rightarrow> expansion option \<times> 'n gen_wfst" where
  "compute_registered_state_with_check env g state =
     (case env_scope env of
        Some e \<Rightarrow> (Some (error_answer e), g)
      | None \<Rightarrow>
          (case try_compute_registered_state state g (budget_new (gw_limits g) (env_cancellation env) (env_source env)) of
             (Inr (x, _), g') \<Rightarrow> (Some (Expanded (cs_final x) (cs_weight x) (cs_transitions x)), g')
           | (Inl (Stopped e), g') \<Rightarrow> (Some (error_answer e), g')
           | (Inl Panicked, g') \<Rightarrow> (None, g')))"

definition gen_compute_registered_state :: "'n gen_wfst \<Rightarrow> state_id \<Rightarrow> expansion option \<times> 'n gen_wfst" where
  "gen_compute_registered_state g state = compute_registered_state_with_check quiet g state"

text \<open>Expansion on request: the request brings its cancellation token.\<close>

definition gen_compute_state ::
    "(nat \<Rightarrow> cancellation_reason option) \<Rightarrow> 'n gen_wfst \<Rightarrow> state_id \<Rightarrow> expansion option \<times> 'n gen_wfst" where
  "gen_compute_state cancellation g state = compute_registered_state_with_check (quiet\<lparr>env_cancellation := cancellation\<rparr>) g state"

text \<open>The wrapper: expansion through the cache; \<open>None\<close> for a panic.\<close>

type_synonym 'n cached_gen = "cached_char_state lazy_cache \<times> 'n gen_wfst"

definition gen_ensure_state ::
    "state_id \<Rightarrow> 'n cached_gen \<Rightarrow> (expansion_error + expansion_status) option \<times> 'n cached_gen" where
  "gen_ensure_state state = (\<lambda>(cache, g).
     (case touch_if_cached state cache of
        (True, cache') \<Rightarrow> (Some (cached_char_state_status cache' state), cache', g)
      | (False, cache') \<Rightarrow>
          (case gen_compute_registered_state g state of
             (None, g') \<Rightarrow> (None, cache', g')
           | (Some e, g') \<Rightarrow>
               (case cache_char_state_expansion cache' state e of (r, cache'') \<Rightarrow> (Some r, cache'', g')))))"

definition gen_try_transitions ::
    "state_id \<Rightarrow> 'n cached_gen \<Rightarrow> (expansion_error + transition list) option \<times> 'n cached_gen" where
  "gen_try_transitions state cg =
     (case gen_ensure_state state cg of
        (None, cg') \<Rightarrow> (None, cg')
      | (Some (Inl e), cg') \<Rightarrow> (Some (Inl e), cg')
      | (Some (Inr _), cg') \<Rightarrow> (Some (Inr (wrapper_transitions cg' state)), cg'))"

definition gen_transitions_lazy :: "state_id \<Rightarrow> 'n cached_gen \<Rightarrow> transition list option \<times> 'n cached_gen" where
  "gen_transitions_lazy state cg =
     (case gen_try_transitions state cg of
        (Some (Inr ts), cg') \<Rightarrow> (Some ts, cg')
      | (_, cg') \<Rightarrow> (None, cg'))"

definition gen_is_final :: "'n cached_gen \<Rightarrow> state_id \<Rightarrow> bool" where
  "gen_is_final cg state = wrapper_is_final gen_final_weight_for_state cg state"

definition gen_final_weight :: "'n cached_gen \<Rightarrow> state_id \<Rightarrow> weight" where
  "gen_final_weight cg state = wrapper_final_weight gen_final_weight_for_state cg state"

definition gen_num_states :: "'n gen_wfst \<Rightarrow> usize" where
  "gen_num_states g = sr_len (gw_states g)"

definition gen_is_valid_state :: "'n gen_wfst \<Rightarrow> state_id \<Rightarrow> bool" where
  "gen_is_valid_state g state \<longleftrightarrow> sr_get (gw_states g) state \<noteq> None"

section \<open>The builder\<close>

record 'n gen_builder =
  gb_dictionary :: "('n, uchar) dictionary"
  gb_query :: "uchar list option"
  gb_max_distance :: nat
  gb_operations :: "operation list"
  gb_limits :: gen_limits

text \<open>The standard operations are those of the operation library.\<close>

definition gen_builder_new :: "operation list \<Rightarrow> ('n, uchar) dictionary \<Rightarrow> 'n gen_builder" where
  "gen_builder_new standard_ops dictionary =
     \<lparr>gb_dictionary = dictionary, gb_query = None, gb_max_distance = 2, gb_operations = standard_ops,
      gb_limits = gen_limits_default\<rparr>"

definition gen_builder_query :: "uchar list \<Rightarrow> 'n gen_builder \<Rightarrow> 'n gen_builder" where
  "gen_builder_query query b = b\<lparr>gb_query := Some query\<rparr>"

definition gen_builder_max_distance :: "nat \<Rightarrow> 'n gen_builder \<Rightarrow> 'n gen_builder" where
  "gen_builder_max_distance distance b = b\<lparr>gb_max_distance := distance\<rparr>"

definition gen_builder_with_operations :: "operation list \<Rightarrow> 'n gen_builder \<Rightarrow> 'n gen_builder" where
  "gen_builder_with_operations ops b = b\<lparr>gb_operations := ops\<rparr>"

definition gen_builder_limits :: "gen_limits \<Rightarrow> 'n gen_builder \<Rightarrow> 'n gen_builder" where
  "gen_builder_limits limits b = b\<lparr>gb_limits := limits\<rparr>"

definition gen_try_build_for_query :: "operation_library \<Rightarrow> uchar list \<Rightarrow> 'n gen_builder \<Rightarrow> gen_error + 'n gen_wfst" where
  "gen_try_build_for_query lib query b =
     try_new_with_limits lib (gb_dictionary b) query (gb_max_distance b) (gb_operations b) (gb_limits b)"

definition gen_try_build :: "operation_library \<Rightarrow> 'n gen_builder \<Rightarrow> gen_error + 'n gen_wfst" where
  "gen_try_build lib b =
     (case gb_query b of None \<Rightarrow> Inl MissingQuery | Some query \<Rightarrow> gen_try_build_for_query lib query b)"

definition gen_build :: "operation_library \<Rightarrow> 'n gen_builder \<Rightarrow> string + 'n gen_wfst" where
  "gen_build lib b = (case gen_try_build lib b of Inl e \<Rightarrow> Inl (gen_error_message e) | Inr g \<Rightarrow> Inr g)"

section \<open>Expansions as transactions\<close>

text \<open>
  The same computations as transactions: an error returns nothing, and a result comes with the registries
  it leaves. The shared computations implement them: they publish after the last check that can fail, so an
  error finds the registries as they were.
\<close>

definition commit_transaction ::
    "'n gen_wfst \<Rightarrow> state_id \<Rightarrow> 'n staging \<Rightarrow> pending_arc list \<Rightarrow> (transition list \<times> 'n gen_wfst) charged" where
  "commit_transaction g state staging arcs =
     cbind check_cancelled (\<lambda>_.
     cbind (resolve_loop (gw_nodes g) (gw_limits g) (st_nodes staging)) (\<lambda>rn.
     cbind (commit_arcs (gw_states g) (gw_limits g) (rn_resolved rn) state arcs (batch_new, [])) (\<lambda>(batch, ts).
     cbind check_cancelled (\<lambda>_. cbind check_source (\<lambda>_.
       case reg_commit_prepared (rn_additions rn) (gw_nodes g) of
         None \<Rightarrow> cpanic
       | Some reg \<Rightarrow>
           (case sr_commit_prepared (sb_states batch) (gw_states g) of
              None \<Rightarrow> cpanic
            | Some states \<Rightarrow> creturn (ts, g\<lparr>gw_nodes := reg, gw_states := states\<rparr>)))))))"

definition product_transaction ::
    "'n gen_wfst \<Rightarrow> state_id \<Rightarrow> product_state \<Rightarrow> (cached_char_state \<times> 'n gen_wfst) charged" where
  "product_transaction g state product =
     (case gen_dictionary_node g (ps_node product) of
        None \<Rightarrow> cfail (invalid_state_error state)
      | Some node \<Rightarrow>
          if \<not> is_char_boundary (gw_query g) (ps_query_pos product) \<or> \<not> cost_within_bound g (ps_cost product)
          then cfail (invalid_state_error state)
          else
            cbind (charge_work 1) (\<lambda>_.
            (let fw = product_final_weight g product node in
            cbind check_source (\<lambda>_.
            cbind (width_cache (gw_source_slots g)) (\<lambda>paths.
            cbind (width_cache (gw_query_slots g)) (\<lambda>queries.
            cbind (operations_loop g product (gw_prepared g)
                \<lparr>pw_staging = staging_new, pw_arcs = [], pw_paths = paths, pw_queries = queries\<rparr>) (\<lambda>pw.
            cbind check_source (\<lambda>_.
            cbind (commit_transaction g state (pw_staging pw) (pw_arcs pw)) (\<lambda>(ts, g').
              creturn (\<lparr>cs_final = (fw \<noteq> None), cs_weight = (case fw of Some w \<Rightarrow> w | None \<Rightarrow> tropical_zero),
                        cs_transitions = ts\<rparr>, g'))))))))))"

definition emit_transaction :: "'n gen_wfst \<Rightarrow> state_id \<Rightarrow> emit_state \<Rightarrow> (cached_char_state \<times> 'n gen_wfst) charged" where
  "emit_transaction g state e =
     cbind (charge_work 1) (\<lambda>_. cbind check_cancelled (\<lambda>_. cbind check_source (\<lambda>_.
       creturn (\<lparr>cs_final = False, cs_weight = tropical_zero,
         cs_transitions = [mk_transition state (nth_opt (ec_input (es_chain e)) (es_position e))
           (nth_opt (ec_output (es_chain e)) (es_position e)) (es_next e) (F64 0)]\<rparr>, g))))"

definition try_transaction :: "'n gen_wfst \<Rightarrow> state_id \<Rightarrow> (cached_char_state \<times> 'n gen_wfst) charged" where
  "try_transaction g state =
     cbind check_cancelled (\<lambda>_. cbind check_source (\<lambda>_.
       case gen_registered_state g state of
         None \<Rightarrow> cfail (invalid_state_error state)
       | Some (Product product) \<Rightarrow> product_transaction g state product
       | Some (Emit e) \<Rightarrow> emit_transaction g state e))"

definition settles :: "'n gen_wfst \<Rightarrow> stop + ('a \<times> 'n gen_wfst) \<times> expansion_budget \<Rightarrow> (stop + 'a \<times> expansion_budget) \<times> 'n gen_wfst \<Rightarrow> bool" where
  "settles g outcome result \<longleftrightarrow> (case outcome of
       Inr ((x, g'), b') \<Rightarrow> result = (Inr (x, b'), g')
     | Inl (Stopped e) \<Rightarrow> result = (Inl (Stopped e), g)
     | Inl Panicked \<Rightarrow> fst result = Inl Panicked)"

definition transacts :: "'n gen_wfst \<Rightarrow> ('n, 'a) shared \<Rightarrow> ('a \<times> 'n gen_wfst) charged \<Rightarrow> bool" where
  "transacts g m t \<longleftrightarrow> (\<forall>b. settles g (t b) (m g b))"

named_theorems transacts_intros

lemma transacts_return [transacts_intros]: "transacts g (sreturn x) (creturn (x, g))"
  by (simp add: transacts_def settles_def sreturn_def creturn_def)

lemma transacts_fail [transacts_intros]: "transacts g (sfail e) (cfail e)"
  by (simp add: transacts_def settles_def sfail_def cfail_def)

lemma transacts_reads [transacts_intros]:
  assumes "\<And>x. transacts g (k x) (r x)"
  shows "transacts g (sbind (reads f) k) (cbind (f g) r)"
  unfolding transacts_def
proof
  fix b
  show "settles g (cbind (f g) r b) (sbind (reads f) k g b)"
    using assms by (cases "f g b") (auto simp: transacts_def sbind_def reads_def cbind_def, simp add: settles_def split: stop.split)
qed

lemma transacts_map [transacts_intros]:
  assumes "transacts g m t"
  shows "transacts g (sbind m (\<lambda>x. sreturn (h x))) (cbind t (\<lambda>(x, g'). creturn (h x, g')))"
  unfolding transacts_def
proof
  fix b
  have m: "settles g (t b) (m g b)" using assms by (simp add: transacts_def)
  show "settles g (cbind t (\<lambda>(x, g'). creturn (h x, g')) b) (sbind m (\<lambda>x. sreturn (h x)) g b)"
  proof (cases "t b")
    case (Inl e)
    then show ?thesis using m by (cases e; cases "m g b") (simp_all add: settles_def cbind_def sbind_def)
  next
    case (Inr y)
    then show ?thesis using m by (auto simp: settles_def cbind_def sbind_def sreturn_def creturn_def split: prod.splits)
  qed
qed

lemma transacts_publish:
  "transacts g (sbind (publish_nodes ns) (\<lambda>_. sbind (publish_states ss) (\<lambda>_. sreturn ts)))
     (case reg_commit_prepared ns (gw_nodes g) of
        None \<Rightarrow> cpanic
      | Some reg \<Rightarrow> (case sr_commit_prepared ss (gw_states g) of
           None \<Rightarrow> cpanic
         | Some states \<Rightarrow> creturn (ts, g\<lparr>gw_nodes := reg, gw_states := states\<rparr>)))"
  by (auto simp: transacts_def settles_def sbind_def publish_nodes_def publish_states_def sreturn_def cpanic_def creturn_def split: option.split)

lemma commit_transacts [transacts_intros]:
  "transacts g (commit_expansion state staging arcs) (commit_transaction g state staging arcs)"
  unfolding commit_expansion_def commit_transaction_def case_prod_unfold
  by (intro transacts_reads transacts_publish)

lemma transacts_with [transacts_intros]: "transacts g (f g) t \<Longrightarrow> transacts g (swith f) t"
  unfolding transacts_def swith_def .

lemma transacts_cases [transacts_intros]:
  "(P \<Longrightarrow> transacts g m t) \<Longrightarrow> (\<not> P \<Longrightarrow> transacts g m' t') \<Longrightarrow> transacts g (if P then m else m') (if P then t else t')"
  "transacts g n u \<Longrightarrow> (\<And>x. transacts g (k x) (r x)) \<Longrightarrow>
     transacts g (case o' of None \<Rightarrow> n | Some x \<Rightarrow> k x) (case o' of None \<Rightarrow> u | Some x \<Rightarrow> r x)"
  by (simp_all split: option.split)

lemma product_transacts [transacts_intros]: "transacts g (compute_product_state state product) (product_transaction g state product)"
  unfolding compute_product_state_def product_transaction_def Let_def by (intro transacts_intros)

lemma emit_transacts [transacts_intros]: "transacts g (compute_emit_state state e) (emit_transaction g state e)"
  unfolding compute_emit_state_def emit_transaction_def by (intro transacts_intros)

lemma try_transacts: "transacts g (try_compute_registered_state state) (try_transaction g state)"
  unfolding try_compute_registered_state_def try_transaction_def
  by (intro transacts_intros) (auto intro: transacts_intros split: registered_state.split)

text \<open>What an expansion answers and leaves behind, read off its transaction.\<close>

lemma computed_transaction:
  assumes "try_transaction g state (budget_new (gw_limits g) (env_cancellation env) (env_source env)) \<noteq> Inl Panicked"
  shows "compute_registered_state_with_check env g state =
    (case env_scope env of
       Some e \<Rightarrow> (Some (error_answer e), g)
     | None \<Rightarrow>
         (case try_transaction g state (budget_new (gw_limits g) (env_cancellation env) (env_source env)) of
            Inr ((x, g'), _) \<Rightarrow> (Some (Expanded (cs_final x) (cs_weight x) (cs_transitions x)), g')
          | Inl (Stopped e) \<Rightarrow> (Some (error_answer e), g)))"
proof -
  let ?b = "budget_new (gw_limits g) (env_cancellation env) (env_source env)"
  have "settles g (try_transaction g state ?b) (try_compute_registered_state state g ?b)"
    using try_transacts [of g state] by (simp add: transacts_def)
  then show ?thesis using assms
    by (auto simp: settles_def compute_registered_state_with_check_def split: option.split sum.splits prod.splits stop.splits)
qed

end
