(* ===== verification/Generalized_Paths.thy ===== *)
theory Generalized_Paths
  imports Generalized_Wfst
begin

text \<open>
  One expansion of the generalized WFST: the enumeration of dictionary paths is exact, the arcs are
  those of the operations, staged nodes and states get their identifiers without a panic, and a
  committed expansion keeps the registries well-formed and within their limits.
\<close>

section \<open>Staged nodes\<close>

text \<open>The node a reference stands for, in the registry and the nodes staged so far.\<close>

definition denotes :: "'n node_registry \<Rightarrow> 'n staged_node list \<Rightarrow> pending_node \<Rightarrow> 'n option" where
  "denotes reg ss reference =
     (case reference of Registered i \<Rightarrow> reg_get_node reg i | Staged k \<Rightarrow> map_option sn_node (nth_opt ss k))"

definition staged_ok :: "('n, uchar) dictionary \<Rightarrow> 'n node_registry \<Rightarrow> 'n staged_node list \<Rightarrow> bool" where
  "staged_ok D reg ss \<longleftrightarrow> (\<forall>k < length ss. \<exists>n. denotes reg (take k ss) (sn_parent (ss ! k)) = Some n \<and>
     child_by D n (sn_label (ss ! k)) = Some (sn_node (ss ! k)))"

definition staging_ok :: "('n, uchar) dictionary \<Rightarrow> 'n node_registry \<Rightarrow> 'n staging \<Rightarrow> bool" where
  "staging_ok D reg st \<longleftrightarrow> staged_ok D reg (st_nodes st) \<and>
     (\<forall>p l reference. st_by_step st (p, l) = Some reference \<longrightarrow>
        (\<exists>k < length (st_nodes st). reference = Staged k \<and> sn_parent (st_nodes st ! k) = p \<and> sn_label (st_nodes st ! k) = l))"

definition staging_extends :: "'n staging \<Rightarrow> 'n staging \<Rightarrow> bool" where
  "staging_extends st st' \<longleftrightarrow> (\<exists>rest. st_nodes st' = st_nodes st @ rest)"

lemma staging_extends_refl [simp]: "staging_extends st st"
  by (simp add: staging_extends_def)

lemma staging_extends_trans: "staging_extends a b \<Longrightarrow> staging_extends b c \<Longrightarrow> staging_extends a c"
  by (auto simp: staging_extends_def)

lemma denotes_append: "denotes reg ss r = Some n \<Longrightarrow> denotes reg (ss @ rest) r = Some n"
  by (auto simp: denotes_def nth_opt_def nth_append split: pending_node.splits if_splits)

lemma denotes_ext: "staging_extends st st' \<Longrightarrow> denotes reg (st_nodes st) r = Some n \<Longrightarrow> denotes reg (st_nodes st') r = Some n"
  by (auto simp: staging_extends_def denotes_append)

lemma denotes_take: "denotes reg (take k ss) r = Some n \<Longrightarrow> denotes reg ss r = Some n"
  using denotes_append [of reg "take k ss" r n "drop k ss"] by simp

lemma stage_child_ok:
  assumes dict: "dictionary_ok D" and reg: "reg_wf reg" "reg_tracks D reg" and st: "staging_ok D reg st"
    and parent: "denotes reg (st_nodes st) parent = Some n" and child: "child_by D n l = Some m"
    and step: "stage_child (case parent of Registered i \<Rightarrow> reg_get_id reg (node_key_child i l) | Staged _ \<Rightarrow> None)
      parent l m st = (c, st')"
  shows "staging_ok D reg st' \<and> staging_extends st st' \<and> denotes reg (st_nodes st') c = Some m"
proof (cases "case parent of Registered i \<Rightarrow> reg_get_id reg (node_key_child i l) | Staged _ \<Rightarrow> None")
  case (Some j)
  then obtain i where i: "parent = Registered i" "reg_get_id reg (node_key_child i l) = Some j"
    by (auto split: pending_node.splits)
  have c: "c = Registered j" "st' = st" using step Some by (simp_all add: stage_child_def)
  have "reg_get_node reg i = Some n" using parent i(1) by (simp add: denotes_def)
  then have "reg_get_node reg j = Some m" by (rule reg_tracks_known [OF dict reg(2) _ child i(2)])
  then show ?thesis using st c by (simp add: denotes_def)
next
  case None
  show ?thesis
  proof (cases "st_by_step st (parent, l)")
    case (Some reference)
    have c: "c = reference" "st' = st" using step None Some by (simp_all add: stage_child_def)
    obtain k where k: "k < length (st_nodes st)" "reference = Staged k" "sn_parent (st_nodes st ! k) = parent" "sn_label (st_nodes st ! k) = l"
      using st Some unfolding staging_ok_def by blast
    obtain n' where n': "denotes reg (take k (st_nodes st)) parent = Some n'" "child_by D n' l = Some (sn_node (st_nodes st ! k))"
      using st k unfolding staging_ok_def staged_ok_def by metis
    have "n' = n" using denotes_take [OF n'(1)] parent by simp
    then show ?thesis using st c k n'(2) child by (simp add: denotes_def nth_opt_def)
  next
    case fresh: None
    let ?s = "\<lparr>sn_parent = parent, sn_label = l, sn_node = m, sn_shared = False\<rparr>"
    have c: "c = Staged (length (st_nodes st))"
      and st': "st' = \<lparr>st_nodes = st_nodes st @ [?s], st_by_step = (st_by_step st)((parent, l) \<mapsto> c)\<rparr>"
      using step None fresh by (auto simp: stage_child_def Let_def)
    have "\<exists>n. denotes reg (take k (st_nodes st @ [?s])) (sn_parent ((st_nodes st @ [?s]) ! k)) = Some n \<and>
        child_by D n (sn_label ((st_nodes st @ [?s]) ! k)) = Some (sn_node ((st_nodes st @ [?s]) ! k))"
      if "k < length (st_nodes st @ [?s])" for k
    proof (cases "k = length (st_nodes st)")
      case True
      then show ?thesis using parent child by simp
    next
      case False
      then have "k < length (st_nodes st)" using that by simp
      then show ?thesis using st unfolding staging_ok_def staged_ok_def by (simp add: nth_append)
    qed
    then have "staged_ok D reg (st_nodes st')" unfolding staged_ok_def st' by simp
    moreover have "\<exists>k < length (st_nodes st'). reference = Staged k \<and> sn_parent (st_nodes st' ! k) = p \<and> sn_label (st_nodes st' ! k) = l'"
      if "st_by_step st' (p, l') = Some reference" for p l' reference
    proof (cases "(p, l') = (parent, l)")
      case True
      then have "reference = Staged (length (st_nodes st))" using that by (simp add: st' c)
      then show ?thesis using True by (simp add: st')
    next
      case False
      then have "st_by_step st (p, l') = Some reference" using that by (auto simp: st')
      then obtain k where "k < length (st_nodes st)" "reference = Staged k" "sn_parent (st_nodes st ! k) = p" "sn_label (st_nodes st ! k) = l'"
        using st unfolding staging_ok_def by blast
      then show ?thesis by (intro exI [of _ k]) (simp add: st' nth_append)
    qed
    moreover have "denotes reg (st_nodes st') c = Some m" by (simp add: denotes_def nth_opt_def st' c)
    ultimately show ?thesis unfolding staging_ok_def by (simp add: staging_extends_def st')
  qed
qed

section \<open>Dictionary paths\<close>

text \<open>Dictionaries whose edges carry characters.\<close>

definition char_dictionary :: "('n, uchar) dictionary \<Rightarrow> bool" where
  "char_dictionary D \<longleftrightarrow> dictionary_ok D \<and> unit_char D = (\<lambda>c. c)"

lemma char_edge:
  assumes "char_dictionary D" and "(l, m) \<in> set (node_edges D n)"
  shows "child_by D n l = Some m"
  using child_by_edge [of D l m n] assms by (simp add: char_dictionary_def)

definition path_ok :: "('n, uchar) dictionary \<Rightarrow> 'n node_registry \<Rightarrow> 'n \<Rightarrow> usize \<Rightarrow> 'n staging \<Rightarrow> dict_path \<Rightarrow> bool" where
  "path_ok D reg n width st p \<longleftrightarrow> length (dp_output p) = width \<and> dp_bytes p = utf8_bytes (dp_output p) \<and>
     (\<exists>m. walk D n (dp_output p) = Some m \<and> denotes reg (st_nodes st) (dp_target p) = Some m)"

lemma path_ok_ext: "path_ok D reg n width st p \<Longrightarrow> staging_extends st st' \<Longrightarrow> path_ok D reg n width st' p"
  by (auto simp: path_ok_def denotes_ext)

text \<open>
  A frame belongs to a prefix of the current word: its node is at the end of the prefix, and its
  edges are some of that node's.
\<close>

definition frame_ok ::
    "('n, uchar) dictionary \<Rightarrow> 'n node_registry \<Rightarrow> 'n \<Rightarrow> usize \<Rightarrow> 'n staging \<Rightarrow> uchar list \<Rightarrow> nat list \<Rightarrow> 'n path_frame \<Rightarrow> bool" where
  "frame_ok D reg n0 width st wd bytes f \<longleftrightarrow>
     (case f of (parent, edges, ol, bl) \<Rightarrow> ol < width \<and> ol \<le> length wd \<and> bl \<le> length bytes \<and>
        take bl bytes = utf8_bytes (take ol wd) \<and>
        (\<exists>n. walk D n0 (take ol wd) = Some n \<and> denotes reg (st_nodes st) parent = Some n \<and>
          set edges \<subseteq> set (node_edges D n)))"

fun stack_ok ::
    "('n, uchar) dictionary \<Rightarrow> 'n node_registry \<Rightarrow> 'n \<Rightarrow> usize \<Rightarrow> 'n staging \<Rightarrow> uchar list \<Rightarrow> nat list \<Rightarrow> 'n path_frame list \<Rightarrow> bool" where
  "stack_ok D reg n0 width st wd bytes [] \<longleftrightarrow> True"
| "stack_ok D reg n0 width st wd bytes ((parent, edges, ol, bl) # fs) \<longleftrightarrow>
     frame_ok D reg n0 width st wd bytes (parent, edges, ol, bl) \<and>
     (\<forall>(p', e', ol', bl') \<in> set fs. ol' \<le> ol \<and> bl' \<le> bl) \<and> stack_ok D reg n0 width st wd bytes fs"

text \<open>The words a frame still has to produce.\<close>

definition frame_words :: "('n, uchar) dictionary \<Rightarrow> usize \<Rightarrow> uchar list \<Rightarrow> 'n path_frame \<Rightarrow> uchar list set" where
  "frame_words D width wd f =
     (case f of (parent, edges, ol, bl) \<Rightarrow>
        {take ol wd @ l # v | l m v. (l, m) \<in> set edges \<and> Suc (ol + length v) = width \<and> walk D m v \<noteq> None})"

lemma stack_ok_frames: "stack_ok D reg n0 width st wd bytes fs \<Longrightarrow> f \<in> set fs \<Longrightarrow> frame_ok D reg n0 width st wd bytes f"
  by (induction fs) auto

text \<open>Frames only look at the word up to their own length.\<close>

lemma frame_ok_cong:
  assumes "frame_ok D reg n0 width st wd bytes (p, e, ol, bl)" and "take ol wd' = take ol wd"
    and "take bl bytes' = take bl bytes" and "ol \<le> length wd'" and "bl \<le> length bytes'" and "staging_extends st st'"
  shows "frame_ok D reg n0 width st' wd' bytes' (p, e, ol, bl)"
  using assms denotes_ext [OF assms(6)] unfolding frame_ok_def by fastforce

lemma stack_ok_cong:
  assumes "stack_ok D reg n0 width st wd bytes fs" and "\<forall>(p, e, ol, bl) \<in> set fs. take ol wd' = take ol wd \<and>
      take bl bytes' = take bl bytes \<and> ol \<le> length wd' \<and> bl \<le> length bytes'" and "staging_extends st st'"
  shows "stack_ok D reg n0 width st' wd' bytes' fs"
  using assms
proof (induction fs)
  case (Cons f fs)
  obtain p e ol bl where f: "f = (p, e, ol, bl)" by (metis prod_cases4)
  then have "frame_ok D reg n0 width st wd bytes (p, e, ol, bl)" using Cons.prems(1) by simp
  then have "frame_ok D reg n0 width st' wd' bytes' (p, e, ol, bl)"
    by (rule frame_ok_cong) (use Cons.prems(2,3) f in auto)
  then show ?case using Cons f by simp
qed simp

lemma frame_words_cong: "take ol wd' = take ol wd \<Longrightarrow> frame_words D width wd' (p, e, ol, bl) = frame_words D width wd (p, e, ol, bl)"
  by (simp add: frame_words_def)

lemma take_lower: "ol' \<le> ol \<Longrightarrow> take ol' (take ol xs @ ys) = take ol' xs" if "ol \<le> length xs" for xs :: "'a list"
  using that by (simp add: min_def)

lemma walk_step: "walk D n xs = Some k \<Longrightarrow> child_by D k l = Some m \<Longrightarrow> walk D n (xs @ [l]) = Some m"
  by (simp add: walk_snoc)

lemma walk_Cons_edge:
  assumes "char_dictionary D" and "walk D n (l # v) \<noteq> None"
  obtains m where "(l, m) \<in> set (node_edges D n)" and "walk D m v \<noteq> None"
proof -
  obtain m where m: "child_by D n l = Some m" "walk D m v \<noteq> None" using assms(2) by (auto split: option.splits)
  obtain u where "(u, m) \<in> set (node_edges D n)" "unit_char D u = l" using m(1) by (rule child_by_SomeD)
  then show ?thesis using that m(2) assms(1) by (simp add: char_dictionary_def)
qed

text \<open>A frame that pushes the frame of a child hands over the words below the child.\<close>

lemma frame_words_Cons:
  "frame_words D width wd (parent, (l, m) # edges, ol, bl) =
     frame_words D width wd (parent, edges, ol, bl) \<union>
     {take ol wd @ l # v | v. Suc (ol + length v) = width \<and> walk D m v \<noteq> None}"
  by (auto simp: frame_words_def)

lemma child_frame_words:
  assumes "char_dictionary D" and "ol \<le> length wd" and "Suc ol \<noteq> width"
  shows "{take ol wd @ l # v | v. Suc (ol + length v) = width \<and> walk D m v \<noteq> None} \<subseteq>
    frame_words D width (take ol wd @ [l]) (c, node_edges D m, Suc ol, bl)"
proof
  fix w assume "w \<in> {take ol wd @ l # v | v. Suc (ol + length v) = width \<and> walk D m v \<noteq> None}"
  then obtain v where v: "w = take ol wd @ l # v" "Suc (ol + length v) = width" "walk D m v \<noteq> None" by blast
  obtain l' v' where vv: "v = l' # v'" using v(2) assms(3) by (cases v) auto
  obtain m' where m': "(l', m') \<in> set (node_edges D m)" "walk D m' v' \<noteq> None"
    using walk_Cons_edge [OF assms(1), of m l' v'] v(3) vv by blast
  have len: "length (take ol wd @ [l]) = Suc ol" using assms(2) by simp
  have "w = take (Suc ol) (take ol wd @ [l]) @ l' # v'" using v(1) vv len by simp
  moreover have "Suc (Suc ol + length v') = width" using v(2) vv by simp
  ultimately show "w \<in> frame_words D width (take ol wd @ [l]) (c, node_edges D m, Suc ol, bl)"
    using m' unfolding frame_words_def by blast
qed

lemma paths_loop_exact:
  "paths_loop D reg width stack wd bytes paths st b = Inr ((paths', st'), b') \<Longrightarrow>
   char_dictionary D \<Longrightarrow> reg_wf reg \<Longrightarrow> reg_tracks D reg \<Longrightarrow> staging_ok D reg st \<Longrightarrow>
   stack_ok D reg n0 width st wd bytes stack \<Longrightarrow>
   \<forall>p \<in> set paths. path_ok D reg n0 width st p \<Longrightarrow>
   staging_ok D reg st' \<and> staging_extends st st' \<and> charges b b' \<and> (\<forall>p \<in> set paths'. path_ok D reg n0 width st' p) \<and>
   dp_output ` set paths \<union> (\<Union>f \<in> set stack. frame_words D width wd f) \<subseteq> dp_output ` set paths'"
proof (induction D reg width stack wd bytes paths st b rule: paths_loop.induct)
  case (1 D reg width wd bytes paths st b)
  then show ?case by simp
next
  case (2 D reg width parent edges ol bl stack wd bytes paths st b)
  obtain b1 where b1: "charge_work 1 b = Inr ((), b1)"
    using "2.prems"(1) by (auto simp: cbind_eq_Inr)
  have ch1: "charges b b1" using charges_simps(1) [OF b1] .
  have top: "frame_ok D reg n0 width st wd bytes (parent, edges, ol, bl)"
    and lower: "\<forall>(p', e', ol', bl') \<in> set stack. ol' \<le> ol \<and> bl' \<le> bl" and rest: "stack_ok D reg n0 width st wd bytes stack"
    using "2.prems"(6) by simp_all
  have ol: "ol < width" "ol \<le> length wd" "bl \<le> length bytes" and bytes: "take bl bytes = utf8_bytes (take ol wd)"
    using top by (simp_all add: frame_ok_def)
  show ?case
  proof (cases edges)
    case Nil
    have run: "paths_loop D reg width stack (take ol wd) (take bl bytes) paths st b1 = Inr ((paths', st'), b')"
      using "2.prems"(1) b1 Nil by (simp add: cbind_def)
    have low: "\<forall>(p, e, ol', bl') \<in> set stack. take ol' (take ol wd) = take ol' wd \<and>
        take bl' (take bl bytes) = take bl' bytes \<and> ol' \<le> length (take ol wd) \<and> bl' \<le> length (take bl bytes)"
      using lower ol(2,3) by (auto simp: min_def)
    have "stack_ok D reg n0 width st (take ol wd) (take bl bytes) stack"
      by (rule stack_ok_cong [OF rest low]) simp
    from "2.IH"(1) [OF b1 Nil run "2.prems"(2-5) this "2.prems"(7)]
    have IH: "staging_ok D reg st' \<and> staging_extends st st' \<and> charges b1 b' \<and> (\<forall>p \<in> set paths'. path_ok D reg n0 width st' p) \<and>
      dp_output ` set paths \<union> (\<Union>f \<in> set stack. frame_words D width (take ol wd) f) \<subseteq> dp_output ` set paths'" .
    have same: "frame_words D width (take ol wd) f = frame_words D width wd f" if f: "f \<in> set stack" for f
    proof -
      obtain p' e' ol' bl' where g: "f = (p', e', ol', bl')" by (metis prod_cases4)
      have "take ol' (take ol wd) = take ol' wd" using bspec [OF low f] by (simp add: g)
      then show ?thesis unfolding g by (rule frame_words_cong)
    qed
    have none: "frame_words D width wd (parent, edges, ol, bl) = {}" by (simp add: frame_words_def Nil)
    have "(\<Union>f \<in> set ((parent, edges, ol, bl) # stack). frame_words D width wd f) = (\<Union>f \<in> set stack. frame_words D width (take ol wd) f)"
      by (simp add: none same)
    then show ?thesis using IH charges_trans [OF ch1] by auto
  next
    case (Cons e edges')
    obtain l m where e: "e = (l, m)" by force
    define registered where "registered = (case parent of Registered i \<Rightarrow> reg_get_id reg (node_key_child i l) | Staged _ \<Rightarrow> None)"
    obtain c st1 where stage: "stage_child registered parent l m st = (c, st1)" by force
    obtain n where n: "walk D n0 (take ol wd) = Some n" "denotes reg (st_nodes st) parent = Some n"
      "set edges \<subseteq> set (node_edges D n)" using top by (auto simp: frame_ok_def)
    have dict: "dictionary_ok D" using "2.prems"(2) by (simp add: char_dictionary_def)
    have child: "child_by D n l = Some m" using char_edge [OF "2.prems"(2)] n(3) Cons e by auto
    have st1: "staging_ok D reg st1" "staging_extends st st1" "denotes reg (st_nodes st1) c = Some m"
      using stage_child_ok [OF dict "2.prems"(3,4,5) n(2) child stage [unfolded registered_def]] by blast+
    let ?out = "take ol wd @ [l]" and ?by = "take bl bytes @ utf8_encode l"
    let ?frame = "(parent, edges', ol, bl)"
    have out: "length ?out = Suc ol" "utf8_bytes ?out = ?by" using ol(2) bytes by (simp_all add: utf8_bytes_def)
    have walk: "walk D n0 ?out = Some m" using walk_step [OF n(1) child] .
    have takes: "take ol' ?out = take ol' wd" if "ol' \<le> ol" for ol' using that ol(2) by (simp add: min_def)
    have btakes: "take bl' ?by = take bl' bytes" if "bl' \<le> bl" for bl' using that ol(3) by (simp add: min_def)
    have low: "\<forall>(p, e, ol', bl') \<in> set stack. take ol' ?out = take ol' wd \<and> take bl' ?by = take bl' bytes \<and>
        ol' \<le> length ?out \<and> bl' \<le> length ?by"
      using lower takes btakes ol by fastforce
    have "stack_ok D reg n0 width st1 ?out ?by stack" by (rule stack_ok_cong [OF rest low st1(2)])
    moreover have "frame_ok D reg n0 width st1 ?out ?by ?frame"
    proof (rule frame_ok_cong [OF _ takes btakes _ _ st1(2)])
      show "frame_ok D reg n0 width st wd bytes ?frame" using top Cons by (auto simp: frame_ok_def)
    qed (use ol in simp_all)
    ultimately have frames: "stack_ok D reg n0 width st1 ?out ?by (?frame # stack)" using lower by simp
    have same: "frame_words D width ?out f = frame_words D width wd f" if f: "f \<in> set stack" for f
    proof -
      obtain p' e' ol' bl' where g: "f = (p', e', ol', bl')" by (metis prod_cases4)
      have "take ol' ?out = take ol' wd" using bspec [OF low f] by (simp add: g)
      then show ?thesis unfolding g by (rule frame_words_cong)
    qed
    let ?below = "{take ol wd @ l # v | v. Suc (ol + length v) = width \<and> walk D m v \<noteq> None}"
    have "frame_words D width ?out ?frame = frame_words D width wd ?frame" by (rule frame_words_cong [OF takes]) simp
    then have words: "(\<Union>f \<in> set ((parent, edges, ol, bl) # stack). frame_words D width wd f) =
        ?below \<union> (\<Union>f \<in> set (?frame # stack). frame_words D width ?out f)"
      using same by (auto simp: Cons e frame_words_Cons)
    have ext_paths: "\<forall>p \<in> set paths. path_ok D reg n0 width st1 p" using "2.prems"(7) path_ok_ext [OF _ st1(2)] by simp
    show ?thesis
    proof (cases "length ?out = width")
      case True
      let ?path = "\<lparr>dp_target = c, dp_output = ?out, dp_bytes = ?by\<rparr>"
      from "2.prems"(1) b1 True obtain b2 b3 where c2: "charge_path b1 = Inr ((), b2)"
        and c3: "charge_work (1 + length ?out + length ?by) b2 = Inr ((), b3)"
        and run: "paths_loop D reg width (?frame # stack) ?out ?by (paths @ [?path]) st1 b3 = Inr ((paths', st'), b')"
        by (auto simp: Cons e cbind_eq_Inr Let_def stage [unfolded registered_def])
      have "path_ok D reg n0 width st1 ?path" using True out(2) walk st1(3) by (simp add: path_ok_def)
      then have ok: "\<forall>p \<in> set (paths @ [?path]). path_ok D reg n0 width st1 p" using ext_paths by auto
      have IH: "staging_ok D reg st' \<and> staging_extends st1 st' \<and> charges b3 b' \<and> (\<forall>p \<in> set paths'. path_ok D reg n0 width st' p) \<and>
          dp_output ` set (paths @ [?path]) \<union> (\<Union>f \<in> set (?frame # stack). frame_words D width ?out f) \<subseteq> dp_output ` set paths'"
        by (rule "2.IH"(2) [OF b1 Cons e [symmetric] refl refl stage [unfolded registered_def, symmetric] refl refl refl True
              c2 c3 run "2.prems"(2-4) st1(1) frames ok])
      have "?below = {?out}" using True out(1) by auto
      moreover have "charges b b3" using ch1 charges_simps(4) [OF c2] charges_simps(1) [OF c3] charges_trans by blast
      ultimately show ?thesis using IH words staging_extends_trans [OF st1(2)] charges_trans by auto
    next
      case False
      from "2.prems"(1) b1 False obtain es b2 where c2: "bounded_edges D m b1 = Inr (es, b2)"
        and run: "paths_loop D reg width ((c, es, length ?out, length ?by) # ?frame # stack) ?out ?by paths st1 b2 = Inr ((paths', st'), b')"
        by (auto simp: Cons e cbind_eq_Inr Let_def stage [unfolded registered_def])
      have es: "es = node_edges D m" "charges b1 b2" using bounded_edges_eq [OF c2] by simp_all
      have lt: "Suc ol < width" using False ol(1) out(1) by simp
      have "frame_ok D reg n0 width st1 ?out ?by (c, es, length ?out, length ?by)"
        using lt out walk st1(3) ol(3) by (auto simp: frame_ok_def es min_def)
      then have ok: "stack_ok D reg n0 width st1 ?out ?by ((c, es, length ?out, length ?by) # ?frame # stack)"
        using frames low by (auto simp: ol)
      have IH: "staging_ok D reg st' \<and> staging_extends st1 st' \<and> charges b2 b' \<and> (\<forall>p \<in> set paths'. path_ok D reg n0 width st' p) \<and>
          dp_output ` set paths \<union> (\<Union>f \<in> set ((c, es, length ?out, length ?by) # ?frame # stack). frame_words D width ?out f)
            \<subseteq> dp_output ` set paths'"
        by (rule "2.IH"(3) [OF b1 Cons e [symmetric] refl refl stage [unfolded registered_def, symmetric] refl refl refl False
              c2 run "2.prems"(2-4) st1(1) ok ext_paths])
      have sub: "?below \<subseteq> frame_words D width ?out (c, es, length ?out, length ?by)"
        using child_frame_words [OF "2.prems"(2) ol(2), of width l m c "length ?by"] lt by (simp only: es out)
      have parts: "frame_words D width ?out (c, es, length ?out, length ?by) \<subseteq> dp_output ` set paths'"
        "(\<Union>f \<in> set (?frame # stack). frame_words D width ?out f) \<subseteq> dp_output ` set paths'"
        "dp_output ` set paths \<subseteq> dp_output ` set paths'" using IH by simp_all
      have "dp_output ` set paths \<union> (\<Union>f \<in> set ((parent, edges, ol, bl) # stack). frame_words D width wd f) \<subseteq> dp_output ` set paths'"
        unfolding words by (intro Un_least parts subset_trans [OF sub])
      moreover have "charges b b'" using IH charges_trans [OF charges_trans [OF ch1 es(2)]] by simp
      moreover have "staging_extends st st'" using IH staging_extends_trans [OF st1(2)] by simp
      ultimately show ?thesis using IH by simp
    qed
  qed
qed

text \<open>What a set of paths of one width should be: all words of that width, each with its node.\<close>

definition paths_exact ::
    "('n, uchar) dictionary \<Rightarrow> 'n node_registry \<Rightarrow> 'n \<Rightarrow> usize \<Rightarrow> 'n staging \<Rightarrow> dict_path list \<Rightarrow> bool" where
  "paths_exact D reg n width st paths \<longleftrightarrow>
     (\<forall>p \<in> set paths. path_ok D reg n width st p) \<and>
     (\<forall>w. length w = width \<longrightarrow> walk D n w \<noteq> None \<longrightarrow> (\<exists>p \<in> set paths. dp_output p = w))"

lemma paths_exact_ext: "paths_exact D reg n width st paths \<Longrightarrow> staging_extends st st' \<Longrightarrow> paths_exact D reg n width st' paths"
  by (auto simp: paths_exact_def path_ok_ext)

lemma dictionary_paths_exact:
  assumes run: "dictionary_paths_exact_chars g i width st b = Inr ((paths, st'), b')"
    and node: "gen_dictionary_node g i = Some n" and dict: "char_dictionary (gw_dictionary g)"
    and reg: "reg_wf (gw_nodes g)" "reg_tracks (gw_dictionary g) (gw_nodes g)" and st: "staging_ok (gw_dictionary g) (gw_nodes g) st"
  shows "staging_ok (gw_dictionary g) (gw_nodes g) st' \<and> staging_extends st st' \<and>
    paths_exact (gw_dictionary g) (gw_nodes g) n width st' paths"
proof (cases "width = 0")
  case True
  then have "st' = st" "paths = [\<lparr>dp_target = Registered i, dp_output = [], dp_bytes = []\<rparr>]"
    using run node by (auto simp: dictionary_paths_exact_chars_def cbind_eq_Inr creturn_def)
  then show ?thesis using True st node
    by (simp add: paths_exact_def path_ok_def denotes_def gen_dictionary_node_def utf8_bytes_def)
next
  case False
  then obtain edges b1 where e: "bounded_edges (gw_dictionary g) n b = Inr (edges, b1)"
    and loop: "paths_loop (gw_dictionary g) (gw_nodes g) width [(Registered i, edges, 0, 0)] [] [] [] st b1 = Inr ((paths, st'), b')"
    using run node by (auto simp: dictionary_paths_exact_chars_def cbind_eq_Inr)
  have edges: "edges = node_edges (gw_dictionary g) n" using bounded_edges_eq [OF e] by simp
  have stack: "stack_ok (gw_dictionary g) (gw_nodes g) n width st [] [] [(Registered i, edges, 0, 0)]"
    using False node by (simp add: frame_ok_def edges denotes_def gen_dictionary_node_def utf8_bytes_def)
  have all: "staging_ok (gw_dictionary g) (gw_nodes g) st' \<and> staging_extends st st' \<and> charges b1 b' \<and>
      (\<forall>p \<in> set paths. path_ok (gw_dictionary g) (gw_nodes g) n width st' p) \<and>
      dp_output ` set ([] :: dict_path list) \<union> (\<Union>f \<in> set [(Registered i, edges, 0, 0)]. frame_words (gw_dictionary g) width [] f) \<subseteq> dp_output ` set paths"
    by (rule paths_loop_exact [OF loop dict reg st stack]) simp
  have "\<exists>p \<in> set paths. dp_output p = w" if len: "length w = width" and wk: "walk (gw_dictionary g) n w \<noteq> None" for w
  proof -
    obtain l v where w: "w = l # v" using len False by (cases w) auto
    obtain m where "(l, m) \<in> set edges" "walk (gw_dictionary g) m v \<noteq> None"
      using walk_Cons_edge [OF dict] wk w edges by blast
    then have "w \<in> frame_words (gw_dictionary g) width [] (Registered i, edges, 0, 0)"
      using len w by (force simp: frame_words_def)
    then show ?thesis using all by auto
  qed
  then show ?thesis using all by (simp add: paths_exact_def)
qed

end
