(* ===== verification/Generalized_Arcs.thy ===== *)
theory Generalized_Arcs
  imports Generalized_Paths
begin

text \<open>
  The arcs of an expansion. A step of the generalized automaton applies one operation to a word of
  the dictionary and a segment of the query; the loop over the prepared operations, with its caches
  of paths and segments per width, computes exactly the arcs of these steps, and never panics.
\<close>

section \<open>What a computation guarantees\<close>

text \<open>No panic, and the postcondition for every result.\<close>

definition runs :: "'a charged \<Rightarrow> expansion_budget \<Rightarrow> ('a \<Rightarrow> expansion_budget \<Rightarrow> bool) \<Rightarrow> bool" where
  "runs m b P \<longleftrightarrow> (case m b of Inl s \<Rightarrow> s \<noteq> Panicked | Inr (x, b') \<Rightarrow> P x b')"

lemma runsD: "runs m b P \<Longrightarrow> m b = Inr (x, b') \<Longrightarrow> P x b'"
  by (simp add: runs_def)

lemma runs_no_panic: "runs m b P \<Longrightarrow> m b \<noteq> Inl Panicked"
  by (auto simp: runs_def)

lemma runsI: "m b \<noteq> Inl Panicked \<Longrightarrow> (\<And>x b'. m b = Inr (x, b') \<Longrightarrow> P x b') \<Longrightarrow> runs m b P"
  by (auto simp: runs_def split: sum.split)

lemma runs_cbind: "runs (cbind m f) b P \<longleftrightarrow> runs m b (\<lambda>x b'. runs (f x) b' P)"
  by (auto simp: runs_def cbind_def split: sum.split)

lemma runs_mono: "runs m b P \<Longrightarrow> (\<And>x b'. m b = Inr (x, b') \<Longrightarrow> P x b' \<Longrightarrow> Q x b') \<Longrightarrow> runs m b Q"
  by (auto simp: runs_def split: sum.splits)

lemma runs_simps [simp]:
  "runs (creturn x) b P \<longleftrightarrow> P x b" "runs (cfail e) b P \<longleftrightarrow> True" "runs cpanic b P \<longleftrightarrow> False"
  "runs (clift r) b P \<longleftrightarrow> (case r of Inl s \<Rightarrow> s \<noteq> Panicked | Inr x \<Rightarrow> P x b)"
  by (auto simp: runs_def creturn_def cfail_def cpanic_def clift_def split: sum.split)

lemma stopped_no_panic [simp]: "stopped e \<noteq> Panicked" "Panicked \<noteq> stopped e"
  by (simp_all add: stopped_def)

lemma primitive_no_panic [simp]:
  "charge_work u b \<noteq> Inl Panicked" "charge_path b \<noteq> Inl Panicked" "check_cancelled b \<noteq> Inl Panicked" "check_source b \<noteq> Inl Panicked"
  by (auto simp: charge_work_def charge_path_def check_cancelled_def check_source_def cbind_def require_charged_def
      split: option.splits sum.splits)

text \<open>Charging and checking can stop a computation but not change what it does.\<close>

lemma runs_primitive:
  assumes "\<And>b'. P () b'"
  shows "runs (charge_work u) b P" "runs charge_path b P" "runs check_cancelled b P" "runs check_source b P"
  using assms by (auto intro!: runsI)

lemma runs_collect_edges: "runs (collect_edges es owned) b (\<lambda>r b'. r = owned @ es)"
proof (induction es owned arbitrary: b rule: collect_edges.induct)
  case (1 owned)
  then show ?case by (simp add: runs_cbind runs_primitive)
next
  case (2 e es owned)
  then show ?case by (simp add: runs_cbind runs_primitive)
qed

lemma runs_bounded_edges: "runs (bounded_edges D n) b (\<lambda>r b'. r = node_edges D n)"
proof -
  have "runs (collect_edges (node_edges D n) []) b1 (\<lambda>owned b2. runs check_source b2 (\<lambda>_ b3. runs (creturn owned) b3 (\<lambda>r b'. r = node_edges D n)))"
    for b1 by (rule runs_mono [OF runs_collect_edges]) (simp add: runs_primitive)
  then show ?thesis by (simp add: bounded_edges_def runs_cbind runs_primitive)
qed

lemma bounded_edges_no_panic [simp]: "bounded_edges D n b \<noteq> Inl Panicked"
  by (rule runs_no_panic [OF runs_bounded_edges])

lemma cbind_no_panic: "m b \<noteq> Inl Panicked \<Longrightarrow> (\<And>x b'. m b = Inr (x, b') \<Longrightarrow> f x b' \<noteq> Inl Panicked) \<Longrightarrow> cbind m f b \<noteq> Inl Panicked"
  by (auto simp: cbind_def split: sum.splits)

lemma paths_loop_no_panic: "paths_loop D reg width stack wd bytes paths st b \<noteq> Inl Panicked"
proof (induction D reg width stack wd bytes paths st b rule: paths_loop.induct)
  case (1 D reg width wd bytes paths st b)
  then show ?case by simp
next
  case (2 D reg width parent edges ol bl stack wd bytes paths st b)
  have "cbind (charge_work 1) F b \<noteq> Inl Panicked"
    if "\<And>b1. charge_work 1 b = Inr ((), b1) \<Longrightarrow> F () b1 \<noteq> Inl Panicked" for F :: "unit \<Rightarrow> (dict_path list \<times> 'a staging) charged"
    by (rule cbind_no_panic) (use that in simp_all)
  note outer = this
  show ?case
  proof (subst paths_loop.simps(2), rule outer, goal_cases)
    case (1 b1)
    show ?case
    proof (cases edges)
      case Nil
      then show ?thesis using "2.IH"(1) [OF 1 Nil] by simp
    next
      case (Cons e edges')
      obtain l m where e: "e = (l, m)" by force
      define registered where "registered = (case parent of Registered i \<Rightarrow> reg_get_id reg (node_key_child i l) | Staged _ \<Rightarrow> None)"
      obtain c st1 where stage: "stage_child registered parent l m st = (c, st1)" by force
      note step = e [symmetric] refl refl stage [unfolded registered_def, symmetric] refl refl refl
      show ?thesis
      proof (cases "length (take ol wd @ [l]) = width")
        case True
        show ?thesis
          unfolding Cons e list.case prod.case Let_def stage [unfolded registered_def] if_P [OF True]
          by (intro cbind_no_panic "2.IH"(2) [OF 1 Cons step True]) simp_all
      next
        case False
        show ?thesis
          unfolding Cons e list.case prod.case Let_def stage [unfolded registered_def] if_not_P [OF False]
          by (intro cbind_no_panic "2.IH"(3) [OF 1 Cons step False]) simp_all
      qed
    qed
  qed
qed

lemma dictionary_paths_no_panic [simp]: "dictionary_paths_exact_chars g i width st b \<noteq> Inl Panicked"
proof (cases "gen_dictionary_node g i")
  case (Some n)
  have "cbind charge_path (\<lambda>_. cbind (charge_work 1) (\<lambda>_. creturn r)) b \<noteq> Inl Panicked" for r :: "dict_path list \<times> 'a staging"
    by (intro cbind_no_panic) (simp_all add: creturn_def)
  moreover have "cbind (bounded_edges D n) (\<lambda>edges. paths_loop D reg width (stack edges) [] [] [] st) b \<noteq> Inl Panicked" for D reg stack
    by (intro cbind_no_panic paths_loop_no_panic) simp
  ultimately show ?thesis by (simp add: dictionary_paths_exact_chars_def Some)
qed (simp add: dictionary_paths_exact_chars_def cfail_def)

section \<open>The steps of the automaton\<close>

text \<open>
  One application of an operation at the node \<open>n\<close>, query position and cost: it consumes the word
  \<open>u\<close> of the dictionary and the segment \<open>v\<close> of the query.
\<close>

definition op_step ::
    "'n gen_wfst \<Rightarrow> 'n \<times> usize \<times> usize \<Rightarrow> operation \<Rightarrow> uchar list \<Rightarrow> uchar list \<Rightarrow> 'n \<times> usize \<times> usize \<Rightarrow> bool" where
  "op_step g x op u v y \<longleftrightarrow>
     (case (x, y) of ((n, pos, cost), (m, pos', cost')) \<Rightarrow>
        op \<in> set (gw_operations g) \<and> length u = consume_x op \<and> length v = consume_y op \<and>
        walk (gw_dictionary g) n u = Some m \<and>
        (\<exists>before after. gw_query g = before @ v @ after \<and> pos = byte_len before \<and> pos' = byte_len (before @ v)) \<and>
        operation_applies op u (utf8_bytes u) v (utf8_bytes v) \<and>
        (\<exists>k. to_scaled (gw_scale g) (op_weight op) = Inr k \<and> cost' = cost + k) \<and> cost' \<le> gw_max_cost g)"

definition prepared_op :: "'n gen_wfst \<Rightarrow> prepared_operation \<Rightarrow> operation \<Rightarrow> bool" where
  "prepared_op g p op \<longleftrightarrow> (\<exists>i < length (gw_operations g). op = gw_operations g ! i \<and> p = gw_prepared g ! i)"

text \<open>The prepared operations belong to the operations, and slots to widths.\<close>

definition ops_ok :: "'n gen_wfst \<Rightarrow> bool" where
  "ops_ok g \<longleftrightarrow> length (gw_prepared g) = length (gw_operations g) \<and>
     (\<forall>p op. prepared_op g p op \<longrightarrow>
        gw_operations g ! po_index p = op \<and> po_consume_x p = consume_x op \<and> po_consume_y p = consume_y op \<and>
        po_weight p = op_weight op \<and> to_scaled (gw_scale g) (op_weight op) = Inr (po_scaled_weight p) \<and>
        po_source_slot p < gw_source_slots g \<and> po_query_slot p < gw_query_slots g) \<and>
     (\<forall>p op p' op'. prepared_op g p op \<longrightarrow> prepared_op g p' op' \<longrightarrow>
        (po_source_slot p = po_source_slot p' \<longrightarrow> consume_x op = consume_x op') \<and>
        (po_query_slot p = po_query_slot p' \<longrightarrow> consume_y op = consume_y op'))"

lemma ops_okD:
  assumes "ops_ok g" and "prepared_op g p op"
  shows "gw_operations g ! po_index p = op" "po_consume_x p = consume_x op" "po_consume_y p = consume_y op"
    "po_weight p = op_weight op" "to_scaled (gw_scale g) (op_weight op) = Inr (po_scaled_weight p)"
    "po_source_slot p < gw_source_slots g" "po_query_slot p < gw_query_slots g" "op \<in> set (gw_operations g)"
proof -
  have "gw_operations g ! po_index p = op \<and> po_consume_x p = consume_x op \<and> po_consume_y p = consume_y op \<and>
        po_weight p = op_weight op \<and> to_scaled (gw_scale g) (op_weight op) = Inr (po_scaled_weight p) \<and>
        po_source_slot p < gw_source_slots g \<and> po_query_slot p < gw_query_slots g"
    using assms unfolding ops_ok_def by blast
  moreover have "op \<in> set (gw_operations g)" using assms(2) by (auto simp: prepared_op_def)
  ultimately show "gw_operations g ! po_index p = op" "po_consume_x p = consume_x op" "po_consume_y p = consume_y op"
    "po_weight p = op_weight op" "to_scaled (gw_scale g) (op_weight op) = Inr (po_scaled_weight p)"
    "po_source_slot p < gw_source_slots g" "po_query_slot p < gw_query_slots g" "op \<in> set (gw_operations g)" by simp_all
qed

text \<open>A WFST whose dictionary, query, operations and node registry fit together.\<close>

definition gen_base :: "'n gen_wfst \<Rightarrow> bool" where
  "gen_base g \<longleftrightarrow> char_dictionary (gw_dictionary g) \<and> text_fits (gw_query g) \<and> ops_ok g \<and>
     reg_wf (gw_nodes g) \<and> reg_tracks (gw_dictionary g) (gw_nodes g)"

section \<open>The loop over the operations\<close>

fun path_entry_ok :: "'n gen_wfst \<Rightarrow> 'n \<Rightarrow> 'n staging \<Rightarrow> usize \<Rightarrow> dict_path list width_cache_entry \<Rightarrow> bool" where
  "path_entry_ok g n st width Uncomputed \<longleftrightarrow> True"
| "path_entry_ok g n st width Missing \<longleftrightarrow> False"
| "path_entry_ok g n st width (Ready paths) \<longleftrightarrow> paths_exact (gw_dictionary g) (gw_nodes g) n width st paths"

fun query_entry_ok :: "'n gen_wfst \<Rightarrow> usize \<Rightarrow> usize \<Rightarrow> query_segment width_cache_entry \<Rightarrow> bool" where
  "query_entry_ok g pos width Uncomputed \<longleftrightarrow> True"
| "query_entry_ok g pos width Missing \<longleftrightarrow> gen_query_segment g pos width = None"
| "query_entry_ok g pos width (Ready q) \<longleftrightarrow>
     (\<exists>seg e. gen_query_segment g pos width = Some (seg, e) \<and> q = query_segment_new seg e)"

definition work_ok :: "'n gen_wfst \<Rightarrow> 'n \<Rightarrow> usize \<Rightarrow> 'n product_work \<Rightarrow> bool" where
  "work_ok g n pos pw \<longleftrightarrow> staging_ok (gw_dictionary g) (gw_nodes g) (pw_staging pw) \<and>
     length (pw_paths pw) = gw_source_slots g \<and> length (pw_queries pw) = gw_query_slots g \<and>
     (\<forall>p op. prepared_op g p op \<longrightarrow>
        path_entry_ok g n (pw_staging pw) (consume_x op) (pw_paths pw ! po_source_slot p) \<and>
        query_entry_ok g pos (consume_y op) (pw_queries pw ! po_query_slot p))"

definition arc_ok :: "'n gen_wfst \<Rightarrow> 'n \<times> usize \<times> usize \<Rightarrow> 'n staging \<Rightarrow> pending_arc \<Rightarrow> bool" where
  "arc_ok g x st a \<longleftrightarrow>
     (\<exists>op m. op_step g x op (pa_output a) (pa_input a) (m, pa_query_pos a, pa_cost a) \<and>
        pa_weight a = op_weight op \<and> denotes (gw_nodes g) (st_nodes st) (pa_target a) = Some m)"

lemma arc_ok_ext: "arc_ok g x st a \<Longrightarrow> staging_extends st st' \<Longrightarrow> arc_ok g x st' a"
  by (auto simp: arc_ok_def dest: denotes_ext)

definition covers :: "'n gen_wfst \<Rightarrow> 'n \<times> usize \<times> usize \<Rightarrow> operation \<Rightarrow> pending_arc list \<Rightarrow> bool" where
  "covers g x op arcs \<longleftrightarrow>
     (\<forall>u v m pos' cost'. op_step g x op u v (m, pos', cost') \<longrightarrow>
        (\<exists>a \<in> set arcs. pa_output a = u \<and> pa_input a = v \<and> pa_query_pos a = pos' \<and> pa_cost a = cost' \<and>
           pa_weight a = op_weight op))"

lemma covers_mono: "covers g x op arcs \<Longrightarrow> set arcs \<subseteq> set arcs' \<Longrightarrow> covers g x op arcs'"
  unfolding covers_def by blast

lemma work_ok_extend:
  assumes "work_ok g n pos pw" and "staging_ok (gw_dictionary g) (gw_nodes g) st" and "staging_extends (pw_staging pw) st"
  shows "work_ok g n pos (pw\<lparr>pw_staging := st\<rparr>)"
proof -
  have "path_entry_ok g n st width entry" if "path_entry_ok g n (pw_staging pw) width entry" for width entry
    using that by (cases entry) (simp_all add: paths_exact_ext [OF _ assms(3)])
  then show ?thesis using assms(1,2) by (simp add: work_ok_def)
qed

lemma work_ok_paths:
  assumes "ops_ok g" and "work_ok g n pos pw" and "prepared_op g p op"
    and "paths_exact (gw_dictionary g) (gw_nodes g) n (consume_x op) (pw_staging pw) paths"
  shows "work_ok g n pos (pw\<lparr>pw_paths := (pw_paths pw)[po_source_slot p := Ready paths]\<rparr>)"
proof -
  have "consume_x op' = consume_x op" if "prepared_op g p' op'" "po_source_slot p' = po_source_slot p" for p' op'
    using assms(1,3) that unfolding ops_ok_def by blast
  then show ?thesis
    using assms(2,4) ops_okD(6) [OF assms(1,3)] by (simp add: work_ok_def nth_list_update)
qed

lemma work_ok_queries:
  assumes "ops_ok g" and "work_ok g n pos pw" and "prepared_op g p op"
  shows "work_ok g n pos (pw\<lparr>pw_queries := (pw_queries pw)[po_query_slot p :=
    (case gen_query_segment g pos (consume_y op) of
       Some (segment, end_pos) \<Rightarrow> Ready (query_segment_new segment end_pos)
     | None \<Rightarrow> Missing)]\<rparr>)"
proof -
  have "consume_y op' = consume_y op" if "prepared_op g p' op'" "po_query_slot p' = po_query_slot p" for p' op'
    using assms(1,3) that unfolding ops_ok_def by blast
  then show ?thesis
    using assms(2) ops_okD(7) [OF assms(1,3)] by (simp add: work_ok_def nth_list_update split: option.split)
qed

lemma load_query_runs:
  assumes "ops_ok g" and "work_ok g n (ps_query_pos product) pw" and "prepared_op g p op"
  shows "runs (load_query g product p pw) b (\<lambda>pw' _. work_ok g n (ps_query_pos product) pw' \<and>
    pw_staging pw' = pw_staging pw \<and> pw_arcs pw' = pw_arcs pw \<and> pw_queries pw' ! po_query_slot p \<noteq> Uncomputed)"
proof (cases "pw_queries pw ! po_query_slot p")
  case Uncomputed
  have "po_query_slot p < length (pw_queries pw)" using ops_okD(7) [OF assms(1,3)] assms(2) by (simp add: work_ok_def)
  then show ?thesis using work_ok_queries [OF assms] Uncomputed ops_okD(3) [OF assms(1,3)]
    by (auto simp: load_query_def runs_cbind intro!: runs_primitive split: option.split)
qed (use assms in \<open>simp_all add: load_query_def\<close>)

lemma load_paths_runs:
  assumes "gen_base g" and "work_ok g n (ps_query_pos product) pw" and "prepared_op g p op"
    and "gen_dictionary_node g (ps_node product) = Some n"
  shows "runs (load_paths g product p pw) b (\<lambda>pw' _. work_ok g n (ps_query_pos product) pw' \<and>
    staging_extends (pw_staging pw) (pw_staging pw') \<and> pw_arcs pw' = pw_arcs pw \<and> pw_queries pw' = pw_queries pw \<and>
    (\<exists>paths. pw_paths pw' ! po_source_slot p = Ready paths \<and>
      paths_exact (gw_dictionary g) (gw_nodes g) n (consume_x op) (pw_staging pw') paths))"
proof (cases "pw_paths pw ! po_source_slot p")
  case Uncomputed
  have ok: "ops_ok g" and base: "char_dictionary (gw_dictionary g)" "reg_wf (gw_nodes g)" "reg_tracks (gw_dictionary g) (gw_nodes g)"
    using assms(1) by (simp_all add: gen_base_def)
  have st: "staging_ok (gw_dictionary g) (gw_nodes g) (pw_staging pw)"
    and lt: "po_source_slot p < length (pw_paths pw)" using ops_okD(6) [OF ok assms(3)] assms(2) by (simp_all add: work_ok_def)
  have "work_ok g n (ps_query_pos product) (pw\<lparr>pw_staging := st', pw_paths := (pw_paths pw)[po_source_slot p := Ready paths]\<rparr>) \<and>
      staging_extends (pw_staging pw) st' \<and> paths_exact (gw_dictionary g) (gw_nodes g) n (consume_x op) st' paths"
    if "dictionary_paths_exact_chars g (ps_node product) (consume_x op) (pw_staging pw) b = Inr ((paths, st'), b')" for paths st' b'
  proof -
    have e: "staging_ok (gw_dictionary g) (gw_nodes g) st'" "staging_extends (pw_staging pw) st'"
      "paths_exact (gw_dictionary g) (gw_nodes g) n (consume_x op) st' paths"
      using dictionary_paths_exact [OF that assms(4) base st] by blast+
    show ?thesis using work_ok_paths [OF ok work_ok_extend [OF assms(2) e(1,2)] assms(3), of paths] e by simp
  qed
  then show ?thesis using Uncomputed lt ops_okD(2) [OF ok assms(3)]
    by (auto simp: load_paths_def runs_cbind intro!: runsI [where m = "dictionary_paths_exact_chars _ _ _ _"])
next
  case (Ready paths)
  then have "paths_exact (gw_dictionary g) (gw_nodes g) n (consume_x op) (pw_staging pw) paths"
    using assms(2,3) unfolding work_ok_def by (metis path_entry_ok.simps(2,3))
  then show ?thesis using assms(2) Ready by (simp add: load_paths_def)
next
  case Missing
  then show ?thesis using assms(2,3) unfolding work_ok_def by (metis path_entry_ok.simps(2,3))
qed

definition path_arc :: "prepared_operation \<Rightarrow> usize \<Rightarrow> query_segment \<Rightarrow> dict_path \<Rightarrow> pending_arc" where
  "path_arc p cost q path =
     \<lparr>pa_target = dp_target path, pa_query_pos = qs_end q, pa_cost = cost,
      pa_input = qs_chars q, pa_output = dp_output path, pa_weight = po_weight p\<rparr>"

definition path_applies :: "operation \<Rightarrow> query_segment \<Rightarrow> dict_path \<Rightarrow> bool" where
  "path_applies op q path = operation_applies op (dp_output path) (dp_bytes path) (qs_chars q) (qs_bytes q)"

lemma emit_paths_runs:
  "runs (emit_paths op p cost q paths arcs) b
     (\<lambda>r _. r = arcs @ map (path_arc p cost q) (List.filter (path_applies op q) paths))"
proof (induction paths arbitrary: arcs b)
  case (Cons path paths)
  have eq: "emit_paths op p cost q (path # paths) arcs =
      cbind (charge_work (1 + length (dp_bytes path) + length (qs_bytes q))) (\<lambda>_.
        if \<not> path_applies op q path then emit_paths op p cost q paths arcs
        else cbind (charge_work (1 + length (dp_output path) + length (qs_chars q))) (\<lambda>_.
               emit_paths op p cost q paths (arcs @ [path_arc p cost q path])))"
    by (simp add: path_applies_def path_arc_def)
  show ?case
  proof (cases "path_applies op q path")
    case True
    have "runs (emit_paths op p cost q paths (arcs @ [path_arc p cost q path])) b
        (\<lambda>r _. r = arcs @ map (path_arc p cost q) (List.filter (path_applies op q) (path # paths)))" for b
      using Cons [of "arcs @ [path_arc p cost q path]" b] True by simp
    then show ?thesis unfolding eq using True by (simp add: runs_cbind runs_primitive)
  next
    case False
    then show ?thesis unfolding eq using Cons by (simp add: runs_cbind runs_primitive)
  qed
qed simp

lemma op_step_prepared:
  assumes "gen_base g" and "prepared_op g p op"
  shows "op_step g (n, pos, cost) op u v (m, pos', cost') \<longleftrightarrow>
    length u = consume_x op \<and> walk (gw_dictionary g) n u = Some m \<and>
    gen_query_segment g pos (consume_y op) = Some (v, pos') \<and>
    operation_applies op u (utf8_bytes u) v (utf8_bytes v) \<and>
    cost' = cost + po_scaled_weight p \<and> cost' \<le> gw_max_cost g"
proof -
  have ok: "ops_ok g" and fits: "text_fits (gw_query g)" using assms(1) by (simp_all add: gen_base_def)
  have "gen_query_segment g pos (consume_y op) = Some (v, pos') \<longleftrightarrow> length v = consume_y op \<and>
      (\<exists>before after. gw_query g = before @ v @ after \<and> pos = byte_len before \<and> pos' = byte_len (before @ v))"
    unfolding gen_query_segment_def str_segment_eq_Some [OF fits] by auto
  then show ?thesis
    using ops_okD(5,8) [OF ok assms(2)] by (auto simp: op_step_def)
qed

lemma operation_step_runs:
  assumes base: "gen_base g" and work: "work_ok g n (ps_query_pos product) pw" and p: "prepared_op g p op"
    and node: "gen_dictionary_node g (ps_node product) = Some n" and cost: "ps_cost product \<le> gw_max_cost g"
  shows "runs (operation_step g product p pw) b (\<lambda>pw' _. work_ok g n (ps_query_pos product) pw' \<and>
    staging_extends (pw_staging pw) (pw_staging pw') \<and>
    (\<exists>new. pw_arcs pw' = pw_arcs pw @ new \<and>
      (\<forall>a \<in> set new. arc_ok g (n, ps_query_pos product, ps_cost product) (pw_staging pw') a) \<and>
      covers g (n, ps_query_pos product, ps_cost product) op new))" (is "runs ?m b ?P")
proof -
  have ok: "ops_ok g" using base by (simp add: gen_base_def)
  note step = op_step_prepared [OF base p]
  show ?thesis
  proof (cases "po_scaled_weight p > gw_max_cost g - ps_cost product")
    case True
    then have "covers g (n, ps_query_pos product, ps_cost product) op []" by (auto simp: covers_def step)
    then show ?thesis using True work by (simp add: operation_step_def runs_cbind runs_primitive)
  next
    case False
    let ?cost = "ps_cost product + po_scaled_weight p"
    have fits: "?cost \<le> gw_max_cost g" using False cost by simp
    have ready: "runs (load_paths g product p pw1) b1 (\<lambda>pw2 b2. runs
        (case pw_paths pw2 ! po_source_slot p of
           Ready paths \<Rightarrow> cbind (emit_paths (gw_operations g ! po_index p) p ?cost q paths (pw_arcs pw2)) (\<lambda>arcs. creturn (pw2\<lparr>pw_arcs := arcs\<rparr>))
         | _ \<Rightarrow> cpanic) b2 ?P)"
      if w1: "work_ok g n (ps_query_pos product) pw1" "pw_staging pw1 = pw_staging pw" "pw_arcs pw1 = pw_arcs pw"
        and q: "pw_queries pw1 ! po_query_slot p = Ready q" for pw1 b1 q
    proof (rule runs_mono [OF load_paths_runs [OF base w1(1) p node]], elim conjE exE, goal_cases)
      case (1 pw2 b2 paths)
      have "query_entry_ok g (ps_query_pos product) (consume_y op) (pw_queries pw1 ! po_query_slot p)"
        using w1(1) p by (simp add: work_ok_def)
      then obtain seg e where seg: "gen_query_segment g (ps_query_pos product) (consume_y op) = Some (seg, e)"
        "q = query_segment_new seg e" using q by auto
      let ?new = "map (path_arc p ?cost q) (List.filter (path_applies op q) paths)"
      have paths: "\<forall>path \<in> set paths. path_ok (gw_dictionary g) (gw_nodes g) n (consume_x op) (pw_staging pw2) path"
        "\<And>w. length w = consume_x op \<Longrightarrow> walk (gw_dictionary g) n w \<noteq> None \<Longrightarrow> \<exists>path \<in> set paths. dp_output path = w"
        using 1 by (auto simp: paths_exact_def)
      have arc: "arc_ok g (n, ps_query_pos product, ps_cost product) (pw_staging pw2) (path_arc p ?cost q path)"
        if path: "path \<in> set paths" "path_applies op q path" for path
      proof -
        obtain m where m: "length (dp_output path) = consume_x op" "dp_bytes path = utf8_bytes (dp_output path)"
          "walk (gw_dictionary g) n (dp_output path) = Some m" "denotes (gw_nodes g) (st_nodes (pw_staging pw2)) (dp_target path) = Some m"
          using paths(1) path(1) by (auto simp: path_ok_def)
        then have "op_step g (n, ps_query_pos product, ps_cost product) op (dp_output path) seg (m, e, ?cost)"
          using seg path(2) fits by (simp add: step path_applies_def query_segment_new_def)
        then show ?thesis unfolding arc_ok_def using m(4) ops_okD(4) [OF ok p]
          by (intro exI [of _ op] exI [of _ m]) (simp add: path_arc_def seg(2) query_segment_new_def)
      qed
      have "covers g (n, ps_query_pos product, ps_cost product) op ?new"
        unfolding covers_def
      proof (intro allI impI)
        fix u v m pos' cost'
        assume "op_step g (n, ps_query_pos product, ps_cost product) op u v (m, pos', cost')"
        then have s: "length u = consume_x op" "walk (gw_dictionary g) n u = Some m" "v = seg" "pos' = e"
          "operation_applies op u (utf8_bytes u) v (utf8_bytes v)" "cost' = ?cost"
          using seg by (simp_all add: step)
        obtain path where path: "path \<in> set paths" "dp_output path = u" using paths(2) s(1,2) by auto
        then have "path_applies op q path" using paths(1) s(3,5) seg(2) by (auto simp: path_applies_def path_ok_def query_segment_new_def)
        then have "path_arc p ?cost q path \<in> set ?new" using path(1) by simp
        then show "\<exists>a \<in> set ?new. pa_output a = u \<and> pa_input a = v \<and> pa_query_pos a = pos' \<and> pa_cost a = cost' \<and> pa_weight a = op_weight op"
          using path(2) s seg(2) ops_okD(4) [OF ok p] by (rule_tac bexI) (simp_all add: path_arc_def query_segment_new_def)
      qed
      moreover have "\<forall>a \<in> set ?new. arc_ok g (n, ps_query_pos product, ps_cost product) (pw_staging pw2) a" using arc by auto
      moreover have "work_ok g n (ps_query_pos product) (pw2\<lparr>pw_arcs := pw_arcs pw @ ?new\<rparr>)" using 1 by (simp add: work_ok_def)
      ultimately have post: "?P (pw2\<lparr>pw_arcs := pw_arcs pw @ ?new\<rparr>) b3" for b3
        using 1 w1(2) by auto
      have "runs (emit_paths op p ?cost q paths (pw_arcs pw2)) b2 (\<lambda>arcs b3. ?P (pw2\<lparr>pw_arcs := arcs\<rparr>) b3)"
        by (rule runs_mono [OF emit_paths_runs]) (use post 1 w1(3) in simp)
      then show ?case using 1 ops_okD(1) [OF ok p] by (simp add: runs_cbind)
    qed
    have "runs (load_query g product p pw) b1 (\<lambda>pw1 b2. runs
        (case pw_queries pw1 ! po_query_slot p of
           Ready q \<Rightarrow> cbind (load_paths g product p pw1) (\<lambda>pw2.
             case pw_paths pw2 ! po_source_slot p of
               Ready paths \<Rightarrow> cbind (emit_paths (gw_operations g ! po_index p) p ?cost q paths (pw_arcs pw2)) (\<lambda>arcs. creturn (pw2\<lparr>pw_arcs := arcs\<rparr>))
             | _ \<Rightarrow> cpanic)
         | _ \<Rightarrow> creturn pw1) b2 ?P)" for b1
    proof (rule runs_mono [OF load_query_runs [OF ok work p]], elim conjE, goal_cases)
      case (1 pw1 b2)
      show ?case
      proof (cases "pw_queries pw1 ! po_query_slot p")
        case Missing
        have "query_entry_ok g (ps_query_pos product) (consume_y op) (pw_queries pw1 ! po_query_slot p)"
          using 1 p by (simp add: work_ok_def)
        then have "covers g (n, ps_query_pos product, ps_cost product) op []" by (simp add: Missing covers_def step)
        then show ?thesis using 1 Missing by simp
      next
        case (Ready q)
        then show ?thesis using ready [of pw1 q b2] 1 by (simp add: runs_cbind)
      qed (use 1 in simp)
    qed
    note loaded = this
    show ?thesis
      unfolding operation_step_def
      by (subst runs_cbind, rule runs_primitive, subst if_not_P [OF False], subst runs_cbind, rule loaded)
  qed
qed

lemma operations_loop_runs:
  assumes base: "gen_base g" and node: "gen_dictionary_node g (ps_node product) = Some n" and cost: "ps_cost product \<le> gw_max_cost g"
  shows "work_ok g n (ps_query_pos product) pw \<Longrightarrow> \<forall>p \<in> set ps. \<exists>op. prepared_op g p op \<Longrightarrow>
    runs (operations_loop g product ps pw) b (\<lambda>pw' _. work_ok g n (ps_query_pos product) pw' \<and>
      staging_extends (pw_staging pw) (pw_staging pw') \<and>
      (\<exists>new. pw_arcs pw' = pw_arcs pw @ new \<and>
        (\<forall>a \<in> set new. arc_ok g (n, ps_query_pos product, ps_cost product) (pw_staging pw') a) \<and>
        (\<forall>p \<in> set ps. \<forall>op. prepared_op g p op \<longrightarrow> covers g (n, ps_query_pos product, ps_cost product) op new)))"
proof (induction ps arbitrary: pw b)
  case (Cons p ps)
  let ?x = "(n, ps_query_pos product, ps_cost product)"
  obtain op where p: "prepared_op g p op" using Cons.prems(2) by auto
  have unique: "op' = op" if "prepared_op g p op'" for op'
    using ops_okD(1) [OF _ p] ops_okD(1) [OF _ that] base by (simp add: gen_base_def)
  have "runs (operation_step g product p pw) b (\<lambda>pw1 b1. runs (operations_loop g product ps pw1) b1 (\<lambda>pw' _.
      work_ok g n (ps_query_pos product) pw' \<and> staging_extends (pw_staging pw) (pw_staging pw') \<and>
      (\<exists>new. pw_arcs pw' = pw_arcs pw @ new \<and> (\<forall>a \<in> set new. arc_ok g ?x (pw_staging pw') a) \<and>
        (\<forall>p \<in> set (p # ps). \<forall>op. prepared_op g p op \<longrightarrow> covers g ?x op new))))"
  proof (rule runs_mono [OF operation_step_runs [OF base Cons.prems(1) p node cost]], elim conjE exE, goal_cases)
    case (1 pw1 b1 new1)
    have "\<forall>p \<in> set ps. \<exists>op. prepared_op g p op" using Cons.prems(2) by simp
    from Cons.IH [OF 1(2) this] show ?case
    proof (rule runs_mono, elim conjE exE, goal_cases)
      case (1 pw2 b2 new2)
      note two = this
      have "\<forall>a \<in> set (new1 @ new2). arc_ok g ?x (pw_staging pw2) a"
        using two \<open>\<forall>a \<in> set new1. arc_ok g ?x (pw_staging pw1) a\<close> arc_ok_ext [of g ?x "pw_staging pw1" _ "pw_staging pw2"] by auto
      moreover have "covers g ?x op' (new1 @ new2)" if "p' \<in> set (p # ps)" "prepared_op g p' op'" for p' op'
      proof (cases "p' = p")
        case True
        then have "op' = op" using unique that(2) by simp
        then show ?thesis using covers_mono [OF \<open>covers g ?x op new1\<close>, of "new1 @ new2"] by simp
      next
        case False
        then have "covers g ?x op' new2" using that two by simp
        then show ?thesis using covers_mono [of g ?x op' new2 "new1 @ new2"] by simp
      qed
      moreover have "staging_extends (pw_staging pw) (pw_staging pw2)"
        using staging_extends_trans [OF \<open>staging_extends (pw_staging pw) (pw_staging pw1)\<close>] two by simp
      moreover have "pw_arcs pw2 = pw_arcs pw @ new1 @ new2" using two \<open>pw_arcs pw1 = pw_arcs pw @ new1\<close> by simp
      ultimately show ?case using two by blast
    qed
  qed
  then show ?case by (simp only: operations_loop.simps runs_cbind)
qed simp

text \<open>The arcs of a product state, in one statement.\<close>

definition arcs_exact :: "'n gen_wfst \<Rightarrow> 'n \<times> usize \<times> usize \<Rightarrow> 'n staging \<Rightarrow> pending_arc list \<Rightarrow> bool" where
  "arcs_exact g x st arcs \<longleftrightarrow> staging_ok (gw_dictionary g) (gw_nodes g) st \<and>
     (\<forall>a \<in> set arcs. arc_ok g x st a) \<and> (\<forall>op. covers g x op arcs)"

lemma operations_arcs_exact:
  assumes "gen_base g" and "gen_dictionary_node g (ps_node product) = Some n" and "ps_cost product \<le> gw_max_cost g"
  shows "runs (operations_loop g product (gw_prepared g)
      \<lparr>pw_staging = staging_new, pw_arcs = [], pw_paths = replicate (gw_source_slots g) Uncomputed,
       pw_queries = replicate (gw_query_slots g) Uncomputed\<rparr>) b
    (\<lambda>pw _. arcs_exact g (n, ps_query_pos product, ps_cost product) (pw_staging pw) (pw_arcs pw))"
proof -
  let ?x = "(n, ps_query_pos product, ps_cost product)"
  let ?start = "\<lparr>pw_staging = staging_new, pw_arcs = [], pw_paths = replicate (gw_source_slots g) Uncomputed,
       pw_queries = replicate (gw_query_slots g) Uncomputed\<rparr> :: 'n product_work"
  have ok: "ops_ok g" using assms(1) by (simp add: gen_base_def)
  then have len: "length (gw_prepared g) = length (gw_operations g)" unfolding ops_ok_def by blast
  have "work_ok g n (ps_query_pos product) ?start"
    using ops_okD(6,7) [OF ok] by (simp add: work_ok_def staging_ok_def staged_ok_def staging_new_def)
  moreover have "\<forall>p \<in> set (gw_prepared g). \<exists>op. prepared_op g p op"
    using len by (auto simp: in_set_conv_nth prepared_op_def)
  ultimately show ?thesis
  proof (rule runs_mono [OF operations_loop_runs [OF assms]], elim conjE exE, goal_cases)
    case (1 pw b' new)
    have "covers g ?x op new" for op
    proof (cases "op \<in> set (gw_operations g)")
      case True
      then obtain i where "i < length (gw_operations g)" "op = gw_operations g ! i" by (auto simp: in_set_conv_nth)
      then have "prepared_op g (gw_prepared g ! i) op" "gw_prepared g ! i \<in> set (gw_prepared g)"
        using len by (auto simp: prepared_op_def)
      then show ?thesis using 1 by blast
    next
      case False
      then show ?thesis by (auto simp: covers_def op_step_def)
    qed
    then show ?case using 1 by (simp add: arcs_exact_def work_ok_def)
  qed
qed

end
