(* ===== verification/Generalized_Commit.thy ===== *)
theory Generalized_Commit
  imports Generalized_Arcs
begin

text \<open>
  The commit of an expansion. Resolving staged nodes prepares a batch that the node registry takes
  without a panic, staying well-formed and within its limit; batching the targets of the arcs does
  the same for the state registry, whose emission chains are blocks of consecutive states.
\<close>

section \<open>Resolving staged nodes\<close>

lemma reg_commit_prepared_append:
  "reg_commit_prepared (xs @ ys) r = Option.bind (reg_commit_prepared xs r) (reg_commit_prepared ys)"
  by (induction xs r rule: reg_commit_prepared.induct) (auto split: option.splits)

text \<open>What has been resolved after \<open>k\<close> staged nodes, and the registry that committing it would give.\<close>

definition resolved_ok ::
    "('n, uchar) dictionary \<Rightarrow> 'n node_registry \<Rightarrow> gen_limits \<Rightarrow> 'n staged_node list \<Rightarrow> 'n resolution \<Rightarrow> 'n node_registry \<Rightarrow> bool" where
  "resolved_ok D reg limits ss rn reg' \<longleftrightarrow>
     reg_commit_prepared (rn_additions rn) reg = Some reg' \<and> reg_wf reg' \<and> reg_tracks D reg' \<and> reg_ext reg reg' \<and>
     reg_len reg' = reg_len reg + length (rn_additions rn) \<and>
     (\<forall>key. reg_get_id reg key = None \<longrightarrow> reg_get_id reg' key = rn_new_ids rn key) \<and>
     (reg_len reg' \<noteq> reg_len reg \<longrightarrow> reg_len reg' \<le> max_retained_dictionary_nodes limits) \<and>
     length (rn_resolved rn) = length ss \<and>
     (\<forall>k < length ss. reg_get_node reg' (rn_resolved rn ! k) = Some (sn_node (ss ! k)))"

lemma resolved_ok_start:
  assumes "reg_wf reg" and "reg_tracks D reg"
  shows "resolved_ok D reg limits [] resolution_start reg"
  using assms by (simp add: resolved_ok_def resolution_start_def reg_ext_refl)

lemma resolved_denotes:
  assumes "resolved_ok D reg limits ss rn reg'" and "denotes reg ss r = Some n"
  shows "reg_get_node reg' (resolved_node r (rn_resolved rn)) = Some n"
proof (cases r)
  case (Registered i)
  then show ?thesis using assms by (simp add: denotes_def resolved_node_def resolved_ok_def reg_ext_def)
next
  case (Staged k)
  then have "k < length ss" "sn_node (ss ! k) = n"
    using assms(2) by (auto simp: denotes_def nth_opt_def split: if_splits)
  then show ?thesis using Staged assms(1) by (simp add: resolved_node_def resolved_ok_def)
qed

lemma fresh_node_id_eq:
  "fresh_node_id reg limits k = Inr i \<Longrightarrow>
     reg_len reg + k + 1 \<le> max_retained_dictionary_nodes limits \<and> reg_len reg + k < 2 ^ 32 \<and> i = of_nat (reg_len reg + k)"
  by (auto simp: fresh_node_id_def usize_checked_add_def require_at_most_def next_registry_id_def u32_try_from_def
      split: if_splits option.splits)

lemma fresh_node_id_no_panic [simp]: "fresh_node_id reg limits k \<noteq> Inl Panicked"
  by (auto simp: fresh_node_id_def require_at_most_def split: option.splits sum.splits)

lemma resolve_node_runs:
  assumes dict: "dictionary_ok D" and ok: "resolved_ok D reg limits ss rn reg'"
    and parent: "denotes reg ss (sn_parent s) = Some n" and child: "child_by D n (sn_label s) = Some (sn_node s)"
  shows "runs (resolve_node reg limits s rn) b (\<lambda>rn' _. \<exists>reg''. resolved_ok D reg limits (ss @ [s]) rn' reg'')"
proof -
  let ?p = "resolved_node (sn_parent s) (rn_resolved rn)"
  let ?key = "node_key_child ?p (sn_label s)"
  have wf: "reg_wf reg'" "reg_tracks D reg'" and len: "length (rn_resolved rn) = length ss"
    using ok by (simp_all add: resolved_ok_def)
  have ids: "reg_get_id reg' ?key = (case reg_get_id reg ?key of Some i \<Rightarrow> Some i | None \<Rightarrow> rn_new_ids rn ?key)"
    using ok by (auto simp: resolved_ok_def reg_ext_def split: option.split)
  have node: "reg_get_node reg' ?p = Some n" by (rule resolved_denotes [OF ok parent])
  show ?thesis
  proof (cases "reg_get_id reg' ?key")
    case (Some i)
    have "reg_get_node reg' i = Some (sn_node s)" by (rule reg_tracks_known [OF dict wf(2) node child Some])
    then have "resolved_ok D reg limits (ss @ [s]) (rn\<lparr>rn_resolved := rn_resolved rn @ [i],
        rn_staged := rn_staged rn @ [s\<lparr>sn_shared := True\<rparr>], rn_retired := rn_retired rn \<or> \<not> sn_shared s\<rparr>) reg'"
      using ok len by (auto simp: resolved_ok_def nth_append less_Suc_eq)
    then show ?thesis
      unfolding resolve_node_def Let_def ids [symmetric] Some by (auto simp: runs_cbind intro!: runs_primitive)
  next
    case None
    have "\<exists>reg''. resolved_ok D reg limits (ss @ [s]) (rn\<lparr>rn_resolved := rn_resolved rn @ [i],
        rn_additions := rn_additions rn @ [(?key, sn_node s)], rn_new_ids := (rn_new_ids rn)(?key \<mapsto> i),
        rn_staged := rn_staged rn @ [s]\<rparr>) reg''" if fresh: "fresh_node_id reg limits (length (rn_additions rn)) = Inr i" for i
    proof -
      obtain res reg'' where r: "reg_register_node (sn_node s) ?key reg' = (res, reg'')" by force
      have "reg_len reg' = reg_len reg + length (rn_additions rn)" using ok by (simp add: resolved_ok_def)
      then have room: "reg_len reg' + 1 \<le> max_retained_dictionary_nodes limits" "reg_len reg' < 2 ^ 32" "i = of_nat (reg_len reg')"
        using fresh_node_id_eq [OF fresh] by simp_all
      note new = node_reg.intern_fresh [OF wf(1) None room(2), of "sn_node s"]
        node_reg.count_fresh [OF wf(1) None room(2), of "sn_node s"]
        node_reg.find_fresh [OF wf(1) None room(2), of "sn_node s"]
        node_reg.wf_intern [OF wf(1), of "sn_node s" ?key]
      have res: "res = Some i" using new(1) r room(3) by simp
      have tracks: "reg_tracks D reg''" "reg_get_node reg'' i = Some (sn_node s)"
        using reg_tracks_register [OF dict wf node child r] res by simp_all
      have ext: "reg_ext reg' reg''" using reg_ext_register [OF wf(1), of "sn_node s" ?key] r by simp
      have "reg_commit_prepared [(?key, sn_node s)] reg' = Some reg''"
        using reg_commit_prepared_step [OF wf(1) None, of "sn_node s" "[]"] r res by simp
      then have "reg_commit_prepared (rn_additions rn @ [(?key, sn_node s)]) reg = Some reg''"
        using ok by (simp add: reg_commit_prepared_append resolved_ok_def)
      moreover have "reg_ext reg reg''" using ok ext reg_ext_trans unfolding resolved_ok_def by blast
      moreover have "reg_get_id reg ?key = None" using ids None by (auto split: option.splits)
      then have "\<forall>key. reg_get_id reg key = None \<longrightarrow> reg_get_id reg'' key = ((rn_new_ids rn)(?key \<mapsto> i)) key"
        using ok new(3) r room(3) by (simp add: resolved_ok_def)
      moreover have "\<forall>k < length (ss @ [s]). reg_get_node reg'' ((rn_resolved rn @ [i]) ! k) = Some (sn_node ((ss @ [s]) ! k))"
        using ok len ext tracks(2) by (auto simp: resolved_ok_def reg_ext_def nth_append less_Suc_eq)
      ultimately show ?thesis
        using new(2,4) r tracks(1) room(1) len ok by (intro exI [of _ reg'']) (simp add: resolved_ok_def)
    qed
    then show ?thesis
      unfolding resolve_node_def Let_def ids [symmetric] None
      by (auto simp: runs_cbind intro!: runs_primitive split: sum.split)
  qed
qed

lemma resolve_pass_runs:
  assumes dict: "dictionary_ok D"
  shows "staged_ok D reg (ss @ rest) \<Longrightarrow> resolved_ok D reg limits ss rn reg' \<Longrightarrow>
    runs (resolve_pass reg limits rest rn) b (\<lambda>rn' _. \<exists>reg''. resolved_ok D reg limits (ss @ rest) rn' reg'')"
proof (induction rest arbitrary: ss rn reg' b)
  case (Cons s rest)
  obtain n where n: "denotes reg (take (length ss) (ss @ s # rest)) (sn_parent ((ss @ s # rest) ! length ss)) = Some n"
    "child_by D n (sn_label ((ss @ s # rest) ! length ss)) = Some (sn_node ((ss @ s # rest) ! length ss))"
    using Cons.prems(1) unfolding staged_ok_def by (metis length_Cons length_append less_add_same_cancel1 zero_less_Suc)
  have "denotes reg ss (sn_parent s) = Some n" "child_by D n (sn_label s) = Some (sn_node s)" using n by simp_all
  then have step: "runs (resolve_node reg limits s rn) b1 (\<lambda>rn' _. \<exists>reg''. resolved_ok D reg limits (ss @ [s]) rn' reg'')" for b1
    by (rule resolve_node_runs [OF dict Cons.prems(2)])
  have "runs (resolve_node reg limits s rn) b (\<lambda>rn1 b1. runs (resolve_pass reg limits rest rn1) b1
      (\<lambda>rn' _. \<exists>reg''. resolved_ok D reg limits (ss @ s # rest) rn' reg''))"
  proof (rule runs_mono [OF step], elim exE)
    fix rn1 b1 reg1 assume ok: "resolved_ok D reg limits (ss @ [s]) rn1 reg1"
    have "staged_ok D reg ((ss @ [s]) @ rest)" using Cons.prems(1) by simp
    from Cons.IH [OF this ok, of b1]
    show "runs (resolve_pass reg limits rest rn1) b1 (\<lambda>rn' _. \<exists>reg''. resolved_ok D reg limits (ss @ s # rest) rn' reg'')" by simp
  qed
  then show ?case by (simp only: resolve_pass.simps runs_cbind)
qed auto

text \<open>The sharing marks do not matter to what a staged node is.\<close>

definition unmarked :: "'n staged_node \<Rightarrow> 'n staged_node" where
  "unmarked s = s\<lparr>sn_shared := False\<rparr>"

lemma unmarked_eq:
  "unmarked s = unmarked s' \<longleftrightarrow> sn_parent s = sn_parent s' \<and> sn_label s = sn_label s' \<and> sn_node s = sn_node s'"
  by (cases s, cases s') (simp add: unmarked_def)

lemma unmarked_nth:
  assumes "map unmarked ss = map unmarked ss'"
  shows "length ss = length ss'"
    and "k < length ss' \<Longrightarrow> sn_parent (ss ! k) = sn_parent (ss' ! k) \<and> sn_label (ss ! k) = sn_label (ss' ! k) \<and> sn_node (ss ! k) = sn_node (ss' ! k)"
  using assms by (metis length_map, metis length_map nth_map unmarked_eq)

lemma denotes_unmarked:
  assumes "map unmarked ss = map unmarked ss'"
  shows "denotes reg ss r = denotes reg ss' r"
  using unmarked_nth [OF assms] by (auto simp: denotes_def nth_opt_def split: pending_node.split)

lemma staged_ok_unmarked:
  assumes "map unmarked ss = map unmarked ss'"
  shows "staged_ok D reg ss = staged_ok D reg ss'"
proof -
  have "denotes reg (take k ss) r = denotes reg (take k ss') r" for k r
    by (rule denotes_unmarked) (simp add: take_map [symmetric] assms)
  then show ?thesis using unmarked_nth [OF assms] by (simp add: staged_ok_def)
qed

lemma resolved_ok_unmarked:
  assumes "map unmarked ss = map unmarked ss'"
  shows "resolved_ok D reg limits ss rn reg' = resolved_ok D reg limits ss' rn reg'"
  using unmarked_nth [OF assms] by (simp add: resolved_ok_def)

lemma resolve_pass_unmarked:
  "resolve_pass reg limits ss rn b = Inr (rn', b') \<Longrightarrow> map unmarked (rn_staged rn') = map unmarked (rn_staged rn @ ss)"
proof (induction ss arbitrary: rn b)
  case (Cons s ss)
  then obtain rn1 b1 where step: "resolve_node reg limits s rn b = Inr (rn1, b1)"
    and rest: "resolve_pass reg limits ss rn1 b1 = Inr (rn', b')" by (auto simp: cbind_eq_Inr)
  have "map unmarked (rn_staged rn1) = map unmarked (rn_staged rn @ [s])"
    using step by (auto simp: resolve_node_def Let_def cbind_eq_Inr creturn_def clift_def unmarked_def split: option.splits sum.splits)
  then show ?case using Cons.IH [OF rest] by simp
qed (simp add: creturn_def)

lemma runs_cong: "m b = m' b' \<Longrightarrow> runs m b P = runs m' b' P"
  by (simp add: runs_def)

lemma resolve_loop_runs:
  "dictionary_ok D \<Longrightarrow> reg_wf reg \<Longrightarrow> reg_tracks D reg \<Longrightarrow> staged_ok D reg ss \<Longrightarrow>
     runs (resolve_loop reg limits ss) b (\<lambda>rn _. \<exists>reg'. resolved_ok D reg limits ss rn reg')"
proof (induction reg limits ss b rule: resolve_loop.induct)
  case (1 reg limits ss b)
  let ?next = "\<lambda>rn b1. if rn_retired rn
       then cbind check_cancelled (\<lambda>_. cbind check_source (\<lambda>_ b2. resolve_loop reg limits (rn_staged rn) b2)) b1
       else Inr (rn, b1)"
  have pass: "runs (resolve_pass reg limits ss resolution_start) b (\<lambda>rn _. \<exists>reg'. resolved_ok D reg limits ss rn reg')"
    using resolve_pass_runs [OF "1.prems"(1) _ resolved_ok_start [OF "1.prems"(2,3)], of ss] "1.prems"(4) by simp
  have "runs (resolve_pass reg limits ss resolution_start) b (\<lambda>rn b1. runs (?next rn) b1 (\<lambda>rn _. \<exists>reg'. resolved_ok D reg limits ss rn reg'))"
  proof (rule runs_mono [OF pass])
    fix rn b1 assume run: "resolve_pass reg limits ss resolution_start b = Inr (rn, b1)"
      and ok: "\<exists>reg'. resolved_ok D reg limits ss rn reg'"
    show "runs (?next rn) b1 (\<lambda>rn _. \<exists>reg'. resolved_ok D reg limits ss rn reg')"
    proof (cases "rn_retired rn")
      case False
      then show ?thesis using ok by (simp add: runs_def)
    next
      case True
      have same: "map unmarked (rn_staged rn) = map unmarked ss"
        using resolve_pass_unmarked [OF run] by (simp add: resolution_start_def)
      have "staged_ok D reg (rn_staged rn)" using "1.prems"(4) staged_ok_unmarked [OF same] by simp
      note IH = "1.IH" [OF run True _ _ "1.prems"(1-3) this, unfolded resolved_ok_unmarked [OF same]]
      have "runs (cbind check_cancelled (\<lambda>_. cbind check_source (\<lambda>_ b2. resolve_loop reg limits (rn_staged rn) b2))) b1
          (\<lambda>rn _. \<exists>reg'. resolved_ok D reg limits ss rn reg')"
        unfolding runs_cbind by (intro runsI primitive_no_panic IH)
      then show ?thesis using True by (simp add: runs_def)
    qed
  qed
  then show ?case by (subst runs_cong [OF resolve_loop.simps]) (simp only: runs_cbind)
qed

section \<open>The state registry\<close>

lemma next_state_id_eq: "next_state_id n = Some i \<longleftrightarrow> n < 2 ^ 32 - 1 \<and> i = of_nat n"
proof -
  have "of_nat n = no_state \<longleftrightarrow> n = 2 ^ 32 - 1" if "n < 2 ^ 32"
    using that by (simp add: no_state_def word_unat_eq_iff unat_of_nat_u32)
  then show ?thesis by (auto simp: next_state_id_def u32_try_from_def)
qed

text \<open>The states of a chain are consecutive, and the last leads to its target.\<close>

definition chain_block :: "registered_state list \<Rightarrow> state_id \<Rightarrow> emission_chain \<Rightarrow> bool" where
  "chain_block ss first c \<longleftrightarrow> 2 \<le> chain_width c \<and> unat first + (chain_width c - 1) \<le> length ss \<and>
     take (chain_width c - 1) (drop (unat first) ss) = chain_states c first"

definition sr_ok :: "state_registry \<Rightarrow> bool" where
  "sr_ok r \<longleftrightarrow> length (sr_states r) < 2 ^ 32 \<and>
     (\<forall>p i. sr_products r p = Some i \<longleftrightarrow> nth_opt (sr_states r) (unat i) = Some (Product p)) \<and>
     (\<forall>c i. sr_chains r c = Some i \<longrightarrow> chain_block (sr_states r) i c \<and>
        (\<exists>p. nth_opt (sr_states r) (unat (ec_target c)) = Some (Product p)))"

definition sr_ext :: "state_registry \<Rightarrow> state_registry \<Rightarrow> bool" where
  "sr_ext r r' \<longleftrightarrow> (\<exists>rest. sr_states r' = sr_states r @ rest) \<and>
     (\<forall>p i. sr_products r p = Some i \<longrightarrow> sr_products r' p = Some i) \<and>
     (\<forall>c i. sr_chains r c = Some i \<longrightarrow> sr_chains r' c = Some i)"

lemma sr_ext_refl [simp]: "sr_ext r r"
  by (simp add: sr_ext_def)

lemma sr_ext_trans: "sr_ext a b \<Longrightarrow> sr_ext b c \<Longrightarrow> sr_ext a c"
  by (auto simp: sr_ext_def)

lemma nth_opt_append: "nth_opt xs i = Some x \<Longrightarrow> nth_opt (xs @ ys) i = Some x"
  by (auto simp: nth_opt_def nth_append split: if_splits)

lemma chain_block_append:
  assumes "chain_block ss first c"
  shows "chain_block (ss @ rest) first c"
proof -
  have "chain_width c - 1 \<le> length (drop (unat first) ss)" "unat first \<le> length ss"
    using assms by (auto simp: chain_block_def)
  moreover have "unat first + (chain_width c - 1) \<le> length (ss @ rest)" using assms by (auto simp: chain_block_def)
  ultimately show ?thesis using assms unfolding chain_block_def by (simp only: length_append take_append drop_append) simp
qed

lemma sr_ok_new: "sr_ok sr_new"
  by (auto simp: sr_ok_def sr_new_def nth_opt_def start_product_def word_unat_eq_iff split: if_splits)

lemma sr_commit_prepared_append:
  "sr_commit_prepared (xs @ ys) r = Option.bind (sr_commit_prepared xs r) (sr_commit_prepared ys)"
  by (induction xs r rule: sr_commit_prepared.induct) (auto split: option.splits)

lemma sr_commit_product:
  assumes ok: "sr_ok r" and new: "sr_products r p = None" and room: "length (sr_states r) < 2 ^ 32 - 1"
  defines "i \<equiv> of_nat (length (sr_states r)) :: state_id"
  defines "r' \<equiv> r\<lparr>sr_products := (sr_products r)(p \<mapsto> i), sr_states := sr_states r @ [Product p]\<rparr>"
  shows "sr_commit_prepared [Product p] r = Some r'" and "sr_ok r'" and "sr_ext r r'"
proof -
  have "next_state_id (sr_len r) = Some i" using room by (simp add: next_state_id_eq sr_len_def i_def)
  then show "sr_commit_prepared [Product p] r = Some r'" by (simp add: r'_def)
  have i: "unat i = length (sr_states r)" using room by (simp add: i_def unat_of_nat_u32)
  have "sr_products r' q = Some j \<longleftrightarrow> nth_opt (sr_states r') (unat j) = Some (Product q)" for q j
  proof (cases "unat j = length (sr_states r)")
    case True
    then have "j = i" using i by (simp add: word_unat_eq_iff)
    moreover have "sr_products r q \<noteq> Some i"
      using ok i by (simp add: sr_ok_def nth_opt_def)
    ultimately show ?thesis using i by (auto simp: r'_def nth_opt_def)
  next
    case False
    then have "j \<noteq> i" using i by auto
    moreover have "nth_opt (sr_states r') (unat j) = nth_opt (sr_states r) (unat j)" using False by (simp add: r'_def nth_opt_def nth_append)
    moreover have "sr_products r q = Some j \<longleftrightarrow> nth_opt (sr_states r) (unat j) = Some (Product q)" using ok by (simp add: sr_ok_def)
    ultimately show ?thesis using new by (auto simp: r'_def)
  qed
  moreover have "chain_block (sr_states r') j c \<and> (\<exists>q. nth_opt (sr_states r') (unat (ec_target c)) = Some (Product q))"
    if "sr_chains r' c = Some j" for c j
    using ok that chain_block_append [of "sr_states r" j c "[Product p]"] nth_opt_append [of "sr_states r" _ _ "[Product p]"]
    by (fastforce simp: sr_ok_def r'_def)
  ultimately show "sr_ok r'" using room by (simp add: sr_ok_def r'_def)
  show "sr_ext r r'" using new by (auto simp: sr_ext_def r'_def)
qed

lemma sr_commit_later:
  assumes "\<forall>s \<in> set ss. \<exists>e. s = Emit e \<and> es_position e \<noteq> 1" and "length (sr_states r) + length ss < 2 ^ 32"
  shows "sr_commit_prepared ss r = Some (r\<lparr>sr_states := sr_states r @ ss\<rparr>)"
  using assms
proof (induction ss arbitrary: r)
  case (Cons s ss)
  obtain e where e: "s = Emit e" "es_position e \<noteq> 1" using Cons.prems(1) by auto
  have "next_state_id (sr_len r) = Some (of_nat (length (sr_states r)))"
    using Cons.prems(2) by (simp add: next_state_id_eq sr_len_def)
  then show ?case using Cons e by simp
qed simp

lemma chain_states_split:
  assumes "2 \<le> chain_width c"
  obtains e rest where "chain_states c first = Emit e # rest" and "es_position e = 1" and "es_chain e = c"
    and "\<forall>s \<in> set rest. \<exists>e. s = Emit e \<and> es_position e \<noteq> 1"
proof -
  let ?f = "\<lambda>position. Emit \<lparr>es_chain = c, es_position = position,
            es_next = (if position + 1 = chain_width c then ec_target c else first + of_nat position)\<rparr>"
  have "[1..<chain_width c] = 1 # [2..<chain_width c]" using assms by (simp add: upt_conv_Cons numeral_2_eq_2)
  then have "chain_states c first = ?f 1 # map ?f [2..<chain_width c]" unfolding chain_states_def by (simp only: list.map)
  then show ?thesis by (rule that) auto
qed

lemma sr_commit_chain:
  assumes ok: "sr_ok r" and new: "sr_chains r c = None" and width: "2 \<le> chain_width c"
    and room: "length (sr_states r) + (chain_width c - 1) < 2 ^ 32"
    and target: "nth_opt (sr_states r) (unat (ec_target c)) = Some (Product p)"
  defines "i \<equiv> of_nat (length (sr_states r)) :: state_id"
  defines "r' \<equiv> r\<lparr>sr_chains := (sr_chains r)(c \<mapsto> i), sr_states := sr_states r @ chain_states c i\<rparr>"
  shows "sr_commit_prepared (chain_states c i) r = Some r'" and "sr_ok r'" and "sr_ext r r'"
proof -
  obtain e rest where e: "chain_states c i = Emit e # rest" "es_position e = 1" "es_chain e = c"
    "\<forall>s \<in> set rest. \<exists>e. s = Emit e \<and> es_position e \<noteq> 1" by (rule chain_states_split [OF width])
  have len: "length (chain_states c i) = chain_width c - 1" by (simp add: chain_states_def)
  have i: "unat i = length (sr_states r)" using room by (simp add: i_def unat_of_nat_u32)
  have "next_state_id (sr_len r) = Some i" using room width by (simp add: next_state_id_eq sr_len_def i_def)
  moreover have "length (sr_states (r\<lparr>sr_chains := (sr_chains r)(c \<mapsto> i), sr_states := sr_states r @ [Emit e]\<rparr>)) + length rest < 2 ^ 32"
    using room len e(1) by simp
  note later = sr_commit_later [OF e(4) this]
  ultimately show "sr_commit_prepared (chain_states c i) r = Some r'" by (simp add: e r'_def later)
  have block: "chain_block (sr_states r') i c" using width i len by (simp add: chain_block_def r'_def)
  have "chain_block (sr_states r') j d \<and> (\<exists>q. nth_opt (sr_states r') (unat (ec_target d)) = Some (Product q))"
    if "sr_chains r' d = Some j" for d j
  proof (cases "d = c")
    case True
    then have "j = i" using that by (simp add: r'_def)
    then show ?thesis using True block nth_opt_append [OF target] by (auto simp: r'_def)
  next
    case False
    then have "sr_chains r d = Some j" using that by (simp add: r'_def)
    then obtain q where "chain_block (sr_states r) j d" "nth_opt (sr_states r) (unat (ec_target d)) = Some (Product q)"
      using ok unfolding sr_ok_def by blast
    then show ?thesis using chain_block_append nth_opt_append by (fastforce simp: r'_def)
  qed
  moreover have "sr_products r' q = Some j \<longleftrightarrow> nth_opt (sr_states r') (unat j) = Some (Product q)" for q j
  proof (cases "unat j < length (sr_states r)")
    case True
    then show ?thesis using ok by (simp add: sr_ok_def r'_def nth_opt_def nth_append)
  next
    case False
    have "x \<noteq> Product q" if "x \<in> set (chain_states c i)" for x using that by (auto simp: chain_states_def)
    moreover have "nth_opt (sr_states r') (unat j) = nth_opt (chain_states c i) (unat j - length (sr_states r))"
      using False by (auto simp: r'_def nth_opt_def nth_append)
    ultimately have "nth_opt (sr_states r') (unat j) \<noteq> Some (Product q)" by (auto simp: nth_opt_def)
    moreover have "nth_opt (sr_states r) (unat j) \<noteq> Some (Product q)" using False by (simp add: nth_opt_def)
    moreover have "sr_products r q = Some j \<longleftrightarrow> nth_opt (sr_states r) (unat j) = Some (Product q)"
      using ok by (simp add: sr_ok_def)
    moreover have "sr_products r' = sr_products r" by (simp add: r'_def)
    ultimately show ?thesis by simp
  qed
  moreover have "length (sr_states r') < 2 ^ 32" using room len by (simp add: r'_def)
  ultimately show "sr_ok r'" by (simp add: sr_ok_def)
  show "sr_ext r r'" using new by (auto simp: sr_ext_def r'_def)
qed

section \<open>Batching states\<close>

lemma checked_state_count_eq:
  "checked_state_count required limit = Inr i \<Longrightarrow> required \<le> limit \<and> 1 \<le> required \<and> required < 2 ^ 32 \<and> i = of_nat (required - 1)"
  by (auto simp: checked_state_count_def require_at_most_def usize_checked_sub_def next_state_id_eq bind_eq_Some_conv
      split: if_splits option.splits)

lemma checked_state_count_no_panic [simp]: "checked_state_count required limit \<noteq> Inl Panicked"
  by (auto simp: checked_state_count_def require_at_most_def split: option.splits)

lemma batch_next_id_eq:
  "batch_next_id r limit s = Inr i \<Longrightarrow>
     sr_len r + length (sb_states s) + 1 \<le> limit \<and> sr_len r + length (sb_states s) < 2 ^ 32 - 1 \<and>
     i = of_nat (sr_len r + length (sb_states s))"
  by (auto simp: batch_next_id_def usize_checked_add_def split: option.splits if_splits dest!: checked_state_count_eq)

lemma batch_next_id_no_panic [simp]: "batch_next_id r limit s \<noteq> Inl Panicked"
  by (auto simp: batch_next_id_def split: option.splits)

text \<open>A batch, and the registry that committing it would give; its product states come from \<open>PS\<close>.\<close>

definition batch_ok :: "state_registry \<Rightarrow> usize \<Rightarrow> product_state set \<Rightarrow> state_batch \<Rightarrow> state_registry \<Rightarrow> bool" where
  "batch_ok r limit PS batch r' \<longleftrightarrow>
     sr_commit_prepared (sb_states batch) r = Some r' \<and> sr_ok r' \<and> sr_ext r r' \<and>
     sr_states r' = sr_states r @ sb_states batch \<and>
     (\<forall>p. sr_products r p = None \<longrightarrow> sr_products r' p = sb_products batch p) \<and>
     (\<forall>c. sr_chains r c = None \<longrightarrow> sr_chains r' c = sb_chains batch c) \<and>
     (sb_states batch \<noteq> [] \<longrightarrow> length (sr_states r') \<le> limit) \<and>
     (\<forall>p. Product p \<in> set (sb_states batch) \<longrightarrow> p \<in> PS)"

lemma batch_ok_new: "sr_ok r \<Longrightarrow> batch_ok r limit PS batch_new r"
  by (simp add: batch_ok_def batch_new_def)

lemma batch_product_ok:
  assumes ok: "batch_ok r limit PS batch r'" and p: "p \<in> PS"
  shows "case batch_product r p limit batch of
      Inl s \<Rightarrow> s \<noteq> Panicked
    | Inr (i, batch') \<Rightarrow> \<exists>r''. batch_ok r limit PS batch' r'' \<and> sr_ext r' r'' \<and> sr_products r'' p = Some i"
proof -
  have known: "sr_products r' p = (case sr_product_id r p of Some i \<Rightarrow> Some i | None \<Rightarrow> sb_products batch p)"
    using ok by (auto simp: batch_ok_def sr_ext_def sr_product_id_def split: option.split)
  show ?thesis
  proof (cases "sr_products r' p")
    case (Some i)
    then show ?thesis unfolding batch_product_def known [symmetric] using ok by auto
  next
    case None
    show ?thesis
    proof (cases "batch_next_id r limit batch")
      case (Inl s)
      then show ?thesis unfolding batch_product_def known [symmetric] None
        using batch_next_id_no_panic [of r limit batch] by (auto simp del: batch_next_id_no_panic)
    next
      case (Inr i)
      have states: "sr_states r' = sr_states r @ sb_states batch" and sr: "sr_ok r'" using ok by (simp_all add: batch_ok_def)
      have room: "length (sr_states r') + 1 \<le> limit" "length (sr_states r') < 2 ^ 32 - 1" "i = of_nat (length (sr_states r'))"
        using batch_next_id_eq [OF Inr] states by (simp_all add: sr_len_def)
      let ?r = "r'\<lparr>sr_products := (sr_products r')(p \<mapsto> i), sr_states := sr_states r' @ [Product p]\<rparr>"
      let ?b = "batch\<lparr>sb_products := (sb_products batch)(p \<mapsto> i), sb_states := sb_states batch @ [Product p]\<rparr>"
      note c = sr_commit_product [OF sr None room(2), folded room(3)]
      have "sr_products r p = None" using ok None by (cases "sr_products r p") (auto simp: batch_ok_def sr_ext_def)
      then have "batch_ok r limit PS ?b ?r"
        using ok c room(1) p sr_ext_trans [OF _ c(3), of r]
        by (auto simp: batch_ok_def sr_commit_prepared_append)
      then show ?thesis unfolding batch_product_def known [symmetric] None using Inr c(3) by auto
    qed
  qed
qed

lemma batch_chain_ok:
  assumes ok: "batch_ok r limit PS batch r'" and width: "2 \<le> chain_width c"
    and target: "sr_products r' q = Some (ec_target c)"
  shows "case batch_chain r c limit batch of
      Inl s \<Rightarrow> s \<noteq> Panicked
    | Inr (i, batch') \<Rightarrow> \<exists>r''. batch_ok r limit PS batch' r'' \<and> sr_ext r' r'' \<and> sr_chains r'' c = Some i"
proof -
  have known: "sr_chains r' c = (case sr_chain_id r c of Some i \<Rightarrow> Some i | None \<Rightarrow> sb_chains batch c)"
    using ok by (auto simp: batch_ok_def sr_ext_def sr_chain_id_def split: option.split)
  have wide: "\<not> chain_width c \<le> 1" using width by simp
  have sr: "sr_ok r'" and states: "sr_states r' = sr_states r @ sb_states batch" using ok by (simp_all add: batch_ok_def)
  have target': "nth_opt (sr_states r') (unat (ec_target c)) = Some (Product q)" using sr target by (simp add: sr_ok_def)
  show ?thesis
  proof (cases "sr_chains r' c")
    case (Some i)
    then show ?thesis unfolding batch_chain_def known [symmetric] if_not_P [OF wide] using ok by auto
  next
    case None
    show ?thesis
    proof (cases "batch_next_id r limit batch")
      case (Inl s)
      then show ?thesis unfolding batch_chain_def known [symmetric] None if_not_P [OF wide]
        using batch_next_id_no_panic [of r limit batch] by (auto simp del: batch_next_id_no_panic)
    next
      case (Inr i)
      have i: "i = of_nat (length (sr_states r'))" using batch_next_id_eq [OF Inr] states by (simp add: sr_len_def)
      let ?count = "Option.bind (usize_checked_add (sr_len r) (length (sb_states batch)))
                            (\<lambda>base. usize_checked_add base (chain_width c - 1))"
      show ?thesis
      proof (cases ?count)
        case None': None
        then show ?thesis unfolding batch_chain_def known [symmetric] None if_not_P [OF wide] using Inr by simp
      next
        case (Some required)
        then have required: "required = length (sr_states r') + (chain_width c - 1)"
          by (auto simp: bind_eq_Some_conv usize_checked_add_def states sr_len_def split: if_splits)
        show ?thesis
        proof (cases "checked_state_count required limit")
          case (Inl s)
          then have "s \<noteq> Panicked" by auto
          then show ?thesis unfolding batch_chain_def known [symmetric] None if_not_P [OF wide] using Inr Some Inl by simp
        next
          case counted: (Inr j)
          have room: "required \<le> limit" "required < 2 ^ 32" using checked_state_count_eq [OF counted] by simp_all
          let ?r = "r'\<lparr>sr_chains := (sr_chains r')(c \<mapsto> i), sr_states := sr_states r' @ chain_states c i\<rparr>"
          let ?b = "batch\<lparr>sb_chains := (sb_chains batch)(c \<mapsto> i), sb_states := sb_states batch @ chain_states c i\<rparr>"
          note commit = sr_commit_chain [OF sr None width room(2) [unfolded required] target', folded i]
          have "sr_chains r c = None" using ok None by (cases "sr_chains r c") (auto simp: batch_ok_def sr_ext_def)
          moreover have "length (chain_states c i) = chain_width c - 1" "\<And>p. Product p \<notin> set (chain_states c i)"
            by (auto simp: chain_states_def)
          ultimately have "batch_ok r limit PS ?b ?r"
            using ok commit room(1) required sr_ext_trans [OF _ commit(3), of r]
            by (auto simp: batch_ok_def sr_commit_prepared_append)
          then show ?thesis unfolding batch_chain_def known [symmetric] None if_not_P [OF wide]
            using Inr Some counted commit(3) by auto
        qed
      qed
    qed
  qed
qed

section \<open>Committing arcs\<close>

definition arc_product :: "u32 list \<Rightarrow> pending_arc \<Rightarrow> product_state" where
  "arc_product resolved a =
     \<lparr>ps_node = resolved_node (pa_target a) resolved, ps_query_pos = pa_query_pos a, ps_cost = pa_cost a\<rparr>"

definition arc_chain :: "pending_arc \<Rightarrow> state_id \<Rightarrow> emission_chain" where
  "arc_chain a target = \<lparr>ec_input = pa_input a, ec_output = pa_output a, ec_target = target\<rparr>"

text \<open>The transition of an arc: into its target, or into the chain that emits the other labels first.\<close>

definition arc_transition :: "state_registry \<Rightarrow> u32 list \<Rightarrow> state_id \<Rightarrow> pending_arc \<Rightarrow> transition \<Rightarrow> bool" where
  "arc_transition r resolved state a t \<longleftrightarrow>
     (\<exists>target to. sr_products r (arc_product resolved a) = Some target \<and>
        (if chain_width (arc_chain a target) \<le> 1 then to = target else sr_chains r (arc_chain a target) = Some to) \<and>
        t = mk_transition state (nth_opt (pa_input a) 0) (nth_opt (pa_output a) 0) to (pa_weight a))"

lemma arc_transition_ext: "arc_transition r resolved state a t \<Longrightarrow> sr_ext r r' \<Longrightarrow> arc_transition r' resolved state a t"
  unfolding arc_transition_def sr_ext_def by (metis (no_types, lifting))

lemma commit_arcs_runs:
  "batch_ok r limit PS batch r' \<Longrightarrow> limit = max_retained_wfst_states limits \<Longrightarrow> \<forall>a \<in> set arcs. arc_product resolved a \<in> PS \<Longrightarrow>
     runs (commit_arcs r limits resolved state arcs (batch, ts)) b (\<lambda>(batch', ts') _.
       \<exists>r'' new. batch_ok r limit PS batch' r'' \<and> sr_ext r' r'' \<and> ts' = ts @ new \<and>
         list_all2 (arc_transition r'' resolved state) arcs new)"
proof (induction arcs arbitrary: batch r' ts b)
  case Nil
  then show ?case by auto
next
  case (Cons a arcs)
  let ?post = "\<lambda>(batch', ts') (_ :: expansion_budget).
       \<exists>r'' new. batch_ok r limit PS batch' r'' \<and> sr_ext r' r'' \<and> ts' = ts @ new \<and>
         list_all2 (arc_transition r'' resolved state) (a # arcs) new"
  let ?t = "\<lambda>to. mk_transition state (nth_opt (pa_input a) 0) (nth_opt (pa_output a) 0) to (pa_weight a)"
  have rest: "runs (commit_arcs r limits resolved state arcs (batch2, ts @ [?t to])) b2 ?post"
    if b2: "batch_ok r limit PS batch2 r2" "sr_ext r' r2" and t: "arc_transition r2 resolved state a (?t to)" for batch2 r2 to b2
  proof -
    have "\<forall>a \<in> set arcs. arc_product resolved a \<in> PS" using Cons.prems(3) by simp
    from Cons.IH [OF b2(1) Cons.prems(2) this, of "ts @ [?t to]" b2]
    show ?thesis
    proof (rule runs_mono)
      fix x b3
      assume "(\<lambda>(batch', ts') (_ :: expansion_budget). \<exists>r'' new. batch_ok r limit PS batch' r'' \<and> sr_ext r2 r'' \<and>
          ts' = (ts @ [?t to]) @ new \<and> list_all2 (arc_transition r'' resolved state) arcs new) x b3"
      then obtain batch3 r3 new where x: "x = (batch3, (ts @ [?t to]) @ new)" "batch_ok r limit PS batch3 r3" "sr_ext r2 r3"
        "list_all2 (arc_transition r3 resolved state) arcs new" by (cases x) auto
      have "list_all2 (arc_transition r3 resolved state) (a # arcs) (?t to # new)" using x(4) arc_transition_ext [OF t x(3)] by simp
      moreover have "sr_ext r' r3" by (rule sr_ext_trans [OF b2(2) x(3)])
      ultimately show "?post x b3" using x(1,2) by auto
    qed
  qed
  have chain: "case (if max (length (pa_input a)) (length (pa_output a)) \<le> 1 then Inr (target, batch1)
         else batch_chain r \<lparr>ec_input = pa_input a, ec_output = pa_output a, ec_target = target\<rparr>
                (max_retained_wfst_states limits) batch1) of
       Inl s \<Rightarrow> s \<noteq> Panicked
     | Inr (to, batch2) \<Rightarrow> \<exists>r2. batch_ok r limit PS batch2 r2 \<and> sr_ext r' r2 \<and> arc_transition r2 resolved state a (?t to)"
    if b1: "batch_ok r limit PS batch1 r1" "sr_ext r' r1" and target: "sr_products r1 (arc_product resolved a) = Some target"
    for batch1 r1 target
  proof (cases "chain_width (arc_chain a target) \<le> 1")
    case True
    then have "arc_transition r1 resolved state a (?t target)" using target by (auto simp: arc_transition_def)
    moreover have "max (length (pa_input a)) (length (pa_output a)) \<le> 1" using True by (simp add: arc_chain_def chain_width_def)
    ultimately show ?thesis using b1 by auto
  next
    case False
    then have wide: "2 \<le> chain_width (arc_chain a target)" by simp
    have narrow: "\<not> max (length (pa_input a)) (length (pa_output a)) \<le> 1" using False by (simp add: arc_chain_def chain_width_def)
    have "sr_products r1 (arc_product resolved a) = Some (ec_target (arc_chain a target))"
      using target by (simp add: arc_chain_def)
    note c = batch_chain_ok [OF b1(1) wide this]
    show ?thesis
    proof (cases "batch_chain r (arc_chain a target) limit batch1")
      case (Inl s)
      then show ?thesis using c Cons.prems(2) narrow by (auto simp: arc_chain_def)
    next
      case (Inr x)
      obtain to batch2 where x: "x = (to, batch2)" by force
      then obtain r2 where r2: "batch_ok r limit PS batch2 r2" "sr_ext r1 r2" "sr_chains r2 (arc_chain a target) = Some to"
        using c Inr by auto
      have "sr_products r2 (arc_product resolved a) = Some target" using target r2(2) by (simp add: sr_ext_def)
      then have "arc_transition r2 resolved state a (?t to)" using r2(3) False by (auto simp: arc_transition_def)
      then show ?thesis using Inr x r2 sr_ext_trans [OF b1(2)] Cons.prems(2) narrow by (auto simp: arc_chain_def)
    qed
  qed
  have product: "case batch_product r (arc_product resolved a) (max_retained_wfst_states limits) batch of
      Inl s \<Rightarrow> s \<noteq> Panicked
    | Inr (i, batch') \<Rightarrow> \<exists>r''. batch_ok r limit PS batch' r'' \<and> sr_ext r' r'' \<and> sr_products r'' (arc_product resolved a) = Some i"
    using batch_product_ok [OF Cons.prems(1), of "arc_product resolved a"] Cons.prems(2,3) by simp
  show ?case
    unfolding commit_arcs.simps arc_product_def [symmetric]
  proof (subst runs_cbind, rule runs_primitive, subst runs_cbind, simp only: runs_simps, goal_cases)
    case (1 b1)
    show ?case
    proof (cases "batch_product r (arc_product resolved a) (max_retained_wfst_states limits) batch")
      case (Inl s)
      then show ?thesis using product by simp
    next
      case (Inr x)
      obtain target batch1 where x: "x = (target, batch1)" by force
      obtain r1 where r1: "batch_ok r limit PS batch1 r1" "sr_ext r' r1" "sr_products r1 (arc_product resolved a) = Some target"
        using product Inr x by auto
      note c = chain [OF r1]
      show ?thesis
      proof (simp only: Inr x sum.case prod.case, subst runs_cbind, simp only: runs_simps, goal_cases)
        case 1
        show ?case using c rest by (auto split: sum.splits prod.splits)
      qed
    qed
  qed
qed

end
