(* ===== verification/Generalized_Expand.thy ===== *)
theory Generalized_Expand
  imports Generalized_Commit
begin

text \<open>
  Whole expansions of the generalized WFST: what a registered state expands to, that a stopped
  expansion leaves no trace, that expansions never panic, and that the retained nodes and states
  stay within their limits.
\<close>

section \<open>Well-formed WFSTs\<close>

definition product_ok :: "'n gen_wfst \<Rightarrow> product_state \<Rightarrow> bool" where
  "product_ok g p \<longleftrightarrow> (\<exists>n. gen_dictionary_node g (ps_node p) = Some n) \<and>
     is_char_boundary (gw_query g) (ps_query_pos p) \<and> cost_within_bound g (ps_cost p)"

definition gen_wf :: "'n gen_wfst \<Rightarrow> bool" where
  "gen_wf g \<longleftrightarrow> gen_base g \<and> sr_ok (gw_states g) \<and>
     (\<forall>p. Product p \<in> set (sr_states (gw_states g)) \<longrightarrow> product_ok g p) \<and>
     reg_len (gw_nodes g) \<le> max_retained_dictionary_nodes (gw_limits g) \<and>
     sr_len (gw_states g) \<le> max_retained_wfst_states (gw_limits g)"

text \<open>Only the registries change, and they only grow.\<close>

definition gen_ext :: "'n gen_wfst \<Rightarrow> 'n gen_wfst \<Rightarrow> bool" where
  "gen_ext g g' \<longleftrightarrow> g' = g\<lparr>gw_nodes := gw_nodes g', gw_states := gw_states g'\<rparr> \<and>
     reg_ext (gw_nodes g) (gw_nodes g') \<and> sr_ext (gw_states g) (gw_states g')"

lemma gen_ext_refl [simp]: "gen_ext g g"
  by (simp add: gen_ext_def reg_ext_refl)

lemma gen_ext_fields:
  assumes "gen_ext g g'"
  shows "gw_dictionary g' = gw_dictionary g" "gw_query g' = gw_query g" "gw_operations g' = gw_operations g"
    "gw_prepared g' = gw_prepared g" "gw_scale g' = gw_scale g" "gw_max_cost g' = gw_max_cost g" "gw_limits g' = gw_limits g"
    "gw_source_slots g' = gw_source_slots g" "gw_query_slots g' = gw_query_slots g"
proof -
  obtain ns rs where "g' = g\<lparr>gw_nodes := ns, gw_states := rs\<rparr>" using assms unfolding gen_ext_def by metis
  then show "gw_dictionary g' = gw_dictionary g" "gw_query g' = gw_query g" "gw_operations g' = gw_operations g"
    "gw_prepared g' = gw_prepared g" "gw_scale g' = gw_scale g" "gw_max_cost g' = gw_max_cost g" "gw_limits g' = gw_limits g"
    "gw_source_slots g' = gw_source_slots g" "gw_query_slots g' = gw_query_slots g" by simp_all
qed

lemma gen_ext_trans:
  assumes "gen_ext a b" and "gen_ext b c"
  shows "gen_ext a c"
proof -
  have "c = a\<lparr>gw_nodes := gw_nodes c, gw_states := gw_states c\<rparr>"
    using assms unfolding gen_ext_def by (metis (no_types, lifting) gen_wfst.surjective gen_wfst.update_convs(11,12))
  then show ?thesis using assms reg_ext_trans sr_ext_trans unfolding gen_ext_def by blast
qed

lemma op_step_ext: "gen_ext g g' \<Longrightarrow> op_step g' = op_step g"
  by (simp add: fun_eq_iff op_step_def gen_ext_fields)

lemma gen_dictionary_node_ext: "gen_ext g g' \<Longrightarrow> gen_dictionary_node g i = Some n \<Longrightarrow> gen_dictionary_node g' i = Some n"
  by (simp add: gen_dictionary_node_def gen_ext_def reg_ext_def)

lemma ops_ok_cong:
  assumes "gw_operations g' = gw_operations g" and "gw_prepared g' = gw_prepared g" and "gw_scale g' = gw_scale g"
    and "gw_source_slots g' = gw_source_slots g" and "gw_query_slots g' = gw_query_slots g"
  shows "ops_ok g' = ops_ok g"
proof -
  have "prepared_op g' = prepared_op g" by (simp add: fun_eq_iff prepared_op_def assms)
  then show ?thesis by (simp only: ops_ok_def assms)
qed

lemma product_ok_ext: "gen_ext g g' \<Longrightarrow> product_ok g p \<Longrightarrow> product_ok g' p"
  by (auto simp: product_ok_def cost_within_bound_def gen_ext_fields gen_dictionary_node_ext)

section \<open>Expanding a product state\<close>

text \<open>The state stands for a node, a query position and a cost.\<close>

definition gen_at :: "'n gen_wfst \<Rightarrow> state_id \<Rightarrow> 'n \<times> usize \<times> usize \<Rightarrow> bool" where
  "gen_at g state x \<longleftrightarrow>
     (\<exists>p. gen_registered_state g state = Some (Product p) \<and> gen_dictionary_node g (ps_node p) = Some (fst x) \<and>
        ps_query_pos p = fst (snd x) \<and> ps_cost p = snd (snd x))"

text \<open>The transition of a step: into the target state, or into the chain before it.\<close>

definition step_transition ::
    "'n gen_wfst \<Rightarrow> state_id \<Rightarrow> operation \<Rightarrow> uchar list \<Rightarrow> uchar list \<Rightarrow> 'n \<times> usize \<times> usize \<Rightarrow> transition \<Rightarrow> bool" where
  "step_transition g state op u v y t \<longleftrightarrow>
     (\<exists>target to. gen_at g target y \<and>
        (let c = \<lparr>ec_input = v, ec_output = u, ec_target = target\<rparr>
         in if chain_width c \<le> 1 then to = target else chain_block (sr_states (gw_states g)) to c) \<and>
        t = mk_transition state (nth_opt v 0) (nth_opt u 0) to (op_weight op))"

definition transitions_exact :: "'n gen_wfst \<Rightarrow> state_id \<Rightarrow> 'n \<times> usize \<times> usize \<Rightarrow> transition list \<Rightarrow> bool" where
  "transitions_exact g state x ts \<longleftrightarrow>
     (\<forall>t \<in> set ts. \<exists>op u v y. op_step g x op u v y \<and> step_transition g state op u v y t) \<and>
     (\<forall>op u v y. op_step g x op u v y \<longrightarrow> (\<exists>t \<in> set ts. step_transition g state op u v y t))"

lemma sr_get_eq: "sr_get r i = nth_opt (sr_states r) (unat i)"
  by (simp add: sr_get_def)

lemma sr_ok_product: "sr_ok r \<Longrightarrow> sr_products r p = Some i \<longleftrightarrow> sr_get r i = Some (Product p)"
  by (simp add: sr_ok_def sr_get_eq)

lemma sr_ok_chain: "sr_ok r \<Longrightarrow> sr_chains r c = Some i \<Longrightarrow> chain_block (sr_states r) i c"
  unfolding sr_ok_def by blast

lemma step_boundary:
  assumes "op_step g x op u v (m, pos', cost')"
  shows "is_char_boundary (gw_query g) pos'" and "cost' \<le> gw_max_cost g"
proof -
  obtain before after where "gw_query g = (before @ v) @ after" "pos' = byte_len (before @ v)"
    using assms by (auto simp: op_step_def)
  then have "drop_bytes pos' (gw_query g) = Some after" by (simp only: drop_bytes_byte_len)
  then show "is_char_boundary (gw_query g) pos'" by (simp add: is_char_boundary_def)
  show "cost' \<le> gw_max_cost g" using assms by (simp add: op_step_def split: prod.splits)
qed

lemma commit_transaction_runs:
  assumes wf: "gen_wf g" and exact: "arcs_exact g x st arcs"
  shows "runs (commit_transaction g state st arcs) b (\<lambda>(ts, g') _. gen_wf g' \<and> gen_ext g g' \<and> transitions_exact g' state x ts)"
proof -
  have base: "gen_base g" and sr: "sr_ok (gw_states g)" using wf by (simp_all add: gen_wf_def)
  have dict: "dictionary_ok (gw_dictionary g)" and reg: "reg_wf (gw_nodes g)" "reg_tracks (gw_dictionary g) (gw_nodes g)"
    using base by (simp_all add: gen_base_def char_dictionary_def)
  have staged: "staged_ok (gw_dictionary g) (gw_nodes g) (st_nodes st)"
    and sound: "\<And>a. a \<in> set arcs \<Longrightarrow> arc_ok g x st a" and cover: "\<And>op. covers g x op arcs"
    using exact by (simp_all add: arcs_exact_def staging_ok_def)
  let ?limit = "max_retained_wfst_states (gw_limits g)"
  have committed: "case reg_commit_prepared (rn_additions rn) (gw_nodes g) of
         None \<Rightarrow> False
       | Some reg \<Rightarrow> (case sr_commit_prepared (sb_states batch) (gw_states g) of
            None \<Rightarrow> False
          | Some states \<Rightarrow> (let g' = g\<lparr>gw_nodes := reg, gw_states := states\<rparr>
              in gen_wf g' \<and> gen_ext g g' \<and> transitions_exact g' state x ts))"
    if resolved: "resolved_ok (gw_dictionary g) (gw_nodes g) (gw_limits g) (st_nodes st) rn reg'"
      and batch: "batch_ok (gw_states g) ?limit (arc_product (rn_resolved rn) ` set arcs) batch r'"
      and ts: "list_all2 (arc_transition r' (rn_resolved rn) state) arcs ts" for rn reg' batch r' ts
  proof -
    let ?g = "g\<lparr>gw_nodes := reg', gw_states := r'\<rparr>"
    have commits: "reg_commit_prepared (rn_additions rn) (gw_nodes g) = Some reg'"
      "sr_commit_prepared (sb_states batch) (gw_states g) = Some r'" using resolved batch by (simp_all add: resolved_ok_def batch_ok_def)
    have ext: "gen_ext g ?g" using resolved batch by (simp add: gen_ext_def resolved_ok_def batch_ok_def)
    have sr': "sr_ok r'" using batch by (simp add: batch_ok_def)
    have node: "reg_get_node reg' (resolved_node r (rn_resolved rn)) = Some m"
      if "denotes (gw_nodes g) (st_nodes st) r = Some m" for r m using resolved_denotes [OF resolved that] .
    have base': "gen_base ?g"
      using base resolved ops_ok_cong [of ?g g] by (simp add: gen_base_def resolved_ok_def)
    have product: "product_ok ?g p" if p: "Product p \<in> set (sr_states r')" for p
    proof (cases "Product p \<in> set (sr_states (gw_states g))")
      case True
      then show ?thesis using wf product_ok_ext [OF ext] by (simp add: gen_wf_def)
    next
      case False
      then obtain a where a: "a \<in> set arcs" "p = arc_product (rn_resolved rn) a" using p batch by (auto simp: batch_ok_def)
      obtain op m where m: "op_step g x op (pa_output a) (pa_input a) (m, pa_query_pos a, pa_cost a)"
        "denotes (gw_nodes g) (st_nodes st) (pa_target a) = Some m" using sound [OF a(1)] by (auto simp: arc_ok_def)
      show ?thesis using step_boundary [OF m(1)] node [OF m(2)] a(2)
        by (simp add: product_ok_def gen_dictionary_node_def cost_within_bound_def arc_product_def)
    qed
    have limits: "reg_len reg' \<le> max_retained_dictionary_nodes (gw_limits g)" "sr_len r' \<le> ?limit"
    proof -
      have "reg_len reg' \<noteq> reg_len (gw_nodes g) \<longrightarrow> reg_len reg' \<le> max_retained_dictionary_nodes (gw_limits g)"
        using resolved unfolding resolved_ok_def by blast
      then show "reg_len reg' \<le> max_retained_dictionary_nodes (gw_limits g)" using wf by (auto simp: gen_wf_def)
      have "sb_states batch \<noteq> [] \<longrightarrow> length (sr_states r') \<le> ?limit" "sr_states r' = sr_states (gw_states g) @ sb_states batch"
        using batch unfolding batch_ok_def by blast+
      moreover have "length (sr_states (gw_states g)) \<le> ?limit" using wf by (simp add: gen_wf_def sr_len_def)
      ultimately show "sr_len r' \<le> ?limit" unfolding sr_len_def by (cases "sb_states batch = []") simp_all
    qed
    have wf': "gen_wf ?g" using base' sr' product limits by (simp add: gen_wf_def)
    have step: "step_transition ?g state op (pa_output a) (pa_input a) (m, pa_query_pos a, pa_cost a) t"
      if a: "pa_weight a = op_weight op" "denotes (gw_nodes g) (st_nodes st) (pa_target a) = Some m"
        and t: "arc_transition r' (rn_resolved rn) state a t" for a op m t
    proof -
      obtain target to where to: "sr_products r' (arc_product (rn_resolved rn) a) = Some target"
        "if chain_width (arc_chain a target) \<le> 1 then to = target else sr_chains r' (arc_chain a target) = Some to"
        "t = mk_transition state (nth_opt (pa_input a) 0) (nth_opt (pa_output a) 0) to (pa_weight a)"
        using t by (auto simp: arc_transition_def)
      have "gen_at ?g target (m, pa_query_pos a, pa_cost a)"
        using to(1) sr_ok_product [OF sr'] node [OF a(2)]
        by (simp add: gen_at_def gen_registered_state_def gen_dictionary_node_def arc_product_def)
      moreover have "chain_block (sr_states r') to (arc_chain a target)" if "\<not> chain_width (arc_chain a target) \<le> 1"
        by (rule sr_ok_chain [OF sr']) (use to(2) that in simp)
      ultimately show ?thesis
        unfolding step_transition_def Let_def arc_chain_def [symmetric]
        using to a(1) by (intro exI [of _ target] exI [of _ to]) auto
    qed
    have "\<exists>op u v y. op_step ?g x op u v y \<and> step_transition ?g state op u v y t" if "t \<in> set ts" for t
    proof -
      obtain a where a: "a \<in> set arcs" "arc_transition r' (rn_resolved rn) state a t"
        using \<open>t \<in> set ts\<close> ts by (metis in_set_conv_nth list_all2_conv_all_nth)
      obtain op m where m: "op_step g x op (pa_output a) (pa_input a) (m, pa_query_pos a, pa_cost a)" "pa_weight a = op_weight op"
        "denotes (gw_nodes g) (st_nodes st) (pa_target a) = Some m" using sound [OF a(1)] by (auto simp: arc_ok_def)
      show ?thesis using step [OF m(2,3) a(2)] m(1) op_step_ext [OF ext] by metis
    qed
    moreover have "\<exists>t \<in> set ts. step_transition ?g state op u v y t" if s: "op_step ?g x op u v y" for op u v y
    proof -
      obtain m pos' cost' where y: "y = (m, pos', cost')" by (cases y)
      have "op_step g x op u v (m, pos', cost')" using s op_step_ext [OF ext] y by simp
      then obtain a where a: "a \<in> set arcs" "pa_output a = u" "pa_input a = v" "pa_query_pos a = pos'" "pa_cost a = cost'"
        "pa_weight a = op_weight op" using cover unfolding covers_def by blast
      obtain t where t: "t \<in> set ts" "arc_transition r' (rn_resolved rn) state a t"
        using a(1) ts by (metis in_set_conv_nth list_all2_conv_all_nth)
      obtain op' m' where m': "op_step g x op' u v (m', pos', cost')" "denotes (gw_nodes g) (st_nodes st) (pa_target a) = Some m'"
        using sound [OF a(1)] a by (auto simp: arc_ok_def)
      have "m' = m" using \<open>op_step g x op u v (m, pos', cost')\<close> m'(1) by (auto simp: op_step_def split: prod.splits)
      then show ?thesis using step [OF a(6) m'(2) t(2)] t(1) a y by auto
    qed
    ultimately have "transitions_exact ?g state x ts" by (simp add: transitions_exact_def)
    then show ?thesis using commits wf' ext by (simp add: Let_def)
  qed
  let ?post = "\<lambda>(ts, g') (_ :: expansion_budget). gen_wf g' \<and> gen_ext g g' \<and> transitions_exact g' state x ts"
  show ?thesis
    unfolding commit_transaction_def
  proof (subst runs_cbind, rule runs_primitive, subst runs_cbind, rule runs_mono [OF resolve_loop_runs [OF dict reg staged]],
      elim exE, subst runs_cbind, goal_cases)
    case (1 b1 rn b2 reg')
    have "runs (commit_arcs (gw_states g) (gw_limits g) (rn_resolved rn) state arcs (batch_new, [])) b2 (\<lambda>(batch', ts') _.
       \<exists>r'' new. batch_ok (gw_states g) ?limit (arc_product (rn_resolved rn) ` set arcs) batch' r'' \<and> sr_ext (gw_states g) r'' \<and>
         ts' = [] @ new \<and> list_all2 (arc_transition r'' (rn_resolved rn) state) arcs new)"
      by (rule commit_arcs_runs [OF batch_ok_new [OF sr] refl]) simp
    then show ?case
    proof (rule runs_mono, goal_cases)
      case (1 bt b3)
      obtain batch ts where bt: "bt = (batch, ts)" by force
      obtain r' where "batch_ok (gw_states g) ?limit (arc_product (rn_resolved rn) ` set arcs) batch r'"
        "list_all2 (arc_transition r' (rn_resolved rn) state) arcs ts" using 1 bt by auto
      note c = committed [OF \<open>resolved_ok _ _ _ _ rn reg'\<close> this]
      show ?case
        unfolding bt prod.case
      proof (subst runs_cbind, rule runs_primitive, subst runs_cbind, rule runs_primitive, goal_cases)
        case (1 b4 b5)
        then show ?case using c by (auto simp: Let_def split: option.splits)
      qed
    qed
  qed
qed

section \<open>Expanding a registered state\<close>

definition emit_transition :: "state_id \<Rightarrow> emit_state \<Rightarrow> transition" where
  "emit_transition state e = mk_transition state (nth_opt (ec_input (es_chain e)) (es_position e))
     (nth_opt (ec_output (es_chain e)) (es_position e)) (es_next e) (F64 0)"

text \<open>What a successful expansion of a registered state shows.\<close>

definition expanded_ok ::
    "'n gen_wfst \<Rightarrow> state_id \<Rightarrow> bool \<Rightarrow> weight \<Rightarrow> transition list \<Rightarrow> 'n gen_wfst \<Rightarrow> bool" where
  "expanded_ok g state fin w ts g' \<longleftrightarrow> gen_wf g' \<and> gen_ext g g' \<and>
     w = (if fin then F64 0 else tropical_zero) \<and>
     ((\<exists>n pos cost. gen_at g state (n, pos, cost) \<and> transitions_exact g' state (n, pos, cost) ts \<and>
         (fin \<longleftrightarrow> pos = byte_len (gw_query g) \<and> node_is_final (gw_dictionary g) n)) \<or>
      (\<exists>e. gen_registered_state g state = Some (Emit e) \<and> ts = [emit_transition state e] \<and> \<not> fin \<and> g' = g))"

lemma registered_product_ok:
  assumes "gen_wf g" and "gen_registered_state g state = Some (Product p)"
  shows "product_ok g p"
proof -
  have "Product p \<in> set (sr_states (gw_states g))"
    using assms(2) nth_mem by (fastforce simp: gen_registered_state_def sr_get_eq nth_opt_def split: if_splits)
  then show ?thesis using assms(1) by (simp add: gen_wf_def)
qed

lemma width_cache_runs: "runs (width_cache n) b (\<lambda>c _. c = replicate n Uncomputed)"
  by (simp add: width_cache_def runs_cbind runs_primitive)

lemma product_transaction_runs:
  assumes wf: "gen_wf g" and p: "gen_registered_state g state = Some (Product p)"
  shows "runs (product_transaction g state p) b (\<lambda>(cs, g') _. expanded_ok g state (cs_final cs) (cs_weight cs) (cs_transitions cs) g')"
proof -
  obtain n where n: "gen_dictionary_node g (ps_node p) = Some n" and bnd: "is_char_boundary (gw_query g) (ps_query_pos p)"
    and cost: "cost_within_bound g (ps_cost p)" using registered_product_ok [OF wf p] by (auto simp: product_ok_def)
  let ?x = "(n, ps_query_pos p, ps_cost p)"
  have at: "gen_at g state ?x" using p n by (simp add: gen_at_def)
  have base: "gen_base g" using wf by (simp add: gen_wf_def)
  let ?fw = "product_final_weight g p n"
  have fw: "?fw = (if ps_query_pos p = byte_len (gw_query g) \<and> node_is_final (gw_dictionary g) n then Some (F64 0) else None)"
    using cost by (simp add: product_final_weight_def)
  have done_: "expanded_ok g state (?fw \<noteq> None) (case ?fw of Some w \<Rightarrow> w | None \<Rightarrow> tropical_zero) ts g'"
    if "gen_wf g'" "gen_ext g g'" "transitions_exact g' state ?x ts" for ts g'
    unfolding expanded_ok_def
    by (intro conjI disjI1 exI [of _ n] exI [of _ "ps_query_pos p"] exI [of _ "ps_cost p"]) (use that at fw in auto)
  note ops = operations_arcs_exact [OF base n, of, unfolded cost_within_bound_def [symmetric], OF cost]
  have "\<not> (\<not> is_char_boundary (gw_query g) (ps_query_pos p) \<or> \<not> cost_within_bound g (ps_cost p))" using bnd cost by simp
  note ok = this
  show ?thesis
    unfolding product_transaction_def n option.case if_not_P [OF ok] Let_def
  proof (subst runs_cbind, rule runs_primitive, subst runs_cbind, rule runs_primitive,
      subst runs_cbind, rule runs_mono [OF width_cache_runs], subst runs_cbind, rule runs_mono [OF width_cache_runs],
      subst runs_cbind, simp only:, rule runs_mono [OF ops], subst runs_cbind, rule runs_primitive, subst runs_cbind, goal_cases)
    case (1 b1 b2 paths b3 queries b4 pw b5 b6)
    then have exact: "arcs_exact g ?x (pw_staging pw) (pw_arcs pw)" by simp
    show ?case
    proof (rule runs_mono [OF commit_transaction_runs [OF wf exact]], goal_cases)
      case (1 r b7)
      then show ?case using done_ by (cases r) simp
    qed
  qed
qed

lemma try_compute_runs:
  assumes wf: "gen_wf g"
  shows "runs (try_transaction g state) b (\<lambda>(cs, g') _. expanded_ok g state (cs_final cs) (cs_weight cs) (cs_transitions cs) g')"
  unfolding try_transaction_def
proof (subst runs_cbind, rule runs_primitive, subst runs_cbind, rule runs_primitive, goal_cases)
  case (1 b1 b2)
  show ?case
  proof (cases "gen_registered_state g state")
    case None
    then show ?thesis by simp
  next
    case (Some s)
    show ?thesis
    proof (cases s)
      case (Product p)
      then show ?thesis using Some product_transaction_runs [OF wf] by simp
    next
      case (Emit e)
      have "expanded_ok g state False tropical_zero [emit_transition state e] g"
        using wf Some Emit by (simp add: expanded_ok_def)
      then show ?thesis using Some Emit
        by (simp add: emit_transaction_def runs_cbind runs_primitive emit_transition_def)
    qed
  qed
qed

text \<open>The result of an expansion, whatever its environment answers.\<close>

lemma expansion_result:
  assumes "gen_wf g" and "compute_registered_state_with_check env g state = (r, g')"
  shows "case r of
      None \<Rightarrow> False
    | Some (Expanded fin w ts) \<Rightarrow> expanded_ok g state fin w ts g'
    | Some _ \<Rightarrow> g' = g"
proof -
  let ?t = "try_transaction g state (budget_new (gw_limits g) (env_cancellation env) (env_source env))"
  have calm: "?t \<noteq> Inl Panicked" using runs_no_panic [OF try_compute_runs [OF assms(1)]] by auto
  note computed = computed_transaction [OF calm]
  show ?thesis
  proof (cases "env_scope env")
    case (Some e)
    then show ?thesis using assms(2) computed by (cases e) auto
  next
    case None
    show ?thesis
    proof (cases ?t)
      case (Inl s)
      then obtain e where "s = Stopped e" using calm by (cases s) auto
      then show ?thesis using assms(2) computed None Inl by (cases e) auto
    next
      case (Inr x)
      obtain cs g1 b1 where x: "x = ((cs, g1), b1)" by (metis surj_pair)
      have "expanded_ok g state (cs_final cs) (cs_weight cs) (cs_transitions cs) g1"
        using runsD [OF try_compute_runs [OF assms(1)]] Inr x by fastforce
      then show ?thesis using assms(2) computed None Inr x by auto
    qed
  qed
qed

section \<open>Construction\<close>

lemma keep_bounded_length: "length (foldl (keep_bounded c) bs xs) \<le> length bs + length xs"
proof (induction xs arbitrary: bs)
  case (Cons x xs)
  have "length (keep_bounded c bs x) \<le> Suc (length bs)" by (cases x) (simp add: keep_bounded_def)
  then show ?case using Cons.IH [of "keep_bounded c bs x"] by simp
qed simp

lemma bounded_length:
  assumes "bounded_operation_set scale c ops = Inr bs"
  shows "length bs \<le> length ops"
proof -
  obtain ns where ns: "scale_all scale ops = Inr ns" "bs = foldl (keep_bounded c) [] (zip ops ns)"
    using assms by (auto simp: bounded_operation_set_def split: sum.splits)
  then show ?thesis using keep_bounded_length [of c "[]" "zip ops ns"] by (simp add: scale_all_Inr)
qed

lemma foldl_max_ge: "x \<in> set xs \<Longrightarrow> x \<le> foldl max (a :: nat) xs"
proof -
  have "a \<le> foldl max a xs \<and> (\<forall>x \<in> set xs. x \<le> foldl max a xs)"
  proof (induction xs arbitrary: a)
    case (Cons y ys)
    from Cons [of "max a y"] show ?case by auto
  qed simp
  then show "x \<in> set xs \<Longrightarrow> x \<le> foldl max a xs" by simp
qed

lemma slot_count_ge:
  assumes "p \<in> set ps"
  shows "slot p < slot_count slot ps"
proof -
  have "slot p + 1 \<in> set (map (\<lambda>p. slot p + 1) ps)" using assms by simp
  then have "slot p + 1 \<le> slot_count slot ps" unfolding slot_count_def by (rule foldl_max_ge)
  then show ?thesis by simp
qed

lemma prepared_ops_ok:
  assumes "prepare_operations ops scale = Inr ps" and "length ops < usize_max"
    and "gw_operations g = ops" "gw_prepared g = ps" "gw_scale g = scale"
    and "gw_source_slots g = slot_count po_source_slot ps" "gw_query_slots g = slot_count po_query_slot ps"
  shows "ops_ok g"
proof -
  obtain xs nx ys ny where sx: "slots_ok (map consume_x ops) xs nx" and sy: "slots_ok (map consume_y ops) ys ny"
    and len: "length ps = length ops" and p: "\<forall>i < length ops. prepared_from scale xs ys i (ops ! i) (ps ! i)"
    by (rule prepare_operations_ok [OF assms(1,2)])
  have inj: "inj_on (\<lambda>w. xs ! w) (set (map consume_x ops))" "inj_on (\<lambda>w. ys ! w) (set (map consume_y ops))"
    using sx sy by (simp_all add: slots_ok_def bij_betw_def)
  have at: "\<exists>i < length ops. op = ops ! i \<and> q = ps ! i \<and> prepared_from scale xs ys i op q" if "prepared_op g q op" for q op
    using that p assms(3,4) by (auto simp: prepared_op_def)
  have one: "gw_operations g ! po_index q = op \<and> po_consume_x q = consume_x op \<and> po_consume_y q = consume_y op \<and>
      po_weight q = op_weight op \<and> to_scaled (gw_scale g) (op_weight op) = Inr (po_scaled_weight q) \<and>
      po_source_slot q < gw_source_slots g \<and> po_query_slot q < gw_query_slots g" if pq: "prepared_op g q op" for q op
  proof -
    obtain i where i: "i < length ops" "op = ops ! i" "q = ps ! i" "prepared_from scale xs ys i op q" using at [OF pq] by blast
    then have "q \<in> set ps" using len by simp
    then show ?thesis using i slot_count_ge [of q ps po_source_slot] slot_count_ge [of q ps po_query_slot] assms(3-7)
      by (simp add: prepared_from_def)
  qed
  have two: "(po_source_slot q = po_source_slot q' \<longrightarrow> consume_x op = consume_x op') \<and>
      (po_query_slot q = po_query_slot q' \<longrightarrow> consume_y op = consume_y op')"
    if pq: "prepared_op g q op" and pq': "prepared_op g q' op'" for q op q' op'
  proof -
    obtain i j where i: "i < length ops" "op = ops ! i" "prepared_from scale xs ys i op q"
      and j: "j < length ops" "op' = ops ! j" "prepared_from scale xs ys j op' q'" using at [OF pq] at [OF pq'] by blast
    have "op \<in> set ops" "op' \<in> set ops" using i(1,2) j(1,2) by simp_all
    then have "consume_x op \<in> set (map consume_x ops)" "consume_x op' \<in> set (map consume_x ops)"
      "consume_y op \<in> set (map consume_y ops)" "consume_y op' \<in> set (map consume_y ops)" by simp_all
    then have "xs ! consume_x op = xs ! consume_x op' \<longrightarrow> consume_x op = consume_x op'"
      "ys ! consume_y op = ys ! consume_y op' \<longrightarrow> consume_y op = consume_y op'"
      using inj_onD [OF inj(1), of "consume_x op" "consume_x op'"] inj_onD [OF inj(2), of "consume_y op" "consume_y op'"] by blast+
    then show ?thesis using i(3) j(3) unfolding prepared_from_def by metis
  qed
  have "length (gw_prepared g) = length (gw_operations g)" using len assms(3,4) by simp
  then have len': "length (gw_prepared g) = length (gw_operations g)" .
  show ?thesis
    unfolding ops_ok_def
    by (rule conjI, rule len', (rule conjI, (rule allI)+, rule impI, erule one, (rule allI)+, (rule impI)+, erule (1) two))
qed

lemma validate_construction_ok:
  "validate_construction_limits q ops limits = Inr () \<Longrightarrow>
     1 \<le> max_retained_dictionary_nodes limits \<and> 1 \<le> max_retained_wfst_states limits"
  by (auto simp: validate_construction_limits_def require_at_most_def split: if_splits)

lemma try_new_ok:
  assumes new: "try_new_with_limits lib D q k ops limits = Inr g"
    and dict: "char_dictionary D" and fits: "text_fits q" and few: "length ops < usize_max"
  obtains scale max_cost bounded where "ol_scale lib ops = Inr scale" and "scale_budget scale k = Inr max_cost"
    and "bounded_operation_set scale max_cost ops = Inr bounded"
    and "gw_dictionary g = D" "gw_query g = q" "gw_operations g = bounded" "gw_scale g = scale" "gw_max_cost g = max_cost"
    and "gw_limits g = limits" "gw_nodes g = reg_new (dict_root D)" "gw_states g = sr_new" and "gen_wf g"
proof -
  obtain scale max_cost bounded prepared where b: "validate_construction_limits q ops limits = Inr ()"
    "ol_scale lib ops = Inr scale" "scale_budget scale k = Inr max_cost"
    "bounded_operation_set scale max_cost ops = Inr bounded" "prepare_operations bounded scale = Inr prepared"
    and g: "g = \<lparr>gw_dictionary = D, gw_query = q, gw_max_distance = k,
               gw_operations = bounded, gw_prepared = prepared,
               gw_source_slots = slot_count po_source_slot prepared,
               gw_query_slots = slot_count po_query_slot prepared,
               gw_scale = scale, gw_max_cost = max_cost, gw_limits = limits,
               gw_nodes = reg_new (dict_root D), gw_states = sr_new\<rparr>"
    using new by (auto simp: try_new_with_limits_def split: sum.splits)
  have "length bounded < usize_max" using bounded_length [OF b(4)] few by simp
  then have "ops_ok g" by (rule prepared_ops_ok [OF b(5)]) (simp_all add: g)
  then have "gen_base g" using dict fits by (simp add: gen_base_def g reg_wf_new reg_tracks_new)
  moreover have "sr_states sr_new = [Product start_product]" by (simp add: sr_new_def)
  moreover have "reg_len (reg_new (dict_root D)) = 1" by (simp add: reg_len_def reg_new_eq)
  ultimately have "gen_wf g" using validate_construction_ok [OF b(1)]
    by (auto simp: gen_wf_def g sr_ok_new product_ok_def start_product_def gen_dictionary_node_def reg_get_node_def
        reg_new_eq nth_opt_def is_char_boundary_def cost_within_bound_def sr_len_def)
      (metis drop_bytes.elims option.distinct(1))
  then show ?thesis using that b g by simp
qed

section \<open>A worked instance\<close>

text \<open>
  One operation that copies two characters at the decimal cost 0.1, on the dictionary of \<open>ab\<close> for the query
  \<open>ab\<close>. The weight is the binary fraction nearest to 0.1; the scale counts tenths, as the decimal.
\<close>

definition tenth :: rat where
  "tenth = 3602879701896397 / 36028797018963968"

definition tenth_scale :: cost_scale where
  "tenth_scale = \<lparr>to_scaled = (\<lambda>w. if w = F64 0 then Inr 0 else if w = F64 tenth then Inr 1 else Inl ''inexact''),
     scale_budget = (\<lambda>n. Inr (n * 10))\<rparr>"

definition tenth_library :: operation_library where
  "tenth_library = \<lparr>ol_validate = (\<lambda>_. Inr ()), ol_scale = (\<lambda>_. Inr tenth_scale)\<rparr>"

lemma tenth_nonzero: "tenth \<noteq> 0"
  by (simp add: tenth_def)

definition copy_two :: operation where
  "copy_two = \<lparr>consume_x = 2, consume_y = 2, op_weight = F64 tenth, op_applicability = EqualPair\<rparr>"

definition pair_wfst :: "nat gen_wfst" where
  "pair_wfst = \<lparr>gw_dictionary = ab_dictionary, gw_query = [97, 98], gw_max_distance = 1, gw_operations = [copy_two],
     gw_prepared = [\<lparr>po_index = 0, po_consume_x = 2, po_consume_y = 2, po_source_slot = 0, po_query_slot = 0,
                    po_scaled_weight = 1, po_weight = F64 tenth\<rparr>],
     gw_source_slots = 1, gw_query_slots = 1, gw_scale = tenth_scale, gw_max_cost = 10,
     gw_limits = gen_limits_default, gw_nodes = reg_new 0, gw_states = sr_new\<rparr>"

lemma pair_wfst_new: "gen_try_new tenth_library ab_dictionary [97, 98] 1 [copy_two] = Inr pair_wfst"
proof -
  have bounded: "bounded_operation_set tenth_scale 10 [copy_two] = Inr [copy_two]"
    by (simp add: bounded_operation_set_def copy_two_def tenth_scale_def tenth_nonzero keep_bounded_def
        contains_operation_with_same_wfst_semantics_def)
  have "byte_len [97, 98] = 2" by (simp add: utf8_len_def)
  then have valid: "validate_construction_limits [97, 98] [copy_two] gen_limits_default = Inr ()"
    by (simp add: validate_construction_limits_def require_at_most_def gen_limits_default_def copy_two_def)
  have prepared: "prepare_operations [copy_two] tenth_scale = Inr (gw_prepared pair_wfst)"
    by (simp add: prepare_operations_def copy_two_def max_width_def assign_slot_def tenth_scale_def tenth_nonzero usize_max_def pair_wfst_def numeral_2_eq_2)
  have slots: "slot_count po_source_slot (gw_prepared pair_wfst) = 1" "slot_count po_query_slot (gw_prepared pair_wfst) = 1"
    by (simp_all add: pair_wfst_def slot_count_def)
  have budget: "ol_validate tenth_library [copy_two] = Inr ()" "ol_scale tenth_library [copy_two] = Inr tenth_scale"
    "scale_budget tenth_scale 1 = Inr 10" by (simp_all add: tenth_library_def) (simp add: tenth_scale_def)
  have root: "dict_root ab_dictionary = 0" by (simp add: ab_dictionary_def)
  show ?thesis
    by (simp only: gen_try_new_def try_new_with_limits_def budget valid bounded prepared slots root sum.case)
      (simp add: pair_wfst_def)
qed

lemma ab_char_dictionary: "char_dictionary ab_dictionary"
  using ab_dictionary_ok by (simp add: char_dictionary_def ab_dictionary_def)

lemma pair_wfst_wf: "gen_wf pair_wfst"
proof -
  have fits: "text_fits [97, 98]" by (simp add: text_fits_def utf8_len_def usize_max_def)
  have few: "length [copy_two] < usize_max" by (simp add: usize_max_def)
  show ?thesis by (rule try_new_ok [OF pair_wfst_new [unfolded gen_try_new_def] ab_char_dictionary fits few])
qed

lemmas run_defs = cbind_def creturn_def cfail_def cpanic_def clift_def check_cancelled_def check_source_def
  charge_work_def charge_path_def require_charged_def require_at_most_def usize_checked_add_def usize_max_def budget_new_def


text \<open>The WFST after its start state has been expanded.\<close>

definition pair_emit :: emission_chain where
  "pair_emit = \<lparr>ec_input = [97, 98], ec_output = [97, 98], ec_target = 1\<rparr>"

definition pair_expanded :: "nat gen_wfst" where
  "pair_expanded = pair_wfst\<lparr>
     gw_nodes := \<lparr>node_to_id = [node_key_root \<mapsto> 0, node_key_child 0 97 \<mapsto> 1, node_key_child 1 98 \<mapsto> 2], id_to_node = [0, 1, 2]\<rparr>,
     gw_states := \<lparr>sr_products = [start_product \<mapsto> 0, \<lparr>ps_node = 2, ps_query_pos = 2, ps_cost = 1\<rparr> \<mapsto> 1],
       sr_chains = [pair_emit \<mapsto> 2],
       sr_states = [Product start_product, Product \<lparr>ps_node = 2, ps_query_pos = 2, ps_cost = 1\<rparr>,
         Emit \<lparr>es_chain = pair_emit, es_position = 1, es_next = 1\<rparr>]\<rparr>\<rparr>"

text \<open>
  The source is checked eight times, the last time when every node and state is staged; a failure of that last
  check is still an error, and otherwise the expansion succeeds.
\<close>

definition late_source :: "expansion_error option \<Rightarrow> nat \<Rightarrow> expansion_error option" where
  "late_source x k = (if k < 7 then None else x)"

lemma pair_try:
  "try_transaction pair_wfst 0 (budget_new gen_limits_default (\<lambda>_. None) (late_source x)) =
     (case x of
        None \<Rightarrow> Inr ((\<lparr>cs_final = False, cs_weight = tropical_zero,
            cs_transitions = [mk_transition 0 (Some 97) (Some 97) 2 (F64 tenth)]\<rparr>, pair_expanded),
          \<lparr>eb_paths = 1, eb_work = 68, eb_limits = gen_limits_default, eb_cancel_calls = 25, eb_source_calls = 8,
           eb_cancellation = \<lambda>_. None, eb_source = late_source None\<rparr>)
      | Some e \<Rightarrow> Inl (Stopped e))"
proof -
  have key: "node_key_child 0 97 \<noteq> node_key_root" "node_key_child 1 98 \<noteq> node_key_root"
    by (rule node_key_child_not_root, simp add: char_max_def)+
  have key2: "node_key_child 1 98 \<noteq> node_key_child 0 97" by (simp add: node_key_child_inject char_max_def)
  have bytes: "byte_len [97, 98] = 2" by (simp add: utf8_len_def)
  have seg: "str_segment_by_char_width [97, 98] 0 2 = Some ([97, 98], 2)"
  proof -
    have "segment_end 0 0 [97, 98] (Suc (Suc 0)) 0 = Some 2" by (simp add: utf8_len_def usize_checked_add_def usize_max_def)
    then show ?thesis by (simp add: str_segment_by_char_width_def is_char_boundary_def bytes numeral_2_eq_2)
  qed
  have new: "next_registry_id (Suc 0) = Some 1" "next_registry_id (Suc (Suc 0)) = Some 2"
    "next_state_id (Suc 0) = Some 1" "next_state_id (Suc (Suc 0)) = Some 2"
    by (simp_all add: next_registry_id_def u32_try_from_eq_Some next_state_id_eq)
  show ?thesis
    apply (simp add: try_transaction_def
     run_defs late_source_def gen_registered_state_def pair_wfst_def sr_get_eq sr_new_def nth_opt_def start_product_def product_transaction_def
     gen_dictionary_node_def reg_get_node_def reg_new_eq is_char_boundary_def cost_within_bound_def gen_limits_default_def
     width_cache_def Let_def product_final_weight_def utf8_len_def)
  apply (simp add: operation_step_def run_defs late_source_def load_query_def load_paths_def gen_query_segment_def seg query_segment_new_def utf8_bytes_def utf8_encode_def)
  apply (simp add: dictionary_paths_exact_chars_def gen_dictionary_node_def reg_get_node_def nth_opt_def
     bounded_edges_def run_defs late_source_def ab_dictionary_def ab_edges_def stage_child_def staging_new_def
     reg_get_id_def key utf8_encode_def Let_def operation_applies_def copy_two_def)
  apply (cases x)
  apply (simp_all add: commit_transaction_def run_defs late_source_def resolve_loop.simps resolve_node_def resolution_start_def Let_def resolved_node_def
     reg_get_id_def key key2 fresh_node_id_def reg_len_def new batch_product_def batch_new_def sr_product_id_def batch_next_id_def sr_len_def
     checked_state_count_def usize_checked_sub_def batch_chain_def chain_width_def sr_chain_id_def chain_states_def pair_expanded_def)
  by (simp add: pair_wfst_def nth_opt_def gen_limits_default_def pair_emit_def start_product_def ab_dictionary_def ab_edges_def
      copy_two_def late_source_def fun_eq_iff)
qed

lemma late_source_None: "late_source None = (\<lambda>_. None)"
  by (simp add: late_source_def fun_eq_iff)

text \<open>A source check that fails at its very last call.\<close>

definition late_fault :: gen_env where
  "late_fault = quiet\<lparr>env_source := late_source (Some (Failure (SourceFailure ''late'')))\<rparr>"

lemma pair_expand_start:
  "gen_compute_registered_state pair_wfst 0 =
     (Some (Expanded False tropical_zero [mk_transition 0 (Some 97) (Some 97) 2 (F64 tenth)]), pair_expanded)"
proof -
  have env: "gw_limits pair_wfst = gen_limits_default" "env_scope quiet = None" "env_cancellation quiet = (\<lambda>_. None)"
    "env_source quiet = late_source None" by (simp_all add: pair_wfst_def quiet_def late_source_None)
  show ?thesis unfolding gen_compute_registered_state_def by (subst computed_transaction) (simp_all add: env pair_try)
qed

lemma pair_expand_late:
  "compute_registered_state_with_check late_fault pair_wfst 0 = (Some (Failed (SourceFailure ''late'')), pair_wfst)"
proof -
  have env: "gw_limits pair_wfst = gen_limits_default" "env_scope late_fault = None" "env_cancellation late_fault = (\<lambda>_. None)"
    "env_source late_fault = late_source (Some (Failure (SourceFailure ''late'')))"
    by (simp_all add: pair_wfst_def quiet_def late_fault_def)
  show ?thesis by (subst computed_transaction) (simp_all add: env pair_try)
qed

section \<open>Properties of expansions\<close>

lemma gen_at_unique: "gen_at g s x \<Longrightarrow> gen_at g s y \<Longrightarrow> x = y"
  by (auto simp: gen_at_def prod_eq_iff)

lemma gen_at_start: "gen_wf g \<Longrightarrow> gw_states g = sr_new \<Longrightarrow> gw_nodes g = reg_new n \<Longrightarrow> gen_at g 0 (n, 0, 0)"
  by (simp add: gen_at_def gen_registered_state_def sr_get_eq sr_new_def nth_opt_def start_product_def gen_dictionary_node_def
      reg_get_node_def reg_new_eq)

text \<open>
  C11: expanding a state that stands for a dictionary node, a query position and a cost gives the
  transitions of the automaton's steps there and no others: one for every operation, dictionary word
  and query segment that apply within the budget. A transition carries the first characters of both
  sides and leads to the target of the step, or to the first of a complete block of states that emit
  the rest; the state is final exactly at a final node at the end of the query.
\<close>

theorem generalized_expansion_exact:
  assumes "gen_wf g" and "gen_at g state (n, pos, cost)"
    and "compute_registered_state_with_check env g state = (Some (Expanded fin w ts), g')"
  shows "gen_wf g' \<and> gen_ext g g' \<and>
    (\<forall>t \<in> set ts. \<exists>op u v y. op_step g (n, pos, cost) op u v y \<and> step_transition g' state op u v y t) \<and>
    (\<forall>op u v y. op_step g (n, pos, cost) op u v y \<longrightarrow> (\<exists>t \<in> set ts. step_transition g' state op u v y t)) \<and>
    (fin \<longleftrightarrow> pos = byte_len (gw_query g) \<and> node_is_final (gw_dictionary g) n) \<and>
    w = (if fin then F64 0 else tropical_zero)"
proof -
  have ok: "expanded_ok g state fin w ts g'" using expansion_result [OF assms(1,3)] by simp
  then have ext: "gen_ext g g'" by (simp add: expanded_ok_def)
  have "\<nexists>e. gen_registered_state g state = Some (Emit e)" using assms(2) by (auto simp: gen_at_def)
  then obtain m p c where x: "gen_at g state (m, p, c)" "transitions_exact g' state (m, p, c) ts"
    "fin \<longleftrightarrow> p = byte_len (gw_query g) \<and> node_is_final (gw_dictionary g) m" using ok unfolding expanded_ok_def by blast
  have same: "m = n" "p = pos" "c = cost" using gen_at_unique [OF x(1) assms(2)] by simp_all
  have "gen_wf g'" "w = (if fin then F64 0 else tropical_zero)" using ok by (simp_all add: expanded_ok_def)
  then show ?thesis using x(2,3) ext op_step_ext [OF ext] unfolding same transitions_exact_def by simp
qed

theorem generalized_expansion_exact_witness:
  "\<exists>op u v y t g'. op_step pair_wfst (0, 0, 0) op u v y \<and> step_transition g' 0 op u v y t \<and> t_to t = 2"
proof -
  have "compute_registered_state_with_check quiet pair_wfst 0 =
      (Some (Expanded False tropical_zero [mk_transition 0 (Some 97) (Some 97) 2 (F64 tenth)]), pair_expanded)"
    using pair_expand_start by (simp add: gen_compute_registered_state_def)
  moreover have "gen_at pair_wfst 0 (0, 0, 0)" by (rule gen_at_start [OF pair_wfst_wf]) (simp_all add: pair_wfst_def)
  ultimately have "\<forall>t \<in> set [mk_transition 0 (Some 97) (Some 97) 2 (F64 tenth)].
      \<exists>op u v y. op_step pair_wfst (0, 0, 0) op u v y \<and> step_transition pair_expanded 0 op u v y t"
    using generalized_expansion_exact [OF pair_wfst_wf] by blast
  then obtain op u v y where "op_step pair_wfst (0, 0, 0) op u v y"
    "step_transition pair_expanded 0 op u v y (mk_transition 0 (Some 97) (Some 97) 2 (F64 tenth))" by auto
  moreover have "t_to (mk_transition 0 (Some 97) (Some 97) 2 (F64 tenth)) = 2" by simp
  ultimately show ?thesis by blast
qed

text \<open>
  C26: expansion is atomic and total. The registries are shared and updated in place, and an error does not undo
  an update; still, whatever the cancellation token, the source check and the entry of the scope answer, at
  whichever of their calls, an expansion of a well-formed WFST returns without a panic, and unless it expands the
  state it leaves both registries as they were. A scope that cannot be entered is the answer, before anything
  is tried; a token cancelled from the start cancels with its reason; an unregistered state is never expanded.
\<close>

theorem generalized_expansion_atomic:
  assumes "gen_wf g" and "compute_registered_state_with_check env g state = (r, g')"
  shows "(\<exists>e. r = Some e) \<and> gen_wf g' \<and>
    ((\<nexists>fin w ts. r = Some (Expanded fin w ts)) \<longrightarrow> g' = g) \<and>
    (\<forall>e. env_scope env = Some e \<longrightarrow> r = Some (error_answer e)) \<and>
    (\<forall>reason. env_scope env = None \<and> env_cancellation env 0 = Some reason \<longrightarrow> r = Some (Cancelled reason)) \<and>
    (\<not> gen_is_valid_state g state \<longrightarrow> (\<nexists>fin w ts. r = Some (Expanded fin w ts)))"
proof -
  note result = expansion_result [OF assms]
  obtain e where e: "r = Some e" using result by (cases r) auto
  have wf: "gen_wf g'" using result assms(1) by (cases e) (auto simp: e expanded_ok_def)
  have same: "g' = g" if "\<nexists>fin w ts. r = Some (Expanded fin w ts)" using result that by (cases e) (auto simp: e)
  have scope: "r = Some (error_answer e)" if "env_scope env = Some e" for e
    using assms(2) that by (simp add: compute_registered_state_with_check_def)
  have cancel: "r = Some (Cancelled reason)" if "env_scope env = None" "env_cancellation env 0 = Some reason" for reason
    using assms(2) that
    by (auto simp: compute_registered_state_with_check_def try_compute_registered_state_def sbind_def reads_def check_cancelled_def budget_new_def)
  have "\<nexists>fin w ts. r = Some (Expanded fin w ts)" if invalid: "\<not> gen_is_valid_state g state"
  proof (rule notI, elim exE)
    fix fin w ts assume "r = Some (Expanded fin w ts)"
    then have "expanded_ok g state fin w ts g'" using result by simp
    then have "gen_registered_state g state \<noteq> None" by (auto simp: expanded_ok_def gen_at_def)
    then show False using invalid by (simp add: gen_is_valid_state_def gen_registered_state_def)
  qed
  then show ?thesis using e wf same scope cancel by blast
qed

theorem generalized_expansion_atomic_witness:
  "compute_registered_state_with_check late_fault pair_wfst 0 = (Some (Failed (SourceFailure ''late'')), pair_wfst)"
proof -
  obtain r g' where r: "compute_registered_state_with_check late_fault pair_wfst 0 = (r, g')" by force
  have failed: "r = Some (Failed (SourceFailure ''late''))" using pair_expand_late r by simp
  then show ?thesis using generalized_expansion_atomic [OF pair_wfst_wf r] r by simp
qed

text \<open>Any number of expansions, each with an environment of its own.\<close>

fun expand_all :: "(gen_env \<times> state_id) list \<Rightarrow> 'n gen_wfst \<Rightarrow> 'n gen_wfst" where
  "expand_all [] g = g"
| "expand_all ((env, state) # steps) g = expand_all steps (snd (compute_registered_state_with_check env g state))"

lemma expand_all_append: "expand_all (xs @ ys) g = expand_all ys (expand_all xs g)"
  by (induction xs g rule: expand_all.induct) simp_all

lemma expansion_ext:
  assumes "gen_wf g" and "compute_registered_state_with_check env g state = (r, g')"
  shows "gen_wf g' \<and> gen_ext g g'"
  using expansion_result [OF assms] assms(1) by (auto simp: expanded_ok_def split: option.splits expansion.splits)

lemma expand_all_ok: "gen_wf g \<Longrightarrow> gen_wf (expand_all steps g) \<and> gen_ext g (expand_all steps g)"
proof (induction steps g rule: expand_all.induct)
  case (2 env state steps g)
  obtain r g1 where r: "compute_registered_state_with_check env g state = (r, g1)" by force
  have g1: "gen_wf g1" "gen_ext g g1" using expansion_ext [OF "2.prems" r] by simp_all
  then show ?case using "2.IH" gen_ext_trans [OF g1(2)] by (simp add: r)
qed simp

lemma registered_ext: "gen_ext g g' \<Longrightarrow> gen_registered_state g s = Some x \<Longrightarrow> gen_registered_state g' s = Some x"
  by (auto simp: gen_ext_def sr_ext_def gen_registered_state_def sr_get_eq nth_opt_append)

text \<open>
  C27: the retained resources of a generalized WFST stay within the configured limits. From its
  construction on, through any number of expansions with any cancellations and source failures, it
  holds at most the allowed number of dictionary nodes and of states; identifiers, once given, keep
  their meaning, and the reserved identifier \<open>NO_STATE\<close> never names a state.
\<close>

theorem generalized_limits_respected:
  assumes "try_new_with_limits lib D q k ops limits = Inr g"
    and "char_dictionary D" and "text_fits q" and "length ops < usize_max"
  shows "reg_len (gw_nodes (expand_all steps g)) \<le> max_retained_dictionary_nodes limits \<and>
    gen_num_states (expand_all steps g) \<le> max_retained_wfst_states limits \<and>
    (\<forall>s x. gen_registered_state (expand_all steps g) s = Some x \<longrightarrow>
       gen_registered_state (expand_all (steps @ more_steps) g) s = Some x) \<and>
    gen_registered_state (expand_all steps g) no_state = None"
proof -
  have g: "gen_wf g" by (rule try_new_ok [OF assms])
  have limits: "gw_limits g = limits" by (rule try_new_ok [OF assms])
  have now: "gen_wf (expand_all steps g)" "gen_ext g (expand_all steps g)" using expand_all_ok [OF g] by blast+
  have later: "gen_ext (expand_all steps g) (expand_all (steps @ more_steps) g)"
    using expand_all_ok [OF now(1), of more_steps] unfolding expand_all_append by blast
  have lim: "gw_limits (expand_all steps g) = limits" using gen_ext_fields(7) [OF now(2)] limits by simp
  have "length (sr_states (gw_states (expand_all steps g))) < 2 ^ 32" using now(1) unfolding gen_wf_def sr_ok_def by blast
  then have "gen_registered_state (expand_all steps g) no_state = None"
    by (simp add: gen_registered_state_def sr_get_eq nth_opt_def no_state_def)
  then show ?thesis using now(1) lim registered_ext [OF later] by (simp add: gen_wf_def gen_num_states_def)
qed

theorem generalized_limits_respected_witness:
  "gen_num_states (expand_all [(quiet, 0), (quiet\<lparr>env_cancellation := (\<lambda>_. Some Cancelled_by_request)\<rparr>, 1)] pair_wfst) \<le> 1000000"
proof -
  have fits: "text_fits [97, 98]" by (simp add: text_fits_def utf8_len_def usize_max_def)
  have few: "length [copy_two] < usize_max" by (simp add: usize_max_def)
  have "max_retained_wfst_states gen_limits_default = 1000000" by (simp add: gen_limits_default_def)
  then show ?thesis
    using generalized_limits_respected [OF pair_wfst_new [unfolded gen_try_new_def] ab_char_dictionary fits few]
    by (simp del: expand_all.simps)
qed

text \<open>The limit a resource is checked against.\<close>

fun limit_of :: "gen_resource \<Rightarrow> gen_limits \<Rightarrow> usize" where
  "limit_of QueryBytes l = max_query_bytes l"
| "limit_of QueryScalars l = max_query_scalars l"
| "limit_of OperationSourceScalars l = max_operation_source_scalars l"
| "limit_of OperationQueryScalars l = max_operation_query_scalars l"
| "limit_of RetainedDictionaryNodes l = max_retained_dictionary_nodes l"
| "limit_of RetainedWfstStates l = max_retained_wfst_states l"
| "limit_of PathsPerExpansion l = max_paths_per_expansion l"
| "limit_of WorkUnitsPerExpansion l = max_work_units_per_expansion l"

text \<open>What the construction needs of a resource.\<close>

fun required_of :: "gen_resource \<Rightarrow> uchar list \<Rightarrow> operation list \<Rightarrow> usize set" where
  "required_of QueryBytes q ops = {byte_len q}"
| "required_of QueryScalars q ops = {length q}"
| "required_of OperationSourceScalars q ops = consume_x ` set ops"
| "required_of OperationQueryScalars q ops = consume_y ` set ops"
| "required_of RetainedDictionaryNodes q ops = {1}"
| "required_of RetainedWfstStates q ops = {1}"
| "required_of PathsPerExpansion q ops = {}"
| "required_of WorkUnitsPerExpansion q ops = {}"

lemma validate_widths_Inl:
  "validate_operation_widths l ops = Inl e \<Longrightarrow>
     \<exists>r n. e = LimitExceeded r (limit_of r l) n \<and> limit_of r l < n \<and> n \<in> required_of r q ops"
proof (induction ops)
  case (Cons op ops)
  consider "e = LimitExceeded OperationSourceScalars (max_operation_source_scalars l) (consume_x op)" "max_operation_source_scalars l < consume_x op"
    | "e = LimitExceeded OperationQueryScalars (max_operation_query_scalars l) (consume_y op)" "max_operation_query_scalars l < consume_y op"
    | "validate_operation_widths l ops = Inl e"
    using Cons.prems by (auto simp: require_at_most_def split: if_splits)
  then show ?case
  proof cases
    case 1
    then show ?thesis by (intro exI [of _ OperationSourceScalars] exI [of _ "consume_x op"]) simp
  next
    case 2
    then show ?thesis by (intro exI [of _ OperationQueryScalars] exI [of _ "consume_y op"]) simp
  next
    case 3
    then obtain r n where rn: "e = LimitExceeded r (limit_of r l) n" "limit_of r l < n" "n \<in> required_of r q ops"
      using Cons.IH by blast
    moreover have "n \<in> required_of r q (op # ops)" using rn(3) by (cases r) auto
    ultimately show ?thesis by blast
  qed
qed simp

lemma validate_limits_Inl:
  assumes "validate_construction_limits q ops l = Inl e"
  shows "\<exists>r n. e = LimitExceeded r (limit_of r l) n \<and> limit_of r l < n \<and> n \<in> required_of r q ops"
proof -
  have one: "e = LimitExceeded r (limit_of r l) n \<Longrightarrow> limit_of r l < n \<Longrightarrow> n \<in> required_of r q ops \<Longrightarrow> ?thesis" for r n
    by blast
  show ?thesis
    using assms one [of QueryBytes "byte_len q"] one [of QueryScalars "length q"] one [of RetainedDictionaryNodes 1]
      one [of RetainedWfstStates 1] validate_widths_Inl [of l ops e q]
    by (auto simp: validate_construction_limits_def require_at_most_def split: if_splits)
qed

lemma validate_widths_Inr:
  "validate_operation_widths l ops = Inr () \<longleftrightarrow>
     (\<forall>op \<in> set ops. consume_x op \<le> max_operation_source_scalars l \<and> consume_y op \<le> max_operation_query_scalars l)"
  by (induction ops) (auto simp: require_at_most_def)

text \<open>
  C28: building a generalized WFST reports why it fails, and truthfully. Without a query the error is
  \<open>MissingQuery\<close>; a limit error names a resource, its configured limit, and a requirement of this
  query and these operations that exceeds it; a WFST is only built when the query and every operation,
  also those the budget drops later, are within the limits.
\<close>

theorem generalized_build_errors:
  "(case gen_try_build lib b of
      Inl MissingQuery \<Rightarrow> gb_query b = None
    | Inl (LimitExceeded r limit required) \<Rightarrow>
        \<exists>q. gb_query b = Some q \<and> limit = limit_of r (gb_limits b) \<and> limit < required \<and> required \<in> required_of r q (gb_operations b)
    | Inl _ \<Rightarrow> gb_query b \<noteq> None
    | Inr g \<Rightarrow> gb_query b = Some (gw_query g) \<and>
        (\<forall>r. \<forall>required \<in> required_of r (gw_query g) (gb_operations b). required \<le> limit_of r (gb_limits b)))"
proof (cases "gb_query b")
  case None
  then show ?thesis by (simp add: gen_try_build_def)
next
  case (Some q)
  note build = gen_try_build_def gen_try_build_for_query_def try_new_with_limits_def
  show ?thesis
  proof (cases "ol_validate lib (gb_operations b)")
    case (Inl e)
    then show ?thesis using Some by (simp add: build)
  next
    case valid: (Inr u)
    show ?thesis
    proof (cases "validate_construction_limits q (gb_operations b) (gb_limits b)")
      case (Inl e)
      obtain r n where "e = LimitExceeded r (limit_of r (gb_limits b)) n" "limit_of r (gb_limits b) < n" "n \<in> required_of r q (gb_operations b)"
        using validate_limits_Inl [OF Inl] by blast
      then show ?thesis using Some valid Inl by (simp add: build)
    next
      case limits: (Inr v)
      have "required \<le> limit_of r (gb_limits b)" if "required \<in> required_of r q (gb_operations b)" for r required
        using limits that
        by (cases r) (auto simp: validate_construction_limits_def require_at_most_def validate_widths_Inr split: if_splits)
      then show ?thesis using Some valid limits by (auto simp: build split: sum.split)
    qed
  qed
qed

text \<open>A query of two characters is too long for a limit of one.\<close>

theorem generalized_build_errors_witness:
  "\<exists>limit required. gen_try_build tenth_library (gen_builder_limits (gen_limits_default\<lparr>max_query_scalars := 1\<rparr>)
     (gen_builder_query [97, 98] (gen_builder_new [copy_two] ab_dictionary))) = Inl (LimitExceeded QueryScalars limit required) \<and>
     limit = 1 \<and> required = 2"
proof -
  let ?b = "gen_builder_limits (gen_limits_default\<lparr>max_query_scalars := 1\<rparr>)
     (gen_builder_query [97, 98] (gen_builder_new [copy_two] ab_dictionary))"
  have "byte_len [97, 98] = 2" by (simp add: utf8_len_def)
  then have e: "gen_try_build tenth_library ?b = Inl (LimitExceeded QueryScalars 1 2)"
    by (simp add: gen_builder_limits_def gen_builder_query_def gen_builder_new_def gen_try_build_def gen_try_build_for_query_def
        try_new_with_limits_def tenth_library_def validate_construction_limits_def require_at_most_def gen_limits_default_def)
  have "(1 :: nat) < 2 \<and> (2 :: nat) \<in> required_of QueryScalars [97, 98] [copy_two]"
    using generalized_build_errors [where lib = tenth_library and b = ?b] unfolding e
    by (auto simp: gen_builder_limits_def gen_builder_query_def gen_builder_new_def)
  then show ?thesis using e by blast
qed

end
