(* ===== verification/Generalized_Runs.thy ===== *)
theory Generalized_Runs
  imports Generalized_Expand "HOL-Library.Sublist"
begin

text \<open>
  Runs of the generalized WFST, each expansion starting from the registries the last one left: they
  are the paths of its operations, and every such path is a run where no expansion on the way
  reports a failure. An expansion that nothing cancels is either complete or a reported failure.
\<close>

section \<open>Expansions without interference\<close>

definition calm :: "expansion_budget \<Rightarrow> bool" where
  "calm b \<longleftrightarrow> eb_cancellation b = (\<lambda>_. None) \<and> eb_source b = (\<lambda>_. None)"

text \<open>In calm surroundings a computation is not cancelled, and leaves them calm.\<close>

definition quietly :: "'a charged \<Rightarrow> bool" where
  "quietly m \<longleftrightarrow> (\<forall>b. calm b \<longrightarrow>
     (case m b of Inl s \<Rightarrow> \<nexists>reason. s = Stopped (CancelledError reason) | Inr (x, b') \<Rightarrow> calm b'))"

lemma quietly_simps [simp]:
  "quietly (creturn x)" "quietly cpanic" "quietly (charge_work u)" "quietly charge_path" "quietly check_cancelled" "quietly check_source"
  by (auto simp: quietly_def creturn_def cpanic_def charge_work_def charge_path_def check_cancelled_def check_source_def
      cbind_def require_charged_def stopped_def expansion_failure_def calm_def split: option.split sum.split)

text \<open>The same for a single budget, for functions that take theirs as an argument.\<close>

definition quiet_run :: "stop + 'a \<times> expansion_budget \<Rightarrow> bool" where
  "quiet_run r \<longleftrightarrow> (case r of Inl s \<Rightarrow> \<nexists>reason. s = Stopped (CancelledError reason) | Inr (x, b') \<Rightarrow> calm b')"

lemma quietly_run: "quietly m \<longleftrightarrow> (\<forall>b. calm b \<longrightarrow> quiet_run (m b))"
  by (simp add: quietly_def quiet_run_def)

lemma quiet_run_cbind:
  assumes "quiet_run (m b)" and "\<And>x b'. m b = Inr (x, b') \<Longrightarrow> calm b' \<Longrightarrow> quiet_run (f x b')"
  shows "quiet_run (cbind m f b)"
  using assms by (auto simp: quiet_run_def cbind_def split: sum.splits)

lemma quietly_cbind: "quietly m \<Longrightarrow> (\<And>x. quietly (f x)) \<Longrightarrow> quietly (cbind m f)"
  unfolding quietly_run
proof (intro allI impI)
  fix b assume m: "\<forall>b. calm b \<longrightarrow> quiet_run (m b)" and f: "\<And>x. \<forall>b. calm b \<longrightarrow> quiet_run (f x b)" and b: "calm b"
  then show "quiet_run (cbind m f b)" by (intro quiet_run_cbind) (auto simp: quiet_run_def)
qed

lemma quietly_invalid [simp]: "quietly (cfail (invalid_state_error s))"
  by (simp add: quietly_def cfail_def invalid_state_error_def)

lemma quietly_clift: "(\<And>reason. r \<noteq> Inl (Stopped (CancelledError reason))) \<Longrightarrow> quietly (clift r)"
  by (auto simp: quietly_def clift_def split: sum.split)

lemma quietly_eta: "quietly m \<Longrightarrow> quietly (\<lambda>b. m b)"
  by simp

lemma stopped_not_cancelled [simp]: "stopped e \<noteq> Stopped (CancelledError reason)"
  by (simp add: stopped_def expansion_failure_def)

lemma quietly_collect_edges: "quietly (collect_edges es owned)"
  by (induction es owned rule: collect_edges.induct) (auto intro!: quietly_cbind)

lemma quietly_bounded_edges: "quietly (bounded_edges D n)"
  unfolding bounded_edges_def by (intro quietly_cbind quietly_collect_edges) simp_all

lemma quietly_emit_paths: "quietly (emit_paths op p cost q paths arcs)"
  by (induction op p cost q paths arcs rule: emit_paths.induct) (auto intro!: quietly_cbind)

lemma quietly_width_cache: "quietly (width_cache n)"
  unfolding width_cache_def by (intro quietly_cbind) simp_all

lemma quietlyD: "quietly m \<Longrightarrow> calm b \<Longrightarrow> quiet_run (m b)"
  by (simp add: quietly_run)

lemma quiet_run_step:
  assumes "quietly m" and "calm b" and "\<And>x b'. m b = Inr (x, b') \<Longrightarrow> calm b' \<Longrightarrow> quiet_run (f x b')"
  shows "quiet_run (cbind m f b)"
  using quietlyD [OF assms(1,2)] assms(3) by (rule quiet_run_cbind)

lemma quietly_paths_loop: "calm b \<Longrightarrow> quiet_run (paths_loop D reg width stack wd bytes paths st b)"
proof (induction D reg width stack wd bytes paths st b rule: paths_loop.induct)
  case (1 D reg width wd bytes paths st b)
  then show ?case by (simp add: quiet_run_def)
next
  case (2 D reg width parent edges ol bl stack wd bytes paths st b)
  show ?case
  proof (subst paths_loop.simps(2), rule quiet_run_step, simp, rule "2.prems", goal_cases)
    case (1 u b1)
    then have b1: "charge_work 1 b = Inr ((), b1)" by simp
    show ?case
    proof (cases edges)
      case Nil
      then show ?thesis using "2.IH"(1) [OF b1 Nil 1(2)] by simp
    next
      case (Cons e edges')
      obtain l m where e: "e = (l, m)" by force
      define registered where "registered = (case parent of Registered i \<Rightarrow> reg_get_id reg (node_key_child i l) | Staged _ \<Rightarrow> None)"
      obtain c st1 where stage: "stage_child registered parent l m st = (c, st1)" by force
      note step = e [symmetric] refl refl stage [unfolded registered_def, symmetric] refl refl refl
      show ?thesis
      proof (cases "length (take ol wd @ [l]) = width")
        case True
        show ?thesis
          unfolding Cons e list.case prod.case Let_def stage [unfolded registered_def] if_P [OF True]
        proof (rule quiet_run_step [OF _ 1(2)], simp, rule quiet_run_step, simp, assumption, goal_cases)
          case (1 u2 b2 u3 b3)
          then show ?case using "2.IH"(2) [OF b1 Cons step True] by simp
        qed
      next
        case False
        show ?thesis
          unfolding Cons e list.case prod.case Let_def stage [unfolded registered_def] if_not_P [OF False]
        proof (rule quiet_run_step [OF quietly_bounded_edges 1(2)], goal_cases)
          case (1 es b2)
          then show ?case using "2.IH"(3) [OF b1 Cons step False] by simp
        qed
      qed
    qed
  qed
qed

lemma quietly_dictionary_paths: "quietly (dictionary_paths_exact_chars g i width st)"
proof -
  have loop: "quietly (paths_loop D reg width stack wd bytes paths st)" for D :: "('a, uchar) dictionary" and reg stack wd bytes paths
    unfolding quietly_run by (blast intro: quietly_paths_loop)
  show ?thesis
    unfolding dictionary_paths_exact_chars_def
    by (auto intro!: quietly_cbind quietly_bounded_edges loop simp del: paths_loop.simps split: option.split)
qed

lemma quietly_operation_step: "quietly (operation_step g product p pw)"
proof -
  have query: "quietly (load_query g product p pw)" for pw
    unfolding load_query_def by (auto intro!: quietly_cbind split: width_cache_entry.split)
  have paths: "quietly (load_paths g product p pw)" for pw
    unfolding load_paths_def by (auto intro!: quietly_cbind quietly_dictionary_paths split: width_cache_entry.split)
  show ?thesis
    unfolding operation_step_def
    by (intro quietly_cbind) (auto intro!: quietly_cbind query paths quietly_emit_paths split: width_cache_entry.split)
qed

lemma quietly_operations_loop: "quietly (operations_loop g product ps pw)"
  by (induction g product ps pw rule: operations_loop.induct) (auto intro!: quietly_cbind quietly_operation_step)

lemma quietly_resolve_node: "quietly (resolve_node reg limits s rn)"
proof -
  have "quietly (clift (fresh_node_id reg limits k))" for k
    by (rule quietly_clift) (auto simp: fresh_node_id_def split: option.splits sum.splits)
  then show ?thesis
    unfolding resolve_node_def Let_def by (intro quietly_cbind) (auto intro!: quietly_cbind split: option.split)
qed

lemma quietly_resolve_pass: "quietly (resolve_pass reg limits ss rn)"
  by (induction reg limits ss rn rule: resolve_pass.induct) (auto intro!: quietly_cbind quietly_resolve_node)

lemma quietly_resolve_loop: "calm b \<Longrightarrow> quiet_run (resolve_loop reg limits ss b)"
proof (induction reg limits ss b rule: resolve_loop.induct)
  case (1 reg limits ss b)
  show ?case
  proof (subst resolve_loop.simps, rule quiet_run_step [OF quietly_resolve_pass "1.prems"], goal_cases)
    case (1 rn b1)
    note run = this
    show ?case
    proof (cases "rn_retired rn")
      case False
      then show ?thesis using run by (simp add: quiet_run_def)
    next
      case True
      have "quiet_run (cbind check_cancelled (\<lambda>_. cbind check_source (\<lambda>_ b2. resolve_loop reg limits (rn_staged rn) b2)) b1)"
        by (rule quiet_run_step [OF quietly_simps(5) run(2)], rule quiet_run_step [OF quietly_simps(6)], assumption)
          (rule "1.IH" [OF run(1) True])
      then show ?thesis using True by simp
    qed
  qed
qed

lemma quietly_commit_arcs: "quietly (commit_arcs r limits resolved state arcs bt)"
proof (induction arcs arbitrary: bt)
  case (Cons a arcs)
  obtain batch ts where bt: "bt = (batch, ts)" by force
  have next_id: "batch_next_id r limit s \<noteq> Inl (Stopped (CancelledError reason))" "checked_state_count n limit \<noteq> Inl (Stopped (CancelledError reason))"
    for limit s n reason by (auto simp: batch_next_id_def checked_state_count_def split: option.splits sum.splits)
  have "quietly (clift (batch_product r p limit s))" "quietly (clift (batch_chain r c limit s))" for p c limit s
    by (rule quietly_clift, auto simp: batch_product_def batch_chain_def next_id split: option.splits sum.splits dest: sym)+
  then show ?case
    unfolding bt commit_arcs.simps
    by (intro quietly_cbind) (auto intro!: quietly_cbind Cons intro: quietly_clift split: prod.split)
qed simp

lemma quietly_commit_transaction: "quietly (commit_transaction g state st arcs)"
proof -
  have loop: "quietly (resolve_loop reg limits ss)" for reg :: "'a node_registry" and limits ss
    unfolding quietly_run by (blast intro: quietly_resolve_loop)
  show ?thesis
    unfolding commit_transaction_def
    by (intro quietly_cbind loop) (auto intro!: quietly_cbind quietly_commit_arcs split: option.split prod.split)
qed

lemma quietly_try_compute: "quietly (try_transaction g state)"
proof -
  have "quietly (product_transaction g state p)" for p
    unfolding product_transaction_def Let_def
    by (auto intro!: quietly_cbind quietly_width_cache quietly_operations_loop quietly_commit_transaction split: option.split prod.split)
  moreover have "quietly (emit_transaction g state e)" for e
    unfolding emit_transaction_def by (intro quietly_cbind) simp_all
  ultimately show ?thesis
    unfolding try_transaction_def by (auto intro!: quietly_cbind split: option.split registered_state.split)
qed

lemma error_answer_Cancelled [simp]: "error_answer e = Cancelled reason \<longleftrightarrow> e = CancelledError reason"
  by (cases e) simp_all

lemma quiet_expansion:
  assumes "gen_wf g"
  obtains fin w ts g' where "gen_compute_registered_state g s = (Some (Expanded fin w ts), g')"
    | f where "gen_compute_registered_state g s = (Some (Failed f), g)"
proof -
  let ?b = "budget_new (gw_limits g) (\<lambda>_. None) (\<lambda>_. None)"
  have calm: "calm ?b" by (simp add: calm_def budget_new_def)
  note quietly = quietlyD [OF quietly_try_compute calm, of g s]
  obtain r g' where r: "compute_registered_state_with_check quiet g s = (r, g')" by force
  note result = expansion_result [OF assms r]
  have env: "env_scope quiet = None" "env_cancellation quiet = (\<lambda>_. None)" "env_source quiet = (\<lambda>_. None)"
    by (simp_all add: quiet_def)
  have sound: "try_transaction g s ?b \<noteq> Inl Panicked" using runs_no_panic [OF try_compute_runs [OF assms]] by auto
  have "r \<noteq> Some (Cancelled reason)" for reason
    using r computed_transaction [of g s quiet] sound quietly
    by (auto simp: env quiet_run_def split: sum.splits stop.splits expansion_error.splits)
  moreover obtain e where "r = Some e" using result by (cases r) auto
  ultimately show ?thesis using r result that by (cases e) (auto simp: gen_compute_registered_state_def)
qed

section \<open>Runs\<close>

text \<open>
  A run expands the state it is in, with any environment, and follows one of the transitions; the
  registries may grow on the way.
\<close>

inductive gen_run :: "'n gen_wfst \<Rightarrow> state_id \<Rightarrow> uchar list \<Rightarrow> uchar list \<Rightarrow> rat \<Rightarrow> 'n gen_wfst \<Rightarrow> state_id \<Rightarrow> bool" where
  gen_stay: "gen_run g s [] [] 0 g s"
| gen_move: "compute_registered_state_with_check env g s = (Some (Expanded fin w ts), g1) \<Longrightarrow> t \<in> set ts \<Longrightarrow>
    t_weight t = F64 r \<Longrightarrow> gen_run g1 (t_to t) ins outs c g2 s2 \<Longrightarrow>
    gen_run g s (label_word (t_input t) @ ins) (label_word (t_output t) @ outs) (r + c) g2 s2"

text \<open>Paths of the automaton, operation by operation.\<close>

inductive gen_path ::
    "'n gen_wfst \<Rightarrow> 'n \<times> usize \<times> usize \<Rightarrow> uchar list \<Rightarrow> uchar list \<Rightarrow> rat \<Rightarrow> 'n \<times> usize \<times> usize \<Rightarrow> bool" for g where
  path_done: "gen_path g x [] [] 0 x"
| path_op: "op_step g x op u v y \<Longrightarrow> op_weight op = F64 r \<Longrightarrow> gen_path g y us vs c z \<Longrightarrow> gen_path g x (u @ us) (v @ vs) (r + c) z"

lemma gen_path_cong: "gen_path g x u v c z \<Longrightarrow> op_step h = op_step g \<Longrightarrow> gen_path h x u v c z"
  by (induction rule: gen_path.induct) (auto intro: gen_path.intros)

lemma gen_path_ext: "gen_ext g h \<Longrightarrow> gen_path h = gen_path g"
  by (intro ext iffI) (erule gen_path_cong, simp add: op_step_ext)+

lemma gen_run_trans:
  "gen_run g s i o1 c h s1 \<Longrightarrow> gen_run h s1 i' o2 c' k s3 \<Longrightarrow> gen_run g s (i @ i') (o1 @ o2) (c + c') k s3"
proof (induction rule: gen_run.induct)
  case (gen_move env g s fin w ts g1 t r ins outs c g2 s2)
  have "gen_run g1 (t_to t) (ins @ i') (outs @ o2) (c + c') k s3" using gen_move by blast
  from gen_run.gen_move [OF gen_move(1-3) this] show ?case by (simp add: add.assoc)
qed simp

lemma gen_run_ok: "gen_run g s i o1 c h s1 \<Longrightarrow> gen_wf g \<Longrightarrow> gen_wf h \<and> gen_ext g h"
proof (induction rule: gen_run.induct)
  case (gen_move env g s fin w ts g1 t r ins outs c g2 s2)
  have "gen_wf g1" "gen_ext g g1" using expansion_ext [OF gen_move.prems gen_move(1)] by simp_all
  then show ?case using gen_move.IH gen_ext_trans by blast
qed simp

section \<open>Inside an emission chain\<close>

text \<open>From the state, the words \<open>v\<close> and \<open>u\<close> are still to be emitted before the target is reached.\<close>

definition gen_in :: "'n gen_wfst \<Rightarrow> state_id \<Rightarrow> uchar list \<Rightarrow> uchar list \<Rightarrow> 'n \<times> usize \<times> usize \<Rightarrow> bool" where
  "gen_in g s v u x \<longleftrightarrow> (v = [] \<and> u = [] \<and> gen_at g s x) \<or>
     (\<exists>first c k. chain_block (sr_states (gw_states g)) first c \<and> 1 \<le> k \<and> k < chain_width c \<and>
        unat s = unat first + (k - 1) \<and> v = drop k (ec_input c) \<and> u = drop k (ec_output c) \<and> gen_at g (ec_target c) x)"

lemma chain_block_nth:
  assumes "chain_block ss first c" and "1 \<le> k" and "k < chain_width c"
  shows "nth_opt ss (unat first + (k - 1)) = Some (Emit \<lparr>es_chain = c, es_position = k,
    es_next = (if k + 1 = chain_width c then ec_target c else first + of_nat k)\<rparr>)"
proof -
  have len: "unat first + (chain_width c - 1) \<le> length ss"
    and block: "take (chain_width c - 1) (drop (unat first) ss) = chain_states c first"
    using assms(1) unfolding chain_block_def by blast+
  have k: "k - 1 < chain_width c - 1" using assms(2,3) by simp
  have "ss ! (unat first + (k - 1)) = take (chain_width c - 1) (drop (unat first) ss) ! (k - 1)" using k len by simp
  also have "\<dots> = chain_states c first ! (k - 1)" by (simp only: block)
  also have "\<dots> = Emit \<lparr>es_chain = c, es_position = k,
      es_next = (if k + 1 = chain_width c then ec_target c else first + of_nat k)\<rparr>"
    using k assms(2) by (simp add: chain_states_def)
  finally show ?thesis using k len by (simp add: nth_opt_def)
qed

lemma gen_at_ext: "gen_ext g h \<Longrightarrow> gen_at g s x \<Longrightarrow> gen_at h s x"
  by (auto simp: gen_at_def registered_ext gen_dictionary_node_ext)

lemma gen_in_ext:
  assumes "gen_ext g h" and "gen_in g s v u x"
  shows "gen_in h s v u x"
proof -
  obtain rest where "sr_states (gw_states h) = sr_states (gw_states g) @ rest" using assms(1) by (auto simp: gen_ext_def sr_ext_def)
  then have block: "chain_block (sr_states (gw_states h)) first c" if "chain_block (sr_states (gw_states g)) first c" for first c
    using chain_block_append [OF that, of rest] by simp
  note at = gen_at_ext [OF assms(1)]
  from assms(2) consider "v = []" "u = []" "gen_at g s x"
    | first c k where "chain_block (sr_states (gw_states g)) first c" "1 \<le> k" "k < chain_width c"
        "unat s = unat first + (k - 1)" "v = drop k (ec_input c)" "u = drop k (ec_output c)" "gen_at g (ec_target c) x"
    unfolding gen_in_def by blast
  then show ?thesis
  proof cases
    case 1
    then show ?thesis using at by (simp add: gen_in_def)
  next
    case (2 first c k)
    show ?thesis
      unfolding gen_in_def by (intro disjI2 exI [of _ first] exI [of _ c] exI [of _ k] conjI 2 block at)
  qed
qed

lemma gen_in_product:
  assumes "gen_in g s v u x" and "gen_at g s y"
  shows "v = [] \<and> u = [] \<and> x = y"
proof -
  have "\<not> (chain_block (sr_states (gw_states g)) first c \<and> 1 \<le> k \<and> k < chain_width c \<and> unat s = unat first + (k - 1))" for first c k
  proof
    assume a: "chain_block (sr_states (gw_states g)) first c \<and> 1 \<le> k \<and> k < chain_width c \<and> unat s = unat first + (k - 1)"
    then have "\<exists>e. gen_registered_state g s = Some (Emit e)"
      using chain_block_nth [of "sr_states (gw_states g)" first c k] by (simp add: gen_registered_state_def sr_get_eq)
    then show False using assms(2) by (auto simp: gen_at_def)
  qed
  then show ?thesis using assms gen_at_unique unfolding gen_in_def by blast
qed

lemma drop_label: "label_word (nth_opt xs k) @ drop (k + 1) xs = drop k xs"
  by (cases "k < length xs") (simp_all add: nth_opt_def Cons_nth_drop_Suc)

lemma step_transition_in:
  assumes "step_transition g s op u v y t"
  shows "gen_in g (t_to t) (drop 1 v) (drop 1 u) y" and "label_word (t_input t) @ drop 1 v = v"
    and "label_word (t_output t) @ drop 1 u = u" and "t_weight t = op_weight op"
proof -
  obtain target to where t: "gen_at g target y"
    "if chain_width \<lparr>ec_input = v, ec_output = u, ec_target = target\<rparr> \<le> 1 then to = target
     else chain_block (sr_states (gw_states g)) to \<lparr>ec_input = v, ec_output = u, ec_target = target\<rparr>"
    "t = mk_transition s (nth_opt v 0) (nth_opt u 0) to (op_weight op)"
    using assms by (auto simp: step_transition_def Let_def)
  show "label_word (t_input t) @ drop 1 v = v" "label_word (t_output t) @ drop 1 u = u" "t_weight t = op_weight op"
    using drop_label [of v 0] drop_label [of u 0] t(3) by simp_all
  let ?c = "\<lparr>ec_input = v, ec_output = u, ec_target = target\<rparr>"
  show "gen_in g (t_to t) (drop 1 v) (drop 1 u) y"
  proof (cases "chain_width ?c \<le> 1")
    case True
    then show ?thesis using t by (simp add: gen_in_def chain_width_def)
  next
    case False
    then have "chain_block (sr_states (gw_states g)) to ?c" "1 < chain_width ?c" using t(2) by simp_all
    then show ?thesis using t(1,3) unfolding gen_in_def
      by (intro disjI2 exI [of _ to] exI [of _ ?c] exI [of _ 1]) simp
  qed
qed

text \<open>The one transition of a state inside a chain.\<close>

lemma emit_in:
  assumes wf: "gen_wf g" and inside: "gen_in g s v u x" and emit: "gen_registered_state g s = Some (Emit e)"
  shows "gen_in g (t_to (emit_transition s e)) (drop 1 v) (drop 1 u) x"
    and "label_word (t_input (emit_transition s e)) @ drop 1 v = v" and "label_word (t_output (emit_transition s e)) @ drop 1 u = u"
    and "0 < max (length v) (length u)"
proof -
  have "\<not> gen_at g s x" using emit by (simp add: gen_at_def)
  then obtain first c k where k: "chain_block (sr_states (gw_states g)) first c" "1 \<le> k" "k < chain_width c"
    "unat s = unat first + (k - 1)" "v = drop k (ec_input c)" "u = drop k (ec_output c)" "gen_at g (ec_target c) x"
    using inside unfolding gen_in_def by blast
  have e: "e = \<lparr>es_chain = c, es_position = k, es_next = (if k + 1 = chain_width c then ec_target c else first + of_nat k)\<rparr>"
    using chain_block_nth [OF k(1-3)] emit k(4) by (simp add: gen_registered_state_def sr_get_eq)
  show "label_word (t_input (emit_transition s e)) @ drop 1 v = v" "label_word (t_output (emit_transition s e)) @ drop 1 u = u"
    using drop_label [of "ec_input c" k] drop_label [of "ec_output c" k] k(5,6) e by (simp_all add: emit_transition_def)
  show "0 < max (length v) (length u)" using k(3,5,6) by (auto simp: chain_width_def)
  show "gen_in g (t_to (emit_transition s e)) (drop 1 v) (drop 1 u) x"
  proof (cases "k + 1 = chain_width c")
    case True
    then show ?thesis using k(5-7) e by (auto simp: gen_in_def emit_transition_def chain_width_def)
  next
    case False
    have "unat first + (chain_width c - 1) \<le> length (sr_states (gw_states g))" using k(1) unfolding chain_block_def by blast
    moreover have "length (sr_states (gw_states g)) < 2 ^ 32" using wf unfolding gen_wf_def sr_ok_def by blast
    ultimately have "unat first + k < 2 ^ 32" using k(3) by linarith
    then have "unat (first + of_nat k) = unat first + k" by (simp add: unat_word_ariths unat_of_nat)
    then show ?thesis using k e False unfolding gen_in_def
      by (intro disjI2 exI [of _ first] exI [of _ c] exI [of _ "k + 1"]) (simp add: emit_transition_def)
  qed
qed

lemma expanded_at:
  assumes "expanded_ok g s fin w ts g'" and "gen_at g s x"
  shows "transitions_exact g' s x ts"
proof -
  have "\<nexists>e. gen_registered_state g s = Some (Emit e)" using assms(2) by (auto simp: gen_at_def)
  then obtain y where "gen_at g s y" "transitions_exact g' s y ts" using assms(1) unfolding expanded_ok_def by blast
  then show ?thesis using gen_at_unique [OF _ assms(2)] by blast
qed

section \<open>Runs are paths\<close>

lemma gen_run_sound:
  "gen_run g s ins outs c g' s' \<Longrightarrow> gen_wf g \<Longrightarrow> gen_in g s v u x \<Longrightarrow> gen_at g' s' y \<Longrightarrow>
     \<exists>vs us. ins = v @ vs \<and> outs = u @ us \<and> gen_path g x us vs c y"
proof (induction arbitrary: v u x rule: gen_run.induct)
  case (gen_stay g s)
  then show ?case using gen_in_product gen_path.path_done by fastforce
next
  case (gen_move env g s fin w ts g1 t r ins outs c g2 s2)
  have ok: "expanded_ok g s fin w ts g1" using expansion_result [OF gen_move.prems(1) gen_move(1)] by simp
  then have wf: "gen_wf g1" and ext: "gen_ext g g1" by (simp_all add: expanded_ok_def)
  show ?case
  proof (cases "gen_at g s x")
    case True
    then have vu: "v = []" "u = []" using gen_in_product [OF gen_move.prems(2)] by simp_all
    have "transitions_exact g1 s x ts" by (rule expanded_at [OF ok True])
    then obtain op u1 v1 y1 where step: "op_step g1 x op u1 v1 y1" "step_transition g1 s op u1 v1 y1 t"
      using gen_move(2) unfolding transitions_exact_def by blast
    note t = step_transition_in [OF step(2)]
    obtain vs us where rest: "ins = drop 1 v1 @ vs" "outs = drop 1 u1 @ us" "gen_path g1 y1 us vs c y"
      using gen_move.IH [OF wf t(1) gen_move.prems(3)] by blast
    have "op_weight op = F64 r" using t(4) gen_move(3) by simp
    then have "gen_path g x (u1 @ us) (v1 @ vs) (r + c) y"
      using step(1) rest(3) gen_path_ext [OF ext] op_step_ext [OF ext] gen_path.path_op by metis
    moreover have "label_word (t_input t) @ ins = v1 @ vs" "label_word (t_output t) @ outs = u1 @ us"
      unfolding rest(1,2) by (simp_all only: append_assoc [symmetric] t(2,3))
    ultimately show ?thesis using vu by auto
  next
    case False
    have "\<not> gen_at g s z" for z
    proof
      assume "gen_at g s z"
      then show False using gen_in_product [OF gen_move.prems(2)] False by blast
    qed
    then obtain e where e: "gen_registered_state g s = Some (Emit e)" "ts = [emit_transition s e]" "g1 = g"
      using ok unfolding expanded_ok_def by blast
    note em = emit_in [OF gen_move.prems(1,2) e(1)]
    have t: "t = emit_transition s e" using gen_move(2) e(2) by simp
    then have r: "r = 0" using gen_move(3) by (simp add: emit_transition_def)
    obtain vs us where rest: "ins = drop 1 v @ vs" "outs = drop 1 u @ us" "gen_path g1 x us vs c y"
      using gen_move.IH [OF wf _ gen_move.prems(3), of "drop 1 v" "drop 1 u" x] em(1) t e(3) by auto
    have "label_word (t_input t) @ ins = v @ vs" "label_word (t_output t) @ outs = u @ us"
      unfolding rest(1,2) t by (simp_all only: append_assoc [symmetric] em(2,3))
    then show ?thesis using rest(3) r e(3) by auto
  qed
qed

section \<open>Paths are runs, where the expansions succeed\<close>

text \<open>
  Runs whose expansions are left alone: no token is ever cancelled, no source check fails, and the scope can
  always be entered.
\<close>

inductive calm_run :: "'n gen_wfst \<Rightarrow> state_id \<Rightarrow> uchar list \<Rightarrow> uchar list \<Rightarrow> rat \<Rightarrow> 'n gen_wfst \<Rightarrow> state_id \<Rightarrow> bool" where
  calm_stay: "calm_run g s [] [] 0 g s"
| calm_move: "gen_compute_registered_state g s = (Some (Expanded fin w ts), g1) \<Longrightarrow> t \<in> set ts \<Longrightarrow>
    t_weight t = F64 r \<Longrightarrow> calm_run g1 (t_to t) ins outs c g2 s2 \<Longrightarrow>
    calm_run g s (label_word (t_input t) @ ins) (label_word (t_output t) @ outs) (r + c) g2 s2"

inductive_cases calm_runE: "calm_run g s ins outs c g2 s2"

lemma calm_run_run: "calm_run g s ins outs c g2 s2 \<Longrightarrow> gen_run g s ins outs c g2 s2"
proof (induction rule: calm_run.induct)
  case (calm_stay g s)
  then show ?case by (rule gen_run.gen_stay)
next
  case (calm_move g s fin w ts g1 t r ins outs c g2 s2)
  then show ?case using gen_run.gen_move unfolding gen_compute_registered_state_def by blast
qed

lemma calm_run_trans:
  "calm_run g s i1 o1 c1 g1 s1 \<Longrightarrow> calm_run g1 s1 i2 o2 c2 g2 s2 \<Longrightarrow> calm_run g s (i1 @ i2) (o1 @ o2) (c1 + c2) g2 s2"
proof (induction rule: calm_run.induct)
  case (calm_stay g s)
  then show ?case by simp
next
  case (calm_move g s fin w ts g1 t r ins outs c g2' s2')
  show ?case using calm_run.calm_move [OF calm_move.hyps(1-3) calm_move.IH [OF calm_move.prems]] by (simp add: add.assoc)
qed

lemma calm_run_one:
  assumes "gen_compute_registered_state g s = (Some (Expanded fin w ts), g1)" and "t \<in> set ts" and "t_weight t = F64 r"
  shows "calm_run g s (label_word (t_input t)) (label_word (t_output t)) r g1 (t_to t)"
  using calm_run.calm_move [OF assms calm_run.calm_stay] by simp

text \<open>
  What the limits have to allow for a pair of words: at no state that such a run reaches after a part of the
  input and a part of the output does the expansion report a failure.
\<close>

definition unfailing_along :: "'n gen_wfst \<Rightarrow> state_id \<Rightarrow> uchar list \<Rightarrow> uchar list \<Rightarrow> bool" where
  "unfailing_along g s ins outs \<longleftrightarrow> (\<forall>i u c g' s'. calm_run g s i u c g' s' \<longrightarrow> prefix i ins \<longrightarrow> prefix u outs \<longrightarrow>
     (\<nexists>f. fst (gen_compute_registered_state g' s') = Some (Failed f)))"

lemma unfailing_now:
  assumes "unfailing_along g s ins outs" and "gen_wf g"
  obtains fin w ts g1 where "gen_compute_registered_state g s = (Some (Expanded fin w ts), g1)"
proof -
  have "fst (gen_compute_registered_state g s) \<noteq> Some (Failed f)" for f
    using assms(1) calm_run.calm_stay [of g s] Nil_prefix unfolding unfailing_along_def by blast
  then show ?thesis using that quiet_expansion [OF assms(2), of s] by (metis fst_conv)
qed

lemma unfailing_shift:
  assumes "unfailing_along g s (i @ ins) (u @ outs)" and "calm_run g s i u c g1 s1"
  shows "unfailing_along g1 s1 ins outs"
  unfolding unfailing_along_def
proof (intro allI impI)
  fix i' u' c' g' s' assume run: "calm_run g1 s1 i' u' c' g' s'" and "prefix i' ins" "prefix u' outs"
  then have "prefix (i @ i') (i @ ins)" "prefix (u @ u') (u @ outs)" by simp_all
  then show "\<nexists>f. fst (gen_compute_registered_state g' s') = Some (Failed f)"
    using assms(1) calm_run_trans [OF assms(2) run] unfolding unfailing_along_def by blast
qed

lemma emit_complete:
  "gen_wf g \<Longrightarrow> gen_in g s v u x \<Longrightarrow> unfailing_along g s (v @ vs) (u @ us) \<Longrightarrow>
     \<exists>g' s'. calm_run g s v u 0 g' s' \<and> gen_at g' s' x"
proof (induction "max (length v) (length u)" arbitrary: g s v u)
  case 0
  then have vu: "v = []" "u = []" by simp_all
  have "gen_at g s x"
  proof (rule ccontr)
    assume "\<not> gen_at g s x"
    then obtain first c k where "1 \<le> k" "k < chain_width c" "v = drop k (ec_input c)" "u = drop k (ec_output c)"
      using 0(3) unfolding gen_in_def by blast
    then show False using vu by (auto simp: chain_width_def)
  qed
  then show ?case using calm_run.calm_stay vu by blast
next
  case (Suc n)
  obtain fin w ts g1 where now: "gen_compute_registered_state g s = (Some (Expanded fin w ts), g1)"
    by (rule unfailing_now [OF Suc.prems(3,1)])
  have ok: "expanded_ok g s fin w ts g1"
    using expansion_result [OF Suc.prems(1) now [unfolded gen_compute_registered_state_def]] by simp
  have "\<not> gen_at g s z" for z
  proof
    assume "gen_at g s z"
    then have "v = []" "u = []" using gen_in_product [OF Suc.prems(2)] by simp_all
    then show False using Suc(2) by simp
  qed
  then obtain e where e: "gen_registered_state g s = Some (Emit e)" "ts = [emit_transition s e]" "g1 = g"
    using ok unfolding expanded_ok_def by blast
  note em = emit_in [OF Suc.prems(1,2) e(1)]
  let ?t = "emit_transition s e"
  have "t_weight ?t = F64 0" by (simp add: emit_transition_def)
  then have run: "calm_run g s (label_word (t_input ?t)) (label_word (t_output ?t)) 0 g (t_to ?t)"
    using calm_run_one [OF now] e by simp
  have "unfailing_along g s (label_word (t_input ?t) @ drop 1 v @ vs) (label_word (t_output ?t) @ drop 1 u @ us)"
    using Suc.prems(3) em(2,3) by (metis append_assoc)
  then have rest: "unfailing_along g (t_to ?t) (drop 1 v @ vs) (drop 1 u @ us)" by (rule unfailing_shift [OF _ run])
  have "n = max (length (drop 1 v)) (length (drop 1 u))" using Suc(2) by simp
  from Suc(1) [OF this Suc.prems(1) em(1) rest]
  obtain g' s' where "calm_run g (t_to ?t) (drop 1 v) (drop 1 u) 0 g' s'" "gen_at g' s' x" by blast
  then show ?case using calm_run_trans [OF run, of "drop 1 v" "drop 1 u" 0 g' s'] em(2,3) by auto
qed

lemma gen_path_complete:
  "gen_path g0 x us vs c z \<Longrightarrow> gen_wf g \<Longrightarrow> gen_ext g0 g \<Longrightarrow> gen_at g s x \<Longrightarrow> unfailing_along g s vs us \<Longrightarrow>
     \<exists>g' s'. calm_run g s vs us c g' s' \<and> gen_at g' s' z"
proof (induction arbitrary: g s rule: gen_path.induct)
  case (path_done x)
  then show ?case using calm_run.calm_stay by blast
next
  case (path_op x op u v y r us vs c z)
  obtain fin w ts g1 where now: "gen_compute_registered_state g s = (Some (Expanded fin w ts), g1)"
    by (rule unfailing_now [OF path_op.prems(4,1)])
  have ok: "expanded_ok g s fin w ts g1"
    using expansion_result [OF path_op.prems(1) now [unfolded gen_compute_registered_state_def]] by simp
  then have wf: "gen_wf g1" and ext: "gen_ext g g1" by (simp_all add: expanded_ok_def)
  have ext0: "gen_ext g0 g1" by (rule gen_ext_trans [OF path_op.prems(2) ext])
  have "op_step g1 x op u v y" using path_op(1) op_step_ext [OF ext0] by simp
  then obtain t where t: "t \<in> set ts" "step_transition g1 s op u v y t"
    using expanded_at [OF ok path_op.prems(3)] unfolding transitions_exact_def by blast
  note in1 = step_transition_in [OF t(2)]
  have run1: "calm_run g s (label_word (t_input t)) (label_word (t_output t)) r g1 (t_to t)"
    using calm_run_one [OF now t(1)] in1(4) path_op(2) by simp
  have "unfailing_along g s (label_word (t_input t) @ drop 1 v @ vs) (label_word (t_output t) @ drop 1 u @ us)"
    using path_op.prems(4) in1(2,3) by (metis append_assoc)
  then have along1: "unfailing_along g1 (t_to t) (drop 1 v @ vs) (drop 1 u @ us)" by (rule unfailing_shift [OF _ run1])
  from emit_complete [OF wf in1(1) along1]
  obtain g2 s2 where run2: "calm_run g1 (t_to t) (drop 1 v) (drop 1 u) 0 g2 s2" and at2: "gen_at g2 s2 y" by blast
  have run: "calm_run g s v u r g2 s2" using calm_run_trans [OF run1 run2] in1(2,3) by simp
  have "gen_wf g2" "gen_ext g0 g2" using gen_run_ok [OF calm_run_run [OF run2] wf] gen_ext_trans [OF ext0] by simp_all
  from path_op.IH [OF this at2 unfailing_shift [OF path_op.prems(4) run]]
  show ?case using calm_run_trans [OF run] by blast
qed

end
