(* ===== verification/Generalized_Language.thy ===== *)
theory Generalized_Language
  imports Generalized_Runs
begin

text \<open>
  What the generalized WFST accepts: accepted pairs are alignments of the query with dictionary terms
  by the configured operations whose cost is within the distance, and every such alignment is accepted
  where no expansion on the way reports a failure. Costs are decimals, weights are the floating-point
  numbers on the arcs.
\<close>

section \<open>Alignments\<close>

text \<open>
  An alignment splits a term and a query into pieces that the operations pair up. It has two sums: of the
  weights as floating-point numbers, which the arcs carry, and of the decimals that the library reads the
  weights as, which the budget bounds.
\<close>

inductive op_align :: "(f64 \<Rightarrow> rat) \<Rightarrow> operation list \<Rightarrow> uchar list \<Rightarrow> uchar list \<Rightarrow> rat \<Rightarrow> rat \<Rightarrow> bool" for dec ops where
  align_done: "op_align dec ops [] [] 0 0"
| align_op: "op \<in> set ops \<Longrightarrow> length u = consume_x op \<Longrightarrow> length v = consume_y op \<Longrightarrow>
    operation_applies op u (utf8_bytes u) v (utf8_bytes v) \<Longrightarrow> op_weight op = F64 r \<Longrightarrow>
    op_align dec ops us vs c e \<Longrightarrow> op_align dec ops (u @ us) (v @ vs) (r + c) (dec (F64 r) + e)"

text \<open>
  What a cost scale does (\<open>docs/design/generalized-wfst.md\<close>, 2.1): with the common denominator \<open>d\<close>, a weight
  that it scales to \<open>n\<close> is the decimal \<open>n / d\<close>, and a distance is scaled by \<open>d\<close>. Which decimal the
  library reads a floating-point weight as (the shortest one that rounds to it) is a parameter.
\<close>

definition decimal_scale :: "(f64 \<Rightarrow> rat) \<Rightarrow> nat \<Rightarrow> cost_scale \<Rightarrow> bool" where
  "decimal_scale dec d scale \<longleftrightarrow> 0 < d \<and>
     (\<forall>w n. to_scaled scale w = Inr n \<longrightarrow> of_nat n = dec w * of_nat d) \<and>
     (\<forall>k n. scale_budget scale k = Inr n \<longrightarrow> n = k * d)"

lemma decimal_scaleD: "decimal_scale dec d scale \<Longrightarrow> to_scaled scale w = Inr n \<Longrightarrow> dec w * of_nat d = of_nat n"
  by (simp add: decimal_scale_def)

lemma decimal_nonneg:
  assumes "decimal_scale dec d scale" and "to_scaled scale w = Inr n"
  shows "0 \<le> dec w"
proof -
  have "0 < d" "0 \<le> dec w * of_nat d" using assms(1) by (simp_all only: decimal_scaleD [OF assms] of_nat_0_le_iff) (simp add: decimal_scale_def)
  then show ?thesis by (simp add: zero_le_mult_iff)
qed

lemma byte_prefix_unique:
  assumes "xs @ ys = xs' @ ys'" and "byte_len xs = byte_len xs'"
  shows "xs = xs' \<and> ys = ys'"
proof -
  have "drop_bytes (byte_len xs) (xs @ ys) = Some ys" by (rule drop_bytes_byte_len)
  moreover have "drop_bytes (byte_len xs') (xs' @ ys') = Some ys'" by (rule drop_bytes_byte_len)
  ultimately have "ys = ys'" using assms by simp
  then show ?thesis using assms(1) by simp
qed

lemma gen_path_align:
  "gen_path g x us vs c z \<Longrightarrow> decimal_scale dec d (gw_scale g) \<Longrightarrow> gw_query g = before @ rest \<Longrightarrow> fst (snd x) = byte_len before \<Longrightarrow>
     snd (snd x) \<le> gw_max_cost g \<Longrightarrow>
     walk (gw_dictionary g) (fst x) us = Some (fst z) \<and>
     (\<exists>e. op_align dec (gw_operations g) us vs c e \<and> of_nat (snd (snd z)) = of_nat (snd (snd x)) + e * of_nat d) \<and>
     (\<exists>after. rest = vs @ after \<and> fst (snd z) = byte_len (before @ vs)) \<and> snd (snd z) \<le> gw_max_cost g"
proof (induction arbitrary: before rest rule: gen_path.induct)
  case (path_done x)
  then show ?case by (auto intro!: exI [of _ 0] align_done)
next
  case (path_op x op u v y r us vs c z)
  obtain n pos cost m pos' cost' where x: "x = (n, pos, cost)" and y: "y = (m, pos', cost')" by (metis surj_pair)
  have s: "op \<in> set (gw_operations g)" "length u = consume_x op" "length v = consume_y op" "walk (gw_dictionary g) n u = Some m"
    "operation_applies op u (utf8_bytes u) v (utf8_bytes v)" "cost' \<le> gw_max_cost g"
    and pos: "\<exists>before after. gw_query g = before @ v @ after \<and> pos = byte_len before \<and> pos' = byte_len (before @ v)"
    and cost: "\<exists>k. to_scaled (gw_scale g) (op_weight op) = Inr k \<and> cost' = cost + k"
    using path_op(1) by (simp_all add: x y op_step_def)
  obtain before' after' where b: "gw_query g = before' @ v @ after'" "pos = byte_len before'" "pos' = byte_len (before' @ v)"
    using pos by blast
  have "before = before' \<and> rest = v @ after'"
    by (rule byte_prefix_unique) (use path_op.prems(2,3) b x in simp_all)
  then have bb: "before' = before" "rest = v @ after'" by simp_all
  have query: "gw_query g = (before @ v) @ after'" using b(1) bb by simp
  have "fst (snd y) = byte_len (before @ v)" "snd (snd y) \<le> gw_max_cost g" using b(3) bb s(6) y by simp_all
  from path_op.IH [OF path_op.prems(1) query this]
  have IH: "walk (gw_dictionary g) m us = Some (fst z)"
    "\<exists>e. op_align dec (gw_operations g) us vs c e \<and> of_nat (snd (snd z)) = of_nat cost' + e * of_nat d"
    "\<exists>after. after' = vs @ after \<and> fst (snd z) = byte_len ((before @ v) @ vs)" "snd (snd z) \<le> gw_max_cost g"
    using y by simp_all
  obtain e where e: "op_align dec (gw_operations g) us vs c e" "of_nat (snd (snd z)) = of_nat cost' + e * of_nat d"
    using IH(2) by blast
  obtain k where k: "to_scaled (gw_scale g) (op_weight op) = Inr k" "cost' = cost + k" using cost by blast
  have "dec (F64 r) * of_nat d = of_nat k" using decimal_scaleD [OF path_op.prems(1) k(1)] path_op(2) by simp
  then have "of_nat (snd (snd z)) = of_nat cost + (dec (F64 r) + e) * of_nat d" using e(2) k(2) by (simp add: distrib_right)
  moreover have "walk (gw_dictionary g) n (u @ us) = Some (fst z)" using s(4) IH(1) by (simp add: walk_append)
  moreover have "op_align dec (gw_operations g) (u @ us) (v @ vs) (r + c) (dec (F64 r) + e)"
    by (rule align_op [OF s(1-3,5) path_op(2) e(1)])
  moreover have "\<exists>after. rest = (v @ vs) @ after \<and> fst (snd z) = byte_len (before @ v @ vs)" using IH(3) bb(2) by auto
  ultimately show ?case using IH(4) x by auto
qed

lemma op_align_nonneg:
  assumes "decimal_scale dec d scale" and "\<forall>op \<in> set ops. \<exists>n. to_scaled scale (op_weight op) = Inr n"
    and "op_align dec ops us vs c e"
  shows "0 \<le> e * of_nat d"
  using assms(3)
proof (induction rule: op_align.induct)
  case (align_op op u v r us vs c e)
  obtain n where "to_scaled scale (op_weight op) = Inr n" using assms(2) align_op(1) by blast
  then have "0 \<le> dec (F64 r)" using decimal_nonneg [OF assms(1)] align_op(5) by simp
  then show ?case using align_op.IH by (simp add: distrib_right)
qed simp

lemma align_gen_path:
  "op_align dec (gw_operations g) us vs c e \<Longrightarrow> decimal_scale dec d (gw_scale g) \<Longrightarrow>
     \<forall>op \<in> set (gw_operations g). \<exists>n. to_scaled (gw_scale g) (op_weight op) = Inr n \<Longrightarrow>
     walk (gw_dictionary g) n us = Some m \<Longrightarrow> gw_query g = before @ vs @ after \<Longrightarrow>
     of_nat cost + e * of_nat d \<le> (of_nat (gw_max_cost g) :: rat) \<Longrightarrow>
     \<exists>cost'. gen_path g (n, byte_len before, cost) us vs c (m, byte_len (before @ vs), cost') \<and> cost' \<le> gw_max_cost g"
proof (induction arbitrary: n before cost rule: op_align.induct)
  case align_done
  then show ?case by (auto intro!: exI [of _ cost] gen_path.path_done)
next
  case (align_op op u v r us vs c e)
  obtain k where k: "to_scaled (gw_scale g) (op_weight op) = Inr k" using align_op.prems(2) align_op(1) by blast
  have r: "dec (F64 r) * of_nat d = of_nat k" using decimal_scaleD [OF align_op.prems(1) k] align_op(5) by simp
  obtain p where p: "walk (gw_dictionary g) n u = Some p" "walk (gw_dictionary g) p us = Some m"
    using align_op.prems(3) by (auto simp: walk_append split: option.splits)
  have total: "of_nat (cost + k) + e * of_nat d \<le> (of_nat (gw_max_cost g) :: rat)"
    using align_op.prems(5) r by (simp add: distrib_right)
  have "0 \<le> e * of_nat d" by (rule op_align_nonneg [OF align_op.prems(1,2) align_op(6)])
  then have "(of_nat (cost + k) :: rat) \<le> of_nat (gw_max_cost g)" using total by linarith
  then have bound: "cost + k \<le> gw_max_cost g" by (simp only: of_nat_le_iff)
  have step: "op_step g (n, byte_len before, cost) op u v (p, byte_len (before @ v), cost + k)"
  proof -
    have "gw_query g = before @ v @ vs @ after" using align_op.prems(4) by simp
    then have "\<exists>b a. gw_query g = b @ v @ a \<and> byte_len before = byte_len b \<and> byte_len (before @ v) = byte_len (b @ v)" by blast
    then show ?thesis unfolding op_step_def prod.case using align_op(1-4) p(1) k bound by simp
  qed
  have "gw_query g = (before @ v) @ vs @ after" using align_op.prems(4) by simp
  from align_op.IH [OF align_op.prems(1,2) p(2) this total]
  obtain cost' where rest: "gen_path g (p, byte_len (before @ v), cost + k) us vs c (m, byte_len ((before @ v) @ vs), cost')"
    "cost' \<le> gw_max_cost g" by blast
  have "gen_path g (n, byte_len before, cost) (u @ us) (v @ vs) (r + c) (m, byte_len ((before @ v) @ vs), cost')"
    by (rule gen_path.path_op [OF step align_op(5) rest(1)])
  then show ?case using rest(2) by auto
qed

text \<open>Bounding the operations loses no alignment within the budget.\<close>

lemma same_semantics_applies:
  assumes "operations_have_same_wfst_semantics b op"
  shows "consume_x b = consume_x op" "consume_y b = consume_y op" "op_weight b = op_weight op"
    "operation_applies b u ub v vb = operation_applies op u ub v vb"
  using assms by (simp_all add: operations_have_same_wfst_semantics_def operation_applies_def f64_eq_def)

lemma bounded_operations_cover:
  assumes "bounded_operation_set scale max_cost ops = Inr bs"
  shows "\<forall>op \<in> set ops. \<exists>n. to_scaled scale (op_weight op) = Inr n" and "set bs \<subseteq> set ops"
    and "op \<in> set ops \<Longrightarrow> n \<le> max_cost \<Longrightarrow> to_scaled scale (op_weight op) = Inr n \<Longrightarrow> op_weight op \<noteq> F64_NaN \<Longrightarrow>
      \<exists>b \<in> set bs. operations_have_same_wfst_semantics b op"
  using bounded_operation_set_ok [OF assms] by blast+

lemma op_align_bounded:
  assumes bounded: "bounded_operation_set scale max_cost ops = Inr bs" and exact: "decimal_scale dec d scale"
  shows "op_align dec ops us vs c e \<Longrightarrow> e * of_nat d \<le> of_nat max_cost \<Longrightarrow> op_align dec bs us vs c e"
proof (induction rule: op_align.induct)
  case align_done
  then show ?case by (simp add: op_align.align_done)
next
  case (align_op op u v r us vs c e)
  note cover = bounded_operations_cover [OF bounded]
  obtain n where n: "to_scaled scale (op_weight op) = Inr n" using cover(1) align_op(1) by blast
  have r: "dec (F64 r) * of_nat d = of_nat n" using decimal_scaleD [OF exact n] align_op(5) by simp
  have c: "0 \<le> e * of_nat d" by (rule op_align_nonneg [OF exact cover(1) align_op(6)])
  have all: "dec (F64 r) * of_nat d + e * of_nat d \<le> of_nat max_cost" using align_op.prems by (simp add: distrib_right)
  have "(of_nat n :: rat) \<le> of_nat max_cost" using all r c by linarith
  then have small: "n \<le> max_cost" by (simp only: of_nat_le_iff)
  have "e * of_nat d \<le> of_nat max_cost" using all r by linarith
  then have rest: "op_align dec bs us vs c e" by (rule align_op.IH)
  obtain b where b: "b \<in> set bs" "operations_have_same_wfst_semantics b op"
    using cover(3) [OF align_op(1) small n] align_op(5) by auto
  note same = same_semantics_applies [OF b(2)]
  show ?case by (rule op_align.align_op [OF b(1)]) (use align_op(2-5) same rest in simp_all)
qed

lemma op_align_mono: "op_align dec bs us vs c e \<Longrightarrow> set bs \<subseteq> set ops \<Longrightarrow> op_align dec ops us vs c e"
  by (induction rule: op_align.induct) (auto intro: op_align.intros)

section \<open>The language\<close>

definition gen_accepts :: "'n gen_wfst \<Rightarrow> uchar list \<Rightarrow> uchar list \<Rightarrow> rat \<Rightarrow> bool" where
  "gen_accepts g ins outs c \<longleftrightarrow> (\<exists>g' s. gen_run g 0 ins outs c g' s \<and> gen_final_weight_for_state g' s = Some (F64 0))"

lemma byte_len_Nil: "byte_len [] = 0"
  by (simp add: byte_len_def utf8_bytes_def)

lemma gen_final_at:
  assumes "gen_at g s (n, p, c)"
  shows "gen_final_weight_for_state g s = Some (F64 0) \<longleftrightarrow>
    p = byte_len (gw_query g) \<and> c \<le> gw_max_cost g \<and> node_is_final (gw_dictionary g) n"
  using assms by (auto simp: gen_at_def gen_final_weight_for_state_def product_final_weight_def cost_within_bound_def split: if_splits)

lemma gen_final_product:
  assumes "gen_final_weight_for_state g s = Some w"
  obtains n p c where "gen_at g s (n, p, c)" and "w = F64 0"
  using assms that unfolding gen_final_weight_for_state_def gen_at_def
  by (fastforce simp: product_final_weight_def split: option.splits registered_state.splits if_splits)

text \<open>The law of the library that the language rests on: the scale it chooses for the operations is a decimal one.\<close>

definition decimal_library :: "operation_library \<Rightarrow> (f64 \<Rightarrow> rat) \<Rightarrow> nat \<Rightarrow> operation list \<Rightarrow> bool" where
  "decimal_library lib dec d ops \<longleftrightarrow> (\<forall>scale. ol_scale lib ops = Inr scale \<longrightarrow> decimal_scale dec d scale)"

lemma gen_accepts_sound:
  assumes new: "try_new_with_limits lib D q k ops limits = Inr g"
    and D: "char_dictionary D" "text_fits q" "length ops < usize_max" and exact: "decimal_library lib dec d ops"
    and accepted: "gen_accepts g ins outs c"
  shows "ins = q \<and> dict_accepts D outs \<and> (\<exists>e. op_align dec ops outs q c e \<and> e \<le> of_nat k)"
proof -
  obtain scale max_cost bounded where b: "ol_scale lib ops = Inr scale" "scale_budget scale k = Inr max_cost"
    "bounded_operation_set scale max_cost ops = Inr bounded"
    and g: "gw_dictionary g = D" "gw_query g = q" "gw_operations g = bounded" "gw_scale g = scale" "gw_max_cost g = max_cost"
      "gw_nodes g = reg_new (dict_root D)" "gw_states g = sr_new" and wf: "gen_wf g"
    by (rule try_new_ok [OF new D])
  have ex: "decimal_scale dec d scale" using exact b(1) by (simp add: decimal_library_def)
  obtain g' s where run: "gen_run g 0 ins outs c g' s" and fin: "gen_final_weight_for_state g' s = Some (F64 0)"
    using accepted by (auto simp: gen_accepts_def)
  have ext: "gen_ext g g'" using gen_run_ok [OF run wf] by simp
  obtain n p cost where at: "gen_at g' s (n, p, cost)" by (rule gen_final_product [OF fin])
  have final: "p = byte_len q" "node_is_final D n"
    using fin gen_final_at [OF at] gen_ext_fields [OF ext] g by simp_all
  have "gen_in g 0 [] [] (dict_root D, 0, 0)" using gen_at_start [OF wf g(7,6)] by (simp add: gen_in_def)
  from gen_run_sound [OF run wf this at] have path: "gen_path g (dict_root D, 0, 0) outs ins c (n, p, cost)" by auto
  have ex': "decimal_scale dec d (gw_scale g)" and q: "gw_query g = [] @ q" using ex g by simp_all
  from gen_path_align [OF path ex' q]
  have w: "walk D (dict_root D) outs = Some n" and "\<exists>e. op_align dec bounded outs ins c e \<and> of_nat cost = e * of_nat d"
    and low: "cost \<le> max_cost" and "\<exists>after. q = ins @ after \<and> p = byte_len ins" using g by (simp_all add: byte_len_Nil)
  then obtain after e where after: "q = ins @ after" "p = byte_len ins"
    and e: "op_align dec bounded outs ins c e" "of_nat cost = e * of_nat d" by blast
  have "ins = q \<and> after = []" by (rule byte_prefix_unique) (use after final in simp_all)
  then have ins: "ins = q" by simp
  have d: "0 < d" "max_cost = k * d" using ex b(2) unfolding decimal_scale_def by blast+
  have "e * of_nat d \<le> (of_nat (k * d) :: rat)" using e(2) low d(2) by (metis of_nat_le_iff)
  then have "e \<le> of_nat k" using d(1) by simp
  moreover have "op_align dec ops outs q c e" using op_align_mono [OF e(1) bounded_operations_cover(2) [OF b(3)]] ins by simp
  moreover have "dict_accepts D outs" using w final(2) by (simp add: dict_accepts_def)
  ultimately show ?thesis using ins by blast
qed

lemma gen_accepts_complete:
  assumes new: "try_new_with_limits lib D q k ops limits = Inr g"
    and D: "char_dictionary D" "text_fits q" "length ops < usize_max" and exact: "decimal_library lib dec d ops"
    and known: "dict_accepts D t" and align: "op_align dec ops t q c e" "e \<le> of_nat k" and along: "unfailing_along g 0 q t"
  shows "gen_accepts g q t c"
proof -
  obtain scale max_cost bounded where b: "ol_scale lib ops = Inr scale" "scale_budget scale k = Inr max_cost"
    "bounded_operation_set scale max_cost ops = Inr bounded"
    and g: "gw_dictionary g = D" "gw_query g = q" "gw_operations g = bounded" "gw_scale g = scale" "gw_max_cost g = max_cost"
      "gw_nodes g = reg_new (dict_root D)" "gw_states g = sr_new" and wf: "gen_wf g"
    by (rule try_new_ok [OF new D])
  have ex: "decimal_scale dec d scale" using exact b(1) by (simp add: decimal_library_def)
  then have d: "0 < d" "max_cost = k * d" using b(2) unfolding decimal_scale_def by blast+
  have total: "e * of_nat d \<le> (of_nat max_cost :: rat)" using align(2) d by (simp add: mult_right_mono)
  have bounded: "op_align dec bounded t q c e" by (rule op_align_bounded [OF b(3) ex align(1) total])
  obtain n where n: "walk D (dict_root D) t = Some n" "node_is_final D n" using known by (auto simp: dict_accepts_def split: option.splits)
  have scaled: "\<forall>op \<in> set (gw_operations g). \<exists>n. to_scaled (gw_scale g) (op_weight op) = Inr n"
    using bounded_operations_cover(1,2) [OF b(3)] g by blast
  have "op_align dec (gw_operations g) t q c e" "decimal_scale dec d (gw_scale g)" "walk (gw_dictionary g) (dict_root D) t = Some n"
    "gw_query g = [] @ q @ []" "of_nat 0 + e * of_nat d \<le> (of_nat (gw_max_cost g) :: rat)" using bounded ex n(1) g total by simp_all
  from align_gen_path [OF this(1,2) scaled this(3-5)]
  obtain cost where path: "gen_path g (dict_root D, 0, 0) t q c (n, byte_len q, cost)" and cost: "cost \<le> gw_max_cost g"
    by (auto simp: byte_len_Nil)
  from gen_path_complete [OF path wf gen_ext_refl gen_at_start [OF wf g(7,6)] along]
  obtain g' s' where calm: "calm_run g 0 q t c g' s'" and at: "gen_at g' s' (n, byte_len q, cost)" by blast
  note run = calm_run_run [OF calm]
  have ext: "gen_ext g g'" using gen_run_ok [OF run wf] by simp
  have "gen_final_weight_for_state g' s' = Some (F64 0)"
    using gen_final_at [OF at] gen_ext_fields [OF ext] g n(2) cost by simp
  then show ?thesis using run by (auto simp: gen_accepts_def)
qed

text \<open>
  C9: everything the generalized WFST accepts is right. Whatever expansions lead to it, an accepted input
  is the query, its output is a term of the dictionary, and its weight is that of an alignment of the
  term with the query by the configured operations whose costs, read as decimals, sum up to at most the
  maximum distance.
\<close>

theorem generalized_language_sound:
  assumes "try_new_with_limits lib D q k ops limits = Inr g" and "char_dictionary D" and "text_fits q"
    and "length ops < usize_max" and "decimal_library lib dec d ops" and "gen_accepts g ins outs c"
  shows "ins = q \<and> dict_accepts D outs \<and> (\<exists>e. op_align dec ops outs q c e \<and> e \<le> of_nat k)"
  by (rule gen_accepts_sound [OF assms])

text \<open>
  C10: nothing is missed. Every term of the dictionary that the operations align with the query at a decimal cost
  within the maximum distance is accepted, at the weight of the alignment, where no undisturbed expansion on
  the way to it (of a state reached over a part of the query and a part of the term) reports a failure.
\<close>

theorem generalized_language_complete:
  assumes "try_new_with_limits lib D q k ops limits = Inr g" and "char_dictionary D" and "text_fits q"
    and "length ops < usize_max" and "decimal_library lib dec d ops"
    and "dict_accepts D t" and "op_align dec ops t q c e" and "e \<le> of_nat k" and "unfailing_along g 0 q t"
  shows "gen_accepts g q t c"
  by (rule gen_accepts_complete [OF assms])

section \<open>A worked language\<close>

text \<open>The decimal that the weight of the worked instance is read as.\<close>

definition read_decimal :: "f64 \<Rightarrow> rat" where
  "read_decimal w = (if w = F64 tenth then 1 / 10 else 0)"

lemma tenth_library_decimal: "decimal_library tenth_library read_decimal 10 ops"
  by (auto simp: decimal_library_def tenth_library_def decimal_scale_def tenth_scale_def read_decimal_def tenth_nonzero split: if_splits)

lemma pair_text_fits: "text_fits [97, 98]"
  by (simp add: text_fits_def utf8_len_def usize_max_def)

lemma copy_two_few: "length [copy_two] < usize_max"
  by (simp add: usize_max_def)

lemma pair_align: "op_align read_decimal [copy_two] [97, 98] [97, 98] tenth (1 / 10)"
proof -
  have "operation_applies copy_two [97, 98] (utf8_bytes [97, 98]) [97, 98] (utf8_bytes [97, 98])"
    by (simp add: operation_applies_def copy_two_def)
  then show ?thesis
    using op_align.align_op [of copy_two "[copy_two]" "[97, 98]" "[97, 98]" tenth read_decimal "[]" "[]" 0 0]
    by (simp add: copy_two_def op_align.align_done read_decimal_def)
qed

lemma quiet_transaction:
  assumes "try_transaction g state (budget_new (gw_limits g) (\<lambda>_. None) (\<lambda>_. None)) = Inr ((x, g'), b)"
  shows "gen_compute_registered_state g state = (Some (Expanded (cs_final x) (cs_weight x) (cs_transitions x)), g')"
  unfolding gen_compute_registered_state_def by (subst computed_transaction) (simp_all add: assms quiet_def)

lemma pair_expand_emit:
  "gen_compute_registered_state pair_expanded 2 =
     (Some (Expanded False tropical_zero [mk_transition 2 (Some 98) (Some 98) 1 (F64 0)]), pair_expanded)"
proof -
  let ?x = "\<lparr>cs_final = False, cs_weight = tropical_zero, cs_transitions = [mk_transition 2 (Some 98) (Some 98) 1 (F64 0)]\<rparr>"
  have "\<exists>b. try_transaction pair_expanded 2 (budget_new (gw_limits pair_expanded) (\<lambda>_. None) (\<lambda>_. None)) = Inr ((?x, pair_expanded), b)"
    by (simp add: try_transaction_def run_defs gen_registered_state_def pair_expanded_def pair_wfst_def sr_get_eq nth_opt_def
        emit_transaction_def gen_limits_default_def pair_emit_def)
  then show ?thesis using quiet_transaction by fastforce
qed

text \<open>At the end of the query the operation no longer applies, and the state is final.\<close>

lemma pair_expand_end:
  "gen_compute_registered_state pair_expanded 1 = (Some (Expanded True (F64 0) []), pair_expanded)"
proof -
  let ?x = "\<lparr>cs_final = True, cs_weight = F64 0, cs_transitions = []\<rparr>"
  have seg: "str_segment_by_char_width [97, 98] 2 2 = None"
    by (simp add: str_segment_by_char_width_def is_char_boundary_def utf8_len_def numeral_2_eq_2)
  have "\<exists>b. try_transaction pair_expanded 1 (budget_new (gw_limits pair_expanded) (\<lambda>_. None) (\<lambda>_. None)) = Inr ((?x, pair_expanded), b)"
    apply (simp add: try_transaction_def
     run_defs gen_registered_state_def pair_expanded_def pair_wfst_def sr_get_eq nth_opt_def start_product_def product_transaction_def
     gen_dictionary_node_def reg_get_node_def is_char_boundary_def cost_within_bound_def gen_limits_default_def
     width_cache_def Let_def product_final_weight_def utf8_len_def ab_dictionary_def)
    apply (simp add: operation_step_def run_defs load_query_def load_paths_def gen_query_segment_def seg copy_two_def)
    apply (simp add: commit_transaction_def run_defs resolve_loop.simps staging_new_def resolution_start_def
       batch_new_def)
    done
  then show ?thesis using quiet_transaction by fastforce
qed

lemma pair_runs:
  "calm_run pair_wfst 0 i u c g s \<Longrightarrow>
     (g = pair_wfst \<and> s = 0) \<or> (g = pair_expanded \<and> s = 2) \<or> (g = pair_expanded \<and> s = 1)"
  "calm_run pair_expanded 2 i u c g s \<Longrightarrow> (g = pair_expanded \<and> s = 2) \<or> (g = pair_expanded \<and> s = 1)"
  "calm_run pair_expanded 1 i u c g s \<Longrightarrow> g = pair_expanded \<and> s = 1"
proof -
  show three: "g = pair_expanded \<and> s = 1" if "calm_run pair_expanded 1 i u c g s" for i u c g s
    using that by (cases rule: calm_run.cases) (auto simp: pair_expand_end)
  show two: "(g = pair_expanded \<and> s = 2) \<or> (g = pair_expanded \<and> s = 1)" if "calm_run pair_expanded 2 i u c g s" for i u c g s
    using that by (cases rule: calm_run.cases) (auto simp: pair_expand_emit dest: three)
  show "(g = pair_wfst \<and> s = 0) \<or> (g = pair_expanded \<and> s = 2) \<or> (g = pair_expanded \<and> s = 1)" if "calm_run pair_wfst 0 i u c g s"
    using that by (cases rule: calm_run.cases) (auto simp: pair_expand_start dest: two)
qed

lemma pair_unfailing: "unfailing_along pair_wfst 0 ins outs"
  unfolding unfailing_along_def
  using pair_runs(1) pair_expand_start pair_expand_emit pair_expand_end by fastforce

lemma pair_accepts: "gen_accepts pair_wfst [97, 98] [97, 98] tenth"
proof -
  have one: "gen_run pair_wfst 0 [97] [97] tenth pair_expanded 2"
    using calm_run_run [OF calm_run_one [OF pair_expand_start, of "mk_transition 0 (Some 97) (Some 97) 2 (F64 tenth)" tenth]] by simp
  have two: "gen_run pair_expanded 2 [98] [98] 0 pair_expanded 1"
    using calm_run_run [OF calm_run_one [OF pair_expand_emit, of "mk_transition 2 (Some 98) (Some 98) 1 (F64 0)" 0]] by simp
  have "gen_run pair_wfst 0 [97, 98] [97, 98] tenth pair_expanded 1" using gen_run_trans [OF one two] by simp
  moreover have "gen_final_weight_for_state pair_expanded 1 = Some (F64 0)"
    by (simp add: gen_final_weight_for_state_def gen_registered_state_def pair_expanded_def pair_wfst_def sr_get_eq nth_opt_def
        gen_dictionary_node_def reg_get_node_def product_final_weight_def utf8_len_def cost_within_bound_def ab_dictionary_def)
  ultimately show ?thesis by (auto simp: gen_accepts_def)
qed

theorem generalized_language_sound_witness:
  "dict_accepts ab_dictionary [97, 98] \<and> (\<exists>e. op_align read_decimal [copy_two] [97, 98] [97, 98] tenth e \<and> e \<le> 1)"
  using generalized_language_sound [OF pair_wfst_new [unfolded gen_try_new_def] ab_char_dictionary pair_text_fits copy_two_few
      tenth_library_decimal pair_accepts] by simp

theorem generalized_language_complete_witness: "gen_accepts pair_wfst [97, 98] [97, 98] tenth"
proof -
  have "dict_accepts ab_dictionary [97, 98]" by (simp add: dict_accepts_def ab_dictionary_def ab_edges_def child_by_def)
  then show ?thesis
    using generalized_language_complete [OF pair_wfst_new [unfolded gen_try_new_def] ab_char_dictionary pair_text_fits copy_two_few
        tenth_library_decimal _ pair_align _ pair_unfailing] by simp
qed

end
