(* ===== verification/Foreign_Memory.thy ===== *)
theory Foreign_Memory
  imports Generalized_Ops
begin

text \<open>
  Memory as the C boundary sees it (\<open>src/ffi.rs\<close>, \<open>src/ffi/config.rs\<close>). A pointer is an address, 0 is
  null, and memory says of each address which byte can be read there, if any. Reading an address that
  cannot be read is undefined behaviour in the source; here it is the outcome \<open>Unreadable\<close>, which
  no rejection equals. Words are little-endian and records have the layout of \<open>repr(C)\<close> on a 64-bit target.
\<close>

type_synonym byte = "8 word"
type_synonym address = nat
type_synonym foreign_memory = "address \<Rightarrow> byte option"

definition read_bytes :: "foreign_memory \<Rightarrow> address \<Rightarrow> usize \<Rightarrow> byte list option" where
  "read_bytes m a n = those (map m [a..<a + n])"

lemma those_eq_Some: "those xs = Some ys \<longleftrightarrow> xs = map Some ys"
proof (induction xs arbitrary: ys)
  case (Cons x xs)
  show ?case
  proof (cases x)
    case (Some y)
    show ?thesis
    proof (cases "those xs")
      case None
      then have "xs \<noteq> map Some zs" for zs using Cons by simp
      then show ?thesis using None Some by (auto simp: Cons_eq_map_conv)
    next
      case (Some zs)
      then have "xs = map Some zs" using Cons by simp
      then show ?thesis using Some \<open>x = Some y\<close> by (auto simp: Cons_eq_map_conv inj_map_eq_map)
    qed
  qed (auto simp: Cons_eq_map_conv)
qed auto

lemma those_eq_None: "those xs = None \<longleftrightarrow> None \<in> set xs"
  by (induction xs) (auto split: option.splits)

lemma read_bytes_length: "read_bytes m a n = Some bs \<Longrightarrow> length bs = n"
  by (auto simp: read_bytes_def those_eq_Some dest: arg_cong [where f = length])

lemma read_bytes_None: "read_bytes m a n = None \<longleftrightarrow> (\<exists>i < n. m (a + i) = None)"
proof -
  have "read_bytes m a n = None \<longleftrightarrow> (\<exists>x \<in> {a..<a + n}. m x = None)"
    unfolding read_bytes_def those_eq_None by (auto simp: image_iff) (metis atLeastLessThan_iff)+
  also have "\<dots> \<longleftrightarrow> (\<exists>i < n. m (a + i) = None)"
  proof
    assume "\<exists>x \<in> {a..<a + n}. m x = None"
    then obtain x where "a \<le> x" "x < a + n" "m x = None" by auto
    then show "\<exists>i < n. m (a + i) = None" by (intro exI [of _ "x - a"]) auto
  next
    assume "\<exists>i < n. m (a + i) = None"
    then obtain i where "i < n" "m (a + i) = None" by blast
    then show "\<exists>x \<in> {a..<a + n}. m x = None" by (intro bexI [of _ "a + i"]) auto
  qed
  finally show ?thesis .
qed

lemma read_bytes_Some: "read_bytes m a n = Some bs \<longleftrightarrow> length bs = n \<and> (\<forall>i < n. m (a + i) = Some (bs ! i))"
  unfolding read_bytes_def those_eq_Some list_eq_iff_nth_eq by (auto simp del: upt_Suc)

text \<open>Memory that holds these bytes from an address on.\<close>

definition holds :: "foreign_memory \<Rightarrow> address \<Rightarrow> byte list \<Rightarrow> bool" where
  "holds m a bs \<longleftrightarrow> read_bytes m a (length bs) = Some bs"

lemma holds_take: "holds m a bs \<Longrightarrow> n \<le> length bs \<Longrightarrow> read_bytes m a n = Some (take n bs)"
  by (auto simp: holds_def read_bytes_Some)

lemma holds_drop: "holds m a bs \<Longrightarrow> k + n \<le> length bs \<Longrightarrow> read_bytes m (a + k) n = Some (take n (drop k bs))"
  by (auto simp: holds_def read_bytes_Some add.assoc)

section \<open>Words in memory\<close>

fun le_nat :: "byte list \<Rightarrow> nat" where
  "le_nat [] = 0"
| "le_nat (b # bs) = unat b + 256 * le_nat bs"

definition u32_at :: "byte list \<Rightarrow> usize \<Rightarrow> u32" where
  "u32_at bs off = of_nat (le_nat (take 4 (drop off bs)))"

definition u64_at :: "byte list \<Rightarrow> usize \<Rightarrow> u64" where
  "u64_at bs off = of_nat (le_nat (take 8 (drop off bs)))"

definition pointer_at :: "byte list \<Rightarrow> usize \<Rightarrow> address" where
  "pointer_at bs off = unat (u64_at bs off)"

fun le_bytes :: "nat \<Rightarrow> nat \<Rightarrow> byte list" where
  "le_bytes 0 n = []"
| "le_bytes (Suc k) n = of_nat (n mod 256) # le_bytes k (n div 256)"

lemma length_le_bytes [simp]: "length (le_bytes k n) = k"
  by (induction k arbitrary: n) simp_all

lemma le_nat_bytes: "le_nat (le_bytes k n) = n mod 256 ^ k"
proof (induction k arbitrary: n)
  case (Suc k)
  have "unat (of_nat (n mod 256) :: byte) = n mod 256" by (simp add: unat_of_nat)
  then show ?case using Suc by (simp add: mod_mult2_eq [of n 256])
qed simp

lemma le_bytes_nat: "le_bytes (length bs) (le_nat bs) = bs"
proof (induction bs)
  case (Cons b bs)
  have b: "unat b < 256" using unsigned_less [of b] by simp
  then have "(unat b + 256 * le_nat bs) mod 256 = unat b" "(unat b + 256 * le_nat bs) div 256 = le_nat bs" by simp_all
  then show ?case using Cons by simp
qed simp

lemma le_nat_less: "le_nat bs < 256 ^ length bs"
proof -
  have "le_nat bs = le_nat (le_bytes (length bs) (le_nat bs))" by (simp add: le_bytes_nat)
  also have "\<dots> = le_nat bs mod 256 ^ length bs" by (simp only: le_nat_bytes)
  finally show ?thesis by (metis mod_less_divisor zero_less_numeral zero_less_power)
qed

section \<open>Floating-point bits\<close>

text \<open>The value of an IEEE 754 binary64 word. Both zeros are the same number.\<close>

definition f64_from_bits :: "u64 \<Rightarrow> f64" where
  "f64_from_bits w =
     (let n = unat w; s = n div 2 ^ 63; e = n div 2 ^ 52 mod 2048; m = n mod 2 ^ 52;
          sign = (if s = 0 then 1 else - 1)
      in if e = 2047 then (if m \<noteq> 0 then F64_NaN else if s = 0 then F64_PosInf else F64_NegInf)
         else if e = 0 then F64 (sign * of_nat m / 2 ^ 1074)
         else if e \<ge> 1075 then F64 (sign * of_nat ((2 ^ 52 + m) * 2 ^ (e - 1075)))
         else F64 (sign * of_nat (2 ^ 52 + m) / 2 ^ (1075 - e)))"

section \<open>Text\<close>

definition is_scalar :: "uchar \<Rightarrow> bool" where
  "is_scalar c \<longleftrightarrow> c < 0xD800 \<or> 0xE000 \<le> c \<and> c \<le> 0x10FFFF"

definition is_continuation :: "nat \<Rightarrow> bool" where
  "is_continuation b \<longleftrightarrow> 0x80 \<le> b \<and> b < 0xC0"

text \<open>\<open>str::from_utf8\<close>: shortest forms only, no surrogates, nothing above the last scalar.\<close>

fun utf8_decode :: "nat list \<Rightarrow> uchar list option" where
  "utf8_decode [] = Some []"
| "utf8_decode (a # bs) =
     (if a < 0x80 then map_option (Cons a) (utf8_decode bs)
      else if 0xC0 \<le> a \<and> a < 0xE0 then
        (case bs of
           b # bs' \<Rightarrow>
             (let c = (a - 0xC0) * 64 + (b - 0x80)
              in if is_continuation b \<and> 0x80 \<le> c then map_option (Cons c) (utf8_decode bs') else None)
         | _ \<Rightarrow> None)
      else if 0xE0 \<le> a \<and> a < 0xF0 then
        (case bs of
           b # b' # bs' \<Rightarrow>
             (let c = (a - 0xE0) * 4096 + (b - 0x80) * 64 + (b' - 0x80)
              in if is_continuation b \<and> is_continuation b' \<and> 0x800 \<le> c \<and> is_scalar c
                 then map_option (Cons c) (utf8_decode bs') else None)
         | _ \<Rightarrow> None)
      else if 0xF0 \<le> a \<and> a < 0xF8 then
        (case bs of
           b # b' # b'' # bs' \<Rightarrow>
             (let c = (a - 0xF0) * 262144 + (b - 0x80) * 4096 + (b' - 0x80) * 64 + (b'' - 0x80)
              in if is_continuation b \<and> is_continuation b' \<and> is_continuation b'' \<and> 0x10000 \<le> c \<and> is_scalar c
                 then map_option (Cons c) (utf8_decode bs') else None)
         | _ \<Rightarrow> None)
      else None)"

lemma split_64: "y < (64::nat) \<Longrightarrow> (a * 64 + y) div 64 = a \<and> (a * 64 + y) mod 64 = y"
  by simp

lemma utf8_encode_2:
  assumes "y < 64" and "x < 32" and "0x80 \<le> x * 64 + y"
  shows "utf8_encode (x * 64 + y) = [0xC0 + x, 0x80 + y]"
proof -
  have "(x * 64 + y) div 64 = x" "(x * 64 + y) mod 64 = y" using assms(1) by simp_all
  then show ?thesis using assms by (simp add: utf8_encode_def)
qed

lemma utf8_encode_3:
  assumes "z < 64" and "y < 64" and "x < 16" and "0x800 \<le> x * 4096 + y * 64 + z"
  shows "utf8_encode (x * 4096 + y * 64 + z) = [0xE0 + x, 0x80 + y, 0x80 + z]"
proof -
  let ?c = "x * 4096 + y * 64 + z"
  have c: "?c = (x * 64 + y) * 64 + z" by simp
  have q: "?c div 64 = x * 64 + y" "?c mod 64 = z" using split_64 [OF assms(1), of "x * 64 + y"] by (simp_all only: c)
  have "?c div 4096 = ?c div 64 div 64" by (simp add: div_mult2_eq [symmetric])
  then have "?c div 4096 = x" using assms(2) by (simp only: q split_64)
  moreover have "?c div 64 mod 64 = y" using assms(2) by (simp only: q split_64)
  ultimately show ?thesis using assms q(2) by (simp only: utf8_encode_def) simp
qed

lemma utf8_encode_4:
  assumes "w < 64" and "z < 64" and "y < 64" and "x < 8" and "0x10000 \<le> x * 262144 + y * 4096 + z * 64 + w"
  shows "utf8_encode (x * 262144 + y * 4096 + z * 64 + w) = [0xF0 + x, 0x80 + y, 0x80 + z, 0x80 + w]"
proof -
  let ?c = "x * 262144 + y * 4096 + z * 64 + w"
  have c: "?c = (x * 4096 + y * 64 + z) * 64 + w" "x * 4096 + y * 64 + z = (x * 64 + y) * 64 + z" by simp_all
  have q: "?c div 64 = x * 4096 + y * 64 + z" "?c mod 64 = w" using split_64 [OF assms(1), of "x * 4096 + y * 64 + z"] by (simp_all only: c(1))
  have r: "(x * 4096 + y * 64 + z) div 64 = x * 64 + y" "(x * 4096 + y * 64 + z) mod 64 = z" using split_64 [OF assms(2), of "x * 64 + y"] by (simp_all only: c(2))
  have d: "?c div 4096 = ?c div 64 div 64" "?c div 262144 = ?c div 64 div 64 div 64" by (simp_all add: div_mult2_eq [symmetric])
  have "?c div 262144 = x" "?c div 4096 mod 64 = y" "?c div 64 mod 64 = z" using assms(3) r(2) by (simp_all only: d q r split_64)
  then show ?thesis using assms q(2) by (simp only: utf8_encode_def) simp
qed

lemma scalar_cases:
  assumes "is_scalar c"
  obtains "c < 0x80"
  | x y where "c = x * 64 + y" "y < 64" "x < 32" "0x80 \<le> c"
  | x y z where "c = x * 4096 + y * 64 + z" "z < 64" "y < 64" "x < 16" "0x800 \<le> c"
  | x y z w where "c = x * 262144 + y * 4096 + z * 64 + w" "w < 64" "z < 64" "y < 64" "x < 8" "0x10000 \<le> c"
proof -
  consider "c < 0x80" | "0x80 \<le> c" "c < 0x800" | "0x800 \<le> c" "c < 0x10000" | "0x10000 \<le> c" by linarith
  then show ?thesis
  proof cases
    case 1
    then show ?thesis by (rule that(1))
  next
    case 2
    show ?thesis by (rule that(2) [of "c div 64" "c mod 64"]) (use 2 in simp_all)
  next
    case 3
    have eq: "c = c div 64 div 64 * 4096 + c div 64 mod 64 * 64 + c mod 64"
      using div_mult_mod_eq [of c 64] div_mult_mod_eq [of "c div 64" 64] by linarith
    have "c mod 64 < 64" "c div 64 mod 64 < 64" "c div 64 div 64 < 16" using 3(2) by simp_all
    from that(3) [OF eq this 3(1)] show ?thesis .
  next
    case 4
    have eq: "c = c div 64 div 64 div 64 * 262144 + c div 64 div 64 mod 64 * 4096 + c div 64 mod 64 * 64 + c mod 64"
      using div_mult_mod_eq [of c 64] div_mult_mod_eq [of "c div 64" 64] div_mult_mod_eq [of "c div 64 div 64" 64] by linarith
    have "c mod 64 < 64" "c div 64 mod 64 < 64" "c div 64 div 64 mod 64 < 64" "c div 64 div 64 div 64 < 8"
      using assms by (auto simp: is_scalar_def)
    from that(4) [OF eq this 4] show ?thesis .
  qed
qed

lemma utf8_decode_encode:
  "\<forall>c \<in> set cs. is_scalar c \<Longrightarrow> utf8_decode (utf8_bytes cs) = Some cs"
proof (induction cs)
  case (Cons c cs)
  then have rest: "utf8_decode (utf8_bytes cs) = Some cs" and c: "is_scalar c" by simp_all
  have bytes: "utf8_bytes (c # cs) = utf8_encode c @ utf8_bytes cs" by (simp add: utf8_bytes_def)
  show ?case
  proof (cases rule: scalar_cases [OF c])
    case 1
    then show ?thesis using rest by (simp add: bytes utf8_encode_def)
  next
    case (2 x y)
    show ?thesis unfolding bytes using utf8_encode_2 [of y x] 2 c rest by (simp add: is_continuation_def)
  next
    case (3 x y z)
    show ?thesis unfolding bytes using utf8_encode_3 [of z y x] 3 c rest by (simp add: is_continuation_def)
  next
    case (4 x y z w)
    show ?thesis unfolding bytes using utf8_encode_4 [of w z y x] 4 c rest by (simp add: is_continuation_def)
  qed
qed (simp add: utf8_bytes_def)

lemma utf8_decode_sound:
  "utf8_decode bs = Some cs \<Longrightarrow> utf8_bytes cs = bs \<and> (\<forall>c \<in> set cs. is_scalar c)"
proof (induction bs arbitrary: cs rule: utf8_decode.induct)
  case (2 a bs)
  have bytes: "utf8_bytes (c # cs) = utf8_encode c @ utf8_bytes cs" for c cs by (simp add: utf8_bytes_def)
  consider "a < 0x80" | "0xC0 \<le> a" "a < 0xE0" | "0xE0 \<le> a" "a < 0xF0" | "0xF0 \<le> a" "a < 0xF8"
    using "2.prems" by (force split: if_splits)
  then show ?case
  proof cases
    case 1
    then show ?thesis using "2.prems" "2.IH"(1) [OF 1] by (auto simp: bytes utf8_encode_def is_scalar_def)
  next
    case 2
    then have a: "\<not> a < 0x80" "0xC0 \<le> a \<and> a < 0xE0" by simp_all
    obtain b bs' where bs: "bs = b # bs'" using "2.prems" a by (auto split: list.splits)
    let ?c = "(a - 0xC0) * 64 + (b - 0x80)"
    have ok: "is_continuation b" "0x80 \<le> ?c" and "\<exists>cs'. utf8_decode bs' = Some cs' \<and> cs = ?c # cs'"
      using "2.prems" a by (auto simp: bs Let_def split: if_splits)
    then obtain cs' where cs': "utf8_decode bs' = Some cs'" "cs = ?c # cs'" by blast
    have IH: "utf8_bytes cs' = bs' \<and> (\<forall>c \<in> set cs'. is_scalar c)"
      using "2.IH"(2) [OF a bs refl _ cs'(1)] ok by simp
    have "utf8_encode ?c = [0xC0 + (a - 0xC0), 0x80 + (b - 0x80)]"
      by (rule utf8_encode_2) (use a ok in \<open>simp_all add: is_continuation_def\<close>, linarith+)
    then have "utf8_encode ?c = [a, b]" using a ok by (simp add: is_continuation_def)
    moreover have "?c < 0xD800" using a ok by (simp add: is_continuation_def) linarith
    then have "is_scalar ?c" by (simp add: is_scalar_def)
    ultimately show ?thesis using IH cs'(2) bs by (simp add: bytes)
  next
    case 3
    then have a: "\<not> a < 0x80" "\<not> (0xC0 \<le> a \<and> a < 0xE0)" "0xE0 \<le> a \<and> a < 0xF0" by simp_all
    obtain b b' bs' where bs: "bs = b # b' # bs'" using "2.prems" a by (auto split: list.splits)
    let ?c = "(a - 0xE0) * 4096 + (b - 0x80) * 64 + (b' - 0x80)"
    have ok: "is_continuation b" "is_continuation b'" "0x800 \<le> ?c" "is_scalar ?c"
      and "\<exists>cs'. utf8_decode bs' = Some cs' \<and> cs = ?c # cs'"
      using "2.prems" a by (auto simp: bs Let_def split: if_splits)
    then obtain cs' where cs': "utf8_decode bs' = Some cs'" "cs = ?c # cs'" by blast
    have IH: "utf8_bytes cs' = bs' \<and> (\<forall>c \<in> set cs'. is_scalar c)"
      using "2.IH"(3) [OF a bs refl refl _ cs'(1)] ok by simp
    have "utf8_encode ?c = [0xE0 + (a - 0xE0), 0x80 + (b - 0x80), 0x80 + (b' - 0x80)]"
      by (rule utf8_encode_3) (use a ok in \<open>simp_all add: is_continuation_def\<close>, linarith+)
    then have "utf8_encode ?c = [a, b, b']" using a ok(1,2) by (simp add: is_continuation_def)
    then show ?thesis using IH cs'(2) bs ok by (simp add: bytes)
  next
    case 4
    then have a: "\<not> a < 0x80" "\<not> (0xC0 \<le> a \<and> a < 0xE0)" "\<not> (0xE0 \<le> a \<and> a < 0xF0)" "0xF0 \<le> a \<and> a < 0xF8" by simp_all
    obtain b b' b'' bs' where bs: "bs = b # b' # b'' # bs'" using "2.prems" a by (auto split: list.splits)
    let ?c = "(a - 0xF0) * 262144 + (b - 0x80) * 4096 + (b' - 0x80) * 64 + (b'' - 0x80)"
    have ok: "is_continuation b" "is_continuation b'" "is_continuation b''" "0x10000 \<le> ?c" "is_scalar ?c"
      and "\<exists>cs'. utf8_decode bs' = Some cs' \<and> cs = ?c # cs'"
      using "2.prems" a by (auto simp: bs Let_def split: if_splits)
    then obtain cs' where cs': "utf8_decode bs' = Some cs'" "cs = ?c # cs'" by blast
    have IH: "utf8_bytes cs' = bs' \<and> (\<forall>c \<in> set cs'. is_scalar c)"
      using "2.IH"(4) [OF a bs refl refl refl _ cs'(1)] ok by simp
    have "utf8_encode ?c = [0xF0 + (a - 0xF0), 0x80 + (b - 0x80), 0x80 + (b' - 0x80), 0x80 + (b'' - 0x80)]"
      by (rule utf8_encode_4) (use a ok in \<open>simp_all add: is_continuation_def\<close>, linarith+)
    then have "utf8_encode ?c = [a, b, b', b'']" using a ok(1-3) by (simp add: is_continuation_def)
    then show ?thesis using IH cs'(2) bs ok by (simp add: bytes)
  qed
qed (simp add: utf8_bytes_def)

end
