(* ===== verification/Phonetic_Nfa.thy ===== *)
theory Phonetic_Nfa
  imports State_Encoding Foreign_Memory
begin

text \<open>
  \<open>src/phonetic_nfa_support.rs\<close> and \<open>src/phonetic_anchors.rs\<close>: candidate characters in the order of their
  discovery, successors grouped by character, and the closures that follow zero-width anchors. The
  compiled automaton comes from \<open>liblevenshtein\<close> and is a parameter: the record \<open>nfa\<close> holds what the
  code calls of it, and \<open>nfa_ok\<close> what these calls promise.
\<close>

section \<open>The automaton as the code sees it\<close>

text \<open>A character class: two public fields and its test.\<close>

record char_class_char =
  class_negated :: bool
  class_ranges :: "(uchar \<times> uchar) list"
  class_matches :: "uchar \<Rightarrow> bool"

text \<open>The labels that the code tells apart; whatever else the library has is \<open>OtherLabel\<close>.\<close>

datatype nfa_label =
    EpsilonLabel
  | CharLabel uchar
  | ClassLabel char_class_char
  | AnyLabel
  | StartOfLine
  | StartOfInput
  | EndOfLine
  | EndOfInput
  | EndOfInputStrict
  | OtherLabel

text \<open>A \<open>StateSet\<close> is a set of \<open>u32\<close>; the order in which it is iterated is the library's.\<close>

type_synonym nfa_state = u32

record nfa =
  nfa_start :: nfa_state
  nfa_num_states :: usize
  transitions_from :: "nfa_state \<Rightarrow> (nfa_label \<times> nfa_state) list"
  nfa_is_final :: "nfa_state \<Rightarrow> bool"
  epsilon_closure :: "nfa_state set \<Rightarrow> nfa_state set"
  epsilon_closure_single :: "nfa_state \<Rightarrow> nfa_state set"
  is_epsilon :: "nfa_label \<Rightarrow> bool"
  consumes_input :: "nfa_label \<Rightarrow> bool"
  set_iter :: "nfa_state set \<Rightarrow> nfa_state list"

text \<open>The arcs that a test on labels lets pass.\<close>

definition arcs_where :: "nfa \<Rightarrow> (nfa_label \<Rightarrow> bool) \<Rightarrow> (nfa_state \<times> nfa_state) set" where
  "arcs_where A P = {(p, q). \<exists>l. (l, q) \<in> set (transitions_from A p) \<and> P l}"

abbreviation eps_arcs :: "nfa \<Rightarrow> (nfa_state \<times> nfa_state) set" where
  "eps_arcs A \<equiv> arcs_where A (\<lambda>l. l = EpsilonLabel)"

definition nfa_ok :: "nfa \<Rightarrow> bool" where
  "nfa_ok A \<longleftrightarrow>
     (\<forall>S. set (set_iter A S) = S) \<and>
     (\<forall>S. epsilon_closure A S = (eps_arcs A)\<^sup>* `` S) \<and>
     (\<forall>q. epsilon_closure_single A q = (eps_arcs A)\<^sup>* `` {q}) \<and>
     (\<forall>l. is_epsilon A l \<longleftrightarrow> l = EpsilonLabel) \<and>
     (\<forall>c. consumes_input A (CharLabel c)) \<and> (\<forall>k. consumes_input A (ClassLabel k)) \<and> consumes_input A AnyLabel"

lemma nfa_okD:
  assumes "nfa_ok A"
  shows "set (set_iter A S) = S" and "epsilon_closure A S = (eps_arcs A)\<^sup>* `` S"
    and "epsilon_closure_single A q = (eps_arcs A)\<^sup>* `` {q}" and "is_epsilon A l \<longleftrightarrow> l = EpsilonLabel"
    and "consumes_input A (CharLabel c)" and "consumes_input A (ClassLabel k)" and "consumes_input A AnyLabel"
  using assms unfolding nfa_ok_def by blast+

section \<open>Keys and identifiers\<close>

text \<open>\<open>StateSetKey\<close>: the states of a set, sorted.\<close>

type_synonym state_set_key = "nfa_state list"

definition state_set_to_key :: "nfa \<Rightarrow> nfa_state set \<Rightarrow> state_set_key" where
  "state_set_to_key A S = sort (set_iter A S)"

definition next_nfa_state_id :: "usize \<Rightarrow> state_id option" where
  "next_nfa_state_id n = u32_try_from n"

definition phonetic_nfa_state_hint :: "usize \<Rightarrow> usize \<Rightarrow> usize" where
  "phonetic_nfa_state_hint nfa_state_count registered_states = max (usize_sat_mul nfa_state_count 10) registered_states"

section \<open>Candidate characters\<close>

definition max_exact_class_range_chars :: usize where
  "max_exact_class_range_chars = 256"

definition candidate_hash_threshold :: usize where
  "candidate_hash_threshold = 16"

text \<open>
  Up to the threshold membership is a scan of the list, beyond it a hash set that is built once. The
  capacities only reserve memory; the hint is kept because the code carries it along.
\<close>

record candidate_chars =
  cc_ordered :: "uchar list"
  cc_seen :: "uchar set option"
  cc_reserve_hint :: usize

definition cc_with_capacity :: "usize \<Rightarrow> candidate_chars" where
  "cc_with_capacity capacity = \<lparr>cc_ordered = [], cc_seen = None, cc_reserve_hint = capped_size_hint_capacity capacity\<rparr>"

definition materialize_seen :: "candidate_chars \<Rightarrow> candidate_chars" where
  "materialize_seen cc = cc\<lparr>cc_seen := Some (set (cc_ordered cc))\<rparr>"

definition push_seen :: "uchar \<Rightarrow> candidate_chars \<Rightarrow> candidate_chars" where
  "push_seen c cc =
     (case cc_seen cc of
        Some seen \<Rightarrow> if c \<in> seen then cc else cc\<lparr>cc_seen := Some (insert c seen), cc_ordered := cc_ordered cc @ [c]\<rparr>
      | None \<Rightarrow> cc)"

definition push_unique :: "uchar \<Rightarrow> candidate_chars \<Rightarrow> candidate_chars" where
  "push_unique c cc =
     (case cc_seen cc of
        Some _ \<Rightarrow> push_seen c cc
      | None \<Rightarrow>
          if c \<in> set (cc_ordered cc) then cc
          else if candidate_hash_threshold \<le> length (cc_ordered cc) then push_seen c (materialize_seen cc)
          else cc\<lparr>cc_ordered := cc_ordered cc @ [c]\<rparr>)"

definition reserve_additional :: "usize \<Rightarrow> candidate_chars \<Rightarrow> candidate_chars" where
  "reserve_additional additional cc =
     (if additional = 0 then cc
      else cc\<lparr>cc_reserve_hint :=
        min (max (cc_reserve_hint cc) (usize_sat_add (length (cc_ordered cc)) additional)) max_speculative_preallocation\<rparr>)"

definition char_range_width :: "uchar \<Rightarrow> uchar \<Rightarrow> usize option" where
  "char_range_width first last' = (if first > last' then None else Some (last' - first + 1))"

text \<open>\<open>char::from_u32\<close> fails on the surrogates inside a range.\<close>

definition push_bounded_char_range :: "uchar \<Rightarrow> uchar \<Rightarrow> candidate_chars \<Rightarrow> candidate_chars" where
  "push_bounded_char_range first last' cc =
     (case char_range_width first last' of
        None \<Rightarrow> cc
      | Some width \<Rightarrow>
          if width > max_exact_class_range_chars then cc
          else fold (\<lambda>c cc. if is_scalar c then push_unique c cc else cc) [first..<Suc last'] (reserve_additional width cc))"

fun normalize_chars :: "uchar list \<Rightarrow> uchar set \<Rightarrow> uchar list \<Rightarrow> uchar list" where
  "normalize_chars [] seen deduped = deduped"
| "normalize_chars (c # cs) seen deduped =
     (if c \<in> seen then normalize_chars cs seen deduped else normalize_chars cs (insert c seen) (deduped @ [c]))"

definition normalize_alphabet :: "uchar list \<Rightarrow> uchar list" where
  "normalize_alphabet alphabet = normalize_chars alphabet {} []"

definition default_phonetic_nfa_alphabet :: "uchar list" where
  "default_phonetic_nfa_alphabet = [32..<127]"

subsection \<open>The candidates are a duplicate-free list\<close>

definition cc_wf :: "candidate_chars \<Rightarrow> bool" where
  "cc_wf cc \<longleftrightarrow> distinct (cc_ordered cc) \<and> (\<forall>seen. cc_seen cc = Some seen \<longrightarrow> seen = set (cc_ordered cc))"

definition push_distinct :: "uchar list \<Rightarrow> uchar list \<Rightarrow> uchar list" where
  "push_distinct cs xs = fold (\<lambda>c xs. if c \<in> set xs then xs else xs @ [c]) cs xs"

lemma push_distinct_simps [simp]:
  "push_distinct [] xs = xs" "push_distinct (c # cs) xs = push_distinct cs (if c \<in> set xs then xs else xs @ [c])"
  by (simp_all add: push_distinct_def)

lemma push_distinct_append: "push_distinct (cs @ ds) xs = push_distinct ds (push_distinct cs xs)"
  by (simp add: push_distinct_def)

lemma set_push_distinct [simp]: "set (push_distinct cs xs) = set xs \<union> set cs"
  by (induction cs arbitrary: xs) auto

lemma distinct_push_distinct: "distinct xs \<Longrightarrow> distinct (push_distinct cs xs)"
  by (induction cs arbitrary: xs) auto

lemma cc_wf_new: "cc_wf (cc_with_capacity n)" "cc_ordered (cc_with_capacity n) = []"
  by (simp_all add: cc_wf_def cc_with_capacity_def)

text \<open>Whether the membership test scans or hashes makes no difference.\<close>

lemma push_unique_ok:
  assumes "cc_wf cc"
  shows "cc_wf (push_unique c cc) \<and> cc_ordered (push_unique c cc) = push_distinct [c] (cc_ordered cc)"
  using assms
  by (cases "cc_seen cc") (auto simp: cc_wf_def push_unique_def push_seen_def materialize_seen_def)

lemma push_uniques_ok:
  "cc_wf cc \<Longrightarrow> cc_wf (fold push_unique cs cc) \<and> cc_ordered (fold push_unique cs cc) = push_distinct cs (cc_ordered cc)"
  by (induction cs arbitrary: cc) (auto simp: push_unique_ok)

lemma reserve_additional_ok:
  "cc_ordered (reserve_additional n cc) = cc_ordered cc" "cc_wf (reserve_additional n cc) = cc_wf cc"
  by (simp_all add: reserve_additional_def cc_wf_def)

text \<open>The characters of a range that is narrow enough.\<close>

definition range_chars :: "uchar \<times> uchar \<Rightarrow> uchar list" where
  "range_chars r = (if fst r \<le> snd r \<and> snd r - fst r < 256 then filter is_scalar [fst r..<Suc (snd r)] else [])"

lemma fold_guard: "fold (\<lambda>c s. if P c then f c s else s) cs s = fold f (filter P cs) s"
  by (induction cs arbitrary: s) simp_all

lemma push_bounded_char_range_eq:
  "push_bounded_char_range a b cc =
     (if a \<le> b \<and> b - a < 256 then fold push_unique (range_chars (a, b)) (reserve_additional (b - a + 1) cc) else cc)"
  by (auto simp: push_bounded_char_range_def char_range_width_def max_exact_class_range_chars_def range_chars_def
      fold_guard simp del: upt_Suc)

lemma push_bounded_char_range_ok:
  assumes "cc_wf cc"
  shows "cc_wf (push_bounded_char_range a b cc) \<and>
    cc_ordered (push_bounded_char_range a b cc) = push_distinct (range_chars (a, b)) (cc_ordered cc)"
proof (cases "a \<le> b \<and> b - a < 256")
  case True
  then show ?thesis
    using push_uniques_ok [of "reserve_additional (b - a + 1) cc" "range_chars (a, b)"] assms
    unfolding push_bounded_char_range_eq by (simp only: reserve_additional_ok if_True simp_thms)
next
  case False
  then show ?thesis using assms by (auto simp: push_bounded_char_range_eq range_chars_def)
qed

lemma normalize_chars_eq: "seen = set ds \<Longrightarrow> normalize_chars cs seen ds = push_distinct cs ds"
proof (induction cs arbitrary: seen ds)
  case (Cons c cs)
  then show ?case using Cons.IH [of "insert c seen" "ds @ [c]"] by simp
qed simp

lemma normalize_alphabet_eq: "normalize_alphabet cs = push_distinct cs []"
  by (simp add: normalize_alphabet_def normalize_chars_eq)

section \<open>Successors by character\<close>

record label_successors =
  ls_slots :: "(uchar \<times> nfa_state set) list"
  ls_index_by_char :: "(uchar \<rightharpoonup> usize) option"

fun index_slots :: "(usize \<times> uchar) list \<Rightarrow> (uchar \<rightharpoonup> usize) \<Rightarrow> (uchar \<rightharpoonup> usize)" where
  "index_slots [] m = m"
| "index_slots ((slot, c) # slots) m = index_slots slots (m(c \<mapsto> slot))"

definition label_successors_new :: "uchar list \<Rightarrow> label_successors" where
  "label_successors_new candidates =
     \<lparr>ls_slots = map (\<lambda>c. (c, {})) candidates,
      ls_index_by_char =
        (if candidate_hash_threshold \<le> length candidates
         then Some (index_slots (enumerate 0 candidates) Map.empty) else None)\<rparr>"

text \<open>The first slot of a character by a scan, and the slot that \<open>slot_mut\<close> borrows.\<close>

fun slot_scan :: "(uchar \<times> nfa_state set) list \<Rightarrow> uchar \<Rightarrow> usize option" where
  "slot_scan [] c = None"
| "slot_scan ((d, S) # slots) c = (if d = c then Some 0 else map_option Suc (slot_scan slots c))"

definition slot_mut :: "label_successors \<Rightarrow> uchar \<Rightarrow> usize option" where
  "slot_mut ls c =
     (case Option.bind (ls_index_by_char ls) (\<lambda>index. index c) of
        Some i \<Rightarrow> if i < length (ls_slots ls) then Some i else None
      | None \<Rightarrow> slot_scan (ls_slots ls) c)"

definition slot_insert :: "nfa_state \<Rightarrow> usize \<Rightarrow> label_successors \<Rightarrow> label_successors" where
  "slot_insert target i ls =
     ls\<lparr>ls_slots := (ls_slots ls)[i := (fst (ls_slots ls ! i), insert target (snd (ls_slots ls ! i)))]\<rparr>"

definition insert_where :: "nfa_state \<Rightarrow> (uchar \<Rightarrow> bool) \<Rightarrow> label_successors \<Rightarrow> label_successors" where
  "insert_where target P ls =
     ls\<lparr>ls_slots := map (\<lambda>(c, S). if P c then (c, insert target S) else (c, S)) (ls_slots ls)\<rparr>"

definition collect_label_successors :: "nfa_label \<Rightarrow> nfa_state \<Rightarrow> label_successors \<Rightarrow> label_successors" where
  "collect_label_successors label target ls =
     (case label of
        CharLabel c \<Rightarrow> (case slot_mut ls c of Some i \<Rightarrow> slot_insert target i ls | None \<Rightarrow> ls)
      | ClassLabel class \<Rightarrow> insert_where target (class_matches class) ls
      | AnyLabel \<Rightarrow> insert_where target (\<lambda>_. True) ls
      | _ \<Rightarrow> ls)"

text \<open>What a label matches.\<close>

fun label_matches :: "nfa_label \<Rightarrow> uchar \<Rightarrow> bool" where
  "label_matches (CharLabel d) c = (c = d)"
| "label_matches (ClassLabel k) c = class_matches k c"
| "label_matches AnyLabel c = True"
| "label_matches _ c = False"

text \<open>The index points at the slots, whichever way they are found.\<close>

definition ls_wf :: "uchar list \<Rightarrow> label_successors \<Rightarrow> bool" where
  "ls_wf cs ls \<longleftrightarrow> map fst (ls_slots ls) = cs \<and> distinct cs \<and>
     (\<forall>index. ls_index_by_char ls = Some index \<longrightarrow> (\<forall>c i. index c = Some i \<longleftrightarrow> i < length cs \<and> cs ! i = c))"

lemma index_slots_eq:
  "index_slots (enumerate n cs) m c =
     (if c \<in> set cs then index_slots (enumerate n cs) Map.empty c else m c)"
proof (induction cs arbitrary: n m)
  case (Cons d cs)
  show ?case
    by (simp add: Cons.IH [of "Suc n" "m(d \<mapsto> n)"] Cons.IH [of "Suc n" "[d \<mapsto> n]"])
qed simp

lemma index_slots_iff:
  "distinct cs \<Longrightarrow> index_slots (enumerate n cs) Map.empty c = Some i \<longleftrightarrow>
     n \<le> i \<and> i < n + length cs \<and> cs ! (i - n) = c"
proof (induction cs arbitrary: n)
  case (Cons d cs)
  let ?fold = "\<lambda>n cs m. index_slots (enumerate n cs) m c"
  have here: "?fold n (d # cs) Map.empty = (if c \<in> set cs then ?fold (Suc n) cs Map.empty else [d \<mapsto> n] c)"
    using index_slots_eq [of "Suc n" cs "[d \<mapsto> n]" c] by simp
  have IH: "?fold (Suc n) cs Map.empty = Some i \<longleftrightarrow> Suc n \<le> i \<and> i < Suc n + length cs \<and> cs ! (i - Suc n) = c"
    using Cons.IH [of "Suc n"] Cons.prems by auto
  consider "i < n" | "i = n" | k where "i = Suc (n + k)" by (metis less_imp_Suc_add linorder_neqE_nat)
  then show ?case
  proof cases
    case 1
    then show ?thesis unfolding here using IH by simp
  next
    case 2
    then show ?thesis unfolding here using IH Cons.prems by auto
  next
    case (3 k)
    then show ?thesis unfolding here using IH by (auto simp: in_set_conv_nth)
  qed
qed simp

lemma ls_wf_new: "distinct cs \<Longrightarrow> ls_wf cs (label_successors_new cs)"
  by (auto simp: ls_wf_def label_successors_new_def comp_def index_slots_iff)

lemma slot_scan_iff:
  "distinct (map fst slots) \<Longrightarrow> slot_scan slots c = Some i \<longleftrightarrow> i < length slots \<and> fst (slots ! i) = c"
proof (induction slots arbitrary: i)
  case (Cons s slots)
  obtain d S where s: "s = (d, S)" by force
  have out: "d \<notin> fst ` set slots" using Cons.prems s by simp
  show ?case
  proof (cases i)
    case 0
    then show ?thesis by (auto simp: s)
  next
    case (Suc j)
    then show ?thesis using Cons s out by (auto simp: image_iff)
  qed
qed simp

lemma slot_mut_iff:
  assumes "ls_wf cs ls"
  shows "slot_mut ls c = Some i \<longleftrightarrow> i < length cs \<and> cs ! i = c"
proof -
  have len: "length (ls_slots ls) = length cs" and dist: "distinct (map fst (ls_slots ls))"
    using assms by (auto simp: ls_wf_def)
  have scan: "slot_scan (ls_slots ls) c = Some i \<longleftrightarrow> i < length cs \<and> cs ! i = c" for i
    using slot_scan_iff [OF dist, of c i] len assms by (auto simp: ls_wf_def)
  show ?thesis
  proof (cases "ls_index_by_char ls")
    case None
    then show ?thesis using scan by (simp add: slot_mut_def)
  next
    case (Some index)
    then have ix: "index c = Some i \<longleftrightarrow> i < length cs \<and> cs ! i = c" for i using assms by (simp add: ls_wf_def)
    show ?thesis
    proof (cases "index c")
      case None
      then show ?thesis using Some scan by (simp add: slot_mut_def)
    next
      case (Some j)
      then show ?thesis using \<open>ls_index_by_char ls = Some index\<close> ix [of j] ix [of i] len by (auto simp: slot_mut_def)
    qed
  qed
qed

lemma collect_label_successors_ok:
  assumes "ls_wf cs ls"
  shows "ls_wf cs (collect_label_successors l target ls) \<and>
    ls_slots (collect_label_successors l target ls) =
      map (\<lambda>(c, S). (c, if label_matches l c then insert target S else S)) (ls_slots ls)"
proof -
  have all: "ls_wf cs (insert_where target P ls) \<and>
      ls_slots (insert_where target P ls) = map (\<lambda>(c, S). (c, if P c then insert target S else S)) (ls_slots ls)" for P
    using assms by (auto simp: ls_wf_def insert_where_def comp_def case_prod_unfold)
  have none: "map (\<lambda>(c, S). (c, if False then insert target S else S)) (ls_slots ls) = ls_slots ls" by simp
  have char: "ls_wf cs (collect_label_successors (CharLabel d) target ls) \<and>
      ls_slots (collect_label_successors (CharLabel d) target ls) =
        map (\<lambda>(c, S). (c, if c = d then insert target S else S)) (ls_slots ls)" for d
  proof (cases "slot_mut ls d")
    case None
    then have "d \<notin> set cs" using slot_mut_iff [OF assms, of d] by (auto simp: in_set_conv_nth)
    then have "map (\<lambda>(c, S). (c, if c = d then insert target S else S)) (ls_slots ls) = ls_slots ls"
      using assms by (intro map_idI) (force simp: ls_wf_def)
    then show ?thesis using None assms by (simp add: collect_label_successors_def)
  next
    case (Some i)
    then have i: "i < length cs" "cs ! i = d" using slot_mut_iff [OF assms] by blast+
    have len: "length (ls_slots ls) = length cs" and fsts: "j < length cs \<Longrightarrow> fst (ls_slots ls ! j) = cs ! j" for j
      using assms by (auto simp: ls_wf_def)
    have "ls_slots (slot_insert target i ls) = map (\<lambda>(c, S). (c, if c = d then insert target S else S)) (ls_slots ls)"
    proof (rule nth_equalityI)
      fix j assume "j < length (ls_slots (slot_insert target i ls))"
      then have j: "j < length cs" by (simp add: slot_insert_def len)
      have "distinct cs" using assms by (simp add: ls_wf_def)
      then have "cs ! j = d \<longleftrightarrow> j = i" using i j nth_eq_iff_index_eq by blast
      then show "ls_slots (slot_insert target i ls) ! j = map (\<lambda>(c, S). (c, if c = d then insert target S else S)) (ls_slots ls) ! j"
        using j i fsts [of j] len by (auto simp: slot_insert_def case_prod_unfold nth_list_update prod_eq_iff)
    qed (simp add: slot_insert_def)
    moreover from this have "ls_wf cs (slot_insert target i ls)"
      using assms by (simp add: ls_wf_def comp_def case_prod_unfold) (simp add: slot_insert_def)
    ultimately show ?thesis using Some by (simp add: collect_label_successors_def)
  qed
  show ?thesis using all none char assms by (cases l) (simp_all add: collect_label_successors_def)
qed

text \<open>All arcs of a list of arcs, one after the other.\<close>

lemma collect_arcs_ok:
  "ls_wf cs ls \<Longrightarrow> ls_wf cs (fold (\<lambda>(l, target). collect_label_successors l target) arcs ls) \<and>
     ls_slots (fold (\<lambda>(l, target). collect_label_successors l target) arcs ls) =
       map (\<lambda>(c, S). (c, S \<union> {q. \<exists>l. (l, q) \<in> set arcs \<and> label_matches l c})) (ls_slots ls)"
proof (induction arcs arbitrary: ls)
  case (Cons arc arcs)
  obtain l target where arc: "arc = (l, target)" by force
  note one = collect_label_successors_ok [OF Cons.prems, of l target]
  show ?case
    using Cons.IH [OF one [THEN conjunct1]] one [THEN conjunct2]
    by (auto simp: arc comp_def case_prod_unfold intro!: map_cong)
qed (simp add: case_prod_unfold)

section \<open>Anchors\<close>

fun is_start_anchor :: "nfa_label \<Rightarrow> bool" where
  "is_start_anchor StartOfLine = True"
| "is_start_anchor StartOfInput = True"
| "is_start_anchor _ = False"

fun is_end_anchor :: "nfa_label \<Rightarrow> bool" where
  "is_end_anchor EndOfLine = True"
| "is_end_anchor EndOfInput = True"
| "is_end_anchor EndOfInputStrict = True"
| "is_end_anchor _ = False"

text \<open>The loop of \<open>position_anchor_closure\<close>; the head of the list is the top of the stack.\<close>

definition push_target ::
    "nfa \<Rightarrow> (nfa_label \<Rightarrow> bool) \<Rightarrow> nfa_label \<times> nfa_state \<Rightarrow> nfa_state list \<times> nfa_state set \<Rightarrow> nfa_state list \<times> nfa_state set" where
  "push_target A anchor_matches = (\<lambda>(l, to) (stack, closure).
     if (is_epsilon A l \<or> anchor_matches l) \<and> to \<notin> closure then (to # stack, insert to closure) else (stack, closure))"

lemma push_target_measure:
  "fold (push_target A m) arcs (stack, closure) = (stack', closure') \<Longrightarrow>
     length stack' + card (- closure') = length stack + card (- closure) \<and> closure \<subseteq> closure'"
proof (induction arcs arbitrary: stack closure)
  case (Cons arc arcs)
  obtain l to where arc: "arc = (l, to)" by force
  show ?case
  proof (cases "(is_epsilon A l \<or> m l) \<and> to \<notin> closure")
    case True
    have "- insert to closure = - closure - {to}" by auto
    then have "card (- closure) = Suc (card (- insert to closure))"
      using True card.remove [of "- closure" to] by simp
    then show ?thesis using Cons.IH [of "to # stack" "insert to closure"] Cons.prems True by (simp add: arc push_target_def)
  next
    case False
    then have "fold (push_target A m) arcs (stack, closure) = (stack', closure')"
      using Cons.prems unfolding arc push_target_def by auto
    then show ?thesis by (rule Cons.IH)
  qed
qed simp

lemma anchor_loop_decreases:
  "(case fold (push_target A m) arcs (stack, closure) of (stack, closure) \<Rightarrow> 2 * card (- closure) + length stack)
     < Suc (2 * card (- closure) + length stack)"
proof -
  obtain stack' closure' where f: "fold (push_target A m) arcs (stack, closure) = (stack', closure')" by force
  note facts = push_target_measure [OF f]
  then have "card (- closure') \<le> card (- closure)" by (intro card_mono) auto
  then show ?thesis using facts f by simp
qed

function anchor_loop :: "nfa \<Rightarrow> (nfa_label \<Rightarrow> bool) \<Rightarrow> nfa_state list \<Rightarrow> nfa_state set \<Rightarrow> nfa_state set" where
  "anchor_loop A m [] closure = closure"
| "anchor_loop A m (q # stack) closure =
     (case fold (push_target A m) (transitions_from A q) (stack, closure) of
        (stack', closure') \<Rightarrow> anchor_loop A m stack' closure')"
  by pat_completeness auto

termination
  by (relation "measure (\<lambda>(A, m, stack, closure). 2 * card (- closure) + length stack)")
    (auto simp: anchor_loop_decreases)

definition position_anchor_closure :: "nfa \<Rightarrow> nfa_state set \<Rightarrow> (nfa_label \<Rightarrow> bool) \<Rightarrow> nfa_state set" where
  "position_anchor_closure A initial anchor_matches = anchor_loop A anchor_matches (rev (set_iter A initial)) initial"

definition start_anchor_closure :: "nfa \<Rightarrow> nfa_state set" where
  "start_anchor_closure A = position_anchor_closure A (epsilon_closure_single A (nfa_start A)) is_start_anchor"

definition state_set_can_reach_final_through_end_anchors :: "nfa \<Rightarrow> nfa_state set \<Rightarrow> bool" where
  "state_set_can_reach_final_through_end_anchors A S =
     list_ex (nfa_is_final A) (set_iter A (position_anchor_closure A S is_end_anchor))"

subsection \<open>The closure is what can be reached\<close>

abbreviation anchor_arcs :: "nfa \<Rightarrow> (nfa_label \<Rightarrow> bool) \<Rightarrow> (nfa_state \<times> nfa_state) set" where
  "anchor_arcs A m \<equiv> arcs_where A (\<lambda>l. l = EpsilonLabel \<or> m l)"

lemma push_targets_eq:
  assumes "nfa_ok A" and "fold (push_target A m) arcs (stack, closure) = (stack', closure')"
  shows "closure' = closure \<union> {q. \<exists>l. (l, q) \<in> set arcs \<and> (l = EpsilonLabel \<or> m l)} \<and>
    set stack' \<union> closure = set stack \<union> closure' \<and> set stack \<subseteq> set stack'"
  using assms(2)
proof (induction arcs arbitrary: stack closure)
  case (Cons arc arcs)
  obtain l to where arc: "arc = (l, to)" by force
  show ?case
  proof (cases "(l = EpsilonLabel \<or> m l) \<and> to \<notin> closure")
    case True
    then have "fold (push_target A m) arcs (to # stack, insert to closure) = (stack', closure')"
      using Cons.prems by (simp add: arc push_target_def nfa_okD [OF assms(1)])
    from Cons.IH [OF this] show ?thesis using True by (auto simp: arc)
  next
    case False
    then have "fold (push_target A m) arcs (stack, closure) = (stack', closure')"
      using Cons.prems by (auto simp: arc push_target_def nfa_okD [OF assms(1)])
    from Cons.IH [OF this] show ?thesis using False by (auto simp: arc)
  qed
qed auto

lemma anchor_loop_eq:
  "nfa_ok A \<Longrightarrow> set stack \<subseteq> closure \<Longrightarrow> anchor_arcs A m `` (closure - set stack) \<subseteq> closure \<Longrightarrow>
    anchor_loop A m stack closure = (anchor_arcs A m)\<^sup>* `` closure"
proof (induction A m stack closure rule: anchor_loop.induct)
  case (1 A m closure)
  then show ?case by (simp add: Image_closed_trancl)
next
  case (2 A m q stack closure)
  obtain stack' closure' where f: "fold (push_target A m) (transitions_from A q) (stack, closure) = (stack', closure')" by force
  note p = push_targets_eq [OF "2.prems"(1) f]
  have next': "closure' = closure \<union> anchor_arcs A m `` {q}" using p by (auto simp: arcs_where_def)
  have "anchor_loop A m stack' closure' = (anchor_arcs A m)\<^sup>* `` closure'"
  proof (rule "2.IH" [OF f [symmetric] "2.prems"(1)])
    show "set stack' \<subseteq> closure'" using p "2.prems"(2) by auto
    show "anchor_arcs A m `` (closure' - set stack') \<subseteq> closure'"
    proof -
      have "closure' - set stack' \<subseteq> insert q (closure - set (q # stack))" using p by auto
      then have "anchor_arcs A m `` (closure' - set stack') \<subseteq> anchor_arcs A m `` insert q (closure - set (q # stack))"
        by (rule Image_mono [OF subset_refl])
      also have "\<dots> = anchor_arcs A m `` {q} \<union> anchor_arcs A m `` (closure - set (q # stack))" by blast
      finally show ?thesis using "2.prems"(3) next' by blast
    qed
  qed
  also have "\<dots> = (anchor_arcs A m)\<^sup>* `` closure"
  proof -
    have "q \<in> closure" using "2.prems"(2) by simp
    then have "(anchor_arcs A m)\<^sup>* `` (anchor_arcs A m `` {q}) \<subseteq> (anchor_arcs A m)\<^sup>* `` closure"
      by (auto intro: converse_rtrancl_into_rtrancl)
    then show ?thesis unfolding next' by blast
  qed
  finally show ?case using f by simp
qed

end
