(* ===== verification/Phonetic_Subset.thy ===== *)
theory Phonetic_Subset
  imports Phonetic_Nfa Interning Lazy_Wrapper
begin

text \<open>
  \<open>src/phonetic_nfa_wfst.rs\<close>: a phonetic automaton as a WFST, determinised on the fly. Its states are
  numbered sets of automaton states; expanding one collects the characters it offers, groups the
  successors by character, closes them and resolves the sets to numbers, all unknown ones under a
  single write lock. The lock itself is left out, the two phases are kept.
\<close>

section \<open>The registry of state sets\<close>

record registered_nfa_state =
  rn_state_set :: "nfa_state set"
  rn_is_final :: bool

record nfa_registry =
  nr_state_to_id :: "state_set_key \<rightharpoonup> state_id"
  nr_id_to_state :: "registered_nfa_state list"

definition phonetic_usize_from_state_id :: "state_id \<Rightarrow> usize" where
  "phonetic_usize_from_state_id state = (case usize_try_from_u32 state of Some n \<Rightarrow> n | None \<Rightarrow> usize_max)"

definition nreg_new :: "nfa \<Rightarrow> nfa_state set \<Rightarrow> bool \<Rightarrow> nfa_registry" where
  "nreg_new A initial_closure initial_is_final =
     \<lparr>nr_state_to_id = [state_set_to_key A initial_closure \<mapsto> 0],
      nr_id_to_state = [\<lparr>rn_state_set = initial_closure, rn_is_final = initial_is_final\<rparr>]\<rparr>"

definition nreg_get :: "nfa_registry \<Rightarrow> state_id \<Rightarrow> registered_nfa_state option" where
  "nreg_get r state = nth_opt (nr_id_to_state r) (phonetic_usize_from_state_id state)"

definition nreg_id_for_key :: "nfa_registry \<Rightarrow> state_set_key \<Rightarrow> state_id option" where
  "nreg_id_for_key r key = nr_state_to_id r key"

definition nreg_get_or_create ::
    "state_set_key \<Rightarrow> nfa_state set \<times> bool \<Rightarrow> nfa_registry \<Rightarrow> state_id option \<times> nfa_registry" where
  "nreg_get_or_create key v r =
     (case nreg_id_for_key r key of
        Some i \<Rightarrow> (Some i, r)
      | None \<Rightarrow>
          (case next_nfa_state_id (length (nr_id_to_state r)) of
             None \<Rightarrow> (None, r)
           | Some i \<Rightarrow>
               (Some i, r\<lparr>nr_state_to_id := (nr_state_to_id r)(key \<mapsto> i),
                          nr_id_to_state := nr_id_to_state r @ [\<lparr>rn_state_set = fst v, rn_is_final = snd v\<rparr>]\<rparr>)))"

definition nreg_len :: "nfa_registry \<Rightarrow> usize" where
  "nreg_len r = length (nr_id_to_state r)"

definition nreg_wf :: "nfa_registry \<Rightarrow> bool" where
  "nreg_wf r \<longleftrightarrow> dense_map (nr_state_to_id r) (length (nr_id_to_state r)) \<and> length (nr_id_to_state r) \<le> 2 ^ 32"

lemma phonetic_usize_from_state_id [simp]: "phonetic_usize_from_state_id state = unat state"
  by (simp add: phonetic_usize_from_state_id_def)

interpretation nreg: interner nreg_id_for_key nreg_get nreg_len nreg_get_or_create
  "\<lambda>k v. \<lparr>rn_state_set = fst v, rn_is_final = snd v\<rparr>" nreg_wf "2 ^ 32"
proof unfold_locales
  fix s :: nfa_registry and k k' :: state_set_key and v :: "nfa_state set \<times> bool" and i :: u32
  note defs = nreg_wf_def nreg_id_for_key_def nreg_get_def nreg_len_def nreg_get_or_create_def next_nfa_state_id_def
    u32_try_from_def
  show "nreg_wf s \<Longrightarrow> nreg_wf (snd (nreg_get_or_create k v s))"
    using dense_map_insert [of "nr_state_to_id s" "length (nr_id_to_state s)" k] by (auto simp: defs split: option.split)
  show "nreg_wf s \<Longrightarrow> nreg_len s \<le> 2 ^ 32" by (simp add: defs)
  show "nreg_wf s \<Longrightarrow> nreg_id_for_key s k = Some i \<Longrightarrow> unat i < nreg_len s" by (auto simp: defs dest: dense_map_less)
  show "nreg_wf s \<Longrightarrow> nreg_id_for_key s k = Some i \<Longrightarrow> nreg_id_for_key s k' = Some i \<Longrightarrow> k = k'"
    by (auto simp: defs dest: dense_map_inj)
  show "nreg_wf s \<Longrightarrow> unat i < nreg_len s \<Longrightarrow> \<exists>k. nreg_id_for_key s k = Some i" by (auto simp: defs dest: dense_map_surj)
  show "nreg_wf s \<Longrightarrow> (nreg_get s i = None) = (nreg_len s \<le> unat i)" by (simp add: defs)
  show "nreg_wf s \<Longrightarrow> nreg_id_for_key s k = Some i \<Longrightarrow> nreg_get_or_create k v s = (Some i, s)" by (simp add: defs)
  show "nreg_wf s \<Longrightarrow> nreg_id_for_key s k = None \<Longrightarrow> nreg_len s = 2 ^ 32 \<Longrightarrow> nreg_get_or_create k v s = (None, s)"
    by (simp add: defs)
  show "nreg_wf s \<Longrightarrow> nreg_id_for_key s k = None \<Longrightarrow> nreg_len s < 2 ^ 32 \<Longrightarrow>
      fst (nreg_get_or_create k v s) = Some (of_nat (nreg_len s))" by (simp add: defs)
  show "nreg_wf s \<Longrightarrow> nreg_id_for_key s k = None \<Longrightarrow> nreg_len s < 2 ^ 32 \<Longrightarrow>
      nreg_len (snd (nreg_get_or_create k v s)) = Suc (nreg_len s)" by (simp add: defs)
  show "nreg_wf s \<Longrightarrow> nreg_id_for_key s k = None \<Longrightarrow> nreg_len s < 2 ^ 32 \<Longrightarrow>
      nreg_id_for_key (snd (nreg_get_or_create k v s)) = (nreg_id_for_key s)(k \<mapsto> of_nat (nreg_len s))"
    by (auto simp: defs fun_eq_iff)
  show "nreg_wf s \<Longrightarrow> nreg_id_for_key s k = None \<Longrightarrow> nreg_len s < 2 ^ 32 \<Longrightarrow>
      nreg_get (snd (nreg_get_or_create k v s)) = (nreg_get s)(of_nat (nreg_len s) \<mapsto> \<lparr>rn_state_set = fst v, rn_is_final = snd v\<rparr>)"
    using nth_opt_snoc [of "nr_id_to_state s" "\<lparr>rn_state_set = fst v, rn_is_final = snd v\<rparr>"]
    by (simp add: defs fun_eq_iff)
qed simp

section \<open>The automaton\<close>

text \<open>\<open>PhoneticNfaWfst\<close>; the cache is paired with it, as for every wrapper.\<close>

record phonetic_nfa_wfst =
  pn_nfa :: nfa
  pn_phonetic_weight :: f64
  pn_alphabet :: "uchar list"
  pn_registry :: nfa_registry

definition pn_max_cache_size :: usize where
  "pn_max_cache_size = 50000"

definition pn_from_validated :: "nfa \<Rightarrow> f64 \<Rightarrow> uchar list \<Rightarrow> phonetic_nfa_wfst" where
  "pn_from_validated A phonetic_weight alphabet =
     (let initial_closure = start_anchor_closure A;
          initial_is_final = state_set_can_reach_final_through_end_anchors A initial_closure
      in \<lparr>pn_nfa = A, pn_phonetic_weight = phonetic_weight, pn_alphabet = normalize_alphabet alphabet,
          pn_registry = nreg_new A initial_closure initial_is_final\<rparr>)"

definition pn_with_phonetic_weight_and_alphabet ::
    "nfa \<Rightarrow> f64 \<Rightarrow> uchar list \<Rightarrow> invalid_weight_error + phonetic_nfa_wfst" where
  "pn_with_phonetic_weight_and_alphabet A phonetic_weight alphabet =
     (case validate_finite_nonnegative_weight ''phonetic_weight'' phonetic_weight of
        Inl e \<Rightarrow> Inl e
      | Inr w \<Rightarrow> Inr (pn_from_validated A w alphabet))"

definition pn_new :: "nfa \<Rightarrow> phonetic_nfa_wfst" where
  "pn_new A = pn_from_validated A (F64 0) default_phonetic_nfa_alphabet"

definition pn_with_phonetic_weight :: "nfa \<Rightarrow> f64 \<Rightarrow> invalid_weight_error + phonetic_nfa_wfst" where
  "pn_with_phonetic_weight A phonetic_weight =
     pn_with_phonetic_weight_and_alphabet A phonetic_weight default_phonetic_nfa_alphabet"

definition pn_with_alphabet :: "nfa \<Rightarrow> uchar list \<Rightarrow> phonetic_nfa_wfst" where
  "pn_with_alphabet A alphabet = pn_from_validated A (F64 0) alphabet"

definition pn_is_registered_state :: "phonetic_nfa_wfst \<Rightarrow> state_id \<Rightarrow> bool" where
  "pn_is_registered_state w state \<longleftrightarrow> phonetic_usize_from_state_id state < nreg_len (pn_registry w)"

definition pn_registered_state_is_final :: "phonetic_nfa_wfst \<Rightarrow> state_id \<Rightarrow> bool" where
  "pn_registered_state_is_final w state =
     (case nreg_get (pn_registry w) state of Some x \<Rightarrow> rn_is_final x | None \<Rightarrow> False)"

subsection \<open>The characters a state offers\<close>

definition collect_char_class_candidates :: "phonetic_nfa_wfst \<Rightarrow> char_class_char \<Rightarrow> candidate_chars \<Rightarrow> candidate_chars" where
  "collect_char_class_candidates w class chars =
     (let chars' = fold (\<lambda>c chars. if class_matches class c then push_unique c chars else chars) (pn_alphabet w) chars
      in if \<not> class_negated class then fold (\<lambda>(first, last'). push_bounded_char_range first last') (class_ranges class) chars'
         else chars')"

definition collect_label_candidates :: "phonetic_nfa_wfst \<Rightarrow> nfa_label \<Rightarrow> candidate_chars \<Rightarrow> candidate_chars" where
  "collect_label_candidates w label chars =
     (case label of
        CharLabel c \<Rightarrow> push_unique c chars
      | ClassLabel class \<Rightarrow> collect_char_class_candidates w class chars
      | AnyLabel \<Rightarrow> fold push_unique (pn_alphabet w) chars
      | _ \<Rightarrow> chars)"

definition state_candidates :: "phonetic_nfa_wfst \<Rightarrow> nfa_state set \<Rightarrow> candidate_chars" where
  "state_candidates w S =
     fold (\<lambda>q. fold (\<lambda>(l, to) chars. if consumes_input (pn_nfa w) l then collect_label_candidates w l chars else chars)
                 (transitions_from (pn_nfa w) q))
       (set_iter (pn_nfa w) S) (cc_with_capacity (length (pn_alphabet w)))"

definition state_successors :: "phonetic_nfa_wfst \<Rightarrow> nfa_state set \<Rightarrow> uchar list \<Rightarrow> label_successors" where
  "state_successors w S chars =
     fold (\<lambda>q. fold (\<lambda>(l, to). collect_label_successors l to) (transitions_from (pn_nfa w) q))
       (set_iter (pn_nfa w) S) (label_successors_new chars)"

subsection \<open>Targets\<close>

type_synonym pending_target = "uchar \<times> nfa_state set \<times> state_set_key"

definition pending_targets :: "nfa \<Rightarrow> (uchar \<times> nfa_state set) list \<Rightarrow> pending_target list" where
  "pending_targets A slots =
     List.map_filter (\<lambda>(c, next_states).
       if next_states = {} then None
       else (let next_closure = epsilon_closure A next_states
             in Some (c, next_closure, state_set_to_key A next_closure))) slots"

text \<open>The read phase: what is known, and which places are missing.\<close>

fun resolve_known ::
    "nfa_registry \<Rightarrow> pending_target list \<Rightarrow> (uchar \<times> state_id option) list \<Rightarrow> (usize \<times> nfa_state set \<times> state_set_key) list \<Rightarrow>
     (uchar \<times> state_id option) list \<times> (usize \<times> nfa_state set \<times> state_set_key) list" where
  "resolve_known r [] resolved missing = (resolved, missing)"
| "resolve_known r ((c, S, key) # pending) resolved missing =
     (case nreg_id_for_key r key of
        Some target \<Rightarrow> resolve_known r pending (resolved @ [(c, Some target)]) missing
      | None \<Rightarrow> resolve_known r pending (resolved @ [(c, None)]) (missing @ [(length resolved, S, key)]))"

text \<open>Each missing key once, with its finality, and who uses it.\<close>

fun unique_targets ::
    "nfa \<Rightarrow> (usize \<times> nfa_state set \<times> state_set_key) list \<Rightarrow> (state_set_key \<rightharpoonup> usize) \<Rightarrow>
     (nfa_state set \<times> state_set_key \<times> bool) list \<Rightarrow> (usize \<times> usize) list \<Rightarrow>
     (nfa_state set \<times> state_set_key \<times> bool) list \<times> (usize \<times> usize) list" where
  "unique_targets A [] index unique uses = (unique, uses)"
| "unique_targets A ((i, S, key) # missing) index unique uses =
     (case index key of
        Some u \<Rightarrow> unique_targets A missing index unique (uses @ [(i, u)])
      | None \<Rightarrow>
          unique_targets A missing (index(key \<mapsto> length unique))
            (unique @ [(S, key, state_set_can_reach_final_through_end_anchors A S)]) (uses @ [(i, length unique)]))"

fun patch_targets ::
    "state_id option list \<Rightarrow> (usize \<times> usize) list \<Rightarrow> (uchar \<times> state_id option) list \<Rightarrow> (uchar \<times> state_id option) list" where
  "patch_targets ids [] resolved = resolved"
| "patch_targets ids ((i, u) # uses) resolved =
     (case Option.bind (nth_opt ids u) (\<lambda>x. x) of
        None \<Rightarrow> patch_targets ids uses resolved
      | Some target \<Rightarrow>
          patch_targets ids uses (if i < length resolved then resolved[i := (fst (resolved ! i), Some target)] else resolved))"

definition resolve_transition_targets ::
    "nfa \<Rightarrow> pending_target list \<Rightarrow> nfa_registry \<Rightarrow> (uchar \<times> state_id option) list \<times> nfa_registry" where
  "resolve_transition_targets A pending r =
     (case resolve_known r pending [] [] of
        (resolved, missing) \<Rightarrow>
          if missing = [] then (resolved, r)
          else (case unique_targets A missing Map.empty [] [] of
                  (unique, uses) \<Rightarrow>
                    (case intern_seq nreg_get_or_create (map (\<lambda>(S, key, final). (key, S, final)) unique) r of
                       (ids, r') \<Rightarrow> (patch_targets ids uses resolved, r'))))"

subsection \<open>Expansion\<close>

definition compute_nfa_transitions ::
    "phonetic_nfa_wfst \<Rightarrow> state_id \<Rightarrow> (bool \<times> weight \<times> transition list) \<times> phonetic_nfa_wfst" where
  "compute_nfa_transitions w state =
     (case nreg_get (pn_registry w) state of
        None \<Rightarrow> ((False, tropical_zero, []), w)
      | Some registered \<Rightarrow>
          (let chars = cc_ordered (state_candidates w (rn_state_set registered));
               slots = ls_slots (state_successors w (rn_state_set registered) chars)
           in case resolve_transition_targets (pn_nfa w) (pending_targets (pn_nfa w) slots) (pn_registry w) of
                (resolved, r') \<Rightarrow>
                  ((rn_is_final registered, if rn_is_final registered then tropical_one else tropical_zero,
                    List.map_filter (\<lambda>(c, target).
                      map_option (\<lambda>to. mk_transition state (Some c) (Some c) to (pn_phonetic_weight w)) target) resolved),
                   w\<lparr>pn_registry := r'\<rparr>)))"

definition pn_expand_state :: "phonetic_nfa_wfst \<Rightarrow> state_id \<Rightarrow> expansion \<times> phonetic_nfa_wfst" where
  "pn_expand_state w state =
     (if \<not> pn_is_registered_state w state then (Failed (InvalidState state), w)
      else (case compute_nfa_transitions w state of
              ((final, fw, ts), w') \<Rightarrow> (if final then final_state fw ts else non_final ts, w')))"

type_synonym cached_phonetic_nfa = "cached_char_state lazy_cache \<times> phonetic_nfa_wfst"

definition pn_ensure_state ::
    "state_id \<Rightarrow> cached_phonetic_nfa \<Rightarrow> (expansion_error + expansion_status) \<times> cached_phonetic_nfa" where
  "pn_ensure_state state = (\<lambda>(cache, w).
     (case touch_if_cached state cache of
        (True, cache') \<Rightarrow> (cached_char_state_status cache' state, cache', w)
      | (False, cache') \<Rightarrow>
          if \<not> pn_is_registered_state w state then (Inl (invalid_state_error state), cache', w)
          else (case compute_nfa_transitions w state of
                  ((final, fw, ts), w') \<Rightarrow>
                    (case cache_char_state_expansion cache' state (if final then final_state fw ts else non_final ts) of
                       (r, cache'') \<Rightarrow> (r, cache'', w')))))"

definition pn_uncached_weight :: "phonetic_nfa_wfst \<Rightarrow> state_id \<Rightarrow> weight option" where
  "pn_uncached_weight w state = (if pn_registered_state_is_final w state then Some tropical_one else None)"

definition pn_is_final :: "cached_phonetic_nfa \<Rightarrow> state_id \<Rightarrow> bool" where
  "pn_is_final cw state =
     (case cache_get (fst cw) state of Some x \<Rightarrow> cs_final x | None \<Rightarrow> pn_registered_state_is_final (snd cw) state)"

definition pn_final_weight :: "cached_phonetic_nfa \<Rightarrow> state_id \<Rightarrow> weight" where
  "pn_final_weight cw state =
     (case cache_get (fst cw) state of
        Some x \<Rightarrow> cs_weight x
      | None \<Rightarrow> if pn_registered_state_is_final (snd cw) state then tropical_one else tropical_zero)"

definition pn_transitions :: "cached_phonetic_nfa \<Rightarrow> state_id \<Rightarrow> transition list" where
  "pn_transitions cw state = (case cache_get (fst cw) state of Some x \<Rightarrow> cs_transitions x | None \<Rightarrow> [])"

definition pn_transitions_lazy :: "state_id \<Rightarrow> cached_phonetic_nfa \<Rightarrow> transition list \<times> cached_phonetic_nfa" where
  "pn_transitions_lazy state cw = (case pn_ensure_state state cw of (_, cw') \<Rightarrow> (pn_transitions cw' state, cw'))"

definition pn_num_states :: "phonetic_nfa_wfst \<Rightarrow> usize" where
  "pn_num_states w = nreg_len (pn_registry w)"

definition pn_num_states_hint :: "phonetic_nfa_wfst \<Rightarrow> usize option" where
  "pn_num_states_hint w = Some (phonetic_nfa_state_hint (nfa_num_states (pn_nfa w)) (nreg_len (pn_registry w)))"

end
