(* ===== verification/Phonetic_Resolve.thy ===== *)
theory Phonetic_Resolve
  imports Phonetic_Subset
begin

text \<open>
  Resolving a batch of state sets in two phases gives the numbers and the registry that interning them
  one by one gives; expansions therefore keep the registry well formed and never change an answer.
\<close>

section \<open>The two phases\<close>

definition target_kv :: "nfa \<Rightarrow> nfa_state set \<times> state_set_key \<Rightarrow> state_set_key \<times> nfa_state set \<times> bool" where
  "target_kv A = (\<lambda>(S, key). (key, S, state_set_can_reach_final_through_end_anchors A S))"

lemma resolve_known_eq:
  "resolve_known r pending resolved missing =
     (resolved @ map (\<lambda>(c, S, key). (c, nreg_id_for_key r key)) pending,
      missing @ filter (\<lambda>(i, S, key). nreg_id_for_key r key = None) (enumerate (length resolved) (map snd pending)))"
  by (induction r pending resolved missing rule: resolve_known.induct) (auto split: option.split)

text \<open>What is left to intern after removing repetitions, and the places it is used at.\<close>

lemma unique_targets_ok:
  assumes "unique_targets A missing index unique uses = (unique', uses')" and "nreg_wf r"
    and "\<forall>k u. index k = Some u \<longrightarrow> u < length unique \<and> fst (snd (unique ! u)) = k"
  shows "(\<exists>more us. unique' = unique @ more \<and> uses' = uses @ us \<and>
      list_all2 (\<lambda>(i, S, k) (i', u). i' = i \<and> u < length unique' \<and> fst (snd (unique' ! u)) = k) missing us) \<and>
    snd (intern_seq nreg_get_or_create (map (\<lambda>(S, key, final). (key, S, final)) unique') r) =
      snd (intern_seq nreg_get_or_create (map (\<lambda>(S, key, final). (key, S, final)) unique @ map (target_kv A \<circ> snd) missing) r)"
  using assms
proof (induction A missing index unique uses rule: unique_targets.induct)
  case (1 A index unique uses)
  then show ?case by auto
next
  case (2 A i S key missing index unique uses)
  show ?case
  proof (cases "index key")
    case (Some u)
    let ?kv = "\<lambda>(S, key, final). (key, S, final)"
    have u: "u < length unique" "fst (snd (unique ! u)) = key" using "2.prems"(3) Some by blast+
    have "unique_targets A missing index unique (uses @ [(i, u)]) = (unique', uses')" using "2.prems"(1) Some by simp
    note IH = "2.IH"(2) [OF Some this "2.prems"(2,3)]
    then obtain more us where m: "unique' = unique @ more" "uses' = (uses @ [(i, u)]) @ us"
      "list_all2 (\<lambda>(i, S, k) (i', u). i' = i \<and> u < length unique' \<and> fst (snd (unique' ! u)) = k) missing us" by blast
    have here: "u < length unique' \<and> fst (snd (unique' ! u)) = key" using u m(1) by (simp add: nth_append)
    have "key \<in> fst ` set (map ?kv unique)" using u by (force simp: case_prod_unfold in_set_conv_nth image_iff)
    then have "snd (intern_seq nreg_get_or_create (map ?kv unique @ target_kv A (S, key) # map (target_kv A \<circ> snd) missing) r) =
        snd (intern_seq nreg_get_or_create (map ?kv unique @ map (target_kv A \<circ> snd) missing) r)"
      unfolding target_kv_def prod.case by (rule nreg.seq_skip_repeated [OF "2.prems"(2)])
    then show ?thesis using IH m here by (intro conjI exI [of _ more] exI [of _ "(i, u) # us"]) (simp_all add: comp_def)
  next
    case None
    let ?new = "(S, key, state_set_can_reach_final_through_end_anchors A S)"
    have t: "unique_targets A missing (index(key \<mapsto> length unique)) (unique @ [?new]) (uses @ [(i, length unique)]) = (unique', uses')"
      using "2.prems"(1) None by simp
    have ix: "\<forall>k u. (index(key \<mapsto> length unique)) k = Some u \<longrightarrow> u < length (unique @ [?new]) \<and> fst (snd ((unique @ [?new]) ! u)) = k"
      using "2.prems"(3) by (auto simp: nth_append less_Suc_eq)
    note IH = "2.IH"(1) [OF None t "2.prems"(2) ix]
    then obtain more us where m: "unique' = (unique @ [?new]) @ more" "uses' = (uses @ [(i, length unique)]) @ us"
      "list_all2 (\<lambda>(i, S, k) (i', u). i' = i \<and> u < length unique' \<and> fst (snd (unique' ! u)) = k) missing us" by blast
    have "length unique < length unique' \<and> fst (snd (unique' ! length unique)) = key" using m(1) by (simp add: nth_append)
    then show ?thesis using IH m
      by (intro conjI exI [of _ "?new # more"] exI [of _ "(i, length unique) # us"]) (simp_all add: target_kv_def)
  qed
qed

lemma patch_targets_ok:
  assumes "\<forall>(i, u) \<in> set uses. i < length R \<and> u < length ids \<and> ids ! u = snd (R ! i)" and "length resolved = length R"
    and "\<forall>j < length R. fst (resolved ! j) = fst (R ! j) \<and>
           (snd (resolved ! j) = snd (R ! j) \<or> snd (resolved ! j) = None \<and> j \<in> fst ` set uses)"
  shows "patch_targets ids uses resolved = R"
  using assms
proof (induction ids uses resolved rule: patch_targets.induct)
  case (1 ids resolved)
  then show ?case by (auto intro!: nth_equalityI prod_eqI)
next
  case (2 ids i u uses resolved)
  have iu: "i < length R" "u < length ids" "ids ! u = snd (R ! i)" using "2.prems"(1) by simp_all
  then have nth: "Option.bind (nth_opt ids u) (\<lambda>x. x) = snd (R ! i)" by (simp add: nth_opt_def)
  have rest: "\<forall>(i, u) \<in> set uses. i < length R \<and> u < length ids \<and> ids ! u = snd (R ! i)" using "2.prems"(1) by simp
  show ?case
  proof (cases "snd (R ! i)")
    case None
    have "\<forall>j < length R. fst (resolved ! j) = fst (R ! j) \<and>
        (snd (resolved ! j) = snd (R ! j) \<or> snd (resolved ! j) = None \<and> j \<in> fst ` set uses)"
      using "2.prems"(3) None by auto
    then show ?thesis using "2.IH"(1) [OF _ rest "2.prems"(2)] None nth by simp
  next
    case (Some target)
    let ?res = "resolved[i := (fst (resolved ! i), Some target)]"
    have "\<forall>j < length R. fst (?res ! j) = fst (R ! j) \<and>
        (snd (?res ! j) = snd (R ! j) \<or> snd (?res ! j) = None \<and> j \<in> fst ` set uses)"
      using "2.prems"(2,3) Some iu(1) by (auto simp: nth_list_update)
    then show ?thesis using "2.IH"(2) [of target] rest "2.prems"(2) Some nth iu(1) by simp
  qed
qed

text \<open>Resolving a batch is interning it one by one.\<close>

lemma resolve_eq_intern:
  assumes wf: "nreg_wf r"
  shows "resolve_transition_targets A pending r =
    (zip (map fst pending) (fst (intern_seq nreg_get_or_create (map (target_kv A \<circ> snd) pending) r)),
     snd (intern_seq nreg_get_or_create (map (target_kv A \<circ> snd) pending) r))"
proof -
  let ?kvs = "map (target_kv A \<circ> snd) pending"
  let ?r = "snd (intern_seq nreg_get_or_create ?kvs r)"
  let ?resolved = "map (\<lambda>(c, S, key). (c, nreg_id_for_key r key)) pending"
  let ?missing = "filter (\<lambda>(i, S, key). nreg_id_for_key r key = None) (enumerate 0 (map snd pending))"
  let ?R = "map (\<lambda>(c, S, key). (c, nreg_id_for_key ?r key)) pending"
  have ids: "fst (intern_seq nreg_get_or_create ?kvs r) = map (\<lambda>p. nreg_id_for_key ?r (snd (snd p))) pending"
    unfolding nreg.seq_results [OF wf] by (simp add: target_kv_def comp_def case_prod_unfold)
  have zip: "zip (map fst pending) (map (\<lambda>p. nreg_id_for_key ?r (snd (snd p))) pending) = ?R"
    by (simp add: zip_map_map zip_same_conv_map case_prod_unfold)
  have known: "resolve_known r pending [] [] = (?resolved, ?missing)" by (simp add: resolve_known_eq)
  have kv: "map (target_kv A \<circ> snd) ?missing = filter (\<lambda>kv. \<not> nreg_id_for_key r (fst kv) \<noteq> None) ?kvs"
  proof -
    have "map (target_kv A \<circ> snd) (filter (\<lambda>(i, S, key). nreg_id_for_key r key = None) (enumerate n ps)) =
        filter (\<lambda>kv. \<not> nreg_id_for_key r (fst kv) \<noteq> None) (map (target_kv A) ps)" for n ps
      by (induction ps arbitrary: n) (auto simp: target_kv_def)
    from this [of 0 "map snd pending"] show ?thesis by (simp add: comp_def)
  qed
  have same: "snd (intern_seq nreg_get_or_create (map (target_kv A \<circ> snd) ?missing) r) = ?r"
    unfolding kv by (rule nreg.seq_skip_known [OF wf]) simp
  have stable: "nreg_id_for_key r key \<noteq> None \<Longrightarrow> nreg_id_for_key ?r key = nreg_id_for_key r key" for key
    using nreg.find_stable_seq [OF wf] by fastforce
  have j_missing: "(j, snd (pending ! j)) \<in> set ?missing \<longleftrightarrow> nreg_id_for_key r (snd (snd (pending ! j))) = None" if "j < length pending" for j
    using that by (auto simp: in_set_enumerate_eq case_prod_unfold)
  show ?thesis
  proof (cases "?missing = []")
    case True
    then have "nreg_id_for_key r (snd (snd (pending ! j))) \<noteq> None" if "j < length pending" for j using j_missing [OF that] by simp
    then have "?resolved = ?R" using stable by (intro nth_equalityI) (auto simp: case_prod_unfold)
    moreover have "?r = r" using same True by simp
    ultimately show ?thesis using True known ids zip by (simp add: resolve_transition_targets_def)
  next
    case False
    obtain unique uses where u: "unique_targets A ?missing Map.empty [] [] = (unique, uses)" by force
    let ?us = "map (\<lambda>(S, key, final). (key, S, final)) unique"
    note uok = unique_targets_ok [OF u wf]
    have reg: "snd (intern_seq nreg_get_or_create ?us r) = ?r" using uok same by simp
    have uids: "fst (intern_seq nreg_get_or_create ?us r) = map (\<lambda>x. nreg_id_for_key ?r (fst (snd x))) unique"
      unfolding nreg.seq_results [OF wf] reg by (simp add: comp_def case_prod_unfold)
    have uses: "list_all2 (\<lambda>(i, S, k) (i', u). i' = i \<and> u < length unique \<and> fst (snd (unique ! u)) = k) ?missing uses" using uok by simp
    have "patch_targets (map (\<lambda>x. nreg_id_for_key ?r (fst (snd x))) unique) uses ?resolved = ?R"
    proof (rule patch_targets_ok)
      show "\<forall>(i, u) \<in> set uses. i < length ?R \<and> u < length (map (\<lambda>x. nreg_id_for_key ?r (fst (snd x))) unique) \<and>
          map (\<lambda>x. nreg_id_for_key ?r (fst (snd x))) unique ! u = snd (?R ! i)"
      proof (clarify, goal_cases)
        case (1 i u)
        then obtain n where n: "n < length uses" "uses ! n = (i, u)" by (auto simp: in_set_conv_nth)
        then have nm: "n < length ?missing" using list_all2_lengthD [OF uses] by simp
        obtain i' S k where m: "?missing ! n = (i', S, k)" by (metis prod_cases3)
        have rel: "i = i'" "u < length unique" "fst (snd (unique ! u)) = k" using list_all2_nthD2 [OF uses n(1)] n(2) m by simp_all
        have "(i', S, k) \<in> set ?missing" using nm m by (metis nth_mem)
        then have "i' < length pending" "snd (pending ! i') = (S, k)" by (auto simp: in_set_enumerate_eq)
        then show ?case using rel by (simp add: case_prod_unfold)
      qed
      show "\<forall>j < length ?R. fst (?resolved ! j) = fst (?R ! j) \<and>
          (snd (?resolved ! j) = snd (?R ! j) \<or> snd (?resolved ! j) = None \<and> j \<in> fst ` set uses)"
      proof (intro allI impI)
        fix j assume "j < length ?R"
        then have j: "j < length pending" by simp
        have fsts: "fst ` set uses = fst ` set ?missing"
        proof -
          have "map fst uses = map fst ?missing" using uses by (induction rule: list_all2_induct) auto
          then show ?thesis by (metis list.set_map)
        qed
        show "fst (?resolved ! j) = fst (?R ! j) \<and>
            (snd (?resolved ! j) = snd (?R ! j) \<or> snd (?resolved ! j) = None \<and> j \<in> fst ` set uses)"
        proof (cases "nreg_id_for_key r (snd (snd (pending ! j)))")
          case None
          then have "j \<in> fst ` set uses" unfolding fsts using j_missing [OF j] by force
          then show ?thesis using None j by (simp add: case_prod_unfold)
        next
          case (Some i)
          then show ?thesis using j stable [of "snd (snd (pending ! j))"] by (simp add: case_prod_unfold)
        qed
      qed
    qed simp
    then show ?thesis
      using False known u uids reg ids zip by (simp add: resolve_transition_targets_def case_prod_unfold prod_eq_iff)
  qed
qed

end
