(* ===== verification/Phonetic_Language.thy ===== *)
theory Phonetic_Language
  imports Phonetic_Resolve
begin

text \<open>
  What the phonetic WFST accepts: the words that the automaton accepts between its anchors, each at the
  phonetic weight per character. Expansion is the subset construction, restricted to the characters a
  state offers; the registry only grows, and the cache shows what the automaton computes.
\<close>

section \<open>One expansion\<close>

definition char_arcs :: "nfa \<Rightarrow> uchar \<Rightarrow> (nfa_state \<times> nfa_state) set" where
  "char_arcs A c = arcs_where A (\<lambda>l. label_matches l c)"

abbreviation eps_closed :: "nfa \<Rightarrow> nfa_state set \<Rightarrow> nfa_state set" where
  "eps_closed A S \<equiv> (eps_arcs A)\<^sup>* `` S"

definition after_char :: "nfa \<Rightarrow> nfa_state set \<Rightarrow> uchar \<Rightarrow> nfa_state set" where
  "after_char A S c = eps_closed A (char_arcs A c `` S)"

text \<open>The characters a label offers: exact ones, those of the alphabet, and those of narrow ranges.\<close>

fun label_offers :: "uchar list \<Rightarrow> nfa_label \<Rightarrow> uchar \<Rightarrow> bool" where
  "label_offers alphabet (CharLabel d) c = (c = d)"
| "label_offers alphabet (ClassLabel k) c =
     (c \<in> set alphabet \<and> class_matches k c \<or> \<not> class_negated k \<and> (\<exists>r \<in> set (class_ranges k). c \<in> set (range_chars r)))"
| "label_offers alphabet AnyLabel c = (c \<in> set alphabet)"
| "label_offers alphabet _ c = False"

definition offered :: "nfa \<Rightarrow> uchar list \<Rightarrow> nfa_state set \<Rightarrow> uchar \<Rightarrow> bool" where
  "offered A alphabet S c \<longleftrightarrow> (\<exists>q \<in> S. \<exists>(l, to) \<in> set (transitions_from A q). label_offers alphabet l c)"

definition adds :: "(candidate_chars \<Rightarrow> candidate_chars) \<Rightarrow> uchar set \<Rightarrow> bool" where
  "adds f D \<longleftrightarrow> (\<forall>cc. cc_wf cc \<longrightarrow> cc_wf (f cc) \<and> set (cc_ordered (f cc)) = set (cc_ordered cc) \<union> D)"

lemma adds_fold: "(\<forall>x \<in> set xs. adds (f x) (D x)) \<Longrightarrow> adds (fold f xs) (\<Union>x \<in> set xs. D x)"
  by (induction xs) (auto simp: adds_def)

lemma adds_simps:
  "adds (push_unique c) {c}" "adds (\<lambda>cc. cc) {}" "adds (push_bounded_char_range a b) (set (range_chars (a, b)))"
  by (auto simp: adds_def push_unique_ok push_bounded_char_range_ok)

lemma adds_comp: "adds f D \<Longrightarrow> adds g E \<Longrightarrow> adds (\<lambda>cc. g (f cc)) (D \<union> E)"
  by (auto simp: adds_def)

lemma adds_if: "adds f D \<Longrightarrow> adds (\<lambda>cc. if P then f cc else cc) (if P then D else {})"
  by (simp add: adds_def)

lemma adds_label: "adds (collect_label_candidates w l) {c. label_offers (pn_alphabet w) l c}"
proof (cases l)
  case (ClassLabel k)
  let ?alpha = "\<Union>c \<in> set (pn_alphabet w). if class_matches k c then {c} else {}"
  let ?ranges = "\<Union>r \<in> set (class_ranges k). set (range_chars r)"
  have "adds (fold (\<lambda>c chars. if class_matches k c then push_unique c chars else chars) (pn_alphabet w)) ?alpha"
    by (rule adds_fold) (auto intro: adds_if adds_simps)
  moreover have "adds (fold (\<lambda>(first, last'). push_bounded_char_range first last') (class_ranges k)) ?ranges"
    by (rule adds_fold) (auto intro: adds_simps)
  ultimately have "adds (collect_label_candidates w l) (?alpha \<union> (if \<not> class_negated k then ?ranges else {}))"
    unfolding collect_label_candidates_def collect_char_class_candidates_def ClassLabel nfa_label.case Let_def
    by (intro adds_comp adds_if)
  moreover have "?alpha \<union> (if \<not> class_negated k then ?ranges else {}) = {c. label_offers (pn_alphabet w) l c}"
    by (auto simp: ClassLabel split: if_splits)
  ultimately show ?thesis by simp
next
  case AnyLabel
  have "adds (fold push_unique (pn_alphabet w)) (\<Union>c \<in> set (pn_alphabet w). {c})" by (rule adds_fold) (simp add: adds_simps)
  moreover have "collect_label_candidates w AnyLabel = fold push_unique (pn_alphabet w)" by (auto simp: collect_label_candidates_def)
  ultimately show ?thesis by (simp add: AnyLabel)
qed (auto simp: collect_label_candidates_def adds_def push_unique_ok)

lemma state_candidates_ok:
  assumes "nfa_ok (pn_nfa w)"
  shows "distinct (cc_ordered (state_candidates w S)) \<and>
    set (cc_ordered (state_candidates w S)) = {c. offered (pn_nfa w) (pn_alphabet w) S c}"
proof -
  let ?one = "\<lambda>(l, to) chars. if consumes_input (pn_nfa w) l then collect_label_candidates w l chars else chars"
  let ?D = "\<lambda>(l :: nfa_label, to :: nfa_state). {c. label_offers (pn_alphabet w) l c}"
  have one: "adds (?one arc) (?D arc)" for arc
  proof -
    obtain l to where arc: "arc = (l, to)" by force
    show ?thesis
    proof (cases "consumes_input (pn_nfa w) l")
      case True
      then show ?thesis using adds_label [of w l] by (simp add: arc)
    next
      case False
      then have "{c. label_offers (pn_alphabet w) l c} = {}" using nfa_okD(5-7) [OF assms] by (cases l) auto
      then have "adds (\<lambda>cc. cc) {c. label_offers (pn_alphabet w) l c}" by (metis adds_simps(2))
      then show ?thesis using False by (simp add: arc)
    qed
  qed
  have "adds (fold (\<lambda>q. fold ?one (transitions_from (pn_nfa w) q)) (set_iter (pn_nfa w) S))
      (\<Union>q \<in> set (set_iter (pn_nfa w) S). \<Union>arc \<in> set (transitions_from (pn_nfa w) q). ?D arc)"
    by (intro adds_fold ballI one)
  then have "cc_wf (state_candidates w S) \<and> set (cc_ordered (state_candidates w S)) =
      (\<Union>q \<in> S. \<Union>arc \<in> set (transitions_from (pn_nfa w) q). ?D arc)"
    unfolding state_candidates_def adds_def using cc_wf_new nfa_okD(1) [OF assms] by simp
  then show ?thesis by (auto simp: cc_wf_def offered_def)
qed

lemma fold_fold: "fold (\<lambda>q. fold f (g q)) qs s = fold f (concat (map g qs)) s"
  by (induction qs arbitrary: s) simp_all

lemma state_successors_ok:
  assumes "nfa_ok (pn_nfa w)" and "distinct chars"
  shows "ls_slots (state_successors w S chars) = map (\<lambda>c. (c, char_arcs (pn_nfa w) c `` S)) chars"
proof -
  let ?arcs = "concat (map (transitions_from (pn_nfa w)) (set_iter (pn_nfa w) S))"
  have "ls_slots (state_successors w S chars) =
      map (\<lambda>(c, S). (c, S \<union> {q. \<exists>l. (l, q) \<in> set ?arcs \<and> label_matches l c})) (ls_slots (label_successors_new chars))"
    unfolding state_successors_def fold_fold using collect_arcs_ok [OF ls_wf_new [OF assms(2)]] by blast
  moreover have "{q. \<exists>l. (l, q) \<in> set ?arcs \<and> label_matches l c} = char_arcs (pn_nfa w) c `` S" for c
    using nfa_okD(1) [OF assms(1)] by (auto simp: char_arcs_def arcs_where_def)
  ultimately show ?thesis by (simp add: label_successors_new_def comp_def)
qed

text \<open>The targets to resolve: the closed successors of the characters that lead somewhere.\<close>

definition live_chars :: "phonetic_nfa_wfst \<Rightarrow> nfa_state set \<Rightarrow> uchar list" where
  "live_chars w S = filter (\<lambda>c. char_arcs (pn_nfa w) c `` S \<noteq> {}) (cc_ordered (state_candidates w S))"

definition set_kv :: "nfa \<Rightarrow> nfa_state set \<Rightarrow> state_set_key \<times> nfa_state set \<times> bool" where
  "set_kv A S = (state_set_to_key A S, S, state_set_can_reach_final_through_end_anchors A S)"

definition live_kvs :: "phonetic_nfa_wfst \<Rightarrow> nfa_state set \<Rightarrow> (state_set_key \<times> nfa_state set \<times> bool) list" where
  "live_kvs w S = map (\<lambda>c. set_kv (pn_nfa w) (after_char (pn_nfa w) S c)) (live_chars w S)"

lemma pending_targets_ok:
  assumes "nfa_ok A"
  shows "pending_targets A (map (\<lambda>c. (c, char_arcs A c `` S)) chars) =
    map (\<lambda>c. (c, after_char A S c, state_set_to_key A (after_char A S c))) (filter (\<lambda>c. char_arcs A c `` S \<noteq> {}) chars)"
  by (induction chars) (simp_all add: pending_targets_def map_filter_simps after_char_def nfa_okD [OF assms] Let_def)

lemma compute_nfa_transitions_eq:
  assumes ok: "nfa_ok (pn_nfa w)" and wf: "nreg_wf (pn_registry w)" and x: "nreg_get (pn_registry w) state = Some x"
  shows "compute_nfa_transitions w state =
    (let seq = intern_seq nreg_get_or_create (live_kvs w (rn_state_set x)) (pn_registry w)
     in ((rn_is_final x, if rn_is_final x then tropical_one else tropical_zero,
          List.map_filter (\<lambda>(c, target).
            map_option (\<lambda>to. mk_transition state (Some c) (Some c) to (pn_phonetic_weight w)) target)
            (zip (live_chars w (rn_state_set x)) (fst seq))),
         w\<lparr>pn_registry := snd seq\<rparr>))"
proof -
  let ?A = "pn_nfa w" and ?S = "rn_state_set x"
  note cand = state_candidates_ok [OF ok, of ?S]
  have pend: "pending_targets ?A (ls_slots (state_successors w ?S (cc_ordered (state_candidates w ?S)))) =
      map (\<lambda>c. (c, after_char ?A ?S c, state_set_to_key ?A (after_char ?A ?S c))) (live_chars w ?S)"
    using cand by (simp add: state_successors_ok [OF ok] pending_targets_ok [OF ok] live_chars_def)
  have kvs: "map (\<lambda>c. target_kv ?A (after_char ?A ?S c, state_set_to_key ?A (after_char ?A ?S c))) (live_chars w ?S) = live_kvs w ?S" by (simp add: live_kvs_def target_kv_def set_kv_def)
  show ?thesis
    using x by (simp add: compute_nfa_transitions_def pend resolve_eq_intern [OF wf] kvs Let_def comp_def)
qed

section \<open>The invariant of the registry\<close>

text \<open>A number stands for the set that its key lists, and its finality is that of the set.\<close>

definition sets_ok :: "nfa \<Rightarrow> nfa_registry \<Rightarrow> bool" where
  "sets_ok A r \<longleftrightarrow> nreg_wf r \<and>
     (\<forall>i x. nreg_get r i = Some x \<longrightarrow> nreg_id_for_key r (state_set_to_key A (rn_state_set x)) = Some i \<and>
        rn_is_final x = state_set_can_reach_final_through_end_anchors A (rn_state_set x))"

lemma key_set: "nfa_ok A \<Longrightarrow> set (state_set_to_key A S) = S"
  by (simp add: state_set_to_key_def nfa_okD)

lemma key_inject: "nfa_ok A \<Longrightarrow> state_set_to_key A S = state_set_to_key A T \<longleftrightarrow> S = T"
  using key_set by metis

lemma sets_ok_intern:
  assumes "sets_ok A r"
  shows "sets_ok A (snd (nreg_get_or_create (fst (set_kv A S)) (snd (set_kv A S)) r))"
proof -
  let ?k = "state_set_to_key A S" and ?v = "(S, state_set_can_reach_final_through_end_anchors A S)"
  have wf: "nreg_wf r" using assms by (simp add: sets_ok_def)
  show ?thesis
  proof (rule nreg.intern_cases [OF wf, of ?k ?v])
    fix s' assume fresh: "nreg_id_for_key r ?k = None" "nreg_len r < 2 ^ 32"
      "nreg_get_or_create ?k ?v r = (Some (of_nat (nreg_len r)), s')"
      "nreg_id_for_key s' = (nreg_id_for_key r)(?k \<mapsto> of_nat (nreg_len r))"
      "nreg_get s' = (nreg_get r)(of_nat (nreg_len r) \<mapsto> \<lparr>rn_state_set = fst ?v, rn_is_final = snd ?v\<rparr>)"
    have "nreg_wf s'" using nreg.wf_intern [OF wf, of ?k ?v] fresh(3) by simp
    moreover have "nreg_id_for_key s' (state_set_to_key A (rn_state_set x)) = Some i \<and>
        rn_is_final x = state_set_can_reach_final_through_end_anchors A (rn_state_set x)" if g: "nreg_get s' i = Some x" for i x
    proof (cases "i = of_nat (nreg_len r)")
      case True
      then show ?thesis using g fresh(4,5) by auto
    next
      case False
      then have "nreg_get r i = Some x" using g fresh(5) by simp
      then have old: "nreg_id_for_key r (state_set_to_key A (rn_state_set x)) = Some i"
        "rn_is_final x = state_set_can_reach_final_through_end_anchors A (rn_state_set x)" using assms by (simp_all add: sets_ok_def)
      then have "state_set_to_key A (rn_state_set x) \<noteq> ?k" using fresh(1) by auto
      then show ?thesis using old fresh(4) by simp
    qed
    ultimately show ?thesis using fresh(3) by (simp add: sets_ok_def set_kv_def)
  qed (use assms in \<open>simp_all add: set_kv_def\<close>)
qed

lemma sets_ok_seq: "sets_ok A r \<Longrightarrow> sets_ok A (snd (intern_seq nreg_get_or_create (map (set_kv A) Ss) r))"
proof (induction Ss arbitrary: r)
  case (Cons S Ss)
  obtain k v where kv: "set_kv A S = (k, v)" by (cases "set_kv A S") auto
  have "sets_ok A (snd (nreg_get_or_create k v r))" using sets_ok_intern [OF Cons.prems, of S] kv by simp
  then show ?case using Cons.IH by (simp add: kv nreg.seq_Cons del: intern_seq.simps)
qed simp

text \<open>The state a number stands for.\<close>

definition stands_for :: "phonetic_nfa_wfst \<Rightarrow> state_id \<Rightarrow> nfa_state set \<Rightarrow> bool" where
  "stands_for w state S \<longleftrightarrow> (\<exists>x. nreg_get (pn_registry w) state = Some x \<and> rn_state_set x = S)"

definition pn_wf :: "phonetic_nfa_wfst \<Rightarrow> bool" where
  "pn_wf w \<longleftrightarrow> nfa_ok (pn_nfa w) \<and> sets_ok (pn_nfa w) (pn_registry w)"

definition pn_ext :: "phonetic_nfa_wfst \<Rightarrow> phonetic_nfa_wfst \<Rightarrow> bool" where
  "pn_ext w w' \<longleftrightarrow> (\<exists>kvs. w' = w\<lparr>pn_registry := snd (intern_seq nreg_get_or_create kvs (pn_registry w))\<rparr>)"

lemma pn_wfD:
  assumes "pn_wf w"
  shows "nfa_ok (pn_nfa w)" and "nreg_wf (pn_registry w)" and "sets_ok (pn_nfa w) (pn_registry w)"
  using assms by (auto simp: pn_wf_def sets_ok_def)

lemma stands_for_final:
  assumes "pn_wf w" and "stands_for w state S"
  shows "pn_registered_state_is_final w state \<longleftrightarrow> state_set_can_reach_final_through_end_anchors (pn_nfa w) S"
    and "pn_is_registered_state w state"
proof -
  obtain x where x: "nreg_get (pn_registry w) state = Some x" "rn_state_set x = S" using assms(2) by (auto simp: stands_for_def)
  then show "pn_registered_state_is_final w state \<longleftrightarrow> state_set_can_reach_final_through_end_anchors (pn_nfa w) S"
    using pn_wfD(3) [OF assms(1)] by (auto simp: pn_registered_state_is_final_def sets_ok_def)
  show "pn_is_registered_state w state" using x by (auto simp: pn_is_registered_state_def nreg_get_def nreg_len_def nth_opt_eq_Some)
qed

lemma registered_stands_for: "pn_is_registered_state w state \<Longrightarrow> \<exists>S. stands_for w state S"
  by (auto simp: pn_is_registered_state_def stands_for_def nreg_get_def nreg_len_def nth_opt_def)

lemma stands_for_ext: "pn_wf w \<Longrightarrow> stands_for w state S \<Longrightarrow> pn_ext w w' \<Longrightarrow> stands_for w' state S"
  using nreg.entry_stable_seq [of "pn_registry w"] by (fastforce simp: stands_for_def pn_ext_def pn_wf_def sets_ok_def)

lemma key_stands_for:
  assumes "pn_wf w" and "nreg_id_for_key (pn_registry w) (state_set_to_key (pn_nfa w) S) = Some i"
  shows "stands_for w i S"
proof -
  note wf = pn_wfD [OF assms(1)]
  have "unat i < nreg_len (pn_registry w)" using nreg.find_less [OF wf(2) assms(2)] .
  then obtain x where x: "nreg_get (pn_registry w) i = Some x"
    using nreg.entry_iff [OF wf(2), of i] by (cases "nreg_get (pn_registry w) i") auto
  then have "nreg_id_for_key (pn_registry w) (state_set_to_key (pn_nfa w) (rn_state_set x)) = Some i" using wf(3) by (simp add: sets_ok_def)
  then have "state_set_to_key (pn_nfa w) (rn_state_set x) = state_set_to_key (pn_nfa w) S"
    using assms(2) nreg.find_inj [OF wf(2)] by blast
  then show ?thesis using x by (simp add: stands_for_def key_inject [OF wf(1)])
qed

text \<open>One expansion: what it computes, and what it leaves behind.\<close>

lemma pn_expand_eq:
  assumes "pn_wf w" and "stands_for w state S"
  shows "pn_expand_state w state =
    (let seq = intern_seq nreg_get_or_create (live_kvs w S) (pn_registry w);
         final = state_set_can_reach_final_through_end_anchors (pn_nfa w) S
     in (Expanded final (if final then tropical_one else tropical_zero)
           (List.map_filter (\<lambda>(c, target).
              map_option (\<lambda>to. mk_transition state (Some c) (Some c) to (pn_phonetic_weight w)) target)
              (zip (live_chars w S) (map (\<lambda>c. nreg_id_for_key (snd seq) (state_set_to_key (pn_nfa w) (after_char (pn_nfa w) S c))) (live_chars w S)))),
         w\<lparr>pn_registry := snd seq\<rparr>))"
proof -
  note wf = pn_wfD [OF assms(1)]
  obtain x where x: "nreg_get (pn_registry w) state = Some x" "rn_state_set x = S" using assms(2) by (auto simp: stands_for_def)
  have final: "rn_is_final x = state_set_can_reach_final_through_end_anchors (pn_nfa w) S" using x wf(3) by (auto simp: sets_ok_def)
  have ids: "fst (intern_seq nreg_get_or_create (live_kvs w S) (pn_registry w)) =
      map (\<lambda>c. nreg_id_for_key (snd (intern_seq nreg_get_or_create (live_kvs w S) (pn_registry w)))
        (state_set_to_key (pn_nfa w) (after_char (pn_nfa w) S c))) (live_chars w S)"
    unfolding nreg.seq_results [OF wf(2)] by (simp add: live_kvs_def set_kv_def)
  show ?thesis
    unfolding pn_expand_state_def compute_nfa_transitions_eq [OF wf(1,2) x(1)] x(2) final
    using stands_for_final(2) [OF assms] ids by (simp add: Let_def final_state_def non_final_def)
qed

lemma pn_expand_keeps:
  assumes "pn_wf w"
  shows "pn_wf (snd (pn_expand_state w state)) \<and> pn_ext w (snd (pn_expand_state w state))"
proof (cases "pn_is_registered_state w state")
  case True
  then obtain S where S: "stands_for w state S" using registered_stands_for by blast
  let ?r = "snd (intern_seq nreg_get_or_create (live_kvs w S) (pn_registry w))"
  have "live_kvs w S = map (set_kv (pn_nfa w)) (map (after_char (pn_nfa w) S) (live_chars w S))" by (simp add: live_kvs_def)
  then have "sets_ok (pn_nfa w) ?r" using sets_ok_seq [OF pn_wfD(3) [OF assms]] by metis
  moreover have "snd (pn_expand_state w state) = w\<lparr>pn_registry := ?r\<rparr>" by (simp add: pn_expand_eq [OF assms S] Let_def)
  ultimately show ?thesis using assms by (auto simp: pn_wf_def pn_ext_def)
next
  case False
  then have "snd (pn_expand_state w state) = w" by (simp add: pn_expand_state_def)
  then show ?thesis using assms unfolding pn_ext_def by (auto intro: exI [of _ "[]"])
qed

lemma pn_ext_trans: "pn_ext w1 w2 \<Longrightarrow> pn_ext w2 w3 \<Longrightarrow> pn_ext w1 w3"
proof -
  assume "pn_ext w1 w2" and "pn_ext w2 w3"
  then obtain xs ys where "w2 = w1\<lparr>pn_registry := snd (intern_seq nreg_get_or_create xs (pn_registry w1))\<rparr>"
    "w3 = w2\<lparr>pn_registry := snd (intern_seq nreg_get_or_create ys (pn_registry w2))\<rparr>" by (auto simp: pn_ext_def)
  then have "w3 = w1\<lparr>pn_registry := snd (intern_seq nreg_get_or_create (xs @ ys) (pn_registry w1))\<rparr>"
    by (simp add: nreg.seq_append)
  then show ?thesis unfolding pn_ext_def by blast
qed

lemma pn_ext_fields: "pn_ext w w' \<Longrightarrow> pn_nfa w' = pn_nfa w \<and> pn_phonetic_weight w' = pn_phonetic_weight w \<and> pn_alphabet w' = pn_alphabet w"
  by (auto simp: pn_ext_def)

lemma live_cong:
  assumes "nfa_ok (pn_nfa w)" and "pn_nfa w' = pn_nfa w" and "pn_alphabet w' = pn_alphabet w"
  shows "live_chars w' S = live_chars w S" and "live_kvs w' S = live_kvs w S"
proof -
  have same: "collect_label_candidates w' = collect_label_candidates w"
    using assms by (simp add: fun_eq_iff collect_label_candidates_def collect_char_class_candidates_def split: nfa_label.split)
  have "state_candidates w' S = state_candidates w S" unfolding state_candidates_def assms(2,3) same ..
  then show "live_chars w' S = live_chars w S" using assms by (simp add: live_chars_def)
  then show "live_kvs w' S = live_kvs w S" using assms by (simp add: live_kvs_def)
qed

text \<open>Expanding again later gives the same answer and changes nothing.\<close>

lemma pn_expand_again:
  assumes wf: "pn_wf w" "pn_wf w2" and S: "stands_for w state S" and e: "pn_expand_state w state = (ex, w1)" and ext: "pn_ext w1 w2"
  shows "pn_expand_state w2 state = (ex, w2)"
proof -
  let ?A = "pn_nfa w" and ?kvs = "live_kvs w S"
  let ?r1 = "snd (intern_seq nreg_get_or_create ?kvs (pn_registry w))"
  have w1: "w1 = w\<lparr>pn_registry := ?r1\<rparr>" using e by (simp add: pn_expand_eq [OF wf(1) S] Let_def)
  obtain more where w2: "pn_registry w2 = snd (intern_seq nreg_get_or_create more ?r1)" using ext by (auto simp: pn_ext_def w1)
  note same = pn_ext_fields [OF ext]
  have live: "live_chars w2 S = live_chars w S" "live_kvs w2 S = ?kvs"
    using live_cong [OF pn_wfD(1) [OF wf(1)], of w2 S] same w1 by simp_all
  have wf1: "nreg_wf ?r1" using nreg.wf_seq [OF pn_wfD(2) [OF wf(1)]] .
  have done': "nreg.settled ?r1 k" if "k \<in> fst ` set ?kvs" for k using nreg.seq_settled [OF pn_wfD(2) [OF wf(1)] that] .
  have find: "nreg_id_for_key (pn_registry w2) k = nreg_id_for_key ?r1 k" if "k \<in> fst ` set ?kvs" for k
  proof (cases "nreg_id_for_key ?r1 k")
    case None
    then have "nreg_len ?r1 = 2 ^ 32" using done' [OF that] unfolding nreg.settled_def by simp
    then show ?thesis using nreg.full_seq [OF wf1] w2 by simp
  next
    case (Some i)
    then show ?thesis using nreg.find_stable_seq [OF wf1 Some, of more] w2 by simp
  qed
  have noop: "snd (intern_seq nreg_get_or_create ?kvs (pn_registry w2)) = pn_registry w2"
  proof -
    have "nreg.settled (pn_registry w2) k" if "k \<in> fst ` set ?kvs" for k
      using nreg.settled_mono_seq [OF wf1 done' [OF that], of more] w2 by simp
    then show ?thesis using nreg.seq_all_settled [OF pn_wfD(2) [OF wf(2)]] by blast
  qed
  have S2: "stands_for w2 state S"
    using stands_for_ext [OF wf(1) S] pn_expand_keeps [OF wf(1), of state] pn_ext_trans [OF _ ext] e by simp
  have keys: "state_set_to_key ?A (after_char ?A S c) \<in> fst ` set ?kvs" if "c \<in> set (live_chars w S)" for c
    using that by (force simp: live_kvs_def set_kv_def)
  have ids: "map (\<lambda>c. nreg_id_for_key (pn_registry w2) (state_set_to_key ?A (after_char ?A S c))) (live_chars w S) =
      map (\<lambda>c. nreg_id_for_key ?r1 (state_set_to_key ?A (after_char ?A S c))) (live_chars w S)"
    using find keys by simp
  show ?thesis
    using e unfolding pn_expand_eq [OF wf(1) S] pn_expand_eq [OF wf(2) S2] live
    by (simp add: Let_def noop ids same w1)
qed

lemma nreg_len_mono: "nreg_len r \<le> nreg_len (snd (intern_seq nreg_get_or_create kvs r))"
proof (induction kvs arbitrary: r)
  case (Cons kv kvs)
  obtain k v where kv: "kv = (k, v)" by (cases kv) auto
  have "nreg_len r \<le> nreg_len (snd (nreg_get_or_create k v r))"
    by (simp add: nreg_get_or_create_def nreg_len_def split: option.split)
  then show ?case using Cons.IH [of "snd (nreg_get_or_create k v r)"] by (simp add: kv nreg.seq_Cons del: intern_seq.simps)
qed simp

interpretation pn: lazy_source pn_expand_state pn_is_registered_state pn_uncached_weight pn_wf pn_ext
proof unfold_locales
  fix s s1 s2 s3 s' :: phonetic_nfa_wfst and q :: state_id and f w ts
  show "pn_ext s s" unfolding pn_ext_def by (auto intro: exI [of _ "[]"])
  show "pn_ext s1 s2 \<Longrightarrow> pn_ext s2 s3 \<Longrightarrow> pn_ext s1 s3" by (rule pn_ext_trans)
  show "pn_wf s \<Longrightarrow> pn_wf (snd (pn_expand_state s q))" "pn_wf s \<Longrightarrow> pn_ext s (snd (pn_expand_state s q))"
    using pn_expand_keeps by blast+
  show "pn_is_registered_state s q \<Longrightarrow> pn_ext s s' \<Longrightarrow> pn_is_registered_state s' q"
    using nreg_len_mono [of "pn_registry s"] by (auto simp: pn_ext_def pn_is_registered_state_def intro: less_le_trans)
  show "pn_wf s \<Longrightarrow> pn_is_registered_state s q \<Longrightarrow> pn_expand_state s q = (Expanded f w ts, s1) \<Longrightarrow> pn_wf s2 \<Longrightarrow> pn_ext s1 s2 \<Longrightarrow>
      pn_expand_state s2 q = (Expanded f w ts, s2)" using pn_expand_again registered_stands_for by blast
  show "f = (pn_uncached_weight s q \<noteq> None) \<and> w = (case pn_uncached_weight s q of Some w \<Rightarrow> w | None \<Rightarrow> tropical_zero)"
    if wf: "pn_wf s" and reg: "pn_is_registered_state s q" and e: "fst (pn_expand_state s q) = Expanded f w ts"
  proof -
    obtain S where S: "stands_for s q S" using registered_stands_for reg by blast
    show ?thesis using e stands_for_final(1) [OF wf S] by (auto simp: pn_expand_eq [OF wf S] Let_def pn_uncached_weight_def)
  qed
qed

section \<open>Runs\<close>

text \<open>
  A run reads arcs of states as they are expanded; other states may be expanded in between, in any
  order, which is how registries come to differ.
\<close>

inductive pn_run ::
    "phonetic_nfa_wfst \<Rightarrow> state_id \<Rightarrow> uchar list \<Rightarrow> uchar list \<Rightarrow> rat \<Rightarrow> phonetic_nfa_wfst \<Rightarrow> state_id \<Rightarrow> bool" where
  pn_stay: "pn_run w q [] [] 0 w q"
| pn_other: "pn_run (snd (pn_expand_state w x)) q ins outs k w' q' \<Longrightarrow> pn_run w q ins outs k w' q'"
| pn_move: "pn_expand_state w q = (Expanded f fw ts, w1) \<Longrightarrow> t \<in> set ts \<Longrightarrow> t_weight t = F64 k \<Longrightarrow>
    pn_run w1 (t_to t) ins outs k' w' q' \<Longrightarrow>
    pn_run w q (label_word (t_input t) @ ins) (label_word (t_output t) @ outs) (k + k') w' q'"

definition pn_accepts :: "phonetic_nfa_wfst \<Rightarrow> uchar list \<Rightarrow> uchar list \<Rightarrow> rat \<Rightarrow> bool" where
  "pn_accepts w ins outs k \<longleftrightarrow>
     (\<exists>w' q' ts. pn_run w 0 ins outs k w' q' \<and> fst (pn_expand_state w' q') = Expanded True tropical_one ts)"

text \<open>A run on a prefix of a word after which no further state set can be numbered.\<close>

definition pn_exhausted :: "phonetic_nfa_wfst \<Rightarrow> uchar list \<Rightarrow> bool" where
  "pn_exhausted w cs \<longleftrightarrow>
     (\<exists>ins rest k w' q'. cs = ins @ rest \<and> pn_run w 0 ins ins k w' q' \<and> pn_num_states (snd (pn_expand_state w' q')) = 2 ^ 32)"

text \<open>The subset construction on a word.\<close>

fun subset_run :: "nfa \<Rightarrow> nfa_state set \<Rightarrow> uchar list \<Rightarrow> nfa_state set" where
  "subset_run A S [] = S"
| "subset_run A S (c # cs) = subset_run A (after_char A S c) cs"

lemma pn_arcs_iff:
  assumes "pn_wf w" and "stands_for w q S" and "pn_expand_state w q = (Expanded f fw ts, w1)"
  shows "t \<in> set ts \<longleftrightarrow> (\<exists>c to. t = mk_transition q (Some c) (Some c) to (pn_phonetic_weight w) \<and>
      offered (pn_nfa w) (pn_alphabet w) S c \<and> char_arcs (pn_nfa w) c `` S \<noteq> {} \<and>
      nreg_id_for_key (pn_registry w1) (state_set_to_key (pn_nfa w) (after_char (pn_nfa w) S c)) = Some to)"
proof -
  let ?find = "\<lambda>c. nreg_id_for_key (pn_registry w1) (state_set_to_key (pn_nfa w) (after_char (pn_nfa w) S c))"
  have ts: "ts = List.map_filter (\<lambda>(c, target). map_option (\<lambda>to. mk_transition q (Some c) (Some c) to (pn_phonetic_weight w)) target)
      (zip (live_chars w S) (map ?find (live_chars w S)))"
    using assms(3) by (auto simp: pn_expand_eq [OF assms(1,2)] Let_def)
  have live: "c \<in> set (live_chars w S) \<longleftrightarrow> offered (pn_nfa w) (pn_alphabet w) S c \<and> char_arcs (pn_nfa w) c `` S \<noteq> {}" for c
    using state_candidates_ok [OF pn_wfD(1) [OF assms(1)], of S] by (auto simp: live_chars_def)
  have pairs: "set (zip (live_chars w S) (map ?find (live_chars w S))) = (\<lambda>c. (c, ?find c)) ` set (live_chars w S)"
    by (simp add: zip_map2 zip_same_conv_map)
  have "t \<in> set ts \<longleftrightarrow> (\<exists>p \<in> (\<lambda>c. (c, ?find c)) ` set (live_chars w S).
      (case p of (c, target) \<Rightarrow> map_option (\<lambda>to. mk_transition q (Some c) (Some c) to (pn_phonetic_weight w)) target) = Some t)"
    unfolding ts in_map_filter pairs ..
  also have "\<dots> \<longleftrightarrow> (\<exists>c \<in> set (live_chars w S). \<exists>to. ?find c = Some to \<and> t = mk_transition q (Some c) (Some c) to (pn_phonetic_weight w))"
    by (simp only: bex_simps prod.case map_option_eq_Some eq_commute [of t])
  finally have "t \<in> set ts \<longleftrightarrow> (\<exists>c \<in> set (live_chars w S). \<exists>to. ?find c = Some to \<and> t = mk_transition q (Some c) (Some c) to (pn_phonetic_weight w))" .
  then show ?thesis by (simp only: live Bex_def) (simp only: conj_assoc conj_commute [of "t = _"] ex_simps; iprover)
qed

lemma pn_expand_at:
  assumes "pn_wf w" and "stands_for w q S"
  obtains f fw ts w1 where "pn_expand_state w q = (Expanded f fw ts, w1)" and "pn_wf w1" and "pn_ext w w1" and "stands_for w1 q S"
    and "f = state_set_can_reach_final_through_end_anchors (pn_nfa w) S" and "fw = (if f then tropical_one else tropical_zero)"
proof -
  obtain f fw ts w1 where e: "pn_expand_state w q = (Expanded f fw ts, w1)"
    "f = state_set_can_reach_final_through_end_anchors (pn_nfa w) S" "fw = (if f then tropical_one else tropical_zero)"
    by (simp add: pn_expand_eq [OF assms] Let_def)
  then show ?thesis using that pn_expand_keeps [OF assms(1), of q] stands_for_ext [OF assms] by simp
qed

lemma pn_run_sound:
  "pn_run w q ins outs k w' q' \<Longrightarrow> pn_wf w \<Longrightarrow> stands_for w q S \<Longrightarrow> pn_phonetic_weight w = F64 pw \<Longrightarrow>
     outs = ins \<and> k = pw * of_nat (length ins) \<and> pn_wf w' \<and> pn_nfa w' = pn_nfa w \<and> stands_for w' q' (subset_run (pn_nfa w) S ins)"
proof (induction arbitrary: S rule: pn_run.induct)
  case (pn_stay w q)
  then show ?case by simp
next
  case (pn_other w x q ins outs k w' q')
  note keep = pn_expand_keeps [OF pn_other.prems(1), of x]
  then show ?case
    using pn_other.IH [of S] stands_for_ext [OF pn_other.prems(1,2)] pn_other.prems(3) pn_ext_fields [of w "snd (pn_expand_state w x)"] by simp
next
  case (pn_move w q f fw ts w1 t k ins outs k' w' q')
  have w1: "pn_wf w1" "pn_ext w w1" using pn_expand_keeps [OF pn_move.prems(1), of q] pn_move.hyps(1) by simp_all
  note same = pn_ext_fields [OF w1(2)]
  obtain c to where t: "t = mk_transition q (Some c) (Some c) to (pn_phonetic_weight w)"
    "nreg_id_for_key (pn_registry w1) (state_set_to_key (pn_nfa w) (after_char (pn_nfa w) S c)) = Some to"
    using pn_move.hyps(2) unfolding pn_arcs_iff [OF pn_move.prems(1,2) pn_move.hyps(1)] by blast
  have "stands_for w1 to (after_char (pn_nfa w) S c)" using key_stands_for [OF w1(1)] t(2) same by simp
  then show ?case
    using pn_move.IH [OF w1(1)] pn_move.prems(3) pn_move.hyps(3) t(1) same by (simp add: algebra_simps)
qed

lemma pn_run_complete:
  "pn_wf w \<Longrightarrow> stands_for w q S \<Longrightarrow> pn_phonetic_weight w = F64 pw \<Longrightarrow> set cs \<subseteq> set (pn_alphabet w) \<Longrightarrow>
     subset_run (pn_nfa w) S cs \<noteq> {} \<Longrightarrow>
     (\<exists>w' q'. pn_run w q cs cs (pw * of_nat (length cs)) w' q') \<or>
     (\<exists>ins rest k w' q'. cs = ins @ rest \<and> pn_run w q ins ins k w' q' \<and> pn_num_states (snd (pn_expand_state w' q')) = 2 ^ 32)"
proof (induction cs arbitrary: w q S)
  case Nil
  show ?case using pn_stay [of w q] by auto
next
  case (Cons c cs)
  let ?A = "pn_nfa w" and ?T = "after_char (pn_nfa w) S c"
  obtain f fw ts w1 where e: "pn_expand_state w q = (Expanded f fw ts, w1)" "pn_wf w1" "pn_ext w w1"
    by (rule pn_expand_at [OF Cons.prems(1,2)])
  note same = pn_ext_fields [OF e(3)]
  have "subset_run A {} ds = {}" for A ds by (induction ds) (simp_all add: after_char_def)
  then have "?T \<noteq> {}" using Cons.prems(5) by auto
  then have live: "char_arcs ?A c `` S \<noteq> {}" by (auto simp: after_char_def)
  then obtain p l to where p: "p \<in> S" "(l, to) \<in> set (transitions_from ?A p)" "label_matches l c"
    by (auto simp: char_arcs_def arcs_where_def)
  have "label_offers (pn_alphabet w) l c" using p(3) Cons.prems(4) by (cases l) auto
  then have off: "offered ?A (pn_alphabet w) S c" using p by (force simp: offered_def)
  show ?case
  proof (cases "nreg_id_for_key (pn_registry w1) (state_set_to_key ?A ?T)")
    case None
    have "pn_registry w1 = snd (intern_seq nreg_get_or_create (live_kvs w S) (pn_registry w))"
      using e(1) by (auto simp: pn_expand_eq [OF Cons.prems(1,2)] Let_def)
    moreover have "state_set_to_key ?A ?T \<in> fst ` set (live_kvs w S)"
      using off live state_candidates_ok [OF pn_wfD(1) [OF Cons.prems(1)], of S]
      by (force simp: live_kvs_def set_kv_def live_chars_def)
    ultimately have "nreg.settled (pn_registry w1) (state_set_to_key ?A ?T)"
      using nreg.seq_settled [OF pn_wfD(2) [OF Cons.prems(1)]] by metis
    then have "pn_num_states (snd (pn_expand_state w q)) = 2 ^ 32"
      using None e(1) unfolding nreg.settled_def by (simp add: pn_num_states_def)
    then show ?thesis using pn_stay [of w q] by (intro disjI2) (metis append_Nil)
  next
    case (Some to)
    let ?t = "mk_transition q (Some c) (Some c) to (pn_phonetic_weight w)"
    have t: "?t \<in> set ts" unfolding pn_arcs_iff [OF Cons.prems(1,2) e(1)] using off live Some by blast
    have at: "stands_for w1 to ?T" using key_stands_for [OF e(2)] Some same by simp
    have step: "pn_run w q (c # ins) (c # outs) (pw + k) w' q'" if "pn_run w1 to ins outs k w' q'" for ins outs k w' q'
      using pn_move [OF e(1) t, of pw ins outs k w' q'] that Cons.prems(3) by simp
    have "subset_run (pn_nfa w1) ?T cs \<noteq> {}" using Cons.prems(5) same by simp
    from Cons.IH [OF e(2) at _ _ this] Cons.prems(3,4) same
    have "(\<exists>w' q'. pn_run w1 to cs cs (pw * of_nat (length cs)) w' q') \<or>
        (\<exists>ins rest k w' q'. cs = ins @ rest \<and> pn_run w1 to ins ins k w' q' \<and> pn_num_states (snd (pn_expand_state w' q')) = 2 ^ 32)"
      by simp
    then show ?thesis
    proof
      assume "\<exists>w' q'. pn_run w1 to cs cs (pw * of_nat (length cs)) w' q'"
      then obtain w' q' where "pn_run w1 to cs cs (pw * of_nat (length cs)) w' q'" by blast
      from step [OF this] have "pn_run w q (c # cs) (c # cs) (pw * of_nat (length (c # cs))) w' q'" by (simp add: algebra_simps)
      then show ?thesis by blast
    next
      assume "\<exists>ins rest k w' q'. cs = ins @ rest \<and> pn_run w1 to ins ins k w' q' \<and> pn_num_states (snd (pn_expand_state w' q')) = 2 ^ 32"
      then obtain ins rest k w' q' where r: "cs = ins @ rest" "pn_run w1 to ins ins k w' q'"
        "pn_num_states (snd (pn_expand_state w' q')) = 2 ^ 32" by blast
      have "c # cs = (c # ins) @ rest" using r(1) by simp
      then show ?thesis using step [OF r(2)] r(3) by blast
    qed
  qed
qed

section \<open>The language\<close>

text \<open>What the automaton accepts: start anchors before the first character, end anchors after the last.\<close>

fun nfa_steps :: "nfa \<Rightarrow> uchar list \<Rightarrow> (nfa_state \<times> nfa_state) set" where
  "nfa_steps A [] = (eps_arcs A)\<^sup>*"
| "nfa_steps A (c # cs) = (eps_arcs A)\<^sup>* O char_arcs A c O nfa_steps A cs"

definition anchored_accepts :: "nfa \<Rightarrow> uchar list \<Rightarrow> bool" where
  "anchored_accepts A cs \<longleftrightarrow>
     (\<exists>p q f. (nfa_start A, p) \<in> (anchor_arcs A is_start_anchor)\<^sup>* \<and> (p, q) \<in> nfa_steps A cs \<and>
        (q, f) \<in> (anchor_arcs A is_end_anchor)\<^sup>* \<and> nfa_is_final A f)"

lemma position_anchor_closure_eq: "nfa_ok A \<Longrightarrow> position_anchor_closure A S m = (anchor_arcs A m)\<^sup>* `` S"
  by (simp add: position_anchor_closure_def anchor_loop_eq nfa_okD)

lemma eps_below_anchor: "(eps_arcs A)\<^sup>* \<subseteq> (anchor_arcs A m)\<^sup>*"
  by (rule rtrancl_mono) (auto simp: arcs_where_def)

lemma start_anchor_closure_eq:
  assumes "nfa_ok A"
  shows "start_anchor_closure A = (anchor_arcs A is_start_anchor)\<^sup>* `` {nfa_start A}"
  using eps_below_anchor [of A is_start_anchor]
  by (auto simp: start_anchor_closure_def position_anchor_closure_eq [OF assms] nfa_okD [OF assms] intro: rtrancl_trans)

lemma can_reach_final_iff:
  assumes "nfa_ok A"
  shows "state_set_can_reach_final_through_end_anchors A S \<longleftrightarrow>
    (\<exists>q \<in> S. \<exists>f. (q, f) \<in> (anchor_arcs A is_end_anchor)\<^sup>* \<and> nfa_is_final A f)"
  by (auto simp: state_set_can_reach_final_through_end_anchors_def position_anchor_closure_eq [OF assms] nfa_okD [OF assms] list_ex_iff)

lemma eps_steps: "(eps_arcs A)\<^sup>* O nfa_steps A cs = nfa_steps A cs"
  by (cases cs) (auto simp: O_assoc [symmetric])

lemma subset_run_eq: "eps_closed A S = S \<Longrightarrow> subset_run A S cs = nfa_steps A cs `` S"
proof (induction cs arbitrary: S)
  case (Cons c cs)
  have closed: "eps_closed A (after_char A S c) = after_char A S c"
    unfolding after_char_def by (auto intro: rtrancl_trans)
  have "subset_run A S (c # cs) = nfa_steps A cs `` after_char A S c" using Cons.IH [OF closed] by simp
  also have "\<dots> = ((eps_arcs A)\<^sup>* O nfa_steps A cs) `` (char_arcs A c `` S)" by (simp add: after_char_def relcomp_Image)
  also have "\<dots> = nfa_steps A (c # cs) `` S" unfolding eps_steps using Cons.prems by (simp add: relcomp_Image)
  finally show ?case .
qed simp

lemma start_closed:
  assumes "nfa_ok A"
  shows "eps_closed A (start_anchor_closure A) = start_anchor_closure A"
proof -
  have "(eps_arcs A)\<^sup>* `` ((anchor_arcs A is_start_anchor)\<^sup>* `` {q}) \<subseteq> (anchor_arcs A is_start_anchor)\<^sup>* `` {q}" for q
    using eps_below_anchor [of A is_start_anchor] by (meson ImageE ImageI rtrancl_trans subsetD subsetI)
  then show ?thesis unfolding start_anchor_closure_eq [OF assms] by blast
qed

lemma anchored_accepts_iff:
  assumes "nfa_ok A"
  shows "anchored_accepts A cs \<longleftrightarrow> state_set_can_reach_final_through_end_anchors A (subset_run A (start_anchor_closure A) cs)"
proof -
  let ?R = "(anchor_arcs A is_start_anchor)\<^sup>*" and ?E = "(anchor_arcs A is_end_anchor)\<^sup>*"
  have "(\<exists>p q f. (s, p) \<in> R \<and> (p, q) \<in> T \<and> (q, f) \<in> E \<and> P f) \<longleftrightarrow> (\<exists>q \<in> T `` (R `` {s}). \<exists>f. (q, f) \<in> E \<and> P f)"
    for s P and R T E :: "(nfa_state \<times> nfa_state) set" by blast
  from this [of "nfa_start A" ?R "nfa_steps A cs" ?E "nfa_is_final A"] show ?thesis
    unfolding can_reach_final_iff [OF assms] subset_run_eq [OF start_closed [OF assms]] anchored_accepts_def
    unfolding start_anchor_closure_eq [OF assms] .
qed

lemma pn_initial:
  assumes "nfa_ok A" and "w = pn_from_validated A pw alphabet"
  shows "pn_wf w \<and> stands_for w 0 (start_anchor_closure A) \<and> pn_nfa w = A \<and> pn_phonetic_weight w = pw \<and>
    set (pn_alphabet w) = set alphabet"
proof -
  have wf: "nreg_wf (nreg_new A S b)" for S b
    using dense_map_insert [OF dense_map_empty, of "state_set_to_key A S"] by (simp add: nreg_wf_def nreg_new_def)
  have "nreg_get (nreg_new A S b) i = Some x \<longleftrightarrow> i = 0 \<and> x = \<lparr>rn_state_set = S, rn_is_final = b\<rparr>" for S b i x
    by (auto simp: nreg_get_def nreg_new_def nth_opt_def unat_eq_0)
  then have "sets_ok A (nreg_new A S (state_set_can_reach_final_through_end_anchors A S)) \<and>
      (\<exists>x. nreg_get (nreg_new A S (state_set_can_reach_final_through_end_anchors A S)) 0 = Some x \<and> rn_state_set x = S)" for S
    using wf by (auto simp: sets_ok_def) (simp add: nreg_id_for_key_def nreg_new_def)
  then show ?thesis
    using assms by (simp add: pn_from_validated_def Let_def pn_wf_def stands_for_def normalize_alphabet_eq)
qed

lemma pn_language:
  assumes ok: "nfa_ok A" and w: "pn_with_phonetic_weight_and_alphabet A (F64 pw) alphabet = Inr w"
  shows "(pn_accepts w ins outs k \<longrightarrow> outs = ins \<and> k = pw * of_nat (length ins) \<and> anchored_accepts A ins) \<and>
    (anchored_accepts A cs \<longrightarrow> set cs \<subseteq> set alphabet \<longrightarrow> \<not> pn_exhausted w cs \<longrightarrow> pn_accepts w cs cs (pw * of_nat (length cs)))"
proof -
  have "w = pn_from_validated A (F64 pw) alphabet"
    using w by (auto simp: pn_with_phonetic_weight_and_alphabet_def split: sum.splits)
  note init = pn_initial [OF ok this]
  have sound: "outs = ins \<and> k = pw * of_nat (length ins) \<and> anchored_accepts A ins" if acc: "pn_accepts w ins outs k"
  proof -
    obtain w' q' ts where r: "pn_run w 0 ins outs k w' q'" "fst (pn_expand_state w' q') = Expanded True tropical_one ts"
      using acc unfolding pn_accepts_def by blast
    then have e: "outs = ins" "k = pw * of_nat (length ins)" "pn_wf w'" "pn_nfa w' = A" "stands_for w' q' (subset_run A (start_anchor_closure A) ins)"
      using pn_run_sound [OF r(1), of "start_anchor_closure A" pw] init by simp_all
    have "state_set_can_reach_final_through_end_anchors A (subset_run A (start_anchor_closure A) ins)"
      using r(2) e(4) by (simp add: pn_expand_eq [OF e(3,5)] Let_def)
    then show ?thesis using e anchored_accepts_iff [OF ok] by simp
  qed
  have complete: "pn_accepts w cs cs (pw * of_nat (length cs))"
    if acc: "anchored_accepts A cs" and alpha: "set cs \<subseteq> set alphabet" and room: "\<not> pn_exhausted w cs"
  proof -
    have final: "state_set_can_reach_final_through_end_anchors A (subset_run A (start_anchor_closure A) cs)"
      using acc anchored_accepts_iff [OF ok] by simp
    then have "subset_run A (start_anchor_closure A) cs \<noteq> {}" unfolding can_reach_final_iff [OF ok] by blast
    then obtain w' q' where r: "pn_run w 0 cs cs (pw * of_nat (length cs)) w' q'"
      using pn_run_complete [of w 0 "start_anchor_closure A" pw cs] init alpha room unfolding pn_exhausted_def by auto
    have "pn_wf w'" "pn_nfa w' = A" "stands_for w' q' (subset_run A (start_anchor_closure A) cs)"
      using pn_run_sound [OF r, of "start_anchor_closure A" pw] init by simp_all
    then have "\<exists>ts. fst (pn_expand_state w' q') = Expanded True tropical_one ts"
      using final by (simp add: pn_expand_eq Let_def)
    then show ?thesis using r unfolding pn_accepts_def by blast
  qed
  show ?thesis using sound complete by blast
qed

section \<open>Room in the registry\<close>

text \<open>An automaton of fewer than 32 states has fewer than \<open>2 ^ 32\<close> sets of states.\<close>

definition states_within :: "nfa \<Rightarrow> nfa_state set \<Rightarrow> bool" where
  "states_within A Q \<longleftrightarrow> nfa_start A \<in> Q \<and> (\<forall>p \<in> Q. \<forall>(l, q) \<in> set (transitions_from A p). q \<in> Q)"

definition sets_within :: "nfa_registry \<Rightarrow> nfa_state set \<Rightarrow> bool" where
  "sets_within r Q \<longleftrightarrow> (\<forall>x \<in> set (nr_id_to_state r). rn_state_set x \<subseteq> Q)"

lemma arcs_within: "states_within A Q \<Longrightarrow> arcs_where A P `` Q \<subseteq> Q"
  by (fastforce simp: states_within_def arcs_where_def)

lemma rtrancl_within: "states_within A Q \<Longrightarrow> S \<subseteq> Q \<Longrightarrow> (arcs_where A P)\<^sup>* `` S \<subseteq> Q"
  using Image_closed_trancl [OF arcs_within, of A Q P] by blast

lemma sets_within_intern:
  "sets_within r Q \<Longrightarrow> S \<subseteq> Q \<Longrightarrow> sets_within (snd (nreg_get_or_create k (S, b) r)) Q"
  by (auto simp: sets_within_def nreg_get_or_create_def split: option.split)

lemma sets_within_seq:
  "sets_within r Q \<Longrightarrow> (\<forall>S \<in> set Ss. S \<subseteq> Q) \<Longrightarrow> sets_within (snd (intern_seq nreg_get_or_create (map (set_kv A) Ss) r)) Q"
proof (induction Ss arbitrary: r)
  case (Cons S Ss)
  have "sets_within (snd (nreg_get_or_create (fst (set_kv A S)) (snd (set_kv A S)) r)) Q"
    using Cons.prems sets_within_intern by (simp add: set_kv_def)
  then show ?case using Cons by (simp add: set_kv_def nreg.seq_Cons del: intern_seq.simps)
qed simp

lemma sets_within_expand:
  assumes "pn_wf w" and "states_within (pn_nfa w) Q" and "sets_within (pn_registry w) Q"
  shows "sets_within (pn_registry (snd (pn_expand_state w x))) Q"
proof (cases "pn_is_registered_state w x")
  case True
  then obtain S where S: "stands_for w x S" using registered_stands_for by blast
  then have "S \<subseteq> Q" using assms(3) by (auto simp: stands_for_def nreg_get_def nth_opt_eq_Some sets_within_def)
  then have "char_arcs (pn_nfa w) c `` S \<subseteq> Q" for c using arcs_within [OF assms(2)] unfolding char_arcs_def by blast
  then have T: "after_char (pn_nfa w) S c \<subseteq> Q" for c unfolding after_char_def by (rule rtrancl_within [OF assms(2)])
  have kvs: "live_kvs w S = map (set_kv (pn_nfa w)) (map (after_char (pn_nfa w) S) (live_chars w S))" by (simp add: live_kvs_def)
  have "sets_within (snd (intern_seq nreg_get_or_create (live_kvs w S) (pn_registry w))) Q"
    unfolding kvs by (rule sets_within_seq [OF assms(3)]) (use T in auto)
  then show ?thesis by (simp add: pn_expand_eq [OF assms(1) S] Let_def)
next
  case False
  then show ?thesis using assms(3) by (simp add: pn_expand_state_def)
qed

lemma sets_within_run:
  "pn_run w q ins outs k w' q' \<Longrightarrow> pn_wf w \<Longrightarrow> states_within (pn_nfa w) Q \<Longrightarrow> sets_within (pn_registry w) Q \<Longrightarrow>
     pn_wf w' \<and> pn_nfa w' = pn_nfa w \<and> sets_within (pn_registry w') Q"
proof (induction rule: pn_run.induct)
  case (pn_other w x q ins outs k w' q')
  then show ?case using pn_expand_keeps [of w x] sets_within_expand [of w Q x] pn_ext_fields [of w "snd (pn_expand_state w x)"] by simp
next
  case (pn_move w q f fw ts w1 t k ins outs k' w' q')
  then show ?case using pn_expand_keeps [of w q] sets_within_expand [of w Q q] pn_ext_fields [of w w1] by simp
qed simp

lemma few_sets:
  assumes "sets_ok A r" and "sets_within r Q" and "card Q < 32"
  shows "nreg_len r < 2 ^ 32"
proof -
  have wf: "nreg_wf r" and len: "length (nr_id_to_state r) \<le> 2 ^ 32" using assms(1) by (auto simp: sets_ok_def nreg_wf_def)
  have id: "nreg_id_for_key r (state_set_to_key A (rn_state_set (nr_id_to_state r ! n))) = Some (of_nat n)"
    if n: "n < length (nr_id_to_state r)" for n
  proof -
    have "unat (of_nat n :: u32) = n" using n len by (simp add: unat_of_nat)
    then have "nreg_get r (of_nat n) = Some (nr_id_to_state r ! n)" using n by (simp add: nreg_get_def nth_opt_def)
    then show ?thesis using assms(1) by (simp add: sets_ok_def)
  qed
  have "distinct (map rn_state_set (nr_id_to_state r))"
  proof (unfold distinct_conv_nth, intro allI impI)
    fix m n assume mn: "m < length (map rn_state_set (nr_id_to_state r))" "n < length (map rn_state_set (nr_id_to_state r))" "m \<noteq> n"
    show "map rn_state_set (nr_id_to_state r) ! m \<noteq> map rn_state_set (nr_id_to_state r) ! n"
    proof
      assume "map rn_state_set (nr_id_to_state r) ! m = map rn_state_set (nr_id_to_state r) ! n"
      then have "(of_nat m :: u32) = of_nat n" using id [of m] id [of n] mn by simp
      then have "m = n" using mn len by (simp add: of_nat_eq_u32 unat_of_nat)
      then show False using mn by simp
    qed
  qed
  then have "nreg_len r = card (set (map rn_state_set (nr_id_to_state r)))" using distinct_card [symmetric] by (fastforce simp: nreg_len_def)
  also have "\<dots> \<le> card (Pow Q)" using assms(2) by (intro card_mono) (auto simp: sets_within_def)
  also have "\<dots> = 2 ^ card Q" by (simp add: card_Pow)
  also have "\<dots> < 2 ^ 32" by (rule power_strict_increasing [OF assms(3)]) simp
  finally show ?thesis .
qed

lemma small_never_exhausted:
  assumes "nfa_ok A" and "states_within A Q" and "card Q < 32"
  shows "\<not> pn_exhausted (pn_from_validated A pw alphabet) cs"
proof
  assume "pn_exhausted (pn_from_validated A pw alphabet) cs"
  then obtain ins k w' q' where r: "pn_run (pn_from_validated A pw alphabet) 0 ins ins k w' q'"
    "pn_num_states (snd (pn_expand_state w' q')) = 2 ^ 32" unfolding pn_exhausted_def by blast
  note init = pn_initial [OF assms(1) refl, of pw alphabet]
  have "start_anchor_closure A \<subseteq> Q"
    unfolding start_anchor_closure_eq [OF assms(1)] using rtrancl_within [OF assms(2), of "{nfa_start A}"] assms(2) by (simp add: states_within_def)
  then have "sets_within (pn_registry (pn_from_validated A pw alphabet)) Q"
    by (simp add: pn_from_validated_def Let_def nreg_new_def sets_within_def)
  then have w': "pn_wf w'" "pn_nfa w' = A" "sets_within (pn_registry w') Q"
    using sets_within_run [OF r(1)] init assms(2) by simp_all
  have "sets_ok A (pn_registry (snd (pn_expand_state w' q')))"
    using pn_expand_keeps [OF w'(1), of q'] pn_ext_fields [of w' "snd (pn_expand_state w' q')"] w'(2) by (simp add: pn_wf_def)
  moreover have "sets_within (pn_registry (snd (pn_expand_state w' q'))) Q" using sets_within_expand [OF w'(1) _ w'(3)] assms(2) w'(2) by simp
  ultimately have "pn_num_states (snd (pn_expand_state w' q')) < 2 ^ 32" unfolding pn_num_states_def using few_sets assms(3) by blast
  then show False using r(2) by simp
qed

section \<open>The claim\<close>

text \<open>
  C12: phonetic: a phonetic WFST accepts the language of its automaton. Whatever it accepts, under any
  order of expansions, has its input as its output, the phonetic weight per character as its cost, and is
  accepted by the automaton with start anchors only at the beginning and end anchors only at the end.
  Every such word over the alphabet is accepted, unless all \<open>2 ^ 32\<close> numbers have been given away.
\<close>

theorem phonetic_nfa_language:
  assumes "nfa_ok A" and "pn_with_phonetic_weight_and_alphabet A (F64 pw) alphabet = Inr w"
  shows "(pn_accepts w ins outs k \<longrightarrow> outs = ins \<and> k = pw * of_nat (length ins) \<and> anchored_accepts A ins) \<and>
    (anchored_accepts A cs \<longrightarrow> set cs \<subseteq> set alphabet \<longrightarrow> \<not> pn_exhausted w cs \<longrightarrow> pn_accepts w cs cs (pw * of_nat (length cs)))"
  by (rule pn_language [OF assms])

text \<open>The automaton of \<open>^(a|[b-c])$\<close>, with an epsilon arc before its end.\<close>

definition letter_arcs :: "nfa_state \<Rightarrow> (nfa_label \<times> nfa_state) list" where
  "letter_arcs q =
     (if q = 0 then [(StartOfInput, 1)]
      else if q = 1 then [(CharLabel 97, 2), (ClassLabel \<lparr>class_negated = False, class_ranges = [(98, 99)], class_matches = (\<lambda>c. 98 \<le> c \<and> c \<le> 99)\<rparr>, 2)]
      else if q = 2 then [(EpsilonLabel, 3)]
      else if q = 3 then [(EndOfInput, 4)] else [])"

definition letter_closure :: "nfa_state set \<Rightarrow> nfa_state set" where
  "letter_closure S = (if 2 \<in> S then insert 3 S else S)"

definition letter_nfa :: nfa where
  "letter_nfa =
     \<lparr>nfa_start = 0, nfa_num_states = 5, transitions_from = letter_arcs, nfa_is_final = (\<lambda>q. q = 4), epsilon_closure = letter_closure,
      epsilon_closure_single = (\<lambda>q. letter_closure {q}), is_epsilon = (\<lambda>l. l = EpsilonLabel),
      consumes_input = (\<lambda>l. case l of CharLabel _ \<Rightarrow> True | ClassLabel _ \<Rightarrow> True | AnyLabel \<Rightarrow> True | _ \<Rightarrow> False),
      set_iter = sorted_list_of_set\<rparr>"

lemma letter_eps: "(eps_arcs letter_nfa)\<^sup>* `` S = letter_closure S"
proof -
  have "eps_arcs letter_nfa = {(2, 3)}" by (auto simp: arcs_where_def letter_nfa_def letter_arcs_def split: if_splits)
  moreover have "{(2 :: nfa_state, 3)}\<^sup>* `` S = letter_closure S"
  proof
    have "{(2 :: nfa_state, 3)}\<^sup>* `` letter_closure S = letter_closure S"
      by (rule Image_closed_trancl) (auto simp: letter_closure_def split: if_splits)
    then show "{(2 :: nfa_state, 3)}\<^sup>* `` S \<subseteq> letter_closure S" by (auto simp: letter_closure_def split: if_splits)
    show "letter_closure S \<subseteq> {(2 :: nfa_state, 3)}\<^sup>* `` S" by (auto simp: letter_closure_def split: if_splits)
  qed
  ultimately show ?thesis by simp
qed

lemma letter_nfa_ok: "nfa_ok letter_nfa"
  unfolding nfa_ok_def letter_eps by (simp add: letter_nfa_def)

lemma letter_accepts: "anchored_accepts letter_nfa [98]"
proof -
  have "(0, 1) \<in> anchor_arcs letter_nfa is_start_anchor" "(1, 2) \<in> char_arcs letter_nfa 98" "(2, 3) \<in> eps_arcs letter_nfa"
    "(3, 4) \<in> anchor_arcs letter_nfa is_end_anchor"
    by (auto simp: arcs_where_def char_arcs_def letter_nfa_def letter_arcs_def)
  then have "(0, 1) \<in> (anchor_arcs letter_nfa is_start_anchor)\<^sup>*" "(1, 3) \<in> nfa_steps letter_nfa [98]"
    "(3, 4) \<in> (anchor_arcs letter_nfa is_end_anchor)\<^sup>*" by auto
  then show ?thesis unfolding anchored_accepts_def by (auto simp: letter_nfa_def)
qed

theorem phonetic_nfa_language_witness:
  "pn_accepts (pn_from_validated letter_nfa (F64 (1 / 2)) [97, 98]) [98] [98] (1 / 2)"
proof -
  let ?w = "pn_from_validated letter_nfa (F64 (1 / 2)) [97, 98]"
  have w: "pn_with_phonetic_weight_and_alphabet letter_nfa (F64 (1 / 2)) [97, 98] = Inr ?w"
    by (simp add: pn_with_phonetic_weight_and_alphabet_def validate_finite_nonnegative_weight_def f64_is_finite_def f64_ge_def)
  have "states_within letter_nfa {0, 1, 2, 3, 4}" by (auto simp: states_within_def letter_nfa_def letter_arcs_def split: if_splits)
  then have "\<not> pn_exhausted ?w [98]" by (rule small_never_exhausted [OF letter_nfa_ok]) simp
  then show ?thesis
    using phonetic_nfa_language [OF letter_nfa_ok w, of "[]" "[]" 0 "[98]"] letter_accepts by simp
qed

section \<open>The cache\<close>

lemma pn_ensure_state_eq: "pn_ensure_state x cw = ensure_cached_char_state pn_expand_state pn_is_registered_state x cw"
  by (cases cw) (auto simp: pn_ensure_state_def ensure_cached_char_state_def pn_expand_state_def split: prod.splits bool.splits)

text \<open>Caching never changes what a phonetic WFST answers, after any sequence of expansions and reconfigurations.\<close>

theorem phonetic_wrapper_answers:
  assumes "nfa_ok A"
  shows "let (c, w) = wrapper_run pn_expand_state pn_is_registered_state ops (cache_new pn_max_cache_size, pn_from_validated A pw alphabet)
   in pn_ensure_state x (c, w) = ensure_cached_char_state pn_expand_state pn_is_registered_state x (c, w) \<and>
      fst (pn_transitions_lazy x (c, w)) = (case fst (pn_expand_state w x) of Expanded f fw ts \<Rightarrow> ts | _ \<Rightarrow> []) \<and>
      pn_is_final (c, w) x = pn_registered_state_is_final w x \<and>
      pn_final_weight (c, w) x = (if pn_registered_state_is_final w x then tropical_one else tropical_zero)"
proof -
  let ?w0 = "pn_from_validated A pw alphabet"
  obtain c w where r: "wrapper_run pn_expand_state pn_is_registered_state ops (cache_new pn_max_cache_size, ?w0) = (c, w)" by force
  have coh: "pn.coherent (c, w)"
    using pn.coherent_run [OF pn.coherent_new [of ?w0 pn_max_cache_size], of ops] pn_initial [OF assms refl, of pw alphabet] r by simp
  have wf: "pn_wf w" using coh by (simp add: pn.coherent_def)
  have "(case fst (pn_expand_state w x) of Expanded f fw ts \<Rightarrow> ts | _ \<Rightarrow> []) =
      (if pn_is_registered_state w x then case fst (pn_expand_state w x) of Expanded f w ts \<Rightarrow> ts | _ \<Rightarrow>
         wrapper_transitions (snd (ensure_cached_char_state pn_expand_state pn_is_registered_state x (c, w))) x else [])"
    using registered_stands_for [of w x] pn_expand_eq [OF wf] by (auto simp: Let_def) (simp add: pn_expand_state_def)
  then show ?thesis
    using r pn.transitions_lazy [OF coh, of x] pn.wrapper_finality [OF coh, of x] pn_ensure_state_eq [of x "(c, w)"]
    by (auto simp: pn_transitions_lazy_def pn_transitions_def wrapper_transitions_def wrapper_transitions_lazy_def pn_is_final_def
        wrapper_is_final_def pn_final_weight_def wrapper_final_weight_def pn_uncached_weight_def split: prod.splits option.splits)
qed

end
