(* ===== verification/Paired_Registries.thy ===== *)
theory Paired_Registries
  imports Interning State_Encoding Lazy_Wrapper
begin

text \<open>
  What the lazy products of a dictionary with a library automaton share. Each keeps two registries,
  one for dictionary nodes and one for automaton states, and gives an arc a target only if the pair of
  identifiers fits in a state identifier: the candidates are checked before anything is registered. The
  locale \<open>paired_interners\<close> proves once what this discipline achieves; \<open>step_source\<close> turns a description of
  single arcs into the language that a lazy source accepts.
\<close>

section \<open>Registering pairs\<close>

text \<open>Both keys are registered if their identifiers pack into a state identifier, none otherwise.\<close>

definition pair_intern ::
    "('k \<Rightarrow> 'v \<Rightarrow> 's \<Rightarrow> u32 option \<times> 's) \<Rightarrow> ('l \<Rightarrow> 'w \<Rightarrow> 't \<Rightarrow> u32 option \<times> 't) \<Rightarrow> u32
     \<Rightarrow> 'k \<times> 'v \<times> 'l \<times> 'w \<Rightarrow> 's \<times> 't \<Rightarrow> state_id option \<times> 's \<times> 't" where
  "pair_intern intern1 intern2 m = (\<lambda>(k1, v1, k2, v2) (s1, s2).
     (case (intern1 k1 v1 s1, intern2 k2 v2 s2) of
        ((Some i, s1'), (Some j, s2')) \<Rightarrow>
          (case try_encode i j m of Some target \<Rightarrow> (Some target, s1', s2') | None \<Rightarrow> (None, s1, s2))
      | _ \<Rightarrow> (None, s1, s2)))"

fun pair_seq ::
    "('k \<Rightarrow> 'v \<Rightarrow> 's \<Rightarrow> u32 option \<times> 's) \<Rightarrow> ('l \<Rightarrow> 'w \<Rightarrow> 't \<Rightarrow> u32 option \<times> 't) \<Rightarrow> u32
     \<Rightarrow> ('a \<times> 'k \<times> 'v \<times> 'l \<times> 'w) list \<Rightarrow> 's \<times> 't \<Rightarrow> ('a \<times> state_id) list \<times> 's \<times> 't" where
  "pair_seq intern1 intern2 m [] s = ([], s)"
| "pair_seq intern1 intern2 m ((a, p) # ps) s =
     (case pair_intern intern1 intern2 m p s of
        (res, s') \<Rightarrow>
          (case pair_seq intern1 intern2 m ps s' of
             (ts, s'') \<Rightarrow> ((case res of Some target \<Rightarrow> [(a, target)] | None \<Rightarrow> []) @ ts, s'')))"

lemma try_encode_None_mono:
  assumes "try_encode i j m = None" and "unat i \<le> unat i'" and "unat j \<le> unat j'"
  shows "try_encode i' j' m = None"
proof -
  have "unat i * unat m \<le> unat i' * unat m" using assms(2) by (rule mult_le_mono1)
  then show ?thesis using assms unfolding try_encode_eq_None by linarith
qed

lemma try_encode_room:
  assumes "unat i < L" and "unat j < L" and "L \<le> unat m" and "L * unat m \<le> 2 ^ 32"
  shows "\<exists>target. try_encode i j m = Some target"
proof -
  have "Suc (unat i) * unat m \<le> L * unat m" using assms(1) by (intro mult_le_mono1) simp
  then have "unat i * unat m + unat j < 2 ^ 32" using assms(2-4) by simp
  then show ?thesis using assms(2,3) try_encode_eq_None [of i j m] by (cases "try_encode i j m") auto
qed

locale paired_interners =
  left: interner find1 entry1 count1 intern1 payload1 wf1 "2 ^ 32" +
  right: interner find2 entry2 count2 intern2 payload2 wf2 "2 ^ 32"
  for find1 :: "'s \<Rightarrow> 'k \<Rightarrow> u32 option" and entry1 :: "'s \<Rightarrow> u32 \<Rightarrow> 'p option" and count1 :: "'s \<Rightarrow> nat"
    and intern1 :: "'k \<Rightarrow> 'v \<Rightarrow> 's \<Rightarrow> u32 option \<times> 's" and payload1 :: "'k \<Rightarrow> 'v \<Rightarrow> 'p" and wf1 :: "'s \<Rightarrow> bool"
    and find2 :: "'t \<Rightarrow> 'l \<Rightarrow> u32 option" and entry2 :: "'t \<Rightarrow> u32 \<Rightarrow> 'q option" and count2 :: "'t \<Rightarrow> nat"
    and intern2 :: "'l \<Rightarrow> 'w \<Rightarrow> 't \<Rightarrow> u32 option \<times> 't" and payload2 :: "'l \<Rightarrow> 'w \<Rightarrow> 'q" and wf2 :: "'t \<Rightarrow> bool"
begin

definition pair_wf :: "'s \<times> 't \<Rightarrow> bool" where
  "pair_wf s \<longleftrightarrow> wf1 (fst s) \<and> wf2 (snd s)"

definition pair_ext :: "'s \<times> 't \<Rightarrow> 's \<times> 't \<Rightarrow> bool" where
  "pair_ext s s' \<longleftrightarrow>
     (\<forall>k i. find1 (fst s) k = Some i \<longrightarrow> find1 (fst s') k = Some i) \<and>
     (\<forall>k i. find2 (snd s) k = Some i \<longrightarrow> find2 (snd s') k = Some i) \<and>
     (\<forall>i x. entry1 (fst s) i = Some x \<longrightarrow> entry1 (fst s') i = Some x) \<and>
     (\<forall>i x. entry2 (snd s) i = Some x \<longrightarrow> entry2 (snd s') i = Some x) \<and>
     count1 (fst s) \<le> count1 (fst s') \<and> count2 (snd s) \<le> count2 (snd s')"

definition pair_find :: "u32 \<Rightarrow> 'k \<times> 'l \<Rightarrow> 's \<times> 't \<Rightarrow> state_id option" where
  "pair_find m ks s =
     (case (find1 (fst s) (fst ks), find2 (snd s) (snd ks)) of
        (Some i, Some j) \<Rightarrow> try_encode i j m | _ \<Rightarrow> None)"

abbreviation pintern :: "u32 \<Rightarrow> 'k \<times> 'v \<times> 'l \<times> 'w \<Rightarrow> 's \<times> 't \<Rightarrow> state_id option \<times> 's \<times> 't" where
  "pintern \<equiv> pair_intern intern1 intern2"

abbreviation pseq :: "u32 \<Rightarrow> ('a \<times> 'k \<times> 'v \<times> 'l \<times> 'w) list \<Rightarrow> 's \<times> 't \<Rightarrow> ('a \<times> state_id) list \<times> 's \<times> 't" where
  "pseq \<equiv> pair_seq intern1 intern2"

lemma pair_ext_refl: "pair_ext s s"
  by (simp add: pair_ext_def)

lemma pair_ext_trans: "pair_ext s1 s2 \<Longrightarrow> pair_ext s2 s3 \<Longrightarrow> pair_ext s1 s3"
  unfolding pair_ext_def by (meson le_trans)

lemma pair_ext_both: "pair_wf (s1, s2) \<Longrightarrow> pair_ext (s1, s2) (snd (intern1 k1 v1 s1), snd (intern2 k2 v2 s2))"
  unfolding pair_ext_def pair_wf_def
  using left.find_stable right.find_stable left.entry_stable right.entry_stable left.count_mono right.count_mono by auto

lemma pintern_cases:
  assumes "pair_wf (s1, s2)"
  obtains (made) i j target where "intern1 k1 v1 s1 = (Some i, snd (intern1 k1 v1 s1))"
      and "intern2 k2 v2 s2 = (Some j, snd (intern2 k2 v2 s2))" and "try_encode i j m = Some target"
      and "pintern m (k1, v1, k2, v2) (s1, s2) = (Some target, snd (intern1 k1 v1 s1), snd (intern2 k2 v2 s2))"
    | (refused) "pintern m (k1, v1, k2, v2) (s1, s2) = (None, s1, s2)"
        and "\<And>i j. fst (intern1 k1 v1 s1) = Some i \<Longrightarrow> fst (intern2 k2 v2 s2) = Some j \<Longrightarrow> try_encode i j m = None"
proof -
  obtain a s1' where a: "intern1 k1 v1 s1 = (a, s1')" by force
  obtain b s2' where b: "intern2 k2 v2 s2 = (b, s2')" by force
  show ?thesis
    using that a b by (cases a; cases b; cases "try_encode (the a) (the b) m") (auto simp: pair_intern_def)
qed

lemma pintern_keeps:
  assumes "pair_wf s"
  shows "pair_wf (snd (pintern m p s))" and "pair_ext s (snd (pintern m p s))"
proof -
  obtain s1 s2 where s: "s = (s1, s2)" by force
  obtain k1 v1 k2 v2 where p: "p = (k1, v1, k2, v2)" by (cases p) auto
  have wf: "pair_wf (s1, s2)" using assms s by simp
  have "pair_wf (snd (intern1 k1 v1 s1), snd (intern2 k2 v2 s2))"
    using wf left.wf_intern right.wf_intern by (simp add: pair_wf_def)
  then show "pair_wf (snd (pintern m p s))"
    unfolding s p by (rule_tac pintern_cases [OF wf, of k1 v1 k2 v2 m]) (use wf in auto)
  show "pair_ext s (snd (pintern m p s))"
    unfolding s p using pair_ext_both [OF wf, of k1 v1 k2 v2] pair_ext_refl
    by (rule_tac pintern_cases [OF wf, of k1 v1 k2 v2 m]) auto
qed

text \<open>Afterwards the lookup of the two keys tells what was done.\<close>

lemma pintern_found:
  assumes "pair_wf s" and "pintern m (k1, v1, k2, v2) s = (res, s')"
  shows "pair_find m (k1, k2) s' = res"
proof -
  obtain s1 s2 where s: "s = (s1, s2)" by force
  have wf: "pair_wf (s1, s2)" using assms s by simp
  then have w: "wf1 s1" "wf2 s2" by (simp_all add: pair_wf_def)
  show ?thesis
  proof (rule pintern_cases [OF wf, of k1 v1 k2 v2 m])
    fix i j target
    assume made: "intern1 k1 v1 s1 = (Some i, snd (intern1 k1 v1 s1))" "intern2 k2 v2 s2 = (Some j, snd (intern2 k2 v2 s2))"
      "try_encode i j m = Some target"
      "pintern m (k1, v1, k2, v2) (s1, s2) = (Some target, snd (intern1 k1 v1 s1), snd (intern2 k2 v2 s2))"
    have "find1 (snd (intern1 k1 v1 s1)) k1 = Some i" "find2 (snd (intern2 k2 v2 s2)) k2 = Some j"
      using left.intern_result [OF w(1), of k1 v1] right.intern_result [OF w(2), of k2 v2] made(1,2) by (metis fst_conv)+
    then show ?thesis using made(3,4) assms(2) s by (auto simp: pair_find_def)
  next
    assume no: "pintern m (k1, v1, k2, v2) (s1, s2) = (None, s1, s2)"
      "\<And>i j. fst (intern1 k1 v1 s1) = Some i \<Longrightarrow> fst (intern2 k2 v2 s2) = Some j \<Longrightarrow> try_encode i j m = None"
    have "try_encode i j m = None" if "find1 s1 k1 = Some i" "find2 s2 k2 = Some j" for i j
      using no(2) [of i j] left.intern_known [OF w(1) that(1), of v1] right.intern_known [OF w(2) that(2), of v2] by simp
    then show ?thesis using no(1) assms(2) s by (auto simp: pair_find_def split: option.split)
  qed
qed

text \<open>Registering a pair again, in registries that have grown, gives the same answer and changes nothing.\<close>

lemma pintern_again:
  assumes "pair_wf s" and "pintern m p s = (res, s1)" and "pair_wf s2" and "pair_ext s1 s2"
  shows "pintern m p s2 = (res, s2)"
proof -
  obtain k1 v1 k2 v2 where p: "p = (k1, v1, k2, v2)" by (cases p) auto
  obtain a b where s: "s = (a, b)" by force
  obtain a2 b2 where s2: "s2 = (a2, b2)" by force
  have wf: "pair_wf (a, b)" and w: "wf1 a" "wf2 b" and w2: "wf1 a2" "wf2 b2"
    using assms(1,3) s s2 by (simp_all add: pair_wf_def)
  have ext: "pair_ext s s2" using pintern_keeps(2) [OF assms(1), of m p] assms(2,4) pair_ext_trans by simp
  show ?thesis
  proof (cases res)
    case (Some target)
    have "pair_find m (k1, k2) s1 = Some target" using pintern_found [OF assms(1)] assms(2) Some p by blast
    then obtain i j where ij: "find1 (fst s1) k1 = Some i" "find2 (snd s1) k2 = Some j" "try_encode i j m = Some target"
      by (auto simp: pair_find_def split: option.splits)
    then have "find1 a2 k1 = Some i" "find2 b2 k2 = Some j" using assms(4) s2 by (simp_all add: pair_ext_def)
    then show ?thesis using left.intern_known [OF w2(1), of k1 i v1] right.intern_known [OF w2(2), of k2 j v2] ij(3)
      by (simp add: pair_intern_def s2 p Some)
  next
    case None
    have "try_encode i' j' m = None" if ids: "fst (intern1 k1 v1 a2) = Some i'" "fst (intern2 k2 v2 b2) = Some j'" for i' j'
    proof -
      obtain i where i: "fst (intern1 k1 v1 a) = Some i" "unat i \<le> unat i'"
        using left.later_intern [OF w(1) w2(1) _ _ ids(1)] ext s s2 by (auto simp: pair_ext_def)
      obtain j where j: "fst (intern2 k2 v2 b) = Some j" "unat j \<le> unat j'"
        using right.later_intern [OF w(2) w2(2) _ _ ids(2)] ext s s2 by (auto simp: pair_ext_def)
      have "try_encode i j m = None"
        using assms(2) i(1) j(1) by (rule_tac pintern_cases [OF wf, of k1 v1 k2 v2 m]) (simp_all add: s p None)
      then show ?thesis using i(2) j(2) by (rule try_encode_None_mono)
    qed
    then show ?thesis
      by (rule_tac pintern_cases [of a2 b2 k1 v1 k2 v2 m]) (use assms(3) s2 p None in \<open>auto simp: prod_eq_iff\<close>)
  qed
qed

section \<open>Registering a list of pairs\<close>

lemma pseq_Cons:
  "pseq m ((a, p) # ps) s =
     ((case fst (pintern m p s) of Some target \<Rightarrow> [(a, target)] | None \<Rightarrow> []) @ fst (pseq m ps (snd (pintern m p s))),
      snd (pseq m ps (snd (pintern m p s))))"
  by (simp add: case_prod_unfold)

lemma pseq_keeps: "pair_wf s \<Longrightarrow> pair_wf (snd (pseq m ps s)) \<and> pair_ext s (snd (pseq m ps s))"
proof (induction ps arbitrary: s)
  case (Cons ap ps)
  obtain a p where "ap = (a, p)" by (rule prod.exhaust)
  then show ?case
    using Cons.IH [OF pintern_keeps(1) [OF Cons.prems, of m p]] pintern_keeps(2) [OF Cons.prems, of m p] pair_ext_trans
    by (simp add: pseq_Cons del: pair_seq.simps)
qed (simp add: pair_ext_refl)

lemma pseq_again:
  "pair_wf s \<Longrightarrow> pair_wf s2 \<Longrightarrow> pair_ext (snd (pseq m ps s)) s2 \<Longrightarrow> pseq m ps s2 = (fst (pseq m ps s), s2)"
proof (induction ps arbitrary: s)
  case (Cons ap ps)
  obtain a p where ap: "ap = (a, p)" by (rule prod.exhaust)
  let ?s1 = "snd (pintern m p s)"
  have s1: "pair_wf ?s1" using pintern_keeps(1) [OF Cons.prems(1)] .
  have ext: "pair_ext (snd (pseq m ps ?s1)) s2" using Cons.prems(3) by (simp add: ap pseq_Cons del: pair_seq.simps)
  have "pair_ext ?s1 s2" using pseq_keeps [OF s1, of m ps] ext pair_ext_trans by blast
  then have "pintern m p s2 = (fst (pintern m p s), s2)"
    using pintern_again [OF Cons.prems(1) _ Cons.prems(2), of m p] by (metis prod.collapse)
  then show ?case using Cons.IH [OF s1 Cons.prems(2) ext] by (simp add: ap pseq_Cons del: pair_seq.simps)
qed simp

lemma pseq_results:
  "pair_wf s \<Longrightarrow> fst (pseq m ps s) =
     List.map_filter (\<lambda>(a, k1, v1, k2, v2). map_option (Pair a) (pair_find m (k1, k2) (snd (pseq m ps s)))) ps"
proof (induction ps arbitrary: s)
  case (Cons ap ps)
  obtain a k1 v1 k2 v2 where ap: "ap = (a, k1, v1, k2, v2)" by (cases ap) auto
  let ?p = "(k1, v1, k2, v2)"
  let ?s1 = "snd (pintern m ?p s)"
  let ?s2 = "snd (pseq m ps ?s1)"
  have s1: "pair_wf ?s1" using pintern_keeps(1) [OF Cons.prems] .
  have s2: "pair_wf ?s2" "pair_ext ?s1 ?s2" using pseq_keeps [OF s1] by blast+
  have "pintern m ?p ?s2 = (fst (pintern m ?p s), ?s2)"
    using pintern_again [OF Cons.prems _ s2] by (metis prod.collapse)
  then have "pair_find m (k1, k2) ?s2 = fst (pintern m ?p s)" using pintern_found [OF s2(1)] by blast
  then show ?case using Cons.IH [OF s1]
    by (simp add: ap pseq_Cons List.map_filter_simps del: pair_seq.simps split: option.split)
qed (simp add: List.map_filter_simps)

lemma pseq_arcs:
  assumes "pair_wf s"
  shows "(a, target) \<in> set (fst (pseq m ps s)) \<longleftrightarrow>
    (\<exists>k1 v1 k2 v2. (a, k1, v1, k2, v2) \<in> set ps \<and> pair_find m (k1, k2) (snd (pseq m ps s)) = Some target)"
  unfolding pseq_results [OF assms] by (force simp: List.map_filter_def)

text \<open>What every single registration keeps, the list keeps.\<close>

lemma pseq_inv:
  assumes "pair_wf s" and "P (fst s)" and "Q (snd s)"
    and "\<And>a k1 v1 k2 v2 s1. (a, k1, v1, k2, v2) \<in> set ps \<Longrightarrow> wf1 s1 \<Longrightarrow> P s1 \<Longrightarrow> P (snd (intern1 k1 v1 s1))"
    and "\<And>a k1 v1 k2 v2 s2. (a, k1, v1, k2, v2) \<in> set ps \<Longrightarrow> wf2 s2 \<Longrightarrow> Q s2 \<Longrightarrow> Q (snd (intern2 k2 v2 s2))"
  shows "P (fst (snd (pseq m ps s))) \<and> Q (snd (snd (pseq m ps s)))"
  using assms
proof (induction ps arbitrary: s)
  case (Cons ap ps)
  obtain a k1 v1 k2 v2 where ap: "ap = (a, k1, v1, k2, v2)" by (cases ap) auto
  obtain s1 s2 where s: "s = (s1, s2)" by force
  let ?s = "snd (pintern m (k1, v1, k2, v2) s)"
  have wf: "pair_wf (s1, s2)" using Cons.prems(1) s by simp
  have "P (snd (intern1 k1 v1 s1)) \<and> Q (snd (intern2 k2 v2 s2))"
    using Cons.prems(4) [of a k1 v1 k2 v2 s1] Cons.prems(5) [of a k1 v1 k2 v2 s2] Cons.prems(2,3) wf
    by (simp add: ap s pair_wf_def)
  then have "P (fst ?s) \<and> Q (snd ?s)"
    using Cons.prems(2,3) by (rule_tac pintern_cases [OF wf, of k1 v1 k2 v2 m]) (simp_all add: s)
  then have "P (fst (snd (pseq m ps ?s))) \<and> Q (snd (snd (pseq m ps ?s)))"
    using Cons.prems(4,5) by (intro Cons.IH pintern_keeps(1) [OF Cons.prems(1)]) (simp_all, (metis list.set_intros(2))+)
  then show ?case by (simp add: ap pseq_Cons del: pair_seq.simps)
qed simp

section \<open>Room\<close>

definition pair_used :: "'s \<times> 't \<Rightarrow> nat" where
  "pair_used s = max (count1 (fst s)) (count2 (snd s))"

lemma pintern_used:
  assumes "pair_wf s"
  shows "pair_used (snd (pintern m p s)) \<le> Suc (pair_used s)"
proof -
  obtain k1 v1 k2 v2 where p: "p = (k1, v1, k2, v2)" by (cases p) auto
  obtain s1 s2 where s: "s = (s1, s2)" by force
  have wf: "pair_wf (s1, s2)" using assms s by simp
  have "count1 (snd (intern1 k1 v1 s1)) \<le> Suc (count1 s1)"
    by (rule left.intern_cases [of s1 k1 v1]) (use wf in \<open>auto simp: pair_wf_def\<close>)
  moreover have "count2 (snd (intern2 k2 v2 s2)) \<le> Suc (count2 s2)"
    by (rule right.intern_cases [of s2 k2 v2]) (use wf in \<open>auto simp: pair_wf_def\<close>)
  ultimately show ?thesis
    by (rule_tac pintern_cases [OF wf, of k1 v1 k2 v2 m]) (auto simp: s p pair_used_def)
qed

lemma pseq_used: "pair_wf s \<Longrightarrow> pair_used (snd (pseq m ps s)) \<le> pair_used s + length ps"
proof (induction ps arbitrary: s)
  case (Cons ap ps)
  obtain a p where ap: "ap = (a, p)" by (rule prod.exhaust)
  show ?case
    using Cons.IH [OF pintern_keeps(1) [OF Cons.prems, of m p]] pintern_used [OF Cons.prems, of m p]
    by (simp add: ap pseq_Cons del: pair_seq.simps)
qed simp

lemma pintern_room:
  assumes "pair_wf s" and "pair_used s < L" and "L \<le> unat m" and "L * unat m \<le> 2 ^ 32" and "L \<le> 2 ^ 32"
  shows "\<exists>target. fst (pintern m p s) = Some target"
proof -
  obtain k1 v1 k2 v2 where p: "p = (k1, v1, k2, v2)" by (cases p) auto
  obtain s1 s2 where s: "s = (s1, s2)" by force
  have wf: "pair_wf (s1, s2)" and w: "wf1 s1" "wf2 s2" using assms(1) s by (simp_all add: pair_wf_def)
  have c: "count1 s1 < L" "count2 s2 < L" using assms(2) by (simp_all add: s pair_used_def)
  obtain i where i: "fst (intern1 k1 v1 s1) = Some i" "unat i < L"
    using c(1) assms(5) left.find_less [OF w(1), of k1] left.fresh_id [OF w(1)]
    by (rule_tac left.intern_cases [OF w(1), of k1 v1]) force+
  obtain j where j: "fst (intern2 k2 v2 s2) = Some j" "unat j < L"
    using c(2) assms(5) right.find_less [OF w(2), of k2] right.fresh_id [OF w(2)]
    by (rule_tac right.intern_cases [OF w(2), of k2 v2]) force+
  obtain target where "try_encode i j m = Some target" using try_encode_room [OF i(2) j(2) assms(3,4)] by blast
  then show ?thesis
    by (rule_tac pintern_cases [OF wf, of k1 v1 k2 v2 m]) (use i j s p in auto)
qed

lemma pseq_room:
  assumes "pair_used s + length ps \<le> L" and "L \<le> unat m" and "L * unat m \<le> 2 ^ 32" and "L \<le> 2 ^ 32"
    and "pair_wf s" and "(a, k1, v1, k2, v2) \<in> set ps"
  shows "\<exists>target. pair_find m (k1, k2) (snd (pseq m ps s)) = Some target"
  using assms(1,5,6)
proof (induction ps arbitrary: s)
  case (Cons ap ps)
  obtain b p where ap: "ap = (b, p)" by (rule prod.exhaust)
  let ?s1 = "snd (pintern m p s)"
  have s1: "pair_wf ?s1" using pintern_keeps(1) [OF Cons.prems(2)] .
  have used: "pair_used ?s1 + length ps \<le> L" using pintern_used [OF Cons.prems(2), of m p] Cons.prems(1) by simp
  show ?case
  proof (cases "(a, k1, v1, k2, v2) \<in> set ps")
    case True
    then show ?thesis using Cons.IH [OF used s1] by (simp add: ap pseq_Cons del: pair_seq.simps)
  next
    case False
    then have p: "p = (k1, v1, k2, v2)" using Cons.prems(3) ap by auto
    obtain target where t: "fst (pintern m p s) = Some target"
      using pintern_room [OF Cons.prems(2) _ assms(2-4), of p] Cons.prems(1) by auto
    let ?s2 = "snd (pseq m ps ?s1)"
    have "pintern m p ?s2 = (fst (pintern m p s), ?s2)"
      using pintern_again [OF Cons.prems(2), of m p] pseq_keeps [OF s1, of m ps] by (metis prod.collapse)
    then have "pair_find m (k1, k2) ?s2 = Some target"
      using pintern_found [of ?s2] pseq_keeps [OF s1, of m ps] t p by metis
    then show ?thesis by (simp add: ap pseq_Cons del: pair_seq.simps)
  qed
qed simp

end

end
