(* ===== verification/Source_Runs.thy ===== *)
theory Source_Runs
  imports Lazy_Wrapper
begin

text \<open>
  From single arcs to languages. A run of a lazy source reads arcs of states as they are expanded, and
  other states may be expanded in between, in any order. The locale \<open>step_source\<close> says how the arcs of a
  source follow the steps of an abstract machine; its lemmas carry this over to runs and acceptance.
\<close>

section \<open>Runs and acceptance\<close>

inductive src_run ::
    "('s \<Rightarrow> state_id \<Rightarrow> expansion \<times> 's) \<Rightarrow> 's \<Rightarrow> state_id \<Rightarrow> uchar list \<Rightarrow> uchar list \<Rightarrow> rat \<Rightarrow> 's \<Rightarrow> state_id \<Rightarrow> bool"
  for expand where
  src_stay: "src_run expand s q [] [] 0 s q"
| src_other: "src_run expand (snd (expand s x)) q ins outs k s' q' \<Longrightarrow> src_run expand s q ins outs k s' q'"
| src_move: "expand s q = (Expanded f fw ts, s1) \<Longrightarrow> t \<in> set ts \<Longrightarrow> t_weight t = F64 k \<Longrightarrow>
    src_run expand s1 (t_to t) ins outs k' s' q' \<Longrightarrow>
    src_run expand s q (label_word (t_input t) @ ins) (label_word (t_output t) @ outs) (k + k') s' q'"

definition src_accepts ::
    "('s \<Rightarrow> state_id \<Rightarrow> expansion \<times> 's) \<Rightarrow> 's \<Rightarrow> uchar list \<Rightarrow> uchar list \<Rightarrow> rat \<Rightarrow> bool" where
  "src_accepts expand s ins outs k \<longleftrightarrow>
     (\<exists>s' q' k1 k2 ts. src_run expand s 0 ins outs k1 s' q' \<and>
        fst (expand s' q') = Expanded True (F64 k2) ts \<and> k = k1 + k2)"

text \<open>The runs of the abstract machine, with the room that the configurations they leave ask for.\<close>

inductive machine_path ::
    "('c \<Rightarrow> uchar option \<Rightarrow> uchar option \<Rightarrow> rat \<Rightarrow> 'c \<Rightarrow> bool) \<Rightarrow> ('c \<Rightarrow> nat) \<Rightarrow> 'c \<Rightarrow> nat \<Rightarrow> uchar list \<Rightarrow> uchar list \<Rightarrow> rat \<Rightarrow> 'c \<Rightarrow> bool"
  for step grow where
  path_stay: "machine_path step grow c 0 [] [] 0 c"
| path_move: "step c i out k c1 \<Longrightarrow> machine_path step grow c1 l ins outs k' c' \<Longrightarrow>
    machine_path step grow c (grow c + l) (label_word i @ ins) (label_word out @ outs) (k + k') c'"

section \<open>Sources that follow a machine\<close>

locale step_source =
  fixes expand :: "'s \<Rightarrow> state_id \<Rightarrow> expansion \<times> 's"
    and swf :: "'s \<Rightarrow> bool"
    and stands :: "'s \<Rightarrow> state_id \<Rightarrow> 'c \<Rightarrow> bool"
    and step :: "'c \<Rightarrow> uchar option \<Rightarrow> uchar option \<Rightarrow> rat \<Rightarrow> 'c \<Rightarrow> bool"
    and final :: "'c \<Rightarrow> rat option"
    and used :: "'s \<Rightarrow> nat"
    and grow :: "'c \<Rightarrow> nat"
    and room :: nat
    and bounded :: bool
  assumes swf_expand: "swf s \<Longrightarrow> swf (snd (expand s x))"
    and stands_expand: "swf s \<Longrightarrow> stands s q c \<Longrightarrow> stands (snd (expand s x)) q c"
    and expand_final: "swf s \<Longrightarrow> stands s q c \<Longrightarrow>
      \<exists>ts. fst (expand s q) = Expanded (final c \<noteq> None) (case final c of Some k \<Rightarrow> F64 k | None \<Rightarrow> tropical_zero) ts"
    and arcs_sound: "swf s \<Longrightarrow> stands s q c \<Longrightarrow> expand s q = (Expanded f w ts, s') \<Longrightarrow> t \<in> set ts \<Longrightarrow>
      \<exists>k c'. t_weight t = F64 k \<and> step c (t_input t) (t_output t) k c' \<and> stands s' (t_to t) c'"
    and arcs_complete: "swf s \<Longrightarrow> stands s q c \<Longrightarrow> expand s q = (Expanded f w ts, s') \<Longrightarrow> step c i out k c' \<Longrightarrow>
      bounded \<Longrightarrow> used s + grow c \<le> room \<Longrightarrow>
      \<exists>t \<in> set ts. t_input t = i \<and> t_output t = out \<and> t_weight t = F64 k \<and> stands s' (t_to t) c'"
    and used_expand: "swf s \<Longrightarrow> stands s q c \<Longrightarrow> bounded \<Longrightarrow> used (snd (expand s q)) \<le> used s + grow c"
begin

lemma follows_sound:
  "src_run expand s q ins outs k s' q' \<Longrightarrow> swf s \<Longrightarrow> stands s q c \<Longrightarrow>
     \<exists>l c'. machine_path step grow c l ins outs k c' \<and> stands s' q' c' \<and> swf s'"
proof (induction arbitrary: c rule: src_run.induct)
  case (src_stay s q)
  then show ?case using path_stay [of step grow c] by blast
next
  case (src_other s x q ins outs k s' q')
  then show ?case using swf_expand stands_expand by blast
next
  case (src_move s q f fw ts s1 t k ins outs k' s' q')
  obtain k2 c1 where c1: "t_weight t = F64 k2" "step c (t_input t) (t_output t) k2 c1" "stands s1 (t_to t) c1"
    using arcs_sound [OF src_move.prems src_move.hyps(1,2)] by blast
  have "swf s1" using swf_expand [OF src_move.prems(1), of q] src_move.hyps(1) by simp
  then obtain l c' where c': "machine_path step grow c1 l ins outs k' c'" "stands s' q' c'" "swf s'"
    using src_move.IH [OF _ c1(3)] by blast
  have "k2 = k" using c1(1) src_move.hyps(3) by simp
  then have "machine_path step grow c (grow c + l) (label_word (t_input t) @ ins) (label_word (t_output t) @ outs) (k + k') c'"
    using path_move [OF _ c'(1)] c1(2) by simp
  then show ?case using c'(2,3) by blast
qed

lemma follows_complete:
  "machine_path step grow c l ins outs k c' \<Longrightarrow> swf s \<Longrightarrow> stands s q c \<Longrightarrow> bounded \<Longrightarrow> used s + l \<le> room \<Longrightarrow>
     \<exists>s' q'. src_run expand s q ins outs k s' q' \<and> stands s' q' c' \<and> swf s'"
proof (induction arbitrary: s q rule: machine_path.induct)
  case (path_stay c)
  then show ?case using src_stay [of expand s q] by blast
next
  case (path_move c i out k c1 l ins outs k' c')
  obtain f w ts s1 where e: "expand s q = (Expanded f w ts, s1)"
    using expand_final [OF path_move.prems(1,2)] by (metis prod.collapse)
  have "used s + grow c \<le> room" using path_move.prems(4) by simp
  then obtain t where t: "t \<in> set ts" "t_input t = i" "t_output t = out" "t_weight t = F64 k" "stands s1 (t_to t) c1"
    using arcs_complete [OF path_move.prems(1,2) e path_move.hyps(1) path_move.prems(3)] by blast
  have "swf s1" "used s1 \<le> used s + grow c"
    using swf_expand [OF path_move.prems(1), of q] used_expand [OF path_move.prems(1-3)] e by simp_all
  then obtain s' q' where r: "src_run expand s1 (t_to t) ins outs k' s' q'" "stands s' q' c'" "swf s'"
    using path_move.IH [of s1 "t_to t"] t(5) path_move.prems(3,4) by auto
  have "src_run expand s q (label_word i @ ins) (label_word out @ outs) (k + k') s' q'"
    using src_move [of expand s q f w ts s1 t k ins outs k' s' q'] e t r(1) by simp
  then show ?case using r(2,3) by blast
qed

lemma accepts_sound:
  assumes "swf s" and "stands s 0 c" and "src_accepts expand s ins outs k"
  shows "\<exists>l c' k1 k2. machine_path step grow c l ins outs k1 c' \<and> final c' = Some k2 \<and> k = k1 + k2"
proof -
  obtain s' q' k1 k2 ts where r: "src_run expand s 0 ins outs k1 s' q'" "fst (expand s' q') = Expanded True (F64 k2) ts" "k = k1 + k2"
    using assms(3) unfolding src_accepts_def by blast
  obtain l c' where c': "machine_path step grow c l ins outs k1 c'" "stands s' q' c'" "swf s'"
    using follows_sound [OF r(1) assms(1,2)] by blast
  have "final c' = Some k2" using expand_final [OF c'(3,2)] r(2) by (auto split: option.splits)
  then show ?thesis using c'(1) r(3) by blast
qed

lemma accepts_complete:
  assumes "swf s" and "stands s 0 c" and "machine_path step grow c l ins outs k1 c'" and "final c' = Some k2"
    and bounded and "used s + l \<le> room"
  shows "src_accepts expand s ins outs (k1 + k2)"
proof -
  obtain s' q' where r: "src_run expand s 0 ins outs k1 s' q'" "stands s' q' c'" "swf s'"
    using follows_complete [OF assms(3,1,2,5,6)] by blast
  obtain ts where "fst (expand s' q') = Expanded True (F64 k2) ts" using expand_final [OF r(3,2)] assms(4) by auto
  then show ?thesis using r(1) unfolding src_accepts_def by blast
qed

end

end
