(* ===== verification/Phonetic_Frontier.thy ===== *)
theory Phonetic_Frontier
  imports Phonetic_Nfa Foreign_Memory "HOL-Library.List_Lexorder" "HOL-Library.Product_Lexorder"
begin

text \<open>
  \<open>src/phonetic_state_support.rs\<close>: the frontiers of the phonetic product automaton, brought into a canonical
  order, packed into byte keys and numbered. A frontier is a vector of \<open>ProductStateChar\<close>, the library's
  record of active NFA states and the cost accumulated so far. Costs enter a key rounded to millionths; a
  finite cost is its rational value and its product with the scale is taken exactly.
\<close>

section \<open>Frontiers and keys\<close>

record frontier_state =
  fs_nfa_states :: "nfa_state list"
  fs_cost :: f64

type_synonym frontier = "frontier_state list"

type_synonym frontier_key = "byte list"

definition i64_max :: int where "i64_max = 2 ^ 63 - 1"

definition i64_min :: int where "i64_min = - (2 ^ 63)"

text \<open>\<open>f64::round\<close>: halves away from zero.\<close>

definition round_half_away :: "rat \<Rightarrow> int" where
  "round_half_away x = (if x < 0 then - floor (1 / 2 - x) else floor (x + 1 / 2))"

definition product_cost_key_scale :: rat where
  "product_cost_key_scale = 1000000"

fun product_cost_key :: "f64 \<Rightarrow> int" where
  "product_cost_key F64_NaN = i64_min"
| "product_cost_key F64_PosInf = i64_max"
| "product_cost_key F64_NegInf = i64_min + 1"
| "product_cost_key (F64 cost) =
     (let scaled = round_half_away (cost * product_cost_key_scale)
      in if scaled \<ge> 2 ^ 63 then i64_max else if scaled \<le> i64_min then i64_min else scaled)"

definition canonicalize_nfa_states :: "nfa_state list \<Rightarrow> nfa_state list" where
  "canonicalize_nfa_states states =
     (if list_all (\<lambda>(a, b). a < b) (zip states (tl states)) then states else remdups_adj (sort states))"

definition product_states_share_key :: "frontier_state \<Rightarrow> frontier_state \<Rightarrow> bool" where
  "product_states_share_key left right \<longleftrightarrow>
     product_cost_key (fs_cost left) = product_cost_key (fs_cost right) \<and> fs_nfa_states left = fs_nfa_states right"

text \<open>
  \<open>f64::total_cmp\<close> orders by this key, but for the sign of a zero, which is not represented. It is only the last
  key of the order of frontiers: states that differ in nothing but that sign have the same cost key and the
  same NFA states, and all but one of them are dropped.
\<close>

fun f64_total_key :: "f64 \<Rightarrow> int \<times> rat" where
  "f64_total_key F64_NegInf = (0, 0)"
| "f64_total_key (F64 r) = (1, r)"
| "f64_total_key F64_PosInf = (2, 0)"
| "f64_total_key F64_NaN = (3, 0)"

definition frontier_order :: "frontier_state \<Rightarrow> int \<times> nfa_state list \<times> int \<times> rat" where
  "frontier_order s = (product_cost_key (fs_cost s), fs_nfa_states s, f64_total_key (fs_cost s))"

text \<open>\<open>Vec::dedup_by\<close>: of a run of equal neighbours the first stays.\<close>

fun dedup_by :: "('a \<Rightarrow> 'a \<Rightarrow> bool) \<Rightarrow> 'a list \<Rightarrow> 'a list" where
  "dedup_by same [] = []"
| "dedup_by same [x] = [x]"
| "dedup_by same (x # y # xs) = (if same y x then dedup_by same (x # xs) else x # dedup_by same (y # xs))"

definition canonicalize_product_frontier :: "frontier \<Rightarrow> frontier" where
  "canonicalize_product_frontier F =
     (let F' = map (\<lambda>s. s\<lparr>fs_nfa_states := canonicalize_nfa_states (fs_nfa_states s)\<rparr>) F
      in if length F' > 1 then dedup_by product_states_share_key (sort_key frontier_order F') else F')"

definition next_phonetic_registry_id :: "usize \<Rightarrow> u32 option" where
  "next_phonetic_registry_id len = u32_try_from len"

definition append_product_state_key_parts :: "byte list \<Rightarrow> nfa_state list \<Rightarrow> int \<Rightarrow> byte list option" where
  "append_product_state_key_parts bytes nfa_states cost_key =
     (case next_phonetic_registry_id (length nfa_states) of
        None \<Rightarrow> None
      | Some n \<Rightarrow> Some (bytes @ le_bytes 4 (unat n) @ concat (map (\<lambda>s. le_bytes 4 (unat s)) nfa_states) @
                       le_bytes 8 (nat (cost_key mod 2 ^ 64))))"

fun append_frontier_key :: "byte list \<Rightarrow> frontier \<Rightarrow> byte list option" where
  "append_frontier_key bytes [] = Some bytes"
| "append_frontier_key bytes (s # F) =
     (case append_product_state_key_parts bytes (fs_nfa_states s) (product_cost_key (fs_cost s)) of
        None \<Rightarrow> None
      | Some bytes' \<Rightarrow> append_frontier_key bytes' F)"

definition canonical_product_frontier_to_key :: "frontier \<Rightarrow> frontier_key option" where
  "canonical_product_frontier_to_key F = append_frontier_key [] F"

definition prepare_state :: "frontier \<Rightarrow> (frontier \<times> frontier_key) option" where
  "prepare_state F =
     (let F' = canonicalize_product_frontier F
      in map_option (\<lambda>key. (F', key)) (canonical_product_frontier_to_key F'))"

definition estimated_phonetic_product_states :: "8 word \<Rightarrow> u32" where
  "estimated_phonetic_product_states d = max (saturating_mul (saturating_add (ucast d) 1) 1000) 10000"

section \<open>The registry\<close>

record frontier_registry =
  fr_state_to_id :: "frontier_key \<rightharpoonup> u32"
  fr_id_to_state :: "frontier list"

definition fr_id_for_key :: "frontier_registry \<Rightarrow> frontier_key \<Rightarrow> u32 option" where
  "fr_id_for_key r key = fr_state_to_id r key"

definition register_prepared_state_with_key ::
    "frontier_key \<Rightarrow> frontier \<Rightarrow> frontier_registry \<Rightarrow> u32 option \<times> frontier_registry" where
  "register_prepared_state_with_key key F r =
     (case fr_state_to_id r key of
        Some i \<Rightarrow> (Some i, r)
      | None \<Rightarrow>
          (case next_phonetic_registry_id (length (fr_id_to_state r)) of
             None \<Rightarrow> (None, r)
           | Some i \<Rightarrow>
               (Some i, r\<lparr>fr_state_to_id := (fr_state_to_id r)(key \<mapsto> i), fr_id_to_state := fr_id_to_state r @ [F]\<rparr>)))"

definition fr_register_state :: "frontier \<Rightarrow> frontier_registry \<Rightarrow> u32 option \<times> frontier_registry" where
  "fr_register_state F r =
     (case prepare_state F of None \<Rightarrow> (None, r) | Some (F', key) \<Rightarrow> register_prepared_state_with_key key F' r)"

definition candidate_state_id_for_key :: "frontier_registry \<Rightarrow> frontier_key \<Rightarrow> u32 option" where
  "candidate_state_id_for_key r key =
     (case fr_state_to_id r key of Some i \<Rightarrow> Some i | None \<Rightarrow> next_phonetic_registry_id (length (fr_id_to_state r)))"

definition fr_get_state :: "frontier_registry \<Rightarrow> u32 \<Rightarrow> frontier option" where
  "fr_get_state r i = nth_opt (fr_id_to_state r) (unat i)"

definition fr_len :: "frontier_registry \<Rightarrow> usize" where
  "fr_len r = length (fr_id_to_state r)"

definition fr_new :: "frontier \<Rightarrow> frontier_registry" where
  "fr_new initial = snd (fr_register_state initial \<lparr>fr_state_to_id = Map.empty, fr_id_to_state = []\<rparr>)"

definition fr_wf :: "frontier_registry \<Rightarrow> bool" where
  "fr_wf r \<longleftrightarrow> length (fr_id_to_state r) \<le> 2 ^ 32 \<and> dense_map (fr_state_to_id r) (length (fr_id_to_state r))"

lemmas fr_defs = fr_id_for_key_def register_prepared_state_with_key_def fr_get_state_def fr_len_def
  next_phonetic_registry_id_def candidate_state_id_for_key_def

interpretation front_reg: interner fr_id_for_key fr_get_state fr_len register_prepared_state_with_key "\<lambda>k v. v" fr_wf "2 ^ 32"
proof unfold_locales
  fix s :: frontier_registry and k k' :: frontier_key and v :: frontier and i :: u32
  assume wf: "fr_wf s"
  then have dense: "dense_map (fr_state_to_id s) (length (fr_id_to_state s))" by (simp add: fr_wf_def)
  show "fr_wf (snd (register_prepared_state_with_key k v s))"
    using wf by (auto simp: fr_wf_def fr_defs u32_try_from_def dense_map_insert split: option.split)
  show "fr_len s \<le> 2 ^ 32" using wf by (simp add: fr_wf_def fr_len_def)
  show "fr_id_for_key s k = Some i \<Longrightarrow> unat i < fr_len s"
    using dense_map_less [OF dense] by (simp add: fr_defs)
  show "fr_id_for_key s k = Some i \<Longrightarrow> fr_id_for_key s k' = Some i \<Longrightarrow> k = k'"
    using dense_map_inj [OF dense] by (simp add: fr_defs)
  show "unat i < fr_len s \<Longrightarrow> \<exists>k. fr_id_for_key s k = Some i"
    using dense_map_surj [OF dense] by (simp add: fr_defs)
  show "(fr_get_state s i = None) = (fr_len s \<le> unat i)" by (simp add: fr_defs)
  show "fr_id_for_key s k = Some i \<Longrightarrow> register_prepared_state_with_key k v s = (Some i, s)"
    by (simp add: fr_defs)
  show "fr_id_for_key s k = None \<Longrightarrow> fr_len s = 2 ^ 32 \<Longrightarrow> register_prepared_state_with_key k v s = (None, s)"
    by (simp add: fr_defs u32_try_from_def)
  assume new: "fr_id_for_key s k = None" and lt: "fr_len s < 2 ^ 32"
  then have step: "register_prepared_state_with_key k v s = (Some (of_nat (fr_len s)),
      s\<lparr>fr_state_to_id := (fr_state_to_id s)(k \<mapsto> of_nat (fr_len s)), fr_id_to_state := fr_id_to_state s @ [v]\<rparr>)"
    by (simp add: fr_defs u32_try_from_def)
  show "fst (register_prepared_state_with_key k v s) = Some (of_nat (fr_len s))"
    and "fr_len (snd (register_prepared_state_with_key k v s)) = Suc (fr_len s)"
    and "fr_id_for_key (snd (register_prepared_state_with_key k v s)) = (fr_id_for_key s)(k \<mapsto> of_nat (fr_len s))"
    by (simp_all add: step fr_len_def fr_id_for_key_def fun_eq_iff)
  show "fr_get_state (snd (register_prepared_state_with_key k v s)) = (fr_get_state s)(of_nat (fr_len s) \<mapsto> v)"
    using lt nth_opt_snoc [of "fr_id_to_state s" v] by (simp add: step fr_len_def fr_get_state_def fun_eq_iff)
qed simp

lemma candidate_state_id: "fr_wf r \<Longrightarrow> candidate_state_id_for_key r k = fst (register_prepared_state_with_key k F r)"
  by (auto simp: fr_defs split: option.split)

section \<open>What a key says\<close>

text \<open>The content of a frontier: its sets of NFA states, each with a rounded cost.\<close>

definition frontier_pair :: "frontier_state \<Rightarrow> int \<times> nfa_state list" where
  "frontier_pair s = (product_cost_key (fs_cost s), fs_nfa_states s)"

definition frontier_content :: "frontier \<Rightarrow> (int \<times> nfa_state set) set" where
  "frontier_content F = (\<lambda>s. (product_cost_key (fs_cost s), set (fs_nfa_states s))) ` set F"

lemma increasing_sorted: "list_all (\<lambda>(a, b). a < b) (zip xs (tl xs)) \<Longrightarrow> sorted_wrt (<) (xs :: 'a :: linorder list)"
proof (induction xs)
  case (Cons x xs)
  show ?case
  proof (cases xs)
    case (Cons y ys)
    then show ?thesis using Cons.IH Cons.prems by auto
  qed simp
qed simp

lemma strict_remdups_adj: "sorted xs \<Longrightarrow> sorted_wrt (<) (remdups_adj xs)"
  by (induction xs rule: remdups_adj.induct) auto

lemma canonicalize_nfa_states_ok:
  "sorted_wrt (<) (canonicalize_nfa_states states) \<and> set (canonicalize_nfa_states states) = set states"
  using increasing_sorted [of states] strict_remdups_adj [of "sort states"] by (simp add: canonicalize_nfa_states_def)

lemma map_dedup_by: "(\<And>x y. same y x \<longleftrightarrow> f x = f y) \<Longrightarrow> map f (dedup_by same xs) = remdups_adj (map f xs)"
  by (induction same xs rule: dedup_by.induct) auto

lemma sorted_pairs: "sorted (map frontier_order F) \<Longrightarrow> sorted (map frontier_pair F)"
  by (induction F) (auto simp: frontier_order_def frontier_pair_def)

lemma canonical_pairs:
  "sorted_wrt (<) (map frontier_pair (canonicalize_product_frontier F)) \<and>
   set (map frontier_pair (canonicalize_product_frontier F)) =
     (\<lambda>s. (product_cost_key (fs_cost s), canonicalize_nfa_states (fs_nfa_states s))) ` set F"
proof -
  let ?F = "map (\<lambda>s. s\<lparr>fs_nfa_states := canonicalize_nfa_states (fs_nfa_states s)\<rparr>) F"
  have set: "set (map frontier_pair ?F) = (\<lambda>s. (product_cost_key (fs_cost s), canonicalize_nfa_states (fs_nfa_states s))) ` set F"
    by (force simp: frontier_pair_def)
  show ?thesis
  proof (cases "length F > 1")
    case True
    have "map frontier_pair (dedup_by product_states_share_key (sort_key frontier_order ?F)) =
        remdups_adj (map frontier_pair (sort_key frontier_order ?F))"
      by (rule map_dedup_by) (auto simp: product_states_share_key_def frontier_pair_def)
    moreover have "sorted (map frontier_pair (sort_key frontier_order ?F))" by (rule sorted_pairs) simp
    ultimately show ?thesis using True set
      by (simp add: canonicalize_product_frontier_def strict_remdups_adj image_image)
  next
    case False
    then have "F = [] \<or> (\<exists>s. F = [s])" by (cases F) auto
    then show ?thesis using set by (auto simp: canonicalize_product_frontier_def)
  qed
qed

lemma frontier_content_eq:
  "frontier_content F = (\<lambda>(k, xs). (k, set xs)) `
     (\<lambda>s. (product_cost_key (fs_cost s), canonicalize_nfa_states (fs_nfa_states s))) ` set F"
  by (simp add: frontier_content_def image_image canonicalize_nfa_states_ok)

lemma canonical_content:
  "frontier_content F = frontier_content G \<longleftrightarrow>
     map frontier_pair (canonicalize_product_frontier F) = map frontier_pair (canonicalize_product_frontier G)"
proof -
  let ?c = "\<lambda>(k, xs). (k, set xs :: nfa_state set)"
  let ?p = "\<lambda>F. (\<lambda>s. (product_cost_key (fs_cost s), canonicalize_nfa_states (fs_nfa_states s))) ` set F"
  let ?S = "{(k, xs). sorted_wrt (<) xs} :: (int \<times> nfa_state list) set"
  have inj: "inj_on ?c ?S"
    by (auto simp: inj_on_def intro: strict_sorted_equal)
  have sub: "?p F \<subseteq> ?S" for F using canonicalize_nfa_states_ok by auto
  have "frontier_content F = frontier_content G \<longleftrightarrow> ?p F = ?p G"
    unfolding frontier_content_eq by (rule inj_on_image_eq_iff [OF inj sub sub])
  also have "\<dots> \<longleftrightarrow> map frontier_pair (canonicalize_product_frontier F) = map frontier_pair (canonicalize_product_frontier G)"
  proof
    assume "?p F = ?p G"
    then have "set (map frontier_pair (canonicalize_product_frontier F)) = set (map frontier_pair (canonicalize_product_frontier G))"
      using canonical_pairs by (simp only:)
    then show "map frontier_pair (canonicalize_product_frontier F) = map frontier_pair (canonicalize_product_frontier G)"
      using canonical_pairs by (intro strict_sorted_equal) simp_all
  next
    assume "map frontier_pair (canonicalize_product_frontier F) = map frontier_pair (canonicalize_product_frontier G)"
    then show "?p F = ?p G" using canonical_pairs by metis
  qed
  finally show ?thesis .
qed

text \<open>The bytes can be read back, part by part.\<close>

lemma le_bytes_inject: "le_bytes k m = le_bytes k n \<Longrightarrow> m < 256 ^ k \<Longrightarrow> n < 256 ^ k \<Longrightarrow> m = n"
  by (metis le_nat_bytes mod_less)

lemma append_inject_length: "xs @ ys = xs' @ ys' \<Longrightarrow> length xs = length xs' \<Longrightarrow> xs = xs' \<and> ys = ys'"
  by simp

lemma words_inject:
  "concat (map (\<lambda>s :: nfa_state. le_bytes 4 (unat s)) xs) @ bs = concat (map (\<lambda>s. le_bytes 4 (unat s)) ys) @ cs \<Longrightarrow>
     length xs = length ys \<Longrightarrow> xs = ys \<and> bs = cs"
proof (induction xs arbitrary: ys)
  case (Cons x xs)
  then obtain y ys' where ys: "ys = y # ys'" by (cases ys) auto
  have bytes: "le_bytes 4 (unat x) = le_bytes 4 (unat y)" and rest: "concat (map (\<lambda>s :: nfa_state. le_bytes 4 (unat s)) xs) @ bs = concat (map (\<lambda>s. le_bytes 4 (unat s)) ys') @ cs"
    using Cons.prems(1) by (simp_all add: ys)
  have lt: "unat z < 256 ^ 4" for z :: u32 using unat_less_exp [of z] by simp
  have "x = y" using le_bytes_inject [OF bytes lt lt] by (simp add: word_unat_eq_iff)
  then show ?case using Cons.IH [OF rest] Cons.prems(2) ys by simp
qed simp

lemma cost_key_range: "- 9223372036854775808 \<le> product_cost_key c" "product_cost_key c < 9223372036854775808"
  by (cases c; auto simp: i64_min_def i64_max_def Let_def)+

lemma cost_bytes_inject:
  assumes "le_bytes 8 (nat (product_cost_key c mod 2 ^ 64)) = le_bytes 8 (nat (product_cost_key d mod 2 ^ 64))"
  shows "product_cost_key c = product_cost_key d"
proof -
  let ?a = "product_cost_key c" and ?b = "product_cost_key d"
  have lt: "nat (x mod 2 ^ 64) < 256 ^ 8" for x :: int
    using pos_mod_bound [of "2 ^ 64" x] pos_mod_sign [of "2 ^ 64" x] by (simp add: nat_less_iff)
  have "nat (?a mod 2 ^ 64) = nat (?b mod 2 ^ 64)" using le_bytes_inject [OF assms lt lt] .
  then have "?a mod 2 ^ 64 = ?b mod 2 ^ 64" using pos_mod_sign [of "2 ^ 64"] by (simp add: eq_nat_nat_iff)
  then have "(2 :: int) ^ 64 dvd ?a - ?b" by (simp add: mod_eq_dvd_iff)
  moreover have "\<bar>?a - ?b\<bar> < 2 ^ 64" using cost_key_range [of c] cost_key_range [of d] by simp
  ultimately show ?thesis using zdvd_not_zless [of "\<bar>?a - ?b\<bar>" "2 ^ 64"] by fastforce
qed

lemma append_frontier_key_eq: "append_frontier_key bs F = map_option ((@) bs) (append_frontier_key [] F)"
proof (induction F arbitrary: bs)
  case (Cons s F)
  let ?parts = "\<lambda>bs. append_product_state_key_parts bs (fs_nfa_states s) (product_cost_key (fs_cost s))"
  have parts: "?parts bs = map_option ((@) bs) (?parts [])"
    by (simp add: append_product_state_key_parts_def split: option.split)
  show ?case
  proof (cases "?parts []")
    case (Some b)
    then have "append_frontier_key bs (s # F) = append_frontier_key (bs @ b) F" "append_frontier_key [] (s # F) = append_frontier_key b F"
      using parts by simp_all
    then show ?thesis using Cons.IH [of "bs @ b"] Cons.IH [of b] by (cases "append_frontier_key [] F") simp_all
  qed (use parts in simp)
qed simp

definition frontier_entry_bytes :: "frontier_state \<Rightarrow> byte list" where
  "frontier_entry_bytes s = le_bytes 4 (length (fs_nfa_states s)) @ concat (map (\<lambda>s. le_bytes 4 (unat s)) (fs_nfa_states s)) @
     le_bytes 8 (nat (product_cost_key (fs_cost s) mod 2 ^ 64))"

lemma frontier_key_Cons:
  "append_frontier_key [] (s # F) = Some k \<longleftrightarrow> length (fs_nfa_states s) < 2 ^ 32 \<and>
     (\<exists>k'. append_frontier_key [] F = Some k' \<and> k = frontier_entry_bytes s @ k')"
proof -
  have "append_product_state_key_parts [] (fs_nfa_states s) (product_cost_key (fs_cost s)) =
      (if length (fs_nfa_states s) < 2 ^ 32 then Some (frontier_entry_bytes s) else None)"
    by (simp add: append_product_state_key_parts_def next_phonetic_registry_id_def u32_try_from_def unat_of_nat frontier_entry_bytes_def)
  then show ?thesis using append_frontier_key_eq [of "frontier_entry_bytes s" F] by auto
qed

lemma frontier_entry_nonempty: "frontier_entry_bytes s \<noteq> []"
proof -
  have "length (frontier_entry_bytes s) \<ge> 4" by (simp add: frontier_entry_bytes_def)
  then show ?thesis by auto
qed

lemma frontier_entry_inject:
  assumes "frontier_entry_bytes s @ k1 = frontier_entry_bytes t @ k2"
    and "length (fs_nfa_states s) < 2 ^ 32" and "length (fs_nfa_states t) < 2 ^ 32"
  shows "frontier_pair s = frontier_pair t \<and> k1 = k2"
proof -
  let ?w = "\<lambda>xs. concat (map (\<lambda>s :: nfa_state. le_bytes 4 (unat s)) xs)"
  let ?c = "\<lambda>s. le_bytes 8 (nat (product_cost_key (fs_cost s) mod 2 ^ 64))"
  have len: "le_bytes 4 (length (fs_nfa_states s)) = le_bytes 4 (length (fs_nfa_states t))"
    and rest: "?w (fs_nfa_states s) @ ?c s @ k1 = ?w (fs_nfa_states t) @ ?c t @ k2"
    using assms(1) by (simp_all add: frontier_entry_bytes_def)
  have lens: "length (fs_nfa_states s) = length (fs_nfa_states t)"
    by (rule le_bytes_inject [OF len]) (use assms(2,3) in simp_all)
  have states: "fs_nfa_states s = fs_nfa_states t" and costs: "?c s @ k1 = ?c t @ k2"
    using words_inject [OF rest lens] by blast+
  have "?c s = ?c t" "k1 = k2" using costs by simp_all
  then show ?thesis using cost_bytes_inject [of "fs_cost s" "fs_cost t"] states by (simp add: frontier_pair_def)
qed

lemma frontier_key_inject:
  "append_frontier_key [] F = Some k \<Longrightarrow> append_frontier_key [] G = Some k \<Longrightarrow> map frontier_pair F = map frontier_pair G"
proof (induction F arbitrary: G k)
  case Nil
  then have "k = []" by simp
  then show ?case using Nil.prems(2) frontier_entry_nonempty by (cases G) (simp_all add: frontier_key_Cons del: append_frontier_key.simps(2))
next
  case (Cons s F)
  obtain k1 where k1: "append_frontier_key [] F = Some k1" "length (fs_nfa_states s) < 2 ^ 32" "k = frontier_entry_bytes s @ k1"
    using Cons.prems(1) unfolding frontier_key_Cons by blast
  have "G \<noteq> []"
  proof
    assume "G = []"
    then have "k = []" using Cons.prems(2) by simp
    then show False using k1(3) frontier_entry_nonempty by simp
  qed
  then obtain t G' where G: "G = t # G'" by (cases G) auto
  obtain k2 where k2: "append_frontier_key [] G' = Some k2" "length (fs_nfa_states t) < 2 ^ 32" "k = frontier_entry_bytes t @ k2"
    using Cons.prems(2) unfolding G frontier_key_Cons by blast
  have "frontier_pair s = frontier_pair t" "k1 = k2"
    using frontier_entry_inject [of s k1 t k2] k1(2,3) k2(2,3) by simp_all
  then show ?case using Cons.IH [OF k1(1)] k2(1) by (simp add: G)
qed

lemma frontier_key_pairs: "map frontier_pair F = map frontier_pair G \<Longrightarrow> append_frontier_key bs F = append_frontier_key bs G"
proof (induction F arbitrary: G bs)
  case (Cons s F)
  then obtain t G' where "G = t # G'" by (cases G) auto
  then show ?case using Cons by (auto simp: frontier_pair_def split: option.split)
qed simp

lemma frontier_key_exact_aux: "prepare_state F = Some (F', k) \<Longrightarrow> frontier_content F' = frontier_content F"
proof -
  assume "prepare_state F = Some (F', k)"
  then have F': "F' = canonicalize_product_frontier F" by (auto simp: prepare_state_def Let_def)
  have "frontier_content F' = (\<lambda>(k, xs). (k, set xs)) ` set (map frontier_pair F')"
    by (simp add: frontier_content_def frontier_pair_def image_image)
  also have "\<dots> = frontier_content F"
    using canonical_pairs [of F] unfolding F' frontier_content_eq by simp
  finally show ?thesis .
qed

text \<open>
  C14: phonetic: the key of a frontier is exact: two frontiers that have keys have the same key exactly when
  they hold the same sets of NFA states at the same costs, to the millionth, in whatever order and however
  often; and the canonical frontier that is registered has the key of the frontier it came from.
\<close>

theorem frontier_key_exact:
  assumes "prepare_state F = Some (F', k)" and "prepare_state G = Some (G', k')"
  shows "(k = k' \<longleftrightarrow> frontier_content F = frontier_content G) \<and> frontier_content F' = frontier_content F"
proof -
  have F: "F' = canonicalize_product_frontier F" "append_frontier_key [] F' = Some k"
    and G: "G' = canonicalize_product_frontier G" "append_frontier_key [] G' = Some k'"
    using assms by (auto simp: prepare_state_def canonical_product_frontier_to_key_def Let_def)
  have "k = k' \<longleftrightarrow> map frontier_pair F' = map frontier_pair G'"
    using frontier_key_inject [OF F(2), of G'] frontier_key_pairs [of F' G' "[]"] F(2) G(2) by auto
  then show ?thesis using canonical_content [of F G] F(1) G(1) frontier_key_exact_aux [OF assms(1)] by simp
qed

theorem frontier_key_exact_witness:
  "\<exists>k k'. prepare_state [\<lparr>fs_nfa_states = [2, 1], fs_cost = F64 1\<rparr>] = Some ([\<lparr>fs_nfa_states = [1, 2], fs_cost = F64 1\<rparr>], k) \<and>
     prepare_state [\<lparr>fs_nfa_states = [1, 2], fs_cost = F64 2\<rparr>] = Some ([\<lparr>fs_nfa_states = [1, 2], fs_cost = F64 2\<rparr>], k') \<and> k \<noteq> k'"
proof -
  let ?F = "[\<lparr>fs_nfa_states = [2, 1], fs_cost = F64 1\<rparr>] :: frontier"
  let ?G = "[\<lparr>fs_nfa_states = [1, 2], fs_cost = F64 2\<rparr>] :: frontier"
  have canon: "canonicalize_product_frontier ?F = [\<lparr>fs_nfa_states = [1, 2], fs_cost = F64 1\<rparr>]" "canonicalize_product_frontier ?G = ?G"
    by (simp_all add: canonicalize_product_frontier_def canonicalize_nfa_states_def word_less_nat_alt word_le_nat_alt)
  obtain k where k: "prepare_state ?F = Some ([\<lparr>fs_nfa_states = [1, 2], fs_cost = F64 1\<rparr>], k)"
    by (simp add: prepare_state_def canon canonical_product_frontier_to_key_def append_product_state_key_parts_def next_phonetic_registry_id_def u32_try_from_def)
  obtain k' where k': "prepare_state ?G = Some (?G, k')"
    by (simp add: prepare_state_def canon canonical_product_frontier_to_key_def append_product_state_key_parts_def next_phonetic_registry_id_def u32_try_from_def)
  have "\<lfloor>2000001 / 2 :: rat\<rfloor> = 1000000" "\<lfloor>4000001 / 2 :: rat\<rfloor> = 2000000" by (simp_all add: floor_eq_iff)
  then have "frontier_content ?F \<noteq> frontier_content ?G"
    by (simp add: frontier_content_def Let_def round_half_away_def product_cost_key_scale_def i64_max_def i64_min_def)
  then show ?thesis using frontier_key_exact [OF k k'] k k' by blast
qed

end
