(* ===== verification/Phonetic_Product.thy ===== *)
theory Phonetic_Product
  imports Phonetic_Frontier Node_Registry Phonetic_Resolve Paired_Registries Source_Runs
begin

text \<open>
  \<open>src/phonetic_state_source.rs\<close> and \<open>src/phonetic_wfst.rs\<close>: the lazy product of a dictionary with a phonetic
  automaton under edit distance. The product automaton itself (\<open>ProductAutomatonChar\<close>) is the library's and
  a parameter: its initial frontier, its step by a character and the least distance at which a frontier
  accepts. A state identifier packs a registered dictionary node and a registered frontier.
\<close>

section \<open>The library's automata\<close>

record product_automaton =
  initial_frontier :: frontier
  transition_frontier :: "frontier \<Rightarrow> uchar \<Rightarrow> frontier"
  min_accepting_distance :: "frontier \<Rightarrow> nat option"

text \<open>Edits of an NFA, and the construction of a product automaton from one.\<close>

record phonetic_library =
  add_epsilon :: "nfa \<Rightarrow> nfa_state \<Rightarrow> nfa_state \<Rightarrow> nfa"
  set_final :: "nfa \<Rightarrow> nfa_state \<Rightarrow> bool \<Rightarrow> nfa"
  finalize :: "nfa \<Rightarrow> nfa"
  product_with_phonetic_weight :: "nfa \<Rightarrow> 8 word \<Rightarrow> f64 \<Rightarrow> product_automaton"

definition normalize_full_string_anchors :: "phonetic_library \<Rightarrow> nfa \<Rightarrow> nfa" where
  "normalize_full_string_anchors L A =
     (let start = nfa_start A;
          A1 = fold (\<lambda>q A'. if q \<noteq> start then add_epsilon L A' start q else A') (set_iter A (start_anchor_closure A)) A;
          A2 = fold (\<lambda>n A'. case u32_try_from n of
                 None \<Rightarrow> A'
               | Some q \<Rightarrow> if state_set_can_reach_final_through_end_anchors A' {q} then set_final L A' q True else A')
               [0..<nfa_num_states A1] A1
      in finalize L A2)"

section \<open>The source\<close>

record ('n, 'u) phonetic_source =
  pps_dictionary :: "('n, 'u) dictionary"
  pps_product :: product_automaton
  pps_max_distance :: "8 word"
  pps_phonetic_weight :: f64
  pps_edit_weight :: f64
  pps_max_product_states :: u32
  pps_nodes :: "'n node_registry"
  pps_states :: frontier_registry

definition pps_from_validated ::
    "phonetic_library \<Rightarrow> ('n, 'u) dictionary \<Rightarrow> nfa \<Rightarrow> 8 word \<Rightarrow> f64 \<Rightarrow> f64 \<Rightarrow> ('n, 'u) phonetic_source" where
  "pps_from_validated L D A d pw ew =
     (let P = product_with_phonetic_weight L (normalize_full_string_anchors L A) d pw
      in \<lparr>pps_dictionary = D, pps_product = P, pps_max_distance = d, pps_phonetic_weight = pw, pps_edit_weight = ew,
          pps_max_product_states = estimated_phonetic_product_states d,
          pps_nodes = reg_new (dict_root D), pps_states = fr_new (initial_frontier P)\<rparr>)"

definition pps_new :: "phonetic_library \<Rightarrow> ('n, 'u) dictionary \<Rightarrow> nfa \<Rightarrow> 8 word \<Rightarrow> ('n, 'u) phonetic_source" where
  "pps_new L D A d = pps_from_validated L D A d (F64 0) (F64 1)"

definition pps_with_weights ::
    "phonetic_library \<Rightarrow> ('n, 'u) dictionary \<Rightarrow> nfa \<Rightarrow> 8 word \<Rightarrow> f64 \<Rightarrow> f64
     \<Rightarrow> invalid_weight_error + ('n, 'u) phonetic_source" where
  "pps_with_weights L D A d pw ew =
     (case validate_finite_nonnegative_weight ''phonetic_weight'' pw of
        Inl e \<Rightarrow> Inl e
      | Inr pw \<Rightarrow>
          (case validate_finite_nonnegative_weight ''edit_weight'' ew of
             Inl e \<Rightarrow> Inl e
           | Inr ew \<Rightarrow> Inr (pps_from_validated L D A d pw ew)))"

definition pps_with_phonetic_weight ::
    "phonetic_library \<Rightarrow> ('n, 'u) dictionary \<Rightarrow> nfa \<Rightarrow> 8 word \<Rightarrow> f64 \<Rightarrow> invalid_weight_error + ('n, 'u) phonetic_source" where
  "pps_with_phonetic_weight L D A d pw = pps_with_weights L D A d pw (F64 1)"

definition pps_is_valid_product_state :: "('n, 'u) phonetic_source \<Rightarrow> state_id \<Rightarrow> bool" where
  "pps_is_valid_product_state s state =
     (case decode state (pps_max_product_states s) of
        None \<Rightarrow> False
      | Some (i, j) \<Rightarrow> reg_get_node (pps_nodes s) i \<noteq> None \<and> fr_get_state (pps_states s) j \<noteq> None)"

text \<open>A distance times the edit weight; the product of finite weights is taken exactly.\<close>

definition scaled_distance :: "nat \<Rightarrow> f64 \<Rightarrow> f64" where
  "scaled_distance d w =
     (case w of F64 r \<Rightarrow> F64 (of_nat d * r) | F64_NaN \<Rightarrow> F64_NaN | x \<Rightarrow> if d = 0 then F64_NaN else x)"

definition pps_product_final_weight :: "('n, 'u) phonetic_source \<Rightarrow> 'n \<Rightarrow> frontier \<Rightarrow> weight option" where
  "pps_product_final_weight s node F =
     (if \<not> node_is_final (pps_dictionary s) node then None
      else map_option (\<lambda>d. scaled_distance d (pps_edit_weight s)) (min_accepting_distance (pps_product s) F))"

definition pps_final_weight_for_state :: "('n, 'u) phonetic_source \<Rightarrow> state_id \<Rightarrow> weight option" where
  "pps_final_weight_for_state s state =
     (case decode state (pps_max_product_states s) of
        None \<Rightarrow> None
      | Some (i, j) \<Rightarrow>
          (case (reg_get_node (pps_nodes s) i, fr_get_state (pps_states s) j) of
             (Some node, Some F) \<Rightarrow> pps_product_final_weight s node F
           | _ \<Rightarrow> None))"

definition pps_registered_state_id_span :: "('n, 'u) phonetic_source \<Rightarrow> usize" where
  "pps_registered_state_id_span s =
     registered_product_state_id_span (reg_len (pps_nodes s)) (unat (pps_max_product_states s)) (fr_len (pps_states s))"

definition pps_num_states_hint :: "('n, 'u) phonetic_source \<Rightarrow> usize option" where
  "pps_num_states_hint s =
     map_option (\<lambda>h. max h (pps_registered_state_id_span s))
       (dictionary_product_states_hint
          (map_option (\<lambda>n. max n (reg_len (pps_nodes s))) (dict_len (pps_dictionary s)))
          (unat (pps_max_product_states s)))"

section \<open>Expansion\<close>

type_synonym 'n pending_edge = "uchar \<times> 'n \<times> node_key \<times> frontier \<times> frontier_key"

definition pps_pending_edges :: "('n, 'u) phonetic_source \<Rightarrow> u32 \<Rightarrow> 'n \<Rightarrow> frontier \<Rightarrow> 'n pending_edge list" where
  "pps_pending_edges s dict_node_id node F =
     List.map_filter (\<lambda>(u, child).
       (let dict_char = unit_char (pps_dictionary s) u;
            successors = transition_frontier (pps_product s) F dict_char
        in if successors = [] then None
           else (case prepare_state successors of
                   None \<Rightarrow> None
                 | Some (successors, key) \<Rightarrow>
                     Some (dict_char, child, node_key_child dict_node_id dict_char, successors, key))))
       (node_edges (pps_dictionary s) node)"

fun pps_commit_edges ::
    "u32 \<Rightarrow> state_id \<Rightarrow> weight \<Rightarrow> 'n pending_edge list \<Rightarrow> 'n node_registry \<times> frontier_registry
     \<Rightarrow> transition list \<times> 'n node_registry \<times> frontier_registry" where
  "pps_commit_edges m from_state w [] regs = ([], regs)"
| "pps_commit_edges m from_state w ((dict_char, child, child_key, successors, key) # es) (nr, sr) =
     (case (reg_candidate_id nr child_key, candidate_state_id_for_key sr key) of
        (Some candidate_child_id, Some candidate_successor_id) \<Rightarrow>
          if try_encode candidate_child_id candidate_successor_id m = None
          then pps_commit_edges m from_state w es (nr, sr)
          else (case reg_register_node child child_key nr of
                  (None, nr') \<Rightarrow> pps_commit_edges m from_state w es (nr', sr)
                | (Some child_id, nr') \<Rightarrow>
                    (case register_prepared_state_with_key key successors sr of
                       (None, sr') \<Rightarrow> pps_commit_edges m from_state w es (nr', sr')
                     | (Some successor_id, sr') \<Rightarrow>
                         (case pps_commit_edges m from_state w es (nr', sr') of
                            (ts, regs) \<Rightarrow>
                              ((case try_encode child_id successor_id m of
                                  Some target \<Rightarrow> [mk_transition from_state (Some dict_char) (Some dict_char) target w]
                                | None \<Rightarrow> []) @ ts, regs))))
      | _ \<Rightarrow> pps_commit_edges m from_state w es (nr, sr))"

definition pps_compute_transitions ::
    "('n, 'u) phonetic_source \<Rightarrow> u32 \<Rightarrow> u32 \<Rightarrow> (bool \<times> weight \<times> transition list) \<times> ('n, 'u) phonetic_source" where
  "pps_compute_transitions s i j =
     (case reg_get_node (pps_nodes s) i of
        None \<Rightarrow> ((False, tropical_zero, []), s)
      | Some node \<Rightarrow>
          (case fr_get_state (pps_states s) j of
             None \<Rightarrow> ((False, tropical_zero, []), s)
           | Some F \<Rightarrow>
               (case try_encode i j (pps_max_product_states s) of
                  None \<Rightarrow> ((False, tropical_zero, []), s)
                | Some from_state \<Rightarrow>
                    (case pps_commit_edges (pps_max_product_states s) from_state (pps_phonetic_weight s)
                            (pps_pending_edges s i node F) (pps_nodes s, pps_states s) of
                       (ts, nr, sr) \<Rightarrow>
                         (let accepted = pps_product_final_weight s node F
                          in ((accepted \<noteq> None, case accepted of Some w \<Rightarrow> w | None \<Rightarrow> tropical_zero, ts),
                              s\<lparr>pps_nodes := nr, pps_states := sr\<rparr>))))))"

definition pps_expand_state :: "('n, 'u) phonetic_source \<Rightarrow> state_id \<Rightarrow> expansion \<times> ('n, 'u) phonetic_source" where
  "pps_expand_state s state =
     (case decode state (pps_max_product_states s) of
        None \<Rightarrow> (Failed (InvalidState state), s)
      | Some (i, j) \<Rightarrow>
          (case pps_compute_transitions s i j of
             ((is_final, w, ts), s') \<Rightarrow> (if is_final then final_state w ts else non_final ts, s')))"

definition pps_compute_state ::
    "('n, 'u) phonetic_source \<Rightarrow> cancellation_reason option \<Rightarrow> state_id \<Rightarrow> expansion \<times> ('n, 'u) phonetic_source" where
  "pps_compute_state s cancellation state = fulfill_expansion_request pps_expand_state s cancellation state"

section \<open>The wrapper and its builder\<close>

record ('n, 'u) phonetic_wfst =
  pw_source :: "('n, 'u) phonetic_source"
  pw_cache :: "cached_char_state lazy_cache"

definition pw_default_max_cache_size :: usize where
  "pw_default_max_cache_size = 100000"

definition pw_from_state_source :: "('n, 'u) phonetic_source \<Rightarrow> ('n, 'u) phonetic_wfst" where
  "pw_from_state_source s = \<lparr>pw_source = s, pw_cache = cache_new pw_default_max_cache_size\<rparr>"

definition pw_new :: "phonetic_library \<Rightarrow> ('n, 'u) dictionary \<Rightarrow> nfa \<Rightarrow> 8 word \<Rightarrow> ('n, 'u) phonetic_wfst" where
  "pw_new L D A d = pw_from_state_source (pps_new L D A d)"

definition pw_with_weights ::
    "phonetic_library \<Rightarrow> ('n, 'u) dictionary \<Rightarrow> nfa \<Rightarrow> 8 word \<Rightarrow> f64 \<Rightarrow> f64
     \<Rightarrow> invalid_weight_error + ('n, 'u) phonetic_wfst" where
  "pw_with_weights L D A d pw ew =
     (case pps_with_weights L D A d pw ew of Inl e \<Rightarrow> Inl e | Inr s \<Rightarrow> Inr (pw_from_state_source s))"

definition pw_ensure_state ::
    "state_id \<Rightarrow> ('n, 'u) phonetic_wfst \<Rightarrow> (expansion_error + expansion_status) \<times> ('n, 'u) phonetic_wfst" where
  "pw_ensure_state state w =
     (case ensure_cached_char_state pps_expand_state pps_is_valid_product_state state (pw_cache w, pw_source w) of
        (r, c, s) \<Rightarrow> (r, \<lparr>pw_source = s, pw_cache = c\<rparr>))"

definition pw_is_final :: "('n, 'u) phonetic_wfst \<Rightarrow> state_id \<Rightarrow> bool" where
  "pw_is_final w state =
     (case cache_get (pw_cache w) state of
        Some x \<Rightarrow> cs_final x | None \<Rightarrow> pps_final_weight_for_state (pw_source w) state \<noteq> None)"

definition pw_final_weight :: "('n, 'u) phonetic_wfst \<Rightarrow> state_id \<Rightarrow> weight" where
  "pw_final_weight w state =
     (case cache_get (pw_cache w) state of
        Some x \<Rightarrow> cs_weight x
      | None \<Rightarrow> (case pps_final_weight_for_state (pw_source w) state of Some x \<Rightarrow> x | None \<Rightarrow> tropical_zero))"

definition pw_transitions :: "('n, 'u) phonetic_wfst \<Rightarrow> state_id \<Rightarrow> transition list" where
  "pw_transitions w state = (case cache_get (pw_cache w) state of Some x \<Rightarrow> cs_transitions x | None \<Rightarrow> [])"

definition pw_num_states :: "('n, 'u) phonetic_wfst \<Rightarrow> usize" where
  "pw_num_states w =
     max (case pps_num_states_hint (pw_source w) of Some h \<Rightarrow> h | None \<Rightarrow> 0) (pps_registered_state_id_span (pw_source w))"

definition pw_transitions_lazy ::
    "state_id \<Rightarrow> ('n, 'u) phonetic_wfst \<Rightarrow> transition list \<times> ('n, 'u) phonetic_wfst" where
  "pw_transitions_lazy state w = (case pw_ensure_state state w of (_, w') \<Rightarrow> (pw_transitions w' state, w'))"

definition pw_with_phonetic_weight ::
    "phonetic_library \<Rightarrow> ('n, 'u) dictionary \<Rightarrow> nfa \<Rightarrow> 8 word \<Rightarrow> f64 \<Rightarrow> invalid_weight_error + ('n, 'u) phonetic_wfst" where
  "pw_with_phonetic_weight L D A d pw = pw_with_weights L D A d pw (F64 1)"

definition pw_set_max_cache_size :: "usize \<Rightarrow> ('n, 'u) phonetic_wfst \<Rightarrow> ('n, 'u) phonetic_wfst" where
  "pw_set_max_cache_size n w = w\<lparr>pw_cache := set_max_lru_states n (pw_cache w)\<rparr>"

definition pw_set_cache_policy :: "cache_policy \<Rightarrow> ('n, 'u) phonetic_wfst \<Rightarrow> ('n, 'u) phonetic_wfst" where
  "pw_set_cache_policy p w = w\<lparr>pw_cache := cache_set_policy p (pw_cache w)\<rparr>"

definition pw_clear_cache :: "('n, 'u) phonetic_wfst \<Rightarrow> ('n, 'u) phonetic_wfst" where
  "pw_clear_cache w = w\<lparr>pw_cache := cache_clear (pw_cache w)\<rparr>"

definition pw_total_transitions :: "('n, 'u) phonetic_wfst \<Rightarrow> usize" where
  "pw_total_transitions w = total_cached_transitions (pw_cache w)"

definition pw_is_valid_state :: "('n, 'u) phonetic_wfst \<Rightarrow> state_id \<Rightarrow> bool" where
  "pw_is_valid_state w state = pps_is_valid_product_state (pw_source w) state"

definition pw_is_expanded :: "('n, 'u) phonetic_wfst \<Rightarrow> state_id \<Rightarrow> bool" where
  "pw_is_expanded w state = cache_is_expanded (pw_cache w) state"

definition pw_computed_states :: "('n, 'u) phonetic_wfst \<Rightarrow> usize" where
  "pw_computed_states w = cache_len (pw_cache w)"

record ('n, 'u) phonetic_wfst_builder =
  pb_dictionary :: "('n, 'u) dictionary"
  pb_max_distance :: "8 word"
  pb_phonetic_weight :: f64
  pb_edit_weight :: f64

definition pb_new :: "('n, 'u) dictionary \<Rightarrow> 8 word \<Rightarrow> ('n, 'u) phonetic_wfst_builder" where
  "pb_new D d = \<lparr>pb_dictionary = D, pb_max_distance = d, pb_phonetic_weight = F64 0, pb_edit_weight = F64 1\<rparr>"

definition pb_set_phonetic_weight ::
    "f64 \<Rightarrow> ('n, 'u) phonetic_wfst_builder \<Rightarrow> invalid_weight_error + ('n, 'u) phonetic_wfst_builder" where
  "pb_set_phonetic_weight w b =
     (case validate_finite_nonnegative_weight ''phonetic_weight'' w of
        Inl e \<Rightarrow> Inl e | Inr w \<Rightarrow> Inr (b\<lparr>pb_phonetic_weight := w\<rparr>))"

definition pb_set_edit_weight ::
    "f64 \<Rightarrow> ('n, 'u) phonetic_wfst_builder \<Rightarrow> invalid_weight_error + ('n, 'u) phonetic_wfst_builder" where
  "pb_set_edit_weight w b =
     (case validate_finite_nonnegative_weight ''edit_weight'' w of
        Inl e \<Rightarrow> Inl e | Inr w \<Rightarrow> Inr (b\<lparr>pb_edit_weight := w\<rparr>))"

text \<open>Parsing and compiling a pattern are the library's; the model's errors say which step failed.\<close>

datatype pattern_error = ParseError string | CompileError string | WeightError invalid_weight_error

definition pb_build_from_pattern ::
    "phonetic_library \<Rightarrow> (string \<Rightarrow> string + 'ast) \<Rightarrow> ('ast \<Rightarrow> string + nfa) \<Rightarrow> string
     \<Rightarrow> ('n, 'u) phonetic_wfst_builder \<Rightarrow> pattern_error + ('n, 'u) phonetic_wfst" where
  "pb_build_from_pattern L parse compile pattern b =
     (case parse pattern of
        Inl e \<Rightarrow> Inl (ParseError e)
      | Inr ast \<Rightarrow>
          (case compile ast of
             Inl e \<Rightarrow> Inl (CompileError e)
           | Inr A \<Rightarrow>
               (case pw_with_weights L (pb_dictionary b) A (pb_max_distance b) (pb_phonetic_weight b) (pb_edit_weight b) of
                  Inl e \<Rightarrow> Inl (WeightError e)
                | Inr w \<Rightarrow> Inr w)))"

end
