(* ===== verification/Phonetic_Product_Language.thy ===== *)
theory Phonetic_Product_Language
  imports Phonetic_Product Phonetic_Language
begin

text \<open>
  What the phonetic product accepts: the terms of the dictionary that the product automaton accepts, with a
  phonetic weight per character and the weighted edit distance at the end. The registries only grow, so the
  caching wrapper answers what its source computes.
\<close>

section \<open>The registries of a product\<close>

interpretation dict_frontier: paired_interners reg_get_id reg_get_node reg_len "\<lambda>k v. reg_register_node v k" "\<lambda>k v. v" reg_wf
  fr_id_for_key fr_get_state fr_len register_prepared_state_with_key "\<lambda>k v. v" fr_wf
  by unfold_locales

abbreviation register_frontier_pairs ::
    "u32 \<Rightarrow> (uchar \<times> node_key \<times> 'n \<times> frontier_key \<times> frontier) list \<Rightarrow> 'n node_registry \<times> frontier_registry
     \<Rightarrow> (uchar \<times> state_id) list \<times> 'n node_registry \<times> frontier_registry" where
  "register_frontier_pairs \<equiv> pair_seq (\<lambda>k v. reg_register_node v k) register_prepared_state_with_key"

definition edge_pairs :: "'n pending_edge list \<Rightarrow> (uchar \<times> node_key \<times> 'n \<times> frontier_key \<times> frontier) list" where
  "edge_pairs = map (\<lambda>(c, child, child_key, F, key). (c, child_key, child, key, F))"

text \<open>Checking the candidates first and registering afterwards is registering the pair or nothing.\<close>

lemma pps_commit_eq:
  "dict_frontier.pair_wf regs \<Longrightarrow> pps_commit_edges m q w es regs =
     (let r = register_frontier_pairs m (edge_pairs es) regs
      in (map (\<lambda>(c, target). mk_transition q (Some c) (Some c) target w) (fst r), snd r))"
proof (induction es arbitrary: regs)
  case (Cons e es)
  obtain c child ck F k where e: "e = (c, child, ck, F, k)" by (cases e) auto
  obtain nr sr where regs: "regs = (nr, sr)" by force
  have wf: "reg_wf nr" "fr_wf sr" using Cons.prems by (simp_all add: regs dict_frontier.pair_wf_def)
  obtain a nr' where a: "reg_register_node child ck nr = (a, nr')" by force
  obtain b sr' where b: "register_prepared_state_with_key k F sr = (b, sr')" by force
  have cand: "reg_candidate_id nr ck = a" "candidate_state_id_for_key sr k = b"
    using reg_candidate_register [OF wf(1), of ck child] candidate_state_id [OF wf(2), of k F] a b by simp_all
  have wf': "dict_frontier.pair_wf (nr', sr')"
    using node_reg.wf_intern [OF wf(1), of child ck] front_reg.wf_intern [OF wf(2), of k F] a b by (simp add: dict_frontier.pair_wf_def)
  have same: "edge_pairs (e # es) = (c, ck, child, k, F) # edge_pairs es" by (simp add: edge_pairs_def e)
  show ?case
  proof (cases "(\<exists>i j t. a = Some i \<and> b = Some j \<and> try_encode i j m = Some t)")
    case True
    then obtain i j t where t: "a = Some i" "b = Some j" "try_encode i j m = Some t" by blast
    then show ?thesis
      using Cons.IH [OF wf'] a b cand unfolding same
      by (simp add: e regs pair_intern_def Let_def case_prod_unfold)
  next
    case False
    then have "pps_commit_edges m q w (e # es) regs = pps_commit_edges m q w es (nr, sr)"
      using cand by (auto simp: e regs split: option.split)
    moreover have "pair_intern (\<lambda>k v. reg_register_node v k) register_prepared_state_with_key m (ck, child, k, F) (nr, sr) = (None, nr, sr)"
      using False a b by (auto simp: pair_intern_def split: option.split)
    ultimately show ?thesis
      using Cons.IH [of "(nr, sr)"] Cons.prems unfolding same by (simp add: regs Let_def case_prod_unfold)
  qed
qed (simp add: edge_pairs_def)

definition pps_regs :: "('n, 'u) phonetic_source \<Rightarrow> 'n node_registry \<times> frontier_registry" where
  "pps_regs s = (pps_nodes s, pps_states s)"

definition pps_at_pair :: "('n, 'u) phonetic_source \<Rightarrow> state_id \<Rightarrow> u32 \<Rightarrow> u32 \<Rightarrow> 'n \<Rightarrow> frontier \<Rightarrow> bool" where
  "pps_at_pair s q i j node F \<longleftrightarrow> decode q (pps_max_product_states s) = Some (i, j) \<and>
     reg_get_node (pps_nodes s) i = Some node \<and> fr_get_state (pps_states s) j = Some F"

definition pps_wf :: "('n, 'u) phonetic_source \<Rightarrow> bool" where
  "pps_wf s \<longleftrightarrow> dict_frontier.pair_wf (pps_regs s)"

definition pps_pairs :: "('n, 'u) phonetic_source \<Rightarrow> u32 \<Rightarrow> 'n \<Rightarrow> frontier \<Rightarrow> (uchar \<times> node_key \<times> 'n \<times> frontier_key \<times> frontier) list" where
  "pps_pairs s i node F = edge_pairs (pps_pending_edges s i node F)"

lemma pps_expand_eq:
  assumes "pps_wf s" and "pps_at_pair s q i j node F"
  shows "pps_expand_state s q =
    (let r = register_frontier_pairs (pps_max_product_states s) (pps_pairs s i node F) (pps_regs s);
         accepted = pps_product_final_weight s node F
     in (Expanded (accepted \<noteq> None) (case accepted of Some w \<Rightarrow> w | None \<Rightarrow> tropical_zero)
           (map (\<lambda>(c, target). mk_transition q (Some c) (Some c) target (pps_phonetic_weight s)) (fst r)),
         s\<lparr>pps_nodes := fst (snd r), pps_states := snd (snd r)\<rparr>))"
proof -
  have d: "decode q (pps_max_product_states s) = Some (i, j)" "reg_get_node (pps_nodes s) i = Some node"
    "fr_get_state (pps_states s) j = Some F" using assms(2) by (simp_all add: pps_at_pair_def)
  have "pps_max_product_states s \<noteq> 0" using d(1) by (auto simp: decode_def)
  then have "try_encode i j (pps_max_product_states s) = Some q" using d(1) by (rule decode_encode)
  then show ?thesis
    using d pps_commit_eq [of "pps_regs s" "pps_max_product_states s" q "pps_phonetic_weight s" "pps_pending_edges s i node F"] assms(1)
    by (auto simp: pps_expand_state_def pps_compute_transitions_def pps_wf_def pps_regs_def pps_pairs_def Let_def
        final_state_def non_final_def case_prod_unfold split: option.split)
qed

lemma pps_valid_iff: "pps_is_valid_product_state s q \<longleftrightarrow> (\<exists>i j node F. pps_at_pair s q i j node F)"
  by (auto simp: pps_is_valid_product_state_def pps_at_pair_def split: option.split)

lemma pps_expand_invalid: "\<not> pps_is_valid_product_state s q \<Longrightarrow> snd (pps_expand_state s q) = s"
  by (auto simp: pps_is_valid_product_state_def pps_expand_state_def pps_compute_transitions_def split: option.splits)

definition pps_ext :: "('n, 'u) phonetic_source \<Rightarrow> ('n, 'u) phonetic_source \<Rightarrow> bool" where
  "pps_ext s s' \<longleftrightarrow> s' = s\<lparr>pps_nodes := pps_nodes s', pps_states := pps_states s'\<rparr> \<and>
     dict_frontier.pair_ext (pps_regs s) (pps_regs s')"

lemma pps_ext_fields:
  assumes "pps_ext s s'"
  shows "pps_dictionary s' = pps_dictionary s" "pps_product s' = pps_product s"
    "pps_phonetic_weight s' = pps_phonetic_weight s" "pps_edit_weight s' = pps_edit_weight s"
    "pps_max_product_states s' = pps_max_product_states s" "pps_product_final_weight s' = pps_product_final_weight s"
    "pps_pairs s' = pps_pairs s"
proof -
  have s': "s' = s\<lparr>pps_nodes := pps_nodes s', pps_states := pps_states s'\<rparr>" using assms by (simp add: pps_ext_def)
  show *: "pps_dictionary s' = pps_dictionary s" "pps_product s' = pps_product s"
    "pps_phonetic_weight s' = pps_phonetic_weight s" "pps_edit_weight s' = pps_edit_weight s"
    "pps_max_product_states s' = pps_max_product_states s" by (subst s', simp)+
  then show "pps_product_final_weight s' = pps_product_final_weight s" "pps_pairs s' = pps_pairs s"
    by (simp_all add: fun_eq_iff pps_product_final_weight_def pps_pairs_def pps_pending_edges_def)
qed

lemma pps_at_ext: "pps_ext s s' \<Longrightarrow> pps_at_pair s q i j node F \<Longrightarrow> pps_at_pair s' q i j node F"
  by (auto simp: pps_at_pair_def pps_ext_fields(5)) (auto simp: pps_ext_def dict_frontier.pair_ext_def pps_regs_def)

lemma pps_ext_refl: "pps_ext s s"
  by (simp add: pps_ext_def dict_frontier.pair_ext_refl)

lemma pps_ext_trans: "pps_ext s1 s2 \<Longrightarrow> pps_ext s2 s3 \<Longrightarrow> pps_ext s1 s3"
  unfolding pps_ext_def using dict_frontier.pair_ext_trans by (metis (no_types, lifting) phonetic_source.surjective phonetic_source.update_convs(7,8))

lemma pps_expand_keeps: "pps_wf s \<Longrightarrow> pps_wf (snd (pps_expand_state s q)) \<and> pps_ext s (snd (pps_expand_state s q))"
proof (cases "pps_is_valid_product_state s q")
  case True
  assume wf: "pps_wf s"
  obtain i j node F where d: "pps_at_pair s q i j node F" using True unfolding pps_valid_iff by blast
  show ?thesis
    using dict_frontier.pseq_keeps [of "pps_regs s" "pps_max_product_states s" "pps_pairs s i node F"] wf
    by (simp add: pps_expand_eq [OF wf d] Let_def pps_wf_def pps_ext_def pps_regs_def)
next
  case False
  assume "pps_wf s"
  then show ?thesis using pps_expand_invalid [OF False] pps_ext_refl by simp
qed

interpretation pps: lazy_source pps_expand_state pps_is_valid_product_state pps_final_weight_for_state pps_wf pps_ext
proof unfold_locales
  fix s s1 s2 s3 s' :: "('n, 'u) phonetic_source" and q :: state_id and f w ts
  show "pps_ext s s" by (rule pps_ext_refl)
  show "pps_ext s1 s2 \<Longrightarrow> pps_ext s2 s3 \<Longrightarrow> pps_ext s1 s3" by (rule pps_ext_trans)
  show "pps_wf s \<Longrightarrow> pps_wf (snd (pps_expand_state s q))" "pps_wf s \<Longrightarrow> pps_ext s (snd (pps_expand_state s q))"
    using pps_expand_keeps by blast+
  show "pps_is_valid_product_state s q \<Longrightarrow> pps_ext s s' \<Longrightarrow> pps_is_valid_product_state s' q"
    using pps_at_ext [of s s' q] by (fastforce simp: pps_valid_iff)
  show "pps_expand_state s2 q = (Expanded f w ts, s2)"
    if wf: "pps_wf s" and valid: "pps_is_valid_product_state s q" and e: "pps_expand_state s q = (Expanded f w ts, s1)"
      and wf2: "pps_wf s2" and ext: "pps_ext s1 s2"
  proof -
    obtain i j node F where d: "pps_at_pair s q i j node F" using valid unfolding pps_valid_iff by blast
    have s1: "pps_ext s s1" using pps_expand_keeps [OF wf, of q] e by simp
    note all = pps_ext_fields [OF pps_ext_trans [OF s1 ext]] and d2 = pps_at_ext [OF pps_ext_trans [OF s1 ext] d]
    let ?r = "register_frontier_pairs (pps_max_product_states s) (pps_pairs s i node F) (pps_regs s)"
    have "pps_regs s1 = snd ?r" using e by (auto simp: pps_expand_eq [OF wf d] Let_def pps_regs_def)
    then have "dict_frontier.pair_ext (snd ?r) (pps_regs s2)" using ext by (simp add: pps_ext_def)
    then have "register_frontier_pairs (pps_max_product_states s) (pps_pairs s i node F) (pps_regs s2) = (fst ?r, pps_regs s2)"
      using dict_frontier.pseq_again wf wf2 unfolding pps_wf_def by blast
    then show ?thesis
      using e by (simp add: pps_expand_eq [OF wf d] pps_expand_eq [OF wf2 d2] all Let_def) (simp add: pps_regs_def)
  qed
  show "f = (pps_final_weight_for_state s q \<noteq> None) \<and>
      w = (case pps_final_weight_for_state s q of Some w \<Rightarrow> w | None \<Rightarrow> tropical_zero)"
    if wf: "pps_wf s" and valid: "pps_is_valid_product_state s q" and e: "fst (pps_expand_state s q) = Expanded f w ts"
  proof -
    obtain i j node F where d: "pps_at_pair s q i j node F" using valid unfolding pps_valid_iff by blast
    then have "pps_final_weight_for_state s q = pps_product_final_weight s node F"
      by (simp add: pps_final_weight_for_state_def pps_at_pair_def)
    then show ?thesis using e by (auto simp: pps_expand_eq [OF wf d] Let_def)
  qed
qed

text \<open>Caching never changes what the phonetic WFST answers, after any sequence of expansions and reconfigurations.\<close>

lemma frontier_registry_new: "fr_wf (fr_new F)"
proof -
  have "fr_wf \<lparr>fr_state_to_id = Map.empty, fr_id_to_state = []\<rparr>" by (simp add: fr_wf_def)
  then show ?thesis using front_reg.wf_intern by (auto simp: fr_new_def fr_register_state_def split: option.split)
qed

lemma pps_wf_new: "pps_wf (pps_from_validated L D A d pw ew)"
  by (simp add: pps_wf_def pps_regs_def dict_frontier.pair_wf_def pps_from_validated_def Let_def reg_wf_new frontier_registry_new)

lemma pw_wrapper:
  "fst (pw_transitions_lazy x \<lparr>pw_source = s, pw_cache = c\<rparr>) =
     fst (wrapper_transitions_lazy pps_expand_state pps_is_valid_product_state x (c, s))"
  "pw_is_final \<lparr>pw_source = s, pw_cache = c\<rparr> x = wrapper_is_final pps_final_weight_for_state (c, s) x"
  "pw_final_weight \<lparr>pw_source = s, pw_cache = c\<rparr> x = wrapper_final_weight pps_final_weight_for_state (c, s) x"
  by (simp_all add: pw_transitions_lazy_def pw_ensure_state_def pw_transitions_def wrapper_transitions_lazy_def
      wrapper_transitions_def pw_is_final_def wrapper_is_final_def pw_final_weight_def wrapper_final_weight_def split: prod.split option.split)

theorem phonetic_product_wrapper_answers:
  "let (c, s) = wrapper_run pps_expand_state pps_is_valid_product_state ops
         (cache_new pw_default_max_cache_size, pps_from_validated L D A d pw ew);
       w = \<lparr>pw_source = s, pw_cache = c\<rparr>
   in fst (pw_transitions_lazy x w) =
        (if pps_is_valid_product_state s x then case fst (pps_expand_state s x) of Expanded f w ts \<Rightarrow> ts | _ \<Rightarrow> [] else []) \<and>
      pw_is_final w x = (pps_final_weight_for_state s x \<noteq> None) \<and>
      pw_final_weight w x = (case pps_final_weight_for_state s x of Some w \<Rightarrow> w | None \<Rightarrow> tropical_zero)"
proof -
  obtain c s where r: "wrapper_run pps_expand_state pps_is_valid_product_state ops
      (cache_new pw_default_max_cache_size, pps_from_validated L D A d pw ew) = (c, s)" by force
  have coh: "pps.coherent (c, s)"
    using pps.coherent_run [OF pps.coherent_new [OF pps_wf_new], of ops pw_default_max_cache_size L D A d pw ew] r by simp
  then have wf: "pps_wf s" by (simp add: pps.coherent_def)
  have "\<exists>f w ts. fst (pps_expand_state s x) = Expanded f w ts" if "pps_is_valid_product_state s x"
    using that pps_expand_eq [OF wf] unfolding pps_valid_iff by (fastforce simp: Let_def)
  then have "(case fst (pps_expand_state s x) of Expanded f w ts \<Rightarrow> ts | _ \<Rightarrow>
        wrapper_transitions (snd (ensure_cached_char_state pps_expand_state pps_is_valid_product_state x (c, s))) x) =
      (case fst (pps_expand_state s x) of Expanded f w ts \<Rightarrow> ts | _ \<Rightarrow> [])" if "pps_is_valid_product_state s x"
    using that by fastforce
  then show ?thesis
    using pps.transitions_lazy [OF coh, of x] pps.wrapper_finality [OF coh, of x] r
    by (simp add: pw_wrapper)
qed

section \<open>The abstract machine\<close>

text \<open>
  What the library's product promises, on frontiers it can meet (\<open>adm\<close>): its behaviour depends only on which
  sets of NFA states are active at which cost to the millionth, and frontiers are small enough for a key.
\<close>

definition product_respects :: "product_automaton \<Rightarrow> (frontier \<Rightarrow> bool) \<Rightarrow> bool" where
  "product_respects P adm \<longleftrightarrow> adm (initial_frontier P) \<and>
     (\<forall>F c. adm F \<longrightarrow> adm (transition_frontier P F c)) \<and>
     (\<forall>F. adm F \<longrightarrow> (\<exists>k. prepare_state F = Some (canonicalize_product_frontier F, k)) \<and> adm (canonicalize_product_frontier F)) \<and>
     (\<forall>F G. adm F \<longrightarrow> adm G \<longrightarrow> frontier_content F = frontier_content G \<longrightarrow>
        min_accepting_distance P F = min_accepting_distance P G \<and>
        (\<forall>c. frontier_content (transition_frontier P F c) = frontier_content (transition_frontier P G c)))"

lemma product_respectsD:
  assumes "product_respects P adm"
  shows "adm (initial_frontier P)" and "adm F \<Longrightarrow> adm (transition_frontier P F c)"
    and "adm F \<Longrightarrow> \<exists>k. prepare_state F = Some (canonicalize_product_frontier F, k)"
    and "adm F \<Longrightarrow> adm (canonicalize_product_frontier F)"
    and "adm F \<Longrightarrow> adm G \<Longrightarrow> frontier_content F = frontier_content G \<Longrightarrow> min_accepting_distance P F = min_accepting_distance P G"
    and "adm F \<Longrightarrow> adm G \<Longrightarrow> frontier_content F = frontier_content G \<Longrightarrow>
      frontier_content (transition_frontier P F c) = frontier_content (transition_frontier P G c)"
  using assms unfolding product_respects_def by blast+

definition frontier_entry :: "(frontier \<Rightarrow> bool) \<Rightarrow> frontier \<Rightarrow> bool" where
  "frontier_entry adm F \<longleftrightarrow> adm F \<and> append_frontier_key [] F \<noteq> None"

definition frontier_key_of :: "frontier \<Rightarrow> frontier_key" where
  "frontier_key_of F = the (append_frontier_key [] F)"

definition frontiers_ok :: "(frontier \<Rightarrow> bool) \<Rightarrow> frontier_registry \<Rightarrow> bool" where
  "frontiers_ok adm r \<longleftrightarrow> front_reg.keyed frontier_key_of r \<and> front_reg.all_entries (frontier_entry adm) r"

lemma prepared_key: "prepare_state F = Some (F', k) \<Longrightarrow> F' = canonicalize_product_frontier F \<and> append_frontier_key [] F' = Some k"
  by (auto simp: prepare_state_def canonical_product_frontier_to_key_def Let_def)

lemma frontiers_ok_register:
  assumes "fr_wf r" and "frontiers_ok adm r" and "adm F'" and "append_frontier_key [] F' = Some k"
  shows "frontiers_ok adm (snd (register_prepared_state_with_key k F' r))"
  using front_reg.keyed_intern [OF assms(1), where key = frontier_key_of and k = k and v = F']
    front_reg.all_entries_intern [OF assms(1), where R = "frontier_entry adm" and k = k and v = F'] assms(2-4)
  by (simp add: frontiers_ok_def frontier_entry_def frontier_key_of_def)

text \<open>Equal keys, equal content.\<close>

lemma registered_content:
  assumes "fr_wf r" and "frontiers_ok adm r" and "prepare_state F = Some (F', k)" and "fr_id_for_key r k = Some j"
  shows "\<exists>G. fr_get_state r j = Some G \<and> adm G \<and> frontier_content G = frontier_content F"
proof -
  obtain G where G: "fr_get_state r j = Some G" "frontier_key_of G = k"
    using front_reg.keyed_find [OF assms(1) _ assms(4)] assms(2) unfolding frontiers_ok_def by blast
  then have entry: "adm G" "append_frontier_key [] G = Some k"
    using assms(2) by (auto simp: frontiers_ok_def front_reg.all_entries_def frontier_entry_def frontier_key_of_def)
  have "append_frontier_key [] F' = Some k" using prepared_key [OF assms(3)] by blast
  then have "map frontier_pair G = map frontier_pair F'" using frontier_key_inject [OF entry(2)] by blast
  then have "set (map frontier_pair G) = set (map frontier_pair F')" by simp
  then have "(\<lambda>(k, xs). (k, set xs)) ` set (map frontier_pair G) = (\<lambda>(k, xs). (k, set xs)) ` set (map frontier_pair F')" by simp
  then have "frontier_content G = frontier_content F'" by (simp add: frontier_content_def frontier_pair_def image_image)
  then show ?thesis using G(1) entry(1) frontier_key_exact_aux [OF assms(3)] by auto
qed

section \<open>Steps\<close>

text \<open>A configuration is a dictionary node with the frontier that the word so far leads to.\<close>

definition pps_step ::
    "('n, 'u) dictionary \<Rightarrow> product_automaton \<Rightarrow> rat \<Rightarrow> 'n \<times> frontier \<Rightarrow> uchar option \<Rightarrow> uchar option \<Rightarrow> rat
     \<Rightarrow> 'n \<times> frontier \<Rightarrow> bool" where
  "pps_step D P pw x i out k y \<longleftrightarrow>
     (\<exists>c. i = Some c \<and> out = Some c \<and> k = pw \<and> child_by D (fst x) c = Some (fst y) \<and>
        snd y = transition_frontier P (snd x) c \<and> snd y \<noteq> [])"

definition pps_final :: "('n, 'u) dictionary \<Rightarrow> product_automaton \<Rightarrow> rat \<Rightarrow> 'n \<times> frontier \<Rightarrow> rat option" where
  "pps_final D P ew x =
     (if node_is_final D (fst x) then map_option (\<lambda>d. of_nat d * ew) (min_accepting_distance P (snd x)) else None)"

definition pps_stands :: "(frontier \<Rightarrow> bool) \<Rightarrow> ('n, 'u) phonetic_source \<Rightarrow> state_id \<Rightarrow> 'n \<times> frontier \<Rightarrow> bool" where
  "pps_stands adm s q x \<longleftrightarrow> adm (snd x) \<and>
     (\<exists>i j G. pps_at_pair s q i j (fst x) G \<and> adm G \<and> frontier_content G = frontier_content (snd x))"

definition pps_ok ::
    "(frontier \<Rightarrow> bool) \<Rightarrow> ('n, 'u) dictionary \<Rightarrow> product_automaton \<Rightarrow> rat \<Rightarrow> rat \<Rightarrow> u32 \<Rightarrow> ('n, 'u) phonetic_source \<Rightarrow> bool" where
  "pps_ok adm D P pw ew m s \<longleftrightarrow> dictionary_ok D \<and> product_respects P adm \<and> pps_wf s \<and>
     pps_dictionary s = D \<and> pps_product s = P \<and> pps_phonetic_weight s = F64 pw \<and> pps_edit_weight s = F64 ew \<and>
     pps_max_product_states s = m \<and> reg_tracks D (pps_nodes s) \<and> frontiers_ok adm (pps_states s)"

definition pps_used :: "('n, 'u) phonetic_source \<Rightarrow> nat" where
  "pps_used s = dict_frontier.pair_used (pps_regs s)"

definition pps_bounded :: "('n, 'u) dictionary \<Rightarrow> nat \<Rightarrow> nat \<Rightarrow> u32 \<Rightarrow> bool" where
  "pps_bounded D B L m \<longleftrightarrow> (\<forall>n. length (node_edges D n) \<le> B) \<and> L \<le> unat m \<and> L * unat m \<le> 2 ^ 32"

lemma pps_okD:
  assumes "pps_ok adm D P pw ew m s"
  shows "dictionary_ok D" and "product_respects P adm" and "pps_wf s" and "pps_dictionary s = D" and "pps_product s = P"
    and "pps_phonetic_weight s = F64 pw" and "pps_edit_weight s = F64 ew" and "pps_max_product_states s = m"
    and "reg_tracks D (pps_nodes s)" and "frontiers_ok adm (pps_states s)" and "reg_wf (pps_nodes s)" and "fr_wf (pps_states s)"
  using assms by (simp_all add: pps_ok_def pps_wf_def dict_frontier.pair_wf_def pps_regs_def)

text \<open>The pairs to register: one per edge that the frontier survives.\<close>

lemma pps_pairs_iff:
  assumes "pps_ok adm D P pw ew m s" and "adm F"
  shows "(c, ck, child, k, F') \<in> set (pps_pairs s i node F) \<longleftrightarrow>
    child_by D node c = Some child \<and> ck = node_key_child i c \<and> transition_frontier P F c \<noteq> [] \<and>
    prepare_state (transition_frontier P F c) = Some (F', k)"
proof -
  note ok = pps_okD [OF assms(1)]
  have edge: "(\<exists>u. (u, child) \<in> set (node_edges D node) \<and> unit_char D u = c) \<longleftrightarrow> child_by D node c = Some child"
    using child_by_edge [OF ok(1)] child_by_SomeD by metis
  have "(c, ck, child, k, F') \<in> set (pps_pairs s i node F) \<longleftrightarrow>
      (\<exists>u. (u, child) \<in> set (node_edges D node) \<and> unit_char D u = c) \<and> ck = node_key_child i c \<and>
      transition_frontier P F c \<noteq> [] \<and> prepare_state (transition_frontier P F c) = Some (F', k)"
    by (force simp: pps_pairs_def edge_pairs_def pps_pending_edges_def List.map_filter_def ok(4,5) Let_def split: if_splits option.splits)
  then show ?thesis unfolding edge .
qed

lemma pps_pairs_length: "length (pps_pairs s i node F) \<le> length (node_edges (pps_dictionary s) node)"
  by (simp add: pps_pairs_def edge_pairs_def pps_pending_edges_def List.map_filter_def)

lemma pps_pairs_bounded: "pps_bounded D B L m \<Longrightarrow> pps_dictionary s = D \<Longrightarrow> length (pps_pairs s i node F) \<le> B"
  using pps_pairs_length [of s i node F] by (auto simp: pps_bounded_def intro: le_trans)

lemma pps_expand_ok:
  assumes "pps_ok adm D P pw ew m s"
  shows "pps_ok adm D P pw ew m (snd (pps_expand_state s q))"
proof (cases "pps_is_valid_product_state s q")
  case True
  note ok = pps_okD [OF assms]
  obtain i j node F where d: "pps_at_pair s q i j node F" using True unfolding pps_valid_iff by blast
  then have node: "reg_get_node (pps_nodes s) i = Some node" and F: "adm F"
    using ok(10) by (auto simp: pps_at_pair_def frontiers_ok_def front_reg.all_entries_def frontier_entry_def)
  let ?r = "snd (register_frontier_pairs m (pps_pairs s i node F) (pps_regs s))"
  have "(reg_tracks D (fst ?r) \<and> reg_get_node (fst ?r) i = Some node) \<and> frontiers_ok adm (snd ?r)"
  proof (rule dict_frontier.pseq_inv)
    show "dict_frontier.pair_wf (pps_regs s)" using ok(3) by (simp add: pps_wf_def)
    show "reg_tracks D (fst (pps_regs s)) \<and> reg_get_node (fst (pps_regs s)) i = Some node" using ok(9) node by (simp add: pps_regs_def)
    show "frontiers_ok adm (snd (pps_regs s))" using ok(10) by (simp add: pps_regs_def)
    fix c k1 v1 k2 v2 assume p: "(c, k1, v1, k2, v2) \<in> set (pps_pairs s i node F)"
    then have p': "child_by D node c = Some v1" "k1 = node_key_child i c" "prepare_state (transition_frontier P F c) = Some (v2, k2)"
      unfolding pps_pairs_iff [OF assms F] by blast+
    fix s1 assume s1: "reg_wf s1" "reg_tracks D s1 \<and> reg_get_node s1 i = Some node"
    obtain res s1' where r: "reg_register_node v1 k1 s1 = (res, s1')" by force
    have "reg_ext s1 s1'" using reg_ext_register [OF s1(1), of v1 k1] r by simp
    then show "reg_tracks D (snd (reg_register_node v1 k1 s1)) \<and> reg_get_node (snd (reg_register_node v1 k1 s1)) i = Some node"
      using reg_tracks_register [OF ok(1) s1(1) _ _ p'(1), of i res s1'] s1(2) r p'(2) by (simp add: reg_ext_def)
  next
    fix c k1 v1 k2 v2 assume p: "(c, k1, v1, k2, v2) \<in> set (pps_pairs s i node F)"
    then have prep: "prepare_state (transition_frontier P F c) = Some (v2, k2)" unfolding pps_pairs_iff [OF assms F] by blast
    have "adm v2" "append_frontier_key [] v2 = Some k2"
      using prepared_key [OF prep] product_respectsD(2,4) [OF ok(2)] F by blast+
    then show "frontiers_ok adm (snd (register_prepared_state_with_key k2 v2 s2))" if "fr_wf s2" "frontiers_ok adm s2" for s2
      using frontiers_ok_register that by blast
  qed
  moreover have "snd (pps_expand_state s q) = s\<lparr>pps_nodes := fst ?r, pps_states := snd ?r\<rparr>"
    by (simp add: pps_expand_eq [OF ok(3) d] Let_def ok(8))
  moreover have "pps_wf (snd (pps_expand_state s q))" using pps_expand_keeps [OF ok(3)] by blast
  ultimately show ?thesis using assms by (simp add: pps_ok_def)
next
  case False
  then show ?thesis using assms pps_expand_invalid [OF False] by simp
qed

lemma pps_step_target:
  assumes "pps_ok adm D P pw ew m s" and "pps_at_pair s q i j node G" and "adm G" and "adm F"
    and "frontier_content G = frontier_content F" and "child_by D node c = Some child"
    and "prepare_state (transition_frontier P G c) = Some (G', k)" and "transition_frontier P F c \<noteq> []"
    and "pps_ok adm D P pw ew m s'" and "pps_ext s s'"
    and "dict_frontier.pair_find m (node_key_child i c, k) (pps_regs s') = Some target"
  shows "pps_stands adm s' target (child, transition_frontier P F c)"
proof -
  note ok = pps_okD [OF assms(9)]
  obtain i' j' where ids: "reg_get_id (pps_nodes s') (node_key_child i c) = Some i'" "fr_id_for_key (pps_states s') k = Some j'"
    "try_encode i' j' m = Some target"
    using assms(11) by (auto simp: dict_frontier.pair_find_def pps_regs_def split: option.splits)
  have "reg_get_node (pps_nodes s') i = Some node" using pps_at_ext [OF assms(10,2)] by (simp add: pps_at_pair_def)
  then have child: "reg_get_node (pps_nodes s') i' = Some child" by (rule reg_tracks_known [OF ok(1,9) _ assms(6) ids(1)])
  obtain H where H: "fr_get_state (pps_states s') j' = Some H" "adm H" "frontier_content H = frontier_content (transition_frontier P G c)"
    using registered_content [OF ok(12,10) assms(7) ids(2)] by blast
  have "frontier_content (transition_frontier P G c) = frontier_content (transition_frontier P F c)"
    using product_respectsD(6) [OF ok(2) assms(3,4,5)] .
  moreover have "adm (transition_frontier P F c)" using product_respectsD(2) [OF ok(2) assms(4)] .
  ultimately show ?thesis
    using H child encode_decode [OF ids(3)] unfolding pps_stands_def pps_at_pair_def ok(8) by auto
qed

lemma frontier_empty: "frontier_content F = frontier_content G \<Longrightarrow> F = [] \<longleftrightarrow> G = []"
  by (auto simp: frontier_content_def)

interpretation pps_steps: step_source pps_expand_state "pps_ok adm D P pw ew m" "pps_stands adm" "pps_step D P pw"
  "pps_final D P ew" pps_used "\<lambda>_. B" L "pps_bounded D B L m"
  for adm and D :: "('n, 'u) dictionary" and P pw ew m B L
proof unfold_locales
  fix s s' :: "('n, 'u) phonetic_source" and q x :: state_id and c c' :: "'n \<times> frontier" and f w ts t i out k
  assume s: "pps_ok adm D P pw ew m s"
  note ok = pps_okD [OF s]
  show "pps_ok adm D P pw ew m (snd (pps_expand_state s x))" by (rule pps_expand_ok [OF s])
  assume at: "pps_stands adm s q c"
  show "pps_stands adm (snd (pps_expand_state s x)) q c"
    using at pps_at_ext [of s "snd (pps_expand_state s x)"] pps_expand_keeps [OF ok(3), of x] unfolding pps_stands_def by blast
  obtain i0 j0 G where d: "pps_at_pair s q i0 j0 (fst c) G" "adm G" "adm (snd c)" "frontier_content G = frontier_content (snd c)"
    using at unfolding pps_stands_def by blast
  let ?r = "register_frontier_pairs m (pps_pairs s i0 (fst c) G) (pps_regs s)"
  have wf: "dict_frontier.pair_wf (pps_regs s)" using ok(3) by (simp add: pps_wf_def)
  have fin: "pps_product_final_weight s (fst c) G = map_option F64 (pps_final D P ew c)"
    using product_respectsD(5) [OF ok(2) d(2-4)] ok(4,5,7)
    by (simp add: pps_product_final_weight_def pps_final_def scaled_distance_def option.map_comp comp_def)
  have ex: "pps_expand_state s q = (Expanded (pps_final D P ew c \<noteq> None) (case pps_final D P ew c of Some k \<Rightarrow> F64 k | None \<Rightarrow> tropical_zero)
      (map (\<lambda>(c, target). mk_transition q (Some c) (Some c) target (F64 pw)) (fst ?r)), s\<lparr>pps_nodes := fst (snd ?r), pps_states := snd (snd ?r)\<rparr>)"
    using pps_expand_eq [OF ok(3) d(1)] by (simp add: Let_def fin ok(6,8) split: option.split)
  then show "\<exists>ts. fst (pps_expand_state s q) = Expanded (pps_final D P ew c \<noteq> None)
      (case pps_final D P ew c of Some k \<Rightarrow> F64 k | None \<Rightarrow> tropical_zero) ts" by simp
  show "pps_used (snd (pps_expand_state s q)) \<le> pps_used s + B" if "pps_bounded D B L m"
  proof -
    have "length (pps_pairs s i0 (fst c) G) \<le> B" using pps_pairs_bounded [OF that ok(4)] .
    then show ?thesis
      using dict_frontier.pseq_used [OF wf, of m "pps_pairs s i0 (fst c) G"] by (simp add: ex pps_used_def pps_regs_def)
  qed
  assume e: "pps_expand_state s q = (Expanded f w ts, s')"
  have s': "pps_ok adm D P pw ew m s'" "pps_ext s s'" using pps_expand_ok [OF s, of q] pps_expand_keeps [OF ok(3), of q] e by simp_all
  have regs': "pps_regs s' = snd ?r" and ts: "ts = map (\<lambda>(c, target). mk_transition q (Some c) (Some c) target (F64 pw)) (fst ?r)"
    using e ex by (auto simp: pps_regs_def)
  have arc: "(a, target) \<in> set (fst ?r) \<longleftrightarrow> (\<exists>child G' k. child_by D (fst c) a = Some child \<and> transition_frontier P G a \<noteq> [] \<and>
      prepare_state (transition_frontier P G a) = Some (G', k) \<and>
      dict_frontier.pair_find m (node_key_child i0 a, k) (pps_regs s') = Some target)" for a target
    unfolding dict_frontier.pseq_arcs [OF wf] pps_pairs_iff [OF s d(2)] regs' by blast
  have alive: "transition_frontier P G a \<noteq> [] \<longleftrightarrow> transition_frontier P (snd c) a \<noteq> []" for a
    using frontier_empty product_respectsD(6) [OF ok(2) d(2-4)] by blast
  show "\<exists>k c'. t_weight t = F64 k \<and> pps_step D P pw c (t_input t) (t_output t) k c' \<and> pps_stands adm s' (t_to t) c'" if "t \<in> set ts"
  proof -
    obtain a target where t: "(a, target) \<in> set (fst ?r)" "t = mk_transition q (Some a) (Some a) target (F64 pw)"
      using \<open>t \<in> set ts\<close> unfolding ts by auto
    then obtain child G' k' where a: "child_by D (fst c) a = Some child" "transition_frontier P G a \<noteq> []"
      "prepare_state (transition_frontier P G a) = Some (G', k')"
      "dict_frontier.pair_find m (node_key_child i0 a, k') (pps_regs s') = Some target" unfolding arc by blast
    have "pps_stands adm s' target (child, transition_frontier P (snd c) a)"
      using pps_step_target [OF s d(1-4) a(1,3) _ s' a(4)] a(2) alive by blast
    then show ?thesis using t(2) a(1,2) alive
      by (intro exI [of _ pw] exI [of _ "(child, transition_frontier P (snd c) a)"]) (simp add: pps_step_def)
  qed
  show "\<exists>t \<in> set ts. t_input t = i \<and> t_output t = out \<and> t_weight t = F64 k \<and> pps_stands adm s' (t_to t) c'"
    if st: "pps_step D P pw c i out k c'" and bnd: "pps_bounded D B L m" and room: "pps_used s + B \<le> L"
  proof -
    obtain a where a: "i = Some a" "out = Some a" "k = pw" "child_by D (fst c) a = Some (fst c')"
      "snd c' = transition_frontier P (snd c) a" "snd c' \<noteq> []" using st unfolding pps_step_def by blast
    obtain G' k' where prep: "prepare_state (transition_frontier P G a) = Some (G', k')"
      using product_respectsD(2,3) [OF ok(2)] d(2) by blast
    have mem: "(a, node_key_child i0 a, fst c', k', G') \<in> set (pps_pairs s i0 (fst c) G)"
      unfolding pps_pairs_iff [OF s d(2)] using a prep alive by simp
    have "length (pps_pairs s i0 (fst c) G) \<le> B" using pps_pairs_bounded [OF bnd ok(4)] .
    moreover have "L \<le> 2 ^ 32" using bnd unat_less_exp [of m] by (simp add: pps_bounded_def)
    ultimately obtain target where target: "dict_frontier.pair_find m (node_key_child i0 a, k') (pps_regs s') = Some target"
      using dict_frontier.pseq_room [OF _ _ _ _ wf mem, of L m] bnd room unfolding regs' by (auto simp: pps_bounded_def pps_used_def)
    have c': "(fst c', transition_frontier P (snd c) a) = c'" using a(5) by (simp add: prod_eq_iff)
    have "transition_frontier P (snd c) a \<noteq> []" using a(5,6) by simp
    then have "pps_stands adm s' target c'"
      using pps_step_target [OF s d(1-4) a(4) prep _ s' target] unfolding c' by blast
    moreover have "(a, target) \<in> set (fst ?r)" unfolding arc using a(4-6) alive prep target by (metis (no_types))
    then have "mk_transition q (Some a) (Some a) target (F64 pw) \<in> set ts" unfolding ts by force
    ultimately show ?thesis using a(1-3) by (intro bexI [of _ "mk_transition q (Some a) (Some a) target (F64 pw)"]) simp_all
  qed
qed

section \<open>The language\<close>

fun survives :: "product_automaton \<Rightarrow> frontier \<Rightarrow> uchar list \<Rightarrow> bool" where
  "survives P F [] = True"
| "survives P F (c # cs) = (transition_frontier P F c \<noteq> [] \<and> survives P (transition_frontier P F c) cs)"

definition frontier_after :: "product_automaton \<Rightarrow> frontier \<Rightarrow> uchar list \<Rightarrow> frontier" where
  "frontier_after P F w = foldl (transition_frontier P) F w"

text \<open>The terms of the dictionary that the product automaton accepts, at a distance.\<close>

definition product_accepts :: "('n, 'u) dictionary \<Rightarrow> product_automaton \<Rightarrow> uchar list \<Rightarrow> nat \<Rightarrow> bool" where
  "product_accepts D P w d \<longleftrightarrow> dict_accepts D w \<and> survives P (initial_frontier P) w \<and>
     min_accepting_distance P (frontier_after P (initial_frontier P) w) = Some d"

lemma pps_path_sound:
  "machine_path (pps_step D P pw) (\<lambda>_. B) x l ins outs k y \<Longrightarrow>
     l = length ins * B \<and> outs = ins \<and> k = of_nat (length ins) * pw \<and> walk D (fst x) ins = Some (fst y) \<and>
     snd y = frontier_after P (snd x) ins \<and> survives P (snd x) ins"
  by (induction rule: machine_path.induct) (auto simp: frontier_after_def pps_step_def algebra_simps)

lemma pps_path_complete:
  "walk D n w = Some n' \<Longrightarrow> survives P F w \<Longrightarrow>
     machine_path (pps_step D P pw) (\<lambda>_. B) (n, F) (length w * B) w w (of_nat (length w) * pw) (n', frontier_after P F w)"
proof (induction w arbitrary: n F)
  case Nil
  then show ?case using path_stay [of "pps_step D P pw" "\<lambda>_. B" "(n, F)"] by (simp add: frontier_after_def)
next
  case (Cons c w)
  obtain m where m: "child_by D n c = Some m" "walk D m w = Some n'" using Cons.prems(1) by (auto split: option.splits)
  let ?F = "transition_frontier P F c"
  have "pps_step D P pw (n, F) (Some c) (Some c) pw (m, ?F)" using m(1) Cons.prems(2) by (simp add: pps_step_def)
  moreover have "machine_path (pps_step D P pw) (\<lambda>_. B) (m, ?F) (length w * B) w w (of_nat (length w) * pw) (n', frontier_after P ?F w)"
    using Cons.IH [OF m(2)] Cons.prems(2) by simp
  ultimately have "machine_path (pps_step D P pw) (\<lambda>_. B) (n, F) (B + length w * B) (label_word (Some c) @ w) (label_word (Some c) @ w)
      (pw + of_nat (length w) * pw) (n', frontier_after P ?F w)" by (rule path_move)
  then show ?case by (simp add: frontier_after_def algebra_simps)
qed

lemma estimated_states: "10000 \<le> unat (estimated_phonetic_product_states d)" "unat (estimated_phonetic_product_states d) \<le> 256000"
proof -
  have d: "unat (ucast d :: u32) \<le> 255" 
  proof -
    have "unat d < 2 ^ LENGTH(8)" by (rule unsigned_less)
    then show ?thesis by (simp add: unsigned_ucast_eq take_bit_eq_mod)
  qed
  then have "unat (saturating_add (ucast d) 1 :: u32) = unat (ucast d :: u32) + 1" by (simp add: unat_saturating_add)
  then have "unat (saturating_mul (saturating_add (ucast d) 1) 1000 :: u32) = (unat (ucast d :: u32) + 1) * 1000"
    using d by (simp add: unat_saturating_mul)
  then show "10000 \<le> unat (estimated_phonetic_product_states d)" "unat (estimated_phonetic_product_states d) \<le> 256000"
    using d by (simp_all add: estimated_phonetic_product_states_def max_def word_le_nat_alt)
qed

lemma pps_initial:
  assumes "dictionary_ok D" and "product_respects P adm"
    and "P = product_with_phonetic_weight Lib (normalize_full_string_anchors Lib A) d (F64 pw)"
    and "s = pps_from_validated Lib D A d (F64 pw) (F64 ew)"
  shows "pps_ok adm D P pw ew (estimated_phonetic_product_states d) s"
    and "pps_stands adm s 0 (dict_root D, initial_frontier P)" and "pps_used s = 1"
proof -
  let ?F = "initial_frontier P" and ?m = "estimated_phonetic_product_states d"
  obtain k where k: "prepare_state ?F = Some (canonicalize_product_frontier ?F, k)"
    using product_respectsD(1,3) [OF assms(2)] by blast
  let ?G = "canonicalize_product_frontier ?F"
  have G: "adm ?G" "append_frontier_key [] ?G = Some k" using prepared_key [OF k] product_respectsD(1,4) [OF assms(2)] by blast+
  have fr: "fr_new ?F = \<lparr>fr_state_to_id = [k \<mapsto> 0], fr_id_to_state = [?G]\<rparr>"
    by (simp add: fr_new_def fr_register_state_def k fr_defs u32_try_from_def)
  have m: "?m \<noteq> 0" using estimated_states(1) [of d] by auto
  have s: "pps_dictionary s = D" "pps_product s = P" "pps_phonetic_weight s = F64 pw" "pps_edit_weight s = F64 ew"
    "pps_max_product_states s = ?m" "pps_nodes s = reg_new (dict_root D)" "pps_states s = fr_new ?F"
    by (simp_all add: assms(3,4) pps_from_validated_def Let_def)
  have empty: "fr_wf \<lparr>fr_state_to_id = Map.empty, fr_id_to_state = []\<rparr>" "frontiers_ok adm \<lparr>fr_state_to_id = Map.empty, fr_id_to_state = []\<rparr>"
    by (simp_all add: fr_wf_def frontiers_ok_def front_reg.keyed_def front_reg.all_entries_def fr_get_state_def nth_opt_def)
  have "frontiers_ok adm (fr_new ?F)"
    using frontiers_ok_register [OF empty G] by (simp add: fr_new_def fr_register_state_def k)
  then show "pps_ok adm D P pw ew ?m s"
    using assms(1,2) s pps_wf_new [of Lib D A d "F64 pw" "F64 ew"] reg_tracks_new [of D] assms(4) by (simp add: pps_ok_def)
  have "pps_at_pair s 0 0 0 (dict_root D) ?G"
    using m by (simp add: pps_at_pair_def s fr decode_def fr_get_state_def nth_opt_def reg_new_eq reg_get_node_def)
  then show "pps_stands adm s 0 (dict_root D, ?F)"
    using G(1) product_respectsD(1) [OF assms(2)] frontier_key_exact_aux [OF k] unfolding pps_stands_def by auto
  show "pps_used s = 1" by (simp add: pps_used_def pps_regs_def dict_frontier.pair_used_def s fr fr_len_def reg_new_eq reg_len_def)
qed

text \<open>
  C13: phonetic: the phonetic WFST accepts exactly the dictionary terms that the product automaton accepts.
  Whatever it accepts, under any order of expansions, maps a term to itself, and costs the phonetic weight per
  character plus the edit weight times the least accepting distance. Every such term is accepted, if its length times the
  largest number of edges of a node fits the ten thousand states that every configuration can number.
\<close>

theorem phonetic_product_language:
  assumes "dictionary_ok D" and "product_respects P adm"
    and "P = product_with_phonetic_weight Lib (normalize_full_string_anchors Lib A) d (F64 pw)"
    and "pps_with_weights Lib D A d (F64 pw) (F64 ew) = Inr s"
  shows "(src_accepts pps_expand_state s ins outs k \<longrightarrow>
      outs = ins \<and> (\<exists>e. product_accepts D P ins e \<and> k = of_nat (length ins) * pw + of_nat e * ew)) \<and>
    (product_accepts D P w e \<longrightarrow> (\<forall>n. length (node_edges D n) \<le> B) \<longrightarrow> 1 + length w * B \<le> 10000 \<longrightarrow>
      src_accepts pps_expand_state s w w (of_nat (length w) * pw + of_nat e * ew))"
proof -
  have s: "s = pps_from_validated Lib D A d (F64 pw) (F64 ew)"
    using assms(4) by (auto simp: pps_with_weights_def split: sum.splits)
  note init = pps_initial [OF assms(1-3) s]
  have final: "pps_final D P ew (n, F) = Some r \<longleftrightarrow> node_is_final D n \<and> (\<exists>e. min_accepting_distance P F = Some e \<and> r = of_nat e * ew)" for n F r
    by (auto simp: pps_final_def)
  have "outs = ins \<and> (\<exists>e. product_accepts D P ins e \<and> k = of_nat (length ins) * pw + of_nat e * ew)"
    if acc: "src_accepts pps_expand_state s ins outs k"
  proof -
    obtain l n F k1 k2 where p: "machine_path (pps_step D P pw) (\<lambda>_. B) (dict_root D, initial_frontier P) l ins outs k1 (n, F)"
      "pps_final D P ew (n, F) = Some k2" "k = k1 + k2"
      using pps_steps.accepts_sound [OF init(1,2) acc] by (metis prod.collapse)
    show ?thesis using pps_path_sound [OF p(1)] p(2,3) unfolding final product_accepts_def dict_accepts_def by auto
  qed
  moreover have "src_accepts pps_expand_state s w w (of_nat (length w) * pw + of_nat e * ew)"
    if acc: "product_accepts D P w e" and B: "\<forall>n. length (node_edges D n) \<le> B" and len: "1 + length w * B \<le> 10000"
  proof -
    obtain n where n: "walk D (dict_root D) w = Some n" "node_is_final D n"
      using acc by (auto simp: product_accepts_def dict_accepts_def split: option.splits)
    have path: "machine_path (pps_step D P pw) (\<lambda>_. B) (dict_root D, initial_frontier P) (length w * B) w w (of_nat (length w) * pw)
        (n, frontier_after P (initial_frontier P) w)"
      by (rule pps_path_complete [OF n(1)]) (use acc in \<open>simp add: product_accepts_def\<close>)
    have "pps_final D P ew (n, frontier_after P (initial_frontier P) w) = Some (of_nat e * ew)"
      using acc n(2) unfolding final product_accepts_def by blast
    moreover have "pps_bounded D B 10000 (estimated_phonetic_product_states d)"
      using B estimated_states [of d] by (simp add: pps_bounded_def)
    ultimately show ?thesis using pps_steps.accepts_complete [OF init(1,2) path] init(3) len by simp
  qed
  ultimately show ?thesis by blast
qed

text \<open>A product automaton of the exact word \<open>ab\<close>, over a library that edits automata as its names say.\<close>

abbreviation one_state :: "nfa_state \<Rightarrow> frontier" where
  "one_state q \<equiv> [\<lparr>fs_nfa_states = [q], fs_cost = F64 0\<rparr>]"

definition ab_product :: product_automaton where
  "ab_product =
     \<lparr>initial_frontier = one_state 0,
      transition_frontier = (\<lambda>F c. if F = one_state 0 \<and> c = 97 then one_state 1 else if F = one_state 1 \<and> c = 98 then one_state 2 else []),
      min_accepting_distance = (\<lambda>F. if F = one_state 2 then Some 0 else None)\<rparr>"

definition edit_library :: phonetic_library where
  "edit_library =
     \<lparr>add_epsilon = (\<lambda>A p q. A\<lparr>transitions_from := (transitions_from A)(p := transitions_from A p @ [(EpsilonLabel, q)])\<rparr>),
      set_final = (\<lambda>A q b. A\<lparr>nfa_is_final := (nfa_is_final A)(q := b)\<rparr>), finalize = (\<lambda>A. A),
      product_with_phonetic_weight = (\<lambda>A d w. ab_product)\<rparr>"

definition ab_frontier :: "frontier \<Rightarrow> bool" where
  "ab_frontier F \<longleftrightarrow> F = [] \<or> F = one_state 0 \<or> F = one_state 1 \<or> F = one_state 2"

lemma ab_product_respects: "product_respects ab_product ab_frontier"
proof -
  have canon: "canonicalize_product_frontier (one_state q) = one_state q" "canonicalize_product_frontier [] = []" for q
    by (simp_all add: canonicalize_product_frontier_def canonicalize_nfa_states_def)
  have key: "\<exists>k. prepare_state F = Some (canonicalize_product_frontier F, k)" if "ab_frontier F" for F
    using that by (auto simp: ab_frontier_def prepare_state_def canon canonical_product_frontier_to_key_def
        append_product_state_key_parts_def next_phonetic_registry_id_def u32_try_from_def)
  have same: "F = G" if "ab_frontier F" "ab_frontier G" "frontier_content F = frontier_content G" for F G
    using that by (auto simp: ab_frontier_def frontier_content_def)
  have "ab_frontier (transition_frontier ab_product F c)" "ab_frontier (initial_frontier ab_product)" for F c
    by (simp_all add: ab_product_def ab_frontier_def)
  moreover have "ab_frontier (canonicalize_product_frontier F)" if "ab_frontier F" for F
    using that by (auto simp: ab_frontier_def canon)
  ultimately show ?thesis unfolding product_respects_def using key same by blast
qed

theorem phonetic_product_language_witness:
  "src_accepts pps_expand_state (pps_from_validated edit_library ab_dictionary letter_nfa 0 (F64 (1 / 2)) (F64 1)) [97, 98] [97, 98] 1"
proof -
  let ?s = "pps_from_validated edit_library ab_dictionary letter_nfa 0 (F64 (1 / 2)) (F64 1)"
  have s: "pps_with_weights edit_library ab_dictionary letter_nfa 0 (F64 (1 / 2)) (F64 1) = Inr ?s"
    by (simp add: pps_with_weights_def validate_finite_nonnegative_weight_def f64_is_finite_def f64_ge_def)
  have P: "ab_product = product_with_phonetic_weight edit_library (normalize_full_string_anchors edit_library letter_nfa) 0 (F64 (1 / 2))"
    by (simp add: edit_library_def)
  have "product_accepts ab_dictionary ab_product [97, 98] 0"
    by (simp add: product_accepts_def ab_dictionary_accepts frontier_after_def ab_product_def)
  moreover have "\<forall>n. length (node_edges ab_dictionary n) \<le> 1" by (simp add: ab_dictionary_def ab_edges_def)
  ultimately show ?thesis
    using phonetic_product_language [OF ab_dictionary_ok ab_product_respects P s, of "[]" "[]" 0 "[97, 98]" 0 1] by simp
qed

end
