(* ===== verification/Phonetic_Pipeline.thy ===== *)
theory Phonetic_Pipeline
  imports Phonetic_Product_Language Rewrite_Paths
begin

text \<open>
  \<open>src/composed_phonetic.rs\<close>: the pipeline builder, which collects a configuration by validated setters and
  builds one of three transducers from it. Parsing and compiling a pattern are the library's and parameters;
  the texts of the errors are constructors. The order of the search results, by \<open>total_cmp\<close> of their costs, is
  left out: it tells the two signs of zero apart, which the type of floats here does not.
\<close>

section \<open>Configuration\<close>

record pipeline_config =
  pc_pattern :: "string option"
  pc_max_distance :: "8 word"
  pc_phonetic_weight :: f64
  pc_edit_weight :: f64
  pc_rewrite_rules :: "rewrite_rule list"
  pc_allow_identity :: bool

definition pipeline_config_default :: pipeline_config where
  "pipeline_config_default =
     \<lparr>pc_pattern = None, pc_max_distance = 2, pc_phonetic_weight = F64 0, pc_edit_weight = F64 1,
      pc_rewrite_rules = [], pc_allow_identity = True\<rparr>"

record ('n, 'u) pipeline_builder =
  pl_config :: pipeline_config
  pl_dictionary :: "('n, 'u) dictionary option"

definition pl_new :: "('n, 'u) pipeline_builder" where
  "pl_new = \<lparr>pl_config = pipeline_config_default, pl_dictionary = None\<rparr>"

definition pl_phonetic_pattern :: "string \<Rightarrow> ('n, 'u) pipeline_builder \<Rightarrow> ('n, 'u) pipeline_builder" where
  "pl_phonetic_pattern pattern b = b\<lparr>pl_config := (pl_config b)\<lparr>pc_pattern := Some pattern\<rparr>\<rparr>"

definition pl_max_edit_distance :: "8 word \<Rightarrow> ('n, 'u) pipeline_builder \<Rightarrow> ('n, 'u) pipeline_builder" where
  "pl_max_edit_distance d b = b\<lparr>pl_config := (pl_config b)\<lparr>pc_max_distance := d\<rparr>\<rparr>"

definition pl_phonetic_weight :: "f64 \<Rightarrow> ('n, 'u) pipeline_builder \<Rightarrow> invalid_weight_error + ('n, 'u) pipeline_builder" where
  "pl_phonetic_weight w b =
     (case validate_finite_nonnegative_weight ''phonetic_weight'' w of
        Inl e \<Rightarrow> Inl e
      | Inr w \<Rightarrow> Inr (b\<lparr>pl_config := (pl_config b)\<lparr>pc_phonetic_weight := w\<rparr>\<rparr>))"

definition pl_edit_weight :: "f64 \<Rightarrow> ('n, 'u) pipeline_builder \<Rightarrow> invalid_weight_error + ('n, 'u) pipeline_builder" where
  "pl_edit_weight w b =
     (case validate_finite_nonnegative_weight ''edit_weight'' w of
        Inl e \<Rightarrow> Inl e
      | Inr w \<Rightarrow> Inr (b\<lparr>pl_config := (pl_config b)\<lparr>pc_edit_weight := w\<rparr>\<rparr>))"

definition pl_add_rewrite_rule ::
    "uchar list \<Rightarrow> uchar list \<Rightarrow> f64 \<Rightarrow> ('n, 'u) pipeline_builder \<Rightarrow> invalid_weight_error + ('n, 'u) pipeline_builder" where
  "pl_add_rewrite_rule input output cost b =
     (case rule_with_cost input output cost of
        Inl e \<Rightarrow> Inl e
      | Inr rule \<Rightarrow> Inr (b\<lparr>pl_config := (pl_config b)\<lparr>pc_rewrite_rules := pc_rewrite_rules (pl_config b) @ [rule]\<rparr>\<rparr>))"

fun validate_rule_costs :: "rewrite_rule list \<Rightarrow> invalid_weight_error + unit" where
  "validate_rule_costs [] = Inr ()"
| "validate_rule_costs (rule # rules) =
     (case validate_finite_nonnegative_weight ''rewrite rule cost'' (rr_cost rule) of
        Inl e \<Rightarrow> Inl e
      | Inr _ \<Rightarrow> validate_rule_costs rules)"

definition pl_add_rewrite_rules ::
    "rewrite_rule list \<Rightarrow> ('n, 'u) pipeline_builder \<Rightarrow> invalid_weight_error + ('n, 'u) pipeline_builder" where
  "pl_add_rewrite_rules rules b =
     (case validate_rule_costs rules of
        Inl e \<Rightarrow> Inl e
      | Inr _ \<Rightarrow> Inr (b\<lparr>pl_config := (pl_config b)\<lparr>pc_rewrite_rules := pc_rewrite_rules (pl_config b) @ rules\<rparr>\<rparr>))"

definition pl_allow_identity :: "bool \<Rightarrow> ('n, 'u) pipeline_builder \<Rightarrow> ('n, 'u) pipeline_builder" where
  "pl_allow_identity allow b = b\<lparr>pl_config := (pl_config b)\<lparr>pc_allow_identity := allow\<rparr>\<rparr>"

definition pl_set_dictionary :: "('m, 'v) dictionary \<Rightarrow> ('n, 'u) pipeline_builder \<Rightarrow> ('m, 'v) pipeline_builder" where
  "pl_set_dictionary D b = \<lparr>pl_config = pl_config b, pl_dictionary = Some D\<rparr>"

section \<open>Building\<close>

datatype pipeline_error =
    NoPattern
  | NoDictionary
  | PatternModeOnly string
  | PipelineParse string
  | PipelineCompile string
  | PipelineWeight invalid_weight_error

definition configured_pattern :: "('n, 'u) pipeline_builder \<Rightarrow> pipeline_error + string" where
  "configured_pattern b = (case pc_pattern (pl_config b) of Some p \<Rightarrow> Inr p | None \<Rightarrow> Inl NoPattern)"

definition ensure_pattern_mode_only :: "string \<Rightarrow> ('n, 'u) pipeline_builder \<Rightarrow> pipeline_error + unit" where
  "ensure_pattern_mode_only build_name b =
     (if pc_rewrite_rules (pl_config b) = [] then Inr () else Inl (PatternModeOnly build_name))"

definition build_rewrite_wfst :: "('n, 'u) pipeline_builder \<Rightarrow> invalid_weight_error + cached_rewrite" where
  "build_rewrite_wfst b =
     (case with_rules (pc_rewrite_rules (pl_config b)) of
        Inl e \<Rightarrow> Inl e
      | Inr w \<Rightarrow> Inr (set_allow_identity (pc_allow_identity (pl_config b)) (cache_new rewrite_max_cache_size, w)))"

definition compile_configured_pattern ::
    "(string \<Rightarrow> string + 'ast) \<Rightarrow> ('ast \<Rightarrow> string + nfa) \<Rightarrow> ('n, 'u) pipeline_builder \<Rightarrow> pipeline_error + nfa" where
  "compile_configured_pattern parse compile b =
     (case configured_pattern b of
        Inl e \<Rightarrow> Inl e
      | Inr pattern \<Rightarrow>
          (case parse pattern of
             Inl e \<Rightarrow> Inl (PipelineParse e)
           | Inr ast \<Rightarrow> (case compile ast of Inl e \<Rightarrow> Inl (PipelineCompile e) | Inr A \<Rightarrow> Inr A)))"

definition build_phonetic_nfa ::
    "(string \<Rightarrow> string + 'ast) \<Rightarrow> ('ast \<Rightarrow> string + nfa) \<Rightarrow> ('n, 'u) pipeline_builder \<Rightarrow> pipeline_error + phonetic_nfa_wfst" where
  "build_phonetic_nfa parse compile b =
     (case ensure_pattern_mode_only ''build_phonetic_nfa()'' b of
        Inl e \<Rightarrow> Inl e
      | Inr _ \<Rightarrow>
          (case compile_configured_pattern parse compile b of
             Inl e \<Rightarrow> Inl e
           | Inr A \<Rightarrow>
               (case pn_with_phonetic_weight A (pc_phonetic_weight (pl_config b)) of
                  Inl e \<Rightarrow> Inl (PipelineWeight e)
                | Inr w \<Rightarrow> Inr w)))"

definition pl_build ::
    "phonetic_library \<Rightarrow> (string \<Rightarrow> string + 'ast) \<Rightarrow> ('ast \<Rightarrow> string + nfa) \<Rightarrow> ('n, 'u) pipeline_builder
     \<Rightarrow> pipeline_error + ('n, 'u) phonetic_wfst" where
  "pl_build L parse compile b =
     (case ensure_pattern_mode_only ''build()'' b of
        Inl e \<Rightarrow> Inl e
      | Inr _ \<Rightarrow>
          (case pl_dictionary b of
             None \<Rightarrow> Inl NoDictionary
           | Some D \<Rightarrow>
               (case compile_configured_pattern parse compile b of
                  Inl e \<Rightarrow> Inl e
                | Inr A \<Rightarrow>
                    (case pw_with_weights L D A (pc_max_distance (pl_config b)) (pc_phonetic_weight (pl_config b))
                            (pc_edit_weight (pl_config b)) of
                       Inl e \<Rightarrow> Inl (PipelineWeight e)
                     | Inr w \<Rightarrow> Inr w))))"

section \<open>Configured builders\<close>

text \<open>What a client can do to a builder, until the first rejected value.\<close>

datatype pipeline_setting =
    SetPattern string
  | SetMaxDistance "8 word"
  | SetPhoneticWeight f64
  | SetEditWeight f64
  | AddRule "uchar list" "uchar list" f64
  | AddRules "rewrite_rule list"
  | SetAllowIdentity bool

fun pl_set :: "pipeline_setting \<Rightarrow> ('n, 'u) pipeline_builder \<Rightarrow> invalid_weight_error + ('n, 'u) pipeline_builder" where
  "pl_set (SetPattern p) b = Inr (pl_phonetic_pattern p b)"
| "pl_set (SetMaxDistance d) b = Inr (pl_max_edit_distance d b)"
| "pl_set (SetPhoneticWeight w) b = pl_phonetic_weight w b"
| "pl_set (SetEditWeight w) b = pl_edit_weight w b"
| "pl_set (AddRule i out c) b = pl_add_rewrite_rule i out c b"
| "pl_set (AddRules rs) b = pl_add_rewrite_rules rs b"
| "pl_set (SetAllowIdentity a) b = Inr (pl_allow_identity a b)"

fun pl_configure :: "pipeline_setting list \<Rightarrow> ('n, 'u) pipeline_builder \<Rightarrow> invalid_weight_error + ('n, 'u) pipeline_builder" where
  "pl_configure [] b = Inr b"
| "pl_configure (x # xs) b = (case pl_set x b of Inl e \<Rightarrow> Inl e | Inr b' \<Rightarrow> pl_configure xs b')"

definition valid_weight :: "f64 \<Rightarrow> bool" where
  "valid_weight w \<longleftrightarrow> (\<exists>r \<ge> 0. w = F64 r)"

definition pipeline_ok :: "pipeline_config \<Rightarrow> bool" where
  "pipeline_ok c \<longleftrightarrow> valid_weight (pc_phonetic_weight c) \<and> valid_weight (pc_edit_weight c) \<and>
     (\<forall>r \<in> set (pc_rewrite_rules c). valid_weight (rr_cost r))"

lemma validate_valid: "valid_weight w \<Longrightarrow> validate_finite_nonnegative_weight name w = Inr w"
  by (simp add: valid_weight_def)

lemma validate_Inr_iff: "validate_finite_nonnegative_weight name w = Inr v \<longleftrightarrow> v = w \<and> valid_weight w"
  by (simp add: valid_weight_def)

lemma validate_Inl: "validate_finite_nonnegative_weight name w = Inl e \<Longrightarrow> \<not> valid_weight w"
  using validate_valid [of w name] by auto

lemma validate_costs_ok: "validate_rule_costs rs = Inr u \<longleftrightarrow> (\<forall>r \<in> set rs. valid_weight (rr_cost r))"
  and validate_rules_ok: "validate_rewrite_rules rs = Inr u \<longleftrightarrow> (\<forall>r \<in> set rs. valid_weight (rr_cost r))"
  by (induction rs) (auto simp: validate_Inr_iff validate_rewrite_rule_def simp del: validate_weight_eq_Inr dest: validate_Inl split: sum.split)

lemma pl_set_ok: "pl_set x b = Inr b' \<Longrightarrow> pipeline_ok (pl_config b) \<Longrightarrow> pipeline_ok (pl_config b')"
  by (cases x)
    (auto simp: pipeline_ok_def pl_phonetic_pattern_def pl_max_edit_distance_def pl_phonetic_weight_def pl_edit_weight_def
      pl_add_rewrite_rule_def pl_add_rewrite_rules_def pl_allow_identity_def rule_with_cost_def rule_from_validated_cost_def
      validate_costs_ok valid_weight_def split: sum.splits)

lemma pl_configure_ok: "pl_configure xs b = Inr b' \<Longrightarrow> pipeline_ok (pl_config b) \<Longrightarrow> pipeline_ok (pl_config b')"
  by (induction xs arbitrary: b) (auto split: sum.splits dest: pl_set_ok)

lemma pipeline_default_ok: "pipeline_ok (pl_config pl_new)"
  by (simp add: pl_new_def pipeline_config_default_def pipeline_ok_def valid_weight_def)

lemma weights_ok_pw: "valid_weight pw \<Longrightarrow> valid_weight ew \<Longrightarrow>
    pw_with_weights L D A d pw ew = Inr (pw_from_state_source (pps_from_validated L D A d pw ew))"
  by (simp add: pw_with_weights_def pps_with_weights_def validate_valid)

text \<open>
  C31: pipeline: whatever a client sets, in any order, the weights of an accepted configuration are valid, so
  no build fails on a weight. The rewrite build always succeeds, with exactly the configured rules and identity
  arcs; the pattern builds refuse configured rules, a missing dictionary, a missing, unparsable or uncompilable
  pattern, in that order, and otherwise build the transducer of the compiled pattern under the configured weights.
\<close>

theorem pipeline_builds_exact:
  assumes "pl_configure settings (pl_new :: ('m, 'v) pipeline_builder) = Inr b0"
    and "b = (case dictionary of None \<Rightarrow> \<lparr>pl_config = pl_config b0, pl_dictionary = None\<rparr> | Some D \<Rightarrow> pl_set_dictionary D b0)"
  shows "(\<exists>c w. build_rewrite_wfst b = Inr (c, w) \<and> rw_rules w = pc_rewrite_rules (pl_config b) \<and>
      allow_identity w = pc_allow_identity (pl_config b)) \<and>
    pl_build L parse compile b =
      (if pc_rewrite_rules (pl_config b) \<noteq> [] then Inl (PatternModeOnly ''build()'')
       else case dictionary of
              None \<Rightarrow> Inl NoDictionary
            | Some D \<Rightarrow>
                map_sum id (\<lambda>A. pw_from_state_source (pps_from_validated L D A (pc_max_distance (pl_config b))
                    (pc_phonetic_weight (pl_config b)) (pc_edit_weight (pl_config b))))
                  (compile_configured_pattern parse compile b)) \<and>
    build_phonetic_nfa parse compile b =
      (if pc_rewrite_rules (pl_config b) \<noteq> [] then Inl (PatternModeOnly ''build_phonetic_nfa()'')
       else map_sum id (\<lambda>A. pn_from_validated A (pc_phonetic_weight (pl_config b)) default_phonetic_nfa_alphabet)
              (compile_configured_pattern parse compile b))"
proof -
  have c: "pl_config b = pl_config b0" "pl_dictionary b = dictionary"
    using assms(2) by (simp_all add: pl_set_dictionary_def split: option.split)
  have ok: "pipeline_ok (pl_config b)" using pl_configure_ok [OF assms(1) pipeline_default_ok] c(1) by simp
  have "validate_rewrite_rules (pc_rewrite_rules (pl_config b)) = Inr ()" using ok by (simp add: validate_rules_ok pipeline_ok_def)
  then have "\<exists>c w. build_rewrite_wfst b = Inr (c, w) \<and> rw_rules w = pc_rewrite_rules (pl_config b) \<and>
      allow_identity w = pc_allow_identity (pl_config b)"
    by (simp add: build_rewrite_wfst_def with_rules_def from_validated_rules_def set_allow_identity_def)
  moreover have nfa: "pn_with_phonetic_weight A (pc_phonetic_weight (pl_config b)) =
      Inr (pn_from_validated A (pc_phonetic_weight (pl_config b)) default_phonetic_nfa_alphabet)" for A
    using ok by (simp add: pn_with_phonetic_weight_def pn_with_phonetic_weight_and_alphabet_def validate_valid pipeline_ok_def)
  have "valid_weight (pc_phonetic_weight (pl_config b))" "valid_weight (pc_edit_weight (pl_config b))"
    using ok by (simp_all add: pipeline_ok_def)
  note product = weights_ok_pw [OF this]
  moreover have "pl_build L parse compile b =
      (if pc_rewrite_rules (pl_config b) \<noteq> [] then Inl (PatternModeOnly ''build()'')
       else case dictionary of
              None \<Rightarrow> Inl NoDictionary
            | Some D \<Rightarrow>
                map_sum id (\<lambda>A. pw_from_state_source (pps_from_validated L D A (pc_max_distance (pl_config b))
                    (pc_phonetic_weight (pl_config b)) (pc_edit_weight (pl_config b))))
                  (compile_configured_pattern parse compile b))"
    unfolding pl_build_def ensure_pattern_mode_only_def c(2) product by (simp split: option.split sum.split)
  moreover have "build_phonetic_nfa parse compile b =
      (if pc_rewrite_rules (pl_config b) \<noteq> [] then Inl (PatternModeOnly ''build_phonetic_nfa()'')
       else map_sum id (\<lambda>A. pn_from_validated A (pc_phonetic_weight (pl_config b)) default_phonetic_nfa_alphabet)
              (compile_configured_pattern parse compile b))"
    unfolding build_phonetic_nfa_def ensure_pattern_mode_only_def nfa by (simp split: sum.split)
  ultimately show ?thesis by blast
qed

text \<open>A pattern \<open>a\<close> at distance 1 over \<open>ab\<close>, and a builder with a rule, which only builds the rewrite transducer.\<close>

theorem pipeline_builds_exact_witness:
  "\<exists>b0. pl_configure [SetPattern ''a'', SetMaxDistance 1, SetPhoneticWeight (F64 (1 / 2))] (pl_new :: (nat, nat) pipeline_builder) = Inr b0 \<and>
     pl_build edit_library Inr (\<lambda>ast. Inr letter_nfa) (pl_set_dictionary ab_dictionary b0) =
       Inr (pw_from_state_source (pps_from_validated edit_library ab_dictionary letter_nfa 1 (F64 (1 / 2)) (F64 1)))"
proof -
  let ?c = "pipeline_config_default\<lparr>pc_pattern := Some ''a'', pc_max_distance := 1, pc_phonetic_weight := F64 (1 / 2)\<rparr>"
  let ?b = "\<lparr>pl_config = ?c, pl_dictionary = None\<rparr> :: (nat, nat) pipeline_builder"
  have half: "validate_finite_nonnegative_weight name (F64 (1 / 2)) = Inr (F64 (1 / 2))" for name
    by (rule validate_valid, unfold valid_weight_def, intro exI [of _ "1 / 2"]) simp
  have conf: "pl_configure [SetPattern ''a'', SetMaxDistance 1, SetPhoneticWeight (F64 (1 / 2))] (pl_new :: (nat, nat) pipeline_builder) = Inr ?b"
    by (simp add: pl_new_def pl_phonetic_pattern_def pl_max_edit_distance_def pl_phonetic_weight_def half)
  have "pl_build edit_library Inr (\<lambda>ast. Inr letter_nfa) (pl_set_dictionary ab_dictionary ?b) =
       Inr (pw_from_state_source (pps_from_validated edit_library ab_dictionary letter_nfa 1 (F64 (1 / 2)) (F64 1)))"
    using pipeline_builds_exact [OF conf refl, of "Some ab_dictionary" edit_library Inr "\<lambda>ast. Inr letter_nfa"]
    by (simp add: pipeline_config_default_def pl_set_dictionary_def compile_configured_pattern_def configured_pattern_def)
  then show ?thesis using conf by blast
qed

end
