(* ===== verification/Universal_Source.thy ===== *)
theory Universal_Source
  imports Node_Registry Paired_Registries Source_Runs
begin

text \<open>
  \<open>src/universal_state_support.rs\<close>, \<open>src/universal_state_source.rs\<close> and \<open>src/universal_wrapper.rs\<close>: the lazy product of
  a dictionary with the universal Levenshtein automaton over a query. The automaton is the library's and a
  parameter: its initial state, its transition on a characteristic vector, the view of a state by which the
  registry recognises it, and the distance at which a state accepts. The crate supplies the windows of the
  query that the vectors are taken from, the position on the query tape, and the numbering.
\<close>

section \<open>Query windows\<close>

record query_window =
  false_prefix :: usize
  window_units :: "uchar list"

definition relevant_window_at :: "uchar list \<Rightarrow> usize \<Rightarrow> usize \<Rightarrow> query_window" where
  "relevant_window_at word max_distance position =
     (let prefix = usize_sat_sub (usize_sat_add max_distance 1) position;
          first_word_pos = max (usize_sat_sub position max_distance) 1;
          end_pos = min (usize_sat_add (usize_sat_add position max_distance) 1) (length word);
          units = (if first_word_pos \<le> end_pos then drop (first_word_pos - 1) (take end_pos word) else [])
      in \<lparr>false_prefix = prefix, window_units = units\<rparr>)"

definition precompute_relevant_subwords :: "uchar list \<Rightarrow> usize \<Rightarrow> query_window list" where
  "precompute_relevant_subwords query_chars max_distance =
     map (\<lambda>dict_depth. relevant_window_at query_chars max_distance (dict_depth + 1))
       [0..<usize_sat_add (length query_chars) max_distance]"

definition next_universal_registry_id :: "usize \<Rightarrow> u32 option" where
  "next_universal_registry_id len = u32_try_from len"

definition universal_query_state_factor :: "usize \<Rightarrow> u32" where
  "universal_query_state_factor query_len =
     (case u32_try_from (usize_sat_add query_len 1) of Some v \<Rightarrow> v | None \<Rightarrow> u32_max)"

section \<open>The library's automaton\<close>

text \<open>\<open>'st\<close> are the universal states, \<open>'pos\<close> their positions and \<open>'bv\<close> the characteristic vectors.\<close>

record ('st, 'pos, 'bv) universal_library =
  universal_initial :: "8 word \<Rightarrow> 'st"
  universal_transition :: "'st \<Rightarrow> 'bv \<Rightarrow> usize \<Rightarrow> 'st option"
  length_diff :: "'st \<Rightarrow> 8 word"
  positions :: "'st \<Rightarrow> 'pos list"
  accepting_distance :: "'st \<Rightarrow> usize \<Rightarrow> usize \<Rightarrow> usize option"
  from_padded_units :: "uchar \<Rightarrow> usize \<Rightarrow> uchar list \<Rightarrow> 'bv"

section \<open>The registry\<close>

type_synonym 'pos universal_key = "usize \<times> 8 word \<times> 'pos list"

definition universal_state_key :: "('st, 'pos, 'bv) universal_library \<Rightarrow> 'st \<Rightarrow> usize \<Rightarrow> 'pos universal_key" where
  "universal_state_key U st query_pos = (query_pos, length_diff U st, positions U st)"

type_synonym 'st registered_universal_state = "'st \<times> usize"

record ('st, 'pos) universal_registry =
  ur_state_to_id :: "'pos universal_key \<rightharpoonup> u32"
  ur_id_to_state :: "'st registered_universal_state list"

definition ur_find :: "('st, 'pos) universal_registry \<Rightarrow> 'pos universal_key \<Rightarrow> u32 option" where
  "ur_find r key = ur_state_to_id r key"

definition register_state_with_key ::
    "'pos universal_key \<Rightarrow> 'st registered_universal_state \<Rightarrow> ('st, 'pos) universal_registry
     \<Rightarrow> u32 option \<times> ('st, 'pos) universal_registry" where
  "register_state_with_key key entry r =
     (case ur_state_to_id r key of
        Some i \<Rightarrow> (Some i, r)
      | None \<Rightarrow>
          (case next_universal_registry_id (length (ur_id_to_state r)) of
             None \<Rightarrow> (None, r)
           | Some i \<Rightarrow>
               (Some i, r\<lparr>ur_state_to_id := (ur_state_to_id r)(key \<mapsto> i), ur_id_to_state := ur_id_to_state r @ [entry]\<rparr>)))"

definition register_state_at ::
    "('st, 'pos, 'bv) universal_library \<Rightarrow> 'st \<Rightarrow> usize \<Rightarrow> ('st, 'pos) universal_registry
     \<Rightarrow> u32 option \<times> ('st, 'pos) universal_registry" where
  "register_state_at U st query_pos r =
     (case ur_state_to_id r (universal_state_key U st query_pos) of
        Some i \<Rightarrow> (Some i, r)
      | None \<Rightarrow>
          (case next_universal_registry_id (length (ur_id_to_state r)) of
             None \<Rightarrow> (None, r)
           | Some i \<Rightarrow>
               (Some i, r\<lparr>ur_state_to_id := (ur_state_to_id r)(universal_state_key U st query_pos \<mapsto> i),
                          ur_id_to_state := ur_id_to_state r @ [(st, query_pos)]\<rparr>)))"

definition ur_register_state ::
    "('st, 'pos, 'bv) universal_library \<Rightarrow> 'st \<Rightarrow> ('st, 'pos) universal_registry
     \<Rightarrow> u32 option \<times> ('st, 'pos) universal_registry" where
  "ur_register_state U st r = register_state_at U st 0 r"

text \<open>The same with a shared state: sharing is not visible in the model.\<close>

definition register_shared_state_at ::
    "('st, 'pos, 'bv) universal_library \<Rightarrow> 'st \<Rightarrow> usize \<Rightarrow> ('st, 'pos) universal_registry
     \<Rightarrow> u32 option \<times> ('st, 'pos) universal_registry" where
  "register_shared_state_at U st query_pos r =
     (let key = universal_state_key U st query_pos
      in case ur_state_to_id r key of
           Some i \<Rightarrow> (Some i, r)
         | None \<Rightarrow>
             (case next_universal_registry_id (length (ur_id_to_state r)) of
                None \<Rightarrow> (None, r)
              | Some i \<Rightarrow>
                  (Some i, r\<lparr>ur_state_to_id := (ur_state_to_id r)(key \<mapsto> i),
                             ur_id_to_state := ur_id_to_state r @ [(st, query_pos)]\<rparr>)))"

definition ur_candidate_state_id_for_key :: "('st, 'pos) universal_registry \<Rightarrow> 'pos universal_key \<Rightarrow> u32 option" where
  "ur_candidate_state_id_for_key r key =
     (case ur_state_to_id r key of Some i \<Rightarrow> Some i | None \<Rightarrow> next_universal_registry_id (length (ur_id_to_state r)))"

definition candidate_state_id_at ::
    "('st, 'pos, 'bv) universal_library \<Rightarrow> ('st, 'pos) universal_registry \<Rightarrow> 'st \<Rightarrow> usize \<Rightarrow> u32 option" where
  "candidate_state_id_at U r st query_pos = ur_candidate_state_id_for_key r (universal_state_key U st query_pos)"

definition get_registered_state :: "('st, 'pos) universal_registry \<Rightarrow> u32 \<Rightarrow> 'st registered_universal_state option" where
  "get_registered_state r i = nth_opt (ur_id_to_state r) (unat i)"

definition ur_get_state :: "('st, 'pos) universal_registry \<Rightarrow> u32 \<Rightarrow> 'st option" where
  "ur_get_state r i = map_option fst (nth_opt (ur_id_to_state r) (unat i))"

definition ur_len :: "('st, 'pos) universal_registry \<Rightarrow> usize" where
  "ur_len r = length (ur_id_to_state r)"

definition ur_is_empty :: "('st, 'pos) universal_registry \<Rightarrow> bool" where
  "ur_is_empty r = (ur_id_to_state r = [])"

definition ur_new :: "('st, 'pos, 'bv) universal_library \<Rightarrow> 8 word \<Rightarrow> ('st, 'pos) universal_registry" where
  "ur_new U max_distance =
     snd (register_state_at U (universal_initial U max_distance) 0 \<lparr>ur_state_to_id = Map.empty, ur_id_to_state = []\<rparr>)"

definition universal_accepting_weight :: "('st, 'pos, 'bv) universal_library \<Rightarrow> 'st \<Rightarrow> usize \<Rightarrow> usize \<Rightarrow> f64 option" where
  "universal_accepting_weight U st fixed_word_len processed_input_len =
     Option.bind (accepting_distance U st fixed_word_len processed_input_len) exact_usize_to_f64"

definition ur_wf :: "('st, 'pos) universal_registry \<Rightarrow> bool" where
  "ur_wf r \<longleftrightarrow> length (ur_id_to_state r) \<le> 2 ^ 32 \<and> dense_map (ur_state_to_id r) (length (ur_id_to_state r))"

lemmas ur_defs = ur_find_def register_state_with_key_def get_registered_state_def ur_len_def
  next_universal_registry_id_def ur_candidate_state_id_for_key_def

interpretation ureg: interner ur_find get_registered_state ur_len register_state_with_key "\<lambda>k v. v" ur_wf "2 ^ 32"
proof unfold_locales
  fix s :: "('st, 'pos) universal_registry" and k k' :: "'pos universal_key" and v :: "'st registered_universal_state" and i :: u32
  assume wf: "ur_wf s"
  then have dense: "dense_map (ur_state_to_id s) (length (ur_id_to_state s))" by (simp add: ur_wf_def)
  show "ur_wf (snd (register_state_with_key k v s))"
    using wf by (auto simp: ur_wf_def ur_defs u32_try_from_def dense_map_insert split: option.split)
  show "ur_len s \<le> 2 ^ 32" using wf by (simp add: ur_wf_def ur_len_def)
  show "ur_find s k = Some i \<Longrightarrow> unat i < ur_len s"
    using dense_map_less [OF dense] by (simp add: ur_defs)
  show "ur_find s k = Some i \<Longrightarrow> ur_find s k' = Some i \<Longrightarrow> k = k'"
    using dense_map_inj [OF dense] by (simp add: ur_defs)
  show "unat i < ur_len s \<Longrightarrow> \<exists>k. ur_find s k = Some i"
    using dense_map_surj [OF dense] by (simp add: ur_defs)
  show "(get_registered_state s i = None) = (ur_len s \<le> unat i)" by (simp add: ur_defs)
  show "ur_find s k = Some i \<Longrightarrow> register_state_with_key k v s = (Some i, s)" by (simp add: ur_defs)
  show "ur_find s k = None \<Longrightarrow> ur_len s = 2 ^ 32 \<Longrightarrow> register_state_with_key k v s = (None, s)"
    by (simp add: ur_defs u32_try_from_def)
  assume new: "ur_find s k = None" and lt: "ur_len s < 2 ^ 32"
  then have step: "register_state_with_key k v s = (Some (of_nat (ur_len s)),
      s\<lparr>ur_state_to_id := (ur_state_to_id s)(k \<mapsto> of_nat (ur_len s)), ur_id_to_state := ur_id_to_state s @ [v]\<rparr>)"
    by (simp add: ur_defs u32_try_from_def)
  show "fst (register_state_with_key k v s) = Some (of_nat (ur_len s))"
    and "ur_len (snd (register_state_with_key k v s)) = Suc (ur_len s)"
    and "ur_find (snd (register_state_with_key k v s)) = (ur_find s)(k \<mapsto> of_nat (ur_len s))"
    by (simp_all add: step ur_len_def ur_find_def fun_eq_iff)
  show "get_registered_state (snd (register_state_with_key k v s)) = (get_registered_state s)(of_nat (ur_len s) \<mapsto> v)"
    using lt nth_opt_snoc [of "ur_id_to_state s" v] by (simp add: step ur_len_def get_registered_state_def fun_eq_iff)
qed simp

lemma register_state_at_eq: "register_state_at U st p r = register_state_with_key (universal_state_key U st p) (st, p) r"
  and register_shared_state_at_eq: "register_shared_state_at U st p r = register_state_with_key (universal_state_key U st p) (st, p) r"
  by (simp_all add: register_state_at_def register_shared_state_at_def register_state_with_key_def Let_def)

lemma ur_candidate: "ur_wf r \<Longrightarrow> ur_candidate_state_id_for_key r k = fst (register_state_with_key k v r)"
  by (auto simp: ur_defs split: option.split)

section \<open>The source\<close>

record ('n, 'u, 'st, 'pos, 'bv) universal_source =
  us_library :: "('st, 'pos, 'bv) universal_library"
  us_dictionary :: "('n, 'u) dictionary"
  us_query :: "uchar list"
  us_windows :: "query_window list"
  us_states :: "('st, 'pos) universal_registry"
  us_nodes :: "'n depth_registry"
  us_max_states :: u32

definition us_new ::
    "('st, 'pos, 'bv) universal_library \<Rightarrow> ('n, 'u) dictionary \<Rightarrow> uchar list \<Rightarrow> 8 word
     \<Rightarrow> ('n, 'u, 'st, 'pos, 'bv) universal_source" where
  "us_new U D query d =
     \<lparr>us_library = U, us_dictionary = D, us_query = query,
      us_windows = precompute_relevant_subwords query (unat d),
      us_states = ur_new U d, us_nodes = dreg_new (dict_root D),
      us_max_states = max (saturating_mul (estimate_automaton_states (length query) (unat d))
                             (universal_query_state_factor (length query))) 1\<rparr>"

definition us_start :: "('n, 'u, 'st, 'pos, 'bv) universal_source \<Rightarrow> state_id" where
  "us_start s = 0"

definition us_is_valid_product_state :: "('n, 'u, 'st, 'pos, 'bv) universal_source \<Rightarrow> state_id \<Rightarrow> bool" where
  "us_is_valid_product_state s state =
     (case decode state (us_max_states s) of
        None \<Rightarrow> False
      | Some (i, j) \<Rightarrow> dreg_get_node (us_nodes s) i \<noteq> None \<and> ur_get_state (us_states s) j \<noteq> None)"

definition registered_final_weight ::
    "('n, 'u, 'st, 'pos, 'bv) universal_source \<Rightarrow> 'n \<Rightarrow> 'st \<Rightarrow> usize \<Rightarrow> usize \<Rightarrow> usize \<Rightarrow> weight option" where
  "registered_final_weight s node st query_pos fixed_word_len dict_depth =
     (if query_pos \<noteq> fixed_word_len \<or> \<not> node_is_final (us_dictionary s) node then None
      else universal_accepting_weight (us_library s) st fixed_word_len dict_depth)"

definition us_final_weight_for_state :: "('n, 'u, 'st, 'pos, 'bv) universal_source \<Rightarrow> state_id \<Rightarrow> weight option" where
  "us_final_weight_for_state s state =
     (case decode state (us_max_states s) of
        None \<Rightarrow> None
      | Some (i, j) \<Rightarrow>
          (case (dreg_get_node (us_nodes s) i, dreg_get_depth (us_nodes s) i, get_registered_state (us_states s) j) of
             (Some node, Some depth, Some (st, query_pos)) \<Rightarrow>
               registered_final_weight s node st query_pos (length (us_query s)) depth
           | _ \<Rightarrow> None))"

definition us_registered_state_id_span :: "('n, 'u, 'st, 'pos, 'bv) universal_source \<Rightarrow> usize" where
  "us_registered_state_id_span s =
     registered_product_state_id_span (dreg_len (us_nodes s)) (unat (us_max_states s)) (ur_len (us_states s))"

definition us_num_states_hint :: "('n, 'u, 'st, 'pos, 'bv) universal_source \<Rightarrow> usize option" where
  "us_num_states_hint s =
     map_option (\<lambda>h. max h (us_registered_state_id_span s))
       (dictionary_product_states_hint
          (map_option (\<lambda>n. max n (dreg_len (us_nodes s))) (dict_len (us_dictionary s)))
          (unat (us_max_states s)))"

definition relevant_subword_for_depth :: "('n, 'u, 'st, 'pos, 'bv) universal_source \<Rightarrow> usize \<Rightarrow> usize \<times> uchar list" where
  "relevant_subword_for_depth s dict_depth =
     (case nth_opt (us_windows s) dict_depth of
        Some w \<Rightarrow> (false_prefix w, window_units w)
      | None \<Rightarrow> (0, []))"

section \<open>Expansion\<close>

type_synonym ('n, 'st, 'pos) pending_universal_edge =
  "uchar \<times> 'n \<times> node_key \<times> 'st \<times> usize \<times> 'pos universal_key"

definition us_pending_edges ::
    "('n, 'u, 'st, 'pos, 'bv) universal_source \<Rightarrow> u32 \<Rightarrow> 'n \<Rightarrow> usize \<Rightarrow> 'st \<Rightarrow> usize
     \<Rightarrow> ('n, 'st, 'pos) pending_universal_edge list" where
  "us_pending_edges s dict_node_id node dict_depth st next_query_pos =
     (case relevant_subword_for_depth s dict_depth of
        (prefix, subword) \<Rightarrow>
          List.map_filter (\<lambda>(u, child).
            (let dict_char = unit_char (us_dictionary s) u;
                 bit_vector = from_padded_units (us_library s) dict_char prefix subword
             in case universal_transition (us_library s) st bit_vector (usize_sat_add dict_depth 1) of
                  None \<Rightarrow> None
                | Some st' \<Rightarrow>
                    Some (dict_char, child, node_key_child dict_node_id dict_char, st', next_query_pos,
                          universal_state_key (us_library s) st' next_query_pos)))
            (node_edges (us_dictionary s) node))"

fun us_commit_edges ::
    "u32 \<Rightarrow> state_id \<Rightarrow> uchar option \<Rightarrow> usize \<Rightarrow> ('n, 'st, 'pos) pending_universal_edge list
     \<Rightarrow> 'n depth_registry \<times> ('st, 'pos) universal_registry
     \<Rightarrow> transition list \<times> 'n depth_registry \<times> ('st, 'pos) universal_registry" where
  "us_commit_edges m from_state query_label dict_depth [] regs = ([], regs)"
| "us_commit_edges m from_state query_label dict_depth ((dict_char, child, child_key, st', next_query_pos, key) # es) (nr, sr) =
     (case (dreg_candidate_id nr child_key, ur_candidate_state_id_for_key sr key) of
        (Some candidate_child_id, Some candidate_auto_id) \<Rightarrow>
          if try_encode candidate_child_id candidate_auto_id m = None
          then us_commit_edges m from_state query_label dict_depth es (nr, sr)
          else (case dreg_register_node child child_key (dict_depth + 1) nr of
                  (None, nr') \<Rightarrow> us_commit_edges m from_state query_label dict_depth es (nr', sr)
                | (Some child_id, nr') \<Rightarrow>
                    (case register_state_with_key key (st', next_query_pos) sr of
                       (None, sr') \<Rightarrow> us_commit_edges m from_state query_label dict_depth es (nr', sr')
                     | (Some next_auto_id, sr') \<Rightarrow>
                         (case us_commit_edges m from_state query_label dict_depth es (nr', sr') of
                            (ts, regs) \<Rightarrow>
                              ((case try_encode child_id next_auto_id m of
                                  Some target \<Rightarrow> [mk_transition from_state query_label (Some dict_char) target tropical_one]
                                | None \<Rightarrow> []) @ ts, regs))))
      | _ \<Rightarrow> us_commit_edges m from_state query_label dict_depth es (nr, sr))"

text \<open>The arc that consumes a query character without moving in the dictionary.\<close>

definition us_query_arc ::
    "('st, 'pos, 'bv) universal_library \<Rightarrow> uchar list \<Rightarrow> u32 \<Rightarrow> state_id \<Rightarrow> u32 \<Rightarrow> 'st \<Rightarrow> usize
     \<Rightarrow> ('st, 'pos) universal_registry \<Rightarrow> transition list \<times> ('st, 'pos) universal_registry" where
  "us_query_arc U query m from_state dict_node_id st current_pos sr =
     (if current_pos < length query then
        (let next_query_pos = current_pos + 1;
             (next_auto_id, sr') =
               (case candidate_state_id_at U sr st next_query_pos of
                  Some candidate \<Rightarrow>
                    if try_encode dict_node_id candidate m \<noteq> None
                    then register_shared_state_at U st next_query_pos sr else (None, sr)
                | None \<Rightarrow> (None, sr))
         in case next_auto_id of
              None \<Rightarrow> ([], sr')
            | Some j \<Rightarrow>
                (case try_encode dict_node_id j m of
                   Some target \<Rightarrow> ([mk_transition from_state (Some (query ! current_pos)) None target tropical_one], sr')
                 | None \<Rightarrow> ([], sr')))
      else ([], sr))"

definition us_compute_transitions ::
    "('n, 'u, 'st, 'pos, 'bv) universal_source \<Rightarrow> u32 \<Rightarrow> u32
     \<Rightarrow> (bool \<times> weight \<times> transition list) \<times> ('n, 'u, 'st, 'pos, 'bv) universal_source" where
  "us_compute_transitions s i j =
     (case (dreg_get_node (us_nodes s) i, dreg_get_depth (us_nodes s) i) of
        (Some node, Some dict_depth) \<Rightarrow>
          (case get_registered_state (us_states s) j of
             None \<Rightarrow> ((False, tropical_zero, []), s)
           | Some (st, current_pos) \<Rightarrow>
               (case try_encode i j (us_max_states s) of
                  None \<Rightarrow> ((False, tropical_zero, []), s)
                | Some from_state \<Rightarrow>
                    (let query_label = nth_opt (us_query s) current_pos;
                         next_query_pos = current_pos + (if query_label \<noteq> None then 1 else 0);
                         (ts, nr, sr) =
                           (if current_pos \<le> length (us_query s)
                            then us_commit_edges (us_max_states s) from_state query_label dict_depth
                                   (us_pending_edges s i node dict_depth st next_query_pos) (us_nodes s, us_states s)
                            else ([], us_nodes s, us_states s));
                         (ts', sr') = us_query_arc (us_library s) (us_query s) (us_max_states s) from_state i st current_pos sr;
                         accepted = registered_final_weight s node st current_pos (length (us_query s)) dict_depth
                     in ((accepted \<noteq> None, case accepted of Some w \<Rightarrow> w | None \<Rightarrow> tropical_zero, ts @ ts'),
                         s\<lparr>us_nodes := nr, us_states := sr'\<rparr>))))
      | _ \<Rightarrow> ((False, tropical_zero, []), s))"

definition us_expand_state ::
    "('n, 'u, 'st, 'pos, 'bv) universal_source \<Rightarrow> state_id \<Rightarrow> expansion \<times> ('n, 'u, 'st, 'pos, 'bv) universal_source" where
  "us_expand_state s state =
     (case decode state (us_max_states s) of
        None \<Rightarrow> (Failed (InvalidState state), s)
      | Some (i, j) \<Rightarrow>
          (case us_compute_transitions s i j of
             ((is_final, w, ts), s') \<Rightarrow> (if is_final then final_state w ts else non_final ts, s')))"

definition us_compute_state ::
    "('n, 'u, 'st, 'pos, 'bv) universal_source \<Rightarrow> cancellation_reason option \<Rightarrow> state_id
     \<Rightarrow> expansion \<times> ('n, 'u, 'st, 'pos, 'bv) universal_source" where
  "us_compute_state s cancellation state = fulfill_expansion_request us_expand_state s cancellation state"

section \<open>The wrapper\<close>

record ('n, 'u, 'st, 'pos, 'bv) universal_wfst =
  uw_source :: "('n, 'u, 'st, 'pos, 'bv) universal_source"
  uw_cache :: "cached_char_state lazy_cache"

definition uw_default_max_cache_size :: usize where
  "uw_default_max_cache_size = 100000"

definition uw_new ::
    "('st, 'pos, 'bv) universal_library \<Rightarrow> ('n, 'u) dictionary \<Rightarrow> uchar list \<Rightarrow> 8 word \<Rightarrow> ('n, 'u, 'st, 'pos, 'bv) universal_wfst" where
  "uw_new U D query d = \<lparr>uw_source = us_new U D query d, uw_cache = cache_new uw_default_max_cache_size\<rparr>"

definition uw_set_max_cache_size :: "usize \<Rightarrow> ('n, 'u, 'st, 'pos, 'bv) universal_wfst \<Rightarrow> ('n, 'u, 'st, 'pos, 'bv) universal_wfst" where
  "uw_set_max_cache_size n w = w\<lparr>uw_cache := set_max_lru_states n (uw_cache w)\<rparr>"

definition uw_ensure_state :: "state_id \<Rightarrow> ('n, 'u, 'st, 'pos, 'bv) universal_wfst \<Rightarrow> (expansion_error + expansion_status) \<times> ('n, 'u, 'st, 'pos, 'bv) universal_wfst" where
  "uw_ensure_state state w =
     (case ensure_cached_char_state us_expand_state us_is_valid_product_state state (uw_cache w, uw_source w) of
        (r, c, s) \<Rightarrow> (r, \<lparr>uw_source = s, uw_cache = c\<rparr>))"

definition uw_is_final :: "('n, 'u, 'st, 'pos, 'bv) universal_wfst \<Rightarrow> state_id \<Rightarrow> bool" where
  "uw_is_final w state =
     (case cache_get (uw_cache w) state of
        Some x \<Rightarrow> cs_final x | None \<Rightarrow> us_final_weight_for_state (uw_source w) state \<noteq> None)"

definition uw_final_weight :: "('n, 'u, 'st, 'pos, 'bv) universal_wfst \<Rightarrow> state_id \<Rightarrow> weight" where
  "uw_final_weight w state =
     (case cache_get (uw_cache w) state of
        Some x \<Rightarrow> cs_weight x
      | None \<Rightarrow> (case us_final_weight_for_state (uw_source w) state of Some x \<Rightarrow> x | None \<Rightarrow> tropical_zero))"

definition uw_transitions :: "('n, 'u, 'st, 'pos, 'bv) universal_wfst \<Rightarrow> state_id \<Rightarrow> transition list" where
  "uw_transitions w state = (case cache_get (uw_cache w) state of Some x \<Rightarrow> cs_transitions x | None \<Rightarrow> [])"

definition uw_transitions_lazy :: "state_id \<Rightarrow> ('n, 'u, 'st, 'pos, 'bv) universal_wfst \<Rightarrow> transition list \<times> ('n, 'u, 'st, 'pos, 'bv) universal_wfst" where
  "uw_transitions_lazy state w = (case uw_ensure_state state w of (_, w') \<Rightarrow> (uw_transitions w' state, w'))"

definition uw_total_transitions :: "('n, 'u, 'st, 'pos, 'bv) universal_wfst \<Rightarrow> usize" where
  "uw_total_transitions w = total_cached_transitions (uw_cache w)"

definition uw_num_states :: "('n, 'u, 'st, 'pos, 'bv) universal_wfst \<Rightarrow> usize" where
  "uw_num_states w =
     max (case us_num_states_hint (uw_source w) of Some h \<Rightarrow> h | None \<Rightarrow> 0) (us_registered_state_id_span (uw_source w))"

definition uw_is_valid_state :: "('n, 'u, 'st, 'pos, 'bv) universal_wfst \<Rightarrow> state_id \<Rightarrow> bool" where
  "uw_is_valid_state w state = us_is_valid_product_state (uw_source w) state"

definition uw_is_expanded :: "('n, 'u, 'st, 'pos, 'bv) universal_wfst \<Rightarrow> state_id \<Rightarrow> bool" where
  "uw_is_expanded w state = cache_is_expanded (uw_cache w) state"

definition uw_set_cache_policy :: "cache_policy \<Rightarrow> ('n, 'u, 'st, 'pos, 'bv) universal_wfst \<Rightarrow> ('n, 'u, 'st, 'pos, 'bv) universal_wfst" where
  "uw_set_cache_policy p w = w\<lparr>uw_cache := cache_set_policy p (uw_cache w)\<rparr>"

definition uw_computed_states :: "('n, 'u, 'st, 'pos, 'bv) universal_wfst \<Rightarrow> usize" where
  "uw_computed_states w = cache_len (uw_cache w)"

definition uw_clear_cache :: "('n, 'u, 'st, 'pos, 'bv) universal_wfst \<Rightarrow> ('n, 'u, 'st, 'pos, 'bv) universal_wfst" where
  "uw_clear_cache w = w\<lparr>uw_cache := cache_clear (uw_cache w)\<rparr>"

text \<open>\<open>BoundUniversalWfst\<close> keeps a dictionary and a distance for many queries.\<close>

record ('n, 'u) bound_universal_wfst =
  bu_dictionary :: "('n, 'u) dictionary"
  bu_max_distance :: "8 word"

definition bu_new :: "('n, 'u) dictionary \<Rightarrow> 8 word \<Rightarrow> ('n, 'u) bound_universal_wfst" where
  "bu_new D d = \<lparr>bu_dictionary = D, bu_max_distance = d\<rparr>"

definition bu_with_query ::
    "('st, 'pos, 'bv) universal_library \<Rightarrow> uchar list \<Rightarrow> ('n, 'u) bound_universal_wfst \<Rightarrow> ('n, 'u, 'st, 'pos, 'bv) universal_wfst" where
  "bu_with_query U query b = uw_new U (bu_dictionary b) query (bu_max_distance b)"

end
