(* ===== verification/Universal_Machine.thy ===== *)
theory Universal_Machine
  imports Universal_Source
begin

text \<open>
  What the universal Levenshtein WFST relates: the query to the dictionary terms that the automaton accepts
  against it, at the distance it reports. The windows line up with the query at every depth, the registries
  only grow, and caching changes no answer.
\<close>

section \<open>Windows\<close>

text \<open>The window at a depth, looked up or past the end of the table, is the window computed afresh.\<close>

definition window_at :: "uchar list \<Rightarrow> usize \<Rightarrow> usize \<Rightarrow> usize \<times> uchar list" where
  "window_at query d depth =
     (let w = relevant_window_at query d (depth + 1) in (false_prefix w, window_units w))"

lemma relevant_subword_window:
  assumes "us_windows s = precompute_relevant_subwords query d" and "length query + d < usize_max"
  shows "relevant_subword_for_depth s depth = window_at query d depth"
proof (cases "depth < length query + d")
  case True
  then show ?thesis using assms
    by (simp add: relevant_subword_for_depth_def precompute_relevant_subwords_def nth_opt_def window_at_def usize_sat_add_def Let_def)
next
  case False
  then have "\<not> Suc depth - d \<le> length query" by linarith
  then show ?thesis using assms False
    by (simp add: relevant_subword_for_depth_def precompute_relevant_subwords_def nth_opt_def window_at_def
        relevant_window_at_def Let_def usize_sat_add_def usize_sat_sub_def)
qed

text \<open>
  C16: universal: the window that a dictionary depth reads lines up with the query: padded in front, its entry
  \<open>k\<close> is the query character at (1-based) position \<open>depth + 1 - d + k\<close>, for every position from \<open>d\<close> before the
  depth's own to \<open>d + 1\<close> after it that the query has; positions before the query are padding, and there is
  nothing else, so that it has at most \<open>2 * d + 2\<close> characters. Beyond the precomputed table the empty window is
  the right one. (\<open>docs/theory/05-universal-automata.md\<close> counts \<open>2 * d + 1\<close> characters.)
\<close>

theorem universal_window_exact:
  assumes "us_windows s = precompute_relevant_subwords query d" and "length query + d < usize_max"
    and "depth + 1 + d + 1 \<le> usize_max" and "relevant_subword_for_depth s depth = (prefix, subword)"
  shows "prefix = d + 1 - (depth + 1) \<and>
    length subword = min (depth + d + 2) (length query) - min (depth - d) (length query) \<and> length subword \<le> 2 * d + 2 \<and>
    (\<forall>k < length subword. subword ! k = query ! (depth + prefix + k - d))"
proof -
  have w: "prefix = d + 1 - (depth + 1)"
    "subword = (let a = max (depth + 1 - d) 1; b = min (depth + 1 + d + 1) (length query) in if a \<le> b then drop (a - 1) (take b query) else [])"
    using assms(4) unfolding relevant_subword_window [OF assms(1,2)]
    using assms(2,3) by (auto simp: window_at_def relevant_window_at_def Let_def usize_sat_add_def usize_sat_sub_def min_def)
  show ?thesis
  proof (cases "depth < d")
    case True
    then show ?thesis using w by (auto simp: Let_def nth_drop Suc_le_eq)
  next
    case False
    then show ?thesis using w by (auto simp: Let_def nth_drop min_def)
  qed
qed

text \<open>A library whose states count the characters matched so far: exact matching.\<close>

definition exact_universal :: "(usize, usize, uchar \<times> uchar list) universal_library" where
  "exact_universal =
     \<lparr>universal_initial = (\<lambda>d. 0), universal_transition = (\<lambda>st (c, ws) n. if ws \<noteq> [] \<and> hd ws = c then Some (st + 1) else None),
      length_diff = (\<lambda>st. 0), positions = (\<lambda>st. [st]),
      accepting_distance = (\<lambda>st a b. if st = a \<and> st = b then Some 0 else None), from_padded_units = (\<lambda>c prefix ws. (c, ws))\<rparr>"

text \<open>The window of \<open>hello\<close> at distance 1 for the second character of a term is \<open>hell\<close>.\<close>

theorem universal_window_exact_witness:
  "relevant_subword_for_depth (us_new exact_universal ab_dictionary [104, 101, 108, 108, 111] 1) 1 = (0, [104, 101, 108, 108])"
proof -
  let ?hello = "[104, 101, 108, 108, 111] :: uchar list"
  let ?s = "us_new exact_universal ab_dictionary ?hello 1"
  obtain prefix subword where r: "relevant_subword_for_depth ?s 1 = (prefix, subword)" by force
  have w: "us_windows ?s = precompute_relevant_subwords ?hello 1" by (simp add: us_new_def)
  have len: "length ?hello + 1 < usize_max" "1 + 1 + 1 + 1 \<le> usize_max" by (simp_all add: usize_max_def)
  have exact: "prefix = 0" "length subword = 4" "\<forall>k < length subword. subword ! k = ?hello ! k"
    using universal_window_exact [OF w len r] by simp_all
  have "subword = take 4 ?hello"
  proof (rule nth_equalityI)
    show "length subword = length (take 4 ?hello)" using exact(2) by simp
    show "subword ! k = take 4 ?hello ! k" if "k < length subword" for k
      using exact that by (simp add: nth_take del: take_Suc_Cons take_Cons_numeral)
  qed
  then show ?thesis using r exact(1) by simp
qed

section \<open>The registries of a product\<close>

interpretation dict_universal: paired_interners dreg_find dreg_entry dreg_len "\<lambda>k (n, d). dreg_register_node n k d" "\<lambda>k v. v" dreg_wf
  ur_find get_registered_state ur_len register_state_with_key "\<lambda>k v. v" ur_wf
  by unfold_locales

abbreviation register_universal_pairs ::
    "u32 \<Rightarrow> ('a \<times> node_key \<times> ('n \<times> usize) \<times> 'pos universal_key \<times> 'st registered_universal_state) list
     \<Rightarrow> 'n depth_registry \<times> ('st, 'pos) universal_registry
     \<Rightarrow> ('a \<times> state_id) list \<times> 'n depth_registry \<times> ('st, 'pos) universal_registry" where
  "register_universal_pairs \<equiv> pair_seq (\<lambda>k (n, d). dreg_register_node n k d) register_state_with_key"

type_synonym ('n, 'st, 'pos) universal_pair =
  "(uchar option \<times> uchar option) \<times> node_key \<times> ('n \<times> usize) \<times> 'pos universal_key \<times> 'st registered_universal_state"

definition universal_edge_pairs ::
    "uchar option \<Rightarrow> usize \<Rightarrow> ('n, 'st, 'pos) pending_universal_edge list \<Rightarrow> ('n, 'st, 'pos) universal_pair list" where
  "universal_edge_pairs label depth =
     map (\<lambda>(c, child, child_key, st, pos, key). ((label, Some c), child_key, (child, depth + 1), key, (st, pos)))"

abbreviation labelled_arc :: "state_id \<Rightarrow> (uchar option \<times> uchar option) \<times> state_id \<Rightarrow> transition" where
  "labelled_arc q \<equiv> (\<lambda>((i, out), target). mk_transition q i out target tropical_one)"

lemma dreg_candidate: "dreg_wf r \<Longrightarrow> dreg_candidate_id r k = fst (dreg_register_node n k d r)"
  by (auto simp: dreg_wf_def dreg_candidate_id_def reg_candidate_register [where node = n] dreg_register_node_def reg_register_node_def
      split: option.split)

lemma us_commit_eq:
  "dict_universal.pair_wf regs \<Longrightarrow> us_commit_edges m q label depth es regs =
     (let r = register_universal_pairs m (universal_edge_pairs label depth es) regs
      in (map (labelled_arc q) (fst r), snd r))"
proof (induction es arbitrary: regs)
  case (Cons e es)
  obtain c child ck st pos k where e: "e = (c, child, ck, st, pos, k)" by (cases e) auto
  obtain nr sr where regs: "regs = (nr, sr)" by force
  have wf: "dreg_wf nr" "ur_wf sr" using Cons.prems by (simp_all add: regs dict_universal.pair_wf_def)
  obtain a nr' where a: "dreg_register_node child ck (depth + 1) nr = (a, nr')" by force
  obtain b sr' where b: "register_state_with_key k (st, pos) sr = (b, sr')" by force
  have cand: "dreg_candidate_id nr ck = a" "ur_candidate_state_id_for_key sr k = b"
    using dreg_candidate [OF wf(1), of ck child "depth + 1"] ur_candidate [OF wf(2), of k "(st, pos)"] a b by simp_all
  have wf': "dict_universal.pair_wf (nr', sr')"
    using depth_reg.wf_intern [OF wf(1), of ck "(child, depth + 1)"] ureg.wf_intern [OF wf(2), of k "(st, pos)"] a b
    by (simp add: dict_universal.pair_wf_def)
  have same: "universal_edge_pairs label depth (e # es) =
      ((label, Some c), ck, (child, depth + 1), k, (st, pos)) # universal_edge_pairs label depth es"
    by (simp add: universal_edge_pairs_def e)
  show ?case
  proof (cases "\<exists>i j t. a = Some i \<and> b = Some j \<and> try_encode i j m = Some t")
    case True
    then obtain i j t where t: "a = Some i" "b = Some j" "try_encode i j m = Some t" by blast
    then show ?thesis
      using Cons.IH [OF wf'] a b cand unfolding same
      by (simp add: e regs pair_intern_def Let_def case_prod_unfold)
  next
    case False
    then have "us_commit_edges m q label depth (e # es) regs = us_commit_edges m q label depth es (nr, sr)"
      using cand by (auto simp: e regs split: option.split)
    moreover have "pair_intern (\<lambda>k (n, d). dreg_register_node n k d) register_state_with_key m
        (ck, (child, depth + 1), k, (st, pos)) (nr, sr) = (None, nr, sr)"
      using False a b by (auto simp: pair_intern_def split: option.split)
    ultimately show ?thesis
      using Cons.IH [of "(nr, sr)"] Cons.prems unfolding same by (simp add: regs Let_def case_prod_unfold)
  qed
qed (simp add: universal_edge_pairs_def)

text \<open>The query arc registers a pair too: the node it stays at, under the node's own key, and the state.\<close>

definition key_of :: "'n depth_registry \<Rightarrow> u32 \<Rightarrow> node_key" where
  "key_of r i = (SOME k. dreg_find r k = Some i)"

lemma key_of_find:
  assumes "dreg_wf r" and "dreg_entry r i = Some x"
  shows "dreg_find r (key_of r i) = Some i"
proof -
  have "unat i < dreg_len r" using depth_reg.entry_iff [OF assms(1), of i] assms(2) by (simp add: not_le [symmetric])
  then obtain k where "dreg_find r k = Some i" using depth_reg.find_surj [OF assms(1)] by blast
  then show ?thesis unfolding key_of_def by (rule someI)
qed

lemma key_of_unique:
  assumes "dreg_wf r" and "dreg_find r k = Some i"
  shows "key_of r i = k"
proof -
  have "dreg_find r (key_of r i) = Some i" unfolding key_of_def using assms(2) by (rule someI)
  then show ?thesis using depth_reg.find_inj [OF assms(1) _ assms(2)] by blast
qed

definition query_pair ::
    "('st, 'pos, 'bv) universal_library \<Rightarrow> uchar list \<Rightarrow> node_key \<Rightarrow> 'n \<times> usize \<Rightarrow> 'st \<Rightarrow> usize \<Rightarrow> ('n, 'st, 'pos) universal_pair list" where
  "query_pair U query k n st pos =
     (if pos < length query then [((Some (query ! pos), None), k, n, universal_state_key U st (pos + 1), (st, pos + 1))] else [])"

lemma us_query_arc_eq:
  assumes "dict_universal.pair_wf (nr, sr)" and "dreg_find nr k = Some i"
  shows "(let (ts, sr') = us_query_arc U query m q i st pos sr in (ts, nr, sr')) =
    (let r = register_universal_pairs m (query_pair U query k n st pos) (nr, sr) in (map (labelled_arc q) (fst r), snd r))"
proof (cases "pos < length query")
  case True
  have wf: "dreg_wf nr" "ur_wf sr" using assms(1) by (simp_all add: dict_universal.pair_wf_def)
  let ?k = "universal_state_key U st (pos + 1)"
  obtain b sr' where b: "register_state_with_key ?k (st, pos + 1) sr = (b, sr')" by force
  have cand: "ur_candidate_state_id_for_key sr ?k = b" using ur_candidate [OF wf(2), of ?k "(st, pos + 1)"] b by simp
  have node: "(case n of (n, d) \<Rightarrow> dreg_register_node n k d) nr = (Some i, nr)" using depth_reg.intern_known [OF wf(1) assms(2), of n] .
  show ?thesis
    using True cand b node
    by (auto simp: us_query_arc_def query_pair_def pair_intern_def candidate_state_id_at_def register_shared_state_at_eq Let_def split: option.split)
qed (simp add: us_query_arc_def query_pair_def)

section \<open>One expansion\<close>

definition us_regs :: "('n, 'u, 'st, 'pos, 'bv) universal_source \<Rightarrow> 'n depth_registry \<times> ('st, 'pos) universal_registry" where
  "us_regs s = (us_nodes s, us_states s)"

definition us_wf :: "('n, 'u, 'st, 'pos, 'bv) universal_source \<Rightarrow> bool" where
  "us_wf s \<longleftrightarrow> dict_universal.pair_wf (us_regs s)"

definition us_at ::
    "('n, 'u, 'st, 'pos, 'bv) universal_source \<Rightarrow> state_id \<Rightarrow> u32 \<Rightarrow> u32 \<Rightarrow> 'n \<Rightarrow> usize \<Rightarrow> 'st \<Rightarrow> usize \<Rightarrow> bool" where
  "us_at s q i j node depth st pos \<longleftrightarrow> decode q (us_max_states s) = Some (i, j) \<and>
     dreg_entry (us_nodes s) i = Some (node, depth) \<and> get_registered_state (us_states s) j = Some (st, pos)"

definition us_edge_pairs ::
    "('n, 'u, 'st, 'pos, 'bv) universal_source \<Rightarrow> u32 \<Rightarrow> 'n \<Rightarrow> usize \<Rightarrow> 'st \<Rightarrow> usize \<Rightarrow> ('n, 'st, 'pos) universal_pair list" where
  "us_edge_pairs s i node depth st pos =
     (if pos \<le> length (us_query s)
      then universal_edge_pairs (nth_opt (us_query s) pos) depth
             (us_pending_edges s i node depth st (pos + (if nth_opt (us_query s) pos \<noteq> None then 1 else 0)))
      else [])"

definition us_pairs ::
    "('n, 'u, 'st, 'pos, 'bv) universal_source \<Rightarrow> u32 \<Rightarrow> 'n \<Rightarrow> usize \<Rightarrow> 'st \<Rightarrow> usize \<Rightarrow> ('n, 'st, 'pos) universal_pair list" where
  "us_pairs s i node depth st pos = us_edge_pairs s i node depth st pos @
     query_pair (us_library s) (us_query s) (key_of (us_nodes s) i) (node, depth) st pos"

lemma pair_seq_append:
  "pair_seq f g m (xs @ ys) s =
     (fst (pair_seq f g m xs s) @ fst (pair_seq f g m ys (snd (pair_seq f g m xs s))), snd (pair_seq f g m ys (snd (pair_seq f g m xs s))))"
proof (induction xs arbitrary: s)
  case (Cons x xs)
  obtain a p where "x = (a, p)" by (rule prod.exhaust)
  then show ?case using Cons.IH by (simp add: case_prod_unfold)
qed simp

lemma us_expand_eq:
  assumes "us_wf s" and "us_at s q i j node depth st pos"
  shows "us_expand_state s q =
    (let r = register_universal_pairs (us_max_states s) (us_pairs s i node depth st pos) (us_regs s);
         accepted = registered_final_weight s node st pos (length (us_query s)) depth
     in (Expanded (accepted \<noteq> None) (case accepted of Some w \<Rightarrow> w | None \<Rightarrow> tropical_zero) (map (labelled_arc q) (fst r)),
         s\<lparr>us_nodes := fst (snd r), us_states := snd (snd r)\<rparr>))"
proof -
  let ?m = "us_max_states s" and ?edges = "us_edge_pairs s i node depth st pos"
  have d: "decode q ?m = Some (i, j)" "dreg_entry (us_nodes s) i = Some (node, depth)"
    "get_registered_state (us_states s) j = Some (st, pos)" using assms(2) by (simp_all add: us_at_def)
  have n: "dreg_get_node (us_nodes s) i = Some node" "dreg_get_depth (us_nodes s) i = Some depth"
    using d(2) by (auto simp: dreg_entry_def split: option.splits)
  have "?m \<noteq> 0" using d(1) by (auto simp: decode_def)
  then have from_state: "try_encode i j ?m = Some q" using d(1) by (rule decode_encode)
  have wf: "dict_universal.pair_wf (us_regs s)" and nwf: "dreg_wf (us_nodes s)"
    using assms(1) by (simp_all add: us_wf_def dict_universal.pair_wf_def us_regs_def)
  let ?r = "register_universal_pairs ?m ?edges (us_regs s)"
  have edges: "(if pos \<le> length (us_query s)
      then us_commit_edges ?m q (nth_opt (us_query s) pos) depth
             (us_pending_edges s i node depth st (pos + (if nth_opt (us_query s) pos \<noteq> None then 1 else 0))) (us_nodes s, us_states s)
      else ([], us_nodes s, us_states s)) = (map (labelled_arc q) (fst ?r), snd ?r)"
    using us_commit_eq [OF wf] by (simp add: us_edge_pairs_def us_regs_def Let_def)
  have keep: "dict_universal.pair_wf (snd ?r)" "dict_universal.pair_ext (us_regs s) (snd ?r)"
    using dict_universal.pseq_keeps [OF wf] by blast+
  obtain nr sr where r: "snd ?r = (nr, sr)" by force
  have key: "dreg_find nr (key_of (us_nodes s) i) = Some i"
    using keep(2) key_of_find [OF nwf d(2)] r by (simp add: dict_universal.pair_ext_def us_regs_def)
  obtain ts sr' where arc: "us_query_arc (us_library s) (us_query s) ?m q i st pos sr = (ts, sr')" by force
  have query: "(ts, nr, sr') = (let r = register_universal_pairs ?m
      (query_pair (us_library s) (us_query s) (key_of (us_nodes s) i) (node, depth) st pos) (nr, sr) in (map (labelled_arc q) (fst r), snd r))"
    using us_query_arc_eq [of nr sr "key_of (us_nodes s) i" i "us_library s" "us_query s" ?m q st pos "(node, depth)"] keep(1) key r arc by simp
  have all: "register_universal_pairs ?m (us_pairs s i node depth st pos) (us_regs s) =
      (fst ?r @ fst (register_universal_pairs ?m (query_pair (us_library s) (us_query s) (key_of (us_nodes s) i) (node, depth) st pos) (nr, sr)),
       (nr, sr'))"
    unfolding us_pairs_def pair_seq_append r using query by (simp add: Let_def)
  have ts: "ts = map (labelled_arc q) (fst (register_universal_pairs ?m
      (query_pair (us_library s) (us_query s) (key_of (us_nodes s) i) (node, depth) st pos) (nr, sr)))"
    using query by (simp add: Let_def)
  show ?thesis
    unfolding us_expand_state_def us_compute_transitions_def all
    using edges d n from_state arc r ts
    by (auto simp: Let_def final_state_def non_final_def split: option.split)
qed

lemma us_valid_iff:
  assumes "us_wf s"
  shows "us_is_valid_product_state s q \<longleftrightarrow> (\<exists>i j node depth st pos. us_at s q i j node depth st pos)"
proof -
  have wf: "dreg_wf (us_nodes s)" using assms by (simp add: us_wf_def dict_universal.pair_wf_def us_regs_def)
  have "dreg_get_node (us_nodes s) i \<noteq> None \<longleftrightarrow> (\<exists>x. dreg_entry (us_nodes s) i = Some x)" for i
    using wf by (auto simp: dreg_entry_eq [OF wf] dreg_get_node_def reg_get_node_def dreg_len_def reg_len_def nth_opt_def)
  moreover have "ur_get_state (us_states s) j \<noteq> None \<longleftrightarrow> (\<exists>x. get_registered_state (us_states s) j = Some x)" for j
    by (cases "nth_opt (ur_id_to_state (us_states s)) (unat j)") (simp_all add: ur_get_state_def get_registered_state_def del: nth_opt_eq_None)
  ultimately show ?thesis
    by (auto simp: us_is_valid_product_state_def us_at_def split: option.split)
qed

lemma us_expand_invalid:
  assumes "us_wf s" and "\<not> us_is_valid_product_state s q"
  shows "snd (us_expand_state s q) = s"
  using assms(2) by (auto simp: us_is_valid_product_state_def us_expand_state_def us_compute_transitions_def ur_get_state_def
      get_registered_state_def simp del: nth_opt_eq_None split: option.splits)

definition us_ext :: "('n, 'u, 'st, 'pos, 'bv) universal_source \<Rightarrow> ('n, 'u, 'st, 'pos, 'bv) universal_source \<Rightarrow> bool" where
  "us_ext s s' \<longleftrightarrow> s' = s\<lparr>us_nodes := us_nodes s', us_states := us_states s'\<rparr> \<and> us_wf s \<and> us_wf s' \<and>
     dict_universal.pair_ext (us_regs s) (us_regs s')"

lemma us_ext_fields:
  assumes "us_ext s s'"
  shows "us_dictionary s' = us_dictionary s" "us_library s' = us_library s" "us_query s' = us_query s"
    "us_windows s' = us_windows s" "us_max_states s' = us_max_states s"
    "registered_final_weight s' = registered_final_weight s" "us_edge_pairs s' = us_edge_pairs s"
proof -
  have s': "s' = s\<lparr>us_nodes := us_nodes s', us_states := us_states s'\<rparr>" using assms by (simp add: us_ext_def)
  show *: "us_dictionary s' = us_dictionary s" "us_library s' = us_library s" "us_query s' = us_query s"
    "us_windows s' = us_windows s" "us_max_states s' = us_max_states s" by (subst s', simp)+
  have "us_pending_edges s' i n d st p = us_pending_edges s i n d st p" for i n d st p
    unfolding us_pending_edges_def relevant_subword_for_depth_def * ..
  then show "registered_final_weight s' = registered_final_weight s" "us_edge_pairs s' = us_edge_pairs s"
    using * by (simp_all add: fun_eq_iff registered_final_weight_def us_edge_pairs_def)
qed

lemma us_at_ext: "us_ext s s' \<Longrightarrow> us_at s q i j node depth st pos \<Longrightarrow> us_at s' q i j node depth st pos"
  by (auto simp: us_at_def us_ext_fields(5)) (auto simp: us_ext_def dict_universal.pair_ext_def us_regs_def)

lemma us_pairs_ext:
  assumes "us_ext s s'" and "us_at s q i j node depth st pos"
  shows "us_pairs s' i node depth st pos = us_pairs s i node depth st pos"
proof -
  have wf: "dreg_wf (us_nodes s)" "dreg_wf (us_nodes s')"
    and keep: "dreg_find (us_nodes s) k = Some i \<Longrightarrow> dreg_find (us_nodes s') k = Some i" for k i
    using assms(1) by (simp_all add: us_ext_def us_wf_def dict_universal.pair_wf_def dict_universal.pair_ext_def us_regs_def)
  have "dreg_find (us_nodes s) (key_of (us_nodes s) i) = Some i" using key_of_find [OF wf(1)] assms(2) by (simp add: us_at_def)
  then have "key_of (us_nodes s') i = key_of (us_nodes s) i" using key_of_unique [OF wf(2) keep] by blast
  then show ?thesis using us_ext_fields [OF assms(1)] by (simp add: us_pairs_def)
qed

lemma us_expand_keeps: "us_wf s \<Longrightarrow> us_wf (snd (us_expand_state s q)) \<and> us_ext s (snd (us_expand_state s q))"
proof (cases "us_is_valid_product_state s q")
  case True
  assume wf: "us_wf s"
  obtain i j node depth st pos where d: "us_at s q i j node depth st pos" using True unfolding us_valid_iff [OF wf] by blast
  show ?thesis
    using dict_universal.pseq_keeps [of "us_regs s" "us_max_states s" "us_pairs s i node depth st pos"] wf
    by (simp add: us_expand_eq [OF wf d] Let_def us_wf_def us_ext_def us_regs_def)
next
  case False
  assume wf: "us_wf s"
  then show ?thesis using us_expand_invalid [OF wf False] by (simp add: us_ext_def dict_universal.pair_ext_refl)
qed

lemma us_ext_trans:
  assumes "us_ext s1 s2" and "us_ext s2 s3"
  shows "us_ext s1 s3"
proof -
  have s2: "s2 = s1\<lparr>us_nodes := us_nodes s2, us_states := us_states s2\<rparr>" using assms(1) by (simp add: us_ext_def)
  have "s3 = s2\<lparr>us_nodes := us_nodes s3, us_states := us_states s3\<rparr>" using assms(2) by (simp add: us_ext_def)
  then have "s3 = s1\<lparr>us_nodes := us_nodes s3, us_states := us_states s3\<rparr>" by (subst (asm) s2) simp
  moreover have "dict_universal.pair_ext (us_regs s1) (us_regs s3)"
    using assms dict_universal.pair_ext_trans unfolding us_ext_def by blast
  ultimately show ?thesis using assms unfolding us_ext_def by blast
qed

lemma us_expand_again:
  assumes "us_wf s" and "us_at s q i j node depth st pos" and "us_expand_state s q = (ex, s1)" and "us_ext s1 s2"
  shows "us_expand_state s2 q = (ex, s2)"
proof -
  let ?r = "register_universal_pairs (us_max_states s) (us_pairs s i node depth st pos) (us_regs s)"
  have ext: "us_ext s s1" using us_expand_keeps [OF assms(1), of q] assms(3) by simp
  note ext2 = us_ext_trans [OF ext assms(4)]
  have wf2: "us_wf s2" using assms(4) by (simp add: us_ext_def)
  note fields = us_ext_fields [OF ext2] and at2 = us_at_ext [OF ext2 assms(2)]
  have "us_regs s1 = snd ?r" using assms(3) by (auto simp: us_expand_eq [OF assms(1,2)] Let_def us_regs_def)
  then have "dict_universal.pair_ext (snd ?r) (us_regs s2)" using assms(4) by (simp add: us_ext_def)
  then have "register_universal_pairs (us_max_states s) (us_pairs s i node depth st pos) (us_regs s2) = (fst ?r, us_regs s2)"
    using dict_universal.pseq_again assms(1) wf2 unfolding us_wf_def by blast
  then show ?thesis
    using assms(3) by (simp add: us_expand_eq [OF assms(1,2)] us_expand_eq [OF wf2 at2] us_pairs_ext [OF ext2 assms(2)] fields Let_def)
      (simp add: us_regs_def)
qed

text \<open>The query arc needs a well-formed registry to stay put, so extension is between well-formed sources.\<close>

definition us_grows :: "('n, 'u, 'st, 'pos, 'bv) universal_source \<Rightarrow> ('n, 'u, 'st, 'pos, 'bv) universal_source \<Rightarrow> bool" where
  "us_grows s s' \<longleftrightarrow> s' = s \<or> us_ext s s'"

interpretation us: lazy_source us_expand_state
  us_is_valid_product_state us_final_weight_for_state us_wf us_grows
proof unfold_locales
  fix s s1 s2 s3 s' :: "('n, 'u, 'st, 'pos, 'bv) universal_source" and q :: state_id and f w ts
  show "us_grows s s" by (simp add: us_grows_def)
  show "us_grows s1 s2 \<Longrightarrow> us_grows s2 s3 \<Longrightarrow> us_grows s1 s3" using us_ext_trans [of s1 s2 s3] by (auto simp: us_grows_def)
  show "us_wf s \<Longrightarrow> us_wf (snd (us_expand_state s q))" "us_wf s \<Longrightarrow> us_grows s (snd (us_expand_state s q))"
    using us_expand_keeps [of s q] by (simp_all add: us_grows_def)
  show "us_is_valid_product_state s' q" if v: "us_is_valid_product_state s q" and g: "us_grows s s'"
  proof (cases "s' = s")
    case False
    then have ext: "us_ext s s'" using g by (simp add: us_grows_def)
    then have wf: "us_wf s" "us_wf s'" by (simp_all add: us_ext_def)
    show ?thesis using v us_at_ext [OF ext] unfolding us_valid_iff [OF wf(1)] us_valid_iff [OF wf(2)] by blast
  qed (use v in simp)
  show "us_expand_state s2 q = (Expanded f w ts, s2)"
    if wf: "us_wf s" and v: "us_is_valid_product_state s q" and e: "us_expand_state s q = (Expanded f w ts, s1)"
      and wf2: "us_wf s2" and g: "us_grows s1 s2"
  proof -
    obtain i j node depth st pos where d: "us_at s q i j node depth st pos" using v unfolding us_valid_iff [OF wf] by blast
    have wf1: "us_wf s1" using us_expand_keeps [OF wf, of q] e by simp
    have "us_ext s1 s2" using g wf1 by (auto simp: us_grows_def us_ext_def dict_universal.pair_ext_refl)
    then show ?thesis by (rule us_expand_again [OF wf d e])
  qed
  show "f = (us_final_weight_for_state s q \<noteq> None) \<and>
      w = (case us_final_weight_for_state s q of Some w \<Rightarrow> w | None \<Rightarrow> tropical_zero)"
    if wf: "us_wf s" and v: "us_is_valid_product_state s q" and e: "fst (us_expand_state s q) = Expanded f w ts"
  proof -
    obtain i j node depth st pos where d: "us_at s q i j node depth st pos" using v unfolding us_valid_iff [OF wf] by blast
    then have "us_final_weight_for_state s q = registered_final_weight s node st pos (length (us_query s)) depth"
      by (auto simp: us_final_weight_for_state_def us_at_def dreg_entry_def split: option.splits)
    then show ?thesis using e by (auto simp: us_expand_eq [OF wf d] Let_def)
  qed
qed

section \<open>The abstract machine\<close>

text \<open>
  The registry recognises a state of the automaton by its length difference and its positions. What the
  library promises is that these determine how a state moves and what it accepts.
\<close>

definition universal_view :: "('st, 'pos, 'bv) universal_library \<Rightarrow> 'st \<Rightarrow> 8 word \<times> 'pos list" where
  "universal_view U st = (length_diff U st, positions U st)"

definition library_respects :: "('st, 'pos, 'bv) universal_library \<Rightarrow> bool" where
  "library_respects U \<longleftrightarrow> (\<forall>st st'. universal_view U st = universal_view U st' \<longrightarrow>
     (\<forall>bv n. map_option (universal_view U) (universal_transition U st bv n) =
        map_option (universal_view U) (universal_transition U st' bv n)) \<and>
     (\<forall>a b. accepting_distance U st a b = accepting_distance U st' a b))"

definition universal_move :: "('st, 'pos, 'bv) universal_library \<Rightarrow> uchar list \<Rightarrow> usize \<Rightarrow> 'st \<Rightarrow> usize \<Rightarrow> uchar \<Rightarrow> 'st option" where
  "universal_move U query d st depth c =
     (case window_at query d depth of
        (prefix, subword) \<Rightarrow> universal_transition U st (from_padded_units U c prefix subword) (usize_sat_add depth 1))"

text \<open>A configuration: dictionary node, depth, automaton state, position on the query tape.\<close>

type_synonym ('n, 'st) us_config = "'n \<times> usize \<times> 'st \<times> usize"

definition us_step ::
    "('st, 'pos, 'bv) universal_library \<Rightarrow> ('n, 'u) dictionary \<Rightarrow> uchar list \<Rightarrow> usize \<Rightarrow> ('n, 'st) us_config
     \<Rightarrow> uchar option \<Rightarrow> uchar option \<Rightarrow> rat \<Rightarrow> ('n, 'st) us_config \<Rightarrow> bool" where
  "us_step U D query d = (\<lambda>(n, depth, st, pos) i out k (n', depth', st', pos'). k = 0 \<and>
     ((\<exists>c. pos \<le> length query \<and> i = nth_opt query pos \<and> out = Some c \<and> child_by D n c = Some n' \<and> depth' = depth + 1 \<and>
         universal_move U query d st depth c = Some st' \<and> pos' = pos + (if pos < length query then 1 else 0)) \<or>
      (pos < length query \<and> i = Some (query ! pos) \<and> out = None \<and> n' = n \<and> depth' = depth \<and> st' = st \<and> pos' = pos + 1)))"

definition us_final ::
    "('st, 'pos, 'bv) universal_library \<Rightarrow> ('n, 'u) dictionary \<Rightarrow> uchar list \<Rightarrow> ('n, 'st) us_config \<Rightarrow> rat option" where
  "us_final U D query = (\<lambda>(n, depth, st, pos).
     (if pos = length query \<and> node_is_final D n
      then (case accepting_distance U st (length query) depth of
              Some e \<Rightarrow> if e \<le> max_exact_f64_usize then Some (of_nat e) else None
            | None \<Rightarrow> None)
      else None))"

definition us_stands ::
    "('st, 'pos, 'bv) universal_library \<Rightarrow> ('n, 'u, 'st, 'pos, 'bv) universal_source \<Rightarrow> state_id \<Rightarrow> ('n, 'st) us_config \<Rightarrow> bool" where
  "us_stands U s q = (\<lambda>(n, depth, st, pos).
     (\<exists>i j st0. us_at s q i j n depth st0 pos \<and> universal_view U st0 = universal_view U st))"

definition child_with_depth :: "('n, 'u) dictionary \<Rightarrow> 'n \<times> usize \<Rightarrow> uchar \<Rightarrow> ('n \<times> usize) option" where
  "child_with_depth D = (\<lambda>(n, depth) c. map_option (\<lambda>m. (m, depth + 1)) (child_by D n c))"

definition registered_key :: "('st, 'pos, 'bv) universal_library \<Rightarrow> 'st registered_universal_state \<Rightarrow> 'pos universal_key" where
  "registered_key U = (\<lambda>(st, pos). universal_state_key U st pos)"

definition us_ok ::
    "('st, 'pos, 'bv) universal_library \<Rightarrow> ('n, 'u) dictionary \<Rightarrow> uchar list \<Rightarrow> usize \<Rightarrow> u32
     \<Rightarrow> ('n, 'u, 'st, 'pos, 'bv) universal_source \<Rightarrow> bool" where
  "us_ok U D query d m s \<longleftrightarrow> dictionary_ok D \<and> library_respects U \<and> us_wf s \<and> us_library s = U \<and> us_dictionary s = D \<and>
     us_query s = query \<and> us_windows s = precompute_relevant_subwords query d \<and> length query + d < usize_max \<and>
     us_max_states s = m \<and> depth_reg.tracks node_key_root node_key_child (child_with_depth D) (us_nodes s) \<and>
     ureg.keyed (registered_key U) (us_states s)"

lemma us_okD:
  assumes "us_ok U D query d m s"
  shows "dictionary_ok D" and "library_respects U" and "us_wf s" and "us_library s = U" and "us_dictionary s = D"
    and "us_query s = query" and "us_max_states s = m" and "dreg_wf (us_nodes s)" and "ur_wf (us_states s)"
    and "depth_reg.tracks node_key_root node_key_child (child_with_depth D) (us_nodes s)"
    and "ureg.keyed (registered_key U) (us_states s)" and "dict_universal.pair_wf (us_regs s)"
    and "relevant_subword_for_depth s depth = window_at query d depth"
  using assms relevant_subword_window [of s query d depth]
  by (simp_all add: us_ok_def us_wf_def dict_universal.pair_wf_def us_regs_def)

lemma child_key_root:
  assumes "dictionary_ok D" and "child_with_depth D x c = Some y"
  shows "node_key_child p c \<noteq> node_key_root"
proof -
  obtain n depth where x: "x = (n, depth)" by force
  then obtain m where "child_by D n c = Some m" using assms(2) by (auto simp: child_with_depth_def)
  then show ?thesis using node_key_child_not_root child_by_label [OF assms(1)] by blast
qed

lemma child_key_inject:
  assumes "dictionary_ok D" and "child_with_depth D x c = Some y" and "child_with_depth D x' c' = Some y'"
    and "node_key_child p c = node_key_child p' c'"
  shows "p = p' \<and> c = c'"
proof -
  have "c \<le> char_max" "c' \<le> char_max"
    using assms(2,3) child_by_label [OF assms(1)] by (auto simp: child_with_depth_def split: prod.splits)
  then show ?thesis using assms(4) node_key_child_inject by simp
qed

definition next_pos :: "uchar list \<Rightarrow> usize \<Rightarrow> usize" where
  "next_pos query pos = pos + (if pos < length query then 1 else 0)"

lemma us_pairs_iff:
  assumes "us_ok U D query d m s"
  shows "((inp, out), k1, v1, k2, v2) \<in> set (us_pairs s i n depth st pos) \<longleftrightarrow>
    k2 = registered_key U v2 \<and>
    ((\<exists>c. pos \<le> length query \<and> inp = nth_opt query pos \<and> out = Some c \<and> child_with_depth D (n, depth) c = Some v1 \<and>
        k1 = node_key_child i c \<and> universal_move U query d st depth c = Some (fst v2) \<and> snd v2 = next_pos query pos) \<or>
     (pos < length query \<and> inp = Some (query ! pos) \<and> out = None \<and> v1 = (n, depth) \<and> k1 = key_of (us_nodes s) i \<and>
        v2 = (st, pos + 1)))"
proof -
  note ok = us_okD [OF assms]
  have edge: "(\<exists>u. (u, child) \<in> set (node_edges D n) \<and> unit_char D u = c) \<longleftrightarrow> child_by D n c = Some child" for child c
    using child_by_edge [OF ok(1)] child_by_SomeD by metis
  have pos: "pos + (if nth_opt query pos \<noteq> None then 1 else 0) = next_pos query pos" by (simp add: next_pos_def not_le)
  let ?np = "next_pos query pos"
  obtain prefix subword where w: "window_at query d depth = (prefix, subword)" by force
  have pending: "e \<in> set (us_pending_edges s i n depth st ?np) \<longleftrightarrow>
      (\<exists>u child st'. (u, child) \<in> set (node_edges D n) \<and> universal_move U query d st depth (unit_char D u) = Some st' \<and>
        e = (unit_char D u, child, node_key_child i (unit_char D u), st', ?np, universal_state_key U st' ?np))" for e
  proof -
    let ?f = "\<lambda>(u, child). map_option (\<lambda>st'. (unit_char D u, child, node_key_child i (unit_char D u), st', ?np, universal_state_key U st' ?np))
      (universal_move U query d st depth (unit_char D u))"
    have "us_pending_edges s i n depth st ?np = List.map_filter ?f (node_edges D n)"
      unfolding us_pending_edges_def ok(4,5,13) w prod.case universal_move_def Let_def
      by (intro arg_cong [where f = "\<lambda>f. List.map_filter f _"] ext) (auto split: option.split)
    then have "e \<in> set (us_pending_edges s i n depth st ?np) \<longleftrightarrow> (\<exists>x \<in> set (node_edges D n). ?f x = Some e)"
      by (simp only: in_map_filter)
    also have "\<dots> \<longleftrightarrow> (\<exists>u child. (u, child) \<in> set (node_edges D n) \<and> ?f (u, child) = Some e)" by (simp only: Bex_def split_paired_Ex)
    also have "\<dots> \<longleftrightarrow> (\<exists>u child st'. (u, child) \<in> set (node_edges D n) \<and> universal_move U query d st depth (unit_char D u) = Some st' \<and>
        e = (unit_char D u, child, node_key_child i (unit_char D u), st', ?np, universal_state_key U st' ?np))"
      by (simp only: prod.case map_option_eq_Some) iprover
    finally show ?thesis .
  qed
  have "((inp, out), k1, v1, k2, v2) \<in> set (us_edge_pairs s i n depth st pos) \<longleftrightarrow> pos \<le> length query \<and> inp = nth_opt query pos \<and>
      (\<exists>c child st'. (\<exists>u. (u, child) \<in> set (node_edges D n) \<and> unit_char D u = c) \<and> universal_move U query d st depth c = Some st' \<and>
        out = Some c \<and> k1 = node_key_child i c \<and> v1 = (child, depth + 1) \<and> k2 = universal_state_key U st' ?np \<and> v2 = (st', ?np))"
  proof -
    have "((inp, out), k1, v1, k2, v2) \<in> set (us_edge_pairs s i n depth st pos) \<longleftrightarrow> pos \<le> length query \<and>
        (\<exists>e \<in> set (us_pending_edges s i n depth st ?np). (case e of (c, child, child_key, st, pos', key) \<Rightarrow>
          ((nth_opt query pos, Some c), child_key, (child, depth + 1), key, (st, pos'))) = ((inp, out), k1, v1, k2, v2))"
      unfolding us_edge_pairs_def ok(6) pos universal_edge_pairs_def by (rule in_map_if)
    also have "\<dots> \<longleftrightarrow> pos \<le> length query \<and> (\<exists>u child st'. (u, child) \<in> set (node_edges D n) \<and>
        universal_move U query d st depth (unit_char D u) = Some st' \<and>
        ((nth_opt query pos, Some (unit_char D u)), node_key_child i (unit_char D u), (child, depth + 1), universal_state_key U st' ?np, (st', ?np)) =
          ((inp, out), k1, v1, k2, v2))"
      unfolding Bex_def pending
    proof (rule arg_cong [where f = "(\<and>) (pos \<le> length query)"], rule iffI, goal_cases)
      case 1
      then show ?case by (elim exE conjE, simp only: prod.case, iprover)
    next
      case 2
      then obtain u child st' where e: "(u, child) \<in> set (node_edges D n)" "universal_move U query d st depth (unit_char D u) = Some st'"
        "((nth_opt query pos, Some (unit_char D u)), node_key_child i (unit_char D u), (child, depth + 1), universal_state_key U st' ?np, (st', ?np)) =
          ((inp, out), k1, v1, k2, v2)" by (elim exE conjE)
      show ?case
        by (rule exI [where x = "(unit_char D u, child, node_key_child i (unit_char D u), st', ?np, universal_state_key U st' ?np)"],
            unfold prod.case, intro conjI exI) (rule e refl)+
    qed
    also have "\<dots> \<longleftrightarrow> pos \<le> length query \<and> inp = nth_opt query pos \<and>
      (\<exists>c child st'. (\<exists>u. (u, child) \<in> set (node_edges D n) \<and> unit_char D u = c) \<and> universal_move U query d st depth c = Some st' \<and>
        out = Some c \<and> k1 = node_key_child i c \<and> v1 = (child, depth + 1) \<and> k2 = universal_state_key U st' ?np \<and> v2 = (st', ?np))"
      unfolding prod.inject by (rule iffI; elim conjE exE; hypsubst; (intro conjI exI | assumption | rule refl)+)
    finally show ?thesis .
  qed
  then have "((inp, out), k1, v1, k2, v2) \<in> set (us_edge_pairs s i n depth st pos) \<longleftrightarrow> k2 = registered_key U v2 \<and>
      (\<exists>c. pos \<le> length query \<and> inp = nth_opt query pos \<and> out = Some c \<and> child_with_depth D (n, depth) c = Some v1 \<and>
        k1 = node_key_child i c \<and> universal_move U query d st depth c = Some (fst v2) \<and> snd v2 = next_pos query pos)"
    unfolding edge by (cases v1; cases v2) (auto simp: child_with_depth_def registered_key_def)
  moreover have "((inp, out), k1, v1, k2, v2) \<in> set (query_pair U query (key_of (us_nodes s) i) (n, depth) st pos) \<longleftrightarrow>
      k2 = registered_key U v2 \<and> pos < length query \<and> inp = Some (query ! pos) \<and> out = None \<and> v1 = (n, depth) \<and>
      k1 = key_of (us_nodes s) i \<and> v2 = (st, pos + 1)"
    by (auto simp: query_pair_def registered_key_def)
  ultimately show ?thesis unfolding us_pairs_def ok(4,6) set_append Un_iff by blast
qed

lemma us_pairs_length: "length (us_pairs s i n depth st pos) \<le> Suc (length (node_edges (us_dictionary s) n))"
  by (simp add: us_pairs_def us_edge_pairs_def universal_edge_pairs_def us_pending_edges_def query_pair_def List.map_filter_def
      le_SucI split: prod.split)

lemma us_expand_ok:
  assumes "us_ok U D query d m s"
  shows "us_ok U D query d m (snd (us_expand_state s q))"
proof (cases "us_is_valid_product_state s q")
  case True
  note ok = us_okD [OF assms]
  obtain i j n depth st pos where a: "us_at s q i j n depth st pos" using True unfolding us_valid_iff [OF ok(3)] by blast
  then have node: "dreg_entry (us_nodes s) i = Some (n, depth)" by (simp add: us_at_def)
  let ?tracks = "depth_reg.tracks node_key_root node_key_child (child_with_depth D)"
  let ?P = "\<lambda>r. (?tracks r \<and> dreg_entry r i = Some (n, depth)) \<and> dreg_find r (key_of (us_nodes s) i) = Some i"
  let ?r = "snd (register_universal_pairs m (us_pairs s i n depth st pos) (us_regs s))"
  have "?P (fst ?r) \<and> ureg.keyed (registered_key U) (snd ?r)"
  proof (rule dict_universal.pseq_inv [OF ok(12)])
    show "?P (fst (us_regs s))" using ok(10) node key_of_find [OF ok(8) node] by (simp add: us_regs_def)
    show "ureg.keyed (registered_key U) (snd (us_regs s))" using ok(11) by (simp add: us_regs_def)
    fix l k1 v1 k2 v2 assume p: "(l, k1, v1, k2, v2) \<in> set (us_pairs s i n depth st pos)"
    obtain inp out where l: "l = (inp, out)" by force
    note p' = p [unfolded l us_pairs_iff [OF assms]]
    fix s1 assume s1: "dreg_wf s1" "?P s1"
    have keep: "dreg_entry (snd ((case v1 of (n, d) \<Rightarrow> dreg_register_node n k1 d) s1)) i = Some (n, depth)"
      "dreg_find (snd ((case v1 of (n, d) \<Rightarrow> dreg_register_node n k1 d) s1)) (key_of (us_nodes s) i) = Some i"
      using depth_reg.entry_stable [OF s1(1), of i "(n, depth)" k1 v1] depth_reg.find_stable [OF s1(1), of "key_of (us_nodes s) i" i k1 v1] s1(2)
      by simp_all
    have "?tracks (snd ((case v1 of (n, d) \<Rightarrow> dreg_register_node n k1 d) s1))"
    proof (cases "k1 = key_of (us_nodes s) i")
      case True
      then show ?thesis using depth_reg.intern_known [OF s1(1), of k1 i v1] s1(2) by simp
    next
      case False
      then obtain c where "child_with_depth D (n, depth) c = Some v1" "k1 = node_key_child i c" using p' by blast
      then show ?thesis using depth_reg.tracks_intern [OF s1(1), of node_key_root node_key_child "child_with_depth D" i "(n, depth)" c v1 v1] s1(2) by simp
    qed
    then show "?P (snd ((case v1 of (n, d) \<Rightarrow> dreg_register_node n k1 d) s1))" using keep by blast
  next
    fix l k1 v1 k2 v2 s2 assume p: "(l, k1, v1, k2, v2) \<in> set (us_pairs s i n depth st pos)"
      and s2: "ur_wf s2" "ureg.keyed (registered_key U) s2"
    obtain inp out where l: "l = (inp, out)" by force
    have "k2 = registered_key U v2" using p unfolding l us_pairs_iff [OF assms] by blast
    then show "ureg.keyed (registered_key U) (snd (register_state_with_key k2 v2 s2))"
      using ureg.keyed_intern [OF s2, of v2 k2] by simp
  qed
  moreover have "snd (us_expand_state s q) = s\<lparr>us_nodes := fst ?r, us_states := snd ?r\<rparr>"
    by (simp add: us_expand_eq [OF ok(3) a] Let_def ok(7))
  moreover have "us_wf (snd (us_expand_state s q))" using us_expand_keeps [OF ok(3)] by blast
  ultimately show ?thesis using assms by (simp add: us_ok_def)
next
  case False
  then show ?thesis using assms us_expand_invalid [OF us_okD(3) [OF assms] False] by simp
qed

text \<open>Where an arc leads: the node and the state of its pair.\<close>

lemma us_pair_target:
  assumes "us_ok U D query d m s" and "us_at s q i j n depth st pos"
    and "((inp, out), k1, v1, k2, v2) \<in> set (us_pairs s i n depth st pos)"
    and "us_ok U D query d m s'" and "us_ext s s'" and "dict_universal.pair_find m (k1, k2) (us_regs s') = Some target"
  shows "\<exists>i' j' st0. us_at s' target i' j' (fst v1) (snd v1) st0 (snd v2) \<and> universal_view U st0 = universal_view U (fst v2)"
proof -
  note ok = us_okD [OF assms(4)] and p = assms(3) [unfolded us_pairs_iff [OF assms(1)]]
  obtain i' j' where ids: "dreg_find (us_nodes s') k1 = Some i'" "ur_find (us_states s') k2 = Some j'" "try_encode i' j' m = Some target"
    using assms(6) by (auto simp: dict_universal.pair_find_def us_regs_def split: option.splits)
  have node: "dreg_entry (us_nodes s') i = Some (n, depth)" using us_at_ext [OF assms(5,2)] by (simp add: us_at_def)
  have "dreg_entry (us_nodes s') i' = Some v1"
  proof (cases "k1 = key_of (us_nodes s) i \<and> v1 = (n, depth)")
    case True
    have "dreg_find (us_nodes s) (key_of (us_nodes s) i) = Some i"
      using key_of_find [OF us_okD(8) [OF assms(1)]] assms(2) by (simp add: us_at_def)
    then have "dreg_find (us_nodes s') k1 = Some i" using assms(5) True by (simp add: us_ext_def dict_universal.pair_ext_def us_regs_def)
    then show ?thesis using ids(1) node True by simp
  next
    case False
    then obtain c where c: "child_with_depth D (n, depth) c = Some v1" "k1 = node_key_child i c" using p by blast
    show ?thesis
      using depth_reg.tracks_known [OF ok(10) node c(1) ids(1) [unfolded c(2)]] child_key_root [OF ok(1)] child_key_inject [OF ok(1)] by blast
  qed
  moreover obtain st0 pos0 where e: "get_registered_state (us_states s') j' = Some (st0, pos0)" "registered_key U (st0, pos0) = k2"
    using ureg.keyed_find [OF ok(9,11) ids(2)] by auto
  moreover have "pos0 = snd v2" "universal_view U st0 = universal_view U (fst v2)"
    using e(2) p by (auto simp: registered_key_def universal_state_key_def universal_view_def split: prod.splits)
  ultimately show ?thesis using encode_decode [OF ids(3)] unfolding us_at_def ok(7) by auto
qed

definition us_used :: "('n, 'u, 'st, 'pos, 'bv) universal_source \<Rightarrow> nat" where
  "us_used s = dict_universal.pair_used (us_regs s)"

text \<open>
  Expanding a state adds at most a pair for every edge of its node and one that reads the query only. Up to
  \<open>L\<close> identifiers of both kinds fit the numbering of pairs.
\<close>

definition us_grow :: "('n, 'u) dictionary \<Rightarrow> ('n, 'st) us_config \<Rightarrow> nat" where
  "us_grow D c = Suc (length (node_edges D (fst c)))"

definition us_numbered :: "nat \<Rightarrow> u32 \<Rightarrow> bool" where
  "us_numbered L m \<longleftrightarrow> L \<le> unat m \<and> L * unat m \<le> 2 ^ 32"

lemma us_pairs_grow: "us_dictionary s = D \<Longrightarrow> length (us_pairs s i n depth st pos) \<le> us_grow D (n, depth, st', pos)"
  using us_pairs_length [of s i n depth st pos] by (simp add: us_grow_def)

lemma library_respectsD:
  assumes "library_respects U" and "universal_view U st = universal_view U st'"
  shows "universal_move U query d st depth c = Some st1 \<Longrightarrow>
      \<exists>st2. universal_move U query d st' depth c = Some st2 \<and> universal_view U st2 = universal_view U st1"
    and "accepting_distance U st a b = accepting_distance U st' a b"
proof -
  have moves: "map_option (universal_view U) (universal_transition U st bv n) = map_option (universal_view U) (universal_transition U st' bv n)"
    and acc: "accepting_distance U st a b = accepting_distance U st' a b" for bv n
    using assms unfolding library_respects_def by blast+
  show "accepting_distance U st a b = accepting_distance U st' a b" by (rule acc)
  assume m: "universal_move U query d st depth c = Some st1"
  obtain prefix subword where w: "window_at query d depth = (prefix, subword)" by force
  show "\<exists>st2. universal_move U query d st' depth c = Some st2 \<and> universal_view U st2 = universal_view U st1"
    using m moves [of "from_padded_units U c prefix subword" "usize_sat_add depth 1"]
    by (cases "universal_transition U st' (from_padded_units U c prefix subword) (usize_sat_add depth 1)") (simp_all add: universal_move_def w)
qed

lemma next_pos_eq: "pos + (if pos < length query then 1 else 0) = next_pos query pos"
  by (simp add: next_pos_def)

text \<open>A step is a pair to register, up to the view of its state.\<close>

lemma step_pair:
  assumes "us_ok U D query d m s" and "universal_view U st0 = universal_view U st"
  shows "us_step U D query d (n, depth, st, pos) inp out k y \<Longrightarrow>
      \<exists>k1 v1 k2 v2. ((inp, out), k1, v1, k2, v2) \<in> set (us_pairs s i n depth st0 pos) \<and> k = 0 \<and>
        fst y = fst v1 \<and> fst (snd y) = snd v1 \<and> snd (snd (snd y)) = snd v2 \<and>
        universal_view U (fst v2) = universal_view U (fst (snd (snd y)))"
    and "((inp, out), k1, v1, k2, v2) \<in> set (us_pairs s i n depth st0 pos) \<Longrightarrow>
      \<exists>st'. us_step U D query d (n, depth, st, pos) inp out 0 (fst v1, snd v1, st', snd v2) \<and>
        universal_view U (fst v2) = universal_view U st'"
proof -
  note ok = us_okD [OF assms(1)]
  obtain n' depth' st' pos' where y: "y = (n', depth', st', pos')" by (cases y) auto
  assume st: "us_step U D query d (n, depth, st, pos) inp out k y"
  then consider c where "pos \<le> length query" "inp = nth_opt query pos" "out = Some c" "child_by D n c = Some n'" "depth' = depth + 1"
      "universal_move U query d st depth c = Some st'" "pos' = next_pos query pos"
    | "pos < length query" "inp = Some (query ! pos)" "out = None" "n' = n" "depth' = depth" "st' = st" "pos' = pos + 1"
    unfolding us_step_def y prod.case next_pos_eq by blast
  moreover have k: "k = 0" using st by (simp add: us_step_def y)
  ultimately show "\<exists>k1 v1 k2 v2. ((inp, out), k1, v1, k2, v2) \<in> set (us_pairs s i n depth st0 pos) \<and> k = 0 \<and>
        fst y = fst v1 \<and> fst (snd y) = snd v1 \<and> snd (snd (snd y)) = snd v2 \<and>
        universal_view U (fst v2) = universal_view U (fst (snd (snd y)))"
  proof cases
    case 1
    obtain st2 where st2: "universal_move U query d st0 depth c = Some st2" "universal_view U st2 = universal_view U st'"
      using library_respectsD(1) [OF ok(2) assms(2) [symmetric] 1(6)] by blast
    have "((inp, out), node_key_child i c, (n', depth'), registered_key U (st2, pos'), (st2, pos')) \<in> set (us_pairs s i n depth st0 pos)"
      unfolding us_pairs_iff [OF assms(1)] using 1 st2(1) by (auto simp: child_with_depth_def)
    then show ?thesis using st2(2) k unfolding y by (metis fst_conv snd_conv)
  next
    case 2
    have "((inp, out), key_of (us_nodes s) i, (n', depth'), registered_key U (st0, pos'), (st0, pos')) \<in> set (us_pairs s i n depth st0 pos)"
      unfolding us_pairs_iff [OF assms(1)] using 2 by auto
    then show ?thesis using assms(2) 2(6) k unfolding y by (metis fst_conv snd_conv)
  qed
next
  note ok = us_okD [OF assms(1)]
  obtain n' depth' where v1: "v1 = (n', depth')" by force
  obtain st2 pos' where v2: "v2 = (st2, pos')" by force
  assume "((inp, out), k1, v1, k2, v2) \<in> set (us_pairs s i n depth st0 pos)"
  then consider c where "pos \<le> length query" "inp = nth_opt query pos" "out = Some c" "child_with_depth D (n, depth) c = Some v1"
      "universal_move U query d st0 depth c = Some st2" "pos' = next_pos query pos"
    | "pos < length query" "inp = Some (query ! pos)" "out = None" "v1 = (n, depth)" "v2 = (st0, pos + 1)"
    unfolding us_pairs_iff [OF assms(1)] v2 fst_conv snd_conv by blast
  then show "\<exists>st'. us_step U D query d (n, depth, st, pos) inp out 0 (fst v1, snd v1, st', snd v2) \<and>
      universal_view U (fst v2) = universal_view U st'"
  proof cases
    case 1
    obtain st' where st': "universal_move U query d st depth c = Some st'" "universal_view U st' = universal_view U st2"
      using library_respectsD(1) [OF ok(2) assms(2) 1(5)] by blast
    have "child_by D n c = Some n'" "depth' = depth + 1" using 1(4) by (auto simp: child_with_depth_def v1)
    then have "us_step U D query d (n, depth, st, pos) inp out 0 (n', depth', st', pos')"
      unfolding us_step_def prod.case next_pos_eq using 1 st'(1) by blast
    then show ?thesis using st'(2) by (auto simp: v1 v2)
  next
    case 2
    have "us_step U D query d (n, depth, st, pos) inp out 0 (n, depth, st, pos + 1)"
      unfolding us_step_def prod.case using 2 by blast
    then show ?thesis using 2 assms(2) by auto
  qed
qed

lemma us_stands_pair:
  assumes "us_at s q i j (fst v1) (snd v1) st0 (snd v2)" and "universal_view U st0 = universal_view U (fst v2)"
    and "universal_view U (fst v2) = universal_view U st"
  shows "us_stands U s q (fst v1, snd v1, st, snd v2)"
  unfolding us_stands_def prod.case using assms by metis

interpretation us_steps: step_source us_expand_state "us_ok U D query d m" "us_stands U" "us_step U D query d"
  "us_final U D query" us_used "us_grow D" L "us_numbered L m"
  for U :: "('st, 'pos, 'bv) universal_library" and D :: "('n, 'u) dictionary" and query d m L
proof unfold_locales
  fix s s' :: "('n, 'u, 'st, 'pos, 'bv) universal_source" and q x :: state_id and c c' :: "('n, 'st) us_config" and f w ts t inp out k
  assume s: "us_ok U D query d m s"
  note ok = us_okD [OF s]
  show "us_ok U D query d m (snd (us_expand_state s x))" by (rule us_expand_ok [OF s])
  assume stands: "us_stands U s q c"
  obtain n depth st pos where c: "c = (n, depth, st, pos)" by (cases c) auto
  show "us_stands U (snd (us_expand_state s x)) q c"
    using stands us_at_ext [of s "snd (us_expand_state s x)"] us_expand_keeps [OF ok(3), of x] unfolding us_stands_def c prod.case by blast
  obtain i j st0 where a: "us_at s q i j n depth st0 pos" "universal_view U st0 = universal_view U st"
    using stands unfolding us_stands_def c prod.case by blast
  let ?pairs = "us_pairs s i n depth st0 pos"
  let ?r = "register_universal_pairs m ?pairs (us_regs s)"
  have fin: "registered_final_weight s n st0 pos (length (us_query s)) depth = map_option F64 (us_final U D query c)"
    using library_respectsD(2) [OF ok(2) a(2)] ok(4-6)
    by (auto simp: registered_final_weight_def us_final_def c universal_accepting_weight_def exact_usize_to_f64_def f64_of_nat_def split: option.split)
  have ex: "us_expand_state s q = (Expanded (us_final U D query c \<noteq> None) (case us_final U D query c of Some k \<Rightarrow> F64 k | None \<Rightarrow> tropical_zero)
      (map (labelled_arc q) (fst ?r)), s\<lparr>us_nodes := fst (snd ?r), us_states := snd (snd ?r)\<rparr>)"
    using us_expand_eq [OF ok(3) a(1)] by (simp add: Let_def fin ok(7) split: option.split)
  then show "\<exists>ts. fst (us_expand_state s q) = Expanded (us_final U D query c \<noteq> None)
      (case us_final U D query c of Some k \<Rightarrow> F64 k | None \<Rightarrow> tropical_zero) ts" by simp
  show "us_used (snd (us_expand_state s q)) \<le> us_used s + us_grow D c"
    using dict_universal.pseq_used [OF ok(12), of m ?pairs] us_pairs_grow [OF ok(5), of i n depth st0 pos st]
    by (simp add: ex us_used_def us_regs_def c)
  assume e: "us_expand_state s q = (Expanded f w ts, s')"
  have s': "us_ok U D query d m s'" "us_ext s s'" using us_expand_ok [OF s, of q] us_expand_keeps [OF ok(3), of q] e by simp_all
  have regs': "us_regs s' = snd ?r" and ts: "ts = map (labelled_arc q) (fst ?r)" using e ex by (auto simp: us_regs_def)
  note arc = dict_universal.pseq_arcs [OF ok(12), of _ _ m ?pairs, folded regs']
  show "\<exists>k c'. t_weight t = F64 k \<and> us_step U D query d c (t_input t) (t_output t) k c' \<and> us_stands U s' (t_to t) c'" if "t \<in> set ts"
  proof -
    obtain inp' out' target where t: "((inp', out'), target) \<in> set (fst ?r)" "t = mk_transition q inp' out' target tropical_one"
      using \<open>t \<in> set ts\<close> unfolding ts by auto
    then obtain k1 v1 k2 v2 where p: "((inp', out'), k1, v1, k2, v2) \<in> set ?pairs"
      "dict_universal.pair_find m (k1, k2) (us_regs s') = Some target" unfolding arc by blast
    obtain st' where st': "us_step U D query d (n, depth, st, pos) inp' out' 0 (fst v1, snd v1, st', snd v2)"
      "universal_view U (fst v2) = universal_view U st'" using step_pair(2) [OF s a(2) p(1)] by blast
    obtain i' j' st1 where at': "us_at s' target i' j' (fst v1) (snd v1) st1 (snd v2)" "universal_view U st1 = universal_view U (fst v2)"
      using us_pair_target [OF s a(1) p(1) s' p(2)] by blast
    show ?thesis
      using st'(1) us_stands_pair [OF at' st'(2)] t(2)
      by (intro exI [of _ 0] exI [of _ "(fst v1, snd v1, st', snd v2)"]) (simp add: c tropical_one_def)
  qed
  show "\<exists>t \<in> set ts. t_input t = inp \<and> t_output t = out \<and> t_weight t = F64 k \<and> us_stands U s' (t_to t) c'"
    if st: "us_step U D query d c inp out k c'" and bnd: "us_numbered L m" and room: "us_used s + us_grow D c \<le> L"
  proof -
    obtain k1 v1 k2 v2 where p: "((inp, out), k1, v1, k2, v2) \<in> set ?pairs" "k = 0" "fst c' = fst v1" "fst (snd c') = snd v1"
      "snd (snd (snd c')) = snd v2" "universal_view U (fst v2) = universal_view U (fst (snd (snd c')))"
      using step_pair(1) [OF s a(2) st [unfolded c]] by blast
    have "L \<le> 2 ^ 32" using bnd unat_less_exp [of m] by (simp add: us_numbered_def)
    then obtain target where target: "dict_universal.pair_find m (k1, k2) (us_regs s') = Some target"
      using dict_universal.pseq_room [OF _ _ _ _ ok(12) p(1), of L m] us_pairs_grow [OF ok(5), of i n depth st0 pos st] bnd room
      unfolding regs' by (auto simp: us_numbered_def us_used_def c)
    obtain i' j' st1 where at': "us_at s' target i' j' (fst v1) (snd v1) st1 (snd v2)" "universal_view U st1 = universal_view U (fst v2)"
      using us_pair_target [OF s a(1) p(1) s' target] by blast
    have c': "c' = (fst v1, snd v1, fst (snd (snd c')), snd v2)" using p(3-5) by (simp add: prod_eq_iff)
    have "us_stands U s' target c'" by (subst c') (rule us_stands_pair [OF at' p(6)])
    moreover have "((inp, out), target) \<in> set (fst ?r)" unfolding arc using p(1) target by blast
    then have "mk_transition q inp out target tropical_one \<in> set ts" unfolding ts by force
    ultimately show ?thesis using p(2)
      by (intro bexI [of _ "mk_transition q inp out target tropical_one"]) (simp_all add: tropical_one_def)
  qed
qed

end
