(* ===== verification/Universal_Language.thy ===== *)
theory Universal_Language
  imports Universal_Machine
begin

text \<open>
  The language of the universal Levenshtein WFST: from single steps to whole runs. A run reads the query from
  left to right, writes the word that the dictionary walk spells, and leaves the automaton in the state it
  reaches on that word.
\<close>

section \<open>The wrapper\<close>

lemma us_wf_new: "us_wf (us_new U D query d)"
proof -
  have "ur_wf \<lparr>ur_state_to_id = Map.empty, ur_id_to_state = []\<rparr>" by (simp add: ur_wf_def)
  then have "ur_wf (ur_new U d)" using ureg.wf_intern by (simp add: ur_new_def register_state_at_eq)
  then show ?thesis by (simp add: us_wf_def us_regs_def us_new_def dict_universal.pair_wf_def dreg_new_eq)
qed

lemma uw_wrapper:
  "fst (uw_transitions_lazy x \<lparr>uw_source = s, uw_cache = c\<rparr>) =
     fst (wrapper_transitions_lazy us_expand_state us_is_valid_product_state x (c, s))"
  "uw_is_final \<lparr>uw_source = s, uw_cache = c\<rparr> x = wrapper_is_final us_final_weight_for_state (c, s) x"
  "uw_final_weight \<lparr>uw_source = s, uw_cache = c\<rparr> x = wrapper_final_weight us_final_weight_for_state (c, s) x"
  by (simp_all add: uw_transitions_lazy_def uw_ensure_state_def uw_transitions_def wrapper_transitions_lazy_def
      wrapper_transitions_def uw_is_final_def wrapper_is_final_def uw_final_weight_def wrapper_final_weight_def split: prod.split option.split)

text \<open>Caching never changes what the universal WFST answers, after any sequence of expansions and reconfigurations.\<close>

theorem universal_wrapper_answers:
  "let (c, s) = wrapper_run us_expand_state us_is_valid_product_state ops
         (cache_new uw_default_max_cache_size, us_new U D query d);
       w = \<lparr>uw_source = s, uw_cache = c\<rparr>
   in fst (uw_transitions_lazy x w) =
        (if us_is_valid_product_state s x then case fst (us_expand_state s x) of Expanded f w ts \<Rightarrow> ts | _ \<Rightarrow> [] else []) \<and>
      uw_is_final w x = (us_final_weight_for_state s x \<noteq> None) \<and>
      uw_final_weight w x = (case us_final_weight_for_state s x of Some w \<Rightarrow> w | None \<Rightarrow> tropical_zero)"
proof -
  obtain c s where r: "wrapper_run us_expand_state us_is_valid_product_state ops
      (cache_new uw_default_max_cache_size, us_new U D query d) = (c, s)" by force
  have coh: "us.coherent (c, s)"
    using us.coherent_run [OF us.coherent_new [OF us_wf_new], of ops uw_default_max_cache_size U D query d] r by simp
  then have wf: "us_wf s" by (simp add: us.coherent_def)
  have "\<exists>f w ts. fst (us_expand_state s x) = Expanded f w ts" if "us_is_valid_product_state s x"
    using that us_expand_eq [OF wf] unfolding us_valid_iff [OF wf] by (fastforce simp: Let_def)
  then have "(case fst (us_expand_state s x) of Expanded f w ts \<Rightarrow> ts | _ \<Rightarrow>
        wrapper_transitions (snd (ensure_cached_char_state us_expand_state us_is_valid_product_state x (c, s))) x) =
      (case fst (us_expand_state s x) of Expanded f w ts \<Rightarrow> ts | _ \<Rightarrow> [])" if "us_is_valid_product_state s x"
    using that by fastforce
  then show ?thesis
    using us.transitions_lazy [OF coh, of x] us.wrapper_finality [OF coh, of x] r
    by (simp add: uw_wrapper)
qed

section \<open>What the automaton accepts\<close>

fun universal_run ::
    "('st, 'pos, 'bv) universal_library \<Rightarrow> uchar list \<Rightarrow> usize \<Rightarrow> 'st \<Rightarrow> usize \<Rightarrow> uchar list \<Rightarrow> 'st option" where
  "universal_run U query d st depth [] = Some st"
| "universal_run U query d st depth (c # w) =
     Option.bind (universal_move U query d st depth c) (\<lambda>st'. universal_run U query d st' (depth + 1) w)"

definition universal_accepts ::
    "('st, 'pos, 'bv) universal_library \<Rightarrow> ('n, 'u) dictionary \<Rightarrow> uchar list \<Rightarrow> 8 word \<Rightarrow> uchar list \<Rightarrow> usize \<Rightarrow> bool" where
  "universal_accepts U D query d w e \<longleftrightarrow> dict_accepts D w \<and>
     (case universal_run U query (unat d) (universal_initial U d) 0 w of
        Some st \<Rightarrow> accepting_distance U st (length query) (length w) = Some e
      | None \<Rightarrow> False)"

section \<open>Runs of the machine\<close>

text \<open>A step reads at the position on the tape, if the query reaches that far.\<close>

lemma rest_of_query: "pos \<le> length query \<Longrightarrow>
    drop pos query = label_word (nth_opt query pos) @ drop (pos + (if pos < length query then 1 else 0)) query"
  by (auto simp: nth_opt_def Cons_nth_drop_Suc not_less)

lemma us_path_sound:
  "machine_path (us_step U D query d) (us_grow D) x l ins outs k y \<Longrightarrow> snd (snd (snd x)) \<le> length query \<Longrightarrow>
     k = 0 \<and> snd (snd (snd y)) \<le> length query \<and> drop (snd (snd (snd x))) query = ins @ drop (snd (snd (snd y))) query \<and>
     walk D (fst x) outs = Some (fst y) \<and> fst (snd y) = fst (snd x) + length outs \<and>
     universal_run U query d (fst (snd (snd x))) (fst (snd x)) outs = Some (fst (snd (snd y)))"
proof (induction rule: machine_path.induct)
  case (path_stay c)
  then show ?case by simp
next
  case (path_move x i out k x1 l ins outs k' y)
  obtain n depth st pos where x: "x = (n, depth, st, pos)" by (cases x) auto
  obtain n1 depth1 st1 pos1 where x1: "x1 = (n1, depth1, st1, pos1)" by (cases x1) auto
  have pos: "pos \<le> length query" using path_move.prems by (simp add: x)
  have k: "k = 0" using path_move.hyps(1) by (simp add: us_step_def x x1)
  consider c where "i = nth_opt query pos" "out = Some c" "child_by D n c = Some n1" "depth1 = depth + 1"
      "universal_move U query d st depth c = Some st1" "pos1 = pos + (if pos < length query then 1 else 0)"
    | "pos < length query" "i = Some (query ! pos)" "out = None" "n1 = n" "depth1 = depth" "st1 = st" "pos1 = pos + 1"
    using path_move.hyps(1) unfolding us_step_def x x1 prod.case by blast
  then show ?case
  proof cases
    case 1
    then have "pos1 \<le> length query" using pos by (auto split: if_splits)
    then show ?thesis using path_move.IH 1 k rest_of_query [OF pos] by (simp add: x x1)
  next
    case 2
    then show ?thesis using path_move.IH k by (simp add: x x1 flip: Cons_nth_drop_Suc)
  qed
qed

text \<open>
  The identifiers that a run for a word asks for: one for every edge of each node that it expands, and one
  more. It expands the nodes along the word and, while the query lasts, the last one for each further character.
\<close>

fun us_room :: "('n, 'u) dictionary \<Rightarrow> usize \<Rightarrow> 'n \<Rightarrow> usize \<Rightarrow> uchar list \<Rightarrow> nat" where
  "us_room D len n pos [] = (len - pos) * Suc (length (node_edges D n))"
| "us_room D len n pos (c # w) = Suc (length (node_edges D n)) +
     (case child_by D n c of Some m \<Rightarrow> us_room D len m (pos + (if pos < len then 1 else 0)) w | None \<Rightarrow> 0)"

lemma us_grow_at: "us_grow D (n, x) = Suc (length (node_edges D n))"
  by (simp add: us_grow_def)

text \<open>The rest of the query can always be read without moving in the dictionary.\<close>

lemma us_path_tail:
  "pos \<le> length query \<Longrightarrow>
     machine_path (us_step U D query d) (us_grow D) (n, depth, st, pos) (us_room D (length query) n pos []) (drop pos query) [] 0 (n, depth, st, length query)"
proof (induction "length query - pos" arbitrary: pos)
  case 0
  then show ?case using path_stay [of "us_step U D query d" "us_grow D" "(n, depth, st, pos)"] by simp
next
  case (Suc l)
  then have lt: "pos < length query" and l: "length query - pos = Suc (length query - Suc pos)" by simp_all
  have "us_step U D query d (n, depth, st, pos) (Some (query ! pos)) None 0 (n, depth, st, Suc pos)"
    using lt by (simp add: us_step_def)
  then have "machine_path (us_step U D query d) (us_grow D) (n, depth, st, pos) (us_grow D (n, depth, st, pos) + us_room D (length query) n (Suc pos) [])
      (label_word (Some (query ! pos)) @ drop (Suc pos) query) (label_word None @ []) (0 + 0) (n, depth, st, length query)"
    by (rule path_move) (rule Suc.hyps(1), use Suc.hyps(2) lt in simp_all)
  moreover have "us_grow D (n, depth, st, pos) + us_room D (length query) n (Suc pos) [] = us_room D (length query) n pos []"
    by (simp only: us_room.simps l mult_Suc us_grow_at)
  ultimately show ?case using lt by (simp add: Cons_nth_drop_Suc del: us_room.simps)
qed

lemma us_path_complete:
  "walk D n w = Some n' \<Longrightarrow> universal_run U query d st depth w = Some st' \<Longrightarrow> pos \<le> length query \<Longrightarrow>
     machine_path (us_step U D query d) (us_grow D) (n, depth, st, pos) (us_room D (length query) n pos w) (drop pos query) w 0 (n', depth + length w, st', length query)"
proof (induction w arbitrary: n depth st pos)
  case Nil
  then show ?case using us_path_tail [OF Nil.prems(3), of U D d n' depth st'] by auto
next
  case (Cons c w)
  obtain m where m: "child_by D n c = Some m" "walk D m w = Some n'" using Cons.prems(1) by (auto split: option.splits)
  obtain st1 where st1: "universal_move U query d st depth c = Some st1" "universal_run U query d st1 (depth + 1) w = Some st'"
    using Cons.prems(2) by (auto simp: bind_eq_Some_conv)
  let ?pos = "pos + (if pos < length query then 1 else 0)"
  have "?pos \<le> length query" using Cons.prems(3) by simp
  then have l: "machine_path (us_step U D query d) (us_grow D) (m, depth + 1, st1, ?pos) (us_room D (length query) m ?pos w) (drop ?pos query) w 0 (n', depth + 1 + length w, st', length query)"
    by (rule Cons.IH [OF m(2) st1(2)])
  have "us_step U D query d (n, depth, st, pos) (nth_opt query pos) (Some c) 0 (m, depth + 1, st1, ?pos)"
    using m(1) st1(1) Cons.prems(3) by (simp add: us_step_def)
  then have "machine_path (us_step U D query d) (us_grow D) (n, depth, st, pos)
      (us_grow D (n, depth, st, pos) + us_room D (length query) m ?pos w) (label_word (nth_opt query pos) @ drop ?pos query)
      (label_word (Some c) @ w) (0 + 0) (n', depth + 1 + length w, st', length query)"
    using l by (rule path_move)
  then have "machine_path (us_step U D query d) (us_grow D) (n, depth, st, pos)
      (us_grow D (n, depth, st, pos) + us_room D (length query) m ?pos w) (drop pos query) (c # w) 0
      (n', depth + length (c # w), st', length query)"
    by (simp add: rest_of_query [OF Cons.prems(3), symmetric])
  moreover have "us_room D (length query) n pos (c # w) = us_grow D (n, depth, st, pos) + us_room D (length query) m ?pos w"
    using m(1) by (simp add: us_grow_at)
  ultimately show ?case by (simp only:)
qed

section \<open>The language\<close>

lemma us_initial:
  assumes "dictionary_ok D" and "library_respects U" and "length query + unat d < usize_max"
  shows "us_ok U D query (unat d) (us_max_states (us_new U D query d)) (us_new U D query d)"
    and "us_stands U (us_new U D query d) 0 (dict_root D, 0, universal_initial U d, 0)"
    and "us_used (us_new U D query d) = 1"
proof -
  let ?s = "us_new U D query d" and ?st = "universal_initial U d" and ?empty = "\<lparr>ur_state_to_id = Map.empty, ur_id_to_state = []\<rparr>"
  have reg: "ur_new U d = \<lparr>ur_state_to_id = [universal_state_key U ?st 0 \<mapsto> 0], ur_id_to_state = [(?st, 0)]\<rparr>"
    by (simp add: ur_new_def register_state_at_def next_universal_registry_id_def u32_try_from_def)
  have m: "us_max_states ?s \<noteq> 0" by (auto simp: us_new_def max_def)
  have node: "dreg_entry (dreg_new (dict_root D)) i = (if i = 0 then Some (dict_root D, 0) else None)"
    "dreg_find (dreg_new (dict_root D)) = [node_key_root \<mapsto> 0]" for i
    by (auto simp: dreg_entry_def dreg_get_node_def dreg_get_depth_def reg_get_node_def dreg_new_def reg_new_eq nth_opt_def
        dreg_find_def reg_get_id_def unat_eq_0 fun_eq_iff)
  have tracks: "depth_reg.tracks node_key_root node_key_child (child_with_depth D) (dreg_new (dict_root D))"
    by (auto simp: depth_reg.tracks_def node split: if_splits)
  have empty: "ur_wf ?empty" "ureg.keyed (registered_key U) ?empty"
    by (simp_all add: ur_wf_def ureg.keyed_def get_registered_state_def nth_opt_def)
  have wf: "ur_wf (ur_new U d)" "ureg.keyed (registered_key U) (ur_new U d)"
    using ureg.wf_intern [OF empty(1), of "universal_state_key U ?st 0" "(?st, 0)"]
      ureg.keyed_intern [OF empty, of "(?st, 0)" "universal_state_key U ?st 0"]
    by (simp_all add: ur_new_def register_state_at_eq registered_key_def)
  show "us_ok U D query (unat d) (us_max_states ?s) ?s"
    using assms tracks wf dreg_new_eq [of "dict_root D"]
    by (simp add: us_ok_def us_wf_def dict_universal.pair_wf_def us_regs_def us_new_def)
  have "us_at ?s 0 0 0 (dict_root D) 0 ?st 0"
    using m node by (simp add: us_at_def decode_def) (simp add: us_new_def node reg get_registered_state_def nth_opt_def)
  then show "us_stands U ?s 0 (dict_root D, 0, ?st, 0)" unfolding us_stands_def prod.case by blast
  show "us_used ?s = 1"
    by (simp add: us_used_def us_regs_def dict_universal.pair_used_def us_new_def reg ur_len_def dreg_len_def dreg_new_def reg_new_eq reg_len_def)
qed

text \<open>
  C15: universal: the universal Levenshtein WFST relates the query, and nothing else, to exactly the dictionary
  terms that the library's automaton accepts against the windows of the query, at the distance the automaton
  reports. Under any order of expansions whatever is accepted is such a pair; and every such term is accepted, if
  its distance is exact as a float and the identifiers asked for along it fit the numbering of the states.
  A state accepts only where the query has been read to its end; the documents name no such condition.
\<close>

theorem universal_language:
  assumes "dictionary_ok D" and "library_respects U" and "length query + unat d < usize_max" and "s = us_new U D query d"
  shows "(src_accepts us_expand_state s ins outs k \<longrightarrow>
      ins = query \<and> (\<exists>e. universal_accepts U D query d outs e \<and> e \<le> max_exact_f64_usize \<and> k = of_nat e)) \<and>
    (universal_accepts U D query d w e \<longrightarrow> e \<le> max_exact_f64_usize \<longrightarrow>
      us_numbered (1 + us_room D (length query) (dict_root D) 0 w) (us_max_states s) \<longrightarrow>
      src_accepts us_expand_state s query w (of_nat e))"
proof -
  note init = us_initial [OF assms(1-3), folded assms(4)]
  have final: "us_final U D query (n, depth, st, pos) = Some r \<longleftrightarrow> pos = length query \<and> node_is_final D n \<and>
      (\<exists>e. accepting_distance U st (length query) depth = Some e \<and> e \<le> max_exact_f64_usize \<and> r = of_nat e)" for n depth st pos r
    by (auto simp: us_final_def split: option.split)
  have "ins = query \<and> (\<exists>e. universal_accepts U D query d outs e \<and> e \<le> max_exact_f64_usize \<and> k = of_nat e)"
    if acc: "src_accepts us_expand_state s ins outs k"
  proof -
    obtain l n depth st pos k1 k2 where p: "machine_path (us_step U D query (unat d)) (us_grow D) (dict_root D, 0, universal_initial U d, 0) l ins outs k1
        (n, depth, st, pos)" "us_final U D query (n, depth, st, pos) = Some k2" "k = k1 + k2"
      using us_steps.accepts_sound [OF init(1,2) acc] by (metis prod.collapse)
    show ?thesis using us_path_sound [OF p(1)] p(2,3) unfolding final universal_accepts_def dict_accepts_def by auto
  qed
  moreover have "src_accepts us_expand_state s query w (of_nat e)"
    if acc: "universal_accepts U D query d w e" and e: "e \<le> max_exact_f64_usize"
      and room: "us_numbered (1 + us_room D (length query) (dict_root D) 0 w) (us_max_states s)"
  proof -
    obtain n st where n: "walk D (dict_root D) w = Some n" "node_is_final D n"
      "universal_run U query (unat d) (universal_initial U d) 0 w = Some st" "accepting_distance U st (length query) (length w) = Some e"
      using acc by (auto simp: universal_accepts_def dict_accepts_def split: option.splits)
    have path: "machine_path (us_step U D query (unat d)) (us_grow D) (dict_root D, 0, universal_initial U d, 0)
        (us_room D (length query) (dict_root D) 0 w) query w 0 (n, length w, st, length query)"
      using us_path_complete [OF n(1,3), of 0] by simp
    have "us_final U D query (n, length w, st, length query) = Some (of_nat e)" unfolding final using n(2,4) e by blast
    then show ?thesis using us_steps.accepts_complete [OF init(1,2) path _ room] init(3) by simp
  qed
  ultimately show ?thesis by blast
qed

lemma exact_universal_respects: "library_respects exact_universal"
  by (simp add: library_respects_def universal_view_def exact_universal_def)

theorem universal_language_witness:
  "src_accepts us_expand_state (us_new exact_universal ab_dictionary [97, 98] 0) [97, 98] [97, 98] 0"
proof -
  let ?s = "us_new exact_universal ab_dictionary [97, 98] 0"
  have m: "us_max_states ?s = 9"
    by (simp add: us_new_def estimate_automaton_states_def universal_query_state_factor_def saturating_mul_def max_def
        usize_sat_add_def usize_sat_mul_def usize_max_def saturating_nonzero_u32_def u32_try_from_def word_le_nat_alt)
  have "universal_accepts exact_universal ab_dictionary [97, 98] 0 [97, 98] 0"
    by (simp add: universal_accepts_def ab_dictionary_accepts universal_move_def window_at_def relevant_window_at_def exact_universal_def
        usize_sat_add_def usize_sat_sub_def usize_max_def)
  moreover have "us_numbered (1 + us_room ab_dictionary (length [97 :: uchar, 98]) (dict_root ab_dictionary) 0 [97, 98]) 9"
    by (simp add: us_numbered_def ab_dictionary_def ab_edges_def child_by_def)
  moreover have "(0::nat) \<le> max_exact_f64_usize" "length [97::uchar, 98] + unat (0 :: 8 word) < usize_max" by (simp_all add: usize_max_def)
  ultimately show ?thesis
    using universal_language [OF ab_dictionary_ok exact_universal_respects _ refl, of "[97, 98]" 0 "[]" "[]" 0 "[97, 98]" 0] m
    by (simp del: us_room.simps)
qed

end
