(* ===== verification/Ffi_Config.thy ===== *)
theory Ffi_Config
  imports Foreign_Memory
begin

text \<open>
  \<open>src/ffi/config.rs\<close> with the enumerations of \<open>src/ffi.rs\<close> and \<open>src/bindings.rs\<close>: the validating
  parser of the configuration records a C caller hands over. Every \<open>Err\<close> of the source is \<open>Rejected\<close>
  with its status and the message \<open>set_error\<close> stores; every \<open>unsafe\<close> read goes through the memory and
  is \<open>Unreadable\<close> where the caller's promise does not cover it.
\<close>

section \<open>Statuses, kinds and policies\<close>

datatype duallity_status =
    StatusOk | StatusInvalidArgument | StatusInvalidUtf8 | StatusNullPointer | StatusPanic
  | StatusIncompatibleResource | StatusProviderError | StatusLimitExceeded

datatype parse_stop = Rejected duallity_status string | Unreadable

type_synonym 'a parsed = "parse_stop + 'a"

definition reject :: "duallity_status \<Rightarrow> string \<Rightarrow> 'a parsed" where
  "reject status message = Inl (Rejected status message)"

text \<open>The operator \<open>?\<close>.\<close>

definition pbind :: "'a parsed \<Rightarrow> ('a \<Rightarrow> 'b parsed) \<Rightarrow> 'b parsed" where
  "pbind r f = (case r of Inl e \<Rightarrow> Inl e | Inr x \<Rightarrow> f x)"

lemma pbind_simps [simp]: "pbind (Inr x) f = f x" "pbind (Inl e) f = Inl e"
  by (simp_all add: pbind_def)

lemma pbind_Inr: "pbind r f = Inr y \<longleftrightarrow> (\<exists>x. r = Inr x \<and> f x = Inr y)"
  by (cases r) auto

datatype wfst_kind =
    KindLevenshtein | KindUniversalStandard | KindUniversalTransposition | KindUniversalMergeAndSplit
  | KindGeneralizedStandard | KindGeneralizedTransposition | KindGeneralizedMergeAndSplit
  | KindGeneralizedPhonetic | KindFzf

datatype edit_algorithm = EditStandard | EditTransposition | EditMergeAndSplit | EditDamerauLevenshtein

definition parse_algorithm :: "u32 \<Rightarrow> edit_algorithm parsed" where
  "parse_algorithm value =
     (if value = 0 then Inr EditStandard
      else if value = 1 then Inr EditTransposition
      else if value = 2 then Inr EditMergeAndSplit
      else if value = 3 then Inr EditDamerauLevenshtein
      else reject StatusInvalidArgument ''unknown edit algorithm'')"

definition parse_kind :: "u32 \<Rightarrow> wfst_kind parsed" where
  "parse_kind value =
     (if value = 0 then Inr KindLevenshtein
      else if value = 1 then Inr KindUniversalStandard
      else if value = 2 then Inr KindUniversalTransposition
      else if value = 3 then Inr KindUniversalMergeAndSplit
      else if value = 4 then Inr KindGeneralizedStandard
      else if value = 5 then Inr KindGeneralizedTransposition
      else if value = 6 then Inr KindGeneralizedMergeAndSplit
      else if value = 7 then Inr KindGeneralizedPhonetic
      else if value = 8 then Inr KindFzf
      else reject StatusInvalidArgument ''unknown duallity WFST kind'')"

datatype requested_cache_policy = RequestCacheAll | RequestNoCache | RequestLru usize

datatype shared_cache_policy = SharedCacheAll | SharedNoCache | SharedLru usize

text \<open>\<open>NonZeroUsize::new(n).expect(..)\<close>: \<open>None\<close> is the panic.\<close>

definition shared_lru :: "usize \<Rightarrow> shared_cache_policy option" where
  "shared_lru capacity = (if capacity = 0 then None else Some (SharedLru capacity))"

fun effective :: "requested_cache_policy \<Rightarrow> wfst_kind \<Rightarrow> shared_cache_policy option" where
  "effective RequestCacheAll kind = Some SharedCacheAll"
| "effective RequestNoCache kind = Some SharedNoCache"
| "effective (RequestLru capacity) kind =
     (if capacity = 0 \<and> kind = KindFzf then Some SharedNoCache
      else if capacity = 0 then shared_lru 100000
      else shared_lru capacity)"

section \<open>Records\<close>

definition config_record_version :: u32 where "config_record_version = 1"
definition config_max_record_bytes :: usize where "config_max_record_bytes = 4096"
definition config_max_operations :: usize where "config_max_operations = 4096"
definition config_max_restriction_pairs :: usize where "config_max_restriction_pairs = 4096"
definition config_max_custom_text_bytes :: usize where "config_max_custom_text_bytes = 1048576"
definition isize_max :: usize where "isize_max = 2 ^ 63 - 1"

record restriction_v1 =
  rv_source_data :: address
  rv_source_len :: u64
  rv_target_data :: address
  rv_target_len :: u64
  rv_reserved :: "u64 list"

record operation_v1 =
  ov_consume_x :: u64
  ov_consume_y :: u64
  ov_weight :: f64
  ov_applicability :: u32
  ov_reserved_zero :: u32
  ov_name_data :: address
  ov_name_len :: u64
  ov_restrictions :: address
  ov_restriction_count :: u64
  ov_restriction_stride :: u64
  ov_reserved :: "u64 list"

record limits_v1 =
  lv_max_query_bytes :: u64
  lv_max_query_scalars :: u64
  lv_max_operation_source_scalars :: u64
  lv_max_operation_query_scalars :: u64
  lv_max_retained_dictionary_nodes :: u64
  lv_max_retained_wfst_states :: u64
  lv_max_paths_per_expansion :: u64
  lv_max_work_units_per_expansion :: u64
  lv_reserved :: "u64 list"

record options_v1 =
  wv_kind :: u32
  wv_algorithm :: u32
  wv_maximum_distance :: u64
  wv_cache_policy :: u32
  wv_reserved_zero :: u32
  wv_cache_capacity :: u64
  wv_limits :: address
  wv_operations :: address
  wv_operation_count :: u64
  wv_operation_stride :: u64
  wv_reserved :: "u64 list"

text \<open>The sizes and offsets of the layout; every record is aligned to eight bytes.\<close>

definition record_align :: usize where "record_align = 8"
definition restriction_size :: usize where "restriction_size = 64"
definition operation_size :: usize where "operation_size = 104"
definition limits_size :: usize where "limits_size = 96"
definition options_size :: usize where "options_size = 96"

definition restriction_of :: "byte list \<Rightarrow> restriction_v1" where
  "restriction_of bs =
     \<lparr>rv_source_data = pointer_at bs 16, rv_source_len = u64_at bs 24,
      rv_target_data = pointer_at bs 32, rv_target_len = u64_at bs 40,
      rv_reserved = [u64_at bs 48, u64_at bs 56]\<rparr>"

definition operation_of :: "byte list \<Rightarrow> operation_v1" where
  "operation_of bs =
     \<lparr>ov_consume_x = u64_at bs 16, ov_consume_y = u64_at bs 24, ov_weight = f64_from_bits (u64_at bs 32),
      ov_applicability = u32_at bs 40, ov_reserved_zero = u32_at bs 44,
      ov_name_data = pointer_at bs 48, ov_name_len = u64_at bs 56,
      ov_restrictions = pointer_at bs 64, ov_restriction_count = u64_at bs 72, ov_restriction_stride = u64_at bs 80,
      ov_reserved = [u64_at bs 88, u64_at bs 96]\<rparr>"

definition limits_of :: "byte list \<Rightarrow> limits_v1" where
  "limits_of bs =
     \<lparr>lv_max_query_bytes = u64_at bs 16, lv_max_query_scalars = u64_at bs 24,
      lv_max_operation_source_scalars = u64_at bs 32, lv_max_operation_query_scalars = u64_at bs 40,
      lv_max_retained_dictionary_nodes = u64_at bs 48, lv_max_retained_wfst_states = u64_at bs 56,
      lv_max_paths_per_expansion = u64_at bs 64, lv_max_work_units_per_expansion = u64_at bs 72,
      lv_reserved = [u64_at bs 80, u64_at bs 88]\<rparr>"

definition options_of :: "byte list \<Rightarrow> options_v1" where
  "options_of bs =
     \<lparr>wv_kind = u32_at bs 16, wv_algorithm = u32_at bs 20, wv_maximum_distance = u64_at bs 24,
      wv_cache_policy = u32_at bs 32, wv_reserved_zero = u32_at bs 36, wv_cache_capacity = u64_at bs 40,
      wv_limits = pointer_at bs 48, wv_operations = pointer_at bs 56, wv_operation_count = u64_at bs 64,
      wv_operation_stride = u64_at bs 72, wv_reserved = [u64_at bs 80, u64_at bs 88]\<rparr>"

section \<open>Reading records, arrays and text\<close>

definition to_usize :: "u64 \<Rightarrow> string \<Rightarrow> usize parsed" where
  "to_usize value name =
     (if unat value \<le> usize_max then Inr (unat value)
      else reject StatusLimitExceeded (name @ '' does not fit the host address space''))"

definition read_at :: "foreign_memory \<Rightarrow> address \<Rightarrow> usize \<Rightarrow> byte list parsed" where
  "read_at m a n = (case read_bytes m a n of None \<Rightarrow> Inl Unreadable | Some bs \<Rightarrow> Inr bs)"

text \<open>\<open>record::<T>\<close> for a record of \<open>known\<close> bytes: the header, the unknown tail, the record.\<close>

definition record_bytes :: "foreign_memory \<Rightarrow> address \<Rightarrow> usize \<Rightarrow> string \<Rightarrow> usize \<Rightarrow> byte list parsed" where
  "record_bytes m pointer known name available =
     (if pointer = 0 then reject StatusNullPointer (name @ '' is null'')
      else if pointer mod record_align \<noteq> 0 then reject StatusInvalidArgument (name @ '' is not aligned'')
      else pbind (read_at m pointer 16) (\<lambda>header.
        let size = unat (u32_at header 0)
        in if size < known \<or> size > config_max_record_bytes \<or> size > available
           then reject StatusInvalidArgument (name @ '' has an unsupported size'')
           else if u32_at header 4 \<noteq> config_record_version \<or> u64_at header 8 \<noteq> 0
           then reject StatusInvalidArgument (name @ '' has an unsupported version or reserved field'')
           else pbind (if size > known then read_at m (pointer + known) (size - known) else Inr []) (\<lambda>tail.
             if \<exists>b \<in> set tail. b \<noteq> 0
             then reject StatusInvalidArgument (name @ '' has nonzero unknown trailing bytes'')
             else read_at m pointer known)))"

definition array_shape :: "address \<Rightarrow> u64 \<Rightarrow> u64 \<Rightarrow> usize \<Rightarrow> usize \<Rightarrow> string \<Rightarrow> usize parsed" where
  "array_shape pointer count stride maximum element name =
     (if count = 0 then
        (if pointer \<noteq> 0 \<or> stride \<noteq> 0
         then reject StatusInvalidArgument (name @ '' has a noncanonical empty array'')
         else Inr 0)
      else if pointer = 0 then reject StatusNullPointer (name @ '' is null with nonzero count'')
      else pbind (to_usize count (name @ '' count'')) (\<lambda>count.
        pbind (to_usize stride (name @ '' stride'')) (\<lambda>stride.
          if count > maximum
          then reject StatusLimitExceeded (name @ '' count exceeds '' @ show_nat maximum)
          else if stride < element \<or> stride > config_max_record_bytes \<or> stride mod record_align \<noteq> 0 \<or> pointer mod record_align \<noteq> 0
          then reject StatusInvalidArgument (name @ '' has an invalid stride or alignment'')
          else if count * stride > usize_max then reject StatusLimitExceeded (name @ '' byte extent overflows'')
          else if count * stride > isize_max then reject StatusLimitExceeded (name @ '' byte extent exceeds isize::MAX'')
          else Inr count)))"

text \<open>\<open>utf8\<close> returns the text and the new byte total.\<close>

definition utf8_text :: "foreign_memory \<Rightarrow> address \<Rightarrow> u64 \<Rightarrow> string \<Rightarrow> usize \<Rightarrow> (uchar list \<times> usize) parsed" where
  "utf8_text m pointer len name total_bytes =
     pbind (to_usize len (name @ '' length'')) (\<lambda>len.
       if len = 0 then reject StatusInvalidArgument (name @ '' is empty'')
       else if pointer = 0 then reject StatusNullPointer (name @ '' is null'')
       else case usize_checked_add total_bytes len of
              None \<Rightarrow> reject StatusLimitExceeded ''custom text byte total overflows''
            | Some used \<Rightarrow>
                if used > config_max_custom_text_bytes
                then reject StatusLimitExceeded ''custom text byte total exceeds one MiB''
                else pbind (read_at m pointer len) (\<lambda>bytes.
                  case utf8_decode (map unat bytes) of
                    None \<Rightarrow> reject StatusInvalidUtf8 (name @ '' is not valid UTF-8'')
                  | Some str \<Rightarrow> Inr (str, used)))"

definition decode_limits :: "limits_v1 \<Rightarrow> gen_limits parsed" where
  "decode_limits raw =
     (if lv_reserved raw \<noteq> [0, 0] then reject StatusInvalidArgument ''limits reserved fields are nonzero''
      else
        pbind (to_usize (lv_max_query_bytes raw) ''max_query_bytes'') (\<lambda>qb.
        pbind (to_usize (lv_max_query_scalars raw) ''max_query_scalars'') (\<lambda>qs.
        pbind (to_usize (lv_max_operation_source_scalars raw) ''max_operation_source_scalars'') (\<lambda>os.
        pbind (to_usize (lv_max_operation_query_scalars raw) ''max_operation_query_scalars'') (\<lambda>oq.
        pbind (to_usize (lv_max_retained_dictionary_nodes raw) ''max_retained_dictionary_nodes'') (\<lambda>dn.
        pbind (to_usize (lv_max_retained_wfst_states raw) ''max_retained_wfst_states'') (\<lambda>ws.
        pbind (to_usize (lv_max_paths_per_expansion raw) ''max_paths_per_expansion'') (\<lambda>pe.
        pbind (to_usize (lv_max_work_units_per_expansion raw) ''max_work_units_per_expansion'') (\<lambda>wu.
          if dn = 0 \<or> ws = 0
          then reject StatusInvalidArgument ''retained node and state limits must be at least one''
          else Inr \<lparr>max_query_bytes = qb, max_query_scalars = qs, max_operation_source_scalars = os,
                    max_operation_query_scalars = oq, max_retained_dictionary_nodes = dn, max_retained_wfst_states = ws,
                    max_paths_per_expansion = pe, max_work_units_per_expansion = wu\<rparr>)))))))))"

definition parse_cache_policy :: "u32 \<Rightarrow> u64 \<Rightarrow> requested_cache_policy parsed" where
  "parse_cache_policy policy capacity =
     (if policy = 0 \<and> capacity = 0 then Inr RequestCacheAll
      else if policy = 1 \<and> capacity = 0 then Inr RequestNoCache
      else if policy = 2 then pbind (to_usize capacity ''cache capacity'') (\<lambda>c. Inr (RequestLru c))
      else if policy = 0 \<or> policy = 1
      then reject StatusInvalidArgument ''non-LRU cache policy requires zero capacity''
      else reject StatusInvalidArgument ''unknown cache policy'')"

section \<open>Custom operations\<close>

text \<open>
  An operation of \<open>OperationType::with_owned_applicability\<close> with its name. The substitution set that
  \<open>allow_str\<close> fills is the set of its byte pairs, as in \<open>operation_applies\<close>.
\<close>

type_synonym named_operation = "uchar list \<times> operation"

text \<open>The running totals of the loop over the operations.\<close>

record parse_totals =
  pt_text_bytes :: usize
  pt_pairs :: usize
  pt_consumption :: usize

definition parse_totals_zero :: parse_totals where
  "parse_totals_zero = \<lparr>pt_text_bytes = 0, pt_pairs = 0, pt_consumption = 0\<rparr>"

definition parse_pair ::
    "foreign_memory \<Rightarrow> address \<Rightarrow> usize \<Rightarrow> usize \<Rightarrow> usize \<Rightarrow> usize \<Rightarrow> ((nat list \<times> nat list) \<times> usize) parsed" where
  "parse_pair m base stride cx cy text_bytes =
     pbind (record_bytes m base restriction_size ''restriction'' stride) (\<lambda>bs.
       let pair = restriction_of bs
       in if rv_reserved pair \<noteq> [0, 0] then reject StatusInvalidArgument ''restriction reserved fields are nonzero''
          else pbind (utf8_text m (rv_source_data pair) (rv_source_len pair) ''restriction source'' text_bytes) (\<lambda>(source, used).
               pbind (utf8_text m (rv_target_data pair) (rv_target_len pair) ''restriction target'' used) (\<lambda>(target, used').
                 if length source \<noteq> cx \<or> length target \<noteq> cy
                 then reject StatusInvalidArgument ''restriction scalar lengths disagree with operation arity''
                 else Inr ((utf8_bytes source, utf8_bytes target), used'))))"

text \<open>The loop \<open>for pair_index in 0..pair_count\<close>; the first list is what is left of the range.\<close>

fun parse_pairs ::
    "foreign_memory \<Rightarrow> address \<Rightarrow> usize \<Rightarrow> usize \<Rightarrow> usize \<Rightarrow> nat list \<Rightarrow> (nat list \<times> nat list) set \<Rightarrow> usize \<Rightarrow>
     ((nat list \<times> nat list) set \<times> usize) parsed" where
  "parse_pairs m restrictions stride cx cy [] set_so_far text_bytes = Inr (set_so_far, text_bytes)"
| "parse_pairs m restrictions stride cx cy (i # is) set_so_far text_bytes =
     pbind (parse_pair m (restrictions + i * stride) stride cx cy text_bytes) (\<lambda>(pair, used).
       parse_pairs m restrictions stride cx cy is (insert pair set_so_far) used)"

definition parse_applicability ::
    "foreign_memory \<Rightarrow> nat \<Rightarrow> operation_v1 \<Rightarrow> usize \<Rightarrow> usize \<Rightarrow> usize \<Rightarrow> usize \<Rightarrow> (applicability \<times> usize) parsed" where
  "parse_applicability m i op cx cy pair_count text_bytes =
     (if ov_applicability op = 0 \<and> pair_count = 0 then Inr (AnyPair, text_bytes)
      else if ov_applicability op = 1 \<and> pair_count = 0 \<and> cx = cy then Inr (EqualPair, text_bytes)
      else if ov_applicability op = 2 \<and> pair_count = 0 \<and> cx = 2 \<and> cy = 2 then Inr (AdjacentTranspose, text_bytes)
      else if ov_applicability op = 3 \<and> pair_count > 0 then
        pbind (parse_pairs m (ov_restrictions op) (unat (ov_restriction_stride op)) cx cy [0..<pair_count] {} text_bytes)
          (\<lambda>(pairs, used). Inr (ListedPairs pairs, used))
      else reject StatusInvalidArgument (''operation '' @ show_nat i @ '' has incompatible applicability/restrictions''))"

text \<open>The body of the loop over the operations: name and restrictions of an operation whose widths are checked.\<close>

definition parse_operation_text ::
    "foreign_memory \<Rightarrow> nat \<Rightarrow> operation_v1 \<Rightarrow> usize \<Rightarrow> usize \<Rightarrow> parse_totals \<Rightarrow> (named_operation \<times> parse_totals) parsed" where
  "parse_operation_text m i op cx cy t =
     pbind (utf8_text m (ov_name_data op) (ov_name_len op) ''operation name'' (pt_text_bytes t)) (\<lambda>(name, used).
       if byte_len name > 1024 \<or> 0 \<in> set (utf8_bytes name)
       then reject StatusInvalidArgument (''operation '' @ show_nat i @ '' name is too long or contains NUL'')
       else pbind (array_shape (ov_restrictions op) (ov_restriction_count op) (ov_restriction_stride op)
                     config_max_restriction_pairs restriction_size ''restrictions'') (\<lambda>pair_count.
         case usize_checked_add (pt_pairs t) pair_count of
           None \<Rightarrow> reject StatusLimitExceeded ''restriction count overflows''
         | Some pairs \<Rightarrow>
             if pairs > config_max_restriction_pairs then reject StatusLimitExceeded ''restriction count exceeds 4096''
             else pbind (parse_applicability m i op cx cy pair_count used) (\<lambda>(app, used').
               Inr ((name, \<lparr>consume_x = cx, consume_y = cy, op_weight = ov_weight op, op_applicability = app\<rparr>),
                    \<lparr>pt_text_bytes = used', pt_pairs = pairs, pt_consumption = pt_consumption t\<rparr>))))"

definition parse_operation ::
    "foreign_memory \<Rightarrow> address \<Rightarrow> usize \<Rightarrow> nat \<Rightarrow> parse_totals \<Rightarrow> (named_operation \<times> parse_totals) parsed" where
  "parse_operation m base stride i t =
     pbind (record_bytes m base operation_size ''operation'' stride) (\<lambda>bs.
       let op = operation_of bs
       in if ov_reserved_zero op \<noteq> 0 \<or> ov_reserved op \<noteq> [0, 0]
          then reject StatusInvalidArgument (''operation '' @ show_nat i @ '' has nonzero reserved fields'')
          else
            pbind (to_usize (ov_consume_x op) ''consume_x'') (\<lambda>cx.
            pbind (to_usize (ov_consume_y op) ''consume_y'') (\<lambda>cy.
              case usize_checked_add cx cy of
                None \<Rightarrow> reject StatusLimitExceeded ''operation arity overflows''
              | Some consumed \<Rightarrow>
                  (case usize_checked_add (pt_consumption t) consumed of
                     None \<Rightarrow> reject StatusLimitExceeded ''operation grammar width overflows''
                   | Some width \<Rightarrow>
                       if width > config_max_operations
                       then reject StatusLimitExceeded ''operation grammar width exceeds 4096 scalars''
                       else if consumed = 0 \<or> \<not> f64_is_finite (ov_weight op) \<or> f64_lt (ov_weight op) (F64 0)
                       then reject StatusInvalidArgument (''operation '' @ show_nat i @ '' has no progress or invalid weight'')
                       else if f64_eq (ov_weight op) (F64 0) \<and> cx \<noteq> cy
                       then reject StatusInvalidArgument (''operation '' @ show_nat i @ '' has a zero-cost length change'')
                       else parse_operation_text m i op cx cy (t\<lparr>pt_consumption := width\<rparr>)))))"

fun parse_operations ::
    "foreign_memory \<Rightarrow> address \<Rightarrow> usize \<Rightarrow> nat list \<Rightarrow> parse_totals \<Rightarrow> (named_operation list \<times> parse_totals) parsed" where
  "parse_operations m operations stride [] t = Inr ([], t)"
| "parse_operations m operations stride (i # is) t =
     pbind (parse_operation m (operations + i * stride) stride i t) (\<lambda>(op, t').
       pbind (parse_operations m operations stride is t') (\<lambda>(ops, t''). Inr (op # ops, t'')))"

section \<open>Options\<close>

record parsed_options =
  po_kind :: wfst_kind
  po_algorithm :: edit_algorithm
  po_maximum_distance :: usize
  po_cache_policy :: requested_cache_policy
  po_limits :: "gen_limits option"
  po_operations :: "named_operation list option"

definition is_generalized :: "wfst_kind \<Rightarrow> bool" where
  "is_generalized kind \<longleftrightarrow>
     kind \<in> {KindGeneralizedStandard, KindGeneralizedTransposition, KindGeneralizedMergeAndSplit, KindGeneralizedPhonetic}"

text \<open>The limits and the operations of options whose scalar fields are checked; \<open>validate\<close> is \<open>OperationSet::validate\<close>.\<close>

definition parse_limits :: "foreign_memory \<Rightarrow> address \<Rightarrow> gen_limits option parsed" where
  "parse_limits m pointer =
     (if pointer = 0 then Inr None
      else pbind (record_bytes m pointer limits_size ''limits'' config_max_record_bytes) (\<lambda>bs.
             pbind (decode_limits (limits_of bs)) (\<lambda>l. Inr (Some l))))"

definition parse_operation_set ::
    "(named_operation list \<Rightarrow> string + unit) \<Rightarrow> foreign_memory \<Rightarrow> options_v1 \<Rightarrow> named_operation list option parsed" where
  "parse_operation_set validate m raw =
     pbind (array_shape (wv_operations raw) (wv_operation_count raw) (wv_operation_stride raw)
              config_max_operations operation_size ''operations'') (\<lambda>count.
       pbind (parse_operations m (wv_operations raw) (unat (wv_operation_stride raw)) [0..<count] parse_totals_zero) (\<lambda>(ops, _).
         if count > 0 then
           (case validate ops of
              Inl e \<Rightarrow> reject StatusInvalidArgument (''invalid custom operation set: '' @ e)
            | Inr _ \<Rightarrow> Inr (Some ops))
         else Inr None))"

definition parse_options ::
    "(named_operation list \<Rightarrow> string + unit) \<Rightarrow> foreign_memory \<Rightarrow> address \<Rightarrow> parsed_options parsed" where
  "parse_options validate m pointer =
     pbind (record_bytes m pointer options_size ''options'' config_max_record_bytes) (\<lambda>bs.
       let raw = options_of bs
       in if wv_reserved_zero raw \<noteq> 0 \<or> wv_reserved raw \<noteq> [0, 0]
          then reject StatusInvalidArgument ''options reserved fields are nonzero''
          else
            pbind (parse_kind (wv_kind raw)) (\<lambda>kind.
            pbind (parse_algorithm (wv_algorithm raw)) (\<lambda>algo.
            pbind (to_usize (wv_maximum_distance raw) ''maximum distance'') (\<lambda>distance.
            pbind (parse_cache_policy (wv_cache_policy raw) (wv_cache_capacity raw)) (\<lambda>policy.
              if kind \<noteq> KindLevenshtein \<and> wv_algorithm raw \<noteq> 0
              then reject StatusInvalidArgument ''this WFST kind requires the standard algorithm sentinel''
              else if kind = KindFzf \<and> distance \<noteq> 0
              then reject StatusInvalidArgument ''FZF requires a zero maximum-distance sentinel''
              else if kind \<noteq> KindLevenshtein \<and> kind \<noteq> KindFzf \<and> distance > 255
              then reject StatusInvalidArgument ''universal/generalized maximum distance must fit u8''
              else if \<not> is_generalized kind \<and> (wv_limits raw \<noteq> 0 \<or> wv_operation_count raw \<noteq> 0)
              then reject StatusInvalidArgument ''only generalized kinds accept limits or custom operations''
              else
                pbind (parse_limits m (wv_limits raw)) (\<lambda>limits.
                pbind (parse_operation_set validate m raw) (\<lambda>operations.
                  Inr \<lparr>po_kind = kind, po_algorithm = algo, po_maximum_distance = distance,
                       po_cache_policy = policy, po_limits = limits, po_operations = operations\<rparr>)))))))"

text \<open>What construction is given; \<open>None\<close> is the panic of a zero capacity, which cannot happen.\<close>

record wfst_construction =
  wc_maximum_distance :: usize
  wc_algorithm :: edit_algorithm
  wc_kind :: wfst_kind
  wc_limits :: "gen_limits option"
  wc_operations :: "named_operation list option"
  wc_cache_policy :: shared_cache_policy

definition into_construction :: "parsed_options \<Rightarrow> wfst_construction option" where
  "into_construction p =
     map_option (\<lambda>policy. \<lparr>wc_maximum_distance = po_maximum_distance p, wc_algorithm = po_algorithm p, wc_kind = po_kind p,
         wc_limits = po_limits p, wc_operations = po_operations p, wc_cache_policy = policy\<rparr>)
       (effective (po_cache_policy p) (po_kind p))"

end
