(* ===== verification/Ffi_Parsing.thy ===== *)
theory Ffi_Parsing
  imports Ffi_Config
begin

text \<open>
  What the configuration parser accepts and what it reads. A configuration is laid out in memory when
  its records, arrays and texts are where their pointers say; the parser accepts exactly the valid
  configurations that are laid out, and returns them. It reads only what the caller promised.
\<close>

section \<open>Single reads\<close>

lemma read_at_Inr [simp]: "read_at m a n = Inr bs \<longleftrightarrow> read_bytes m a n = Some bs"
  by (auto simp: read_at_def split: option.splits)

lemma reject_Inr [simp]: "reject s e \<noteq> Inr x" "reject s e \<noteq> Inl Unreadable"
  by (simp_all add: reject_def)

lemma to_usize_eq [simp]: "to_usize v name = Inr (unat v)"
proof -
  have "unat v \<le> usize_max" using unat_less_exp [of v] by (simp add: usize_max_def)
  then show ?thesis by (simp add: to_usize_def)
qed

text \<open>A record of \<open>known\<close> bytes within \<open>available\<close>: header, and zeros in whatever the caller's version adds.\<close>

definition record_laid :: "foreign_memory \<Rightarrow> address \<Rightarrow> usize \<Rightarrow> usize \<Rightarrow> byte list \<Rightarrow> bool" where
  "record_laid m pointer known available bs \<longleftrightarrow>
     pointer \<noteq> 0 \<and> pointer mod record_align = 0 \<and> holds m pointer bs \<and> length bs = known \<and>
     u32_at bs 4 = config_record_version \<and> u64_at bs 8 = 0 \<and>
     (let size = unat (u32_at bs 0)
      in known \<le> size \<and> size \<le> config_max_record_bytes \<and> size \<le> available \<and>
         holds m (pointer + known) (replicate (size - known) 0))"

lemma u32_at_take: "off + 4 \<le> n \<Longrightarrow> u32_at (take n bs) off = u32_at bs off"
  by (simp add: u32_at_def drop_take min_def)

lemma u64_at_take: "off + 8 \<le> n \<Longrightarrow> u64_at (take n bs) off = u64_at bs off"
  by (simp add: u64_at_def drop_take min_def)

lemma zeros_iff: "(\<forall>b \<in> set bs. b = 0) \<and> length bs = n \<longleftrightarrow> bs = replicate n (0 :: byte)"
  by (auto intro: replicate_eqI)

lemma record_bytes_iff:
  assumes "16 \<le> known"
  shows "record_bytes m pointer known name available = Inr bs \<longleftrightarrow> record_laid m pointer known available bs"
proof
  assume l: "record_laid m pointer known available bs"
  then have bs: "holds m pointer bs" "length bs = known" by (simp_all add: record_laid_def)
  have header: "read_bytes m pointer 16 = Some (take 16 bs)" by (rule holds_take) (use bs assms in simp_all)
  have all: "read_bytes m pointer known = Some bs" using bs by (simp add: holds_def)
  let ?size = "unat (u32_at bs 0)"
  have tail: "read_bytes m (pointer + known) (?size - known) = Some (replicate (?size - known) 0)"
    using l by (simp add: record_laid_def holds_def Let_def)
  show "record_bytes m pointer known name available = Inr bs"
    using l all header tail
    by (simp add: record_bytes_def record_laid_def Let_def u32_at_take u64_at_take read_at_def)
next
  assume r: "record_bytes m pointer known name available = Inr bs"
  then obtain header tail where p: "pointer \<noteq> 0" "pointer mod record_align = 0"
    and header: "read_bytes m pointer 16 = Some header"
    and size: "known \<le> unat (u32_at header 0)" "unat (u32_at header 0) \<le> config_max_record_bytes" "unat (u32_at header 0) \<le> available"
    and version: "u32_at header 4 = config_record_version" "u64_at header 8 = 0"
    and tail: "(if unat (u32_at header 0) > known then read_at m (pointer + known) (unat (u32_at header 0) - known) else Inr []) = Inr tail"
    and zeros: "\<forall>b \<in> set tail. b = 0" and all: "read_bytes m pointer known = Some bs"
    by (auto simp: record_bytes_def pbind_Inr Let_def not_less split: if_splits)
  have len: "length bs = known" by (rule read_bytes_length [OF all])
  have "header = take 16 bs" using header holds_take [of m pointer bs 16] all len assms by (simp add: holds_def)
  then have h: "u32_at header 0 = u32_at bs 0" "u32_at header 4 = u32_at bs 4" "u64_at header 8 = u64_at bs 8"
    by (simp_all add: u32_at_take u64_at_take)
  have "read_bytes m (pointer + known) (unat (u32_at bs 0) - known) = Some tail"
    using tail by (auto simp: h read_bytes_def split: if_splits)
  moreover from this have "tail = replicate (unat (u32_at bs 0) - known) 0"
    using zeros zeros_iff read_bytes_length by blast
  ultimately show "record_laid m pointer known available bs"
    using p size version all len by (simp add: record_laid_def holds_def Let_def h)
qed

text \<open>An array of at most \<open>maximum\<close> records; the empty one has neither pointer nor stride.\<close>

definition array_laid :: "address \<Rightarrow> u64 \<Rightarrow> u64 \<Rightarrow> usize \<Rightarrow> usize \<Rightarrow> usize \<Rightarrow> bool" where
  "array_laid pointer count stride maximum element n \<longleftrightarrow> unat count = n \<and> n \<le> maximum \<and>
     (if n = 0 then pointer = 0 \<and> stride = 0
      else pointer \<noteq> 0 \<and> pointer mod record_align = 0 \<and> unat stride mod record_align = 0 \<and>
           element \<le> unat stride \<and> unat stride \<le> config_max_record_bytes)"

lemma array_shape_iff:
  assumes "maximum \<le> 4096"
  shows "array_shape pointer count stride maximum element name = Inr n \<longleftrightarrow> array_laid pointer count stride maximum element n"
proof -
  have small: "unat count * unat stride \<le> isize_max \<and> unat count * unat stride \<le> usize_max"
    if "unat count \<le> maximum" "unat stride \<le> config_max_record_bytes"
  proof -
    have "unat count * unat stride \<le> 4096 * 4096"
      by (rule mult_le_mono) (use that assms in \<open>simp_all add: config_max_record_bytes_def\<close>)
    then show ?thesis by (simp add: isize_max_def usize_max_def)
  qed
  have zero: "unat count = 0 \<longleftrightarrow> count = 0" by (simp add: unat_eq_0)
  show ?thesis
    using small zero by (auto simp: array_shape_def array_laid_def not_less not_le split: if_splits)
qed

text \<open>A text: its encoding is where the pointer says, and it is not empty.\<close>

definition text_laid :: "foreign_memory \<Rightarrow> address \<Rightarrow> u64 \<Rightarrow> uchar list \<Rightarrow> bool" where
  "text_laid m pointer len cs \<longleftrightarrow> pointer \<noteq> 0 \<and> cs \<noteq> [] \<and> (\<forall>c \<in> set cs. is_scalar c) \<and>
     (\<exists>bs. holds m pointer bs \<and> map unat bs = utf8_bytes cs \<and> length bs = unat len)"

lemma utf8_bytes_empty: "utf8_bytes cs = [] \<longleftrightarrow> cs = []"
  by (cases cs) (auto simp: utf8_bytes_def utf8_encode_def split: if_splits)

lemma utf8_text_iff:
  assumes "total_bytes \<le> config_max_custom_text_bytes"
  shows "utf8_text m pointer len name total_bytes = Inr (cs, used) \<longleftrightarrow>
    text_laid m pointer len cs \<and> used = total_bytes + byte_len cs \<and> used \<le> config_max_custom_text_bytes"
proof
  assume "utf8_text m pointer len name total_bytes = Inr (cs, used)"
  then obtain bs where r: "unat len \<noteq> 0" "pointer \<noteq> 0" "usize_checked_add total_bytes (unat len) = Some used"
    "used \<le> config_max_custom_text_bytes" "read_bytes m pointer (unat len) = Some bs" "utf8_decode (map unat bs) = Some cs"
    by (auto simp: utf8_text_def pbind_Inr not_less split: if_splits option.splits)
  have len: "length bs = unat len" by (rule read_bytes_length [OF r(5)])
  have cs: "utf8_bytes cs = map unat bs" "\<forall>c \<in> set cs. is_scalar c" using utf8_decode_sound [OF r(6)] by simp_all
  have "byte_len cs = unat len" using cs(1) len by (simp add: byte_len_def)
  moreover have "used = total_bytes + unat len" using r(3) by (auto simp: usize_checked_add_def split: if_splits)
  moreover have "cs \<noteq> []" using cs(1) len r(1) utf8_bytes_empty [of cs] by auto
  ultimately show "text_laid m pointer len cs \<and> used = total_bytes + byte_len cs \<and> used \<le> config_max_custom_text_bytes"
    using r cs len by (auto simp: text_laid_def holds_def)
next
  assume l: "text_laid m pointer len cs \<and> used = total_bytes + byte_len cs \<and> used \<le> config_max_custom_text_bytes"
  then obtain bs where bs: "holds m pointer bs" "map unat bs = utf8_bytes cs" "length bs = unat len"
    and cs: "pointer \<noteq> 0" "cs \<noteq> []" "\<forall>c \<in> set cs. is_scalar c" by (auto simp: text_laid_def)
  have len: "byte_len cs = unat len" using bs(2,3) by (metis byte_len_def length_map)
  have "unat len \<noteq> 0" using len cs(2) utf8_bytes_empty [of cs] by (metis byte_len_def length_0_conv)
  moreover have "usize_checked_add total_bytes (unat len) = Some used"
    using l len by (simp add: usize_checked_add_def usize_max_def config_max_custom_text_bytes_def)
  moreover have "read_bytes m pointer (unat len) = Some bs" using bs by (simp add: holds_def)
  moreover have "utf8_decode (map unat bs) = Some cs" using bs(2) utf8_decode_encode [OF cs(3)] by simp
  ultimately show "utf8_text m pointer len name total_bytes = Inr (cs, used)"
    using l cs(1) by (auto simp: utf8_text_def read_at_def unat_eq_0)
qed

section \<open>Restrictions and operations\<close>

definition pair_laid :: "foreign_memory \<Rightarrow> address \<Rightarrow> usize \<Rightarrow> uchar list \<times> uchar list \<Rightarrow> bool" where
  "pair_laid m base stride p \<longleftrightarrow>
     (\<exists>bs. record_laid m base restriction_size stride bs \<and> rv_reserved (restriction_of bs) = [0, 0] \<and>
        text_laid m (rv_source_data (restriction_of bs)) (rv_source_len (restriction_of bs)) (fst p) \<and>
        text_laid m (rv_target_data (restriction_of bs)) (rv_target_len (restriction_of bs)) (snd p))"

definition pair_bytes :: "uchar list \<times> uchar list \<Rightarrow> nat list \<times> nat list" where
  "pair_bytes p = (utf8_bytes (fst p), utf8_bytes (snd p))"

definition pair_size :: "uchar list \<times> uchar list \<Rightarrow> usize" where
  "pair_size p = byte_len (fst p) + byte_len (snd p)"

lemma parse_pair_iff:
  assumes "text_bytes \<le> config_max_custom_text_bytes"
  shows "parse_pair m base stride cx cy text_bytes = Inr (pb, used) \<longleftrightarrow>
    (\<exists>p. pair_laid m base stride p \<and> length (fst p) = cx \<and> length (snd p) = cy \<and> pb = pair_bytes p \<and>
       used = text_bytes + pair_size p \<and> used \<le> config_max_custom_text_bytes)"
proof
  assume "parse_pair m base stride cx cy text_bytes = Inr (pb, used)"
  then obtain bs s t mid where bs: "record_laid m base restriction_size stride bs" "rv_reserved (restriction_of bs) = [0, 0]"
    and s: "utf8_text m (rv_source_data (restriction_of bs)) (rv_source_len (restriction_of bs)) ''restriction source'' text_bytes = Inr (s, mid)"
    and t: "utf8_text m (rv_target_data (restriction_of bs)) (rv_target_len (restriction_of bs)) ''restriction target'' mid = Inr (t, used)"
    and len: "length s = cx" "length t = cy" "pb = (utf8_bytes s, utf8_bytes t)"
    by (auto simp: parse_pair_def pbind_Inr Let_def record_bytes_iff restriction_size_def split: if_splits)
  note s' = s [unfolded utf8_text_iff [OF assms]]
  then have "mid \<le> config_max_custom_text_bytes" by simp
  note t' = t [unfolded utf8_text_iff [OF this]]
  show "\<exists>p. pair_laid m base stride p \<and> length (fst p) = cx \<and> length (snd p) = cy \<and> pb = pair_bytes p \<and>
       used = text_bytes + pair_size p \<and> used \<le> config_max_custom_text_bytes"
    using bs s' t' len by (intro exI [of _ "(s, t)"]) (auto simp: pair_laid_def pair_bytes_def pair_size_def)
next
  assume "\<exists>p. pair_laid m base stride p \<and> length (fst p) = cx \<and> length (snd p) = cy \<and> pb = pair_bytes p \<and>
       used = text_bytes + pair_size p \<and> used \<le> config_max_custom_text_bytes"
  then obtain s t bs where bs: "record_laid m base restriction_size stride bs" "rv_reserved (restriction_of bs) = [0, 0]"
    and laid: "text_laid m (rv_source_data (restriction_of bs)) (rv_source_len (restriction_of bs)) s"
      "text_laid m (rv_target_data (restriction_of bs)) (rv_target_len (restriction_of bs)) t"
    and len: "length s = cx" "length t = cy" "pb = (utf8_bytes s, utf8_bytes t)"
    and used: "used = text_bytes + byte_len s + byte_len t" "used \<le> config_max_custom_text_bytes"
    by (auto simp: pair_laid_def pair_bytes_def pair_size_def)
  have mid: "text_bytes + byte_len s \<le> config_max_custom_text_bytes" using used by simp
  have "record_bytes m base restriction_size ''restriction'' stride = Inr bs"
    using bs(1) by (simp add: record_bytes_iff restriction_size_def)
  moreover have "utf8_text m (rv_source_data (restriction_of bs)) (rv_source_len (restriction_of bs)) ''restriction source'' text_bytes
      = Inr (s, text_bytes + byte_len s)"
    unfolding utf8_text_iff [OF assms] using laid(1) mid by simp
  moreover have "utf8_text m (rv_target_data (restriction_of bs)) (rv_target_len (restriction_of bs)) ''restriction target'' (text_bytes + byte_len s)
      = Inr (t, used)"
    unfolding utf8_text_iff [OF mid] using laid(2) used by simp
  ultimately show "parse_pair m base stride cx cy text_bytes = Inr (pb, used)"
    using bs(2) len by (simp add: parse_pair_def Let_def)
qed

definition pairs_size :: "(uchar list \<times> uchar list) list \<Rightarrow> usize" where
  "pairs_size ps = sum_list (map pair_size ps)"

lemma parse_pairs_iff:
  "text_bytes \<le> config_max_custom_text_bytes \<Longrightarrow>
   parse_pairs m a stride cx cy is S text_bytes = Inr (S', used) \<longleftrightarrow>
     (\<exists>ps. list_all2 (\<lambda>i. pair_laid m (a + i * stride) stride) is ps \<and> (\<forall>p \<in> set ps. length (fst p) = cx \<and> length (snd p) = cy) \<and>
        S' = S \<union> pair_bytes ` set ps \<and> used = text_bytes + pairs_size ps \<and> used \<le> config_max_custom_text_bytes)"
proof (induction "is" arbitrary: S text_bytes)
  case Nil
  then show ?case by (auto simp: pairs_size_def)
next
  case (Cons i js)
  show ?case
  proof
    assume "parse_pairs m a stride cx cy (i # js) S text_bytes = Inr (S', used)"
    then obtain pb mid where one: "parse_pair m (a + i * stride) stride cx cy text_bytes = Inr (pb, mid)"
      and rest: "parse_pairs m a stride cx cy js (insert pb S) mid = Inr (S', used)"
      by (auto simp: pbind_Inr)
    obtain p where p: "pair_laid m (a + i * stride) stride p" "length (fst p) = cx" "length (snd p) = cy" "pb = pair_bytes p"
      "mid = text_bytes + pair_size p" "mid \<le> config_max_custom_text_bytes"
      using one unfolding parse_pair_iff [OF Cons.prems] by blast
    obtain ps where ps: "list_all2 (\<lambda>i. pair_laid m (a + i * stride) stride) js ps" "\<forall>p \<in> set ps. length (fst p) = cx \<and> length (snd p) = cy"
      "S' = insert pb S \<union> pair_bytes ` set ps" "used = mid + pairs_size ps" "used \<le> config_max_custom_text_bytes"
      using rest unfolding Cons.IH [OF p(6)] by blast
    show "\<exists>ps. list_all2 (\<lambda>i. pair_laid m (a + i * stride) stride) (i # js) ps \<and> (\<forall>p \<in> set ps. length (fst p) = cx \<and> length (snd p) = cy) \<and>
        S' = S \<union> pair_bytes ` set ps \<and> used = text_bytes + pairs_size ps \<and> used \<le> config_max_custom_text_bytes"
      by (rule exI [of _ "p # ps"]) (use p ps in \<open>simp add: pairs_size_def\<close>)
  next
    assume "\<exists>ps. list_all2 (\<lambda>i. pair_laid m (a + i * stride) stride) (i # js) ps \<and> (\<forall>p \<in> set ps. length (fst p) = cx \<and> length (snd p) = cy) \<and>
        S' = S \<union> pair_bytes ` set ps \<and> used = text_bytes + pairs_size ps \<and> used \<le> config_max_custom_text_bytes"
    then obtain p ps where p: "pair_laid m (a + i * stride) stride p" "length (fst p) = cx" "length (snd p) = cy"
      and ps: "list_all2 (\<lambda>i. pair_laid m (a + i * stride) stride) js ps" "\<forall>p \<in> set ps. length (fst p) = cx \<and> length (snd p) = cy"
        "S' = insert (pair_bytes p) S \<union> pair_bytes ` set ps" "used = text_bytes + pair_size p + pairs_size ps" "used \<le> config_max_custom_text_bytes"
      by (auto simp: list_all2_Cons1 pairs_size_def)
    have mid: "text_bytes + pair_size p \<le> config_max_custom_text_bytes" using ps(4,5) by simp
    have "parse_pair m (a + i * stride) stride cx cy text_bytes = Inr (pair_bytes p, text_bytes + pair_size p)"
      unfolding parse_pair_iff [OF Cons.prems] using p mid by blast
    moreover have "parse_pairs m a stride cx cy js (insert (pair_bytes p) S) (text_bytes + pair_size p) = Inr (S', used)"
      unfolding Cons.IH [OF mid] using ps by blast
    ultimately show "parse_pairs m a stride cx cy (i # js) S text_bytes = Inr (S', used)" by simp
  qed
qed

text \<open>An operation as the caller means it.\<close>

record config_operation =
  co_name :: "uchar list"
  co_x :: usize
  co_y :: usize
  co_weight :: f64
  co_code :: u32
  co_pairs :: "(uchar list \<times> uchar list) list"

definition applicability_laid :: "config_operation \<Rightarrow> bool" where
  "applicability_laid c \<longleftrightarrow>
     co_code c = 0 \<and> co_pairs c = [] \<or>
     co_code c = 1 \<and> co_pairs c = [] \<and> co_x c = co_y c \<or>
     co_code c = 2 \<and> co_pairs c = [] \<and> co_x c = 2 \<and> co_y c = 2 \<or>
     co_code c = 3 \<and> co_pairs c \<noteq> [] \<and> (\<forall>p \<in> set (co_pairs c). length (fst p) = co_x c \<and> length (snd p) = co_y c)"

definition valid_operation :: "config_operation \<Rightarrow> bool" where
  "valid_operation c \<longleftrightarrow> 0 < co_x c + co_y c \<and> f64_is_finite (co_weight c) \<and> \<not> f64_lt (co_weight c) (F64 0) \<and>
     (co_weight c = F64 0 \<longrightarrow> co_x c = co_y c) \<and> byte_len (co_name c) \<le> 1024 \<and> 0 \<notin> set (utf8_bytes (co_name c)) \<and>
     applicability_laid c"

definition config_applicability :: "config_operation \<Rightarrow> applicability" where
  "config_applicability c =
     (if co_code c = 0 then AnyPair else if co_code c = 1 then EqualPair else if co_code c = 2 then AdjacentTranspose
      else ListedPairs (pair_bytes ` set (co_pairs c)))"

definition named_operation_of :: "config_operation \<Rightarrow> named_operation" where
  "named_operation_of c =
     (co_name c, \<lparr>consume_x = co_x c, consume_y = co_y c, op_weight = co_weight c, op_applicability = config_applicability c\<rparr>)"

definition operation_laid :: "foreign_memory \<Rightarrow> address \<Rightarrow> usize \<Rightarrow> config_operation \<Rightarrow> bool" where
  "operation_laid m base stride c \<longleftrightarrow>
     (\<exists>bs op. record_laid m base operation_size stride bs \<and> op = operation_of bs \<and>
        ov_reserved_zero op = 0 \<and> ov_reserved op = [0, 0] \<and>
        unat (ov_consume_x op) = co_x c \<and> unat (ov_consume_y op) = co_y c \<and> ov_weight op = co_weight c \<and>
        ov_applicability op = co_code c \<and> text_laid m (ov_name_data op) (ov_name_len op) (co_name c) \<and>
        array_laid (ov_restrictions op) (ov_restriction_count op) (ov_restriction_stride op) config_max_restriction_pairs
          restriction_size (length (co_pairs c)) \<and>
        list_all2 (\<lambda>i. pair_laid m (ov_restrictions op + i * unat (ov_restriction_stride op)) (unat (ov_restriction_stride op)))
          [0..<length (co_pairs c)] (co_pairs c))"

text \<open>The totals of a configuration, and their bounds.\<close>

definition totals_ok :: "parse_totals \<Rightarrow> bool" where
  "totals_ok t \<longleftrightarrow> pt_text_bytes t \<le> config_max_custom_text_bytes \<and> pt_pairs t \<le> config_max_restriction_pairs \<and>
     pt_consumption t \<le> config_max_operations"

definition add_totals :: "parse_totals \<Rightarrow> config_operation \<Rightarrow> parse_totals" where
  "add_totals t c =
     \<lparr>pt_text_bytes = pt_text_bytes t + byte_len (co_name c) + pairs_size (co_pairs c),
      pt_pairs = pt_pairs t + length (co_pairs c), pt_consumption = pt_consumption t + co_x c + co_y c\<rparr>"

lemma parse_applicability_iff:
  assumes "pt_text_bytes t + byte_len (co_name c) = text_bytes" and "text_bytes \<le> config_max_custom_text_bytes"
    and "ov_applicability op = co_code c" and "co_x c = cx" and "co_y c = cy" and "length (co_pairs c) = n"
    and "list_all2 (\<lambda>i. pair_laid m (ov_restrictions op + i * unat (ov_restriction_stride op)) (unat (ov_restriction_stride op)))
          [0..<n] (co_pairs c)"
    and "applicability_laid c" and "text_bytes + pairs_size (co_pairs c) \<le> config_max_custom_text_bytes"
  shows "parse_applicability m i op cx cy n text_bytes = Inr (config_applicability c, text_bytes + pairs_size (co_pairs c))"
proof (cases "co_code c = 3")
  case True
  then have n: "0 < n" and widths: "\<forall>p \<in> set (co_pairs c). length (fst p) = cx \<and> length (snd p) = cy"
    using assms(4-6,8) by (auto simp: applicability_laid_def)
  have "parse_pairs m (ov_restrictions op) (unat (ov_restriction_stride op)) cx cy [0..<n] {} text_bytes
      = Inr (pair_bytes ` set (co_pairs c), text_bytes + pairs_size (co_pairs c))"
    unfolding parse_pairs_iff [OF assms(2)] using assms(7,9) widths by (intro exI [of _ "co_pairs c"]) simp
  then show ?thesis using True n assms(3) by (simp add: parse_applicability_def config_applicability_def)
next
  case False
  then have "co_pairs c = []" and "co_code c \<in> {0, 1, 2}" and "co_code c = 1 \<Longrightarrow> cx = cy" and "co_code c = 2 \<Longrightarrow> cx = 2 \<and> cy = 2"
    using assms(4,5,8) by (auto simp: applicability_laid_def)
  then show ?thesis using assms(3,6)
    by (auto simp: parse_applicability_def config_applicability_def pairs_size_def)
qed

lemma parse_applicability_sound:
  assumes "text_bytes \<le> config_max_custom_text_bytes"
    and "parse_applicability m i op cx cy n text_bytes = Inr (app, used)"
  obtains ps where "length ps = n" and "used = text_bytes + pairs_size ps" and "used \<le> config_max_custom_text_bytes"
    and "list_all2 (\<lambda>i. pair_laid m (ov_restrictions op + i * unat (ov_restriction_stride op)) (unat (ov_restriction_stride op))) [0..<n] ps"
    and "\<And>name w. applicability_laid \<lparr>co_name = name, co_x = cx, co_y = cy, co_weight = w, co_code = ov_applicability op, co_pairs = ps\<rparr>"
    and "\<And>name w. app = config_applicability \<lparr>co_name = name, co_x = cx, co_y = cy, co_weight = w, co_code = ov_applicability op, co_pairs = ps\<rparr>"
proof (cases "n = 0")
  case True
  show ?thesis
    by (rule that [of "[]"])
      (use True assms in \<open>auto simp: parse_applicability_def pairs_size_def applicability_laid_def config_applicability_def split: if_splits\<close>)
next
  case False
  then have code: "ov_applicability op = 3" using assms(2) by (auto simp: parse_applicability_def split: if_splits)
  then obtain S where S: "parse_pairs m (ov_restrictions op) (unat (ov_restriction_stride op)) cx cy [0..<n] {} text_bytes = Inr (S, used)"
    "app = ListedPairs S" using assms(2) False by (auto simp: parse_applicability_def pbind_Inr)
  obtain ps where ps: "list_all2 (\<lambda>i. pair_laid m (ov_restrictions op + i * unat (ov_restriction_stride op)) (unat (ov_restriction_stride op))) [0..<n] ps"
    "\<forall>p \<in> set ps. length (fst p) = cx \<and> length (snd p) = cy" "S = {} \<union> pair_bytes ` set ps"
    "used = text_bytes + pairs_size ps" "used \<le> config_max_custom_text_bytes"
    using S(1) unfolding parse_pairs_iff [OF assms(1)] by blast
  have len: "length ps = n" using list_all2_lengthD [OF ps(1)] by simp
  then have "ps \<noteq> []" using False by auto
  then show ?thesis
    using that [OF len ps(4,5,1)] ps(2,3) code S(2) by (simp add: applicability_laid_def config_applicability_def)
qed

lemma parse_operation_complete:
  assumes laid: "operation_laid m base stride c" and valid: "valid_operation c"
    and totals: "totals_ok (add_totals t c)"
  shows "parse_operation m base stride i t = Inr (named_operation_of c, add_totals t c)"
proof -
  obtain bs op where rec: "record_laid m base operation_size stride bs" and op: "op = operation_of bs"
    "ov_reserved_zero op = 0" "ov_reserved op = [0, 0]" "unat (ov_consume_x op) = co_x c" "unat (ov_consume_y op) = co_y c"
    "ov_weight op = co_weight c" "ov_applicability op = co_code c"
    and name: "text_laid m (ov_name_data op) (ov_name_len op) (co_name c)"
    and arr: "array_laid (ov_restrictions op) (ov_restriction_count op) (ov_restriction_stride op) config_max_restriction_pairs
          restriction_size (length (co_pairs c))"
    and pairs: "list_all2 (\<lambda>i. pair_laid m (ov_restrictions op + i * unat (ov_restriction_stride op)) (unat (ov_restriction_stride op)))
          [0..<length (co_pairs c)] (co_pairs c)"
    using laid unfolding operation_laid_def by blast
  have small: "pt_text_bytes t + byte_len (co_name c) + pairs_size (co_pairs c) \<le> 1048576"
    "pt_pairs t + length (co_pairs c) \<le> 4096" "pt_consumption t + co_x c + co_y c \<le> 4096"
    using totals by (simp_all add: totals_ok_def add_totals_def config_max_custom_text_bytes_def config_max_restriction_pairs_def config_max_operations_def)
  have total0: "pt_text_bytes t \<le> config_max_custom_text_bytes"
    and total1: "pt_text_bytes t + byte_len (co_name c) \<le> config_max_custom_text_bytes"
    and total2: "pt_text_bytes t + byte_len (co_name c) + pairs_size (co_pairs c) \<le> config_max_custom_text_bytes"
    using small(1) by (simp_all add: config_max_custom_text_bytes_def)
  have "record_bytes m base operation_size ''operation'' stride = Inr bs"
    using rec by (simp add: record_bytes_iff operation_size_def)
  moreover have text1: "utf8_text m (ov_name_data op) (ov_name_len op) ''operation name'' (pt_text_bytes t)
      = Inr (co_name c, pt_text_bytes t + byte_len (co_name c))"
    unfolding utf8_text_iff [OF total0] using name total1 by simp
  moreover have shape: "array_shape (ov_restrictions op) (ov_restriction_count op) (ov_restriction_stride op)
      config_max_restriction_pairs restriction_size ''restrictions'' = Inr (length (co_pairs c))"
    using arr by (subst array_shape_iff) (simp_all add: config_max_restriction_pairs_def)
  moreover have app: "parse_applicability m i op (co_x c) (co_y c) (length (co_pairs c)) (pt_text_bytes t + byte_len (co_name c))
      = Inr (config_applicability c, pt_text_bytes t + byte_len (co_name c) + pairs_size (co_pairs c))"
    by (rule parse_applicability_iff [OF refl total1 op(7) refl refl refl pairs _ total2]) (use valid in \<open>simp add: valid_operation_def\<close>)
  moreover have adds: "usize_checked_add (co_x c) (co_y c) = Some (co_x c + co_y c)"
    "usize_checked_add (pt_consumption t) (co_x c + co_y c) = Some (pt_consumption t + co_x c + co_y c)"
    "usize_checked_add (pt_pairs t) (length (co_pairs c)) = Some (pt_pairs t + length (co_pairs c))"
    using small by (simp_all add: usize_checked_add_def usize_max_def)
  moreover have text2: "parse_operation_text m i op (co_x c) (co_y c) (t\<lparr>pt_consumption := pt_consumption t + co_x c + co_y c\<rparr>)
      = Inr (named_operation_of c, add_totals t c)"
    using text1 shape app adds(3) valid small(2) op(6)
    by (simp add: parse_operation_text_def valid_operation_def named_operation_of_def add_totals_def not_less config_max_restriction_pairs_def)
  ultimately show ?thesis
    using op small(3) valid
    by (auto simp: parse_operation_def Let_def valid_operation_def f64_eq_def config_max_operations_def)
qed

lemma parse_operation_text_sound:
  assumes total0: "pt_text_bytes t \<le> config_max_custom_text_bytes"
    and text1: "parse_operation_text m i op cx cy t = Inr (nop, t')"
  obtains name ps where "text_laid m (ov_name_data op) (ov_name_len op) name" and "byte_len name \<le> 1024" and "0 \<notin> set (utf8_bytes name)"
    and "array_laid (ov_restrictions op) (ov_restriction_count op) (ov_restriction_stride op) config_max_restriction_pairs
          restriction_size (length ps)"
    and "list_all2 (\<lambda>i. pair_laid m (ov_restrictions op + i * unat (ov_restriction_stride op)) (unat (ov_restriction_stride op)))
          [0..<length ps] ps"
    and "applicability_laid \<lparr>co_name = name, co_x = cx, co_y = cy, co_weight = ov_weight op, co_code = ov_applicability op, co_pairs = ps\<rparr>"
    and "nop = named_operation_of \<lparr>co_name = name, co_x = cx, co_y = cy, co_weight = ov_weight op, co_code = ov_applicability op, co_pairs = ps\<rparr>"
    and "t' = \<lparr>pt_text_bytes = pt_text_bytes t + byte_len name + pairs_size ps, pt_pairs = pt_pairs t + length ps,
               pt_consumption = pt_consumption t\<rparr>"
    and "pt_text_bytes t' \<le> config_max_custom_text_bytes" and "pt_pairs t' \<le> config_max_restriction_pairs"
proof -
  obtain name used n pairs app used' where name: "utf8_text m (ov_name_data op) (ov_name_len op) ''operation name'' (pt_text_bytes t) = Inr (name, used)"
    and ok: "byte_len name \<le> 1024" "0 \<notin> set (utf8_bytes name)"
    and shape: "array_shape (ov_restrictions op) (ov_restriction_count op) (ov_restriction_stride op)
      config_max_restriction_pairs restriction_size ''restrictions'' = Inr n"
    and pairs: "usize_checked_add (pt_pairs t) n = Some pairs" "pairs \<le> config_max_restriction_pairs"
    and app: "parse_applicability m i op cx cy n used = Inr (app, used')"
    and r: "nop = (name, \<lparr>consume_x = cx, consume_y = cy, op_weight = ov_weight op, op_applicability = app\<rparr>)"
      "t' = \<lparr>pt_text_bytes = used', pt_pairs = pairs, pt_consumption = pt_consumption t\<rparr>"
    using text1 by (auto simp: parse_operation_text_def pbind_Inr not_less split: if_splits option.splits)
  note name' = name [unfolded utf8_text_iff [OF total0]]
  then have used: "used \<le> config_max_custom_text_bytes" by simp
  obtain ps where ps: "length ps = n" "used' = used + pairs_size ps" "used' \<le> config_max_custom_text_bytes"
    "list_all2 (\<lambda>i. pair_laid m (ov_restrictions op + i * unat (ov_restriction_stride op)) (unat (ov_restriction_stride op))) [0..<n] ps"
    "\<And>name w. applicability_laid \<lparr>co_name = name, co_x = cx, co_y = cy, co_weight = w, co_code = ov_applicability op, co_pairs = ps\<rparr>"
    "\<And>name w. app = config_applicability \<lparr>co_name = name, co_x = cx, co_y = cy, co_weight = w, co_code = ov_applicability op, co_pairs = ps\<rparr>"
    by (rule parse_applicability_sound [OF used app]) (rule that)
  have arr: "array_laid (ov_restrictions op) (ov_restriction_count op) (ov_restriction_stride op) config_max_restriction_pairs restriction_size n"
    using shape by (subst (asm) array_shape_iff) (simp_all add: config_max_restriction_pairs_def)
  have sum: "pairs = pt_pairs t + n" using pairs(1) by (auto simp: usize_checked_add_def split: if_splits)
  show ?thesis
    by (rule that [of name ps])
      (use name' ok arr ps r pairs(2) sum in \<open>simp_all add: named_operation_of_def\<close>)
qed

lemma parse_operation_sound:
  assumes "totals_ok t" and "parse_operation m base stride i t = Inr (nop, t')"
  obtains c where "operation_laid m base stride c" and "valid_operation c" and "nop = named_operation_of c"
    and "t' = add_totals t c" and "totals_ok t'"
proof -
  obtain bs op cx cy consumed width where rec: "record_laid m base operation_size stride bs"
    and op: "op = operation_of bs" "ov_reserved_zero op = 0" "ov_reserved op = [0, 0]" "unat (ov_consume_x op) = cx" "unat (ov_consume_y op) = cy"
    and sums: "usize_checked_add cx cy = Some consumed" "usize_checked_add (pt_consumption t) consumed = Some width"
    and ok: "width \<le> config_max_operations" "consumed \<noteq> 0" "f64_is_finite (ov_weight op)" "\<not> f64_lt (ov_weight op) (F64 0)"
      "f64_eq (ov_weight op) (F64 0) \<longrightarrow> cx = cy"
    and text1: "parse_operation_text m i op cx cy (t\<lparr>pt_consumption := width\<rparr>) = Inr (nop, t')"
    using assms(2)
    by (auto simp: parse_operation_def pbind_Inr Let_def record_bytes_iff operation_size_def not_less split: if_splits option.splits)
  have sum: "consumed = cx + cy" "width = pt_consumption t + cx + cy"
    using sums by (auto simp: usize_checked_add_def split: if_splits)
  have total0: "pt_text_bytes (t\<lparr>pt_consumption := width\<rparr>) \<le> config_max_custom_text_bytes" using assms(1) by (simp add: totals_ok_def)
  show ?thesis
  proof (rule parse_operation_text_sound [OF total0 text1])
    fix name ps
    let ?c = "\<lparr>co_name = name, co_x = cx, co_y = cy, co_weight = ov_weight op, co_code = ov_applicability op, co_pairs = ps\<rparr>"
    assume a: "text_laid m (ov_name_data op) (ov_name_len op) name" "byte_len name \<le> 1024" "0 \<notin> set (utf8_bytes name)"
      "array_laid (ov_restrictions op) (ov_restriction_count op) (ov_restriction_stride op) config_max_restriction_pairs restriction_size (length ps)"
      "list_all2 (\<lambda>i. pair_laid m (ov_restrictions op + i * unat (ov_restriction_stride op)) (unat (ov_restriction_stride op))) [0..<length ps] ps"
      "applicability_laid ?c" "nop = named_operation_of ?c"
      "t' = \<lparr>pt_text_bytes = pt_text_bytes (t\<lparr>pt_consumption := width\<rparr>) + byte_len name + pairs_size ps,
             pt_pairs = pt_pairs (t\<lparr>pt_consumption := width\<rparr>) + length ps, pt_consumption = pt_consumption (t\<lparr>pt_consumption := width\<rparr>)\<rparr>"
      "pt_text_bytes t' \<le> config_max_custom_text_bytes" "pt_pairs t' \<le> config_max_restriction_pairs"
    have laid: "operation_laid m base stride ?c" unfolding operation_laid_def using rec op a(1,4,5) by auto
    have valid: "valid_operation ?c" using ok a(2,3,6) sum by (simp add: valid_operation_def f64_eq_def)
    have "t' = add_totals t ?c" using a(8) sum by (simp add: add_totals_def)
    moreover have "totals_ok t'" using a(8-10) ok(1) by (simp add: totals_ok_def)
    ultimately show ?thesis using that laid valid a(7) by blast
  qed
qed

definition totals_of :: "parse_totals \<Rightarrow> config_operation list \<Rightarrow> parse_totals" where
  "totals_of t cs = foldl add_totals t cs"

lemma totals_of_simps [simp]: "totals_of t [] = t" "totals_of t (c # cs) = totals_of (add_totals t c) cs"
  by (simp_all add: totals_of_def)

lemma totals_of_mono: "totals_ok (totals_of t cs) \<Longrightarrow> totals_ok t"
proof (induction cs arbitrary: t)
  case (Cons c cs)
  then have "totals_ok (add_totals t c)" by simp
  then show ?case by (simp add: totals_ok_def add_totals_def)
qed simp

lemma parse_operations_iff:
  "totals_ok t \<Longrightarrow>
   parse_operations m a stride is t = Inr (ops, t') \<longleftrightarrow>
     (\<exists>cs. list_all2 (\<lambda>i. operation_laid m (a + i * stride) stride) is cs \<and> (\<forall>c \<in> set cs. valid_operation c) \<and>
        ops = map named_operation_of cs \<and> t' = totals_of t cs \<and> totals_ok t')"
proof (induction "is" arbitrary: t ops)
  case Nil
  then show ?case by auto
next
  case (Cons i js)
  show ?case
  proof
    assume "parse_operations m a stride (i # js) t = Inr (ops, t')"
    then obtain nop t1 rest where one: "parse_operation m (a + i * stride) stride i t = Inr (nop, t1)"
      and rest: "parse_operations m a stride js t1 = Inr (rest, t')" "ops = nop # rest"
      by (auto simp: pbind_Inr)
    obtain c where c: "operation_laid m (a + i * stride) stride c" "valid_operation c" "nop = named_operation_of c"
      "t1 = add_totals t c" "totals_ok t1" by (rule parse_operation_sound [OF Cons.prems one])
    obtain cs where cs: "list_all2 (\<lambda>i. operation_laid m (a + i * stride) stride) js cs" "\<forall>c \<in> set cs. valid_operation c"
      "rest = map named_operation_of cs" "t' = totals_of t1 cs" "totals_ok t'"
      using rest(1) unfolding Cons.IH [OF c(5)] by blast
    show "\<exists>cs. list_all2 (\<lambda>i. operation_laid m (a + i * stride) stride) (i # js) cs \<and> (\<forall>c \<in> set cs. valid_operation c) \<and>
        ops = map named_operation_of cs \<and> t' = totals_of t cs \<and> totals_ok t'"
      by (rule exI [of _ "c # cs"]) (use c cs rest(2) in simp)
  next
    assume "\<exists>cs. list_all2 (\<lambda>i. operation_laid m (a + i * stride) stride) (i # js) cs \<and> (\<forall>c \<in> set cs. valid_operation c) \<and>
        ops = map named_operation_of cs \<and> t' = totals_of t cs \<and> totals_ok t'"
    then obtain c cs where c: "operation_laid m (a + i * stride) stride c" "valid_operation c"
      and cs: "list_all2 (\<lambda>i. operation_laid m (a + i * stride) stride) js cs" "\<forall>c \<in> set cs. valid_operation c"
        "ops = named_operation_of c # map named_operation_of cs" "t' = totals_of (add_totals t c) cs" "totals_ok t'"
      by (auto simp: list_all2_Cons1)
    have ok: "totals_ok (add_totals t c)" using totals_of_mono cs(4,5) by blast
    have "parse_operations m a stride js (add_totals t c) = Inr (map named_operation_of cs, t')"
      unfolding Cons.IH [OF ok] using cs by blast
    then show "parse_operations m a stride (i # js) t = Inr (ops, t')"
      using parse_operation_complete [OF c ok, of i] cs(3) by simp
  qed
qed

section \<open>Configurations\<close>

fun kind_code :: "wfst_kind \<Rightarrow> u32" where
  "kind_code KindLevenshtein = 0"
| "kind_code KindUniversalStandard = 1"
| "kind_code KindUniversalTransposition = 2"
| "kind_code KindUniversalMergeAndSplit = 3"
| "kind_code KindGeneralizedStandard = 4"
| "kind_code KindGeneralizedTransposition = 5"
| "kind_code KindGeneralizedMergeAndSplit = 6"
| "kind_code KindGeneralizedPhonetic = 7"
| "kind_code KindFzf = 8"

lemma parse_kind_iff: "parse_kind v = Inr kind \<longleftrightarrow> v = kind_code kind"
  by (cases kind) (auto simp: parse_kind_def)

fun algorithm_code :: "edit_algorithm \<Rightarrow> u32" where
  "algorithm_code EditStandard = 0"
| "algorithm_code EditTransposition = 1"
| "algorithm_code EditMergeAndSplit = 2"
| "algorithm_code EditDamerauLevenshtein = 3"

lemma parse_algorithm_iff: "parse_algorithm v = Inr a \<longleftrightarrow> v = algorithm_code a"
  by (cases a) (auto simp: parse_algorithm_def)

fun policy_code :: "requested_cache_policy \<Rightarrow> u32 \<times> usize" where
  "policy_code RequestCacheAll = (0, 0)"
| "policy_code RequestNoCache = (1, 0)"
| "policy_code (RequestLru capacity) = (2, capacity)"

lemma parse_cache_policy_iff: "parse_cache_policy p capacity = Inr policy \<longleftrightarrow> (p, unat capacity) = policy_code policy"
proof -
  have zero: "unat capacity = 0 \<longleftrightarrow> capacity = 0" by (simp add: unat_eq_0)
  show ?thesis by (cases policy) (auto simp: parse_cache_policy_def zero)
qed

definition limits_laid :: "foreign_memory \<Rightarrow> address \<Rightarrow> gen_limits option \<Rightarrow> bool" where
  "limits_laid m pointer limits \<longleftrightarrow>
     (case limits of
        None \<Rightarrow> pointer = 0
      | Some l \<Rightarrow>
          (\<exists>bs raw. record_laid m pointer limits_size config_max_record_bytes bs \<and> raw = limits_of bs \<and> lv_reserved raw = [0, 0] \<and>
             l = \<lparr>max_query_bytes = unat (lv_max_query_bytes raw), max_query_scalars = unat (lv_max_query_scalars raw),
                  max_operation_source_scalars = unat (lv_max_operation_source_scalars raw),
                  max_operation_query_scalars = unat (lv_max_operation_query_scalars raw),
                  max_retained_dictionary_nodes = unat (lv_max_retained_dictionary_nodes raw),
                  max_retained_wfst_states = unat (lv_max_retained_wfst_states raw),
                  max_paths_per_expansion = unat (lv_max_paths_per_expansion raw),
                  max_work_units_per_expansion = unat (lv_max_work_units_per_expansion raw)\<rparr>))"

definition valid_limits :: "gen_limits option \<Rightarrow> bool" where
  "valid_limits limits \<longleftrightarrow>
     (case limits of None \<Rightarrow> True | Some l \<Rightarrow> 0 < max_retained_dictionary_nodes l \<and> 0 < max_retained_wfst_states l)"

lemma parse_limits_iff: "parse_limits m pointer = Inr limits \<longleftrightarrow> limits_laid m pointer limits \<and> valid_limits limits"
proof (cases "pointer = 0")
  case True
  then show ?thesis
    by (auto simp: parse_limits_def limits_laid_def valid_limits_def record_laid_def split: option.split)
next
  case False
  show ?thesis
  proof
    assume "parse_limits m pointer = Inr limits"
    then obtain bs l where "record_laid m pointer limits_size config_max_record_bytes bs" "decode_limits (limits_of bs) = Inr l" "limits = Some l"
      using False by (auto simp: parse_limits_def pbind_Inr record_bytes_iff limits_size_def)
    then show "limits_laid m pointer limits \<and> valid_limits limits"
      by (auto simp: decode_limits_def limits_laid_def valid_limits_def unat_eq_0 unat_gt_0 split: if_splits)
  next
    assume l: "limits_laid m pointer limits \<and> valid_limits limits"
    then obtain l bs where "limits = Some l" and rec: "record_laid m pointer limits_size config_max_record_bytes bs"
      and raw: "lv_reserved (limits_of bs) = [0, 0]"
      "l = \<lparr>max_query_bytes = unat (lv_max_query_bytes (limits_of bs)), max_query_scalars = unat (lv_max_query_scalars (limits_of bs)),
                  max_operation_source_scalars = unat (lv_max_operation_source_scalars (limits_of bs)),
                  max_operation_query_scalars = unat (lv_max_operation_query_scalars (limits_of bs)),
                  max_retained_dictionary_nodes = unat (lv_max_retained_dictionary_nodes (limits_of bs)),
                  max_retained_wfst_states = unat (lv_max_retained_wfst_states (limits_of bs)),
                  max_paths_per_expansion = unat (lv_max_paths_per_expansion (limits_of bs)),
                  max_work_units_per_expansion = unat (lv_max_work_units_per_expansion (limits_of bs))\<rparr>"
      using False by (auto simp: limits_laid_def split: option.splits)
    have "record_bytes m pointer limits_size ''limits'' config_max_record_bytes = Inr bs"
      using rec by (simp add: record_bytes_iff limits_size_def)
    moreover have "decode_limits (limits_of bs) = Inr l"
      using raw l \<open>limits = Some l\<close> by (simp add: decode_limits_def valid_limits_def)
    ultimately show "parse_limits m pointer = Inr limits" using False \<open>limits = Some l\<close> by (simp add: parse_limits_def)
  qed
qed

record configuration =
  cf_kind :: wfst_kind
  cf_algorithm :: edit_algorithm
  cf_distance :: usize
  cf_policy :: requested_cache_policy
  cf_limits :: "gen_limits option"
  cf_operations :: "config_operation list"

definition options_laid :: "foreign_memory \<Rightarrow> address \<Rightarrow> configuration \<Rightarrow> bool" where
  "options_laid m pointer cf \<longleftrightarrow>
     (\<exists>bs raw. record_laid m pointer options_size config_max_record_bytes bs \<and> raw = options_of bs \<and>
        wv_reserved_zero raw = 0 \<and> wv_reserved raw = [0, 0] \<and>
        wv_kind raw = kind_code (cf_kind cf) \<and> wv_algorithm raw = algorithm_code (cf_algorithm cf) \<and>
        unat (wv_maximum_distance raw) = cf_distance cf \<and>
        (wv_cache_policy raw, unat (wv_cache_capacity raw)) = policy_code (cf_policy cf) \<and>
        limits_laid m (wv_limits raw) (cf_limits cf) \<and>
        array_laid (wv_operations raw) (wv_operation_count raw) (wv_operation_stride raw) config_max_operations operation_size
          (length (cf_operations cf)) \<and>
        list_all2 (\<lambda>i. operation_laid m (wv_operations raw + i * unat (wv_operation_stride raw)) (unat (wv_operation_stride raw)))
          [0..<length (cf_operations cf)] (cf_operations cf))"

definition valid_configuration :: "(named_operation list \<Rightarrow> string + unit) \<Rightarrow> configuration \<Rightarrow> bool" where
  "valid_configuration validate cf \<longleftrightarrow>
     (cf_kind cf \<noteq> KindLevenshtein \<longrightarrow> cf_algorithm cf = EditStandard) \<and>
     (cf_kind cf = KindFzf \<longrightarrow> cf_distance cf = 0) \<and>
     (cf_kind cf \<noteq> KindLevenshtein \<longrightarrow> cf_distance cf \<le> 255) \<and>
     (\<not> is_generalized (cf_kind cf) \<longrightarrow> cf_limits cf = None \<and> cf_operations cf = []) \<and>
     valid_limits (cf_limits cf) \<and>
     (\<forall>c \<in> set (cf_operations cf). valid_operation c) \<and> totals_ok (totals_of parse_totals_zero (cf_operations cf)) \<and>
     (cf_operations cf \<noteq> [] \<longrightarrow> validate (map named_operation_of (cf_operations cf)) = Inr ())"

definition parsed_of :: "configuration \<Rightarrow> parsed_options" where
  "parsed_of cf =
     \<lparr>po_kind = cf_kind cf, po_algorithm = cf_algorithm cf, po_maximum_distance = cf_distance cf, po_cache_policy = cf_policy cf,
      po_limits = cf_limits cf,
      po_operations = (if cf_operations cf = [] then None else Some (map named_operation_of (cf_operations cf)))\<rparr>"

lemma totals_zero_ok [simp]: "totals_ok parse_totals_zero"
  by (simp add: totals_ok_def parse_totals_zero_def)

lemma parse_operation_set_iff:
  "parse_operation_set validate m raw = Inr ops \<longleftrightarrow>
     (\<exists>cs. array_laid (wv_operations raw) (wv_operation_count raw) (wv_operation_stride raw) config_max_operations operation_size (length cs) \<and>
        list_all2 (\<lambda>i. operation_laid m (wv_operations raw + i * unat (wv_operation_stride raw)) (unat (wv_operation_stride raw)))
          [0..<length cs] cs \<and> (\<forall>c \<in> set cs. valid_operation c) \<and> totals_ok (totals_of parse_totals_zero cs) \<and>
        (cs \<noteq> [] \<longrightarrow> validate (map named_operation_of cs) = Inr ()) \<and>
        ops = (if cs = [] then None else Some (map named_operation_of cs)))"
  (is "_ \<longleftrightarrow> ?rhs")
proof
  assume "parse_operation_set validate m raw = Inr ops"
  then obtain n nops t where shape: "array_shape (wv_operations raw) (wv_operation_count raw) (wv_operation_stride raw)
        config_max_operations operation_size ''operations'' = Inr n"
    and loop: "parse_operations m (wv_operations raw) (unat (wv_operation_stride raw)) [0..<n] parse_totals_zero = Inr (nops, t)"
    and fin: "if 0 < n then validate nops = Inr () \<and> ops = Some nops else ops = None"
    by (auto simp: parse_operation_set_def pbind_Inr split: if_splits sum.splits)
  have arr: "array_laid (wv_operations raw) (wv_operation_count raw) (wv_operation_stride raw) config_max_operations operation_size n"
    using shape by (subst (asm) array_shape_iff) (simp_all add: config_max_operations_def)
  obtain cs where cs: "list_all2 (\<lambda>i. operation_laid m (wv_operations raw + i * unat (wv_operation_stride raw)) (unat (wv_operation_stride raw))) [0..<n] cs"
    "\<forall>c \<in> set cs. valid_operation c" "nops = map named_operation_of cs" "t = totals_of parse_totals_zero cs" "totals_ok t"
    using loop unfolding parse_operations_iff [OF totals_zero_ok] by blast
  have "length cs = n" using list_all2_lengthD [OF cs(1)] by simp
  then show ?rhs using arr cs fin by (intro exI [of _ cs]) (auto split: if_splits)
next
  assume ?rhs
  then obtain cs where arr: "array_laid (wv_operations raw) (wv_operation_count raw) (wv_operation_stride raw) config_max_operations operation_size (length cs)"
    and laid: "list_all2 (\<lambda>i. operation_laid m (wv_operations raw + i * unat (wv_operation_stride raw)) (unat (wv_operation_stride raw))) [0..<length cs] cs"
    and ok: "\<forall>c \<in> set cs. valid_operation c" "totals_ok (totals_of parse_totals_zero cs)"
    and fin: "cs \<noteq> [] \<longrightarrow> validate (map named_operation_of cs) = Inr ()" "ops = (if cs = [] then None else Some (map named_operation_of cs))"
    by blast
  have "array_shape (wv_operations raw) (wv_operation_count raw) (wv_operation_stride raw) config_max_operations operation_size ''operations''
      = Inr (length cs)" using arr by (subst array_shape_iff) (simp_all add: config_max_operations_def)
  moreover have "parse_operations m (wv_operations raw) (unat (wv_operation_stride raw)) [0..<length cs] parse_totals_zero
      = Inr (map named_operation_of cs, totals_of parse_totals_zero cs)"
    unfolding parse_operations_iff [OF totals_zero_ok] using laid ok by blast
  ultimately show "parse_operation_set validate m raw = Inr ops" using fin by (auto simp: parse_operation_set_def)
qed

lemma parse_options_iff:
  "parse_options validate m pointer = Inr opts \<longleftrightarrow>
     (\<exists>cf. options_laid m pointer cf \<and> valid_configuration validate cf \<and> opts = parsed_of cf)"
proof
  assume "parse_options validate m pointer = Inr opts"
  then obtain bs kind algo policy limits ops where rec: "record_laid m pointer options_size config_max_record_bytes bs"
    and zero: "wv_reserved_zero (options_of bs) = 0" "wv_reserved (options_of bs) = [0, 0]"
    and codes: "parse_kind (wv_kind (options_of bs)) = Inr kind" "parse_algorithm (wv_algorithm (options_of bs)) = Inr algo"
      "parse_cache_policy (wv_cache_policy (options_of bs)) (wv_cache_capacity (options_of bs)) = Inr policy"
    and ok: "kind \<noteq> KindLevenshtein \<longrightarrow> wv_algorithm (options_of bs) = 0"
      "kind = KindFzf \<longrightarrow> unat (wv_maximum_distance (options_of bs)) = 0"
      "kind \<noteq> KindLevenshtein \<and> kind \<noteq> KindFzf \<longrightarrow> unat (wv_maximum_distance (options_of bs)) \<le> 255"
      "\<not> is_generalized kind \<longrightarrow> wv_limits (options_of bs) = 0 \<and> wv_operation_count (options_of bs) = 0"
    and nested: "parse_limits m (wv_limits (options_of bs)) = Inr limits" "parse_operation_set validate m (options_of bs) = Inr ops"
    and opts: "opts = \<lparr>po_kind = kind, po_algorithm = algo, po_maximum_distance = unat (wv_maximum_distance (options_of bs)),
                  po_cache_policy = policy, po_limits = limits, po_operations = ops\<rparr>"
    by (auto simp: parse_options_def pbind_Inr Let_def record_bytes_iff options_size_def not_less simp del: unat_eq_zero split: if_splits)
  obtain cs where cs: "array_laid (wv_operations (options_of bs)) (wv_operation_count (options_of bs)) (wv_operation_stride (options_of bs))
        config_max_operations operation_size (length cs)"
    "list_all2 (\<lambda>i. operation_laid m (wv_operations (options_of bs) + i * unat (wv_operation_stride (options_of bs))) (unat (wv_operation_stride (options_of bs))))
          [0..<length cs] cs" "\<forall>c \<in> set cs. valid_operation c" "totals_ok (totals_of parse_totals_zero cs)"
    "cs \<noteq> [] \<longrightarrow> validate (map named_operation_of cs) = Inr ()"
    "ops = (if cs = [] then None else Some (map named_operation_of cs))"
    using nested(2) unfolding parse_operation_set_iff by blast
  let ?cf = "\<lparr>cf_kind = kind, cf_algorithm = algo, cf_distance = unat (wv_maximum_distance (options_of bs)), cf_policy = policy,
      cf_limits = limits, cf_operations = cs\<rparr>"
  have kinds: "wv_kind (options_of bs) = kind_code kind" "wv_algorithm (options_of bs) = algorithm_code algo"
    "(wv_cache_policy (options_of bs), unat (wv_cache_capacity (options_of bs))) = policy_code policy"
    using codes by (simp_all add: parse_kind_iff parse_algorithm_iff parse_cache_policy_iff)
  have lim: "limits_laid m (wv_limits (options_of bs)) limits" "valid_limits limits"
    using nested(1) by (simp_all add: parse_limits_iff)
  have "options_laid m pointer ?cf" using rec zero kinds lim(1) cs(1,2) by (auto simp: options_laid_def)
  moreover have "valid_configuration validate ?cf"
  proof -
    have "kind \<noteq> KindLevenshtein \<longrightarrow> algo = EditStandard" using ok(1) kinds(2) by (cases algo) auto
    moreover have "kind \<noteq> KindLevenshtein \<longrightarrow> unat (wv_maximum_distance (options_of bs)) \<le> 255" using ok(2,3) by auto
    moreover have "\<not> is_generalized kind \<longrightarrow> limits = None \<and> cs = []"
      using ok(4) lim(1) cs(1) by (auto simp: limits_laid_def array_laid_def record_laid_def split: option.splits)
    ultimately show ?thesis using ok(2) lim(2) cs(3-5) by (simp add: valid_configuration_def)
  qed
  moreover have "opts = parsed_of ?cf" using opts cs(6) by (simp add: parsed_of_def)
  ultimately show "\<exists>cf. options_laid m pointer cf \<and> valid_configuration validate cf \<and> opts = parsed_of cf" by blast
next
  assume "\<exists>cf. options_laid m pointer cf \<and> valid_configuration validate cf \<and> opts = parsed_of cf"
  then obtain cf bs where rec: "record_laid m pointer options_size config_max_record_bytes bs"
    and zero: "wv_reserved_zero (options_of bs) = 0" "wv_reserved (options_of bs) = [0, 0]"
    and kinds: "wv_kind (options_of bs) = kind_code (cf_kind cf)" "wv_algorithm (options_of bs) = algorithm_code (cf_algorithm cf)"
      "unat (wv_maximum_distance (options_of bs)) = cf_distance cf"
      "(wv_cache_policy (options_of bs), unat (wv_cache_capacity (options_of bs))) = policy_code (cf_policy cf)"
    and lim: "limits_laid m (wv_limits (options_of bs)) (cf_limits cf)"
    and arr: "array_laid (wv_operations (options_of bs)) (wv_operation_count (options_of bs)) (wv_operation_stride (options_of bs))
        config_max_operations operation_size (length (cf_operations cf))"
    and laid: "list_all2 (\<lambda>i. operation_laid m (wv_operations (options_of bs) + i * unat (wv_operation_stride (options_of bs))) (unat (wv_operation_stride (options_of bs))))
          [0..<length (cf_operations cf)] (cf_operations cf)"
    and valid: "valid_configuration validate cf" and opts: "opts = parsed_of cf"
    unfolding options_laid_def by blast
  have codes: "parse_kind (wv_kind (options_of bs)) = Inr (cf_kind cf)" "parse_algorithm (wv_algorithm (options_of bs)) = Inr (cf_algorithm cf)"
      "parse_cache_policy (wv_cache_policy (options_of bs)) (wv_cache_capacity (options_of bs)) = Inr (cf_policy cf)"
    using kinds by (simp_all add: parse_kind_iff parse_algorithm_iff parse_cache_policy_iff)
  have nested: "parse_limits m (wv_limits (options_of bs)) = Inr (cf_limits cf)"
    using lim valid by (simp add: parse_limits_iff valid_configuration_def)
  have set: "parse_operation_set validate m (options_of bs) = Inr (po_operations opts)"
    unfolding parse_operation_set_iff using arr laid valid opts
    by (intro exI [of _ "cf_operations cf"]) (simp add: valid_configuration_def parsed_of_def)
  have rec': "record_bytes m pointer options_size ''options'' config_max_record_bytes = Inr bs"
    using rec by (simp add: record_bytes_iff options_size_def)
  have a: "\<not> (wv_reserved_zero (options_of bs) \<noteq> 0 \<or> wv_reserved (options_of bs) \<noteq> [0, 0])" using zero by simp
  have b: "\<not> (cf_kind cf \<noteq> KindLevenshtein \<and> wv_algorithm (options_of bs) \<noteq> 0)"
    using valid kinds(2) by (auto simp: valid_configuration_def)
  have c: "\<not> (cf_kind cf = KindFzf \<and> cf_distance cf \<noteq> 0)"
    and d: "\<not> (cf_kind cf \<noteq> KindLevenshtein \<and> cf_kind cf \<noteq> KindFzf \<and> cf_distance cf > 255)"
    using valid unfolding valid_configuration_def by linarith+
  have e: "\<not> (\<not> is_generalized (cf_kind cf) \<and> (wv_limits (options_of bs) \<noteq> 0 \<or> wv_operation_count (options_of bs) \<noteq> 0))"
    using valid lim arr by (auto simp: valid_configuration_def limits_laid_def array_laid_def unat_eq_0)
  show "parse_options validate m pointer = Inr opts"
    unfolding parse_options_def rec' pbind_simps Let_def if_not_P [OF a] codes to_usize_eq kinds(3)
      if_not_P [OF b] if_not_P [OF c] if_not_P [OF d] if_not_P [OF e] nested set
    by (simp add: opts parsed_of_def)
qed

section \<open>Properties of the parser\<close>

text \<open>
  C17: the parser accepts exactly the valid configurations. It succeeds exactly when some configuration is
  laid out in memory, with all its records, arrays and texts where their pointers say, and is valid;
  and what it returns is that configuration, with nothing added or lost.
\<close>

theorem parse_options_exact:
  "parse_options validate m pointer = Inr opts \<longleftrightarrow>
     (\<exists>cf. options_laid m pointer cf \<and> valid_configuration validate cf \<and> opts = parsed_of cf)"
  by (rule parse_options_iff)

lemma totals_of_consumption: "pt_consumption (totals_of t cs) = pt_consumption t + sum_list (map (\<lambda>c. co_x c + co_y c) cs)"
  by (induction cs arbitrary: t) (simp_all add: add_totals_def)

lemma totals_length: "\<forall>c \<in> set cs. valid_operation c \<Longrightarrow> length cs \<le> sum_list (map (\<lambda>c. co_x c + co_y c) cs)"
proof (induction cs)
  case (Cons c cs)
  then have "0 < co_x c + co_y c" by (simp add: valid_operation_def)
  moreover have "length cs \<le> sum_list (map (\<lambda>c. co_x c + co_y c) cs)" using Cons by simp
  ultimately show ?case unfolding list.map sum_list.Cons list.size by linarith
qed simp

lemma effective_total: "\<exists>policy. effective p kind = Some policy"
  by (cases p) (simp_all add: shared_lru_def)

text \<open>
  The type of the operations that come out of the parser.
\<close>

definition operation_typed :: "named_operation \<Rightarrow> bool" where
  "operation_typed nop \<longleftrightarrow>
     (case nop of (name, op) \<Rightarrow>
        byte_len name \<le> 1024 \<and> 0 \<notin> set (utf8_bytes name) \<and> 0 < consume_x op + consume_y op \<and>
        (\<exists>r. op_weight op = F64 r \<and> 0 \<le> r \<and> (r = 0 \<longrightarrow> consume_x op = consume_y op)) \<and>
        (case op_applicability op of
           AnyPair \<Rightarrow> True
         | EqualPair \<Rightarrow> consume_x op = consume_y op
         | AdjacentTranspose \<Rightarrow> consume_x op = 2 \<and> consume_y op = 2
         | ListedPairs pairs \<Rightarrow> finite pairs \<and> pairs \<noteq> {} \<and>
             (\<forall>p \<in> pairs. \<exists>u v. p = (utf8_bytes u, utf8_bytes v) \<and> length u = consume_x op \<and> length v = consume_y op)))"

lemma valid_operation_typed: "valid_operation c \<Longrightarrow> operation_typed (named_operation_of c)"
proof -
  assume v: "valid_operation c"
  then obtain r where r: "co_weight c = F64 r" "0 \<le> r" "r = 0 \<longrightarrow> co_x c = co_y c"
    by (cases "co_weight c") (auto simp: valid_operation_def f64_is_finite_def)
  have app: "applicability_laid c" using v by (simp add: valid_operation_def)
  then consider "co_code c = 0" | "co_code c = 1" "co_x c = co_y c" | "co_code c = 2" "co_x c = 2" "co_y c = 2"
    | "co_code c = 3" "co_pairs c \<noteq> []" "\<forall>p \<in> set (co_pairs c). length (fst p) = co_x c \<and> length (snd p) = co_y c"
    by (auto simp: applicability_laid_def)
  then show ?thesis
    by cases (use v r in \<open>auto simp: operation_typed_def named_operation_of_def valid_operation_def config_applicability_def pair_bytes_def\<close>)
qed

text \<open>
  C19: what leaves the parser is well-typed. Options name an algorithm only for the Levenshtein kind, their
  distances fit the kind, limits and operations come only with the generalized kinds, retained limits are
  positive, there are at most 4096 operations and each has progress, a finite nonnegative weight, a clean
  name and restrictions of its widths; and turning them into a construction never panics.
\<close>

theorem parsed_options_typed:
  assumes "parse_options validate m pointer = Inr opts"
  shows "(po_kind opts \<noteq> KindLevenshtein \<longrightarrow> po_algorithm opts = EditStandard \<and> po_maximum_distance opts \<le> 255) \<and>
    (po_kind opts = KindFzf \<longrightarrow> po_maximum_distance opts = 0) \<and>
    (\<not> is_generalized (po_kind opts) \<longrightarrow> po_limits opts = None \<and> po_operations opts = None) \<and>
    (\<forall>l. po_limits opts = Some l \<longrightarrow> 0 < max_retained_dictionary_nodes l \<and> 0 < max_retained_wfst_states l) \<and>
    (\<forall>ops. po_operations opts = Some ops \<longrightarrow>
       ops \<noteq> [] \<and> length ops \<le> 4096 \<and> validate ops = Inr () \<and> (\<forall>op \<in> set ops. operation_typed op)) \<and>
    (\<exists>construction. into_construction opts = Some construction)"
proof -
  obtain cf where cf: "valid_configuration validate cf" "opts = parsed_of cf" using assms unfolding parse_options_iff by blast
  have "length (cf_operations cf) \<le> 4096"
    using totals_length [of "cf_operations cf"] totals_of_consumption [of parse_totals_zero "cf_operations cf"] cf(1)
    by (simp add: valid_configuration_def totals_ok_def parse_totals_zero_def config_max_operations_def)
  moreover have "\<forall>op \<in> set (map named_operation_of (cf_operations cf)). operation_typed op"
    using cf(1) valid_operation_typed by (auto simp: valid_configuration_def)
  moreover have "\<exists>construction. into_construction opts = Some construction"
    using effective_total [of "po_cache_policy opts" "po_kind opts"] by (auto simp: into_construction_def)
  moreover have "\<forall>l. cf_limits cf = Some l \<longrightarrow> 0 < max_retained_dictionary_nodes l \<and> 0 < max_retained_wfst_states l"
    using cf(1) by (auto simp: valid_configuration_def valid_limits_def)
  ultimately show ?thesis using cf by (simp add: valid_configuration_def parsed_of_def)
qed

text \<open>
  A memory with one configuration: options at 8, one operation at 104 and its name at 208.
\<close>

definition sample_bytes :: "byte list" where
  "sample_bytes =
     le_bytes 4 96 @ le_bytes 4 1 @ le_bytes 8 0 @
     le_bytes 4 4 @ le_bytes 4 0 @ le_bytes 8 1 @ le_bytes 4 2 @ le_bytes 4 0 @ le_bytes 8 7 @
     le_bytes 8 0 @ le_bytes 8 104 @ le_bytes 8 1 @ le_bytes 8 104 @ le_bytes 8 0 @ le_bytes 8 0 @
     le_bytes 4 104 @ le_bytes 4 1 @ le_bytes 8 0 @
     le_bytes 8 2 @ le_bytes 8 2 @ le_bytes 8 0 @ le_bytes 4 1 @ le_bytes 4 0 @
     le_bytes 8 208 @ le_bytes 8 1 @ le_bytes 8 0 @ le_bytes 8 0 @ le_bytes 8 0 @ le_bytes 8 0 @ le_bytes 8 0 @
     [99]"

definition sample_memory :: foreign_memory where
  "sample_memory a = (if 8 \<le> a then nth_opt sample_bytes (a - 8) else None)"

definition sample_options :: parsed_options where
  "sample_options =
     \<lparr>po_kind = KindGeneralizedStandard, po_algorithm = EditStandard, po_maximum_distance = 1, po_cache_policy = RequestLru 7,
      po_limits = None, po_operations = Some [([99], \<lparr>consume_x = 2, consume_y = 2, op_weight = F64 0, op_applicability = EqualPair\<rparr>)]\<rparr>"

lemma sample_length: "length sample_bytes = 201"
  by (simp add: sample_bytes_def)

lemma sample_read: "8 \<le> a \<Longrightarrow> a + n \<le> 209 \<Longrightarrow> read_bytes sample_memory a n = Some (take n (drop (a - 8) sample_bytes))"
  by (auto simp: read_bytes_Some sample_length sample_memory_def nth_opt_def)

lemma sample_options_record:
  "record_bytes sample_memory 8 options_size ''options'' config_max_record_bytes = Inr (take 96 sample_bytes)"
  by (simp add: record_bytes_def record_align_def read_at_def sample_read options_size_def config_max_record_bytes_def
      config_record_version_def Let_def u32_at_def u64_at_def sample_bytes_def le_nat_bytes)

lemma sample_options_of:
  "options_of (take 96 sample_bytes) =
     \<lparr>wv_kind = 4, wv_algorithm = 0, wv_maximum_distance = 1, wv_cache_policy = 2, wv_reserved_zero = 0, wv_cache_capacity = 7,
      wv_limits = 0, wv_operations = 104, wv_operation_count = 1, wv_operation_stride = 104, wv_reserved = [0, 0]\<rparr>"
  by (simp add: options_of_def u32_at_def u64_at_def pointer_at_def sample_bytes_def le_nat_bytes)

lemma sample_operation_record:
  "record_bytes sample_memory 104 operation_size ''operation'' 104 = Inr (take 104 (drop 96 sample_bytes))"
  by (simp add: record_bytes_def record_align_def read_at_def sample_read operation_size_def config_max_record_bytes_def
      config_record_version_def Let_def u32_at_def u64_at_def sample_bytes_def le_nat_bytes)

lemma sample_operation_of:
  "operation_of (take 104 (drop 96 sample_bytes)) =
     \<lparr>ov_consume_x = 2, ov_consume_y = 2, ov_weight = F64 0, ov_applicability = 1, ov_reserved_zero = 0,
      ov_name_data = 208, ov_name_len = 1, ov_restrictions = 0, ov_restriction_count = 0, ov_restriction_stride = 0, ov_reserved = [0, 0]\<rparr>"
  by (simp add: operation_of_def u32_at_def u64_at_def pointer_at_def sample_bytes_def le_nat_bytes f64_from_bits_def Let_def)

lemma sample_name: "utf8_text sample_memory 208 1 ''operation name'' 0 = Inr ([99], 1)"
  by (simp add: utf8_text_def usize_checked_add_def usize_max_def config_max_custom_text_bytes_def read_at_def sample_read sample_bytes_def)

lemma sample_operation:
  "parse_operation sample_memory 104 104 0 parse_totals_zero =
     Inr (([99], \<lparr>consume_x = 2, consume_y = 2, op_weight = F64 0, op_applicability = EqualPair\<rparr>),
          \<lparr>pt_text_bytes = 1, pt_pairs = 0, pt_consumption = 4\<rparr>)"
  by (simp add: parse_operation_def sample_operation_record sample_operation_of parse_totals_zero_def usize_checked_add_def usize_max_def
      config_max_operations_def f64_is_finite_def parse_operation_text_def sample_name utf8_len_def utf8_bytes_def utf8_encode_def
      array_shape_def config_max_restriction_pairs_def parse_applicability_def)

lemma sample_parse: "parse_options (\<lambda>_. Inr ()) sample_memory 8 = Inr sample_options"
  unfolding parse_options_def sample_options_record pbind_simps sample_options_of Let_def
  by (simp add: parse_kind_def parse_algorithm_def parse_cache_policy_def
      is_generalized_def parse_limits_def parse_operation_set_def array_shape_def config_max_operations_def operation_size_def
      config_max_record_bytes_def record_align_def usize_max_def isize_max_def sample_operation sample_options_def)

theorem parsed_options_typed_witness:
  "into_construction sample_options \<noteq> None \<and> operation_typed ([99], \<lparr>consume_x = 2, consume_y = 2, op_weight = F64 0, op_applicability = EqualPair\<rparr>)"
  using parsed_options_typed [OF sample_parse] by (auto simp: sample_options_def)

end
