(* ===== verification/Ffi_Safety.thy ===== *)
theory Ffi_Safety
  imports Ffi_Parsing
begin

text \<open>
  What the configuration parser reads. The promise of a caller covers the options record, and what its
  pointers, counts and lengths designate. The parser looks at nothing else: its result is the same in
  any other memory that agrees on what was promised.
\<close>

section \<open>The promise\<close>

text \<open>A record: its header, and as many bytes as the header says, if that is an acceptable size.\<close>

definition in_record :: "foreign_memory \<Rightarrow> address \<Rightarrow> usize \<Rightarrow> address \<Rightarrow> bool" where
  "in_record m base available x \<longleftrightarrow>
     base \<le> x \<and> x < base + 16 \<or>
     (\<exists>header. read_bytes m base 16 = Some header \<and> unat (u32_at header 0) \<le> config_max_record_bytes \<and>
        unat (u32_at header 0) \<le> available \<and> base \<le> x \<and> x < base + unat (u32_at header 0))"

definition in_text :: "address \<Rightarrow> u64 \<Rightarrow> address \<Rightarrow> bool" where
  "in_text base len x \<longleftrightarrow> base \<noteq> 0 \<and> unat len \<le> config_max_custom_text_bytes \<and> base \<le> x \<and> x < base + unat len"

inductive promised_pair :: "foreign_memory \<Rightarrow> address \<Rightarrow> usize \<Rightarrow> address \<Rightarrow> bool" for m base stride where
  pair_record: "base \<noteq> 0 \<Longrightarrow> in_record m base stride x \<Longrightarrow> promised_pair m base stride x"
| pair_source: "read_bytes m base restriction_size = Some bs \<Longrightarrow>
    in_text (rv_source_data (restriction_of bs)) (rv_source_len (restriction_of bs)) x \<Longrightarrow> promised_pair m base stride x"
| pair_target: "read_bytes m base restriction_size = Some bs \<Longrightarrow>
    in_text (rv_target_data (restriction_of bs)) (rv_target_len (restriction_of bs)) x \<Longrightarrow> promised_pair m base stride x"

inductive promised_operation :: "foreign_memory \<Rightarrow> address \<Rightarrow> usize \<Rightarrow> address \<Rightarrow> bool" for m base stride where
  operation_record: "base \<noteq> 0 \<Longrightarrow> in_record m base stride x \<Longrightarrow> promised_operation m base stride x"
| operation_name: "read_bytes m base operation_size = Some bs \<Longrightarrow>
    in_text (ov_name_data (operation_of bs)) (ov_name_len (operation_of bs)) x \<Longrightarrow> promised_operation m base stride x"
| operation_pair: "read_bytes m base operation_size = Some bs \<Longrightarrow> op = operation_of bs \<Longrightarrow>
    array_laid (ov_restrictions op) (ov_restriction_count op) (ov_restriction_stride op) config_max_restriction_pairs restriction_size n \<Longrightarrow>
    i < n \<Longrightarrow>
    promised_pair m (ov_restrictions op + i * unat (ov_restriction_stride op)) (unat (ov_restriction_stride op)) x \<Longrightarrow>
    promised_operation m base stride x"

inductive promised :: "foreign_memory \<Rightarrow> address \<Rightarrow> address \<Rightarrow> bool" for m pointer where
  promised_options: "pointer \<noteq> 0 \<Longrightarrow> in_record m pointer config_max_record_bytes x \<Longrightarrow> promised m pointer x"
| promised_limits: "read_bytes m pointer options_size = Some bs \<Longrightarrow> wv_limits (options_of bs) \<noteq> 0 \<Longrightarrow>
    in_record m (wv_limits (options_of bs)) config_max_record_bytes x \<Longrightarrow> promised m pointer x"
| promised_operations: "read_bytes m pointer options_size = Some bs \<Longrightarrow> raw = options_of bs \<Longrightarrow>
    array_laid (wv_operations raw) (wv_operation_count raw) (wv_operation_stride raw) config_max_operations operation_size n \<Longrightarrow>
    i < n \<Longrightarrow>
    promised_operation m (wv_operations raw + i * unat (wv_operation_stride raw)) (unat (wv_operation_stride raw)) x \<Longrightarrow>
    promised m pointer x"

section \<open>The parser keeps to it\<close>

lemma pbind_cong:
  "r = r' \<Longrightarrow> (\<And>x. r' = Inr x \<Longrightarrow> f x = g x) \<Longrightarrow> pbind r f = pbind r' g"
  by (cases r') auto

lemma read_bytes_agree: "\<forall>x. a \<le> x \<and> x < a + n \<longrightarrow> m' x = m x \<Longrightarrow> read_bytes m' a n = read_bytes m a n"
  unfolding read_bytes_def by (rule arg_cong [where f = those]) simp

lemma record_bytes_agree:
  assumes "base \<noteq> 0 \<longrightarrow> (\<forall>x. in_record m base available x \<longrightarrow> m' x = m x)" and "16 \<le> known"
  shows "record_bytes m' base known name available = record_bytes m base known name available"
proof (cases "base = 0")
  case False
  then have agree: "\<forall>x. in_record m base available x \<longrightarrow> m' x = m x" using assms(1) by simp
  have header: "read_at m' base 16 = read_at m base 16"
    unfolding read_at_def using read_bytes_agree [of base 16 m' m] agree by (simp add: in_record_def)
  show ?thesis
    unfolding record_bytes_def
  proof (rule if_cong [OF refl refl], rule if_cong [OF refl refl], rule pbind_cong [OF header])
    fix h assume h: "read_at m base 16 = Inr h"
    let ?size = "unat (u32_at h 0)"
    have inside: "\<forall>x. base \<le> x \<and> x < base + ?size \<longrightarrow> m' x = m x"
      if "?size \<le> config_max_record_bytes" "?size \<le> available"
      using agree h that by (auto simp: in_record_def)
    have tail: "read_at m' (base + known) (?size - known) = read_at m (base + known) (?size - known)"
      if "known \<le> ?size" "?size \<le> config_max_record_bytes" "?size \<le> available"
      unfolding read_at_def using read_bytes_agree [of "base + known" "?size - known" m' m] inside that by simp
    have all: "read_at m' base known = read_at m base known"
      if "known \<le> ?size" "?size \<le> config_max_record_bytes" "?size \<le> available"
      unfolding read_at_def using read_bytes_agree [of base known m' m] inside that by simp
    show "(let size = unat (u32_at h 0)
        in if size < known \<or> size > config_max_record_bytes \<or> size > available
           then reject StatusInvalidArgument (name @ '' has an unsupported size'')
           else if u32_at h 4 \<noteq> config_record_version \<or> u64_at h 8 \<noteq> 0
           then reject StatusInvalidArgument (name @ '' has an unsupported version or reserved field'')
           else pbind (if size > known then read_at m' (base + known) (size - known) else Inr []) (\<lambda>tail.
             if \<exists>b \<in> set tail. b \<noteq> 0
             then reject StatusInvalidArgument (name @ '' has nonzero unknown trailing bytes'')
             else read_at m' base known)) =
       (let size = unat (u32_at h 0)
        in if size < known \<or> size > config_max_record_bytes \<or> size > available
           then reject StatusInvalidArgument (name @ '' has an unsupported size'')
           else if u32_at h 4 \<noteq> config_record_version \<or> u64_at h 8 \<noteq> 0
           then reject StatusInvalidArgument (name @ '' has an unsupported version or reserved field'')
           else pbind (if size > known then read_at m (base + known) (size - known) else Inr []) (\<lambda>tail.
             if \<exists>b \<in> set tail. b \<noteq> 0
             then reject StatusInvalidArgument (name @ '' has nonzero unknown trailing bytes'')
             else read_at m base known))"
    proof (cases "?size < known \<or> ?size > config_max_record_bytes \<or> ?size > available")
      case False
      then have ok: "known \<le> ?size" "?size \<le> config_max_record_bytes" "?size \<le> available" by auto
      show ?thesis unfolding Let_def tail [OF ok] all [OF ok] ..
    qed simp
  qed
qed (simp add: record_bytes_def)

lemma utf8_text_agree:
  assumes "\<forall>x. in_text base len x \<longrightarrow> m' x = m x"
  shows "utf8_text m' base len name total_bytes = utf8_text m base len name total_bytes"
proof (cases "base = 0 \<or> config_max_custom_text_bytes < unat len")
  case True
  then show ?thesis
  proof
    assume "config_max_custom_text_bytes < unat len"
    then have "usize_checked_add total_bytes (unat len) = Some used \<Longrightarrow> config_max_custom_text_bytes < used" for used
      by (auto simp: usize_checked_add_def split: if_splits)
    then show ?thesis by (auto simp: utf8_text_def split: option.split)
  qed (simp add: utf8_text_def)
next
  case False
  then have "read_bytes m' base (unat len) = read_bytes m base (unat len)"
    using assms by (intro read_bytes_agree) (simp add: in_text_def)
  then have "read_at m' base (unat len) = read_at m base (unat len)" by (simp add: read_at_def)
  then show ?thesis by (simp only: utf8_text_def to_usize_eq pbind_simps)
qed

lemma record_bytes_read: "16 \<le> known \<Longrightarrow> record_bytes m base known name available = Inr bs \<Longrightarrow> read_bytes m base known = Some bs"
  by (auto simp: record_bytes_iff record_laid_def holds_def)

lemma parse_pair_agree:
  assumes "\<forall>x. promised_pair m base stride x \<longrightarrow> m' x = m x"
  shows "parse_pair m' base stride cx cy t = parse_pair m base stride cx cy t"
  unfolding parse_pair_def
proof (rule pbind_cong [OF record_bytes_agree])
  show "base \<noteq> 0 \<longrightarrow> (\<forall>x. in_record m base stride x \<longrightarrow> m' x = m x)" using assms by (auto intro: promised_pair.intros)
  show "16 \<le> restriction_size" by (simp add: restriction_size_def)
  fix bs assume "record_bytes m base restriction_size ''restriction'' stride = Inr bs"
  then have bs: "read_bytes m base restriction_size = Some bs" by (rule record_bytes_read [rotated]) (simp add: restriction_size_def)
  have s: "utf8_text m' (rv_source_data (restriction_of bs)) (rv_source_len (restriction_of bs)) name u =
      utf8_text m (rv_source_data (restriction_of bs)) (rv_source_len (restriction_of bs)) name u" for name u
    by (rule utf8_text_agree) (use assms bs in \<open>auto intro: promised_pair.intros\<close>)
  have t: "utf8_text m' (rv_target_data (restriction_of bs)) (rv_target_len (restriction_of bs)) name u =
      utf8_text m (rv_target_data (restriction_of bs)) (rv_target_len (restriction_of bs)) name u" for name u
    by (rule utf8_text_agree) (use assms bs in \<open>auto intro: promised_pair.intros\<close>)
  show "(let pair = restriction_of bs
       in if rv_reserved pair \<noteq> [0, 0] then reject StatusInvalidArgument ''restriction reserved fields are nonzero''
          else pbind (utf8_text m' (rv_source_data pair) (rv_source_len pair) ''restriction source'' t) (\<lambda>(source, used).
               pbind (utf8_text m' (rv_target_data pair) (rv_target_len pair) ''restriction target'' used) (\<lambda>(target, used').
                 if length source \<noteq> cx \<or> length target \<noteq> cy
                 then reject StatusInvalidArgument ''restriction scalar lengths disagree with operation arity''
                 else Inr ((utf8_bytes source, utf8_bytes target), used')))) =
     (let pair = restriction_of bs
       in if rv_reserved pair \<noteq> [0, 0] then reject StatusInvalidArgument ''restriction reserved fields are nonzero''
          else pbind (utf8_text m (rv_source_data pair) (rv_source_len pair) ''restriction source'' t) (\<lambda>(source, used).
               pbind (utf8_text m (rv_target_data pair) (rv_target_len pair) ''restriction target'' used) (\<lambda>(target, used').
                 if length source \<noteq> cx \<or> length target \<noteq> cy
                 then reject StatusInvalidArgument ''restriction scalar lengths disagree with operation arity''
                 else Inr ((utf8_bytes source, utf8_bytes target), used'))))"
    unfolding Let_def s t ..
qed

lemma parse_pairs_agree:
  "\<forall>i \<in> set is. \<forall>x. promised_pair m (a + i * stride) stride x \<longrightarrow> m' x = m x \<Longrightarrow>
   parse_pairs m' a stride cx cy is S t = parse_pairs m a stride cx cy is S t"
proof (induction "is" arbitrary: S t)
  case (Cons i js)
  have "parse_pair m' (a + i * stride) stride cx cy t = parse_pair m (a + i * stride) stride cx cy t"
    by (rule parse_pair_agree) (use Cons.prems in simp)
  then show ?case unfolding parse_pairs.simps using Cons by (intro pbind_cong) (auto split: prod.split)
qed simp

lemma parse_applicability_agree:
  assumes "\<forall>i < n. \<forall>x. promised_pair m (ov_restrictions op + i * unat (ov_restriction_stride op)) (unat (ov_restriction_stride op)) x \<longrightarrow> m' x = m x"
  shows "parse_applicability m' k op cx cy n t = parse_applicability m k op cx cy n t"
proof -
  have "parse_pairs m' (ov_restrictions op) (unat (ov_restriction_stride op)) cx cy [0..<n] {} t =
      parse_pairs m (ov_restrictions op) (unat (ov_restriction_stride op)) cx cy [0..<n] {} t"
    by (rule parse_pairs_agree) (use assms in simp)
  then show ?thesis by (simp only: parse_applicability_def)
qed

lemma parse_operation_text_agree:
  assumes name: "\<forall>x. in_text (ov_name_data op) (ov_name_len op) x \<longrightarrow> m' x = m x"
    and pairs: "\<And>n i x. array_laid (ov_restrictions op) (ov_restriction_count op) (ov_restriction_stride op) config_max_restriction_pairs restriction_size n \<Longrightarrow>
      i < n \<Longrightarrow> promised_pair m (ov_restrictions op + i * unat (ov_restriction_stride op)) (unat (ov_restriction_stride op)) x \<Longrightarrow> m' x = m x"
  shows "parse_operation_text m' k op cx cy t = parse_operation_text m k op cx cy t"
proof -
  have app: "parse_applicability m' k op cx cy n u = parse_applicability m k op cx cy n u"
    if "array_shape (ov_restrictions op) (ov_restriction_count op) (ov_restriction_stride op) config_max_restriction_pairs restriction_size ''restrictions'' = Inr n" for n u
  proof -
    have "array_laid (ov_restrictions op) (ov_restriction_count op) (ov_restriction_stride op) config_max_restriction_pairs restriction_size n"
      using that by (subst (asm) array_shape_iff) (simp_all add: config_max_restriction_pairs_def)
    then show ?thesis using pairs by (intro parse_applicability_agree) blast
  qed
  show ?thesis
    unfolding parse_operation_text_def utf8_text_agree [OF name]
    by (intro pbind_cong refl) (auto intro!: pbind_cong simp: app split: option.split)
qed

lemma parse_operation_agree:
  assumes "\<forall>x. promised_operation m base stride x \<longrightarrow> m' x = m x"
  shows "parse_operation m' base stride k t = parse_operation m base stride k t"
  unfolding parse_operation_def
proof (rule pbind_cong [OF record_bytes_agree])
  show "base \<noteq> 0 \<longrightarrow> (\<forall>x. in_record m base stride x \<longrightarrow> m' x = m x)" using assms by (auto intro: promised_operation.intros)
  show "16 \<le> operation_size" by (simp add: operation_size_def)
  fix bs assume "record_bytes m base operation_size ''operation'' stride = Inr bs"
  then have bs: "read_bytes m base operation_size = Some bs" by (rule record_bytes_read [rotated]) (simp add: operation_size_def)
  have body: "parse_operation_text m' k (operation_of bs) cx cy u = parse_operation_text m k (operation_of bs) cx cy u" for cx cy u
    by (rule parse_operation_text_agree) (use assms bs in \<open>auto intro: promised_operation.intros\<close>)
  let ?body = "\<lambda>mem. let op = operation_of bs
       in if ov_reserved_zero op \<noteq> 0 \<or> ov_reserved op \<noteq> [0, 0]
          then reject StatusInvalidArgument (''operation '' @ show_nat k @ '' has nonzero reserved fields'')
          else
            pbind (to_usize (ov_consume_x op) ''consume_x'') (\<lambda>cx.
            pbind (to_usize (ov_consume_y op) ''consume_y'') (\<lambda>cy.
              case usize_checked_add cx cy of
                None \<Rightarrow> reject StatusLimitExceeded ''operation arity overflows''
              | Some consumed \<Rightarrow>
                  (case usize_checked_add (pt_consumption t) consumed of
                     None \<Rightarrow> reject StatusLimitExceeded ''operation grammar width overflows''
                   | Some width \<Rightarrow>
                       if width > config_max_operations
                       then reject StatusLimitExceeded ''operation grammar width exceeds 4096 scalars''
                       else if consumed = 0 \<or> \<not> f64_is_finite (ov_weight op) \<or> f64_lt (ov_weight op) (F64 0)
                       then reject StatusInvalidArgument (''operation '' @ show_nat k @ '' has no progress or invalid weight'')
                       else if f64_eq (ov_weight op) (F64 0) \<and> cx \<noteq> cy
                       then reject StatusInvalidArgument (''operation '' @ show_nat k @ '' has a zero-cost length change'')
                       else parse_operation_text mem k op cx cy (t\<lparr>pt_consumption := width\<rparr>))))"
  show "?body m' = ?body m" unfolding Let_def body ..
qed

lemma parse_operations_agree:
  "\<forall>i \<in> set is. \<forall>x. promised_operation m (a + i * stride) stride x \<longrightarrow> m' x = m x \<Longrightarrow>
   parse_operations m' a stride is t = parse_operations m a stride is t"
proof (induction "is" arbitrary: t)
  case (Cons i js)
  have "parse_operation m' (a + i * stride) stride i t = parse_operation m (a + i * stride) stride i t"
    by (rule parse_operation_agree) (use Cons.prems in simp)
  then show ?case unfolding parse_operations.simps using Cons by (intro pbind_cong) (auto split: prod.split intro!: pbind_cong)
qed simp

lemma parse_limits_agree:
  assumes "pointer \<noteq> 0 \<longrightarrow> (\<forall>x. in_record m pointer config_max_record_bytes x \<longrightarrow> m' x = m x)"
  shows "parse_limits m' pointer = parse_limits m pointer"
proof -
  have "record_bytes m' pointer limits_size ''limits'' config_max_record_bytes = record_bytes m pointer limits_size ''limits'' config_max_record_bytes"
    by (rule record_bytes_agree [OF assms]) (simp add: limits_size_def)
  then show ?thesis by (simp add: parse_limits_def)
qed

lemma parse_operation_set_agree:
  assumes "\<And>n i x. array_laid (wv_operations raw) (wv_operation_count raw) (wv_operation_stride raw) config_max_operations operation_size n \<Longrightarrow>
      i < n \<Longrightarrow> promised_operation m (wv_operations raw + i * unat (wv_operation_stride raw)) (unat (wv_operation_stride raw)) x \<Longrightarrow> m' x = m x"
  shows "parse_operation_set validate m' raw = parse_operation_set validate m raw"
  unfolding parse_operation_set_def
proof (rule pbind_cong [OF refl])
  fix n assume "array_shape (wv_operations raw) (wv_operation_count raw) (wv_operation_stride raw) config_max_operations operation_size ''operations'' = Inr n"
  then have "array_laid (wv_operations raw) (wv_operation_count raw) (wv_operation_stride raw) config_max_operations operation_size n"
    by (subst (asm) array_shape_iff) (simp_all add: config_max_operations_def)
  then have ops: "parse_operations m' (wv_operations raw) (unat (wv_operation_stride raw)) [0..<n] t =
      parse_operations m (wv_operations raw) (unat (wv_operation_stride raw)) [0..<n] t" for t
    using assms by (intro parse_operations_agree) auto
  let ?rest = "\<lambda>mem. pbind (parse_operations mem (wv_operations raw) (unat (wv_operation_stride raw)) [0..<n] parse_totals_zero) (\<lambda>(ops, _).
         if n > 0 then
           (case validate ops of
              Inl e \<Rightarrow> reject StatusInvalidArgument (''invalid custom operation set: '' @ e)
            | Inr _ \<Rightarrow> Inr (Some ops))
         else Inr None)"
  show "?rest m' = ?rest m" unfolding ops ..
qed

lemma parse_options_agree:
  assumes "\<forall>x. promised m pointer x \<longrightarrow> m' x = m x"
  shows "parse_options validate m' pointer = parse_options validate m pointer"
  unfolding parse_options_def
proof (rule pbind_cong [OF record_bytes_agree])
  show "pointer \<noteq> 0 \<longrightarrow> (\<forall>x. in_record m pointer config_max_record_bytes x \<longrightarrow> m' x = m x)" using assms by (auto intro: promised.intros)
  show "16 \<le> options_size" by (simp add: options_size_def)
  fix bs assume "record_bytes m pointer options_size ''options'' config_max_record_bytes = Inr bs"
  then have bs: "read_bytes m pointer options_size = Some bs" by (rule record_bytes_read [rotated]) (simp add: options_size_def)
  have limits: "parse_limits m' (wv_limits (options_of bs)) = parse_limits m (wv_limits (options_of bs))"
    by (rule parse_limits_agree) (use assms bs in \<open>auto intro: promised.intros\<close>)
  have ops: "parse_operation_set validate m' (options_of bs) = parse_operation_set validate m (options_of bs)"
    by (rule parse_operation_set_agree) (use assms bs in \<open>blast intro: promised_operations\<close>)
  let ?rest = "\<lambda>mem. let raw = options_of bs
       in if wv_reserved_zero raw \<noteq> 0 \<or> wv_reserved raw \<noteq> [0, 0]
          then reject StatusInvalidArgument ''options reserved fields are nonzero''
          else
            pbind (parse_kind (wv_kind raw)) (\<lambda>kind.
            pbind (parse_algorithm (wv_algorithm raw)) (\<lambda>algo.
            pbind (to_usize (wv_maximum_distance raw) ''maximum distance'') (\<lambda>distance.
            pbind (parse_cache_policy (wv_cache_policy raw) (wv_cache_capacity raw)) (\<lambda>policy.
              if kind \<noteq> KindLevenshtein \<and> wv_algorithm raw \<noteq> 0
              then reject StatusInvalidArgument ''this WFST kind requires the standard algorithm sentinel''
              else if kind = KindFzf \<and> distance \<noteq> 0
              then reject StatusInvalidArgument ''FZF requires a zero maximum-distance sentinel''
              else if kind \<noteq> KindLevenshtein \<and> kind \<noteq> KindFzf \<and> distance > 255
              then reject StatusInvalidArgument ''universal/generalized maximum distance must fit u8''
              else if \<not> is_generalized kind \<and> (wv_limits raw \<noteq> 0 \<or> wv_operation_count raw \<noteq> 0)
              then reject StatusInvalidArgument ''only generalized kinds accept limits or custom operations''
              else
                pbind (parse_limits mem (wv_limits raw)) (\<lambda>limits.
                pbind (parse_operation_set validate mem raw) (\<lambda>operations.
                  Inr \<lparr>po_kind = kind, po_algorithm = algo, po_maximum_distance = distance,
                       po_cache_policy = policy, po_limits = limits, po_operations = operations\<rparr>))))))"
  show "?rest m' = ?rest m" unfolding Let_def limits ops ..
qed

section \<open>Readable memory\<close>

lemma pbind_Unreadable: "pbind r f = Inl Unreadable \<longleftrightarrow> r = Inl Unreadable \<or> (\<exists>x. r = Inr x \<and> f x = Inl Unreadable)"
  by (cases r) auto

lemma read_at_readable: "\<forall>x. m x \<noteq> None \<Longrightarrow> read_at m a n \<noteq> Inl Unreadable"
  using read_bytes_None [of m a n] by (auto simp: read_at_def split: option.split)

lemma record_bytes_readable: "\<forall>x. m x \<noteq> None \<Longrightarrow> record_bytes m a known name available \<noteq> Inl Unreadable"
  using read_at_readable [of m] by (auto simp: record_bytes_def pbind_Unreadable Let_def split: if_splits)

lemma utf8_text_readable: "\<forall>x. m x \<noteq> None \<Longrightarrow> utf8_text m a len name t \<noteq> Inl Unreadable"
  using read_at_readable [of m] by (auto simp: utf8_text_def pbind_Unreadable split: option.split)

lemma array_shape_readable: "array_shape a count stride maximum element name \<noteq> Inl Unreadable"
  by (auto simp: array_shape_def)

lemma parse_pairs_readable: "\<forall>x. m x \<noteq> None \<Longrightarrow> parse_pairs m a stride cx cy is S t \<noteq> Inl Unreadable"
proof (induction "is" arbitrary: S t)
  case (Cons i js)
  have "parse_pair m (a + i * stride) stride cx cy t \<noteq> Inl Unreadable"
    using record_bytes_readable [OF Cons.prems] utf8_text_readable [OF Cons.prems]
    by (auto simp: parse_pair_def pbind_Unreadable Let_def split: if_splits)
  then show ?case using Cons by (auto simp: pbind_Unreadable)
qed simp

lemma parse_operation_readable: "\<forall>x. m x \<noteq> None \<Longrightarrow> parse_operation m a stride k t \<noteq> Inl Unreadable"
proof -
  assume m: "\<forall>x. m x \<noteq> None"
  have app: "parse_applicability m k op cx cy n u \<noteq> Inl Unreadable" for op cx cy n u
    using parse_pairs_readable [OF m] by (auto simp: parse_applicability_def pbind_Unreadable)
  have "parse_operation_text m k op cx cy u \<noteq> Inl Unreadable" for op cx cy u
    using utf8_text_readable [OF m] array_shape_readable app
    by (auto simp: parse_operation_text_def pbind_Unreadable split: if_splits option.splits)
  then show ?thesis
    using record_bytes_readable [OF m]
    by (auto simp: parse_operation_def pbind_Unreadable Let_def split: if_splits option.splits)
qed

lemma parse_options_readable: "\<forall>x. m x \<noteq> None \<Longrightarrow> parse_options validate m pointer \<noteq> Inl Unreadable"
proof -
  assume m: "\<forall>x. m x \<noteq> None"
  have "parse_operations m a stride is t \<noteq> Inl Unreadable" for a stride "is" t
    using parse_operation_readable [OF m] by (induction "is" arbitrary: t) (auto simp: pbind_Unreadable)
  then have ops: "parse_operation_set validate m raw \<noteq> Inl Unreadable" for raw
    using array_shape_readable by (auto simp: parse_operation_set_def pbind_Unreadable split: if_splits sum.splits)
  have "decode_limits l \<noteq> Inl Unreadable" for l by (simp add: decode_limits_def)
  then have limits: "parse_limits m a \<noteq> Inl Unreadable" for a
    using record_bytes_readable [OF m] by (auto simp: parse_limits_def pbind_Unreadable)
  have codes: "parse_kind v \<noteq> Inl Unreadable" "parse_algorithm v \<noteq> Inl Unreadable" "parse_cache_policy v c \<noteq> Inl Unreadable" for v c
    by (simp_all add: parse_kind_def parse_algorithm_def parse_cache_policy_def)
  show ?thesis
    using record_bytes_readable [OF m] ops limits codes
    by (auto simp: parse_options_def pbind_Unreadable Let_def split: if_splits)
qed

lemma parse_options_promise:
  assumes "\<forall>x. promised m pointer x \<longrightarrow> m x \<noteq> None"
  shows "parse_options validate m pointer \<noteq> Inl Unreadable"
proof -
  let ?full = "\<lambda>x. case m x of None \<Rightarrow> Some 0 | Some b \<Rightarrow> Some b"
  have "parse_options validate ?full pointer = parse_options validate m pointer"
    by (rule parse_options_agree) (use assms in auto)
  moreover have "parse_options validate ?full pointer \<noteq> Inl Unreadable"
    by (rule parse_options_readable) (auto split: option.split)
  ultimately show ?thesis by simp
qed

text \<open>
  C18: the parser reads only what the caller promised. In any memory that agrees on the promised bytes it
  has the same result, with the same message; and when every promised byte can be read, no read
  leaves readable memory, whatever the bytes are.
\<close>

theorem parse_options_memory_safe:
  assumes "\<forall>x. promised m pointer x \<longrightarrow> m' x = m x"
  shows "parse_options validate m' pointer = parse_options validate m pointer \<and>
    ((\<forall>x. promised m pointer x \<longrightarrow> m x \<noteq> None) \<longrightarrow> parse_options validate m' pointer \<noteq> Inl Unreadable)"
  using parse_options_agree [OF assms] parse_options_promise by metis

lemma sample_promised:
  assumes "promised sample_memory 8 x"
  shows "8 \<le> x \<and> x < 209"
proof -
  have inside: "8 \<le> x \<and> x < 209" if "in_record sample_memory base available x" and "base \<in> {8, 104}" for base available
    using that sample_read [of 8 16] sample_read [of 104 16]
    by (auto simp: in_record_def u32_at_def sample_bytes_def le_nat_bytes)
  have options: "read_bytes sample_memory 8 options_size = Some bs \<Longrightarrow> bs = take 96 sample_bytes" for bs
    using sample_read [of 8 96] by (simp add: options_size_def)
  from assms show ?thesis
  proof cases
    case promised_options
    then show ?thesis using inside by blast
  next
    case (promised_limits bs)
    then show ?thesis using options sample_options_of by auto
  next
    case (promised_operations bs raw n i)
    have raw: "raw = options_of (take 96 sample_bytes)" using promised_operations(1,2) options by blast
    have "n = 1" using promised_operations(3) by (simp add: raw sample_options_of array_laid_def)
    then have inner: "promised_operation sample_memory 104 104 x" using promised_operations(4,5) by (simp add: raw sample_options_of)
    have operation: "read_bytes sample_memory 104 operation_size = Some bo \<Longrightarrow> bo = take 104 (drop 96 sample_bytes)" for bo
      using sample_read [of 104 104] by (simp add: operation_size_def)
    from inner show ?thesis
    proof cases
      case operation_record
      then show ?thesis using inside by blast
    next
      case (operation_name bo)
      then have "in_text 208 1 x" using operation sample_operation_of by auto
      then show ?thesis by (simp add: in_text_def)
    next
      case (operation_pair bo op k j)
      then have "op = operation_of (take 104 (drop 96 sample_bytes))" using operation by blast
      then show ?thesis using operation_pair(3,4) by (simp add: sample_operation_of array_laid_def)
    qed
  qed
qed

theorem parse_options_memory_safe_witness:
  "parse_options (\<lambda>_. Inr ()) (\<lambda>x. if x < 8 \<or> 209 \<le> x then Some 255 else sample_memory x) 8 = Inr sample_options"
proof -
  let ?other = "\<lambda>x. if x < 8 \<or> 209 \<le> x then Some 255 else sample_memory x"
  have "\<forall>x. promised sample_memory 8 x \<longrightarrow> ?other x = sample_memory x"
  proof (intro allI impI)
    fix x assume "promised sample_memory 8 x"
    then have "8 \<le> x \<and> x < 209" by (rule sample_promised)
    then show "?other x = sample_memory x" by simp
  qed
  then show ?thesis using parse_options_memory_safe [of sample_memory 8 ?other "\<lambda>_. Inr ()"] sample_parse by simp
qed

end
