(* ===== verification/Ffi_Output.thy ===== *)
theory Ffi_Output
  imports Ffi_Parsing
begin

text \<open>
  \<open>src/ffi.rs\<close>: the helpers of the entry points. Errors set the message of the thread and become a status
  at the boundary; output records are validated before anything is written, and then written whole, with
  zeros in the fields that only the caller's newer version knows.
\<close>

section \<open>The boundary\<close>

text \<open>The message as a C string: a NUL is written as a backslash and a zero.\<close>

definition c_message :: "string \<Rightarrow> string" where
  "c_message message = concat (map (\<lambda>c. if c = CHR 0x00 then [CHR 0x5C, CHR ''0''] else [c]) message)"

text \<open>
  What an entry point does: \<open>None\<close> is a panic. The boundary gives the status and the message of the
  thread afterwards; a read of unreadable memory has no status.
\<close>

definition ffi_boundary :: "unit parsed option \<Rightarrow> string \<Rightarrow> (duallity_status \<times> string) option" where
  "ffi_boundary operation last_error =
     (case operation of
        None \<Rightarrow> Some (StatusPanic, c_message ''panic caught at duallity C boundary'')
      | Some (Inr _) \<Rightarrow> Some (StatusOk, last_error)
      | Some (Inl (Rejected status message)) \<Rightarrow> Some (status, c_message message)
      | Some (Inl Unreadable) \<Rightarrow> None)"

section \<open>Pointers and texts\<close>

definition output_slot :: "address \<Rightarrow> string \<Rightarrow> address parsed" where
  "output_slot pointer name =
     (if pointer = 0 then reject StatusNullPointer (name @ '' is null'') else Inr pointer)"

definition checked_pointer :: "address \<Rightarrow> usize \<Rightarrow> string \<Rightarrow> address parsed" where
  "checked_pointer pointer align name =
     (if pointer = 0 then reject StatusNullPointer (name @ '' is null'')
      else if pointer mod align \<noteq> 0 then reject StatusInvalidArgument (name @ '' is not aligned'')
      else Inr pointer)"

definition query_text :: "foreign_memory \<Rightarrow> address \<Rightarrow> usize \<Rightarrow> uchar list parsed" where
  "query_text m data len =
     (if data = 0 \<and> len \<noteq> 0 then reject StatusNullPointer ''query data is null''
      else pbind (if len = 0 then Inr [] else read_at m data len) (\<lambda>bytes.
        case utf8_decode (map unat bytes) of
          None \<Rightarrow> reject StatusInvalidUtf8 ''query is not valid UTF-8''
        | Some str \<Rightarrow> Inr str))"

section \<open>Output records\<close>

definition sized_output_extent :: "foreign_memory \<Rightarrow> address \<Rightarrow> usize \<Rightarrow> string \<Rightarrow> usize parsed" where
  "sized_output_extent m pointer known name =
     pbind (checked_pointer pointer record_align name) (\<lambda>pointer.
       pbind (read_at m pointer 16) (\<lambda>header.
         let extent = unat (u32_at header 0)
         in if extent < known
            then reject StatusLimitExceeded (name @ '' needs at least '' @ show_nat known @ '' bytes'')
            else if extent > config_max_record_bytes \<or> u32_at header 4 \<noteq> config_record_version \<or> u64_at header 8 \<noteq> 0
            then reject StatusInvalidArgument (name @ '' has an unsupported size, version, or reserved field'')
            else Inr extent))"

text \<open>\<open>write_sized\<close>: zeros into the tail, then the record.\<close>

definition write_bytes :: "address \<Rightarrow> byte list \<Rightarrow> foreign_memory \<Rightarrow> foreign_memory" where
  "write_bytes a bs m = (\<lambda>x. if a \<le> x \<and> x < a + length bs then Some (bs ! (x - a)) else m x)"

definition write_sized :: "address \<Rightarrow> usize \<Rightarrow> byte list \<Rightarrow> foreign_memory \<Rightarrow> foreign_memory" where
  "write_sized pointer extent value m =
     (let known = length value
      in write_bytes pointer value
           (if extent > known then write_bytes (pointer + known) (replicate (extent - known) 0) m else m))"

text \<open>The bytes of an options record.\<close>

definition header_bytes :: "usize \<Rightarrow> byte list" where
  "header_bytes n = le_bytes 4 n @ le_bytes 4 (unat config_record_version) @ le_bytes 8 0"

definition options_bytes :: "options_v1 \<Rightarrow> byte list" where
  "options_bytes r =
     header_bytes options_size @ le_bytes 4 (unat (wv_kind r)) @ le_bytes 4 (unat (wv_algorithm r)) @
     le_bytes 8 (unat (wv_maximum_distance r)) @ le_bytes 4 (unat (wv_cache_policy r)) @ le_bytes 4 (unat (wv_reserved_zero r)) @
     le_bytes 8 (unat (wv_cache_capacity r)) @ le_bytes 8 (wv_limits r) @ le_bytes 8 (wv_operations r) @
     le_bytes 8 (unat (wv_operation_count r)) @ le_bytes 8 (unat (wv_operation_stride r)) @
     concat (map (\<lambda>w. le_bytes 8 (unat w)) (wv_reserved r))"

definition options_default :: options_v1 where
  "options_default =
     \<lparr>wv_kind = kind_code KindLevenshtein, wv_algorithm = 0, wv_maximum_distance = 2, wv_cache_policy = 0, wv_reserved_zero = 0,
      wv_cache_capacity = 0, wv_limits = 0, wv_operations = 0, wv_operation_count = 0, wv_operation_stride = 0, wv_reserved = [0, 0]\<rparr>"

text \<open>\<open>duallity_wfst_options_default\<close>: the memory after a success.\<close>

definition wfst_options_default :: "foreign_memory \<Rightarrow> address \<Rightarrow> foreign_memory parsed" where
  "wfst_options_default m out_options =
     pbind (sized_output_extent m out_options options_size ''out_options'') (\<lambda>extent.
       Inr (write_sized out_options extent (options_bytes options_default) m))"

section \<open>What is written\<close>

lemma read_write_bytes: "read_bytes (write_bytes a bs m) a (length bs) = Some bs"
  by (simp add: read_bytes_Some write_bytes_def)

lemma read_write_other:
  assumes "a + n \<le> b \<or> b + length bs \<le> a"
  shows "read_bytes (write_bytes b bs m) a n = read_bytes m a n"
  unfolding read_bytes_def using assms by (intro arg_cong [where f = those]) (auto simp: write_bytes_def)

lemma read_bytes_0 [simp]: "read_bytes m a 0 = Some []"
  by (simp add: read_bytes_def)

lemma write_sized_other:
  "x < pointer \<or> pointer + max extent (length value) \<le> x \<Longrightarrow> write_sized pointer extent value m x = m x"
  by (auto simp: write_sized_def Let_def write_bytes_def)

lemma write_sized_holds:
  "holds (write_sized pointer extent value m) pointer value \<and>
   holds (write_sized pointer extent value m) (pointer + length value) (replicate (extent - length value) 0)"
proof -
  have "read_bytes (write_bytes pointer value k) (pointer + length value) n = read_bytes k (pointer + length value) n" for k n
    by (rule read_write_other) simp
  moreover have "read_bytes (write_bytes (pointer + length value) (replicate (extent - length value) 0) m)
      (pointer + length value) (extent - length value) = Some (replicate (extent - length value) 0)"
    using read_write_bytes [of "pointer + length value" "replicate (extent - length value) 0" m] by simp
  ultimately show ?thesis
    by (auto simp: holds_def write_sized_def Let_def read_write_bytes)
qed

lemma u32_of_nat_mod: "(of_nat (unat (w :: u32) mod 256 ^ 4) :: u32) = w"
  using unat_less_exp [of w] by simp

lemma u64_of_nat_mod: "(of_nat (unat (w :: u64) mod 256 ^ 8) :: u64) = w"
  using unat_less_exp [of w] by simp

lemma options_default_bytes: "options_of (options_bytes options_default) = options_default"
  "length (options_bytes options_default) = options_size"
  "u32_at (options_bytes options_default) 0 = 96" "u32_at (options_bytes options_default) 4 = config_record_version"
  "u64_at (options_bytes options_default) 8 = 0"
  by (simp_all add: options_of_def options_bytes_def options_default_def header_bytes_def u32_at_def u64_at_def pointer_at_def le_nat_bytes
      options_size_def config_record_version_def)

text \<open>The defaults with another size in the header: the caller's extent stays where it was.\<close>

lemma sized_output_extent_Inr:
  assumes "sized_output_extent m pointer known name = Inr extent"
  shows "pointer \<noteq> 0 \<and> pointer mod record_align = 0 \<and> known \<le> extent \<and> extent \<le> config_max_record_bytes"
  using assms by (auto simp: sized_output_extent_def checked_pointer_def pbind_Inr Let_def split: if_splits)

text \<open>
  C24: default options are valid options. Whatever extent the caller declares, a call that succeeds writes
  nothing outside it, and parsing what was written gives the standard Levenshtein configuration with
  distance 2, everything cached and no limits or operations.
\<close>

theorem options_default_parse:
  assumes "wfst_options_default m out = Inr m'"
  shows "parse_options validate m' out =
      Inr \<lparr>po_kind = KindLevenshtein, po_algorithm = EditStandard, po_maximum_distance = 2, po_cache_policy = RequestCacheAll,
           po_limits = None, po_operations = None\<rparr> \<and>
    (\<exists>extent. sized_output_extent m out options_size ''out_options'' = Inr extent \<and>
       (\<forall>x. x < out \<or> out + extent \<le> x \<longrightarrow> m' x = m x))"
proof -
  obtain extent where extent: "sized_output_extent m out options_size ''out_options'' = Inr extent"
    and m': "m' = write_sized out extent (options_bytes options_default) m"
    using assms by (auto simp: wfst_options_default_def pbind_Inr)
  note p = sized_output_extent_Inr [OF extent]
  note bytes = options_default_bytes
  have "holds m' out (options_bytes options_default)" unfolding m' using write_sized_holds by blast
  then have "record_laid m' out options_size config_max_record_bytes (options_bytes options_default)"
    using p bytes by (simp add: record_laid_def options_size_def config_max_record_bytes_def Let_def holds_def)
  then have "options_laid m' out \<lparr>cf_kind = KindLevenshtein, cf_algorithm = EditStandard, cf_distance = 2, cf_policy = RequestCacheAll,
      cf_limits = None, cf_operations = []\<rparr>"
    using bytes(1) by (auto simp: options_laid_def options_default_def limits_laid_def array_laid_def)
  moreover have "valid_configuration validate \<lparr>cf_kind = KindLevenshtein, cf_algorithm = EditStandard, cf_distance = 2,
      cf_policy = RequestCacheAll, cf_limits = None, cf_operations = []\<rparr>"
    by (simp add: valid_configuration_def valid_limits_def)
  ultimately have "parse_options validate m' out = Inr (parsed_of \<lparr>cf_kind = KindLevenshtein, cf_algorithm = EditStandard, cf_distance = 2,
      cf_policy = RequestCacheAll, cf_limits = None, cf_operations = []\<rparr>)"
    unfolding parse_options_iff by blast
  moreover have "max extent (length (options_bytes options_default)) = extent" using p bytes(2) by simp
  then have "\<forall>x. x < out \<or> out + extent \<le> x \<longrightarrow> m' x = m x"
    unfolding m' using write_sized_other [of _ out extent "options_bytes options_default" m] by simp
  ultimately show ?thesis using extent by (auto simp: parsed_of_def)
qed

text \<open>A caller with a record of 100 bytes at 8.\<close>

definition caller_memory :: foreign_memory where
  "caller_memory x = (if 8 \<le> x then nth_opt (header_bytes 100 @ replicate 84 7) (x - 8) else None)"

theorem options_default_parse_witness:
  "\<exists>m'. wfst_options_default caller_memory 8 = Inr m' \<and> po_maximum_distance (case parse_options (\<lambda>_. Inr ()) m' 8 of Inr p \<Rightarrow> p) = 2"
proof -
  have "read_bytes caller_memory 8 16 = Some (header_bytes 100)"
    by (auto simp: read_bytes_Some caller_memory_def nth_opt_def header_bytes_def nth_append)
  moreover have "u32_at (header_bytes 100) 0 = 100" "u32_at (header_bytes 100) 4 = config_record_version" "u64_at (header_bytes 100) 8 = 0"
    by (simp_all add: header_bytes_def u32_at_def u64_at_def le_nat_bytes config_record_version_def)
  ultimately have "\<exists>m'. wfst_options_default caller_memory 8 = Inr m'"
    by (simp add: wfst_options_default_def sized_output_extent_def checked_pointer_def record_align_def read_at_def options_size_def
        config_max_record_bytes_def)
  then obtain m' where m': "wfst_options_default caller_memory 8 = Inr m'" by blast
  then show ?thesis using options_default_parse [OF m', of "\<lambda>_. Inr ()"] by auto
qed

end
