(* ===== verification/Ffi_Inspection.thy ===== *)
theory Ffi_Inspection
  imports Ffi_Output
begin

text \<open>
  \<open>src/ffi/inspection.rs\<close> with \<open>effective_policy\<close> of \<open>src/ffi/cache.rs\<close>: the copy of its options that a handle
  keeps, in boxes of its own, and the record that reads them back. The boxes are listed in the order
  of their allocation; where the allocator puts the \<open>k\<close>-th is a parameter. The order in which a
  substitution set lists its pairs and the bits of an \<open>f64\<close> are parameters too.
\<close>

type_synonym boxes = "(address \<times> byte list) list"

text \<open>\<open>wire\<close>: a count as it is written.\<close>

definition wire :: "usize \<Rightarrow> string \<Rightarrow> u64 parsed" where
  "wire value name =
     (if value < 2 ^ 64 then Inr (of_nat value)
      else reject StatusLimitExceeded (name @ '' exceeds the revision-3 wire range''))"

fun algorithm_value :: "edit_algorithm \<Rightarrow> u32 parsed" where
  "algorithm_value EditStandard = Inr 0"
| "algorithm_value EditTransposition = Inr 1"
| "algorithm_value EditMergeAndSplit = Inr 2"
| "algorithm_value EditDamerauLevenshtein = Inr 3"

definition limits_record :: "gen_limits \<Rightarrow> limits_v1 parsed" where
  "limits_record l =
     pbind (wire (max_query_bytes l) ''max_query_bytes'') (\<lambda>qb.
     pbind (wire (max_query_scalars l) ''max_query_scalars'') (\<lambda>qs.
     pbind (wire (max_operation_source_scalars l) ''max_operation_source_scalars'') (\<lambda>os.
     pbind (wire (max_operation_query_scalars l) ''max_operation_query_scalars'') (\<lambda>oq.
     pbind (wire (max_retained_dictionary_nodes l) ''max_retained_dictionary_nodes'') (\<lambda>dn.
     pbind (wire (max_retained_wfst_states l) ''max_retained_wfst_states'') (\<lambda>ws.
     pbind (wire (max_paths_per_expansion l) ''max_paths_per_expansion'') (\<lambda>pe.
     pbind (wire (max_work_units_per_expansion l) ''max_work_units_per_expansion'') (\<lambda>wu.
       Inr \<lparr>lv_max_query_bytes = qb, lv_max_query_scalars = qs, lv_max_operation_source_scalars = os,
            lv_max_operation_query_scalars = oq, lv_max_retained_dictionary_nodes = dn, lv_max_retained_wfst_states = ws,
            lv_max_paths_per_expansion = pe, lv_max_work_units_per_expansion = wu, lv_reserved = [0, 0]\<rparr>))))))))"

definition own_bytes :: "(nat \<Rightarrow> address) \<Rightarrow> byte list \<Rightarrow> boxes \<Rightarrow> address \<times> boxes" where
  "own_bytes place bs boxes = (place (length boxes), boxes @ [(place (length boxes), bs)])"

text \<open>The bytes of the records.\<close>

definition word8 :: "nat list \<Rightarrow> byte list" where
  "word8 = map of_nat"

definition restriction_bytes :: "restriction_v1 \<Rightarrow> byte list" where
  "restriction_bytes r =
     header_bytes restriction_size @ le_bytes 8 (rv_source_data r) @ le_bytes 8 (unat (rv_source_len r)) @
     le_bytes 8 (rv_target_data r) @ le_bytes 8 (unat (rv_target_len r)) @ concat (map (\<lambda>w. le_bytes 8 (unat w)) (rv_reserved r))"

definition operation_bytes :: "(f64 \<Rightarrow> u64) \<Rightarrow> operation_v1 \<Rightarrow> byte list" where
  "operation_bytes bits r =
     header_bytes operation_size @ le_bytes 8 (unat (ov_consume_x r)) @ le_bytes 8 (unat (ov_consume_y r)) @
     le_bytes 8 (unat (bits (ov_weight r))) @ le_bytes 4 (unat (ov_applicability r)) @ le_bytes 4 (unat (ov_reserved_zero r)) @
     le_bytes 8 (ov_name_data r) @ le_bytes 8 (unat (ov_name_len r)) @ le_bytes 8 (ov_restrictions r) @
     le_bytes 8 (unat (ov_restriction_count r)) @ le_bytes 8 (unat (ov_restriction_stride r)) @
     concat (map (\<lambda>w. le_bytes 8 (unat w)) (ov_reserved r))"

definition limits_bytes :: "limits_v1 \<Rightarrow> byte list" where
  "limits_bytes r =
     header_bytes limits_size @ le_bytes 8 (unat (lv_max_query_bytes r)) @ le_bytes 8 (unat (lv_max_query_scalars r)) @
     le_bytes 8 (unat (lv_max_operation_source_scalars r)) @ le_bytes 8 (unat (lv_max_operation_query_scalars r)) @
     le_bytes 8 (unat (lv_max_retained_dictionary_nodes r)) @ le_bytes 8 (unat (lv_max_retained_wfst_states r)) @
     le_bytes 8 (unat (lv_max_paths_per_expansion r)) @ le_bytes 8 (unat (lv_max_work_units_per_expansion r)) @
     concat (map (\<lambda>w. le_bytes 8 (unat w)) (lv_reserved r))"

section \<open>Building the copy\<close>

fun own_pairs :: "(nat \<Rightarrow> address) \<Rightarrow> (nat list \<times> nat list) list \<Rightarrow> boxes \<Rightarrow> (restriction_v1 list \<times> boxes) parsed" where
  "own_pairs place [] boxes = Inr ([], boxes)"
| "own_pairs place ((source, target) # pairs) boxes =
     (case own_bytes place (word8 source) boxes of (source_data, boxes1) \<Rightarrow>
        pbind (wire (length source) ''restriction source length'') (\<lambda>source_len.
          case own_bytes place (word8 target) boxes1 of (target_data, boxes2) \<Rightarrow>
            pbind (wire (length target) ''restriction target length'') (\<lambda>target_len.
              pbind (own_pairs place pairs boxes2) (\<lambda>(records, boxes3).
                Inr (\<lparr>rv_source_data = source_data, rv_source_len = source_len, rv_target_data = target_data,
                      rv_target_len = target_len, rv_reserved = [0, 0]\<rparr> # records, boxes3)))))"

text \<open>The applicability of an operation: its code, and the pointer, count and stride of its restrictions.\<close>

definition own_applicability ::
    "(nat \<Rightarrow> address) \<Rightarrow> ((nat list \<times> nat list) set \<Rightarrow> (nat list \<times> nat list) list) \<Rightarrow> applicability \<Rightarrow> boxes \<Rightarrow>
     ((u32 \<times> address \<times> u64 \<times> u64) \<times> boxes) parsed" where
  "own_applicability place pairs_of app boxes =
     (case app of
        AnyPair \<Rightarrow> Inr ((0, 0, 0, 0), boxes)
      | EqualPair \<Rightarrow> Inr ((1, 0, 0, 0), boxes)
      | AdjacentTranspose \<Rightarrow> Inr ((2, 0, 0, 0), boxes)
      | ListedPairs set_of_pairs \<Rightarrow>
          pbind (own_pairs place (pairs_of set_of_pairs) boxes) (\<lambda>(records, boxes1).
            pbind (wire (length records) ''restriction count'') (\<lambda>count.
              case own_bytes place (concat (map restriction_bytes records)) boxes1 of
                (pointer, boxes2) \<Rightarrow> Inr ((3, pointer, count, of_nat restriction_size), boxes2))))"

definition own_operation ::
    "(nat \<Rightarrow> address) \<Rightarrow> ((nat list \<times> nat list) set \<Rightarrow> (nat list \<times> nat list) list) \<Rightarrow> named_operation \<Rightarrow> boxes \<Rightarrow>
     (operation_v1 \<times> boxes) parsed" where
  "own_operation place pairs_of nop boxes =
     (case nop of (name, op) \<Rightarrow>
        (case own_bytes place (word8 (utf8_bytes name)) boxes of (name_data, boxes1) \<Rightarrow>
           pbind (own_applicability place pairs_of (op_applicability op) boxes1) (\<lambda>((code, restrictions, count, stride), boxes2).
           pbind (wire (consume_x op) ''consume_x'') (\<lambda>cx.
           pbind (wire (consume_y op) ''consume_y'') (\<lambda>cy.
           pbind (wire (byte_len name) ''operation name length'') (\<lambda>name_len.
             Inr (\<lparr>ov_consume_x = cx, ov_consume_y = cy, ov_weight = op_weight op, ov_applicability = code, ov_reserved_zero = 0,
                   ov_name_data = name_data, ov_name_len = name_len, ov_restrictions = restrictions,
                   ov_restriction_count = count, ov_restriction_stride = stride, ov_reserved = [0, 0]\<rparr>, boxes2)))))))"

fun own_operations ::
    "(nat \<Rightarrow> address) \<Rightarrow> ((nat list \<times> nat list) set \<Rightarrow> (nat list \<times> nat list) list) \<Rightarrow> named_operation list \<Rightarrow> boxes \<Rightarrow>
     (operation_v1 list \<times> boxes) parsed" where
  "own_operations place pairs_of [] boxes = Inr ([], boxes)"
| "own_operations place pairs_of (nop # nops) boxes =
     pbind (own_operation place pairs_of nop boxes) (\<lambda>(r, boxes1).
       pbind (own_operations place pairs_of nops boxes1) (\<lambda>(rs, boxes2). Inr (r # rs, boxes2)))"

text \<open>\<open>OwnedOptions\<close>: the kind, the record, and the boxes that its pointers point into.\<close>

record owned_options =
  oo_kind :: wfst_kind
  oo_record :: options_v1
  oo_boxes :: boxes

definition own_limits :: "(nat \<Rightarrow> address) \<Rightarrow> gen_limits option \<Rightarrow> (address \<times> boxes) parsed" where
  "own_limits place limits =
     (case limits of
        None \<Rightarrow> Inr (0, [])
      | Some l \<Rightarrow> pbind (limits_record l) (\<lambda>r. Inr (own_bytes place (limits_bytes r) [])))"

definition owned_build ::
    "(nat \<Rightarrow> address) \<Rightarrow> (f64 \<Rightarrow> u64) \<Rightarrow> ((nat list \<times> nat list) set \<Rightarrow> (nat list \<times> nat list) list) \<Rightarrow>
     wfst_kind \<Rightarrow> edit_algorithm \<Rightarrow> usize \<Rightarrow> gen_limits option \<Rightarrow> named_operation list option \<Rightarrow> owned_options parsed" where
  "owned_build place bits pairs_of kind algo distance limits operations =
     pbind (own_limits place limits) (\<lambda>(limits_pointer, boxes).
     pbind (own_operations place pairs_of (case operations of None \<Rightarrow> [] | Some ops \<Rightarrow> ops) boxes) (\<lambda>(records, boxes1).
       case own_bytes place (concat (map (operation_bytes bits) records)) boxes1 of (operations_pointer, boxes2) \<Rightarrow>
     pbind (wire (length records) ''operation count'') (\<lambda>count.
     pbind (if kind = KindLevenshtein then algorithm_value algo else Inr 0) (\<lambda>algorithm_code.
     pbind (if kind = KindFzf then Inr 0 else wire distance ''maximum distance'') (\<lambda>wire_distance.
       Inr \<lparr>oo_kind = kind,
            oo_record =
              \<lparr>wv_kind = kind_code kind, wv_algorithm = algorithm_code, wv_maximum_distance = wire_distance,
               wv_cache_policy = 0, wv_reserved_zero = 0, wv_cache_capacity = 0, wv_limits = limits_pointer,
               wv_operations = (if count = 0 then 0 else operations_pointer), wv_operation_count = count,
               wv_operation_stride = (if count = 0 then 0 else of_nat operation_size), wv_reserved = [0, 0]\<rparr>,
            oo_boxes = boxes2\<rparr>)))))"

definition owned_from_parsed ::
    "(nat \<Rightarrow> address) \<Rightarrow> (f64 \<Rightarrow> u64) \<Rightarrow> ((nat list \<times> nat list) set \<Rightarrow> (nat list \<times> nat list) list) \<Rightarrow>
     parsed_options \<Rightarrow> owned_options parsed" where
  "owned_from_parsed place bits pairs_of p =
     owned_build place bits pairs_of (po_kind p) (po_algorithm p) (po_maximum_distance p) (po_limits p) (po_operations p)"

definition owned_legacy ::
    "(nat \<Rightarrow> address) \<Rightarrow> (f64 \<Rightarrow> u64) \<Rightarrow> ((nat list \<times> nat list) set \<Rightarrow> (nat list \<times> nat list) list) \<Rightarrow>
     wfst_kind \<Rightarrow> edit_algorithm \<Rightarrow> usize \<Rightarrow> owned_options parsed" where
  "owned_legacy place bits pairs_of kind algo distance = owned_build place bits pairs_of kind algo distance None None"

section \<open>Reading it back\<close>

text \<open>\<open>wire_count\<close> of the cache saturates; the policy of the resource is a parameter.\<close>

definition wire_count :: "usize \<Rightarrow> u64" where
  "wire_count value = (if value < 2 ^ 64 then of_nat value else - 1)"

fun effective_policy :: "shared_cache_policy \<Rightarrow> u32 \<times> u64" where
  "effective_policy SharedCacheAll = (0, 0)"
| "effective_policy SharedNoCache = (1, 0)"
| "effective_policy (SharedLru capacity) = (2, wire_count capacity)"

definition owned_readback :: "owned_options \<Rightarrow> shared_cache_policy \<Rightarrow> options_v1" where
  "owned_readback o' policy =
     (oo_record o')\<lparr>wv_cache_policy := fst (effective_policy policy), wv_cache_capacity := snd (effective_policy policy)\<rparr>"

end
