(* ===== verification/Ffi_Readback.thy ===== *)
theory Ffi_Readback
  imports Ffi_Inspection "HOL-Library.List_Lexorder" "HOL-Library.Product_Lexorder"
begin

text \<open>
  Reading options back gives the options. The records that a handle builds, wherever its boxes are
  placed, lay out the configuration that was parsed; so parsing the record that is read back gives the
  parsed options again, with the cache policy now in force.
\<close>

section \<open>Records and their bytes\<close>

lemma u32_wrap [simp]: "(of_nat (unat (w :: u32) mod 4294967296) :: u32) = w"
  using unat_less_exp [of w] by simp

lemma u64_wrap [simp]: "(of_nat (unat (w :: u64) mod 18446744073709551616) :: u64) = w"
  using unat_less_exp [of w] by simp

lemma pointer_wrap: "a < 18446744073709551616 \<Longrightarrow> unat (of_nat a :: u64) = a"
  by (simp add: unat_of_nat)

lemmas bytes_simps = u32_at_def u64_at_def pointer_at_def header_bytes_def le_nat_bytes pointer_wrap

lemma restriction_of_bytes:
  assumes "rv_source_data r < 2 ^ 64" and "rv_target_data r < 2 ^ 64" and "rv_reserved r = [0, 0]"
  shows "restriction_of (restriction_bytes r) = r" and "length (restriction_bytes r) = restriction_size"
    and "\<exists>rest. restriction_bytes r = header_bytes restriction_size @ rest"
  using assms by (simp_all add: restriction_of_def restriction_bytes_def bytes_simps restriction_size_def)

lemma operation_of_bytes:
  assumes "ov_name_data r < 2 ^ 64" and "ov_restrictions r < 2 ^ 64" and "ov_reserved r = [0, 0]"
    and "f64_from_bits (bits (ov_weight r)) = ov_weight r"
  shows "operation_of (operation_bytes bits r) = r" and "length (operation_bytes bits r) = operation_size"
    and "\<exists>rest. operation_bytes bits r = header_bytes operation_size @ rest"
  using assms by (simp_all add: operation_of_def operation_bytes_def bytes_simps operation_size_def)

lemma limits_of_bytes:
  assumes "lv_reserved r = [0, 0]"
  shows "limits_of (limits_bytes r) = r" and "length (limits_bytes r) = limits_size"
    and "\<exists>rest. limits_bytes r = header_bytes limits_size @ rest"
  using assms by (simp_all add: limits_of_def limits_bytes_def bytes_simps limits_size_def)

lemma options_of_bytes:
  assumes "wv_limits r < 2 ^ 64" and "wv_operations r < 2 ^ 64" and "wv_reserved r = [0, 0]"
  shows "options_of (options_bytes r) = r" and "length (options_bytes r) = options_size"
    and "\<exists>rest. options_bytes r = header_bytes options_size @ rest"
  using assms by (simp_all add: options_of_def options_bytes_def bytes_simps options_size_def)

lemma record_laid_bytes:
  assumes "holds m a bs" and "a \<noteq> 0" and "a mod record_align = 0" and "length bs = n" and "bs = header_bytes n @ rest"
    and "n \<le> available" and "n \<le> config_max_record_bytes"
  shows "record_laid m a n available bs"
proof -
  have "n < 4294967296" using assms(7) by (simp add: config_max_record_bytes_def)
  then have "u32_at bs 0 = of_nat n" "unat (of_nat n :: u32) = n" "u32_at bs 4 = config_record_version" "u64_at bs 8 = 0"
    unfolding assms(5) by (simp_all add: bytes_simps config_record_version_def unat_of_nat)
  then show ?thesis using assms by (simp add: record_laid_def Let_def holds_def)
qed

lemma holds_array:
  assumes "holds m a (concat (map f xs))" and "\<forall>x \<in> set xs. length (f x) = k" and "i < length xs"
  shows "holds m (a + i * k) (f (xs ! i))"
  using assms
proof (induction xs arbitrary: a i)
  case (Cons x xs)
  let ?rest = "concat (map f xs)"
  have len: "length (f x) = k" using Cons.prems(2) by simp
  show ?case
  proof (cases i)
    case 0
    then show ?thesis using holds_take [OF Cons.prems(1), of k] len by (simp add: holds_def)
  next
    case (Suc j)
    have "read_bytes m (a + k) (length ?rest) = Some ?rest"
      using holds_drop [OF Cons.prems(1), of k "length ?rest"] len by simp
    then have "holds m (a + k) ?rest" by (simp add: holds_def)
    then have "holds m (a + k + j * k) (f (xs ! j))" by (rule Cons.IH) (use Cons.prems Suc in simp_all)
    then show ?thesis using Suc by (simp add: algebra_simps)
  qed
qed simp

section \<open>Boxes\<close>

text \<open>
  Memory in which every box is where the allocator put it. Arrays of records are aligned; texts are asked to
  be aligned like them, which is more than the readers need.
\<close>

definition boxes_held :: "foreign_memory \<Rightarrow> boxes \<Rightarrow> bool" where
  "boxes_held m boxes \<longleftrightarrow> (\<forall>(a, bs) \<in> set boxes. holds m a bs \<and> a \<noteq> 0 \<and> a < 2 ^ 64 \<and> a mod record_align = 0)"

definition plain_text :: "uchar list \<Rightarrow> bool" where
  "plain_text cs \<longleftrightarrow> cs \<noteq> [] \<and> (\<forall>c \<in> set cs. is_scalar c) \<and> byte_len cs < 2 ^ 64"

lemma utf8_encode_bytes: "is_scalar c \<Longrightarrow> \<forall>b \<in> set (utf8_encode c). b < 256"
  by (erule scalar_cases) (auto simp: utf8_encode_2 utf8_encode_3 utf8_encode_4, simp add: utf8_encode_def)

lemma unat_word8:
  assumes "\<forall>c \<in> set cs. is_scalar c"
  shows "map unat (word8 (utf8_bytes cs)) = utf8_bytes cs"
proof -
  have "b < 256" if "b \<in> set (utf8_bytes cs)" for b
    using that assms utf8_encode_bytes by (auto simp: utf8_bytes_def)
  then show ?thesis by (auto simp: word8_def unat_of_nat intro!: map_idI)
qed

lemma text_box:
  assumes "holds m a (word8 (utf8_bytes cs))" and "a \<noteq> 0" and "plain_text cs"
  shows "text_laid m a (of_nat (byte_len cs)) cs"
  unfolding text_laid_def
proof (intro conjI exI [of _ "word8 (utf8_bytes cs)"])
  have "byte_len cs < 18446744073709551616" using assms(3) by (simp add: plain_text_def)
  then show "length (word8 (utf8_bytes cs)) = unat (of_nat (byte_len cs) :: u64)"
    by (simp add: word8_def byte_len_def unat_of_nat)
qed (use assms unat_word8 in \<open>auto simp: plain_text_def\<close>)

text \<open>A restriction record points at the texts of a pair.\<close>

definition restriction_for :: "foreign_memory \<Rightarrow> restriction_v1 \<Rightarrow> uchar list \<times> uchar list \<Rightarrow> bool" where
  "restriction_for m r p \<longleftrightarrow> rv_source_data r < 2 ^ 64 \<and> rv_target_data r < 2 ^ 64 \<and> rv_reserved r = [0, 0] \<and>
     text_laid m (rv_source_data r) (rv_source_len r) (fst p) \<and> text_laid m (rv_target_data r) (rv_target_len r) (snd p)"

lemma own_pairs_ok:
  "\<forall>p \<in> set qs. plain_text (fst p) \<and> plain_text (snd p) \<Longrightarrow>
   \<exists>rs extra. own_pairs place (map pair_bytes qs) boxes = Inr (rs, boxes @ extra) \<and> length rs = length qs \<and>
     (\<forall>m. boxes_held m (boxes @ extra) \<longrightarrow> list_all2 (restriction_for m) rs qs)"
proof (induction qs arbitrary: boxes)
  case (Cons q qs)
  have q: "plain_text (fst q)" "plain_text (snd q)" using Cons.prems by simp_all
  let ?a = "place (length boxes)" and ?b = "place (Suc (length boxes))"
  let ?two = "[(?a, word8 (utf8_bytes (fst q))), (?b, word8 (utf8_bytes (snd q)))]"
  obtain rs extra where IH: "own_pairs place (map pair_bytes qs) (boxes @ ?two) = Inr (rs, (boxes @ ?two) @ extra)" "length rs = length qs"
    "\<forall>m. boxes_held m ((boxes @ ?two) @ extra) \<longrightarrow> list_all2 (restriction_for m) rs qs"
    using Cons.IH [of "boxes @ ?two"] Cons.prems by auto
  let ?r = "\<lparr>rv_source_data = ?a, rv_source_len = of_nat (byte_len (fst q)), rv_target_data = ?b,
      rv_target_len = of_nat (byte_len (snd q)), rv_reserved = [0, 0]\<rparr>"
  have small: "length (utf8_bytes (fst q)) < 18446744073709551616" "length (utf8_bytes (snd q)) < 18446744073709551616"
    using q by (simp_all add: plain_text_def byte_len_def)
  have "own_pairs place (map pair_bytes (q # qs)) boxes = Inr (?r # rs, boxes @ (?two @ extra))"
    using IH(1) small by (simp add: pair_bytes_def own_bytes_def wire_def byte_len_def)
  moreover have "list_all2 (restriction_for m) (?r # rs) (q # qs)" if held: "boxes_held m (boxes @ (?two @ extra))" for m
  proof -
    have "holds m ?a (word8 (utf8_bytes (fst q))) \<and> ?a \<noteq> 0 \<and> ?a < 2 ^ 64" "holds m ?b (word8 (utf8_bytes (snd q))) \<and> ?b \<noteq> 0 \<and> ?b < 2 ^ 64"
      using held by (simp_all add: boxes_held_def)
    then have "restriction_for m ?r q" using text_box q by (simp add: restriction_for_def)
    moreover have "list_all2 (restriction_for m) rs qs" using IH(3) held by simp
    ultimately show ?thesis by simp
  qed
  ultimately show ?case using IH(2) by (intro exI [of _ "?r # rs"] exI [of _ "?two @ extra"]) simp
qed simp

lemma restriction_array:
  assumes "holds m a (concat (map restriction_bytes rs))" and "a \<noteq> 0" and "a mod record_align = 0" and "list_all2 (restriction_for m) rs qs"
  shows "list_all2 (\<lambda>i. pair_laid m (a + i * restriction_size) restriction_size) [0..<length qs] qs"
proof (rule list_all2_all_nthI)
  fix i assume "i < length [0..<length qs]"
  then have i: "i < length qs" "i < length rs" using assms(4) by (simp_all add: list_all2_lengthD)
  have r: "restriction_for m (rs ! i) (qs ! i)" using assms(4) i by (simp add: list_all2_nthD2)
  have all: "\<forall>r \<in> set rs. length (restriction_bytes r) = restriction_size"
  proof
    fix r assume "r \<in> set rs"
    then obtain q where "restriction_for m r q" using assms(4) by (metis in_set_conv_nth list_all2_nthD)
    then show "length (restriction_bytes r) = restriction_size" by (intro restriction_of_bytes(2)) (simp_all add: restriction_for_def)
  qed
  have h: "holds m (a + i * restriction_size) (restriction_bytes (rs ! i))" by (rule holds_array [OF assms(1) all i(2)])
  note rb = restriction_of_bytes [of "rs ! i"]
  obtain rest where rest: "restriction_bytes (rs ! i) = header_bytes restriction_size @ rest" using rb(3) r by (auto simp: restriction_for_def)
  have "record_laid m (a + i * restriction_size) restriction_size restriction_size (restriction_bytes (rs ! i))"
    by (rule record_laid_bytes [OF h _ _ _ rest])
      (use assms(2,3) rb(2) r in \<open>simp_all add: restriction_for_def record_align_def restriction_size_def config_max_record_bytes_def mod_eq_0_iff_dvd\<close>)
  then have "pair_laid m (a + i * restriction_size) restriction_size (qs ! i)"
    using rb(1) r unfolding pair_laid_def restriction_for_def by (intro exI [of _ "restriction_bytes (rs ! i)"]) simp
  then show "pair_laid m (a + [0..<length qs] ! i * restriction_size) restriction_size (qs ! i)" using i by simp
qed simp

section \<open>Operations\<close>

text \<open>The pairs of a set, as some list of texts that the original list contained.\<close>

lemma pairs_as_texts: "set ps \<subseteq> pair_bytes ` A \<Longrightarrow> \<exists>qs. ps = map pair_bytes qs \<and> set qs \<subseteq> A"
proof (induction ps)
  case (Cons p ps)
  then obtain q qs where "q \<in> A" "p = pair_bytes q" "ps = map pair_bytes qs" "set qs \<subseteq> A" by auto
  then show ?case by (intro exI [of _ "q # qs"]) simp
qed simp

lemma distinct_sum_le:
  fixes f :: "'a \<Rightarrow> nat"
  assumes "distinct qs" and "set qs \<subseteq> set ps"
  shows "sum_list (map f qs) \<le> sum_list (map f ps)"
proof -
  have "sum_list (map f qs) = sum f (set qs)" using assms(1) by (simp add: sum_list_distinct_conv_sum_set)
  also have "\<dots> \<le> sum f (set ps)" using assms(2) by (intro sum_mono2) simp_all
  also have "\<dots> \<le> sum_list (map f ps)"
  proof (induction ps)
    case (Cons x ps)
    have "sum f (insert x (set ps)) \<le> f x + sum f (set ps)" by (cases "x \<in> set ps") (simp_all add: insert_absorb)
    then show ?case using Cons by simp
  qed simp
  finally show ?thesis .
qed

text \<open>What is known of the operations of a configuration that was read from memory.\<close>

definition plain_operation :: "config_operation \<Rightarrow> bool" where
  "plain_operation c \<longleftrightarrow> valid_operation c \<and> plain_text (co_name c) \<and> co_x c < 2 ^ 64 \<and> co_y c < 2 ^ 64 \<and>
     length (co_pairs c) \<le> config_max_restriction_pairs \<and> (\<forall>p \<in> set (co_pairs c). plain_text (fst p) \<and> plain_text (snd p))"

definition lists_sets :: "((nat list \<times> nat list) set \<Rightarrow> (nat list \<times> nat list) list) \<Rightarrow> bool" where
  "lists_sets pairs_of \<longleftrightarrow> (\<forall>S. finite S \<longrightarrow> set (pairs_of S) = S \<and> distinct (pairs_of S))"

text \<open>The same operation with its pairs as the set lists them.\<close>

definition relisted :: "config_operation \<Rightarrow> config_operation \<Rightarrow> bool" where
  "relisted c c' \<longleftrightarrow> (\<exists>qs. c' = c\<lparr>co_pairs := qs\<rparr> \<and> distinct qs \<and> pair_bytes ` set qs = pair_bytes ` set (co_pairs c) \<and>
     set qs \<subseteq> set (co_pairs c))"

lemma relisted_facts:
  assumes "relisted c c'"
  shows "named_operation_of c' = named_operation_of c" and "valid_operation c \<Longrightarrow> valid_operation c'"
    and "length (co_pairs c') \<le> length (co_pairs c)" and "pairs_size (co_pairs c') \<le> pairs_size (co_pairs c)"
    and "co_name c' = co_name c" and "co_x c' = co_x c" and "co_y c' = co_y c"
proof -
  obtain qs where qs: "c' = c\<lparr>co_pairs := qs\<rparr>" "distinct qs" "pair_bytes ` set qs = pair_bytes ` set (co_pairs c)" "set qs \<subseteq> set (co_pairs c)"
    using assms unfolding relisted_def by blast
  have empty: "qs = [] \<longleftrightarrow> co_pairs c = []" using qs(3) by auto
  show "named_operation_of c' = named_operation_of c" using qs(1,3) by (simp add: named_operation_of_def config_applicability_def)
  show "valid_operation c \<Longrightarrow> valid_operation c'" using qs empty by (auto simp: valid_operation_def applicability_laid_def)
  have "card (set qs) \<le> card (set (co_pairs c))" using qs(4) by (intro card_mono) simp_all
  then show "length (co_pairs c') \<le> length (co_pairs c)"
    using qs(1,2) card_length [of "co_pairs c"] by (simp add: distinct_card)
  show "pairs_size (co_pairs c') \<le> pairs_size (co_pairs c)" unfolding pairs_size_def using qs distinct_sum_le by simp
  show "co_name c' = co_name c" "co_x c' = co_x c" "co_y c' = co_y c" using qs(1) by simp_all
qed

text \<open>An operation record points at the name and the restrictions of an operation.\<close>

definition record_for :: "foreign_memory \<Rightarrow> operation_v1 \<Rightarrow> config_operation \<Rightarrow> bool" where
  "record_for m op c \<longleftrightarrow> ov_name_data op < 2 ^ 64 \<and> ov_restrictions op < 2 ^ 64 \<and>
        ov_reserved_zero op = 0 \<and> ov_reserved op = [0, 0] \<and>
        unat (ov_consume_x op) = co_x c \<and> unat (ov_consume_y op) = co_y c \<and> ov_weight op = co_weight c \<and>
        ov_applicability op = co_code c \<and> text_laid m (ov_name_data op) (ov_name_len op) (co_name c) \<and>
        array_laid (ov_restrictions op) (ov_restriction_count op) (ov_restriction_stride op) config_max_restriction_pairs
          restriction_size (length (co_pairs c)) \<and>
        list_all2 (\<lambda>i. pair_laid m (ov_restrictions op + i * unat (ov_restriction_stride op)) (unat (ov_restriction_stride op)))
          [0..<length (co_pairs c)] (co_pairs c)"

lemma own_applicability_ok:
  assumes plain: "plain_operation c" and pairs_of: "lists_sets pairs_of"
  shows "\<exists>pointer count stride extra c'. relisted c c' \<and>
    own_applicability place pairs_of (config_applicability c) boxes = Inr ((co_code c, pointer, count, stride), boxes @ extra) \<and>
    (\<forall>m. boxes_held m (boxes @ extra) \<longrightarrow> pointer < 2 ^ 64 \<and>
       array_laid pointer count stride config_max_restriction_pairs restriction_size (length (co_pairs c')) \<and>
       list_all2 (\<lambda>i. pair_laid m (pointer + i * unat stride) (unat stride)) [0..<length (co_pairs c')] (co_pairs c'))"
proof (cases "co_code c = 3")
  case False
  have app: "applicability_laid c" using plain by (simp add: plain_operation_def valid_operation_def)
  then have none: "co_pairs c = []" and "co_code c \<in> {0, 1, 2}" using False by (auto simp: applicability_laid_def)
  then have "own_applicability place pairs_of (config_applicability c) boxes = Inr ((co_code c, 0, 0, 0), boxes)"
    by (auto simp: own_applicability_def config_applicability_def)
  moreover have "relisted c c" using none by (auto simp: relisted_def intro!: exI [of _ "[]"])
  ultimately show ?thesis using none by (intro exI [of _ 0] exI [of _ "[]"] exI [of _ c]) (simp add: array_laid_def)
next
  case True
  let ?S = "pair_bytes ` set (co_pairs c)"
  have S: "set (pairs_of ?S) = ?S" "distinct (pairs_of ?S)" using pairs_of by (simp_all add: lists_sets_def)
  obtain qs where qs: "pairs_of ?S = map pair_bytes qs" "set qs \<subseteq> set (co_pairs c)" using pairs_as_texts [of "pairs_of ?S"] S(1) by blast
  have dist: "distinct qs" using S(2) qs(1) by (simp add: distinct_map)
  have rel: "relisted c (c\<lparr>co_pairs := qs\<rparr>)"
    unfolding relisted_def using qs dist S(1) by (intro exI [of _ qs]) (metis list.set_map)
  have ne: "qs \<noteq> []"
    using plain True S(1) qs(1) by (auto simp: plain_operation_def valid_operation_def applicability_laid_def)
  have few: "length qs \<le> 4096"
    using relisted_facts(3) [OF rel] plain by (simp add: plain_operation_def config_max_restriction_pairs_def)
  have texts: "\<forall>p \<in> set qs. plain_text (fst p) \<and> plain_text (snd p)" using plain qs(2) by (auto simp: plain_operation_def)
  obtain rs extra where own: "own_pairs place (map pair_bytes qs) boxes = Inr (rs, boxes @ extra)" "length rs = length qs"
    "\<forall>m. boxes_held m (boxes @ extra) \<longrightarrow> list_all2 (restriction_for m) rs qs" using own_pairs_ok [OF texts] by metis
  let ?a = "place (length (boxes @ extra))"
  let ?box = "(?a, concat (map restriction_bytes rs))"
  have "own_applicability place pairs_of (config_applicability c) boxes =
      Inr ((co_code c, ?a, of_nat (length qs), of_nat restriction_size), boxes @ (extra @ [?box]))"
    using True own(1,2) few qs(1) by (simp add: own_applicability_def config_applicability_def own_bytes_def wire_def)
  moreover have "?a < 2 ^ 64 \<and> array_laid ?a (of_nat (length qs)) (of_nat restriction_size) config_max_restriction_pairs restriction_size (length qs) \<and>
      list_all2 (\<lambda>i. pair_laid m (?a + i * unat (of_nat restriction_size :: u64)) (unat (of_nat restriction_size :: u64))) [0..<length qs] qs"
    if held: "boxes_held m (boxes @ (extra @ [?box]))" for m
  proof -
    have a: "holds m ?a (concat (map restriction_bytes rs))" "?a \<noteq> 0" "?a < 2 ^ 64" "?a mod record_align = 0" "boxes_held m (boxes @ extra)"
      using held by (simp_all add: boxes_held_def)
    have stride: "unat (of_nat restriction_size :: u64) = restriction_size" by (simp add: restriction_size_def)
    have count: "unat (of_nat (length qs) :: u64) = length qs" using few by (simp add: unat_of_nat)
    have "list_all2 (restriction_for m) rs qs" using own(3) a(5) by blast
    note arr = restriction_array [OF a(1,2,4) this]
    have "array_laid ?a (of_nat (length qs)) (of_nat restriction_size) config_max_restriction_pairs restriction_size (length qs)"
      unfolding array_laid_def stride count
      using a(2,4) ne few by (simp add: restriction_size_def config_max_restriction_pairs_def config_max_record_bytes_def record_align_def)
    then show ?thesis using a(3) arr stride by simp
  qed
  ultimately show ?thesis
    by (intro exI [of _ ?a] exI [of _ "of_nat (length qs)"] exI [of _ "of_nat restriction_size"] exI [of _ "extra @ [?box]"]
        exI [of _ "c\<lparr>co_pairs := qs\<rparr>"]) (use rel in simp)
qed

lemma own_operation_ok:
  assumes plain: "plain_operation c" and pairs_of: "lists_sets pairs_of"
  shows "\<exists>r extra c'. relisted c c' \<and> own_operation place pairs_of (named_operation_of c) boxes = Inr (r, boxes @ extra) \<and>
    (\<forall>m. boxes_held m (boxes @ extra) \<longrightarrow> record_for m r c')"
proof -
  let ?a = "place (length boxes)"
  let ?box = "(?a, word8 (utf8_bytes (co_name c)))"
  obtain pointer count stride extra c' where app: "relisted c c'"
    "own_applicability place pairs_of (config_applicability c) (boxes @ [?box]) = Inr ((co_code c, pointer, count, stride), (boxes @ [?box]) @ extra)"
    and laid: "\<forall>m. boxes_held m ((boxes @ [?box]) @ extra) \<longrightarrow> pointer < 2 ^ 64 \<and>
       array_laid pointer count stride config_max_restriction_pairs restriction_size (length (co_pairs c')) \<and>
       list_all2 (\<lambda>i. pair_laid m (pointer + i * unat stride) (unat stride)) [0..<length (co_pairs c')] (co_pairs c')"
    using own_applicability_ok [OF plain pairs_of, of place "boxes @ [?box]"] by blast
  have small: "co_x c < 18446744073709551616" "co_y c < 18446744073709551616" "byte_len (co_name c) < 18446744073709551616"
    using plain by (simp_all add: plain_operation_def plain_text_def)
  let ?r = "\<lparr>ov_consume_x = of_nat (co_x c), ov_consume_y = of_nat (co_y c), ov_weight = co_weight c, ov_applicability = co_code c,
      ov_reserved_zero = 0, ov_name_data = ?a, ov_name_len = of_nat (byte_len (co_name c)), ov_restrictions = pointer,
      ov_restriction_count = count, ov_restriction_stride = stride, ov_reserved = [0, 0]\<rparr>"
  have "own_operation place pairs_of (named_operation_of c) boxes = Inr (?r, boxes @ ([?box] @ extra))"
    using app(2) small by (simp add: own_operation_def named_operation_of_def own_bytes_def wire_def)
  moreover have "record_for m ?r c'" if held: "boxes_held m (boxes @ ([?box] @ extra))" for m
  proof -
    have a: "holds m ?a (word8 (utf8_bytes (co_name c)))" "?a \<noteq> 0" "?a < 2 ^ 64" using held by (simp_all add: boxes_held_def)
    have "text_laid m ?a (of_nat (byte_len (co_name c))) (co_name c)"
      by (rule text_box [OF a(1,2)]) (use plain in \<open>simp add: plain_operation_def\<close>)
    moreover have "co_weight c' = co_weight c" "co_code c' = co_code c" using app(1) by (auto simp: relisted_def)
    ultimately show ?thesis
      using laid held a(3) relisted_facts(5-7) [OF app(1)] small by (simp add: record_for_def pointer_wrap)
  qed
  ultimately show ?thesis using app(1) by blast
qed

lemma own_operations_ok:
  assumes pairs_of: "lists_sets pairs_of"
  shows "\<forall>c \<in> set cs. plain_operation c \<Longrightarrow>
    \<exists>rs extra cs'. list_all2 relisted cs cs' \<and> own_operations place pairs_of (map named_operation_of cs) boxes = Inr (rs, boxes @ extra) \<and>
    length rs = length cs \<and> (\<forall>m. boxes_held m (boxes @ extra) \<longrightarrow> list_all2 (record_for m) rs cs')"
proof (induction cs arbitrary: boxes)
  case (Cons c cs)
  obtain r e1 c' where one: "relisted c c'" "own_operation place pairs_of (named_operation_of c) boxes = Inr (r, boxes @ e1)"
    "\<forall>m. boxes_held m (boxes @ e1) \<longrightarrow> record_for m r c'" using own_operation_ok [OF _ pairs_of, of c] Cons.prems by (metis list.set_intros(1))
  obtain rs e2 cs' where rest: "list_all2 relisted cs cs'"
    "own_operations place pairs_of (map named_operation_of cs) (boxes @ e1) = Inr (rs, (boxes @ e1) @ e2)" "length rs = length cs"
    "\<forall>m. boxes_held m ((boxes @ e1) @ e2) \<longrightarrow> list_all2 (record_for m) rs cs'" using Cons.IH [of "boxes @ e1"] Cons.prems by auto
  have "boxes_held m (boxes @ e1)" if "boxes_held m (boxes @ (e1 @ e2))" for m using that unfolding boxes_held_def set_append by blast
  then have "\<forall>m. boxes_held m (boxes @ (e1 @ e2)) \<longrightarrow> list_all2 (record_for m) (r # rs) (c' # cs')" using one(3) rest(4) by simp
  moreover have "own_operations place pairs_of (map named_operation_of (c # cs)) boxes = Inr (r # rs, boxes @ (e1 @ e2))"
    using one(2) rest(2) by simp
  ultimately show ?case
    using one(1) rest(1,3) by (intro exI [of _ "r # rs"] exI [of _ "e1 @ e2"] exI [of _ "c' # cs'"]) simp
qed simp

lemma operation_array:
  assumes "holds m a (concat (map (operation_bytes bits) rs))" and "a \<noteq> 0" and "a mod record_align = 0" and "list_all2 (record_for m) rs cs"
    and bits: "\<forall>r \<in> set rs. f64_from_bits (bits (ov_weight r)) = ov_weight r"
  shows "list_all2 (\<lambda>i. operation_laid m (a + i * operation_size) operation_size) [0..<length cs] cs"
proof (rule list_all2_all_nthI)
  fix i assume "i < length [0..<length cs]"
  then have i: "i < length cs" "i < length rs" using assms(4) by (simp_all add: list_all2_lengthD)
  have r: "record_for m (rs ! i) (cs ! i)" using assms(4) i by (simp add: list_all2_nthD2)
  have all: "\<forall>r \<in> set rs. length (operation_bytes bits r) = operation_size"
  proof
    fix r assume r: "r \<in> set rs"
    then obtain c where c: "record_for m r c" using assms(4) by (metis in_set_conv_nth list_all2_nthD)
    have "f64_from_bits (bits (ov_weight r)) = ov_weight r" using bits r by blast
    moreover have "ov_name_data r < 2 ^ 64" "ov_restrictions r < 2 ^ 64" "ov_reserved r = [0, 0]" using c by (simp_all add: record_for_def)
    ultimately show "length (operation_bytes bits r) = operation_size" using operation_of_bytes(2) [of r bits] by blast
  qed
  have h: "holds m (a + i * operation_size) (operation_bytes bits (rs ! i))" by (rule holds_array [OF assms(1) all i(2)])
  have w: "f64_from_bits (bits (ov_weight (rs ! i))) = ov_weight (rs ! i)" using bits i(2) by simp
  have p: "ov_name_data (rs ! i) < 2 ^ 64" "ov_restrictions (rs ! i) < 2 ^ 64" "ov_reserved (rs ! i) = [0, 0]" using r by (simp_all add: record_for_def)
  note ob = operation_of_bytes [of "rs ! i" bits, OF p w]
  obtain rest where rest: "operation_bytes bits (rs ! i) = header_bytes operation_size @ rest" using ob(3) by blast
  have "record_laid m (a + i * operation_size) operation_size operation_size (operation_bytes bits (rs ! i))"
    by (rule record_laid_bytes [OF h _ _ ob(2) rest])
      (use assms(2,3) in \<open>simp_all add: record_align_def operation_size_def config_max_record_bytes_def mod_eq_0_iff_dvd\<close>)
  then have "operation_laid m (a + i * operation_size) operation_size (cs ! i)"
    using ob(1) r unfolding operation_laid_def record_for_def by (intro exI [of _ "operation_bytes bits (rs ! i)"] exI [of _ "rs ! i"]) simp
  then show "operation_laid m (a + [0..<length cs] ! i * operation_size) operation_size (cs ! i)" using i by simp
qed simp

section \<open>Options\<close>

lemma text_laid_plain: "text_laid m a len cs \<Longrightarrow> plain_text cs"
proof -
  assume "text_laid m a len cs"
  then obtain bs :: "byte list" where bs: "map unat bs = utf8_bytes cs" "length bs = unat len" and cs: "cs \<noteq> []" "\<forall>c \<in> set cs. is_scalar c"
    unfolding text_laid_def by blast
  have "byte_len cs = unat len" using bs by (metis byte_len_def length_map)
  then show ?thesis using unat_less_exp [of len] cs by (simp add: plain_text_def)
qed

lemma operation_laid_plain:
  assumes "operation_laid m base stride c" and "valid_operation c"
  shows "plain_operation c"
proof -
  obtain op :: operation_v1 where op: "unat (ov_consume_x op) = co_x c" "unat (ov_consume_y op) = co_y c"
    and name: "text_laid m (ov_name_data op) (ov_name_len op) (co_name c)"
    and arr: "array_laid (ov_restrictions op) (ov_restriction_count op) (ov_restriction_stride op) config_max_restriction_pairs
          restriction_size (length (co_pairs c))"
    and pairs: "list_all2 (\<lambda>i. pair_laid m (ov_restrictions op + i * unat (ov_restriction_stride op)) (unat (ov_restriction_stride op)))
          [0..<length (co_pairs c)] (co_pairs c)"
    using assms(1) unfolding operation_laid_def by blast
  have texts: "plain_text (fst p) \<and> plain_text (snd p)" if p: "p \<in> set (co_pairs c)" for p
  proof -
    obtain i where i: "i < length (co_pairs c)" "p = co_pairs c ! i" using p by (metis in_set_conv_nth)
    have "pair_laid m (ov_restrictions op + i * unat (ov_restriction_stride op)) (unat (ov_restriction_stride op)) p"
      using list_all2_nthD2 [OF pairs i(1)] i by simp
    then show ?thesis unfolding pair_laid_def by (elim exE conjE) (intro conjI; erule text_laid_plain)
  qed
  have "co_x c < 2 ^ 64" "co_y c < 2 ^ 64" using op unat_less_exp [of "ov_consume_x op"] unat_less_exp [of "ov_consume_y op"] by simp_all
  moreover have "length (co_pairs c) \<le> config_max_restriction_pairs" using arr unfolding array_laid_def by blast
  ultimately show ?thesis unfolding plain_operation_def using text_laid_plain [OF name] texts assms(2) by blast
qed

definition limits_fit :: "gen_limits option \<Rightarrow> bool" where
  "limits_fit limits \<longleftrightarrow> (\<forall>l. limits = Some l \<longrightarrow>
     max_query_bytes l < 2 ^ 64 \<and> max_query_scalars l < 2 ^ 64 \<and> max_operation_source_scalars l < 2 ^ 64 \<and>
     max_operation_query_scalars l < 2 ^ 64 \<and> max_retained_dictionary_nodes l < 2 ^ 64 \<and> max_retained_wfst_states l < 2 ^ 64 \<and>
     max_paths_per_expansion l < 2 ^ 64 \<and> max_work_units_per_expansion l < 2 ^ 64)"

lemma limits_laid_fit: "limits_laid m a limits \<Longrightarrow> limits_fit limits"
  using unat_less_exp [where 'a = 64] by (auto simp: limits_laid_def limits_fit_def)

lemma own_limits_ok:
  assumes "limits_fit limits"
  shows "\<exists>a boxes. own_limits place limits = Inr (a, boxes) \<and> (\<forall>m. boxes_held m boxes \<longrightarrow> a < 2 ^ 64 \<and> limits_laid m a limits)"
proof (cases limits)
  case None
  then show ?thesis by (simp add: own_limits_def limits_laid_def)
next
  case (Some l)
  let ?r = "\<lparr>lv_max_query_bytes = of_nat (max_query_bytes l), lv_max_query_scalars = of_nat (max_query_scalars l),
      lv_max_operation_source_scalars = of_nat (max_operation_source_scalars l),
      lv_max_operation_query_scalars = of_nat (max_operation_query_scalars l),
      lv_max_retained_dictionary_nodes = of_nat (max_retained_dictionary_nodes l),
      lv_max_retained_wfst_states = of_nat (max_retained_wfst_states l),
      lv_max_paths_per_expansion = of_nat (max_paths_per_expansion l),
      lv_max_work_units_per_expansion = of_nat (max_work_units_per_expansion l), lv_reserved = [0, 0]\<rparr> :: limits_v1"
  have small: "max_query_bytes l < 18446744073709551616" "max_query_scalars l < 18446744073709551616"
    "max_operation_source_scalars l < 18446744073709551616" "max_operation_query_scalars l < 18446744073709551616"
    "max_retained_dictionary_nodes l < 18446744073709551616" "max_retained_wfst_states l < 18446744073709551616"
    "max_paths_per_expansion l < 18446744073709551616" "max_work_units_per_expansion l < 18446744073709551616"
    using assms Some by (simp_all add: limits_fit_def)
  have rec: "limits_record l = Inr ?r" by (simp add: limits_record_def wire_def small)
  then have own: "own_limits place limits = Inr (place 0, [(place 0, limits_bytes ?r)])"
    by (simp add: own_limits_def Some own_bytes_def)
  have "place 0 < 2 ^ 64 \<and> limits_laid m (place 0) limits" if "boxes_held m [(place 0, limits_bytes ?r)]" for m
  proof -
    have b: "holds m (place 0) (limits_bytes ?r)" "place 0 \<noteq> 0" "place 0 < 2 ^ 64" "place 0 mod record_align = 0"
      using that by (simp_all add: boxes_held_def)
    have reserved: "lv_reserved ?r = [0, 0]" by simp
    note lb = limits_of_bytes [OF reserved]
    obtain rest where rest: "limits_bytes ?r = header_bytes limits_size @ rest" using lb(3) by blast
    have laid: "record_laid m (place 0) limits_size config_max_record_bytes (limits_bytes ?r)"
      by (rule record_laid_bytes [OF b(1,2,4) lb(2) rest]) (simp_all add: limits_size_def config_max_record_bytes_def)
    have "l = \<lparr>max_query_bytes = unat (lv_max_query_bytes ?r), max_query_scalars = unat (lv_max_query_scalars ?r),
                  max_operation_source_scalars = unat (lv_max_operation_source_scalars ?r),
                  max_operation_query_scalars = unat (lv_max_operation_query_scalars ?r),
                  max_retained_dictionary_nodes = unat (lv_max_retained_dictionary_nodes ?r),
                  max_retained_wfst_states = unat (lv_max_retained_wfst_states ?r),
                  max_paths_per_expansion = unat (lv_max_paths_per_expansion ?r),
                  max_work_units_per_expansion = unat (lv_max_work_units_per_expansion ?r)\<rparr>"
      by (simp add: pointer_wrap small)
    then have "limits_laid m (place 0) limits"
      unfolding limits_laid_def Some option.case using laid lb(1) reserved
      by (intro exI [of _ "limits_bytes ?r"] exI [of _ ?r]) (simp only:)
    then show ?thesis using b(3) by simp
  qed
  then show ?thesis using own by blast
qed

text \<open>The policy in force, as a caller asks for it.\<close>

fun requested_of :: "shared_cache_policy \<Rightarrow> requested_cache_policy" where
  "requested_of SharedCacheAll = RequestCacheAll"
| "requested_of SharedNoCache = RequestNoCache"
| "requested_of (SharedLru capacity) = RequestLru capacity"

fun policy_fits :: "shared_cache_policy \<Rightarrow> bool" where
  "policy_fits (SharedLru capacity) \<longleftrightarrow> capacity < 2 ^ 64"
| "policy_fits _ \<longleftrightarrow> True"

lemma effective_policy_code:
  "policy_fits policy \<Longrightarrow> (fst (effective_policy policy), unat (snd (effective_policy policy))) = policy_code (requested_of policy)"
  by (cases policy) (simp_all add: wire_count_def unat_of_nat)

lemma totals_ok_mono:
  "totals_ok t \<Longrightarrow> pt_text_bytes u \<le> pt_text_bytes t \<Longrightarrow> pt_pairs u \<le> pt_pairs t \<Longrightarrow> pt_consumption u \<le> pt_consumption t \<Longrightarrow> totals_ok u"
  by (simp add: totals_ok_def)

lemma totals_relisted:
  "list_all2 relisted cs cs' \<Longrightarrow> pt_text_bytes u \<le> pt_text_bytes t \<Longrightarrow> pt_pairs u \<le> pt_pairs t \<Longrightarrow> pt_consumption u \<le> pt_consumption t \<Longrightarrow>
   totals_ok (totals_of t cs) \<Longrightarrow> totals_ok (totals_of u cs')"
proof (induction cs cs' arbitrary: t u rule: list_all2_induct)
  case Nil
  then show ?case using totals_ok_mono by simp
next
  case (Cons c cs c' cs')
  note f = relisted_facts [OF Cons(1)]
  have le: "pt_text_bytes (add_totals u c') \<le> pt_text_bytes (add_totals t c)" "pt_pairs (add_totals u c') \<le> pt_pairs (add_totals t c)"
    "pt_consumption (add_totals u c') \<le> pt_consumption (add_totals t c)"
    using Cons.prems f by (simp_all add: add_totals_def)
  show ?case unfolding totals_of_simps by (rule Cons.IH [OF le]) (use Cons.prems in simp)
qed

lemma relisted_list:
  "list_all2 relisted cs cs' \<Longrightarrow> map named_operation_of cs' = map named_operation_of cs \<and>
     ((\<forall>c \<in> set cs. valid_operation c) \<longrightarrow> (\<forall>c \<in> set cs'. valid_operation c)) \<and> length cs' = length cs"
  by (induction rule: list_all2_induct) (auto simp: relisted_facts)

lemma boxes_held_append: "boxes_held m (xs @ ys) \<longleftrightarrow> boxes_held m xs \<and> boxes_held m ys"
  unfolding boxes_held_def set_append by blast

text \<open>The assumptions on what is outside: sets are listed, and weights have bits.\<close>

definition weights_have_bits :: "(f64 \<Rightarrow> u64) \<Rightarrow> parsed_options \<Rightarrow> bool" where
  "weights_have_bits bits opts \<longleftrightarrow>
     (\<forall>ops. po_operations opts = Some ops \<longrightarrow> (\<forall>(name, op) \<in> set ops. f64_from_bits (bits (op_weight op)) = op_weight op))"

lemma record_weights:
  assumes "list_all2 (record_for m) rs cs'" and "map named_operation_of cs' = ops"
    and "\<forall>(name, op) \<in> set ops. f64_from_bits (bits (op_weight op)) = op_weight op"
  shows "\<forall>r \<in> set rs. f64_from_bits (bits (ov_weight r)) = ov_weight r"
proof
  fix r assume "r \<in> set rs"
  then obtain c where c: "c \<in> set cs'" "record_for m r c" using assms(1) by (metis in_set_conv_nth list_all2_conv_all_nth)
  have "named_operation_of c \<in> set ops" using c(1) assms(2) by auto
  then have "f64_from_bits (bits (co_weight c)) = co_weight c" using assms(3) by (auto simp: named_operation_of_def)
  then show "f64_from_bits (bits (ov_weight r)) = ov_weight r" using c(2) by (simp add: record_for_def)
qed

text \<open>A configuration whose texts and numbers fit their fields is built, and its record lays it out.\<close>

lemma owned_build_ok:
  assumes valid: "valid_configuration validate cf" and plain: "\<forall>c \<in> set (cf_operations cf). plain_operation c"
    and fits: "limits_fit (cf_limits cf)" "cf_distance cf < 2 ^ 64" and few: "length (cf_operations cf) \<le> 4096"
    and pairs_of: "lists_sets pairs_of" and bits: "weights_have_bits bits (parsed_of cf)"
  shows "\<exists>o' cs'. owned_from_parsed place bits pairs_of (parsed_of cf) = Inr o' \<and> list_all2 relisted (cf_operations cf) cs' \<and>
    (\<forall>m q policy. boxes_held m (oo_boxes o') \<longrightarrow> holds m q (options_bytes (owned_readback o' policy)) \<longrightarrow> q \<noteq> 0 \<longrightarrow>
       q mod record_align = 0 \<longrightarrow> policy_fits policy \<longrightarrow>
       options_laid m q (cf\<lparr>cf_operations := cs', cf_policy := requested_of policy\<rparr>))"
proof -
  let ?cs = "cf_operations cf"
  obtain lp boxes0 where lim: "own_limits place (cf_limits cf) = Inr (lp, boxes0)"
    "\<forall>m. boxes_held m boxes0 \<longrightarrow> lp < 2 ^ 64 \<and> limits_laid m lp (cf_limits cf)" using own_limits_ok [OF fits(1)] by blast
  obtain rs extra cs' where ops: "list_all2 relisted ?cs cs'"
    "own_operations place pairs_of (map named_operation_of ?cs) boxes0 = Inr (rs, boxes0 @ extra)" "length rs = length ?cs"
    "\<forall>m. boxes_held m (boxes0 @ extra) \<longrightarrow> list_all2 (record_for m) rs cs'"
    using own_operations_ok [OF pairs_of plain] by blast
  have len: "length cs' = length ?cs" using list_all2_lengthD [OF ops(1)] by simp
  let ?a = "place (length (boxes0 @ extra))"
  let ?box = "(?a, concat (map (operation_bytes bits) rs))"
  let ?none = "?cs = []"
  let ?rv = "\<lparr>wv_kind = kind_code (cf_kind cf), wv_algorithm = algorithm_code (cf_algorithm cf),
      wv_maximum_distance = of_nat (cf_distance cf), wv_cache_policy = 0, wv_reserved_zero = 0, wv_cache_capacity = 0, wv_limits = lp,
      wv_operations = (if ?none then 0 else ?a), wv_operation_count = of_nat (length ?cs),
      wv_operation_stride = (if ?none then 0 else of_nat operation_size), wv_reserved = [0, 0]\<rparr>"
  have listed: "(case po_operations (parsed_of cf) of None \<Rightarrow> [] | Some ops \<Rightarrow> ops) = map named_operation_of ?cs"
    by (simp add: parsed_of_def)
  have parts: "po_kind (parsed_of cf) = cf_kind cf" "po_algorithm (parsed_of cf) = cf_algorithm cf"
    "po_maximum_distance (parsed_of cf) = cf_distance cf" "po_limits (parsed_of cf) = cf_limits cf" by (simp_all add: parsed_of_def)
  have zero: "(of_nat (length ?cs) :: u64) = 0 \<longleftrightarrow> ?none" using few by (auto simp: word_of_nat_eq_0_iff dest!: dvd_imp_le)
  have count: "wire (length rs) ''operation count'' = Inr (of_nat (length ?cs))" using few ops(3) by (simp add: wire_def)
  have algo: "(if cf_kind cf = KindLevenshtein then algorithm_value (cf_algorithm cf) else Inr 0) = Inr (algorithm_code (cf_algorithm cf))"
    using valid by (cases "cf_algorithm cf") (auto simp: valid_configuration_def)
  have dist: "(if cf_kind cf = KindFzf then Inr 0 else wire (cf_distance cf) ''maximum distance'') = Inr (of_nat (cf_distance cf))"
    using valid fits(2) by (auto simp: valid_configuration_def wire_def)
  have made: "owned_from_parsed place bits pairs_of (parsed_of cf) =
      Inr \<lparr>oo_kind = cf_kind cf, oo_record = ?rv, oo_boxes = boxes0 @ extra @ [?box]\<rparr>"
    unfolding owned_from_parsed_def owned_build_def listed parts lim(1) pbind_simps prod.case ops(2) own_bytes_def count algo dist zero by simp
  have laid: "options_laid m q (cf\<lparr>cf_operations := cs', cf_policy := requested_of policy\<rparr>)"
    if held: "boxes_held m (boxes0 @ extra @ [?box])"
      and at: "holds m q (options_bytes (?rv\<lparr>wv_cache_policy := fst (effective_policy policy), wv_cache_capacity := snd (effective_policy policy)\<rparr>))"
        "q \<noteq> 0" "q mod record_align = 0" and policy: "policy_fits policy" for m q policy
  proof -
    let ?raw = "?rv\<lparr>wv_cache_policy := fst (effective_policy policy), wv_cache_capacity := snd (effective_policy policy)\<rparr>"
    have h: "boxes_held m boxes0" "boxes_held m (boxes0 @ extra)" using held by (simp_all add: boxes_held_append)
    have a: "holds m ?a (concat (map (operation_bytes bits) rs))" "?a \<noteq> 0" "?a < 2 ^ 64" "?a mod record_align = 0"
      using held by (simp_all add: boxes_held_append boxes_held_def)
    have recs: "list_all2 (record_for m) rs cs'" using ops(4) h(2) by blast
    have "\<forall>r \<in> set rs. f64_from_bits (bits (ov_weight r)) = ov_weight r"
    proof (rule record_weights [OF recs])
      show "map named_operation_of cs' = map named_operation_of ?cs" using relisted_list [OF ops(1)] by blast
      show "\<forall>(name, op) \<in> set (map named_operation_of ?cs). f64_from_bits (bits (op_weight op)) = op_weight op"
        using bits by (cases ?none) (simp_all add: weights_have_bits_def parsed_of_def)
    qed
    note arr = operation_array [OF a(1,2,4) recs this]
    have lp: "lp < 2 ^ 64" "limits_laid m lp (cf_limits cf)" using lim(2) h(1) by blast+
    have "wv_limits ?raw < 2 ^ 64" "wv_operations ?raw < 2 ^ 64" "wv_reserved ?raw = [0, 0]" using lp(1) a(3) by simp_all
    note ob = options_of_bytes [OF this]
    obtain rest where rest: "options_bytes ?raw = header_bytes options_size @ rest" using ob(3) by blast
    have rec: "record_laid m q options_size config_max_record_bytes (options_bytes ?raw)"
      by (rule record_laid_bytes [OF at(1,2,3) ob(2) rest]) (simp_all add: options_size_def config_max_record_bytes_def)
    have stride: "unat (of_nat operation_size :: u64) = operation_size" by (simp add: operation_size_def)
    have n: "unat (of_nat (length ?cs) :: u64) = length ?cs" using few by (simp add: unat_of_nat)
    have shape: "array_laid (wv_operations ?raw) (wv_operation_count ?raw) (wv_operation_stride ?raw) config_max_operations operation_size (length cs')"
      using a(2,4) few by (simp add: array_laid_def n len stride config_max_operations_def operation_size_def config_max_record_bytes_def record_align_def)
    have opers: "list_all2 (\<lambda>i. operation_laid m (wv_operations ?raw + i * unat (wv_operation_stride ?raw)) (unat (wv_operation_stride ?raw)))
        [0..<length cs'] cs'" using arr len by (cases ?none) (simp_all add: stride)
    have d: "unat (of_nat (cf_distance cf) :: u64) = cf_distance cf" using fits(2) by (simp add: pointer_wrap)
    show ?thesis unfolding options_laid_def
      by (intro exI [of _ "options_bytes ?raw"] exI [of _ ?raw] conjI)
        (use rec ob(1) shape opers lp(2) d effective_policy_code [OF policy] in simp_all)
  qed
  show ?thesis using made ops(1) laid by (intro exI conjI) (assumption | simp add: owned_readback_def)+
qed

lemma parsed_configuration_plain:
  assumes "options_laid m p cf" and "valid_configuration validate cf"
  shows "\<forall>c \<in> set (cf_operations cf). plain_operation c" and "limits_fit (cf_limits cf)" and "cf_distance cf < 2 ^ 64"
    and "length (cf_operations cf) \<le> 4096"
proof -
  obtain raw :: options_v1 where d: "unat (wv_maximum_distance raw) = cf_distance cf" and lim: "limits_laid m (wv_limits raw) (cf_limits cf)"
    and arr: "array_laid (wv_operations raw) (wv_operation_count raw) (wv_operation_stride raw) config_max_operations operation_size
          (length (cf_operations cf))"
    and ops: "list_all2 (\<lambda>i. operation_laid m (wv_operations raw + i * unat (wv_operation_stride raw)) (unat (wv_operation_stride raw)))
          [0..<length (cf_operations cf)] (cf_operations cf)"
    using assms(1) unfolding options_laid_def by blast
  show "\<forall>c \<in> set (cf_operations cf). plain_operation c"
  proof
    fix c assume c: "c \<in> set (cf_operations cf)"
    then obtain i where i: "i < length (cf_operations cf)" "c = cf_operations cf ! i" by (metis in_set_conv_nth)
    have "operation_laid m (wv_operations raw + i * unat (wv_operation_stride raw)) (unat (wv_operation_stride raw)) c"
      using list_all2_nthD2 [OF ops i(1)] i by simp
    then show "plain_operation c" by (rule operation_laid_plain) (use assms(2) c in \<open>simp add: valid_configuration_def\<close>)
  qed
  show "limits_fit (cf_limits cf)" using limits_laid_fit [OF lim] .
  show "cf_distance cf < 2 ^ 64" using d unat_less_exp [of "wv_maximum_distance raw"] by simp
  show "length (cf_operations cf) \<le> 4096" using arr by (simp add: array_laid_def config_max_operations_def)
qed

lemma relisted_configuration:
  assumes "valid_configuration validate cf" and "list_all2 relisted (cf_operations cf) cs'"
  shows "valid_configuration validate (cf\<lparr>cf_operations := cs', cf_policy := p\<rparr>)"
    and "parsed_of (cf\<lparr>cf_operations := cs', cf_policy := p\<rparr>) = (parsed_of cf)\<lparr>po_cache_policy := p\<rparr>"
proof -
  note same = relisted_list [OF assms(2)]
  have empty: "cs' = [] \<longleftrightarrow> cf_operations cf = []" using same by auto
  have "totals_ok (totals_of parse_totals_zero cs')"
    by (rule totals_relisted [OF assms(2) order_refl order_refl order_refl]) (use assms(1) in \<open>simp add: valid_configuration_def\<close>)
  then show "valid_configuration validate (cf\<lparr>cf_operations := cs', cf_policy := p\<rparr>)"
    using assms(1) same empty by (simp add: valid_configuration_def)
  show "parsed_of (cf\<lparr>cf_operations := cs', cf_policy := p\<rparr>) = (parsed_of cf)\<lparr>po_cache_policy := p\<rparr>"
    using same empty by (simp add: parsed_of_def)
qed

text \<open>
  C25: readback: options survive the handle. If the C record at \<open>p\<close> parses to some options, the handle's own copy of
  them can be built, wherever its boxes are placed; and in any memory that still holds the boxes and the record
  read back from the handle, parsing that record gives the same options again, with the policy now in force.
\<close>

theorem readback_round_trip:
  assumes "parse_options validate m p = Inr opts" and "lists_sets pairs_of" and "weights_have_bits bits opts"
  shows "\<exists>o'. owned_from_parsed place bits pairs_of opts = Inr o' \<and>
    (\<forall>m' q policy. boxes_held m' (oo_boxes o') \<longrightarrow> holds m' q (options_bytes (owned_readback o' policy)) \<longrightarrow> q \<noteq> 0 \<longrightarrow>
       q mod record_align = 0 \<longrightarrow> policy_fits policy \<longrightarrow>
       parse_options validate m' q = Inr (opts\<lparr>po_cache_policy := requested_of policy\<rparr>))"
proof -
  obtain cf where cf: "options_laid m p cf" "valid_configuration validate cf" "opts = parsed_of cf"
    using assms(1) unfolding parse_options_iff by blast
  note plain = parsed_configuration_plain [OF cf(1,2)]
  obtain o' cs' where built: "owned_from_parsed place bits pairs_of opts = Inr o'" "list_all2 relisted (cf_operations cf) cs'"
    and laid: "\<forall>m q policy. boxes_held m (oo_boxes o') \<longrightarrow> holds m q (options_bytes (owned_readback o' policy)) \<longrightarrow> q \<noteq> 0 \<longrightarrow>
       q mod record_align = 0 \<longrightarrow> policy_fits policy \<longrightarrow>
       options_laid m q (cf\<lparr>cf_operations := cs', cf_policy := requested_of policy\<rparr>)"
    using owned_build_ok [OF cf(2) plain(1-4) assms(2)] assms(3) cf(3) by metis
  have "parse_options validate m' q = Inr (opts\<lparr>po_cache_policy := requested_of policy\<rparr>)"
    if "boxes_held m' (oo_boxes o')" "holds m' q (options_bytes (owned_readback o' policy))" "q \<noteq> 0" "q mod record_align = 0" "policy_fits policy"
    for m' q policy
    unfolding parse_options_iff using laid that relisted_configuration [OF cf(2) built(2)] cf(3) by metis
  then show ?thesis using built(1) by blast
qed

text \<open>Listing a set in its lexicographic order, and the sample of \<open>Ffi_Parsing\<close> with its boxes at 1024 and 2048.\<close>

lemma lists_sorted: "lists_sets sorted_list_of_set"
  by (simp add: lists_sets_def)

definition sample_owned :: owned_options where
  "sample_owned =
     \<lparr>oo_kind = KindGeneralizedStandard,
      oo_record = \<lparr>wv_kind = 4, wv_algorithm = 0, wv_maximum_distance = 1, wv_cache_policy = 0, wv_reserved_zero = 0, wv_cache_capacity = 0,
        wv_limits = 0, wv_operations = 2048, wv_operation_count = 1, wv_operation_stride = 104, wv_reserved = [0, 0]\<rparr>,
      oo_boxes = [(1024, [99]), (2048, operation_bytes (\<lambda>_. 0) \<lparr>ov_consume_x = 2, ov_consume_y = 2, ov_weight = F64 0, ov_applicability = 1,
        ov_reserved_zero = 0, ov_name_data = 1024, ov_name_len = 1, ov_restrictions = 0, ov_restriction_count = 0,
        ov_restriction_stride = 0, ov_reserved = [0, 0]\<rparr>)]\<rparr>"

lemma sample_owned_built: "owned_from_parsed (\<lambda>i. 1024 * (i + 1)) (\<lambda>_. 0) sorted_list_of_set sample_options = Inr sample_owned"
  by (simp add: owned_from_parsed_def owned_build_def own_limits_def own_operation_def own_applicability_def own_bytes_def
      sample_options_def sample_owned_def wire_def byte_len_def utf8_bytes_def utf8_encode_def word8_def operation_size_def)

definition sample_readback_memory :: foreign_memory where
  "sample_readback_memory =
     write_bytes 4096 (options_bytes (owned_readback sample_owned SharedNoCache))
       (write_bytes 2048 (snd (oo_boxes sample_owned ! 1)) (write_bytes 1024 [99] (\<lambda>_. None)))"

lemma sample_lengths: "length (snd (oo_boxes sample_owned ! 1)) = 104" "length (options_bytes (owned_readback sample_owned SharedNoCache)) = 96"
  by (simp_all add: sample_owned_def operation_bytes_def options_bytes_def owned_readback_def header_bytes_def)

lemma sample_boxes_held:
  "boxes_held sample_readback_memory (oo_boxes sample_owned)"
  "holds sample_readback_memory 4096 (options_bytes (owned_readback sample_owned SharedNoCache))"
proof -
  let ?m = sample_readback_memory
  have "read_bytes ?m 1024 1 = Some [99]"
    using read_write_bytes [of 1024 "[99]" "\<lambda>_. None"] by (simp add: sample_readback_memory_def read_write_other sample_lengths)
  moreover have "read_bytes ?m 2048 104 = Some (snd (oo_boxes sample_owned ! 1))"
    using read_write_bytes [of 2048 "snd (oo_boxes sample_owned ! 1)" "write_bytes 1024 [99] (\<lambda>_. None)"]
    unfolding sample_lengths by (simp add: sample_readback_memory_def read_write_other sample_lengths)
  ultimately show "boxes_held ?m (oo_boxes sample_owned)"
    using sample_lengths(1) by (simp add: boxes_held_def sample_owned_def holds_def record_align_def)
  show "holds ?m 4096 (options_bytes (owned_readback sample_owned SharedNoCache))"
    using read_write_bytes [of 4096 "options_bytes (owned_readback sample_owned SharedNoCache)"]
    by (simp add: holds_def sample_readback_memory_def)
qed

theorem readback_round_trip_witness:
  "owned_from_parsed (\<lambda>i. 1024 * (i + 1)) (\<lambda>_. 0) sorted_list_of_set sample_options = Inr sample_owned \<and>
   parse_options (\<lambda>_. Inr ()) sample_readback_memory 4096 = Inr (sample_options\<lparr>po_cache_policy := RequestNoCache\<rparr>)"
proof -
  have "weights_have_bits (\<lambda>_. 0) sample_options"
    by (simp add: weights_have_bits_def sample_options_def f64_from_bits_def Let_def)
  from readback_round_trip [OF sample_parse lists_sorted this, of "\<lambda>i. 1024 * (i + 1)"]
  show ?thesis using sample_boxes_held sample_owned_built by (auto simp: record_align_def)
qed

end
