(* ===== verification/Foreign_Dictionary.thy ===== *)
theory Foreign_Dictionary
  imports Foreign_Memory
begin

text \<open>
  \<open>src/bindings.rs\<close> and \<open>src/bindings/fault_scope.rs\<close>: a dictionary that lives behind foreign callbacks.
  A callback may answer anything at any call, so a provider is a function of the number of the call
  too. What it answers is checked before it is used; a bad answer ends the iteration and is recorded
  as a fault of the innermost scope. The status codes of the interop crate are a parameter.
\<close>

section \<open>Statuses and answers\<close>

record 's vt_statuses =
  vt_from_raw :: "u32 \<Rightarrow> 's option"
  vt_is_ok :: "'s \<Rightarrow> bool"
  vt_provider_error :: 's
  vt_limit_exceeded :: 's

text \<open>\<open>VtStatus::from_raw(raw).unwrap_or(ProviderError)\<close>.\<close>

definition status_or_error :: "'s vt_statuses \<Rightarrow> u32 \<Rightarrow> 's" where
  "status_or_error vt raw = (case vt_from_raw vt raw of None \<Rightarrow> vt_provider_error vt | Some s \<Rightarrow> s)"

record foreign_edge =
  fe_label :: u64
  fe_node :: u64

text \<open>One answer of \<open>node_edges\<close>: the status, what it says it wrote, the total, and the page buffer.\<close>

record page_answer =
  pa_status :: u32
  pa_written :: usize
  pa_total :: usize
  pa_edge :: "nat \<Rightarrow> foreign_edge"

text \<open>A call is numbered; it gets the node and the offset.\<close>

type_synonym edges_callback = "nat \<Rightarrow> u64 \<Rightarrow> usize \<Rightarrow> page_answer"

definition max_unicode_scalar_edges :: usize where
  "max_unicode_scalar_edges = 0x110000 - 0x800"

text \<open>\<open>u32::try_from(label).ok().and_then(char::from_u32)\<close>.\<close>

definition label_char :: "u64 \<Rightarrow> uchar option" where
  "label_char label = (if unat label < 2 ^ 32 \<and> is_scalar (unat label) then Some (unat label) else None)"

section \<open>Iterating the edges of a node\<close>

record resource_edges =
  re_node :: u64
  re_offset :: usize
  re_total :: "usize option"
  re_page :: "foreign_edge list"
  re_index :: usize
  re_written :: usize
  re_done :: bool
  re_calls :: nat

definition expanded_edges :: "usize \<Rightarrow> u64 \<Rightarrow> resource_edges" where
  "expanded_edges batch node =
     \<lparr>re_node = node, re_offset = 0, re_total = None, re_page = replicate batch \<lparr>fe_label = 0, fe_node = 0\<rparr>,
      re_index = 0, re_written = 0, re_done = False, re_calls = 0\<rparr>"

text \<open>
  What a step yields: an edge, the end, or the end with a fault recorded. An index out of the page would be a panic.
\<close>

datatype 's edge_step = Edge uchar u64 | NoEdge | Fault 's | IndexPanic

definition fetch_page ::
    "'s vt_statuses \<Rightarrow> edges_callback \<Rightarrow> usize \<Rightarrow> resource_edges \<Rightarrow> 's edge_step option \<times> resource_edges" where
  "fetch_page vt callback batch st =
     (let a = callback (re_calls st) (re_node st) (re_offset st);
          st1 = st\<lparr>re_page := map (pa_edge a) [0..<batch], re_calls := re_calls st + 1\<rparr>;
          status = status_or_error vt (pa_status a)
      in if \<not> vt_is_ok vt status then (Some (Fault status), st1\<lparr>re_done := True\<rparr>)
         else if pa_total a > max_unicode_scalar_edges then (Some (Fault (vt_limit_exceeded vt)), st1\<lparr>re_done := True\<rparr>)
         else if pa_written a > batch \<or> re_offset st > pa_total a \<or> usize_sat_add (re_offset st) (pa_written a) > pa_total a \<or>
                 (pa_written a = 0 \<and> re_offset st < pa_total a) \<or>
                 (\<exists>previous. re_total st = Some previous \<and> previous \<noteq> pa_total a)
         then (Some (Fault (vt_provider_error vt)), st1\<lparr>re_done := True\<rparr>)
         else
           let st2 = st1\<lparr>re_total := Some (pa_total a), re_offset := re_offset st + pa_written a,
                         re_written := pa_written a, re_index := 0\<rparr>
           in if pa_written a = 0 then (Some NoEdge, st2\<lparr>re_done := True\<rparr>) else (None, st2))"

definition take_edge :: "'s vt_statuses \<Rightarrow> resource_edges \<Rightarrow> 's edge_step \<times> resource_edges" where
  "take_edge vt st =
     (case nth_opt (re_page st) (re_index st) of
        None \<Rightarrow> (IndexPanic, st)
      | Some edge \<Rightarrow>
          (let st1 = st\<lparr>re_index := re_index st + 1\<rparr>
           in case label_char (fe_label edge) of
                None \<Rightarrow> (Fault (vt_provider_error vt), st1\<lparr>re_done := True\<rparr>)
              | Some label \<Rightarrow> (Edge label (fe_node edge), st1)))"

definition edges_next ::
    "'s vt_statuses \<Rightarrow> edges_callback \<Rightarrow> usize \<Rightarrow> resource_edges \<Rightarrow> 's edge_step \<times> resource_edges" where
  "edges_next vt callback batch st =
     (if re_done st then (NoEdge, st)
      else if re_index st = re_written st then
        (if re_total st = Some (re_offset st) then (NoEdge, st\<lparr>re_done := True\<rparr>)
         else case fetch_page vt callback batch st of
                (Some step, st1) \<Rightarrow> (step, st1)
              | (None, st1) \<Rightarrow> take_edge vt st1)
      else take_edge vt st)"

lemma fetch_page_None:
  "fetch_page vt callback batch st = (None, st1) \<Longrightarrow>
     re_offset st < re_offset st1 \<and> re_offset st1 \<le> max_unicode_scalar_edges \<and> re_index st1 = 0 \<and>
     re_offset st1 = re_offset st + re_written st1 \<and> 0 < re_written st1 \<and> re_written st1 \<le> batch \<and>
     length (re_page st1) = batch \<and> re_calls st1 = re_calls st + 1 \<and> re_done st1 = re_done st \<and> re_node st1 = re_node st"
  by (auto simp: fetch_page_def Let_def usize_sat_add_def usize_max_def max_unicode_scalar_edges_def split: if_splits)

lemma take_edge_Edge:
  "take_edge vt st = (Edge c n, st1) \<Longrightarrow> re_index st < length (re_page st) \<and> st1 = st\<lparr>re_index := re_index st + 1\<rparr>"
  by (auto simp: take_edge_def Let_def nth_opt_eq_Some split: option.splits)

text \<open>An edge costs either room in the page or, with a new page, room below the ceiling.\<close>

lemma edges_next_Edge:
  assumes "edges_next vt callback batch st = (Edge c n, st1)"
  shows "re_offset st1 = re_offset st \<and> length (re_page st1) - re_index st1 < length (re_page st) - re_index st \<or>
    re_offset st < re_offset st1 \<and> re_offset st1 \<le> max_unicode_scalar_edges"
proof (cases "re_index st = re_written st \<and> \<not> re_done st \<and> re_total st \<noteq> Some (re_offset st)")
  case True
  obtain r st2 where f: "fetch_page vt callback batch st = (r, st2)" by force
  show ?thesis
  proof (cases r)
    case None
    then have "take_edge vt st2 = (Edge c n, st1)" using True f assms by (simp add: edges_next_def)
    then show ?thesis using fetch_page_None [OF f [unfolded None]] take_edge_Edge by fastforce
  next
    case (Some x)
    then have "x = Edge c n" using True f assms by (simp add: edges_next_def)
    then show ?thesis using f Some by (auto simp: fetch_page_def Let_def split: if_splits)
  qed
next
  case False
  then have "take_edge vt st = (Edge c n, st1)" using assms by (auto simp: edges_next_def split: if_splits)
  then show ?thesis using take_edge_Edge by fastforce
qed

text \<open>All edges, as the consumers of the iterator take them, with the fault that ended it.\<close>

datatype 's edge_end = Complete | Faulted 's | Crashed

function edges_collect ::
    "'s vt_statuses \<Rightarrow> edges_callback \<Rightarrow> usize \<Rightarrow> resource_edges \<Rightarrow> (uchar \<times> u64) list \<times> 's edge_end \<times> resource_edges" where
  "edges_collect vt callback batch st =
     (case edges_next vt callback batch st of
        (Edge c n, st1) \<Rightarrow>
          (case edges_collect vt callback batch st1 of (es, e, st2) \<Rightarrow> ((c, n) # es, e, st2))
      | (NoEdge, st1) \<Rightarrow> ([], Complete, st1)
      | (Fault s, st1) \<Rightarrow> ([], Faulted s, st1)
      | (IndexPanic, st1) \<Rightarrow> ([], Crashed, st1))"
  by auto
termination
  by (relation "measures [\<lambda>(vt, callback, batch, st). max_unicode_scalar_edges - re_offset st,
      \<lambda>(vt, callback, batch, st). length (re_page st) - re_index st]")
    (auto dest!: edges_next_Edge [OF sym])

declare edges_collect.simps [simp del]

text \<open>\<open>find_map\<close> over the edges stops at the first that matches.\<close>

function edges_find ::
    "'s vt_statuses \<Rightarrow> edges_callback \<Rightarrow> usize \<Rightarrow> uchar \<Rightarrow> resource_edges \<Rightarrow> u64 option \<times> 's edge_end" where
  "edges_find vt callback batch label st =
     (case edges_next vt callback batch st of
        (Edge c n, st1) \<Rightarrow> if c = label then (Some n, Complete) else edges_find vt callback batch label st1
      | (NoEdge, st1) \<Rightarrow> (None, Complete)
      | (Fault s, st1) \<Rightarrow> (None, Faulted s)
      | (IndexPanic, st1) \<Rightarrow> (None, Crashed))"
  by auto
termination
  by (relation "measures [\<lambda>(vt, callback, batch, label, st). max_unicode_scalar_edges - re_offset st,
      \<lambda>(vt, callback, batch, label, st). length (re_page st) - re_index st]")
    (auto dest!: edges_next_Edge [OF sym])

declare edges_find.simps [simp del]

section \<open>Nodes\<close>

text \<open>A captured provider: its callbacks, numbered like the pages, and what was read at capture.\<close>

record foreign_provider =
  fp_node_edges :: edges_callback
  fp_node_transition :: "(nat \<Rightarrow> u64 \<Rightarrow> u64 \<Rightarrow> u32 \<times> u64 \<times> nat) option"
  fp_node_is_final :: "nat \<Rightarrow> u64 \<Rightarrow> u32 \<times> nat"
  fp_batch :: usize
  fp_root :: u64
  fp_len :: "usize option"

definition resource_is_final :: "'s vt_statuses \<Rightarrow> foreign_provider \<Rightarrow> nat \<Rightarrow> u64 \<Rightarrow> bool \<times> 's option" where
  "resource_is_final vt p call node =
     (case fp_node_is_final p call node of
        (raw, result) \<Rightarrow>
          (let status = status_or_error vt raw
           in if \<not> vt_is_ok vt status then (False, Some status)
              else if result = 0 then (False, None)
              else if result = 1 then (True, None)
              else (False, Some (vt_provider_error vt))))"

definition resource_transition :: "'s vt_statuses \<Rightarrow> foreign_provider \<Rightarrow> nat \<Rightarrow> u64 \<Rightarrow> uchar \<Rightarrow> u64 option \<times> 's edge_end" where
  "resource_transition vt p call node label =
     (case fp_node_transition p of
        None \<Rightarrow> edges_find vt (fp_node_edges p) (fp_batch p) label (expanded_edges (fp_batch p) node)
      | Some callback \<Rightarrow>
          (case callback call node (of_nat label) of
             (raw, child, found) \<Rightarrow>
               (let status = status_or_error vt raw
                in if \<not> vt_is_ok vt status then (None, Faulted status)
                   else if found = 0 then (None, Complete)
                   else if found = 1 then (Some child, Complete)
                   else (None, Faulted (vt_provider_error vt)))))"

definition resource_edges_of :: "'s vt_statuses \<Rightarrow> foreign_provider \<Rightarrow> u64 \<Rightarrow> (uchar \<times> u64) list \<times> 's edge_end" where
  "resource_edges_of vt p node =
     (case edges_collect vt (fp_node_edges p) (fp_batch p) (expanded_edges (fp_batch p) node) of (es, e, st) \<Rightarrow> (es, e))"

section \<open>Any provider is bounded\<close>

definition edges_inv :: "usize \<Rightarrow> resource_edges \<Rightarrow> bool" where
  "edges_inv batch st \<longleftrightarrow> re_index st \<le> re_written st \<and> re_written st \<le> batch \<and> length (re_page st) = batch \<and>
     re_offset st \<le> max_unicode_scalar_edges"

text \<open>What is left: the rest of the page, and the room below the ceiling.\<close>

definition edges_room :: "resource_edges \<Rightarrow> nat" where
  "edges_room st = (re_written st - re_index st) + (max_unicode_scalar_edges - re_offset st)"

lemma fetch_page_calls:
  "fetch_page vt callback batch st = (Some r, st1) \<Longrightarrow> r \<noteq> IndexPanic \<and> (\<forall>c n. r \<noteq> Edge c n) \<and> re_calls st1 = re_calls st + 1"
  by (auto simp: fetch_page_def Let_def split: if_splits)

lemma take_edge_other:
  "take_edge vt st = (r, st1) \<Longrightarrow> re_index st < length (re_page st) \<Longrightarrow> r \<noteq> IndexPanic \<and> re_calls st1 = re_calls st"
  by (auto simp: take_edge_def Let_def split: option.splits)

lemma edges_next_bounded:
  assumes inv: "edges_inv batch st" and step: "edges_next vt callback batch st = (r, st1)"
  shows "r \<noteq> IndexPanic" and "re_calls st1 \<le> re_calls st + 1"
    and "r = Edge c n \<Longrightarrow> edges_inv batch st1 \<and> edges_room st1 < edges_room st \<and>
      re_calls st1 + (max_unicode_scalar_edges - re_offset st1) \<le> re_calls st + (max_unicode_scalar_edges - re_offset st)"
proof -
  consider "re_done st" | "re_total st = Some (re_offset st)" "re_index st = re_written st" "\<not> re_done st"
    | r' st2 where "re_index st = re_written st" "\<not> re_done st" "fetch_page vt callback batch st = (Some r', st2)" "r = r'" "st1 = st2"
    | st2 where "re_index st = re_written st" "\<not> re_done st" "fetch_page vt callback batch st = (None, st2)" "take_edge vt st2 = (r, st1)"
    | "re_index st \<noteq> re_written st" "\<not> re_done st" "take_edge vt st = (r, st1)"
    using step by (auto simp: edges_next_def split: if_splits prod.splits option.splits)
  then have "r \<noteq> IndexPanic \<and> re_calls st1 \<le> re_calls st + 1 \<and>
    (r = Edge c n \<longrightarrow> edges_inv batch st1 \<and> edges_room st1 < edges_room st \<and>
      re_calls st1 + (max_unicode_scalar_edges - re_offset st1) \<le> re_calls st + (max_unicode_scalar_edges - re_offset st))"
  proof cases
    case (3 r' st2)
    then show ?thesis using fetch_page_calls [OF 3(3)] by auto
  next
    case (4 st2)
    note f = fetch_page_None [OF 4(3)]
    have "r \<noteq> IndexPanic \<and> re_calls st1 = re_calls st2" by (rule take_edge_other [OF 4(4)]) (use f in simp)
    moreover have "r = Edge c n \<Longrightarrow> st1 = st2\<lparr>re_index := re_index st2 + 1\<rparr>" using take_edge_Edge 4(4) by blast
    ultimately show ?thesis using f 4(1) by (auto simp: edges_inv_def edges_room_def)
  next
    case 5
    have "r \<noteq> IndexPanic \<and> re_calls st1 = re_calls st"
      by (rule take_edge_other [OF 5(3)]) (use inv 5(1) in \<open>simp add: edges_inv_def\<close>)
    moreover have "r = Edge c n \<Longrightarrow> st1 = st\<lparr>re_index := re_index st + 1\<rparr>" using take_edge_Edge 5(3) by blast
    ultimately show ?thesis using inv 5(1) by (auto simp: edges_inv_def edges_room_def)
  qed (use step in \<open>auto simp: edges_next_def\<close>)
  then show "r \<noteq> IndexPanic" and "re_calls st1 \<le> re_calls st + 1"
    and "r = Edge c n \<Longrightarrow> edges_inv batch st1 \<and> edges_room st1 < edges_room st \<and>
      re_calls st1 + (max_unicode_scalar_edges - re_offset st1) \<le> re_calls st + (max_unicode_scalar_edges - re_offset st)"
    by blast+
qed

lemma edges_collect_bounded:
  "edges_inv batch st \<Longrightarrow> edges_collect vt callback batch st = (es, e, st') \<Longrightarrow>
     length es \<le> edges_room st \<and> e \<noteq> Crashed \<and> re_calls st' \<le> re_calls st + (max_unicode_scalar_edges - re_offset st) + 1"
proof (induction vt callback batch st arbitrary: es e st' rule: edges_collect.induct)
  case (1 vt callback batch st)
  obtain r st1 where step: "edges_next vt callback batch st = (r, st1)" by force
  note b = edges_next_bounded [OF "1.prems"(1) step]
  show ?case
  proof (cases r)
    case (Edge c n)
    obtain es1 e1 st2 where rest: "edges_collect vt callback batch st1 = (es1, e1, st2)" by (metis surj_pair)
    have eq: "es = (c, n) # es1" "e = e1" "st' = st2"
      using "1.prems"(2) step Edge rest by (subst (asm) edges_collect.simps; simp)+
    note b3 = b(3) [OF Edge]
    have "length es1 \<le> edges_room st1 \<and> e1 \<noteq> Crashed \<and> re_calls st2 \<le> re_calls st1 + (max_unicode_scalar_edges - re_offset st1) + 1"
      by (rule "1.IH" [OF step [symmetric] Edge _ rest]) (use b3 in simp)
    then show ?thesis using b3 eq by simp
  next
    case NoEdge
    then show ?thesis using "1.prems"(2) step b(2) by (subst (asm) edges_collect.simps) auto
  next
    case (Fault x)
    then show ?thesis using "1.prems"(2) step b(2) by (subst (asm) edges_collect.simps) auto
  next
    case IndexPanic
    then show ?thesis using b(1) by simp
  qed
qed

text \<open>
  C20: whatever a foreign provider answers, at every call, iterating the edges of a node ends: after at most
  one call more than there are Unicode scalars, with at most as many edges, and never by an index out of
  the page. Statuses, counts and totals that contradict each other end it with a fault.
\<close>

theorem foreign_edges_terminate:
  "(case edges_collect vt callback batch (expanded_edges batch node) of
      (es, e, st) \<Rightarrow> length es \<le> max_unicode_scalar_edges \<and> re_calls st \<le> max_unicode_scalar_edges + 1 \<and> e \<noteq> Crashed)"
proof -
  obtain es e st where r: "edges_collect vt callback batch (expanded_edges batch node) = (es, e, st)" by (metis surj_pair)
  have "edges_inv batch (expanded_edges batch node)" by (simp add: edges_inv_def expanded_edges_def)
  from edges_collect_bounded [OF this r] show ?thesis unfolding r by (simp add: edges_room_def expanded_edges_def)
qed

section \<open>A provider that keeps its contract\<close>

definition foreign_edge_of :: "uchar \<times> u64 \<Rightarrow> foreign_edge" where
  "foreign_edge_of e = \<lparr>fe_label = of_nat (fst e), fe_node = snd e\<rparr>"

text \<open>The pages of a node are successive nonempty pieces of one list of edges, with its length as the total.\<close>

definition serves_edges :: "'s vt_statuses \<Rightarrow> edges_callback \<Rightarrow> usize \<Rightarrow> u64 \<Rightarrow> (uchar \<times> u64) list \<Rightarrow> bool" where
  "serves_edges vt callback batch node es \<longleftrightarrow> length es \<le> max_unicode_scalar_edges \<and> (\<forall>e \<in> set es. is_scalar (fst e)) \<and>
     (\<forall>call off. off \<le> length es \<longrightarrow>
        (let a = callback call node off
         in vt_is_ok vt (status_or_error vt (pa_status a)) \<and> pa_total a = length es \<and> pa_written a \<le> batch \<and>
            off + pa_written a \<le> length es \<and> (off < length es \<longrightarrow> 0 < pa_written a) \<and>
            (\<forall>i < pa_written a. pa_edge a i = foreign_edge_of (es ! (off + i)))))"

text \<open>Where the iterator is in the list.\<close>

definition edges_at :: "usize \<Rightarrow> u64 \<Rightarrow> (uchar \<times> u64) list \<Rightarrow> resource_edges \<Rightarrow> nat \<Rightarrow> bool" where
  "edges_at batch node es st k \<longleftrightarrow> \<not> re_done st \<and> re_node st = node \<and> re_index st \<le> re_written st \<and> re_written st \<le> batch \<and>
     length (re_page st) = batch \<and> re_offset st \<le> length es \<and> re_offset st = k + (re_written st - re_index st) \<and>
     (\<forall>total. re_total st = Some total \<longrightarrow> total = length es) \<and>
     (\<forall>i. re_index st \<le> i \<and> i < re_written st \<longrightarrow> re_page st ! i = foreign_edge_of (es ! (k + (i - re_index st))))"

lemma label_char_scalar: "is_scalar c \<Longrightarrow> label_char (of_nat c) = Some c"
proof -
  assume c: "is_scalar c"
  then have "c < 2 ^ 32" by (auto simp: is_scalar_def)
  moreover from this have "unat (of_nat c :: u64) = c" by (simp add: unat_of_nat)
  ultimately show ?thesis using c by (simp add: label_char_def)
qed

lemma take_edge_at:
  assumes at: "edges_at batch node es st k" and room: "re_index st < re_written st" and serves: "serves_edges vt callback batch node es"
  shows "\<exists>st1. take_edge vt st = (Edge (fst (es ! k)) (snd (es ! k)), st1) \<and> edges_at batch node es st1 (k + 1) \<and> k < length es"
proof -
  have k: "k < length es" using at room by (auto simp: edges_at_def)
  have "re_page st ! re_index st = foreign_edge_of (es ! k)" "re_index st < length (re_page st)"
    using at room by (auto simp: edges_at_def)
  moreover have "label_char (of_nat (fst (es ! k))) = Some (fst (es ! k))"
    using serves k by (intro label_char_scalar) (simp add: serves_edges_def)
  ultimately have "take_edge vt st = (Edge (fst (es ! k)) (snd (es ! k)), st\<lparr>re_index := re_index st + 1\<rparr>)"
    by (simp add: take_edge_def nth_opt_def Let_def foreign_edge_of_def)
  moreover have "edges_at batch node es (st\<lparr>re_index := re_index st + 1\<rparr>) (k + 1)"
  proof -
    have "re_page st ! i = foreign_edge_of (es ! (k + 1 + (i - (re_index st + 1))))" if "re_index st + 1 \<le> i" "i < re_written st" for i
    proof -
      have "k + 1 + (i - (re_index st + 1)) = k + (i - re_index st)" using that(1) by simp
      then show ?thesis using at that unfolding edges_at_def by auto
    qed
    then show ?thesis using at room by (auto simp: edges_at_def)
  qed
  ultimately show ?thesis using k by blast
qed

lemma edges_next_at:
  assumes at: "edges_at batch node es st k" and serves: "serves_edges vt callback batch node es"
  shows "if k < length es
    then \<exists>st1. edges_next vt callback batch st = (Edge (fst (es ! k)) (snd (es ! k)), st1) \<and> edges_at batch node es st1 (k + 1)
    else \<exists>st1. edges_next vt callback batch st = (NoEdge, st1)"
proof (cases "re_index st = re_written st")
  case False
  then have "re_index st < re_written st" using at by (simp add: edges_at_def)
  from take_edge_at [OF at this serves] show ?thesis
    using at False by (auto simp: edges_next_def edges_at_def)
next
  case True
  then have off: "re_offset st = k" "k \<le> length es" using at by (simp_all add: edges_at_def)
  let ?a = "callback (re_calls st) node k"
  have a: "vt_is_ok vt (status_or_error vt (pa_status ?a))" "pa_total ?a = length es" "pa_written ?a \<le> batch"
    "k + pa_written ?a \<le> length es" "k < length es \<longrightarrow> 0 < pa_written ?a" "\<forall>i < pa_written ?a. pa_edge ?a i = foreign_edge_of (es ! (k + i))"
    using serves off(2) unfolding serves_edges_def Let_def by blast+
  have small: "length es \<le> max_unicode_scalar_edges" using serves by (simp add: serves_edges_def)
  have sat: "usize_sat_add k (pa_written ?a) = k + pa_written ?a"
    using a(4) small by (simp add: usize_sat_add_def usize_max_def max_unicode_scalar_edges_def)
  have total: "\<not> (\<exists>previous. re_total st = Some previous \<and> previous \<noteq> length es)" and node: "re_node st = node" "\<not> re_done st"
    using at by (auto simp: edges_at_def)
  show ?thesis
  proof (cases "k < length es")
    case less: True
    have no_end: "re_total st \<noteq> Some (re_offset st)" using total off less by auto
    let ?st = "st\<lparr>re_page := map (pa_edge ?a) [0..<batch], re_calls := re_calls st + 1, re_total := Some (length es),
        re_offset := k + pa_written ?a, re_written := pa_written ?a, re_index := 0\<rparr>"
    have fetch: "fetch_page vt callback batch st = (None, ?st)"
      using a less small sat total node(1) off by (simp add: fetch_page_def Let_def)
    have "edges_at batch node es ?st k" using a node by (auto simp: edges_at_def)
    from take_edge_at [OF this _ serves] show ?thesis
      using a(5) less True node no_end fetch by (auto simp: edges_next_def)
  next
    case False
    then have k: "k = length es" using off(2) by simp
    show ?thesis
    proof (cases "re_total st = Some (re_offset st)")
      case True
      then show ?thesis using False node \<open>re_index st = re_written st\<close> by (simp add: edges_next_def)
    next
      case no_end: False
      have "pa_written ?a = 0" using a(4) k by simp
      then have "\<exists>st1. fetch_page vt callback batch st = (Some NoEdge, st1)"
        using a small sat total node(1) off k by (simp add: fetch_page_def Let_def)
      then show ?thesis using False node no_end \<open>re_index st = re_written st\<close> by (auto simp: edges_next_def)
    qed
  qed
qed

lemma edges_collect_at:
  assumes serves: "serves_edges vt callback batch node es"
  shows "edges_at batch node es st k \<Longrightarrow> \<exists>st'. edges_collect vt callback batch st = (drop k es, Complete, st')"
proof (induction "length es - k" arbitrary: st k)
  case 0
  then have "\<exists>st1. edges_next vt callback batch st = (NoEdge, st1)" using edges_next_at [OF 0(2) serves] by simp
  then show ?case using 0 by (subst edges_collect.simps) auto
next
  case (Suc n)
  then have k: "k < length es" by simp
  then obtain st1 where st1: "edges_next vt callback batch st = (Edge (fst (es ! k)) (snd (es ! k)), st1)" "edges_at batch node es st1 (k + 1)"
    using edges_next_at [OF Suc.prems serves] by auto
  have "n = length es - (k + 1)" using Suc(2) by simp
  from Suc(1) [OF this st1(2)] obtain st' where "edges_collect vt callback batch st1 = (drop (k + 1) es, Complete, st')" by blast
  then show ?case using st1(1) k by (subst edges_collect.simps) (simp add: Cons_nth_drop_Suc)
qed

lemma edges_find_at:
  assumes serves: "serves_edges vt callback batch node es"
  shows "edges_at batch node es st k \<Longrightarrow> edges_find vt callback batch label st = (map_of (drop k es) label, Complete)"
proof (induction "length es - k" arbitrary: st k)
  case 0
  then have "\<exists>st1. edges_next vt callback batch st = (NoEdge, st1)" using edges_next_at [OF 0(2) serves] by simp
  then show ?case using 0 by (subst edges_find.simps) auto
next
  case (Suc n)
  then have k: "k < length es" by simp
  then obtain st1 where st1: "edges_next vt callback batch st = (Edge (fst (es ! k)) (snd (es ! k)), st1)" "edges_at batch node es st1 (k + 1)"
    using edges_next_at [OF Suc.prems serves] by auto
  have "n = length es - (k + 1)" using Suc(2) by simp
  from Suc(1) [OF this st1(2)] have "edges_find vt callback batch label st1 = (map_of (drop (k + 1) es) label, Complete)" .
  moreover have "drop k es = (fst (es ! k), snd (es ! k)) # drop (k + 1) es" using k by (simp add: Cons_nth_drop_Suc)
  ultimately show ?case using st1(1) by (subst edges_find.simps) simp
qed

text \<open>What it means for a provider to serve a dictionary.\<close>

definition provides :: "'s vt_statuses \<Rightarrow> foreign_provider \<Rightarrow> (u64, uchar) dictionary \<Rightarrow> bool" where
  "provides vt p D \<longleftrightarrow>
     (\<forall>node. serves_edges vt (fp_node_edges p) (fp_batch p) node (node_edges D node)) \<and>
     (\<forall>call node. vt_is_ok vt (status_or_error vt (fst (fp_node_is_final p call node))) \<and>
        snd (fp_node_is_final p call node) = (if node_is_final D node then 1 else 0)) \<and>
     (\<forall>callback call node label. fp_node_transition p = Some callback \<and> is_scalar label \<longrightarrow>
        (case callback call node (of_nat label) of
           (raw, child, found) \<Rightarrow> vt_is_ok vt (status_or_error vt raw) \<and>
             (case map_of (node_edges D node) label of None \<Rightarrow> found = 0 | Some m \<Rightarrow> found = 1 \<and> child = m)))"

text \<open>
  C21: behind a provider that serves a dictionary, page by page in whatever sizes, with a transition callback
  or without, the nodes are exactly the nodes of that dictionary: the same edges in the same order, the
  same children and the same final nodes, and no fault.
\<close>

theorem foreign_dictionary_exact:
  assumes "provides vt p D"
  shows "resource_edges_of vt p node = (node_edges D node, Complete) \<and>
    resource_is_final vt p call node = (node_is_final D node, None) \<and>
    (\<forall>label. is_scalar label \<longrightarrow> resource_transition vt p call node label = (map_of (node_edges D node) label, Complete))"
proof -
  have serves: "serves_edges vt (fp_node_edges p) (fp_batch p) node (node_edges D node)" using assms by (simp add: provides_def)
  have start: "edges_at (fp_batch p) node (node_edges D node) (expanded_edges (fp_batch p) node) 0"
    by (simp add: edges_at_def expanded_edges_def)
  have "resource_edges_of vt p node = (node_edges D node, Complete)"
    using edges_collect_at [OF serves start] by (auto simp: resource_edges_of_def)
  moreover have "resource_is_final vt p call node = (node_is_final D node, None)"
  proof -
    obtain raw result where r: "fp_node_is_final p call node = (raw, result)" by force
    then have "vt_is_ok vt (status_or_error vt raw)" "result = (if node_is_final D node then 1 else 0)"
      using assms unfolding provides_def by (metis fst_conv, metis snd_conv)
    then show ?thesis using r by (simp add: resource_is_final_def)
  qed
  moreover have "resource_transition vt p call node label = (map_of (node_edges D node) label, Complete)" if "is_scalar label" for label
  proof (cases "fp_node_transition p")
    case None
    then show ?thesis using edges_find_at [OF serves start, of label] by (simp add: resource_transition_def)
  next
    case (Some callback)
    obtain raw child found where c: "callback call node (of_nat label) = (raw, child, found)" by (metis surj_pair)
    have "\<forall>callback call node label. fp_node_transition p = Some callback \<and> is_scalar label \<longrightarrow>
        (case callback call node (of_nat label) of
           (raw, child, found) \<Rightarrow> vt_is_ok vt (status_or_error vt raw) \<and>
             (case map_of (node_edges D node) label of None \<Rightarrow> found = 0 | Some m \<Rightarrow> found = 1 \<and> child = m))"
      using assms unfolding provides_def by (elim conjE)
    from this [rule_format, where call = call and node = node, OF conjI [OF Some that]] show ?thesis
      using Some c by (auto simp: resource_transition_def split: option.splits)
  qed
  ultimately show ?thesis by blast
qed

text \<open>A provider that serves the example dictionary, one edge a page.\<close>

definition plain_statuses :: "u32 vt_statuses" where
  "plain_statuses = \<lparr>vt_from_raw = Some, vt_is_ok = (\<lambda>s. s = 0), vt_provider_error = 1, vt_limit_exceeded = 2\<rparr>"

definition ab_words :: "(u64, uchar) dictionary" where
  "ab_words =
     \<lparr>dict_root = 0, dict_len = Some 1, node_edges = (\<lambda>n. if n = 0 then [(97, 1)] else if n = 1 then [(98, 2)] else []),
      node_is_final = (\<lambda>n. n = 2), node_edge_count = (\<lambda>n. None), node_has_edge = (\<lambda>n u. n = 0 \<and> u = 97 \<or> n = 1 \<and> u = 98),
      unit_char = (\<lambda>u. u), char_unit = Some\<rparr>"

definition ab_provider :: foreign_provider where
  "ab_provider =
     \<lparr>fp_node_edges = (\<lambda>call node off.
        \<lparr>pa_status = 0, pa_written = min 1 (length (node_edges ab_words node) - off), pa_total = length (node_edges ab_words node),
         pa_edge = (\<lambda>i. foreign_edge_of (node_edges ab_words node ! (off + i)))\<rparr>),
      fp_node_transition = None, fp_node_is_final = (\<lambda>call node. (0, if node = 2 then 1 else 0)),
      fp_batch = 1, fp_root = 0, fp_len = Some 1\<rparr>"

lemma ab_provides: "provides plain_statuses ab_provider ab_words"
  by (auto simp: provides_def serves_edges_def plain_statuses_def ab_provider_def ab_words_def status_or_error_def Let_def
      max_unicode_scalar_edges_def is_scalar_def)

theorem foreign_dictionary_exact_witness:
  "resource_edges_of plain_statuses ab_provider 1 = ([(98, 2)], Complete) \<and>
   resource_transition plain_statuses ab_provider 0 1 98 = (Some 2, Complete)"
proof -
  have "is_scalar 98" by (simp add: is_scalar_def)
  then show ?thesis using foreign_dictionary_exact [OF ab_provides, of 1 0] by (simp add: ab_words_def)
qed

end
