(* ===== verification/Fault_Scopes.thy ===== *)
theory Fault_Scopes
  imports Foreign_Dictionary
begin

text \<open>
  \<open>src/bindings/fault_scope.rs\<close> and the scopes of \<open>src/bindings.rs\<close>: where a failing callback leaves its
  status. Scopes form a stack, here with the innermost first; a scope belongs to a provider or to a whole
  computation. A fault goes to the innermost scope that is a computation or belongs to the provider, and,
  past a computation, also to the next scope of the provider unless another computation is in between.
  Each scope keeps the first fault it gets. Scopes are told apart by a number, the identity of their cell.
\<close>

datatype boundary = ProviderScope usize | ComputationScope

record 's frame =
  fr_cell :: nat
  fr_boundary :: boundary
  fr_fault :: "'s option"

text \<open>\<open>if sink.get().is_none() { sink.set(Some(status)) }\<close>.\<close>

definition latch :: "'s \<Rightarrow> 's frame \<Rightarrow> 's frame" where
  "latch s f = (if fr_fault f = None then f\<lparr>fr_fault := Some s\<rparr> else f)"

text \<open>The second sink: the enclosing scope of the provider, up to the next computation.\<close>

fun record_outer :: "usize \<Rightarrow> 's \<Rightarrow> 's frame list \<Rightarrow> 's frame list" where
  "record_outer p s [] = []"
| "record_outer p s (f # fs) =
     (case fr_boundary f of
        ComputationScope \<Rightarrow> f # fs
      | ProviderScope q \<Rightarrow> if q = p then latch s f # fs else f # record_outer p s fs)"

text \<open>\<open>record\<close>; \<open>None\<close> is the panic of a fault that no scope takes.\<close>

fun record_fault :: "usize \<Rightarrow> 's \<Rightarrow> 's frame list \<Rightarrow> 's frame list option" where
  "record_fault p s [] = None"
| "record_fault p s (f # fs) =
     (case fr_boundary f of
        ComputationScope \<Rightarrow> Some (latch s f # record_outer p s fs)
      | ProviderScope q \<Rightarrow>
          if q = p then Some (latch s f # fs) else map_option (Cons f) (record_fault p s fs))"

definition push_scope :: "nat \<Rightarrow> boundary \<Rightarrow> 's frame list \<Rightarrow> 's frame list" where
  "push_scope cell b fs = \<lparr>fr_cell = cell, fr_boundary = b, fr_fault = None\<rparr> # fs"

text \<open>\<open>check\<close> reads the cell of the scope; dropping the scope removes its frame, wherever it is.\<close>

fun scope_check :: "nat \<Rightarrow> 's frame list \<Rightarrow> 's option" where
  "scope_check cell [] = None"
| "scope_check cell (f # fs) = (if fr_cell f = cell then fr_fault f else scope_check cell fs)"

fun drop_scope :: "nat \<Rightarrow> 's frame list \<Rightarrow> 's frame list" where
  "drop_scope cell [] = []"
| "drop_scope cell (f # fs) = (if fr_cell f = cell then fs else f # drop_scope cell fs)"

text \<open>The faults a piece of work records, one after the other; \<open>None\<close> when one panics.\<close>

fun record_all :: "(usize \<times> 's) list \<Rightarrow> 's frame list \<Rightarrow> 's frame list option" where
  "record_all [] fs = Some fs"
| "record_all ((p, s) # rest) fs = Option.bind (record_fault p s fs) (record_all rest)"

text \<open>
  \<open>with_checked\<close>: the work runs in a scope of its provider, and its result stands only without a fault. The
  scope cannot be entered where the thread's frames are gone (no cell); then the work is not done at all. The
  work reads and updates a source \<open>w\<close>.
\<close>

definition with_checked ::
    "'s vt_statuses \<Rightarrow> usize \<Rightarrow> nat option \<Rightarrow> ('w \<Rightarrow> 's frame list \<Rightarrow> (('s + 'a) \<times> 'w \<times> 's frame list) option) \<Rightarrow>
     'w \<Rightarrow> 's frame list \<Rightarrow> (('s + 'a) \<times> 'w \<times> 's frame list) option" where
  "with_checked vt p entered work w fs =
     (case entered of
        None \<Rightarrow> Some (Inl (vt_provider_error vt), w, fs)
      | Some cell \<Rightarrow>
          map_option (\<lambda>(result, w', fs1). ((case scope_check cell fs1 of Some s \<Rightarrow> Inl s | None \<Rightarrow> result), w', drop_scope cell fs1))
            (work w (push_scope cell (ProviderScope p) fs)))"

section \<open>First faults\<close>

text \<open>The statuses of a provider, and the first of them.\<close>

definition first_of :: "usize \<Rightarrow> (usize \<times> 's) list \<Rightarrow> 's option" where
  "first_of p events = map_of events p"

lemma latch_latch: "latch t (latch s f) = latch s f"
  by (simp add: latch_def)

definition latch_first :: "'s option \<Rightarrow> 's frame \<Rightarrow> 's frame" where
  "latch_first s f = (case s of None \<Rightarrow> f | Some x \<Rightarrow> latch x f)"

lemma latch_fields [simp]: "fr_cell (latch s f) = fr_cell f" "fr_boundary (latch s f) = fr_boundary f"
  by (simp_all add: latch_def)

text \<open>In a scope of a provider its faults stop there; the faults of others go past it.\<close>

lemma record_all_provider:
  assumes "fr_boundary f = ProviderScope p"
  shows "record_all events (f # fs) =
    map_option (Cons (latch_first (first_of p events) f)) (record_all (filter (\<lambda>e. fst e \<noteq> p) events) fs)"
  using assms
proof (induction events arbitrary: f fs)
  case Nil
  then show ?case by (simp add: latch_first_def first_of_def)
next
  case (Cons e events)
  obtain q s where e: "e = (q, s)" by force
  show ?case
  proof (cases "q = p")
    case True
    have "latch_first (first_of p events) (latch s f) = latch_first (first_of p ((p, s) # events)) f"
      by (simp add: latch_first_def first_of_def latch_latch split: option.split)
    then show ?thesis using True Cons.IH [of "latch s f" fs] Cons.prems e by simp
  next
    case False
    then show ?thesis
      using Cons.IH [OF Cons.prems] Cons.prems e
      by (cases "record_fault q s fs") (simp_all add: latch_first_def first_of_def)
  qed
qed

text \<open>A computation takes every fault, and passes them on to the provider scopes outside it.\<close>

lemma record_outer_comm_cells: "map fr_cell (record_outer p s fs) = map fr_cell fs"
  by (induction p s fs rule: record_outer.induct) (auto split: boundary.split)

fun record_outers :: "(usize \<times> 's) list \<Rightarrow> 's frame list \<Rightarrow> 's frame list" where
  "record_outers [] fs = fs"
| "record_outers ((p, s) # rest) fs = record_outers rest (record_outer p s fs)"

lemma record_all_computation:
  assumes "fr_boundary f = ComputationScope"
  shows "record_all events (f # fs) =
    Some (latch_first (case events of [] \<Rightarrow> None | e # _ \<Rightarrow> Some (snd e)) f # record_outers events fs)"
  using assms
proof (induction events arbitrary: f fs)
  case Nil
  then show ?case by (simp add: latch_first_def)
next
  case (Cons e events)
  obtain p s where e: "e = (p, s)" by force
  have "latch_first (case events of [] \<Rightarrow> None | e # _ \<Rightarrow> Some (snd e)) (latch s f) = latch s f"
    by (simp add: latch_first_def latch_latch split: list.split)
  then show ?case using Cons.IH [of "latch s f" "record_outer p s fs"] Cons.prems e by (simp add: latch_first_def)
qed

text \<open>Frames from the next computation on outwards are out of reach.\<close>

lemma record_outers_computation:
  "fr_boundary f = ComputationScope \<Longrightarrow> record_outers events (f # fs) = f # fs"
  by (induction events) auto

text \<open>
  C22: faults stay where they belong. While work runs in a scope of a provider, that scope ends up with the
  provider's first fault and the scopes outside see only the faults of other providers; in a computation,
  the scope ends up with the first fault of all, no fault panics, and an enclosing computation sees none.
\<close>

theorem fault_scopes_isolate:
  "record_all events (push_scope cell (ProviderScope p) fs) =
     map_option (Cons \<lparr>fr_cell = cell, fr_boundary = ProviderScope p, fr_fault = map_of events p\<rparr>)
       (record_all (filter (\<lambda>e. fst e \<noteq> p) events) fs) \<and>
   record_all events (push_scope cell ComputationScope (push_scope outer ComputationScope fs)) =
     Some (\<lparr>fr_cell = cell, fr_boundary = ComputationScope, fr_fault = (case events of [] \<Rightarrow> None | e # _ \<Rightarrow> Some (snd e))\<rparr> #
       push_scope outer ComputationScope fs) \<and>
   (\<forall>q. record_all events (push_scope cell ComputationScope (push_scope outer (ProviderScope q) (push_scope far ComputationScope fs))) =
     Some (\<lparr>fr_cell = cell, fr_boundary = ComputationScope, fr_fault = (case events of [] \<Rightarrow> None | e # _ \<Rightarrow> Some (snd e))\<rparr> #
       \<lparr>fr_cell = outer, fr_boundary = ProviderScope q, fr_fault = map_of events q\<rparr> # push_scope far ComputationScope fs))"
proof -
  have one: "record_outers events (\<lparr>fr_cell = outer, fr_boundary = ProviderScope q, fr_fault = x\<rparr> # push_scope far ComputationScope fs) =
      \<lparr>fr_cell = outer, fr_boundary = ProviderScope q, fr_fault = (case x of None \<Rightarrow> map_of events q | Some y \<Rightarrow> Some y)\<rparr> #
        push_scope far ComputationScope fs" for q x
    by (induction events arbitrary: x) (auto simp: push_scope_def latch_def split: option.split)
  show ?thesis
    using record_all_provider [of "\<lparr>fr_cell = cell, fr_boundary = ProviderScope p, fr_fault = None\<rparr>" p events fs]
      record_all_computation [of "\<lparr>fr_cell = cell, fr_boundary = ComputationScope, fr_fault = None\<rparr>" events]
      record_outers_computation [of "\<lparr>fr_cell = outer, fr_boundary = ComputationScope, fr_fault = None\<rparr>" events fs]
      one [of _ None]
    by (auto simp: push_scope_def latch_first_def first_of_def latch_def split: option.split list.split)
qed

end
