(* ===== verification/Foreign_Export.thy ===== *)
theory Foreign_Export
  imports Fault_Scopes
begin

text \<open>
  \<open>scalar_state\<close> of \<open>src/bindings.rs\<close>: how a state of an adapter leaves the crate. A state number is 64 bits
  wide outside; labels and weights are plain numbers, with a flag each for whether there is a label.
  The expansion runs in a scope of its dictionary, whose fault takes the place of any answer.
\<close>

text \<open>\<open>VtWfstArc\<close> and \<open>ScalarWfstState\<close>, as far as they are filled here.\<close>

record wfst_arc =
  wa_input_label :: u64
  wa_output_label :: u64
  wa_target_state :: u64
  wa_weight :: f64
  wa_has_input :: nat
  wa_has_output :: nat

record scalar_wfst_state =
  sw_valid :: bool
  sw_is_final :: bool
  sw_final_weight :: f64
  sw_arcs :: "wfst_arc list"

definition expansion_status :: "'s vt_statuses \<Rightarrow> expansion_error \<Rightarrow> 's" where
  "expansion_status vt e =
     (case e of
        Failure (ResourceExhausted _) \<Rightarrow> vt_limit_exceeded vt
      | _ \<Rightarrow> vt_provider_error vt)"

definition export_label :: "uchar option \<Rightarrow> u64" where
  "export_label l = (case l of None \<Rightarrow> 0 | Some c \<Rightarrow> of_nat c)"

definition export_arc :: "transition \<Rightarrow> wfst_arc" where
  "export_arc t =
     \<lparr>wa_input_label = export_label (t_input t), wa_output_label = export_label (t_output t),
      wa_target_state = ucast (t_to t), wa_weight = t_weight t,
      wa_has_input = (if t_input t \<noteq> None then 1 else 0), wa_has_output = (if t_output t \<noteq> None then 1 else 0)\<rparr>"

definition invalid_scalar_state :: "f64 \<Rightarrow> scalar_wfst_state" where
  "invalid_scalar_state zero = \<lparr>sw_valid = False, sw_is_final = False, sw_final_weight = zero, sw_arcs = []\<rparr>"

text \<open>
  The closure \<open>compute\<close>: the answer, the source after it, and the faults recorded on the way. \<open>expand\<close> and
  \<open>valid\<close> are those of the adapter, \<open>zero\<close> is the zero of its semiring.
\<close>

definition scalar_compute ::
    "'s vt_statuses \<Rightarrow> f64 \<Rightarrow> ('w \<Rightarrow> state_id \<Rightarrow> bool) \<Rightarrow> ('w \<Rightarrow> state_id \<Rightarrow> expansion \<times> 'w \<times> (usize \<times> 's) list) \<Rightarrow>
     'w \<Rightarrow> u64 \<Rightarrow> ('s + scalar_wfst_state) \<times> 'w \<times> (usize \<times> 's) list" where
  "scalar_compute vt zero valid expand w state =
     (if unat state \<ge> 2 ^ 32 then (Inr (invalid_scalar_state zero), w, [])
      else if \<not> valid w (ucast state) then (Inr (invalid_scalar_state zero), w, [])
      else case expand w (ucast state) of
             (Expanded fin weight ts, w', events) \<Rightarrow>
               (Inr \<lparr>sw_valid = True, sw_is_final = fin, sw_final_weight = weight, sw_arcs = map export_arc ts\<rparr>, w', events)
           | (Failed failure, w', events) \<Rightarrow> (Inl (expansion_status vt (Failure failure)), w', events)
           | (Cancelled reason, w', events) \<Rightarrow> (Inl (expansion_status vt (CancelledError reason)), w', events))"

text \<open>
  \<open>None\<close> is the panic of a fault outside every scope. With the dictionary's provider comes the cell of the scope
  entered for it, if the thread still has its frames.
\<close>

definition scalar_state ::
    "'s vt_statuses \<Rightarrow> f64 \<Rightarrow> ('w \<Rightarrow> state_id \<Rightarrow> bool) \<Rightarrow> ('w \<Rightarrow> state_id \<Rightarrow> expansion \<times> 'w \<times> (usize \<times> 's) list) \<Rightarrow>
     (usize \<times> nat option) option \<Rightarrow> 'w \<Rightarrow> u64 \<Rightarrow> 's frame list \<Rightarrow> (('s + scalar_wfst_state) \<times> 'w \<times> 's frame list) option" where
  "scalar_state vt zero valid expand dictionary w state frames =
     (let work = (\<lambda>w fs. case scalar_compute vt zero valid expand w state of
                          (answer, w', events) \<Rightarrow> map_option (\<lambda>fs'. (answer, w', fs')) (record_all events fs))
      in case dictionary of
           Some (p, entered) \<Rightarrow> with_checked vt p entered work w frames
         | None \<Rightarrow> work w frames)"

section \<open>Nothing is lost\<close>

text \<open>Reading an arc back.\<close>

definition import_arc :: "state_id \<Rightarrow> wfst_arc \<Rightarrow> transition" where
  "import_arc from_state a =
     mk_transition from_state (if wa_has_input a = 1 then Some (unat (wa_input_label a)) else None)
       (if wa_has_output a = 1 then Some (unat (wa_output_label a)) else None) (ucast (wa_target_state a)) (wa_weight a)"

definition char_label :: "uchar option \<Rightarrow> bool" where
  "char_label l \<longleftrightarrow> (\<forall>c. l = Some c \<longrightarrow> c \<le> char_max)"

lemma export_label_char: "char_label (Some c) \<Longrightarrow> unat (export_label (Some c)) = c"
  by (simp add: export_label_def char_label_def char_max_def unat_of_nat)

lemma import_export_arc:
  assumes "char_label (t_input t)" and "char_label (t_output t)"
  shows "import_arc (t_from t) (export_arc t) = t"
proof -
  have "ucast (ucast (t_to t) :: u64) = t_to t" by (simp add: ucast_up_ucast_id is_up)
  moreover have "t_input t = Some c \<Longrightarrow> unat (export_label (t_input t)) = c" for c using assms(1) export_label_char by metis
  moreover have "t_output t = Some c \<Longrightarrow> unat (export_label (t_output t)) = c" for c using assms(2) export_label_char by metis
  ultimately show ?thesis by (cases "t_input t"; cases "t_output t") (simp_all add: import_arc_def export_arc_def)
qed

lemma unat_ucast_64: "unat (ucast (x :: u32) :: u64) = unat x"
proof -
  have "unat x < 2 ^ 64" using unat_less_exp [of x] by simp
  then show ?thesis by (simp add: unsigned_ucast_eq take_bit_nat_eq_self)
qed

lemma unat_ucast_32: "unat (y :: u64) < 2 ^ 32 \<Longrightarrow> unat (ucast y :: u32) = unat y"
  by (simp add: unsigned_ucast_eq take_bit_nat_eq_self)

lemma scope_check_push: "scope_check cell (\<lparr>fr_cell = cell, fr_boundary = b, fr_fault = x\<rparr> # fs) = x"
  by simp

text \<open>
  C23: an exported state says exactly what the expansion says. Where no scope can be entered, nothing is expanded
  and the answer is the provider error. Otherwise, with faults only from its own dictionary, the export returns, leaves the scopes around it as they were and has the first fault for an answer if there
  is one; otherwise a state that is too wide or unknown is reported invalid, an expansion that fails has
  its status, and a successful one is read back from the arcs, transition by transition.
\<close>

theorem exported_state_faithful:
  assumes "scalar_compute vt zero valid expand w state = (answer, w', events)" and "\<forall>e \<in> set events. fst e = p"
  shows "scalar_state vt zero valid expand (Some (p, Some cell)) w state frames =
      Some ((case events of [] \<Rightarrow> answer | e # _ \<Rightarrow> Inl (snd e)), w', frames) \<and>
    (\<forall>small fin weight ts. state = ucast (small :: state_id) \<and> valid w small \<and> expand w small = (Expanded fin weight ts, w', events) \<and>
       (\<forall>t \<in> set ts. t_from t = small \<and> char_label (t_input t) \<and> char_label (t_output t)) \<longrightarrow>
       (\<exists>s. answer = Inr s \<and> sw_valid s \<and> sw_is_final s = fin \<and> sw_final_weight s = weight \<and> map (import_arc small) (sw_arcs s) = ts)) \<and>
    ((\<forall>small. state = ucast (small :: state_id) \<longrightarrow> \<not> valid w small) \<longrightarrow> answer = Inr (invalid_scalar_state zero) \<and> w' = w) \<and>
    scalar_state vt zero valid expand (Some (p, None)) w state frames = Some (Inl (vt_provider_error vt), w, frames)"
proof (intro conjI)
  show "scalar_state vt zero valid expand (Some (p, None)) w state frames = Some (Inl (vt_provider_error vt), w, frames)"
    by (simp add: scalar_state_def with_checked_def)
  have "filter (\<lambda>e. fst e \<noteq> p) events = []" using assms(2) by (simp add: filter_empty_conv)
  then have "record_all events (push_scope cell (ProviderScope p) frames) =
      Some (\<lparr>fr_cell = cell, fr_boundary = ProviderScope p, fr_fault = map_of events p\<rparr> # frames)"
    using record_all_provider [of "\<lparr>fr_cell = cell, fr_boundary = ProviderScope p, fr_fault = None\<rparr>" p events frames]
    by (auto simp: push_scope_def latch_first_def first_of_def latch_def split: option.split)
  moreover have "map_of events p = (case events of [] \<Rightarrow> None | e # _ \<Rightarrow> Some (snd e))"
    using assms(2) by (cases events) auto
  ultimately show "scalar_state vt zero valid expand (Some (p, Some cell)) w state frames =
      Some ((case events of [] \<Rightarrow> answer | e # _ \<Rightarrow> Inl (snd e)), w', frames)"
    by (cases events) (simp_all add: scalar_state_def assms(1) with_checked_def)
  have small: "unat (ucast (small :: state_id) :: u64) < 2 ^ 32" "ucast (ucast small :: u64) = small" for small :: state_id
    using unat_less_exp [of small] by (simp_all add: unat_ucast_64 is_up ucast_up_ucast_id)
  show "\<forall>small fin weight ts. state = ucast (small :: state_id) \<and> valid w small \<and> expand w small = (Expanded fin weight ts, w', events) \<and>
       (\<forall>t \<in> set ts. t_from t = small \<and> char_label (t_input t) \<and> char_label (t_output t)) \<longrightarrow>
       (\<exists>s. answer = Inr s \<and> sw_valid s \<and> sw_is_final s = fin \<and> sw_final_weight s = weight \<and> map (import_arc small) (sw_arcs s) = ts)"
  proof (intro allI impI, elim conjE)
    fix s0 :: state_id and fin weight ts
    assume s0: "state = ucast s0" "valid w s0" "expand w s0 = (Expanded fin weight ts, w', events)"
      and ts: "\<forall>t \<in> set ts. t_from t = s0 \<and> char_label (t_input t) \<and> char_label (t_output t)"
    have "map (import_arc s0) (map export_arc ts) = ts"
      using ts import_export_arc by (simp add: comp_def) (metis (no_types, lifting) map_idI)
    moreover have narrow: "\<not> 2 ^ 32 \<le> unat (ucast s0 :: u64)" using small(1) [of s0] by linarith
    have "scalar_compute vt zero valid expand w (ucast s0) =
        (Inr \<lparr>sw_valid = True, sw_is_final = fin, sw_final_weight = weight, sw_arcs = map export_arc ts\<rparr>, w', events)"
      unfolding scalar_compute_def small(2) if_not_P [OF narrow] s0(3) using s0(2) by simp
    then have "answer = Inr \<lparr>sw_valid = True, sw_is_final = fin, sw_final_weight = weight, sw_arcs = map export_arc ts\<rparr>"
      using assms(1) s0(1) by simp
    ultimately show "\<exists>s. answer = Inr s \<and> sw_valid s \<and> sw_is_final s = fin \<and> sw_final_weight s = weight \<and> map (import_arc s0) (sw_arcs s) = ts"
      by (intro exI conjI) (assumption, simp_all)
  qed
  show "(\<forall>small. state = ucast (small :: state_id) \<longrightarrow> \<not> valid w small) \<longrightarrow> answer = Inr (invalid_scalar_state zero) \<and> w' = w"
  proof
    assume none: "\<forall>small. state = ucast (small :: state_id) \<longrightarrow> \<not> valid w small"
    show "answer = Inr (invalid_scalar_state zero) \<and> w' = w"
    proof (cases "unat state \<ge> 2 ^ 32")
      case True
      then show ?thesis using assms(1) by (simp add: scalar_compute_def)
    next
      case False
      then have "state = ucast (ucast state :: state_id)"
        by (intro word_unat_eq_iff [THEN iffD2]) (simp add: unat_ucast_64 unat_ucast_32)
      then have "\<not> valid w (ucast state)" using none by blast
      then show ?thesis using False assms(1) by (simp add: scalar_compute_def)
    qed
  qed
qed

theorem exported_state_faithful_witness:
  "scalar_state plain_statuses F64_PosInf (\<lambda>w s. s = 0)
     (\<lambda>w s. (Expanded True (F64 1) [mk_transition 0 (Some 97) None 3 (F64 2)], w + 1, [])) (Some (7, Some 1)) (0 :: nat) 0 [] =
   Some (Inr \<lparr>sw_valid = True, sw_is_final = True, sw_final_weight = F64 1,
     sw_arcs = [\<lparr>wa_input_label = 97, wa_output_label = 0, wa_target_state = 3, wa_weight = F64 2, wa_has_input = 1, wa_has_output = 0\<rparr>]\<rparr>, 1, [])"
proof -
  have e: "scalar_compute plain_statuses F64_PosInf (\<lambda>w s. s = 0)
     (\<lambda>w s. (Expanded True (F64 1) [mk_transition 0 (Some 97) None 3 (F64 2)], w + 1, [])) (0 :: nat) 0 =
    (Inr \<lparr>sw_valid = True, sw_is_final = True, sw_final_weight = F64 1,
     sw_arcs = [\<lparr>wa_input_label = 97, wa_output_label = 0, wa_target_state = 3, wa_weight = F64 2, wa_has_input = 1, wa_has_output = 0\<rparr>]\<rparr>, 1, [])"
    by (simp add: scalar_compute_def export_arc_def export_label_def)
  show ?thesis using exported_state_faithful [OF e, of 7 1 "[]"] by simp
qed

end
