(* ===== verification/Spec2Isabelle.thy ===== *)
theory Spec2Isabelle
  imports Duallity_Prelude Interning State_Encoding Node_Registry Vocab_Backend Lazy_Cache Lazy_Wrapper
    Lev_Codec Lev_Source Lev_Paths Lev_Distance
    Fzf_Core Fzf_Bounds Fzf_Scorer Fzf_Ranking Fzf_Source Rewrite Rewrite_Meta Rewrite_Paths Wallbreaker Wallbreaker_Paths
    Generalized_Ops Generalized_State Generalized_Wfst Generalized_Paths Generalized_Arcs Generalized_Commit Generalized_Expand Generalized_Runs Generalized_Language
    Phonetic_Nfa Phonetic_Subset Phonetic_Resolve Phonetic_Language
    Paired_Registries Source_Runs Phonetic_Frontier Phonetic_Product Phonetic_Product_Language
    Phonetic_Pipeline Universal_Source Universal_Machine Universal_Language
    Foreign_Memory Ffi_Config Ffi_Parsing Ffi_Safety Ffi_Output Ffi_Inspection Ffi_Readback Foreign_Dictionary Fault_Scopes Foreign_Export
begin

text \<open>
  A verification development for duallity, the Rust crate that turns a dictionary (a trie or DAWG of
  \<open>libdictenstein\<close>) and a query into lazily expanded weighted finite-state transducers: bounded,
  universal and generalized edit distance, fzf scoring, phonetic automata, rewrite rules and WallBreaker results. All
  paths below are under \<open>src/src/\<close>.

  \<^bold>\<open>How the program is put together.\<close> Every adapter has a state source that answers \<open>expand_state\<close>:
  given a \<open>u32\<close> state number it returns finality, final weight and outgoing arcs, and registers the
  states the arcs lead to. Around a source sits a lazy wrapper with a state cache
  (\<open>lazy_cache.rs\<close>). Numbers come from registries that hand out dense identifiers and never reuse
  them. The C boundary (\<open>ffi/\<close>) ranks, configures and exports these automata.

  \<^bold>\<open>Theories and sources.\<close>

  \<^item> \<open>Duallity_Prelude\<close>: the shared vocabulary. \<open>u32\<close>/\<open>u64\<close> are words, \<open>usize\<close> a natural with checked
    and saturating operations at \<open>2 ^ 64 - 1\<close>, \<open>f64\<close> a datatype of rationals, infinities and NaN, a
    Rust \<open>char\<close> its code point. \<open>WeightedTransition\<close>, \<open>StateExpansion\<close> and the dictionary interface.
  \<^item> \<open>Interning\<close>: the \<open>interner\<close> locale, the contract of every registry (dense numbers, what a lookup
    returns after an insert, what stays put), interpreted on the models of the registries.
  \<^item> \<open>State_Encoding\<close> (\<open>lib.rs\<close>), \<open>Node_Registry\<close> (\<open>node_key.rs\<close>, \<open>node_registry.rs\<close>),
    \<open>Vocab_Backend\<close> (\<open>backend.rs\<close>): packing of pairs into state numbers, the node registries and
    the vocabulary of the lattice backend.
  \<^item> \<open>Lazy_Cache\<close> and \<open>Lazy_Wrapper\<close> (\<open>lazy_cache.rs\<close>, \<open>lazy_lifecycle.rs\<close>, \<open>wrapper.rs\<close>): the cache with
    its three policies, its heap of recency records with lazy deletion, clock renumbering and
    compaction; the expansion protocol on top of it, as a locale over an arbitrary source.
  \<^item> \<open>Lev_Codec\<close>, \<open>Lev_Source\<close>, \<open>Lev_Paths\<close>, \<open>Lev_Distance\<close> (\<open>state_source_support.rs\<close>,
    \<open>state_source.rs\<close>, \<open>wrapper.rs\<close>): the Levenshtein WFST. The codec of automaton states, the lazy
    product with the dictionary, the abstract machine it refines, and its language: alignments of
    the query with a dictionary term, whose least cost is the recursively defined distance.
  \<^item> \<open>Fzf_Core\<close>, \<open>Fzf_Bounds\<close>, \<open>Fzf_Scorer\<close>, \<open>Fzf_Ranking\<close>, \<open>Fzf_Source\<close> (\<open>fzf_support.rs\<close>,
    \<open>fzf_scorer.rs\<close>, \<open>ffi/fzf.rs\<close>, \<open>fzf_state_support.rs\<close>, \<open>fzf_state_source.rs\<close>, \<open>fzf_wfst.rs\<close>): the
    column recurrence of fzf's second algorithm, its upper bound, the incremental scorer, the
    branch-and-bound search for the best terms, and the WFST over dictionary prefixes.
  \<^item> \<open>Rewrite\<close>, \<open>Rewrite_Meta\<close>, \<open>Rewrite_Paths\<close> (\<open>phonetic_rewrite_support.rs\<close>,
    \<open>phonetic_rewrite_wfst.rs\<close>): rewrite rules as an automaton with a home state and numbered
    continuation states; its runs are the derivations of the rules.
  \<^item> \<open>Wallbreaker\<close>, \<open>Wallbreaker_Paths\<close> (\<open>wallbreaker_results.rs\<close>, \<open>wallbreaker_wfst.rs\<close>,
    \<open>wallbreaker_builder.rs\<close>): results of an external search laid out as an automaton.
  \<^item> \<open>Generalized_Ops\<close>, \<open>_State\<close>, \<open>_Wfst\<close>, \<open>_Paths\<close>, \<open>_Arcs\<close>, \<open>_Commit\<close>, \<open>_Expand\<close>, \<open>_Runs\<close>, \<open>_Language\<close>
    (\<open>generalized_limits.rs\<close>, \<open>generalized_ops.rs\<close>, \<open>generalized_state_support.rs\<close>,
    \<open>generalized_expansion.rs\<close>, \<open>generalized_computation.rs\<close>, \<open>generalized_wfst.rs\<close>,
    \<open>generalized_builder.rs\<close>): edit operations with byte-wide restrictions. An expansion is a
    computation charged against a budget (\<open>'a charged\<close>: cancellation, work, path limits), stages
    new nodes and states aside and commits them at the end; stopping and panicking are distinct
    values, so that neither can be mistaken for a result. The registries themselves are shared and updated in
    place (\<open>shared\<close>: an error keeps what was published before it), as the code has them; that such a
    computation implements a transaction (\<open>transacts\<close>), because it publishes after the last check that can
    fail, is proved, and the other theories reason about the transaction. Costs are decimals, as the library
    reads them, and weights the numbers on the arcs: the language theorems say that everything accepted is an
    alignment within the distance, and that every such alignment is accepted where no expansion on the
    way reports a failure.
  \<^item> \<open>Phonetic_Nfa\<close>, \<open>Phonetic_Subset\<close>, \<open>Phonetic_Resolve\<close>, \<open>Phonetic_Language\<close> (\<open>phonetic_nfa_support.rs\<close>,
    \<open>phonetic_anchors.rs\<close>, \<open>phonetic_nfa_wfst.rs\<close>): a nondeterministic automaton with anchors, determinised
    while it is expanded. Numbers stand for sets of states; resolving a batch of sets in two phases is
    interning them one by one; the language is that of the automaton between its anchors.
  \<^item> \<open>Paired_Registries\<close>, \<open>Source_Runs\<close>: what the two-registry products share. The locale \<open>paired_interners\<close>
    registers a pair of keys if their numbers fit in a state number and nothing otherwise; \<open>step_source\<close> turns
    exactness of single arcs into the language of a lazy source under any order of expansions.
  \<^item> \<open>Phonetic_Frontier\<close>, \<open>Phonetic_Product\<close>, \<open>Phonetic_Product_Language\<close> (\<open>phonetic_state_support.rs\<close>,
    \<open>phonetic_state_source.rs\<close>, \<open>phonetic_wfst.rs\<close>): frontiers of the phonetic product automaton, their canonical
    form and byte keys; the lazy product with a dictionary, its wrapper and builder; its language.
  \<^item> \<open>Phonetic_Pipeline\<close> (\<open>composed_phonetic.rs\<close>): the builder that collects a configuration by validated setters
    and builds the rewrite, the phonetic or the product transducer from it, or says why it cannot.
  \<^item> \<open>Universal_Source\<close>, \<open>Universal_Machine\<close>, \<open>Universal_Language\<close> (\<open>universal_state_support.rs\<close>,
    \<open>universal_state_source.rs\<close>, \<open>universal_wrapper.rs\<close>): the product of a dictionary with the universal
    Levenshtein automaton over windows of the query. States are recognised by the view the library gives
    of them; the machine is exact up to that view, and its runs pair the query with the accepted terms.
  \<^item> \<open>Foreign_Memory\<close>, \<open>Ffi_Config\<close>, \<open>Ffi_Parsing\<close>, \<open>Ffi_Safety\<close>, \<open>Ffi_Output\<close>, \<open>Ffi_Inspection\<close>, \<open>Ffi_Readback\<close>
    (\<open>ffi/config.rs\<close>, \<open>ffi.rs\<close>, \<open>ffi/inspection.rs\<close>, \<open>ffi/cache.rs\<close>, the enumerations of \<open>bindings.rs\<close>): a byte memory in which some addresses cannot be read, the \<open>repr(C)\<close>
    records and the validating parser over them. It accepts exactly the valid configurations that
    are laid out in memory, and reads nothing but what the caller's pointers and lengths promise. What a handle copies
    and reads back parses to the same options.
  \<^item> \<open>Foreign_Dictionary\<close>, \<open>Fault_Scopes\<close>, \<open>Foreign_Export\<close> (\<open>bindings.rs\<close>, \<open>bindings/fault_scope.rs\<close>): nodes whose edges
    come in pages from callbacks that may answer anything, and the stack of scopes that keeps their
    first faults. Iteration ends for every provider; one that keeps its contract is its dictionary. An
    exported state reads back as its expansion; a scope that cannot be entered is an error before any work.

  \<^bold>\<open>What the lemmas show.\<close> For each adapter: a well-formedness invariant kept by every operation;
  exactness of one expansion (its arcs are those of an abstract step, at the same weight);
  the language of whole runs through the abstract machine; and that neither caching nor the order of
  expansions changes an answer. For the registries and codecs: stability, round trips, refinement of a
  batch by single steps. For the bounded parts: limits are respected, failures leave no trace, and
  panics (an \<open>expect\<close>, an index out of range, an overflow) are unreachable, since each such place is
  a separate branch of the model.

  \<^bold>\<open>Bounds and fuel.\<close> Loops that recurse on data are \<open>fun\<close> definitions that terminate. The rest
  carry the bound the program has: \<open>walk_loop\<close> of the ranking and \<open>paths_loop\<close> of an expansion recurse
  on the work left of their budget, which each round decreases, so running out is the
  program's own error and not an artefact of the model. Identifier spaces end at \<open>u32::MAX\<close> as in the
  source; where running out of identifiers loses arcs (the Levenshtein source skips them) the
  theorems that need them have the hypothesis that the space suffices, and soundness does not.

  \<^bold>\<open>What is not modelled.\<close> \<open>liblevenshtein\<close>, \<open>libdictenstein\<close> and \<open>lling_llang\<close> are not part of the
  repository: dictionaries, operation sets with their exact cost scales, the WallBreaker query, phonetic
  automata and their products, the universal automaton, pattern parsing and Unicode tables are parameters.
  Which decimal a floating-point weight is read as is a parameter, too. Finite weights are exact rationals:
  rounding of \<open>f64\<close> sums and products and their overflow to infinity are not modelled, and neither is the
  sign of a zero. Memory allocation failure, locks,
  atomics and threads are left out; a cancellation token may answer differently at each call. Of the C
  boundary the reference-counted handles, the error classification, the phonetic and WallBreaker records, and
  of the foreign bindings the discovery of vtables, snapshots and the choice of the adapter are not modelled.
\<close>

end
